(* ===== verification/Prelude.thy ===== *)
theory Prelude
  imports Main "HOL-Library.Word" "HOL-Library.Signed_Division"
begin

text \<open>
  Shared foundations of the development.

  \<^item> The result type \<open>'a res\<close> of code that can stop abnormally: a failed
    \<^verbatim>\<open>assert\<close>, an \<^verbatim>\<open>abort\<close> by the logger, an exception, a read
    outside an object. \<open>bind_r\<close> sequences such code, \<open>ensure\<close> is
    \<^verbatim>\<open>assert\<close>, and \<open>returns m P\<close> says that \<open>m\<close> ends normally
    with a value that satisfies \<open>P\<close> (total correctness).
  \<^item> The standard algorithms the sources call on character ranges
    (\<^verbatim>\<open>std::find\<close>, \<^verbatim>\<open>std::search\<close>, \<^verbatim>\<open>std::copy\<close>,
    \<^verbatim>\<open>vector::resize\<close>, \<^verbatim>\<open>isspace\<close>) and decimal printing
    (\<^verbatim>\<open>%d\<close>).
  \<^item> The collections \<open>wp\<close> (rules about \<open>returns\<close>) and \<open>seqs\<close> (rewrite
    rules about ranges) that the component proofs use.

  A \<^verbatim>\<open>char\<close> of the sources is the HOL type \<open>char\<close> (one byte); a pointer
  into a range is its index; \<^verbatim>\<open>size_t\<close> quantities bounded by the size of a
  live object are \<open>nat\<close>.
\<close>

named_theorems wp
named_theorems seqs

section \<open>Results of code that can stop\<close>

datatype fault =
    AssertFail string  \<comment> \<open>a failed \<^verbatim>\<open>assert\<close>: the process aborts\<close>
  | Abort string       \<comment> \<open>\<^verbatim>\<open>LOG_FATAL\<close>, \<^verbatim>\<open>LOG_SYSFATAL\<close>, \<^verbatim>\<open>abort()\<close>\<close>
  | Throws string      \<comment> \<open>a C++ exception leaves the function\<close>
  | Undefined string   \<comment> \<open>undefined behaviour: an access outside an object, signed overflow\<close>
  | Diverges string    \<comment> \<open>the function does not return\<close>

type_synonym 'a res = "fault + 'a"

definition bind_r :: "'a res \<Rightarrow> ('a \<Rightarrow> 'b res) \<Rightarrow> 'b res" where
  "bind_r m f = (case m of Inl e \<Rightarrow> Inl e | Inr x \<Rightarrow> f x)"

definition ensure :: "bool \<Rightarrow> string \<Rightarrow> 'a res \<Rightarrow> 'a res" where
  "ensure b msg k = (if b then k else Inl (AssertFail msg))"

definition returns :: "'a res \<Rightarrow> ('a \<Rightarrow> bool) \<Rightarrow> bool" where
  "returns m P = (case m of Inl _ \<Rightarrow> False | Inr x \<Rightarrow> P x)"

lemma bind_r_simps [simp]:
  "bind_r (Inr x) f = f x"
  "bind_r (Inl e) f = Inl e"
  by (simp_all add: bind_r_def)

lemma bind_r_cong [fundef_cong]:
  "m = m' \<Longrightarrow> (\<And>x. m' = Inr x \<Longrightarrow> f x = g x) \<Longrightarrow> bind_r m f = bind_r m' g"
  by (cases m') simp_all

lemma bind_r_assoc: "bind_r (bind_r m f) g = bind_r m (\<lambda>x. bind_r (f x) g)"
  by (cases m) simp_all

lemma bind_r_eq_Inr: "bind_r m f = Inr y \<longleftrightarrow> (\<exists>x. m = Inr x \<and> f x = Inr y)"
  by (cases m) simp_all

lemma ensure_simps [simp]:
  "ensure True msg k = k"
  "ensure False msg k = Inl (AssertFail msg)"
  by (simp_all add: ensure_def)

lemma ensure_eq_Inr: "ensure b msg k = Inr y \<longleftrightarrow> b \<and> k = Inr y"
  by (simp add: ensure_def)

lemma ensure_bind [simp]: "bind_r (ensure b msg k) f = ensure b msg (bind_r k f)"
  by (simp add: ensure_def)

lemma returns_simps [simp, wp]:
  "returns (Inr x) P = P x"
  "returns (Inl e) P = False"
  by (simp_all add: returns_def)

lemma returns_bind [wp]: "returns (bind_r m f) P = returns m (\<lambda>x. returns (f x) P)"
  by (cases m) simp_all

lemma returns_ensure [wp]: "returns (ensure b msg k) P \<longleftrightarrow> b \<and> returns k P"
  by (cases b) simp_all

text \<open>A state-passing operation applied to the elements of a list, in order.\<close>

fun fold_r :: "('a \<Rightarrow> 's \<Rightarrow> 's res) \<Rightarrow> 'a list \<Rightarrow> 's \<Rightarrow> 's res" where
  "fold_r f [] s = Inr s"
| "fold_r f (x # xs) s = bind_r (f x s) (fold_r f xs)"

lemma bind_fold_r_Nil [simp]: "bind_r m (fold_r f []) = m"
  by (cases m) simp_all

lemma fold_r_append: "fold_r f (xs @ ys) s = bind_r (fold_r f xs s) (fold_r f ys)"
proof (induction xs arbitrary: s)
  case (Cons x xs)
  then show ?case by (cases "f x s") simp_all
qed simp

lemma fold_r_invariant:
  "P s \<Longrightarrow> (\<And>x s. P s \<Longrightarrow> returns (f x s) P) \<Longrightarrow> returns (fold_r f xs s) P"
proof (induction xs arbitrary: s)
  case (Cons x xs)
  from Cons.prems(2) [OF Cons.prems(1), of x] obtain s' where "f x s = Inr s'" "P s'"
    by (cases "f x s") auto
  with Cons show ?case by simp
qed simp

lemma returns_if [wp]: "returns (if b then m else k) P = (if b then returns m P else returns k P)"
  by simp

lemma returns_mono: "returns m P \<Longrightarrow> (\<And>x. P x \<Longrightarrow> Q x) \<Longrightarrow> returns m Q"
  by (cases m) simp_all

lemma returns_bindI:
  assumes "returns m Q" and "\<And>x. Q x \<Longrightarrow> returns (f x) P"
  shows "returns (bind_r m f) P"
  unfolding returns_bind using assms by (rule returns_mono)

lemma returns_conj: "returns m P \<Longrightarrow> returns m Q \<Longrightarrow> returns m (\<lambda>x. P x \<and> Q x)"
  by (cases m) simp_all

lemma returns_Inr: "returns m P \<longleftrightarrow> (\<exists>x. m = Inr x \<and> P x)"
  by (cases m) simp_all

lemma returnsE:
  assumes "returns m P"
  obtains x where "m = Inr x" and "P x"
  using assms by (auto simp: returns_Inr)

text \<open>The code ends normally with a value that satisfies \<open>P\<close>, or memory is exhausted.\<close>

definition unless_oom :: "'a res \<Rightarrow> ('a \<Rightarrow> bool) \<Rightarrow> bool" where
  "unless_oom m P = (case m of Inl e \<Rightarrow> e = Throws ''bad_alloc'' | Inr x \<Rightarrow> P x)"

lemma unless_oom_simps [simp]:
  "unless_oom (Inr x) P = P x" "unless_oom (Inl e) P \<longleftrightarrow> e = Throws ''bad_alloc''"
  by (simp_all add: unless_oom_def)

lemma unless_oom_bindI:
  "unless_oom m Q \<Longrightarrow> (\<And>x. Q x \<Longrightarrow> unless_oom (f x) P) \<Longrightarrow> unless_oom (bind_r m f) P"
  by (cases m) simp_all

lemma unless_oom_mono: "unless_oom m P \<Longrightarrow> (\<And>x. P x \<Longrightarrow> Q x) \<Longrightarrow> unless_oom m Q"
  by (cases m) simp_all

lemma returns_unless_oom: "returns m P \<Longrightarrow> unless_oom m P"
  by (cases m) simp_all

lemma unless_oom_fold_r:
  "P s \<Longrightarrow> (\<And>x s. x \<in> set xs \<Longrightarrow> P s \<Longrightarrow> unless_oom (f x s) P) \<Longrightarrow> unless_oom (fold_r f xs s) P"
proof (induction xs arbitrary: s)
  case (Cons x xs)
  have "unless_oom (f x s) P" using Cons.prems by simp
  then show ?case using Cons by (cases "f x s") simp_all
qed simp

text \<open>Four steps of a relation.\<close>

lemma four_steps: "r a b \<Longrightarrow> r b c \<Longrightarrow> r c d \<Longrightarrow> r d e \<Longrightarrow> r\<^sup>*\<^sup>* a e"
  by (rule rtranclp.rtrancl_into_rtrancl, rule rtranclp.rtrancl_into_rtrancl,
      rule rtranclp.rtrancl_into_rtrancl, rule r_into_rtranclp)

section \<open>Ranges of characters\<close>

text \<open>\<^verbatim>\<open>[first, last)\<close> of an array, as a list.\<close>

definition range_of :: "'a list \<Rightarrow> nat \<Rightarrow> nat \<Rightarrow> 'a list" where
  "range_of xs i j = take (j - i) (drop i xs)"

lemma length_range_of [simp, seqs]: "length (range_of xs i j) = min (j - i) (length xs - i)"
  by (simp add: range_of_def min.commute)

lemma range_of_empty [simp, seqs]: "range_of xs i i = []"
  by (simp add: range_of_def)

lemma range_of_all [simp, seqs]: "range_of xs 0 (length xs) = xs"
  by (simp add: range_of_def)

lemma nth_range_of [seqs]: "k < j - i \<Longrightarrow> i + k < length xs \<Longrightarrow> range_of xs i j ! k = xs ! (i + k)"
  by (simp add: range_of_def)

lemma range_of_split:
  assumes "i \<le> j" and "j \<le> k"
  shows "range_of xs i k = range_of xs i j @ range_of xs j k"
proof -
  have "take (k - i) (drop i xs) = take ((j - i) + (k - j)) (drop i xs)"
    using assms by simp
  also have "\<dots> = take (j - i) (drop i xs) @ take (k - j) (drop (j - i) (drop i xs))"
    by (rule take_add)
  finally show ?thesis using assms by (simp add: range_of_def)
qed

lemma drop_range_of [seqs]: "drop n (range_of xs i j) = range_of xs (i + n) j"
  by (simp add: range_of_def drop_take add.commute)

lemma take_range_of [seqs]: "n \<le> j - i \<Longrightarrow> take n (range_of xs i j) = range_of xs i (i + n)"
  by (simp add: range_of_def min_def)

text \<open>\<^verbatim>\<open>std::copy(ys, ys + n, xs + i)\<close>: overwrite in place.\<close>

definition overwrite :: "'a list \<Rightarrow> nat \<Rightarrow> 'a list \<Rightarrow> 'a list" where
  "overwrite xs i ys = take i xs @ ys @ drop (i + length ys) xs"

lemma length_overwrite [simp, seqs]:
  "i + length ys \<le> length xs \<Longrightarrow> length (overwrite xs i ys) = length xs"
  by (simp add: overwrite_def)

lemma range_of_overwrite_before [seqs]:
  "j \<le> i \<Longrightarrow> i + length ys \<le> length xs \<Longrightarrow> range_of (overwrite xs i ys) k j = range_of xs k j"
  by (rule nth_equalityI) (auto simp: range_of_def overwrite_def nth_append)

lemma range_of_overwrite_at [seqs]:
  "i + length ys \<le> length xs \<Longrightarrow> range_of (overwrite xs i ys) i (i + length ys) = ys"
  by (simp add: overwrite_def range_of_def)

lemma range_of_overwrite_after [seqs]:
  assumes "i + length ys \<le> k" and "i + length ys \<le> length xs"
  shows "range_of (overwrite xs i ys) k j = range_of xs k j"
proof -
  have "drop k (overwrite xs i ys) = drop (k - (i + length ys)) (drop (i + length ys) xs)"
    using assms by (simp add: overwrite_def)
  also have "\<dots> = drop k xs" using assms by simp
  finally show ?thesis by (simp add: range_of_def)
qed

text \<open>\<^verbatim>\<open>vector<char>::resize(n)\<close>: new elements are value-initialised.\<close>

definition std_resize :: "nat \<Rightarrow> char list \<Rightarrow> char list" where
  "std_resize n xs = take n xs @ replicate (n - length xs) (CHR 0x00)"

lemma length_std_resize [simp, seqs]: "length (std_resize n xs) = n"
  by (simp add: std_resize_def)

lemma range_of_std_resize [seqs]:
  "j \<le> length xs \<Longrightarrow> length xs \<le> n \<Longrightarrow> range_of (std_resize n xs) i j = range_of xs i j"
  by (simp add: std_resize_def range_of_def)

section \<open>Searching\<close>

text \<open>
  \<^verbatim>\<open>std::find\<close> and \<^verbatim>\<open>std::search\<close> return the offset of the first
  match, or the length of the range (the end iterator) when there is none.
\<close>

fun std_find :: "'a \<Rightarrow> 'a list \<Rightarrow> nat" where
  "std_find c [] = 0"
| "std_find c (x # xs) = (if x = c then 0 else Suc (std_find c xs))"

fun std_search :: "'a list \<Rightarrow> 'a list \<Rightarrow> nat" where
  "std_search p [] = 0"
| "std_search p (x # xs) =
     (if take (length p) (x # xs) = p then 0 else Suc (std_search p xs))"

lemma std_find_le [simp]: "std_find c xs \<le> length xs"
  by (induction xs) auto

lemma std_find_less_iff [simp]: "std_find c xs < length xs \<longleftrightarrow> c \<in> set xs"
  by (induction xs) auto

lemma std_find_eq_length_iff [simp]: "std_find c xs = length xs \<longleftrightarrow> c \<notin> set xs"
  by (induction xs) auto

lemma nth_std_find: "c \<in> set xs \<Longrightarrow> xs ! std_find c xs = c"
  by (induction xs) auto

lemma take_std_find: "c \<notin> set (take (std_find c xs) xs)"
  by (induction xs) auto

lemma std_find_append: "std_find c (xs @ ys) = (if c \<in> set xs then std_find c xs else length xs + std_find c ys)"
  by (induction xs) auto

lemma std_search_le [simp]: "std_search p xs \<le> length xs"
  by (induction xs) auto

lemma std_search_match:
  "std_search p xs < length xs \<Longrightarrow> take (length p) (drop (std_search p xs) xs) = p"
  by (induction xs) (auto split: if_splits)

lemma std_search_room:
  "std_search p xs < length xs \<Longrightarrow> std_search p xs + length p \<le> length xs"
proof -
  assume "std_search p xs < length xs"
  then have "length (take (length p) (drop (std_search p xs) xs)) = length p"
    by (simp add: std_search_match)
  with \<open>std_search p xs < length xs\<close> show ?thesis by simp
qed

lemma std_search_first:
  "k < std_search p xs \<Longrightarrow> take (length p) (drop k xs) \<noteq> p"
  by (induction xs arbitrary: k) (auto simp: less_Suc_eq_0_disj split: if_splits)

lemma std_search_none:
  "std_search p xs = length xs \<Longrightarrow> p \<noteq> [] \<Longrightarrow> take (length p) (drop k xs) \<noteq> p"
proof (cases "k < length xs")
  case True
  assume "std_search p xs = length xs"
  with True show ?thesis by (simp add: std_search_first)
qed simp

lemma std_search_eqI:
  assumes "k < length xs" and "take (length p) (drop k xs) = p"
    and "\<And>i. i < k \<Longrightarrow> take (length p) (drop i xs) \<noteq> p"
  shows "std_search p xs = k"
proof (rule antisym)
  show "std_search p xs \<le> k"
    using std_search_first [of k p xs] assms(2) by (meson not_le)
  show "k \<le> std_search p xs"
    using std_search_match [of p xs] assms by (meson not_le order_less_trans)
qed

section \<open>C character and integer conventions\<close>

text \<open>\<^verbatim>\<open>isspace\<close> in the "C" locale.\<close>

definition c_isspace :: "char \<Rightarrow> bool" where
  "c_isspace c \<longleftrightarrow> c \<in> {CHR '' '', CHR 0x09, CHR 0x0A, CHR 0x0B, CHR 0x0C, CHR 0x0D}"

abbreviation CR :: char where "CR \<equiv> CHR 0x0D"
abbreviation LF :: char where "LF \<equiv> CHR 0x0A"

text \<open>Decimal printing: \<^verbatim>\<open>%d\<close>, \<^verbatim>\<open>std::to_string\<close>.\<close>

definition digit_char :: "nat \<Rightarrow> char" where
  "digit_char d = ''0123456789'' ! (d mod 10)"

fun show_nat :: "nat \<Rightarrow> string" where
  "show_nat n = (if n < 10 then [digit_char n] else show_nat (n div 10) @ [digit_char (n mod 10)])"

declare show_nat.simps [simp del]

definition show_int :: "int \<Rightarrow> string" where
  "show_int i = (if i < 0 then CHR ''-'' # show_nat (nat (- i)) else show_nat (nat i))"

text \<open>The value a run of decimal digits denotes.\<close>

fun digits_val :: "nat \<Rightarrow> string \<Rightarrow> nat" where
  "digits_val acc [] = acc"
| "digits_val acc (c # cs) = digits_val (10 * acc + (of_char c - 48)) cs"

text \<open>The characters of a C string.\<close>

definition c_chars :: "string \<Rightarrow> string" where
  "c_chars s = takeWhile (\<lambda>c. c \<noteq> CHR 0x00) s"

text \<open>\<^verbatim>\<open>atoi\<close>: leading blanks, a sign, digits.\<close>

definition c_atoi :: "string \<Rightarrow> int" where
  "c_atoi s = (let s1 = dropWhile c_isspace s;
                   neg = (case s1 of c # _ \<Rightarrow> c = CHR ''-'' | [] \<Rightarrow> False);
                   s2 = (case s1 of c # cs \<Rightarrow> if c = CHR ''-'' \<or> c = CHR ''+'' then cs else s1 | [] \<Rightarrow> []);
                   v = int (digits_val 0 (takeWhile (\<lambda>c. c \<in> set ''0123456789'') s2))
               in if neg then - v else v)"

lemma digits_val_append: "digits_val acc (xs @ ys) = digits_val (digits_val acc xs) ys"
  by (induction xs arbitrary: acc) simp_all

lemma less_10_cases:
  "(d::nat) < 10 \<Longrightarrow>
     d = 0 \<or> d = 1 \<or> d = 2 \<or> d = 3 \<or> d = 4 \<or> d = 5 \<or> d = 6 \<or> d = 7 \<or> d = 8 \<or> d = 9"
  by arith

lemma of_char_digit_char: "d < 10 \<Longrightarrow> (of_char (digit_char d) :: nat) = 48 + d"
  by (drule less_10_cases) (elim disjE; simp add: digit_char_def)

lemma digit_char_in: "digit_char d \<in> set ''0123456789''"
  unfolding digit_char_def by (rule nth_mem) simp

lemma digits_val_show_nat: "digits_val 0 (show_nat n) = n"
proof (induction n rule: show_nat.induct)
  case (1 n)
  show ?case
  proof (cases "n < 10")
    case True
    then show ?thesis by (subst show_nat.simps) (simp add: of_char_digit_char)
  next
    case False
    with 1 have "digits_val 0 (show_nat (n div 10)) = n div 10" by simp
    with False show ?thesis
      by (subst show_nat.simps) (simp add: digits_val_append of_char_digit_char)
  qed
qed

lemma show_nat_inj: "show_nat m = show_nat n \<Longrightarrow> m = n"
  by (metis digits_val_show_nat)

lemma show_nat_nonempty [simp]: "show_nat n \<noteq> []"
  by (subst show_nat.simps) simp

lemma length_show_nat: "n < 10 ^ Suc k \<Longrightarrow> length (show_nat n) \<le> Suc k"
proof (induction k arbitrary: n)
  case (Suc k)
  then have "length (show_nat (n div 10)) \<le> Suc k" by (simp add: less_mult_imp_div_less)
  then show ?case by (subst show_nat.simps) simp
qed (subst show_nat.simps, simp)

lemma set_show_nat: "c \<in> set (show_nat n) \<Longrightarrow> c \<in> set ''0123456789''"
proof (induction n rule: show_nat.induct)
  case (1 n)
  from 1 show ?case
    by (subst (asm) show_nat.simps) (use digit_char_in in \<open>auto split: if_splits\<close>)
qed

text \<open>What a protocol handler asks of its connection (\<^verbatim>\<open>TcpConnection\<close>), in order.\<close>

datatype conn_action = Send string | Shutdown | ForceClose

text \<open>A point in time: microseconds since the epoch (\<^verbatim>\<open>Timestamp\<close>).\<close>

type_synonym timestamp = int

text \<open>Two's-complement views of integers at a width.\<close>

definition wrap_s :: "nat \<Rightarrow> int \<Rightarrow> int" where
  "wrap_s n i = (i + 2 ^ (n - 1)) mod 2 ^ n - 2 ^ (n - 1)"

lemma wrap_s_id: "0 < n \<Longrightarrow> - (2 ^ (n - 1)) \<le> i \<Longrightarrow> i < 2 ^ (n - 1) \<Longrightarrow> wrap_s n i = i"
proof -
  assume n: "0 < n" and lo: "- (2 ^ (n - 1)) \<le> i" and hi: "i < 2 ^ (n - 1)"
  have "(2::int) ^ n = 2 * 2 ^ (n - 1)" using n by (cases n) simp_all
  with lo hi have "(i + 2 ^ (n - 1)) mod 2 ^ n = i + 2 ^ (n - 1)" by simp
  then show ?thesis by (simp add: wrap_s_def)
qed

end
