(* ===== verification/Endian.thy ===== *)
theory Endian
  imports Prelude
begin

text \<open>
  Byte order (\<^verbatim>\<open>netLayer/socket/Endian.h\<close>).

  The host is little-endian (the program targets Linux on x86-64): \<open>mem_of w\<close> is
  the memory image of an integer object and \<open>of_mem\<close> reads one back, as
  \<^verbatim>\<open>memcpy\<close> between an integer and a byte range does. On such a host the
  \<^verbatim>\<open>htobe\<close>/\<^verbatim>\<open>be..toh\<close> macros of glibc reverse the bytes. The lemmas show that
  an integer sent through \<^verbatim>\<open>hostToNetwork\<close> lies in memory most significant
  byte first, and that the two directions are inverse.
\<close>

section \<open>Memory images\<close>

fun bytes_le :: "nat \<Rightarrow> nat \<Rightarrow> char list" where
  "bytes_le 0 v = []"
| "bytes_le (Suc n) v = char_of v # bytes_le n (v div 256)"

fun nat_le :: "char list \<Rightarrow> nat" where
  "nat_le [] = 0"
| "nat_le (c # cs) = of_char c + 256 * nat_le cs"

definition mem_of :: "'a::len word \<Rightarrow> char list" where
  "mem_of w = bytes_le (LENGTH('a) div 8) (unat w)"

definition of_mem :: "char list \<Rightarrow> 'a::len word" where
  "of_mem cs = of_nat (nat_le cs)"

definition bswap :: "'a::len word \<Rightarrow> 'a word" where
  "bswap w = of_mem (rev (mem_of w))"

section \<open>The functions of Endian.h\<close>

definition hostToNetwork64 :: "64 word \<Rightarrow> 64 word" where
  "hostToNetwork64 host64 = bswap host64"

definition hostToNetwork32 :: "32 word \<Rightarrow> 32 word" where
  "hostToNetwork32 host32 = bswap host32"

definition hostToNetwork16 :: "16 word \<Rightarrow> 16 word" where
  "hostToNetwork16 host16 = bswap host16"

definition networkToHost64 :: "64 word \<Rightarrow> 64 word" where
  "networkToHost64 net64 = bswap net64"

definition networkToHost32 :: "32 word \<Rightarrow> 32 word" where
  "networkToHost32 net32 = bswap net32"

definition networkToHost16 :: "16 word \<Rightarrow> 16 word" where
  "networkToHost16 net16 = bswap net16"

lemmas endian_defs =
  hostToNetwork64_def hostToNetwork32_def hostToNetwork16_def
  networkToHost64_def networkToHost32_def networkToHost16_def

section \<open>Properties\<close>

lemma length_bytes_le [simp]: "length (bytes_le n v) = n"
  by (induction n arbitrary: v) simp_all

lemma length_mem_of [simp]: "length (mem_of (w :: 'a::len word)) = LENGTH('a) div 8"
  by (simp add: mem_of_def)

lemma nat_le_bytes_le: "nat_le (bytes_le n v) = v mod 256 ^ n"
proof (induction n arbitrary: v)
  case (Suc n)
  have "v mod (256 * 256 ^ n) = v mod 256 + 256 * (v div 256 mod 256 ^ n)"
    by (simp add: mod_mult2_eq)
  with Suc show ?case by simp
qed simp

lemma bytes_le_nat_le: "bytes_le (length cs) (nat_le cs) = cs"
  by (induction cs) (simp_all add: of_char_eq_iff [where 'a = nat, symmetric] del: of_char_eq_iff)

lemma nat_le_bound: "nat_le cs < 256 ^ length cs"
proof (induction cs)
  case (Cons c cs)
  have "(of_char c :: nat) < 256" by (rule nat_of_char_less_256)
  with Cons show ?case by (simp only: nat_le.simps power_Suc length_Cons)
qed simp

lemma bytes_le_0: "bytes_le n 0 = replicate n (CHR 0x00)"
  by (induction n) (simp_all add: char_of_def)

lemma nat_le_zeros: "nat_le (replicate n (CHR 0x00)) = 0"
  by (induction n) simp_all

lemma mem_of_0: "mem_of (0 :: 'a::len word) = replicate (LENGTH('a) div 8) (CHR 0x00)"
  by (simp add: mem_of_def bytes_le_0)

lemma bswap_0: "bswap 0 = 0"
  by (simp add: bswap_def mem_of_0 of_mem_def nat_le_zeros)

text \<open>The width of an integer type is a whole number of bytes.\<close>

definition whole_bytes :: "'a::len itself \<Rightarrow> bool" where
  "whole_bytes (t :: 'a itself) \<longleftrightarrow> 8 * (LENGTH('a) div 8) = LENGTH('a)"

lemma whole_bytes_simps [simp]:
  "whole_bytes TYPE(8)" "whole_bytes TYPE(16)"
  "whole_bytes TYPE(32)" "whole_bytes TYPE(64)"
  by (simp_all add: whole_bytes_def)

lemma whole_bytes_power:
  assumes "whole_bytes TYPE('a::len)"
  shows "(256::nat) ^ (LENGTH('a) div 8) = 2 ^ LENGTH('a)"
proof -
  have "(256::nat) ^ (LENGTH('a) div 8) = (2 ^ 8) ^ (LENGTH('a) div 8)" by simp
  also have "\<dots> = 2 ^ (8 * (LENGTH('a) div 8))" by (simp only: power_mult)
  also have "\<dots> = 2 ^ LENGTH('a)" using assms by (simp add: whole_bytes_def)
  finally show ?thesis .
qed

lemma of_mem_mem_of:
  assumes "whole_bytes TYPE('a::len)"
  shows "of_mem (mem_of w) = (w :: 'a word)"
  using assms by (simp add: of_mem_def mem_of_def nat_le_bytes_le whole_bytes_power)

lemma mem_of_of_mem:
  assumes "whole_bytes TYPE('a::len)" and "length cs = LENGTH('a) div 8"
  shows "mem_of (of_mem cs :: 'a word) = cs"
proof -
  have "nat_le cs < 2 ^ LENGTH('a)"
    using nat_le_bound [of cs] assms by (simp add: whole_bytes_power)
  then have "unat (of_nat (nat_le cs) :: 'a word) = nat_le cs"
    by (simp add: unat_of_nat)
  then show ?thesis
    using assms(2) bytes_le_nat_le [of cs] by (simp add: mem_of_def of_mem_def)
qed

lemma mem_of_bswap:
  "whole_bytes TYPE('a::len) \<Longrightarrow> mem_of (bswap (w :: 'a word)) = rev (mem_of w)"
  by (simp add: bswap_def mem_of_of_mem)

lemma bswap_bswap:
  "whole_bytes TYPE('a::len) \<Longrightarrow> bswap (bswap w) = (w :: 'a word)"
  by (simp add: bswap_def [of "bswap w"] mem_of_bswap of_mem_mem_of)

lemma networkToHost_hostToNetwork [simp]:
  "networkToHost64 (hostToNetwork64 x) = x"
  "networkToHost32 (hostToNetwork32 y) = y"
  "networkToHost16 (hostToNetwork16 z) = z"
  by (simp_all add: endian_defs bswap_bswap)

lemma mem_of_hostToNetwork:
  "mem_of (hostToNetwork64 x) = rev (mem_of x)"
  "mem_of (hostToNetwork32 y) = rev (mem_of y)"
  "mem_of (hostToNetwork16 z) = rev (mem_of z)"
  by (simp_all add: endian_defs mem_of_bswap)

end
