(* ===== verification/StringPieces.thy ===== *)
theory StringPieces
  imports Prelude "HOL-Library.Char_ord" "HOL-Library.List_Lexorder"
begin

text \<open>
  \<^verbatim>\<open>StringPiece\<close> (\<^verbatim>\<open>base/StringPiece.h\<close>): a view of characters held
  elsewhere. The pointer is the memory it points to (\<open>None\<close> is \<^verbatim>\<open>NULL\<close>), the
  length is a C \<^verbatim>\<open>int\<close>, so the conversions from \<^verbatim>\<open>size_t\<close> wrap at 32 bits.
  The main facts: the relational operators are the lexicographic order of the viewed
  bytes, \<open>compare\<close> agrees with them, and \<open>starts_with\<close> is the prefix relation.
\<close>

section \<open>Data and constructors\<close>

record string_piece =
  sp_ptr :: "char list option"
  sp_length :: int

definition sp_mem :: "string_piece \<Rightarrow> char list" where
  "sp_mem p = (case sp_ptr p of None \<Rightarrow> [] | Some m \<Rightarrow> m)"

text \<open>\<^verbatim>\<open>static_cast<int>\<close> of a \<^verbatim>\<open>size_t\<close>.\<close>

definition to_int32 :: "nat \<Rightarrow> int" where
  "to_int32 n = wrap_s 32 (int n)"

text \<open>\<^verbatim>\<open>strlen\<close>: the characters before the terminating zero.\<close>

definition c_strlen :: "char list \<Rightarrow> nat" where
  "c_strlen mem = std_find (CHR 0x00) mem"

definition piece_empty :: string_piece where
  "piece_empty = \<lparr>sp_ptr = None, sp_length = 0\<rparr>"

definition piece_of_cstr :: "char list \<Rightarrow> string_piece" where
  "piece_of_cstr str = \<lparr>sp_ptr = Some str, sp_length = to_int32 (c_strlen str)\<rparr>"

definition piece_of_string :: "string \<Rightarrow> string_piece" where
  "piece_of_string str = \<lparr>sp_ptr = Some str, sp_length = to_int32 (length str)\<rparr>"

definition piece_of :: "char list \<Rightarrow> int \<Rightarrow> string_piece" where
  "piece_of offset len = \<lparr>sp_ptr = Some offset, sp_length = len\<rparr>"

section \<open>Operations\<close>

definition sp_empty :: "string_piece \<Rightarrow> bool" where
  "sp_empty p \<longleftrightarrow> sp_length p = 0"

definition sp_clear :: "string_piece \<Rightarrow> string_piece" where
  "sp_clear p = p\<lparr>sp_ptr := None, sp_length := 0\<rparr>"

definition sp_set :: "char list \<Rightarrow> int \<Rightarrow> string_piece \<Rightarrow> string_piece" where
  "sp_set buffer len p = p\<lparr>sp_ptr := Some buffer, sp_length := len\<rparr>"

definition sp_set_cstr :: "char list \<Rightarrow> string_piece \<Rightarrow> string_piece" where
  "sp_set_cstr str p = p\<lparr>sp_ptr := Some str, sp_length := to_int32 (c_strlen str)\<rparr>"

text \<open>\<^verbatim>\<open>operator[]\<close> does not check its index.\<close>

definition sp_at :: "string_piece \<Rightarrow> int \<Rightarrow> char res" where
  "sp_at p i =
     (if 0 \<le> i \<and> nat i < length (sp_mem p) then Inr (sp_mem p ! nat i)
      else Inl (Undefined ''StringPiece index''))"

definition remove_prefix :: "int \<Rightarrow> string_piece \<Rightarrow> string_piece res" where
  "remove_prefix n p =
     (if 0 \<le> n \<and> nat n \<le> length (sp_mem p)
      then Inr (p\<lparr>sp_ptr := map_option (drop (nat n)) (sp_ptr p), sp_length := sp_length p - n\<rparr>)
      else Inl (Undefined ''pointer outside the viewed characters''))"

definition remove_suffix :: "int \<Rightarrow> string_piece \<Rightarrow> string_piece" where
  "remove_suffix n p = p\<lparr>sp_length := sp_length p - n\<rparr>"

text \<open>
  \<^verbatim>\<open>memcmp\<close> compares unsigned bytes; only the sign of its result is specified.
  A negative length converts to an enormous \<^verbatim>\<open>size_t\<close>.
\<close>

fun memcmp_list :: "char list \<Rightarrow> char list \<Rightarrow> int" where
  "memcmp_list [] ys = 0"
| "memcmp_list xs [] = 0"
| "memcmp_list (x # xs) (y # ys) =
     (if x = y then memcmp_list xs ys
      else if (of_char x :: nat) < of_char y then -1 else 1)"

definition memcmp :: "char list \<Rightarrow> char list \<Rightarrow> int \<Rightarrow> int res" where
  "memcmp p q n =
     (if 0 \<le> n \<and> nat n \<le> length p \<and> nat n \<le> length q
      then Inr (memcmp_list (take (nat n) p) (take (nat n) q))
      else Inl (Undefined ''memcmp outside an object''))"

definition sp_eq :: "string_piece \<Rightarrow> string_piece \<Rightarrow> bool res" where
  "sp_eq p x =
     (if sp_length p = sp_length x
      then bind_r (memcmp (sp_mem p) (sp_mem x) (sp_length p)) (\<lambda>r. Inr (r = 0))
      else Inr False)"

definition sp_neq :: "string_piece \<Rightarrow> string_piece \<Rightarrow> bool res" where
  "sp_neq p x = bind_r (sp_eq p x) (\<lambda>b. Inr (\<not> b))"

text \<open>The macro \<^verbatim>\<open>STRINGPIECE_BINARY_PREDICATE(cmp, auxcmp)\<close> and its four uses.\<close>

definition sp_binary_predicate ::
    "(int \<Rightarrow> int \<Rightarrow> bool) \<Rightarrow> (int \<Rightarrow> int \<Rightarrow> bool) \<Rightarrow> string_piece \<Rightarrow> string_piece \<Rightarrow> bool res" where
  "sp_binary_predicate cmp auxcmp p x =
     bind_r (memcmp (sp_mem p) (sp_mem x)
               (if sp_length p < sp_length x then sp_length p else sp_length x))
       (\<lambda>r. Inr (auxcmp r 0 \<or> (r = 0 \<and> cmp (sp_length p) (sp_length x))))"

definition sp_less :: "string_piece \<Rightarrow> string_piece \<Rightarrow> bool res" where
  "sp_less = sp_binary_predicate (<) (<)"

definition sp_le :: "string_piece \<Rightarrow> string_piece \<Rightarrow> bool res" where
  "sp_le = sp_binary_predicate (\<le>) (<)"

definition sp_ge :: "string_piece \<Rightarrow> string_piece \<Rightarrow> bool res" where
  "sp_ge = sp_binary_predicate (\<ge>) (>)"

definition sp_greater :: "string_piece \<Rightarrow> string_piece \<Rightarrow> bool res" where
  "sp_greater = sp_binary_predicate (>) (>)"

definition sp_compare :: "string_piece \<Rightarrow> string_piece \<Rightarrow> int res" where
  "sp_compare p x =
     bind_r (memcmp (sp_mem p) (sp_mem x)
               (if sp_length p < sp_length x then sp_length p else sp_length x))
       (\<lambda>r. Inr (if r = 0
                 then (if sp_length p < sp_length x then -1
                       else if sp_length p > sp_length x then 1 else r)
                 else r))"

text \<open>\<^verbatim>\<open>string(ptr, n)\<close>: a null pointer or a length that is a negative \<^verbatim>\<open>int\<close> throws.\<close>

definition as_string :: "string_piece \<Rightarrow> string res" where
  "as_string p =
     (if sp_length p < 0 then Inl (Throws ''length_error'')
      else case sp_ptr p of
             None \<Rightarrow> if sp_length p = 0 then Inr [] else Inl (Throws ''logic_error'')
           | Some m \<Rightarrow> if nat (sp_length p) \<le> length m then Inr (take (nat (sp_length p)) m)
                       else Inl (Undefined ''read outside the viewed characters''))"

definition CopyToString :: "string_piece \<Rightarrow> string \<Rightarrow> string res" where
  "CopyToString p target =
     (if sp_length p < 0 then Inl (Throws ''length_error'')
      else if nat (sp_length p) \<le> length (sp_mem p) then Inr (take (nat (sp_length p)) (sp_mem p))
      else Inl (Undefined ''read outside the viewed characters''))"

definition starts_with :: "string_piece \<Rightarrow> string_piece \<Rightarrow> bool res" where
  "starts_with p x =
     (if sp_length p \<ge> sp_length x
      then bind_r (memcmp (sp_mem p) (sp_mem x) (sp_length x)) (\<lambda>r. Inr (r = 0))
      else Inr False)"

section \<open>What a piece views\<close>

definition sp_ok :: "string_piece \<Rightarrow> bool" where
  "sp_ok p \<longleftrightarrow> 0 \<le> sp_length p \<and> nat (sp_length p) \<le> length (sp_mem p)"

definition view :: "string_piece \<Rightarrow> string" where
  "view p = take (nat (sp_length p)) (sp_mem p)"

lemma length_view [simp]: "sp_ok p \<Longrightarrow> length (view p) = nat (sp_length p)"
  by (simp add: view_def sp_ok_def)

lemma to_int32_id [simp]: "n < 2 ^ 31 \<Longrightarrow> to_int32 n = int n"
  by (simp add: to_int32_def wrap_s_id)

lemma piece_of_string_ok:
  "length s < 2 ^ 31 \<Longrightarrow> sp_ok (piece_of_string s) \<and> view (piece_of_string s) = s"
  by (simp add: sp_ok_def view_def piece_of_string_def sp_mem_def)

lemma piece_of_cstr_literal:
  "length s < 2 ^ 31 \<Longrightarrow> CHR 0x00 \<notin> set s \<Longrightarrow>
     sp_ok (piece_of_cstr (s @ [CHR 0x00])) \<and> view (piece_of_cstr (s @ [CHR 0x00])) = s"
  by (simp add: sp_ok_def view_def piece_of_cstr_def sp_mem_def c_strlen_def std_find_append)

lemma as_string_view: "sp_ok p \<Longrightarrow> as_string p = Inr (view p)"
  by (auto simp: as_string_def view_def sp_ok_def sp_mem_def split: option.splits)

section \<open>The order of the bytes\<close>

lemma less_char_nat: "c < (d :: char) \<longleftrightarrow> (of_char c :: nat) < of_char d"
  by (simp add: less_char_def)

lemma memcmp_list_Nil2 [simp]: "memcmp_list xs [] = 0"
  by (cases xs) simp_all

lemma memcmp_list_eq_0: "length xs = length ys \<Longrightarrow> memcmp_list xs ys = 0 \<longleftrightarrow> xs = ys"
  by (induction xs ys rule: memcmp_list.induct) auto

lemma memcmp_list_less:
  "length xs = length ys \<Longrightarrow> memcmp_list xs ys < 0 \<longleftrightarrow> xs < ys"
  by (induction xs ys rule: memcmp_list.induct) (auto simp: less_char_nat)

lemma memcmp_list_swap: "memcmp_list ys xs = - memcmp_list xs ys"
  by (induction xs ys rule: memcmp_list.induct) (auto simp: not_less le_less)

text \<open>
  Comparing the common prefix and then the lengths is the lexicographic order.
\<close>

lemma Nil_less_iff: "[] < (ys :: char list) \<longleftrightarrow> ys \<noteq> []"
  by (cases ys) simp_all

lemma less_list_by_prefix:
  fixes xs ys :: "char list"
  defines "n \<equiv> min (length xs) (length ys)"
  shows "xs < ys \<longleftrightarrow> take n xs < take n ys \<or> (take n xs = take n ys \<and> length xs < length ys)"
  unfolding n_def by (induction xs ys rule: memcmp_list.induct) (auto simp: Nil_less_iff)

lemma length_view_order:
  assumes "sp_ok p" and "sp_ok x"
  shows "length (view p) < length (view x) \<longleftrightarrow> sp_length p < sp_length x"
    and "length (view p) = length (view x) \<longleftrightarrow> sp_length p = sp_length x"
  using assms by (auto simp: sp_ok_def view_def)

lemma sp_okE:
  assumes "sp_ok p"
  obtains n where "sp_length p = int n" and "n \<le> length (sp_mem p)" and "view p = take n (sp_mem p)"
  using assms by (auto simp: sp_ok_def view_def intro: that [of "nat (sp_length p)"])

lemma memcmp_views:
  assumes "sp_ok p" and "sp_ok x"
  shows "memcmp (sp_mem p) (sp_mem x)
           (if sp_length p < sp_length x then sp_length p else sp_length x) =
         Inr (memcmp_list (take (min (length (view p)) (length (view x))) (view p))
                          (take (min (length (view p)) (length (view x))) (view x)))"
  using assms by (elim sp_okE) (simp add: memcmp_def min_def)

lemma sp_less_lex:
  assumes "sp_ok p" and "sp_ok x"
  shows "sp_less p x = Inr (view p < view x)"
  using assms less_list_by_prefix [of "view p" "view x"]
  by (simp add: sp_less_def sp_binary_predicate_def memcmp_views memcmp_list_less
      memcmp_list_eq_0 length_view_order del: length_view)

lemma sp_eq_view:
  assumes "sp_ok p" and "sp_ok x"
  shows "sp_eq p x = Inr (view p = view x)"
proof (cases "sp_length p = sp_length x")
  case True
  with assms show ?thesis
    by (simp add: sp_eq_def memcmp_def sp_ok_def memcmp_list_eq_0 view_def)
next
  case False
  with assms have "length (view p) \<noteq> length (view x)"
    by (simp add: length_view_order del: length_view)
  with False show ?thesis by (auto simp: sp_eq_def)
qed

lemma sp_compare_sign:
  assumes "sp_ok p" and "sp_ok x"
  shows "\<exists>r. sp_compare p x = Inr r \<and> (r < 0 \<longleftrightarrow> view p < view x) \<and> (r = 0 \<longleftrightarrow> view p = view x)"
proof -
  let ?n = "min (length (view p)) (length (view x))"
  let ?r = "memcmp_list (take ?n (view p)) (take ?n (view x))"
  have eq: "view p = view x \<longleftrightarrow> ?r = 0 \<and> sp_length p = sp_length x"
    using assms length_view_order(2) [OF assms]
    by (cases "length (view p) = length (view x)") (auto simp: memcmp_list_eq_0 simp del: length_view)
  have lt: "view p < view x \<longleftrightarrow> ?r < 0 \<or> (?r = 0 \<and> sp_length p < sp_length x)"
    using assms less_list_by_prefix [of "view p" "view x"]
    by (simp add: memcmp_list_less memcmp_list_eq_0 length_view_order del: length_view)
  show ?thesis unfolding eq lt using assms by (auto simp: sp_compare_def memcmp_views)
qed

lemma starts_with_prefix:
  assumes "sp_ok p" and "sp_ok x"
  shows "starts_with p x = Inr (take (length (view x)) (view p) = view x)"
proof (cases "sp_length p \<ge> sp_length x")
  case True
  with assms show ?thesis
    by (elim sp_okE) (simp add: starts_with_def memcmp_def memcmp_list_eq_0 min_absorb1)
next
  case False
  with assms have "length (view p) < length (view x)"
    by (simp add: length_view_order del: length_view)
  then have "take (length (view x)) (view p) \<noteq> view x" by (metis less_irrefl less_imp_le take_all)
  with False show ?thesis by (simp add: starts_with_def)
qed

lemma sp_binary_views:
  assumes "sp_ok p" and "sp_ok x"
  shows "sp_le p x = Inr (view p \<le> view x)" and "sp_greater p x = Inr (view x < view p)"
    and "sp_ge p x = Inr (view x \<le> view p)"
proof -
  let ?n = "min (length (view p)) (length (view x))"
  let ?a = "take ?n (view p)" and ?b = "take ?n (view x)"
  have lt: "view p < view x \<longleftrightarrow> ?a < ?b \<or> ?a = ?b \<and> length (view p) < length (view x)"
    by (rule less_list_by_prefix)
  have gt: "view x < view p \<longleftrightarrow> ?b < ?a \<or> ?b = ?a \<and> length (view x) < length (view p)"
    using less_list_by_prefix [of "view x" "view p"]
    unfolding min.commute [of "length (view x)"] .
  have pos: "0 < memcmp_list ?a ?b \<longleftrightarrow> ?b < ?a"
    using memcmp_list_less [of ?b ?a] unfolding memcmp_list_swap [of ?b ?a] by simp
  have neg: "memcmp_list ?a ?b < 0 \<longleftrightarrow> ?a < ?b" by (rule memcmp_list_less) simp
  have zero: "memcmp_list ?a ?b = 0 \<longleftrightarrow> ?a = ?b" by (rule memcmp_list_eq_0) simp
  note views = memcmp_views [OF assms] sp_binary_predicate_def pos neg zero
  have le: "view p \<le> view x \<longleftrightarrow> ?a < ?b \<or> ?a = ?b \<and> sp_length p \<le> sp_length x"
    unfolding not_less [of "view x", symmetric] gt length_view_order(1) [OF assms(2,1)]
    by (metis not_less not_less_iff_gr_or_eq)
  have ge: "view x \<le> view p \<longleftrightarrow> ?b < ?a \<or> ?a = ?b \<and> sp_length x \<le> sp_length p"
    unfolding not_less [of "view p", symmetric] lt length_view_order(1) [OF assms]
    by (metis not_less not_less_iff_gr_or_eq)
  show "sp_le p x = Inr (view p \<le> view x)" unfolding le by (simp add: sp_le_def views)
  show "sp_ge p x = Inr (view x \<le> view p)" unfolding ge by (simp add: sp_ge_def views)
  show "sp_greater p x = Inr (view x < view p)"
    unfolding gt length_view_order(1) [OF assms(2,1)]
    by (simp add: sp_greater_def views eq_commute [of ?b])
qed

section \<open>Properties\<close>

text \<open>
  On pieces that view live characters the comparison operators and \<^verbatim>\<open>compare\<close> are the
  lexicographic order of the viewed (unsigned) bytes, a proper prefix being smaller, and
  \<^verbatim>\<open>starts_with\<close> is the prefix relation: none of them reads outside the views.
\<close>

theorem string_piece_order:
  assumes "sp_ok p" and "sp_ok x"
  shows "sp_eq p x = Inr (view p = view x) \<and> sp_neq p x = Inr (view p \<noteq> view x) \<and>
         sp_less p x = Inr (view p < view x) \<and> sp_le p x = Inr (view p \<le> view x) \<and>
         sp_greater p x = Inr (view p > view x) \<and> sp_ge p x = Inr (view p \<ge> view x) \<and>
         (\<exists>r. sp_compare p x = Inr r \<and> (r < 0 \<longleftrightarrow> view p < view x) \<and> (r = 0 \<longleftrightarrow> view p = view x)) \<and>
         starts_with p x = Inr (take (length (view x)) (view p) = view x)"
  using sp_eq_view [OF assms] sp_less_lex [OF assms] sp_binary_views [OF assms]
    sp_compare_sign [OF assms] starts_with_prefix [OF assms]
  by (simp add: sp_neq_def del: length_view)

theorem string_piece_order_witness:
  "sp_less (piece_of ''abcX'' 3) (piece_of ''abd'' 3) = Inr True \<and>
   starts_with (piece_of ''abcX'' 3) (piece_of ''ab'' 2) = Inr True"
proof -
  have ok: "sp_ok (piece_of ''abcX'' 3)" "sp_ok (piece_of ''abd'' 3)" "sp_ok (piece_of ''ab'' 2)"
    by (simp_all add: sp_ok_def piece_of_def sp_mem_def)
  have views: "view (piece_of ''abcX'' 3) = ''abc''" "view (piece_of ''abd'' 3) = ''abd''"
    "view (piece_of ''ab'' 2) = ''ab''"
    by (simp_all add: view_def piece_of_def sp_mem_def)
  show ?thesis
    using string_piece_order [OF ok(1) ok(2)] string_piece_order [OF ok(1) ok(3)]
    by (simp add: views less_char_nat)
qed

end
