(* ===== verification/Buffer.thy ===== *)
theory Buffer
  imports Prelude Endian StringPieces
begin

text \<open>
  The network buffer (\<^verbatim>\<open>netLayer/Buffer.h\<close>, \<^verbatim>\<open>netLayer/Buffer.cpp\<close>).

  The record has the three fields of the class. A pointer into the buffer is its
  index in \<open>storage\<close>; a range \<^verbatim>\<open>[data, data + len)\<close> passed to the buffer is the list
  of its characters, so lengths are sizes of live objects and do not overflow
  \<^verbatim>\<open>size_t\<close>. \<open>buffer_ok\<close> is the picture in the class comment (with room for the
  cheap prepend), \<open>readable\<close> abstracts a buffer to its content. The locale
  \<open>byte_queue\<close> states what the clients of the buffer rely on; it is interpreted on
  the operations below, and the properties show that any sequence of appends and
  retrieves behaves as a first-in first-out queue of bytes with no assertion
  failing, that integers survive a round trip through the buffer, that
  \<open>prepend\<close> puts a header in front, that \<open>readFd\<close> appends exactly the bytes
  \<^verbatim>\<open>readv\<close> delivered, and that \<open>findCRLF\<close> finds the first line end.
\<close>

section \<open>State\<close>

record buffer =
  storage :: "char list"
  readerIndex :: nat
  writerIndex :: nat

definition kCheapPrepend :: nat where "kCheapPrepend = 8"
definition kInitialSize :: nat where "kInitialSize = 1024"
definition kCRLF :: string where "kCRLF = [CR, LF]"

definition readableBytes :: "buffer \<Rightarrow> nat" where
  "readableBytes b = writerIndex b - readerIndex b"

definition writableBytes :: "buffer \<Rightarrow> nat" where
  "writableBytes b = length (storage b) - writerIndex b"

definition prependableBytes :: "buffer \<Rightarrow> nat" where
  "prependableBytes b = readerIndex b"

definition peek :: "buffer \<Rightarrow> nat" where
  "peek b = readerIndex b"

definition beginWrite :: "buffer \<Rightarrow> nat" where
  "beginWrite b = writerIndex b"

definition Buffer_new :: "nat \<Rightarrow> buffer res" where
  "Buffer_new initialSize =
     (let b = \<lparr>storage = replicate (kCheapPrepend + initialSize) (CHR 0x00),
               readerIndex = kCheapPrepend, writerIndex = kCheapPrepend\<rparr>
      in ensure (readableBytes b = 0) ''readableBytes() == 0''
           (ensure (writableBytes b = initialSize) ''writableBytes() == initialSize''
             (ensure (prependableBytes b = kCheapPrepend) ''prependableBytes() == kCheapPrepend''
               (Inr b))))"

definition buffer_swap :: "buffer \<Rightarrow> buffer \<Rightarrow> buffer \<times> buffer" where
  "buffer_swap b rhs =
     (b\<lparr>storage := storage rhs, readerIndex := readerIndex rhs, writerIndex := writerIndex rhs\<rparr>,
      rhs\<lparr>storage := storage b, readerIndex := readerIndex b, writerIndex := writerIndex b\<rparr>)"

section \<open>Searching\<close>

definition findCRLF :: "buffer \<Rightarrow> nat option" where
  "findCRLF b =
     (let crlf = peek b + std_search kCRLF (range_of (storage b) (peek b) (beginWrite b))
      in if crlf = beginWrite b then None else Some crlf)"

definition findCRLF_from :: "nat \<Rightarrow> buffer \<Rightarrow> nat option res" where
  "findCRLF_from start b =
     ensure (peek b \<le> start) ''peek() <= start''
       (ensure (start \<le> beginWrite b) ''start <= beginWrite()''
         (let crlf = start + std_search kCRLF (range_of (storage b) start (beginWrite b))
          in Inr (if crlf = beginWrite b then None else Some crlf)))"

text \<open>\<^verbatim>\<open>memchr(p, c, n)\<close>: the first match, or \<^verbatim>\<open>NULL\<close>.\<close>

definition memchr_at :: "char list \<Rightarrow> nat \<Rightarrow> char \<Rightarrow> nat \<Rightarrow> nat option" where
  "memchr_at mem p c n =
     (let k = std_find c (range_of mem p (p + n))
      in if k = length (range_of mem p (p + n)) then None else Some (p + k))"

definition findEOL :: "buffer \<Rightarrow> nat option" where
  "findEOL b = memchr_at (storage b) (peek b) LF (readableBytes b)"

definition findEOL_from :: "nat \<Rightarrow> buffer \<Rightarrow> nat option res" where
  "findEOL_from start b =
     ensure (peek b \<le> start) ''peek() <= start''
       (ensure (start \<le> beginWrite b) ''start <= beginWrite()''
         (Inr (memchr_at (storage b) start LF (beginWrite b - start))))"

section \<open>Retrieving\<close>

definition retrieveAll :: "buffer \<Rightarrow> buffer" where
  "retrieveAll b = b\<lparr>readerIndex := kCheapPrepend, writerIndex := kCheapPrepend\<rparr>"

definition retrieve :: "nat \<Rightarrow> buffer \<Rightarrow> buffer res" where
  "retrieve len b =
     ensure (len \<le> readableBytes b) ''len <= readableBytes()''
       (if len < readableBytes b then Inr (b\<lparr>readerIndex := readerIndex b + len\<rparr>)
        else Inr (retrieveAll b))"

definition retrieveUntil :: "nat \<Rightarrow> buffer \<Rightarrow> buffer res" where
  "retrieveUntil end_ptr b =
     ensure (peek b \<le> end_ptr) ''peek() <= end''
       (ensure (end_ptr \<le> beginWrite b) ''end <= beginWrite()''
         (retrieve (end_ptr - peek b) b))"

definition retrieveInt64 :: "buffer \<Rightarrow> buffer res" where "retrieveInt64 b = retrieve 8 b"
definition retrieveInt32 :: "buffer \<Rightarrow> buffer res" where "retrieveInt32 b = retrieve 4 b"
definition retrieveInt16 :: "buffer \<Rightarrow> buffer res" where "retrieveInt16 b = retrieve 2 b"
definition retrieveInt8 :: "buffer \<Rightarrow> buffer res" where "retrieveInt8 b = retrieve 1 b"

definition retrieveAsString :: "nat \<Rightarrow> buffer \<Rightarrow> (string \<times> buffer) res" where
  "retrieveAsString len b =
     ensure (len \<le> readableBytes b) ''len <= readableBytes()''
       (let result = range_of (storage b) (peek b) (peek b + len)
        in bind_r (retrieve len b) (\<lambda>b'. Inr (result, b')))"

definition retrieveAllAsString :: "buffer \<Rightarrow> (string \<times> buffer) res" where
  "retrieveAllAsString b = retrieveAsString (readableBytes b) b"

definition toStringPiece :: "buffer \<Rightarrow> string_piece" where
  "toStringPiece b = piece_of (drop (peek b) (storage b)) (to_int32 (readableBytes b))"

section \<open>Appending\<close>

definition makeSpace :: "nat \<Rightarrow> buffer \<Rightarrow> buffer res" where
  "makeSpace len b =
     (if writableBytes b + prependableBytes b < len + kCheapPrepend
      then Inr (b\<lparr>storage := std_resize (writerIndex b + len) (storage b)\<rparr>)
      else ensure (kCheapPrepend < readerIndex b) ''kCheapPrepend < readerIndex_''
             (let rd = readableBytes b;
                  b' = b\<lparr>storage := overwrite (storage b) kCheapPrepend
                                     (range_of (storage b) (readerIndex b) (writerIndex b)),
                         readerIndex := kCheapPrepend,
                         writerIndex := kCheapPrepend + rd\<rparr>
              in ensure (rd = readableBytes b') ''readable == readableBytes()'' (Inr b')))"

definition ensureWritableBytes :: "nat \<Rightarrow> buffer \<Rightarrow> buffer res" where
  "ensureWritableBytes len b =
     bind_r (if writableBytes b < len then makeSpace len b else Inr b)
       (\<lambda>b'. ensure (len \<le> writableBytes b') ''writableBytes() >= len'' (Inr b'))"

definition hasWritten :: "nat \<Rightarrow> buffer \<Rightarrow> buffer res" where
  "hasWritten len b =
     ensure (len \<le> writableBytes b) ''len <= writableBytes()''
       (Inr (b\<lparr>writerIndex := writerIndex b + len\<rparr>))"

definition unwrite :: "nat \<Rightarrow> buffer \<Rightarrow> buffer res" where
  "unwrite len b =
     ensure (len \<le> readableBytes b) ''len <= readableBytes()''
       (Inr (b\<lparr>writerIndex := writerIndex b - len\<rparr>))"

definition buf_append :: "char list \<Rightarrow> buffer \<Rightarrow> buffer res" where
  "buf_append data b =
     bind_r (ensureWritableBytes (length data) b)
       (\<lambda>b'. hasWritten (length data)
               (b'\<lparr>storage := overwrite (storage b') (beginWrite b') data\<rparr>))"

text \<open>
  \<^verbatim>\<open>append(const StringPiece&)\<close>: the \<^verbatim>\<open>int\<close> length converts to \<^verbatim>\<open>size_t\<close>; a
  negative one, or one past the viewed characters, reads outside the object.
\<close>

definition append_piece :: "string_piece \<Rightarrow> buffer \<Rightarrow> buffer res" where
  "append_piece str b =
     (if 0 \<le> sp_length str \<and> nat (sp_length str) \<le> length (sp_mem str)
      then buf_append (take (nat (sp_length str)) (sp_mem str)) b
      else Inl (Undefined ''read outside the viewed characters''))"

definition appendInt64 :: "64 word \<Rightarrow> buffer \<Rightarrow> buffer res" where
  "appendInt64 x b = buf_append (mem_of (hostToNetwork64 x)) b"

definition appendInt32 :: "32 word \<Rightarrow> buffer \<Rightarrow> buffer res" where
  "appendInt32 x b = buf_append (mem_of (hostToNetwork32 x)) b"

definition appendInt16 :: "16 word \<Rightarrow> buffer \<Rightarrow> buffer res" where
  "appendInt16 x b = buf_append (mem_of (hostToNetwork16 x)) b"

definition appendInt8 :: "8 word \<Rightarrow> buffer \<Rightarrow> buffer res" where
  "appendInt8 x b = buf_append (mem_of x) b"

section \<open>Integers\<close>

definition peekInt64 :: "buffer \<Rightarrow> 64 word res" where
  "peekInt64 b =
     ensure (readableBytes b \<ge> 8) ''readableBytes() >= sizeof(int64_t)''
       (Inr (networkToHost64 (of_mem (range_of (storage b) (peek b) (peek b + 8)))))"

definition peekInt32 :: "buffer \<Rightarrow> 32 word res" where
  "peekInt32 b =
     ensure (readableBytes b \<ge> 4) ''readableBytes() >= sizeof(int32_t)''
       (Inr (networkToHost32 (of_mem (range_of (storage b) (peek b) (peek b + 4)))))"

definition peekInt16 :: "buffer \<Rightarrow> 16 word res" where
  "peekInt16 b =
     ensure (readableBytes b \<ge> 2) ''readableBytes() >= sizeof(int16_t)''
       (Inr (networkToHost16 (of_mem (range_of (storage b) (peek b) (peek b + 2)))))"

definition peekInt8 :: "buffer \<Rightarrow> 8 word res" where
  "peekInt8 b =
     ensure (readableBytes b \<ge> 1) ''readableBytes() >= sizeof(int8_t)''
       (Inr (of_mem (range_of (storage b) (peek b) (peek b + 1))))"

definition readInt64 :: "buffer \<Rightarrow> (64 word \<times> buffer) res" where
  "readInt64 b = bind_r (peekInt64 b) (\<lambda>x. bind_r (retrieveInt64 b) (\<lambda>b'. Inr (x, b')))"

definition readInt32 :: "buffer \<Rightarrow> (32 word \<times> buffer) res" where
  "readInt32 b = bind_r (peekInt32 b) (\<lambda>x. bind_r (retrieveInt32 b) (\<lambda>b'. Inr (x, b')))"

definition readInt16 :: "buffer \<Rightarrow> (16 word \<times> buffer) res" where
  "readInt16 b = bind_r (peekInt16 b) (\<lambda>x. bind_r (retrieveInt16 b) (\<lambda>b'. Inr (x, b')))"

definition readInt8 :: "buffer \<Rightarrow> (8 word \<times> buffer) res" where
  "readInt8 b = bind_r (peekInt8 b) (\<lambda>x. bind_r (retrieveInt8 b) (\<lambda>b'. Inr (x, b')))"

definition prepend :: "char list \<Rightarrow> buffer \<Rightarrow> buffer res" where
  "prepend data b =
     ensure (length data \<le> prependableBytes b) ''len <= prependableBytes()''
       (let r = readerIndex b - length data
        in Inr (b\<lparr>readerIndex := r, storage := overwrite (storage b) r data\<rparr>))"

definition prependInt64 :: "64 word \<Rightarrow> buffer \<Rightarrow> buffer res" where
  "prependInt64 x b = prepend (mem_of (hostToNetwork64 x)) b"

definition prependInt32 :: "32 word \<Rightarrow> buffer \<Rightarrow> buffer res" where
  "prependInt32 x b = prepend (mem_of (hostToNetwork32 x)) b"

definition prependInt16 :: "16 word \<Rightarrow> buffer \<Rightarrow> buffer res" where
  "prependInt16 x b = prepend (mem_of (hostToNetwork16 x)) b"

definition prependInt8 :: "8 word \<Rightarrow> buffer \<Rightarrow> buffer res" where
  "prependInt8 x b = prepend (mem_of x) b"

definition shrink :: "nat \<Rightarrow> buffer \<Rightarrow> buffer res" where
  "shrink reserve b =
     bind_r (Buffer_new kInitialSize)
       (\<lambda>other. bind_r (ensureWritableBytes (readableBytes b + reserve) other)
         (\<lambda>other'. bind_r (append_piece (toStringPiece b) other')
           (\<lambda>other''. Inr (fst (buffer_swap b other'')))))"

text \<open>
  \<^verbatim>\<open>readFd\<close>. \<open>readv\<close> is the system call on the descriptor: given the lengths of the
  vectors it answers with an error number or with the bytes it scattered over them.
\<close>

definition extrabuf_size :: nat where "extrabuf_size = 65536"

definition iov_lengths :: "buffer \<Rightarrow> nat list" where
  "iov_lengths b =
     (if writableBytes b < extrabuf_size then [writableBytes b, extrabuf_size]
      else [writableBytes b])"

definition readFd :: "(nat list \<Rightarrow> int + char list) \<Rightarrow> buffer \<Rightarrow> ((int + nat) \<times> buffer) res" where
  "readFd readv b =
     (case readv (iov_lengths b) of
        Inl savedErrno \<Rightarrow> Inr (Inl savedErrno, b)
      | Inr data \<Rightarrow>
          (let writable = writableBytes b; n = length data;
               filled = b\<lparr>storage := overwrite (storage b) (writerIndex b) (take writable data)\<rparr>
           in if n \<le> writable
              then Inr (Inr n, filled\<lparr>writerIndex := writerIndex b + n\<rparr>)
              else bind_r (buf_append (drop writable data)
                            (filled\<lparr>writerIndex := length (storage filled)\<rparr>))
                     (\<lambda>b'. Inr (Inr n, b'))))"

section \<open>Invariant and abstraction\<close>

definition buffer_ok :: "buffer \<Rightarrow> bool" where
  "buffer_ok b \<longleftrightarrow>
     kCheapPrepend \<le> length (storage b) \<and>
     readerIndex b \<le> writerIndex b \<and> writerIndex b \<le> length (storage b)"

definition readable :: "buffer \<Rightarrow> char list" where
  "readable b = range_of (storage b) (readerIndex b) (writerIndex b)"

lemmas buffer_measures =
  readableBytes_def writableBytes_def prependableBytes_def peek_def beginWrite_def

lemma length_readable [simp]: "buffer_ok b \<Longrightarrow> length (readable b) = readableBytes b"
  by (auto simp: buffer_ok_def readable_def readableBytes_def)

lemma Buffer_new_spec [wp]:
  "returns (Buffer_new n) (\<lambda>b. buffer_ok b \<and> readable b = [] \<and> writableBytes b = n)"
  by (simp add: Buffer_new_def Let_def buffer_measures buffer_ok_def readable_def kCheapPrepend_def)

lemma retrieveAll_spec [simp]:
  "buffer_ok b \<Longrightarrow> buffer_ok (retrieveAll b)" "readable (retrieveAll b) = []"
  by (simp_all add: retrieveAll_def buffer_ok_def readable_def)

lemma retrieve_spec:
  assumes "buffer_ok b" and "len \<le> readableBytes b"
  shows "returns (retrieve len b) (\<lambda>b'. buffer_ok b' \<and> readable b' = drop len (readable b))"
proof (cases "len < readableBytes b")
  case True
  with assms show ?thesis
    by (auto simp: retrieve_def buffer_ok_def readableBytes_def readable_def drop_range_of)
next
  case False
  with assms have "drop len (readable b) = []" by simp
  with assms False show ?thesis by (simp add: retrieve_def)
qed

lemma retrieve_too_long:
  "readableBytes b < len \<Longrightarrow> retrieve len b = Inl (AssertFail ''len <= readableBytes()'')"
  by (simp add: retrieve_def)

lemma retrieveAsString_spec:
  assumes "buffer_ok b" and "len \<le> readableBytes b"
  shows "returns (retrieveAsString len b)
           (\<lambda>(s, b'). s = take len (readable b) \<and> buffer_ok b' \<and> readable b' = drop len (readable b))"
proof -
  have "range_of (storage b) (peek b) (peek b + len) = take len (readable b)"
    using assms(2) by (simp add: readable_def peek_def readableBytes_def take_range_of)
  with retrieve_spec [OF assms] assms(2) show ?thesis
    by (simp add: retrieveAsString_def wp)
qed

text \<open>\<open>makeSpace\<close> is only called when the space at the end does not suffice.\<close>

lemma makeSpace_spec:
  assumes "buffer_ok b" and "writableBytes b < len"
  shows "returns (makeSpace len b)
           (\<lambda>b'. buffer_ok b' \<and> readable b' = readable b \<and> len \<le> writableBytes b')"
proof (cases "writableBytes b + prependableBytes b < len + kCheapPrepend")
  case True
  with assms show ?thesis
    by (auto simp: makeSpace_def buffer_ok_def readable_def writableBytes_def range_of_std_resize)
next
  case False
  let ?rd = "readable b"
  have len: "length ?rd = writerIndex b - readerIndex b"
    using assms by (simp add: readableBytes_def)
  from False assms have gt: "kCheapPrepend < readerIndex b"
    by (simp add: prependableBytes_def)
  from gt assms len have room: "kCheapPrepend + length ?rd \<le> length (storage b)"
    by (auto simp: buffer_ok_def)
  have "range_of (overwrite (storage b) kCheapPrepend ?rd) kCheapPrepend
          (kCheapPrepend + (writerIndex b - readerIndex b)) = ?rd"
    using range_of_overwrite_at [OF room] by (simp only: len)
  with False gt room len assms show ?thesis
    by (auto simp: makeSpace_def Let_def buffer_ok_def buffer_measures readable_def)
qed

lemma ensureWritableBytes_spec:
  assumes "buffer_ok b"
  shows "returns (ensureWritableBytes len b)
           (\<lambda>b'. buffer_ok b' \<and> readable b' = readable b \<and> len \<le> writableBytes b')"
proof (cases "writableBytes b < len")
  case True
  from makeSpace_spec [OF assms True] True show ?thesis
    by (auto simp: ensureWritableBytes_def wp elim!: returnsE)
next
  case False
  with assms show ?thesis by (simp add: ensureWritableBytes_def)
qed

lemma overwrite_written:
  assumes "buffer_ok b" and "length data \<le> writableBytes b"
  defines "b' \<equiv> b\<lparr>storage := overwrite (storage b) (writerIndex b) data,
                   writerIndex := writerIndex b + length data\<rparr>"
  shows "buffer_ok b'" and "readable b' = readable b @ data"
proof -
  have room: "writerIndex b + length data \<le> length (storage b)"
    using assms by (auto simp: buffer_ok_def writableBytes_def)
  show "buffer_ok b'" using assms room by (simp add: buffer_ok_def b'_def)
  have "readable b' = range_of (storage b') (readerIndex b) (writerIndex b) @
                      range_of (storage b') (writerIndex b) (writerIndex b + length data)"
    using assms by (simp add: readable_def b'_def buffer_ok_def range_of_split [symmetric])
  then show "readable b' = readable b @ data"
    using room by (simp add: b'_def readable_def range_of_overwrite_before range_of_overwrite_at)
qed

lemma buf_append_spec:
  assumes "buffer_ok b"
  shows "returns (buf_append data b) (\<lambda>b'. buffer_ok b' \<and> readable b' = readable b @ data)"
  unfolding buf_append_def
proof (rule returns_bindI [OF ensureWritableBytes_spec [OF assms]])
  fix b' assume b': "buffer_ok b' \<and> readable b' = readable b \<and> length data \<le> writableBytes b'"
  then have "writerIndex b' + length data \<le> length (storage b')"
    by (auto simp: buffer_ok_def writableBytes_def)
  with b' overwrite_written [of b' data]
  show "returns (hasWritten (length data)
           (b'\<lparr>storage := overwrite (storage b') (beginWrite b') data\<rparr>))
         (\<lambda>b'. buffer_ok b' \<and> readable b' = readable b @ data)"
    by (simp add: hasWritten_def writableBytes_def beginWrite_def)
qed

lemma prepend_spec:
  assumes "buffer_ok b" and "length data \<le> prependableBytes b"
  shows "returns (prepend data b) (\<lambda>b'. buffer_ok b' \<and> readable b' = data @ readable b)"
proof -
  let ?r = "readerIndex b - length data"
  let ?st = "overwrite (storage b) ?r data"
  have room: "?r + length data = readerIndex b" "?r + length data \<le> length (storage b)"
    using assms by (simp_all add: prependableBytes_def buffer_ok_def)
  have "range_of ?st ?r (writerIndex b) =
          range_of ?st ?r (?r + length data) @ range_of ?st (?r + length data) (writerIndex b)"
    using assms room by (intro range_of_split) (simp_all add: buffer_ok_def)
  also have "\<dots> = data @ readable b"
    using range_of_overwrite_at [of ?r data "storage b"] room
    by (simp add: range_of_overwrite_after readable_def)
  finally have "range_of ?st ?r (writerIndex b) = data @ readable b" .
  with assms room show ?thesis
    by (auto simp: prepend_def Let_def buffer_ok_def readable_def)
qed

text \<open>Reading an integer takes its bytes, most significant first, off the front.\<close>

lemma front_bytes:
  assumes "buffer_ok b" and "readable b = bs @ rest"
  shows "range_of (storage b) (peek b) (peek b + length bs) = bs" and "length bs \<le> readableBytes b"
proof -
  have len: "readableBytes b = length bs + length rest" using assms length_readable by fastforce
  then show "length bs \<le> readableBytes b" by simp
  have "range_of (storage b) (peek b) (peek b + length bs) = take (length bs) (readable b)"
    using len by (simp add: readable_def peek_def readableBytes_def take_range_of)
  then show "range_of (storage b) (peek b) (peek b + length bs) = bs" using assms(2) by simp
qed

lemma retrieve_front:
  assumes "buffer_ok b" and "readable b = bs @ rest" and "n = length bs"
  shows "returns (retrieve n b) (\<lambda>b'. buffer_ok b' \<and> readable b' = rest)"
  using retrieve_spec [OF assms(1) front_bytes(2) [OF assms(1,2)]] assms by simp

lemmas readInt_defs =
  readInt64_def readInt32_def readInt16_def readInt8_def
  peekInt64_def peekInt32_def peekInt16_def peekInt8_def
  retrieveInt64_def retrieveInt32_def retrieveInt16_def retrieveInt8_def

lemma readInt64_spec:
  assumes "buffer_ok b" and "readable b = mem_of (hostToNetwork64 x) @ rest"
  shows "returns (readInt64 b) (\<lambda>(y, b'). y = x \<and> buffer_ok b' \<and> readable b' = rest)"
  using retrieve_front [OF assms, of 8] front_bytes [OF assms]
  by (simp add: readInt_defs wp of_mem_mem_of)

lemma readInt32_spec:
  assumes "buffer_ok b" and "readable b = mem_of (hostToNetwork32 x) @ rest"
  shows "returns (readInt32 b) (\<lambda>(y, b'). y = x \<and> buffer_ok b' \<and> readable b' = rest)"
  using retrieve_front [OF assms, of 4] front_bytes [OF assms]
  by (simp add: readInt_defs wp of_mem_mem_of)

lemma readInt16_spec:
  assumes "buffer_ok b" and "readable b = mem_of (hostToNetwork16 x) @ rest"
  shows "returns (readInt16 b) (\<lambda>(y, b'). y = x \<and> buffer_ok b' \<and> readable b' = rest)"
  using retrieve_front [OF assms, of 2] front_bytes [OF assms]
  by (simp add: readInt_defs wp of_mem_mem_of)

lemma readInt8_spec:
  assumes "buffer_ok b" and "readable b = mem_of x @ rest"
  shows "returns (readInt8 b) (\<lambda>(y, b'). y = x \<and> buffer_ok b' \<and> readable b' = rest)"
  using retrieve_front [OF assms, of 1] front_bytes [OF assms]
  by (simp add: readInt_defs wp of_mem_mem_of)

section \<open>The interface of a byte queue\<close>

text \<open>Operations a client issues, and what a first-in first-out queue does with them.\<close>

datatype queue_op = Put "char list" | Take nat

fun queue_run :: "queue_op list \<Rightarrow> char list \<Rightarrow> (string list \<times> char list) option" where
  "queue_run [] q = Some ([], q)"
| "queue_run (Put xs # ops) q = queue_run ops (q @ xs)"
| "queue_run (Take n # ops) q =
     (if n \<le> length q
      then map_option (\<lambda>(outs, q'). (take n q # outs, q')) (queue_run ops (drop n q))
      else None)"

fun queue_puts :: "queue_op list \<Rightarrow> char list" where
  "queue_puts [] = []"
| "queue_puts (Put xs # ops) = xs @ queue_puts ops"
| "queue_puts (Take n # ops) = queue_puts ops"

lemma queue_run_conserves:
  "queue_run ops q = Some (outs, q') \<Longrightarrow> concat outs @ q' = q @ queue_puts ops"
  by (induction ops q arbitrary: outs q' rule: queue_run.induct)
    (auto split: if_splits simp flip: append_assoc, metis append_assoc append_take_drop_id)

text \<open>The same operations issued to an implementation.\<close>

fun run_ops :: "(char list \<Rightarrow> 'b \<Rightarrow> 'b res) \<Rightarrow> (nat \<Rightarrow> 'b \<Rightarrow> (string \<times> 'b) res) \<Rightarrow>
    queue_op list \<Rightarrow> 'b \<Rightarrow> (string list \<times> 'b) res" where
  "run_ops put get [] b = Inr ([], b)"
| "run_ops put get (Put xs # ops) b = bind_r (put xs b) (run_ops put get ops)"
| "run_ops put get (Take n # ops) b =
     bind_r (get n b)
       (\<lambda>(s, b'). bind_r (run_ops put get ops b') (\<lambda>(outs, b''). Inr (s # outs, b'')))"

locale byte_queue =
  fixes ok :: "'b \<Rightarrow> bool"
    and content :: "'b \<Rightarrow> char list"
    and put :: "char list \<Rightarrow> 'b \<Rightarrow> 'b res"
    and get :: "nat \<Rightarrow> 'b \<Rightarrow> (string \<times> 'b) res"
  assumes put_law: "ok b \<Longrightarrow> returns (put xs b) (\<lambda>b'. ok b' \<and> content b' = content b @ xs)"
    and get_law: "ok b \<Longrightarrow> n \<le> length (content b) \<Longrightarrow>
      returns (get n b) (\<lambda>(s, b'). s = take n (content b) \<and> ok b' \<and> content b' = drop n (content b))"
begin

lemma run_refines_queue:
  "ok b \<Longrightarrow> queue_run ops (content b) = Some (outs, q) \<Longrightarrow>
     returns (run_ops put get ops b) (\<lambda>(outs', b'). outs' = outs \<and> ok b' \<and> content b' = q)"
proof (induction ops arbitrary: b outs)
  case Nil
  then show ?case by simp
next
  case (Cons op ops)
  show ?case
  proof (cases op)
    case (Put xs)
    from put_law [OF Cons.prems(1), of xs] obtain b'
      where "put xs b = Inr b'" "ok b'" "content b' = content b @ xs" by (auto elim: returnsE)
    with Cons Put show ?thesis by simp
  next
    case (Take n)
    with Cons.prems obtain outs' where n: "n \<le> length (content b)"
      and run: "queue_run ops (drop n (content b)) = Some (outs', q)" "outs = take n (content b) # outs'"
      by (auto split: if_splits)
    from get_law [OF Cons.prems(1) n] obtain b'
      where b': "get n b = Inr (take n (content b), b')" "ok b'" "content b' = drop n (content b)"
      by (auto elim: returnsE)
    from Cons.IH [OF b'(2), of outs'] run b' Take show ?thesis
      by (auto elim!: returnsE)
  qed
qed

lemma chunks_concat:
  "ok b \<Longrightarrow> returns (run_ops put get (map Put xss) b)
     (\<lambda>(outs, b'). ok b' \<and> content b' = content b @ concat xss)"
proof (induction xss arbitrary: b)
  case (Cons xs xss)
  from put_law [OF Cons.prems, of xs] obtain b'
    where "put xs b = Inr b'" "ok b'" "content b' = content b @ xs" by (auto elim: returnsE)
  with Cons.IH [of b'] show ?case by simp
qed simp

end

interpretation buf: byte_queue buffer_ok readable buf_append retrieveAsString
  using buf_append_spec retrieveAsString_spec by unfold_locales auto

section \<open>Lines\<close>

lemma findCRLF_Some:
  assumes "buffer_ok b" and "findCRLF b = Some p"
  obtains n where "p = peek b + n" and "n + 2 \<le> readableBytes b"
    and "take 2 (drop n (readable b)) = kCRLF"
    and "\<And>k. k < n \<Longrightarrow> take 2 (drop k (readable b)) \<noteq> kCRLF"
proof -
  let ?n = "std_search kCRLF (readable b)"
  from assms(2) have p: "p = peek b + ?n" and ne: "peek b + ?n \<noteq> beginWrite b"
    by (auto simp: findCRLF_def Let_def readable_def peek_def beginWrite_def split: if_splits)
  have le: "?n \<le> readableBytes b" using std_search_le [of kCRLF "readable b"] assms(1) by simp
  with ne assms(1) have less: "?n < length (readable b)"
    by (auto simp: buffer_measures buffer_ok_def)
  show thesis
  proof (rule that [OF p])
    show "?n + 2 \<le> readableBytes b"
      using std_search_room [OF less] assms(1) by (simp add: kCRLF_def)
    show "take 2 (drop ?n (readable b)) = kCRLF"
      using std_search_match [OF less] by (simp add: kCRLF_def numeral_2_eq_2)
    show "\<And>k. k < ?n \<Longrightarrow> take 2 (drop k (readable b)) \<noteq> kCRLF"
      using std_search_first [of _ kCRLF "readable b"] by (simp add: kCRLF_def numeral_2_eq_2)
  qed
qed

lemma findCRLF_None:
  assumes "buffer_ok b" and "findCRLF b = None"
  shows "take 2 (drop k (readable b)) \<noteq> kCRLF"
proof -
  have "std_search kCRLF (readable b) = length (readable b)"
    using assms by (auto simp: findCRLF_def Let_def readable_def buffer_measures buffer_ok_def
        split: if_splits)
  from std_search_none [OF this, of k] show ?thesis by (simp add: kCRLF_def numeral_2_eq_2)
qed

lemma findCRLF_line:
  assumes "buffer_ok b" and "readable b = line @ kCRLF @ rest"
    and "std_search kCRLF (line @ kCRLF) = length line"
  shows "findCRLF b = Some (peek b + length line)"
proof -
  have "std_search kCRLF (readable b) = length line"
  proof (rule std_search_eqI)
    fix i assume "i < length line"
    with assms(3) have "take 2 (drop i (line @ kCRLF)) \<noteq> kCRLF"
      using std_search_first [of i kCRLF "line @ kCRLF"] by (simp add: kCRLF_def numeral_2_eq_2)
    with \<open>i < length line\<close> show "take (length kCRLF) (drop i (readable b)) \<noteq> kCRLF"
      by (auto simp: assms(2) kCRLF_def numeral_2_eq_2 take_Cons' split: if_splits)
  qed (simp_all add: assms(2) kCRLF_def)
  moreover have "length line + 2 \<le> readableBytes b"
    using length_readable [OF assms(1)] assms(2) by (simp add: kCRLF_def)
  ultimately show ?thesis
    by (auto simp: findCRLF_def Let_def readable_def buffer_measures)
qed

lemma retrieveUntil_spec:
  assumes "buffer_ok b" and "p = peek b + n" and "n \<le> readableBytes b"
  shows "returns (retrieveUntil p b) (\<lambda>b'. buffer_ok b' \<and> readable b' = drop n (readable b))"
proof -
  have "peek b + n \<le> beginWrite b" using assms by (auto simp: buffer_measures buffer_ok_def)
  with retrieve_spec [OF assms(1,3)] assms(2) show ?thesis by (simp add: retrieveUntil_def)
qed

lemma append_toStringPiece:
  assumes "buffer_ok b" and "readableBytes b < 2 ^ 31"
  shows "append_piece (toStringPiece b) other = buf_append (readable b) other"
  using assms
  by (auto simp: append_piece_def toStringPiece_def piece_of_def sp_mem_def readable_def range_of_def
      buffer_measures buffer_ok_def simp del: of_nat_diff)

lemma buffer_swap_swaps: "buffer_swap b c = (c, b)"
  by (cases b, cases c) (simp add: buffer_swap_def)

section \<open>Sequences of integers\<close>

text \<open>Integers of the four widths, written and read one after the other.\<close>

datatype wire_int = I64 "64 word" | I32 "32 word" | I16 "16 word" | I8 "8 word"

fun appendInt :: "wire_int \<Rightarrow> buffer \<Rightarrow> buffer res" where
  "appendInt (I64 x) b = appendInt64 x b"
| "appendInt (I32 x) b = appendInt32 x b"
| "appendInt (I16 x) b = appendInt16 x b"
| "appendInt (I8 x) b = appendInt8 x b"

fun prependInt :: "wire_int \<Rightarrow> buffer \<Rightarrow> buffer res" where
  "prependInt (I64 x) b = prependInt64 x b"
| "prependInt (I32 x) b = prependInt32 x b"
| "prependInt (I16 x) b = prependInt16 x b"
| "prependInt (I8 x) b = prependInt8 x b"

text \<open>Read an integer of the same width as the one given.\<close>

fun readInt :: "wire_int \<Rightarrow> buffer \<Rightarrow> (wire_int \<times> buffer) res" where
  "readInt (I64 _) b = bind_r (readInt64 b) (\<lambda>(x, b'). Inr (I64 x, b'))"
| "readInt (I32 _) b = bind_r (readInt32 b) (\<lambda>(x, b'). Inr (I32 x, b'))"
| "readInt (I16 _) b = bind_r (readInt16 b) (\<lambda>(x, b'). Inr (I16 x, b'))"
| "readInt (I8 _) b = bind_r (readInt8 b) (\<lambda>(x, b'). Inr (I8 x, b'))"

fun appendInts :: "wire_int list \<Rightarrow> buffer \<Rightarrow> buffer res" where
  "appendInts [] b = Inr b"
| "appendInts (x # xs) b = bind_r (appendInt x b) (appendInts xs)"

fun readInts :: "wire_int list \<Rightarrow> buffer \<Rightarrow> (wire_int list \<times> buffer) res" where
  "readInts [] b = Inr ([], b)"
| "readInts (x # xs) b =
     bind_r (readInt x b) (\<lambda>(y, b'). bind_r (readInts xs b') (\<lambda>(ys, b''). Inr (y # ys, b'')))"

fun wire_bytes :: "wire_int \<Rightarrow> char list" where
  "wire_bytes (I64 x) = rev (mem_of x)"
| "wire_bytes (I32 x) = rev (mem_of x)"
| "wire_bytes (I16 x) = rev (mem_of x)"
| "wire_bytes (I8 x) = mem_of x"

lemma length_wire_bytes: "length (wire_bytes x) \<le> 8"
  by (cases x) simp_all

lemma appendInt_spec:
  "buffer_ok b \<Longrightarrow> returns (appendInt x b) (\<lambda>b'. buffer_ok b' \<and> readable b' = readable b @ wire_bytes x)"
  by (cases x) (simp_all add: appendInt64_def appendInt32_def appendInt16_def appendInt8_def
      buf_append_spec mem_of_hostToNetwork [symmetric])

lemma prependInt_spec:
  assumes "buffer_ok b" and "length (wire_bytes x) \<le> prependableBytes b"
  shows "returns (prependInt x b) (\<lambda>b'. buffer_ok b' \<and> readable b' = wire_bytes x @ readable b)"
  using assms by (cases x) (simp_all add: prependInt64_def prependInt32_def prependInt16_def
      prependInt8_def prepend_spec mem_of_hostToNetwork [symmetric])

lemma readInt_spec:
  assumes "buffer_ok b" and "readable b = wire_bytes x @ rest"
  shows "returns (readInt x b) (\<lambda>(y, b'). y = x \<and> buffer_ok b' \<and> readable b' = rest)"
proof (cases x)
  case (I64 y)
  with readInt64_spec [of b y rest] assms show ?thesis by (simp add: mem_of_hostToNetwork wp split_def)
next
  case (I32 y)
  with readInt32_spec [of b y rest] assms show ?thesis by (simp add: mem_of_hostToNetwork wp split_def)
next
  case (I16 y)
  with readInt16_spec [of b y rest] assms show ?thesis by (simp add: mem_of_hostToNetwork wp split_def)
next
  case (I8 y)
  with readInt8_spec [of b y rest] assms show ?thesis by (simp add: wp split_def)
qed

lemma appendInts_spec:
  "buffer_ok b \<Longrightarrow> returns (appendInts xs b)
     (\<lambda>b'. buffer_ok b' \<and> readable b' = readable b @ concat (map wire_bytes xs))"
proof (induction xs arbitrary: b)
  case (Cons x xs)
  from appendInt_spec [OF Cons.prems, of x] obtain b'
    where "appendInt x b = Inr b'" "buffer_ok b'" "readable b' = readable b @ wire_bytes x"
    by (auto elim: returnsE)
  with Cons.IH [of b'] show ?case by simp
qed simp

lemma readInts_spec:
  "buffer_ok b \<Longrightarrow> readable b = concat (map wire_bytes xs) @ rest \<Longrightarrow>
     returns (readInts xs b) (\<lambda>(ys, b'). ys = xs \<and> buffer_ok b' \<and> readable b' = rest)"
proof (induction xs arbitrary: b)
  case (Cons x xs)
  from Cons.prems readInt_spec [of b x] obtain b'
    where "readInt x b = Inr (x, b')" "buffer_ok b'" "readable b' = concat (map wire_bytes xs) @ rest"
    by (auto elim!: returnsE)
  with Cons.IH [of b'] show ?case by (auto elim!: returnsE)
qed simp

section \<open>Properties\<close>

text \<open>
  C12. Any sequence of appends and retrieves that a queue of bytes allows runs on the
  buffer with no assertion failing (growing, compacting and resetting as it needs),
  returns the strings the queue returns, and leaves the bytes the queue holds: bytes
  come out in the order they went in, none lost and none invented.
\<close>

theorem buffer_refines_fifo:
  assumes "buffer_ok b" and "queue_run ops (readable b) = Some (outs, q)"
  shows "returns (run_ops buf_append retrieveAsString ops b)
           (\<lambda>(outs', b'). outs' = outs \<and> buffer_ok b' \<and> readable b' = q \<and>
              concat outs' @ readable b' = readable b @ queue_puts ops)"
  using buf.run_refines_queue [OF assms] queue_run_conserves [OF assms(2)]
  by (auto elim: returns_mono)

definition small_buffer :: buffer where
  "small_buffer = \<lparr>storage = ''--------xyzw'', readerIndex = 8, writerIndex = 10\<rparr>"

lemma small_buffer_simps [simp]:
  "buffer_ok small_buffer" "readable small_buffer = ''xy''"
  "readableBytes small_buffer = 2" "prependableBytes small_buffer = 8"
  "writableBytes small_buffer = 2"
  by (simp_all add: small_buffer_def buffer_ok_def readable_def range_of_def buffer_measures
      kCheapPrepend_def)

theorem buffer_refines_fifo_witness:
  "returns (run_ops buf_append retrieveAsString [Put ''abcdef'', Take 3, Put ''gh'', Take 1] small_buffer)
     (\<lambda>(outs', b'). outs' = [''xya'', ''b''] \<and> buffer_ok b' \<and> readable b' = ''cdefgh'' \<and>
        concat outs' @ readable b' = ''xy'' @ ''abcdefgh'')"
  using buffer_refines_fifo [of small_buffer "[Put ''abcdef'', Take 3, Put ''gh'', Take 1]"
      "[''xya'', ''b'']" "''cdefgh''"]
  by simp

text \<open>
  Any sequence of integers written with \<^verbatim>\<open>appendInt64/32/16/8\<close> behind whatever the
  buffer holds is read back unchanged, in order, by \<^verbatim>\<open>readInt64/32/16/8\<close> once that
  content has been retrieved, and then the buffer is empty.
\<close>

theorem integers_round_trip:
  assumes "buffer_ok b"
  shows "returns
    (bind_r (appendInts xs b) (\<lambda>b1. bind_r (retrieve (readableBytes b) b1) (readInts xs)))
    (\<lambda>(ys, b'). ys = xs \<and> buffer_ok b' \<and> readable b' = [])"
proof (rule returns_bindI [OF appendInts_spec [OF assms, of xs]])
  fix b1 assume b1: "buffer_ok b1 \<and> readable b1 = readable b @ concat (map wire_bytes xs)"
  show "returns (bind_r (retrieve (readableBytes b) b1) (readInts xs))
          (\<lambda>(ys, b'). ys = xs \<and> buffer_ok b' \<and> readable b' = [])"
    using retrieve_front [of b1 "readable b"] b1 assms
    by (auto intro!: returns_bindI readInts_spec [where rest = "[]"])
qed

theorem integers_round_trip_witness:
  "returns
    (bind_r (appendInts [I32 7, I64 (-1), I8 255, I16 258] small_buffer)
       (\<lambda>b1. bind_r (retrieve 2 b1) (readInts [I32 7, I64 (-1), I8 255, I16 258])))
    (\<lambda>(ys, b'). ys = [I32 7, I64 (-1), I8 255, I16 258] \<and> buffer_ok b' \<and> readable b' = [])"
  using integers_round_trip [of small_buffer "[I32 7, I64 (-1), I8 255, I16 258]"] by simp

text \<open>
  A header integer put in front of the content with \<^verbatim>\<open>prependInt64/32/16/8\<close> is the
  first thing read back, and reading it uncovers the content unchanged; the eight bytes
  a fresh or emptied buffer keeps in front are room enough for any width.
\<close>

theorem prepend_round_trip:
  assumes "buffer_ok b" and "kCheapPrepend \<le> prependableBytes b"
  shows "returns (bind_r (prependInt x b) (readInt x))
           (\<lambda>(y, b'). y = x \<and> buffer_ok b' \<and> readable b' = readable b)"
proof (rule returns_bindI)
  show "returns (prependInt x b) (\<lambda>b'. buffer_ok b' \<and> readable b' = wire_bytes x @ readable b)"
    using prependInt_spec [of b x] length_wire_bytes [of x] assms by (simp add: kCheapPrepend_def)
qed (simp add: readInt_spec)

theorem prepend_round_trip_witness:
  "returns (bind_r (prependInt (I32 1000) small_buffer) (readInt (I32 1000)))
     (\<lambda>(y, b'). y = I32 1000 \<and> buffer_ok b' \<and> readable b' = ''xy'')"
  using prepend_round_trip [of small_buffer "I32 1000"] by (simp add: kCheapPrepend_def)

lemma readFd_spec:
  assumes "buffer_ok b" and "\<And>lens d. readv lens = Inr d \<Longrightarrow> length d \<le> sum_list lens"
  shows "returns (readFd readv b) (\<lambda>(r, b'). buffer_ok b' \<and>
    (case readv (iov_lengths b) of
       Inl e \<Rightarrow> r = Inl e \<and> b' = b
     | Inr d \<Rightarrow> r = Inr (length d) \<and> readable b' = readable b @ d \<and>
                length d \<le> writableBytes b + extrabuf_size))"
proof (cases "readv (iov_lengths b)")
  case (Inr d)
  let ?w = "writableBytes b"
  let ?f = "b\<lparr>storage := overwrite (storage b) (writerIndex b) (take ?w d),
               writerIndex := writerIndex b + length (take ?w d)\<rparr>"
  have fill: "buffer_ok ?f" "readable ?f = readable b @ take ?w d"
    by (rule overwrite_written [OF assms(1)], simp)+
  have bound: "length d \<le> ?w + extrabuf_size"
    using assms(2) [OF Inr] by (auto simp: iov_lengths_def split: if_splits)
  show ?thesis
  proof (cases "length d \<le> ?w")
    case True
    with fill Inr bound show ?thesis by (simp add: readFd_def Let_def)
  next
    case False
    have "writerIndex b + ?w = length (storage b)"
      using assms(1) by (auto simp: buffer_ok_def writableBytes_def)
    with False have f: "length (overwrite (storage b) (writerIndex b) (take ?w d)) = writerIndex b + ?w"
      and t: "length (take ?w d) = ?w"
      by simp_all
    show ?thesis
      using buf_append_spec [OF fill(1), of "drop ?w d"] fill(2) False Inr bound
      by (auto simp: readFd_def Let_def f t simp del: length_overwrite elim!: returnsE)
  qed
qed (simp add: readFd_def assms(1))

text \<open>
  When \<^verbatim>\<open>readv\<close> delivers no more than the vectors it is given hold, \<^verbatim>\<open>readFd\<close>
  returns normally: on an error the buffer is untouched, otherwise exactly the delivered
  bytes are appended to the content, those that went through the stack buffer included,
  and their number is returned.
\<close>

theorem readFd_appends:
  assumes "buffer_ok b" and "\<And>lens d. readv lens = Inr d \<Longrightarrow> length d \<le> sum_list lens"
  shows "returns (readFd readv b) (\<lambda>(r, b'). buffer_ok b' \<and>
    (case readv (iov_lengths b) of
       Inl e \<Rightarrow> r = Inl e \<and> b' = b
     | Inr d \<Rightarrow> r = Inr (length d) \<and> readable b' = readable b @ d \<and>
                length d \<le> writableBytes b + extrabuf_size))"
  using assms by (rule readFd_spec)

theorem readFd_appends_witness:
  "returns (readFd (\<lambda>lens. if 5 \<le> sum_list lens then Inr ''12345'' else Inl 11) small_buffer)
     (\<lambda>(r, b'). buffer_ok b' \<and> r = Inr 5 \<and> readable b' = ''xy12345'')"
proof -
  let ?rv = "\<lambda>lens :: nat list. if 5 \<le> sum_list lens then Inr ''12345'' else (Inl 11 :: int + char list)"
  have law: "?rv lens = Inr d \<Longrightarrow> length d \<le> sum_list lens" for lens d
    by (auto split: if_splits)
  have "iov_lengths small_buffer = [2, 65536]" by (simp add: iov_lengths_def extrabuf_size_def)
  with readFd_appends [of small_buffer ?rv, OF _ law] show ?thesis
    by (auto elim!: returns_mono)
qed

text \<open>
  When the content starts with a line that contains no line end of its own,
  \<^verbatim>\<open>findCRLF\<close> points right behind that line, and \<^verbatim>\<open>retrieveUntil(crlf + 2)\<close> leaves
  exactly what follows the line end.
\<close>

theorem findCRLF_splits_line:
  assumes "buffer_ok b" and "readable b = line @ kCRLF @ rest"
    and "\<And>k. k < length line \<Longrightarrow> take 2 (drop k (line @ kCRLF)) \<noteq> kCRLF"
  shows "findCRLF b = Some (peek b + length line) \<and>
         range_of (storage b) (peek b) (peek b + length line) = line \<and>
         returns (retrieveUntil (peek b + length line + 2) b) (\<lambda>b'. buffer_ok b' \<and> readable b' = rest)"
proof (intro conjI)
  have "std_search kCRLF (line @ kCRLF) = length line"
    by (rule std_search_eqI) (use assms(3) in \<open>simp_all add: kCRLF_def numeral_2_eq_2\<close>)
  then show "findCRLF b = Some (peek b + length line)" by (rule findCRLF_line [OF assms(1,2)])
  show "range_of (storage b) (peek b) (peek b + length line) = line"
    by (rule front_bytes(1) [OF assms(1,2)])
  have "length line + 2 \<le> readableBytes b"
    using length_readable [OF assms(1)] assms(2) by (simp add: kCRLF_def)
  then show "returns (retrieveUntil (peek b + length line + 2) b)
      (\<lambda>b'. buffer_ok b' \<and> readable b' = rest)"
    using retrieveUntil_spec [OF assms(1), of _ "length line + 2"]
    by (simp add: assms(2) kCRLF_def)
qed

definition line_buffer :: buffer where
  "line_buffer = \<lparr>storage = ''--------GET'' @ [CR, CR, LF] @ ''x'', readerIndex = 8, writerIndex = 15\<rparr>"

theorem findCRLF_splits_line_witness:
  "findCRLF line_buffer = Some 12 \<and> range_of (storage line_buffer) 8 12 = ''GET'' @ [CR] \<and>
   returns (retrieveUntil 14 line_buffer) (\<lambda>b'. buffer_ok b' \<and> readable b' = ''x'')"
proof -
  have "buffer_ok line_buffer" "readable line_buffer = (''GET'' @ [CR]) @ kCRLF @ ''x''" "peek line_buffer = 8"
    by (simp_all add: line_buffer_def buffer_ok_def readable_def range_of_def kCheapPrepend_def kCRLF_def
        peek_def)
  moreover have "take 2 (drop k ((''GET'' @ [CR]) @ kCRLF)) \<noteq> kCRLF" if "k < length (''GET'' @ [CR])" for k
  proof -
    from that have "k = 0 \<or> k = 1 \<or> k = 2 \<or> k = 3" by auto
    then show ?thesis by (elim disjE) (simp_all add: kCRLF_def)
  qed
  ultimately show ?thesis
    using findCRLF_splits_line [of line_buffer "''GET'' @ [CR]" "''x''"] by simp
qed

text \<open>
  \<^verbatim>\<open>shrink\<close> never fails and keeps the content, whatever extra room is asked for
  (the content must fit the \<^verbatim>\<open>int\<close> length of a \<^verbatim>\<open>StringPiece\<close>).
\<close>

theorem shrink_keeps_content:
  assumes "buffer_ok b" and "readableBytes b < 2 ^ 31"
  shows "returns (shrink reserve b)
           (\<lambda>b'. buffer_ok b' \<and> readable b' = readable b)"
  unfolding shrink_def
proof (rule returns_bindI [OF Buffer_new_spec], rule returns_bindI [OF ensureWritableBytes_spec])
  fix other other' assume other: "buffer_ok other \<and> readable other = [] \<and> writableBytes other = kInitialSize"
    and o: "buffer_ok other' \<and> readable other' = readable other \<and>
    readableBytes b + reserve \<le> writableBytes other'"
  show "returns (bind_r (append_piece (toStringPiece b) other') (\<lambda>other''. Inr (fst (buffer_swap b other''))))
          (\<lambda>b'. buffer_ok b' \<and> readable b' = readable b)"
    using buf_append_spec [of other' "readable b"] other o append_toStringPiece [OF assms]
    by (auto simp: buffer_swap_swaps elim!: returnsE)
qed auto

theorem shrink_keeps_content_witness:
  "returns (shrink 100 small_buffer) (\<lambda>b'. buffer_ok b' \<and> readable b' = ''xy'')"
  using shrink_keeps_content [of small_buffer 100] by simp

end
