(* ===== verification/StdMap.thy ===== *)
theory StdMap
  imports Prelude "HOL-Library.Char_ord" "HOL-Library.List_Lexorder"
begin

text \<open>
  The ordered associative containers of the standard library the sources use:
  \<^verbatim>\<open>std::map\<close> (HTTP headers, FastCGI parameters, channels of a poller, connections
  of a server, stocks of the timer queue). A map is the list of its entries in the
  order an iterator visits them; \<open>map_ok\<close> says that the keys ascend strictly. The
  locale \<open>ordered_map\<close> holds the laws the clients use, and it is interpreted on the
  operations here.
\<close>

type_synonym ('k, 'v) std_map = "('k \<times> 'v) list"

definition map_ok :: "('k::linorder, 'v) std_map \<Rightarrow> bool" where
  "map_ok m \<longleftrightarrow> sorted_wrt (<) (map fst m)"

text \<open>\<^verbatim>\<open>m.find(k)\<close>, \<^verbatim>\<open>m[k] = v\<close>, \<^verbatim>\<open>m.erase(k)\<close>.\<close>

fun map_find :: "'k::linorder \<Rightarrow> ('k, 'v) std_map \<Rightarrow> 'v option" where
  "map_find k [] = None"
| "map_find k ((k', v') # m) = (if k = k' then Some v' else map_find k m)"

fun map_set :: "'k::linorder \<Rightarrow> 'v \<Rightarrow> ('k, 'v) std_map \<Rightarrow> ('k, 'v) std_map" where
  "map_set k v [] = [(k, v)]"
| "map_set k v ((k', v') # m) =
     (if k < k' then (k, v) # (k', v') # m
      else if k = k' then (k, v) # m
      else (k', v') # map_set k v m)"

fun map_erase :: "'k::linorder \<Rightarrow> ('k, 'v) std_map \<Rightarrow> ('k, 'v) std_map" where
  "map_erase k [] = []"
| "map_erase k ((k', v') # m) = (if k = k' then m else (k', v') # map_erase k m)"

lemma map_ok_Nil [simp]: "map_ok []"
  by (simp add: map_ok_def)

lemma map_ok_Cons [simp]: "map_ok ((k, v) # m) \<longleftrightarrow> (\<forall>k' \<in> fst ` set m. k < k') \<and> map_ok m"
  by (auto simp: map_ok_def)

lemma fst_set_map_set [simp]: "fst ` set (map_set k v m) = insert k (fst ` set m)"
  by (induction k v m rule: map_set.induct) auto

lemma map_ok_head_notin: "map_ok ((k, v) # m) \<Longrightarrow> k \<notin> fst ` set m"
  by (auto simp: map_ok_def)

lemma fst_set_map_erase: "map_ok m \<Longrightarrow> fst ` set (map_erase k m) = fst ` set m - {k}"
proof (induction k m rule: map_erase.induct)
  case (2 k k' v' m)
  from 2 map_ok_head_notin [OF 2(2)] show ?case by (auto simp del: image_iff)
qed simp

lemma map_find_None_iff: "map_find k m = None \<longleftrightarrow> k \<notin> fst ` set m"
  by (induction k m rule: map_find.induct) auto

lemma map_set_ok: "map_ok m \<Longrightarrow> map_ok (map_set k v m)"
  by (induction k v m rule: map_set.induct) force+

lemma map_erase_ok: "map_ok m \<Longrightarrow> map_ok (map_erase k m)"
  by (induction k m rule: map_erase.induct) (auto simp: fst_set_map_erase)

lemma map_find_map_set:
  "map_find k (map_set k' v m) = (if k = k' then Some v else map_find k m)"
  by (induction k' v m rule: map_set.induct) auto

lemma map_find_map_erase:
  "map_ok m \<Longrightarrow> map_find k (map_erase k' m) = (if k = k' then None else map_find k m)"
proof (induction k' m rule: map_erase.induct)
  case (2 k' l v m)
  from map_ok_head_notin [OF 2(2)] have "map_find l m = None" by (simp add: map_find_None_iff)
  with 2 show ?case by auto
qed simp

lemma map_find_iff: "map_ok m \<Longrightarrow> map_find k m = Some v \<longleftrightarrow> (k, v) \<in> set m"
  by (induction k m rule: map_find.induct) force+

lemma map_ok_set_unique: "map_ok m \<Longrightarrow> map_ok m' \<Longrightarrow> set m = set m' \<Longrightarrow> m = m'"
proof (induction m arbitrary: m')
  case (Cons e m)
  obtain k v where e: "e = (k, v)" by (cases e)
  from Cons.prems obtain k' v' n where m': "m' = (k', v') # n" by (cases m') auto
  have mem: "(k, v) \<in> set m'" "(k', v') \<in> set (e # m)" using Cons.prems(3) e m' by auto
  with Cons.prems(1,2) e m' have "k = k'" by (auto dest!: bspec split: if_splits)
  with mem Cons.prems(1,2) e m' have kv: "(k', v') = e" by auto
  from Cons.prems(1) e have "e \<notin> set m" by fastforce
  moreover from Cons.prems(2) m' kv have "e \<notin> set n" by fastforce
  ultimately have "set m = set n" using Cons.prems(3) m' kv by auto
  with Cons.IH [of n] Cons.prems(1,2) e m' kv show ?case by auto
qed simp

lemma map_ok_ext:
  assumes "map_ok m" and "map_ok m'" and "\<And>k. map_find k m = map_find k m'"
  shows "m = m'"
  using assms map_find_iff [OF assms(1)] map_find_iff [OF assms(2)]
  by (intro map_ok_set_unique) auto

section \<open>Interface\<close>

locale ordered_map =
  fixes ok :: "'m \<Rightarrow> bool"
    and find :: "'k \<Rightarrow> 'm \<Rightarrow> 'v option"
    and put :: "'k \<Rightarrow> 'v \<Rightarrow> 'm \<Rightarrow> 'm"
    and erase :: "'k \<Rightarrow> 'm \<Rightarrow> 'm"
  assumes put_ok: "ok m \<Longrightarrow> ok (put k v m)"
    and erase_ok: "ok m \<Longrightarrow> ok (erase k m)"
    and find_put: "ok m \<Longrightarrow> find k (put k' v m) = (if k = k' then Some v else find k m)"
    and find_erase: "ok m \<Longrightarrow> find k (erase k' m) = (if k = k' then None else find k m)"
    and extensional: "ok m \<Longrightarrow> ok m' \<Longrightarrow> (\<And>k. find k m = find k m') \<Longrightarrow> m = m'"
begin

lemma put_put: "ok m \<Longrightarrow> put k v (put k w m) = put k v m"
  by (rule extensional) (simp_all add: put_ok find_put)

lemma put_commute: "ok m \<Longrightarrow> k \<noteq> l \<Longrightarrow> put k v (put l w m) = put l w (put k v m)"
  by (rule extensional) (simp_all add: put_ok find_put)

lemma erase_put: "ok m \<Longrightarrow> find k m = None \<Longrightarrow> erase k (put k v m) = m"
  by (rule extensional) (simp_all add: put_ok erase_ok find_put find_erase)

lemma erase_absent: "ok m \<Longrightarrow> find k m = None \<Longrightarrow> erase k m = m"
  by (rule extensional) (simp_all add: erase_ok find_erase)

end

interpretation std: ordered_map map_ok map_find map_set map_erase
  by unfold_locales
    (auto simp: map_set_ok map_erase_ok map_find_map_set map_find_map_erase intro: map_ok_ext)

end
