(* ===== verification/Framing.thy ===== *)
theory Framing
  imports Prelude
begin

text \<open>
  Incremental decoding of a byte stream. A protocol that cuts complete units (lines,
  records) off the front of its input satisfies the locale \<open>framing\<close>: cutting
  shortens the input, and more input behind a complete unit does not change it. Then the
  units found do not depend on how the stream was delivered. The HTTP and FastCGI
  parsers interpret it.
\<close>

function cut_all :: "('b list \<Rightarrow> ('f \<times> 'b list) option) \<Rightarrow> 'b list \<Rightarrow> 'f list \<times> 'b list" where
  "cut_all chop bs =
     (case chop bs of
        None \<Rightarrow> ([], bs)
      | Some (f, rest) \<Rightarrow>
          if length rest < length bs then (let (fs, r) = cut_all chop rest in (f # fs, r)) else ([], bs))"
  by pat_completeness auto
termination
  by (relation "measure (\<lambda>(_, bs). length bs)") auto

declare cut_all.simps [simp del]

text \<open>Units found when the stream arrives in chunks, keeping the unfinished rest.\<close>

fun cut_chunks :: "('b list \<Rightarrow> ('f \<times> 'b list) option) \<Rightarrow> 'b list \<Rightarrow> 'b list list \<Rightarrow> 'f list \<times> 'b list" where
  "cut_chunks chop pending [] = ([], pending)"
| "cut_chunks chop pending (x # xs) =
     (let (fs, r) = cut_all chop (pending @ x); (gs, r') = cut_chunks chop r xs in (fs @ gs, r'))"

locale framing =
  fixes chop :: "'b list \<Rightarrow> ('f \<times> 'b list) option"
  assumes cut_shortens: "chop bs = Some (f, rest) \<Longrightarrow> length rest < length bs"
    and cut_extends: "chop bs = Some (f, rest) \<Longrightarrow> chop (bs @ ys) = Some (f, rest @ ys)"
begin

lemma cut_all_None: "chop bs = None \<Longrightarrow> cut_all chop bs = ([], bs)"
  by (simp add: cut_all.simps)

lemma cut_all_Some:
  "chop bs = Some (f, rest) \<Longrightarrow> cut_all chop bs = (f # fst (cut_all chop rest), snd (cut_all chop rest))"
  using cut_shortens by (simp add: cut_all.simps [of chop bs] split_beta Let_def)

lemma cut_all_rest: "chop (snd (cut_all chop bs)) = None"
proof (induction bs rule: length_induct)
  case (1 bs)
  show ?case
  proof (cases "chop bs")
    case None
    then show ?thesis by (simp add: cut_all_None)
  next
    case (Some fr)
    then obtain f rest where "chop bs = Some (f, rest)" by (cases fr) auto
    with 1 cut_shortens show ?thesis by (simp add: cut_all_Some)
  qed
qed

lemma cut_all_append:
  "cut_all chop (xs @ ys) =
     (fst (cut_all chop xs) @ fst (cut_all chop (snd (cut_all chop xs) @ ys)),
      snd (cut_all chop (snd (cut_all chop xs) @ ys)))"
proof (induction xs rule: length_induct)
  case (1 xs)
  show ?case
  proof (cases "chop xs")
    case None
    then show ?thesis by (simp add: cut_all_None)
  next
    case (Some fr)
    then obtain f rest where chop_xs: "chop xs = Some (f, rest)" by (cases fr) auto
    with 1 cut_shortens have
      "cut_all chop (rest @ ys) =
         (fst (cut_all chop rest) @ fst (cut_all chop (snd (cut_all chop rest) @ ys)),
          snd (cut_all chop (snd (cut_all chop rest) @ ys)))" by blast
    with chop_xs show ?thesis by (simp add: cut_all_Some cut_extends [OF chop_xs])
  qed
qed

lemma chunks_irrelevant:
  "chop pending = None \<Longrightarrow> cut_chunks chop pending xs = cut_all chop (pending @ concat xs)"
proof (induction xs arbitrary: pending)
  case (Cons x xs)
  have "cut_chunks chop (snd (cut_all chop (pending @ x))) xs =
      cut_all chop (snd (cut_all chop (pending @ x)) @ concat xs)"
    by (rule Cons.IH) (rule cut_all_rest)
  then show ?case
    using cut_all_append [of "pending @ x" "concat xs"] by (simp add: split_beta Let_def)
qed (simp add: cut_all_None)

lemma chunks_nonempty:
  "xs \<noteq> [] \<Longrightarrow> cut_chunks chop pending xs = cut_all chop (pending @ concat xs)"
proof (cases xs)
  case (Cons x ys)
  have "cut_chunks chop (snd (cut_all chop (pending @ x))) ys =
      cut_all chop (snd (cut_all chop (pending @ x)) @ concat ys)"
    by (rule chunks_irrelevant) (rule cut_all_rest)
  then show ?thesis
    using Cons cut_all_append [of "pending @ x" "concat ys"] by (simp add: split_beta Let_def)
qed simp

end

end
