(* ===== verification/HttpParse.thy ===== *)
theory HttpParse
  imports Buffer StdMap Framing
begin

text \<open>
  HTTP requests and their incremental parser (\<^verbatim>\<open>netLayer/http/HttpRequest.h\<close>,
  \<^verbatim>\<open>HttpContext.h\<close>, \<^verbatim>\<open>HttpContext.cpp\<close>).

  \<open>parseRequest\<close> is the loop of \<^verbatim>\<open>HttpContext::parseRequest\<close> on a \<open>buffer\<close>; the
  states in which the source's loop spins without changing anything give
  \<open>Diverges\<close>. \<open>parse_bytes\<close> is the same parser on the bytes alone; a refinement
  lemma relates the two. The properties: a rendered request is parsed back, the
  result does not depend on how the bytes were cut into messages, and parsing
  returns from every context a server keeps between messages.
\<close>

section \<open>HttpRequest\<close>

datatype http_method = kInvalid | kGet | kPost | kHead | kPut | kDelete
datatype http_version = kUnknown | kHttp10 | kHttp11

record http_request =
  rq_method :: http_method
  rq_version :: http_version
  rq_path :: string
  rq_query :: string
  rq_receiveTime :: timestamp
  rq_headers :: "(string, string) std_map"

definition HttpRequest_new :: http_request where
  "HttpRequest_new = \<lparr>rq_method = kInvalid, rq_version = kUnknown, rq_path = [], rq_query = [],
                      rq_receiveTime = 0, rq_headers = []\<rparr>"

definition setVersion :: "http_version \<Rightarrow> http_request \<Rightarrow> http_request" where
  "setVersion v r = r\<lparr>rq_version := v\<rparr>"

definition setMethod :: "string \<Rightarrow> http_request \<Rightarrow> (bool \<times> http_request) res" where
  "setMethod m r =
     ensure (rq_method r = kInvalid) ''method_ == kInvalid''
       (let meth = (if m = ''GET'' then kGet
                    else if m = ''POST'' then kPost
                    else if m = ''HEAD'' then kHead
                    else if m = ''PUT'' then kPut
                    else if m = ''DELETE'' then kDelete
                    else kInvalid)
        in Inr (meth \<noteq> kInvalid, r\<lparr>rq_method := meth\<rparr>))"

fun method_name :: "http_method \<Rightarrow> string" where
  "method_name kGet = ''GET''"
| "method_name kPost = ''POST''"
| "method_name kHead = ''HEAD''"
| "method_name kPut = ''PUT''"
| "method_name kDelete = ''DELETE''"
| "method_name kInvalid = ''UNKNOWN''"

definition methodString :: "http_request \<Rightarrow> string" where
  "methodString r = method_name (rq_method r)"

definition setPath :: "string \<Rightarrow> http_request \<Rightarrow> http_request" where
  "setPath s r = r\<lparr>rq_path := s\<rparr>"

definition setQuery :: "string \<Rightarrow> http_request \<Rightarrow> http_request" where
  "setQuery s r = r\<lparr>rq_query := s\<rparr>"

definition setReceiveTime :: "timestamp \<Rightarrow> http_request \<Rightarrow> http_request" where
  "setReceiveTime t r = r\<lparr>rq_receiveTime := t\<rparr>"

text \<open>The two trimming loops of \<^verbatim>\<open>addHeader\<close>; \<open>line\<close> is the range \<^verbatim>\<open>[start, end)\<close>.\<close>

definition trim_right :: "string \<Rightarrow> string" where
  "trim_right s = rev (dropWhile c_isspace (rev s))"

definition addHeader :: "string \<Rightarrow> nat \<Rightarrow> http_request \<Rightarrow> http_request" where
  "addHeader line colon r =
     (let field = take colon line;
          val = trim_right (dropWhile c_isspace (drop (Suc colon) line))
      in r\<lparr>rq_headers := map_set field val (rq_headers r)\<rparr>)"

definition getHeader :: "string \<Rightarrow> http_request \<Rightarrow> string" where
  "getHeader field r = (case map_find field (rq_headers r) of Some v \<Rightarrow> v | None \<Rightarrow> [])"

definition request_swap :: "http_request \<Rightarrow> http_request \<Rightarrow> http_request \<times> http_request" where
  "request_swap r that =
     (r\<lparr>rq_method := rq_method that, rq_version := rq_version that, rq_path := rq_path that,
        rq_query := rq_query that, rq_receiveTime := rq_receiveTime that,
        rq_headers := rq_headers that\<rparr>,
      that\<lparr>rq_method := rq_method r, rq_version := rq_version r, rq_path := rq_path r,
        rq_query := rq_query r, rq_receiveTime := rq_receiveTime r, rq_headers := rq_headers r\<rparr>)"

section \<open>HttpContext\<close>

datatype parse_state = kExpectRequestLine | kExpectHeaders | kExpectBody | kGotAll

record http_context =
  hc_state :: parse_state
  hc_request :: http_request

definition HttpContext_new :: http_context where
  "HttpContext_new = \<lparr>hc_state = kExpectRequestLine, hc_request = HttpRequest_new\<rparr>"

definition gotAll :: "http_context \<Rightarrow> bool" where
  "gotAll c \<longleftrightarrow> hc_state c = kGotAll"

definition context_reset :: "http_context \<Rightarrow> http_context" where
  "context_reset c =
     (let c' = c\<lparr>hc_state := kExpectRequestLine\<rparr>
      in c'\<lparr>hc_request := fst (request_swap (hc_request c') HttpRequest_new)\<rparr>)"

text \<open>\<open>line\<close> is the range \<^verbatim>\<open>[begin, end)\<close>; positions are offsets in it.\<close>

definition set_target :: "string \<Rightarrow> http_request \<Rightarrow> http_request" where
  "set_target tgt r =
     (let question = std_find (CHR ''?'') tgt
      in if question \<noteq> length tgt
         then setQuery (drop question tgt) (setPath (take question tgt) r)
         else setPath tgt r)"

definition set_protocol :: "string \<Rightarrow> http_request \<Rightarrow> bool \<times> http_request" where
  "set_protocol tail r =
     (if length tail = 8 \<and> take 7 tail = ''HTTP/1.''
      then if tail ! 7 = CHR ''1'' then (True, setVersion kHttp11 r)
           else if tail ! 7 = CHR ''0'' then (True, setVersion kHttp10 r)
           else (False, r)
      else (False, r))"

definition processRequestLine :: "string \<Rightarrow> http_request \<Rightarrow> (bool \<times> http_request) res" where
  "processRequestLine line r =
     (let space = std_find (CHR '' '') line
      in if space \<noteq> length line
         then bind_r (setMethod (take space line) r)
           (\<lambda>(known, r').
             if known
             then let rest = drop (Suc space) line;
                      space2 = std_find (CHR '' '') rest
                  in if space2 \<noteq> length rest
                     then Inr (set_protocol (drop (Suc space2) rest) (set_target (take space2 rest) r'))
                     else Inr (False, r')
             else Inr (False, r'))
         else Inr (False, r))"

lemma retrieveUntil_shrinks:
  assumes "retrieveUntil p b = Inr b'" and "peek b < p"
  shows "readableBytes b' < readableBytes b"
  using assms
  by (auto simp: retrieveUntil_def retrieve_def retrieveAll_def ensure_eq_Inr buffer_measures
      split: if_splits)

lemma findCRLF_ge: "findCRLF b = Some p \<Longrightarrow> peek b \<le> p"
  by (auto simp: findCRLF_def Let_def split: if_splits)

function parseRequest ::
    "timestamp \<Rightarrow> buffer \<Rightarrow> http_context \<Rightarrow> (bool \<times> http_context \<times> buffer) res" where
  "parseRequest receiveTime buf c =
     (case hc_state c of
        kExpectRequestLine \<Rightarrow>
          (case findCRLF buf of
             None \<Rightarrow> Inr (True, c, buf)
           | Some crlf \<Rightarrow>
               bind_r (processRequestLine (range_of (storage buf) (peek buf) crlf) (hc_request c))
                 (\<lambda>(ok, r). if ok
                    then bind_r (retrieveUntil (crlf + 2) buf)
                      (\<lambda>buf'. parseRequest receiveTime buf'
                         (c\<lparr>hc_request := setReceiveTime receiveTime r, hc_state := kExpectHeaders\<rparr>))
                    else Inr (False, c\<lparr>hc_request := r\<rparr>, buf)))
      | kExpectHeaders \<Rightarrow>
          (case findCRLF buf of
             None \<Rightarrow> Inr (True, c, buf)
           | Some crlf \<Rightarrow>
               (let line = range_of (storage buf) (peek buf) crlf;
                    colon = std_find (CHR '':'') line
                in if colon \<noteq> length line
                   then bind_r (retrieveUntil (crlf + 2) buf)
                     (\<lambda>buf'. parseRequest receiveTime buf'
                        (c\<lparr>hc_request := addHeader line colon (hc_request c)\<rparr>))
                   else bind_r (retrieveUntil (crlf + 2) buf)
                     (\<lambda>buf'. Inr (True, c\<lparr>hc_state := kGotAll\<rparr>, buf'))))
      | kExpectBody \<Rightarrow> Inl (Diverges ''while (hasMore)'')
      | kGotAll \<Rightarrow> Inl (Diverges ''while (hasMore)''))"
  by pat_completeness auto
termination
  by (relation "measure (\<lambda>(_, b, _). readableBytes b)")
    (auto dest!: findCRLF_ge retrieveUntil_shrinks)

declare parseRequest.simps [simp del]

section \<open>The parser on bytes\<close>

text \<open>The first line of a byte sequence and what follows it.\<close>

definition cut_line :: "string \<Rightarrow> (string \<times> string) option" where
  "cut_line bs =
     (let n = std_search kCRLF bs
      in if n = length bs then None else Some (take n bs, drop (n + 2) bs))"

lemma cut_lineE:
  assumes "cut_line bs = Some (l, rest)"
  obtains n where "std_search kCRLF bs = n" and "n < length bs" and "n + 2 \<le> length bs"
    and "l = take n bs" and "rest = drop (n + 2) bs"
proof -
  let ?n = "std_search kCRLF bs"
  from assms have ne: "?n \<noteq> length bs" and l: "l = take ?n bs" "rest = drop (?n + 2) bs"
    by (auto simp: cut_line_def Let_def split: if_splits)
  then have less: "?n < length bs" using le_neq_implies_less [OF std_search_le] by blast
  from std_search_room [OF less] have "?n + 2 \<le> length bs" by (simp add: kCRLF_def)
  with less l show thesis by (intro that) auto
qed

lemma cut_line_shorter: "cut_line bs = Some (l, rest) \<Longrightarrow> length rest < length bs"
  by (elim cut_lineE) simp

lemma cut_line_append:
  assumes "cut_line bs = Some (l, rest)"
  shows "cut_line (bs @ ys) = Some (l, rest @ ys)"
  using assms
proof (rule cut_lineE)
  fix n assume n: "std_search kCRLF bs = n" "n < length bs" "n + 2 \<le> length bs"
    "l = take n bs" "rest = drop (n + 2) bs"
  have "std_search kCRLF (bs @ ys) = n"
  proof (rule std_search_eqI)
    fix i assume "i < n"
    with std_search_first [of i kCRLF bs] n show "take (length kCRLF) (drop i (bs @ ys)) \<noteq> kCRLF"
      by (simp add: kCRLF_def)
  qed (use std_search_match [of kCRLF bs] n in \<open>simp_all add: kCRLF_def\<close>)
  with n show ?thesis by (simp add: cut_line_def)
qed

interpretation http_lines: framing cut_line
  using cut_line_shorter cut_line_append by unfold_locales

function parse_bytes ::
    "timestamp \<Rightarrow> http_context \<Rightarrow> string \<Rightarrow> (bool \<times> http_context \<times> string) res" where
  "parse_bytes t c bs =
     (case hc_state c of
        kExpectRequestLine \<Rightarrow>
          (case cut_line bs of
             None \<Rightarrow> Inr (True, c, bs)
           | Some (line, rest) \<Rightarrow>
               bind_r (processRequestLine line (hc_request c))
                 (\<lambda>(ok, r). if ok
                    then parse_bytes t
                           (c\<lparr>hc_request := setReceiveTime t r, hc_state := kExpectHeaders\<rparr>) rest
                    else Inr (False, c\<lparr>hc_request := r\<rparr>, bs)))
      | kExpectHeaders \<Rightarrow>
          (case cut_line bs of
             None \<Rightarrow> Inr (True, c, bs)
           | Some (line, rest) \<Rightarrow>
               if CHR '':'' \<in> set line
               then parse_bytes t
                      (c\<lparr>hc_request := addHeader line (std_find (CHR '':'') line) (hc_request c)\<rparr>) rest
               else Inr (True, c\<lparr>hc_state := kGotAll\<rparr>, rest))
      | _ \<Rightarrow> Inl (Diverges ''while (hasMore)''))"
  by pat_completeness auto
termination
  by (relation "measure (\<lambda>(_, _, bs). length bs)") (auto dest!: cut_line_shorter)

declare parse_bytes.simps [simp del]

lemma findCRLF_cut_line:
  assumes "buffer_ok b"
  shows "findCRLF b = map_option (\<lambda>(l, _). peek b + length l) (cut_line (readable b))"
proof -
  have len: "length (readable b) = beginWrite b - peek b" "peek b \<le> beginWrite b"
    using assms by (auto simp: buffer_measures buffer_ok_def)
  with std_search_le [of kCRLF "readable b"] show ?thesis
    by (auto simp: findCRLF_def cut_line_def Let_def readable_def buffer_measures min_def)
qed

lemma line_of_buffer:
  assumes "buffer_ok b" and "cut_line (readable b) = Some (l, rest)"
  shows "range_of (storage b) (peek b) (peek b + length l) = l"
    and "returns (retrieveUntil (peek b + length l + 2) b) (\<lambda>b'. buffer_ok b' \<and> readable b' = rest)"
proof -
  from assms(2) obtain n where n: "n + 2 \<le> length (readable b)"
    "l = take n (readable b)" "rest = drop (n + 2) (readable b)" by (rule cut_lineE)
  then have l: "length l = n" by simp
  with n show "range_of (storage b) (peek b) (peek b + length l) = l"
    using front_bytes(1) [OF assms(1), of l "drop n (readable b)"] by simp
  show "returns (retrieveUntil (peek b + length l + 2) b) (\<lambda>b'. buffer_ok b' \<and> readable b' = rest)"
    using retrieveUntil_spec [OF assms(1), of _ "n + 2"] n l assms(1) by simp
qed

text \<open>The parser on a buffer does what the parser on its content does.\<close>

definition parse_agrees ::
    "(bool \<times> http_context \<times> buffer) res \<Rightarrow> (bool \<times> http_context \<times> string) res \<Rightarrow> bool" where
  "parse_agrees m k =
     (case (m, k) of
        (Inl e, Inl e') \<Rightarrow> e = e'
      | (Inr (ok, c, b), Inr (ok', c', bs)) \<Rightarrow> ok = ok' \<and> c = c' \<and> buffer_ok b \<and> readable b = bs
      | _ \<Rightarrow> False)"

lemma parse_agrees_simps [simp]:
  "parse_agrees (Inl e) (Inl e') \<longleftrightarrow> e = e'"
  "parse_agrees (Inr (ok, c, b)) (Inr (ok', c', bs)) \<longleftrightarrow>
     ok = ok' \<and> c = c' \<and> buffer_ok b \<and> readable b = bs"
  by (simp_all add: parse_agrees_def)

lemma parse_agrees_common:
  assumes "parse_agrees m k" and "parse_agrees n k"
  shows "case (m, n) of
           (Inl e, Inl e') \<Rightarrow> e = e'
         | (Inr (ok, c1, b1), Inr (ok', c2, b2)) \<Rightarrow>
             ok = ok' \<and> c1 = c2 \<and> readable b1 = readable b2 \<and> buffer_ok b1 \<and> buffer_ok b2
         | _ \<Rightarrow> False"
  using assms by (cases m; cases n; cases k) (simp_all add: parse_agrees_def split_beta)

lemma parseRequest_refines:
  "buffer_ok buf \<Longrightarrow> parse_agrees (parseRequest t buf c) (parse_bytes t c (readable buf))"
proof (induction t buf c rule: parseRequest.induct)
  case (1 t buf c)
  show ?case
  proof (cases "hc_state c = kExpectRequestLine \<or> hc_state c = kExpectHeaders")
    case False
    then show ?thesis
      by (cases "hc_state c") (simp_all add: parseRequest.simps [of t buf] parse_bytes.simps)
  next
    case st: True
    show ?thesis
    proof (cases "cut_line (readable buf)")
      case None
      with st 1(3) findCRLF_cut_line [OF 1(3)] show ?thesis
        by (auto simp: parseRequest.simps [of t buf] parse_bytes.simps)
    next
      case (Some lr)
      then obtain l rest where cut: "cut_line (readable buf) = Some (l, rest)" by (cases lr) auto
      have crlf: "findCRLF buf = Some (peek buf + length l)"
        using findCRLF_cut_line [OF 1(3)] cut by simp
      from line_of_buffer(2) [OF 1(3) cut] obtain buf' where buf':
        "retrieveUntil (peek buf + length l + 2) buf = Inr buf'" "buffer_ok buf'" "readable buf' = rest"
        by (auto elim: returnsE)
      note line = line_of_buffer(1) [OF 1(3) cut]
      show ?thesis
      proof (cases "hc_state c = kExpectRequestLine")
        case True
        note IH = 1(1) [OF True crlf]
        show ?thesis
        proof (cases "processRequestLine l (hc_request c)")
          case (Inl e)
          with True crlf cut line show ?thesis
            by (simp add: parseRequest.simps [of t buf] parse_bytes.simps)
        next
          case (Inr okr)
          with True crlf cut line buf' IH [of okr] 1(3) show ?thesis
            by (cases okr) (auto simp: parseRequest.simps [of t buf] parse_bytes.simps [of t c])
        qed
      next
        case False
        with st have hs: "hc_state c = kExpectHeaders" by simp
        from hs crlf cut line buf' 1(2) [OF hs crlf refl refl] show ?thesis
          by (auto simp: parseRequest.simps [of t buf] parse_bytes.simps [of t c])
      qed
    qed
  qed
qed

text \<open>Parsing a prefix first and the rest later is parsing the whole.\<close>

definition parse_resume :: "timestamp \<Rightarrow> string \<Rightarrow> bool \<times> http_context \<times> string \<Rightarrow>
    (bool \<times> http_context \<times> string) res" where
  "parse_resume t ys = (\<lambda>(ok, c, rest).
     if ok \<and> \<not> gotAll c then parse_bytes t c (rest @ ys) else Inr (ok, c, rest @ ys))"

lemma parse_bytes_append:
  "parse_bytes t c (xs @ ys) = bind_r (parse_bytes t c xs) (parse_resume t ys)"
proof (induction t c xs rule: parse_bytes.induct)
  case (1 t c xs)
  note unf = parse_bytes.simps [of t c]
  show ?case
  proof (cases "cut_line xs")
    case None
    then show ?thesis by (cases "hc_state c") (simp_all add: unf parse_resume_def gotAll_def)
  next
    case (Some lr)
    then obtain l rest where cut: "cut_line xs = Some (l, rest)" by (cases lr) auto
    note cut' = cut_line_append [OF cut, of ys]
    show ?thesis
    proof (cases "hc_state c")
      case kExpectRequestLine
      show ?thesis
      proof (cases "processRequestLine l (hc_request c)")
        case (Inl e)
        with kExpectRequestLine cut cut' show ?thesis by (simp add: unf)
      next
        case (Inr okr)
        with 1(1) [OF kExpectRequestLine cut refl Inr] kExpectRequestLine cut cut' show ?thesis
          by (cases okr) (simp add: unf parse_resume_def)
      qed
    next
      case kExpectHeaders
      with 1(2) [OF kExpectHeaders cut refl] cut cut' show ?thesis
        by (simp add: unf parse_resume_def gotAll_def)
    qed (simp_all add: unf)
  qed
qed

section \<open>Messages\<close>

text \<open>
  The bytes of a connection arrive in chunks: each is appended to the input buffer and
  parsed until the request is complete or bad; later chunks stay in the buffer.
\<close>

fun feed :: "timestamp \<Rightarrow> string list \<Rightarrow> buffer \<Rightarrow> http_context \<Rightarrow>
    (bool \<times> http_context \<times> buffer) res" where
  "feed t [] buf c = Inr (True, c, buf)"
| "feed t (x # xs) buf c =
     bind_r (buf_append x buf) (\<lambda>b. bind_r (parseRequest t b c)
       (\<lambda>(ok, c', b').
          if xs = [] then Inr (ok, c', b')
          else if ok \<and> \<not> gotAll c' then feed t xs b' c'
          else bind_r (buf_append (concat xs) b') (\<lambda>b''. Inr (ok, c', b''))))"

lemma feed_agrees:
  "buffer_ok buf \<Longrightarrow> xs \<noteq> [] \<Longrightarrow>
     parse_agrees (feed t xs buf c) (parse_bytes t c (readable buf @ concat xs))"
proof (induction xs arbitrary: buf c)
  case (Cons x xs)
  from buf_append_spec [OF Cons.prems(1), of x] obtain b where
    b: "buf_append x buf = Inr b" "buffer_ok b" "readable b = readable buf @ x"
    by (auto elim: returnsE)
  note agree = parseRequest_refines [OF b(2), of t c, unfolded b(3)]
  have whole: "parse_bytes t c (readable buf @ x @ concat xs) =
      bind_r (parse_bytes t c (readable buf @ x)) (parse_resume t (concat xs))"
    by (simp add: parse_bytes_append [symmetric])
  show ?case
  proof (cases "parse_bytes t c (readable buf @ x)")
    case (Inl e)
    with agree b whole show ?thesis by (auto simp: parse_agrees_def split: sum.splits)
  next
    case (Inr r)
    obtain ok c' bs where r: "r = (ok, c', bs)" by (cases r)
    from agree Inr r obtain b' where b': "parseRequest t b c = Inr (ok, c', b')"
      "buffer_ok b'" "readable b' = bs"
      by (auto simp: parse_agrees_def split: sum.splits prod.splits)
    show ?thesis
    proof (cases "ok \<and> \<not> gotAll c' \<and> xs \<noteq> []")
      case True
      with Cons.IH [of b' c'] b b' Inr r show ?thesis
        by (simp add: whole parse_resume_def)
    next
      case False
      from buf_append_spec [OF b'(2), of "concat xs"] obtain b'' where
        "buf_append (concat xs) b' = Inr b''" "buffer_ok b''" "readable b'' = bs @ concat xs"
        using b'(3) by (auto elim: returnsE)
      with False b b' Inr r agree show ?thesis
        by (cases "xs = []") (auto simp: whole parse_bytes_append [symmetric] parse_resume_def)
    qed
  qed
qed simp

section \<open>Rendered requests\<close>

lemma cut_line_intro:
  assumes "CR \<notin> set l"
  shows "cut_line (l @ CR # LF # rest) = Some (l, rest)"
proof -
  have "std_search kCRLF (l @ CR # LF # rest) = length l"
  proof (rule std_search_eqI)
    fix i assume "i < length l"
    then have "take (length kCRLF) (drop i (l @ CR # LF # rest)) ! 0 = l ! i"
      by (simp add: kCRLF_def nth_append)
    moreover have "l ! i \<noteq> CR" using assms \<open>i < length l\<close> by (metis nth_mem)
    ultimately show "take (length kCRLF) (drop i (l @ CR # LF # rest)) \<noteq> kCRLF"
      by (auto simp: kCRLF_def)
  qed (simp_all add: kCRLF_def)
  then show ?thesis by (simp add: cut_line_def)
qed

lemma std_find_here: "x \<notin> set xs \<Longrightarrow> std_find x (xs @ x # ys) = length xs"
  by (simp add: std_find_append)

text \<open>The text of a request, as clients write it.\<close>

fun version_name :: "http_version \<Rightarrow> string" where
  "version_name kHttp10 = ''HTTP/1.0''"
| "version_name kHttp11 = ''HTTP/1.1''"
| "version_name kUnknown = []"

fun render_headers :: "(string \<times> string) list \<Rightarrow> string" where
  "render_headers [] = []"
| "render_headers ((k, v) # hs) = k @ '': '' @ v @ [CR, LF] @ render_headers hs"

definition render_request ::
    "http_method \<Rightarrow> string \<Rightarrow> string \<Rightarrow> http_version \<Rightarrow> (string \<times> string) list \<Rightarrow> string" where
  "render_request m path query v hs =
     method_name m @ '' '' @ path @ query @ '' '' @ version_name v @ [CR, LF] @
     render_headers hs @ [CR, LF]"

definition target_ok :: "string \<Rightarrow> string \<Rightarrow> bool" where
  "target_ok path query \<longleftrightarrow>
     set path \<inter> {CHR '' '', CHR ''?'', CR} = {} \<and>
     (query = [] \<or> hd query = CHR ''?'') \<and> set query \<inter> {CHR '' '', CR} = {}"

definition header_ok :: "string \<times> string \<Rightarrow> bool" where
  "header_ok h \<longleftrightarrow>
     set (fst h) \<inter> {CHR '':'', CR} = {} \<and> CR \<notin> set (snd h) \<and>
     (snd h = [] \<or> \<not> c_isspace (hd (snd h)) \<and> \<not> c_isspace (last (snd h)))"

lemma dropWhile_stays: "xs \<noteq> [] \<Longrightarrow> \<not> P (hd xs) \<Longrightarrow> dropWhile P xs = xs"
  by (cases xs) simp_all

lemma trimmed_value:
  assumes "v = [] \<or> \<not> c_isspace (hd v) \<and> \<not> c_isspace (last v)"
  shows "trim_right (dropWhile c_isspace (CHR '' '' # v)) = v"
proof (cases "v = []")
  case False
  with assms have "dropWhile c_isspace v = v" "dropWhile c_isspace (rev v) = rev v"
    by (simp_all add: dropWhile_stays hd_rev)
  then show ?thesis by (simp add: trim_right_def c_isspace_def)
qed (simp add: trim_right_def c_isspace_def)

lemma addHeader_rendered:
  assumes "header_ok (k, v)"
  shows "addHeader (k @ '': '' @ v) (std_find (CHR '':'') (k @ '': '' @ v)) r =
         r\<lparr>rq_headers := map_set k v (rq_headers r)\<rparr>"
  using assms trimmed_value [of v]
  by (auto simp: addHeader_def header_ok_def std_find_here Let_def)

lemma parse_headers_rendered:
  assumes "list_all header_ok hs" and "hc_state c = kExpectHeaders"
  shows "parse_bytes t c (render_headers hs @ [CR, LF] @ rest) =
    Inr (True,
      c\<lparr>hc_state := kGotAll,
        hc_request := (hc_request c)\<lparr>rq_headers := fold (\<lambda>(k, v). map_set k v) hs (rq_headers (hc_request c))\<rparr>\<rparr>,
      rest)"
  using assms
proof (induction hs arbitrary: c)
  case Nil
  then show ?case using cut_line_intro [of "[]" rest] by (simp add: parse_bytes.simps)
next
  case (Cons h hs)
  obtain k v where h: "h = (k, v)" by (cases h)
  let ?tail = "render_headers hs @ [CR, LF] @ rest"
  have cut: "cut_line (render_headers (h # hs) @ [CR, LF] @ rest) = Some (k @ '': '' @ v, ?tail)"
    using Cons.prems(1) h cut_line_intro [of "k @ '': '' @ v" ?tail] by (simp add: header_ok_def)
  show ?case
    using cut Cons.prems Cons.IH [of "c\<lparr>hc_request := (hc_request c)
        \<lparr>rq_headers := map_set k v (rq_headers (hc_request c))\<rparr>\<rparr>"] h addHeader_rendered [of k v]
    by (subst parse_bytes.simps) simp
qed

lemma setMethod_name:
  "m \<noteq> kInvalid \<Longrightarrow> rq_method r = kInvalid \<Longrightarrow> setMethod (method_name m) r = Inr (True, r\<lparr>rq_method := m\<rparr>)"
  by (cases m) (simp_all add: setMethod_def)

lemma processRequestLine_rendered:
  assumes "m \<noteq> kInvalid" and "v \<noteq> kUnknown" and "target_ok path query" and "rq_method r = kInvalid"
  shows "processRequestLine (method_name m @ '' '' @ path @ query @ '' '' @ version_name v) r =
    Inr (True, r\<lparr>rq_method := m, rq_path := path,
                rq_query := (if query = [] then rq_query r else query), rq_version := v\<rparr>)"
proof -
  let ?tgt = "path @ query"
  have sp: "CHR '' '' \<notin> set (method_name m)" by (cases m) simp_all
  have sp2: "CHR '' '' \<notin> set ?tgt" using assms(3) by (auto simp: target_ok_def)
  have tgt: "set_target ?tgt q = q\<lparr>rq_path := path, rq_query := (if query = [] then rq_query q else query)\<rparr>"
    for q using assms(3)
    by (cases query) (auto simp: set_target_def target_ok_def Let_def std_find_append setPath_def setQuery_def)
  have prot: "set_protocol (version_name v) q = (True, q\<lparr>rq_version := v\<rparr>)" for q
    using assms(2) by (cases v) (simp_all add: set_protocol_def setVersion_def)
  have len: "length (method_name m) \<noteq> length (method_name m @ '' '' @ ?tgt @ '' '' @ version_name v)"
    by simp
  have find1: "std_find (CHR '' '') (method_name m @ '' '' @ ?tgt @ '' '' @ version_name v) =
      length (method_name m)"
    using sp std_find_here by simp
  have find2: "std_find (CHR '' '') (?tgt @ '' '' @ version_name v) = length ?tgt"
    using std_find_here [OF sp2] by simp
  show ?thesis
    using find1 find2 len setMethod_name [OF assms(1,4)] tgt prot
    by (simp add: processRequestLine_def Let_def)
qed

lemma parse_rendered:
  assumes "m \<noteq> kInvalid" and "v \<noteq> kUnknown" and "target_ok path query" and "list_all header_ok hs"
  shows "parse_bytes t HttpContext_new (render_request m path query v hs @ rest) =
    Inr (True,
      \<lparr>hc_state = kGotAll,
       hc_request = \<lparr>rq_method = m, rq_version = v, rq_path = path, rq_query = query,
         rq_receiveTime = t, rq_headers = fold (\<lambda>(k, v). map_set k v) hs []\<rparr>\<rparr>, rest)"
proof -
  let ?line = "method_name m @ '' '' @ path @ query @ '' '' @ version_name v"
  let ?tail = "render_headers hs @ [CR, LF] @ rest"
  have "CR \<notin> set ?line"
    using assms(3) by (cases m; cases v) (auto simp: target_ok_def)
  then have cut: "cut_line (render_request m path query v hs @ rest) = Some (?line, ?tail)"
    using cut_line_intro [of ?line ?tail] by (simp add: render_request_def)
  show ?thesis
    using cut processRequestLine_rendered [OF assms(1-3), of HttpRequest_new]
      parse_headers_rendered [OF assms(4)]
    by (subst parse_bytes.simps)
      (simp add: HttpContext_new_def HttpRequest_new_def setReceiveTime_def del: append.simps)
qed

section \<open>Contexts between messages\<close>

definition context_ready :: "http_context \<Rightarrow> bool" where
  "context_ready c \<longleftrightarrow>
     hc_state c = kExpectRequestLine \<and> rq_method (hc_request c) = kInvalid \<or>
     hc_state c = kExpectHeaders"

lemma processRequestLine_total:
  "rq_method r = kInvalid \<Longrightarrow> \<exists>ok r'. processRequestLine line r = Inr (ok, r')"
  by (auto simp: processRequestLine_def setMethod_def Let_def split: prod.splits)

lemma parse_bytes_total:
  "context_ready c \<Longrightarrow>
     returns (parse_bytes t c bs) (\<lambda>(ok, c', rest).
       length rest \<le> length bs \<and>
       (ok \<longrightarrow> gotAll c' \<or> context_ready c' \<and> cut_line rest = None) \<and> (\<not> ok \<longrightarrow> \<not> gotAll c'))"
proof (induction t c bs rule: parse_bytes.induct)
  case (1 t c bs)
  note unf = parse_bytes.simps [of t c]
  show ?case
  proof (cases "cut_line bs")
    case None
    with 1(3) show ?thesis by (auto simp: unf context_ready_def gotAll_def)
  next
    case (Some lr)
    then obtain l rest where cut: "cut_line bs = Some (l, rest)" by (cases lr) auto
    note shorter = cut_line_shorter [OF cut]
    from 1(3) consider (line) "hc_state c = kExpectRequestLine" "rq_method (hc_request c) = kInvalid"
      | (headers) "hc_state c = kExpectHeaders" by (auto simp: context_ready_def)
    then show ?thesis
    proof cases
      case line
      from processRequestLine_total [OF line(2)] obtain ok r
        where r: "processRequestLine l (hc_request c) = Inr (ok, r)" by blast
      show ?thesis
      proof (cases ok)
        case True
        from 1(1) [OF line(1) cut refl r refl True] line cut r True shorter show ?thesis
          by (auto simp: unf context_ready_def elim!: returns_mono)
      qed (use line cut r in \<open>simp add: unf gotAll_def\<close>)
    next
      case headers
      with 1(2) [OF headers cut refl] cut shorter show ?thesis
        by (auto simp: unf context_ready_def gotAll_def elim!: returns_mono)
    qed
  qed
qed

lemma parseRequest_total:
  assumes "buffer_ok buf" and "context_ready c"
  shows "returns (parseRequest t buf c) (\<lambda>(ok, c', buf').
    buffer_ok buf' \<and> readableBytes buf' \<le> readableBytes buf \<and>
    (ok \<longrightarrow> gotAll c' \<or> context_ready c' \<and> findCRLF buf' = None) \<and> (\<not> ok \<longrightarrow> \<not> gotAll c'))"
proof -
  from parse_bytes_total [OF assms(2), of t "readable buf"] obtain ok c' rest where
    k: "parse_bytes t c (readable buf) = Inr (ok, c', rest)" "length rest \<le> length (readable buf)"
      "ok \<longrightarrow> gotAll c' \<or> context_ready c' \<and> cut_line rest = None" "\<not> ok \<longrightarrow> \<not> gotAll c'"
    by (auto elim!: returnsE)
  with parseRequest_refines [OF assms(1), of t c] obtain buf' where
    "parseRequest t buf c = Inr (ok, c', buf')" "buffer_ok buf'" "readable buf' = rest"
    by (auto simp: parse_agrees_def split: sum.splits prod.splits)
  with k assms(1) show ?thesis by (auto simp: findCRLF_cut_line)
qed

lemma context_reset_new: "context_reset c = HttpContext_new"
  by (simp add: context_reset_def request_swap_def HttpContext_new_def HttpRequest_new_def Let_def)

lemma context_new_ready [simp]: "context_ready HttpContext_new"
  by (simp add: context_ready_def HttpContext_new_def HttpRequest_new_def)

section \<open>Properties\<close>

text \<open>
  C10. The outcome of parsing does not depend on how TCP cut the bytes of a request into
  messages: feeding any sequence of chunks, parsing after each, gives the same verdict,
  the same context and the same unparsed bytes as one message with all of them (with the
  same receive time), the same failure included.
\<close>

theorem parsing_ignores_segmentation:
  assumes "buffer_ok buf" and "chunks \<noteq> []"
  shows "case (feed t chunks buf c, bind_r (buf_append (concat chunks) buf) (\<lambda>b. parseRequest t b c)) of
           (Inl e, Inl e') \<Rightarrow> e = e'
         | (Inr (ok, c1, b1), Inr (ok', c2, b2)) \<Rightarrow>
             ok = ok' \<and> c1 = c2 \<and> readable b1 = readable b2 \<and> buffer_ok b1 \<and> buffer_ok b2
         | _ \<Rightarrow> False"
proof -
  from buf_append_spec [OF assms(1), of "concat chunks"] obtain b where
    b: "buf_append (concat chunks) buf = Inr b" "buffer_ok b" "readable b = readable buf @ concat chunks"
    by (auto elim: returnsE)
  show ?thesis
    using parse_agrees_common [OF feed_agrees [OF assms, of t c]
        parseRequest_refines [OF b(2), of t c, unfolded b(3)]] b(1) by simp
qed

theorem parsing_ignores_segmentation_witness:
  "case (feed 7 [''GET /a HT'', ''TP/1.1'' @ [CR], [LF, CR, LF]] small_buffer HttpContext_new,
         bind_r (buf_append (''GET /a HTTP/1.1'' @ [CR, LF, CR, LF]) small_buffer)
           (\<lambda>b. parseRequest 7 b HttpContext_new)) of
     (Inl e, Inl e') \<Rightarrow> e = e'
   | (Inr (ok, c1, b1), Inr (ok', c2, b2)) \<Rightarrow>
       ok = ok' \<and> c1 = c2 \<and> readable b1 = readable b2 \<and> buffer_ok b1 \<and> buffer_ok b2
   | _ \<Rightarrow> False"
  using parsing_ignores_segmentation [of small_buffer
      "[''GET /a HT'', ''TP/1.1'' @ [CR], [LF, CR, LF]]" 7 HttpContext_new]
  by simp

text \<open>
  C17. A request with a known method and version, a target without blanks and trimmed
  headers, rendered the way clients write it, is parsed back by a fresh context: every
  part is recovered (a repeated header keeps its last value), the receive time is
  recorded, the parser stops at the end of the headers and leaves the bytes behind it in
  the buffer.
\<close>

theorem parse_render_round_trip:
  assumes "buffer_ok buf" and "readable buf = render_request m path query v hs @ rest"
    and "m \<noteq> kInvalid" and "v \<noteq> kUnknown" and "target_ok path query" and "list_all header_ok hs"
  shows "returns (parseRequest t buf HttpContext_new) (\<lambda>(ok, c, buf').
    ok \<and> gotAll c \<and> buffer_ok buf' \<and> readable buf' = rest \<and>
    rq_method (hc_request c) = m \<and> rq_version (hc_request c) = v \<and>
    rq_path (hc_request c) = path \<and> rq_query (hc_request c) = query \<and>
    rq_receiveTime (hc_request c) = t \<and>
    rq_headers (hc_request c) = fold (\<lambda>(k, v). map_set k v) hs [])"
  using parseRequest_refines [OF assms(1), of t HttpContext_new]
    parse_rendered [OF assms(3-6), of t rest]
  by (auto simp: assms(2) parse_agrees_def gotAll_def split: sum.splits prod.splits)

definition request_buffer :: buffer where
  "request_buffer =
     \<lparr>storage = ''--------'' @ ''GET /a?x HTTP/1.1'' @ [CR, LF] @ ''Host: b'' @ [CR, LF, CR, LF] @ ''next'',
      readerIndex = 8, writerIndex = 42\<rparr>"

theorem parse_render_round_trip_witness:
  "returns (parseRequest 5 request_buffer HttpContext_new) (\<lambda>(ok, c, buf').
    ok \<and> gotAll c \<and> buffer_ok buf' \<and> readable buf' = ''next'' \<and>
    rq_method (hc_request c) = kGet \<and> rq_version (hc_request c) = kHttp11 \<and>
    rq_path (hc_request c) = ''/a'' \<and> rq_query (hc_request c) = ''?x'' \<and>
    rq_receiveTime (hc_request c) = 5 \<and> rq_headers (hc_request c) = [(''Host'', ''b'')])"
proof -
  have "buffer_ok request_buffer"
    "readable request_buffer = render_request kGet ''/a'' ''?x'' kHttp11 [(''Host'', ''b'')] @ ''next''"
    by (simp_all add: request_buffer_def buffer_ok_def readable_def range_of_def render_request_def
        kCheapPrepend_def)
  then show ?thesis
    using parse_render_round_trip [of request_buffer kGet "''/a''" "''?x''" kHttp11 "[(''Host'', ''b'')]"
        "''next''" 5]
    by (simp add: target_ok_def header_ok_def c_isspace_def)
qed

text \<open>
  After a request line whose method was recognised but whose remainder is malformed,
  the line stays in the buffer and the method stays set, so parsing again on that
  context, whatever arrives next, fails the assertion of \<^verbatim>\<open>setMethod\<close>.
\<close>

theorem bad_line_then_message_asserts:
  assumes "buffer_ok buf" and "readable buf = method_name m @ '' '' @ junk @ kCRLF @ rest"
    and "m \<noteq> kInvalid" and "CHR '' '' \<notin> set junk" and "CR \<notin> set junk"
  shows "returns (parseRequest t buf HttpContext_new) (\<lambda>(ok, c, buf').
           \<not> ok \<and> bind_r (buf_append later buf') (\<lambda>b. parseRequest t' b c) =
             Inl (AssertFail ''method_ == kInvalid''))"
proof -
  let ?line = "method_name m @ '' '' @ junk"
  have CR: "CR \<notin> set ?line" using assms(5) by (cases m) auto
  have sp: "CHR '' '' \<notin> set (method_name m)" by (cases m) simp_all
  have find: "std_find (CHR '' '') ?line = length (method_name m)" using std_find_here [OF sp] by simp
  have junk: "std_find (CHR '' '') junk = length junk" using assms(4) by simp
  let ?r = "HttpRequest_new\<lparr>rq_method := m\<rparr>"
  let ?c = "HttpContext_new\<lparr>hc_request := ?r\<rparr>"
  have cut: "cut_line (readable buf @ ext) = Some (?line, rest @ ext)" for ext
    using cut_line_intro [OF CR, of "rest @ ext"] by (simp add: assms(2) kCRLF_def)
  have first: "processRequestLine ?line HttpRequest_new = Inr (False, ?r)"
    using find junk setMethod_name [OF assms(3), of HttpRequest_new]
    by (simp add: processRequestLine_def Let_def HttpRequest_new_def)
  have bytes: "parse_bytes t HttpContext_new (readable buf) = Inr (False, ?c, readable buf)"
    using cut [of "[]"] first by (subst parse_bytes.simps) (simp add: HttpContext_new_def)
  have again: "processRequestLine ?line ?r = Inl (AssertFail ''method_ == kInvalid'')"
    using find assms(3) by (simp add: processRequestLine_def Let_def setMethod_def)
  have fails: "parse_bytes t' ?c (readable buf @ later) = Inl (AssertFail ''method_ == kInvalid'')"
    using cut again by (subst parse_bytes.simps) (simp add: HttpContext_new_def)
  from parseRequest_refines [OF assms(1), of t HttpContext_new] bytes obtain buf' where
    buf': "parseRequest t buf HttpContext_new = Inr (False, ?c, buf')" "buffer_ok buf'" "readable buf' = readable buf"
    by (auto simp: parse_agrees_def split: sum.splits)
  from buf_append_spec [OF buf'(2), of later] obtain b where
    b: "buf_append later buf' = Inr b" "buffer_ok b" "readable b = readable buf @ later"
    using buf'(3) by (auto elim: returnsE)
  from parseRequest_refines [OF b(2), of t' ?c] b buf' fails show ?thesis
    by (auto simp: parse_agrees_def split: sum.splits)
qed

theorem bad_line_then_message_asserts_witness:
  "returns (parseRequest 1 \<lparr>storage = ''--------GET x'' @ [CR, LF], readerIndex = 8, writerIndex = 15\<rparr>
              HttpContext_new)
     (\<lambda>(ok, c, buf'). \<not> ok \<and> bind_r (buf_append ''y'' buf') (\<lambda>b. parseRequest 2 b c) =
        Inl (AssertFail ''method_ == kInvalid''))"
  by (rule bad_line_then_message_asserts [where m = kGet and junk = "''x''" and rest = "[]"])
    (simp_all add: buffer_ok_def readable_def range_of_def kCheapPrepend_def kCRLF_def)

end
