(* ===== verification/HttpServe.thy ===== *)
theory HttpServe
  imports HttpParse
begin

text \<open>
  HTTP responses and the server (\<^verbatim>\<open>netLayer/http/HttpResponse.h\<close>,
  \<^verbatim>\<open>HttpResponse.cpp\<close>, \<^verbatim>\<open>HttpServer.cpp\<close>).

  The server's callback is a parameter: a function from the request and the prepared
  response to the finished response. What the server does to the connection is the list
  of \<open>conn_action\<close>s, in order. A response is checked against what a client reads:
  the lines up to the first empty one, and the body behind it.
\<close>

section \<open>HttpResponse\<close>

datatype status_code =
  kUnknownStatus | k200Ok | k301MovedPermanently | k400BadRequest | k404NotFound

fun status_value :: "status_code \<Rightarrow> nat" where
  "status_value kUnknownStatus = 0"
| "status_value k200Ok = 200"
| "status_value k301MovedPermanently = 301"
| "status_value k400BadRequest = 400"
| "status_value k404NotFound = 404"

record http_response =
  rs_headers :: "(string, string) std_map"
  rs_statusCode :: status_code
  rs_statusMessage :: string
  rs_closeConnection :: bool
  rs_body :: string

definition HttpResponse_new :: "bool \<Rightarrow> http_response" where
  "HttpResponse_new close = \<lparr>rs_headers = [], rs_statusCode = kUnknownStatus, rs_statusMessage = [],
                            rs_closeConnection = close, rs_body = []\<rparr>"

definition setStatusCode :: "status_code \<Rightarrow> http_response \<Rightarrow> http_response" where
  "setStatusCode code r = r\<lparr>rs_statusCode := code\<rparr>"

definition setStatusMessage :: "string \<Rightarrow> http_response \<Rightarrow> http_response" where
  "setStatusMessage message r = r\<lparr>rs_statusMessage := message\<rparr>"

definition setCloseConnection :: "bool \<Rightarrow> http_response \<Rightarrow> http_response" where
  "setCloseConnection on r = r\<lparr>rs_closeConnection := on\<rparr>"

definition response_addHeader :: "string \<Rightarrow> string \<Rightarrow> http_response \<Rightarrow> http_response" where
  "response_addHeader key val r = r\<lparr>rs_headers := map_set key val (rs_headers r)\<rparr>"

definition setContentType :: "string \<Rightarrow> http_response \<Rightarrow> http_response" where
  "setContentType contentType r = response_addHeader ''Content-Type'' contentType r"

definition setBody :: "string \<Rightarrow> http_response \<Rightarrow> http_response" where
  "setBody body r = r\<lparr>rs_body := body\<rparr>"

text \<open>\<^verbatim>\<open>snprintf\<close> into an array of \<open>n\<close> characters keeps what fits before the zero.\<close>

definition snprintf :: "nat \<Rightarrow> string \<Rightarrow> char list" where
  "snprintf n s = take (n - 1) s @ [CHR 0x00]"

text \<open>A sequence of \<^verbatim>\<open>append\<close> calls, each through the conversion to \<^verbatim>\<open>StringPiece\<close>.\<close>

fun append_pieces :: "string_piece list \<Rightarrow> buffer \<Rightarrow> buffer res" where
  "append_pieces [] b = Inr b"
| "append_pieces (p # ps) b = bind_r (append_piece p b) (append_pieces ps)"

definition literal :: "string \<Rightarrow> string_piece" where
  "literal s = piece_of_cstr (s @ [CHR 0x00])"

definition appendToBuffer :: "http_response \<Rightarrow> buffer \<Rightarrow> buffer res" where
  "appendToBuffer r output =
     append_pieces
       ([piece_of_cstr (snprintf 32 (''HTTP/1.1 '' @ show_nat (status_value (rs_statusCode r)) @ '' '')),
         piece_of_string (rs_statusMessage r),
         literal [CR, LF]] @
        (if rs_closeConnection r
         then [literal (''Connection: close'' @ [CR, LF])]
         else [piece_of_cstr (snprintf 32
                 (''Content-Length: '' @ show_nat (length (rs_body r)) @ [CR, LF])),
               literal (''Connection: Keep-Alive'' @ [CR, LF])]) @
        concat (map (\<lambda>(key, val).
            [piece_of_string key, literal '': '', piece_of_string val, literal [CR, LF]])
          (rs_headers r)) @
        [literal [CR, LF], piece_of_string (rs_body r)])
       output"

section \<open>HttpServer\<close>

type_synonym http_callback = "http_request \<Rightarrow> http_response \<Rightarrow> http_response"

definition defaultHttpCallback :: http_callback where
  "defaultHttpCallback req resp =
     setCloseConnection True (setStatusMessage ''Not Found'' (setStatusCode k404NotFound resp))"

definition http_onConnection :: "bool \<Rightarrow> http_context option \<Rightarrow> http_context option" where
  "http_onConnection connected context = (if connected then Some HttpContext_new else context)"

definition wants_close :: "http_request \<Rightarrow> bool" where
  "wants_close req \<longleftrightarrow>
     (let connection = getHeader ''Connection'' req
      in connection = ''close'' \<or> rq_version req = kHttp10 \<and> connection \<noteq> ''Keep-Alive'')"

definition onRequest :: "http_callback \<Rightarrow> http_request \<Rightarrow> conn_action list res" where
  "onRequest httpCallback req =
     (let response = httpCallback req (HttpResponse_new (wants_close req))
      in bind_r (Buffer_new kInitialSize)
        (\<lambda>buf. bind_r (appendToBuffer response buf)
          (\<lambda>buf'. Inr (Send (readable buf') #
             (if rs_closeConnection response then [Shutdown] else [])))))"

definition http_onMessage :: "http_callback \<Rightarrow> timestamp \<Rightarrow> buffer \<Rightarrow> http_context option \<Rightarrow>
    (conn_action list \<times> buffer \<times> http_context option) res" where
  "http_onMessage httpCallback receiveTime buf context =
     (case context of
        None \<Rightarrow> Inl (Undefined ''null context'')
      | Some c \<Rightarrow>
          bind_r (parseRequest receiveTime buf c)
            (\<lambda>(ok, c', buf').
               let bad = (if \<not> ok then [Send (''HTTP/1.1 400 Bad Request'' @ [CR, LF, CR, LF]), Shutdown]
                          else [])
               in if gotAll c'
                  then bind_r (onRequest httpCallback (hc_request c'))
                         (\<lambda>acts. Inr (bad @ acts, buf', Some (context_reset c')))
                  else Inr (bad, buf', Some c')))"

section \<open>What a client reads\<close>

text \<open>The lines before the first empty line, and the bytes after it.\<close>

function read_head :: "string \<Rightarrow> (string list \<times> string) option" where
  "read_head bs =
     (case cut_line bs of
        None \<Rightarrow> None
      | Some (line, rest) \<Rightarrow>
          if line = [] then Some ([], rest)
          else map_option (\<lambda>(ls, body). (line # ls, body)) (read_head rest))"
  by pat_completeness auto
termination
  by (relation "measure length") (auto dest: cut_line_shorter)

declare read_head.simps [simp del]

definition response_lines :: "http_response \<Rightarrow> string list" where
  "response_lines r =
     (''HTTP/1.1 '' @ show_nat (status_value (rs_statusCode r)) @ '' '' @ rs_statusMessage r) #
     (if rs_closeConnection r then [''Connection: close'']
      else [''Content-Length: '' @ show_nat (length (rs_body r)), ''Connection: Keep-Alive'']) @
     map (\<lambda>(key, val). key @ '': '' @ val) (rs_headers r)"

definition response_text :: "http_response \<Rightarrow> string" where
  "response_text r = concat (map (\<lambda>l. l @ [CR, LF]) (response_lines r)) @ [CR, LF] @ rs_body r"

text \<open>Strings a \<^verbatim>\<open>StringPiece\<close> can view, and header lines without line ends.\<close>

definition response_fits :: "http_response \<Rightarrow> bool" where
  "response_fits r \<longleftrightarrow>
     length (rs_statusMessage r) < 2 ^ 31 \<and> length (rs_body r) < 2 ^ 31 \<and>
     (\<forall>(k, v) \<in> set (rs_headers r). length k < 2 ^ 31 \<and> length v < 2 ^ 31)"

definition response_clean :: "http_response \<Rightarrow> bool" where
  "response_clean r \<longleftrightarrow>
     CR \<notin> set (rs_statusMessage r) \<and> (\<forall>(k, v) \<in> set (rs_headers r). CR \<notin> set k \<and> CR \<notin> set v)"

lemma append_piece_view:
  assumes "buffer_ok b" and "sp_ok p"
  shows "returns (append_piece p b) (\<lambda>b'. buffer_ok b' \<and> readable b' = readable b @ view p)"
  using buf_append_spec [OF assms(1)] assms(2) by (simp add: append_piece_def sp_ok_def view_def)

lemma append_pieces_views:
  "buffer_ok b \<Longrightarrow> list_all sp_ok ps \<Longrightarrow>
     returns (append_pieces ps b)
       (\<lambda>b'. buffer_ok b' \<and> readable b' = readable b @ concat (map view ps))"
proof (induction ps arbitrary: b)
  case (Cons p ps)
  from append_piece_view [of b p] Cons.prems obtain b' where
    "append_piece p b = Inr b'" "buffer_ok b'" "readable b' = readable b @ view p"
    by (auto elim: returnsE)
  with Cons.IH [of b'] Cons.prems show ?case by simp
qed simp

lemma literal_view:
  "length s < 2 ^ 31 \<Longrightarrow> CHR 0x00 \<notin> set s \<Longrightarrow> sp_ok (literal s) \<and> view (literal s) = s"
  unfolding literal_def by (rule piece_of_cstr_literal)

lemma show_nat_no: "c \<notin> set ''0123456789'' \<Longrightarrow> c \<notin> set (show_nat n)"
  using set_show_nat by blast

lemma snprintf_view:
  assumes "length s < n" and "n < 2 ^ 31" and "CHR 0x00 \<notin> set s"
  shows "sp_ok (piece_of_cstr (snprintf n s)) \<and> view (piece_of_cstr (snprintf n s)) = s"
  using piece_of_cstr_literal [of s] assms by (simp add: snprintf_def)

lemma status_line_fits:
  "sp_ok (piece_of_cstr (snprintf 32 (''HTTP/1.1 '' @ show_nat (status_value c) @ '' ''))) \<and>
   view (piece_of_cstr (snprintf 32 (''HTTP/1.1 '' @ show_nat (status_value c) @ '' ''))) =
     ''HTTP/1.1 '' @ show_nat (status_value c) @ '' ''"
proof (rule snprintf_view)
  have "status_value c < 10 ^ 3" by (cases c) simp_all
  from this length_show_nat [of "status_value c" 2] show "length (''HTTP/1.1 '' @ show_nat (status_value c) @ '' '') < 32" by simp
qed (simp_all add: show_nat_no)

lemma content_length_fits:
  assumes "n < 2 ^ 31"
  shows "sp_ok (piece_of_cstr (snprintf 32 (''Content-Length: '' @ show_nat n @ [CR, LF]))) \<and>
   view (piece_of_cstr (snprintf 32 (''Content-Length: '' @ show_nat n @ [CR, LF]))) =
     ''Content-Length: '' @ show_nat n @ [CR, LF]"
proof (rule snprintf_view)
  have "n < 10 ^ 10" using assms by simp
  from this length_show_nat [of n 9] show "length (''Content-Length: '' @ show_nat n @ [CR, LF]) < 32" by simp
qed (simp_all add: show_nat_no)

lemma header_pieces_view:
  assumes "\<forall>(k, v) \<in> set hs. length k < 2 ^ 31 \<and> length v < 2 ^ 31"
  defines "ps \<equiv> concat (map (\<lambda>(key, val).
      [piece_of_string key, literal '': '', piece_of_string val, literal [CR, LF]]) hs)"
  shows "list_all sp_ok ps"
    and "concat (map view ps) = concat (map (\<lambda>l. l @ [CR, LF]) (map (\<lambda>(key, val). key @ '': '' @ val) hs))"
  using assms(1) unfolding ps_def
  by (induction hs) (auto simp: piece_of_string_ok literal_view)

lemma appendToBuffer_spec:
  assumes "buffer_ok b" and "response_fits r"
  shows "returns (appendToBuffer r b) (\<lambda>b'. buffer_ok b' \<and> readable b' = readable b @ response_text r)"
proof -
  have fits: "length (rs_statusMessage r) < 2 ^ 31" "length (rs_body r) < 2 ^ 31"
    and hs: "\<forall>(k, v) \<in> set (rs_headers r). length k < 2 ^ 31 \<and> length v < 2 ^ 31"
    using assms(2) by (simp_all add: response_fits_def)
  note views = status_line_fits [simplified] content_length_fits [OF fits(2), simplified]
    header_pieces_view [OF hs, simplified]
    piece_of_string_ok [OF fits(1)] piece_of_string_ok [OF fits(2)] literal_view
  show ?thesis
    unfolding appendToBuffer_def
    by (rule returns_mono [OF append_pieces_views [OF assms(1)]])
      (auto simp: views response_text_def response_lines_def)
qed

lemma read_head_lines:
  assumes "\<forall>l \<in> set ls. l \<noteq> [] \<and> CR \<notin> set l"
  shows "read_head (concat (map (\<lambda>l. l @ [CR, LF]) ls) @ [CR, LF] @ body) = Some (ls, body)"
  using assms
proof (induction ls)
  case Nil
  show ?case using cut_line_intro [of "[]" body] by (subst read_head.simps) simp
next
  case (Cons l ls)
  let ?tail = "concat (map (\<lambda>l. l @ [CR, LF]) ls) @ [CR, LF] @ body"
  have "cut_line (l @ CR # LF # ?tail) = Some (l, ?tail)" using Cons.prems by (intro cut_line_intro) simp
  with Cons show ?case by (subst read_head.simps) simp
qed

lemma response_lines_clean:
  assumes "response_clean r" and "l \<in> set (response_lines r)"
  shows "l \<noteq> [] \<and> CR \<notin> set l"
  using assms by (auto simp: response_lines_def response_clean_def show_nat_no split: if_splits)

lemma onRequest_spec:
  assumes "response_fits (cb req (HttpResponse_new (wants_close req)))"
  shows "onRequest cb req =
    Inr (Send (response_text (cb req (HttpResponse_new (wants_close req)))) #
         (if rs_closeConnection (cb req (HttpResponse_new (wants_close req))) then [Shutdown] else []))"
proof -
  obtain b where b: "Buffer_new kInitialSize = Inr b" "buffer_ok b" "readable b = []"
    using Buffer_new_spec [of kInitialSize] by (auto elim: returnsE)
  from appendToBuffer_spec [OF b(2) assms] b(3) obtain b' where
    "appendToBuffer (cb req (HttpResponse_new (wants_close req))) b = Inr b'"
    "readable b' = response_text (cb req (HttpResponse_new (wants_close req)))"
    by (auto elim: returnsE)
  with b show ?thesis by (simp add: onRequest_def Let_def)
qed

section \<open>Properties\<close>

text \<open>
  C33. The bytes \<^verbatim>\<open>appendToBuffer\<close> writes are read by a client as meant: the lines up to
  the first empty one are the status line, the connection lines and the headers in order,
  and what follows is the body; on a kept-alive connection the announced
  \<^verbatim>\<open>Content-Length\<close> is the length of that body.
\<close>

theorem response_read_back:
  assumes "buffer_ok b" and "response_fits r" and "response_clean r"
  shows "returns (appendToBuffer r b) (\<lambda>b'.
    buffer_ok b' \<and> take (length (readable b)) (readable b') = readable b \<and>
    read_head (drop (length (readable b)) (readable b')) = Some (response_lines r, rs_body r) \<and>
    (\<not> rs_closeConnection r \<longrightarrow>
       (\<exists>ds. ''Content-Length: '' @ ds \<in> set (response_lines r) \<and> digits_val 0 ds = length (rs_body r))))"
proof (rule returns_mono [OF appendToBuffer_spec [OF assms(1,2)]])
  have head: "read_head (response_text r) = Some (response_lines r, rs_body r)"
    unfolding response_text_def
    by (rule read_head_lines) (use response_lines_clean [OF assms(3)] in blast)
  have "\<not> rs_closeConnection r \<Longrightarrow>
      (''Content-Length: '' @ show_nat (length (rs_body r))) \<in> set (response_lines r) \<and>
      digits_val 0 (show_nat (length (rs_body r))) = length (rs_body r)"
    by (simp add: response_lines_def digits_val_show_nat)
  then have ann: "\<not> rs_closeConnection r \<longrightarrow>
      (\<exists>ds. ''Content-Length: '' @ ds \<in> set (response_lines r) \<and> digits_val 0 ds = length (rs_body r))"
    by blast
  fix b' assume "buffer_ok b' \<and> readable b' = readable b @ response_text r"
  then show "buffer_ok b' \<and> take (length (readable b)) (readable b') = readable b \<and>
    read_head (drop (length (readable b)) (readable b')) = Some (response_lines r, rs_body r) \<and>
    (\<not> rs_closeConnection r \<longrightarrow>
       (\<exists>ds. ''Content-Length: '' @ ds \<in> set (response_lines r) \<and> digits_val 0 ds = length (rs_body r)))"
    using head ann by (simp del: length_readable)
qed

theorem response_read_back_witness:
  "\<exists>b'. appendToBuffer (setBody ''hi'' (setStatusCode k200Ok (HttpResponse_new False))) small_buffer = Inr b' \<and>
     read_head (drop 2 (readable b')) =
       Some ([''HTTP/1.1 200 '', ''Content-Length: 2'', ''Connection: Keep-Alive''], ''hi'')"
proof -
  let ?r = "setBody ''hi'' (setStatusCode k200Ok (HttpResponse_new False))"
  have "response_fits ?r" "response_clean ?r"
    by (simp_all add: response_fits_def response_clean_def setBody_def setStatusCode_def HttpResponse_new_def)
  moreover have "response_lines ?r =
      [''HTTP/1.1 200 '', ''Content-Length: 2'', ''Connection: Keep-Alive'']"
    by (simp add: response_lines_def setBody_def setStatusCode_def HttpResponse_new_def show_nat.simps
        digit_char_def)
  moreover have "rs_body ?r = ''hi''" by (simp add: setBody_def)
  ultimately show ?thesis
    using response_read_back [of small_buffer ?r] by (auto simp: numeral_2_eq_2 elim!: returnsE)
qed

text \<open>
  Handling a message always returns: from a connection whose context is ready and a
  consistent input buffer, \<^verbatim>\<open>onMessage\<close> neither fails an assertion nor loops (as long as
  the callback's strings fit a \<^verbatim>\<open>StringPiece\<close>). Afterwards the context is ready for the next
  message again, unless the request line was bad, and then the client has been sent the
  400 response and the connection has been shut down. At most one request is answered
  per message, and its answer is a single send, followed by a shutdown exactly when the
  response closes the connection.
\<close>

theorem onMessage_total:
  assumes "buffer_ok buf" and "context_ready c" and "\<And>req close. response_fits (cb req (HttpResponse_new close))"
  shows "returns (http_onMessage cb t buf (Some c)) (\<lambda>(acts, buf', ctx).
    buffer_ok buf' \<and> (\<exists>c'. ctx = Some c' \<and>
      (context_ready c' \<and>
         (acts = [] \<or>
          (\<exists>req. let r = cb req (HttpResponse_new (wants_close req))
                 in acts = Send (response_text r) # (if rs_closeConnection r then [Shutdown] else []))) \<or>
       acts = [Send (''HTTP/1.1 400 Bad Request'' @ [CR, LF, CR, LF]), Shutdown])))"
proof -
  from parseRequest_total [OF assms(1,2), of t] obtain ok c' buf' where
    p: "parseRequest t buf c = Inr (ok, c', buf')" "buffer_ok buf'"
      "ok \<longrightarrow> gotAll c' \<or> context_ready c'" "\<not> ok \<longrightarrow> \<not> gotAll c'"
    by (auto elim!: returnsE)
  show ?thesis
  proof (cases "gotAll c'")
    case True
    with p onRequest_spec [of cb "hc_request c'"] assms(3) show ?thesis
      by (auto simp: http_onMessage_def context_reset_new Let_def)
  next
    case False
    with p show ?thesis by (auto simp: http_onMessage_def)
  qed
qed

theorem onMessage_total_witness:
  "returns (http_onMessage defaultHttpCallback 5 request_buffer (Some HttpContext_new)) (\<lambda>(acts, buf', ctx).
     buffer_ok buf')"
proof -
  have "buffer_ok request_buffer"
    by (simp add: request_buffer_def buffer_ok_def kCheapPrepend_def)
  moreover have "response_fits (defaultHttpCallback req (HttpResponse_new close))" for req close
    by (simp add: response_fits_def defaultHttpCallback_def setCloseConnection_def setStatusMessage_def
        setStatusCode_def HttpResponse_new_def)
  ultimately show ?thesis
    using onMessage_total [of request_buffer HttpContext_new defaultHttpCallback 5]
    by (auto elim!: returns_mono)
qed

end
