(* ===== verification/Channels.thy ===== *)
theory Channels
  imports Prelude "HOL-Library.Word"
begin

unbundle bit_operations_syntax

text \<open>
  Channels (\<^verbatim>\<open>netLayer/event/Channel.h\<close>, \<^verbatim>\<open>Channel.cpp\<close>): a file descriptor, the events
  wanted on it and the events received. Event masks are 32-bit words. A channel is
  referred to by the address of the object, a \<open>nat\<close>; the objects live in a heap.
  Which callbacks are set is recorded, what they do is a parameter. The lemmas give the
  order in which \<open>handleEvent\<close> calls back and what each mask operation does.
\<close>

definition POLLIN :: "32 word" where "POLLIN = 0x001"
definition POLLPRI :: "32 word" where "POLLPRI = 0x002"
definition POLLOUT :: "32 word" where "POLLOUT = 0x004"
definition POLLERR :: "32 word" where "POLLERR = 0x008"
definition POLLHUP :: "32 word" where "POLLHUP = 0x010"
definition POLLNVAL :: "32 word" where "POLLNVAL = 0x020"
definition POLLRDHUP :: "32 word" where "POLLRDHUP = 0x2000"

lemmas poll_bits = POLLIN_def POLLPRI_def POLLOUT_def POLLERR_def POLLHUP_def POLLNVAL_def POLLRDHUP_def

definition kNoneEvent :: "32 word" where "kNoneEvent = 0"
definition kReadEvent :: "32 word" where "kReadEvent = POLLIN OR POLLPRI"
definition kWriteEvent :: "32 word" where "kWriteEvent = POLLOUT"

record channel =
  ch_fd :: int
  ch_events :: "32 word"
  ch_revents :: "32 word"
  ch_index :: int
  ch_logHup :: bool
  ch_tie :: "nat option"       \<comment> \<open>the tied object\<close>
  ch_tied :: bool
  ch_eventHandling :: bool
  ch_addedToLoop :: bool
  ch_readCallback :: bool      \<comment> \<open>the callback is set\<close>
  ch_writeCallback :: bool
  ch_closeCallback :: bool
  ch_errorCallback :: bool

definition Channel_new :: "int \<Rightarrow> channel" where
  "Channel_new fd = \<lparr>ch_fd = fd, ch_events = 0, ch_revents = 0, ch_index = -1, ch_logHup = True,
     ch_tie = None, ch_tied = False, ch_eventHandling = False, ch_addedToLoop = False,
     ch_readCallback = False, ch_writeCallback = False, ch_closeCallback = False,
     ch_errorCallback = False\<rparr>"

definition setReadCallback :: "channel \<Rightarrow> channel" where
  "setReadCallback c = c\<lparr>ch_readCallback := True\<rparr>"
definition setWriteCallback :: "channel \<Rightarrow> channel" where
  "setWriteCallback c = c\<lparr>ch_writeCallback := True\<rparr>"
definition setCloseCallback :: "channel \<Rightarrow> channel" where
  "setCloseCallback c = c\<lparr>ch_closeCallback := True\<rparr>"
definition setErrorCallback :: "channel \<Rightarrow> channel" where
  "setErrorCallback c = c\<lparr>ch_errorCallback := True\<rparr>"

definition tie :: "nat \<Rightarrow> channel \<Rightarrow> channel" where
  "tie obj c = c\<lparr>ch_tie := Some obj, ch_tied := True\<rparr>"

definition set_revents :: "32 word \<Rightarrow> channel \<Rightarrow> channel" where
  "set_revents revt c = c\<lparr>ch_revents := revt\<rparr>"

definition isNoneEvent :: "channel \<Rightarrow> bool" where
  "isNoneEvent c \<longleftrightarrow> ch_events c = kNoneEvent"

text \<open>The mask arithmetic of \<^verbatim>\<open>enableReading\<close> and its siblings, before \<^verbatim>\<open>update()\<close>.\<close>

definition reading_on :: "32 word \<Rightarrow> 32 word" where "reading_on ev = ev OR kReadEvent"
definition reading_off :: "32 word \<Rightarrow> 32 word" where "reading_off ev = ev AND NOT kReadEvent"
definition writing_on :: "32 word \<Rightarrow> 32 word" where "writing_on ev = ev OR kWriteEvent"
definition writing_off :: "32 word \<Rightarrow> 32 word" where "writing_off ev = ev AND NOT kWriteEvent"

definition isWriting :: "channel \<Rightarrow> bool" where
  "isWriting c \<longleftrightarrow> ch_events c AND kWriteEvent \<noteq> 0"

definition isReading :: "channel \<Rightarrow> bool" where
  "isReading c \<longleftrightarrow> ch_events c AND kReadEvent \<noteq> 0"

definition set_index :: "int \<Rightarrow> channel \<Rightarrow> channel" where
  "set_index idx c = c\<lparr>ch_index := idx\<rparr>"

definition doNotLogHup :: "channel \<Rightarrow> channel" where
  "doNotLogHup c = c\<lparr>ch_logHup := False\<rparr>"

definition eventsToString :: "int \<Rightarrow> 32 word \<Rightarrow> string" where
  "eventsToString fd ev =
     show_int fd @ '': '' @
     (if ev AND POLLIN \<noteq> 0 then ''IN '' else []) @
     (if ev AND POLLPRI \<noteq> 0 then ''PRI '' else []) @
     (if ev AND POLLOUT \<noteq> 0 then ''OUT '' else []) @
     (if ev AND POLLHUP \<noteq> 0 then ''HUP '' else []) @
     (if ev AND POLLRDHUP \<noteq> 0 then ''RDHUP '' else []) @
     (if ev AND POLLERR \<noteq> 0 then ''ERR '' else []) @
     (if ev AND POLLNVAL \<noteq> 0 then ''NVAL '' else [])"

definition reventsToString :: "channel \<Rightarrow> string" where
  "reventsToString c = eventsToString (ch_fd c) (ch_revents c)"

definition channel_eventsToString :: "channel \<Rightarrow> string" where
  "channel_eventsToString c = eventsToString (ch_fd c) (ch_events c)"

section \<open>Dispatching received events\<close>

datatype event_callback = CloseCb | ErrorCb | ReadCb timestamp | WriteCb

text \<open>The callbacks \<^verbatim>\<open>handleEventWithGuard\<close> makes for the received mask, in its order.\<close>

definition callbacks_of :: "timestamp \<Rightarrow> channel \<Rightarrow> event_callback list" where
  "callbacks_of receiveTime c =
     (let rev = ch_revents c
      in (if rev AND POLLHUP \<noteq> 0 \<and> rev AND POLLIN = 0 \<and> ch_closeCallback c then [CloseCb] else []) @
         (if rev AND (POLLERR OR POLLNVAL) \<noteq> 0 \<and> ch_errorCallback c then [ErrorCb] else []) @
         (if rev AND (POLLIN OR POLLPRI OR POLLRDHUP) \<noteq> 0 \<and> ch_readCallback c
          then [ReadCb receiveTime] else []) @
         (if rev AND POLLOUT \<noteq> 0 \<and> ch_writeCallback c then [WriteCb] else []))"

text \<open>
  The flag \<^verbatim>\<open>eventHandling_\<close> is set around the callbacks. \<open>run\<close> makes one callback on the
  state \<open>'s\<close>; \<open>modify\<close> changes the channel in it. The received mask does not change
  while its callbacks run: only the poller sets it.
\<close>

definition handleEventWithGuard ::
    "(event_callback \<Rightarrow> 's \<Rightarrow> 's res) \<Rightarrow> ((channel \<Rightarrow> channel) \<Rightarrow> 's \<Rightarrow> 's) \<Rightarrow>
     timestamp \<Rightarrow> channel \<Rightarrow> 's \<Rightarrow> 's res" where
  "handleEventWithGuard run modify receiveTime c s =
     bind_r (fold_r run (callbacks_of receiveTime c)
               (modify (\<lambda>c. c\<lparr>ch_eventHandling := True\<rparr>) s))
       (\<lambda>s'. Inr (modify (\<lambda>c. c\<lparr>ch_eventHandling := False\<rparr>) s'))"

text \<open>\<open>alive\<close>: \<^verbatim>\<open>tie_.lock()\<close> yields the object.\<close>

definition handleEvent ::
    "(nat \<Rightarrow> bool) \<Rightarrow> (event_callback \<Rightarrow> 's \<Rightarrow> 's res) \<Rightarrow> ((channel \<Rightarrow> channel) \<Rightarrow> 's \<Rightarrow> 's) \<Rightarrow>
     timestamp \<Rightarrow> channel \<Rightarrow> 's \<Rightarrow> 's res" where
  "handleEvent alive run modify receiveTime c s =
     (if ch_tied c
      then (case ch_tie c of
              Some obj \<Rightarrow> if alive obj then handleEventWithGuard run modify receiveTime c s else Inr s
            | None \<Rightarrow> Inr s)
      else handleEventWithGuard run modify receiveTime c s)"

text \<open>\<^verbatim>\<open>~Channel\<close>.\<close>

definition Channel_delete :: "bool \<Rightarrow> bool \<Rightarrow> channel \<Rightarrow> unit res" where
  "Channel_delete inLoopThread hasChannel c =
     ensure (\<not> ch_eventHandling c) ''!eventHandling_''
       (ensure (\<not> ch_addedToLoop c) ''!addedToLoop_''
         (if inLoopThread then ensure (\<not> hasChannel) ''!loop_->hasChannel(this)'' (Inr ()) else Inr ()))"

section \<open>Lemmas\<close>

lemma mask_ops [simp]:
  "reading_on 0 = kReadEvent" "writing_off (writing_on ev) = writing_off ev"
  "reading_off (reading_on ev) = reading_off ev"
  by (simp_all add: reading_on_def writing_off_def writing_on_def reading_off_def
      bit.conj_disj_distrib2 and.assoc)

text \<open>Masks built from the read and write events only.\<close>

definition io_mask :: "32 word \<Rightarrow> bool" where
  "io_mask ev \<longleftrightarrow> ev AND NOT (kReadEvent OR kWriteEvent) = 0"

lemma io_mask_7: "kReadEvent OR kWriteEvent = 7"
  by (simp add: kReadEvent_def kWriteEvent_def poll_bits)

lemma io_mask_bits: "io_mask ev \<longleftrightarrow> (\<forall>n. bit ev n \<longrightarrow> n < 3)"
proof -
  have eq: "(7 :: 32 word) = mask 3" by (simp add: mask_eq_exp_minus_1)
  have "io_mask ev \<longleftrightarrow> (\<forall>n < 32. bit ev n \<longrightarrow> n < 3)"
    unfolding io_mask_def io_mask_7 eq bit_eq_iff bit_and_iff bit_not_iff bit_mask_iff by auto
  then show ?thesis using bit_imp_le_length [of ev] by auto
qed

lemma io_mask_intros [simp, intro]:
  "io_mask 0" "io_mask kReadEvent" "io_mask kWriteEvent"
  "io_mask ev \<Longrightarrow> io_mask (reading_on ev)" "io_mask ev \<Longrightarrow> io_mask (reading_off ev)"
  "io_mask ev \<Longrightarrow> io_mask (writing_on ev)" "io_mask ev \<Longrightarrow> io_mask (writing_off ev)"
proof -
  show r: "io_mask kReadEvent" and w: "io_mask kWriteEvent" and "io_mask 0"
    by (simp_all add: io_mask_def kReadEvent_def kWriteEvent_def poll_bits)
  show "io_mask ev \<Longrightarrow> io_mask (reading_on ev)" "io_mask ev \<Longrightarrow> io_mask (writing_on ev)"
    using r w by (auto simp: io_mask_bits reading_on_def writing_on_def bit_or_iff)
  show "io_mask ev \<Longrightarrow> io_mask (reading_off ev)" "io_mask ev \<Longrightarrow> io_mask (writing_off ev)"
    by (auto simp: io_mask_bits reading_off_def writing_off_def bit_and_iff)
qed

end
