(* ===== verification/TcpConnections.thy ===== *)
theory TcpConnections
  imports Buffer Channels
begin

unbundle bit_operations_syntax

text \<open>
  One TCP connection (\<^verbatim>\<open>netLayer/tcp/TcpConnection.cpp\<close>, with the parts of
  \<^verbatim>\<open>netLayer/socket/Socket.cpp\<close> it uses).

  The state is the object with its channel, its two buffers and what it has queued on the
  loop. The system calls \<^verbatim>\<open>write\<close> and \<^verbatim>\<open>readv\<close> and the user's callbacks are parameters,
  collected in \<open>conn_env\<close>; a system call is numbered, so that it may answer differently
  each time. Changing the interest mask of the channel stands for the call of the poller
  it implies (theory \<open>Pollers\<close>). The history fields record what was accepted for sending,
  what the socket took, and which callbacks were made. The locale \<open>conn_callbacks\<close> states
  what the connection relies on; it is interpreted on the default callbacks here and on
  the FastCGI server in theory \<open>CgiServers\<close>.
\<close>

section \<open>State\<close>

datatype conn_state = kDisconnected | kConnecting | kConnected | kDisconnecting

datatype conn_functor =
    SendInLoop string | ShutdownInLoop | ForceCloseInLoop
  | StartReadInLoop | StopReadInLoop | StartWriteInLoop | StopWriteInLoop
  | WriteComplete | HighWater nat

datatype conn_note = NoteUp | NoteDown | NoteClosed

record 'c tcpconn =
  cn_state :: conn_state
  cn_reading :: bool
  cn_channel :: channel
  cn_writeCompleteCallback :: bool     \<comment> \<open>the callback is set\<close>
  cn_highWaterMarkCallback :: bool
  cn_highWaterMark :: nat
  cn_input :: buffer
  cn_output :: buffer
  cn_context :: 'c
  cn_closeFlag :: bool
  cn_forceFlag :: bool
  cn_dissByPeer :: bool
  cn_setSolinger :: bool               \<comment> \<open>of the socket\<close>
  cn_inLoop :: bool                    \<comment> \<open>the calling thread is the loop's\<close>
  cn_queued :: "conn_functor list"     \<comment> \<open>queued on the loop\<close>
  cn_delayed :: nat                    \<comment> \<open>pending timers of \<^verbatim>\<open>forceCloseWithDelay\<close>\<close>
  cn_calls :: nat                      \<comment> \<open>system calls made\<close>
  cn_closes :: nat                     \<comment> \<open>times the descriptor was closed\<close>
  cn_fin :: "string option"            \<comment> \<open>history: bytes not yet written when the socket was shut down\<close>
  cn_wire :: string                    \<comment> \<open>history: bytes the socket took\<close>
  cn_accepted :: string                \<comment> \<open>history: bytes accepted by \<^verbatim>\<open>sendInLoop\<close>\<close>
  cn_broken :: bool                    \<comment> \<open>history: a write failed for good\<close>
  cn_stopped :: bool                   \<comment> \<open>history: \<^verbatim>\<open>stopWrite\<close> was used\<close>
  cn_log :: "conn_note list"           \<comment> \<open>history: connection and close callbacks made\<close>

record 'c conn_env =
  ce_write :: "nat \<Rightarrow> nat \<Rightarrow> int + nat"              \<comment> \<open>call number, length\<close>
  ce_readv :: "nat \<Rightarrow> nat list \<Rightarrow> int + char list"    \<comment> \<open>call number, lengths of the vectors\<close>
  ce_connection :: "'c tcpconn \<Rightarrow> 'c tcpconn res"
  ce_message :: "timestamp \<Rightarrow> 'c tcpconn \<Rightarrow> 'c tcpconn res"
  ce_close :: "'c tcpconn \<Rightarrow> 'c tcpconn res"
  ce_writeComplete :: "'c tcpconn \<Rightarrow> 'c tcpconn res"
  ce_highWater :: "nat \<Rightarrow> 'c tcpconn \<Rightarrow> 'c tcpconn res"

definition EPIPE :: int where "EPIPE = 32"
definition ECONNRESET :: int where "ECONNRESET = 104"
definition EWOULDBLOCK :: int where "EWOULDBLOCK = 11"

definition kHighWaterMark :: nat where "kHighWaterMark = 64 * 1024 * 1024"

definition TcpConnection_new :: "int \<Rightarrow> buffer \<Rightarrow> buffer \<Rightarrow> 'c \<Rightarrow> bool \<Rightarrow> bool \<Rightarrow> 'c tcpconn" where
  "TcpConnection_new sockfd inb outb ctx wc hwm = \<lparr>cn_state = kConnecting, cn_reading = True,
     cn_channel = setErrorCallback (setCloseCallback (setWriteCallback (setReadCallback (Channel_new sockfd)))),
     cn_writeCompleteCallback = wc, cn_highWaterMarkCallback = hwm, cn_highWaterMark = kHighWaterMark,
     cn_input = inb, cn_output = outb, cn_context = ctx, cn_closeFlag = False, cn_forceFlag = False,
     cn_dissByPeer = False, cn_setSolinger = False, cn_inLoop = True, cn_queued = [], cn_delayed = 0,
     cn_calls = 0, cn_closes = 0, cn_fin = None, cn_wire = [], cn_accepted = [], cn_broken = False,
     cn_stopped = False, cn_log = []\<rparr>"

section \<open>Operations\<close>

definition in_loop_thread :: "'c tcpconn \<Rightarrow> 'a res \<Rightarrow> 'a res" where
  "in_loop_thread s k = (if cn_inLoop s then k else Inl (Abort ''abortNotInLoopThread''))"

text \<open>The channel's mask changes and the poller is told.\<close>

definition set_events :: "(32 word \<Rightarrow> 32 word) \<Rightarrow> 'c tcpconn \<Rightarrow> 'c tcpconn" where
  "set_events f s = s\<lparr>cn_channel := (cn_channel s)\<lparr>ch_events := f (ch_events (cn_channel s)), ch_addedToLoop := True\<rparr>\<rparr>"

definition disableAll :: "'c tcpconn \<Rightarrow> 'c tcpconn" where
  "disableAll s = set_events (\<lambda>_. kNoneEvent) s"

definition queue_functor :: "conn_functor \<Rightarrow> 'c tcpconn \<Rightarrow> 'c tcpconn" where
  "queue_functor f s = s\<lparr>cn_queued := cn_queued s @ [f]\<rparr>"

definition add_note :: "conn_note \<Rightarrow> 'c tcpconn \<Rightarrow> 'c tcpconn" where
  "add_note n s = s\<lparr>cn_log := cn_log s @ [n]\<rparr>"

text \<open>
  The direct write of \<^verbatim>\<open>sendInLoop\<close>: how many bytes the socket took, whether the error is
  fatal, and the state.
\<close>

definition write_directly :: "'c conn_env \<Rightarrow> string \<Rightarrow> 'c tcpconn \<Rightarrow> nat \<times> bool \<times> 'c tcpconn" where
  "write_directly env data s =
     (if \<not> isWriting (cn_channel s) \<and> readableBytes (cn_output s) = 0
      then let s1 = s\<lparr>cn_calls := cn_calls s + 1\<rparr>
           in (case ce_write env (cn_calls s) (length data) of
                 Inr nwrote \<Rightarrow>
                   (let s2 = s1\<lparr>cn_wire := cn_wire s @ take nwrote data\<rparr>
                    in (nwrote, False,
                        if length data = nwrote \<and> cn_writeCompleteCallback s
                        then queue_functor WriteComplete s2 else s2))
               | Inl errno \<Rightarrow> (0, errno \<noteq> EWOULDBLOCK \<and> (errno = EPIPE \<or> errno = ECONNRESET), s1))
      else (0, False, s))"

definition sendInLoop :: "'c conn_env \<Rightarrow> string \<Rightarrow> 'c tcpconn \<Rightarrow> 'c tcpconn res" where
  "sendInLoop env data s =
     in_loop_thread s
       (if cn_state s = kDisconnected then Inr s
        else case write_directly env data (s\<lparr>cn_accepted := cn_accepted s @ data\<rparr>) of
          (nwrote, faultError, s1) \<Rightarrow>
            ensure (nwrote \<le> length data) ''remaining <= len''
              (let remaining = length data - nwrote; oldLen = readableBytes (cn_output s1)
               in if faultError then Inr (s1\<lparr>cn_broken := True\<rparr>)
                  else if remaining > 0
                  then let s2 = (if oldLen + remaining \<ge> cn_highWaterMark s1 \<and> oldLen < cn_highWaterMark s1 \<and>
                                    cn_highWaterMarkCallback s1
                                 then queue_functor (HighWater (oldLen + remaining)) s1 else s1)
                       in bind_r (buf_append (drop nwrote data) (cn_output s2)) (\<lambda>b.
                            let s3 = s2\<lparr>cn_output := b\<rparr>
                            in Inr (if \<not> isWriting (cn_channel s3) then set_events writing_on s3 else s3))
                  else Inr s1))"

definition conn_send :: "'c conn_env \<Rightarrow> string \<Rightarrow> 'c tcpconn \<Rightarrow> 'c tcpconn res" where
  "conn_send env message s =
     (if cn_state s = kConnected
      then if cn_inLoop s then sendInLoop env message s else Inr (queue_functor (SendInLoop message) s)
      else Inr s)"

text \<open>\<^verbatim>\<open>send(Buffer*)\<close>: the bytes of the buffer are sent and removed from it.\<close>

definition conn_send_buffer :: "'c conn_env \<Rightarrow> buffer \<Rightarrow> 'c tcpconn \<Rightarrow> (buffer \<times> 'c tcpconn) res" where
  "conn_send_buffer env buf s =
     (if cn_state s = kConnected
      then if cn_inLoop s
           then bind_r (sendInLoop env (range_of (storage buf) (peek buf) (beginWrite buf)) s)
                  (\<lambda>s'. Inr (retrieveAll buf, s'))
           else bind_r (retrieveAllAsString buf) (\<lambda>(message, buf').
                  Inr (buf', queue_functor (SendInLoop message) s))
      else Inr (buf, s))"

definition shutdownWrite :: "'c tcpconn \<Rightarrow> 'c tcpconn" where
  "shutdownWrite s = s\<lparr>cn_fin := Some (range_of (storage (cn_output s)) (peek (cn_output s)) (beginWrite (cn_output s)))\<rparr>"

text \<open>
  \<^verbatim>\<open>handleClose\<close>, \<^verbatim>\<open>shutdown\<close> and \<^verbatim>\<open>shutdownInLoop\<close> call each other: a close by the peer
  shuts the connection down, and a shutdown after the peer closed finishes the close.
\<close>

definition close_rank :: "'c tcpconn \<Rightarrow> nat" where
  "close_rank s = (if cn_closeFlag s then 0 else 3)"

function (sequential) handleClose :: "'c conn_env \<Rightarrow> 'c tcpconn \<Rightarrow> 'c tcpconn res"
  and conn_shutdown :: "'c conn_env \<Rightarrow> 'c tcpconn \<Rightarrow> 'c tcpconn res"
  and shutdownInLoop :: "'c conn_env \<Rightarrow> 'c tcpconn \<Rightarrow> 'c tcpconn res" where
  "handleClose env s =
     in_loop_thread s
       (ensure (cn_state s = kConnected \<or> cn_state s = kDisconnecting)
          ''state_ == kConnected || state_ == kDisconnecting''
         (if cn_closeFlag s
          then bind_r (ce_connection env (add_note NoteDown (disableAll (s\<lparr>cn_state := kDisconnected\<rparr>))))
                 (\<lambda>s1. ce_close env (add_note NoteClosed s1))
          else conn_shutdown env (s\<lparr>cn_dissByPeer := True\<rparr>)))"
| "conn_shutdown env s =
     (if cn_state s = kConnected
      then let s1 = s\<lparr>cn_closeFlag := True, cn_state := kDisconnecting\<rparr>
           in if cn_inLoop s1 then shutdownInLoop env s1 else Inr (queue_functor ShutdownInLoop s1)
      else Inr s)"
| "shutdownInLoop env s =
     in_loop_thread s
       (if \<not> isWriting (cn_channel s)
        then let s1 = shutdownWrite s
             in if cn_dissByPeer s1 then handleClose env s1 else Inr s1
        else Inr s)"
  by pat_completeness auto

termination
  by (relation "measure (\<lambda>x. case x of
        Inl (env, s) \<Rightarrow> close_rank s + 1
      | Inr (Inl (env, s)) \<Rightarrow> (if cn_state s = kConnected then 3 else 0)
      | Inr (Inr (env, s)) \<Rightarrow> close_rank s + 2)")
    (auto simp: close_rank_def shutdownWrite_def)

declare handleClose.simps [simp del] conn_shutdown.simps [simp del] shutdownInLoop.simps [simp del]

definition forceClose :: "'c tcpconn \<Rightarrow> 'c tcpconn" where
  "forceClose s =
     (if cn_state s = kConnected \<or> cn_state s = kDisconnecting
      then queue_functor ForceCloseInLoop (s\<lparr>cn_state := kDisconnecting\<rparr>) else s)"

definition forceCloseWithDelay :: "'c tcpconn \<Rightarrow> 'c tcpconn" where
  "forceCloseWithDelay s =
     (if cn_state s = kConnected \<or> cn_state s = kDisconnecting
      then s\<lparr>cn_state := kDisconnecting, cn_delayed := cn_delayed s + 1\<rparr> else s)"

definition forceCloseInLoop :: "'c conn_env \<Rightarrow> 'c tcpconn \<Rightarrow> 'c tcpconn res" where
  "forceCloseInLoop env s =
     in_loop_thread s
       (if cn_state s = kConnected \<or> cn_state s = kDisconnecting
        then handleClose env (s\<lparr>cn_closeFlag := True, cn_forceFlag := True, cn_setSolinger := True\<rparr>)
        else Inr s)"

definition stateToString :: "conn_state \<Rightarrow> string" where
  "stateToString st = (case st of kDisconnected \<Rightarrow> ''kDisconnected'' | kConnecting \<Rightarrow> ''kConnecting''
     | kConnected \<Rightarrow> ''kConnected'' | kDisconnecting \<Rightarrow> ''kDisconnecting'')"

definition startReadInLoop :: "'c tcpconn \<Rightarrow> 'c tcpconn res" where
  "startReadInLoop s =
     in_loop_thread s
       (Inr (if \<not> cn_reading s \<or> \<not> isReading (cn_channel s)
             then (set_events reading_on s)\<lparr>cn_reading := True\<rparr> else s))"

definition startWriteInLoop :: "'c tcpconn \<Rightarrow> 'c tcpconn res" where
  "startWriteInLoop s =
     in_loop_thread s (Inr (if \<not> isWriting (cn_channel s) then set_events writing_on s else s))"

definition stopReadInLoop :: "'c tcpconn \<Rightarrow> 'c tcpconn res" where
  "stopReadInLoop s =
     in_loop_thread s
       (Inr (if cn_reading s \<or> isReading (cn_channel s)
             then (set_events reading_off s)\<lparr>cn_reading := False\<rparr> else s))"

definition stopWriteInLoop :: "'c tcpconn \<Rightarrow> 'c tcpconn res" where
  "stopWriteInLoop s =
     in_loop_thread s
       (Inr (if isWriting (cn_channel s) then (set_events writing_off s)\<lparr>cn_stopped := True\<rparr> else s))"

text \<open>\<^verbatim>\<open>startRead\<close> and its siblings: \<^verbatim>\<open>runInLoop\<close>.\<close>

definition run_in_loop :: "conn_functor \<Rightarrow> ('c tcpconn \<Rightarrow> 'c tcpconn res) \<Rightarrow> 'c tcpconn \<Rightarrow> 'c tcpconn res" where
  "run_in_loop f body s = (if cn_inLoop s then body s else Inr (queue_functor f s))"

definition startRead :: "'c tcpconn \<Rightarrow> 'c tcpconn res" where
  "startRead = run_in_loop StartReadInLoop startReadInLoop"
definition startWrite :: "'c tcpconn \<Rightarrow> 'c tcpconn res" where
  "startWrite = run_in_loop StartWriteInLoop startWriteInLoop"
definition stopRead :: "'c tcpconn \<Rightarrow> 'c tcpconn res" where
  "stopRead = run_in_loop StopReadInLoop stopReadInLoop"
definition stopWrite :: "'c tcpconn \<Rightarrow> 'c tcpconn res" where
  "stopWrite = run_in_loop StopWriteInLoop stopWriteInLoop"

definition connectEstablished :: "'c conn_env \<Rightarrow> 'c tcpconn \<Rightarrow> 'c tcpconn res" where
  "connectEstablished env s =
     in_loop_thread s
       (ensure (cn_state s = kConnecting) ''state_ == kConnecting''
         (let s1 = s\<lparr>cn_state := kConnected, cn_channel := tie 0 (cn_channel s)\<rparr>
          in ce_connection env (add_note NoteUp (set_events reading_on s1))))"

definition connectDestroyed :: "'c conn_env \<Rightarrow> 'c tcpconn \<Rightarrow> 'c tcpconn res" where
  "connectDestroyed env s =
     in_loop_thread s
       (bind_r (if cn_state s = kConnected
                then ce_connection env (add_note NoteDown (disableAll (s\<lparr>cn_state := kDisconnected\<rparr>)))
                else Inr s)
         (\<lambda>s1. ensure (isNoneEvent (cn_channel s1)) ''isNoneEvent()''
           (let s2 = s1\<lparr>cn_channel := (cn_channel s1)\<lparr>ch_addedToLoop := False\<rparr>\<rparr>
            in Inr (if cn_forceFlag s2 then s2\<lparr>cn_closes := cn_closes s2 + 1\<rparr> else s2))))"

text \<open>\<^verbatim>\<open>~TcpConnection\<close>, with the destructors of its channel and its socket.\<close>

definition TcpConnection_delete :: "'c tcpconn \<Rightarrow> 'c tcpconn res" where
  "TcpConnection_delete s =
     ensure (cn_state s = kDisconnected) ''state_ == kDisconnected''
       (bind_r (Channel_delete (cn_inLoop s) (ch_addedToLoop (cn_channel s)) (cn_channel s))
         (\<lambda>_. Inr (if cn_setSolinger s then s else s\<lparr>cn_closes := cn_closes s + 1\<rparr>)))"

definition handleError :: "'c tcpconn \<Rightarrow> 'c tcpconn res" where
  "handleError s = Inr s"

definition handleRead :: "'c conn_env \<Rightarrow> timestamp \<Rightarrow> 'c tcpconn \<Rightarrow> 'c tcpconn res" where
  "handleRead env receiveTime s =
     in_loop_thread s
       (bind_r (readFd (ce_readv env (cn_calls s)) (cn_input s)) (\<lambda>(r, b).
          let s1 = s\<lparr>cn_input := b, cn_calls := cn_calls s + 1\<rparr>
          in (case r of
                Inr n \<Rightarrow> if n > 0 then ce_message env receiveTime s1 else handleClose env s1
              | Inl savedErrno \<Rightarrow> handleError s1)))"

definition handleWrite :: "'c conn_env \<Rightarrow> 'c tcpconn \<Rightarrow> 'c tcpconn res" where
  "handleWrite env s =
     in_loop_thread s
       (if isWriting (cn_channel s)
        then let out = range_of (storage (cn_output s)) (peek (cn_output s)) (beginWrite (cn_output s));
                 s1 = s\<lparr>cn_calls := cn_calls s + 1\<rparr>
             in (case ce_write env (cn_calls s) (readableBytes (cn_output s)) of
                   Inr n \<Rightarrow>
                     if n > 0
                     then bind_r (retrieve n (cn_output s)) (\<lambda>b.
                            let s2 = s1\<lparr>cn_output := b, cn_wire := cn_wire s @ take n out\<rparr>
                            in if readableBytes b = 0
                               then let s3 = set_events writing_off s2;
                                        s4 = (if cn_writeCompleteCallback s3 then queue_functor WriteComplete s3 else s3)
                                    in if cn_state s4 = kDisconnecting then shutdownInLoop env s4 else Inr s4
                               else Inr s2)
                     else Inr s1
                 | Inl errno \<Rightarrow> Inr s1)
        else Inr s)"

text \<open>The callbacks a server or client starts with.\<close>

definition defaultConnectionCallback :: "'c tcpconn \<Rightarrow> 'c tcpconn res" where
  "defaultConnectionCallback s = Inr s"

definition defaultMessageCallback :: "timestamp \<Rightarrow> 'c tcpconn \<Rightarrow> 'c tcpconn res" where
  "defaultMessageCallback receiveTime s = Inr (s\<lparr>cn_input := retrieveAll (cn_input s)\<rparr>)"

section \<open>What happens to a connection\<close>

text \<open>A functor the loop takes from its queue.\<close>

fun run_functor :: "'c conn_env \<Rightarrow> conn_functor \<Rightarrow> 'c tcpconn \<Rightarrow> 'c tcpconn res" where
  "run_functor env (SendInLoop message) s = sendInLoop env message s"
| "run_functor env ShutdownInLoop s = shutdownInLoop env s"
| "run_functor env ForceCloseInLoop s = forceCloseInLoop env s"
| "run_functor env StartReadInLoop s = startReadInLoop s"
| "run_functor env StopReadInLoop s = stopReadInLoop s"
| "run_functor env StartWriteInLoop s = startWriteInLoop s"
| "run_functor env StopWriteInLoop s = stopWriteInLoop s"
| "run_functor env WriteComplete s = ce_writeComplete env s"
| "run_functor env (HighWater n) s = ce_highWater env n s"

text \<open>A call of a user.\<close>

datatype conn_op = OpSend string | OpShutdown | OpForceClose | OpForceCloseWithDelay
  | OpStartRead | OpStopRead | OpStartWrite | OpStopWrite

fun do_conn_op :: "'c conn_env \<Rightarrow> conn_op \<Rightarrow> 'c tcpconn \<Rightarrow> 'c tcpconn res" where
  "do_conn_op env (OpSend message) s = conn_send env message s"
| "do_conn_op env OpShutdown s = conn_shutdown env s"
| "do_conn_op env OpForceClose s = Inr (forceClose s)"
| "do_conn_op env OpForceCloseWithDelay s = Inr (forceCloseWithDelay s)"
| "do_conn_op env OpStartRead s = startRead s"
| "do_conn_op env OpStopRead s = stopRead s"
| "do_conn_op env OpStartWrite s = startWrite s"
| "do_conn_op env OpStopWrite s = stopWrite s"

text \<open>Received events reach the handlers through the channel.\<close>

definition conn_callback :: "'c conn_env \<Rightarrow> event_callback \<Rightarrow> 'c tcpconn \<Rightarrow> 'c tcpconn res" where
  "conn_callback env cb s = (case cb of CloseCb \<Rightarrow> handleClose env s | ErrorCb \<Rightarrow> handleError s
     | ReadCb t \<Rightarrow> handleRead env t s | WriteCb \<Rightarrow> handleWrite env s)"

definition modify_channel :: "(channel \<Rightarrow> channel) \<Rightarrow> 'c tcpconn \<Rightarrow> 'c tcpconn" where
  "modify_channel f s = s\<lparr>cn_channel := f (cn_channel s)\<rparr>"

datatype conn_event =
    Established
  | ChannelEvent "32 word" timestamp      \<comment> \<open>received mask, time\<close>
  | RunFunctor                            \<comment> \<open>the loop runs the next queued functor\<close>
  | UserCall bool conn_op                 \<comment> \<open>in the loop's thread or not\<close>
  | DelayOver                             \<comment> \<open>a timer of \<^verbatim>\<open>forceCloseWithDelay\<close> expires\<close>
  | Destroyed                             \<comment> \<open>\<^verbatim>\<open>connectDestroyed\<close>\<close>

fun conn_step :: "'c conn_env \<Rightarrow> conn_event \<Rightarrow> 'c tcpconn \<Rightarrow> 'c tcpconn res" where
  "conn_step env Established s = connectEstablished env s"
| "conn_step env (ChannelEvent revt t) s =
     (let s1 = modify_channel (set_revents revt) s
      in handleEvent (\<lambda>_. True) (conn_callback env) modify_channel t (cn_channel s1) s1)"
| "conn_step env RunFunctor s =
     (case cn_queued s of [] \<Rightarrow> Inr s | f # fs \<Rightarrow> run_functor env f (s\<lparr>cn_queued := fs\<rparr>))"
| "conn_step env (UserCall inl p) s =
     bind_r (do_conn_op env p (s\<lparr>cn_inLoop := inl\<rparr>)) (\<lambda>s'. Inr (s'\<lparr>cn_inLoop := True\<rparr>))"
| "conn_step env DelayOver s = Inr (forceClose (s\<lparr>cn_delayed := cn_delayed s - 1\<rparr>))"
| "conn_step env Destroyed s = connectDestroyed env s"

definition conn_alive :: "'c tcpconn \<Rightarrow> bool" where
  "conn_alive s \<longleftrightarrow> cn_state s = kConnected \<or> cn_state s = kDisconnecting"

text \<open>
  What can happen next. The poller reports only channels it watches; an \<^verbatim>\<open>EPOLLHUP\<close> without
  \<^verbatim>\<open>EPOLLIN\<close> comes without the other events that mean reading. Reading and writing are
  switched by the user only on a connection that is up. \<^verbatim>\<open>connectDestroyed\<close> is called once,
  on a connection that is up or closed.
\<close>

definition mask_ok :: "32 word \<Rightarrow> bool" where
  "mask_ok revt \<longleftrightarrow>
     (revt AND POLLHUP \<noteq> 0 \<and> revt AND POLLIN = 0 \<longrightarrow> revt AND (POLLIN OR POLLPRI OR POLLRDHUP) = 0)"

fun functor_may :: "conn_functor \<Rightarrow> 'c tcpconn \<Rightarrow> bool" where
  "functor_may StartReadInLoop s = conn_alive s"
| "functor_may StopReadInLoop s = conn_alive s"
| "functor_may StartWriteInLoop s = conn_alive s"
| "functor_may _ s = True"

fun op_may :: "conn_op \<Rightarrow> 'c tcpconn \<Rightarrow> bool" where
  "op_may OpStartRead s = conn_alive s"
| "op_may OpStopRead s = conn_alive s"
| "op_may OpStartWrite s = conn_alive s"
| "op_may OpStopWrite s = conn_alive s"
| "op_may _ s = True"

fun conn_may :: "conn_event \<Rightarrow> 'c tcpconn \<Rightarrow> bool" where
  "conn_may Established s \<longleftrightarrow> cn_state s = kConnecting"
| "conn_may (ChannelEvent revt t) s \<longleftrightarrow> ch_events (cn_channel s) \<noteq> 0 \<and> mask_ok revt"
| "conn_may RunFunctor s \<longleftrightarrow> (case cn_queued s of [] \<Rightarrow> False | f # _ \<Rightarrow> functor_may f s)"
| "conn_may (UserCall _ p) s \<longleftrightarrow> op_may p s"
| "conn_may DelayOver s \<longleftrightarrow> 0 < cn_delayed s"
| "conn_may Destroyed s \<longleftrightarrow> (cn_state s = kConnected \<or> cn_state s = kDisconnected) \<and> ch_addedToLoop (cn_channel s)"

inductive conn_reachable :: "'c conn_env \<Rightarrow> 'c tcpconn \<Rightarrow> bool" for env where
  created: "Buffer_new kInitialSize = Inr b \<Longrightarrow> conn_reachable env (TcpConnection_new fd b b ctx wc hwm)"
| happens: "conn_reachable env s \<Longrightarrow> conn_may e s \<Longrightarrow> conn_step env e s = Inr s' \<Longrightarrow> conn_reachable env s'"

section \<open>Invariant\<close>

text \<open>State, channel, callbacks made, \<^verbatim>\<open>closeFlag_\<close>, \<^verbatim>\<open>dissByPeer_\<close>.\<close>

fun state_shape :: "conn_state \<Rightarrow> channel \<Rightarrow> conn_note list \<Rightarrow> bool \<Rightarrow> bool \<Rightarrow> bool" where
  "state_shape kConnecting ch notes closing diss \<longleftrightarrow>
     ch_events ch = 0 \<and> \<not> ch_addedToLoop ch \<and> notes = [] \<and> \<not> closing \<and> \<not> diss"
| "state_shape kConnected ch notes closing diss \<longleftrightarrow>
     ch_addedToLoop ch \<and> notes = [NoteUp] \<and> \<not> closing \<and> \<not> diss"
| "state_shape kDisconnecting ch notes closing diss \<longleftrightarrow> ch_addedToLoop ch \<and> notes = [NoteUp]"
| "state_shape kDisconnected ch notes closing diss \<longleftrightarrow>
     ch_events ch = 0 \<and> (notes = [NoteUp, NoteDown] \<or> notes = [NoteUp, NoteDown, NoteClosed])"

definition conn_shape :: "'c tcpconn \<Rightarrow> bool" where
  "conn_shape s \<longleftrightarrow>
     state_shape (cn_state s) (cn_channel s) (cn_log s) (cn_closeFlag s) (cn_dissByPeer s) \<and>
     (cn_setSolinger s \<longleftrightarrow> cn_forceFlag s) \<and> (cn_forceFlag s \<longrightarrow> cn_state s = kDisconnected) \<and>
     cn_closes s = (if cn_forceFlag s \<and> \<not> ch_addedToLoop (cn_channel s) then 1 else 0) \<and>
     (ShutdownInLoop \<in> set (cn_queued s) \<longrightarrow> cn_closeFlag s \<and> \<not> cn_dissByPeer s) \<and>
     (cn_state s = kConnecting \<longrightarrow> cn_queued s = [])"

definition conn_stream :: "'c tcpconn \<Rightarrow> bool" where
  "conn_stream s \<longleftrightarrow> buffer_ok (cn_input s) \<and> buffer_ok (cn_output s) \<and>
     (\<not> cn_broken s \<longrightarrow> cn_accepted s = cn_wire s @ readable (cn_output s)) \<and>
     (\<not> cn_stopped s \<and> cn_state s \<noteq> kDisconnected \<longrightarrow> (readable (cn_output s) \<noteq> [] \<longrightarrow> isWriting (cn_channel s)) \<and>
        (cn_fin s = None \<or> cn_fin s = Some []))"

definition conn_inv :: "'c tcpconn \<Rightarrow> bool" where
  "conn_inv s \<longleftrightarrow> conn_shape s \<and> conn_stream s"

text \<open>What a user's callback can do to the connection.\<close>

definition user_rel :: "'c tcpconn \<Rightarrow> 'c tcpconn \<Rightarrow> bool" where
  "user_rel s s' \<longleftrightarrow> conn_inv s' \<and> cn_inLoop s' = cn_inLoop s \<and>
     (cn_state s' = cn_state s \<or> cn_state s = kConnected \<and> cn_state s' = kDisconnecting) \<and>
     cn_dissByPeer s' = cn_dissByPeer s \<and> cn_log s' = cn_log s \<and> cn_forceFlag s' = cn_forceFlag s \<and>
     (cn_state s \<noteq> kConnected \<longrightarrow> cn_closeFlag s' = cn_closeFlag s) \<and>
     ch_eventHandling (cn_channel s') = ch_eventHandling (cn_channel s) \<and>
     ch_addedToLoop (cn_channel s') = ch_addedToLoop (cn_channel s)"

text \<open>
  What every event but establishing and destroying keeps: a connection that is closed stays
  closed, and one that becomes closed has made the close callback last and is still
  registered with its loop.
\<close>

definition phase_rel :: "'c tcpconn \<Rightarrow> 'c tcpconn \<Rightarrow> bool" where
  "phase_rel s s' \<longleftrightarrow> (cn_state s' = kConnecting \<longleftrightarrow> cn_state s = kConnecting) \<and>
     ch_addedToLoop (cn_channel s') = ch_addedToLoop (cn_channel s) \<and>
     (cn_state s = kDisconnected \<longrightarrow> cn_state s' = kDisconnected \<and> cn_log s' = cn_log s) \<and>
     (cn_state s \<noteq> kDisconnected \<and> cn_state s' = kDisconnected \<longrightarrow> cn_log s' = [NoteUp, NoteDown, NoteClosed])"

lemma phase_rel_refl [simp]: "phase_rel s s"
  by (simp add: phase_rel_def)

lemma phase_rel_trans: "phase_rel s s1 \<Longrightarrow> phase_rel s1 s2 \<Longrightarrow> phase_rel s s2"
  by (auto simp: phase_rel_def)

lemma user_phase: "user_rel s s' \<Longrightarrow> phase_rel s s'"
  unfolding user_rel_def phase_rel_def by (elim conjE disjE; simp)

text \<open>Only the state, the registration and the log matter.\<close>

lemma phase_rel_eq:
  assumes "cn_state s1 = cn_state s" and "cn_log s1 = cn_log s" and "ch_addedToLoop (cn_channel s1) = ch_addedToLoop (cn_channel s)"
  shows "phase_rel s1 s' = phase_rel s s'" and "phase_rel s' s1 = phase_rel s' s"
  by (simp_all only: phase_rel_def assms)

locale conn_callbacks =
  fixes env :: "'c conn_env"
  assumes write_law: "ce_write env k n = Inr m \<Longrightarrow> m \<le> n"
    and readv_law: "ce_readv env k lens = Inr d \<Longrightarrow> length d \<le> sum_list lens"
    and connection_law: "conn_inv s \<Longrightarrow> cn_inLoop s \<Longrightarrow> returns (ce_connection env s) (user_rel s)"
    and message_law: "conn_inv s \<Longrightarrow> cn_inLoop s \<Longrightarrow> returns (ce_message env t s) (user_rel s)"
    and close_law: "conn_inv s \<Longrightarrow> cn_inLoop s \<Longrightarrow> returns (ce_close env s) (user_rel s)"
    and writeComplete_law: "conn_inv s \<Longrightarrow> cn_inLoop s \<Longrightarrow> returns (ce_writeComplete env s) (user_rel s)"
    and highWater_law: "conn_inv s \<Longrightarrow> cn_inLoop s \<Longrightarrow> returns (ce_highWater env n s) (user_rel s)"

section \<open>Masks\<close>

lemma isWriting_bit: "isWriting c \<longleftrightarrow> bit (ch_events c) 2"
proof -
  have eq: "kWriteEvent = 2 ^ 2" by (simp add: kWriteEvent_def POLLOUT_def)
  show ?thesis unfolding isWriting_def eq and_exp_eq_0_iff_not_bit by simp
qed

lemma mask_bits [simp]:
  "bit (writing_on ev) 2" "\<not> bit (writing_off ev) 2" "bit (reading_on ev) 2 = bit ev 2"
  "bit (reading_off ev) 2 = bit ev 2" "\<not> bit kNoneEvent 2" "\<not> bit kReadEvent 2"
proof -
  have w: "kWriteEvent = push_bit 2 1" by (simp add: kWriteEvent_def POLLOUT_def push_bit_eq_mult)
  have r: "kReadEvent = mask 2" by (simp add: kReadEvent_def poll_bits mask_eq_exp_minus_1)
  show "bit (writing_on ev) 2" "\<not> bit (writing_off ev) 2"
    by (simp_all add: writing_on_def writing_off_def w bit_or_iff bit_and_iff bit_not_iff bit_push_bit_iff)
  show "bit (reading_on ev) 2 = bit ev 2" "bit (reading_off ev) 2 = bit ev 2" "\<not> bit kNoneEvent 2"
    "\<not> bit kReadEvent 2"
    by (auto simp: reading_on_def reading_off_def r kNoneEvent_def bit_or_iff bit_and_iff bit_not_iff bit_mask_iff
        dest: bit_imp_le_length)
qed


section \<open>User operations\<close>

lemmas conn_defs = conn_inv_def conn_shape_def conn_stream_def conn_alive_def user_rel_def

lemma set_events_simps [simp]:
  "cn_writeCompleteCallback (set_events f s) = cn_writeCompleteCallback s" "cn_state (set_events f s) = cn_state s"
  "cn_inLoop (set_events f s) = cn_inLoop s"
  by (simp_all add: set_events_def)

lemma conn_inv_irrelevant [simp]:
  "conn_inv (s\<lparr>cn_inLoop := i\<rparr>) = conn_inv s" "conn_inv (s\<lparr>cn_delayed := d\<rparr>) = conn_inv s"
  "conn_inv (s\<lparr>cn_calls := k\<rparr>) = conn_inv s"
  by (simp_all add: conn_inv_def conn_shape_def conn_stream_def)

lemma up_facts:
  assumes "conn_inv s" and "cn_state s = kConnected \<or> cn_state s = kDisconnecting"
  shows "ch_addedToLoop (cn_channel s)" "cn_log s = [NoteUp]" "\<not> cn_forceFlag s" "\<not> cn_setSolinger s" "cn_closes s = 0"
  using assms(2) assms(1) [unfolded conn_inv_def conn_shape_def] by (elim disjE; simp)+

lemma closed_facts:
  assumes "conn_inv s" and "cn_state s = kDisconnected"
  shows "ch_events (cn_channel s) = 0" "cn_log s = [NoteUp, NoteDown] \<or> cn_log s = [NoteUp, NoteDown, NoteClosed]"
    "cn_setSolinger s \<longleftrightarrow> cn_forceFlag s"
    "cn_closes s = (if cn_forceFlag s \<and> \<not> ch_addedToLoop (cn_channel s) then 1 else 0)"
  using assms(2) assms(1) [unfolded conn_inv_def conn_shape_def] by simp_all

lemma user_rel_refl: "conn_inv s \<Longrightarrow> user_rel s s"
  by (simp add: user_rel_def)

lemma user_rel_trans: "user_rel s s1 \<Longrightarrow> user_rel s1 s2 \<Longrightarrow> user_rel s s2"
  unfolding user_rel_def by (elim conjE, intro conjI) (simp, simp, argo, simp_all, argo)

lemma unread_bytes: "buffer_ok b \<Longrightarrow> range_of (storage b) (peek b) (beginWrite b) = readable b"
  by (simp add: readable_def peek_def beginWrite_def)

lemma conn_inv_buffers [dest]: "conn_inv s \<Longrightarrow> buffer_ok (cn_input s) \<and> buffer_ok (cn_output s)"
  by (simp add: conn_inv_def conn_stream_def)

text \<open>Queueing a functor that does not shut down.\<close>

lemma queue_user_rel:
  "conn_inv s \<Longrightarrow> f \<noteq> ShutdownInLoop \<Longrightarrow> cn_state s \<noteq> kConnecting \<Longrightarrow> user_rel s (queue_functor f s)"
  unfolding conn_defs queue_functor_def by (cases "cn_state s") auto

text \<open>Changing the interest of a connection that is up.\<close>

lemma set_events_user_rel:
  assumes "conn_inv s" and "conn_alive s"
    and "bit (f (ch_events (cn_channel s))) 2 \<or> bit (f (ch_events (cn_channel s))) 2 = bit (ch_events (cn_channel s)) 2"
  shows "user_rel s (set_events f s)" "user_rel s (set_events f s\<lparr>cn_reading := r\<rparr>)"
  using assms(1,3) assms(2) [unfolded conn_alive_def]
  by (elim disjE; simp add: set_events_def conn_defs isWriting_bit)+

lemma startRead_user: "conn_inv s \<Longrightarrow> conn_alive s \<Longrightarrow> cn_inLoop s \<Longrightarrow> returns (startReadInLoop s) (user_rel s)"
  by (simp add: startReadInLoop_def in_loop_thread_def user_rel_refl set_events_user_rel)

lemma stopRead_user: "conn_inv s \<Longrightarrow> conn_alive s \<Longrightarrow> cn_inLoop s \<Longrightarrow> returns (stopReadInLoop s) (user_rel s)"
  by (simp add: stopReadInLoop_def in_loop_thread_def user_rel_refl set_events_user_rel)

lemma startWrite_user: "conn_inv s \<Longrightarrow> conn_alive s \<Longrightarrow> cn_inLoop s \<Longrightarrow> returns (startWriteInLoop s) (user_rel s)"
  by (simp add: startWriteInLoop_def in_loop_thread_def user_rel_refl set_events_user_rel)

lemma stopWrite_user:
  assumes "conn_inv s" and "cn_inLoop s"
  shows "returns (stopWriteInLoop s) (user_rel s)"
proof (cases "isWriting (cn_channel s)")
  case True
  with assms(1) have "user_rel s (set_events writing_off s\<lparr>cn_stopped := True\<rparr>)"
    unfolding conn_defs set_events_def by (cases "cn_state s") (auto simp: isWriting_bit)
  with True assms(2) show ?thesis by (simp add: stopWriteInLoop_def in_loop_thread_def)
qed (use assms in \<open>simp add: stopWriteInLoop_def in_loop_thread_def user_rel_refl\<close>)

lemma forceClose_user: "conn_inv s \<Longrightarrow> user_rel s (forceClose s)"
  unfolding conn_defs forceClose_def queue_functor_def by (cases "cn_state s") auto

lemma forceCloseWithDelay_user: "conn_inv s \<Longrightarrow> user_rel s (forceCloseWithDelay s)"
  unfolding conn_defs forceCloseWithDelay_def by (cases "cn_state s") auto

lemma shutdown_user:
  assumes "conn_inv s"
  shows "returns (conn_shutdown env s) (user_rel s)"
proof (cases "cn_state s = kConnected")
  case True
  let ?s1 = "s\<lparr>cn_closeFlag := True, cn_state := kDisconnecting\<rparr>"
  have diss: "\<not> cn_dissByPeer s" using assms True by (simp add: conn_defs)
  have out: "range_of (storage (cn_output s)) (peek (cn_output s)) (beginWrite (cn_output s)) = readable (cn_output s)"
    using assms by (intro unread_bytes) auto
  have "user_rel s ?s1" using assms True by (simp add: conn_defs)
  moreover have "user_rel s (shutdownWrite ?s1)" if "\<not> isWriting (cn_channel s)"
    using assms True that out by (auto simp add: conn_defs shutdownWrite_def)
  moreover have "user_rel s (queue_functor ShutdownInLoop ?s1)"
    using assms True diss by (simp add: conn_defs queue_functor_def)
  ultimately show ?thesis using True diss
    by (simp add: conn_shutdown.simps shutdownInLoop.simps in_loop_thread_def shutdownWrite_def Let_def)
qed (use assms in \<open>simp add: conn_shutdown.simps user_rel_refl\<close>)


lemma state_cases:
  obtains "conn_alive s" | "cn_state s = kConnecting" | "cn_state s = kDisconnected"
  by (cases "cn_state s") (auto simp: conn_alive_def)

text \<open>The state after bytes were accepted: \<open>w\<close> is on the wire, \<open>b\<close> holds the rest.\<close>

lemma accepted_user_rel:
  assumes "conn_inv s" and "conn_alive s" and "buffer_ok b"
    and "\<not> br \<Longrightarrow> w @ readable b = cn_wire s @ readable (cn_output s) @ data"
    and "br = cn_broken s \<or> br" and "readable b \<noteq> [] \<Longrightarrow> \<not> cn_stopped s \<Longrightarrow> bit ev 2"
    and "ShutdownInLoop \<in> set q \<longleftrightarrow> ShutdownInLoop \<in> set (cn_queued s)"
  shows "user_rel s (s\<lparr>cn_accepted := cn_accepted s @ data, cn_calls := k, cn_wire := w, cn_queued := q,
    cn_output := b, cn_channel := (cn_channel s)\<lparr>ch_events := ev, ch_addedToLoop := True\<rparr>, cn_broken := br\<rparr>)"
  using assms unfolding conn_defs by (cases "cn_state s") (auto simp: isWriting_bit)

context conn_callbacks
begin

lemma write_directly_spec:
  assumes "buffer_ok (cn_output s)" and "write_directly env data s = (n, fault, s1)"
  shows "n \<le> length data \<and> (\<exists>k w q. s1 = s\<lparr>cn_calls := k, cn_wire := w, cn_queued := q\<rparr> \<and>
    w @ readable (cn_output s) @ drop n data = cn_wire s @ readable (cn_output s) @ data \<and>
    (ShutdownInLoop \<in> set q \<longleftrightarrow> ShutdownInLoop \<in> set (cn_queued s)))"
proof (cases "\<not> isWriting (cn_channel s) \<and> readableBytes (cn_output s) = 0")
  case direct: True
  then have empty: "readable (cn_output s) = []" using length_readable [OF assms(1)] by simp
  show ?thesis
  proof (cases "ce_write env (cn_calls s) (length data)")
    case (Inl e)
    with direct assms(2) have "n = 0" "s1 = s\<lparr>cn_calls := cn_calls s + 1\<rparr>"
      by (auto simp: write_directly_def Let_def)
    then show ?thesis
      by (intro conjI exI [of _ "cn_calls s + 1"] exI [of _ "cn_wire s"] exI [of _ "cn_queued s"]) simp_all
  next
    case (Inr m)
    with write_law have "m \<le> length data" by blast
    define q where "q = (if length data = m \<and> cn_writeCompleteCallback s then cn_queued s @ [WriteComplete] else cn_queued s)"
    have "n = m" and "s1 = s\<lparr>cn_calls := cn_calls s + 1, cn_wire := cn_wire s @ take m data, cn_queued := q\<rparr>"
      using direct Inr assms(2) by (auto simp: write_directly_def Let_def queue_functor_def q_def)
    moreover have "ShutdownInLoop \<in> set q \<longleftrightarrow> ShutdownInLoop \<in> set (cn_queued s)" by (simp add: q_def)
    ultimately show ?thesis using empty \<open>m \<le> length data\<close>
      by (intro conjI exI [of _ "cn_calls s + 1"] exI [of _ "cn_wire s @ take m data"] exI [of _ q]) simp_all
  qed
next
  case False
  with assms(2) have "n = 0" "s1 = s" by (auto simp: write_directly_def split: if_splits)
  then show ?thesis by (intro conjI exI [of _ "cn_calls s"] exI [of _ "cn_wire s"] exI [of _ "cn_queued s"]) simp_all
qed

lemma sendInLoop_user:
  assumes "conn_inv s" and "cn_inLoop s" and "cn_state s \<noteq> kConnecting"
  shows "returns (sendInLoop env data s) (user_rel s)"
proof (cases "cn_state s = kDisconnected")
  case False
  with assms(3) have alive: "conn_alive s" by (cases "cn_state s") (auto simp: conn_alive_def)
  have ok: "buffer_ok (cn_output s)" using assms(1) by auto
  let ?s = "s\<lparr>cn_accepted := cn_accepted s @ data\<rparr>"
  obtain n fault s1 where wd: "write_directly env data ?s = (n, fault, s1)" by (cases "write_directly env data ?s")
  from write_directly_spec [OF _ wd] ok obtain k w q where n: "n \<le> length data"
    and s1: "s1 = ?s\<lparr>cn_calls := k, cn_wire := w, cn_queued := q\<rparr>"
    and w: "w @ readable (cn_output s) @ drop n data = cn_wire s @ readable (cn_output s) @ data"
    and q: "ShutdownInLoop \<in> set q \<longleftrightarrow> ShutdownInLoop \<in> set (cn_queued s)" by auto
  have chan: "(cn_channel s)\<lparr>ch_addedToLoop := True\<rparr> = cn_channel s"
    using assms(1) alive by (cases "cn_state s") (auto simp: conn_defs)
  have writing: "readable (cn_output s) \<noteq> [] \<Longrightarrow> \<not> cn_stopped s \<Longrightarrow> bit (ch_events (cn_channel s)) 2"
    using assms(1) alive by (auto simp add: conn_defs isWriting_bit)
  have fault: "user_rel s (s1\<lparr>cn_broken := True\<rparr>)"
    using accepted_user_rel [OF assms(1) alive ok, of True w data "ch_events (cn_channel s)" q k] writing q
    by (simp add: s1 chan)
  have whole: "user_rel s s1" if "n = length data"
    using accepted_user_rel [OF assms(1) alive ok, of "cn_broken s" w data "ch_events (cn_channel s)" q k]
      writing q w that by (simp add: s1 chan)
  have rest: "user_rel s (if \<not> isWriting (cn_channel s) then set_events writing_on s3 else s3)"
    if "buffer_ok b \<and> readable b = readable (cn_output s) @ drop n data"
      and "s3 = s1\<lparr>cn_queued := q'\<rparr>\<lparr>cn_output := b\<rparr>" and "q' = q \<or> q' = q @ [HighWater h]" for b q' h s3
    using accepted_user_rel [OF assms(1) alive, of b "cn_broken s" w data "writing_on (ch_events (cn_channel s))" q' k]
      accepted_user_rel [OF assms(1) alive, of b "cn_broken s" w data "ch_events (cn_channel s)" q' k] q w that
    by (auto simp: s1 set_events_def isWriting_bit chan)
  have b: "buffer_ok (cn_output s1)" using ok by (simp add: s1)
  have append: "returns (buf_append (drop n data) (cn_output s)) (\<lambda>b. buffer_ok b \<and> readable b = readable (cn_output s) @ drop n data)"
    by (rule buf_append_spec [OF ok])
  show ?thesis
  proof (cases "fault \<or> n = length data")
    case True
    with n fault whole wd assms(2) False show ?thesis
      by (auto simp: sendInLoop_def in_loop_thread_def Let_def)
  next
    case notall: False
    define q' where "q' = (if readableBytes (cn_output s) + (length data - n) \<ge> cn_highWaterMark s \<and>
        readableBytes (cn_output s) < cn_highWaterMark s \<and> cn_highWaterMarkCallback s
      then q @ [HighWater (readableBytes (cn_output s) + (length data - n))] else q)"
    from append obtain b where b: "buf_append (drop n data) (cn_output s) = Inr b"
      "buffer_ok b \<and> readable b = readable (cn_output s) @ drop n data" by (rule returnsE)
    have "sendInLoop env data s = Inr (if \<not> isWriting (cn_channel s)
        then set_events writing_on (s1\<lparr>cn_queued := q', cn_output := b\<rparr>) else s1\<lparr>cn_queued := q', cn_output := b\<rparr>)"
      using notall n wd assms(2) False b(1)
      by (simp add: sendInLoop_def in_loop_thread_def s1 q'_def Let_def queue_functor_def)
    moreover have "q' = q \<or> q' = q @ [HighWater (readableBytes (cn_output s) + (length data - n))]"
      by (simp add: q'_def)
    ultimately show ?thesis using rest [OF b(2) refl] by simp
  qed
qed (use assms in \<open>simp add: sendInLoop_def in_loop_thread_def user_rel_refl\<close>)

lemma do_conn_op_user:
  assumes "conn_inv s" and "op_may p s"
  shows "returns (do_conn_op env p s) (user_rel s)"
proof -
  have alive: "cn_state s \<noteq> kConnecting" if "conn_alive s" using that by (auto simp: conn_alive_def)
  show ?thesis
    using assms
    by (cases p)
      (auto simp: conn_send_def user_rel_refl shutdown_user forceClose_user forceCloseWithDelay_user run_in_loop_def
        startRead_def stopRead_def startWrite_def stopWrite_def startRead_user stopRead_user startWrite_user
        stopWrite_user sendInLoop_user queue_user_rel alive)
qed

section \<open>Closing\<close>

text \<open>What the handlers keep besides the invariant.\<close>

definition ev_rel :: "'c tcpconn \<Rightarrow> 'c tcpconn \<Rightarrow> bool" where
  "ev_rel s s' \<longleftrightarrow> conn_inv s' \<and> cn_inLoop s' \<and>
     ch_eventHandling (cn_channel s') = ch_eventHandling (cn_channel s) \<and> phase_rel s s'"

lemma user_ev: "cn_inLoop s \<Longrightarrow> user_rel s s' \<Longrightarrow> ev_rel s s'"
  by (simp add: user_phase ev_rel_def) (simp add: user_rel_def)

lemma ev_rel_from:
  assumes "ev_rel s1 x" and "phase_rel s s1" and "ch_eventHandling (cn_channel s1) = ch_eventHandling (cn_channel s)"
  shows "ev_rel s x"
  using assms phase_rel_trans [of s s1 x] by (simp add: ev_rel_def)

lemma closing_spec:
  assumes inv: "conn_inv s" and alive: "conn_alive s" and inl: "cn_inLoop s"
  shows "returns (handleClose env (s\<lparr>cn_closeFlag := True, cn_forceFlag := f, cn_setSolinger := f\<rparr>))
    (\<lambda>s'. ev_rel s s' \<and> cn_state s' = kDisconnected)"
proof -
  let ?s = "s\<lparr>cn_closeFlag := True, cn_forceFlag := f, cn_setSolinger := f\<rparr>"
  let ?s1 = "add_note NoteDown (disableAll (?s\<lparr>cn_state := kDisconnected\<rparr>))"
  have st: "cn_state s = kConnected \<or> cn_state s = kDisconnecting" using alive by (simp add: conn_alive_def)
  have log: "cn_log s = [NoteUp]" "ch_addedToLoop (cn_channel s)" "cn_closes s = 0"
    using up_facts [OF inv st] by simp_all
  have log1: "cn_log ?s1 = [NoteUp, NoteDown]" and inl1: "cn_inLoop ?s1"
    using log inl by (simp_all add: add_note_def disableAll_def set_events_def)
  have "ShutdownInLoop \<in> set (cn_queued s) \<longrightarrow> \<not> cn_dissByPeer s" and "conn_stream s"
    using inv by (auto simp: conn_inv_def conn_shape_def)
  then have i1: "conn_inv ?s1"
    using log by (simp add: conn_inv_def conn_shape_def conn_stream_def conn_alive_def add_note_def disableAll_def
        set_events_def kNoneEvent_def)
  from connection_law [OF i1 inl1] obtain s2 where s2: "ce_connection env ?s1 = Inr s2" "user_rel ?s1 s2"
    by (rule returnsE)
  let ?s3 = "add_note NoteClosed s2"
  have st2: "cn_state s2 = kDisconnected" "cn_log s2 = [NoteUp, NoteDown]" "cn_inLoop s2"
    using s2(2) inl log1 by (auto simp: user_rel_def add_note_def disableAll_def set_events_def)
  have i3: "conn_inv ?s3" using s2(2) st2 unfolding conn_defs by (auto simp: add_note_def)
  from close_law [OF i3] st2(3) obtain s4 where s4: "ce_close env ?s3 = Inr s4" "user_rel ?s3 s4"
    by (auto simp: add_note_def elim: returnsE)
  have "ev_rel s s4 \<and> cn_state s4 = kDisconnected"
    using s2(2) s4(2) st2 inl log st by (auto simp: ev_rel_def user_rel_def phase_rel_def add_note_def disableAll_def set_events_def)
  then show ?thesis using inl st s2(1) s4(1) by (subst handleClose.simps) (auto simp: in_loop_thread_def)
qed

lemma shutdownWrite_inv:
  assumes "conn_inv s" and "\<not> isWriting (cn_channel s)"
  shows "conn_inv (shutdownWrite s)"
proof -
  have "range_of (storage (cn_output s)) (peek (cn_output s)) (beginWrite (cn_output s)) = readable (cn_output s)"
    using assms(1) by (intro unread_bytes) auto
  with assms show ?thesis unfolding conn_defs shutdownWrite_def by (cases "cn_state s") auto
qed

lemma handleClose_spec:
  assumes inv: "conn_inv s" and alive: "conn_alive s" and inl: "cn_inLoop s"
  shows "returns (handleClose env s) (ev_rel s)"
proof -
  have noforce: "s\<lparr>cn_closeFlag := True, cn_forceFlag := False, cn_setSolinger := False\<rparr> = s" if "cn_closeFlag s"
    using inv alive that by (auto simp: conn_defs)
  have st: "cn_state s = kConnected \<or> cn_state s = kDisconnecting" using alive by (simp add: conn_alive_def)
  show ?thesis
  proof (cases "cn_closeFlag s")
    case True
    from closing_spec [OF inv alive inl, of False] noforce [OF True] show ?thesis by (auto elim: returns_mono)
  next
    case False
    let ?d = "s\<lparr>cn_dissByPeer := True\<rparr>"
    let ?s1 = "?d\<lparr>cn_closeFlag := True, cn_state := kDisconnecting\<rparr>"
    have q: "ShutdownInLoop \<notin> set (cn_queued s)" using inv False by (auto simp: conn_defs)
    have step: "handleClose env s = conn_shutdown env ?d"
      using False inl st by (subst handleClose.simps) (auto simp: in_loop_thread_def)
    show ?thesis
    proof (cases "cn_state s = kConnected")
      case disc: False
      with inv inl q st have "ev_rel s ?d" unfolding ev_rel_def phase_rel_def conn_defs by auto
      with disc show ?thesis by (simp add: step conn_shutdown.simps)
    next
      case True
      have i1: "conn_inv ?s1" using inv True q unfolding conn_defs by auto
      have "conn_shutdown env ?d = shutdownInLoop env ?s1"
        using True inl by (simp add: conn_shutdown.simps)
      moreover have "returns (shutdownInLoop env ?s1) (ev_rel s)"
      proof (cases "isWriting (cn_channel s)")
        case w: True
        with i1 inl True show ?thesis by (simp add: shutdownInLoop.simps in_loop_thread_def ev_rel_def phase_rel_def)
      next
        case nw: False
        have i2: "conn_inv (shutdownWrite ?s1)" by (rule shutdownWrite_inv [OF i1]) (simp add: nw)
        have "cn_forceFlag s = False" "cn_setSolinger s = False" using inv True by (auto simp: conn_defs)
        then have "(shutdownWrite ?s1)\<lparr>cn_closeFlag := True, cn_forceFlag := False, cn_setSolinger := False\<rparr> = shutdownWrite ?s1"
          by (simp add: shutdownWrite_def)
        with closing_spec [OF i2, of False] inl have
          "returns (handleClose env (shutdownWrite ?s1)) (ev_rel (shutdownWrite ?s1))"
          by (auto simp: shutdownWrite_def conn_alive_def elim!: returns_mono)
        moreover have "phase_rel s (shutdownWrite ?s1)" using True by (simp add: phase_rel_def shutdownWrite_def)
        moreover have "ch_eventHandling (cn_channel (shutdownWrite ?s1)) = ch_eventHandling (cn_channel s)"
          by (simp add: shutdownWrite_def)
        ultimately have "returns (handleClose env (shutdownWrite ?s1)) (ev_rel s)"
          by (auto intro: ev_rel_from elim: returns_mono)
        with inl nw show ?thesis by (simp add: shutdownInLoop.simps in_loop_thread_def Let_def) (simp add: shutdownWrite_def)
      qed
      ultimately show ?thesis by (simp add: step)
    qed
  qed
qed

lemma shutdownInLoop_spec:
  assumes inv: "conn_inv s" and inl: "cn_inLoop s" and diss: "cn_dissByPeer s \<longrightarrow> conn_alive s"
  shows "returns (shutdownInLoop env s) (ev_rel s)"
proof (cases "isWriting (cn_channel s)")
  case True
  with inv inl show ?thesis by (simp add: shutdownInLoop.simps in_loop_thread_def ev_rel_def phase_rel_def)
next
  case False
  have i: "conn_inv (shutdownWrite s)" by (rule shutdownWrite_inv [OF inv False])
  have "returns (handleClose env (shutdownWrite s)) (ev_rel s)" if "cn_dissByPeer s"
    using handleClose_spec [OF i] inl diss that
    by (auto simp: shutdownWrite_def conn_alive_def ev_rel_def phase_rel_def elim!: returns_mono)
  with False i inl show ?thesis
    by (auto simp: shutdownInLoop.simps in_loop_thread_def ev_rel_def phase_rel_def shutdownWrite_def Let_def)
qed

lemma forceCloseInLoop_spec:
  assumes "conn_inv s" and "cn_inLoop s"
  shows "returns (forceCloseInLoop env s) (ev_rel s)"
proof (cases "conn_alive s")
  case True
  then have "cn_state s = kConnected \<or> cn_state s = kDisconnecting" by (simp add: conn_alive_def)
  with closing_spec [OF assms(1) True assms(2), of True] assms(2) show ?thesis
    by (auto simp: forceCloseInLoop_def in_loop_thread_def elim: returns_mono)
next
  case False
  with assms show ?thesis by (simp add: forceCloseInLoop_def in_loop_thread_def conn_alive_def ev_rel_def phase_rel_def)
qed

section \<open>Handlers\<close>

lemma conn_read_spec:
  assumes inv: "conn_inv s" and alive: "conn_alive s" and inl: "cn_inLoop s"
  shows "returns (handleRead env t s) (ev_rel s)"
proof -
  have "buffer_ok (cn_input s)" using inv by auto
  moreover have "ce_readv env (cn_calls s) lens = Inr d \<Longrightarrow> length d \<le> sum_list lens" for lens d
    by (rule readv_law)
  ultimately obtain r b where
    rb: "readFd (ce_readv env (cn_calls s)) (cn_input s) = Inr (r, b)" "buffer_ok b"
    using readFd_spec [of "cn_input s" "ce_readv env (cn_calls s)"] by (auto elim!: returnsE)
  let ?s1 = "s\<lparr>cn_input := b, cn_calls := cn_calls s + 1\<rparr>"
  have i1: "conn_inv ?s1" "cn_inLoop ?s1" "conn_alive ?s1"
    using inv rb(2) alive inl by (simp_all add: conn_defs)
  have rel: "ev_rel ?s1 x \<Longrightarrow> ev_rel s x" for x by (simp add: ev_rel_def phase_rel_def)
  have "returns (ce_message env t ?s1) (ev_rel s)"
    by (rule returns_mono [OF message_law [OF i1(1,2)]]) (rule rel [OF user_ev [OF i1(2)]])
  moreover have "returns (handleClose env ?s1) (ev_rel s)"
    by (rule returns_mono [OF handleClose_spec [OF i1(1,3,2)]]) (rule rel)
  moreover have "ev_rel s ?s1" using i1 by (simp add: ev_rel_def phase_rel_def)
  ultimately show ?thesis using rb(1) inl by (cases r) (simp_all add: handleRead_def in_loop_thread_def handleError_def Let_def)
qed

text \<open>The state after \<open>n > 0\<close> bytes of the output were written.\<close>

lemma flushed_inv:
  assumes "conn_inv s" and "buffer_ok b" and "readable (cn_output s) = w @ readable b"
  shows "conn_inv (s\<lparr>cn_calls := k, cn_output := b, cn_wire := cn_wire s @ w\<rparr>)"
proof -
  have "conn_shape s" and "conn_stream s" using assms(1) by (simp_all add: conn_inv_def)
  moreover have "readable b \<noteq> [] \<Longrightarrow> readable (cn_output s) \<noteq> []" using assms(3) by simp
  ultimately show ?thesis using assms(2,3)
    unfolding conn_inv_def conn_shape_def conn_stream_def conn_alive_def by simp
qed

lemma writing_done_inv:
  assumes "conn_inv s" and "readable (cn_output s) = []" and "isWriting (cn_channel s)"
  shows "conn_inv (set_events writing_off s)"
proof -
  have "cn_state s \<noteq> kConnecting" "cn_state s \<noteq> kDisconnected" using assms(1,3) by (auto simp: conn_defs isWriting_bit)
  with assms show ?thesis unfolding conn_defs set_events_def by (cases "cn_state s") (auto simp: isWriting_bit)
qed

lemma handleWrite_spec:
  assumes inv: "conn_inv s" and inl: "cn_inLoop s"
  shows "returns (handleWrite env s) (ev_rel s)"
proof (cases "isWriting (cn_channel s)")
  case False
  with inv inl show ?thesis by (simp add: handleWrite_def in_loop_thread_def ev_rel_def phase_rel_def)
next
  case True
  have ok: "buffer_ok (cn_output s)" using inv by auto
  have call: "ev_rel s (s\<lparr>cn_calls := cn_calls s + 1\<rparr>)" using inv inl by (simp add: ev_rel_def phase_rel_def conn_defs)
  have alive: "conn_alive s" using inv True by (cases "cn_state s") (auto simp: conn_defs isWriting_bit)
  show ?thesis
  proof (cases "ce_write env (cn_calls s) (readableBytes (cn_output s))")
    case (Inl e)
    with True call inl show ?thesis by (simp add: handleWrite_def in_loop_thread_def)
  next
    case (Inr n)
    with write_law have n: "n \<le> readableBytes (cn_output s)" by blast
    from retrieve_spec [OF ok n] obtain b where b: "retrieve n (cn_output s) = Inr b" "buffer_ok b"
      "readable b = drop n (readable (cn_output s))" by (auto elim!: returnsE)
    let ?s2 = "s\<lparr>cn_calls := cn_calls s + 1, cn_output := b, cn_wire := cn_wire s @ take n (readable (cn_output s))\<rparr>"
    have i2: "conn_inv ?s2" by (rule flushed_inv [OF inv b(2)]) (simp add: b(3))
    let ?s3 = "set_events writing_off ?s2"
    let ?s4 = "if cn_writeCompleteCallback s then queue_functor WriteComplete ?s3 else ?s3"
    have i4: "conn_inv ?s4 \<and> cn_inLoop ?s4 \<and> conn_alive ?s4 \<and>
        ch_eventHandling (cn_channel ?s4) = ch_eventHandling (cn_channel s) \<and> phase_rel s ?s4" if "readableBytes b = 0"
    proof -
      have "readable b = []" using that length_readable [OF b(2)] by simp
      then have i3: "conn_inv ?s3" by (intro writing_done_inv [OF i2]) (simp_all add: True)
      have s3: "conn_alive ?s3" "cn_inLoop ?s3" "ch_eventHandling (cn_channel ?s3) = ch_eventHandling (cn_channel s)"
        using alive inl by (simp_all add: conn_alive_def set_events_def)
      have "phase_rel s ?s4"
        using alive up_facts(1) [OF inv] by (auto simp: phase_rel_def conn_alive_def queue_functor_def set_events_def)
      moreover have "cn_state ?s3 \<noteq> kConnecting" using s3(1) by (auto simp: conn_alive_def)
      ultimately show ?thesis using queue_user_rel [OF i3, of WriteComplete] i3 s3
        by (auto simp: user_rel_def conn_alive_def queue_functor_def)
    qed
    have fin: "returns (if cn_state ?s4 = kDisconnecting then shutdownInLoop env ?s4 else Inr ?s4) (ev_rel s)"
      if "readableBytes b = 0"
    proof (cases "cn_state ?s4 = kDisconnecting")
      case True
      have "returns (shutdownInLoop env ?s4) (ev_rel s)"
        by (rule returns_mono [OF shutdownInLoop_spec]) (use i4 [OF that] in \<open>auto intro: ev_rel_from\<close>)
      with True show ?thesis by simp
    next
      case False
      have "ev_rel s ?s4" using i4 [OF that] by (simp add: ev_rel_def del: if_split)
      with False show ?thesis by (simp del: if_split)
    qed
    have "ev_rel s ?s2" using i2 inl by (simp add: ev_rel_def phase_rel_def)
    moreover have "returns (handleWrite env s) (ev_rel s) \<longleftrightarrow>
        (if n > 0 then if readableBytes b = 0
           then returns (if cn_state ?s4 = kDisconnecting then shutdownInLoop env ?s4 else Inr ?s4) (ev_rel s)
           else ev_rel s ?s2 else ev_rel s (s\<lparr>cn_calls := cn_calls s + 1\<rparr>))"
      using True inl Inr b(1) by (simp add: handleWrite_def in_loop_thread_def Let_def unread_bytes [OF ok])
    ultimately show ?thesis using fin call by simp
  qed
qed

section \<open>Every event\<close>

text \<open>Between events.\<close>

definition at_rest :: "'c tcpconn \<Rightarrow> bool" where
  "at_rest s \<longleftrightarrow> conn_inv s \<and> cn_inLoop s \<and> \<not> ch_eventHandling (cn_channel s)"

definition rest_rel :: "'c tcpconn \<Rightarrow> 'c tcpconn \<Rightarrow> bool" where
  "rest_rel s s' \<longleftrightarrow> at_rest s' \<and> phase_rel s s'"

lemma conn_callback_spec:
  assumes "conn_inv s" and "cn_inLoop s" and "cb = CloseCb \<or> (\<exists>t. cb = ReadCb t) \<longrightarrow> conn_alive s"
  shows "returns (conn_callback env cb s) (ev_rel s)"
  using assms conn_read_spec
  by (cases cb) (auto simp: conn_callback_def handleClose_spec handleWrite_spec handleError_def ev_rel_def phase_rel_def)

text \<open>The callbacks of one event: closing and reading do not both occur.\<close>

lemma callbacks_spec:
  assumes inv: "conn_inv s" "cn_inLoop s" "conn_alive s" and c: "c = [] \<or> c = [CloseCb]" and e: "e = [] \<or> e = [ErrorCb]"
    and r: "r = [] \<or> r = [ReadCb t]" and w: "w = [] \<or> w = [WriteCb]" and excl: "c = [] \<or> r = []"
  shows "returns (fold_r (conn_callback env) (c @ e @ r @ w) s) (ev_rel s)"
proof -
  have id: "fold_r (conn_callback env) e s' = Inr s'" for s'
    using e by (auto simp: conn_callback_def handleError_def)
  have refl: "ev_rel s s" using inv by (simp add: ev_rel_def phase_rel_def)
  have trans: "ev_rel s s1 \<Longrightarrow> ev_rel s1 s2 \<Longrightarrow> ev_rel s s2" for s1 s2 by (auto simp: ev_rel_def intro: phase_rel_trans)
  have head: "returns (fold_r (conn_callback env) (c @ e @ r) s) (ev_rel s)"
    using c r excl refl conn_callback_spec [OF inv(1,2), of CloseCb] conn_callback_spec [OF inv(1,2), of "ReadCb t"] inv(3)
    by (auto simp: fold_r_append id returns_bind elim: returns_mono)
  have tail: "returns (fold_r (conn_callback env) w s1) (ev_rel s)" if "ev_rel s s1" for s1
  proof -
    have s1: "conn_inv s1" "cn_inLoop s1" using that by (simp_all add: ev_rel_def)
    have "returns (conn_callback env WriteCb s1) (ev_rel s)"
      by (rule returns_mono [OF conn_callback_spec [OF s1, of WriteCb]]) (auto intro: trans [OF that])
    with w that show ?thesis by auto
  qed
  have "fold_r (conn_callback env) (c @ e @ r @ w) s =
      bind_r (fold_r (conn_callback env) (c @ e @ r) s) (fold_r (conn_callback env) w)"
    using fold_r_append [of "conn_callback env" "c @ e @ r" w s] by simp
  then show ?thesis using returns_bindI [OF head tail] by simp
qed

lemma modify_inv [simp]:
  "conn_inv (modify_channel (set_revents r) s) = conn_inv s"
  "conn_inv (modify_channel (\<lambda>c. c\<lparr>ch_eventHandling := h\<rparr>) s) = conn_inv s"
  "conn_alive (modify_channel f s) = conn_alive s" "cn_inLoop (modify_channel f s) = cn_inLoop s"
  by (cases "cn_state s"; simp add: modify_channel_def conn_defs isWriting_bit set_revents_def)+

lemma channel_event_spec:
  assumes rest: "at_rest s" and ev: "ch_events (cn_channel s) \<noteq> 0" and m: "mask_ok revt"
  shows "returns (conn_step env (ChannelEvent revt t) s) (rest_rel s)"
proof -
  let ?s1 = "modify_channel (set_revents revt) s"
  let ?s2 = "modify_channel (\<lambda>c. c\<lparr>ch_eventHandling := True\<rparr>) ?s1"
  have alive: "conn_alive s" using rest ev by (cases "cn_state s") (auto simp: at_rest_def conn_defs)
  have i2: "conn_inv ?s2" "cn_inLoop ?s2" "conn_alive ?s2" using rest alive by (simp_all add: at_rest_def)
  have rev1: "ch_revents (cn_channel ?s1) = revt" by (simp add: modify_channel_def set_revents_def)
  have "returns (fold_r (conn_callback env) (callbacks_of t (cn_channel ?s1)) ?s2) (ev_rel ?s2)"
    unfolding callbacks_of_def Let_def rev1
    by (rule callbacks_spec [OF i2]) (use m in \<open>auto simp: mask_ok_def\<close>)
  then have "returns (handleEventWithGuard (conn_callback env) modify_channel t (cn_channel ?s1) ?s1) (rest_rel s)"
    unfolding handleEventWithGuard_def
    by (rule returns_bindI)
      (simp add: rest_rel_def at_rest_def ev_rel_def, simp add: modify_channel_def set_revents_def phase_rel_def)
  moreover have "rest_rel s ?s1" using rest
    by (simp add: rest_rel_def at_rest_def) (simp add: modify_channel_def set_revents_def phase_rel_def)
  ultimately show ?thesis by (auto simp: handleEvent_def Let_def split: option.splits)
qed

lemma user_at_rest: "at_rest s \<Longrightarrow> user_rel s s' \<Longrightarrow> at_rest s'"
  by (simp add: at_rest_def user_rel_def)

lemma established_spec:
  assumes rest: "at_rest s" and st: "cn_state s = kConnecting"
  shows "returns (connectEstablished env s) (\<lambda>s'. at_rest s' \<and> conn_alive s')"
proof -
  let ?s = "add_note NoteUp (set_events reading_on (s\<lparr>cn_state := kConnected, cn_channel := tie 0 (cn_channel s)\<rparr>))"
  have inv: "conn_inv s" "cn_inLoop s" using rest by (simp_all add: at_rest_def)
  have i: "conn_inv ?s" "cn_inLoop ?s" "\<not> ch_eventHandling (cn_channel ?s)"
    using inv st rest by (auto simp: conn_defs add_note_def set_events_def tie_def isWriting_bit at_rest_def)
  have "at_rest x \<and> conn_alive x" if "user_rel ?s x" for x
    using user_at_rest [OF _ that] that i by (auto simp: at_rest_def user_rel_def conn_alive_def add_note_def)
  then have "returns (ce_connection env ?s) (\<lambda>s'. at_rest s' \<and> conn_alive s')"
    by (rule returns_mono [OF connection_law [OF i(1,2)]])
  with inv st show ?thesis by (simp add: connectEstablished_def in_loop_thread_def)
qed

lemma destroyed_spec:
  assumes rest: "at_rest s" and st: "cn_state s = kConnected \<or> cn_state s = kDisconnected"
    and added: "ch_addedToLoop (cn_channel s)"
  shows "returns (connectDestroyed env s) (\<lambda>s'. at_rest s' \<and> cn_state s' = kDisconnected \<and>
    \<not> ch_addedToLoop (cn_channel s'))"
proof -
  have removal: "returns (connectDestroyed env s) (\<lambda>s'. at_rest s' \<and> cn_state s' = kDisconnected \<and>
      \<not> ch_addedToLoop (cn_channel s'))"
    if "(if cn_state s = kConnected then ce_connection env (add_note NoteDown (disableAll (s\<lparr>cn_state := kDisconnected\<rparr>)))
         else Inr s) = Inr s1" and "at_rest s1" and "cn_state s1 = kDisconnected" and "ch_addedToLoop (cn_channel s1)" for s1
  proof -
    let ?s2 = "s1\<lparr>cn_channel := (cn_channel s1)\<lparr>ch_addedToLoop := False\<rparr>\<rparr>"
    let ?s3 = "if cn_forceFlag ?s2 then ?s2\<lparr>cn_closes := cn_closes ?s2 + 1\<rparr> else ?s2"
    have i1: "conn_inv s1" "cn_inLoop s1" "\<not> ch_eventHandling (cn_channel s1)" using that(2) by (simp_all add: at_rest_def)
    have "conn_inv ?s3"
      using i1(1) that(3,4) by (simp add: conn_inv_def conn_shape_def conn_stream_def)
    then have "at_rest ?s3" using i1 by (simp add: at_rest_def)
    moreover have "connectDestroyed env s = Inr ?s3"
      using that(1) rest closed_facts(1) [OF i1(1) that(3)]
      by (simp add: connectDestroyed_def in_loop_thread_def at_rest_def isNoneEvent_def kNoneEvent_def Let_def)
    ultimately show ?thesis using that(3) by simp
  qed
  show ?thesis
  proof (cases "cn_state s = kConnected")
    case True
    let ?s = "add_note NoteDown (disableAll (s\<lparr>cn_state := kDisconnected\<rparr>))"
    have i: "at_rest ?s"
      using rest True by (auto simp: at_rest_def conn_defs add_note_def disableAll_def set_events_def kNoneEvent_def)
    then obtain s1 where s1: "ce_connection env ?s = Inr s1" "user_rel ?s s1"
      using connection_law [of ?s] by (auto simp: at_rest_def elim: returnsE)
    have "cn_state ?s = kDisconnected" "ch_addedToLoop (cn_channel ?s)"
      by (simp_all add: add_note_def disableAll_def set_events_def)
    with s1(2) have "cn_state s1 = kDisconnected" "ch_addedToLoop (cn_channel s1)" by (simp_all add: user_rel_def)
    with True s1(1) user_at_rest [OF i s1(2)] show ?thesis by (intro removal [of s1]) simp_all
  next
    case False
    with rest st added show ?thesis by (intro removal [of s]) simp_all
  qed
qed

lemma functor_spec:
  assumes rest: "at_rest s" and q: "cn_queued s = f # fs" and may: "functor_may f s"
  shows "returns (run_functor env f (s\<lparr>cn_queued := fs\<rparr>)) (rest_rel s)"
proof -
  let ?s = "s\<lparr>cn_queued := fs\<rparr>"
  have i: "conn_inv ?s" "cn_inLoop ?s" and conn: "cn_state ?s \<noteq> kConnecting"
    and diss: "f = ShutdownInLoop \<Longrightarrow> \<not> cn_dissByPeer ?s"
    using rest q by (auto simp: at_rest_def conn_defs)
  have alive: "conn_alive ?s = conn_alive s" by (simp add: conn_alive_def)
  have ev: "ev_rel ?s s' \<Longrightarrow> rest_rel s s'" for s'
    using rest by (simp add: rest_rel_def at_rest_def ev_rel_def phase_rel_def)
  have us: "user_rel ?s s' \<Longrightarrow> rest_rel s s'" for s' by (rule ev [OF user_ev [OF i(2)]])
  show ?thesis
  proof (cases f)
    case (SendInLoop m)
    with returns_mono [OF sendInLoop_user [OF i conn] us] show ?thesis by simp
  next
    case ShutdownInLoop
    with returns_mono [OF shutdownInLoop_spec [OF i] ev] diss show ?thesis by simp
  next
    case ForceCloseInLoop
    with returns_mono [OF forceCloseInLoop_spec [OF i] ev] show ?thesis by simp
  next
    case WriteComplete
    with returns_mono [OF writeComplete_law [OF i] us] show ?thesis by simp
  next
    case (HighWater n)
    with returns_mono [OF highWater_law [OF i] us] show ?thesis by simp
  next
    case StopWriteInLoop
    with returns_mono [OF stopWrite_user [OF i] us] show ?thesis by simp
  next
    case StartReadInLoop
    with returns_mono [OF startRead_user [OF i(1) _ i(2)] us] may alive show ?thesis by simp
  next
    case StopReadInLoop
    with returns_mono [OF stopRead_user [OF i(1) _ i(2)] us] may alive show ?thesis by simp
  next
    case StartWriteInLoop
    with returns_mono [OF startWrite_user [OF i(1) _ i(2)] us] may alive show ?thesis by simp
  qed
qed

lemma user_call_spec:
  assumes rest: "at_rest s" and may: "op_may p s"
  shows "returns (conn_step env (UserCall inl p) s) (rest_rel s)"
proof -
  let ?s = "s\<lparr>cn_inLoop := inl\<rparr>"
  have "conn_inv ?s" "op_may p ?s" using rest may by (cases p; simp add: at_rest_def conn_alive_def)+
  from do_conn_op_user [OF this] obtain s1 where s1: "do_conn_op env p ?s = Inr s1" "user_rel ?s s1" by (rule returnsE)
  then have "at_rest (s1\<lparr>cn_inLoop := True\<rparr>)" using rest by (simp add: at_rest_def user_rel_def)
  moreover have "phase_rel s (s1\<lparr>cn_inLoop := True\<rparr>)"
    using user_phase [OF s1(2)] by (simp add: phase_rel_def)
  ultimately have "rest_rel s (s1\<lparr>cn_inLoop := True\<rparr>)" by (simp add: rest_rel_def)
  with s1(1) show ?thesis by simp
qed

lemma conn_step_phase:
  assumes "at_rest s" and "conn_may e s" and "e \<noteq> Established" and "e \<noteq> Destroyed"
  shows "returns (conn_step env e s) (rest_rel s)"
proof (cases e)
  case DelayOver
  let ?s = "s\<lparr>cn_delayed := cn_delayed s - 1\<rparr>"
  have rest: "at_rest ?s" using assms(1) by (simp add: at_rest_def)
  have "user_rel ?s (forceClose ?s)" by (rule forceClose_user) (use assms(1) in \<open>simp add: at_rest_def\<close>)
  from user_at_rest [OF rest this] user_phase [OF this] have "rest_rel s (forceClose ?s)"
    by (simp add: rest_rel_def phase_rel_def)
  then show ?thesis using DelayOver by simp
next
  case RunFunctor
  with assms functor_spec show ?thesis by (auto split: list.splits)
next
  case (ChannelEvent r t)
  with assms channel_event_spec show ?thesis by (simp del: conn_step.simps)
next
  case (UserCall inl p)
  with assms user_call_spec show ?thesis by (simp del: conn_step.simps)
qed (use assms in simp_all)

lemma conn_step_spec:
  assumes "at_rest s" and "conn_may e s"
  shows "returns (conn_step env e s) at_rest"
proof -
  have "returns (connectDestroyed env s) at_rest" if "e = Destroyed"
    by (rule returns_mono [OF destroyed_spec]) (use assms that in simp_all)
  moreover have "returns (connectEstablished env s) at_rest" if "e = Established"
    by (rule returns_mono [OF established_spec]) (use assms that in simp_all)
  moreover have "returns (conn_step env e s) at_rest" if "e \<noteq> Established" "e \<noteq> Destroyed"
    by (rule returns_mono [OF conn_step_phase [OF assms that]]) (simp add: rest_rel_def)
  ultimately show ?thesis by (cases e) simp_all
qed

lemma created_at_rest:
  assumes "Buffer_new kInitialSize = Inr b"
  shows "at_rest (TcpConnection_new fd b b ctx wc hwm)"
proof -
  have "buffer_ok b" "readable b = []" using Buffer_new_spec [of kInitialSize] assms by simp_all
  then show ?thesis
    by (simp add: at_rest_def conn_defs TcpConnection_new_def Channel_new_def setReadCallback_def setWriteCallback_def
        setCloseCallback_def setErrorCallback_def)
qed

lemma reachable_at_rest: "conn_reachable env s \<Longrightarrow> at_rest s"
proof (induction rule: conn_reachable.induct)
  case (happens s e s')
  then show ?case using conn_step_spec [OF happens.IH happens.hyps(2)] by simp
qed (rule created_at_rest)

end

section \<open>Default callbacks\<close>

text \<open>The environment of a connection whose user set no callbacks, over given system calls.\<close>

definition default_env :: "(nat \<Rightarrow> nat \<Rightarrow> int + nat) \<Rightarrow> (nat \<Rightarrow> nat list \<Rightarrow> int + char list) \<Rightarrow> 'c conn_env" where
  "default_env wr rd = \<lparr>ce_write = (\<lambda>k n. case wr k n of Inl e \<Rightarrow> Inl e | Inr m \<Rightarrow> Inr (min m n)),
     ce_readv = (\<lambda>k lens. case rd k lens of Inl e \<Rightarrow> Inl e | Inr d \<Rightarrow> Inr (take (sum_list lens) d)),
     ce_connection = defaultConnectionCallback, ce_message = defaultMessageCallback,
     ce_close = Inr, ce_writeComplete = Inr, ce_highWater = (\<lambda>_. Inr)\<rparr>"

interpretation dflt: conn_callbacks "default_env wr rd"
proof unfold_locales
  fix t and s :: "'c tcpconn"
  assume "conn_inv s"
  then show "returns (ce_message (default_env wr rd) t s) (user_rel s)"
    by (simp add: default_env_def defaultMessageCallback_def user_rel_def conn_inv_def conn_shape_def conn_stream_def)
qed (auto simp: default_env_def defaultConnectionCallback_def user_rel_refl split: sum.splits)

section \<open>What servers ask of a connection\<close>

text \<open>The actions a server's message callback asks for are carried out with the connection's own operations.\<close>

fun conn_op_of :: "conn_action \<Rightarrow> conn_op" where
  "conn_op_of (Send message) = OpSend message"
| "conn_op_of Shutdown = OpShutdown"
| "conn_op_of ForceClose = OpForceClose"

lemma user_rel_context:
  assumes "conn_inv s" and "buffer_ok b"
  shows "user_rel s (s\<lparr>cn_input := b, cn_context := x\<rparr>)" "user_rel s (s\<lparr>cn_context := x\<rparr>)"
  using assms by (simp_all add: user_rel_def conn_inv_def conn_shape_def conn_stream_def)

lemma actions_user:
  assumes "conn_callbacks sys" and "conn_inv s"
  shows "returns (fold_r (\<lambda>a. do_conn_op sys (conn_op_of a)) acts s) (user_rel s)"
proof -
  have step: "returns (do_conn_op sys (conn_op_of a) s') (user_rel s)" if "user_rel s s'" for a s'
  proof -
    have "conn_inv s'" using that by (simp add: user_rel_def)
    moreover have "op_may (conn_op_of a) s'" by (cases a) simp_all
    ultimately have "returns (do_conn_op sys (conn_op_of a) s') (user_rel s')"
      by (rule conn_callbacks.do_conn_op_user [OF assms(1)])
    then show ?thesis by (rule returns_mono) (rule user_rel_trans [OF that])
  qed
  show ?thesis by (rule fold_r_invariant [of "user_rel s"]) (rule user_rel_refl [OF assms(2)], rule step)
qed

section \<open>Properties\<close>


text \<open>A socket that takes two bytes and then is full; the peer has closed its side.\<close>

definition slow_socket :: "unit conn_env" where
  "slow_socket = default_env (\<lambda>k n. if k = 0 then Inr 2 else Inl EWOULDBLOCK) (\<lambda>k lens. Inr [])"

lemma slow_socket_simps [simp]:
  "ce_connection slow_socket = Inr" "ce_close slow_socket = Inr"
  "ce_write slow_socket 0 (Suc (Suc n)) = Inr 2" "ce_readv slow_socket k lens = Inr []"
  by (simp_all add: slow_socket_def default_env_def defaultConnectionCallback_def fun_eq_iff)

definition fresh_buffer :: buffer where
  "fresh_buffer = \<lparr>storage = replicate (kCheapPrepend + kInitialSize) (CHR 0x00),
     readerIndex = kCheapPrepend, writerIndex = kCheapPrepend\<rparr>"

lemma fresh_buffer_new: "Buffer_new kInitialSize = Inr fresh_buffer"
  by (simp add: Buffer_new_def fresh_buffer_def buffer_measures)

lemma fresh_buffer_facts [simp]: "buffer_ok fresh_buffer" "readable fresh_buffer = []" "readableBytes fresh_buffer = 0"
  by (simp_all add: fresh_buffer_def buffer_ok_def readable_def readableBytes_def)

definition fresh_conn :: "unit tcpconn" where
  "fresh_conn = TcpConnection_new 5 fresh_buffer fresh_buffer () False False"

lemma fresh_conn_reachable: "conn_reachable slow_socket fresh_conn"
  unfolding fresh_conn_def by (rule conn_reachable.created) (rule fresh_buffer_new)


definition up_conn :: "unit tcpconn" where
  "up_conn = add_note NoteUp (set_events reading_on (fresh_conn\<lparr>cn_state := kConnected, cn_channel := tie 0 (cn_channel fresh_conn)\<rparr>))"

lemmas conn_evaluation = add_note_def set_events_def TcpConnection_new_def fresh_conn_def up_conn_def in_loop_thread_def
  Channel_new_def setReadCallback_def setWriteCallback_def setCloseCallback_def setErrorCallback_def tie_def

lemma up_conn_reachable: "conn_reachable slow_socket up_conn"
  by (rule conn_reachable.happens [OF fresh_conn_reachable, of Established])
    (simp_all add: connectEstablished_def conn_evaluation)

text \<open>The connection after \<^verbatim>\<open>send("hello")\<close>.\<close>

lemma sent_conn:
  obtains b where "buffer_ok b" and "readable b = ''llo''"
    and "conn_reachable slow_socket (set_events writing_on (up_conn\<lparr>cn_accepted := ''hello'', cn_wire := ''he'',
      cn_calls := 1, cn_output := b\<rparr>))"
proof -
  from buf_append_spec [of fresh_buffer "''llo''"] obtain b where
    b: "buf_append ''llo'' fresh_buffer = Inr b" "buffer_ok b" "readable b = ''llo''" by (auto elim!: returnsE)
  let ?s = "set_events writing_on (up_conn\<lparr>cn_accepted := ''hello'', cn_wire := ''he'', cn_calls := 1, cn_output := b\<rparr>)"
  have "conn_step slow_socket (UserCall True (OpSend ''hello'')) up_conn = Inr ?s"
    using b(1) by (simp add: conn_send_def sendInLoop_def write_directly_def conn_evaluation isWriting_bit kHighWaterMark_def)
  then have "conn_reachable slow_socket ?s" by (rule conn_reachable.happens [OF up_conn_reachable, rotated]) simp
  with b(2,3) show ?thesis by (rule that)
qed





text \<open>
  C18. The user hears of each connection exactly once when it comes up and exactly once
  when it goes down, and of the close at most once and last; and after \<^verbatim>\<open>connectDestroyed\<close>
  the object can be deleted, with the descriptor closed exactly once, whether the
  connection was closed gracefully or by force.
\<close>

theorem callbacks_once_and_fd_closed_once:
  assumes "conn_callbacks env" and "conn_reachable env s"
  shows "(case cn_state s of
      kConnecting \<Rightarrow> cn_log s = []
    | kConnected \<Rightarrow> cn_log s = [NoteUp]
    | kDisconnecting \<Rightarrow> cn_log s = [NoteUp]
    | kDisconnected \<Rightarrow> cn_log s = [NoteUp, NoteDown] \<or> cn_log s = [NoteUp, NoteDown, NoteClosed]) \<and>
    (conn_may Destroyed s \<longrightarrow>
       returns (bind_r (conn_step env Destroyed s) TcpConnection_delete) (\<lambda>s'. cn_closes s' = 1))"
proof -
  have rest: "conn_callbacks.at_rest s" by (rule conn_callbacks.reachable_at_rest [OF assms])
  then have inv: "conn_inv s" by (simp add: conn_callbacks.at_rest_def [OF assms(1)])
  have delete: "returns (TcpConnection_delete s') (\<lambda>s''. cn_closes s'' = 1)"
    if "conn_inv s'" "cn_state s' = kDisconnected" "\<not> ch_addedToLoop (cn_channel s')" "\<not> ch_eventHandling (cn_channel s')" for s'
    using closed_facts(3,4) [OF that(1,2)] that by (auto simp: TcpConnection_delete_def Channel_delete_def)
  have "returns (bind_r (connectDestroyed env s) TcpConnection_delete) (\<lambda>s'. cn_closes s' = 1)" if "conn_may Destroyed s"
    by (rule returns_bindI [OF conn_callbacks.destroyed_spec [OF assms(1) rest]])
      (use that delete in \<open>auto simp: conn_callbacks.at_rest_def [OF assms(1)]\<close>)
  with inv show ?thesis by (auto simp: conn_inv_def conn_shape_def split: conn_state.split)
qed

theorem callbacks_once_and_fd_closed_once_witness:
  "cn_log up_conn = [NoteUp] \<and>
   returns (bind_r (conn_step slow_socket Destroyed up_conn) TcpConnection_delete) (\<lambda>s'. cn_closes s' = 1)"
proof -
  have cb: "conn_callbacks slow_socket" unfolding slow_socket_def by (rule dflt.conn_callbacks_axioms)
  have "conn_may Destroyed up_conn" "cn_state up_conn = kConnected" by (simp_all add: conn_evaluation)
  with callbacks_once_and_fd_closed_once [OF cb up_conn_reachable] show ?thesis by simp
qed

lemma readFd_eof: "readFd (\<lambda>_. Inr []) b = Inr (Inr 0, b)"
  by (simp add: readFd_def overwrite_def)

lemma slow_readv: "ce_readv slow_socket k = (\<lambda>_. Inr [])"
  by (simp add: fun_eq_iff)

lemma mask_nonzero: "writing_on kReadEvent \<noteq> 0"
  by (simp add: writing_on_def kReadEvent_def kWriteEvent_def poll_bits)

lemmas eof_evaluation = handleEvent_def handleEventWithGuard_def callbacks_of_def conn_callback_def handleRead_def
  readFd_eof slow_readv modify_channel_def set_revents_def poll_bits isWriting_bit


text \<open>
  \<^verbatim>\<open>connectDestroyed\<close> on a connection that is being shut down fails its assertion: the
  channel is still watched. The destructor of \<^verbatim>\<open>TcpServer\<close> calls it on whatever connections
  there are.
\<close>

theorem destroy_while_disconnecting_asserts:
  "\<exists>s. conn_reachable slow_socket s \<and> cn_state s = kDisconnecting \<and>
     connectDestroyed slow_socket s = Inl (AssertFail ''isNoneEvent()'')"
proof -
  let ?s = "shutdownWrite (up_conn\<lparr>cn_closeFlag := True, cn_state := kDisconnecting\<rparr>)"
  have step: "conn_step slow_socket (UserCall True OpShutdown) up_conn = Inr ?s"
    by (simp add: conn_shutdown.simps shutdownInLoop.simps conn_evaluation isWriting_bit shutdownWrite_def Let_def)
  have "conn_reachable slow_socket ?s" by (rule conn_reachable.happens [OF up_conn_reachable _ step]) simp
  moreover have "kReadEvent \<noteq> 0" by (simp add: kReadEvent_def poll_bits)
  ultimately show ?thesis
    by (intro exI [of _ ?s])
      (simp add: connectDestroyed_def conn_evaluation shutdownWrite_def isNoneEvent_def kNoneEvent_def)
qed

end
