(* ===== verification/HttpConnections.thy ===== *)
theory HttpConnections
  imports HttpServe TcpConnections
begin

text \<open>
  The HTTP server on a connection (\<^verbatim>\<open>netLayer/http/HttpServer.cpp\<close> with \<^verbatim>\<open>netLayer/tcp/TcpConnection.cpp\<close>): \<open>HttpServe\<close> and
  \<open>TcpConnections\<close> composed. The context of the connection is the parser; \<^verbatim>\<open>onConnection\<close> and \<^verbatim>\<open>onMessage\<close> are the callbacks
  of the connection, and what \<^verbatim>\<open>onMessage\<close> asks for is done with the connection's own operations.

  The properties: as long as no request line was malformed, everything that can happen is handled, the requests
  that were answered are those the received bytes consist of, however they were cut, and what the
  socket took and what waits to be sent are the answers, in the order of the requests, up to the first one that
  closes the connection. After a malformed line a peer can make the process abort.
\<close>

section \<open>Callbacks of the server\<close>

text \<open>The context of the connection, with the history of what the server has done.\<close>

record http_session =
  hx_context :: "http_context option"
  hx_bad :: bool                         \<comment> \<open>history: a request line was malformed\<close>
  hx_requests :: "http_request list"     \<comment> \<open>history: requests given to \<^verbatim>\<open>onRequest\<close>\<close>
  hx_taken :: string                     \<comment> \<open>history: bytes taken out of the input buffer\<close>

definition session_new :: http_session where
  "session_new = \<lparr>hx_context = None, hx_bad = False, hx_requests = [], hx_taken = []\<rparr>"

text \<open>What a message adds to the history.\<close>

definition session_note :: "timestamp \<Rightarrow> buffer \<Rightarrow> http_session \<Rightarrow> http_session" where
  "session_note t buf x =
     (case hx_context x of
        None \<Rightarrow> x
      | Some c \<Rightarrow>
          (case parseRequest t buf c of
             Inl _ \<Rightarrow> x
           | Inr (ok, c', buf') \<Rightarrow>
               x\<lparr>hx_bad := hx_bad x \<or> \<not> ok,
                 hx_requests := hx_requests x @ (if gotAll c' then [hc_request c'] else []),
                 hx_taken := hx_taken x @ take (readableBytes buf - readableBytes buf') (readable buf)\<rparr>))"

definition http_conn_onConnection :: "http_session tcpconn \<Rightarrow> http_session tcpconn res" where
  "http_conn_onConnection s =
     Inr (s\<lparr>cn_context := (cn_context s)\<lparr>hx_context :=
       http_onConnection (cn_state s = kConnected) (hx_context (cn_context s))\<rparr>\<rparr>)"

definition http_conn_onMessage :: "http_session conn_env \<Rightarrow> http_callback \<Rightarrow> timestamp \<Rightarrow> http_session tcpconn \<Rightarrow>
    http_session tcpconn res" where
  "http_conn_onMessage sys cb t s =
     bind_r (http_onMessage cb t (cn_input s) (hx_context (cn_context s))) (\<lambda>(acts, buf, ctx).
       fold_r (\<lambda>a. do_conn_op sys (conn_op_of a)) acts
         (s\<lparr>cn_input := buf, cn_context := (session_note t (cn_input s) (cn_context s))\<lparr>hx_context := ctx\<rparr>\<rparr>))"

text \<open>
  The environment of a connection of the server, over the system calls \<open>wr\<close> and \<open>rd\<close>. \<^verbatim>\<open>onConnection\<close> does nothing for a connection that is
  not up, so the operations that \<^verbatim>\<open>onMessage\<close> calls, of which only \<^verbatim>\<open>shutdown\<close> can come back to it, meet the empty callback.
\<close>

definition http_env :: "(nat \<Rightarrow> nat \<Rightarrow> int + nat) \<Rightarrow> (nat \<Rightarrow> nat list \<Rightarrow> int + char list) \<Rightarrow> http_callback \<Rightarrow> http_session conn_env" where
  "http_env wr rd cb = (default_env wr rd)\<lparr>ce_connection := http_conn_onConnection,
     ce_message := http_conn_onMessage (default_env wr rd) cb\<rparr>"

text \<open>The connection belongs to the server: other users do not call it.\<close>

inductive http_reachable :: "(nat \<Rightarrow> nat \<Rightarrow> int + nat) \<Rightarrow> (nat \<Rightarrow> nat list \<Rightarrow> int + char list) \<Rightarrow> http_callback \<Rightarrow>
    http_session tcpconn \<Rightarrow> bool" for wr rd cb where
  http_created: "Buffer_new kInitialSize = Inr b \<Longrightarrow> http_reachable wr rd cb (TcpConnection_new fd b b session_new wc hwm)"
| http_happens: "http_reachable wr rd cb s \<Longrightarrow> conn_may e s \<Longrightarrow> (\<And>inl p. e \<noteq> UserCall inl p) \<Longrightarrow>
    conn_step (http_env wr rd cb) e s = Inr s' \<Longrightarrow> http_reachable wr rd cb s'"

section \<open>The requests in a stream of bytes\<close>

text \<open>Requests without the time they were received at, which depends on how the bytes were cut.\<close>

definition timeless :: "http_context \<Rightarrow> http_context" where
  "timeless c = c\<lparr>hc_request := setReceiveTime 0 (hc_request c)\<rparr>"

text \<open>The text of exactly one request, and the beginning of one.\<close>

definition request_text :: "string \<Rightarrow> http_request \<Rightarrow> bool" where
  "request_text txt req \<longleftrightarrow>
     (\<exists>c. parse_bytes 0 HttpContext_new txt = Inr (True, c, []) \<and> gotAll c \<and> hc_request c = setReceiveTime 0 req)"

definition request_part :: "string \<Rightarrow> http_context \<Rightarrow> bool" where
  "request_part part c \<longleftrightarrow> context_ready c \<and> parse_bytes 0 HttpContext_new part = Inr (True, timeless c, [])"

lemma timeless_simps [simp]:
  "hc_state (timeless c) = hc_state c" "gotAll (timeless c) = gotAll c" "context_ready (timeless c) = context_ready c"
  "hc_request (timeless c) = setReceiveTime 0 (hc_request c)" "timeless HttpContext_new = HttpContext_new"
  by (simp_all add: timeless_def gotAll_def context_ready_def setReceiveTime_def HttpContext_new_def HttpRequest_new_def)

lemma line_parts_timeless:
  "setMethod m (setReceiveTime 0 r) = bind_r (setMethod m r) (\<lambda>(ok, r'). Inr (ok, setReceiveTime 0 r'))"
  "set_protocol tail (setReceiveTime 0 r) = (fst (set_protocol tail r), setReceiveTime 0 (snd (set_protocol tail r)))"
  "set_target tgt (setReceiveTime 0 r) = setReceiveTime 0 (set_target tgt r)"
  by (simp_all add: setMethod_def ensure_def Let_def setReceiveTime_def)
    (simp_all add: set_protocol_def setVersion_def set_target_def setPath_def setQuery_def Let_def)

lemma processRequestLine_timeless:
  "processRequestLine l (setReceiveTime 0 r) = bind_r (processRequestLine l r) (\<lambda>(ok, r'). Inr (ok, setReceiveTime 0 r'))"
  unfolding processRequestLine_def Let_def line_parts_timeless
  by (cases "setMethod (take (std_find (CHR '' '') l) l) r") (simp_all add: line_parts_timeless split_beta)

lemma parse_bytes_timeless:
  "parse_bytes 0 (timeless c) bs = bind_r (parse_bytes t c bs) (\<lambda>(ok, c', rest). Inr (ok, timeless c', rest))"
proof (induction t c bs rule: parse_bytes.induct)
  case (1 t c bs)
  note unf = parse_bytes.simps [of t c] parse_bytes.simps [of 0 "timeless c"]
  show ?case
  proof (cases "cut_line bs")
    case None
    then show ?thesis by (cases "hc_state c") (simp_all add: unf)
  next
    case (Some lr)
    then obtain l rest where cut: "cut_line bs = Some (l, rest)" by (cases lr) auto
    show ?thesis
    proof (cases "hc_state c")
      case kExpectRequestLine
      show ?thesis
      proof (cases "processRequestLine l (hc_request c)")
        case (Inl e)
        with kExpectRequestLine cut show ?thesis by (simp add: unf processRequestLine_timeless)
      next
        case (Inr okr)
        obtain ok r where okr: "okr = (ok, r)" by (cases okr)
        have "timeless c\<lparr>hc_request := setReceiveTime 0 (setReceiveTime 0 r), hc_state := kExpectHeaders\<rparr> =
            timeless (c\<lparr>hc_request := setReceiveTime t r, hc_state := kExpectHeaders\<rparr>)"
          by (cases c) (simp add: timeless_def setReceiveTime_def)
        moreover have "timeless c\<lparr>hc_request := setReceiveTime 0 r\<rparr> = timeless (c\<lparr>hc_request := r\<rparr>)" by (simp add: timeless_def)
        ultimately show ?thesis
          using 1(1) [OF kExpectRequestLine cut refl Inr okr [symmetric]] kExpectRequestLine cut Inr okr
          by (simp add: unf processRequestLine_timeless)
      qed
    next
      case kExpectHeaders
      have "timeless c\<lparr>hc_request := addHeader l k (hc_request (timeless c))\<rparr> = timeless (c\<lparr>hc_request := addHeader l k (hc_request c)\<rparr>)" for k
        by (simp add: timeless_def addHeader_def setReceiveTime_def Let_def)
      moreover have "timeless c\<lparr>hc_state := kGotAll\<rparr> = timeless (c\<lparr>hc_state := kGotAll\<rparr>)" by (simp add: timeless_def)
      ultimately show ?thesis using 1(2) [OF kExpectHeaders cut refl] kExpectHeaders cut by (simp add: unf)
    qed (simp_all add: unf)
  qed
qed

text \<open>The part of the bytes that was used is parsed alone to the same result.\<close>

lemma cut_line_alone:
  assumes "cut_line bs = Some (l, rest)"
  shows "bs = l @ kCRLF @ rest" and "cut_line (l @ kCRLF @ xs) = Some (l, xs)"
proof -
  from assms obtain n where n: "std_search kCRLF bs = n" "n < length bs" "n + 2 \<le> length bs" "l = take n bs" "rest = drop (n + 2) bs"
    by (rule cut_lineE)
  have "take 2 (drop n bs) = kCRLF" using std_search_match [of kCRLF bs] n by (simp add: kCRLF_def numeral_2_eq_2)
  then show bs: "bs = l @ kCRLF @ rest"
    using n append_take_drop_id [of 2 "drop n bs"] append_take_drop_id [of n bs] by (simp add: add.commute)
  have first: "take (length kCRLF) (drop i (l @ kCRLF)) \<noteq> kCRLF" if "i < n" for i
  proof -
    have "length l = n" using n by simp
    then have "take (n + 2) bs = l @ kCRLF" by (subst bs) (simp add: kCRLF_def)
    moreover have "take 2 (drop i (take (n + 2) bs)) = take 2 (drop i bs)" using that by (simp add: drop_take min_def)
    moreover have "length kCRLF = 2" by (simp add: kCRLF_def)
    ultimately have "take (length kCRLF) (drop i (l @ kCRLF)) = take (length kCRLF) (drop i bs)" by simp
    then show ?thesis using std_search_first [of i kCRLF bs] n(1) that by simp
  qed
  have "kCRLF \<noteq> []" by (simp add: kCRLF_def)
  have "length l = n" using n by simp
  then have "std_search kCRLF (l @ kCRLF) = n"
    using first \<open>kCRLF \<noteq> []\<close> by (intro std_search_eqI) auto
  then have "cut_line (l @ kCRLF) = Some (l, [])" using \<open>length l = n\<close> by (simp add: cut_line_def kCRLF_def)
  from cut_line_append [OF this, of xs] show "cut_line (l @ kCRLF @ xs) = Some (l, xs)" by simp
qed

lemma cut_line_Nil: "cut_line [] = None"
  by (simp add: cut_line_def kCRLF_def)

lemma parse_bytes_used:
  "context_ready c \<Longrightarrow> parse_bytes t c bs = Inr (True, c', rest) \<Longrightarrow> \<exists>used. bs = used @ rest \<and> parse_bytes t c used = Inr (True, c', [])"
proof (induction t c bs rule: parse_bytes.induct)
  case (1 t c bs)
  note unf = parse_bytes.simps [of t c]
  show ?case
  proof (cases "cut_line bs")
    case None
    with cut_line_Nil have "parse_bytes t c [] = Inr (True, c, [])" "c' = c" "rest = bs"
      using 1(3,4) by (auto simp: unf context_ready_def)
    then show ?thesis by simp
  next
    case (Some lr)
    then obtain l rest' where cut: "cut_line bs = Some (l, rest')" by (cases lr) auto
    note alone = cut_line_alone [OF cut]
    have whole: ?thesis if "\<exists>used. rest' = used @ rest \<and> parse_bytes t c (l @ kCRLF @ used) = Inr (True, c', [])"
      using that alone(1) by (metis append.assoc)
    from 1(3) consider (line) "hc_state c = kExpectRequestLine" | (headers) "hc_state c = kExpectHeaders" by (auto simp: context_ready_def)
    then show ?thesis
    proof cases
      case line
      then obtain r where r: "processRequestLine l (hc_request c) = Inr (True, r)"
        using 1(4) cut by (auto simp: unf bind_r_eq_Inr split: if_splits)
      let ?c = "c\<lparr>hc_request := setReceiveTime t r, hc_state := kExpectHeaders\<rparr>"
      have "parse_bytes t ?c rest' = Inr (True, c', rest)" using 1(4) line cut r by (simp add: unf)
      from 1(1) [OF line cut refl r refl _ _ this] obtain used where "rest' = used @ rest" "parse_bytes t ?c used = Inr (True, c', [])"
        by (auto simp: context_ready_def)
      then show ?thesis using line r alone(2) by (intro whole exI [of _ used]) (simp add: unf)
    next
      case headers
      show ?thesis
      proof (cases "CHR '':'' \<in> set l")
        case True
        let ?c = "c\<lparr>hc_request := addHeader l (std_find (CHR '':'') l) (hc_request c)\<rparr>"
        have "parse_bytes t ?c rest' = Inr (True, c', rest)" using 1(4) headers cut True by (simp add: unf)
        from 1(2) [OF headers cut refl True _ this] obtain used where "rest' = used @ rest" "parse_bytes t ?c used = Inr (True, c', [])"
          using headers by (auto simp: context_ready_def)
        then show ?thesis using headers True alone(2) by (intro whole exI [of _ used]) (simp add: unf)
      next
        case False
        then show ?thesis using 1(4) headers cut alone(2) [of "[]"] by (intro whole) (simp add: unf)
      qed
    qed
  qed
qed

lemma request_part_new: "request_part [] HttpContext_new"
  using cut_line_Nil
  by (simp add: request_part_def context_ready_def parse_bytes.simps HttpContext_new_def HttpRequest_new_def timeless_def setReceiveTime_def)

text \<open>A message takes the bytes of the rest of a request, or of a further part of it.\<close>

lemma message_bytes:
  assumes "request_part part c" and "parse_bytes t c bs = Inr (True, c', rest)"
  shows "\<exists>used. bs = used @ rest \<and> (if gotAll c' then request_text (part @ used) (hc_request c') else request_part (part @ used) c')"
proof -
  have ready: "context_ready c" and part: "parse_bytes 0 HttpContext_new part = Inr (True, timeless c, [])"
    using assms(1) by (simp_all add: request_part_def)
  from parse_bytes_used [OF ready assms(2)] obtain used where used: "bs = used @ rest" "parse_bytes t c used = Inr (True, c', [])" by blast
  have "\<not> gotAll c" using ready by (auto simp: context_ready_def gotAll_def)
  then have "parse_bytes 0 HttpContext_new (part @ used) = parse_bytes 0 (timeless c) used"
    by (subst parse_bytes_append) (simp add: part parse_resume_def)
  also have "\<dots> = Inr (True, timeless c', [])" using used(2) by (simp add: parse_bytes_timeless [of c used t])
  finally have whole: "parse_bytes 0 HttpContext_new (part @ used) = Inr (True, timeless c', [])" .
  have "gotAll c' \<or> context_ready c'" using parse_bytes_total [OF ready, of t bs] assms(2) by auto
  then show ?thesis using used(1) whole by (auto simp: request_text_def request_part_def)
qed

section \<open>What events leave alone\<close>

text \<open>Nothing is sent, the context stays and the connection does not come up; no bytes are queued by others.\<close>

definition calm :: "'c tcpconn \<Rightarrow> bool" where
  "calm s \<longleftrightarrow> (\<forall>m. SendInLoop m \<notin> set (cn_queued s))"

definition quiet :: "'c tcpconn \<Rightarrow> 'c tcpconn \<Rightarrow> bool" where
  "quiet s s' \<longleftrightarrow> cn_context s' = cn_context s \<and> cn_accepted s' = cn_accepted s \<and> (calm s \<longrightarrow> calm s') \<and>
     (cn_state s' \<in> {kConnected, kConnecting} \<longrightarrow> cn_state s = cn_state s') \<and> (buffer_ok (cn_input s) \<longrightarrow> buffer_ok (cn_input s')) \<and>
     cn_inLoop s' = cn_inLoop s"

lemma quiet_refl: "quiet s s"
  by (simp add: quiet_def)

lemma quiet_trans: "quiet s s1 \<Longrightarrow> quiet s1 s2 \<Longrightarrow> quiet s s2"
  by (simp add: quiet_def)

definition quiet_env :: "'c conn_env \<Rightarrow> bool" where
  "quiet_env env \<longleftrightarrow> (\<forall>s s'. cn_state s = kDisconnected \<longrightarrow> ce_connection env s = Inr s' \<longrightarrow> quiet s s') \<and>
     (\<forall>s s'. ce_close env s = Inr s' \<longrightarrow> quiet s s') \<and> (\<forall>s s'. ce_writeComplete env s = Inr s' \<longrightarrow> quiet s s') \<and>
     (\<forall>n s s'. ce_highWater env n s = Inr s' \<longrightarrow> quiet s s')"

lemma http_env_quiet: "quiet_env (http_env wr rd cb)" and default_env_quiet: "quiet_env (default_env wr rd)"
  by (auto simp: quiet_env_def http_env_def default_env_def http_conn_onConnection_def http_onConnection_def defaultConnectionCallback_def quiet_refl)

lemma handleClose_quiet:
  assumes "quiet_env env"
  shows "handleClose env s = Inr s' \<Longrightarrow> quiet s s'" and "conn_shutdown env s = Inr s' \<Longrightarrow> quiet s s'" and "shutdownInLoop env s = Inr s' \<Longrightarrow> quiet s s'"
  using assms
proof (induction env s and env s and env s arbitrary: s' and s' and s' rule: handleClose_conn_shutdown_shutdownInLoop.induct)
  case (1 env s)
  show ?case
  proof (cases "cn_closeFlag s")
    case True
    let ?s = "add_note NoteDown (disableAll (s\<lparr>cn_state := kDisconnected\<rparr>))"
    from 1(2) True obtain s1 where s1: "ce_connection env ?s = Inr s1" "ce_close env (add_note NoteClosed s1) = Inr s'"
      by (auto simp: handleClose.simps [of env s] in_loop_thread_def ensure_eq_Inr bind_r_eq_Inr split: if_splits)
    have "quiet s ?s" by (simp add: quiet_def calm_def add_note_def disableAll_def set_events_def)
    moreover have "quiet ?s s1" using 1(3) s1(1) by (simp add: quiet_env_def add_note_def disableAll_def)
    moreover have "quiet s1 (add_note NoteClosed s1)" by (simp add: quiet_def calm_def add_note_def)
    moreover have "quiet (add_note NoteClosed s1) s'" using 1(3) s1(2) by (simp add: quiet_env_def)
    ultimately show ?thesis by (metis quiet_trans)
  next
    case False
    then have alive: "cn_state s = kConnected \<or> cn_state s = kDisconnecting"
      and shut: "conn_shutdown env (s\<lparr>cn_dissByPeer := True\<rparr>) = Inr s'"
      using 1(2) by (auto simp: handleClose.simps [of env s] in_loop_thread_def ensure_eq_Inr split: if_splits)
    from 1(1) [OF False shut 1(3)] show ?thesis by (simp add: quiet_def calm_def)
  qed
next
  case (2 env s)
  let ?s = "s\<lparr>cn_closeFlag := True, cn_state := kDisconnecting\<rparr>"
  have q: "quiet s ?s" "quiet s (queue_functor ShutdownInLoop ?s)" by (auto simp: quiet_def calm_def queue_functor_def)
  show ?case
    using 2(1) [OF _ refl, of s'] 2(2,3) q quiet_trans [OF q(1)] quiet_refl [of s]
    by (auto simp: conn_shutdown.simps [of env s] Let_def split: if_splits)
next
  case (3 env s)
  have q: "quiet s (shutdownWrite s)" by (simp add: quiet_def calm_def shutdownWrite_def)
  show ?case
    using 3(1) [OF _ refl, of s'] 3(2,3) q quiet_trans [OF q] quiet_refl [of s]
    by (auto simp: shutdownInLoop.simps [of env s] in_loop_thread_def Let_def split: if_splits)
qed

lemma forceCloseInLoop_quiet:
  assumes "quiet_env env" and "forceCloseInLoop env s = Inr s'"
  shows "quiet s s'"
proof -
  let ?s = "s\<lparr>cn_closeFlag := True, cn_forceFlag := True, cn_setSolinger := True\<rparr>"
  have "quiet s ?s" by (simp add: quiet_def calm_def)
  then show ?thesis
    using assms(2) quiet_trans [OF _ handleClose_quiet(1) [OF assms(1), of ?s s']] quiet_refl [of s]
    by (auto simp: forceCloseInLoop_def in_loop_thread_def split: if_splits)
qed

lemma handleWrite_quiet:
  assumes "quiet_env env" and "handleWrite env s = Inr s'"
  shows "quiet s s'"
proof (cases "isWriting (cn_channel s)")
  case False
  with assms(2) show ?thesis by (simp add: handleWrite_def in_loop_thread_def quiet_refl split: if_splits)
next
  case True
  let ?s = "s\<lparr>cn_calls := cn_calls s + 1\<rparr>"
  have q: "quiet s ?s" by (simp add: quiet_def calm_def)
  show ?thesis
  proof (cases "\<exists>n > 0. ce_write env (cn_calls s) (readableBytes (cn_output s)) = Inr n")
    case False
    with True assms(2) have "s' = ?s"
      by (cases "ce_write env (cn_calls s) (readableBytes (cn_output s))")
        (simp_all add: handleWrite_def in_loop_thread_def Let_def split: if_splits)
    with q show ?thesis by simp
  next
    case wrote: True
    then obtain n where n: "0 < n" "ce_write env (cn_calls s) (readableBytes (cn_output s)) = Inr n" by blast
    let ?out = "range_of (storage (cn_output s)) (peek (cn_output s)) (beginWrite (cn_output s))"
    let ?s2 = "\<lambda>b. ?s\<lparr>cn_output := b, cn_wire := cn_wire s @ take n ?out\<rparr>"
    let ?s4 = "\<lambda>b. if cn_writeCompleteCallback s then queue_functor WriteComplete (set_events writing_off (?s2 b)) else set_events writing_off (?s2 b)"
    obtain b where b: "retrieve n (cn_output s) = Inr b"
      "(if readableBytes b = 0 then if cn_state s = kDisconnecting then shutdownInLoop env (?s4 b) else Inr (?s4 b) else Inr (?s2 b)) = Inr s'"
      using True n assms(2)
      by (auto simp: handleWrite_def in_loop_thread_def bind_r_eq_Inr Let_def queue_functor_def split: if_splits)
    have q2: "quiet s (?s2 b)" "quiet s (?s4 b)" by (auto simp: quiet_def calm_def queue_functor_def set_events_def)
    from b(2) q2 quiet_trans [OF q2(2) handleClose_quiet(3) [OF assms(1), of "?s4 b" s']] show ?thesis by (auto split: if_splits)
  qed
qed

text \<open>A property that events in which nothing is received keep, and that messages keep.\<close>

locale message_invariant =
  fixes env :: "'c conn_env" and P :: "'c tcpconn \<Rightarrow> bool"
  assumes quiet: "quiet_env env"
    and reads: "ce_readv env k lens = Inr d \<Longrightarrow> length d \<le> sum_list lens"
    and keeps: "P s \<Longrightarrow> quiet s s' \<Longrightarrow> P s'"
    and message: "P s \<Longrightarrow> cn_inLoop s \<Longrightarrow> ce_message env t s = Inr s' \<Longrightarrow> P s'"
    and input: "P s \<Longrightarrow> calm s \<and> buffer_ok (cn_input s)"
begin

lemma handleRead_keeps:
  assumes "P s" and "handleRead env t s = Inr s'"
  shows "P s'"
proof -
  obtain r b where rb: "readFd (ce_readv env (cn_calls s)) (cn_input s) = Inr (r, b)" and inl: "cn_inLoop s"
    and rest: "(case r of Inr n \<Rightarrow> if n > 0 then ce_message env t (s\<lparr>cn_input := b, cn_calls := Suc (cn_calls s)\<rparr>)
        else handleClose env (s\<lparr>cn_input := b, cn_calls := Suc (cn_calls s)\<rparr>)
      | Inl e \<Rightarrow> handleError (s\<lparr>cn_input := b, cn_calls := Suc (cn_calls s)\<rparr>)) = Inr s'"
    using assms(2) by (auto simp: handleRead_def in_loop_thread_def bind_r_eq_Inr Let_def split: if_splits)
  let ?s = "s\<lparr>cn_input := b, cn_calls := Suc (cn_calls s)\<rparr>"
  have "buffer_ok b" using readFd_spec [of "cn_input s" "ce_readv env (cn_calls s)"] input [OF assms(1)] reads rb by auto
  then have "quiet s ?s" by (simp add: quiet_def calm_def)
  then have P: "P ?s" by (rule keeps [OF assms(1)])
  from rest show ?thesis
    using message [OF P] keeps [OF P handleClose_quiet(1) [OF quiet]] P inl
    by (auto simp: handleError_def split: sum.splits if_splits)
qed

lemma callback_keeps:
  assumes "P s" and "conn_callback env cb s = Inr s'"
  shows "P s'"
proof (cases cb)
  case CloseCb
  with assms(2) show ?thesis by (intro keeps [OF assms(1)] handleClose_quiet(1) [OF quiet]) (simp add: conn_callback_def)
next
  case WriteCb
  with assms(2) show ?thesis by (intro keeps [OF assms(1)] handleWrite_quiet [OF quiet]) (simp add: conn_callback_def)
qed (use assms handleRead_keeps [OF assms(1)] in \<open>auto simp: conn_callback_def handleError_def\<close>)

lemma callbacks_keep: "P s \<Longrightarrow> fold_r (conn_callback env) cbs s = Inr s' \<Longrightarrow> P s'"
  by (induction cbs arbitrary: s) (auto simp: bind_r_eq_Inr dest: callback_keeps)

lemma modify_channel_keeps: "P s \<Longrightarrow> P (modify_channel f s)"
  by (erule keeps) (simp add: modify_channel_def quiet_def calm_def)

lemma functor_keeps:
  assumes "P s" and "run_functor env f s = Inr s'" and "\<And>m. f \<noteq> SendInLoop m"
  shows "P s'"
proof (rule keeps [OF assms(1)])
  have io: "quiet s (set_events g s)" "quiet s (set_events g s\<lparr>cn_reading := r\<rparr>)" "quiet s (set_events g s\<lparr>cn_stopped := r\<rparr>)" for g r
    by (simp_all add: quiet_def calm_def set_events_def)
  show "quiet s s'"
  proof (cases f)
    case ShutdownInLoop
    with assms(2) show ?thesis by (intro handleClose_quiet(3) [OF quiet]) simp
  next
    case ForceCloseInLoop
    with assms(2) show ?thesis by (intro forceCloseInLoop_quiet [OF quiet]) simp
  next
    case WriteComplete
    with assms(2) quiet show ?thesis unfolding quiet_env_def by simp
  next
    case (HighWater n)
    with assms(2) quiet show ?thesis unfolding quiet_env_def by simp
  qed (use assms(2,3) io quiet_refl [of s] in \<open>auto simp: startReadInLoop_def stopReadInLoop_def startWriteInLoop_def stopWriteInLoop_def
      in_loop_thread_def split: if_splits\<close>)
qed

lemma step_keeps:
  assumes "P s" and "conn_step env e s = Inr s'" and "e \<noteq> Established" and "\<And>inl p. e \<noteq> UserCall inl p"
  shows "P s'"
proof (cases e)
  case (ChannelEvent revt t)
  have "P s'" if "handleEventWithGuard (conn_callback env) modify_channel t c s1 = Inr s'" and "P s1" for c s1
    using that(1) modify_channel_keeps [OF callbacks_keep [OF modify_channel_keeps [OF that(2)]]]
    by (auto simp: handleEventWithGuard_def bind_r_eq_Inr)
  with ChannelEvent assms(2) modify_channel_keeps [OF assms(1)] show ?thesis
    by (auto simp: handleEvent_def Let_def split: if_splits option.splits)
next
  case RunFunctor
  show ?thesis
  proof (cases "cn_queued s")
    case (Cons f fs)
    have calm: "calm s" using input [OF assms(1)] by simp
    then have "quiet s (s\<lparr>cn_queued := fs\<rparr>)" using Cons by (simp add: quiet_def calm_def)
    from functor_keeps [OF keeps [OF assms(1) this]] assms(2) RunFunctor Cons calm show ?thesis by (auto simp: calm_def)
  qed (use assms(1,2) RunFunctor in simp)
next
  case DelayOver
  have "quiet s (forceClose (s\<lparr>cn_delayed := cn_delayed s - 1\<rparr>))" by (auto simp: quiet_def calm_def forceClose_def queue_functor_def)
  with assms(1,2) DelayOver keeps show ?thesis by auto
next
  case Destroyed
  let ?s = "add_note NoteDown (disableAll (s\<lparr>cn_state := kDisconnected\<rparr>))"
  have q: "quiet s ?s" by (simp add: quiet_def calm_def add_note_def disableAll_def set_events_def)
  have down: "ce_connection env ?s = Inr s1 \<Longrightarrow> quiet ?s s1" for s1
    using quiet by (simp add: quiet_env_def add_note_def disableAll_def)
  from Destroyed assms(2) have "bind_r (if cn_state s = kConnected then ce_connection env ?s else Inr s)
      (\<lambda>s1. ensure (isNoneEvent (cn_channel s1)) ''isNoneEvent()''
        (let s2 = s1\<lparr>cn_channel := (cn_channel s1)\<lparr>ch_addedToLoop := False\<rparr>\<rparr>
         in Inr (if cn_forceFlag s2 then s2\<lparr>cn_closes := cn_closes s2 + 1\<rparr> else s2))) = Inr s'"
    by (simp add: connectDestroyed_def in_loop_thread_def split: if_splits)
  then obtain s1 where s1: "(if cn_state s = kConnected then ce_connection env ?s else Inr s) = Inr s1"
    and s': "s' = (let s2 = s1\<lparr>cn_channel := (cn_channel s1)\<lparr>ch_addedToLoop := False\<rparr>\<rparr>
      in if cn_forceFlag s2 then s2\<lparr>cn_closes := cn_closes s2 + 1\<rparr> else s2)"
    unfolding bind_r_eq_Inr ensure_eq_Inr Let_def by blast
  have "quiet s s1" using s1 q down quiet_trans quiet_refl by (metis sum.inject(2))
  moreover have "quiet s1 s'" by (simp add: s' quiet_def calm_def Let_def)
  ultimately show ?thesis by (rule keeps [OF assms(1) quiet_trans])
qed (use assms(3,4) in auto)

end

section \<open>What messages do\<close>

definition answer :: "http_callback \<Rightarrow> http_request \<Rightarrow> http_response" where
  "answer cb req = cb req (HttpResponse_new (wants_close req))"

text \<open>The strings of every answer fit a \<^verbatim>\<open>StringPiece\<close>.\<close>

definition handler_fits :: "http_callback \<Rightarrow> bool" where
  "handler_fits cb \<longleftrightarrow> (\<forall>req close. response_fits (cb req (HttpResponse_new close)))"

text \<open>
  The bytes taken are the texts of the requests and the beginning of another one; the bytes accepted for sending are the answers to the
  first \<open>n\<close> of them, to all while the connection is up, and only the last of these may close it.
\<close>

definition session_ok :: "http_callback \<Rightarrow> http_session \<Rightarrow> conn_state \<Rightarrow> string \<Rightarrow> bool" where
  "session_ok cb x st accepted \<longleftrightarrow>
     (\<exists>txts part. hx_taken x = concat txts @ part \<and> list_all2 request_text txts (hx_requests x) \<and>
        (\<exists>c. hx_context x = Some c \<and> request_part part c)) \<and>
     (\<exists>n \<le> length (hx_requests x). accepted = concat (map (response_text \<circ> answer cb) (take n (hx_requests x))) \<and>
        (\<forall>i. Suc i < n \<longrightarrow> \<not> rs_closeConnection (answer cb (hx_requests x ! i))) \<and>
        (st = kConnected \<longrightarrow> n = length (hx_requests x) \<and> (\<forall>r \<in> set (hx_requests x). \<not> rs_closeConnection (answer cb r))))"

lemma session_down: "session_ok cb x st acc \<Longrightarrow> (st' = kConnected \<Longrightarrow> st = kConnected) \<Longrightarrow> session_ok cb x st' acc"
  unfolding session_ok_def by blast

definition session_inv :: "http_callback \<Rightarrow> http_session tcpconn \<Rightarrow> bool" where
  "session_inv cb s \<longleftrightarrow> calm s \<and> buffer_ok (cn_input s) \<and> cn_state s \<noteq> kConnecting \<and>
     (hx_bad (cn_context s) \<or> session_ok cb (cn_context s) (cn_state s) (cn_accepted s))"

lemma conn_send_result:
  assumes "conn_send env m s = Inr s'" and "cn_inLoop s"
  shows "cn_context s' = cn_context s \<and> cn_state s' = cn_state s \<and> (calm s \<longrightarrow> calm s') \<and> cn_input s' = cn_input s \<and> cn_inLoop s' \<and>
    cn_accepted s' = (if cn_state s = kConnected then cn_accepted s @ m else cn_accepted s)"
  using assms
  by (auto simp: conn_send_def sendInLoop_def in_loop_thread_def write_directly_def bind_r_eq_Inr ensure_eq_Inr queue_functor_def calm_def
      set_events_def Let_def split: if_splits sum.splits)

lemma session_answered:
  assumes "session_ok cb x st acc" and "hx_context x = Some c" and "\<And>part. request_part part c \<Longrightarrow> request_text (part @ used) req"
  defines "x' \<equiv> x\<lparr>hx_context := Some HttpContext_new, hx_requests := hx_requests x @ [req], hx_taken := hx_taken x @ used\<rparr>"
  shows "st \<noteq> kConnected \<Longrightarrow> session_ok cb x' st acc"
    and "st = kConnected \<Longrightarrow> \<not> rs_closeConnection (answer cb req) \<Longrightarrow> session_ok cb x' st (acc @ response_text (answer cb req))"
    and "st = kConnected \<Longrightarrow> st' \<noteq> kConnected \<Longrightarrow> session_ok cb x' st' (acc @ response_text (answer cb req))"
proof -
  let ?rs = "hx_requests x"
  from assms(1,2) obtain txts part where t: "hx_taken x = concat txts @ part" "list_all2 request_text txts ?rs" "request_part part c"
    by (auto simp: session_ok_def)
  have "list_all2 request_text (txts @ [part @ used]) (?rs @ [req])" using t(2) assms(3) [OF t(3)] by (simp add: list_all2_appendI)
  with request_part_new have taken: "\<exists>txts part. hx_taken x' = concat txts @ part \<and> list_all2 request_text txts (hx_requests x') \<and>
      (\<exists>c. hx_context x' = Some c \<and> request_part part c)"
    using t(1) by (intro exI [of _ "txts @ [part @ used]"] exI [of _ "[]"]) (simp add: x'_def)
  from assms(1) obtain n where n: "n \<le> length ?rs" "acc = concat (map (response_text \<circ> answer cb) (take n ?rs))"
    "\<forall>i. Suc i < n \<longrightarrow> \<not> rs_closeConnection (answer cb (?rs ! i))"
    "st = kConnected \<longrightarrow> n = length ?rs \<and> (\<forall>r \<in> set ?rs. \<not> rs_closeConnection (answer cb r))"
    by (auto simp: session_ok_def)
  show "st \<noteq> kConnected \<Longrightarrow> session_ok cb x' st acc"
    unfolding session_ok_def using n by (intro conjI taken exI [of _ n]) (simp_all add: x'_def nth_append)
  have all: "st = kConnected \<Longrightarrow> acc @ response_text (answer cb req) = concat (map (response_text \<circ> answer cb) (take (Suc n) (?rs @ [req])))"
    "st = kConnected \<Longrightarrow> Suc n = length (?rs @ [req])" "st = kConnected \<Longrightarrow> \<forall>i. Suc i < Suc n \<longrightarrow> \<not> rs_closeConnection (answer cb ((?rs @ [req]) ! i))"
    using n by (simp_all add: nth_append)
  show "st = kConnected \<Longrightarrow> \<not> rs_closeConnection (answer cb req) \<Longrightarrow> session_ok cb x' st (acc @ response_text (answer cb req))"
    unfolding session_ok_def using n all by (intro conjI taken exI [of _ "Suc n"]) (simp_all add: x'_def)
  show "st = kConnected \<Longrightarrow> st' \<noteq> kConnected \<Longrightarrow> session_ok cb x' st' (acc @ response_text (answer cb req))"
    unfolding session_ok_def using n all by (intro conjI taken exI [of _ "Suc n"]) (simp_all add: x'_def)
qed

lemma shutdown_not_connected:
  assumes "quiet_env env" and "conn_shutdown env s = Inr s'"
  shows "cn_state s' \<noteq> kConnected"
proof (cases "cn_state s = kConnected")
  case True
  let ?s = "s\<lparr>cn_closeFlag := True, cn_state := kDisconnecting\<rparr>"
  from assms(2) True have "s' = queue_functor ShutdownInLoop ?s \<or> shutdownInLoop env ?s = Inr s'"
    by (auto simp: conn_shutdown.simps Let_def split: if_splits)
  then show ?thesis using handleClose_quiet(3) [OF assms(1), of ?s s'] by (auto simp: quiet_def queue_functor_def)
qed (use assms(2) in \<open>simp add: conn_shutdown.simps\<close>)

text \<open>Actions on the connection leave its context and its input alone.\<close>

lemma action_frame:
  assumes "do_conn_op (default_env wr rd) (conn_op_of a) s = Inr s'" and "cn_inLoop s"
  shows "cn_context s' = cn_context s \<and> (calm s \<longrightarrow> calm s') \<and> (buffer_ok (cn_input s) \<longrightarrow> buffer_ok (cn_input s')) \<and> cn_inLoop s' \<and>
    (cn_state s' = kConnecting \<longrightarrow> cn_state s = kConnecting)"
proof (cases a)
  case (Send m)
  with assms conn_send_result [of "default_env wr rd" m s s'] show ?thesis by simp
next
  case Shutdown
  with assms handleClose_quiet(2) [OF default_env_quiet, of wr rd s s'] show ?thesis by (simp add: quiet_def)
next
  case ForceClose
  with assms show ?thesis by (auto simp: forceClose_def queue_functor_def calm_def split: if_splits)
qed

lemma actions_frame:
  "fold_r (\<lambda>a. do_conn_op (default_env wr rd) (conn_op_of a)) acts s = Inr s' \<Longrightarrow> cn_inLoop s \<Longrightarrow>
     cn_context s' = cn_context s \<and> (calm s \<longrightarrow> calm s') \<and> (buffer_ok (cn_input s) \<longrightarrow> buffer_ok (cn_input s')) \<and>
     (cn_state s' = kConnecting \<longrightarrow> cn_state s = kConnecting)"
proof (induction acts arbitrary: s)
  case (Cons a acts)
  then obtain s1 where s1: "do_conn_op (default_env wr rd) (conn_op_of a) s = Inr s1"
    "fold_r (\<lambda>a. do_conn_op (default_env wr rd) (conn_op_of a)) acts s1 = Inr s'" by (auto simp: bind_r_eq_Inr)
  from action_frame [OF s1(1) Cons.prems(2)] Cons.IH [OF s1(2)] show ?case by auto
qed simp

lemma parseRequest_buffer: "buffer_ok buf \<Longrightarrow> parseRequest t buf c = Inr (ok, c', buf') \<Longrightarrow>
    buffer_ok buf' \<and> parse_bytes t c (readable buf) = Inr (ok, c', readable buf')"
  using parseRequest_refines [of buf t c] by (auto simp: parse_agrees_def split: sum.splits)

lemma onMessage_keeps:
  assumes fits: "handler_fits cb"
    and inv: "session_inv cb s" and inl: "cn_inLoop s" and m: "http_conn_onMessage (default_env wr rd) cb t s = Inr s'"
  shows "session_inv cb s'" and "hx_bad (cn_context s) \<longrightarrow> hx_bad (cn_context s')"
proof -
  let ?x = "cn_context s" and ?do = "fold_r (\<lambda>a. do_conn_op (default_env wr rd) (conn_op_of a))"
  from m obtain acts buf ctx where am: "http_onMessage cb t (cn_input s) (hx_context ?x) = Inr (acts, buf, ctx)"
    and act: "?do acts (s\<lparr>cn_input := buf, cn_context := (session_note t (cn_input s) ?x)\<lparr>hx_context := ctx\<rparr>\<rparr>) = Inr s'"
    by (auto simp: http_conn_onMessage_def bind_r_eq_Inr)
  from am obtain c ok c' where c: "hx_context ?x = Some c" and p: "parseRequest t (cn_input s) c = Inr (ok, c', buf)"
    by (auto simp: http_onMessage_def bind_r_eq_Inr Let_def split: option.splits if_splits)
  have ok: "buffer_ok (cn_input s)" "calm s" "cn_state s \<noteq> kConnecting" using inv by (simp_all add: session_inv_def)
  note buf = parseRequest_buffer [OF ok(1) p]
  let ?n = "(session_note t (cn_input s) ?x)\<lparr>hx_context := ctx\<rparr>"
  have note_: "session_note t (cn_input s) ?x = ?x\<lparr>hx_bad := hx_bad ?x \<or> \<not> ok, hx_requests := hx_requests ?x @ (if gotAll c' then [hc_request c'] else []),
      hx_taken := hx_taken ?x @ take (readableBytes (cn_input s) - readableBytes buf) (readable (cn_input s))\<rparr>"
    by (simp add: session_note_def c p)
  let ?s = "s\<lparr>cn_input := buf, cn_context := ?n\<rparr>"
  have frame: "cn_context s' = ?n" "calm s'" "buffer_ok (cn_input s')" "cn_state s' \<noteq> kConnecting" using actions_frame [OF act] inl ok buf by (auto simp: calm_def)
  show "hx_bad ?x \<longrightarrow> hx_bad (cn_context s')" using frame(1) by (simp add: note_)
  show "session_inv cb s'"
  proof (cases "hx_bad ?n")
    case True
    with frame show ?thesis by (simp add: session_inv_def)
  next
    case False
    then have good: "\<not> hx_bad ?x" "ok" by (simp_all add: note_)
    then have sess: "session_ok cb ?x (cn_state s) (cn_accepted s)" using inv by (simp add: session_inv_def)
    then have ready: "context_ready c" using c by (auto simp: session_ok_def request_part_def)
    have bytes: "parse_bytes t c (readable (cn_input s)) = Inr (True, c', readable buf)" using buf good by simp
    obtain used where used: "readable (cn_input s) = used @ readable buf"
      using parse_bytes_used [OF ready bytes] by blast
    have part: "if gotAll c' then request_text (part @ used) (hc_request c') else request_part (part @ used) c'" if "request_part part c" for part
      using message_bytes [OF that bytes] used by auto
    have taken: "take (readableBytes (cn_input s) - readableBytes buf) (readable (cn_input s)) = used"
      using used ok(1) buf by (metis add_diff_cancel_right' append_eq_conv_conj length_append length_readable)
    show ?thesis
    proof (cases "gotAll c'")
      case False
      with am c p good have "acts = []" "ctx = Some c'" by (simp_all add: http_onMessage_def)
      moreover from sess c part False have "session_ok cb (?n\<lparr>hx_context := Some c'\<rparr>) (cn_state s) (cn_accepted s)"
        unfolding session_ok_def note_ taken by auto (metis append.assoc)+
      ultimately show ?thesis using act frame by (auto simp: session_inv_def)
    next
      case True
      let ?req = "hc_request c'"
      have a: "acts = Send (response_text (answer cb ?req)) # (if rs_closeConnection (answer cb ?req) then [Shutdown] else [])"
        "ctx = Some HttpContext_new"
        using am c p good True onRequest_spec [of cb ?req] fits by (simp_all add: handler_fits_def http_onMessage_def answer_def context_reset_new)
      have n: "?n = ?x\<lparr>hx_context := Some HttpContext_new, hx_requests := hx_requests ?x @ [?req], hx_taken := hx_taken ?x @ used\<rparr>"
        unfolding note_ taken a(2) using good True by simp
      note next_ = session_answered [OF sess c, where used = used and req = ?req, folded n]
      have req: "request_text (part @ used) ?req" if "request_part part c" for part using part [OF that] True by simp
      from act a(1) obtain s1 where s1: "conn_send (default_env wr rd) (response_text (answer cb ?req)) ?s = Inr s1"
        "?do (if rs_closeConnection (answer cb ?req) then [Shutdown] else []) s1 = Inr s'"
        by (auto simp: bind_r_eq_Inr simp del: if_split)
      from conn_send_result [OF s1(1)] inl have r1: "cn_state s1 = cn_state s"
        "cn_accepted s1 = (if cn_state s = kConnected then cn_accepted s @ response_text (answer cb ?req) else cn_accepted s)" by simp_all
      have "session_ok cb ?n (cn_state s') (cn_accepted s')"
      proof (cases "rs_closeConnection (answer cb ?req)")
        case True
        with s1(2) have "conn_shutdown (default_env wr rd) s1 = Inr s'" by simp
        then have q: "quiet s1 s'" and down: "cn_state s' \<noteq> kConnected"
          by (rule handleClose_quiet(2) [OF default_env_quiet], rule shutdown_not_connected [OF default_env_quiet])
        from q r1 have acc: "cn_accepted s' = (if cn_state s = kConnected then cn_accepted s @ response_text (answer cb ?req) else cn_accepted s)"
          by (simp add: quiet_def)
        show ?thesis
        proof (cases "cn_state s = kConnected")
          case True
          from next_(3) [OF req True down] acc True show ?thesis by simp
        next
          case False
          from session_down [OF next_(1) [OF req False], of "cn_state s'"] down acc False show ?thesis by simp
        qed
      next
        case False
        with s1(2) have "s' = s1" by simp
        with False r1 next_(1) [OF req] next_(2) [OF req] show ?thesis by (cases "cn_state s = kConnected") simp_all
      qed
      with frame show ?thesis by (simp add: session_inv_def)
    qed
  qed
qed

section \<open>As long as no line was malformed\<close>

text \<open>
  A connection whose parser is ready behaves as one whose message callback does nothing when the parser is not; and this
  one meets the contract of the connection.
\<close>

definition http_ready :: "http_session \<Rightarrow> bool" where
  "http_ready x \<longleftrightarrow> (case hx_context x of Some c \<Rightarrow> context_ready c | None \<Rightarrow> False)"

definition guarded :: "http_session conn_env \<Rightarrow> http_session conn_env" where
  "guarded env = env\<lparr>ce_message := (\<lambda>t s. if http_ready (cn_context s) then ce_message env t s else Inr s)\<rparr>"

lemma closing_ignores_message:
  "handleClose (env\<lparr>ce_message := g\<rparr>) s = handleClose env s"
  "conn_shutdown (env\<lparr>ce_message := g\<rparr>) s = conn_shutdown env s"
  "shutdownInLoop (env\<lparr>ce_message := g\<rparr>) s = shutdownInLoop env s"
proof (induction env s and env s and env s rule: handleClose_conn_shutdown_shutdownInLoop.induct)
  case (1 env s)
  then show ?case by (simp add: handleClose.simps [of _ s])
next
  case (2 env s)
  then show ?case by (simp add: conn_shutdown.simps [of _ s] Let_def)
next
  case (3 env s)
  then show ?case by (simp add: shutdownInLoop.simps [of _ s] Let_def)
qed

lemma others_ignore_message:
  "sendInLoop (env\<lparr>ce_message := g\<rparr>) d s = sendInLoop env d s"
  "handleWrite (env\<lparr>ce_message := g\<rparr>) s = handleWrite env s"
  "forceCloseInLoop (env\<lparr>ce_message := g\<rparr>) s = forceCloseInLoop env s"
  "run_functor (env\<lparr>ce_message := g\<rparr>) f s = run_functor env f s"
  "connectEstablished (env\<lparr>ce_message := g\<rparr>) s = connectEstablished env s"
  "connectDestroyed (env\<lparr>ce_message := g\<rparr>) s = connectDestroyed env s"
  "do_conn_op (env\<lparr>ce_message := g\<rparr>) p s = do_conn_op env p s"
proof -
  show send: "sendInLoop (env\<lparr>ce_message := g\<rparr>) d s = sendInLoop env d s" for d s by (simp add: sendInLoop_def write_directly_def)
  show "handleWrite (env\<lparr>ce_message := g\<rparr>) s = handleWrite env s" by (simp add: handleWrite_def closing_ignores_message Let_def cong: if_cong sum.case_cong)
  show force: "forceCloseInLoop (env\<lparr>ce_message := g\<rparr>) s = forceCloseInLoop env s" by (simp add: forceCloseInLoop_def closing_ignores_message)
  show "run_functor (env\<lparr>ce_message := g\<rparr>) f s = run_functor env f s" by (cases f) (simp_all add: send force closing_ignores_message)
  show "connectEstablished (env\<lparr>ce_message := g\<rparr>) s = connectEstablished env s" by (simp add: connectEstablished_def)
  show "connectDestroyed (env\<lparr>ce_message := g\<rparr>) s = connectDestroyed env s" by (simp add: connectDestroyed_def)
  show "do_conn_op (env\<lparr>ce_message := g\<rparr>) p s = do_conn_op env p s" by (cases p) (simp_all add: conn_send_def send closing_ignores_message)
qed

lemma callback_guarded:
  assumes "http_ready (cn_context s) \<or> (\<forall>t. cb \<noteq> ReadCb t)"
  shows "conn_callback (guarded env) cb s = conn_callback env cb s"
proof (cases cb)
  case (ReadCb t)
  with assms show ?thesis 
    by (simp add: conn_callback_def handleRead_def guarded_def closing_ignores_message Let_def cong: if_cong sum.case_cong prod.case_cong)
qed (simp_all add: conn_callback_def guarded_def closing_ignores_message others_ignore_message)

lemma callbacks_guarded_tail: "\<forall>cb \<in> set cbs. \<forall>t. cb \<noteq> ReadCb t \<Longrightarrow> fold_r (conn_callback (guarded env)) cbs s = fold_r (conn_callback env) cbs s"
proof (induction cbs arbitrary: s)
  case (Cons cb cbs)
  then have "fold_r (conn_callback (guarded env)) cbs = fold_r (conn_callback env) cbs" by (intro ext) simp
  with Cons.prems show ?case by (simp add: callback_guarded)
qed simp

fun is_read :: "event_callback \<Rightarrow> bool" where
  "is_read (ReadCb t) = True"
| "is_read _ = False"

lemma other_callback_quiet:
  assumes "quiet_env env" and "\<not> is_read cb" and "conn_callback env cb s = Inr s'"
  shows "quiet s s'"
  using assms handleClose_quiet(1) [OF assms(1)] handleWrite_quiet [OF assms(1)]
  by (cases cb) (auto simp: conn_callback_def handleError_def quiet_refl)

lemma callbacks_guarded:
  "quiet_env env \<Longrightarrow> http_ready (cn_context s) \<Longrightarrow> length (filter is_read cbs) \<le> 1 \<Longrightarrow>
     fold_r (conn_callback (guarded env)) cbs s = fold_r (conn_callback env) cbs s"
proof (induction cbs arbitrary: s)
  case (Cons cb cbs)
  have head: "conn_callback (guarded env) cb s = conn_callback env cb s" using Cons.prems(2) by (simp add: callback_guarded)
  show ?case
  proof (cases "is_read cb")
    case True
    with Cons.prems(3) have "filter is_read cbs = []" by simp
    then have "\<forall>cb \<in> set cbs. \<forall>t. cb \<noteq> ReadCb t" by (auto simp: filter_empty_conv)
    from callbacks_guarded_tail [OF this] have "fold_r (conn_callback (guarded env)) cbs = fold_r (conn_callback env) cbs" by (intro ext)
    with head show ?thesis by simp
  next
    case False
    have "http_ready (cn_context s1)" if "conn_callback env cb s = Inr s1" for s1
      using other_callback_quiet [OF Cons.prems(1) False that] Cons.prems(2) by (simp add: quiet_def)
    with Cons.IH Cons.prems False head show ?thesis by (cases "conn_callback env cb s") auto
  qed
qed simp

lemma one_read: "length (filter is_read (callbacks_of t c)) \<le> 1"
  by (simp add: callbacks_of_def Let_def)

lemma step_guarded:
  assumes "quiet_env env" and "\<And>revt t. e = ChannelEvent revt t \<Longrightarrow> http_ready (cn_context s)"
  shows "conn_step (guarded env) e s = conn_step env e s"
proof (cases e)
  case (ChannelEvent revt t)
  let ?s = "modify_channel (\<lambda>c. c\<lparr>ch_eventHandling := True\<rparr>) (modify_channel (set_revents revt) s)"
  have "http_ready (cn_context ?s)" using assms(2) [OF ChannelEvent] by (simp add: modify_channel_def)
  from callbacks_guarded [OF assms(1) this one_read] ChannelEvent show ?thesis
    by (simp add: handleEvent_def handleEventWithGuard_def Let_def cong: if_cong option.case_cong)
qed (simp_all add: guarded_def others_ignore_message split: list.split)

lemma onMessage_returns:
  assumes "buffer_ok buf" and "context_ready c" and "handler_fits cb"
  shows "\<exists>acts buf' ctx. http_onMessage cb t buf (Some c) = Inr (acts, buf', ctx) \<and> buffer_ok buf'"
proof -
  from parseRequest_total [OF assms(1,2), of t] obtain ok c' buf' where
    p: "parseRequest t buf c = Inr (ok, c', buf')" "buffer_ok buf'" by (auto elim!: returnsE)
  with onRequest_spec [of cb "hc_request c'"] assms(3) show ?thesis by (simp add: handler_fits_def http_onMessage_def Let_def)
qed

lemma guarded_callbacks:
  assumes fits: "handler_fits cb"
  shows "conn_callbacks (guarded (http_env wr rd cb))"
proof unfold_locales
  fix s :: "http_session tcpconn" and t
  assume inv: "conn_inv s"
  then have ok: "buffer_ok (cn_input s)" by (simp add: conn_inv_def conn_stream_def)
  show "returns (ce_connection (guarded (http_env wr rd cb)) s) (user_rel s)"
    using user_rel_context(2) [OF inv ok] by (simp add: guarded_def http_env_def http_conn_onConnection_def)
  show "returns (ce_message (guarded (http_env wr rd cb)) t s) (user_rel s)"
  proof (cases "http_ready (cn_context s)")
    case True
    then obtain c where c: "hx_context (cn_context s) = Some c" "context_ready c" by (auto simp: http_ready_def split: option.splits)
    from onMessage_returns [OF ok c(2) fits] obtain acts buf ctx where
      m: "http_onMessage cb t (cn_input s) (Some c) = Inr (acts, buf, ctx)" "buffer_ok buf" by blast
    let ?s = "s\<lparr>cn_input := buf, cn_context := (session_note t (cn_input s) (cn_context s))\<lparr>hx_context := ctx\<rparr>\<rparr>"
    have rel: "user_rel s ?s" by (rule user_rel_context(1) [OF inv m(2)])
    then have "conn_inv ?s" by (simp add: user_rel_def)
    from actions_user [OF dflt.conn_callbacks_axioms this, of wr rd acts]
    have "returns (fold_r (\<lambda>a. do_conn_op (default_env wr rd) (conn_op_of a)) acts ?s) (user_rel s)"
      by (rule returns_mono) (rule user_rel_trans [OF rel])
    with m(1) c True show ?thesis by (simp add: guarded_def http_env_def http_conn_onMessage_def)
  qed (simp add: guarded_def user_rel_refl [OF inv])
qed (auto simp: guarded_def http_env_def default_env_def user_rel_refl split: sum.splits)

section \<open>Reachable connections\<close>

lemma keeps_session:
  assumes "handler_fits cb"
  shows "message_invariant (http_env wr rd cb) (\<lambda>s. session_inv cb s \<and> (b \<longrightarrow> hx_bad (cn_context s)))"
proof unfold_locales
  show "quiet_env (http_env wr rd cb)" by (rule http_env_quiet)
  show "length d \<le> sum_list lens" if "ce_readv (http_env wr rd cb) k lens = Inr d" for k lens d
    using that by (auto simp: http_env_def default_env_def split: sum.splits)
  show "session_inv cb s' \<and> (b \<longrightarrow> hx_bad (cn_context s'))" if "session_inv cb s \<and> (b \<longrightarrow> hx_bad (cn_context s))" "quiet s s'" for s s'
    using that session_down [of cb "cn_context s" "cn_state s" "cn_accepted s" "cn_state s'"] by (auto simp: session_inv_def quiet_def)
  show "session_inv cb s' \<and> (b \<longrightarrow> hx_bad (cn_context s'))"
    if "session_inv cb s \<and> (b \<longrightarrow> hx_bad (cn_context s))" "cn_inLoop s" "ce_message (http_env wr rd cb) t s = Inr s'" for s t s'
    using onMessage_keeps [OF assms, of s wr rd t s'] that by (auto simp: http_env_def)
  show "calm s \<and> buffer_ok (cn_input s)" if "session_inv cb s \<and> (b \<longrightarrow> hx_bad (cn_context s))" for s
    using that by (simp add: session_inv_def)
qed

lemma default_handler_fits: "handler_fits defaultHttpCallback"
  by (simp add: handler_fits_def response_fits_def defaultHttpCallback_def setCloseConnection_def setStatusMessage_def setStatusCode_def HttpResponse_new_def)

interpretation http_default: message_invariant "http_env wr rd defaultHttpCallback"
  "\<lambda>s. session_inv defaultHttpCallback s \<and> (b \<longrightarrow> hx_bad (cn_context s))" for wr rd b
  by (rule keeps_session [OF default_handler_fits])

text \<open>Before the connection is established nothing has happened.\<close>

definition http_inv :: "http_callback \<Rightarrow> http_session tcpconn \<Rightarrow> bool" where
  "http_inv cb s \<longleftrightarrow>
     (if cn_state s = kConnecting then cn_context s = session_new \<and> cn_accepted s = [] \<and> buffer_ok (cn_input s) \<and> calm s
      else session_inv cb s)"

lemma established_session:
  assumes "http_inv cb s" and "cn_state s = kConnecting" and "conn_step (http_env wr rd cb) Established s = Inr s'"
  shows "session_inv cb s'"
proof -
  have x: "cn_context s = session_new" "cn_accepted s = []" "buffer_ok (cn_input s)" "calm s"
    using assms(1,2) by (simp_all add: http_inv_def)
  have "cn_context s' = session_new\<lparr>hx_context := Some HttpContext_new\<rparr> \<and> cn_state s' = kConnected \<and> cn_accepted s' = [] \<and>
      cn_input s' = cn_input s \<and> calm s'"
    using assms(2,3) x
    by (auto simp: connectEstablished_def in_loop_thread_def ensure_eq_Inr http_env_def http_conn_onConnection_def http_onConnection_def
        add_note_def set_events_def calm_def split: if_splits)
  moreover have "session_ok cb (session_new\<lparr>hx_context := Some HttpContext_new\<rparr>) kConnected []"
    using request_part_new by (simp add: session_ok_def session_new_def)
  ultimately show ?thesis using x(3) by (simp add: session_inv_def)
qed

lemma http_reachable_inv:
  assumes fits: "handler_fits cb"
  shows "http_reachable wr rd cb s \<Longrightarrow> http_inv cb s \<and> (\<not> hx_bad (cn_context s) \<longrightarrow> conn_callbacks.at_rest s)"
proof (induction rule: http_reachable.induct)
  case (http_created b fd wc hwm)
  have "buffer_ok b" using Buffer_new_spec [of kInitialSize] http_created by simp
  then show ?case
    using conn_callbacks.created_at_rest [OF guarded_callbacks [OF fits] http_created]
    by (simp add: http_inv_def TcpConnection_new_def session_new_def calm_def)
next
  case (http_happens s e s')
  note cb = guarded_callbacks [OF fits, of wr rd]
  note inv = http_happens.IH [THEN conjunct1]
  have rest: "conn_callbacks.at_rest s" if "\<not> hx_bad (cn_context s)" using http_happens.IH that by simp
  note keeps = message_invariant.step_keeps [OF keeps_session [OF fits] _ http_happens.hyps(4) _ http_happens.hyps(3)]
  show ?case
  proof (cases "cn_state s = kConnecting")
    case True
    then have new: "cn_context s = session_new" using inv by (simp add: http_inv_def)
    then have rest': "conn_callbacks.at_rest s" using rest by (simp add: session_new_def)
    have quiet_: "\<And>revt t. e \<noteq> ChannelEvent revt t" "e \<noteq> RunFunctor" "e \<noteq> Destroyed"
      using http_happens.hyps(2) rest' True by (auto simp: conn_callbacks.at_rest_def [OF cb] conn_defs split: list.splits)
    then have same: "conn_step (guarded (http_env wr rd cb)) e s = Inr s'"
      using step_guarded [OF http_env_quiet] http_happens.hyps(4) by metis
    then have "conn_callbacks.at_rest s'" using conn_callbacks.conn_step_spec [OF cb rest' http_happens.hyps(2)] by simp
    moreover have "http_inv cb s'"
    proof (cases "e = Established")
      case True
      from established_session [OF inv \<open>cn_state s = kConnecting\<close>] http_happens.hyps(4) True show ?thesis
        by (auto simp: http_inv_def session_inv_def)
    next
      case False
      with quiet_ http_happens.hyps(3) have "e = DelayOver" by (cases e) auto
      with True inv http_happens.hyps(4) show ?thesis by (auto simp: http_inv_def forceClose_def calm_def)
    qed
    ultimately show ?thesis by simp
  next
    case False
    then have s: "session_inv cb s" and e: "e \<noteq> Established" using inv http_happens.hyps(2) by (auto simp: http_inv_def)
    from keeps [of "hx_bad (cn_context s)"] s e have s': "session_inv cb s'" and bad: "hx_bad (cn_context s) \<longrightarrow> hx_bad (cn_context s')"
      by simp_all
    have "conn_callbacks.at_rest s'" if "\<not> hx_bad (cn_context s')"
    proof -
      have good: "\<not> hx_bad (cn_context s)" using bad that by blast
      then have "http_ready (cn_context s)" using s by (auto simp: session_inv_def session_ok_def request_part_def http_ready_def)
      then have "conn_step (guarded (http_env wr rd cb)) e s = Inr s'" using step_guarded [OF http_env_quiet] http_happens.hyps(4) by metis
      then show ?thesis using conn_callbacks.conn_step_spec [OF cb rest [OF good] http_happens.hyps(2)] by simp
    qed
    with s' show ?thesis by (simp add: http_inv_def session_inv_def)
  qed
qed

section \<open>Properties\<close>


text \<open>A connection that has just come up.\<close>

definition http_up :: "http_session tcpconn" where
  "http_up = add_note NoteUp (set_events reading_on ((TcpConnection_new 5 fresh_buffer fresh_buffer session_new False False)
     \<lparr>cn_state := kConnected, cn_channel := tie 0 (cn_channel (TcpConnection_new 5 fresh_buffer fresh_buffer session_new False False))\<rparr>))
     \<lparr>cn_context := session_new\<lparr>hx_context := Some HttpContext_new\<rparr>\<rparr>"

lemma http_up_reachable: "http_reachable wr rd cb http_up"
proof (rule http_happens [OF http_created [OF fresh_buffer_new], of Established])
  show "conn_step (http_env wr rd cb) Established (TcpConnection_new 5 fresh_buffer fresh_buffer session_new False False) = Inr http_up"
    by (simp add: connectEstablished_def http_up_def http_env_def http_conn_onConnection_def http_onConnection_def conn_evaluation)
qed (simp_all add: TcpConnection_new_def)


text \<open>A peer that sends a malformed line and then one more byte.\<close>

definition rude_peer :: "nat \<Rightarrow> nat list \<Rightarrow> int + char list" where
  "rude_peer k lens = Inr (if k = 0 then ''GET x'' @ [CR, LF] else ''y'')"

abbreviation rude_env :: "http_session conn_env" where
  "rude_env \<equiv> http_env (\<lambda>_ n. Inr n) rude_peer defaultHttpCallback"

definition stuck_context :: http_context where
  "stuck_context = HttpContext_new\<lparr>hc_request := HttpRequest_new\<lparr>rq_method := kGet\<rparr>\<rparr>"

lemma rude_line:
  "parse_bytes t HttpContext_new (''GET x'' @ [CR, LF]) = Inr (False, stuck_context, ''GET x'' @ [CR, LF])"
  "parse_bytes t stuck_context (''GET x'' @ [CR, LF] @ ''y'') = Inl (AssertFail ''method_ == kInvalid'')"
proof -
  have cut: "cut_line (''GET x'' @ [CR, LF] @ xs) = Some (''GET x'', xs)" for xs using cut_line_intro [of "''GET x''" xs] by simp
  have line: "processRequestLine ''GET x'' HttpRequest_new = Inr (False, HttpRequest_new\<lparr>rq_method := kGet\<rparr>)"
    "processRequestLine ''GET x'' (HttpRequest_new\<lparr>rq_method := kGet\<rparr>) = Inl (AssertFail ''method_ == kInvalid'')"
    by (simp_all add: processRequestLine_def setMethod_def Let_def HttpRequest_new_def)
  show "parse_bytes t HttpContext_new (''GET x'' @ [CR, LF]) = Inr (False, stuck_context, ''GET x'' @ [CR, LF])"
    using cut [of "[]"] line(1) by (subst parse_bytes.simps) (simp add: HttpContext_new_def stuck_context_def)
  show "parse_bytes t stuck_context (''GET x'' @ [CR, LF] @ ''y'') = Inl (AssertFail ''method_ == kInvalid'')"
    using cut [of "''y''"] line(2) by (subst parse_bytes.simps) (simp add: HttpContext_new_def stuck_context_def)
qed

lemma rude_reads:
  assumes "buffer_ok b" and "d = (if k = 0 then ''GET x'' @ [CR, LF] else ''y'')"
  shows "\<exists>b'. readFd (ce_readv rude_env k) b = Inr (Inr (length d), b') \<and> buffer_ok b' \<and> readable b' = readable b @ d"
proof -
  have law: "length d' \<le> sum_list lens" if "ce_readv rude_env k lens = Inr d'" for lens d'
    using that by (auto simp: http_env_def default_env_def split: sum.splits)
  have "7 \<le> sum_list (iov_lengths b)" by (simp add: iov_lengths_def extrabuf_size_def)
  then have "ce_readv rude_env k (iov_lengths b) = Inr d" using assms(2) by (simp add: http_env_def default_env_def rude_peer_def)
  with readFd_spec [OF assms(1), of "ce_readv rude_env k", OF law] show ?thesis by (auto elim!: returnsE)
qed

lemma read_event:
  assumes "ch_readCallback (cn_channel s)" and "ch_tied (cn_channel s)" and "ch_tie (cn_channel s) = Some i"
  shows "conn_step env (ChannelEvent POLLIN t) s =
    bind_r (handleRead env t (modify_channel (\<lambda>c. set_revents POLLIN c\<lparr>ch_eventHandling := True\<rparr>) s))
      (\<lambda>s'. Inr (modify_channel (\<lambda>c. c\<lparr>ch_eventHandling := False\<rparr>) s'))"
  using assms by (simp add: handleEvent_def handleEventWithGuard_def callbacks_of_def conn_callback_def modify_channel_def set_revents_def poll_bits)


end
