(* ===== verification/FastCgi.thy ===== *)
theory FastCgi
  imports Buffer StdMap Framing
begin

unbundle bit_operations_syntax

text \<open>
  The FastCGI codec (\<^verbatim>\<open>cgiServer/fastcgi.h\<close>, \<^verbatim>\<open>cgiServer/fastcgi.cpp\<close>), one per
  connection. Integers keep their widths; \<open>header_bytes\<close> is the memory image of
  \<^verbatim>\<open>RecordHeader\<close> (no padding between its fields). \<open>parseRecords\<close> is the loop of
  \<^verbatim>\<open>parseRequest\<close> and refines the fold of \<open>handle_record\<close> over the records cut
  off the input, which is an instance of \<open>framing\<close>. The properties: name-value pairs
  survive encoding and \<open>parseAllParams\<close>; a request sent as records in any segmentation
  reaches the callback; \<open>respond\<close> produces padded records whose contents are the output;
  no input makes the codec fail.
\<close>

section \<open>Records\<close>

record rec_header =
  rh_version :: "8 word"
  rh_type :: "8 word"
  rh_id :: "16 word"
  rh_length :: "16 word"
  rh_padding :: "8 word"
  rh_unused :: "8 word"

definition kRecordHeader :: nat where "kRecordHeader = 8"

definition FCGI_MAX_LENGTH :: nat where "FCGI_MAX_LENGTH = 0xffff"

definition kFcgiBeginRequest :: "8 word" where "kFcgiBeginRequest = 1"
definition kFcgiEndRequest :: "8 word" where "kFcgiEndRequest = 3"
definition kFcgiParams :: "8 word" where "kFcgiParams = 4"
definition kFcgiStdin :: "8 word" where "kFcgiStdin = 5"
definition kFcgiStdout :: "8 word" where "kFcgiStdout = 6"
definition kFcgiResponder :: "16 word" where "kFcgiResponder = 1"
definition kFcgiKeepConn :: "8 word" where "kFcgiKeepConn = 1"

lemmas fcgi_consts =
  kFcgiBeginRequest_def kFcgiEndRequest_def kFcgiParams_def kFcgiStdin_def kFcgiStdout_def
  kFcgiResponder_def kFcgiKeepConn_def

definition header_bytes :: "rec_header \<Rightarrow> char list" where
  "header_bytes h = mem_of (rh_version h) @ mem_of (rh_type h) @ mem_of (rh_id h) @
     mem_of (rh_length h) @ mem_of (rh_padding h) @ mem_of (rh_unused h)"

definition header_of :: "char list \<Rightarrow> rec_header" where
  "header_of bs =
     \<lparr>rh_version = of_mem (range_of bs 0 1), rh_type = of_mem (range_of bs 1 2),
      rh_id = of_mem (range_of bs 2 4), rh_length = of_mem (range_of bs 4 6),
      rh_padding = of_mem (range_of bs 6 7), rh_unused = of_mem (range_of bs 7 8)\<rparr>"

section \<open>The codec\<close>

record codec =
  gotRequest :: bool
  keepConn :: bool
  stdin_buf :: buffer
  paramsStream :: buffer
  params :: "(string, string) std_map"

definition FastCgiCodec_new :: "codec res" where
  "FastCgiCodec_new =
     bind_r (Buffer_new kInitialSize) (\<lambda>b1. bind_r (Buffer_new kInitialSize) (\<lambda>b2.
       Inr \<lparr>gotRequest = False, keepConn = False, stdin_buf = b1, paramsStream = b2, params = []\<rparr>))"

definition readLen :: "buffer \<Rightarrow> (32 word \<times> buffer) res" where
  "readLen b =
     (if readableBytes b \<ge> 1
      then bind_r (peekInt8 b)
        (\<lambda>byte. if byte AND 0x80 \<noteq> 0
           then if readableBytes b \<ge> 4
                then bind_r (readInt32 b) (\<lambda>(x, b'). Inr (x AND 0x7fffffff, b'))
                else Inr (-1, b)
           else bind_r (readInt8 b) (\<lambda>(x, b'). Inr (scast x, b')))
      else Inr (-1, b))"

lemma retrieve_readableBytes:
  "retrieve n b = Inr b' \<Longrightarrow> readableBytes b' = readableBytes b - n"
  by (auto simp: retrieve_def retrieveAll_def ensure_eq_Inr readableBytes_def split: if_splits)

lemma readLen_consumes:
  assumes "readLen b = Inr (n, b')"
  shows "readableBytes b' \<le> readableBytes b \<and> (n \<noteq> -1 \<longrightarrow> readableBytes b' < readableBytes b)"
  using assms
  by (auto simp: readLen_def readInt_defs bind_r_eq_Inr ensure_eq_Inr dest!: retrieve_readableBytes
      split: if_splits)

lemma retrieveAsString_readableBytes:
  "retrieveAsString n b = Inr (s, b') \<Longrightarrow> readableBytes b' = readableBytes b - n"
  by (auto simp: retrieveAsString_def ensure_eq_Inr Let_def bind_r_eq_Inr dest!: retrieve_readableBytes)

text \<open>\<^verbatim>\<open>parseAllParams\<close>: the loop works on \<^verbatim>\<open>paramsStream_\<close> and \<^verbatim>\<open>params_\<close>.\<close>

function parse_pairs :: "buffer \<Rightarrow> (string, string) std_map \<Rightarrow>
    (bool \<times> buffer \<times> (string, string) std_map) res" where
  "parse_pairs b ps =
     (if readableBytes b > 0
      then bind_r (readLen b) (\<lambda>(nameLen, b1).
        if nameLen = -1 then Inr (False, b1, ps)
        else bind_r (readLen b1) (\<lambda>(valueLen, b2).
          if valueLen = -1 then Inr (False, b2, ps)
          else if readableBytes b2 \<ge> unat (nameLen + valueLen)
          then bind_r (retrieveAsString (unat nameLen) b2) (\<lambda>(name, b3).
                 bind_r (retrieveAsString (unat valueLen) b3) (\<lambda>(val, b4).
                   parse_pairs b4 (map_set name val ps)))
          else Inr (False, b2, ps)))
      else Inr (True, b, ps))"
  by pat_completeness auto
termination
  by (relation "measure (\<lambda>(b, _). readableBytes b)")
    (auto dest!: readLen_consumes retrieveAsString_readableBytes)

declare parse_pairs.simps [simp del]

definition parseAllParams :: "codec \<Rightarrow> (bool \<times> codec) res" where
  "parseAllParams c =
     bind_r (parse_pairs (paramsStream c) (params c))
       (\<lambda>(ok, b, ps). Inr (ok, c\<lparr>paramsStream := b, params := ps\<rparr>))"

definition onParams :: "char list \<Rightarrow> codec \<Rightarrow> (bool \<times> codec) res" where
  "onParams content c =
     (if length content > 0
      then bind_r (buf_append content (paramsStream c)) (\<lambda>b. Inr (True, c\<lparr>paramsStream := b\<rparr>))
      else bind_r (parseAllParams c) (\<lambda>(ok, c'). Inr (ok, c')))"

definition onStdin :: "char list \<Rightarrow> codec \<Rightarrow> codec res" where
  "onStdin content c =
     (if length content > 0
      then bind_r (buf_append content (stdin_buf c)) (\<lambda>b. Inr (c\<lparr>stdin_buf := b\<rparr>))
      else Inr (c\<lparr>gotRequest := True\<rparr>))"

definition readInt16_at :: "char list \<Rightarrow> 16 word" where
  "readInt16_at p = networkToHost16 (of_mem (take 2 p))"

text \<open>\<open>mem\<close> is what \<^verbatim>\<open>buf->peek()\<close> points to.\<close>

definition onBeginRequest :: "rec_header \<Rightarrow> nat \<Rightarrow> char list \<Rightarrow> codec \<Rightarrow> (bool \<times> codec) res" where
  "onBeginRequest header readable_bytes mem c =
     ensure (readable_bytes \<ge> unat (rh_length header)) ''buf->readableBytes() >= header.length''
       (ensure (rh_type header = kFcgiBeginRequest) ''header.type == kFcgiBeginRequest''
         (if unat (rh_length header) \<ge> kRecordHeader
          then let role = readInt16_at (drop kRecordHeader mem);
                   flags = of_mem [mem ! (kRecordHeader + 2)]
               in if role = kFcgiResponder
                  then Inr (True, c\<lparr>keepConn := (flags = kFcgiKeepConn)\<rparr>)
                  else Inr (False, c)
          else Inr (False, c)))"

text \<open>The \<^verbatim>\<open>switch\<close> on the record type; \<open>header\<close> has host byte order here.\<close>

definition dispatch_record :: "rec_header \<Rightarrow> buffer \<Rightarrow> codec \<Rightarrow> codec res" where
  "dispatch_record header buf c =
     (let content = range_of (storage buf) (peek buf + kRecordHeader)
                      (peek buf + kRecordHeader + unat (rh_length header))
      in if rh_type header = kFcgiBeginRequest
         then bind_r (onBeginRequest header (readableBytes buf) (drop (peek buf) (storage buf)) c)
                (\<lambda>(_, c'). Inr c')
         else if rh_type header = kFcgiParams then bind_r (onParams content c) (\<lambda>(_, c'). Inr c')
         else if rh_type header = kFcgiStdin then onStdin content c
         else Inr c)"

definition record_total :: "rec_header \<Rightarrow> nat" where
  "record_total header = kRecordHeader + unat (rh_length header) + unat (rh_padding header)"

function parseRecords :: "buffer \<Rightarrow> codec \<Rightarrow> (buffer \<times> codec) res" where
  "parseRecords buf c =
     (if readableBytes buf \<ge> kRecordHeader
      then let raw = header_of (range_of (storage buf) (peek buf) (peek buf + kRecordHeader));
               header = raw\<lparr>rh_id := networkToHost16 (rh_id raw),
                            rh_length := networkToHost16 (rh_length raw)\<rparr>
           in if readableBytes buf \<ge> record_total header
              then bind_r (dispatch_record header buf c)
                     (\<lambda>c'. bind_r (retrieve (record_total header) buf) (\<lambda>buf'. parseRecords buf' c'))
              else Inr (buf, c)
      else Inr (buf, c))"
  by pat_completeness auto
termination
  by (relation "measure (\<lambda>(b, _). readableBytes b)")
    (auto simp: record_total_def kRecordHeader_def dest!: retrieve_readableBytes)

declare parseRecords.simps [simp del]

type_synonym cgi_callback = "(string, string) std_map \<Rightarrow> buffer \<Rightarrow> conn_action list"

definition codec_onMessage :: "cgi_callback \<Rightarrow> buffer \<Rightarrow> codec \<Rightarrow>
    (conn_action list \<times> buffer \<times> codec) res" where
  "codec_onMessage cb buf c =
     bind_r (parseRecords buf c)
       (\<lambda>(buf', c').
          if gotRequest c'
          then Inr (cb (params c') (stdin_buf c') @ (if \<not> keepConn c' then [Shutdown] else []),
                    buf',
                    c'\<lparr>stdin_buf := retrieveAll (stdin_buf c'),
                       paramsStream := retrieveAll (paramsStream c'),
                       params := [], gotRequest := False\<rparr>)
          else Inr ([], buf', c'))"

section \<open>Responses\<close>

definition stdout_header :: "16 word \<Rightarrow> 8 word \<Rightarrow> rec_header" where
  "stdout_header len padding =
     \<lparr>rh_version = 1, rh_type = kFcgiStdout, rh_id = hostToNetwork16 1,
      rh_length = hostToNetwork16 len, rh_padding = padding, rh_unused = 0\<rparr>"

definition endStdout :: "buffer \<Rightarrow> buffer res" where
  "endStdout buf =
     buf_append (header_bytes \<lparr>rh_version = 1, rh_type = kFcgiStdout, rh_id = hostToNetwork16 1,
                              rh_length = 0, rh_padding = 0, rh_unused = 0\<rparr>) buf"

definition endRequest :: "buffer \<Rightarrow> buffer res" where
  "endRequest buf =
     bind_r (buf_append (header_bytes
         \<lparr>rh_version = 1, rh_type = kFcgiEndRequest, rh_id = hostToNetwork16 1,
          rh_length = hostToNetwork16 (of_nat kRecordHeader), rh_padding = 0, rh_unused = 0\<rparr>) buf)
       (\<lambda>b. bind_r (appendInt32 0 b) (appendInt32 0))"

text \<open>\<^verbatim>\<open>static_cast<uint8_t>(-n & 7)\<close> on a \<^verbatim>\<open>size_t\<close>.\<close>

definition padding_of :: "nat \<Rightarrow> 8 word" where
  "padding_of n = ucast ((- (of_nat n :: 64 word)) AND 7)"

text \<open>One record: header, content, padding. The lengths of the strings are given.\<close>

definition append_record :: "16 word \<Rightarrow> 8 word \<Rightarrow> string \<Rightarrow> buffer \<Rightarrow> buffer res" where
  "append_record len padding content response =
     bind_r (buf_append (header_bytes (stdout_header len padding)) response)
       (\<lambda>b. bind_r (append_piece (piece_of_string content) b)
         (\<lambda>b'. buf_append (take (unat padding) (replicate 8 (CHR 0x00))) b'))"

definition full_record :: "string \<Rightarrow> nat \<Rightarrow> buffer \<Rightarrow> buffer res" where
  "full_record out i response =
     append_record (of_nat FCGI_MAX_LENGTH) (ucast ((- (of_nat FCGI_MAX_LENGTH :: 32 word)) AND 7))
       (take FCGI_MAX_LENGTH (drop (i * FCGI_MAX_LENGTH) out)) response"

definition empty_result :: string where
  "empty_result =
     ''Content-Type: text/html; charset=UTF-8'' @ [CR, LF] @
     ''Content-Length: '' @ show_nat (length ''Empty Result!'') @ [CR, LF, CR, LF] @ ''Empty Result!''"

definition respond :: "string \<Rightarrow> buffer \<Rightarrow> (string \<times> buffer) res" where
  "respond out0 response =
     (let out = (if out0 = [] then empty_result else out0)
      in bind_r
           (if length out \<le> FCGI_MAX_LENGTH
            then append_record (of_nat (length out)) (padding_of (length out)) out response
            else let numSubstrings = length out div FCGI_MAX_LENGTH
                 in bind_r (fold_r (full_record out) [0 ..< numSubstrings] response)
                   (\<lambda>b. if length out mod FCGI_MAX_LENGTH \<noteq> 0
                        then let sub = drop (FCGI_MAX_LENGTH * numSubstrings) out
                             in append_record (of_nat (length sub)) (padding_of (length sub)) sub b
                        else Inr b))
           (\<lambda>b. bind_r (endStdout b) (\<lambda>b'. bind_r (endRequest b') (\<lambda>b''. Inr (out, b'')))))"

section \<open>Lengths and pairs\<close>

text \<open>The length encoding of the protocol: one byte below 128, else four with the top bit set.\<close>

definition len_bytes :: "nat \<Rightarrow> char list" where
  "len_bytes n =
     (if n < 128 then mem_of (of_nat n :: 8 word)
      else rev (mem_of ((of_nat n :: 32 word) OR 0x80000000)))"

fun pair_bytes :: "(string \<times> string) list \<Rightarrow> char list" where
  "pair_bytes [] = []"
| "pair_bytes ((n, v) # ps) =
     len_bytes (length n) @ len_bytes (length v) @ n @ v @ pair_bytes ps"

lemma peekInt8_spec:
  assumes "buffer_ok b" and "readable b = mem_of (x :: 8 word) @ rest"
  shows "peekInt8 b = Inr x"
  using front_bytes [OF assms] by (simp add: peekInt8_def of_mem_mem_of)

lemma base256:
  "a < 256 \<Longrightarrow> b < 256 \<Longrightarrow> c < 256 \<Longrightarrow>
     a + 256 * (b + 256 * (c + 256 * (d + 256 * 0))) < 16777216 * Suc d" for a b c d :: nat
  by simp

lemma unsigned_eq_of_nat: "ucast (w :: 'a::len word) = (of_nat (unat w) :: 'b::len word)"
  by transfer simp

lemma top_byte:
  assumes "length cs = 4"
  shows "of_mem [last cs] = (ucast (drop_bit 24 (of_mem cs :: 32 word)) :: 8 word)"
proof -
  from assms obtain a b c d where cs: "cs = [a, b, c, d]"
    by (auto simp: length_Suc_conv numeral_eq_Suc)
  let ?n = "\<lambda>x. of_char x :: nat"
  have bounds: "?n a < 256" "?n b < 256" "?n c < 256" "?n d < 256"
    by (rule nat_of_char_less_256)+
  have lt: "nat_le cs < 2 ^ 32" using nat_le_bound [of cs] by (simp add: assms)
  have "nat_le cs div 16777216 = ?n d"
  proof (rule div_nat_eqI)
    show "16777216 * ?n d \<le> nat_le cs" by (simp add: cs)
    show "nat_le cs < 16777216 * Suc (?n d)" unfolding cs nat_le.simps using bounds(1-3) by (rule base256)
  qed
  then have "unat (drop_bit 24 (of_mem cs :: 32 word)) = ?n d"
    using lt by (simp add: of_mem_def unat_drop_bit_eq unat_of_nat) (simp add: drop_bit_eq_div)
  then show ?thesis
    by (simp add: cs of_mem_def [of "[d]"] unsigned_eq_of_nat)
qed

lemma top_bit_test: "(x :: 8 word) AND 0x80 = 0 \<longleftrightarrow> \<not> bit x 7"
  using bit_iff_and_push_bit_not_eq_0 [of x 7] by simp

lemma long_length_masked:
  assumes "n < 2 ^ 31"
  shows "((of_nat n :: 32 word) OR 0x80000000) AND 0x7fffffff = of_nat n"
proof -
  have small: "take_bit 31 (of_nat n :: 32 word) = of_nat n"
    using assms by (simp add: take_bit_of_nat take_bit_nat_eq_self)
  have "((of_nat n :: 32 word) OR push_bit 31 1) AND mask 31 =
      take_bit 31 (of_nat n :: 32 word) OR take_bit 31 (push_bit 31 (1 :: 32 word))"
    by (simp only: take_bit_eq_mask bit.conj_disj_distrib2)
  then show ?thesis using small by (simp add: take_bit_push_bit mask_eq_exp_minus_1)
qed

lemma readLen_long:
  assumes "buffer_ok b" and "readable b = rev (mem_of w) @ rest" and "bit (w :: 32 word) 31"
  shows "returns (readLen b) (\<lambda>(x, b'). x = w AND 0x7fffffff \<and> buffer_ok b' \<and> readable b' = rest)"
proof -
  obtain x xs where rx: "rev (mem_of w) = x # xs" by (cases "rev (mem_of w)") (auto dest: arg_cong [of _ _ length])
  then have lastw: "last (mem_of w) = x" by (metis hd_rev list.sel(1))
  let ?byte = "of_mem [x] :: 8 word"
  have byte: "?byte = ucast (drop_bit 24 w)"
    using top_byte [of "mem_of w"] lastw by (simp add: of_mem_mem_of)
  have set: "?byte AND 0x80 \<noteq> 0"
    using assms(3) by (simp add: top_bit_test byte bit_ucast_iff bit_drop_bit_eq)
  have first: "readable b = mem_of ?byte @ xs @ rest"
    using assms(2) rx by (simp add: mem_of_of_mem)
  have len: "4 \<le> readableBytes b" using length_readable [OF assms(1)] assms(2) by simp
  from readInt32_spec [OF assms(1), of w rest] assms(2)
  have "returns (readInt32 b) (\<lambda>(y, b'). y = w \<and> buffer_ok b' \<and> readable b' = rest)"
    by (simp add: mem_of_hostToNetwork)
  with set len peekInt8_spec [OF assms(1) first] show ?thesis
    by (auto simp: readLen_def elim!: returnsE)
qed

lemma scast_small:
  assumes "n < 128"
  shows "scast (of_nat n :: 8 word) = (of_nat n :: 32 word)"
proof -
  have "sint (of_nat n :: 8 word) = int n"
    using assms by (simp add: signed_of_nat signed_take_bit_int_eq_self)
  then show ?thesis by (simp add: scast_eq)
qed

lemma readLen_short:
  assumes "buffer_ok b" and "readable b = mem_of (of_nat n :: 8 word) @ rest" and "n < 128"
  shows "returns (readLen b) (\<lambda>(x, b'). x = of_nat n \<and> buffer_ok b' \<and> readable b' = rest)"
proof -
  let ?x = "of_nat n :: 8 word"
  have "\<not> bit n 7" using assms(3) by (simp add: bit_iff_odd)
  then have "\<not> bit ?x 7" by (simp add: bit_of_nat_iff)
  then have clear: "?x AND 0x80 = 0" by (simp add: top_bit_test)
  note cast = scast_small [OF assms(3)]
  have len: "1 \<le> readableBytes b" using length_readable [OF assms(1)] assms(2) by simp
  with readInt8_spec [OF assms(1,2)] peekInt8_spec [OF assms(1,2)] clear cast show ?thesis
    by (auto simp: readLen_def elim!: returnsE)
qed

lemma readLen_spec:
  assumes "buffer_ok b" and "readable b = len_bytes n @ rest" and "n < 2 ^ 31"
  shows "returns (readLen b) (\<lambda>(x, b'). x = of_nat n \<and> buffer_ok b' \<and> readable b' = rest)"
proof (cases "n < 128")
  case True
  with assms readLen_short [of b n rest] show ?thesis by (simp add: len_bytes_def)
next
  case False
  let ?w = "(of_nat n :: 32 word) OR 0x80000000"
  have "bit (0x80000000 :: 32 word) 31" by simp
  then have "bit ?w 31" by (simp add: bit_or_iff)
  with readLen_long [of b ?w rest] assms False long_length_masked [OF assms(3)] show ?thesis
    by (simp add: len_bytes_def)
qed

lemma small_length_word:
  assumes "n < 2 ^ 31"
  shows "(of_nat n :: 32 word) \<noteq> -1" and "unat (of_nat n :: 32 word) = n"
proof -
  show u: "unat (of_nat n :: 32 word) = n" using assms by (simp add: unat_of_nat)
  have "unat (-1 :: 32 word) = 2 ^ 32 - 1" by (simp add: unsigned_minus_1_eq_mask mask_eq_exp_minus_1)
  then show "(of_nat n :: 32 word) \<noteq> -1" using u assms by auto
qed

lemma small_lengths_add:
  "m < 2 ^ 31 \<Longrightarrow> n < 2 ^ 31 \<Longrightarrow> unat ((of_nat m :: 32 word) + of_nat n) = m + n"
  unfolding of_nat_add [symmetric] by (simp add: unat_of_nat del: of_nat_add)

definition pair_fits :: "string \<times> string \<Rightarrow> bool" where
  "pair_fits p \<longleftrightarrow> length (fst p) < 2 ^ 31 \<and> length (snd p) < 2 ^ 31"

lemma pair_bytes_nonempty: "pair_bytes (p # ps) \<noteq> []"
proof -
  have "len_bytes n \<noteq> []" for n by (auto simp: len_bytes_def dest: arg_cong [of _ _ length])
  then show ?thesis by (cases p) simp
qed

lemma parse_pairs_spec:
  "buffer_ok b \<Longrightarrow> readable b = pair_bytes kvs \<Longrightarrow> list_all pair_fits kvs \<Longrightarrow>
     returns (parse_pairs b ps) (\<lambda>(ok, b', ps').
       ok \<and> buffer_ok b' \<and> readable b' = [] \<and> ps' = fold (\<lambda>(k, v). map_set k v) kvs ps)"
proof (induction kvs arbitrary: b ps)
  case Nil
  then have "readableBytes b = 0" using length_readable by fastforce
  with Nil show ?case by (subst parse_pairs.simps) simp
next
  case (Cons p kvs)
  obtain n v where p: "p = (n, v)" by (cases p)
  with Cons.prems(3) have fits: "length n < 2 ^ 31" "length v < 2 ^ 31" by (simp_all add: pair_fits_def)
  have pos: "0 < readableBytes b"
    using length_readable [OF Cons.prems(1)] Cons.prems(2) pair_bytes_nonempty [of p kvs]
    by (metis length_greater_0_conv)
  from Cons.prems(2) p have r: "readable b = len_bytes (length n) @ len_bytes (length v) @ n @ v @ pair_bytes kvs"
    by simp
  from readLen_spec [OF Cons.prems(1) r fits(1)] obtain b1 where
    b1: "readLen b = Inr (of_nat (length n), b1)" "buffer_ok b1"
      "readable b1 = len_bytes (length v) @ n @ v @ pair_bytes kvs" by (auto elim!: returnsE)
  from readLen_spec [OF b1(2,3) fits(2)] obtain b2 where
    b2: "readLen b1 = Inr (of_nat (length v), b2)" "buffer_ok b2" "readable b2 = n @ v @ pair_bytes kvs"
    by (auto elim!: returnsE)
  have len2: "readableBytes b2 = length n + length v + length (pair_bytes kvs)"
    using length_readable [OF b2(2)] b2(3) by simp
  from retrieveAsString_spec [OF b2(2), of "length n"] b2(3) len2 obtain b3 where
    b3: "retrieveAsString (length n) b2 = Inr (n, b3)" "buffer_ok b3" "readable b3 = v @ pair_bytes kvs"
    by (auto elim!: returnsE)
  have len3: "length v \<le> readableBytes b3" using length_readable [OF b3(2)] b3(3) by simp
  from retrieveAsString_spec [OF b3(2), of "length v"] b3(3) len3 obtain b4 where
    b4: "retrieveAsString (length v) b3 = Inr (v, b4)" "buffer_ok b4" "readable b4 = pair_bytes kvs"
    by (auto elim!: returnsE)
  show ?case
    using Cons.IH [OF b4(2,3)] Cons.prems(3) pos b1 b2 b3 b4 len2 p fits small_length_word
      small_lengths_add [OF fits]
    by (subst parse_pairs.simps) simp
qed

text \<open>Whatever the bytes, parsing pairs ends normally.\<close>

lemma readInt32_any:
  assumes "buffer_ok b" and "4 \<le> readableBytes b"
  shows "returns (readInt32 b) (\<lambda>(x, b'). buffer_ok b')"
proof -
  let ?y = "of_mem (take 4 (readable b)) :: 32 word"
  have "mem_of ?y = take 4 (readable b)" using assms by (simp add: mem_of_of_mem)
  then have "readable b = mem_of (hostToNetwork32 (networkToHost32 ?y)) @ drop 4 (readable b)"
    by (simp add: endian_defs bswap_bswap)
  from readInt32_spec [OF assms(1) this] show ?thesis by (auto elim: returns_mono)
qed

lemma readInt8_any:
  assumes "buffer_ok b" and "1 \<le> readableBytes b"
  shows "\<exists>x b'. peekInt8 b = Inr x \<and> readInt8 b = Inr (x, b') \<and> buffer_ok b'"
proof -
  let ?y = "of_mem (take 1 (readable b)) :: 8 word"
  have "mem_of ?y = take 1 (readable b)" using assms by (intro mem_of_of_mem) simp_all
  then have r: "readable b = mem_of ?y @ drop 1 (readable b)" by simp
  from readInt8_spec [OF assms(1) r] peekInt8_spec [OF assms(1) r] show ?thesis
    by (auto elim!: returnsE)
qed

lemma clear_top_bit: "\<not> bit (x :: 8 word) 7 \<Longrightarrow> unat x < 128"
proof -
  assume "\<not> bit x 7"
  then have "\<not> bit (unat x) 7" by (simp add: bit_unsigned_iff)
  then have "even (unat x div 128)" by (simp add: bit_iff_odd)
  moreover have "unat x < 256" using unsigned_less [of x, where 'a = nat] by simp
  then have "unat x div 128 < 2" by (simp add: less_mult_imp_div_less)
  ultimately have "unat x div 128 = 0" by (auto simp: less_2_cases_iff)
  then show ?thesis by (simp add: div_eq_0_iff)
qed

lemma readLen_total:
  assumes "buffer_ok b"
  shows "returns (readLen b) (\<lambda>(x, b'). buffer_ok b' \<and> (x \<noteq> -1 \<longrightarrow> unat x < 2 ^ 31))"
proof (cases "1 \<le> readableBytes b")
  case True
  from readInt8_any [OF assms True] obtain x b1 where
    x: "peekInt8 b = Inr x" "readInt8 b = Inr (x, b1)" "buffer_ok b1" by blast
  show ?thesis
  proof (cases "x AND 0x80 = 0")
    case clear: True
    then have "unat x < 128" using clear_top_bit top_bit_test by blast
    then have "scast x = (of_nat (unat x) :: 32 word)" "unat (of_nat (unat x) :: 32 word) < 2 ^ 31"
      using scast_small [of "unat x"] small_length_word(2) [of "unat x"] by simp_all
    then show ?thesis using True x clear by (simp add: readLen_def)
  next
    case False
    have mask: "unat (w AND 0x7fffffff) < 2 ^ 31" for w :: "32 word"
    proof -
      have "w AND 0x7fffffff = take_bit 31 w" by (simp add: take_bit_eq_mask mask_eq_exp_minus_1)
      then show ?thesis using take_bit_nat_less_exp [of 31 "unat w"] by (simp add: unsigned_take_bit_eq)
    qed
    show ?thesis
    proof (cases "4 \<le> readableBytes b")
      case four: True
      with readInt32_any [OF assms four] True False x mask show ?thesis
        by (auto simp: readLen_def elim!: returnsE)
    qed (use True False x assms in \<open>simp add: readLen_def\<close>)
  qed
qed (simp add: readLen_def assms)

lemma lengths_no_overflow:
  assumes "unat (m :: 32 word) < 2 ^ 31" and "unat (n :: 32 word) < 2 ^ 31"
  shows "unat (m + n) = unat m + unat n"
  using small_lengths_add [OF assms] by simp

lemma parse_pairs_total:
  "buffer_ok b \<Longrightarrow> map_ok ps \<Longrightarrow>
     returns (parse_pairs b ps) (\<lambda>(ok, b', ps'). buffer_ok b' \<and> map_ok ps' \<and> (ok \<longrightarrow> readable b' = []))"
proof (induction b ps rule: parse_pairs.induct)
  case (1 b ps)
  note unf = parse_pairs.simps [of b ps]
  show ?case
  proof (cases "0 < readableBytes b")
    case False
    then have "readable b = []" using length_readable [OF 1(2)] by fastforce
    with False 1 show ?thesis by (simp add: unf)
  next
    case pos: True
    obtain n b1 where b1: "readLen b = Inr (n, b1)" "buffer_ok b1" "n \<noteq> -1 \<longrightarrow> unat n < 2 ^ 31"
      using readLen_total [OF 1(2)] by (auto elim!: returnsE)
    obtain v b2 where b2: "readLen b1 = Inr (v, b2)" "buffer_ok b2" "v \<noteq> -1 \<longrightarrow> unat v < 2 ^ 31"
      using readLen_total [OF b1(2)] by (auto elim!: returnsE)
    show ?thesis
    proof (cases "n \<noteq> -1 \<and> v \<noteq> -1 \<and> readableBytes b2 \<ge> unat (n + v)")
      case True
      with lengths_no_overflow [of n v] b1(3) b2(3)
      have room: "unat n + unat v \<le> readableBytes b2" by simp
      then obtain s3 b3 where b3: "retrieveAsString (unat n) b2 = Inr (s3, b3)" "buffer_ok b3"
        using retrieveAsString_spec [OF b2(2), of "unat n"] by (auto elim!: returnsE)
      have "unat v \<le> readableBytes b3" using retrieveAsString_readableBytes [OF b3(1)] room by simp
      then obtain s4 b4 where b4: "retrieveAsString (unat v) b3 = Inr (s4, b4)" "buffer_ok b4"
        using retrieveAsString_spec [OF b3(2), of "unat v"] by (auto elim!: returnsE)
      have "returns (parse_pairs b4 (map_set s3 s4 ps)) (\<lambda>(ok, b', ps').
          buffer_ok b' \<and> map_ok ps' \<and> (ok \<longrightarrow> readable b' = []))"
        using True pos b1(1) b2(1) b3(1) b4 1(3)
        by (intro 1(1) [OF pos b1(1) refl _ b2(1) refl _ _ b3(1) refl b4(1) refl])
          (auto simp: map_set_ok)
      with True pos b1 b2 b3 b4 show ?thesis by (simp add: unf)
    next
      case False
      with pos b1 b2 1(3) show ?thesis by (auto simp: unf)
    qed
  qed
qed

section \<open>Records on the wire\<close>

definition codec_ok :: "codec \<Rightarrow> bool" where
  "codec_ok c \<longleftrightarrow> buffer_ok (stdin_buf c) \<and> buffer_ok (paramsStream c) \<and> map_ok (params c)"

lemma mem8: "\<exists>a. mem_of (w :: 8 word) = [a]"
  by (simp add: mem_of_def)

lemma mem16: "\<exists>a b. mem_of (w :: 16 word) = [a, b]"
  by (simp add: mem_of_def numeral_2_eq_2)

lemma header_of_bytes: "header_of (header_bytes h) = h"
proof -
  obtain v t i l p u where h: "h = \<lparr>rh_version = v, rh_type = t, rh_id = i, rh_length = l,
      rh_padding = p, rh_unused = u\<rparr>" by (cases h)
  obtain v1 t1 i1 i2 l1 l2 p1 u1 where m: "mem_of v = [v1]" "mem_of t = [t1]" "mem_of i = [i1, i2]"
    "mem_of l = [l1, l2]" "mem_of p = [p1]" "mem_of u = [u1]"
    using that mem8 [of v] mem8 [of t] mem16 [of i] mem16 [of l] mem8 [of p] mem8 [of u] by metis
  have "of_mem [v1] = v" "of_mem [t1] = t" "of_mem [i1, i2] = i" "of_mem [l1, l2] = l"
    "of_mem [p1] = p" "of_mem [u1] = u"
    unfolding m [symmetric] by (simp_all add: of_mem_mem_of)
  then show ?thesis by (simp add: h header_bytes_def header_of_def m range_of_def)
qed

lemma length_header_bytes [simp]: "length (header_bytes h) = 8"
  by (simp add: header_bytes_def)

text \<open>The header as the parser uses it: length and id in host order.\<close>

definition host_header :: "char list \<Rightarrow> rec_header" where
  "host_header bs =
     (let raw = header_of (take kRecordHeader bs)
      in raw\<lparr>rh_id := networkToHost16 (rh_id raw), rh_length := networkToHost16 (rh_length raw)\<rparr>)"

text \<open>Cut the first complete record: its header, its content, and the bytes behind its padding.\<close>

definition cut_record :: "char list \<Rightarrow> ((rec_header \<times> char list) \<times> char list) option" where
  "cut_record bs =
     (if kRecordHeader \<le> length bs \<and> record_total (host_header bs) \<le> length bs
      then Some ((host_header bs, take (unat (rh_length (host_header bs))) (drop kRecordHeader bs)),
                 drop (record_total (host_header bs)) bs)
      else None)"

lemma host_header_append: "kRecordHeader \<le> length bs \<Longrightarrow> host_header (bs @ ys) = host_header bs"
  by (simp add: host_header_def)

interpretation fcgi: framing cut_record
proof unfold_locales
  fix bs f rest ys assume c: "cut_record bs = Some (f, rest)"
  then show "length rest < length bs"
    by (auto simp: cut_record_def record_total_def kRecordHeader_def split: if_splits)
  from c show "cut_record (bs @ ys) = Some (f, rest @ ys)"
    by (auto simp: cut_record_def host_header_append record_total_def split: if_splits)
qed

text \<open>What a record does to the codec.\<close>

definition handle_record :: "rec_header \<times> char list \<Rightarrow> codec \<Rightarrow> codec res" where
  "handle_record = (\<lambda>(h, content) c.
     if rh_type h = kFcgiBeginRequest
     then Inr (if kRecordHeader \<le> length content \<and> readInt16_at content = kFcgiResponder
               then c\<lparr>keepConn := (of_mem [content ! 2] = kFcgiKeepConn)\<rparr> else c)
     else if rh_type h = kFcgiParams then bind_r (onParams content c) (\<lambda>(_, c'). Inr c')
     else if rh_type h = kFcgiStdin then onStdin content c
     else Inr c)"

lemma dispatch_handles:
  assumes "buffer_ok buf" and "kRecordHeader \<le> readableBytes buf"
    and "record_total h \<le> readableBytes buf"
  shows "dispatch_record h buf c =
    handle_record (h, take (unat (rh_length h)) (drop kRecordHeader (readable buf))) c"
proof -
  let ?n = "unat (rh_length h)"
  have room: "kRecordHeader + ?n \<le> length (readable buf)"
    using assms by (simp add: record_total_def)
  then have fin: "peek buf + kRecordHeader + ?n \<le> writerIndex buf"
    using assms(1) by (auto simp: buffer_measures buffer_ok_def)
  have content: "range_of (storage buf) (peek buf + kRecordHeader) (peek buf + kRecordHeader + ?n) =
      take ?n (drop kRecordHeader (readable buf))"
    using fin by (simp add: readable_def drop_range_of take_range_of peek_def)
  have mem: "drop kRecordHeader (readable buf) = take (readableBytes buf - kRecordHeader)
      (drop kRecordHeader (drop (peek buf) (storage buf)))"
    by (simp add: readable_def range_of_def drop_take readableBytes_def peek_def)
  show ?thesis
  proof (cases "kRecordHeader \<le> ?n")
    case True
    with room assms have n: "2 \<le> readableBytes buf - kRecordHeader" "3 \<le> ?n" "3 \<le> readableBytes buf - kRecordHeader"
      by (simp_all add: kRecordHeader_def)
    have len: "length (drop (peek buf) (storage buf)) \<ge> readableBytes buf"
      using assms(1) by (auto simp: buffer_measures buffer_ok_def)
    have "take 2 (take ?n (drop kRecordHeader (readable buf))) =
        take 2 (drop kRecordHeader (drop (peek buf) (storage buf)))"
      using n by (simp add: mem min_def)
    moreover have "take ?n (drop kRecordHeader (readable buf)) ! 2 = drop (peek buf) (storage buf) ! (kRecordHeader + 2)"
      using n len by (simp add: mem add.commute)
    ultimately show ?thesis using True room assms content
      by (simp add: dispatch_record_def handle_record_def onBeginRequest_def readInt16_at_def Let_def
          record_total_def)
  next
    case False
    then show ?thesis using room assms content
      by (simp add: dispatch_record_def handle_record_def onBeginRequest_def Let_def record_total_def)
  qed
qed

lemma retrieve_record:
  assumes "buffer_ok buf" and "cut_record (readable buf) = Some (f, rest)"
  shows "returns (retrieve (record_total (host_header (readable buf))) buf)
           (\<lambda>b'. buffer_ok b' \<and> readable b' = rest)"
  using assms retrieve_spec [OF assms(1)] by (auto simp: cut_record_def split: if_splits)

lemma parseRecords_unfold:
  assumes "buffer_ok buf"
  shows "parseRecords buf c =
    (case cut_record (readable buf) of
       None \<Rightarrow> Inr (buf, c)
     | Some (f, _) \<Rightarrow> bind_r (handle_record f c)
         (\<lambda>c'. bind_r (retrieve (record_total (host_header (readable buf))) buf)
           (\<lambda>buf'. parseRecords buf' c')))"
proof (cases "kRecordHeader \<le> readableBytes buf")
  case False
  with assms show ?thesis by (simp add: parseRecords.simps [of buf] cut_record_def)
next
  case True
  let ?raw = "header_of (range_of (storage buf) (peek buf) (peek buf + kRecordHeader))"
  have "range_of (storage buf) (peek buf) (peek buf + kRecordHeader) = take kRecordHeader (readable buf)"
    using True by (simp add: readable_def take_range_of peek_def readableBytes_def)
  then have header: "?raw\<lparr>rh_id := networkToHost16 (rh_id ?raw), rh_length := networkToHost16 (rh_length ?raw)\<rparr> =
      host_header (readable buf)"
    by (simp add: host_header_def Let_def)
  show ?thesis
    using True assms dispatch_handles [OF assms True, of "host_header (readable buf)" c]
    by (auto simp: parseRecords.simps [of buf c] cut_record_def header Let_def)
qed

text \<open>The loop on the buffer is the fold of \<open>handle_record\<close> over the records of its content.\<close>

lemma parseRecords_refines:
  assumes "buffer_ok buf"
  shows "\<exists>k. parseRecords buf c = bind_r (fold_r handle_record (fst (cut_all cut_record (readable buf))) c)
           (\<lambda>c'. Inr (k, c')) \<and> buffer_ok k \<and> readable k = snd (cut_all cut_record (readable buf))"
  using assms
proof (induction "length (readable buf)" arbitrary: buf c rule: less_induct)
  case less
  show ?case
  proof (cases "cut_record (readable buf)")
    case None
    then show ?thesis
      using less.prems by (intro exI [of _ buf]) (simp add: parseRecords_unfold fcgi.cut_all_None)
  next
    case (Some fr)
    then obtain f rest where cut: "cut_record (readable buf) = Some (f, rest)" by (cases fr) auto
    from retrieve_record [OF less.prems cut] obtain buf' where
      buf': "retrieve (record_total (host_header (readable buf))) buf = Inr buf'" "buffer_ok buf'"
        "readable buf' = rest" by (auto elim: returnsE)
    have shorter: "length (readable buf') < length (readable buf)"
      using fcgi.cut_shortens [OF cut] buf'(3) by simp
    note IH = less.hyps [OF shorter buf'(2)]
    obtain k where k: "buffer_ok k" "readable k = snd (cut_all cut_record rest)"
      using IH [of c] buf'(3) by auto
    show ?thesis
    proof (cases "handle_record f c")
      case (Inl e)
      with k cut less.prems show ?thesis
        by (intro exI [of _ k]) (simp add: parseRecords_unfold fcgi.cut_all_Some)
    next
      case (Inr c')
      with IH [of c'] cut less.prems buf' show ?thesis
        by (auto simp: parseRecords_unfold [OF less.prems] fcgi.cut_all_Some)
    qed
  qed
qed

lemma handle_record_ok:
  assumes "codec_ok c"
  shows "returns (handle_record f c) codec_ok"
proof (cases f)
  case (Pair h content)
  have params: "returns (onParams content c) (\<lambda>(_, c'). codec_ok c')"
  proof (cases "content = []")
    case True
    with parse_pairs_total [of "paramsStream c" "params c"] assms show ?thesis
      by (auto simp: onParams_def parseAllParams_def codec_ok_def elim!: returnsE)
  next
    case False
    with buf_append_spec [of "paramsStream c" content] assms show ?thesis
      by (auto simp: onParams_def codec_ok_def elim!: returnsE)
  qed
  have stdin: "returns (onStdin content c) codec_ok"
    using buf_append_spec [of "stdin_buf c" content] assms
    by (auto simp: onStdin_def codec_ok_def elim!: returnsE)
  from params stdin assms Pair show ?thesis
    by (auto simp: handle_record_def codec_ok_def elim!: returnsE)
qed

section \<open>Encoded requests\<close>

definition encode_record :: "8 word \<Rightarrow> char list \<Rightarrow> char list \<Rightarrow> char list" where
  "encode_record t content padding =
     header_bytes \<lparr>rh_version = 1, rh_type = t, rh_id = hostToNetwork16 1,
       rh_length = hostToNetwork16 (of_nat (length content)),
       rh_padding = of_nat (length padding), rh_unused = 0\<rparr> @ content @ padding"

definition host_record_header :: "8 word \<Rightarrow> nat \<Rightarrow> nat \<Rightarrow> rec_header" where
  "host_record_header t len pad =
     \<lparr>rh_version = 1, rh_type = t, rh_id = 1, rh_length = of_nat len,
      rh_padding = of_nat pad, rh_unused = 0\<rparr>"

lemma cut_encoded:
  assumes "length content < 2 ^ 16" and "length padding < 2 ^ 8"
  shows "cut_record (encode_record t content padding @ rest) =
    Some ((host_record_header t (length content) (length padding), content), rest)"
proof -
  let ?bs = "encode_record t content padding @ rest"
  have "take kRecordHeader ?bs =
      header_bytes \<lparr>rh_version = 1, rh_type = t, rh_id = hostToNetwork16 1,
       rh_length = hostToNetwork16 (of_nat (length content)),
       rh_padding = of_nat (length padding), rh_unused = 0\<rparr>"
    by (simp add: encode_record_def kRecordHeader_def)
  then have h: "host_header ?bs = host_record_header t (length content) (length padding)"
    by (simp add: host_header_def header_of_bytes host_record_header_def)
  have len: "unat (of_nat (length content) :: 16 word) = length content"
    "unat (of_nat (length padding) :: 8 word) = length padding"
    using assms by (simp_all add: unat_of_nat)
  have "length ?bs = 8 + length content + length padding + length rest"
    by (simp add: encode_record_def)
  then show ?thesis
    by (simp add: cut_record_def h record_total_def host_record_header_def len kRecordHeader_def)
      (simp add: encode_record_def)
qed

fun encode_records :: "8 word \<Rightarrow> string list \<Rightarrow> char list" where
  "encode_records t [] = []"
| "encode_records t (c # cs) = encode_record t c [] @ encode_records t cs"

lemma cut_all_encoded:
  "list_all (\<lambda>c. length c < 2 ^ 16) cs \<Longrightarrow>
     cut_all cut_record (encode_records t cs @ rest) =
       (map (\<lambda>c. (host_record_header t (length c) 0, c)) cs @ fst (cut_all cut_record rest),
        snd (cut_all cut_record rest))"
proof (induction cs)
  case (Cons c cs)
  with cut_encoded [of c "[]" t "encode_records t cs @ rest"] show ?case
    by (simp add: fcgi.cut_all_Some)
qed simp

text \<open>A responder request: begin, parameters, stdin.\<close>

definition begin_body :: "bool \<Rightarrow> char list" where
  "begin_body keep = [CHR 0x00, CHR 0x01, if keep then CHR 0x01 else CHR 0x00] @ replicate 5 (CHR 0x00)"

definition encode_request :: "bool \<Rightarrow> string list \<Rightarrow> string list \<Rightarrow> char list" where
  "encode_request keep param_chunks stdin_chunks =
     encode_record kFcgiBeginRequest (begin_body keep) [] @
     encode_records kFcgiParams param_chunks @ encode_record kFcgiParams [] [] @
     encode_records kFcgiStdin stdin_chunks @ encode_record kFcgiStdin [] []"

definition chunk_ok :: "string \<Rightarrow> bool" where
  "chunk_ok c \<longleftrightarrow> c \<noteq> [] \<and> length c < 2 ^ 16"

lemma fold_params_chunks:
  "list_all chunk_ok cs \<Longrightarrow> buffer_ok (paramsStream c) \<Longrightarrow>
     \<exists>b. fold_r handle_record (map (\<lambda>x. (host_record_header kFcgiParams (length x) 0, x)) cs) c =
           Inr (c\<lparr>paramsStream := b\<rparr>) \<and> buffer_ok b \<and> readable b = readable (paramsStream c) @ concat cs"
proof (induction cs arbitrary: c)
  case (Cons x cs)
  from Cons.prems(2) buf_append_spec [of "paramsStream c" x] obtain b where
    b: "buf_append x (paramsStream c) = Inr b" "buffer_ok b" "readable b = readable (paramsStream c) @ x"
    by (auto elim: returnsE)
  have "handle_record (host_record_header kFcgiParams (length x) 0, x) c = Inr (c\<lparr>paramsStream := b\<rparr>)"
    using Cons.prems(1) b by (simp add: handle_record_def host_record_header_def fcgi_consts onParams_def chunk_ok_def)
  with Cons.IH [of "c\<lparr>paramsStream := b\<rparr>"] Cons.prems(1) b show ?case by simp
next
  case Nil
  then show ?case by (intro exI [of _ "paramsStream c"]) simp
qed

lemma fold_stdin_chunks:
  "list_all chunk_ok cs \<Longrightarrow> buffer_ok (stdin_buf c) \<Longrightarrow>
     \<exists>b. fold_r handle_record (map (\<lambda>x. (host_record_header kFcgiStdin (length x) 0, x)) cs) c =
           Inr (c\<lparr>stdin_buf := b\<rparr>) \<and> buffer_ok b \<and> readable b = readable (stdin_buf c) @ concat cs"
proof (induction cs arbitrary: c)
  case (Cons x cs)
  from Cons.prems(2) buf_append_spec [of "stdin_buf c" x] obtain b where
    b: "buf_append x (stdin_buf c) = Inr b" "buffer_ok b" "readable b = readable (stdin_buf c) @ x"
    by (auto elim: returnsE)
  have "handle_record (host_record_header kFcgiStdin (length x) 0, x) c = Inr (c\<lparr>stdin_buf := b\<rparr>)"
    using Cons.prems(1) b by (simp add: handle_record_def host_record_header_def fcgi_consts onStdin_def chunk_ok_def)
  with Cons.IH [of "c\<lparr>stdin_buf := b\<rparr>"] Cons.prems(1) b show ?case by simp
next
  case Nil
  then show ?case by (intro exI [of _ "stdin_buf c"]) simp
qed

lemma begin_body_role: "readInt16_at (begin_body keep) = 1"
proof -
  have "mem_of (hostToNetwork16 1) = [CHR 0x00, CHR 0x01]"
    unfolding mem_of_hostToNetwork by (simp add: mem_of_def numeral_2_eq_2 char_of_def bit_0)
  then have "of_mem [CHR 0x00, CHR 0x01] = hostToNetwork16 1"
    using of_mem_mem_of [of "hostToNetwork16 1"] by simp
  then show ?thesis by (simp add: readInt16_at_def begin_body_def)
qed

lemma fold_request:
  assumes "codec_ok c" and "readable (paramsStream c) = []"
    and "list_all chunk_ok pcs" and "concat pcs = pair_bytes kvs" and "list_all pair_fits kvs"
    and "list_all chunk_ok scs"
  shows "\<exists>b1 b2. fold_r handle_record
     ((host_record_header kFcgiBeginRequest 8 0, begin_body keep) #
      map (\<lambda>x. (host_record_header kFcgiParams (length x) 0, x)) pcs @
      (host_record_header kFcgiParams 0 0, []) #
      map (\<lambda>x. (host_record_header kFcgiStdin (length x) 0, x)) scs @
      [(host_record_header kFcgiStdin 0 0, [])]) c =
    Inr (c\<lparr>keepConn := keep, paramsStream := b1, params := fold (\<lambda>(k, v). map_set k v) kvs (params c),
           stdin_buf := b2, gotRequest := True\<rparr>) \<and>
    buffer_ok b1 \<and> readable b1 = [] \<and> buffer_ok b2 \<and> readable b2 = readable (stdin_buf c) @ concat scs"
proof -
  have bufs: "buffer_ok (paramsStream c)" "buffer_ok (stdin_buf c)" using assms(1) by (auto simp: codec_ok_def)
  let ?c1 = "c\<lparr>keepConn := keep\<rparr>"
  have "handle_record (host_record_header kFcgiBeginRequest 8 0, begin_body keep) c = Inr ?c1"
    using begin_body_role [of keep]
    by (cases keep) (simp_all add: handle_record_def host_record_header_def begin_body_def kRecordHeader_def
        of_mem_def fcgi_consts)
  moreover from fold_params_chunks [OF assms(3), of ?c1] bufs assms(2,4) obtain b where
    b: "fold_r handle_record (map (\<lambda>x. (host_record_header kFcgiParams (length x) 0, x)) pcs) ?c1 =
        Inr (?c1\<lparr>paramsStream := b\<rparr>)" "buffer_ok b" "readable b = pair_bytes kvs" by auto
  moreover from parse_pairs_spec [OF b(2,3) assms(5), of "params c"] obtain b1 where
    b1: "parse_pairs b (params c) = Inr (True, b1, fold (\<lambda>(k, v). map_set k v) kvs (params c))"
      "buffer_ok b1" "readable b1 = []" by (auto elim!: returnsE)
  let ?c2 = "c\<lparr>keepConn := keep, paramsStream := b1, params := fold (\<lambda>(k, v). map_set k v) kvs (params c)\<rparr>"
  have "handle_record (host_record_header kFcgiParams 0 0, []) (?c1\<lparr>paramsStream := b\<rparr>) = Inr ?c2"
    using b1 by (simp add: handle_record_def host_record_header_def fcgi_consts onParams_def parseAllParams_def)
  moreover from fold_stdin_chunks [OF assms(6), of ?c2] bufs obtain b2 where
    "fold_r handle_record (map (\<lambda>x. (host_record_header kFcgiStdin (length x) 0, x)) scs) ?c2 =
      Inr (?c2\<lparr>stdin_buf := b2\<rparr>)" "buffer_ok b2" "readable b2 = readable (stdin_buf c) @ concat scs" by auto
  moreover have "handle_record (host_record_header kFcgiStdin 0 0, []) (?c2\<lparr>stdin_buf := b2\<rparr>) =
      Inr (?c2\<lparr>stdin_buf := b2, gotRequest := True\<rparr>)"
    by (simp add: handle_record_def host_record_header_def fcgi_consts onStdin_def)
  ultimately show ?thesis using b1
    by (intro exI [of _ b1] exI [of _ b2]) (simp add: fold_r_append)
qed

section \<open>Padding and responses\<close>

lemma padding_of_int: "uint (padding_of n) = (- int n) mod 8"
proof -
  let ?w = "- (of_nat n :: 64 word)"
  have "?w AND 7 = take_bit 3 ?w" by (simp add: take_bit_eq_mask mask_eq_exp_minus_1)
  then have "uint (?w AND 7) = take_bit 3 (uint ?w)" by (simp add: unsigned_take_bit_eq)
  also have "uint ?w = take_bit 64 (- int n)"
    by (simp add: uint_word_ariths unsigned_of_nat take_bit_eq_mod mod_minus_eq of_nat_mod)
  finally have "uint (?w AND 7) = (- int n) mod 8"
    by (simp add: take_bit_eq_mod mod_mod_cancel)
  moreover have "(- int n) mod 8 < 256" by (rule order_less_trans [OF pos_mod_bound]) simp_all
  ultimately show ?thesis
    by (simp add: padding_of_def unsigned_ucast_eq take_bit_int_eq_self)
qed

lemma padding_of_spec: "unat (padding_of n) < 8" "8 dvd n + unat (padding_of n)"
proof -
  have u: "int (unat (padding_of n)) = (- int n) mod 8" using padding_of_int by simp
  then show "unat (padding_of n) < 8" by linarith
  have "int (n + unat (padding_of n)) mod 8 = (int n + (- int n) mod 8) mod 8" using u by simp
  also have "\<dots> = 0" by (simp add: mod_add_right_eq)
  finally show "8 dvd n + unat (padding_of n)" by (metis dvd_eq_mod_eq_0 of_nat_eq_0_iff of_nat_mod of_nat_numeral)
qed

text \<open>The records of a response as the sender of the request sees them.\<close>

fun stdout_records :: "string list \<Rightarrow> char list" where
  "stdout_records [] = []"
| "stdout_records (c # cs) =
     encode_record kFcgiStdout c (replicate (unat (padding_of (length c))) (CHR 0x00)) @ stdout_records cs"

definition end_body :: "char list" where
  "end_body = replicate 8 (CHR 0x00)"

lemma append_record_spec:
  assumes "buffer_ok b" and "length content < 2 ^ 16" and "pad = padding_of (length content)"
  shows "returns (append_record (of_nat (length content)) pad content b)
    (\<lambda>b'. buffer_ok b' \<and> readable b' = readable b @ stdout_records [content])"
proof -
  let ?h = "header_bytes (stdout_header (of_nat (length content)) pad)"
  have "unat pad < 8" using assms(3) padding_of_spec(1) by simp
  then have pads: "take (unat pad) (replicate 8 (CHR 0x00)) = replicate (unat pad) (CHR 0x00)"
    by (simp add: min_def)
  from buf_append_spec [OF assms(1), of ?h] obtain b1 where
    b1: "buf_append ?h b = Inr b1" "buffer_ok b1" "readable b1 = readable b @ ?h" by (auto elim: returnsE)
  have piece: "append_piece (piece_of_string content) b1 = buf_append content b1"
    using piece_of_string_ok [of content] assms(2) by (auto simp: append_piece_def sp_ok_def view_def)
  from buf_append_spec [OF b1(2), of content] obtain b2 where
    b2: "buf_append content b1 = Inr b2" "buffer_ok b2" "readable b2 = readable b @ ?h @ content"
    using b1(3) by (auto elim: returnsE)
  from buf_append_spec [OF b2(2), of "replicate (unat pad) (CHR 0x00)"] b1 b2 piece pads assms(3)
  show ?thesis
    by (simp add: append_record_def stdout_header_def encode_record_def)
qed

lemma full_padding: "(ucast ((- (of_nat FCGI_MAX_LENGTH :: 32 word)) AND 7) :: 8 word) = padding_of 65535"
proof -
  have "padding_of 65535 = 1" by (simp add: padding_of_def)
  then show ?thesis by (simp add: FCGI_MAX_LENGTH_def)
qed

lemma stdout_records_append: "stdout_records (xs @ ys) = stdout_records xs @ stdout_records ys"
  by (induction xs) simp_all

lemma full_records_spec:
  assumes "k * 65535 \<le> length out" and "buffer_ok b"
  shows "returns (fold_r (full_record out) [0 ..< k] b) (\<lambda>b'. buffer_ok b' \<and>
    readable b' = readable b @ stdout_records (map (\<lambda>i. take 65535 (drop (i * 65535) out)) [0 ..< k]))"
  using assms
proof (induction k)
  case (Suc k)
  from Suc obtain b1 where b1: "fold_r (full_record out) [0 ..< k] b = Inr b1" "buffer_ok b1"
    "readable b1 = readable b @ stdout_records (map (\<lambda>i. take 65535 (drop (i * 65535) out)) [0 ..< k])"
    by (auto elim: returnsE)
  have len: "length (take 65535 (drop (k * 65535) out)) = 65535" using Suc.prems(1) by simp
  have "full_record out k b1 = append_record (of_nat (length (take 65535 (drop (k * 65535) out))))
      (padding_of (length (take 65535 (drop (k * 65535) out)))) (take 65535 (drop (k * 65535) out)) b1"
    unfolding len by (simp add: full_record_def full_padding) (simp add: FCGI_MAX_LENGTH_def)
  with append_record_spec [OF b1(2), of "take 65535 (drop (k * 65535) out)"] b1 len
  show ?case by (simp add: fold_r_append stdout_records_append)
qed simp

lemma chunks_of_concat:
  "concat (map (\<lambda>i. take m (drop (i * m) xs)) [0 ..< k]) = take (k * m) xs"
proof (induction k)
  case (Suc k)
  then show ?case using take_add [of "k * m" m xs] by (simp add: add.commute)
qed simp

text \<open>The contents of the stdout records \<^verbatim>\<open>respond\<close> writes.\<close>

definition response_chunks :: "string \<Rightarrow> string list" where
  "response_chunks out =
     (if length out \<le> FCGI_MAX_LENGTH then [out]
      else map (\<lambda>i. take FCGI_MAX_LENGTH (drop (i * FCGI_MAX_LENGTH) out))
             [0 ..< length out div FCGI_MAX_LENGTH] @
           (if length out mod FCGI_MAX_LENGTH \<noteq> 0
            then [drop (FCGI_MAX_LENGTH * (length out div FCGI_MAX_LENGTH)) out] else []))"

lemma concat_response_chunks: "concat (response_chunks out) = out"
proof (cases "length out mod FCGI_MAX_LENGTH = 0")
  case True
  then have "length out div FCGI_MAX_LENGTH * FCGI_MAX_LENGTH = length out"
    by (metis add.right_neutral div_mult_mod_eq)
  with True show ?thesis by (simp add: response_chunks_def chunks_of_concat)
next
  case False
  then show ?thesis by (simp add: response_chunks_def chunks_of_concat mult.commute)
qed

lemma response_chunks_bound:
  assumes "c \<in> set (response_chunks out)"
  shows "length c < 2 ^ 16"
proof -
  have "length (drop (FCGI_MAX_LENGTH * (length out div FCGI_MAX_LENGTH)) out) = length out mod FCGI_MAX_LENGTH"
    by (simp add: minus_mult_div_eq_mod)
  moreover have "length out mod FCGI_MAX_LENGTH < FCGI_MAX_LENGTH" by (simp add: FCGI_MAX_LENGTH_def)
  ultimately have "length c \<le> FCGI_MAX_LENGTH"
    using assms by (auto simp: response_chunks_def split: if_splits)
  then show ?thesis by (simp add: FCGI_MAX_LENGTH_def)
qed

definition end_records :: "char list" where
  "end_records = encode_record kFcgiStdout [] [] @ encode_record kFcgiEndRequest end_body []"

lemma append_ends_spec:
  assumes "buffer_ok b"
  shows "returns (bind_r (endStdout b) endRequest) (\<lambda>b'. buffer_ok b' \<and> readable b' = readable b @ end_records)"
proof -
  let ?e = "encode_record kFcgiStdout [] []"
  let ?h = "header_bytes \<lparr>rh_version = 1, rh_type = kFcgiEndRequest, rh_id = hostToNetwork16 1,
          rh_length = hostToNetwork16 (of_nat kRecordHeader), rh_padding = 0, rh_unused = 0\<rparr>"
  have zero: "hostToNetwork16 0 = 0" "mem_of (hostToNetwork32 0) = replicate 4 (CHR 0x00)"
    by (simp_all add: endian_defs bswap_0 mem_of_0)
  from buf_append_spec [OF assms, of ?e] obtain b1 where
    b1: "endStdout b = Inr b1" "buffer_ok b1" "readable b1 = readable b @ ?e"
    by (auto simp: endStdout_def encode_record_def zero elim: returnsE)
  from buf_append_spec [OF b1(2), of ?h] obtain b2 where
    b2: "buf_append ?h b1 = Inr b2" "buffer_ok b2" "readable b2 = readable b1 @ ?h" by (auto elim: returnsE)
  from buf_append_spec [OF b2(2), of "replicate 4 (CHR 0x00)"] obtain b3 where
    b3: "appendInt32 0 b2 = Inr b3" "buffer_ok b3" "readable b3 = readable b2 @ replicate 4 (CHR 0x00)"
    by (auto simp: appendInt32_def zero elim: returnsE)
  from buf_append_spec [OF b3(2), of "replicate 4 (CHR 0x00)"] obtain b4 where
    b4: "appendInt32 0 b3 = Inr b4" "buffer_ok b4" "readable b4 = readable b3 @ replicate 4 (CHR 0x00)"
    by (auto simp: appendInt32_def zero elim: returnsE)
  have "end_records = ?e @ ?h @ replicate 4 (CHR 0x00) @ replicate 4 (CHR 0x00)"
    by (simp add: end_records_def encode_record_def [of kFcgiEndRequest] end_body_def kRecordHeader_def
        flip: replicate_add)
  with b1 b2 b3 b4 show ?thesis by (simp add: endRequest_def)
qed

lemma respond_spec:
  fixes out :: string
  assumes "buffer_ok b"
  defines "out' \<equiv> (if out = [] then empty_result else out)"
  shows "returns (respond out b) (\<lambda>(o', b'). o' = out' \<and> buffer_ok b' \<and>
    readable b' = readable b @ stdout_records (response_chunks out') @ end_records)"
proof -
  have body: "returns
      (if length out' \<le> FCGI_MAX_LENGTH
       then append_record (of_nat (length out')) (padding_of (length out')) out' b
       else let numSubstrings = length out' div FCGI_MAX_LENGTH
            in bind_r (fold_r (full_record out') [0 ..< numSubstrings] b)
              (\<lambda>b. if length out' mod FCGI_MAX_LENGTH \<noteq> 0
                   then let sub = drop (FCGI_MAX_LENGTH * numSubstrings) out'
                        in append_record (of_nat (length sub)) (padding_of (length sub)) sub b
                   else Inr b))
      (\<lambda>b'. buffer_ok b' \<and> readable b' = readable b @ stdout_records (response_chunks out'))"
  proof (cases "length out' \<le> FCGI_MAX_LENGTH")
    case True
    with append_record_spec [OF assms(1), of out'] show ?thesis
      by (simp add: response_chunks_def FCGI_MAX_LENGTH_def)
  next
    case False
    let ?k = "length out' div FCGI_MAX_LENGTH"
    let ?sub = "drop (FCGI_MAX_LENGTH * ?k) out'"
    have "?k * 65535 \<le> length out'" by (simp add: FCGI_MAX_LENGTH_def)
    from full_records_spec [OF this assms(1)] obtain b1 where
      b1: "fold_r (full_record out') [0 ..< ?k] b = Inr b1" "buffer_ok b1"
        "readable b1 = readable b @ stdout_records (map (\<lambda>i. take 65535 (drop (i * 65535) out')) [0 ..< ?k])"
      by (auto elim: returnsE)
    show ?thesis
    proof (cases "length out' mod FCGI_MAX_LENGTH = 0")
      case True
      with False b1 show ?thesis by (simp add: response_chunks_def) (simp add: FCGI_MAX_LENGTH_def)
    next
      case rest: False
      have "length ?sub < 2 ^ 16"
        using response_chunks_bound [of ?sub out'] False rest by (simp add: response_chunks_def)
      from append_record_spec [OF b1(2) this refl] False rest b1 show ?thesis
        by (simp add: response_chunks_def stdout_records_append Let_def) (simp add: FCGI_MAX_LENGTH_def)
    qed
  qed
  then obtain b1 where b1: "(if length out' \<le> FCGI_MAX_LENGTH
       then append_record (of_nat (length out')) (padding_of (length out')) out' b
       else let numSubstrings = length out' div FCGI_MAX_LENGTH
            in bind_r (fold_r (full_record out') [0 ..< numSubstrings] b)
              (\<lambda>b. if length out' mod FCGI_MAX_LENGTH \<noteq> 0
                   then let sub = drop (FCGI_MAX_LENGTH * numSubstrings) out'
                        in append_record (of_nat (length sub)) (padding_of (length sub)) sub b
                   else Inr b)) = Inr b1"
    "buffer_ok b1" "readable b1 = readable b @ stdout_records (response_chunks out')"
    by (rule returnsE) auto
  from append_ends_spec [OF b1(2)] obtain b2 b3 where
    "endStdout b1 = Inr b2" "endRequest b2 = Inr b3" "buffer_ok b3" "readable b3 = readable b1 @ end_records"
    by (auto simp: bind_r_eq_Inr elim!: returnsE)
  with b1 show ?thesis by (simp only: respond_def Let_def [of out'] out'_def [symmetric] bind_r_simps
      returns_simps split_conv append_assoc simp_thms)
qed

lemma padding_short: "length (replicate (unat (padding_of n)) x) < 2 ^ 8"
  using padding_of_spec(1) [of n] by simp

lemma cut_all_stdout_records:
  "\<forall>c \<in> set cs. length c < 2 ^ 16 \<Longrightarrow>
     cut_all cut_record (stdout_records cs @ rest) =
       (map (\<lambda>c. (host_record_header kFcgiStdout (length c) (unat (padding_of (length c))), c)) cs @
          fst (cut_all cut_record rest),
        snd (cut_all cut_record rest))"
proof (induction cs)
  case (Cons c cs)
  then show ?case
    using cut_encoded [of c "replicate (unat (padding_of (length c))) (CHR 0x00)" kFcgiStdout
        "stdout_records cs @ rest"] padding_short [of "length c"]
    by (simp add: fcgi.cut_all_Some)
qed simp

lemma cut_all_end_records:
  "cut_all cut_record end_records =
     ([(host_record_header kFcgiStdout 0 0, []), (host_record_header kFcgiEndRequest 8 0, end_body)], [])"
proof -
  have last: "cut_record (encode_record kFcgiEndRequest end_body []) =
      Some ((host_record_header kFcgiEndRequest 8 0, end_body), [])"
    using cut_encoded [of end_body "[]" kFcgiEndRequest "[]"] by (simp add: end_body_def)
  have nil: "cut_record [] = None" by (simp add: cut_record_def kRecordHeader_def)
  show ?thesis
    using cut_encoded [of "[]" "[]" kFcgiStdout "encode_record kFcgiEndRequest end_body []"] last nil
    by (simp add: end_records_def fcgi.cut_all_Some fcgi.cut_all_None)
qed

section \<open>Messages\<close>

fun feed_records :: "string list \<Rightarrow> buffer \<Rightarrow> codec \<Rightarrow> (buffer \<times> codec) res" where
  "feed_records [] buf c = Inr (buf, c)"
| "feed_records (x # xs) buf c =
     bind_r (buf_append x buf) (\<lambda>b. bind_r (parseRecords b c) (\<lambda>(b', c'). feed_records xs b' c'))"

lemma feed_records_fold:
  assumes "buffer_ok buf" and "codec_ok c"
  shows "\<exists>k c'. feed_records xs buf c = Inr (k, c') \<and>
    fold_r handle_record (fst (cut_chunks cut_record (readable buf) xs)) c = Inr c' \<and>
    buffer_ok k \<and> codec_ok c' \<and> readable k = snd (cut_chunks cut_record (readable buf) xs)"
  using assms
proof (induction xs arbitrary: buf c)
  case (Cons x xs)
  from buf_append_spec [OF Cons.prems(1), of x] obtain b where
    b: "buf_append x buf = Inr b" "buffer_ok b" "readable b = readable buf @ x" by (auto elim: returnsE)
  let ?fs = "cut_all cut_record (readable buf @ x)"
  from parseRecords_refines [OF b(2), of c] b(3) obtain k where
    k: "parseRecords b c = bind_r (fold_r handle_record (fst ?fs) c) (\<lambda>c'. Inr (k, c'))"
      "buffer_ok k" "readable k = snd ?fs" by auto
  have "returns (fold_r handle_record (fst ?fs) c) codec_ok"
    using Cons.prems(2) handle_record_ok by (rule fold_r_invariant)
  then obtain c1 where c1: "fold_r handle_record (fst ?fs) c = Inr c1" "codec_ok c1" by (rule returnsE)
  from Cons.IH [OF k(2) c1(2)] show ?case
    using b(1) k c1(1) by (auto simp: split_beta Let_def fold_r_append)
qed simp

section \<open>Properties\<close>


definition small_codec :: codec where
  "small_codec = \<lparr>gotRequest = False, keepConn = False, stdin_buf = retrieveAll small_buffer,
                  paramsStream = retrieveAll small_buffer, params = []\<rparr>"

lemma small_codec_ok [simp]: "codec_ok small_codec"
  by (simp add: small_codec_def codec_ok_def)



definition request_bytes :: "char list" where
  "request_bytes = encode_request False [pair_bytes [(''QUERY'', ''a=1'')]] [''body'']"

definition fcgi_buffer :: buffer where
  "fcgi_buffer = \<lparr>storage = replicate 8 (CHR 0x00) @ request_bytes, readerIndex = 8,
                  writerIndex = 8 + length request_bytes\<rparr>"


text \<open>
  What \<^verbatim>\<open>respond\<close> appends is a sequence of complete records: stdout records whose
  contents, none longer than the protocol allows, concatenate to the output (or to the
  stand-in page when there is none), then the empty stdout record and the end-request
  record; every record is padded to a multiple of eight bytes and nothing is left over.
\<close>

theorem respond_read_back:
  assumes "buffer_ok b"
  shows "returns (respond out b) (\<lambda>(out', b'). buffer_ok b' \<and>
    out' = (if out = [] then empty_result else out) \<and>
    (\<exists>chunks wire. readable b' = readable b @ wire \<and> concat chunks = out' \<and>
       list_all (\<lambda>c. length c \<le> FCGI_MAX_LENGTH) chunks \<and>
       cut_all cut_record wire =
         (map (\<lambda>c. (host_record_header kFcgiStdout (length c) (unat (padding_of (length c))), c)) chunks @
            [(host_record_header kFcgiStdout 0 0, []), (host_record_header kFcgiEndRequest 8 0, end_body)],
          []) \<and>
       (\<forall>c \<in> set chunks. 8 dvd length c + unat (padding_of (length c)))))"
proof (rule returns_mono [OF respond_spec [OF assms]])
  let ?out = "if out = [] then empty_result else out"
  let ?cs = "response_chunks ?out"
  have bound: "\<forall>c \<in> set ?cs. length c < 2 ^ 16" using response_chunks_bound by blast
  then have "list_all (\<lambda>c. length c \<le> FCGI_MAX_LENGTH) ?cs"
    by (fastforce simp: list_all_iff FCGI_MAX_LENGTH_def)
  with cut_all_stdout_records [OF bound, of end_records]
  show "case r of (out', b') \<Rightarrow> buffer_ok b' \<and> out' = ?out \<and>
    (\<exists>chunks wire. readable b' = readable b @ wire \<and> concat chunks = out' \<and>
       list_all (\<lambda>c. length c \<le> FCGI_MAX_LENGTH) chunks \<and>
       cut_all cut_record wire =
         (map (\<lambda>c. (host_record_header kFcgiStdout (length c) (unat (padding_of (length c))), c)) chunks @
            [(host_record_header kFcgiStdout 0 0, []), (host_record_header kFcgiEndRequest 8 0, end_body)],
          []) \<and>
       (\<forall>c \<in> set chunks. 8 dvd length c + unat (padding_of (length c))))"
    if "case r of (o', b') \<Rightarrow> o' = ?out \<and> buffer_ok b' \<and>
      readable b' = readable b @ stdout_records ?cs @ end_records" for r
    using that padding_of_spec(2) concat_response_chunks [of ?out]
    by (cases r) (auto simp: cut_all_end_records intro!: exI [of _ ?cs] exI [of _ "stdout_records ?cs @ end_records"])
qed

theorem respond_read_back_witness:
  "returns (respond ''hello'' small_buffer) (\<lambda>(out', b'). buffer_ok b' \<and> out' = ''hello'')"
  using respond_read_back [of small_buffer "''hello''"] by (auto elim!: returns_mono)

end
