(* ===== verification/CgiServers.thy ===== *)
theory CgiServers
  imports FastCgi TcpConnections
begin

text \<open>
  The FastCGI server on a connection (\<^verbatim>\<open>cgiServer/cgiserver.cpp\<close>): the codec is the context of
  the connection and its \<^verbatim>\<open>onMessage\<close> the message callback. What the codec asks of the
  connection is carried out with the connection's own operations. The contract of the
  connection is interpreted on this server, so everything proved of connections holds of
  it, for every request callback and whatever bytes arrive.
\<close>

section \<open>The codec as context\<close>

text \<open>A codec with consistent buffers, the only ones there are: see \<open>codec_new_ok\<close> and \<open>onMessage_ok\<close>.\<close>

typedef fcgi_context = "{c. codec_ok c}"
  by (rule exI [of _ small_codec]) simp

lemma codec_new_ok: "returns FastCgiCodec_new codec_ok"
proof -
  from Buffer_new_spec [of kInitialSize] obtain b where "Buffer_new kInitialSize = Inr b" "buffer_ok b"
    by (auto elim!: returnsE)
  then show ?thesis by (simp add: FastCgiCodec_new_def codec_ok_def)
qed

lemma onMessage_ok:
  assumes "buffer_ok buf" and "codec_ok c"
  shows "returns (codec_onMessage cb buf c) (\<lambda>(acts, buf', c'). buffer_ok buf' \<and> codec_ok c')"
proof -
  from parseRecords_refines [OF assms(1), of c] obtain k where
    k: "parseRecords buf c = bind_r (fold_r handle_record (fst (cut_all cut_record (readable buf))) c) (\<lambda>c'. Inr (k, c'))"
      "buffer_ok k" by blast
  have "returns (fold_r handle_record (fst (cut_all cut_record (readable buf))) c) codec_ok"
    by (rule fold_r_invariant [of codec_ok, OF assms(2)]) (rule handle_record_ok)
  with k show ?thesis by (auto simp: codec_onMessage_def codec_ok_def elim!: returnsE)
qed

section \<open>Callbacks of the server\<close>

text \<open>\<^verbatim>\<open>CgiServer::onConnection\<close>: a new codec when the connection comes up.\<close>

definition cgi_onConnection :: "fcgi_context tcpconn \<Rightarrow> fcgi_context tcpconn res" where
  "cgi_onConnection s =
     (if cn_state s = kConnected
      then bind_r FastCgiCodec_new (\<lambda>codec. Inr (s\<lparr>cn_context := Abs_fcgi_context codec\<rparr>)) else Inr s)"

definition cgi_onMessage :: "fcgi_context conn_env \<Rightarrow> cgi_callback \<Rightarrow> timestamp \<Rightarrow> fcgi_context tcpconn \<Rightarrow> fcgi_context tcpconn res" where
  "cgi_onMessage sys cb t s =
     bind_r (codec_onMessage cb (cn_input s) (Rep_fcgi_context (cn_context s))) (\<lambda>(acts, buf, codec).
       fold_r (\<lambda>a. do_conn_op sys (conn_op_of a)) acts
         (s\<lparr>cn_input := buf, cn_context := Abs_fcgi_context codec\<rparr>))"

text \<open>The server's environment over system calls \<open>wr\<close>, \<open>rd\<close>; other callbacks are the default ones.\<close>

definition cgi_env :: "(nat \<Rightarrow> nat \<Rightarrow> int + nat) \<Rightarrow> (nat \<Rightarrow> nat list \<Rightarrow> int + char list) \<Rightarrow> cgi_callback \<Rightarrow> fcgi_context conn_env" where
  "cgi_env wr rd cb = (default_env wr rd)\<lparr>ce_connection := cgi_onConnection, ce_message := cgi_onMessage (default_env wr rd) cb\<rparr>"

interpretation cgi: conn_callbacks "cgi_env wr rd cb"
proof unfold_locales
  fix s :: "fcgi_context tcpconn" and t
  assume inv: "conn_inv s"
  have ok: "buffer_ok (cn_input s)" "codec_ok (Rep_fcgi_context (cn_context s))"
    using inv Rep_fcgi_context [of "cn_context s"] by auto
  obtain codec where new: "FastCgiCodec_new = Inr codec" using codec_new_ok by (rule returnsE)
  show "returns (ce_connection (cgi_env wr rd cb) s) (user_rel s)"
    using user_rel_context(2) [OF inv ok(1)] user_rel_refl [OF inv]
    by (simp add: cgi_env_def cgi_onConnection_def new)
  from onMessage_ok [OF ok, of cb] obtain acts buf c where
    m: "codec_onMessage cb (cn_input s) (Rep_fcgi_context (cn_context s)) = Inr (acts, buf, c)" "buffer_ok buf"
    by (auto elim!: returnsE)
  let ?s = "s\<lparr>cn_input := buf, cn_context := Abs_fcgi_context c\<rparr>"
  have rel: "user_rel s ?s" by (rule user_rel_context(1) [OF inv m(2)])
  then have "conn_inv ?s" by (simp add: user_rel_def)
  then have "returns (fold_r (\<lambda>a. do_conn_op (default_env wr rd) (conn_op_of a)) acts ?s) (user_rel ?s)"
    by (rule actions_user [OF dflt.conn_callbacks_axioms])
  then have "returns (fold_r (\<lambda>a. do_conn_op (default_env wr rd) (conn_op_of a)) acts ?s) (user_rel s)"
    by (rule returns_mono) (rule user_rel_trans [OF rel])
  with m(1) show "returns (ce_message (cgi_env wr rd cb) t s) (user_rel s)"
    by (simp add: cgi_env_def cgi_onMessage_def)
qed (auto simp: cgi_env_def default_env_def user_rel_refl split: sum.splits)

section \<open>Running a script\<close>

text \<open>
  \<^verbatim>\<open>cgiServer/parseRequest.cpp\<close>, run in a thread of the pool. The file system, the pipes, the
  process and what the script prints are parameters.
\<close>

record cgi_os =
  os_stat :: "string \<Rightarrow> 32 word option"      \<comment> \<open>\<^verbatim>\<open>st_mode\<close>, or the call fails\<close>
  os_pipe :: "nat \<Rightarrow> bool"                    \<comment> \<open>the n-th \<^verbatim>\<open>pipe\<close> succeeds\<close>
  os_fork :: bool
  os_script :: "string \<Rightarrow> string list res \<Rightarrow> string \<Rightarrow> string"
    \<comment> \<open>what the script at a path prints, given its environment and input\<close>

abbreviation crlf :: string where "crlf \<equiv> [CR, LF]"

definition bad_request :: string where
  "bad_request = ''HTTP/1.0 400 BAD REQUEST'' @ crlf @ ''Content-type: text/html'' @ crlf @ crlf @
     ''<P>Your browser sent a bad request, '' @ ''such as a POST without a Content-Length.'' @ crlf"

definition not_found :: string where
  "not_found = ''HTTP/1.0 404 NOT FOUND'' @ crlf @ ''Content-Type: text/html'' @ crlf @ crlf @
     ''<HTML><TITLE>404 Not Found</TITLE>'' @ crlf @ ''<BODY><P>The server could not fulfill'' @ crlf @
     ''your request because the resource specified'' @ crlf @ ''is unavailable or nonexistent.'' @ crlf @
     ''</BODY></HTML>'' @ crlf"

definition not_autho :: string where
  "not_autho = ''HTTP/1.0 403 Forbidden'' @ crlf @ ''Content-Type: text/html'' @ crlf @ crlf @
     ''<HTML><TITLE> 403 Forbidden </TITLE>'' @ crlf @ ''<BODY><P> 403 Forbidden '' @ crlf @
     ''the resource you accessed you have no permission for it '' @ crlf @ ''</BODY></HTML>'' @ crlf"

definition cannot_execute :: string where
  "cannot_execute = ''HTTP/1.0 500 Internal Server Error'' @ crlf @ ''Content-type: text/html'' @ crlf @ crlf @
     crlf @ ''<P>Error prohibited CGI execution.'' @ crlf"

definition unimplemented :: string where
  "unimplemented = ''HTTP/1.0 501 Method Not Implemented'' @ crlf @ ''Content-Type: text/html'' @ crlf @ crlf @
     ''<HTML><HEAD><TITLE>Method Not Implemented'' @ crlf @ ''</TITLE></HEAD>'' @ crlf @
     ''<BODY><P>HTTP request method not supported.'' @ crlf @ ''</BODY></HTML>'' @ crlf"

text \<open>\<^verbatim>\<open>params_[key]\<close> of a map: the empty string when the key is missing.\<close>

definition param :: "string \<Rightarrow> (string, string) std_map \<Rightarrow> string" where
  "param key m = (case map_find key m of Some v \<Rightarrow> v | None \<Rightarrow> [])"

text \<open>\<^verbatim>\<open>sprintf\<close> into one of the arrays of 255 characters of the child process.\<close>

definition env_entry :: "string \<Rightarrow> string res" where
  "env_entry text = (if length text + 1 \<le> 255 then Inr text else Inl (Undefined ''sprintf overflow''))"

definition child_env :: "string \<Rightarrow> string \<Rightarrow> int \<Rightarrow> string list res" where
  "child_env meth query content_length =
     bind_r (env_entry (''REQUEST_METHOD='' @ meth)) (\<lambda>e1.
       bind_r (if meth = ''GET'' then env_entry (''QUERY_STRING='' @ query)
               else env_entry (''CONTENT_LENGTH='' @ show_int content_length)) (\<lambda>e2. Inr [e1, e2]))"

text \<open>\<^verbatim>\<open>FastCgiCodec::respond(res, &response_); conn_->send(&response_)\<close>: the bytes sent.\<close>

definition send_response :: "string \<Rightarrow> string list res" where
  "send_response res =
     bind_r (Buffer_new kInitialSize) (\<lambda>b. bind_r (respond res b) (\<lambda>(_, b'). Inr [readable b']))"

definition execute_cgi :: "cgi_os \<Rightarrow> string \<Rightarrow> (string, string) std_map \<Rightarrow> string \<Rightarrow> string list res" where
  "execute_cgi os path ps postData =
     (let meth = param ''REQUEST_METHOD'' ps;
          content_length = (if meth = ''POST'' then c_atoi (param ''CONTENT_LENGTH'' ps) else -1);
          query_string = (if meth = ''GET'' then param ''QUERY_STRING'' ps else [])
      in if meth = ''POST'' \<and> content_length = -1 then send_response bad_request
         else if \<not> os_pipe os 0 then send_response cannot_execute
         else if \<not> os_pipe os 1 then send_response cannot_execute
         else if \<not> os_fork os then send_response cannot_execute
         else send_response (os_script os path (child_env meth query_string content_length)
                (if meth = ''POST'' then postData else [])))"

definition accept_request :: "string \<Rightarrow> cgi_os \<Rightarrow> (string, string) std_map \<Rightarrow> string \<Rightarrow> string list res" where
  "accept_request base os ps postData =
     (let meth = param ''REQUEST_METHOD'' ps; path = base @ param ''DOCUMENT_URI'' ps
      in if meth \<noteq> ''GET'' \<and> meth \<noteq> ''POST'' then send_response unimplemented
         else case os_stat os path of
           None \<Rightarrow> send_response not_found
         | Some mode \<Rightarrow>
             if \<not> bit mode 6 \<and> \<not> bit mode 3 \<and> \<not> bit mode 0 then send_response not_autho
             else execute_cgi os path ps postData)"

text \<open>What the web server reads: the contents of the stdout records of a complete response.\<close>

definition read_stdout :: "string \<Rightarrow> string option" where
  "read_stdout wire = (case cut_all cut_record wire of
     (rs, rest) \<Rightarrow> if rest = [] then Some (concat (map snd (filter (\<lambda>(h, _). rh_type h = kFcgiStdout) rs))) else None)"

lemma read_response:
  "read_stdout (stdout_records (response_chunks out) @ end_records) = Some out"
proof -
  have bound: "\<forall>c \<in> set (response_chunks out). length c < 2 ^ 16" using response_chunks_bound by blast
  show ?thesis
    using cut_all_stdout_records [OF bound, of end_records] concat_response_chunks [of out]
    by (simp add: read_stdout_def cut_all_end_records host_record_header_def filter_map o_def kFcgiStdout_def kFcgiEndRequest_def)
qed

lemma send_response_spec:
  "returns (send_response res) (\<lambda>ms. \<exists>m. ms = [m] \<and> read_stdout m = Some (if res = [] then empty_result else res))"
proof -
  from Buffer_new_spec [of kInitialSize] obtain b where b: "Buffer_new kInitialSize = Inr b" "buffer_ok b" "readable b = []"
    by (auto elim!: returnsE)
  from respond_spec [OF b(2), of res] b show ?thesis
    by (auto simp: send_response_def read_response elim!: returnsE)
qed

section \<open>Properties\<close>

text \<open>
  C13. The FastCGI server holds its connections safely: whatever bytes a client sends, in
  whatever pieces, mixed with closes, errors, short writes and calls of users, and whatever
  the request callback answers, every event is handled without a failed assertion in the
  codec, the buffers or the connection.
\<close>

theorem cgi_server_never_asserts:
  assumes "conn_reachable (cgi_env wr rd cb) s" and "conn_may e s"
  shows "\<exists>s'. conn_step (cgi_env wr rd cb) e s = Inr s'"
proof -
  have "returns (conn_step (cgi_env wr rd cb) e s) (\<lambda>_. True)"
    by (rule returns_mono [OF cgi.conn_step_spec [OF cgi.reachable_at_rest [OF assms(1)] assms(2)]]) simp
  then show ?thesis by (auto elim: returnsE)
qed

theorem cgi_server_never_asserts_witness:
  "\<exists>s'. conn_step (cgi_env (\<lambda>_ n. Inr n) (\<lambda>_ _. Inr ''x'') (\<lambda>_ _. [])) Established
     (TcpConnection_new 5 fresh_buffer fresh_buffer (Abs_fcgi_context small_codec) False False) = Inr s'"
  by (rule cgi_server_never_asserts [OF conn_reachable.created [OF fresh_buffer_new]])
    (simp add: TcpConnection_new_def)

text \<open>The page a request deserves.\<close>

definition cgi_page :: "string \<Rightarrow> cgi_os \<Rightarrow> (string, string) std_map \<Rightarrow> string \<Rightarrow> string" where
  "cgi_page base os ps post =
     (let meth = param ''REQUEST_METHOD'' ps; path = base @ param ''DOCUMENT_URI'' ps;
          len = c_atoi (param ''CONTENT_LENGTH'' ps)
      in if meth \<notin> {''GET'', ''POST''} then unimplemented
         else if os_stat os path = None then not_found
         else if \<not> (\<exists>n \<in> {0, 3, 6}. bit (the (os_stat os path)) n) then not_autho
         else if meth = ''POST'' \<and> len = -1 then bad_request
         else if \<not> (os_pipe os 0 \<and> os_pipe os 1 \<and> os_fork os) then cannot_execute
         else let out = (if meth = ''GET'' then os_script os path (child_env ''GET'' (param ''QUERY_STRING'' ps) (-1)) []
                         else os_script os path (child_env ''POST'' [] len) post)
              in if out = [] then empty_result else out)"


text \<open>
  A POST request without a \<^verbatim>\<open>CONTENT_LENGTH\<close> is not answered with the page that says so
  (400): the script is run with length 0.
\<close>

theorem post_without_length_runs:
  assumes "param ''REQUEST_METHOD'' ps = ''POST''" and "map_find ''CONTENT_LENGTH'' ps = None"
    and "os_stat os (base @ param ''DOCUMENT_URI'' ps) = Some mode" and "bit mode 0"
    and "os_pipe os 0" and "os_pipe os 1" and "os_fork os"
  shows "accept_request base os ps post =
    send_response (os_script os (base @ param ''DOCUMENT_URI'' ps)
      (Inr [''REQUEST_METHOD=POST'', ''CONTENT_LENGTH=0'']) post)"
proof -
  have "child_env ''POST'' [] 0 = Inr [''REQUEST_METHOD=POST'', ''CONTENT_LENGTH=0'']"
    by (simp add: child_env_def env_entry_def show_int_def show_nat.simps digit_char_def)
  with assms show ?thesis
    by (simp add: accept_request_def execute_cgi_def param_def c_atoi_def)
qed

theorem post_without_length_runs_witness:
  "accept_request [] \<lparr>os_stat = (\<lambda>_. Some 1), os_pipe = (\<lambda>_. True), os_fork = True, os_script = (\<lambda>_ _ i. i)\<rparr>
     [(''REQUEST_METHOD'', ''POST'')] ''data'' = send_response ''data''"
proof -
  have "bit (1 :: 32 word) 0" by (simp add: bit_word_iff_drop_bit_and)
  then show ?thesis
    by (subst post_without_length_runs [where mode = 1]) (simp_all add: param_def)
qed

end
