(* ===== verification/Connectors.thy ===== *)
theory Connectors
  imports Prelude
begin

text \<open>
  Outgoing connections (\<^verbatim>\<open>netLayer/tcp/c/Connector.cpp\<close>, \<^verbatim>\<open>netLayer/tcp/c/client/TcpClient.cpp\<close>).

  A connector owns at most one socket that is being connected, retries with a growing
  delay and hands an established socket on. Sockets are numbered in the order they are
  created. The answers of the system calls are parameters: \<open>sock_ok n\<close> whether the n-th
  socket can be created, \<open>errno_of n\<close> what \<^verbatim>\<open>connect\<close> on it says; the events carry
  \<^verbatim>\<open>SO_ERROR\<close> and whether the connection is one to itself. What is queued on the loop and
  the pending timers are part of the state. The properties: every socket is accounted for,
  the delays double up to their limit, a connector used the intended way never fails an
  assertion, and the way in which it does.
\<close>

section \<open>Connector\<close>

datatype connector_state = CkDisconnected | CkConnecting | CkConnected

datatype connector_functor = StartInLoop | StopInLoop | ResetChannel

record connector =
  cr_connect :: bool
  cr_state :: connector_state
  cr_retryDelayMs :: int
  cr_channel :: "nat option"                    \<comment> \<open>the socket of \<^verbatim>\<open>channel_\<close>\<close>
  cr_watched :: bool                            \<comment> \<open>the channel is registered for writing\<close>
  cr_queued :: "connector_functor list"
  cr_timers :: "int list"                       \<comment> \<open>delays of the pending retries\<close>
  cr_sockets :: nat                             \<comment> \<open>sockets created so far\<close>
  cr_closed :: "nat list"                       \<comment> \<open>sockets closed\<close>
  cr_handed :: "nat list"                       \<comment> \<open>sockets given to \<^verbatim>\<open>newConnectionCallback_\<close>\<close>

definition kMaxRetryDelayMs :: int where "kMaxRetryDelayMs = 30 * 1000"
definition kInitRetryDelayMs :: int where "kInitRetryDelayMs = 500"

definition Connector_new :: connector where
  "Connector_new = \<lparr>cr_connect = False, cr_state = CkDisconnected, cr_retryDelayMs = kInitRetryDelayMs,
     cr_channel = None, cr_watched = False, cr_queued = [], cr_timers = [], cr_sockets = 0, cr_closed = [],
     cr_handed = []\<rparr>"

definition close_socket :: "nat \<Rightarrow> 'a connector_scheme \<Rightarrow> 'a connector_scheme" where
  "close_socket fd s = s\<lparr>cr_closed := cr_closed s @ [fd]\<rparr>"

definition queue_cr :: "connector_functor \<Rightarrow> 'a connector_scheme \<Rightarrow> 'a connector_scheme" where
  "queue_cr f s = s\<lparr>cr_queued := cr_queued s @ [f]\<rparr>"

definition retry :: "nat \<Rightarrow> 'a connector_scheme \<Rightarrow> 'a connector_scheme" where
  "retry sockfd s =
     (let s1 = (close_socket sockfd s)\<lparr>cr_state := CkDisconnected\<rparr>
      in if cr_connect s1
         then s1\<lparr>cr_timers := cr_timers s1 @ [cr_retryDelayMs s1],
                 cr_retryDelayMs := min (cr_retryDelayMs s1 * 2) kMaxRetryDelayMs\<rparr>
         else s1)"

definition connecting :: "nat \<Rightarrow> 'a connector_scheme \<Rightarrow> 'a connector_scheme res" where
  "connecting sockfd s =
     (let s1 = s\<lparr>cr_state := CkConnecting\<rparr>
      in ensure (cr_channel s1 = None) ''!channel_'' (Inr (s1\<lparr>cr_channel := Some sockfd, cr_watched := True\<rparr>)))"

text \<open>The error numbers \<^verbatim>\<open>connect()\<close> distinguishes (Linux).\<close>

definition progress_errnos :: "int list" where
  "progress_errnos = [0, 115, 4, 106]"       \<comment> \<open>\<^verbatim>\<open>0 EINPROGRESS EINTR EISCONN\<close>\<close>

definition retry_errnos :: "int list" where
  "retry_errnos = [11, 98, 99, 111, 101]"    \<comment> \<open>\<^verbatim>\<open>EAGAIN EADDRINUSE EADDRNOTAVAIL ECONNREFUSED ENETUNREACH\<close>\<close>

definition cr_connect_call :: "(nat \<Rightarrow> bool) \<Rightarrow> (nat \<Rightarrow> int) \<Rightarrow> 'a connector_scheme \<Rightarrow> 'a connector_scheme res" where
  "cr_connect_call sock_ok errno_of s =
     (let sockfd = cr_sockets s
      in if \<not> sock_ok sockfd then Inl (Abort ''sockets::createNonblockingOrDie'')
         else let s1 = s\<lparr>cr_sockets := Suc sockfd\<rparr>; savedErrno = errno_of sockfd
              in if savedErrno \<in> set progress_errnos then connecting sockfd s1
                 else if savedErrno \<in> set retry_errnos then Inr (retry sockfd s1)
                 else Inr (close_socket sockfd s1))"

definition startInLoop :: "(nat \<Rightarrow> bool) \<Rightarrow> (nat \<Rightarrow> int) \<Rightarrow> 'a connector_scheme \<Rightarrow> 'a connector_scheme res" where
  "startInLoop sock_ok errno_of s = (if cr_connect s then cr_connect_call sock_ok errno_of s else Inr s)"

text \<open>\<open>inl\<close>: called in the thread of the loop.\<close>

definition cr_start :: "(nat \<Rightarrow> bool) \<Rightarrow> (nat \<Rightarrow> int) \<Rightarrow> bool \<Rightarrow> 'a connector_scheme \<Rightarrow> 'a connector_scheme res" where
  "cr_start sock_ok errno_of inl s =
     (let s1 = s\<lparr>cr_connect := True\<rparr>
      in if inl then startInLoop sock_ok errno_of s1 else Inr (queue_cr StartInLoop s1))"

definition cr_stop :: "'a connector_scheme \<Rightarrow> 'a connector_scheme" where
  "cr_stop s = queue_cr StopInLoop (s\<lparr>cr_connect := False\<rparr>)"

definition removeAndResetChannel :: "'a connector_scheme \<Rightarrow> (nat \<times> 'a connector_scheme) res" where
  "removeAndResetChannel s =
     (case cr_channel s of
        None \<Rightarrow> Inl (Undefined ''null channel_'')
      | Some sockfd \<Rightarrow> Inr (sockfd, queue_cr ResetChannel (s\<lparr>cr_watched := False\<rparr>)))"

definition resetChannel :: "'a connector_scheme \<Rightarrow> 'a connector_scheme" where
  "resetChannel s = s\<lparr>cr_channel := None\<rparr>"

definition stopInLoop :: "'a connector_scheme \<Rightarrow> 'a connector_scheme res" where
  "stopInLoop s =
     (if cr_state s = CkConnecting
      then bind_r (removeAndResetChannel (s\<lparr>cr_state := CkDisconnected\<rparr>)) (\<lambda>(sockfd, s1). Inr (retry sockfd s1))
      else Inr s)"

definition cr_restart :: "(nat \<Rightarrow> bool) \<Rightarrow> (nat \<Rightarrow> int) \<Rightarrow> 'a connector_scheme \<Rightarrow> 'a connector_scheme res" where
  "cr_restart sock_ok errno_of s =
     startInLoop sock_ok errno_of
       (s\<lparr>cr_state := CkDisconnected, cr_retryDelayMs := kInitRetryDelayMs, cr_connect := True\<rparr>)"

definition cr_handleWrite :: "int \<Rightarrow> bool \<Rightarrow> 'a connector_scheme \<Rightarrow> 'a connector_scheme res" where
  "cr_handleWrite err selfConnect s =
     (if cr_state s = CkConnecting
      then bind_r (removeAndResetChannel s) (\<lambda>(sockfd, s1).
             if err \<noteq> 0 then Inr (retry sockfd s1)
             else if selfConnect then Inr (retry sockfd s1)
             else let s2 = s1\<lparr>cr_state := CkConnected\<rparr>
                  in Inr (if cr_connect s2 then s2\<lparr>cr_handed := cr_handed s2 @ [sockfd]\<rparr>
                          else close_socket sockfd s2))
      else ensure (cr_state s = CkDisconnected) ''state_ == kDisconnected'' (Inr s))"

definition cr_handleError :: "'a connector_scheme \<Rightarrow> 'a connector_scheme res" where
  "cr_handleError s =
     (if cr_state s = CkConnecting
      then bind_r (removeAndResetChannel s) (\<lambda>(sockfd, s1). Inr (retry sockfd s1))
      else Inr s)"

text \<open>\<^verbatim>\<open>~Connector\<close>.\<close>

definition Connector_delete :: "'a connector_scheme \<Rightarrow> unit res" where
  "Connector_delete s = ensure (cr_channel s = None) ''!channel_'' (Inr ())"

section \<open>Runs\<close>

datatype connector_event =
    CStart bool | CStop | CRestart | CFunctor | CTimer nat
  | CWritable int bool | CError

fun run_cr_functor :: "(nat \<Rightarrow> bool) \<Rightarrow> (nat \<Rightarrow> int) \<Rightarrow> connector_functor \<Rightarrow>
    'a connector_scheme \<Rightarrow> 'a connector_scheme res" where
  "run_cr_functor sock_ok errno_of StartInLoop s = startInLoop sock_ok errno_of s"
| "run_cr_functor sock_ok errno_of StopInLoop s = stopInLoop s"
| "run_cr_functor sock_ok errno_of ResetChannel s = Inr (resetChannel s)"

text \<open>A timer is referred to by its position among the pending ones.\<close>

definition drop_nth :: "nat \<Rightarrow> 'b list \<Rightarrow> 'b list" where
  "drop_nth i xs = take i xs @ drop (Suc i) xs"

fun cr_step :: "(nat \<Rightarrow> bool) \<Rightarrow> (nat \<Rightarrow> int) \<Rightarrow> connector_event \<Rightarrow> 'a connector_scheme \<Rightarrow> 'a connector_scheme res" where
  "cr_step sock_ok errno_of (CStart inl) s = cr_start sock_ok errno_of inl s"
| "cr_step sock_ok errno_of CStop s = Inr (cr_stop s)"
| "cr_step sock_ok errno_of CRestart s = cr_restart sock_ok errno_of s"
| "cr_step sock_ok errno_of CFunctor s =
     (case cr_queued s of [] \<Rightarrow> Inr s | f # fs \<Rightarrow> run_cr_functor sock_ok errno_of f (s\<lparr>cr_queued := fs\<rparr>))"
| "cr_step sock_ok errno_of (CTimer i) s = startInLoop sock_ok errno_of (s\<lparr>cr_timers := drop_nth i (cr_timers s)\<rparr>)"
| "cr_step sock_ok errno_of (CWritable err self) s = cr_handleWrite err self s"
| "cr_step sock_ok errno_of CError s = cr_handleError s"

text \<open>
  What the loop can do: functors that are queued, timers that are pending, events of a
  channel that is registered. \<^verbatim>\<open>restart\<close> is called when an established connection was lost.
\<close>

fun cr_may :: "connector_event \<Rightarrow> 'a connector_scheme \<Rightarrow> bool" where
  "cr_may (CStart _) s = True"
| "cr_may CStop s = True"
| "cr_may CRestart s \<longleftrightarrow> cr_state s = CkConnected"
| "cr_may CFunctor s \<longleftrightarrow> cr_queued s \<noteq> []"
| "cr_may (CTimer i) s \<longleftrightarrow> i < length (cr_timers s)"
| "cr_may (CWritable _ _) s \<longleftrightarrow> cr_watched s"
| "cr_may CError s \<longleftrightarrow> cr_watched s"

definition cr_run :: "(nat \<Rightarrow> bool) \<Rightarrow> (nat \<Rightarrow> int) \<Rightarrow> connector_event list \<Rightarrow> connector \<Rightarrow> connector res" where
  "cr_run sock_ok errno_of es s =
     fold_r (\<lambda>e s. if cr_may e s then cr_step sock_ok errno_of e s else Inr s) es s"

section \<open>Accounting for sockets\<close>

definition cr_pending :: "'a connector_scheme \<Rightarrow> nat list" where
  "cr_pending s = (if cr_watched s then [the (cr_channel s)] else [])"

text \<open>Every socket created is closed, handed on or being connected, exactly one of these and once.\<close>

definition cr_accounted :: "'a connector_scheme \<Rightarrow> bool" where
  "cr_accounted s \<longleftrightarrow> distinct (cr_closed s @ cr_handed s @ cr_pending s) \<and>
     set (cr_closed s @ cr_handed s @ cr_pending s) = {..<cr_sockets s}"

definition delay_ok :: "int \<Rightarrow> bool" where
  "delay_ok d \<longleftrightarrow> kInitRetryDelayMs \<le> d \<and> d \<le> kMaxRetryDelayMs"

definition cr_ok :: "'a connector_scheme \<Rightarrow> bool" where
  "cr_ok s \<longleftrightarrow> cr_accounted s \<and> (cr_state s = CkConnecting \<longrightarrow> cr_watched s) \<and> (cr_watched s \<longrightarrow> cr_channel s \<noteq> None) \<and>
     count_list (cr_queued s) ResetChannel = (if cr_channel s \<noteq> None \<and> \<not> cr_watched s then 1 else 0) \<and>
     delay_ok (cr_retryDelayMs s) \<and> (\<forall>d \<in> set (cr_timers s). delay_ok d)"

lemma delay_ok_double: "delay_ok d \<Longrightarrow> delay_ok (min (d * 2) kMaxRetryDelayMs)"
  by (simp add: delay_ok_def kInitRetryDelayMs_def kMaxRetryDelayMs_def)

lemma delay_ok_init [simp]: "delay_ok kInitRetryDelayMs"
  by (simp add: delay_ok_def kInitRetryDelayMs_def kMaxRetryDelayMs_def)

text \<open>Closing a socket nobody holds: \<^verbatim>\<open>retry\<close> and the failed \<^verbatim>\<open>connect\<close>.\<close>

lemma retry_ok:
  assumes "cr_ok s" and "distinct (cr_closed s @ [fd] @ cr_handed s @ cr_pending s)"
    and "set (cr_closed s @ [fd] @ cr_handed s @ cr_pending s) = {..<n}"
  shows "cr_ok (retry fd (s\<lparr>cr_sockets := n\<rparr>))" "cr_ok (close_socket fd (s\<lparr>cr_sockets := n\<rparr>))"
  using assms delay_ok_double [of "cr_retryDelayMs s"]
  by (auto simp: cr_ok_def retry_def close_socket_def cr_accounted_def cr_pending_def Let_def)

lemma cr_ok_irrelevant:
  "cr_ok s \<Longrightarrow> cr_ok (s\<lparr>cr_connect := c\<rparr>)"
  "cr_ok s \<Longrightarrow> set ts \<subseteq> set (cr_timers s) \<Longrightarrow> cr_ok (s\<lparr>cr_timers := ts\<rparr>)"
  "cr_ok s \<Longrightarrow> f \<noteq> ResetChannel \<Longrightarrow> cr_ok (queue_cr f s)"
  "cr_ok s \<Longrightarrow> cr_queued s = f # fs \<Longrightarrow> f \<noteq> ResetChannel \<Longrightarrow> cr_ok (s\<lparr>cr_queued := fs\<rparr>)"
  by (auto simp: cr_ok_def cr_accounted_def cr_pending_def queue_cr_def)

lemma new_socket:
  assumes "cr_ok s"
  shows "distinct (cr_closed s @ [cr_sockets s] @ cr_handed s @ cr_pending s)"
    and "set (cr_closed s @ [cr_sockets s] @ cr_handed s @ cr_pending s) = {..<Suc (cr_sockets s)}"
proof -
  have d: "distinct (cr_closed s @ cr_handed s @ cr_pending s)"
    and e: "set (cr_closed s @ cr_handed s @ cr_pending s) = {..<cr_sockets s}"
    using assms by (simp_all add: cr_ok_def cr_accounted_def)
  have "cr_sockets s \<notin> set (cr_closed s @ cr_handed s @ cr_pending s)" unfolding e by simp
  with d show "distinct (cr_closed s @ [cr_sockets s] @ cr_handed s @ cr_pending s)" by auto
  have "set (cr_closed s @ [cr_sockets s] @ cr_handed s @ cr_pending s) = insert (cr_sockets s) {..<cr_sockets s}"
    using e by auto
  then show "set (cr_closed s @ [cr_sockets s] @ cr_handed s @ cr_pending s) = {..<Suc (cr_sockets s)}"
    by (simp add: lessThan_Suc)
qed

lemma connecting_ok:
  assumes "cr_ok s" and "connecting (cr_sockets s) (s\<lparr>cr_sockets := Suc (cr_sockets s)\<rparr>) = Inr s'"
  shows "cr_ok s'"
proof -
  have none: "cr_channel s = None" and s': "s' = s\<lparr>cr_sockets := Suc (cr_sockets s), cr_state := CkConnecting,
      cr_channel := Some (cr_sockets s), cr_watched := True\<rparr>"
    using assms(2) by (auto simp: connecting_def Let_def ensure_eq_Inr)
  have "cr_pending s = []" using assms(1) none by (auto simp: cr_ok_def cr_pending_def)
  then have "distinct (cr_closed s @ cr_handed s @ [cr_sockets s])"
      "set (cr_closed s @ cr_handed s @ [cr_sockets s]) = {..<Suc (cr_sockets s)}"
    using new_socket [OF assms(1)] by auto
  then show ?thesis using assms(1) none by (simp add: s' cr_ok_def cr_accounted_def cr_pending_def)
qed

lemma startInLoop_ok:
  assumes "cr_ok s" and "startInLoop sock_ok errno_of s = Inr s'"
  shows "cr_ok s'"
  using assms(2) connecting_ok [OF assms(1), of s'] retry_ok [OF assms(1) new_socket [OF assms(1)]] assms(1)
  by (auto simp: startInLoop_def cr_connect_call_def Let_def split: if_splits)

text \<open>The socket leaves its channel.\<close>

lemma released:
  assumes ok: "cr_ok s" and w: "cr_watched s" and fd: "cr_channel s = Some fd"
  shows "cr_ok (retry fd (queue_cr ResetChannel (s\<lparr>cr_watched := False\<rparr>)))"
    and "cr_ok (close_socket fd (queue_cr ResetChannel (s\<lparr>cr_watched := False\<rparr>)\<lparr>cr_state := CkConnected\<rparr>))"
    and "cr_ok (queue_cr ResetChannel (s\<lparr>cr_watched := False\<rparr>)\<lparr>cr_state := CkConnected, cr_handed := cr_handed s @ [fd]\<rparr>)"
    and "cr_ok (retry fd (queue_cr ResetChannel (s\<lparr>cr_state := st, cr_watched := False\<rparr>)))"
  using assms delay_ok_double [of "cr_retryDelayMs s"]
  by (auto simp: cr_ok_def retry_def close_socket_def queue_cr_def cr_accounted_def cr_pending_def Let_def)

lemma cr_step_ok:
  assumes ok: "cr_ok s" and may: "cr_may e s" and step: "cr_step sock_ok errno_of e s = Inr s'"
  shows "cr_ok s'"
proof (cases e)
  case (CStart inl)
  with step show ?thesis
    using startInLoop_ok [OF cr_ok_irrelevant(1) [OF ok]] cr_ok_irrelevant(3) [OF cr_ok_irrelevant(1) [OF ok], of StartInLoop]
    by (auto simp: cr_start_def Let_def split: if_splits)
next
  case CStop
  with step cr_ok_irrelevant(3) [OF cr_ok_irrelevant(1) [OF ok], of StopInLoop] show ?thesis by (auto simp: cr_stop_def)
next
  case CRestart
  have "cr_ok (s\<lparr>cr_state := CkDisconnected, cr_retryDelayMs := kInitRetryDelayMs, cr_connect := True\<rparr>)"
    using ok by (simp add: cr_ok_def cr_accounted_def cr_pending_def)
  with CRestart step startInLoop_ok show ?thesis by (auto simp: cr_restart_def)
next
  case (CTimer i)
  have "cr_ok (s\<lparr>cr_timers := drop_nth i (cr_timers s)\<rparr>)"
    by (rule cr_ok_irrelevant(2) [OF ok]) (auto simp: drop_nth_def dest: in_set_takeD in_set_dropD)
  with CTimer step startInLoop_ok show ?thesis by auto
next
  case (CWritable err self)
  from may CWritable ok obtain fd where w: "cr_watched s" and fd: "cr_channel s = Some fd" by (auto simp: cr_ok_def)
  show ?thesis
    using step CWritable released [OF ok w fd] fd ok
    by (auto simp: cr_handleWrite_def removeAndResetChannel_def ensure_eq_Inr close_socket_def queue_cr_def Let_def split: if_splits)
next
  case CError
  from may CError ok obtain fd where w: "cr_watched s" and fd: "cr_channel s = Some fd" by (auto simp: cr_ok_def)
  show ?thesis
    using step CError released [OF ok w fd] fd ok
    by (auto simp: cr_handleError_def removeAndResetChannel_def split: if_splits)
next
  case CFunctor
  then obtain f fs where q: "cr_queued s = f # fs" using may by (cases "cr_queued s") auto
  let ?s = "s\<lparr>cr_queued := fs\<rparr>"
  show ?thesis
  proof (cases f)
    case StartInLoop
    with step CFunctor q startInLoop_ok [OF cr_ok_irrelevant(4) [OF ok q]] show ?thesis by auto
  next
    case StopInLoop
    have i: "cr_ok ?s" using cr_ok_irrelevant(4) [OF ok q] StopInLoop by simp
    show ?thesis
    proof (cases "cr_state s = CkConnecting")
      case True
      with ok obtain fd where w: "cr_watched ?s" and fd: "cr_channel ?s = Some fd" by (auto simp: cr_ok_def)
      with True step CFunctor q StopInLoop released(4) [OF i w fd, of CkDisconnected] show ?thesis
        by (auto simp: stopInLoop_def removeAndResetChannel_def queue_cr_def)
    next
      case False
      with step CFunctor q StopInLoop i show ?thesis by (simp add: stopInLoop_def)
    qed
  next
    case ResetChannel
    with ok q have "cr_channel s \<noteq> None" "\<not> cr_watched s" "count_list fs ResetChannel = 0"
      by (auto simp: cr_ok_def split: if_splits)
    with ok ResetChannel have "cr_ok (resetChannel ?s)"
      by (auto simp: cr_ok_def resetChannel_def cr_accounted_def cr_pending_def)
    with step CFunctor q ResetChannel show ?thesis by simp
  qed
qed

lemma Connector_new_ok: "cr_ok Connector_new"
  by (simp add: Connector_new_def cr_ok_def cr_accounted_def cr_pending_def)

lemma cr_run_ok: "cr_run sock_ok errno_of es s = Inr s' \<Longrightarrow> cr_ok s \<Longrightarrow> cr_ok s'"
proof (induction es arbitrary: s)
  case (Cons e es)
  from Cons.prems(1) obtain s1 where s1: "(if cr_may e s then cr_step sock_ok errno_of e s else Inr s) = Inr s1"
    and rest: "cr_run sock_ok errno_of es s1 = Inr s'" by (auto simp: cr_run_def bind_r_eq_Inr)
  have "cr_ok s1"
  proof (cases "cr_may e s")
    case True
    with s1 cr_step_ok [OF Cons.prems(2) True] show ?thesis by simp
  next
    case False
    with s1 Cons.prems(2) show ?thesis by simp
  qed
  with rest show ?case by (rule Cons.IH)
qed (simp add: cr_run_def)

section \<open>Intended use\<close>

text \<open>
  A connector is started only when it is idle, and restarted when the connection it
  established is lost and no attempt is under way. The loop runs queued functors before it
  handles later events, and a retry waits for half a second, so the channel of the
  previous attempt is gone when the next one starts.
\<close>

definition cr_idle :: "'a connector_scheme \<Rightarrow> bool" where
  "cr_idle s \<longleftrightarrow> cr_state s \<noteq> CkConnecting \<and> cr_channel s = None \<and> cr_timers s = [] \<and> StartInLoop \<notin> set (cr_queued s)"

definition cr_attempts :: "'a connector_scheme \<Rightarrow> nat" where
  "cr_attempts s = length (cr_timers s) + count_list (cr_queued s) StartInLoop + (if cr_watched s then 1 else 0)"

fun cr_disciplined :: "connector_event \<Rightarrow> 'a connector_scheme \<Rightarrow> bool" where
  "cr_disciplined (CStart _) s = cr_idle s"
| "cr_disciplined (CTimer _) s = (ResetChannel \<notin> set (cr_queued s))"
| "cr_disciplined CRestart s = (ResetChannel \<notin> set (cr_queued s) \<and> cr_attempts s = 0)"
| "cr_disciplined _ s = True"

definition cr_single :: "'a connector_scheme \<Rightarrow> bool" where
  "cr_single s \<longleftrightarrow> cr_ok s \<and> cr_attempts s \<le> 1 \<and>
     (cr_watched s \<longrightarrow> cr_state s = CkConnecting) \<and> (StartInLoop \<in> set (cr_queued s) \<longrightarrow> cr_channel s = None)"

lemma startInLoop_single:
  assumes ok: "cr_ok s" and none: "cr_channel s = None" and zero: "cr_attempts s = 0" and sock: "\<And>n. sock_ok n"
  shows "returns (startInLoop sock_ok errno_of s) cr_single"
proof -
  have nw: "\<not> cr_watched s" using ok none by (auto simp: cr_ok_def)
  have q: "StartInLoop \<notin> set (cr_queued s)" and ts: "cr_timers s = []"
    using zero by (auto simp: cr_attempts_def count_list_0_iff)
  have "\<exists>s'. startInLoop sock_ok errno_of s = Inr s' \<and> cr_attempts s' \<le> 1 \<and>
      (cr_watched s' \<longrightarrow> cr_state s' = CkConnecting) \<and> StartInLoop \<notin> set (cr_queued s')"
    using none zero sock nw q ts
    by (auto simp: startInLoop_def cr_connect_call_def connecting_def retry_def close_socket_def cr_attempts_def Let_def)
  then show ?thesis using startInLoop_ok [OF ok] by (fastforce simp: cr_single_def)
qed

lemma release_single:
  assumes s: "cr_single s" and w: "cr_watched s"
  obtains fd s1 where "removeAndResetChannel s = Inr (fd, s1)" and "cr_attempts s1 = 0"
    and "\<not> cr_watched s1" and "StartInLoop \<notin> set (cr_queued s1)" and "cr_timers s1 = []"
proof -
  from s w obtain fd where "cr_channel s = Some fd" by (auto simp: cr_single_def cr_ok_def)
  moreover have "cr_timers s = []" "StartInLoop \<notin> set (cr_queued s)"
    using s w by (auto simp: cr_single_def cr_attempts_def count_list_0_iff)
  ultimately show ?thesis using that [of fd "queue_cr ResetChannel (s\<lparr>cr_watched := False\<rparr>)"]
    by (simp add: removeAndResetChannel_def cr_attempts_def queue_cr_def count_list_0_iff)
qed

lemma retry_single:
  assumes "cr_attempts s1 = 0" and "\<not> cr_watched s1" and "StartInLoop \<notin> set (cr_queued s1)" and "cr_timers s1 = []"
  shows "cr_attempts (retry fd s1) \<le> 1 \<and> \<not> cr_watched (retry fd s1) \<and>
    StartInLoop \<notin> set (cr_queued (retry fd s1))"
  using assms by (simp add: retry_def close_socket_def cr_attempts_def Let_def)

lemma stop_single: "cr_single s \<Longrightarrow> cr_single (cr_stop s)"
  using cr_ok_irrelevant(3) [OF cr_ok_irrelevant(1), of s StopInLoop False]
  by (auto simp: cr_single_def cr_stop_def queue_cr_def cr_attempts_def)

lemma watched_single:
  assumes s: "cr_single s" and w: "cr_watched s"
  shows "returns (cr_handleWrite err self s) cr_single" and "returns (cr_handleError s) cr_single"
proof -
  have ok: "cr_ok s" and st: "cr_state s = CkConnecting" using s w by (simp_all add: cr_single_def)
  from release_single [OF s w] obtain fd s1 where
    r: "removeAndResetChannel s = Inr (fd, s1)" "cr_attempts s1 = 0" "\<not> cr_watched s1"
      "StartInLoop \<notin> set (cr_queued s1)" "cr_timers s1 = []" .
  let ?s2 = "s1\<lparr>cr_state := CkConnected\<rparr>"
  let ?h = "if cr_connect ?s2 then ?s2\<lparr>cr_handed := cr_handed ?s2 @ [fd]\<rparr> else close_socket fd ?s2"
  have ev: "cr_handleWrite err self s = Inr (if err \<noteq> 0 \<or> self then retry fd s1 else ?h)"
    "cr_handleError s = Inr (retry fd s1)"
    using st r(1) by (auto simp: cr_handleWrite_def cr_handleError_def)
  have oks: "cr_ok x" if "x = retry fd s1 \<or> x = ?h" for x
    using cr_step_ok [OF ok, of CError _ _ x] cr_step_ok [OF ok, of "CWritable 0 False" _ _ x] w that st r(1)
    by (auto simp: cr_handleWrite_def cr_handleError_def)
  have "cr_single (retry fd s1)" using retry_single [OF r(2-5), of fd] oks by (simp add: cr_single_def)
  moreover have "cr_single ?h" using r(2-5) oks [of ?h] by (auto simp: cr_single_def cr_attempts_def close_socket_def)
  ultimately show "returns (cr_handleWrite err self s) cr_single" "returns (cr_handleError s) cr_single"
    by (simp_all add: ev)
qed

lemma stopInLoop_single:
  assumes s: "cr_single s"
  shows "returns (stopInLoop s) cr_single"
proof (cases "cr_state s = CkConnecting")
  case True
  with s have w: "cr_watched s" and ok: "cr_ok s" by (simp_all add: cr_single_def cr_ok_def)
  then obtain fd where fd: "cr_channel s = Some fd" by (auto simp: cr_ok_def)
  let ?r = "retry fd (queue_cr ResetChannel (s\<lparr>cr_state := CkDisconnected, cr_watched := False\<rparr>))"
  have "cr_timers s = []" "StartInLoop \<notin> set (cr_queued s)"
    using s w by (auto simp: cr_single_def cr_attempts_def count_list_0_iff)
  then have "cr_single ?r" using released(4) [OF ok w fd, of CkDisconnected]
    by (auto simp: cr_single_def cr_attempts_def retry_def close_socket_def queue_cr_def Let_def)
  with True fd show ?thesis by (simp add: stopInLoop_def removeAndResetChannel_def)
qed (use s in \<open>simp add: stopInLoop_def\<close>)

lemma functor_single:
  assumes s: "cr_single s" and q: "cr_queued s = f # fs" and sock: "\<And>n. sock_ok n"
  shows "returns (run_cr_functor sock_ok errno_of f (s\<lparr>cr_queued := fs\<rparr>)) cr_single"
proof (cases f)
  case StartInLoop
  have "cr_ok (s\<lparr>cr_queued := fs\<rparr>)" using s q StartInLoop cr_ok_irrelevant(4) by (auto simp: cr_single_def)
  moreover have "cr_channel s = None" "cr_attempts (s\<lparr>cr_queued := fs\<rparr>) = 0"
    using s q StartInLoop by (auto simp: cr_single_def cr_attempts_def)
  ultimately show ?thesis using startInLoop_single [of "s\<lparr>cr_queued := fs\<rparr>"] sock StartInLoop by simp
next
  case StopInLoop
  have "cr_single (s\<lparr>cr_queued := fs\<rparr>)"
    using s q StopInLoop cr_ok_irrelevant(4) [of s f fs] by (auto simp: cr_single_def cr_attempts_def)
  then show ?thesis using StopInLoop stopInLoop_single by simp
next
  case ResetChannel
  have "cr_ok (resetChannel (s\<lparr>cr_queued := fs\<rparr>))"
    using cr_step_ok [of s CFunctor] s q ResetChannel by (auto simp: cr_single_def)
  moreover have "\<not> cr_watched s" using s q ResetChannel by (auto simp: cr_single_def cr_ok_def split: if_splits)
  ultimately show ?thesis using s q ResetChannel
    by (auto simp: cr_single_def resetChannel_def cr_attempts_def)
qed

lemma disciplined_step:
  assumes s: "cr_single s" and may: "cr_may e s" and d: "cr_disciplined e s" and sock: "\<And>n. sock_ok n"
  shows "returns (cr_step sock_ok errno_of e s) cr_single"
proof -
  have ok: "cr_ok s" using s by (simp add: cr_single_def)
  have gone: "cr_channel s = None" if "\<not> cr_watched s" "ResetChannel \<notin> set (cr_queued s)"
    using ok that by (auto simp: cr_ok_def count_list_0_iff split: if_splits)
  show ?thesis
  proof (cases e)
    case (CStart inl)
    let ?s = "s\<lparr>cr_connect := True\<rparr>"
    have ok': "cr_ok ?s" by (rule cr_ok_irrelevant(1) [OF ok])
    have idle: "cr_channel ?s = None" "cr_attempts ?s = 0"
      using ok d CStart by (auto simp: cr_idle_def cr_attempts_def cr_ok_def count_list_0_iff)
    note i = ok' idle
    have "cr_single (queue_cr StartInLoop ?s)"
      using i cr_ok_irrelevant(3) [OF i(1), of StartInLoop] s d CStart
      by (auto simp: cr_single_def cr_attempts_def queue_cr_def cr_idle_def)
    with CStart startInLoop_single [OF i, of sock_ok errno_of] sock show ?thesis by (simp add: cr_start_def Let_def)
  next
    case (CTimer i)
    let ?s = "s\<lparr>cr_timers := drop_nth i (cr_timers s)\<rparr>"
    have one: "length (cr_timers s) = 1" "\<not> cr_watched s" "count_list (cr_queued s) StartInLoop = 0"
      using s may CTimer by (auto simp: cr_single_def cr_attempts_def split: if_splits)
    then have "drop_nth i (cr_timers s) = []" using may CTimer by (simp add: drop_nth_def)
    with one cr_ok_irrelevant(2) [OF ok, of "[]"] gone d CTimer startInLoop_single [of ?s] sock show ?thesis
      by (simp add: cr_attempts_def)
  next
    case CRestart
    let ?s = "s\<lparr>cr_state := CkDisconnected, cr_retryDelayMs := kInitRetryDelayMs, cr_connect := True\<rparr>"
    have "cr_attempts s = 0" using d CRestart by simp
    then have "\<not> cr_watched s" "cr_attempts ?s = 0" by (simp_all add: cr_attempts_def split: if_splits)
    moreover have "cr_ok ?s" using ok by (simp add: cr_ok_def cr_accounted_def cr_pending_def)
    ultimately show ?thesis using CRestart d gone startInLoop_single [of ?s] sock by (simp add: cr_restart_def)
  next
    case CFunctor
    with may functor_single [OF s _ sock] show ?thesis by (auto split: list.splits)
  qed (use s may watched_single stop_single in simp_all)
qed

text \<open>Discipline along a run: every event that can happen is used the intended way.\<close>

fun cr_disciplined_run :: "(nat \<Rightarrow> bool) \<Rightarrow> (nat \<Rightarrow> int) \<Rightarrow> connector_event list \<Rightarrow> connector \<Rightarrow> bool" where
  "cr_disciplined_run sock_ok errno_of [] s = True"
| "cr_disciplined_run sock_ok errno_of (e # es) s =
     (if cr_may e s
      then cr_disciplined e s \<and>
        (case cr_step sock_ok errno_of e s of Inl _ \<Rightarrow> True | Inr s' \<Rightarrow> cr_disciplined_run sock_ok errno_of es s')
      else cr_disciplined_run sock_ok errno_of es s)"

lemma disciplined_run_single:
  assumes sock: "\<And>n. sock_ok n"
  shows "cr_disciplined_run sock_ok errno_of es s \<Longrightarrow> cr_single s \<Longrightarrow> returns (cr_run sock_ok errno_of es s) cr_single"
proof (induction es arbitrary: s)
  case (Cons e es)
  show ?case
  proof (cases "cr_may e s")
    case True
    with Cons.prems have "returns (cr_step sock_ok errno_of e s) cr_single" by (intro disciplined_step sock) auto
    then obtain s1 where s1: "cr_step sock_ok errno_of e s = Inr s1" "cr_single s1" by (rule returnsE)
    with True Cons have "returns (cr_run sock_ok errno_of es s1) cr_single" by simp
    with True s1 show ?thesis by (simp add: cr_run_def)
  next
    case False
    with Cons have "returns (cr_run sock_ok errno_of es s) cr_single" by simp
    with False show ?thesis by (simp add: cr_run_def)
  qed
qed (simp add: cr_run_def)

lemma Connector_new_single: "cr_single Connector_new"
  using Connector_new_ok by (simp add: cr_single_def cr_attempts_def Connector_new_def)

section \<open>Properties of the connector\<close>

text \<open>C26. Whatever happens to a connector, every socket it created is closed, handed to the
  client or being connected: exactly one of these, and once. No socket leaks and none is
  closed twice or closed after it was handed on. The delay of every retry is between 500
  milliseconds and 30 seconds.\<close>

theorem connector_sockets_accounted:
  assumes "cr_run sock_ok errno_of es Connector_new = Inr s"
  shows "cr_accounted s \<and> (\<forall>d \<in> set (cr_timers s). 500 \<le> d \<and> d \<le> 30000)"
  using cr_run_ok [OF assms Connector_new_ok]
  by (simp add: cr_ok_def delay_ok_def kInitRetryDelayMs_def kMaxRetryDelayMs_def)

text \<open>The first socket is refused, the second one connects.\<close>

definition refuse_first :: "nat \<Rightarrow> int" where
  "refuse_first n = (if n = 0 then 111 else 115)"

definition connect_events :: "connector_event list" where
  "connect_events = [CStart True, CTimer 0, CWritable 0 False, CFunctor]"

lemmas connector_eval = cr_run_def fold_r.simps cr_step.simps cr_may.simps cr_start_def startInLoop_def
  cr_connect_call_def connecting_def retry_def close_socket_def cr_stop_def queue_cr_def stopInLoop_def
  cr_handleWrite_def removeAndResetChannel_def resetChannel_def drop_nth_def progress_errnos_def
  retry_errnos_def Connector_new_def kInitRetryDelayMs_def kMaxRetryDelayMs_def Let_def

definition connect_result :: connector where
  "connect_result = \<lparr>cr_connect = True, cr_state = CkConnected, cr_retryDelayMs = 1000, cr_channel = None,
     cr_watched = False, cr_queued = [], cr_timers = [], cr_sockets = 2, cr_closed = [0], cr_handed = [1]\<rparr>"

lemma connect_events_result: "cr_run (\<lambda>_. True) refuse_first connect_events Connector_new = Inr connect_result"
  by (simp add: connector_eval connect_events_def refuse_first_def connect_result_def)

theorem connector_sockets_accounted_witness:
  "cr_run (\<lambda>_. True) refuse_first connect_events Connector_new = Inr connect_result \<and> cr_accounted connect_result"
  using connector_sockets_accounted [OF connect_events_result] connect_events_result by simp

text \<open>A connector that is started only while idle, and whose retries and restarts begin after
  the channel of the previous attempt is gone, never fails an assertion, whatever the
  network and the timing do.\<close>

theorem connector_disciplined_never_asserts:
  assumes "\<And>n. sock_ok n" and "cr_disciplined_run sock_ok errno_of es Connector_new"
  shows "\<exists>s. cr_run sock_ok errno_of es Connector_new = Inr s"
  using disciplined_run_single [of sock_ok, OF assms Connector_new_single] by (auto elim: returnsE)

theorem connector_disciplined_never_asserts_witness:
  "cr_disciplined_run (\<lambda>_. True) refuse_first connect_events Connector_new \<and>
   (\<exists>s. cr_run (\<lambda>_. True) refuse_first connect_events Connector_new = Inr s)"
proof -
  have d: "cr_disciplined_run (\<lambda>_. True) refuse_first connect_events Connector_new"
    by (simp add: connector_eval connect_events_def refuse_first_def cr_idle_def)
  show ?thesis using d connector_disciplined_never_asserts [OF _ d] by simp
qed

text \<open>A refused attempt: the timer of the previous one fires, the socket is closed and a retry is due.\<close>

lemma refused_retry:
  assumes "errno_of (cr_sockets s) \<in> set retry_errnos" and "sock_ok (cr_sockets s)" and "cr_connect s"
    and "cr_timers s = [d]"
  shows "\<exists>s'. cr_step sock_ok errno_of (CTimer 0) s = Inr s' \<and> cr_timers s' = [cr_retryDelayMs s] \<and>
     cr_retryDelayMs s' = min (cr_retryDelayMs s * 2) kMaxRetryDelayMs \<and> cr_connect s'"
  using assms by (auto simp: startInLoop_def cr_connect_call_def retry_def close_socket_def drop_nth_def Let_def
      progress_errnos_def retry_errnos_def)

lemma backoff_run:
  assumes "\<And>n. sock_ok n" and "\<And>n. errno_of n \<in> set retry_errnos"
  shows "cr_connect s \<Longrightarrow> cr_timers s = [d] \<Longrightarrow> cr_retryDelayMs s = min (d * 2) kMaxRetryDelayMs \<Longrightarrow> 0 \<le> d \<Longrightarrow> d \<le> kMaxRetryDelayMs \<Longrightarrow>
    \<exists>s'. cr_run sock_ok errno_of (replicate k (CTimer 0)) s = Inr s' \<and> cr_timers s' = [min (d * 2 ^ k) kMaxRetryDelayMs]"
proof (induction k arbitrary: s d)
  case (Suc k)
  let ?d = "min (d * 2) kMaxRetryDelayMs"
  from refused_retry [of errno_of s sock_ok d] assms Suc.prems obtain s1 where
    s1: "cr_step sock_ok errno_of (CTimer 0) s = Inr s1" "cr_timers s1 = [?d]"
      "cr_retryDelayMs s1 = min (?d * 2) kMaxRetryDelayMs" "cr_connect s1" by auto
  have "0 \<le> ?d" "?d \<le> kMaxRetryDelayMs" using Suc.prems by (auto simp: kMaxRetryDelayMs_def)
  with Suc.IH [of s1 ?d] s1 obtain s' where
    s': "cr_run sock_ok errno_of (replicate k (CTimer 0)) s1 = Inr s'" "cr_timers s' = [min (?d * 2 ^ k) kMaxRetryDelayMs]"
    by auto
  have "min (?d * 2 ^ k) kMaxRetryDelayMs = min (d * 2 ^ Suc k) kMaxRetryDelayMs"
  proof (cases "d * 2 \<le> kMaxRetryDelayMs")
    case False
    have "kMaxRetryDelayMs * 1 \<le> kMaxRetryDelayMs * 2 ^ k" by (intro mult_left_mono) (auto simp: kMaxRetryDelayMs_def)
    moreover have "kMaxRetryDelayMs * 2 ^ k \<le> d * 2 * 2 ^ k" using False by (intro mult_right_mono) auto
    ultimately have "min (kMaxRetryDelayMs * 2 ^ k) kMaxRetryDelayMs = kMaxRetryDelayMs"
      "min (d * 2 * 2 ^ k) kMaxRetryDelayMs = kMaxRetryDelayMs" by linarith+
    moreover have "?d = kMaxRetryDelayMs" using False by simp
    ultimately show ?thesis by (simp only: mult.assoc power_Suc)
  qed (simp add: mult.assoc)
  with s' s1 Suc.prems show ?case by (auto simp: cr_run_def)
qed (simp add: cr_run_def)

text \<open>Exponential backoff: when every attempt is refused, the retry that follows the k-th
  retry waits 500 * 2^k milliseconds, at most 30 seconds.\<close>

theorem retry_backoff:
  assumes "\<And>n. sock_ok n" and "\<And>n. errno_of n \<in> set retry_errnos"
  shows "\<exists>s. cr_run sock_ok errno_of (CStart True # replicate k (CTimer 0)) Connector_new = Inr s \<and>
     cr_timers s = [min (500 * 2 ^ k) 30000]"
proof -
  have e: "errno_of 0 \<in> set retry_errnos" "errno_of 0 \<notin> set progress_errnos"
    using assms(2) [of 0] by (auto simp: retry_errnos_def progress_errnos_def)
  obtain s1 where s1: "cr_step sock_ok errno_of (CStart True) Connector_new = Inr s1"
    "cr_connect s1" "cr_timers s1 = [500]" "cr_retryDelayMs s1 = 1000"
    using assms(1) e by (simp add: cr_start_def startInLoop_def cr_connect_call_def retry_def close_socket_def
        Connector_new_def Let_def kInitRetryDelayMs_def kMaxRetryDelayMs_def)
  with backoff_run [of sock_ok errno_of s1 500 k] assms show ?thesis
    by (auto simp: cr_run_def kMaxRetryDelayMs_def)
qed

theorem retry_backoff_witness:
  "(111::int) \<in> set retry_errnos \<and>
   (\<exists>s. cr_run (\<lambda>_. True) (\<lambda>_. 111) (CStart True # replicate 7 (CTimer 0)) Connector_new = Inr s \<and> cr_timers s = [30000])"
  using retry_backoff [of "\<lambda>_. True" "\<lambda>_. 111" 7] by (simp add: retry_errnos_def)

text \<open>The first attempt is refused; the connector is stopped and started again before its
  retry, and the second attempt is in progress when the timer of the first one fires.\<close>

definition stop_start_events :: "connector_event list" where
  "stop_start_events = [CStart True, CStop, CFunctor, CStart True]"

text \<open>Stopping a connector does not cancel its retry timer: started again, it is
  connecting when the old timer fires, and the assertion \<^verbatim>\<open>!channel_\<close> of \<^verbatim>\<open>connecting\<close>
  fails.\<close>

theorem stop_then_start_asserts:
  "returns (cr_run (\<lambda>_. True) refuse_first stop_start_events Connector_new) (\<lambda>s. cr_state s = CkConnecting \<and> cr_timers s \<noteq> []) \<and>
   cr_run (\<lambda>_. True) refuse_first (stop_start_events @ [CTimer 0]) Connector_new = Inl (AssertFail ''!channel_'')"
  by (simp add: connector_eval stop_start_events_def refuse_first_def)

end
