(* ===== verification/Lifecycles.thy ===== *)
theory Lifecycles
  imports TcpConnections
begin

text \<open>
  What the owner of connections (\<^verbatim>\<open>TcpServer\<close>, \<^verbatim>\<open>TcpClient\<close>) needs to know of them: where a
  connection stands with respect to its owner, and that only the close callback moves it.
\<close>

text \<open>
  Where a connection is, given whether it is in the map and how often the functors that
  establish, remove and destroy it are queued: queued for establishing; up; closed and to
  be removed; removed and to be destroyed; gone.
\<close>

definition obj_place :: "'c tcpconn \<Rightarrow> bool \<Rightarrow> nat \<Rightarrow> nat \<Rightarrow> nat \<Rightarrow> bool" where
  "obj_place c inmap e r d \<longleftrightarrow>
     (case cn_state c of
        kConnecting \<Rightarrow> inmap \<and> e = 1 \<and> r = 0 \<and> d = 0
      | kDisconnected \<Rightarrow>
          if ch_addedToLoop (cn_channel c)
          then e = 0 \<and> cn_log c = [NoteUp, NoteDown, NoteClosed] \<and> (inmap \<and> r = 1 \<and> d = 0 \<or> \<not> inmap \<and> r = 0 \<and> d = 1)
          else \<not> inmap \<and> e = 0 \<and> r = 0 \<and> d = 0
      | _ \<Rightarrow> inmap \<and> e = 0 \<and> r = 0 \<and> d = 0)"

context conn_callbacks
begin

text \<open>A connection that did not just close is where it was.\<close>

lemma place_kept:
  assumes rest: "at_rest c" and rel: "rest_rel c c'"
    and same: "\<not> (NoteClosed \<in> set (cn_log c') \<and> NoteClosed \<notin> set (cn_log c))"
  shows "obj_place c' m e r d = obj_place c m e r d"
proof -
  have inv: "conn_inv c" "conn_inv c'" using rest rel by (simp_all add: rest_rel_def at_rest_def)
  have log: "cn_log c = (if cn_state c = kConnecting then [] else [NoteUp])" if "cn_state c \<noteq> kDisconnected"
    using inv(1) that by (cases "cn_state c") (auto simp: conn_inv_def conn_shape_def)
  have "cn_state c' \<noteq> kDisconnected" if "cn_state c \<noteq> kDisconnected"
    using rel same that log by (auto simp: rest_rel_def phase_rel_def split: if_splits)
  then show ?thesis using rel unfolding rest_rel_def phase_rel_def obj_place_def
    by (cases "cn_state c"; cases "cn_state c'") auto
qed

text \<open>One that did was up before.\<close>

lemma newly_closed:
  assumes rest: "at_rest c" and rel: "rest_rel c c'"
    and new: "NoteClosed \<in> set (cn_log c')" "NoteClosed \<notin> set (cn_log c)"
  shows "cn_state c' = kDisconnected" "ch_addedToLoop (cn_channel c')" "cn_log c' = [NoteUp, NoteDown, NoteClosed]"
    "cn_state c = kConnected \<or> cn_state c = kDisconnecting"
proof -
  have inv: "conn_inv c" "conn_inv c'" using rest rel by (simp_all add: rest_rel_def at_rest_def)
  show d: "cn_state c' = kDisconnected"
    using inv(2) new(1) by (cases "cn_state c'") (auto simp: conn_inv_def conn_shape_def)
  have nd: "cn_state c \<noteq> kDisconnected" using rel new by (auto simp: rest_rel_def phase_rel_def)
  then show up: "cn_state c = kConnected \<or> cn_state c = kDisconnecting"
    using rel d by (cases "cn_state c") (auto simp: rest_rel_def phase_rel_def)
  show "cn_log c' = [NoteUp, NoteDown, NoteClosed]" using rel d nd by (simp add: rest_rel_def phase_rel_def)
  show "ch_addedToLoop (cn_channel c')" using up_facts(1) [OF inv(1) up] rel by (simp add: rest_rel_def phase_rel_def)
qed

end

end
