(* ===== verification/Sockets.thy ===== *)
theory Sockets
  imports Endian
begin

unbundle bit_operations_syntax

text \<open>
  Addresses and the wrappers of the socket system calls (\<^verbatim>\<open>netLayer/socket/InetAddress.cpp\<close>,
  \<^verbatim>\<open>netLayer/socket/SocketsOps.cpp\<close>, \<^verbatim>\<open>Socket::accept\<close>).

  An address is the union of \<^verbatim>\<open>sockaddr_in\<close> and \<^verbatim>\<open>sockaddr_in6\<close>, field by field in the
  order of memory; the four bytes after the port are the IPv4 address or the flow
  information. The answers of the kernel are arguments of the wrappers. The text form of
  an address is made and read by the C library, the parameter \<open>inet_lib\<close>; what the code
  relies on is \<open>inet_lib_ok\<close>. The properties: an address survives printing and reading, and
  it is printed in full.
\<close>

section \<open>Addresses\<close>

record sockaddr =
  sa_family :: "16 word"
  sa_port :: "16 word"        \<comment> \<open>network byte order\<close>
  sa_addr4 :: "32 word"       \<comment> \<open>\<^verbatim>\<open>sin_addr\<close>, or \<^verbatim>\<open>sin6_flowinfo\<close>\<close>
  sa_addr6 :: "128 word"      \<comment> \<open>\<^verbatim>\<open>sin6_addr\<close> as a number in network order; its first half is \<^verbatim>\<open>sin_zero\<close>\<close>
  sa_scope :: "32 word"       \<comment> \<open>\<^verbatim>\<open>sin6_scope_id\<close>\<close>

definition AF_INET :: "16 word" where "AF_INET = 2"
definition AF_INET6 :: "16 word" where "AF_INET6 = 10"
definition INET_ADDRSTRLEN :: nat where "INET_ADDRSTRLEN = 16"
definition INET6_ADDRSTRLEN :: nat where "INET6_ADDRSTRLEN = 46"

definition kInaddrAny :: "32 word" where "kInaddrAny = 0"
definition kInaddrLoopback :: "32 word" where "kInaddrLoopback = 0x7F000001"

text \<open>
  \<^verbatim>\<open>memZero\<close> (\<^verbatim>\<open>base/Types.h\<close>) sets every byte to 0xFF. Over a \<^verbatim>\<open>sockaddr_in6\<close>, and over a
  \<^verbatim>\<open>sockaddr_in\<close>, which is 12 bytes shorter.
\<close>

definition memZero6 :: sockaddr where
  "memZero6 = \<lparr>sa_family = - 1, sa_port = - 1, sa_addr4 = - 1, sa_addr6 = - 1, sa_scope = - 1\<rparr>"

definition memZero4 :: "sockaddr \<Rightarrow> sockaddr" where
  "memZero4 a = a\<lparr>sa_family := - 1, sa_port := - 1, sa_addr4 := - 1,
     sa_addr6 := push_bit 64 (- 1) OR take_bit 64 (sa_addr6 a)\<rparr>"

text \<open>The text form of addresses: \<^verbatim>\<open>inet_ntop\<close> and \<^verbatim>\<open>inet_pton\<close>.\<close>

record inet_lib =
  ntop4 :: "32 word \<Rightarrow> string"
  ntop6 :: "128 word \<Rightarrow> string"
  pton4 :: "string \<Rightarrow> 32 word option"
  pton6 :: "string \<Rightarrow> 128 word option"

definition inet_lib_ok :: "inet_lib \<Rightarrow> bool" where
  "inet_lib_ok lib \<longleftrightarrow>
     (\<forall>a. length (ntop4 lib a) < INET_ADDRSTRLEN \<and> pton4 lib (ntop4 lib a) = Some a) \<and>
     (\<forall>a. length (ntop6 lib a) < INET6_ADDRSTRLEN \<and> pton6 lib (ntop6 lib a) = Some a)"

text \<open>\<^verbatim>\<open>snprintf\<close> into a buffer of a size.\<close>

definition snprintf :: "nat \<Rightarrow> string \<Rightarrow> string" where
  "snprintf sz str = take (sz - 1) str"

section \<open>SocketsOps\<close>

text \<open>\<open>buf\<close>: the contents of the buffer before the call.\<close>

definition sock_toIp :: "inet_lib \<Rightarrow> string \<Rightarrow> nat \<Rightarrow> sockaddr \<Rightarrow> string res" where
  "sock_toIp lib buf sz addr =
     (if sa_family addr = AF_INET
      then ensure (INET_ADDRSTRLEN \<le> sz) ''size >= INET_ADDRSTRLEN'' (Inr (ntop4 lib (sa_addr4 addr)))
      else if sa_family addr = AF_INET6
      then ensure (INET6_ADDRSTRLEN \<le> sz) ''size >= INET6_ADDRSTRLEN'' (Inr (ntop6 lib (sa_addr6 addr)))
      else Inr buf)"

definition sock_toIpPort :: "inet_lib \<Rightarrow> string \<Rightarrow> nat \<Rightarrow> sockaddr \<Rightarrow> string res" where
  "sock_toIpPort lib buf sz addr =
     bind_r (sock_toIp lib buf sz addr) (\<lambda>ip.
       let endp = length ip; port = networkToHost16 (sa_port addr)
       in ensure (endp < sz) ''size > end''
            (Inr (ip @ snprintf (sz - endp) (CHR '':'' # show_nat (unat port)))))"

definition fromIpPort4 :: "inet_lib \<Rightarrow> string \<Rightarrow> 16 word \<Rightarrow> sockaddr \<Rightarrow> sockaddr" where
  "fromIpPort4 lib ip port addr =
     (let a = addr\<lparr>sa_family := AF_INET, sa_port := hostToNetwork16 port\<rparr>
      in case pton4 lib ip of None \<Rightarrow> a | Some i \<Rightarrow> a\<lparr>sa_addr4 := i\<rparr>)"

definition fromIpPort6 :: "inet_lib \<Rightarrow> string \<Rightarrow> 16 word \<Rightarrow> sockaddr \<Rightarrow> sockaddr" where
  "fromIpPort6 lib ip port addr =
     (let a = addr\<lparr>sa_family := AF_INET6, sa_port := hostToNetwork16 port\<rparr>
      in case pton6 lib ip of None \<Rightarrow> a | Some i \<Rightarrow> a\<lparr>sa_addr6 := i\<rparr>)"

text \<open>A system call answers \<open>Inl errno\<close> or its result.\<close>

definition createNonblockingOrDie :: "int + int \<Rightarrow> int res" where
  "createNonblockingOrDie sock = (case sock of Inl _ \<Rightarrow> Inl (Abort ''sockets::createNonblockingOrDie'') | Inr fd \<Rightarrow> Inr fd)"

definition bindOrDie :: "int + unit \<Rightarrow> unit res" where
  "bindOrDie ret = (case ret of Inl _ \<Rightarrow> Inl (Abort ''sockets::bindOrDie'') | Inr _ \<Rightarrow> Inr ())"

definition listenOrDie :: "int + unit \<Rightarrow> unit res" where
  "listenOrDie ret = (case ret of Inl _ \<Rightarrow> Inl (Abort ''sockets::listenOrDie'') | Inr _ \<Rightarrow> Inr ())"

definition EMFILE :: int where "EMFILE = 24"

text \<open>\<^verbatim>\<open>EAGAIN ECONNABORTED EINTR EPROTO EPERM EMFILE\<close>, and
  \<^verbatim>\<open>EBADF EFAULT EINVAL ENFILE ENOBUFS ENOMEM ENOTSOCK EOPNOTSUPP\<close>.\<close>

definition accept_expected :: "int list" where
  "accept_expected = [11, 103, 4, 71, 1, EMFILE]"

definition accept_unexpected :: "int list" where
  "accept_unexpected = [9, 14, 22, 23, 105, 12, 88, 95]"

text \<open>A descriptor with the peer's address, or the error number left in \<^verbatim>\<open>errno\<close>.\<close>

definition sock_accept :: "int + int \<times> sockaddr \<Rightarrow> (int + int \<times> sockaddr) res" where
  "sock_accept answer =
     (case answer of
        Inr conn \<Rightarrow> Inr (Inr conn)
      | Inl savedErrno \<Rightarrow>
          if savedErrno \<in> set accept_expected then Inr (Inl savedErrno)
          else if savedErrno \<in> set accept_unexpected then Inl (Abort ''unexpected error of ::accept'')
          else Inl (Abort ''unknown error of ::accept''))"

definition getSocketError :: "int + int \<Rightarrow> int" where
  "getSocketError answer = (case answer of Inl errno \<Rightarrow> errno | Inr optval \<Rightarrow> optval)"

text \<open>When \<^verbatim>\<open>getsockname\<close> or \<^verbatim>\<open>getpeername\<close> fails, the filled address is returned.\<close>

definition getLocalAddr :: "int + sockaddr \<Rightarrow> sockaddr" where
  "getLocalAddr answer = (case answer of Inl _ \<Rightarrow> memZero6 | Inr a \<Rightarrow> a)"

definition getPeerAddr :: "int + sockaddr \<Rightarrow> sockaddr" where
  "getPeerAddr answer = (case answer of Inl _ \<Rightarrow> memZero6 | Inr a \<Rightarrow> a)"

definition isSelfConnect :: "int + sockaddr \<Rightarrow> int + sockaddr \<Rightarrow> bool" where
  "isSelfConnect local peer =
     (let localaddr = getLocalAddr local; peeraddr = getPeerAddr peer
      in if sa_family localaddr = AF_INET
         then sa_port localaddr = sa_port peeraddr \<and> sa_addr4 localaddr = sa_addr4 peeraddr
         else if sa_family localaddr = AF_INET6
         then sa_port localaddr = sa_port peeraddr \<and> sa_addr6 localaddr = sa_addr6 peeraddr
         else False)"

section \<open>InetAddress\<close>

text \<open>\<open>mem\<close>: what the memory of the object held.\<close>

definition InetAddress_port :: "sockaddr \<Rightarrow> 16 word \<Rightarrow> bool \<Rightarrow> bool \<Rightarrow> sockaddr" where
  "InetAddress_port mem port loopbackOnly ipv6 =
     (if ipv6
      then memZero6\<lparr>sa_family := AF_INET6, sa_port := hostToNetwork16 port,
             sa_addr6 := (if loopbackOnly then 1 else 0)\<rparr>
      else (memZero4 mem)\<lparr>sa_family := AF_INET, sa_port := hostToNetwork16 port,
             sa_addr4 := hostToNetwork32 (if loopbackOnly then kInaddrLoopback else kInaddrAny)\<rparr>)"

definition InetAddress_ip :: "inet_lib \<Rightarrow> sockaddr \<Rightarrow> string \<Rightarrow> 16 word \<Rightarrow> bool \<Rightarrow> sockaddr" where
  "InetAddress_ip lib mem ip port ipv6 =
     (if ipv6 then fromIpPort6 lib ip port memZero6 else fromIpPort4 lib ip port (memZero4 mem))"

definition inet_toIpPort :: "inet_lib \<Rightarrow> sockaddr \<Rightarrow> string res" where
  "inet_toIpPort lib a = sock_toIpPort lib [] 64 a"

definition inet_toIp :: "inet_lib \<Rightarrow> sockaddr \<Rightarrow> string res" where
  "inet_toIp lib a = sock_toIp lib [] 64 a"

definition ipNetEndian :: "sockaddr \<Rightarrow> 32 word res" where
  "ipNetEndian a = ensure (sa_family a = AF_INET) ''family() == AF_INET'' (Inr (sa_addr4 a))"

definition toPort :: "sockaddr \<Rightarrow> 16 word" where
  "toPort a = networkToHost16 (sa_port a)"

text \<open>The answer of \<^verbatim>\<open>gethostbyname_r\<close>: the type and length of the address, and the address.\<close>

definition inet_resolve :: "(16 word \<times> nat \<times> 32 word) option \<Rightarrow> sockaddr \<Rightarrow> (bool \<times> sockaddr) res" where
  "inet_resolve he outp =
     (case he of
        Some (addrtype, len, ip) \<Rightarrow>
          ensure (addrtype = AF_INET \<and> len = 4) ''he->h_addrtype == AF_INET && he->h_length == sizeof(uint32_t)''
            (Inr (True, outp\<lparr>sa_addr4 := ip\<rparr>))
      | None \<Rightarrow> Inr (False, outp))"

definition setScopeId :: "32 word \<Rightarrow> sockaddr \<Rightarrow> sockaddr" where
  "setScopeId scope_id a = (if sa_family a = AF_INET6 then a\<lparr>sa_scope := scope_id\<rparr> else a)"

text \<open>\<^verbatim>\<open>Socket::accept\<close>: the address of the peer is set only when there is one.\<close>

definition Socket_accept :: "int + int \<times> sockaddr \<Rightarrow> sockaddr \<Rightarrow> ((int + int) \<times> sockaddr) res" where
  "Socket_accept answer peeraddr =
     bind_r (sock_accept answer) (\<lambda>r. case r of
         Inr (connfd, a) \<Rightarrow> Inr (Inr connfd, a)
       | Inl errno \<Rightarrow> Inr (Inl errno, peeraddr))"

section \<open>Properties\<close>

lemma snprintf_fits: "length str < sz \<Longrightarrow> snprintf sz str = str"
  by (simp add: snprintf_def)

lemma length_show_port: "length (show_nat (unat (port :: 16 word))) \<le> 5"
proof -
  have "unat port < 2 ^ LENGTH(16)" by (rule unsigned_less)
  then show ?thesis using length_show_nat [of "unat port" 4] by simp
qed

text \<open>An endpoint: family, port in host order, and the address in the field of its family.\<close>

definition endpoint :: "sockaddr \<Rightarrow> bool \<times> 16 word \<times> 32 word \<times> 128 word" where
  "endpoint a = (let v6 = (sa_family a = AF_INET6)
     in (v6, toPort a, if v6 then 0 else sa_addr4 a, if v6 then sa_addr6 a else 0))"

definition ip_text :: "inet_lib \<Rightarrow> sockaddr \<Rightarrow> string" where
  "ip_text lib a = (if sa_family a = AF_INET6 then ntop6 lib (sa_addr6 a) else ntop4 lib (sa_addr4 a))"

lemma ip_text_short: "inet_lib_ok lib \<Longrightarrow> length (ip_text lib a) < 46"
proof -
  assume "inet_lib_ok lib"
  then have "length (ntop4 lib (sa_addr4 a)) < 16" "length (ntop6 lib (sa_addr6 a)) < 46"
    by (simp_all add: inet_lib_ok_def INET_ADDRSTRLEN_def INET6_ADDRSTRLEN_def)
  then show ?thesis by (simp add: ip_text_def)
qed

lemma toIp_text:
  "sa_family a = AF_INET \<or> sa_family a = AF_INET6 \<Longrightarrow> 46 \<le> sz \<Longrightarrow> sock_toIp lib buf sz a = Inr (ip_text lib a)"
  by (auto simp: sock_toIp_def ip_text_def AF_INET_def AF_INET6_def INET_ADDRSTRLEN_def INET6_ADDRSTRLEN_def)

lemma toIpPort_text:
  assumes "inet_lib_ok lib" and "sa_family a = AF_INET \<or> sa_family a = AF_INET6"
  shows "inet_toIpPort lib a = Inr (ip_text lib a @ '':'' @ show_nat (unat (toPort a)))"
proof -
  have "length ('':'' @ show_nat (unat (toPort a))) < 64 - length (ip_text lib a)"
    using ip_text_short [OF assms(1), of a] length_show_port [of "toPort a"] by simp
  from snprintf_fits [OF this] ip_text_short [OF assms(1), of a] show ?thesis
    by (simp add: inet_toIpPort_def sock_toIpPort_def toIp_text [OF assms(2)] toPort_def Let_def)
qed

text \<open>Every IPv4 or IPv6 endpoint is printed in full (the 64 byte buffers never truncate),
  as its address, a colon and its port, and the address made from that text and port is
  the same endpoint.\<close>

theorem inet_text_round_trip:
  assumes "inet_lib_ok lib" and "sa_family a = AF_INET \<or> sa_family a = AF_INET6"
  shows "inet_toIpPort lib a = Inr (ip_text lib a @ '':'' @ show_nat (unat (toPort a))) \<and>
    returns (inet_toIp lib a) (\<lambda>ip. endpoint (InetAddress_ip lib mem ip (toPort a) (sa_family a = AF_INET6)) = endpoint a)"
  using assms toIpPort_text [OF assms]
  by (auto simp: inet_toIp_def toIp_text ip_text_def endpoint_def InetAddress_ip_def fromIpPort4_def fromIpPort6_def
      inet_lib_ok_def toPort_def Let_def AF_INET_def AF_INET6_def)

text \<open>A library that prints addresses as decimal numbers.\<close>

definition decimal_lib :: inet_lib where
  "decimal_lib = \<lparr>ntop4 = (\<lambda>a. show_nat (unat a)), ntop6 = (\<lambda>a. show_nat (unat a)),
     pton4 = (\<lambda>s. Some (of_nat (digits_val 0 s))), pton6 = (\<lambda>s. Some (of_nat (digits_val 0 s)))\<rparr>"

lemma decimal_lib_ok: "inet_lib_ok decimal_lib"
proof -
  have "length (show_nat (unat a)) < 16" for a :: "32 word"
  proof -
    have "unat a < 2 ^ LENGTH(32)" by (rule unsigned_less)
    then show ?thesis using length_show_nat [of "unat a" 9] by simp
  qed
  moreover have "length (show_nat (unat a)) < 46" for a :: "128 word"
  proof -
    have "unat a < 2 ^ LENGTH(128)" by (rule unsigned_less)
    then show ?thesis using length_show_nat [of "unat a" 38] by simp
  qed
  ultimately show ?thesis
    by (simp add: inet_lib_ok_def decimal_lib_def digits_val_show_nat INET_ADDRSTRLEN_def INET6_ADDRSTRLEN_def)
qed

definition loopback_80 :: sockaddr where
  "loopback_80 = InetAddress_port memZero6 80 True False"

theorem inet_text_round_trip_witness:
  "inet_lib_ok decimal_lib \<and> sa_family loopback_80 = AF_INET \<and>
   inet_toIpPort decimal_lib loopback_80 = Inr (ip_text decimal_lib loopback_80 @ '':80'')"
proof -
  have f: "sa_family loopback_80 = AF_INET" by (simp add: loopback_80_def InetAddress_port_def)
  have "toPort loopback_80 = 80" by (simp add: loopback_80_def InetAddress_port_def toPort_def)
  moreover have "show_nat 80 = ''80''" by (simp add: show_nat.simps digit_char_def)
  ultimately show ?thesis using inet_text_round_trip [OF decimal_lib_ok, of loopback_80 memZero6] f decimal_lib_ok by simp
qed

text \<open>\<^verbatim>\<open>memZero\<close> does not zero: every IPv6 address made from a port has the scope id and the
  flow information 0xFFFFFFFF, and an IPv4 text that is not an address gives
  255.255.255.255.\<close>

theorem inet_addresses_not_zeroed:
  "sa_scope (InetAddress_port mem port loopbackOnly True) = 0xFFFFFFFF \<and>
   sa_addr4 (InetAddress_port mem port loopbackOnly True) = 0xFFFFFFFF \<and>
   sa_addr4 (InetAddress_ip lib mem ip port False) = (case pton4 lib ip of None \<Rightarrow> 0xFFFFFFFF | Some a \<Rightarrow> a)"
  by (simp add: InetAddress_port_def InetAddress_ip_def fromIpPort4_def memZero6_def memZero4_def Let_def split: option.split)

end
