(* ===== verification/Clients.thy ===== *)
theory Clients
  imports Connectors Lifecycles Sockets
begin

text \<open>
  The TCP client (\<^verbatim>\<open>netLayer/tcp/c/client/TcpClient.cpp\<close>): one connector, at most one connection at
  a time, and a new attempt when a connection is lost and the client is to retry. The
  connector is that of theory \<open>Connectors\<close>, the connections are those of theory \<open>TcpConnections\<close>, in
  one loop. The properties: used the intended way, a client never fails an assertion and
  nothing calls back into one that was deleted; each connection is destroyed exactly once
  after it is closed; and what happens when \<^verbatim>\<open>connect\<close> is called while connected.
\<close>

section \<open>TcpClient\<close>

record 'c cl_obj =
  co_name :: string
  co_conn :: "'c tcpconn"

record 'c client =
  cl_name :: string
  cl_connector :: connector
  cl_retry :: bool
  cl_connect :: bool
  cl_nextConnId :: int
  cl_connection :: "nat option"       \<comment> \<open>\<^verbatim>\<open>connection_\<close>, an index of \<open>cl_objs\<close>\<close>
  cl_objs :: "'c cl_obj list"         \<comment> \<open>all connections made, in order\<close>
  cl_destroys :: "nat list"           \<comment> \<open>connections whose \<^verbatim>\<open>connectDestroyed\<close> is queued\<close>
  cl_deleted :: bool                  \<comment> \<open>after \<^verbatim>\<open>~TcpClient\<close>; then \<open>cl_connection\<close> is the connection it left\<close>

text \<open>
  What is outside: the callbacks and system calls of connections and of the connector, the
  addresses of the peers.
\<close>

record 'c cl_env =
  li_conn :: "'c conn_env"
  li_context :: 'c
  li_writeComplete :: bool
  li_sock_ok :: "nat \<Rightarrow> bool"
  li_errno_of :: "nat \<Rightarrow> int"
  li_lib :: inet_lib
  li_peer :: "nat \<Rightarrow> sockaddr"

definition TcpClient_new :: "string \<Rightarrow> 'c client" where
  "TcpClient_new nameArg = \<lparr>cl_name = nameArg, cl_connector = Connector_new, cl_retry = False, cl_connect = True,
     cl_nextConnId = 1, cl_connection = None, cl_objs = [], cl_destroys = [], cl_deleted = False\<rparr>"

definition cl_enableRetry :: "'c client \<Rightarrow> 'c client" where
  "cl_enableRetry s = s\<lparr>cl_retry := True\<rparr>"

definition cl_set_conn :: "nat \<Rightarrow> 'c tcpconn \<Rightarrow> 'c client \<Rightarrow> 'c client" where
  "cl_set_conn i c s = s\<lparr>cl_objs := (cl_objs s)[i := (cl_objs s ! i)\<lparr>co_conn := c\<rparr>]\<rparr>"

definition cl_conn :: "'c client \<Rightarrow> nat \<Rightarrow> 'c tcpconn" where
  "cl_conn s i = co_conn (cl_objs s ! i)"

text \<open>The connector calls this when it has established the connection \<open>sockfd\<close>.\<close>

definition cl_newConnection :: "'c cl_env \<Rightarrow> nat \<Rightarrow> 'c client \<Rightarrow> 'c client res" where
  "cl_newConnection env sockfd s =
     (if cl_deleted s then Inl (Undefined ''deleted client'')
      else bind_r (inet_toIpPort (li_lib env) (li_peer env sockfd)) (\<lambda>ipPort.
        if cl_nextConnId s = 2 ^ 31 - 1 then Inl (Undefined ''++nextConnId_'')
        else
          (let buf = snprintf 32 ('':'' @ ipPort @ ''#'' @ show_int (cl_nextConnId s));
               connName = cl_name s @ buf;
               i = length (cl_objs s)
           in bind_r (Buffer_new kInitialSize) (\<lambda>b.
              let conn = TcpConnection_new (int sockfd) b b (li_context env) (li_writeComplete env) False;
                  s1 = s\<lparr>cl_nextConnId := cl_nextConnId s + 1,
                         cl_objs := cl_objs s @ [\<lparr>co_name = connName, co_conn = conn\<rparr>], cl_connection := Some i\<rparr>
              in bind_r (connectEstablished (li_conn env) conn) (\<lambda>c. Inr (cl_set_conn i c s1))))))"

text \<open>An event of the connector; an established socket is handed on.\<close>

definition cl_connector_event :: "'c cl_env \<Rightarrow> connector_event \<Rightarrow> 'c client \<Rightarrow> 'c client res" where
  "cl_connector_event env e s =
     bind_r (cr_step (li_sock_ok env) (li_errno_of env) e (cl_connector s)) (\<lambda>k.
       let s1 = s\<lparr>cl_connector := k\<rparr>
       in if length (cr_handed (cl_connector s)) < length (cr_handed k)
          then cl_newConnection env (last (cr_handed k)) s1 else Inr s1)"

definition cl_connect_call :: "'c cl_env \<Rightarrow> bool \<Rightarrow> 'c client \<Rightarrow> 'c client res" where
  "cl_connect_call env inl s = cl_connector_event env (CStart inl) (s\<lparr>cl_connect := True\<rparr>)"

definition cl_stop :: "'c client \<Rightarrow> 'c client" where
  "cl_stop s = s\<lparr>cl_connect := False, cl_connector := cr_stop (cl_connector s)\<rparr>"

text \<open>
  The close callback of a connection: \<^verbatim>\<open>TcpClient::removeConnection\<close>, or \<^verbatim>\<open>detail::removeConnection\<close> when the
  client is gone.
\<close>

definition cl_removeConnection :: "'c cl_env \<Rightarrow> nat \<Rightarrow> 'c client \<Rightarrow> 'c client res" where
  "cl_removeConnection env i s =
     (if cl_deleted s then Inr (s\<lparr>cl_connection := None, cl_destroys := cl_destroys s @ [i]\<rparr>)
      else ensure (cl_connection s = Some i) ''connection_ == conn''
        (let s1 = s\<lparr>cl_connection := None, cl_destroys := cl_destroys s @ [i]\<rparr>
         in if cl_retry s1 \<and> cl_connect s1 then cl_connector_event env CRestart s1 else Inr s1))"

definition cl_conn_event :: "'c cl_env \<Rightarrow> nat \<Rightarrow> conn_event \<Rightarrow> 'c client \<Rightarrow> 'c client res" where
  "cl_conn_event env i e s =
     bind_r (conn_step (li_conn env) e (cl_conn s i)) (\<lambda>c.
       if NoteClosed \<in> set (cn_log c) \<and> NoteClosed \<notin> set (cn_log (cl_conn s i))
       then cl_removeConnection env i (cl_set_conn i c s) else Inr (cl_set_conn i c s))"

definition cl_disconnect :: "'c cl_env \<Rightarrow> bool \<Rightarrow> 'c client \<Rightarrow> 'c client res" where
  "cl_disconnect env inl s =
     (let s1 = s\<lparr>cl_connect := False\<rparr>
      in case cl_connection s1 of None \<Rightarrow> Inr s1 | Some i \<Rightarrow> cl_conn_event env i (UserCall inl OpShutdown) s1)"

text \<open>\<^verbatim>\<open>~TcpClient\<close>, in the thread of the loop; \<open>unique\<close>: nobody else holds the connection.\<close>

definition TcpClient_delete :: "'c cl_env \<Rightarrow> bool \<Rightarrow> 'c client \<Rightarrow> 'c client res" where
  "TcpClient_delete env unique s =
     (case cl_connection s of
        Some i \<Rightarrow>
          (let s1 = s\<lparr>cl_deleted := True\<rparr>
           in if unique then cl_conn_event env i (UserCall True OpForceClose) s1 else Inr s1)
      | None \<Rightarrow> Inr (s\<lparr>cl_deleted := True, cl_connector := cr_stop (cl_connector s)\<rparr>))"

definition cl_destroy :: "'c cl_env \<Rightarrow> 'c client \<Rightarrow> 'c client res" where
  "cl_destroy env s =
     (case cl_destroys s of
        [] \<Rightarrow> Inr s
      | i # is \<Rightarrow> bind_r (connectDestroyed (li_conn env) (cl_conn s i)) (\<lambda>c. Inr (cl_set_conn i c (s\<lparr>cl_destroys := is\<rparr>))))"

section \<open>Runs\<close>

datatype cl_event =
    ClEnableRetry
  | ClConnect bool
  | ClDisconnect bool
  | ClStop
  | ClDelete bool
  | ClConnector connector_event       \<comment> \<open>the loop: functors, timers, events of the connector's channel\<close>
  | ClConn nat conn_event
  | ClDestroy

fun cl_step :: "'c cl_env \<Rightarrow> cl_event \<Rightarrow> 'c client \<Rightarrow> 'c client res" where
  "cl_step env ClEnableRetry s = Inr (cl_enableRetry s)"
| "cl_step env (ClConnect inl) s = cl_connect_call env inl s"
| "cl_step env (ClDisconnect inl) s = cl_disconnect env inl s"
| "cl_step env ClStop s = Inr (cl_stop s)"
| "cl_step env (ClDelete unique) s = TcpClient_delete env unique s"
| "cl_step env (ClConnector e) s = cl_connector_event env e s"
| "cl_step env (ClConn i e) s = cl_conn_event env i e s"
| "cl_step env ClDestroy s = cl_destroy env s"

fun loop_event :: "connector_event \<Rightarrow> bool" where
  "loop_event CFunctor = True"
| "loop_event (CTimer i) = True"
| "loop_event (CWritable err self) = True"
| "loop_event CError = True"
| "loop_event _ = False"

text \<open>
  What can happen. The client is used until it is deleted; it is told to connect only when it
  has no connection and its connector is idle. The loop runs the functor that drops the
  channel of the connector before it handles later events, those of the new connection
  among them.
\<close>

fun cl_may :: "cl_event \<Rightarrow> 'c client \<Rightarrow> bool" where
  "cl_may ClEnableRetry s \<longleftrightarrow> \<not> cl_deleted s"
| "cl_may (ClConnect inl) s \<longleftrightarrow> \<not> cl_deleted s \<and> cl_connection s = None \<and> cr_idle (cl_connector s)"
| "cl_may (ClDisconnect inl) s \<longleftrightarrow> \<not> cl_deleted s"
| "cl_may ClStop s \<longleftrightarrow> \<not> cl_deleted s"
| "cl_may (ClDelete unique) s \<longleftrightarrow> \<not> cl_deleted s"
| "cl_may (ClConnector e) s \<longleftrightarrow> loop_event e \<and> cr_may e (cl_connector s) \<and> cr_disciplined e (cl_connector s) \<and>
     int (length (cl_objs s)) < 2 ^ 31 - 2"
| "cl_may (ClConn i e) s \<longleftrightarrow> i < length (cl_objs s) \<and> conn_may e (cl_conn s i) \<and> e \<noteq> Established \<and> e \<noteq> Destroyed \<and>
     ResetChannel \<notin> set (cr_queued (cl_connector s))"
| "cl_may ClDestroy s \<longleftrightarrow> cl_destroys s \<noteq> []"

section \<open>What the connector does meanwhile\<close>

lemma startInLoop_handed:
  "startInLoop sock_ok errno_of k = Inr k' \<Longrightarrow> cr_handed k' = cr_handed k \<and> cr_connect k' = cr_connect k"
  by (auto simp: startInLoop_def cr_connect_call_def connecting_def retry_def close_socket_def ensure_eq_Inr Let_def
      split: if_splits)

lemma loop_event_connect:
  assumes "loop_event e" and "cr_step sock_ok errno_of e k = Inr k'"
  shows "cr_connect k' = cr_connect k"
proof (cases e)
  case CFunctor
  show ?thesis
  proof (cases "cr_queued k")
    case Nil
    with CFunctor assms show ?thesis by simp
  next
    case (Cons f fs)
    with CFunctor assms startInLoop_handed [of sock_ok errno_of "k\<lparr>cr_queued := fs\<rparr>" k'] show ?thesis
      by (cases f) (auto simp: stopInLoop_def removeAndResetChannel_def retry_def close_socket_def queue_cr_def
          resetChannel_def Let_def split: option.splits if_splits)
  qed
next
  case (CTimer i)
  with assms startInLoop_handed [of sock_ok errno_of _ k'] show ?thesis by fastforce
qed (use assms in \<open>auto simp: cr_handleWrite_def cr_handleError_def removeAndResetChannel_def retry_def close_socket_def
      queue_cr_def ensure_eq_Inr Let_def split: option.splits if_splits\<close>)

text \<open>With no attempt under way the loop does nothing to the connector but drop its channel.\<close>

lemma quiet_step:
  assumes "cr_single k" and "cr_attempts k = 0" and "loop_event e" and "cr_may e k"
    and "cr_step sock_ok errno_of e k = Inr k'"
  shows "cr_attempts k' = 0 \<and> cr_state k' = cr_state k \<and> cr_handed k' = cr_handed k"
proof -
  have q: "cr_timers k = []" "StartInLoop \<notin> set (cr_queued k)" "\<not> cr_watched k" and st: "cr_state k \<noteq> CkConnecting"
    using assms(1,2) by (auto simp: cr_attempts_def count_list_0_iff cr_single_def cr_ok_def split: if_splits)
  show ?thesis
  proof (cases e)
    case CFunctor
    with assms(4) obtain f fs where f: "cr_queued k = f # fs" by (cases "cr_queued k") auto
    with CFunctor assms(2,5) q st show ?thesis
      by (cases f) (auto simp: stopInLoop_def resetChannel_def cr_attempts_def)
  qed (use assms q in auto)
qed

lemma handing_step:
  assumes single: "cr_single k" and "loop_event e" and "cr_may e k" and step: "cr_step sock_ok errno_of e k = Inr k'"
    and "cr_handed k' \<noteq> cr_handed k"
  shows "cr_connect k \<and> cr_attempts k \<noteq> 0 \<and> cr_attempts k' = 0 \<and> cr_state k' = CkConnected \<and>
    length (cr_handed k') = Suc (length (cr_handed k))"
proof -
  have "\<exists>err self. e = CWritable err self"
  proof (cases e)
    case CFunctor
    with assms(3) obtain f fs where f: "cr_queued k = f # fs" by (cases "cr_queued k") auto
    with CFunctor step startInLoop_handed [of sock_ok errno_of "k\<lparr>cr_queued := fs\<rparr>" k'] assms(5) show ?thesis
      by (cases f) (auto simp: stopInLoop_def removeAndResetChannel_def retry_def close_socket_def queue_cr_def
          resetChannel_def Let_def split: option.splits if_splits)
  next
    case (CTimer i)
    with step assms(5) startInLoop_handed [of sock_ok errno_of _ k'] show ?thesis by fastforce
  qed (use assms in \<open>auto simp: cr_handleError_def removeAndResetChannel_def retry_def close_socket_def queue_cr_def Let_def
      split: option.splits if_splits\<close>)
  then obtain err self where e: "e = CWritable err self" by blast
  with assms(3) have w: "cr_watched k" by simp
  from release_single [OF single w] obtain fd k1 where r: "removeAndResetChannel k = Inr (fd, k1)" "cr_attempts k1 = 0" .
  moreover have "cr_handed k1 = cr_handed k" "cr_connect k1 = cr_connect k"
    using r(1) by (auto simp: removeAndResetChannel_def queue_cr_def split: option.splits)
  moreover have "cr_attempts k \<noteq> 0" using w by (simp add: cr_attempts_def)
  ultimately show ?thesis using step e assms(5) single w
    by (auto simp: cr_handleWrite_def cr_single_def retry_def close_socket_def cr_attempts_def Let_def split: if_splits)
qed

section \<open>Invariant\<close>

definition cl_place :: "'c client \<Rightarrow> nat \<Rightarrow> bool" where
  "cl_place s j \<longleftrightarrow> obj_place (cl_conn s j) (cl_connection s = Some j) 0 0 (count_list (cl_destroys s) j)"

definition cl_shape :: "'c client \<Rightarrow> bool" where
  "cl_shape s \<longleftrightarrow> cr_single (cl_connector s) \<and>
     (cl_connection s \<noteq> None \<longrightarrow> cr_attempts (cl_connector s) = 0 \<and> cr_state (cl_connector s) = CkConnected) \<and>
     (cl_deleted s \<longrightarrow> cr_attempts (cl_connector s) = 0 \<or> \<not> cr_connect (cl_connector s)) \<and>
     cl_nextConnId s = int (length (cl_objs s)) + 1 \<and> set (cl_destroys s) \<subseteq> {..<length (cl_objs s)} \<and>
     (\<forall>i. cl_connection s = Some i \<longrightarrow> i < length (cl_objs s))"

context conn_callbacks
begin

definition cl_inv :: "'c client \<Rightarrow> bool" where
  "cl_inv s \<longleftrightarrow> cl_shape s \<and> (\<forall>j < length (cl_objs s). at_rest (cl_conn s j) \<and> cl_place s j)"

lemma cl_set_conn_simps [simp]:
  assumes "i < length (cl_objs s)"
  shows "cl_conn (cl_set_conn i c s) j = (if j = i then c else cl_conn s j)"
    and "length (cl_objs (cl_set_conn i c s)) = length (cl_objs s)"
  using assms by (auto simp: cl_conn_def cl_set_conn_def nth_list_update)

lemma cl_set_conn_frame [simp]:
  "cl_connection (cl_set_conn i c s) = cl_connection s" "cl_destroys (cl_set_conn i c s) = cl_destroys s"
  "cl_connector (cl_set_conn i c s) = cl_connector s" "cl_deleted (cl_set_conn i c s) = cl_deleted s"
  "cl_nextConnId (cl_set_conn i c s) = cl_nextConnId s" "cl_retry (cl_set_conn i c s) = cl_retry s"
  "cl_connect (cl_set_conn i c s) = cl_connect s"
  by (simp_all add: cl_set_conn_def)

text \<open>Steps that leave the connections alone.\<close>

lemma cl_inv_connector:
  assumes "cl_inv s" and "cr_single k"
    and "cl_connection s \<noteq> None \<longrightarrow> cr_attempts k = 0 \<and> cr_state k = CkConnected"
    and "cl_deleted s \<longrightarrow> cr_attempts k = 0 \<or> \<not> cr_connect k"
  shows "cl_inv (s\<lparr>cl_connector := k\<rparr>)"
  using assms by (simp add: cl_inv_def cl_shape_def cl_place_def cl_conn_def)

lemma cl_inv_flags [simp]:
  "cl_inv (s\<lparr>cl_connect := b\<rparr>) = cl_inv s" "cl_inv (s\<lparr>cl_retry := b\<rparr>) = cl_inv s"
  by (simp_all add: cl_inv_def cl_shape_def cl_place_def cl_conn_def)

lemma newConnection_cl_inv:
  assumes E: "li_conn E = env" "inet_lib_ok (li_lib E)"
      "\<And>fd. sa_family (li_peer E fd) = AF_INET \<or> sa_family (li_peer E fd) = AF_INET6"
    and inv: "cl_inv s" and none: "cl_connection s = None" "\<not> cl_deleted s"
    and k: "cr_attempts (cl_connector s) = 0" "cr_state (cl_connector s) = CkConnected"
    and room: "int (length (cl_objs s)) < 2 ^ 31 - 2"
  shows "returns (cl_newConnection E fd s) cl_inv"
proof -
  obtain b where b: "Buffer_new kInitialSize = Inr b" using Buffer_new_spec [of kInitialSize] by (auto elim: returnsE)
  let ?n = "length (cl_objs s)"
  let ?c0 = "TcpConnection_new (int fd) b b (li_context E) (li_writeComplete E) False"
  have "at_rest ?c0" "cn_state ?c0 = kConnecting" using created_at_rest [OF b] by (simp_all add: TcpConnection_new_def)
  from established_spec [OF this] obtain c where c: "connectEstablished env ?c0 = Inr c" "at_rest c" "conn_alive c"
    by (auto elim: returnsE)
  have next_id: "cl_nextConnId s = int ?n + 1" using inv by (simp add: cl_inv_def cl_shape_def)
  let ?name = "cl_name s @ snprintf 32 ('':'' @ (ip_text (li_lib E) (li_peer E fd) @ '':'' @ show_nat (unat (toPort (li_peer E fd)))) @ ''#'' @
      show_int (cl_nextConnId s))"
  let ?s = "cl_set_conn ?n c (s\<lparr>cl_nextConnId := cl_nextConnId s + 1,
      cl_objs := cl_objs s @ [\<lparr>co_name = ?name, co_conn = ?c0\<rparr>], cl_connection := Some ?n\<rparr>)"
  have eq: "cl_newConnection E fd s = Inr ?s"
    using none(2) toIpPort_text [OF E(2) E(3) [of fd]] room next_id b c(1) E(1) by (simp add: cl_newConnection_def Let_def)
  have new: "cl_conn ?s j = (if j = ?n then c else cl_conn s j)" if "j < Suc ?n" for j
    using that by (auto simp: cl_conn_def cl_set_conn_def nth_append)
  have fresh: "count_list (cl_destroys s) ?n = 0"
    using inv by (auto simp: cl_inv_def cl_shape_def count_list_0_iff)
  have place: "cl_place ?s j" if j: "j < Suc ?n" for j
  proof (cases "j = ?n")
    case True
    with c(3) fresh new [OF j] show ?thesis by (auto simp: cl_place_def obj_place_def conn_alive_def)
  next
    case False
    with j have "cl_place s j" using inv by (simp add: cl_inv_def)
    with False none(1) new [OF j] show ?thesis by (simp add: cl_place_def)
  qed
  have len: "length (cl_objs ?s) = Suc ?n" by (simp add: cl_set_conn_def)
  have "cl_shape ?s" using inv none k len next_id by (auto simp: cl_inv_def cl_shape_def)
  moreover have "at_rest (cl_conn ?s j)" if "j < Suc ?n" for j
    using that new [OF that] c(2) inv by (auto simp: cl_inv_def less_Suc_eq)
  ultimately have "cl_inv ?s" using place len by (simp add: cl_inv_def)
  with eq show ?thesis by simp
qed

lemma connector_event_cl_inv:
  assumes E: "li_conn E = env" "inet_lib_ok (li_lib E)"
      "\<And>fd. sa_family (li_peer E fd) = AF_INET \<or> sa_family (li_peer E fd) = AF_INET6" "\<And>n. li_sock_ok E n"
    and inv: "cl_inv s" and may: "cl_may (ClConnector e) s"
  shows "returns (cl_connector_event E e s) cl_inv"
proof -
  let ?k = "cl_connector s"
  from may have e: "loop_event e" "cr_may e ?k" "cr_disciplined e ?k" by simp_all
  have shape: "cl_shape s" and single: "cr_single ?k" using inv by (simp_all add: cl_inv_def cl_shape_def)
  from disciplined_step [OF single e(2,3), of "li_sock_ok E" "li_errno_of E"] E(4) obtain k where
    k: "cr_step (li_sock_ok E) (li_errno_of E) e ?k = Inr k" "cr_single k" by (auto elim: returnsE)
  note quiet = quiet_step [OF single _ e(1,2) k(1)]
  note handing = handing_step [OF single e(1,2) k(1)]
  have "cr_connect k = cr_connect ?k" by (rule loop_event_connect [OF e(1) k(1)])
  then have kept: "cl_inv (s\<lparr>cl_connector := k\<rparr>)"
    using quiet shape by (intro cl_inv_connector [OF inv k(2)]) (auto simp: cl_shape_def)
  show ?thesis
  proof (cases "cr_handed k = cr_handed ?k")
    case True
    with kept k(1) show ?thesis by (simp add: cl_connector_event_def Let_def)
  next
    case False
    from handing [OF False] shape have "cl_connection s = None" "\<not> cl_deleted s" by (auto simp: cl_shape_def)
    then have "returns (cl_newConnection E (last (cr_handed k)) (s\<lparr>cl_connector := k\<rparr>)) cl_inv"
      using handing [OF False] kept may by (intro newConnection_cl_inv E(1-3)) simp_all
    with handing [OF False] k(1) show ?thesis by (simp add: cl_connector_event_def Let_def)
  qed
qed

text \<open>Starting and restarting the connector of a client without a connection.\<close>

lemma start_cl_inv:
  assumes sock: "\<And>n. li_sock_ok E n" and inv: "cl_inv s" and none: "cl_connection s = None" "\<not> cl_deleted s"
    and e: "e = CStart inl \<or> e = CRestart" "cr_may e (cl_connector s)" "cr_disciplined e (cl_connector s)"
  shows "returns (cl_connector_event E e s) cl_inv"
proof -
  let ?k = "cl_connector s"
  have "cr_single ?k" using inv by (simp add: cl_inv_def cl_shape_def)
  from disciplined_step [OF this e(2,3), of "li_sock_ok E" "li_errno_of E"] sock obtain k where
    k: "cr_step (li_sock_ok E) (li_errno_of E) e ?k = Inr k" "cr_single k" by (auto elim: returnsE)
  have "cr_handed k = cr_handed ?k"
    using e(1) k(1) startInLoop_handed [of "li_sock_ok E" "li_errno_of E" "?k\<lparr>cr_connect := True\<rparr>" k]
      startInLoop_handed [of "li_sock_ok E" "li_errno_of E"
        "?k\<lparr>cr_state := CkDisconnected, cr_retryDelayMs := kInitRetryDelayMs, cr_connect := True\<rparr>" k]
    by (auto simp: cr_start_def cr_restart_def queue_cr_def Let_def split: if_splits)
  moreover have "cl_inv (s\<lparr>cl_connector := k\<rparr>)" using none by (intro cl_inv_connector [OF inv k(2)]) simp_all
  ultimately show ?thesis using k(1) by (simp add: cl_connector_event_def Let_def)
qed

lemma cl_update_inv:
  assumes inv: "cl_inv s" and i: "i < length (cl_objs s)" and c: "at_rest c"
    and place: "obj_place c (conn' = Some i) 0 0 (count_list ds i)"
    and rest: "\<And>j. j \<noteq> i \<Longrightarrow> (conn' = Some j) = (cl_connection s = Some j) \<and> count_list ds j = count_list (cl_destroys s) j"
    and ds: "set ds \<subseteq> {..<length (cl_objs s)}" and conn': "conn' = cl_connection s \<or> conn' = None"
  shows "cl_inv ((cl_set_conn i c s)\<lparr>cl_connection := conn', cl_destroys := ds\<rparr>)"
proof -
  let ?s = "(cl_set_conn i c s)\<lparr>cl_connection := conn', cl_destroys := ds\<rparr>"
  have conn: "cl_conn ?s j = (if j = i then c else cl_conn s j)" for j using i by (simp add: cl_conn_def cl_set_conn_def nth_list_update)
  have "cl_shape ?s" using inv i ds conn' by (auto simp: cl_inv_def cl_shape_def)
  moreover have "cl_place ?s j" if "j < length (cl_objs s)" for j
    using place rest inv that by (cases "j = i") (simp_all add: cl_place_def conn cl_inv_def)
  moreover have "at_rest (cl_conn ?s j)" if "j < length (cl_objs s)" for j using c inv that by (simp add: conn cl_inv_def)
  ultimately show ?thesis using i by (simp add: cl_inv_def)
qed

lemma closed_cl_inv:
  assumes sock: "\<And>n. li_sock_ok E n" and inv: "cl_inv s" and i: "i < length (cl_objs s)"
    and c: "at_rest c" "cn_state c = kDisconnected" "ch_addedToLoop (cn_channel c)" "cn_log c = [NoteUp, NoteDown, NoteClosed]"
    and up: "cn_state (cl_conn s i) = kConnected \<or> cn_state (cl_conn s i) = kDisconnecting"
    and gone: "\<not> cl_deleted s \<and> cl_retry s \<and> cl_connect s \<longrightarrow> ResetChannel \<notin> set (cr_queued (cl_connector s))"
  shows "returns (cl_removeConnection E i (cl_set_conn i c s)) cl_inv"
proof -
  have place: "cl_place s i" and shape: "cl_shape s" using inv i by (simp_all add: cl_inv_def)
  then have conn: "cl_connection s = Some i" and d0: "count_list (cl_destroys s) i = 0"
    using up by (auto simp: cl_place_def obj_place_def)
  let ?s1 = "(cl_set_conn i c s)\<lparr>cl_connection := None, cl_destroys := cl_destroys s @ [i]\<rparr>"
  have inv1: "cl_inv ?s1"
    using c conn d0 i shape
    by (intro cl_update_inv [OF inv i]) (auto simp: obj_place_def cl_shape_def)
  have "returns (cl_connector_event E CRestart ?s1) cl_inv" if "cl_retry s" "cl_connect s" "\<not> cl_deleted s"
    using shape conn gone that by (intro start_cl_inv [OF sock inv1]) (simp_all add: cl_shape_def)
  with inv1 conn show ?thesis by (simp add: cl_removeConnection_def Let_def)
qed

lemma conn_event_cl_inv:
  assumes E: "li_conn E = env" "\<And>n. li_sock_ok E n" and inv: "cl_inv s" and i: "i < length (cl_objs s)"
    and e: "conn_may e (cl_conn s i)" "e \<noteq> Established" "e \<noteq> Destroyed"
    and gone: "\<not> cl_deleted s \<and> cl_retry s \<and> cl_connect s \<longrightarrow> ResetChannel \<notin> set (cr_queued (cl_connector s))"
  shows "returns (cl_conn_event E i e s) cl_inv"
proof -
  have rest: "at_rest (cl_conn s i)" and place: "cl_place s i" using inv i by (simp_all add: cl_inv_def)
  from conn_step_phase [OF rest e] obtain c where c: "conn_step env e (cl_conn s i) = Inr c" "rest_rel (cl_conn s i) c"
    by (auto elim: returnsE)
  have rest': "at_rest c" using c(2) by (simp add: rest_rel_def)
  show ?thesis
  proof (cases "NoteClosed \<in> set (cn_log c) \<and> NoteClosed \<notin> set (cn_log (cl_conn s i))")
    case True
    note new = newly_closed [OF rest c(2)]
    have "returns (cl_removeConnection E i (cl_set_conn i c s)) cl_inv"
      by (rule closed_cl_inv [OF E(2) inv i rest']) (use new True gone in simp_all)
    with True c(1) E(1) show ?thesis by (simp add: cl_conn_event_def)
  next
    case False
    have "cl_inv ((cl_set_conn i c s)\<lparr>cl_connection := cl_connection s, cl_destroys := cl_destroys s\<rparr>)"
      using place place_kept [OF rest c(2) False] inv
      by (intro cl_update_inv [OF inv i rest']) (auto simp: cl_place_def cl_inv_def cl_shape_def)
    moreover have "(cl_set_conn i c s)\<lparr>cl_connection := cl_connection s, cl_destroys := cl_destroys s\<rparr> = cl_set_conn i c s"
      by (simp add: cl_set_conn_def)
    ultimately have "cl_inv (cl_set_conn i c s)" by simp
    with False c(1) E(1) show ?thesis by (auto simp: cl_conn_event_def)
  qed
qed

text \<open>
  \<^verbatim>\<open>disconnect\<close> calls \<^verbatim>\<open>shutdown\<close> under the mutex of the client, which \<^verbatim>\<open>removeConnection\<close> takes too: the call
  makes no callback, so it cannot come back to the mutex.
\<close>

lemma shutdown_makes_no_callback:
  assumes "at_rest c"
  shows "returns (conn_step env (UserCall inl OpShutdown) c) (\<lambda>c'. cn_log c' = cn_log c)"
proof -
  have "conn_inv (c\<lparr>cn_inLoop := inl\<rparr>)" using assms by (simp add: at_rest_def conn_defs)
  from do_conn_op_user [OF this, of OpShutdown] show ?thesis by (auto simp: user_rel_def returns_Inr)
qed

lemma destroy_cl_inv:
  assumes E: "li_conn E = env" and inv: "cl_inv s" and q: "cl_destroys s = i # is"
  shows "returns (cl_destroy E s) cl_inv"
proof -
  have i: "i < length (cl_objs s)" and shape: "cl_shape s" using inv q by (auto simp: cl_inv_def cl_shape_def)
  then have rest: "at_rest (cl_conn s i)" and place: "cl_place s i" using inv by (simp_all add: cl_inv_def)
  then have st: "cn_state (cl_conn s i) = kDisconnected" "ch_addedToLoop (cn_channel (cl_conn s i))"
    and d: "count_list is i = 0" "cl_connection s \<noteq> Some i"
    using q by (auto simp: cl_place_def obj_place_def split: conn_state.splits if_splits)
  from destroyed_spec [OF rest] st obtain c where c: "connectDestroyed env (cl_conn s i) = Inr c" "at_rest c"
    "cn_state c = kDisconnected" "\<not> ch_addedToLoop (cn_channel c)" by (auto elim: returnsE)
  have "cl_inv ((cl_set_conn i c s)\<lparr>cl_connection := cl_connection s, cl_destroys := is\<rparr>)"
    using c d q shape by (intro cl_update_inv [OF inv i c(2)]) (auto simp: obj_place_def cl_shape_def)
  moreover have "(cl_set_conn i c s)\<lparr>cl_connection := cl_connection s, cl_destroys := is\<rparr> = cl_set_conn i c (s\<lparr>cl_destroys := is\<rparr>)"
    by (simp add: cl_set_conn_def)
  ultimately show ?thesis using c(1) E q by (simp add: cl_destroy_def cl_conn_def)
qed

lemma stop_attempts: "cr_attempts (cr_stop k) = cr_attempts k" "cr_state (cr_stop k) = cr_state k" "\<not> cr_connect (cr_stop k)"
  by (simp_all add: cr_stop_def queue_cr_def cr_attempts_def)

lemma cl_step_inv:
  assumes E: "li_conn E = env" "inet_lib_ok (li_lib E)"
      "\<And>fd. sa_family (li_peer E fd) = AF_INET \<or> sa_family (li_peer E fd) = AF_INET6" "\<And>n. li_sock_ok E n"
    and inv: "cl_inv s" and may: "cl_may e s"
  shows "returns (cl_step E e s) cl_inv"
proof -
  have shape: "cl_shape s" using inv by (simp add: cl_inv_def)
  have stop: "cl_inv (s\<lparr>cl_connector := cr_stop (cl_connector s)\<rparr>)"
    using shape by (intro cl_inv_connector [OF inv]) (auto simp: cl_shape_def stop_single stop_attempts)
  show ?thesis
  proof (cases e)
    case (ClConnect inl)
    with may start_cl_inv [OF E(4), of "s\<lparr>cl_connect := True\<rparr>" "CStart inl" inl] inv show ?thesis
      by (simp add: cl_connect_call_def)
  next
    case (ClDisconnect inl)
    have "returns (cl_conn_event E i (UserCall inl OpShutdown) (s\<lparr>cl_connect := False\<rparr>)) cl_inv"
      if "cl_connection s = Some i" for i
      using inv shape that by (intro conn_event_cl_inv E(1,4)) (auto simp: cl_shape_def)
    with ClDisconnect inv show ?thesis by (auto simp: cl_disconnect_def Let_def split: option.splits)
  next
    case ClStop
    have "cl_stop s = (s\<lparr>cl_connector := cr_stop (cl_connector s)\<rparr>)\<lparr>cl_connect := False\<rparr>" by (simp add: cl_stop_def)
    with ClStop stop show ?thesis by simp
  next
    case (ClDelete unique)
    show ?thesis
    proof (cases "cl_connection s")
      case None
      with ClDelete stop shape show ?thesis
        by (simp add: TcpClient_delete_def cl_inv_def cl_shape_def cl_place_def cl_conn_def stop_attempts)
    next
      case (Some i)
      have "cl_inv (s\<lparr>cl_deleted := True\<rparr>)"
        using inv shape Some by (simp add: cl_inv_def cl_shape_def cl_place_def cl_conn_def)
      moreover from this have "returns (cl_conn_event E i (UserCall True OpForceClose) (s\<lparr>cl_deleted := True\<rparr>)) cl_inv"
        using shape Some by (intro conn_event_cl_inv E(1,4)) (auto simp: cl_shape_def)
      ultimately show ?thesis using ClDelete Some by (simp add: TcpClient_delete_def Let_def)
    qed
  next
    case (ClConnector e')
    with may connector_event_cl_inv [OF E inv] show ?thesis by simp
  next
    case (ClConn i e')
    with may inv show ?thesis by (auto intro!: conn_event_cl_inv E(1,4))
  next
    case ClDestroy
    with may destroy_cl_inv [OF E(1) inv] show ?thesis by (cases "cl_destroys s") auto
  qed (use inv in \<open>simp add: cl_enableRetry_def\<close>)
qed

end

section \<open>Properties\<close>

text \<open>What is relied on of the outside, beside the callbacks: sockets can be created, peers have IP addresses.\<close>

definition cl_env_ok :: "'c cl_env \<Rightarrow> bool" where
  "cl_env_ok E \<longleftrightarrow> inet_lib_ok (li_lib E) \<and> (\<forall>n. li_sock_ok E n) \<and>
     (\<forall>fd. sa_family (li_peer E fd) = AF_INET \<or> sa_family (li_peer E fd) = AF_INET6)"

inductive cl_reachable :: "'c cl_env \<Rightarrow> 'c client \<Rightarrow> bool" for E where
  made: "cl_reachable E (TcpClient_new name)"
| happened: "cl_reachable E s \<Longrightarrow> cl_may e s \<Longrightarrow> cl_step E e s = Inr s' \<Longrightarrow> cl_reachable E s'"

lemma cl_reachable_inv:
  assumes cb: "conn_callbacks (li_conn E)" and ok: "cl_env_ok E"
  shows "cl_reachable E s \<Longrightarrow> conn_callbacks.cl_inv s"
proof (induction rule: cl_reachable.induct)
  case (made name)
  show ?case
    by (simp add: conn_callbacks.cl_inv_def [OF cb] cl_shape_def TcpClient_new_def Connector_new_single)
next
  case (happened s e s')
  with conn_callbacks.cl_step_inv [OF cb refl _ _ _ happened.IH happened.hyps(2)] ok show ?case
    by (simp add: cl_env_ok_def)
qed


definition open_conn :: "int \<Rightarrow> unit tcpconn" where
  "open_conn fd = add_note NoteUp (set_events reading_on ((TcpConnection_new fd fresh_buffer fresh_buffer () False False)
     \<lparr>cn_state := kConnected, cn_channel := tie 0 (cn_channel (TcpConnection_new fd fresh_buffer fresh_buffer () False False))\<rparr>))"

lemma open_conn_established:
  "connectEstablished slow_socket (TcpConnection_new fd fresh_buffer fresh_buffer () False False) = Inr (open_conn fd)"
  by (simp add: connectEstablished_def in_loop_thread_def open_conn_def Let_def) (simp add: TcpConnection_new_def)

definition demo_client_env :: "unit cl_env" where
  "demo_client_env = \<lparr>li_conn = slow_socket, li_context = (), li_writeComplete = False, li_sock_ok = (\<lambda>_. True),
     li_errno_of = (\<lambda>_. 115), li_lib = decimal_lib, li_peer = (\<lambda>_. loopback_80)\<rparr>"

lemma demo_client_env_ok: "conn_callbacks (li_conn demo_client_env)" "cl_env_ok demo_client_env"
  using decimal_lib_ok dflt.conn_callbacks_axioms
  by (auto simp: demo_client_env_def cl_env_ok_def slow_socket_def loopback_80_def InetAddress_port_def)

lemma demo_peer: "inet_toIpPort decimal_lib loopback_80 = Inr (ip_text decimal_lib loopback_80 @ '':'' @ show_nat (unat (toPort loopback_80)))"
  by (rule toIpPort_text [OF decimal_lib_ok]) (simp add: loopback_80_def InetAddress_port_def)

text \<open>The client has asked for its first connection; it is established.\<close>

definition connecting_client :: "unit client" where
  "connecting_client = (TcpClient_new ''c'')\<lparr>cl_connector := Connector_new\<lparr>cr_connect := True, cr_state := CkConnecting,
     cr_sockets := 1, cr_channel := Some 0, cr_watched := True\<rparr>\<rparr>"

lemma demo_connect: "cl_step demo_client_env (ClConnect True) (TcpClient_new ''c'') = Inr connecting_client"
  by (simp add: cl_connect_call_def cl_connector_event_def connecting_client_def demo_client_env_def TcpClient_new_def connector_eval)

lemma connecting_client_reachable: "cl_reachable demo_client_env connecting_client"
  by (rule happened [OF made _ demo_connect]) (simp add: TcpClient_new_def cr_idle_def Connector_new_def)


text \<open>
  A client has at most one connection that is up, the one it remembers; while it has it no
  attempt to connect is under way. Every other connection is closed, and will be destroyed
  exactly once or was.
\<close>

theorem client_one_connection:
  assumes "conn_callbacks (li_conn E)" and "cl_env_ok E" and "cl_reachable E s"
  shows "(\<forall>j < length (cl_objs s). (conn_alive (cl_conn s j) \<longleftrightarrow> cl_connection s = Some j) \<and>
      (cl_connection s \<noteq> Some j \<longrightarrow> cn_state (cl_conn s j) = kDisconnected \<and>
        count_list (cl_destroys s) j = (if ch_addedToLoop (cn_channel (cl_conn s j)) then 1 else 0))) \<and>
    (cl_connection s \<noteq> None \<longrightarrow> cr_attempts (cl_connector s) = 0)"
proof -
  have inv: "cl_shape s" "\<And>j. j < length (cl_objs s) \<Longrightarrow> cl_place s j"
    using cl_reachable_inv [OF assms] by (simp_all add: conn_callbacks.cl_inv_def [OF assms(1)])
  have "(conn_alive (cl_conn s j) \<longleftrightarrow> cl_connection s = Some j) \<and> (cl_connection s \<noteq> Some j \<longrightarrow>
      cn_state (cl_conn s j) = kDisconnected \<and>
      count_list (cl_destroys s) j = (if ch_addedToLoop (cn_channel (cl_conn s j)) then 1 else 0))"
    if "j < length (cl_objs s)" for j
    using inv(2) [OF that] unfolding cl_place_def obj_place_def conn_alive_def
    by (cases "cn_state (cl_conn s j)") (auto split: if_splits)
  with inv(1) show ?thesis by (simp add: cl_shape_def)
qed

definition connected_client :: "unit client" where
  "connected_client = connecting_client\<lparr>cl_connector := Connector_new\<lparr>cr_connect := True, cr_state := CkConnected, cr_sockets := 1,
       cr_channel := Some 0, cr_handed := [0], cr_queued := [ResetChannel]\<rparr>,
     cl_nextConnId := 2, cl_connection := Some 0,
     cl_objs := [\<lparr>co_name = ''c'' @ snprintf 32 ('':'' @ (ip_text decimal_lib loopback_80 @ '':'' @
        show_nat (unat (toPort loopback_80))) @ ''#'' @ show_int 1), co_conn = open_conn 0\<rparr>]\<rparr>"

lemma demo_established:
  "cl_step demo_client_env (ClConnector (CWritable 0 False)) connecting_client = Inr connected_client"
  using open_conn_established [of 0]
  by (simp add: cl_connector_event_def cl_newConnection_def connecting_client_def connected_client_def demo_client_env_def demo_peer
      TcpClient_new_def connector_eval fresh_buffer_new cl_set_conn_def)

lemma connected_client_reachable: "cl_reachable demo_client_env connected_client"
  by (rule happened [OF connecting_client_reachable _ demo_established]) (simp add: connecting_client_def TcpClient_new_def)

theorem client_one_connection_witness:
  "cl_reachable demo_client_env connected_client \<and> conn_alive (cl_conn connected_client 0) \<and>
   cr_attempts (cl_connector connected_client) = 0"
proof -
  have "length (cl_objs connected_client) = 1" "cl_connection connected_client = Some 0"
    by (simp_all add: connected_client_def)
  with client_one_connection [OF demo_client_env_ok connected_client_reachable] connected_client_reachable show ?thesis
    by simp
qed

text \<open>The peer closes an idle connection: it is closed at once.\<close>

lemma open_conn_eof:
  "\<exists>c. conn_step slow_socket (ChannelEvent POLLIN 0) (open_conn fd) = Inr c \<and> cn_log c = [NoteUp, NoteDown, NoteClosed]"
  by (simp add: open_conn_def eof_evaluation conn_evaluation conn_shutdown.simps shutdownInLoop.simps handleClose.simps
      shutdownWrite_def disableAll_def Let_def)

text \<open>
  \<^verbatim>\<open>connect()\<close> does not check that the client is connected already. A second call makes a second
  connection, which takes the place of the first one; when the first one is closed the
  assertion of \<^verbatim>\<open>removeConnection\<close> fails.
\<close>

theorem connect_while_connected_asserts:
  "\<exists>s s1 s2. cl_reachable demo_client_env s \<and> cl_connection s = Some 0 \<and>
     cl_step demo_client_env (ClConnect True) s = Inr s1 \<and>
     cl_step demo_client_env (ClConnector (CWritable 0 False)) s1 = Inr s2 \<and>
     conn_may (ChannelEvent POLLIN 0) (cl_conn s2 0) \<and>
     cl_step demo_client_env (ClConn 0 (ChannelEvent POLLIN 0)) s2 = Inl (AssertFail ''connection_ == conn'')"
proof -
  let ?s = "connected_client\<lparr>cl_connector := Connector_new\<lparr>cr_connect := True, cr_state := CkConnected, cr_sockets := 1,
      cr_handed := [0]\<rparr>\<rparr>"
  let ?s1 = "?s\<lparr>cl_connector := Connector_new\<lparr>cr_connect := True, cr_state := CkConnecting, cr_sockets := 2,
      cr_channel := Some 1, cr_watched := True, cr_handed := [0]\<rparr>\<rparr>"
  have reset: "cl_step demo_client_env (ClConnector CFunctor) connected_client = Inr ?s"
    by (simp add: cl_connector_event_def connected_client_def demo_client_env_def connecting_client_def TcpClient_new_def connector_eval)
  have r: "cl_reachable demo_client_env ?s"
    by (rule happened [OF connected_client_reachable _ reset])
      (simp add: connected_client_def connecting_client_def TcpClient_new_def)
  have again: "cl_step demo_client_env (ClConnect True) ?s = Inr ?s1"
    by (simp add: cl_connect_call_def cl_connector_event_def connected_client_def demo_client_env_def connecting_client_def
        TcpClient_new_def connector_eval)
  obtain s2 where s2: "cl_step demo_client_env (ClConnector (CWritable 0 False)) ?s1 = Inr s2"
      "cl_connection s2 = Some 1" "cl_conn s2 0 = open_conn 0" "\<not> cl_deleted s2"
    using open_conn_established [of 1]
    by (simp add: cl_connector_event_def cl_newConnection_def connected_client_def connecting_client_def demo_client_env_def demo_peer
        TcpClient_new_def connector_eval fresh_buffer_new cl_set_conn_def cl_conn_def)
  from open_conn_eof [of 0] obtain c where c: "conn_step slow_socket (ChannelEvent POLLIN 0) (open_conn 0) = Inr c"
      "cn_log c = [NoteUp, NoteDown, NoteClosed]" by blast
  have "NoteClosed \<notin> set (cn_log (open_conn 0))" by (simp add: open_conn_def conn_evaluation)
  with c s2 have "cl_step demo_client_env (ClConn 0 (ChannelEvent POLLIN 0)) s2 = Inl (AssertFail ''connection_ == conn'')"
    by (simp add: cl_conn_event_def demo_client_env_def cl_removeConnection_def cl_set_conn_def del: conn_step.simps)
  moreover have "kReadEvent \<noteq> 0" by (simp add: kReadEvent_def poll_bits)
  then have "conn_may (ChannelEvent POLLIN 0) (cl_conn s2 0)"
    by (simp add: s2(3) open_conn_def conn_evaluation mask_ok_def poll_bits reading_on_def)
  moreover have "cl_connection ?s = Some 0" by (simp add: connected_client_def)
  ultimately show ?thesis using r again s2(1) by blast
qed

end
