(* ===== verification/Pollers.thy ===== *)
theory Pollers
  imports Channels StdMap
begin

unbundle bit_operations_syntax

text \<open>
  The two I/O multiplexers (\<^verbatim>\<open>netLayer/poller/EpollPoller.cpp\<close>, \<^verbatim>\<open>PollPoller.cpp\<close>,
  \<^verbatim>\<open>Poller.cpp\<close>, \<^verbatim>\<open>DefaultPoller.cpp\<close>) over a heap of channels.

  \<^verbatim>\<open>epoll_ctl\<close> is a parameter that says whether a call succeeds, given the calls that
  succeeded before it; the state records those. \<^verbatim>\<open>epoll_wait\<close> and \<^verbatim>\<open>poll\<close> are
  parameters that answer with events. The locale \<open>demux\<close> is the contract of a poller:
  the descriptors watched by the kernel are those of the registered channels that want
  events, with the events they want. It is interpreted on both pollers; for epoll under
  the documented behaviour of \<^verbatim>\<open>epoll_ctl\<close> (a well-formed call succeeds).
\<close>

section \<open>Channels in memory\<close>

record chan_world =
  heap :: "nat \<Rightarrow> channel option"
  in_loop :: bool    \<comment> \<open>the calling thread is the thread of the loop\<close>

definition deref :: "('a chan_world_scheme) \<Rightarrow> nat \<Rightarrow> (channel \<Rightarrow> 'b res) \<Rightarrow> 'b res" where
  "deref s p k = (case heap s p of None \<Rightarrow> Inl (Undefined ''dangling channel'') | Some c \<Rightarrow> k c)"

definition put_chan :: "nat \<Rightarrow> channel \<Rightarrow> 'a chan_world_scheme \<Rightarrow> 'a chan_world_scheme" where
  "put_chan p c s = s\<lparr>heap := (heap s)(p := Some c)\<rparr>"

definition assertInLoopThread :: "'a chan_world_scheme \<Rightarrow> 'b res \<Rightarrow> 'b res" where
  "assertInLoopThread s k = (if in_loop s then k else Inl (Abort ''abortNotInLoopThread''))"

lemma put_chan_simps [simp]:
  "heap (put_chan p c s) = (heap s)(p := Some c)" "in_loop (put_chan p c s) = in_loop s"
  by (simp_all add: put_chan_def)

lemma deref_Some [simp]: "heap s p = Some c \<Longrightarrow> deref s p k = k c"
  by (simp add: deref_def)

text \<open>
  \<^verbatim>\<open>enableReading\<close> and its siblings change the mask and call \<^verbatim>\<open>update()\<close>, which reaches
  the poller; \<^verbatim>\<open>remove()\<close> reaches it too.
\<close>

definition channel_set :: "(nat \<Rightarrow> 'a chan_world_scheme \<Rightarrow> 'a chan_world_scheme res) \<Rightarrow>
    (32 word \<Rightarrow> 32 word) \<Rightarrow> nat \<Rightarrow> 'a chan_world_scheme \<Rightarrow> 'a chan_world_scheme res" where
  "channel_set updateChannel f p s =
     deref s p (\<lambda>c. updateChannel p
       (put_chan p (c\<lparr>ch_events := f (ch_events c), ch_addedToLoop := True\<rparr>) s))"

definition channel_remove :: "(nat \<Rightarrow> 'a chan_world_scheme \<Rightarrow> 'a chan_world_scheme res) \<Rightarrow>
    nat \<Rightarrow> 'a chan_world_scheme \<Rightarrow> 'a chan_world_scheme res" where
  "channel_remove removeChannel p s =
     deref s p (\<lambda>c. ensure (isNoneEvent c) ''isNoneEvent()''
       (removeChannel p (put_chan p (c\<lparr>ch_addedToLoop := False\<rparr>) s)))"

section \<open>EPollPoller\<close>

definition kNew :: int where "kNew = -1"
definition kAdded :: int where "kAdded = 1"
definition kDeleted :: int where "kDeleted = 2"

lemmas ep_indexes = kNew_def kAdded_def kDeleted_def

datatype ctl_op = EPOLL_CTL_ADD | EPOLL_CTL_DEL | EPOLL_CTL_MOD

text \<open>A call of \<^verbatim>\<open>epoll_ctl\<close>: operation, descriptor, \<^verbatim>\<open>event.events\<close>, \<^verbatim>\<open>event.data.ptr\<close>.\<close>

type_synonym ctl_call = "ctl_op \<times> int \<times> 32 word \<times> nat"

record epoll = chan_world +
  ep_channels :: "(int, nat) std_map"
  ep_list_size :: nat             \<comment> \<open>\<^verbatim>\<open>events_.size()\<close>\<close>
  ep_ctl :: "ctl_call list"       \<comment> \<open>the successful calls, in order\<close>

definition kInitEventListSize :: nat where "kInitEventListSize = 16"

definition EPollPoller_new :: "bool \<Rightarrow> (nat \<Rightarrow> channel option) \<Rightarrow> bool \<Rightarrow> epoll res" where
  "EPollPoller_new created h inl =
     (if created then Inr \<lparr>heap = h, in_loop = inl, ep_channels = [],
                           ep_list_size = kInitEventListSize, ep_ctl = []\<rparr>
      else Inl (Abort ''EPollPoller::EPollPoller''))"

definition operationToString :: "ctl_op \<Rightarrow> string" where
  "operationToString ctl = (case ctl of EPOLL_CTL_ADD \<Rightarrow> ''ADD'' | EPOLL_CTL_DEL \<Rightarrow> ''DEL'' | EPOLL_CTL_MOD \<Rightarrow> ''MOD'')"

type_synonym ctl_oracle = "ctl_call list \<Rightarrow> ctl_call \<Rightarrow> bool"

definition epoll_update :: "ctl_oracle \<Rightarrow> ctl_op \<Rightarrow> nat \<Rightarrow> epoll \<Rightarrow> epoll res" where
  "epoll_update epoll_ctl operation p s =
     deref s p (\<lambda>c.
       let event = (operation, ch_fd c, ch_events c, p)
       in if epoll_ctl (ep_ctl s) event then Inr (s\<lparr>ep_ctl := ep_ctl s @ [event]\<rparr>)
          else if operation = EPOLL_CTL_DEL then Inr s
          else Inl (Abort (''epoll_ctl op ='' @ operationToString operation)))"

definition epoll_updateChannel :: "ctl_oracle \<Rightarrow> nat \<Rightarrow> epoll \<Rightarrow> epoll res" where
  "epoll_updateChannel epoll_ctl p s =
     assertInLoopThread s (deref s p (\<lambda>c.
       let index = ch_index c; fd = ch_fd c
       in if index = kNew \<or> index = kDeleted
          then bind_r
            (if index = kNew
             then ensure (map_find fd (ep_channels s) = None) ''channels_.find(fd) == channels_.end()''
                    (Inr (s\<lparr>ep_channels := map_set fd p (ep_channels s)\<rparr>))
             else ensure (map_find fd (ep_channels s) \<noteq> None) ''channels_.find(fd) != channels_.end()''
                    (ensure (map_find fd (ep_channels s) = Some p) ''channels_[fd] == channel'' (Inr s)))
            (\<lambda>s1. epoll_update epoll_ctl EPOLL_CTL_ADD p (put_chan p (set_index kAdded c) s1))
          else ensure (map_find fd (ep_channels s) \<noteq> None) ''channels_.find(fd) != channels_.end()''
            (ensure (map_find fd (ep_channels s) = Some p) ''channels_[fd] == channel''
              (ensure (index = kAdded) ''index == kAdded''
                (if isNoneEvent c
                 then bind_r (epoll_update epoll_ctl EPOLL_CTL_DEL p s)
                        (\<lambda>s1. Inr (put_chan p (set_index kDeleted c) s1))
                 else epoll_update epoll_ctl EPOLL_CTL_MOD p s)))))"

definition epoll_removeChannel :: "ctl_oracle \<Rightarrow> nat \<Rightarrow> epoll \<Rightarrow> epoll res" where
  "epoll_removeChannel epoll_ctl p s =
     assertInLoopThread s (deref s p (\<lambda>c.
       let fd = ch_fd c; index = ch_index c
       in ensure (map_find fd (ep_channels s) \<noteq> None) ''channels_.find(fd) != channels_.end()''
         (ensure (map_find fd (ep_channels s) = Some p) ''channels_[fd] == channel''
           (ensure (isNoneEvent c) ''channel->isNoneEvent()''
             (ensure (index = kAdded \<or> index = kDeleted) ''index == kAdded || index == kDeleted''
               (let s1 = s\<lparr>ep_channels := map_erase fd (ep_channels s)\<rparr>
                in bind_r (if index = kAdded then epoll_update epoll_ctl EPOLL_CTL_DEL p s1 else Inr s1)
                     (\<lambda>s2. Inr (put_chan p (set_index kNew c) s2))))))))"

text \<open>One event of \<^verbatim>\<open>events_\<close>: the received mask and the pointer registered with it.\<close>

fun epoll_fillActiveChannels :: "(32 word \<times> nat) list \<Rightarrow> epoll \<Rightarrow> (nat list \<times> epoll) res" where
  "epoll_fillActiveChannels [] s = Inr ([], s)"
| "epoll_fillActiveChannels ((evs, p) # es) s =
     deref s p (\<lambda>c.
       ensure (map_find (ch_fd c) (ep_channels s) \<noteq> None) ''it != channels_.end()''
         (ensure (map_find (ch_fd c) (ep_channels s) = Some p) ''it->second == channel''
           (bind_r (epoll_fillActiveChannels es (put_chan p (set_revents evs c) s))
              (\<lambda>(active, s'). Inr (p # active, s')))))"

text \<open>\<open>wait\<close> is \<^verbatim>\<open>epoll_wait\<close>: given the room in the list, an error number or the events.\<close>

definition epoll_poll :: "(nat \<Rightarrow> int + (32 word \<times> nat) list) \<Rightarrow> epoll \<Rightarrow> (nat list \<times> epoll) res" where
  "epoll_poll wait s =
     (case wait (ep_list_size s) of
        Inl savedErrno \<Rightarrow> Inr ([], s)
      | Inr es \<Rightarrow>
          if length es > 0
          then ensure (length es \<le> ep_list_size s) ''numEvents <= events_.size()''
            (bind_r (epoll_fillActiveChannels es s)
              (\<lambda>(active, s').
                 Inr (active, if length es = ep_list_size s
                              then s'\<lparr>ep_list_size := ep_list_size s * 2\<rparr> else s')))
          else Inr ([], s))"

section \<open>PollPoller\<close>

record pollfd =
  pfd_fd :: int
  pfd_events :: "16 word"
  pfd_revents :: "16 word"

record pollp = chan_world +
  pp_channels :: "(int, nat) std_map"
  pollfds :: "pollfd list"

definition PollPoller_new :: "(nat \<Rightarrow> channel option) \<Rightarrow> bool \<Rightarrow> pollp" where
  "PollPoller_new h inl = \<lparr>heap = h, in_loop = inl, pp_channels = [], pollfds = []\<rparr>"

definition poll_updateChannel :: "nat \<Rightarrow> pollp \<Rightarrow> pollp res" where
  "poll_updateChannel p s =
     assertInLoopThread s (deref s p (\<lambda>c.
       if ch_index c < 0
       then ensure (map_find (ch_fd c) (pp_channels s) = None) ''channels_.find(channel->fd()) == channels_.end()''
         (let pfd = \<lparr>pfd_fd = ch_fd c, pfd_events = ucast (ch_events c), pfd_revents = 0\<rparr>;
              s1 = s\<lparr>pollfds := pollfds s @ [pfd]\<rparr>;
              idx = int (length (pollfds s1)) - 1
          in Inr ((put_chan p (set_index idx c) s1)
                    \<lparr>pp_channels := map_set (pfd_fd pfd) p (pp_channels s1)\<rparr>))
       else ensure (map_find (ch_fd c) (pp_channels s) \<noteq> None) ''channels_.find(channel->fd()) != channels_.end()''
         (ensure (map_find (ch_fd c) (pp_channels s) = Some p) ''channels_[channel->fd()] == channel''
           (let idx = ch_index c
            in ensure (0 \<le> idx \<and> idx < int (length (pollfds s))) ''0 <= idx && idx < pollfds_.size()''
              (let pfd = pollfds s ! nat idx
               in ensure (pfd_fd pfd = ch_fd c \<or> pfd_fd pfd = - ch_fd c - 1) ''pfd.fd''
                 (let pfd' = \<lparr>pfd_fd = (if isNoneEvent c then - ch_fd c - 1 else ch_fd c),
                              pfd_events = ucast (ch_events c), pfd_revents = 0\<rparr>
                  in Inr (s\<lparr>pollfds := (pollfds s)[nat idx := pfd']\<rparr>)))))))"

definition poll_removeChannel :: "nat \<Rightarrow> pollp \<Rightarrow> pollp res" where
  "poll_removeChannel p s =
     assertInLoopThread s (deref s p (\<lambda>c.
       ensure (map_find (ch_fd c) (pp_channels s) \<noteq> None) ''channels_.find(channel->fd()) != channels_.end()''
         (ensure (map_find (ch_fd c) (pp_channels s) = Some p) ''channels_[channel->fd()] == channel''
           (ensure (isNoneEvent c) ''channel->isNoneEvent()''
             (let idx = ch_index c
              in ensure (0 \<le> idx \<and> idx < int (length (pollfds s))) ''0 <= idx && idx < pollfds_.size()''
                (let pfd = pollfds s ! nat idx
                 in ensure (pfd_fd pfd = - ch_fd c - 1 \<and> scast (pfd_events pfd) = ch_events c) ''pfd.fd == -fd-1 && pfd.events == events''
                   (let s1 = s\<lparr>pp_channels := map_erase (ch_fd c) (pp_channels s)\<rparr>;
                        n = length (pollfds s)
                    in if nat idx = n - 1
                       then Inr (s1\<lparr>pollfds := butlast (pollfds s)\<rparr>)
                       else (let channelAtEnd = pfd_fd (last (pollfds s));
                                 swapped = (pollfds s)[nat idx := last (pollfds s), n - 1 := pfd];
                                 endFd = (if channelAtEnd < 0 then - channelAtEnd - 1 else channelAtEnd)
                             in case map_find endFd (pp_channels s1) of
                                  None \<Rightarrow> Inl (Undefined ''channels_[channelAtEnd] is null'')
                                | Some q \<Rightarrow> deref s1 q (\<lambda>d.
                                    Inr ((put_chan q (set_index idx d) s1)\<lparr>pollfds := butlast swapped\<rparr>))))))))))"

fun poll_fillActiveChannels :: "pollfd list \<Rightarrow> nat \<Rightarrow> pollp \<Rightarrow> (nat list \<times> pollp) res" where
  "poll_fillActiveChannels [] numEvents s = Inr ([], s)"
| "poll_fillActiveChannels (pfd # pfds) numEvents s =
     (if numEvents > 0
      then if 0 < sint (pfd_revents pfd)
           then (case map_find (pfd_fd pfd) (pp_channels s) of
                   None \<Rightarrow> Inl (AssertFail ''ch != channels_.end()'')
                 | Some p \<Rightarrow> deref s p (\<lambda>c.
                     ensure (ch_fd c = pfd_fd pfd) ''channel->fd() == pfd->fd''
                       (bind_r (poll_fillActiveChannels pfds (numEvents - 1)
                                  (put_chan p (set_revents (scast (pfd_revents pfd)) c) s))
                          (\<lambda>(active, s'). Inr (p # active, s')))))
           else poll_fillActiveChannels pfds numEvents s
      else Inr ([], s))"

text \<open>\<open>wait\<close> is \<^verbatim>\<open>poll\<close>: an error number, or the received masks and how many are non-zero.\<close>

definition poll_poll :: "(pollfd list \<Rightarrow> int + (nat \<times> 16 word list)) \<Rightarrow> pollp \<Rightarrow> (nat list \<times> pollp) res" where
  "poll_poll wait s =
     (case wait (pollfds s) of
        Inl savedErrno \<Rightarrow> Inr ([], s)
      | Inr (numEvents, revs) \<Rightarrow>
          let s1 = s\<lparr>pollfds := map2 (\<lambda>pfd r. pfd\<lparr>pfd_revents := r\<rparr>) (pollfds s) revs\<rparr>
          in if numEvents > 0 then poll_fillActiveChannels (pollfds s1) numEvents s1 else Inr ([], s1))"

text \<open>\<^verbatim>\<open>Poller::hasChannel\<close> and the choice of \<^verbatim>\<open>newDefaultPoller\<close>.\<close>

definition hasChannel :: "nat \<Rightarrow> (int, nat) std_map \<Rightarrow> 'a chan_world_scheme \<Rightarrow> bool res" where
  "hasChannel p channels s =
     assertInLoopThread s (deref s p (\<lambda>c. Inr (map_find (ch_fd c) channels = Some p)))"

definition newDefaultPoller :: "string option \<Rightarrow> bool \<Rightarrow> (nat \<Rightarrow> channel option) \<Rightarrow> bool \<Rightarrow> (pollp + epoll) res" where
  "newDefaultPoller muduo_use_poll created h inl =
     (case muduo_use_poll of
        Some _ \<Rightarrow> Inr (Inl (PollPoller_new h inl))
      | None \<Rightarrow> bind_r (EPollPoller_new created h inl) (\<lambda>e. Inr (Inr e)))"

section \<open>The contract of a poller\<close>

definition registered :: "(int, nat) std_map \<Rightarrow> nat set" where
  "registered channels = {p. \<exists>fd. map_find fd channels = Some p}"

lemma registeredI: "map_find fd m = Some p \<Longrightarrow> p \<in> registered m"
  by (auto simp: registered_def)

lemma registeredE: "p \<in> registered m \<Longrightarrow> (\<And>fd. map_find fd m = Some p \<Longrightarrow> P) \<Longrightarrow> P"
  by (auto simp: registered_def)

lemma registered_set:
  assumes "map_find k m = None"
  shows "registered (map_set k p m) = insert p (registered m)"
proof (intro equalityI subsetI)
  fix q assume "q \<in> registered (map_set k p m)"
  then show "q \<in> insert p (registered m)"
    by (rule registeredE) (auto simp: map_find_map_set split: if_splits intro: registeredI)
next
  fix q assume "q \<in> insert p (registered m)"
  then show "q \<in> registered (map_set k p m)"
  proof
    assume "q = p"
    then show ?thesis by (intro registeredI [of k]) (simp add: map_find_map_set)
  next
    assume "q \<in> registered m"
    then obtain fd where "map_find fd m = Some q" by (rule registeredE)
    with assms show ?thesis by (intro registeredI [of fd]) (auto simp: map_find_map_set)
  qed
qed

lemma registered_erase:
  assumes "map_ok m" and "map_find k m = Some p" and "\<And>g. map_find g m = Some p \<Longrightarrow> g = k"
  shows "registered (map_erase k m) = registered m - {p}"
proof (intro equalityI subsetI)
  fix q assume "q \<in> registered (map_erase k m)"
  then show "q \<in> registered m - {p}"
    by (rule registeredE) (use assms(1,3) in \<open>auto simp: map_find_map_erase split: if_splits intro: registeredI\<close>)
next
  fix q assume q: "q \<in> registered m - {p}"
  then obtain fd where "map_find fd m = Some q" by (auto elim: registeredE)
  with q assms(1,2) show "q \<in> registered (map_erase k m)"
    by (intro registeredI [of fd]) (auto simp: map_find_map_erase)
qed

definition ch_view :: "'a chan_world_scheme \<Rightarrow> nat \<Rightarrow> (int \<times> 32 word) option" where
  "ch_view s p = map_option (\<lambda>c. (ch_fd c, ch_events c)) (heap s p)"

locale demux =
  fixes ok :: "'s \<Rightarrow> bool"
    and chan :: "'s \<Rightarrow> nat \<Rightarrow> channel option"
    and reg :: "'s \<Rightarrow> nat set"
    and fresh :: "channel \<Rightarrow> bool"
    and watched :: "'s \<Rightarrow> (int \<times> nat \<times> 32 word) set"
    and set_events :: "(32 word \<Rightarrow> 32 word) \<Rightarrow> nat \<Rightarrow> 's \<Rightarrow> 's res"
    and remove :: "nat \<Rightarrow> 's \<Rightarrow> 's res"
  assumes watched_law: "ok s \<Longrightarrow>
      watched s = {(fd, p, ev). \<exists>c. p \<in> reg s \<and> chan s p = Some c \<and> ch_fd c = fd \<and> ch_events c = ev \<and> ev \<noteq> 0}"
    and set_law: "ok s \<Longrightarrow> chan s p = Some c \<Longrightarrow> 0 \<le> ch_fd c \<Longrightarrow> io_mask (f (ch_events c)) \<Longrightarrow>
      p \<in> reg s \<or> fresh c \<and> f (ch_events c) \<noteq> 0 \<and> (\<forall>q d. q \<in> reg s \<longrightarrow> chan s q = Some d \<longrightarrow> ch_fd d \<noteq> ch_fd c) \<Longrightarrow>
      returns (set_events f p s) (\<lambda>s'. ok s' \<and> reg s' = insert p (reg s) \<and>
        (\<forall>q. map_option (\<lambda>d. (ch_fd d, ch_events d)) (chan s' q) =
             (if q = p then Some (ch_fd c, f (ch_events c))
              else map_option (\<lambda>d. (ch_fd d, ch_events d)) (chan s q))))"
    and remove_law: "ok s \<Longrightarrow> p \<in> reg s \<Longrightarrow> chan s p = Some c \<Longrightarrow> ch_events c = 0 \<Longrightarrow>
      returns (remove p s) (\<lambda>s'. ok s' \<and> reg s' = reg s - {p} \<and>
        (\<forall>q. map_option (\<lambda>d. (ch_fd d, ch_events d)) (chan s' q) =
             map_option (\<lambda>d. (ch_fd d, ch_events d)) (chan s q)))"
begin

lemma view_iff:
  "map_option (\<lambda>d. (ch_fd d, ch_events d)) x = map_option (\<lambda>d. (ch_fd d, ch_events d)) y \<Longrightarrow>
     (\<exists>c. x = Some c \<and> ch_fd c = fd \<and> ch_events c = ev) \<longleftrightarrow> (\<exists>c. y = Some c \<and> ch_fd c = fd \<and> ch_events c = ev)"
  by (cases x; cases y) auto

text \<open>Changing the mask of a channel changes what is watched on its descriptor, and nothing else.\<close>

lemma set_watched:
  assumes "ok s" and "chan s p = Some c" and "0 \<le> ch_fd c" and "io_mask (f (ch_events c))"
    and "p \<in> reg s \<or> fresh c \<and> f (ch_events c) \<noteq> 0 \<and>
           (\<forall>q d. q \<in> reg s \<longrightarrow> chan s q = Some d \<longrightarrow> ch_fd d \<noteq> ch_fd c)"
  shows "returns (set_events f p s) (\<lambda>s'. ok s' \<and> p \<in> reg s' \<and>
    (\<exists>c'. chan s' p = Some c' \<and> ch_fd c' = ch_fd c \<and> ch_events c' = f (ch_events c)) \<and>
    watched s' = {w \<in> watched s. fst (snd w) \<noteq> p} \<union>
      (if f (ch_events c) = 0 then {} else {(ch_fd c, p, f (ch_events c))}))"
proof (rule returns_mono [OF set_law [of s p c f, OF assms]])
  fix s' assume s': "ok s' \<and> reg s' = insert p (reg s) \<and>
        (\<forall>q. map_option (\<lambda>d. (ch_fd d, ch_events d)) (chan s' q) =
             (if q = p then Some (ch_fd c, f (ch_events c))
              else map_option (\<lambda>d. (ch_fd d, ch_events d)) (chan s q)))"
  then have other: "(\<exists>d. chan s' q = Some d \<and> ch_fd d = fd \<and> ch_events d = ev) \<longleftrightarrow>
      (\<exists>d. chan s q = Some d \<and> ch_fd d = fd \<and> ch_events d = ev)" if "q \<noteq> p" for q fd ev
    using that by (intro view_iff) simp
  from s' have "map_option (\<lambda>d. (ch_fd d, ch_events d)) (chan s' p) = Some (ch_fd c, f (ch_events c))"
    by simp
  then have own: "\<exists>c'. chan s' p = Some c' \<and> ch_fd c' = ch_fd c \<and> ch_events c' = f (ch_events c)"
    by auto
  have "(fd, q, ev) \<in> watched s' \<longleftrightarrow> (fd, q, ev) \<in> {w \<in> watched s. fst (snd w) \<noteq> p} \<union>
      (if f (ch_events c) = 0 then {} else {(ch_fd c, p, f (ch_events c))})" for fd q ev
    using s' own other [of q fd ev] watched_law [of s'] watched_law [OF assms(1)]
    by (cases "q = p") auto
  with s' own show "ok s' \<and> p \<in> reg s' \<and>
    (\<exists>c'. chan s' p = Some c' \<and> ch_fd c' = ch_fd c \<and> ch_events c' = f (ch_events c)) \<and>
    watched s' = {w \<in> watched s. fst (snd w) \<noteq> p} \<union>
      (if f (ch_events c) = 0 then {} else {(ch_fd c, p, f (ch_events c))})"
    by (simp add: set_eq_iff)
qed

lemma remove_watched:
  assumes "ok s" and "p \<in> reg s" and "chan s p = Some c" and "ch_events c = 0"
  shows "returns (remove p s) (\<lambda>s'. ok s' \<and> p \<notin> reg s' \<and> watched s' = watched s)"
proof (rule returns_mono [OF remove_law [OF assms]])
  fix s' assume s': "ok s' \<and> reg s' = reg s - {p} \<and>
        (\<forall>q. map_option (\<lambda>d. (ch_fd d, ch_events d)) (chan s' q) =
             map_option (\<lambda>d. (ch_fd d, ch_events d)) (chan s q))"
  then have same: "(\<exists>d. chan s' q = Some d \<and> ch_fd d = fd \<and> ch_events d = ev) \<longleftrightarrow>
      (\<exists>d. chan s q = Some d \<and> ch_fd d = fd \<and> ch_events d = ev)" for q fd ev
    by (intro view_iff) simp
  have "(fd, q, ev) \<in> watched s' \<longleftrightarrow> (fd, q, ev) \<in> watched s" for fd q ev
    using s' same [of q fd ev] assms(3,4) watched_law [of s'] watched_law [OF assms(1)]
    by (cases "q = p") auto
  with s' show "ok s' \<and> p \<notin> reg s' \<and> watched s' = watched s" by auto
qed

lemma set_step:
  assumes "ok s" and "chan s p = Some c" and "0 \<le> ch_fd c" and "io_mask (f (ch_events c))"
    and "p \<in> reg s \<or> fresh c \<and> f (ch_events c) \<noteq> 0 \<and>
           (\<forall>q d. q \<in> reg s \<longrightarrow> chan s q = Some d \<longrightarrow> ch_fd d \<noteq> ch_fd c)"
    and "{w \<in> watched s. fst (snd w) \<noteq> p} = W"
  obtains s' c' where "set_events f p s = Inr s'" and "ok s'" and "p \<in> reg s'" and "chan s' p = Some c'"
    and "ch_fd c' = ch_fd c" and "ch_events c' = f (ch_events c)"
    and "{w \<in> watched s'. fst (snd w) \<noteq> p} = W" and "f (ch_events c) = 0 \<Longrightarrow> watched s' = W"
proof -
  from set_watched [of s p c f, OF assms(1-5)] obtain s' c' where s': "set_events f p s = Inr s'" "ok s'"
    "p \<in> reg s'" "chan s' p = Some c'" "ch_fd c' = ch_fd c" "ch_events c' = f (ch_events c)"
    "watched s' = {w \<in> watched s. fst (snd w) \<noteq> p} \<union>
      (if f (ch_events c) = 0 then {} else {(ch_fd c, p, f (ch_events c))})"
    by (rule returnsE) blast
  moreover have "{w \<in> watched s'. fst (snd w) \<noteq> p} = W" unfolding s'(7) assms(6) [symmetric] by auto
  moreover have "f (ch_events c) = 0 \<Longrightarrow> watched s' = W" unfolding s'(7) assms(6) [symmetric] by simp
  ultimately show thesis by (intro that)
qed

text \<open>The life of a connection's channel: reading, writing, idle again, closed, removed.\<close>

lemma lifecycle:
  assumes "ok s" and "chan s p = Some c" and "0 \<le> ch_fd c" and "ch_events c = 0" and "fresh c"
    and "p \<notin> reg s" and "\<forall>q d. q \<in> reg s \<longrightarrow> chan s q = Some d \<longrightarrow> ch_fd d \<noteq> ch_fd c"
  shows "returns (bind_r (set_events reading_on p s) (\<lambda>s. bind_r (set_events writing_on p s)
      (\<lambda>s. bind_r (set_events writing_off p s) (\<lambda>s. bind_r (set_events (\<lambda>_. kNoneEvent) p s) (remove p)))))
    (\<lambda>s'. ok s' \<and> p \<notin> reg s' \<and> watched s' = watched s)"
proof -
  have none: "{w \<in> watched s. fst (snd w) \<noteq> p} = watched s"
    using watched_law [OF assms(1)] assms(6) by auto
  have kr: "kReadEvent \<noteq> 0" by (simp add: kReadEvent_def poll_bits)
  obtain s1 c1 where s1: "set_events reading_on p s = Inr s1" "ok s1" "p \<in> reg s1" "chan s1 p = Some c1"
    "ch_fd c1 = ch_fd c" "ch_events c1 = kReadEvent" "{w \<in> watched s1. fst (snd w) \<noteq> p} = watched s"
    by (rule set_step [OF assms(1-3), of reading_on, OF _ _ none]) (use that assms(4,5,7) kr in auto)
  obtain s2 c2 where s2: "set_events writing_on p s1 = Inr s2" "ok s2" "p \<in> reg s2" "chan s2 p = Some c2"
    "ch_fd c2 = ch_fd c" "ch_events c2 = writing_on kReadEvent" "{w \<in> watched s2. fst (snd w) \<noteq> p} = watched s"
    by (rule set_step [OF s1(2,4), of writing_on, OF _ _ _ s1(7)]) (use that s1(3,5,6) assms(3) in auto)
  obtain s3 c3 where s3: "set_events writing_off p s2 = Inr s3" "ok s3" "p \<in> reg s3" "chan s3 p = Some c3"
    "ch_fd c3 = ch_fd c" "{w \<in> watched s3. fst (snd w) \<noteq> p} = watched s"
    by (rule set_step [OF s2(2,4), of writing_off, OF _ _ _ s2(7)]) (use that s2(3,5,6) assms(3) in auto)
  obtain s4 c4 where s4: "set_events (\<lambda>_. kNoneEvent) p s3 = Inr s4" "ok s4" "p \<in> reg s4" "chan s4 p = Some c4"
    "ch_events c4 = 0" "watched s4 = watched s"
    by (rule set_step [OF s3(2,4), of "\<lambda>_. kNoneEvent", OF _ _ _ s3(6)])
      (use that s3(3,5) assms(3) in \<open>auto simp: kNoneEvent_def\<close>)
  from remove_watched [OF s4(2-5)] s1(1) s2(1) s3(1) s4(1,6) show ?thesis by simp
qed

end

section \<open>EPollPoller meets the contract\<close>

text \<open>What a sequence of successful calls leaves registered in the kernel.\<close>

fun interest_step :: "ctl_call \<Rightarrow> (int \<Rightarrow> (nat \<times> 32 word) option) \<Rightarrow> int \<Rightarrow> (nat \<times> 32 word) option" where
  "interest_step (EPOLL_CTL_DEL, fd, ev, p) m = m(fd := None)"
| "interest_step (_, fd, ev, p) m = m(fd := Some (p, ev))"

definition interest :: "ctl_call list \<Rightarrow> int \<Rightarrow> (nat \<times> 32 word) option" where
  "interest log = fold interest_step log (\<lambda>_. None)"

lemma interest_Nil [simp]: "interest [] = (\<lambda>_. None)"
  by (simp add: interest_def)

lemma interest_snoc [simp]: "interest (log @ [call]) = interest_step call (interest log)"
  by (simp add: interest_def)

text \<open>
  \<^verbatim>\<open>epoll_ctl(2)\<close>: adding a registered descriptor is \<^verbatim>\<open>EEXIST\<close>, changing or deleting one
  that is not registered is \<^verbatim>\<open>ENOENT\<close>.
\<close>

fun ctl_wellformed :: "ctl_call list \<Rightarrow> ctl_call \<Rightarrow> bool" where
  "ctl_wellformed log (EPOLL_CTL_ADD, fd, ev, p) \<longleftrightarrow> interest log fd = None"
| "ctl_wellformed log (_, fd, ev, p) \<longleftrightarrow> interest log fd \<noteq> None"

definition ep_entry_ok :: "epoll \<Rightarrow> int \<Rightarrow> nat \<Rightarrow> bool" where
  "ep_entry_ok s fd p \<longleftrightarrow> (\<exists>c. heap s p = Some c \<and> ch_fd c = fd \<and>
     (ch_index c = kAdded \<and> interest (ep_ctl s) fd = Some (p, ch_events c) \<or>
      ch_index c = kDeleted \<and> ch_events c = 0 \<and> interest (ep_ctl s) fd = None))"

definition ep_ok :: "epoll \<Rightarrow> bool" where
  "ep_ok s \<longleftrightarrow> in_loop s \<and> map_ok (ep_channels s) \<and>
     (\<forall>fd p. map_find fd (ep_channels s) = Some p \<longrightarrow> ep_entry_ok s fd p) \<and>
     (\<forall>fd. map_find fd (ep_channels s) = None \<longrightarrow> interest (ep_ctl s) fd = None)"

definition ep_reg :: "epoll \<Rightarrow> nat set" where
  "ep_reg s = registered (ep_channels s)"

definition ep_watched :: "epoll \<Rightarrow> (int \<times> nat \<times> 32 word) set" where
  "ep_watched s = {(fd, p, ev). interest (ep_ctl s) fd = Some (p, ev) \<and> ev \<noteq> 0}"

definition ep_fresh :: "channel \<Rightarrow> bool" where
  "ep_fresh c \<longleftrightarrow> ch_index c = kNew"

lemma ep_okD:
  assumes "ep_ok s" and "map_find fd (ep_channels s) = Some p"
  obtains c where "heap s p = Some c" and "ch_fd c = fd"
    and "ch_index c = kAdded \<and> interest (ep_ctl s) fd = Some (p, ch_events c) \<or>
         ch_index c = kDeleted \<and> ch_events c = 0 \<and> interest (ep_ctl s) fd = None"
  using assms unfolding ep_ok_def ep_entry_ok_def by blast

lemma ep_fd_of:
  "ep_ok s \<Longrightarrow> map_find fd (ep_channels s) = Some p \<Longrightarrow> heap s p = Some c \<Longrightarrow> ch_fd c = fd"
  by (erule ep_okD) auto

lemma ep_reg_unique:
  assumes "ep_ok s" and "p \<in> ep_reg s" and "heap s p = Some c"
  shows "map_find (ch_fd c) (ep_channels s) = Some p"
  using assms by (auto simp: ep_reg_def registered_def dest: ep_fd_of)

lemma ep_watched_char:
  "ep_ok s \<Longrightarrow>
     ep_watched s = {(fd, p, ev). \<exists>c. p \<in> ep_reg s \<and> heap s p = Some c \<and> ch_fd c = fd \<and> ch_events c = ev \<and> ev \<noteq> 0}"
proof (safe, goal_cases)
  case (1 fd p ev)
  then have int: "interest (ep_ctl s) fd = Some (p, ev)" "ev \<noteq> 0" by (simp_all add: ep_watched_def)
  with 1(1) obtain q where q: "map_find fd (ep_channels s) = Some q"
    by (cases "map_find fd (ep_channels s)") (auto simp: ep_ok_def)
  with 1(1) int have "\<exists>c. heap s p = Some c \<and> ch_fd c = fd \<and> ch_events c = ev" and "q = p"
    by (fastforce simp: ep_ok_def ep_entry_ok_def)+
  with q int show ?case by (auto simp: ep_reg_def registered_def)
next
  case (2 fd p ev c)
  then show ?case
    using ep_reg_unique [OF 2(1), of p c] by (fastforce simp: ep_ok_def ep_entry_ok_def ep_watched_def)
qed

lemma put_chan_ep [simp]:
  "ep_channels (put_chan p c s) = ep_channels s" "ep_ctl (put_chan p c s) = ep_ctl s"
  by (simp_all add: put_chan_def)

text \<open>A change of one channel, its map entry and its registration keeps the invariant.\<close>

lemma ep_ok_change:
  assumes ok: "ep_ok s" and "in_loop s'" and "map_ok (ep_channels s')"
    and ch: "\<And>g. map_find g (ep_channels s') = (if g = fd then m else map_find g (ep_channels s))"
    and hp: "heap s' = (heap s)(p := Some c')" and "ch_fd c' = fd"
    and int: "interest (ep_ctl s') = (interest (ep_ctl s))(fd := x)"
    and others: "\<And>g q. map_find g (ep_channels s) = Some q \<Longrightarrow> g \<noteq> fd \<Longrightarrow> q \<noteq> p"
    and new: "m = Some p \<and> (ch_index c' = kAdded \<and> x = Some (p, ch_events c') \<or>
                ch_index c' = kDeleted \<and> ch_events c' = 0 \<and> x = None) \<or> m = None \<and> x = None"
  shows "ep_ok s'"
proof -
  have "ep_entry_ok s' g q" if g: "map_find g (ep_channels s') = Some q" for g q
  proof (cases "g = fd")
    case True
    with g ch new assms(6) hp int show ?thesis by (auto simp: ep_entry_ok_def)
  next
    case False
    with g ch have f: "map_find g (ep_channels s) = Some q" by simp
    with others False have "q \<noteq> p" by blast
    from ok f obtain d where "heap s q = Some d" "ch_fd d = g"
      "ch_index d = kAdded \<and> interest (ep_ctl s) g = Some (q, ch_events d) \<or>
       ch_index d = kDeleted \<and> ch_events d = 0 \<and> interest (ep_ctl s) g = None" by (rule ep_okD)
    with False \<open>q \<noteq> p\<close> show ?thesis by (simp add: ep_entry_ok_def hp int)
  qed
  moreover have "interest (ep_ctl s') g = None" if "map_find g (ep_channels s') = None" for g
    using that ch [of g] new ok by (auto simp: int ep_ok_def split: if_splits)
  ultimately show ?thesis using assms(2,3) by (simp add: ep_ok_def)
qed

locale epoll_kernel =
  fixes epoll_ctl :: ctl_oracle
  assumes wellformed_succeeds: "ctl_wellformed log call \<Longrightarrow> epoll_ctl log call"
begin

lemma update_succeeds:
  "heap s p = Some c \<Longrightarrow> ctl_wellformed (ep_ctl s) (ctl, ch_fd c, ch_events c, p) \<Longrightarrow>
     epoll_update epoll_ctl ctl p s = Inr (s\<lparr>ep_ctl := ep_ctl s @ [(ctl, ch_fd c, ch_events c, p)]\<rparr>)"
  by (simp add: epoll_update_def Let_def wellformed_succeeds)

lemma ep_set_law:
  assumes ok: "ep_ok s" and c: "heap s p = Some c"
    and cond: "p \<in> ep_reg s \<or> ep_fresh c \<and> f (ch_events c) \<noteq> 0 \<and>
       (\<forall>q d. q \<in> ep_reg s \<longrightarrow> heap s q = Some d \<longrightarrow> ch_fd d \<noteq> ch_fd c)"
  shows "returns (channel_set (epoll_updateChannel epoll_ctl) f p s)
    (\<lambda>s'. ep_ok s' \<and> ep_reg s' = insert p (ep_reg s) \<and>
       (\<forall>q. map_option (\<lambda>d. (ch_fd d, ch_events d)) (heap s' q) =
            (if q = p then Some (ch_fd c, f (ch_events c))
             else map_option (\<lambda>d. (ch_fd d, ch_events d)) (heap s q))))"
proof -
  let ?fd = "ch_fd c" and ?ev = "f (ch_events c)"
  let ?c1 = "c\<lparr>ch_events := ?ev, ch_addedToLoop := True\<rparr>"
  let ?s1 = "put_chan p ?c1 s"
  have inl: "in_loop s" using ok by (simp add: ep_ok_def)
  show ?thesis
  proof (cases "p \<in> ep_reg s")
    case True
    then have find: "map_find ?fd (ep_channels s) = Some p" by (rule ep_reg_unique [OF ok _ c])
    with ok have entry: "ep_entry_ok s ?fd p" by (simp add: ep_ok_def)
    have others: "map_find fd (ep_channels s) = Some q \<Longrightarrow> fd \<noteq> ?fd \<Longrightarrow> q \<noteq> p" for fd q
      using ep_fd_of [OF ok _ c] by blast
    have reg: "insert p (ep_reg s) = ep_reg s" using True by auto
    from entry c consider (added) "ch_index c = kAdded" "interest (ep_ctl s) ?fd = Some (p, ch_events c)"
      | (deleted) "ch_index c = kDeleted" "interest (ep_ctl s) ?fd = None"
      by (auto simp: ep_entry_ok_def)
    then show ?thesis
    proof cases
      case added
      let ?op = "if ?ev = 0 then EPOLL_CTL_DEL else EPOLL_CTL_MOD"
      let ?c2 = "if ?ev = 0 then set_index kDeleted ?c1 else ?c1"
      let ?s2 = "(put_chan p ?c2 s)\<lparr>ep_ctl := ep_ctl s @ [(?op, ?fd, ?ev, p)]\<rparr>"
      have run: "channel_set (epoll_updateChannel epoll_ctl) f p s = Inr ?s2"
        using inl c find added
        by (simp add: channel_set_def epoll_updateChannel_def assertInLoopThread_def Let_def isNoneEvent_def
            kNoneEvent_def ep_indexes update_succeeds) (simp add: put_chan_def)
      have "ep_ok ?s2"
        by (rule ep_ok_change [OF ok, where fd = ?fd and p = p and c' = ?c2 and m = "Some p"
            and x = "if ?ev = 0 then None else Some (p, ?ev)"])
          (use inl ok find others added in \<open>auto simp: set_index_def ep_ok_def\<close>)
      then show ?thesis
        unfolding run reg by (simp add: ep_reg_def set_index_def)
    next
      case deleted
      let ?c2 = "set_index kAdded ?c1"
      let ?s2 = "(put_chan p ?c2 s)\<lparr>ep_ctl := ep_ctl s @ [(EPOLL_CTL_ADD, ?fd, ?ev, p)]\<rparr>"
      have run: "channel_set (epoll_updateChannel epoll_ctl) f p s = Inr ?s2"
        using inl c find deleted
        by (simp add: channel_set_def epoll_updateChannel_def assertInLoopThread_def Let_def ep_indexes
            update_succeeds set_index_def) (simp add: put_chan_def)
      have "ep_ok ?s2"
        by (rule ep_ok_change [OF ok, where fd = ?fd and p = p and c' = ?c2 and m = "Some p"
            and x = "Some (p, ?ev)"])
          (use inl ok find others deleted in \<open>auto simp: set_index_def ep_ok_def\<close>)
      then show ?thesis
        unfolding run reg by (simp add: ep_reg_def set_index_def)
    qed
  next
    case False
    with cond have new: "ch_index c = kNew" and free: "q \<in> ep_reg s \<Longrightarrow> heap s q = Some d \<Longrightarrow> ch_fd d \<noteq> ?fd" for q d
      by (auto simp: ep_fresh_def)
    have find: "map_find ?fd (ep_channels s) = None"
    proof (rule ccontr)
      assume "map_find ?fd (ep_channels s) \<noteq> None"
      then obtain q where q: "map_find ?fd (ep_channels s) = Some q" by auto
      with ok have "ep_entry_ok s ?fd q" by (simp add: ep_ok_def)
      with q free [of q] show False by (auto simp: ep_entry_ok_def ep_reg_def registered_def)
    qed
    with ok have int: "interest (ep_ctl s) ?fd = None" by (simp add: ep_ok_def)
    have others: "map_find fd (ep_channels s) = Some q \<Longrightarrow> q \<noteq> p" for fd q
      using False by (auto simp: ep_reg_def registered_def)
    let ?c2 = "set_index kAdded ?c1"
    let ?s2 = "(put_chan p ?c2 s)\<lparr>ep_channels := map_set ?fd p (ep_channels s),
        ep_ctl := ep_ctl s @ [(EPOLL_CTL_ADD, ?fd, ?ev, p)]\<rparr>"
    have run: "channel_set (epoll_updateChannel epoll_ctl) f p s = Inr ?s2"
      using inl c find int new
      by (simp add: channel_set_def epoll_updateChannel_def assertInLoopThread_def Let_def ep_indexes
          update_succeeds set_index_def) (simp add: put_chan_def)
    have "ep_ok ?s2"
      by (rule ep_ok_change [OF ok, where fd = ?fd and p = p and c' = ?c2 and m = "Some p"
          and x = "Some (p, ?ev)"])
        (use inl ok others in \<open>auto simp: set_index_def ep_ok_def map_find_map_set map_set_ok\<close>)
    moreover have "registered (map_set ?fd p (ep_channels s)) = insert p (registered (ep_channels s))"
      using find by (rule registered_set)
    ultimately show ?thesis
      unfolding run by (simp add: ep_reg_def set_index_def)
  qed
qed

lemma ep_remove_law:
  assumes ok: "ep_ok s" and reg: "p \<in> ep_reg s" and c: "heap s p = Some c" and none: "ch_events c = 0"
  shows "returns (channel_remove (epoll_removeChannel epoll_ctl) p s)
    (\<lambda>s'. ep_ok s' \<and> ep_reg s' = ep_reg s - {p} \<and>
       (\<forall>q. map_option (\<lambda>d. (ch_fd d, ch_events d)) (heap s' q) =
            map_option (\<lambda>d. (ch_fd d, ch_events d)) (heap s q)))"
proof -
  let ?fd = "ch_fd c"
  have find: "map_find ?fd (ep_channels s) = Some p" by (rule ep_reg_unique [OF ok reg c])
  with ok have entry: "ep_entry_ok s ?fd p" by (simp add: ep_ok_def)
  have others: "map_find fd (ep_channels s) = Some q \<Longrightarrow> fd \<noteq> ?fd \<Longrightarrow> q \<noteq> p" for fd q
    using ep_fd_of [OF ok _ c] by blast
  have erase: "map_find fd (map_erase ?fd (ep_channels s)) = (if fd = ?fd then None else map_find fd (ep_channels s))"
    for fd using ok by (simp add: ep_ok_def map_find_map_erase)
  have regs: "registered (map_erase ?fd (ep_channels s)) = registered (ep_channels s) - {p}"
    using ok find others by (intro registered_erase) (auto simp: ep_ok_def)
  have inl: "in_loop s" and eok: "map_ok (map_erase ?fd (ep_channels s))"
    using ok by (simp_all add: ep_ok_def map_erase_ok)
  let ?c2 = "set_index kNew (c\<lparr>ch_addedToLoop := False\<rparr>)"
  let ?s2 = "(put_chan p ?c2 s)\<lparr>ep_channels := map_erase ?fd (ep_channels s),
      ep_ctl := ep_ctl s @ (if ch_index c = kAdded then [(EPOLL_CTL_DEL, ?fd, 0, p)] else [])\<rparr>"
  have index: "ch_index c = kAdded \<and> interest (ep_ctl s) ?fd \<noteq> None \<or>
      ch_index c = kDeleted \<and> interest (ep_ctl s) ?fd = None"
    using entry c by (auto simp: ep_entry_ok_def)
  have run: "channel_remove (epoll_removeChannel epoll_ctl) p s = Inr ?s2"
    using index
  proof (elim disjE conjE)
    assume "ch_index c = kAdded" "interest (ep_ctl s) ?fd \<noteq> None"
    then show ?thesis using inl c find none
      by (simp add: channel_remove_def epoll_removeChannel_def assertInLoopThread_def Let_def isNoneEvent_def
          kNoneEvent_def update_succeeds set_index_def) (simp add: put_chan_def)
  next
    assume "ch_index c = kDeleted" "interest (ep_ctl s) ?fd = None"
    then show ?thesis using inl c find none
      by (simp add: channel_remove_def epoll_removeChannel_def assertInLoopThread_def Let_def isNoneEvent_def
          kNoneEvent_def ep_indexes set_index_def) (simp add: put_chan_def)
  qed
  have "ep_ok ?s2"
    by (rule ep_ok_change [OF ok, where fd = ?fd and p = p and c' = ?c2 and m = None and x = None])
      (use inl eok others index in \<open>auto simp: set_index_def erase\<close>)
  then show ?thesis
    unfolding run using c by (auto simp: ep_reg_def set_index_def regs)
qed

end

sublocale epoll_kernel \<subseteq> epoll: demux ep_ok heap ep_reg ep_fresh ep_watched
  "channel_set (epoll_updateChannel epoll_ctl)" "channel_remove (epoll_removeChannel epoll_ctl)"
  by unfold_locales (rule ep_watched_char ep_set_law ep_remove_law; assumption)+

context epoll_kernel
begin

lemmas interest_exact = epoll.set_watched
lemmas channel_lifecycle = epoll.lifecycle

end

interpretation linux: epoll_kernel ctl_wellformed
  by unfold_locales

section \<open>PollPoller meets the contract\<close>

text \<open>A channel that wants nothing has its descriptor stored as \<^verbatim>\<open>-fd-1\<close>, which \<^verbatim>\<open>poll\<close> ignores.\<close>

definition pfd_matches :: "pollfd \<Rightarrow> channel \<Rightarrow> bool" where
  "pfd_matches q c \<longleftrightarrow>
     pfd_fd q = (if ch_events c = 0 then - ch_fd c - 1 else ch_fd c) \<and> pfd_events q = ucast (ch_events c)"

definition pp_entry_ok :: "pollp \<Rightarrow> int \<Rightarrow> nat \<Rightarrow> bool" where
  "pp_entry_ok s fd p \<longleftrightarrow> (\<exists>c i. heap s p = Some c \<and> ch_fd c = fd \<and> 0 \<le> fd \<and> io_mask (ch_events c) \<and>
     i < length (pollfds s) \<and> ch_index c = int i \<and> pfd_matches (pollfds s ! i) c)"

definition pp_ok :: "pollp \<Rightarrow> bool" where
  "pp_ok s \<longleftrightarrow> in_loop s \<and> map_ok (pp_channels s) \<and>
     (\<forall>fd p. map_find fd (pp_channels s) = Some p \<longrightarrow> pp_entry_ok s fd p) \<and>
     (\<forall>i < length (pollfds s). \<exists>fd p c. map_find fd (pp_channels s) = Some p \<and> heap s p = Some c \<and> ch_index c = int i)"

definition pp_reg :: "pollp \<Rightarrow> nat set" where
  "pp_reg s = registered (pp_channels s)"

definition pp_watched :: "pollp \<Rightarrow> (int \<times> nat \<times> 32 word) set" where
  "pp_watched s = {(fd, p, ev). \<exists>q \<in> set (pollfds s). pfd_fd q = fd \<and> 0 \<le> fd \<and>
     map_find fd (pp_channels s) = Some p \<and> ev = ucast (pfd_events q)}"

definition pp_fresh :: "channel \<Rightarrow> bool" where
  "pp_fresh c \<longleftrightarrow> ch_index c < 0"

lemma ucast_io_mask:
  assumes "io_mask ev"
  shows "ucast (ucast ev :: 16 word) = (ev :: 32 word)"
  using assms by (auto simp: io_mask_bits bit_eq_iff bit_ucast_iff)

lemma put_chan_pp [simp]:
  "pp_channels (put_chan p c s) = pp_channels s" "pollfds (put_chan p c s) = pollfds s"
  by (simp_all add: put_chan_def)

lemma pp_okD:
  assumes "pp_ok s" and "map_find fd (pp_channels s) = Some p"
  obtains c i where "heap s p = Some c" and "ch_fd c = fd" and "0 \<le> fd" and "io_mask (ch_events c)"
    and "i < length (pollfds s)" and "ch_index c = int i" and "pfd_matches (pollfds s ! i) c"
  using assms unfolding pp_ok_def pp_entry_ok_def by blast

lemma pp_slotE:
  assumes "pp_ok s" and "i < length (pollfds s)"
  obtains fd p c where "map_find fd (pp_channels s) = Some p" and "heap s p = Some c"
    and "ch_fd c = fd" and "0 \<le> fd" and "io_mask (ch_events c)" and "ch_index c = int i"
    and "pfd_matches (pollfds s ! i) c"
proof -
  from assms obtain fd p c where f: "map_find fd (pp_channels s) = Some p" "heap s p = Some c" "ch_index c = int i"
    unfolding pp_ok_def by blast
  from assms(1) f(1) show thesis
    by (rule pp_okD) (use f that in auto)
qed

lemma pp_fd_of:
  "pp_ok s \<Longrightarrow> map_find fd (pp_channels s) = Some p \<Longrightarrow> heap s p = Some c \<Longrightarrow> ch_fd c = fd"
  by (erule pp_okD) auto

lemma pp_reg_unique:
  assumes "pp_ok s" and "p \<in> pp_reg s" and "heap s p = Some c"
  shows "map_find (ch_fd c) (pp_channels s) = Some p"
  using assms by (auto simp: pp_reg_def elim!: registeredE dest: pp_fd_of)

lemma matches_same_fd:
  "pfd_matches q c \<Longrightarrow> pfd_matches q d \<Longrightarrow> 0 \<le> ch_fd c \<Longrightarrow> 0 \<le> ch_fd d \<Longrightarrow> ch_fd c = ch_fd d"
  by (auto simp: pfd_matches_def split: if_splits)

text \<open>Registered channels have different slots.\<close>

lemma pp_index_inj:
  assumes "pp_ok s" and "map_find fd (pp_channels s) = Some p" and "map_find g (pp_channels s) = Some q"
    and "heap s p = Some c" and "heap s q = Some d" and "ch_index c = ch_index d"
  shows "fd = g \<and> p = q"
proof -
  from assms(1,2) obtain i where c: "ch_fd c = fd" "0 \<le> fd" "ch_index c = int i" "pfd_matches (pollfds s ! i) c"
    using assms(4) by (auto elim!: pp_okD)
  from assms(1,3) obtain j where d: "ch_fd d = g" "0 \<le> g" "ch_index d = int j" "pfd_matches (pollfds s ! j) d"
    using assms(5) by (auto elim!: pp_okD)
  from c d assms(6) have "fd = g" using matches_same_fd [OF c(4), of d] by simp
  with assms(2,3) show ?thesis by simp
qed

lemma pp_watched_char:
  assumes "pp_ok s"
  shows "pp_watched s = {(fd, p, ev). \<exists>c. p \<in> pp_reg s \<and> heap s p = Some c \<and> ch_fd c = fd \<and> ch_events c = ev \<and> ev \<noteq> 0}"
proof (intro equalityI subsetI; clarify)
  fix fd p ev assume "(fd, p, ev) \<in> pp_watched s"
  then obtain i where i: "i < length (pollfds s)" "pfd_fd (pollfds s ! i) = fd" "0 \<le> fd"
    "map_find fd (pp_channels s) = Some p" "ev = ucast (pfd_events (pollfds s ! i))"
    by (auto simp: pp_watched_def in_set_conv_nth)
  from assms i(1) obtain g q c where c: "map_find g (pp_channels s) = Some q" "heap s q = Some c" "ch_fd c = g"
    "0 \<le> g" "io_mask (ch_events c)" "pfd_matches (pollfds s ! i) c" by (rule pp_slotE)
  from c(4,6) i(2,3) c(3) have "g = fd" "ch_events c \<noteq> 0" by (auto simp: pfd_matches_def split: if_splits)
  with c i show "\<exists>c. p \<in> pp_reg s \<and> heap s p = Some c \<and> ch_fd c = fd \<and> ch_events c = ev \<and> ev \<noteq> 0"
    by (auto simp: pp_reg_def pfd_matches_def ucast_io_mask intro: registeredI)
next
  fix fd p ev c assume c: "p \<in> pp_reg s" "heap s p = Some c" "ch_events c \<noteq> 0"
  then have find: "map_find (ch_fd c) (pp_channels s) = Some p" using pp_reg_unique [OF assms] by blast
  from assms find obtain i where "i < length (pollfds s)" "pfd_matches (pollfds s ! i) c" "io_mask (ch_events c)" "0 \<le> ch_fd c"
    using c(2) by (auto elim!: pp_okD)
  with c find show "(ch_fd c, p, ch_events c) \<in> pp_watched s"
    by (auto simp: pp_watched_def pfd_matches_def ucast_io_mask intro!: bexI [of _ "pollfds s ! i"])
qed

lemma pp_set_registered:
  assumes ok: "pp_ok s" and c: "heap s p = Some c" and fd0: "0 \<le> ch_fd c" and io: "io_mask (f (ch_events c))"
    and reg: "p \<in> pp_reg s"
  shows "returns (channel_set poll_updateChannel f p s)
    (\<lambda>s'. pp_ok s' \<and> pp_reg s' = insert p (pp_reg s) \<and>
       (\<forall>q. map_option (\<lambda>d. (ch_fd d, ch_events d)) (heap s' q) =
            (if q = p then Some (ch_fd c, f (ch_events c))
             else map_option (\<lambda>d. (ch_fd d, ch_events d)) (heap s q))))"
proof -
  let ?fd = "ch_fd c" and ?ev = "f (ch_events c)"
  let ?c1 = "c\<lparr>ch_events := ?ev, ch_addedToLoop := True\<rparr>"
  have inl: "in_loop s" using ok by (simp add: pp_ok_def)
  from reg have find: "map_find ?fd (pp_channels s) = Some p" by (rule pp_reg_unique [OF ok _ c])
  from ok find obtain i where i: "i < length (pollfds s)" "ch_index c = int i" "pfd_matches (pollfds s ! i) c"
    using c by (auto elim!: pp_okD)
  let ?pfd = "\<lparr>pfd_fd = (if ?ev = 0 then - ?fd - 1 else ?fd), pfd_events = ucast ?ev, pfd_revents = 0\<rparr>"
  let ?s2 = "(put_chan p ?c1 s)\<lparr>pollfds := (pollfds s)[i := ?pfd]\<rparr>"
  have run: "channel_set poll_updateChannel f p s = Inr ?s2"
    using inl c find i
    by (auto simp: channel_set_def poll_updateChannel_def assertInLoopThread_def Let_def isNoneEvent_def
        kNoneEvent_def pfd_matches_def split: if_splits)
  have "pp_entry_ok ?s2 g q" if g: "map_find g (pp_channels s) = Some q" for g q
  proof (cases "q = p")
    case q: True
    with g c have "g = ?fd" using pp_fd_of [OF ok] by blast
    with q i fd0 io show ?thesis by (simp add: pp_entry_ok_def pfd_matches_def)
  next
    case False
    from ok g obtain d j where d: "heap s q = Some d" "ch_fd d = g" "0 \<le> g" "io_mask (ch_events d)"
      "j < length (pollfds s)" "ch_index d = int j" "pfd_matches (pollfds s ! j) d" by (rule pp_okD)
    have "j \<noteq> i" using pp_index_inj [OF ok g find d(1) c] d(6) i(2) False by auto
    with d False show ?thesis by (simp add: pp_entry_ok_def)
  qed
  moreover have "\<exists>fd q d. map_find fd (pp_channels s) = Some q \<and> heap ?s2 q = Some d \<and> ch_index d = int j"
    if j: "j < length (pollfds s)" for j
  proof -
    from ok j obtain g q d where "map_find g (pp_channels s) = Some q" "heap s q = Some d" "ch_index d = int j"
      by (rule pp_slotE)
    with c show ?thesis by (cases "q = p") auto
  qed
  ultimately have "pp_ok ?s2" using ok by (simp add: pp_ok_def)
  moreover have "insert p (pp_reg s) = pp_reg s" using reg by auto
  ultimately show ?thesis unfolding run by (simp add: pp_reg_def)
qed

lemma pp_set_new:
  assumes ok: "pp_ok s" and c: "heap s p = Some c" and fd0: "0 \<le> ch_fd c" and io: "io_mask (f (ch_events c))"
    and unreg: "p \<notin> pp_reg s" and new: "ch_index c < 0" "f (ch_events c) \<noteq> 0"
    and free: "\<And>q d. q \<in> pp_reg s \<Longrightarrow> heap s q = Some d \<Longrightarrow> ch_fd d \<noteq> ch_fd c"
  shows "returns (channel_set poll_updateChannel f p s)
    (\<lambda>s'. pp_ok s' \<and> pp_reg s' = insert p (pp_reg s) \<and>
       (\<forall>q. map_option (\<lambda>d. (ch_fd d, ch_events d)) (heap s' q) =
            (if q = p then Some (ch_fd c, f (ch_events c))
             else map_option (\<lambda>d. (ch_fd d, ch_events d)) (heap s q))))"
proof -
  let ?fd = "ch_fd c" and ?ev = "f (ch_events c)"
  let ?c1 = "c\<lparr>ch_events := ?ev, ch_addedToLoop := True\<rparr>"
  have inl: "in_loop s" using ok by (simp add: pp_ok_def)
  have find: "map_find ?fd (pp_channels s) = None"
  proof (rule ccontr)
    assume "map_find ?fd (pp_channels s) \<noteq> None"
    then obtain q where q: "map_find ?fd (pp_channels s) = Some q" by auto
    with ok obtain d where "heap s q = Some d" "ch_fd d = ?fd" by (auto elim: pp_okD)
    with q free [of q] show False by (auto simp: pp_reg_def intro: registeredI)
  qed
  let ?n = "length (pollfds s)"
  let ?c2 = "set_index (int ?n) ?c1"
  let ?pfd = "\<lparr>pfd_fd = ?fd, pfd_events = ucast ?ev, pfd_revents = 0\<rparr>"
  let ?s2 = "(put_chan p ?c2 s)\<lparr>pollfds := pollfds s @ [?pfd], pp_channels := map_set ?fd p (pp_channels s)\<rparr>"
  have run: "channel_set poll_updateChannel f p s = Inr ?s2"
    using inl c find new
    by (simp add: channel_set_def poll_updateChannel_def assertInLoopThread_def Let_def set_index_def put_chan_def)
  have np: "q \<noteq> p" if "map_find g (pp_channels s) = Some q" for g q
    using that unreg by (auto simp: pp_reg_def intro: registeredI)
  have "pp_entry_ok ?s2 g q" if g: "map_find g (map_set ?fd p (pp_channels s)) = Some q" for g q
  proof (cases "g = ?fd")
    case True
    with g new fd0 io show ?thesis
      by (simp add: pp_entry_ok_def map_find_map_set set_index_def pfd_matches_def)
  next
    case False
    with g have g': "map_find g (pp_channels s) = Some q" by (simp add: map_find_map_set)
    from ok g' obtain d j where "heap s q = Some d" "ch_fd d = g" "0 \<le> g" "io_mask (ch_events d)"
      "j < length (pollfds s)" "ch_index d = int j" "pfd_matches (pollfds s ! j) d" by (rule pp_okD)
    with np [OF g'] show ?thesis by (auto simp: pp_entry_ok_def nth_append)
  qed
  moreover have "\<exists>fd q d. map_find fd (map_set ?fd p (pp_channels s)) = Some q \<and> heap ?s2 q = Some d \<and> ch_index d = int j"
    if j: "j < Suc ?n" for j
  proof (cases "j = ?n")
    case True
    then show ?thesis by (intro exI [of _ ?fd] exI [of _ p]) (simp add: map_find_map_set set_index_def)
  next
    case False
    with j have "j < ?n" by simp
    with ok obtain g q d where g: "map_find g (pp_channels s) = Some q" "heap s q = Some d" "ch_index d = int j"
      by (rule pp_slotE)
    with np [OF g(1)] find show ?thesis
      by (intro exI [of _ g] exI [of _ q] exI [of _ d]) (auto simp: map_find_map_set)
  qed
  ultimately have "pp_ok ?s2" using ok by (simp add: pp_ok_def map_set_ok)
  moreover have "pp_reg ?s2 = insert p (pp_reg s)" using registered_set [OF find] by (simp add: pp_reg_def)
  ultimately show ?thesis unfolding run by (simp add: set_index_def)
qed

lemma pp_set_law:
  assumes "pp_ok s" and "heap s p = Some c" and "0 \<le> ch_fd c" and "io_mask (f (ch_events c))"
    and "p \<in> pp_reg s \<or> pp_fresh c \<and> f (ch_events c) \<noteq> 0 \<and>
       (\<forall>q d. q \<in> pp_reg s \<longrightarrow> heap s q = Some d \<longrightarrow> ch_fd d \<noteq> ch_fd c)"
  shows "returns (channel_set poll_updateChannel f p s)
    (\<lambda>s'. pp_ok s' \<and> pp_reg s' = insert p (pp_reg s) \<and>
       (\<forall>q. map_option (\<lambda>d. (ch_fd d, ch_events d)) (heap s' q) =
            (if q = p then Some (ch_fd c, f (ch_events c))
             else map_option (\<lambda>d. (ch_fd d, ch_events d)) (heap s q))))"
  using pp_set_registered [of s p c f, OF assms(1-4)] pp_set_new [of s p c f, OF assms(1-4)] assms(5)
  by (cases "p \<in> pp_reg s") (auto simp: pp_fresh_def)

text \<open>
  Removing a channel: its slot is dropped when it is the last one, and otherwise filled
  with the last one, whose channel learns its new index.
\<close>

lemma pp_remove_frame:
  assumes ok: "pp_ok s" and find: "map_find (ch_fd c) (pp_channels s) = Some p" and c: "heap s p = Some c"
  shows "map_ok (map_erase (ch_fd c) (pp_channels s))"
    and "map_find g (map_erase (ch_fd c) (pp_channels s)) =
           (if g = ch_fd c then None else map_find g (pp_channels s))"
    and "registered (map_erase (ch_fd c) (pp_channels s)) = pp_reg s - {p}"
    and "map_find g (pp_channels s) = Some q \<Longrightarrow> g \<noteq> ch_fd c \<Longrightarrow> q \<noteq> p"
proof -
  show others: "q \<noteq> p" if "map_find g (pp_channels s) = Some q" "g \<noteq> ch_fd c" for g q
    using pp_fd_of [OF ok _ c] that by blast
  have m: "map_ok (pp_channels s)" using ok by (simp add: pp_ok_def)
  then show "map_ok (map_erase (ch_fd c) (pp_channels s))"
    "map_find g (map_erase (ch_fd c) (pp_channels s)) = (if g = ch_fd c then None else map_find g (pp_channels s))"
    by (simp_all add: map_erase_ok map_find_map_erase)
  show "registered (map_erase (ch_fd c) (pp_channels s)) = pp_reg s - {p}"
    unfolding pp_reg_def using m find others by (intro registered_erase) auto
qed

lemma pp_remove_last:
  assumes ok: "pp_ok s" and find: "map_find (ch_fd c) (pp_channels s) = Some p" and c: "heap s p = Some c"
    and idx: "ch_index c = int i" and last: "Suc i = length (pollfds s)"
  shows "pp_ok ((put_chan p (c\<lparr>ch_addedToLoop := False\<rparr>) s)
           \<lparr>pp_channels := map_erase (ch_fd c) (pp_channels s), pollfds := butlast (pollfds s)\<rparr>)"
    (is "pp_ok ?s2")
proof -
  note frame = pp_remove_frame [OF ok find c]
  have "pp_entry_ok ?s2 g q" if "map_find g (map_erase (ch_fd c) (pp_channels s)) = Some q" for g q
  proof -
    from that have g: "map_find g (pp_channels s) = Some q" "g \<noteq> ch_fd c" by (auto simp: frame(2) split: if_splits)
    then have "q \<noteq> p" by (rule frame(4))
    from ok g(1) obtain d j where d: "heap s q = Some d" "ch_fd d = g" "0 \<le> g" "io_mask (ch_events d)"
      "j < length (pollfds s)" "ch_index d = int j" "pfd_matches (pollfds s ! j) d" by (rule pp_okD)
    have "j \<noteq> i" using pp_index_inj [OF ok g(1) find d(1) c] d(6) idx g(2) by auto
    with d last have "j < length (butlast (pollfds s))" by simp
    with d \<open>q \<noteq> p\<close> show ?thesis by (auto simp: pp_entry_ok_def nth_butlast)
  qed
  moreover have "\<exists>g q d. map_find g (map_erase (ch_fd c) (pp_channels s)) = Some q \<and> heap ?s2 q = Some d \<and> ch_index d = int j"
    if j: "j < length (pollfds s) - 1" for j
  proof -
    from j have "j < length (pollfds s)" by simp
    with ok obtain g q d where d: "map_find g (pp_channels s) = Some q" "heap s q = Some d" "ch_index d = int j"
      by (rule pp_slotE)
    have "g \<noteq> ch_fd c" using d find c idx last j by auto
    with frame(4) [OF d(1)] d show ?thesis
      by (intro exI [of _ g] exI [of _ q] exI [of _ d]) (simp add: frame(2))
  qed
  ultimately show ?thesis using ok frame(1) by (simp add: pp_ok_def)
qed

lemma pp_remove_inner:
  assumes ok: "pp_ok s" and find: "map_find (ch_fd c) (pp_channels s) = Some p" and c: "heap s p = Some c"
    and idx: "ch_index c = int i" and inner: "Suc i < length (pollfds s)"
    and q: "map_find h (pp_channels s) = Some q" "heap s q = Some e"
    and qi: "ch_index e = int (length (pollfds s) - 1)"
  shows "pp_ok ((put_chan q (set_index (int i) e) (put_chan p (c\<lparr>ch_addedToLoop := False\<rparr>) s))
           \<lparr>pp_channels := map_erase (ch_fd c) (pp_channels s),
            pollfds := butlast ((pollfds s)[i := List.last (pollfds s)])\<rparr>)"
    (is "pp_ok ?s2")
proof -
  note frame = pp_remove_frame [OF ok find c]
  let ?n = "length (pollfds s)"
  have hne: "h \<noteq> ch_fd c" using q find c idx qi inner by auto
  then have "q \<noteq> p" by (rule frame(4) [OF q(1)])
  have lst: "List.last (pollfds s) = pollfds s ! (?n - 1)" using inner by (intro last_conv_nth) auto
  have slot: "butlast ((pollfds s)[i := List.last (pollfds s)]) ! j =
      (if j = i then pollfds s ! (?n - 1) else pollfds s ! j)" if "j < ?n - 1" for j
    using that lst by (simp add: nth_butlast nth_list_update)
  have "pp_entry_ok ?s2 g r" if "map_find g (map_erase (ch_fd c) (pp_channels s)) = Some r" for g r
  proof -
    from that have g: "map_find g (pp_channels s) = Some r" "g \<noteq> ch_fd c" by (auto simp: frame(2) split: if_splits)
    then have "r \<noteq> p" by (rule frame(4))
    from ok g(1) obtain d j where d: "heap s r = Some d" "ch_fd d = g" "0 \<le> g" "io_mask (ch_events d)"
      "j < ?n" "ch_index d = int j" "pfd_matches (pollfds s ! j) d" by (rule pp_okD)
    show ?thesis
    proof (cases "r = q")
      case True
      with d q(2) qi inner have "j = ?n - 1" by simp
      with True d q(2) inner slot [of i] show ?thesis
        by (auto simp: pp_entry_ok_def set_index_def pfd_matches_def)
    next
      case False
      have "j \<noteq> i" using pp_index_inj [OF ok g(1) find d(1) c] d(6) idx g(2) by auto
      moreover have "j \<noteq> ?n - 1" using pp_index_inj [OF ok g(1) q(1) d(1) q(2)] d(6) qi False by auto
      ultimately show ?thesis using d False \<open>r \<noteq> p\<close> slot [of j] by (auto simp: pp_entry_ok_def)
    qed
  qed
  moreover have "\<exists>g r d. map_find g (map_erase (ch_fd c) (pp_channels s)) = Some r \<and> heap ?s2 r = Some d \<and> ch_index d = int j"
    if j: "j < ?n - 1" for j
  proof (cases "j = i")
    case True
    with q hne show ?thesis
      by (intro exI [of _ h] exI [of _ q]) (simp add: frame(2) set_index_def)
  next
    case False
    from j have "j < ?n" by simp
    with ok obtain g r d where d: "map_find g (pp_channels s) = Some r" "heap s r = Some d" "ch_index d = int j"
      by (rule pp_slotE)
    have "g \<noteq> ch_fd c" "r \<noteq> q" using d find c idx False q(2) qi j by auto
    with frame(4) [OF d(1)] d show ?thesis
      by (intro exI [of _ g] exI [of _ r] exI [of _ d]) (simp add: frame(2))
  qed
  ultimately show ?thesis using ok frame(1) by (simp add: pp_ok_def)
qed

lemma pp_remove_law:
  assumes ok: "pp_ok s" and reg: "p \<in> pp_reg s" and c: "heap s p = Some c" and none: "ch_events c = 0"
  shows "returns (channel_remove poll_removeChannel p s)
    (\<lambda>s'. pp_ok s' \<and> pp_reg s' = pp_reg s - {p} \<and>
       (\<forall>q. map_option (\<lambda>d. (ch_fd d, ch_events d)) (heap s' q) =
            map_option (\<lambda>d. (ch_fd d, ch_events d)) (heap s q)))"
proof -
  have find: "map_find (ch_fd c) (pp_channels s) = Some p" by (rule pp_reg_unique [OF ok reg c])
  note frame = pp_remove_frame [OF ok find c]
  have inl: "in_loop s" using ok by (simp add: pp_ok_def)
  from ok find obtain i where i: "i < length (pollfds s)" "ch_index c = int i" "pfd_matches (pollfds s ! i) c"
    using c by (auto elim!: pp_okD)
  from i(3) none have pfd: "pfd_fd (pollfds s ! i) = - ch_fd c - 1" "pfd_events (pollfds s ! i) = 0"
    by (simp_all add: pfd_matches_def)
  let ?c1 = "c\<lparr>ch_addedToLoop := False\<rparr>"
  let ?n = "length (pollfds s)"
  note defs = channel_remove_def poll_removeChannel_def assertInLoopThread_def isNoneEvent_def kNoneEvent_def
  show ?thesis
  proof (cases "Suc i = ?n")
    case True
    then have i_last: "?n - Suc 0 = i" by simp
    have "channel_remove poll_removeChannel p s =
        Inr ((put_chan p ?c1 s)\<lparr>pp_channels := map_erase (ch_fd c) (pp_channels s), pollfds := butlast (pollfds s)\<rparr>)"
      using inl c find i pfd none i_last by (simp add: defs Let_def)
    with pp_remove_last [OF ok find c i(2) True] c show ?thesis by (auto simp: pp_reg_def frame(3))
  next
    case False
    with i have inner: "Suc i < ?n" and n1: "?n - 1 < ?n" by simp_all
    from ok n1 obtain h q e where q: "map_find h (pp_channels s) = Some q" "heap s q = Some e" "ch_fd e = h"
      "0 \<le> h" "ch_index e = int (?n - 1)" "pfd_matches (pollfds s ! (?n - 1)) e" by (rule pp_slotE)
    have hne: "h \<noteq> ch_fd c" using q find c i inner by auto
    then have "q \<noteq> p" by (rule frame(4) [OF q(1)])
    have lst: "List.last (pollfds s) = pollfds s ! (?n - 1)" using inner by (intro last_conv_nth) auto
    have endfd: "(if pfd_fd (List.last (pollfds s)) < 0 then - pfd_fd (List.last (pollfds s)) - 1
        else pfd_fd (List.last (pollfds s))) = h"
      using q(3,4,6) by (auto simp: lst pfd_matches_def split: if_splits)
    have "channel_remove poll_removeChannel p s =
        Inr ((put_chan q (set_index (int i) e) (put_chan p ?c1 s))
          \<lparr>pp_channels := map_erase (ch_fd c) (pp_channels s),
           pollfds := butlast ((pollfds s)[i := List.last (pollfds s)])\<rparr>)"
      using inl c find i pfd none inner q(1,2) hne \<open>q \<noteq> p\<close> endfd
      by (simp add: defs Let_def frame(2) butlast_list_update)
    with pp_remove_inner [OF ok find c i(2) inner q(1,2,5)] c q(2) show ?thesis
      by (auto simp: pp_reg_def frame(3) set_index_def)
  qed
qed

interpretation pollp: demux pp_ok heap pp_reg pp_fresh pp_watched
  "channel_set poll_updateChannel" "channel_remove poll_removeChannel"
  by unfold_locales (rule pp_watched_char pp_set_law pp_remove_law; assumption)+

section \<open>Active channels\<close>

text \<open>Received events are handed to registered channels only, in the order they were reported.\<close>

lemma fill_active:
  assumes "ep_ok s" and "\<forall>(ev, p) \<in> set es. p \<in> ep_reg s"
  shows "returns (epoll_fillActiveChannels es s) (\<lambda>(active, s'). active = map snd es \<and> ep_ok s' \<and>
    ep_reg s' = ep_reg s \<and> ep_list_size s' = ep_list_size s \<and> ep_watched s' = ep_watched s)"
  using assms
proof (induction es arbitrary: s)
  case (Cons e es)
  obtain ev p where e: "e = (ev, p)" by (cases e)
  with Cons.prems(2) have p: "p \<in> ep_reg s" by simp
  then obtain fd c where "map_find fd (ep_channels s) = Some p" and c: "heap s p = Some c"
    using Cons.prems(1) by (auto simp: ep_reg_def elim!: registeredE ep_okD)
  have find: "map_find (ch_fd c) (ep_channels s) = Some p" by (rule ep_reg_unique [OF Cons.prems(1) p c])
  let ?s1 = "put_chan p (set_revents ev c) s"
  have upd: "heap ?s1 q = map_option (\<lambda>d. if q = p then set_revents ev d else d) (heap s q)" for q
    using c by (cases "heap s q") auto
  have entry: "ep_entry_ok ?s1 g q \<longleftrightarrow> ep_entry_ok s g q" for g q
    unfolding ep_entry_ok_def upd by (cases "heap s q") (auto simp: set_revents_def)
  have ok1: "ep_ok ?s1" using Cons.prems(1) by (simp add: ep_ok_def entry)
  have "ep_reg ?s1 = ep_reg s" "ep_watched ?s1 = ep_watched s" "ep_list_size ?s1 = ep_list_size s"
    by (simp_all add: ep_reg_def ep_watched_def put_chan_def)
  with Cons.IH [OF ok1] Cons.prems(2) e c find show ?case by (auto elim!: returnsE)
qed simp

section \<open>Properties\<close>

text \<open>
  C11. Under a kernel on which well-formed \<^verbatim>\<open>epoll_ctl\<close> calls succeed, changing the events of
  a channel through the epoll poller never fails an assertion and never aborts: the
  kernel's interest list afterwards is the old one with the entry of this channel
  replaced by its new mask (dropped when the mask is empty). This holds for channels
  already registered and for new ones whose descriptor is not in use.
\<close>

theorem epoll_interest_exact:
  assumes "\<And>log call. ctl_wellformed log call \<Longrightarrow> epoll_ctl log call"
    and "ep_ok s" and "heap s p = Some c" and "0 \<le> ch_fd c" and "io_mask (f (ch_events c))"
    and "p \<in> ep_reg s \<or> ep_fresh c \<and> f (ch_events c) \<noteq> 0 \<and>
           (\<forall>q d. q \<in> ep_reg s \<longrightarrow> heap s q = Some d \<longrightarrow> ch_fd d \<noteq> ch_fd c)"
  shows "returns (channel_set (epoll_updateChannel epoll_ctl) f p s) (\<lambda>s'. ep_ok s' \<and> p \<in> ep_reg s' \<and>
    (\<exists>c'. heap s' p = Some c' \<and> ch_fd c' = ch_fd c \<and> ch_events c' = f (ch_events c)) \<and>
    ep_watched s' = {w \<in> ep_watched s. fst (snd w) \<noteq> p} \<union>
      (if f (ch_events c) = 0 then {} else {(ch_fd c, p, f (ch_events c))}))"
proof -
  have "epoll_kernel epoll_ctl" by unfold_locales (rule assms(1))
  then show ?thesis using assms(2-6) by (rule epoll_kernel.interest_exact)
qed

definition one_channel :: epoll where
  "one_channel = \<lparr>heap = (\<lambda>p. if p = 7 then Some (Channel_new 5) else None), in_loop = True,
     ep_channels = [], ep_list_size = 16, ep_ctl = []\<rparr>"

lemma one_channel_ok: "ep_ok one_channel" "ep_reg one_channel = {}" "ep_watched one_channel = {}"
  by (simp_all add: one_channel_def ep_ok_def ep_reg_def registered_def ep_watched_def)

theorem epoll_interest_exact_witness:
  "\<exists>s'. channel_set (epoll_updateChannel ctl_wellformed) reading_on 7 one_channel = Inr s' \<and> ep_ok s' \<and>
     ep_watched s' = {(5, 7, kReadEvent)}"
proof -
  have c: "heap one_channel 7 = Some (Channel_new 5)" by (simp add: one_channel_def)
  have kr: "kReadEvent \<noteq> 0" by (simp add: kReadEvent_def poll_bits)
  have "returns (channel_set (epoll_updateChannel ctl_wellformed) reading_on 7 one_channel) (\<lambda>s'. ep_ok s' \<and> 7 \<in> ep_reg s' \<and>
    (\<exists>c'. heap s' 7 = Some c' \<and> ch_fd c' = ch_fd (Channel_new 5) \<and> ch_events c' = reading_on (ch_events (Channel_new 5))) \<and>
    ep_watched s' = {w \<in> ep_watched one_channel. fst (snd w) \<noteq> 7} \<union>
      (if reading_on (ch_events (Channel_new 5)) = 0 then {}
       else {(ch_fd (Channel_new 5), 7, reading_on (ch_events (Channel_new 5)))}))"
    by (rule epoll_interest_exact [of ctl_wellformed])
      (use c kr in \<open>simp_all add: one_channel_ok Channel_new_def ep_fresh_def kNew_def\<close>)
  then show ?thesis
    using kr by (auto simp: one_channel_ok Channel_new_def elim!: returnsE)
qed

text \<open>
  The poll poller keeps its array of descriptors and the channels' indexes in step,
  the swap with the last slot on removal included: the channel of a connection can be
  registered for reading, switched to writing and back, disabled and removed without an
  assertion failing, and then what is polled is what was polled before.
\<close>

theorem poll_lifecycle:
  assumes "pp_ok s" and "heap s p = Some c" and "0 \<le> ch_fd c" and "ch_events c = 0" and "pp_fresh c"
    and "p \<notin> pp_reg s" and "\<forall>q d. q \<in> pp_reg s \<longrightarrow> heap s q = Some d \<longrightarrow> ch_fd d \<noteq> ch_fd c"
  shows "returns (bind_r (channel_set poll_updateChannel reading_on p s)
      (\<lambda>s. bind_r (channel_set poll_updateChannel writing_on p s)
        (\<lambda>s. bind_r (channel_set poll_updateChannel writing_off p s)
          (\<lambda>s. bind_r (channel_set poll_updateChannel (\<lambda>_. kNoneEvent) p s)
            (channel_remove poll_removeChannel p)))))
    (\<lambda>s'. pp_ok s' \<and> p \<notin> pp_reg s' \<and> pp_watched s' = pp_watched s)"
  by (rule pollp.lifecycle [OF assms])

theorem poll_lifecycle_witness:
  "returns (bind_r (channel_set poll_updateChannel reading_on 7
        \<lparr>heap = (\<lambda>p. if p = 7 then Some (Channel_new 5) else None), in_loop = True, pp_channels = [], pollfds = []\<rparr>)
      (\<lambda>s. bind_r (channel_set poll_updateChannel writing_on 7 s)
        (\<lambda>s. bind_r (channel_set poll_updateChannel writing_off 7 s)
          (\<lambda>s. bind_r (channel_set poll_updateChannel (\<lambda>_. kNoneEvent) 7 s)
            (channel_remove poll_removeChannel 7)))))
    (\<lambda>s'. pp_ok s' \<and> 7 \<notin> pp_reg s' \<and> pp_watched s' = {})"
proof -
  let ?s = "\<lparr>heap = (\<lambda>p. if p = 7 then Some (Channel_new 5) else None), in_loop = True,
     pp_channels = [], pollfds = []\<rparr> :: pollp"
  have "pp_ok ?s" "7 \<notin> pp_reg ?s" "pp_watched ?s = {}" "heap ?s 7 = Some (Channel_new 5)"
    "\<forall>q d. q \<in> pp_reg ?s \<longrightarrow> heap ?s q = Some d \<longrightarrow> ch_fd d \<noteq> ch_fd (Channel_new 5)"
    by (simp_all add: pp_ok_def pp_reg_def registered_def pp_watched_def)
  then show ?thesis
    using poll_lifecycle [of ?s 7 "Channel_new 5"] by (simp add: Channel_new_def pp_fresh_def)
qed

end
