(* ===== verification/Calendars.thy ===== *)
theory Calendars
  imports Prelude
begin

text \<open>
  Dates and timestamps (\<^verbatim>\<open>base/time/Date.cpp\<close>, \<^verbatim>\<open>base/time/Date.h\<close>, \<^verbatim>\<open>base/time/Timestamp.cpp\<close>,
  \<^verbatim>\<open>base/time/Timestamp.h\<close>).

  A date is a Julian day number; the two conversion routines are closed formulas over C's
  truncating division. The reference is the Gregorian calendar as a successor function on
  year, month and day. The properties: the formula that converts a day number counts
  exactly the days of the calendar, the two formulas are inverse to each other, and the
  formatted time of a timestamp shows the wrong second.
\<close>

section \<open>Date\<close>

record year_month_day =
  ymd_year :: int
  ymd_month :: int
  ymd_day :: int

definition getJulianDayNumber :: "int \<Rightarrow> int \<Rightarrow> int \<Rightarrow> int" where
  "getJulianDayNumber year month day =
     (let a = (14 - month) sdiv 12;
          y = year + 4800 - a;
          m = month + 12 * a - 3
      in day + (153 * m + 2) sdiv 5 + y * 365 + y sdiv 4 - y sdiv 100 + y sdiv 400 - 32045)"

definition getYearMonthDay :: "int \<Rightarrow> year_month_day" where
  "getYearMonthDay julianDayNumber =
     (let a = julianDayNumber + 32044;
          b = (4 * a + 3) sdiv 146097;
          c = a - (b * 146097) sdiv 4;
          d = (4 * c + 3) sdiv 1461;
          e = c - (1461 * d) sdiv 4;
          m = (5 * e + 2) sdiv 153
      in \<lparr>ymd_year = b * 100 + d - 4800 + m sdiv 10,
          ymd_month = m + 3 - 12 * (m sdiv 10),
          ymd_day = e - (153 * m + 2) sdiv 5 + 1\<rparr>)"

definition kJulianDayOf1970_01_01 :: int where
  "kJulianDayOf1970_01_01 = getJulianDayNumber 1970 1 1"

definition kDaysPerWeek :: int where "kDaysPerWeek = 7"

text \<open>\<^verbatim>\<open>Date(const struct tm&)\<close>: years since 1900, months from 0.\<close>

definition Date_tm :: "int \<Rightarrow> int \<Rightarrow> int \<Rightarrow> int" where
  "Date_tm tm_year tm_mon tm_mday = getJulianDayNumber (tm_year + 1900) (tm_mon + 1) tm_mday"

definition date_valid :: "int \<Rightarrow> bool" where
  "date_valid julianDayNumber \<longleftrightarrow> julianDayNumber > 0"

definition weekDay :: "int \<Rightarrow> int" where
  "weekDay julianDayNumber = (julianDayNumber + 1) smod kDaysPerWeek"

text \<open>\<^verbatim>\<open>%0wd\<close> and \<^verbatim>\<open>%wd\<close>; a minus sign counts in the width.\<close>

definition pad0 :: "nat \<Rightarrow> int \<Rightarrow> string" where
  "pad0 w i = (let digits = show_nat (nat \<bar>i\<bar>); sign = (if i < 0 then ''-'' else [])
     in sign @ replicate (w - length sign - length digits) (CHR ''0'') @ digits)"

definition pad :: "nat \<Rightarrow> int \<Rightarrow> string" where
  "pad w i = replicate (w - length (show_int i)) (CHR '' '') @ show_int i"

definition toIsoString :: "int \<Rightarrow> string" where
  "toIsoString julianDayNumber =
     (let ymd = getYearMonthDay julianDayNumber
      in take 31 (pad 4 (ymd_year ymd) @ ''-'' @ pad0 2 (ymd_month ymd) @ ''-'' @ pad0 2 (ymd_day ymd)))"

section \<open>Timestamp\<close>

definition kMicroSecondsPerSecond :: int where "kMicroSecondsPerSecond = 1000 * 1000"

definition invalid_time :: timestamp where "invalid_time = 0"

definition ts_valid :: "timestamp \<Rightarrow> bool" where
  "ts_valid t \<longleftrightarrow> t > 0"

definition secondsSinceEpoch :: "timestamp \<Rightarrow> int" where
  "secondsSinceEpoch t = t sdiv kMicroSecondsPerSecond"

definition fromUnixTime :: "int \<Rightarrow> int \<Rightarrow> timestamp" where
  "fromUnixTime t microseconds = t * kMicroSecondsPerSecond + microseconds"

text \<open>The answer of \<^verbatim>\<open>gettimeofday\<close>.\<close>

definition ts_now :: "int \<times> int \<Rightarrow> timestamp" where
  "ts_now tv = (let seconds = fst tv in seconds * kMicroSecondsPerSecond + snd tv)"

definition ts_toString :: "timestamp \<Rightarrow> string" where
  "ts_toString t =
     (let seconds = t sdiv kMicroSecondsPerSecond; microseconds = t smod kMicroSecondsPerSecond
      in take 30 (show_int seconds @ ''.'' @ pad0 6 microseconds))"

text \<open>Broken-down time (\<^verbatim>\<open>struct tm\<close>).\<close>

record tm =
  tm_sec :: int
  tm_min :: int
  tm_hour :: int
  tm_mday :: int
  tm_mon :: int
  tm_year :: int
  tm_wday :: int
  tm_yday :: int
  tm_isdst :: int
  tm_gmtoff :: int
  tm_zone :: string

text \<open>\<open>gmtime\<close>: \<^verbatim>\<open>gmtime_r\<close>.\<close>

definition toFormattedString :: "(int \<Rightarrow> tm) \<Rightarrow> bool \<Rightarrow> timestamp \<Rightarrow> string" where
  "toFormattedString gmtime showMicroseconds t =
     (let seconds = t smod kMicroSecondsPerSecond;
          tm_time = gmtime seconds;
          time = pad 3 (tm_year tm_time) @ pad0 2 (tm_mon tm_time) @ pad0 2 (tm_mday tm_time) @ '' '' @
                 pad0 2 (tm_hour tm_time) @ '':'' @ pad0 2 (tm_min tm_time) @ '':'' @ pad0 2 (tm_sec tm_time)
      in if showMicroseconds
         then let microseconds = t smod kMicroSecondsPerSecond in take 63 (time @ ''.'' @ pad0 6 microseconds)
         else take 63 time)"

section \<open>The calendar\<close>

definition leap :: "int \<Rightarrow> bool" where
  "leap y \<longleftrightarrow> y mod 4 = 0 \<and> (y mod 100 \<noteq> 0 \<or> y mod 400 = 0)"

definition days_in_month :: "int \<Rightarrow> int \<Rightarrow> int" where
  "days_in_month y m = (if m = 2 then if leap y then 29 else 28 else if m \<in> {4, 6, 9, 11} then 30 else 31)"

definition calendar_date :: "year_month_day \<Rightarrow> bool" where
  "calendar_date d \<longleftrightarrow> 1 \<le> ymd_month d \<and> ymd_month d \<le> 12 \<and> 1 \<le> ymd_day d \<and> ymd_day d \<le> days_in_month (ymd_year d) (ymd_month d)"

definition next_day :: "year_month_day \<Rightarrow> year_month_day" where
  "next_day d =
     (if ymd_day d < days_in_month (ymd_year d) (ymd_month d) then d\<lparr>ymd_day := ymd_day d + 1\<rparr>
      else if ymd_month d < 12 then d\<lparr>ymd_month := ymd_month d + 1, ymd_day := 1\<rparr>
      else \<lparr>ymd_year = ymd_year d + 1, ymd_month = 1, ymd_day = 1\<rparr>)"

definition jdn_of :: "year_month_day \<Rightarrow> int" where
  "jdn_of d = getJulianDayNumber (ymd_year d) (ymd_month d) (ymd_day d)"

text \<open>The year counted from March: leap days come last.\<close>

definition year_days :: "int \<Rightarrow> int" where
  "year_days y = y * 365 + y div 4 - y div 100 + y div 400"

definition march_day :: "int \<Rightarrow> int" where
  "march_day m = (153 * m + 2) div 5"

lemma sdiv_nonneg: "0 \<le> (a::int) \<Longrightarrow> 0 < b \<Longrightarrow> a sdiv b = a div b"
  by (cases "a = 0") (simp_all add: signed_divide_int_def)

lemma smod_nonneg: "0 \<le> (a::int) \<Longrightarrow> 0 < b \<Longrightarrow> a smod b = a mod b"
  by (cases "a = 0") (simp_all add: signed_modulo_int_def)

lemma jdn_march:
  assumes "1 \<le> m" and "m \<le> 12" and "- 4800 < y"
  shows "getJulianDayNumber y m d =
    (if m \<le> 2 then year_days (y + 4799) + march_day (m + 9) else year_days (y + 4800) + march_day (m - 3)) + d - 32045"
proof -
  have "(14 - m) sdiv 12 = (14 - m) div 12" using assms by (intro sdiv_nonneg) auto
  moreover have "(14 - m) div 12 = (if m \<le> 2 then 1 else 0)" using assms by auto
  ultimately show ?thesis using assms
    by (auto simp: getJulianDayNumber_def Let_def sdiv_nonneg year_days_def march_day_def add.commute)
qed

lemma div_mod_succ:
  assumes "0 < (k::int)"
  shows "(y + 1) div k = y div k + (if (y + 1) mod k = 0 then 1 else 0)"
proof -
  have y: "y = k * (y div k) + y mod k" by simp
  have r: "0 \<le> y mod k" "y mod k < k" using assms by simp_all
  show ?thesis
  proof (cases "y mod k + 1 = k")
    case True
    with y have "y + 1 = k * (y div k) + k" by linarith
    then have e: "y + 1 = k * (y div k + 1) + 0" by (simp add: distrib_left)
    from int_div_pos_eq [OF e] int_mod_pos_eq [OF e] assms show ?thesis by simp
  next
    case False
    with y r have e: "y + 1 = k * (y div k) + (y mod k + 1)" and b: "y mod k + 1 < k" by linarith+
    from int_div_pos_eq [OF e _ b] int_mod_pos_eq [OF e _ b] r show ?thesis by simp
  qed
qed

lemma year_days_next: "year_days (y + 1) = year_days y + (if leap (y + 1) then 366 else 365)"
proof -
  have "(y + 1) mod 400 = 0 \<Longrightarrow> (y + 1) mod 100 = 0" using mod_mod_cancel [of 100 400 "y + 1"] by simp
  moreover have "(y + 1) mod 100 = 0 \<Longrightarrow> (y + 1) mod 4 = 0" using mod_mod_cancel [of 4 100 "y + 1"] by simp
  ultimately show ?thesis unfolding year_days_def leap_def
    div_mod_succ [of 4 y, simplified] div_mod_succ [of 100 y, simplified] div_mod_succ [of 400 y, simplified]
    by (cases "(y + 1) mod 4 = 0"; cases "(y + 1) mod 100 = 0"; cases "(y + 1) mod 400 = 0") simp_all
qed

text \<open>The lengths of the months, counted from March.\<close>

lemma march_day_next:
  assumes "0 \<le> m" and "m < 11"
  shows "march_day (m + 1) = march_day m + (if m \<in> {1, 3, 6, 8} then 30 else 31)"
proof -
  have "m = 0 \<or> m = 1 \<or> m = 2 \<or> m = 3 \<or> m = 4 \<or> m = 5 \<or> m = 6 \<or> m = 7 \<or> m = 8 \<or> m = 9 \<or> m = 10"
    using assms by arith
  then show ?thesis by (elim disjE) (simp_all add: march_day_def)
qed

lemma leap_shift: "leap (y + 4800) = leap y"
proof -
  have "(y + 4800) mod 4 = y mod 4" "(y + 4800) mod 100 = y mod 100" "(y + 4800) mod 400 = y mod 400"
    by (simp_all add: mod_add_right_eq [symmetric, of y 4800])
  then show ?thesis by (simp add: leap_def)
qed

lemma jdn_next_day:
  assumes d: "calendar_date d" and y: "- 4800 < ymd_year d"
  shows "jdn_of (next_day d) = jdn_of d + 1" "calendar_date (next_day d)" "- 4800 < ymd_year (next_day d)"
proof -
  let ?y = "ymd_year d" and ?m = "ymd_month d"
  have m: "1 \<le> ?m" "?m \<le> 12" using d by (simp_all add: calendar_date_def)
  have last: "ymd_day d = days_in_month ?y ?m" if "\<not> ymd_day d < days_in_month ?y ?m"
    using that d by (simp add: calendar_date_def)
  show "- 4800 < ymd_year (next_day d)" using y by (simp add: next_day_def)
  show "calendar_date (next_day d)" using d m by (auto simp: next_day_def calendar_date_def days_in_month_def)
  have feb: "year_days (?y + 4800) = year_days (?y + 4799) + (if leap ?y then 366 else 365)"
    using year_days_next [of "?y + 4799"] leap_shift [of ?y] by (simp add: add.assoc)
  have months: "?m = 1 \<or> ?m = 2 \<or> ?m = 3 \<or> ?m = 4 \<or> ?m = 5 \<or> ?m = 6 \<or> ?m = 7 \<or> ?m = 8 \<or> ?m = 9 \<or> ?m = 10 \<or> ?m = 11 \<or> ?m = 12"
    using m by arith
  show "jdn_of (next_day d) = jdn_of d + 1"
  proof (cases "ymd_day d < days_in_month ?y ?m")
    case True
    with m y show ?thesis by (simp add: next_day_def jdn_of_def jdn_march)
  next
    case False
    note last [OF False]
    with months y feb show ?thesis
      by (elim disjE) (simp_all add: next_day_def jdn_of_def jdn_march days_in_month_def march_day_def add.commute)
  qed
qed

section \<open>The inverse formula\<close>

lemma march_month:
  fixes m d :: int
  assumes "0 \<le> m" and "m \<le> 11" and "1 \<le> d" and "d \<le> (if m = 11 then 29 else if m \<in> {1, 3, 6, 8} then 30 else 31)"
  shows "(5 * (march_day m + d - 1) + 2) div 153 = m" "0 \<le> march_day m + d - 1" "march_day m + d - 1 \<le> 365"
    "march_day m + d - 1 = 365 \<Longrightarrow> m = 11 \<and> d = 29"
proof -
  have "m = 0 \<or> m = 1 \<or> m = 2 \<or> m = 3 \<or> m = 4 \<or> m = 5 \<or> m = 6 \<or> m = 7 \<or> m = 8 \<or> m = 9 \<or> m = 10 \<or> m = 11"
    using assms(1,2) by arith
  then show "(5 * (march_day m + d - 1) + 2) div 153 = m" "0 \<le> march_day m + d - 1" "march_day m + d - 1 \<le> 365"
    "march_day m + d - 1 = 365 \<Longrightarrow> m = 11 \<and> d = 29"
    using assms(3,4) by (elim disjE; simp add: march_day_def; presburger?)+
qed

text \<open>A day count is split into centuries, years and the day of the year (counted from March).\<close>

lemma succ_mod_4: "(n + 1) mod 4 = 0 \<Longrightarrow> n mod 4 = (3::int)"
  by presburger

lemma quarters: "a - q = c \<Longrightarrow> b = 4 * q + m \<Longrightarrow> 4 * a + 3 = b + (4 * c + 3 - m)" for a b c q m :: int
  by simp

lemma quarters_bound:
  "c \<le> 36523 + (if m = 3 then 1 else 0) \<Longrightarrow> 0 \<le> m \<Longrightarrow> m \<le> 3 \<Longrightarrow> 0 \<le> c \<Longrightarrow> 0 \<le> 4 * c + 3 - m \<and> 4 * c + 3 - m < 146097"
  for c m :: int
  by (simp split: if_splits)

lemma century_split:
  fixes y e :: int
  assumes y: "0 \<le> y" and e: "0 \<le> e" "e \<le> 365" "e = 365 \<Longrightarrow> leap (y + 1)"
  defines "a \<equiv> year_days y + e"
  shows "(4 * a + 3) div 146097 = y div 100"
    and "a - (146097 * (y div 100)) div 4 = 365 * (y mod 100) + (y mod 100) div 4 + e"
proof -
  let ?b = "y div 100" and ?r = "y mod 100"
  have split: "y = 100 * ?b + ?r" and r: "0 \<le> ?r" "?r \<le> 99" and b: "0 \<le> ?b" using y by (simp_all add: pos_imp_zdiv_nonneg_iff)
  have q4: "y div 4 = 25 * ?b + ?r div 4"
  proof -
    have "y = 4 * (25 * ?b + q) + m" if "?r = 4 * q + m" for q m :: int using split that by (simp add: distrib_left)
    from int_div_pos_eq [OF this [OF mult_div_mod_eq [of 4 ?r, symmetric]]] show ?thesis by simp
  qed
  have q400: "y div 400 = ?b div 4" using zdiv_zmult2_eq [of 4 y 100] by simp
  have c4: "146097 * ?b = 4 * ((146097 * ?b) div 4) + ?b mod 4"
  proof -
    have "(146097 * ?b) mod 4 = ?b mod 4" using mod_mult_left_eq [of 146097 4 ?b] by simp
    then show ?thesis using mult_div_mod_eq [of 4 "146097 * ?b"] by simp
  qed
  have c4': "(146097 * ?b) div 4 = 36524 * ?b + ?b div 4"
    using c4 mult_div_mod_eq [of 4 ?b] by linarith
  show c: "a - (146097 * ?b) div 4 = 365 * ?r + ?r div 4 + e"
    unfolding a_def year_days_def c4' q4 q400 using split by linarith
  have top: "365 * ?r + ?r div 4 + e \<le> 36523 + (if ?b mod 4 = 3 then 1 else 0)"
  proof (cases "e = 365 \<and> ?r = 99")
    case True
    define k where "k = ?b + 1"
    then have k: "k = ?b + 1" "y + 1 = 100 * k" using True split by (simp, linarith)
    have "(y + 1) mod 100 = 0" by (simp only: k(2)) simp
    with e(3) True have "(y + 1) mod 400 = 0" by (simp add: leap_def)
    with k(2) have "(100 * k) mod (100 * 4) = 0" by simp
    then have "k mod 4 = 0" using mult_mod_right [of 100 k 4] by linarith
    with k(1) have "(?b + 1) mod 4 = 0" by (simp only:)
    then have "?b mod 4 = 3" by (rule succ_mod_4)
    with True show ?thesis by simp
  next
    case False
    with e r show ?thesis by (cases "?r = 99") auto
  qed
  have bm: "0 \<le> ?b mod 4" "?b mod 4 \<le> 3" by simp_all
  have parts: "4 * a + 3 = 146097 * ?b + (4 * (365 * ?r + ?r div 4 + e) + 3 - ?b mod 4)" by (rule quarters [OF c c4])
  have "0 \<le> 365 * ?r + ?r div 4 + e" using r e by simp
  note remainder = quarters_bound [OF top bm this]
  show "(4 * a + 3) div 146097 = ?b"
    by (rule int_div_pos_eq [OF parts conjunct1 [OF remainder] conjunct2 [OF remainder]])
qed

lemma year_split:
  fixes r e :: int
  assumes r: "0 \<le> r" and e: "0 \<le> e" "e \<le> 365" "e = 365 \<Longrightarrow> r mod 4 = 3"
  defines "c \<equiv> 365 * r + r div 4 + e"
  shows "(4 * c + 3) div 1461 = r" and "c - (1461 * r) div 4 = e"
proof -
  have r4: "r = 4 * (r div 4) + r mod 4" "0 \<le> r mod 4" "r mod 4 \<le> 3" by simp_all
  have "(1461 * r) mod 4 = r mod 4" using mod_mult_left_eq [of 1461 4 r] by simp
  then have d4: "1461 * r = 4 * ((1461 * r) div 4) + r mod 4" using mult_div_mod_eq [of 4 "1461 * r"] by simp
  show "c - (1461 * r) div 4 = e" unfolding c_def using d4 r4 by linarith
  have "4 * (365 * r + q + e) + 3 = 1461 * r + (4 * e + 3 - m)" if "r = 4 * q + m" for q m :: int using that by (simp add: distrib_left)
  from this [OF r4(1)] have "4 * c + 3 = 1461 * r + (4 * e + 3 - r mod 4)" by (simp only: c_def)
  moreover have "4 * e + 3 - r mod 4 < 1461" using e r4 by (cases "e = 365") auto
  moreover have "0 \<le> 4 * e + 3 - r mod 4" using e r4 by linarith
  ultimately show "(4 * c + 3) div 1461 = r" by (intro int_div_pos_eq)
qed

lemma ymd_march:
  assumes y: "0 \<le> y" and m: "0 \<le> m" "m \<le> 11" "1 \<le> d"
    and d: "d \<le> (if m = 11 then if leap (y + 1) then 29 else 28 else if m \<in> {1, 3, 6, 8} then 30 else 31)"
  shows "getYearMonthDay (year_days y + march_day m + d - 32045) =
    \<lparr>ymd_year = y - 4800 + m div 10, ymd_month = m + 3 - 12 * (m div 10), ymd_day = d\<rparr>"
proof -
  let ?e = "march_day m + d - 1" and ?r = "y mod 100"
  have "d \<le> (if m = 11 then 29 else if m \<in> {1, 3, 6, 8} then 30 else 31)" using d by (auto split: if_splits)
  note e = march_month [OF m this]
  have lp: "?e = 365 \<Longrightarrow> leap (y + 1)" using e(4) d by (auto split: if_splits)
  have r: "0 \<le> ?r" by simp
  have r4: "?e = 365 \<Longrightarrow> ?r mod 4 = 3"
  proof -
    assume "?e = 365"
    then have "(y + 1) mod 4 = 0" using lp by (simp add: leap_def)
    then have "y mod 4 = 3" by presburger
    then show "?r mod 4 = 3" by (simp add: mod_mod_cancel)
  qed
  have c: "(4 * (year_days y + ?e) + 3) div 146097 = y div 100"
      "year_days y + ?e - (146097 * (y div 100)) div 4 = 365 * ?r + ?r div 4 + ?e"
    by (rule century_split [OF y e(2,3)], erule lp)+
  have s: "(4 * (365 * ?r + ?r div 4 + ?e) + 3) div 1461 = ?r"
      "365 * ?r + ?r div 4 + ?e - (1461 * ?r) div 4 = ?e"
    by (rule year_split [OF r e(2,3)], erule r4)+
  have "100 * (y div 100) \<le> y" "0 \<le> y div 4" "0 \<le> y div 400" "0 \<le> y div 100"
    using y by (simp_all add: pos_imp_zdiv_nonneg_iff)
  then have nonneg: "0 \<le> year_days y" unfolding year_days_def using y by linarith
  have a: "year_days y + march_day m + d - 32045 + 32044 = year_days y + ?e" by simp
  have nn: "0 \<le> 4 * (year_days y + ?e) + 3" "0 \<le> 146097 * (y div 100)" "0 \<le> 4 * (365 * ?r + ?r div 4 + ?e) + 3"
    "0 \<le> 1461 * ?r" "0 \<le> 5 * ?e + 2" "0 \<le> 153 * m + 2"
    using nonneg e(2) m(1) y by (simp_all add: pos_imp_zdiv_nonneg_iff)
  have b: "(4 * (year_days y + ?e) + 3) sdiv 146097 = y div 100" using sdiv_nonneg [OF nn(1), of 146097] c(1) by simp
  have b4: "(y div 100 * 146097) sdiv 4 = (146097 * (y div 100)) div 4"
    using nn(2) by (simp only: mult.commute [of "y div 100"]) (rule sdiv_nonneg, simp_all)
  have d': "(4 * (365 * ?r + ?r div 4 + ?e) + 3) sdiv 1461 = ?r" using sdiv_nonneg [OF nn(3), of 1461] s(1) by simp
  have r4': "(1461 * ?r) sdiv 4 = (1461 * ?r) div 4" by (rule sdiv_nonneg [OF nn(4)]) simp
  have m': "(5 * ?e + 2) sdiv 153 = m" using sdiv_nonneg [OF nn(5), of 153] e(1) by simp
  have m5: "(153 * m + 2) sdiv 5 = march_day m" using sdiv_nonneg [OF nn(6), of 5] by (simp add: march_day_def)
  have m10: "m sdiv 10 = m div 10" by (rule sdiv_nonneg [OF m(1)]) simp
  have y100: "y div 100 * 100 + ?r = y" by simp
  show ?thesis unfolding getYearMonthDay_def Let_def a b b4 c(2) d' r4' s(2) m' m5 m10 y100 by simp
qed

lemma ymd_of_jdn:
  assumes d: "calendar_date d" and y: "- 4800 < ymd_year d"
  shows "getYearMonthDay (jdn_of d) = d"
proof -
  let ?m = "if ymd_month d \<le> 2 then ymd_month d + 9 else ymd_month d - 3"
  let ?y = "if ymd_month d \<le> 2 then ymd_year d + 4799 else ymd_year d + 4800"
  have m: "1 \<le> ymd_month d" "ymd_month d \<le> 12" and day: "1 \<le> ymd_day d" using d by (simp_all add: calendar_date_def)
  have jdn: "jdn_of d = year_days ?y + march_day ?m + ymd_day d - 32045"
    using m y by (simp add: jdn_of_def jdn_march)
  have lim: "ymd_day d \<le> (if ?m = 11 then if leap (?y + 1) then 29 else 28 else if ?m \<in> {1, 3, 6, 8} then 30 else 31)"
    using d m leap_shift [of "ymd_year d"] by (auto simp: calendar_date_def days_in_month_def add.assoc split: if_splits)
  have m10: "?m div 10 = (if ymd_month d \<le> 2 then 1 else 0)"
  proof -
    have "?m = 10 \<or> ?m = 11" if "ymd_month d \<le> 2" using m that by auto
    then show ?thesis using m by auto
  qed
  have "getYearMonthDay (jdn_of d) = \<lparr>ymd_year = ?y - 4800 + ?m div 10, ymd_month = ?m + 3 - 12 * (?m div 10), ymd_day = ymd_day d\<rparr>"
    unfolding jdn by (rule ymd_march [OF _ _ _ day lim]) (use m y in auto)
  then show ?thesis unfolding m10 by (cases "ymd_month d \<le> 2") simp_all
qed

section \<open>Properties\<close>

text \<open>The first day the numbers count.\<close>

definition day_zero :: year_month_day where
  "day_zero = \<lparr>ymd_year = - 4713, ymd_month = 11, ymd_day = 24\<rparr>"

lemma day_n:
  "calendar_date ((next_day ^^ n) day_zero) \<and> - 4800 < ymd_year ((next_day ^^ n) day_zero) \<and> jdn_of ((next_day ^^ n) day_zero) = int n"
proof (induction n)
  case 0
  show ?case by (simp add: day_zero_def calendar_date_def days_in_month_def jdn_of_def jdn_march year_days_def march_day_def)
next
  case (Suc n)
  then show ?case using jdn_next_day [of "(next_day ^^ n) day_zero"] by simp
qed


text \<open>The two formulas are inverse to each other: a date of the calendar (after 4800 BC) is
  recovered from its number, and a number (from 0) from its date.\<close>

theorem julian_day_round_trip:
  assumes "calendar_date d" and "- 4800 < ymd_year d" and "0 \<le> j"
  shows "getYearMonthDay (getJulianDayNumber (ymd_year d) (ymd_month d) (ymd_day d)) = d \<and>
    (let e = getYearMonthDay j in calendar_date e \<and> getJulianDayNumber (ymd_year e) (ymd_month e) (ymd_day e) = j)"
proof -
  have "getYearMonthDay j = (next_day ^^ nat j) day_zero"
    using ymd_of_jdn [of "(next_day ^^ nat j) day_zero"] day_n [of "nat j"] assms(3) by simp
  with day_n [of "nat j"] ymd_of_jdn [OF assms(1,2)] assms(3) show ?thesis by (simp add: jdn_of_def Let_def)
qed

theorem julian_day_round_trip_witness:
  "getYearMonthDay (getJulianDayNumber 2000 2 29) = \<lparr>ymd_year = 2000, ymd_month = 2, ymd_day = 29\<rparr>"
  using julian_day_round_trip [of "\<lparr>ymd_year = 2000, ymd_month = 2, ymd_day = 29\<rparr>" 0]
  by (simp add: calendar_date_def days_in_month_def leap_def)

text \<open>No intermediate result leaves 32 bits for the years the interface promises, and far beyond.\<close>

lemma jdn_no_overflow:
  assumes "- 4800 < y" and "y \<le> 1000000" and "1 \<le> m" and "m \<le> 12"
  shows "\<bar>year_days (y + 4800)\<bar> + 153 * 12 + 32045 + 31 < 2 ^ 31"
proof -
  have "0 \<le> (y + 4800) div k" "(y + 4800) div k \<le> y + 4800" if "1 \<le> k" for k :: int
    using assms(1) that zdiv_mono2 [of "y + 4800" 1 k] by (simp_all add: pos_imp_zdiv_nonneg_iff)
  from this [of 4] this [of 100] this [of 400] assms show ?thesis by (simp add: year_days_def)
qed

text \<open>The formatted time of a timestamp is computed from its microseconds alone: two times
  that are any number of seconds apart are shown as the same time.\<close>

theorem formatted_time_ignores_seconds:
  assumes "0 \<le> t" and "0 \<le> k"
  shows "toFormattedString gmtime b (t + k * kMicroSecondsPerSecond) = toFormattedString gmtime b t"
proof -
  have "(t + k * kMicroSecondsPerSecond) smod kMicroSecondsPerSecond = t smod kMicroSecondsPerSecond"
    using assms by (simp add: kMicroSecondsPerSecond_def smod_nonneg)
  then show ?thesis by (simp only: toFormattedString_def)
qed

theorem formatted_time_ignores_seconds_witness:
  "\<forall>gmtime. toFormattedString gmtime True (5 + 3600 * kMicroSecondsPerSecond) = toFormattedString gmtime True 5"
  using formatted_time_ignores_seconds [of 5 3600 _ True] by simp

end
