(* ===== verification/Timers.thy ===== *)
theory Timers
  imports StdMap Calendars "HOL-Library.Product_Lexorder"
begin

text \<open>
  Timers (\<^verbatim>\<open>netLayer/timer/Timer.h\<close>, \<^verbatim>\<open>Timer.cpp\<close>, \<^verbatim>\<open>TimerQueue.cpp\<close>). A timer object has
  an address (a \<open>nat\<close>) in a heap; \<^verbatim>\<open>timers_\<close> orders the pending ones by expiration and
  address, \<^verbatim>\<open>activeTimers_\<close> by address and sequence number. A callback is a list of the
  operations it performs on the queue, given by the parameter \<open>body\<close>; the allocator is a
  parameter too. Times are integers (microseconds); the product of an interval in
  seconds and a million, truncated, is given as the interval, and the sum of a time and an
  interval, which the code takes in \<^verbatim>\<open>double\<close>, is exact (it is below \<open>2 ^ 53\<close>). The properties: the two
  sets stay in step and no assertion ever fails, whatever the callbacks add and cancel;
  the timer descriptor is always armed early enough; a run executes exactly the expired
  timers in order and reschedules exactly the repeating ones not cancelled meanwhile.
\<close>

section \<open>Timer\<close>

record timer =
  t_callback :: nat
  t_expiration :: timestamp
  t_interval :: nat      \<comment> \<open>microseconds; unused when not repeating\<close>
  t_repeat :: bool       \<comment> \<open>\<^verbatim>\<open>interval > 0.0\<close>\<close>
  t_sequence :: int

definition addTime :: "timestamp \<Rightarrow> int \<Rightarrow> timestamp" where
  "addTime t delta = t + delta"

definition restart :: "timestamp \<Rightarrow> timer \<Rightarrow> timer" where
  "restart now t =
     t\<lparr>t_expiration := (if t_repeat t then addTime now (int (t_interval t)) else invalid_time)\<rparr>"

section \<open>TimerQueue\<close>

type_synonym 'k std_set = "('k, unit) std_map"

record tqueue =
  t_heap :: "nat \<Rightarrow> timer option"
  timers :: "(timestamp \<times> nat) std_set"
  activeTimers :: "(nat \<times> int) std_set"
  callingExpiredTimers :: bool
  cancelingTimers :: "(nat \<times> int) std_set"
  numCreated :: int
  armed :: "(timestamp \<times> int \<times> int) option"   \<comment> \<open>last \<^verbatim>\<open>resetTimerfd\<close>: for when, and the \<^verbatim>\<open>timespec\<close>\<close>

definition UINTPTR_MAX :: nat where "UINTPTR_MAX = 2 ^ 64 - 1"

definition TimerQueue_new :: tqueue where
  "TimerQueue_new = \<lparr>t_heap = (\<lambda>_. None), timers = [], activeTimers = [], callingExpiredTimers = False,
     cancelingTimers = [], numCreated = 0, armed = None\<rparr>"

definition howMuchTimeFromNow :: "timestamp \<Rightarrow> timestamp \<Rightarrow> int \<times> int" where
  "howMuchTimeFromNow now when =
     (let microseconds = max 100 (when - now)
      in (microseconds div kMicroSecondsPerSecond, (microseconds mod kMicroSecondsPerSecond) * 1000))"

text \<open>\<^verbatim>\<open>resetTimerfd\<close>: the interval of the descriptor is its first delay; \<open>clk\<close> is the clock.\<close>

definition resetTimerfd :: "timestamp \<Rightarrow> timestamp \<Rightarrow> tqueue \<Rightarrow> tqueue" where
  "resetTimerfd clk expiration s = s\<lparr>armed := Some (expiration, howMuchTimeFromNow clk expiration)\<rparr>"

definition same_sizes :: "tqueue \<Rightarrow> bool" where
  "same_sizes s \<longleftrightarrow> length (timers s) = length (activeTimers s)"

definition t_deref :: "tqueue \<Rightarrow> nat \<Rightarrow> (timer \<Rightarrow> 'a res) \<Rightarrow> 'a res" where
  "t_deref s p k = (case t_heap s p of None \<Rightarrow> Inl (Undefined ''dangling timer'') | Some t \<Rightarrow> k t)"

definition tq_insert :: "nat \<Rightarrow> tqueue \<Rightarrow> (bool \<times> tqueue) res" where
  "tq_insert p s =
     ensure (same_sizes s) ''timers_.size() == activeTimers_.size()''
       (t_deref s p (\<lambda>t.
         let when = t_expiration t;
             earliestChanged = (case timers s of [] \<Rightarrow> True | (e, _) # _ \<Rightarrow> when < fst e)
         in ensure (map_find (when, p) (timers s) = None) ''result.second''
              (let s1 = s\<lparr>timers := map_set (when, p) () (timers s)\<rparr>
               in ensure (map_find (p, t_sequence t) (activeTimers s) = None) ''result.second''
                    (let s2 = s1\<lparr>activeTimers := map_set (p, t_sequence t) () (activeTimers s)\<rparr>
                     in ensure (same_sizes s2) ''timers_.size() == activeTimers_.size()''
                          (Inr (earliestChanged, s2))))))"

definition addTimerInLoop :: "timestamp \<Rightarrow> nat \<Rightarrow> tqueue \<Rightarrow> tqueue res" where
  "addTimerInLoop clk p s =
     bind_r (tq_insert p s) (\<lambda>(earliestChanged, s').
       if earliestChanged then t_deref s' p (\<lambda>t. Inr (resetTimerfd clk (t_expiration t) s')) else Inr s')"

definition cancelInLoop :: "nat \<times> int \<Rightarrow> tqueue \<Rightarrow> tqueue res" where
  "cancelInLoop timerId s =
     ensure (same_sizes s) ''timers_.size() == activeTimers_.size()''
       (bind_r
         (if map_find timerId (activeTimers s) \<noteq> None
          then t_deref s (fst timerId) (\<lambda>t.
            ensure (map_find (t_expiration t, fst timerId) (timers s) \<noteq> None) ''n == 1''
              (Inr (s\<lparr>timers := map_erase (t_expiration t, fst timerId) (timers s),
                      t_heap := (t_heap s)(fst timerId := None),
                      activeTimers := map_erase timerId (activeTimers s)\<rparr>)))
          else if callingExpiredTimers s
          then Inr (s\<lparr>cancelingTimers := map_set timerId () (cancelingTimers s)\<rparr>)
          else Inr s)
         (\<lambda>s'. ensure (same_sizes s') ''timers_.size() == activeTimers_.size()'' (Inr s')))"

text \<open>
  \<^verbatim>\<open>addTimer\<close> called in the loop's thread: \<^verbatim>\<open>new Timer\<close> at the address \<open>alloc\<close> finds, if any.
\<close>

type_synonym allocator = "(nat \<Rightarrow> timer option) \<Rightarrow> nat option"

definition addTimer :: "allocator \<Rightarrow> timestamp \<Rightarrow> nat \<Rightarrow> timestamp \<Rightarrow> nat \<Rightarrow> bool \<Rightarrow>
    tqueue \<Rightarrow> ((nat \<times> int) \<times> tqueue) res" where
  "addTimer alloc clk cb when interval rpt s =
     (case alloc (t_heap s) of
        None \<Rightarrow> Inl (Throws ''bad_alloc'')
      | Some p \<Rightarrow>
          (let sq = numCreated s + 1;
               s1 = s\<lparr>t_heap := (t_heap s)(p := Some \<lparr>t_callback = cb, t_expiration = when,
                                 t_interval = interval, t_repeat = rpt, t_sequence = sq\<rparr>),
                      numCreated := sq\<rparr>
           in bind_r (addTimerInLoop clk p s1) (\<lambda>s2. Inr ((p, sq), s2))))"

text \<open>What a callback does to the queue.\<close>

datatype timer_op =
    AddTimer nat timestamp nat bool     \<comment> \<open>callback, when, interval, repeat\<close>
  | CancelTimer "nat \<times> int"

fun do_timer_op :: "allocator \<Rightarrow> timestamp \<Rightarrow> timer_op \<Rightarrow> tqueue \<Rightarrow> tqueue res" where
  "do_timer_op alloc clk (AddTimer cb when interval rpt) s =
     bind_r (addTimer alloc clk cb when interval rpt s) (\<lambda>(_, s'). Inr s')"
| "do_timer_op alloc clk (CancelTimer timerId) s = cancelInLoop timerId s"

definition getExpired :: "timestamp \<Rightarrow> tqueue \<Rightarrow> ((timestamp \<times> nat) list \<times> tqueue) res" where
  "getExpired now s =
     ensure (same_sizes s) ''timers_.size() == activeTimers_.size()''
       (let sentry = (now, UINTPTR_MAX);
            front = takeWhile (\<lambda>(k, _). k < sentry) (timers s);
            rest = dropWhile (\<lambda>(k, _). k < sentry) (timers s);
            expired = map fst front
        in ensure (case rest of [] \<Rightarrow> True | (k, _) # _ \<Rightarrow> now < fst k) ''end == timers_.end() || now < end->first''
          (bind_r
            (fold_r (\<lambda>(_, p) s. t_deref s p (\<lambda>t.
               ensure (map_find (p, t_sequence t) (activeTimers s) \<noteq> None) ''n == 1''
                 (Inr (s\<lparr>activeTimers := map_erase (p, t_sequence t) (activeTimers s)\<rparr>))))
              expired (s\<lparr>timers := rest\<rparr>))
            (\<lambda>s'. ensure (same_sizes s') ''timers_.size() == activeTimers_.size()'' (Inr (expired, s')))))"

definition reset_one :: "timestamp \<Rightarrow> timestamp \<times> nat \<Rightarrow> tqueue \<Rightarrow> tqueue res" where
  "reset_one now entry s =
     t_deref s (snd entry) (\<lambda>t.
       if t_repeat t \<and> map_find (snd entry, t_sequence t) (cancelingTimers s) = None
       then bind_r (tq_insert (snd entry) (s\<lparr>t_heap := (t_heap s)(snd entry := Some (restart now t))\<rparr>))
              (\<lambda>(_, s'). Inr s')
       else Inr (s\<lparr>t_heap := (t_heap s)(snd entry := None)\<rparr>))"

definition tq_reset :: "timestamp \<Rightarrow> timestamp \<Rightarrow> (timestamp \<times> nat) list \<Rightarrow> tqueue \<Rightarrow> tqueue res" where
  "tq_reset clk now expired s =
     bind_r (fold_r (reset_one now) expired s) (\<lambda>s'.
       case timers s' of
         [] \<Rightarrow> Inr s'
       | (k, _) # _ \<Rightarrow> t_deref s' (snd k) (\<lambda>t.
           Inr (if ts_valid (t_expiration t) then resetTimerfd clk (t_expiration t) s' else s')))"

definition run_timer :: "allocator \<Rightarrow> (nat \<Rightarrow> timer_op list) \<Rightarrow> timestamp \<Rightarrow>
    timestamp \<times> nat \<Rightarrow> tqueue \<times> nat list \<Rightarrow> (tqueue \<times> nat list) res" where
  "run_timer alloc body clk entry = (\<lambda>(s, hist).
     t_deref s (snd entry) (\<lambda>t.
       bind_r (fold_r (do_timer_op alloc clk) (body (t_callback t)) s) (\<lambda>s'. Inr (s', hist @ [snd entry]))))"

text \<open>\<^verbatim>\<open>handleRead\<close>: the timers that ran are returned with the new state.\<close>

definition tq_handleRead :: "allocator \<Rightarrow> (nat \<Rightarrow> timer_op list) \<Rightarrow> timestamp \<Rightarrow> timestamp \<Rightarrow>
    tqueue \<Rightarrow> (nat list \<times> tqueue) res" where
  "tq_handleRead alloc body clk now s =
     bind_r (getExpired now s) (\<lambda>(expired, s1).
       bind_r (fold_r (run_timer alloc body clk) expired
                 (s1\<lparr>callingExpiredTimers := True, cancelingTimers := []\<rparr>, []))
         (\<lambda>(s2, hist). bind_r (tq_reset clk now expired (s2\<lparr>callingExpiredTimers := False\<rparr>))
           (\<lambda>s3. Inr (hist, s3))))"

text \<open>\<^verbatim>\<open>~TimerQueue\<close> deletes the pending timers.\<close>

definition TimerQueue_destroy :: "tqueue \<Rightarrow> tqueue" where
  "TimerQueue_destroy s = s\<lparr>t_heap := fold (\<lambda>((_, p), _) h. h(p := None)) (timers s) (t_heap s)\<rparr>"

section \<open>Invariant\<close>

definition t_keys :: "'k std_set \<Rightarrow> 'k set" where
  "t_keys m = fst ` set m"

text \<open>
  The pending timers: those of \<^verbatim>\<open>activeTimers_\<close>, each alive with its sequence number, are
  exactly those of \<^verbatim>\<open>timers_\<close>, under their expirations. \<open>E\<close> are expired timers being
  handled: alive and not pending.
\<close>

definition tq_inv :: "nat set \<Rightarrow> tqueue \<Rightarrow> bool" where
  "tq_inv E s \<longleftrightarrow> map_ok (timers s) \<and> map_ok (activeTimers s) \<and> map_ok (cancelingTimers s) \<and>
     (\<forall>p. t_heap s p \<noteq> None \<longrightarrow> p < UINTPTR_MAX) \<and>
     (\<forall>p q. (p, q) \<in> t_keys (activeTimers s) \<longrightarrow> p \<notin> E \<and> (\<exists>t. t_heap s p = Some t \<and> t_sequence t = q)) \<and>
     (\<forall>e p. (e, p) \<in> t_keys (timers s) \<longleftrightarrow>
        (\<exists>t. t_heap s p = Some t \<and> t_expiration t = e \<and> (p, t_sequence t) \<in> t_keys (activeTimers s))) \<and>
     (\<forall>p \<in> E. t_heap s p \<noteq> None)"

text \<open>The descriptor is armed for a time no later than \<open>e\<close>.\<close>

definition armed_by :: "tqueue \<Rightarrow> timestamp \<Rightarrow> bool" where
  "armed_by s e \<longleftrightarrow> (\<exists>a. map_option fst (armed s) = Some a \<and> a \<le> e)"

definition armed_early :: "tqueue \<Rightarrow> bool" where
  "armed_early s \<longleftrightarrow> (\<forall>e p. (e, p) \<in> t_keys (timers s) \<longrightarrow> armed_by s e)"

definition alloc_ok :: "allocator \<Rightarrow> bool" where
  "alloc_ok alloc \<longleftrightarrow> (\<forall>h p. alloc h = Some p \<longrightarrow> h p = None \<and> p < UINTPTR_MAX)"

lemma t_keys_set [simp]: "t_keys (map_set k v m) = insert k (t_keys m)"
  by (simp add: t_keys_def)

lemma t_keys_erase [simp]: "map_ok m \<Longrightarrow> t_keys (map_erase k m) = t_keys m - {k}"
  by (simp add: t_keys_def fst_set_map_erase)

lemma find_None_keys: "map_find k m = None \<longleftrightarrow> k \<notin> t_keys m"
  by (simp add: t_keys_def map_find_None_iff)

lemma length_keys: "map_ok m \<Longrightarrow> length m = card (t_keys m)"
proof -
  assume "map_ok m"
  then have "distinct (map fst m)" by (simp add: map_ok_def strict_sorted_iff)
  then show ?thesis using distinct_card [of "map fst m"] by (simp add: t_keys_def)
qed

lemma tq_activeE:
  assumes "tq_inv E s" and "(p, q) \<in> t_keys (activeTimers s)"
  obtains t where "t_heap s p = Some t" and "t_sequence t = q" and "p \<notin> E"
  using assms unfolding tq_inv_def by blast

lemma tq_timers_iff:
  "tq_inv E s \<Longrightarrow> (e, p) \<in> t_keys (timers s) \<longleftrightarrow>
     (\<exists>t. t_heap s p = Some t \<and> t_expiration t = e \<and> (p, t_sequence t) \<in> t_keys (activeTimers s))"
  unfolding tq_inv_def by blast

lemma tq_sizes:
  assumes "tq_inv E s"
  shows "same_sizes s"
proof -
  let ?f = "\<lambda>(p, q :: int). (t_expiration (the (t_heap s p)), p)"
  have "k \<in> ?f ` t_keys (activeTimers s)" if "k \<in> t_keys (timers s)" for k
  proof -
    obtain e p where k: "k = (e, p)" by (cases k)
    with that tq_timers_iff [OF assms] obtain t where
      "t_heap s p = Some t" "t_expiration t = e" "(p, t_sequence t) \<in> t_keys (activeTimers s)" by blast
    then show ?thesis unfolding k by (intro image_eqI [of _ _ "(p, t_sequence t)"]) simp_all
  qed
  moreover have "?f (p, q) \<in> t_keys (timers s)" if "(p, q) \<in> t_keys (activeTimers s)" for p q
    using assms that by (rule tq_activeE) (use that tq_timers_iff [OF assms] in auto)
  ultimately have "t_keys (timers s) = ?f ` t_keys (activeTimers s)" by auto
  moreover have "inj_on ?f (t_keys (activeTimers s))"
    by (rule inj_onI) (auto elim!: tq_activeE [OF assms])
  ultimately have "card (t_keys (timers s)) = card (t_keys (activeTimers s))"
    by (simp add: card_image)
  with assms show ?thesis by (simp add: same_sizes_def tq_inv_def length_keys)
qed

lemma head_earliest:
  assumes "map_ok m" and "m = ((e, p), u) # m'" and "(e', p') \<in> t_keys m"
  shows "(e :: timestamp) \<le> e'"
  using assms by (auto simp: t_keys_def map_ok_def less_prod_def split: if_splits)

lemma earliest_changed_iff:
  assumes "map_ok m"
  shows "(case m of [] \<Rightarrow> True | (e, _) # _ \<Rightarrow> w < fst e) \<longleftrightarrow> (\<forall>e p. (e, p) \<in> t_keys m \<longrightarrow> (w :: timestamp) < e)"
proof (cases m)
  case (Cons k m')
  obtain e p u where k: "k = ((e, p), u)" by (cases k) auto
  have "(e, p) \<in> t_keys m" using Cons k by (auto simp: t_keys_def)
  then show ?thesis using head_earliest [OF assms, of e p u m'] Cons k by fastforce
qed (simp add: t_keys_def)

definition pending :: "nat \<Rightarrow> tqueue \<Rightarrow> bool" where
  "pending p s \<longleftrightarrow> (\<exists>q. (p, q) \<in> t_keys (activeTimers s))"

lemma tq_insert_spec:
  assumes inv: "tq_inv E s" and t: "t_heap s p = Some t" and "p \<notin> E" and "\<not> pending p s"
  shows "\<exists>s'. tq_insert p s = Inr (\<forall>e p. (e, p) \<in> t_keys (timers s) \<longrightarrow> t_expiration t < e, s') \<and>
     s' = s\<lparr>timers := map_set (t_expiration t, p) () (timers s),
            activeTimers := map_set (p, t_sequence t) () (activeTimers s)\<rparr> \<and> tq_inv E s'"
proof -
  let ?s = "s\<lparr>timers := map_set (t_expiration t, p) () (timers s),
            activeTimers := map_set (p, t_sequence t) () (activeTimers s)\<rparr>"
  have np: "(p, q) \<notin> t_keys (activeTimers s)" for q using assms(4) by (simp add: pending_def)
  have inv': "tq_inv E ?s"
    using inv t assms(3) np by (auto simp: tq_inv_def map_set_ok)
  have "(t_expiration t, p) \<notin> t_keys (timers s)"
    using inv t np by (auto simp: tq_inv_def)
  then show ?thesis
    using inv' tq_sizes [OF inv] tq_sizes [OF inv'] t np inv
    by (simp add: tq_insert_def t_deref_def Let_def find_None_keys same_sizes_def tq_inv_def
        earliest_changed_iff)
qed

text \<open>What callbacks leave alone: the timers being handled, and cancellations already noted.\<close>

definition keeps :: "nat set \<Rightarrow> tqueue \<Rightarrow> tqueue \<Rightarrow> bool" where
  "keeps E s s' \<longleftrightarrow> (\<forall>p \<in> E. t_heap s' p = t_heap s p) \<and>
     t_keys (cancelingTimers s) \<subseteq> t_keys (cancelingTimers s') \<and>
     callingExpiredTimers s' = callingExpiredTimers s"

lemma keeps_refl [simp]: "keeps E s s"
  by (simp add: keeps_def)

lemma keeps_trans: "keeps E s s' \<Longrightarrow> keeps E s' s'' \<Longrightarrow> keeps E s s''"
  by (auto simp: keeps_def)

definition tq_ok :: "nat set \<Rightarrow> tqueue \<Rightarrow> bool" where
  "tq_ok E s \<longleftrightarrow> tq_inv E s \<and> armed_early s"

lemma resetTimerfd_simps [simp]:
  "tq_inv E (resetTimerfd clk e s) = tq_inv E s" "keeps E s' (resetTimerfd clk e s) = keeps E s' s"
  "timers (resetTimerfd clk e s) = timers s" "armed_by (resetTimerfd clk e s) e' \<longleftrightarrow> e \<le> e'"
  by (simp_all add: tq_inv_def keeps_def resetTimerfd_def armed_by_def)

lemma addTimer_spec:
  assumes ok: "tq_ok E s" and alloc: "alloc_ok alloc"
  shows "unless_oom (addTimer alloc clk cb when interval rpt s) (\<lambda>(_, s'). tq_ok E s' \<and> keeps E s s')"
proof (cases "alloc (t_heap s)")
  case None
  then show ?thesis by (simp add: addTimer_def)
next
  case (Some p)
  from ok have inv: "tq_inv E s" and early: "armed_early s" by (simp_all add: tq_ok_def)
  from alloc Some have free: "t_heap s p = None" and lt: "p < UINTPTR_MAX" by (auto simp: alloc_ok_def)
  let ?t = "\<lparr>t_callback = cb, t_expiration = when, t_interval = interval, t_repeat = rpt,
             t_sequence = numCreated s + 1\<rparr>"
  let ?s1 = "s\<lparr>t_heap := (t_heap s)(p := Some ?t), numCreated := numCreated s + 1\<rparr>"
  have np: "(p, q) \<notin> t_keys (activeTimers s)" for q using inv free by (auto elim: tq_activeE)
  have pE: "p \<notin> E" using inv free by (auto simp: tq_inv_def)
  have inv1: "tq_inv E ?s1" using inv free lt np by (auto simp: tq_inv_def)
  define ec where "ec \<longleftrightarrow> (\<forall>e p. (e, p) \<in> t_keys (timers s) \<longrightarrow> when < e)"
  obtain s2 where s2: "tq_insert p ?s1 = Inr (ec, s2)"
    "s2 = ?s1\<lparr>timers := map_set (when, p) () (timers s),
              activeTimers := map_set (p, numCreated s + 1) () (activeTimers s)\<rparr>" "tq_inv E s2"
    using tq_insert_spec [OF inv1, of p ?t] pE np by (auto simp: pending_def ec_def)
  have keep: "keeps E s s2" using pE by (auto simp: keeps_def s2(2))
  show ?thesis
  proof (cases ec)
    case True
    have "tq_ok E (resetTimerfd clk when s2)" "keeps E s (resetTimerfd clk when s2)"
      using s2(3) keep True by (auto simp: tq_ok_def armed_early_def s2(2) ec_def)
    with Some s2 True show ?thesis
      by (simp add: addTimer_def addTimerInLoop_def Let_def t_deref_def)
  next
    case False
    then obtain e q where e: "(e, q) \<in> t_keys (timers s)" "e \<le> when" by (force simp: ec_def)
    with early have "armed_by s when" by (force simp: armed_early_def armed_by_def)
    with early have "armed_early s2" by (auto simp: s2(2) armed_early_def armed_by_def)
    with Some s2 False keep show ?thesis
      by (simp add: addTimer_def addTimerInLoop_def Let_def tq_ok_def)
  qed
qed

lemma cancelInLoop_spec:
  assumes ok: "tq_ok E s"
  shows "returns (cancelInLoop i s) (\<lambda>s'. tq_ok E s' \<and> keeps E s s' \<and>
    (callingExpiredTimers s \<longrightarrow> fst i \<in> E \<longrightarrow> i \<in> t_keys (cancelingTimers s')))"
proof -
  from ok have inv: "tq_inv E s" and early: "armed_early s" by (simp_all add: tq_ok_def)
  obtain p q where i: "i = (p, q)" by (cases i)
  show ?thesis
  proof (cases "i \<in> t_keys (activeTimers s)")
    case True
    with i inv obtain t where t: "t_heap s p = Some t" "t_sequence t = q" "p \<notin> E"
      by (auto elim: tq_activeE)
    have key: "(t_expiration t, p) \<in> t_keys (timers s)"
      using tq_timers_iff [OF inv] t True i by auto
    let ?s = "s\<lparr>timers := map_erase (t_expiration t, p) (timers s), t_heap := (t_heap s)(p := None),
        activeTimers := map_erase (p, q) (activeTimers s)\<rparr>"
    have maps: "map_ok (timers s)" "map_ok (activeTimers s)" using inv by (simp_all add: tq_inv_def)
    have only: "q' = q" if "(p, q') \<in> t_keys (activeTimers s)" for q'
      using inv that t by (auto elim: tq_activeE)
    have inv': "tq_inv E ?s"
      using inv t only maps by (auto simp: tq_inv_def map_erase_ok)
    moreover have "armed_early ?s" using early maps by (auto simp: armed_early_def armed_by_def)
    moreover have "keeps E s ?s" using t by (auto simp: keeps_def)
    ultimately show ?thesis
      using i t True key tq_sizes [OF inv] tq_sizes [OF inv']
      by (simp add: cancelInLoop_def find_None_keys t_deref_def tq_ok_def)
  next
    case False
    have "tq_inv E (s\<lparr>cancelingTimers := map_set i () (cancelingTimers s)\<rparr>)"
      using inv by (auto simp: tq_inv_def map_set_ok)
    with False inv early tq_sizes [OF inv] show ?thesis
      by (auto simp: cancelInLoop_def find_None_keys tq_ok_def armed_early_def armed_by_def keeps_def same_sizes_def)
  qed
qed

lemma do_timer_op_spec:
  "tq_ok E s \<Longrightarrow> alloc_ok alloc \<Longrightarrow>
     unless_oom (do_timer_op alloc clk p s) (\<lambda>s'. tq_ok E s' \<and> keeps E s s')"
  by (cases p)
    (auto intro: unless_oom_bindI [OF addTimer_spec] unless_oom_mono [OF returns_unless_oom [OF cancelInLoop_spec]])

lemma do_timer_ops_spec:
  assumes "tq_ok E s" and "alloc_ok alloc"
  shows "unless_oom (fold_r (do_timer_op alloc clk) ps s) (\<lambda>s'. tq_ok E s' \<and> keeps E s s')"
  by (rule unless_oom_fold_r)
    (use assms in \<open>auto intro: unless_oom_mono [OF do_timer_op_spec] keeps_trans\<close>)

section \<open>Expired timers\<close>

definition erase_active :: "timestamp \<times> nat \<Rightarrow> tqueue \<Rightarrow> tqueue res" where
  "erase_active = (\<lambda>(_, p) s. t_deref s p (\<lambda>t.
     ensure (map_find (p, t_sequence t) (activeTimers s) \<noteq> None) ''n == 1''
       (Inr (s\<lparr>activeTimers := map_erase (p, t_sequence t) (activeTimers s)\<rparr>))))"

lemma erase_active_fold:
  assumes "map_ok (activeTimers s)" and "distinct (map snd es)"
    and "\<And>p q. (p, q) \<in> t_keys (activeTimers s) \<Longrightarrow> \<exists>t. t_heap s p = Some t \<and> t_sequence t = q"
    and "\<And>e p. (e, p) \<in> set es \<Longrightarrow> pending p s"
  shows "\<exists>A. fold_r erase_active es s = Inr (s\<lparr>activeTimers := A\<rparr>) \<and> map_ok A \<and>
    t_keys A = {(p, q) \<in> t_keys (activeTimers s). p \<notin> snd ` set es}"
  using assms
proof (induction es arbitrary: s)
  case Nil
  then show ?case by (intro exI [of _ "activeTimers s"]) auto
next
  case (Cons k es)
  obtain e p where k: "k = (e, p)" by (cases k)
  from Cons.prems(4) [of e p] k obtain q where q: "(p, q) \<in> t_keys (activeTimers s)" by (auto simp: pending_def)
  with Cons.prems(3) obtain t where t: "t_heap s p = Some t" "t_sequence t = q" by blast
  let ?s = "s\<lparr>activeTimers := map_erase (p, q) (activeTimers s)\<rparr>"
  have keys: "t_keys (activeTimers ?s) = t_keys (activeTimers s) - {(p, q)}" using Cons.prems(1) by simp
  have step: "erase_active k s = Inr ?s"
    using k t q by (simp add: erase_active_def t_deref_def find_None_keys)
  have "\<exists>A. fold_r erase_active es ?s = Inr (?s\<lparr>activeTimers := A\<rparr>) \<and> map_ok A \<and>
      t_keys A = {(p, q) \<in> t_keys (activeTimers ?s). p \<notin> snd ` set es}"
  proof (rule Cons.IH)
    show "map_ok (activeTimers ?s)" "distinct (map snd es)" using Cons.prems(1,2) by (simp_all add: map_erase_ok)
    show "\<exists>t. t_heap ?s p' = Some t \<and> t_sequence t = q'" if "(p', q') \<in> t_keys (activeTimers ?s)" for p' q'
      using that Cons.prems(3) keys by auto
    show "pending p' ?s" if "(e', p') \<in> set es" for e' p'
    proof -
      have "p' \<noteq> p" using Cons.prems(2) that k by force
      moreover have "pending p' s" using Cons.prems(4) that by auto
      ultimately show ?thesis using Cons.prems(1) by (auto simp: pending_def)
    qed
  qed
  then obtain A where A: "fold_r erase_active es ?s = Inr (?s\<lparr>activeTimers := A\<rparr>)" "map_ok A"
    "t_keys A = {(p, q) \<in> t_keys (activeTimers ?s). p \<notin> snd ` set es}" by blast
  have "q' = q" if "(p, q') \<in> t_keys (activeTimers s)" for q'
    using Cons.prems(3) [OF that] t by auto
  then have "t_keys A = {(p, q) \<in> t_keys (activeTimers s). p \<notin> snd ` set (k # es)}"
    unfolding A(3) keys k by auto
  with A step show ?case by (intro exI [of _ A]) simp
qed

lemma takeWhile_sorted:
  assumes "map_ok m"
  shows "takeWhile (\<lambda>(k, _). k < c) m = filter (\<lambda>(k, _). k < c) m"
    and "dropWhile (\<lambda>(k, _). k < c) m = filter (\<lambda>(k, _). \<not> k < c) m"
  using assms
proof (induction m)
  case (Cons x m)
  obtain a b where x: "x = (a, b)" by (cases x)
  have later: "filter (\<lambda>(k, _). k < c) m = []" "filter (\<lambda>(k, _). \<not> k < c) m = m"
    if "map_ok (x # m)" "\<not> a < c"
    using that by (auto simp: x filter_empty_conv filter_id_conv)
  { case 1 with Cons(1) later x show ?case by (cases "a < c") auto }
  { case 2 with Cons(2) later x show ?case by (cases "a < c") auto }
qed simp_all

lemma tq_pointer_bound:
  assumes "tq_inv E s" and "(e, p) \<in> t_keys (timers s)"
  shows "(e, p) < (now, UINTPTR_MAX) \<longleftrightarrow> e \<le> (now :: timestamp)"
proof -
  have "p < UINTPTR_MAX" using assms tq_timers_iff [OF assms(1)] by (auto simp: tq_inv_def)
  then show ?thesis by auto
qed

definition expired_part :: "timestamp \<Rightarrow> tqueue \<Rightarrow> (timestamp \<times> nat) list" where
  "expired_part now s = map fst (filter (\<lambda>(k, _). fst k \<le> now) (timers s))"

lemma map_ok_filter: "map_ok m \<Longrightarrow> map_ok (filter P m)"
  by (induction m) (auto simp: map_ok_def)

lemma getExpired_spec:
  assumes ok: "tq_ok {} s"
  shows "\<exists>s'. getExpired now s = Inr (expired_part now s, s') \<and>
    tq_ok (snd ` set (expired_part now s)) s' \<and> distinct (map snd (expired_part now s)) \<and>
    t_heap s' = t_heap s \<and> armed s' = armed s \<and>
    t_keys (timers s') = {k \<in> t_keys (timers s). now < fst k}"
proof -
  from ok have inv: "tq_inv {} s" and early: "armed_early s" by (simp_all add: tq_ok_def)
  have maps: "map_ok (timers s)" "map_ok (activeTimers s)" using inv by (simp_all add: tq_inv_def)
  let ?R = "filter (\<lambda>(k, _). now < fst k) (timers s)"
  let ?X = "expired_part now s"
  have bound: "fst e < (now, UINTPTR_MAX) \<longleftrightarrow> fst (fst e) \<le> now" if "e \<in> set (timers s)" for e
    using tq_pointer_bound [OF inv, of "fst (fst e)" "snd (fst e)"] that by (auto simp: t_keys_def)
  have front: "map fst (takeWhile (\<lambda>(k, _). k < (now, UINTPTR_MAX)) (timers s)) = ?X"
    unfolding takeWhile_sorted [OF maps(1)] expired_part_def
    by (intro arg_cong [of _ _ "map fst"] filter_cong) (auto dest: bound)
  have rest: "dropWhile (\<lambda>(k, _). k < (now, UINTPTR_MAX)) (timers s) = ?R"
    unfolding takeWhile_sorted [OF maps(1)] by (intro filter_cong) (use bound in \<open>auto simp: not_le\<close>)
  have Xkeys: "set ?X = {k \<in> t_keys (timers s). fst k \<le> now}" by (auto simp: expired_part_def t_keys_def image_iff)
  have Rkeys: "t_keys ?R = {k \<in> t_keys (timers s). now < fst k}" by (auto simp: t_keys_def image_iff)
  have ptr: "e = e'" if "(e, p) \<in> t_keys (timers s)" "(e', p) \<in> t_keys (timers s)" for e e' p
    using that tq_timers_iff [OF inv] by auto
  have "distinct ?X"
    using maps(1) by (simp add: expired_part_def map_ok_def strict_sorted_iff distinct_map_filter)
  moreover have "inj_on snd (set ?X)" using ptr by (auto simp: inj_on_def Xkeys)
  ultimately have dist: "distinct (map snd ?X)" by (simp add: distinct_map)
  let ?s1 = "s\<lparr>timers := ?R\<rparr>"
  have "\<exists>A. fold_r erase_active ?X ?s1 = Inr (?s1\<lparr>activeTimers := A\<rparr>) \<and> map_ok A \<and>
      t_keys A = {(p, q) \<in> t_keys (activeTimers ?s1). p \<notin> snd ` set ?X}"
  proof (rule erase_active_fold [OF _ dist])
    show "map_ok (activeTimers ?s1)" using maps by simp
    show "\<exists>t. t_heap ?s1 p = Some t \<and> t_sequence t = q" if "(p, q) \<in> t_keys (activeTimers ?s1)" for p q
      using inv that by (auto elim: tq_activeE)
    show "pending p ?s1" if "(e, p) \<in> set ?X" for e p
      using that tq_timers_iff [OF inv, of e p] by (auto simp: Xkeys pending_def)
  qed
  then obtain A where A: "fold_r erase_active ?X ?s1 = Inr (?s1\<lparr>activeTimers := A\<rparr>)" "map_ok A"
    "t_keys A = {(p, q) \<in> t_keys (activeTimers s). p \<notin> snd ` set ?X}" by auto
  let ?s2 = "s\<lparr>timers := ?R, activeTimers := A\<rparr>"
  have Xp: "p \<in> snd ` set ?X \<longleftrightarrow> (\<exists>t. t_heap s p = Some t \<and> t_expiration t \<le> now \<and> (p, t_sequence t) \<in> t_keys (activeTimers s))"
    for p unfolding Xkeys using tq_timers_iff [OF inv] by (force simp: image_iff)
  have inv2: "tq_inv (snd ` set ?X) ?s2"
    unfolding tq_inv_def
  proof (intro conjI allI impI ballI iffI)
    show "map_ok (timers ?s2)" "map_ok (activeTimers ?s2)" "map_ok (cancelingTimers ?s2)"
      using maps A(2) inv by (simp_all add: map_ok_filter tq_inv_def)
    show "p < UINTPTR_MAX" if "t_heap ?s2 p \<noteq> None" for p using that inv by (simp add: tq_inv_def)
    show "p \<notin> snd ` set ?X" "\<exists>t. t_heap ?s2 p = Some t \<and> t_sequence t = q"
      if "(p, q) \<in> t_keys (activeTimers ?s2)" for p q
      using that inv by (auto simp: A(3) elim: tq_activeE)
    show "\<exists>t. t_heap ?s2 p = Some t \<and> t_expiration t = e \<and> (p, t_sequence t) \<in> t_keys (activeTimers ?s2)"
      if "(e, p) \<in> t_keys (timers ?s2)" for e p
      using that tq_timers_iff [OF inv, of e p] Xp [of p] by (auto simp: Rkeys A(3))
    show "(e, p) \<in> t_keys (timers ?s2)"
      if "\<exists>t. t_heap ?s2 p = Some t \<and> t_expiration t = e \<and> (p, t_sequence t) \<in> t_keys (activeTimers ?s2)" for e p
      using that tq_timers_iff [OF inv, of e p] Xp [of p] by (auto simp: Rkeys A(3))
    show "t_heap ?s2 p \<noteq> None" if "p \<in> snd ` set ?X" for p using that Xp [of p] by auto
  qed
  have "(case ?R of [] \<Rightarrow> True | (k, _) # _ \<Rightarrow> now < fst k)"
  proof (cases ?R)
    case (Cons x xs)
    then have "x \<in> set ?R" by simp
    then have "now < fst (fst x)" by auto
    with Cons show ?thesis by (auto split: prod.splits)
  qed simp
  then have run: "getExpired now s = Inr (?X, ?s2)"
    using A(1) tq_sizes [OF inv] tq_sizes [OF inv2] front rest
    by (simp add: getExpired_def Let_def erase_active_def)
  moreover have "armed_early ?s2" using early by (auto simp: armed_early_def armed_by_def Rkeys)
  ultimately show ?thesis using inv2 dist by (auto simp: tq_ok_def Rkeys)
qed

text \<open>Running the callbacks of the expired timers.\<close>

lemma run_timers_spec:
  assumes "tq_ok E s" and "alloc_ok alloc" and "snd ` set es \<subseteq> E"
  shows "unless_oom (fold_r (run_timer alloc body clk) es (s, hist))
    (\<lambda>(s', hist'). tq_ok E s' \<and> keeps E s s' \<and> hist' = hist @ map snd es)"
  using assms
proof (induction es arbitrary: s hist)
  case (Cons k es)
  obtain t where t: "t_heap s (snd k) = Some t"
    using Cons.prems by (auto simp: tq_ok_def tq_inv_def)
  have "unless_oom (run_timer alloc body clk k (s, hist))
      (\<lambda>(s', hist'). tq_ok E s' \<and> keeps E s s' \<and> hist' = hist @ [snd k])"
    using t by (auto simp: run_timer_def t_deref_def
        intro!: unless_oom_bindI [OF do_timer_ops_spec [OF Cons.prems(1,2)]])
  then show ?case
  proof (simp only: fold_r.simps, elim unless_oom_bindI)
    fix x assume "case x of (s', hist') \<Rightarrow> tq_ok E s' \<and> keeps E s s' \<and> hist' = hist @ [snd k]"
    then obtain s' where s': "x = (s', hist @ [snd k])" "tq_ok E s'" "keeps E s s'" by (cases x) auto
    show "unless_oom (fold_r (run_timer alloc body clk) es x)
        (\<lambda>(s', hist'). tq_ok E s' \<and> keeps E s s' \<and> hist' = hist @ map snd (k # es))"
      unfolding s'(1) using Cons.prems s'
      by (auto intro!: unless_oom_mono [OF Cons.IH] dest: keeps_trans)
  qed
qed simp

text \<open>Rescheduling or deleting them. A pending timer with a time not after the epoch stays armed.\<close>

definition armed_nonpos :: "tqueue \<Rightarrow> bool" where
  "armed_nonpos s \<longleftrightarrow> (\<forall>e p. (e, p) \<in> t_keys (timers s) \<longrightarrow> e \<le> 0 \<longrightarrow> armed_by s e)"

definition reset_part :: "timestamp \<Rightarrow> (nat \<times> int) std_set \<Rightarrow> (nat \<Rightarrow> timer option) \<Rightarrow> nat \<Rightarrow> timer option" where
  "reset_part now canceled h p =
     (case h p of
        Some t \<Rightarrow> if t_repeat t \<and> (p, t_sequence t) \<notin> t_keys canceled then Some (restart now t) else None
      | None \<Rightarrow> None)"

lemma tq_inv_weaken: "tq_inv (insert p E) s \<Longrightarrow> tq_inv E s"
  by (auto simp: tq_inv_def)

lemma reset_one_spec:
  assumes inv: "tq_inv (insert p E) s" and "p \<notin> E" and "armed_nonpos s" and now: "0 < now" and k: "snd k = p"
  shows "\<exists>s'. reset_one now k s = Inr s' \<and> tq_inv E s' \<and> armed_nonpos s' \<and>
    t_heap s' = (t_heap s)(p := reset_part now (cancelingTimers s) (t_heap s) p) \<and>
    cancelingTimers s' = cancelingTimers s \<and> armed s' = armed s \<and>
    t_keys (timers s') = t_keys (timers s) \<union>
      {(t_expiration t, p) | t. reset_part now (cancelingTimers s) (t_heap s) p = Some t}"
proof -
  obtain t where t: "t_heap s p = Some t" using inv by (auto simp: tq_inv_def)
  have np: "(p, q) \<notin> t_keys (activeTimers s)" for q using inv by (auto elim: tq_activeE)
  show ?thesis
  proof (cases "t_repeat t \<and> (p, t_sequence t) \<notin> t_keys (cancelingTimers s)")
    case True
    let ?t = "restart now t"
    let ?s = "s\<lparr>t_heap := (t_heap s)(p := Some ?t)\<rparr>"
    have seq: "t_sequence ?t = t_sequence t" by (simp add: restart_def)
    have exp: "t_expiration ?t = now + int (t_interval t)" using True by (simp add: restart_def addTime_def)
    have inv1: "tq_inv E ?s" using inv np t by (auto simp: tq_inv_def)
    obtain ec s' where s': "tq_insert p ?s = Inr (ec, s')"
      "s' = ?s\<lparr>timers := map_set (t_expiration ?t, p) () (timers s),
               activeTimers := map_set (p, t_sequence ?t) () (activeTimers s)\<rparr>" "tq_inv E s'"
      using tq_insert_spec [OF inv1, of p ?t] assms(2) np by (auto simp: pending_def)
    have "armed_nonpos s'" using assms(3) now exp by (auto simp: s'(2) armed_nonpos_def armed_by_def)
    with s' t True k show ?thesis
      by (auto simp: reset_one_def t_deref_def find_None_keys reset_part_def seq)
  next
    case False
    have "tq_inv E (s\<lparr>t_heap := (t_heap s)(p := None)\<rparr>)"
      using inv np assms(2) by (auto simp: tq_inv_def)
    with False t k assms(3) show ?thesis
      by (auto simp: reset_one_def t_deref_def find_None_keys reset_part_def armed_nonpos_def armed_by_def)
  qed
qed

lemma reset_fold_spec:
  assumes "tq_inv (snd ` set es) s" and "distinct (map snd es)" and "armed_nonpos s" and "0 < now"
  shows "\<exists>s'. fold_r (reset_one now) es s = Inr s' \<and> tq_inv {} s' \<and> armed_nonpos s' \<and>
    (\<forall>p. t_heap s' p = (if p \<in> snd ` set es then reset_part now (cancelingTimers s) (t_heap s) p else t_heap s p)) \<and>
    t_keys (timers s') = t_keys (timers s) \<union>
      {(t_expiration t, p) | t p. p \<in> snd ` set es \<and> reset_part now (cancelingTimers s) (t_heap s) p = Some t}"
  using assms
proof (induction es arbitrary: s)
  case (Cons k es)
  let ?p = "snd k"
  from Cons.prems(2) have fresh: "?p \<notin> snd ` set es" and d: "distinct (map snd es)" by auto
  from Cons.prems(1) have inv: "tq_inv (insert ?p (snd ` set es)) s" by simp
  from reset_one_spec [OF inv fresh Cons.prems(3,4) refl] obtain s1 where
    s1: "reset_one now k s = Inr s1" "tq_inv (snd ` set es) s1" "armed_nonpos s1"
      "t_heap s1 = (t_heap s)(?p := reset_part now (cancelingTimers s) (t_heap s) ?p)"
      "cancelingTimers s1 = cancelingTimers s"
      "t_keys (timers s1) = t_keys (timers s) \<union>
        {(t_expiration t, ?p) | t. reset_part now (cancelingTimers s) (t_heap s) ?p = Some t}" by blast
  have same: "reset_part now (cancelingTimers s1) (t_heap s1) p = reset_part now (cancelingTimers s) (t_heap s) p"
    if "p \<in> snd ` set es" for p
  proof -
    have "p \<noteq> ?p" using that fresh by blast
    then show ?thesis by (simp add: reset_part_def s1(4,5))
  qed
  from Cons.IH [OF s1(2) d s1(3) Cons.prems(4)] obtain s2 where
    s2: "fold_r (reset_one now) es s1 = Inr s2" "tq_inv {} s2" "armed_nonpos s2"
      "\<forall>p. t_heap s2 p = (if p \<in> snd ` set es then reset_part now (cancelingTimers s1) (t_heap s1) p else t_heap s1 p)"
      "t_keys (timers s2) = t_keys (timers s1) \<union>
        {(t_expiration t, p) | t p. p \<in> snd ` set es \<and> reset_part now (cancelingTimers s1) (t_heap s1) p = Some t}" by blast
  have "\<forall>p. t_heap s2 p = (if p \<in> snd ` set (k # es) then reset_part now (cancelingTimers s) (t_heap s) p else t_heap s p)"
    using s2(4) same fresh by (auto simp: s1(4))
  moreover have "t_keys (timers s2) = t_keys (timers s) \<union>
      {(t_expiration t, p) | t p. p \<in> snd ` set (k # es) \<and> reset_part now (cancelingTimers s) (t_heap s) p = Some t}"
  proof -
    have "{(t_expiration t, p) | t p. p \<in> snd ` set es \<and> reset_part now (cancelingTimers s1) (t_heap s1) p = Some t} =
        {(t_expiration t, p) | t p. p \<in> snd ` set es \<and> reset_part now (cancelingTimers s) (t_heap s) p = Some t}"
      using same by (simp cong: conj_cong)
    then show ?thesis unfolding s2(5) s1(6) list.set image_insert by blast
  qed
  ultimately show ?case using s1(1) s2 by (intro exI [of _ s2]) simp
qed simp

lemma tq_reset_spec:
  assumes "tq_inv (snd ` set es) s" and "distinct (map snd es)" and "armed_early s" and "0 < now"
  shows "\<exists>s'. tq_reset clk now es s = Inr s' \<and> tq_ok {} s' \<and>
    (\<forall>p. t_heap s' p = (if p \<in> snd ` set es then reset_part now (cancelingTimers s) (t_heap s) p else t_heap s p)) \<and>
    t_keys (timers s') = t_keys (timers s) \<union>
      {(t_expiration t, p) | t p. p \<in> snd ` set es \<and> reset_part now (cancelingTimers s) (t_heap s) p = Some t}"
proof -
  have "armed_nonpos s" using assms(3) by (auto simp: armed_early_def armed_nonpos_def)
  from reset_fold_spec [OF assms(1,2) this assms(4)] obtain s1 where
    s1: "fold_r (reset_one now) es s = Inr s1" "tq_inv {} s1" "armed_nonpos s1"
      "\<forall>p. t_heap s1 p = (if p \<in> snd ` set es then reset_part now (cancelingTimers s) (t_heap s) p else t_heap s p)"
      "t_keys (timers s1) = t_keys (timers s) \<union>
      {(t_expiration t, p) | t p. p \<in> snd ` set es \<and> reset_part now (cancelingTimers s) (t_heap s) p = Some t}" by blast
  show ?thesis
  proof (cases "timers s1")
    case Nil
    with s1 show ?thesis by (auto simp: tq_reset_def tq_ok_def armed_early_def t_keys_def)
  next
    case (Cons x m)
    obtain e p u where x: "x = ((e, p), u)" by (cases x) auto
    have "(e, p) \<in> t_keys (timers s1)" by (simp add: Cons x t_keys_def)
    then obtain t where t: "t_heap s1 p = Some t" "t_expiration t = e" using tq_timers_iff [OF s1(2)] by blast
    have maps: "map_ok (timers s1)" using s1(2) by (simp add: tq_inv_def)
    have least: "e \<le> e'" if "(e', p') \<in> t_keys (timers s1)" for e' p'
      using head_earliest [OF maps _ that] Cons x by blast
    let ?s2 = "if ts_valid e then resetTimerfd clk e s1 else s1"
    have "armed_early ?s2"
    proof (cases "ts_valid e")
      case True
      then show ?thesis using least by (auto simp: armed_early_def)
    next
      case False
      with \<open>(e, p) \<in> t_keys (timers s1)\<close> s1(3) have "armed_by s1 e" by (auto simp: armed_nonpos_def ts_valid_def)
      with False least show ?thesis by (force simp: armed_early_def armed_by_def)
    qed
    then have ok: "tq_ok {} ?s2" using s1(2) by (simp add: tq_ok_def)
    have "t_heap ?s2 = t_heap s1" "timers ?s2 = timers s1" by (simp_all add: resetTimerfd_def)
    moreover have "tq_reset clk now es s = Inr ?s2" using t by (simp add: tq_reset_def s1(1) Cons x t_deref_def)
    ultimately show ?thesis using ok s1(4,5) by (intro exI [of _ ?s2]) simp
  qed
qed

section \<open>Which timers a callback cancels\<close>

lemma addTimer_canceling:
  "addTimer alloc clk cb when interval rpt s = Inr (i, s') \<Longrightarrow> cancelingTimers s' = cancelingTimers s"
  by (auto simp: addTimer_def addTimerInLoop_def tq_insert_def t_deref_def Let_def resetTimerfd_def
      ensure_eq_Inr bind_r_eq_Inr split: option.splits if_splits)

lemma do_timer_op_canceling:
  assumes "tq_ok E s" and "callingExpiredTimers s" and "do_timer_op alloc clk p s = Inr s'" and "fst i \<in> E"
  shows "i \<in> t_keys (cancelingTimers s') \<longleftrightarrow> i \<in> t_keys (cancelingTimers s) \<or> p = CancelTimer i"
proof (cases p)
  case AddTimer
  with assms(3) show ?thesis by (auto simp: bind_r_eq_Inr dest: addTimer_canceling)
next
  case (CancelTimer j)
  have "i \<notin> t_keys (activeTimers s)"
    using assms(1,4) by (cases i) (auto simp: tq_ok_def elim: tq_activeE)
  with assms CancelTimer show ?thesis
    by (auto simp: cancelInLoop_def ensure_eq_Inr bind_r_eq_Inr t_deref_def find_None_keys
        split: option.splits if_splits)
qed

lemma unless_oom_Inr: "unless_oom m P \<Longrightarrow> m = Inr x \<Longrightarrow> P x"
  by simp

lemma do_timer_ops_canceling:
  assumes "alloc_ok alloc" and "fst i \<in> E"
  shows "tq_ok E s \<Longrightarrow> callingExpiredTimers s \<Longrightarrow> fold_r (do_timer_op alloc clk) ps s = Inr s' \<Longrightarrow>
    i \<in> t_keys (cancelingTimers s') \<longleftrightarrow> i \<in> t_keys (cancelingTimers s) \<or> CancelTimer i \<in> set ps"
proof (induction ps arbitrary: s)
  case (Cons p ps)
  from Cons.prems(3) obtain s1 where s1: "do_timer_op alloc clk p s = Inr s1"
    and rest: "fold_r (do_timer_op alloc clk) ps s1 = Inr s'" by (auto simp: bind_r_eq_Inr)
  have "tq_ok E s1 \<and> keeps E s s1"
    using unless_oom_Inr [OF do_timer_op_spec [OF Cons.prems(1) assms(1)] s1] .
  with Cons.IH [OF _ _ rest] do_timer_op_canceling [OF Cons.prems(1,2) s1 assms(2)] Cons.prems(2)
  show ?case by (auto simp: keeps_def)
qed simp

lemma run_timers_canceling:
  assumes "alloc_ok alloc" and "fst i \<in> E"
  shows "tq_ok E s \<Longrightarrow> callingExpiredTimers s \<Longrightarrow> snd ` set es \<subseteq> E \<Longrightarrow>
    fold_r (run_timer alloc body clk) es (s, hist) = Inr (s', hist') \<Longrightarrow>
    i \<in> t_keys (cancelingTimers s') \<longleftrightarrow> i \<in> t_keys (cancelingTimers s) \<or>
      (\<exists>p t. p \<in> snd ` set es \<and> t_heap s p = Some t \<and> CancelTimer i \<in> set (body (t_callback t)))"
proof (induction es arbitrary: s hist)
  case (Cons k es)
  let ?p = "snd k"
  obtain t where t: "t_heap s ?p = Some t" using Cons.prems(1,3) by (auto simp: tq_ok_def tq_inv_def)
  have head: "run_timer alloc body clk k (s, hist) =
      bind_r (fold_r (do_timer_op alloc clk) (body (t_callback t)) s) (\<lambda>s'. Inr (s', hist @ [?p]))"
    using t by (simp add: run_timer_def t_deref_def)
  from Cons.prems(4) obtain s1 where s1: "fold_r (do_timer_op alloc clk) (body (t_callback t)) s = Inr s1"
    and rest: "fold_r (run_timer alloc body clk) es (s1, hist @ [?p]) = Inr (s', hist')"
    by (auto simp: head bind_r_eq_Inr)
  have ok1: "tq_ok E s1" and keep: "keeps E s s1"
    using unless_oom_Inr [OF do_timer_ops_spec [OF Cons.prems(1) assms(1)] s1] by auto
  have heap: "t_heap s1 p = t_heap s p" if "p \<in> snd ` set es" for p
    using keep that Cons.prems(3) by (auto simp: keeps_def)
  have "(\<exists>p t. p \<in> snd ` set es \<and> t_heap s1 p = Some t \<and> CancelTimer i \<in> set (body (t_callback t))) \<longleftrightarrow>
      (\<exists>p t. p \<in> snd ` set es \<and> t_heap s p = Some t \<and> CancelTimer i \<in> set (body (t_callback t)))"
    using heap by (simp cong: conj_cong)
  moreover have "callingExpiredTimers s1" using keep Cons.prems(2) by (simp add: keeps_def)
  ultimately have "i \<in> t_keys (cancelingTimers s') \<longleftrightarrow> i \<in> t_keys (cancelingTimers s1) \<or>
      (\<exists>p t. p \<in> snd ` set es \<and> t_heap s p = Some t \<and> CancelTimer i \<in> set (body (t_callback t)))"
    using Cons.IH [OF ok1 _ _ rest] Cons.prems(3) by simp
  with do_timer_ops_canceling [OF assms Cons.prems(1,2) s1] t show ?case by auto
qed simp

text \<open>A run as a whole.\<close>

definition cancelled_by :: "(nat \<Rightarrow> timer_op list) \<Rightarrow> tqueue \<Rightarrow> nat list \<Rightarrow> (nat \<times> int) set" where
  "cancelled_by body s ps = {i. \<exists>p t. p \<in> set ps \<and> t_heap s p = Some t \<and> CancelTimer i \<in> set (body (t_callback t))}"

lemma handleRead_spec:
  assumes ok: "tq_ok {} s" and alloc: "alloc_ok alloc" and now: "0 < now"
  shows "unless_oom (tq_handleRead alloc body clk now s) (\<lambda>(hist, s').
    hist = map snd (expired_part now s) \<and> tq_ok {} s' \<and>
    (\<forall>p \<in> set hist. \<forall>t. t_heap s p = Some t \<longrightarrow>
       t_heap s' p = (if t_repeat t \<and> (p, t_sequence t) \<notin> cancelled_by body s hist
                      then Some (restart now t) else None) \<and>
       (t_heap s' p \<noteq> None \<longrightarrow> (now + int (t_interval t), p) \<in> t_keys (timers s'))))"
proof -
  let ?X = "expired_part now s" and ?E = "snd ` set (expired_part now s)"
  from getExpired_spec [OF ok, of now] obtain s1 where
    s1: "getExpired now s = Inr (?X, s1)" "tq_ok ?E s1" "distinct (map snd ?X)" "t_heap s1 = t_heap s" by blast
  let ?s1 = "s1\<lparr>callingExpiredTimers := True, cancelingTimers := []\<rparr>"
  have ok1: "tq_ok ?E ?s1"
    using s1(2) by (simp add: tq_ok_def tq_inv_def armed_early_def armed_by_def)
  show ?thesis
  proof (cases "fold_r (run_timer alloc body clk) ?X (?s1, [])")
    case (Inl e)
    with run_timers_spec [OF ok1 alloc subset_refl, of body clk "[]"] s1(1) show ?thesis
      by (simp add: tq_handleRead_def)
  next
    case (Inr r)
    obtain s2 hist where r: "r = (s2, hist)" by (cases r)
    from run_timers_spec [OF ok1 alloc subset_refl, of body clk "[]"] Inr r
    have s2: "tq_ok ?E s2" "keeps ?E ?s1 s2" "hist = map snd ?X" by simp_all
    let ?s2 = "s2\<lparr>callingExpiredTimers := False\<rparr>"
    have inv2: "tq_inv (snd ` set ?X) ?s2" "armed_early ?s2"
      using s2(1) by (simp_all add: tq_ok_def tq_inv_def armed_early_def armed_by_def)
    from tq_reset_spec [OF inv2(1) s1(3) inv2(2) now, of clk] obtain s3 where
      s3: "tq_reset clk now ?X ?s2 = Inr s3" "tq_ok {} s3"
        "\<forall>p. t_heap s3 p = (if p \<in> ?E then reset_part now (cancelingTimers s2) (t_heap s2) p else t_heap s2 p)"
        "t_keys (timers s3) = t_keys (timers s2) \<union>
          {(t_expiration t, p) | t p. p \<in> ?E \<and> reset_part now (cancelingTimers s2) (t_heap s2) p = Some t}" by auto
    have heap: "t_heap s2 p = t_heap s p" if "p \<in> ?E" for p
      using s2(2) that s1(4) by (auto simp: keeps_def)
    have canc: "(p, q) \<in> t_keys (cancelingTimers s2) \<longleftrightarrow> (p, q) \<in> cancelled_by body s (map snd ?X)" if "p \<in> ?E" for p q
      using run_timers_canceling [OF alloc _ ok1 _ subset_refl Inr [unfolded r], of "(p, q)"] that s1(4)
      by (simp add: cancelled_by_def t_keys_def)
    have "t_heap s3 p = (if t_repeat t \<and> (p, t_sequence t) \<notin> cancelled_by body s (map snd ?X)
            then Some (restart now t) else None) \<and>
       (t_heap s3 p \<noteq> None \<longrightarrow> (now + int (t_interval t), p) \<in> t_keys (timers s3))"
      if p: "p \<in> ?E" and t: "t_heap s p = Some t" for p t
    proof -
      have part: "reset_part now (cancelingTimers s2) (t_heap s2) p =
          (if t_repeat t \<and> (p, t_sequence t) \<notin> cancelled_by body s (map snd ?X) then Some (restart now t) else None)"
        using heap [OF p] canc [OF p] t by (simp add: reset_part_def)
      then show ?thesis using s3(3,4) p by (auto simp: restart_def addTime_def)
    qed
    with s1(1) Inr r s2(3) s3(1,2) show ?thesis by (simp add: tq_handleRead_def)
  qed
qed

section \<open>Histories of the queue\<close>

text \<open>
  What the loop does with the queue: an operation of a user, at time \<open>clk\<close>, or a wake-up
  of the timer descriptor.
\<close>

datatype timer_event =
    UserOp timestamp timer_op
  | Wakeup timestamp timestamp    \<comment> \<open>clock of \<^verbatim>\<open>resetTimerfd\<close>, \<^verbatim>\<open>now\<close> of \<^verbatim>\<open>handleRead\<close>\<close>

fun timer_step :: "allocator \<Rightarrow> (nat \<Rightarrow> timer_op list) \<Rightarrow> timer_event \<Rightarrow> tqueue \<Rightarrow> tqueue res" where
  "timer_step alloc body (UserOp clk p) s = do_timer_op alloc clk p s"
| "timer_step alloc body (Wakeup clk now) s = bind_r (tq_handleRead alloc body clk now s) (\<lambda>(_, s'). Inr s')"

fun wakeup_valid :: "timer_event \<Rightarrow> bool" where
  "wakeup_valid (UserOp _ _) = True"
| "wakeup_valid (Wakeup _ now) = (0 < now)"

lemma TimerQueue_new_ok: "tq_ok {} TimerQueue_new"
  by (simp add: tq_ok_def tq_inv_def TimerQueue_new_def t_keys_def map_ok_def armed_early_def)

lemma timer_step_ok:
  assumes "tq_ok {} s" and "alloc_ok alloc" and "wakeup_valid e"
  shows "unless_oom (timer_step alloc body e s) (tq_ok {})"
proof (cases e)
  case (UserOp clk p)
  then show ?thesis using do_timer_op_spec [OF assms(1,2), of clk p] by (auto elim: unless_oom_mono)
next
  case (Wakeup clk now)
  with assms(3) have "0 < now" by simp
  from handleRead_spec [OF assms(1,2) this, of body clk] Wakeup show ?thesis
    by (auto intro!: unless_oom_bindI [OF handleRead_spec [OF assms(1,2) \<open>0 < now\<close>]])
qed

text \<open>
  C7. Whatever users and timer callbacks add and cancel, and whenever the descriptor
  fires, no assertion of \<^verbatim>\<open>TimerQueue\<close> fails and no freed timer is touched: only memory can
  run out. At every moment \<^verbatim>\<open>timers_\<close> and \<^verbatim>\<open>activeTimers_\<close> hold the same timers, all alive,
  and the descriptor was last armed for a time no later than any pending expiration.
\<close>

theorem timers_never_assert:
  assumes "alloc_ok alloc" and "\<forall>e \<in> set es. wakeup_valid e"
  shows "unless_oom (fold_r (timer_step alloc body) es TimerQueue_new) (\<lambda>s.
    same_sizes s \<and>
    (\<forall>when p. (when, p) \<in> t_keys (timers s) \<longleftrightarrow>
       (\<exists>t. t_heap s p = Some t \<and> t_expiration t = when \<and> (p, t_sequence t) \<in> t_keys (activeTimers s))) \<and>
    (\<forall>when p. (when, p) \<in> t_keys (timers s) \<longrightarrow> armed_by s when))"
proof -
  have "unless_oom (fold_r (timer_step alloc body) es TimerQueue_new) (tq_ok {})"
    using TimerQueue_new_ok timer_step_ok [OF _ assms(1)] assms(2)
    by (intro unless_oom_fold_r) auto
  then show ?thesis
    by (rule unless_oom_mono) (auto simp: tq_ok_def armed_early_def intro: tq_sizes dest: tq_timers_iff)
qed

text \<open>An allocator with two cells.\<close>

definition two_cells :: allocator where
  "two_cells h = (if h 1 = None then Some 1 else if h 2 = None then Some 2 else None)"

lemma two_cells_ok: "alloc_ok two_cells"
  by (auto simp: alloc_ok_def two_cells_def UINTPTR_MAX_def split: if_splits)

lemmas timer_evaluation = tq_handleRead_def getExpired_def run_timer_def tq_reset_def reset_one_def
  addTimer_def addTimerInLoop_def tq_insert_def cancelInLoop_def t_deref_def same_sizes_def resetTimerfd_def
  restart_def addTime_def two_cells_def UINTPTR_MAX_def TimerQueue_new_def ts_valid_def less_prod_def

text \<open>Callback 7 cancels its own timer and starts another one; callback 9 cancels a timer.\<close>

definition example_body :: "nat \<Rightarrow> timer_op list" where
  "example_body cb = (if cb = 7 then [CancelTimer (1, 1), AddTimer 8 50 0 False]
     else if cb = 9 then [CancelTimer (1, 1)] else [])"

theorem timers_never_assert_witness:
  "returns (fold_r (timer_step two_cells example_body)
      [UserOp 10 (AddTimer 7 20 30 True), Wakeup 25 25] TimerQueue_new)
    (\<lambda>s. timers s = [((50, 2), ())] \<and> armed_by s 50)"
proof -
  have "returns (fold_r (timer_step two_cells example_body)
      [UserOp 10 (AddTimer 7 20 30 True), Wakeup 25 25] TimerQueue_new) (\<lambda>s. timers s = [((50, 2), ())])"
    by (simp add: timer_evaluation example_body_def)
  with timers_never_assert [OF two_cells_ok, of "[UserOp 10 (AddTimer 7 20 30 True), Wakeup 25 25]" example_body]
  show ?thesis by (auto simp: t_keys_def elim!: returnsE)
qed

text \<open>
  C14. One wake-up at time \<open>now\<close> runs exactly the timers whose expiration has come, in the
  order of their expirations; afterwards, of these, exactly the repeating ones that no
  callback of the run cancelled are alive, pending again one interval after \<open>now\<close>; every
  other one has been freed.
\<close>

theorem handleRead_exact:
  assumes "tq_ok {} s" and "alloc_ok alloc" and "0 < now"
  shows "unless_oom (tq_handleRead alloc body clk now s) (\<lambda>(hist, s').
    hist = map (\<lambda>(k, _). snd k) (filter (\<lambda>(k, _). fst k \<le> now) (timers s)) \<and> tq_ok {} s' \<and>
    (\<forall>p \<in> set hist. \<forall>t. t_heap s p = Some t \<longrightarrow>
       t_heap s' p = (if t_repeat t \<and> (p, t_sequence t) \<notin> cancelled_by body s hist
                      then Some (restart now t) else None) \<and>
       (t_heap s' p \<noteq> None \<longrightarrow> (now + int (t_interval t), p) \<in> t_keys (timers s'))))"
  using handleRead_spec [OF assms, of body clk]
  by (simp add: expired_part_def case_prod_unfold o_def)

definition example_queue :: tqueue where
  "example_queue = \<lparr>t_heap = [1 \<mapsto> \<lparr>t_callback = 8, t_expiration = 20, t_interval = 30, t_repeat = True, t_sequence = 1\<rparr>,
                            2 \<mapsto> \<lparr>t_callback = 9, t_expiration = 15, t_interval = 40, t_repeat = True, t_sequence = 2\<rparr>],
     timers = [((15, 2), ()), ((20, 1), ())], activeTimers = [((1, 1), ()), ((2, 2), ())],
     callingExpiredTimers = False, cancelingTimers = [], numCreated = 2, armed = Some (15, 0, 100000)\<rparr>"

lemma example_queue_ok: "tq_ok {} example_queue"
  by (auto simp: tq_ok_def tq_inv_def example_queue_def t_keys_def map_ok_def armed_early_def armed_by_def
      UINTPTR_MAX_def split: if_splits)

theorem handleRead_exact_witness:
  "returns (tq_handleRead two_cells example_body 25 25 example_queue) (\<lambda>(hist, s').
     hist = [2, 1] \<and> t_heap s' 1 = None \<and> t_heap s' 2 \<noteq> None \<and> (65, 2) \<in> t_keys (timers s'))"
proof -
  have "returns (tq_handleRead two_cells example_body 25 25 example_queue) (\<lambda>(hist, s'). t_heap s' 2 \<noteq> None)"
    by (simp add: timer_evaluation example_body_def example_queue_def)
  with handleRead_exact [OF example_queue_ok two_cells_ok, of 25 example_body 25] show ?thesis
    by (auto simp: example_queue_def cancelled_by_def example_body_def elim!: returnsE split: if_splits)
qed

text \<open>
  The delay the descriptor is armed with is a normalised \<^verbatim>\<open>timespec\<close> of at least a
  hundred microseconds, and it is the time left whenever more than that is left.
\<close>

theorem howMuchTimeFromNow_delay:
  "case howMuchTimeFromNow now t of (tv_sec, tv_nsec) \<Rightarrow>
     0 \<le> tv_sec \<and> 0 \<le> tv_nsec \<and> tv_nsec < 1000000000 \<and> 1000 dvd tv_nsec \<and>
     tv_sec * 1000000 + tv_nsec div 1000 = (if t - now < 100 then 100 else t - now)"
proof -
  have "m mod 1000000 * 1000 < (1000000000 :: int)" for m
    using pos_mod_bound [of 1000000 m] by linarith
  then show ?thesis
    by (auto simp: howMuchTimeFromNow_def kMicroSecondsPerSecond_def Let_def max_def)
qed

end
