(* ===== verification/EventLoops.thy ===== *)
theory EventLoops
  imports Pollers Timers
begin

text \<open>
  The event loop (\<^verbatim>\<open>netLayer/event/eventloop/EventLoop.cpp\<close>) and the pool of loops
  (\<^verbatim>\<open>EventLoopThread.cpp\<close>, \<^verbatim>\<open>EventLoopThreadPool.cpp\<close>).

  The loop is a step relation that interleaves the loop's thread with any number of other
  threads. One step is an access to shared state: the mutex-protected queue
  \<^verbatim>\<open>pendingFunctors_\<close>, the atomic flag \<^verbatim>\<open>quit_\<close>, the event descriptor \<^verbatim>\<open>wakeupFd_\<close>. A
  callback or functor is whatever list of operations on the loop it performs, chosen
  freely each time it runs. The properties: no wake-up is lost (the loop never sleeps on
  queued work or on a request to quit), functors run exactly once and in the order they
  were queued, and the pool deals its loops in turn.
\<close>

section \<open>Calls on the poller and the timer queue\<close>

text \<open>
  \<open>owner\<close> is the loop a channel was made for; \<open>upd\<close> and \<open>rem\<close> are the poller's operations.
\<close>

definition el_updateChannel :: "(nat \<Rightarrow> nat) \<Rightarrow> (nat \<Rightarrow> 'a chan_world_scheme \<Rightarrow> 'a chan_world_scheme res) \<Rightarrow>
    nat \<Rightarrow> nat \<Rightarrow> 'a chan_world_scheme \<Rightarrow> 'a chan_world_scheme res" where
  "el_updateChannel owner upd self p w =
     ensure (owner p = self) ''channel->ownerLoop() == this'' (assertInLoopThread w (upd p w))"

definition el_hasChannel :: "(nat \<Rightarrow> nat) \<Rightarrow> (int, nat) std_map \<Rightarrow>
    nat \<Rightarrow> nat \<Rightarrow> 'a chan_world_scheme \<Rightarrow> bool res" where
  "el_hasChannel owner channels self p w =
     ensure (owner p = self) ''channel->ownerLoop() == this''
       (assertInLoopThread w (hasChannel p channels w))"

definition kPollTimeMs :: int where "kPollTimeMs = 10000"

definition runAt :: "allocator \<Rightarrow> timestamp \<Rightarrow> timestamp \<Rightarrow> nat \<Rightarrow> tqueue \<Rightarrow> ((nat \<times> int) \<times> tqueue) res" where
  "runAt alloc clk time cb q = addTimer alloc clk cb time 0 False q"

text \<open>A delay is given in microseconds; the clock is read once for the sum.\<close>

definition runAfter :: "allocator \<Rightarrow> timestamp \<Rightarrow> int \<Rightarrow> nat \<Rightarrow> tqueue \<Rightarrow> ((nat \<times> int) \<times> tqueue) res" where
  "runAfter alloc clk delay cb q = runAt alloc clk (addTime clk delay) cb q"

definition runEvery :: "allocator \<Rightarrow> timestamp \<Rightarrow> nat \<Rightarrow> nat \<Rightarrow> tqueue \<Rightarrow> ((nat \<times> int) \<times> tqueue) res" where
  "runEvery alloc clk interval cb q =
     addTimer alloc clk cb (addTime clk (int interval)) interval (0 < interval) q"

section \<open>The loop as a step relation\<close>

datatype loop_op = QueueInLoop nat | RunInLoop nat | Quit | Wakeup

text \<open>Where the loop's thread is in \<^verbatim>\<open>loop()\<close>.\<close>

datatype loop_pc =
    NotLooping        \<comment> \<open>before or after \<^verbatim>\<open>loop()\<close>\<close>
  | Test              \<comment> \<open>at \<^verbatim>\<open>while (!quit_)\<close>\<close>
  | Poll              \<comment> \<open>in \<^verbatim>\<open>poller_->poll\<close>\<close>
  | Handling          \<comment> \<open>in the \<^verbatim>\<open>for\<close> over the active channels\<close>
  | Swap              \<comment> \<open>in \<^verbatim>\<open>doPendingFunctors\<close>, before the swap\<close>
  | Functors          \<comment> \<open>in \<^verbatim>\<open>doPendingFunctors\<close>, after it\<close>

record evloop =
  el_looping :: bool
  el_quit :: bool
  el_eventHandling :: bool
  el_callingPendingFunctors :: bool
  el_iteration :: int
  el_activeChannels :: "nat list"
  el_currentActiveChannel :: "nat option"
  el_pendingFunctors :: "nat list"
  el_wakeupFd :: nat                  \<comment> \<open>counter of the event descriptor\<close>
  el_pc :: loop_pc
  el_code :: "loop_op list"           \<comment> \<open>rest of the callback the loop's thread is in\<close>
  el_todo :: "nat list"               \<comment> \<open>active channels not yet handled\<close>
  el_functors :: "nat list"           \<comment> \<open>rest of the local vector of \<^verbatim>\<open>doPendingFunctors\<close>\<close>
  el_waking :: "nat \<Rightarrow> bool"           \<comment> \<open>other thread between its store and its \<^verbatim>\<open>wakeup()\<close>\<close>
  el_submitted :: "nat list"          \<comment> \<open>history: functors queued\<close>
  el_started :: "nat list"            \<comment> \<open>history: functors called\<close>
  el_early :: bool                    \<comment> \<open>history: queued by the loop's thread outside \<^verbatim>\<open>loop()\<close>, not yet swapped\<close>

text \<open>\<^verbatim>\<open>EventLoop::EventLoop\<close>, after the channel of \<^verbatim>\<open>wakeupFd_\<close> was enabled.\<close>

definition EventLoop_new :: evloop where
  "EventLoop_new = \<lparr>el_looping = False, el_quit = False, el_eventHandling = False,
     el_callingPendingFunctors = False, el_iteration = 0, el_activeChannels = [],
     el_currentActiveChannel = None, el_pendingFunctors = [], el_wakeupFd = 0, el_pc = NotLooping,
     el_code = [], el_todo = [], el_functors = [], el_waking = (\<lambda>_. False), el_submitted = [],
     el_started = [], el_early = False\<rparr>"

definition full_counter :: nat where "full_counter = 2 ^ 64 - 2"

lemma full_counter_pos: "0 < full_counter"
  by (simp add: full_counter_def)

text \<open>\<^verbatim>\<open>wakeup()\<close>: a write to the event descriptor fails when the counter is full.\<close>

definition el_wakeup :: "evloop \<Rightarrow> evloop" where
  "el_wakeup s = s\<lparr>el_wakeupFd := (if el_wakeupFd s < full_counter then el_wakeupFd s + 1 else el_wakeupFd s)\<rparr>"

text \<open>\<^verbatim>\<open>handleRead()\<close>: a read resets the counter.\<close>

definition el_handleRead :: "evloop \<Rightarrow> evloop" where
  "el_handleRead s = s\<lparr>el_wakeupFd := 0\<rparr>"

definition el_push :: "nat \<Rightarrow> evloop \<Rightarrow> evloop" where
  "el_push f s = s\<lparr>el_pendingFunctors := el_pendingFunctors s @ [f], el_submitted := el_submitted s @ [f]\<rparr>"

text \<open>One operation of a callback, in the loop's thread; \<open>body\<close> is what the functor does.\<close>

fun el_op :: "loop_op list \<Rightarrow> loop_op \<Rightarrow> evloop \<Rightarrow> evloop" where
  "el_op body (QueueInLoop f) s =
     (let s1 = el_push f s
      in s1\<lparr>el_code := (if el_callingPendingFunctors s then Wakeup # el_code s else el_code s),
             el_early := el_early s \<or> el_pc s = NotLooping\<rparr>)"
| "el_op body (RunInLoop f) s = s\<lparr>el_code := body @ el_code s\<rparr>"
| "el_op body Quit s = s\<lparr>el_quit := True\<rparr>"
| "el_op body Wakeup s = el_wakeup s"

text \<open>Channel 0 is that of \<^verbatim>\<open>wakeupFd_\<close>; it is active only when the descriptor is readable.\<close>

inductive el_step :: "evloop \<Rightarrow> evloop \<Rightarrow> bool" where
  outside: "el_pc s = NotLooping \<Longrightarrow> el_code s = [] \<Longrightarrow> el_step s (s\<lparr>el_code := code\<rparr>)"
| loop_start: "el_pc s = NotLooping \<Longrightarrow> el_code s = [] \<Longrightarrow> \<not> el_looping s \<Longrightarrow>
    el_step s (s\<lparr>el_looping := True, el_quit := False, el_pc := Test\<rparr>)"
| loop_exit: "el_pc s = Test \<Longrightarrow> el_quit s \<Longrightarrow> el_step s (s\<lparr>el_looping := False, el_pc := NotLooping\<rparr>)"
| loop_again: "el_pc s = Test \<Longrightarrow> \<not> el_quit s \<Longrightarrow> el_step s (s\<lparr>el_activeChannels := [], el_pc := Poll\<rparr>)"
| polled: "el_pc s = Poll \<Longrightarrow> (0 \<in> set act \<longrightarrow> 0 < el_wakeupFd s) \<Longrightarrow>
    el_step s (s\<lparr>el_activeChannels := act, el_iteration := el_iteration s + 1, el_eventHandling := True,
                 el_todo := act, el_pc := Handling\<rparr>)"
| handle_wakeup: "el_pc s = Handling \<Longrightarrow> el_code s = [] \<Longrightarrow> el_todo s = 0 # cs \<Longrightarrow>
    el_step s (el_handleRead (s\<lparr>el_currentActiveChannel := Some 0, el_todo := cs\<rparr>))"
| handle_other: "el_pc s = Handling \<Longrightarrow> el_code s = [] \<Longrightarrow> el_todo s = c # cs \<Longrightarrow> c \<noteq> 0 \<Longrightarrow>
    el_step s (s\<lparr>el_currentActiveChannel := Some c, el_todo := cs, el_code := code\<rparr>)"
| handled: "el_pc s = Handling \<Longrightarrow> el_code s = [] \<Longrightarrow> el_todo s = [] \<Longrightarrow>
    el_step s (s\<lparr>el_currentActiveChannel := None, el_eventHandling := False,
                 el_callingPendingFunctors := True, el_pc := Swap\<rparr>)"
| swap: "el_pc s = Swap \<Longrightarrow>
    el_step s (s\<lparr>el_functors := el_pendingFunctors s, el_pendingFunctors := [], el_early := False,
                 el_pc := Functors\<rparr>)"
| call_functor: "el_pc s = Functors \<Longrightarrow> el_code s = [] \<Longrightarrow> el_functors s = f # fs \<Longrightarrow>
    el_step s (s\<lparr>el_functors := fs, el_started := el_started s @ [f], el_code := code\<rparr>)"
| functors_done: "el_pc s = Functors \<Longrightarrow> el_code s = [] \<Longrightarrow> el_functors s = [] \<Longrightarrow>
    el_step s (s\<lparr>el_callingPendingFunctors := False, el_pc := Test\<rparr>)"
| operation: "el_code s = p # code \<Longrightarrow> el_step s (el_op body p (s\<lparr>el_code := code\<rparr>))"
| other_queue: "\<not> el_waking s t \<Longrightarrow> el_step s ((el_push f s)\<lparr>el_waking := (el_waking s)(t := True)\<rparr>)"
| other_quit: "\<not> el_waking s t \<Longrightarrow> el_step s (s\<lparr>el_quit := True, el_waking := (el_waking s)(t := True)\<rparr>)"
| other_wakeup: "el_waking s t \<Longrightarrow> el_step s ((el_wakeup s)\<lparr>el_waking := (el_waking s)(t := False)\<rparr>)"

abbreviation el_reachable :: "evloop \<Rightarrow> bool" where
  "el_reachable \<equiv> el_step\<^sup>*\<^sup>* EventLoop_new"

text \<open>\<^verbatim>\<open>removeChannel\<close>: while events are handled, only the current channel or an inactive one.\<close>

definition el_removeChannel :: "(nat \<Rightarrow> nat) \<Rightarrow> (nat \<Rightarrow> 'a chan_world_scheme \<Rightarrow> 'a chan_world_scheme res) \<Rightarrow>
    evloop \<Rightarrow> nat \<Rightarrow> nat \<Rightarrow> 'a chan_world_scheme \<Rightarrow> 'a chan_world_scheme res" where
  "el_removeChannel owner rem s self p w =
     ensure (owner p = self) ''channel->ownerLoop() == this''
       (assertInLoopThread w
         (ensure (\<not> el_eventHandling s \<or> el_currentActiveChannel s = Some p \<or> p \<notin> set (el_activeChannels s))
            ''currentActiveChannel_ == channel || not active'' (rem p w)))"

section \<open>Invariant\<close>

definition waking_up :: "evloop \<Rightarrow> bool" where
  "waking_up s \<longleftrightarrow> 0 < el_wakeupFd s \<or> (\<exists>t. el_waking s t)"

text \<open>Queued work or a request to quit will end the coming \<^verbatim>\<open>poll\<close>.\<close>

definition no_sleep :: "evloop \<Rightarrow> bool" where
  "no_sleep s \<longleftrightarrow>
     (el_pc s \<in> {NotLooping, Test, Poll, Functors} \<and> el_pendingFunctors s \<noteq> [] \<and> \<not> el_early s \<longrightarrow>
        waking_up s \<or> el_pc s = Functors \<and> Wakeup \<in> set (el_code s)) \<and>
     (el_pc s = Poll \<and> el_quit s \<longrightarrow> waking_up s)"

text \<open>The flags say where the loop's thread is.\<close>

definition el_flags :: "evloop \<Rightarrow> bool" where
  "el_flags s \<longleftrightarrow> (el_looping s \<longleftrightarrow> el_pc s \<noteq> NotLooping) \<and> (el_eventHandling s \<longleftrightarrow> el_pc s = Handling) \<and>
     (el_callingPendingFunctors s \<longleftrightarrow> el_pc s \<in> {Swap, Functors}) \<and>
     (el_code s \<noteq> [] \<longrightarrow> el_pc s \<in> {NotLooping, Handling, Functors}) \<and>
     (el_functors s \<noteq> [] \<longrightarrow> el_pc s = Functors) \<and>
     (el_currentActiveChannel s \<noteq> None \<longrightarrow> el_pc s = Handling) \<and>
     (el_pc s = Handling \<longrightarrow> set (el_todo s) \<subseteq> set (el_activeChannels s) \<and>
        (\<forall>c. el_currentActiveChannel s = Some c \<longrightarrow> c \<in> set (el_activeChannels s)))"

definition el_fifo :: "evloop \<Rightarrow> bool" where
  "el_fifo s \<longleftrightarrow> el_submitted s = el_started s @ el_functors s @ el_pendingFunctors s"

lemma el_wakeup_simps [simp]:
  "0 < el_wakeupFd (el_wakeup s)" "el_pc (el_wakeup s) = el_pc s" "el_code (el_wakeup s) = el_code s"
  "el_flags (el_wakeup s) = el_flags s" "el_fifo (el_wakeup s) = el_fifo s"
  using full_counter_pos by (auto simp: el_wakeup_def el_flags_def el_fifo_def)

lemma step_flags: "el_step s s' \<Longrightarrow> el_flags s \<Longrightarrow> el_flags s'"
proof (induction rule: el_step.induct)
  case (operation s p code body)
  then show ?case by (cases p) (auto simp: el_flags_def el_push_def el_wakeup_def Let_def)
qed (auto simp: el_flags_def el_push_def el_wakeup_def el_handleRead_def)

lemma step_fifo: "el_step s s' \<Longrightarrow> el_flags s \<Longrightarrow> el_fifo s \<Longrightarrow> el_fifo s'"
proof (induction rule: el_step.induct)
  case (operation s p code body)
  then show ?case by (cases p) (auto simp: el_fifo_def el_push_def el_wakeup_def Let_def)
qed (auto simp: el_flags_def el_fifo_def el_push_def el_wakeup_def el_handleRead_def)

lemma step_no_sleep: "el_step s s' \<Longrightarrow> el_flags s \<Longrightarrow> no_sleep s \<Longrightarrow> no_sleep s'"
proof (induction rule: el_step.induct)
  case (operation s p code body)
  show ?case
  proof (cases p)
    case (QueueInLoop f)
    with operation show ?thesis
      by (cases "el_pc s") (simp_all add: no_sleep_def waking_up_def el_flags_def el_push_def Let_def)
  next
    case Wakeup
    then show ?thesis by (simp add: no_sleep_def waking_up_def)
  next
    case (RunInLoop f)
    with operation show ?thesis by (cases "el_pc s") (auto simp: no_sleep_def waking_up_def)
  next
    case Quit
    with operation show ?thesis by (cases "el_pc s") (simp_all add: no_sleep_def waking_up_def el_flags_def)
  qed
next
  case (other_wakeup s t)
  then show ?case by (simp add: no_sleep_def waking_up_def)
next
  case (other_queue s t f)
  then show ?case by (auto simp: no_sleep_def waking_up_def)
next
  case (other_quit s t)
  then show ?case by (auto simp: no_sleep_def waking_up_def)
next
  case (functors_done s)
  then show ?case by (simp add: no_sleep_def waking_up_def)
qed (simp_all add: no_sleep_def waking_up_def el_flags_def el_handleRead_def)

lemma reachable_invariants: "el_reachable s \<Longrightarrow> el_flags s \<and> el_fifo s \<and> no_sleep s"
proof (induction rule: rtranclp_induct)
  case base
  show ?case by (simp add: EventLoop_new_def el_flags_def el_fifo_def no_sleep_def)
next
  case (step s s')
  then show ?case using step_flags step_fifo step_no_sleep by blast
qed

section \<open>The loop never sleeps on work\<close>


text \<open>The loop is in \<^verbatim>\<open>poll\<close> and thread 5 has queued functor 9.\<close>

definition example_polling :: evloop where
  "example_polling = EventLoop_new\<lparr>el_looping := True, el_pc := Poll, el_pendingFunctors := [9],
     el_submitted := [9], el_wakeupFd := 1\<rparr>"

lemma example_polling_reachable: "el_reachable example_polling"
proof -
  let ?a = "EventLoop_new\<lparr>el_looping := True, el_quit := False, el_pc := Test\<rparr>"
  let ?b = "?a\<lparr>el_activeChannels := [], el_pc := Poll\<rparr>"
  let ?c = "(el_push 9 ?b)\<lparr>el_waking := (el_waking ?b)(5 := True)\<rparr>"
  have s1: "el_step EventLoop_new ?a" by (rule loop_start) (simp_all add: EventLoop_new_def)
  have s2: "el_step ?a ?b" by (rule loop_again) simp_all
  have s3: "el_step ?b ?c" by (rule other_queue) (simp add: EventLoop_new_def)
  have s4: "el_step ?c ((el_wakeup ?c)\<lparr>el_waking := (el_waking ?c)(5 := False)\<rparr>)"
    by (rule other_wakeup) simp
  have "(el_wakeup ?c)\<lparr>el_waking := (el_waking ?c)(5 := False)\<rparr> = example_polling"
    using full_counter_pos by (simp add: example_polling_def el_wakeup_def el_push_def EventLoop_new_def fun_eq_iff)
  with four_steps [of el_step, OF s1 s2 s3 s4] show ?thesis by simp
qed


text \<open>
  C15. Every functor handed to \<^verbatim>\<open>queueInLoop\<close>, by whichever thread, is called at most once
  and in the order of the calls, and it is called only in the loop's thread, outside the
  handling of events: those called so far, those of the current batch and those still
  queued are, in this order, all that were ever queued. Outside \<^verbatim>\<open>doPendingFunctors\<close> no
  batch is left over.
\<close>

theorem functors_once_in_order:
  assumes "el_reachable s"
  shows "el_submitted s = el_started s @ el_functors s @ el_pendingFunctors s \<and>
    (el_pc s \<noteq> Functors \<longrightarrow> el_submitted s = el_started s @ el_pendingFunctors s) \<and>
    (el_functors s \<noteq> [] \<longrightarrow> el_callingPendingFunctors s \<and> \<not> el_eventHandling s)"
  using reachable_invariants [OF assms] by (auto simp: el_fifo_def el_flags_def)

theorem functors_once_in_order_witness:
  "el_submitted example_polling = el_started example_polling @ el_pendingFunctors example_polling \<and>
   el_pendingFunctors example_polling = [9]"
  using functors_once_in_order [OF example_polling_reachable] by (simp add: example_polling_def)

text \<open>
  A functor the loop's own thread queues before it calls \<^verbatim>\<open>loop()\<close> does not wake the
  loop: the thread can be in \<^verbatim>\<open>poll\<close> with that functor queued, nobody about to wake it and
  the event descriptor not readable, until an unrelated event or the timeout.
\<close>

theorem early_functor_can_sleep:
  "\<exists>s. el_reachable s \<and> el_pc s = Poll \<and> el_pendingFunctors s \<noteq> [] \<and> el_wakeupFd s = 0 \<and> (\<forall>t. \<not> el_waking s t)"
proof -
  let ?a = "EventLoop_new\<lparr>el_code := [QueueInLoop 9]\<rparr>"
  let ?b = "el_op [] (QueueInLoop 9) (?a\<lparr>el_code := []\<rparr>)"
  let ?c = "?b\<lparr>el_looping := True, el_quit := False, el_pc := Test\<rparr>"
  let ?d = "?c\<lparr>el_activeChannels := [], el_pc := Poll\<rparr>"
  have s1: "el_step EventLoop_new ?a" by (rule outside) (simp_all add: EventLoop_new_def)
  have s2: "el_step ?a ?b" by (rule operation) simp
  have s3: "el_step ?b ?c" by (rule loop_start) (simp_all add: EventLoop_new_def el_push_def)
  have s4: "el_step ?c ?d" by (rule loop_again) simp_all
  have "el_reachable ?d" by (rule four_steps [of el_step, OF s1 s2 s3 s4])
  then show ?thesis by (rule exI [of _ ?d, OF conjI]) (simp add: el_push_def EventLoop_new_def)
qed

section \<open>EventLoopThread\<close>

datatype starter_pc = NotStarted | Waiting | Returned nat
datatype thread_pc = Unborn | Constructed | Initialised | Looping | Exited

record elthread =
  elt_loop :: "nat option"      \<comment> \<open>\<^verbatim>\<open>loop_\<close>, guarded by the mutex\<close>
  elt_starter :: starter_pc     \<comment> \<open>the caller of \<^verbatim>\<open>startLoop\<close>\<close>
  elt_thread :: thread_pc       \<comment> \<open>the thread in \<^verbatim>\<open>threadFunc\<close>\<close>
  elt_called :: "nat list"      \<comment> \<open>loops the initialisation callback was called on\<close>

definition EventLoopThread_new :: elthread where
  "EventLoopThread_new = \<lparr>elt_loop = None, elt_starter = NotStarted, elt_thread = Unborn, elt_called = []\<rparr>"

text \<open>\<open>l\<close> is the loop on the new thread's stack; \<open>cb\<close>: an initialisation callback is set.\<close>

inductive elt_step :: "nat \<Rightarrow> bool \<Rightarrow> elthread \<Rightarrow> elthread \<Rightarrow> bool" for l cb where
  start: "elt_starter s = NotStarted \<Longrightarrow> elt_step l cb s (s\<lparr>elt_starter := Waiting, elt_thread := Constructed\<rparr>)"
| ready: "elt_starter s = Waiting \<Longrightarrow> elt_loop s = Some l' \<Longrightarrow> elt_step l cb s (s\<lparr>elt_starter := Returned l'\<rparr>)"
| init: "elt_thread s = Constructed \<Longrightarrow>
    elt_step l cb s (s\<lparr>elt_called := (if cb then elt_called s @ [l] else elt_called s), elt_thread := Initialised\<rparr>)"
| publish: "elt_thread s = Initialised \<Longrightarrow> elt_step l cb s (s\<lparr>elt_loop := Some l, elt_thread := Looping\<rparr>)"
| leave: "elt_thread s = Looping \<Longrightarrow> elt_step l cb s (s\<lparr>elt_loop := None, elt_thread := Exited\<rparr>)"

definition elt_inv :: "nat \<Rightarrow> bool \<Rightarrow> elthread \<Rightarrow> bool" where
  "elt_inv l cb s \<longleftrightarrow>
     (elt_loop s = (if elt_thread s = Looping then Some l else None)) \<and>
     (elt_called s = (if cb \<and> elt_thread s \<in> {Initialised, Looping, Exited} then [l] else [])) \<and>
     (case elt_starter s of NotStarted \<Rightarrow> elt_thread s = Unborn
      | Waiting \<Rightarrow> elt_thread s \<noteq> Unborn
      | Returned l' \<Rightarrow> l' = l \<and> elt_thread s \<in> {Looping, Exited})"

lemma elt_step_inv: "elt_step l cb s s' \<Longrightarrow> elt_inv l cb s \<Longrightarrow> elt_inv l cb s'"
  by (induction rule: elt_step.induct) (auto simp: elt_inv_def split: starter_pc.splits if_splits)

lemma elt_reachable_inv: "(elt_step l cb)\<^sup>*\<^sup>* EventLoopThread_new s \<Longrightarrow> elt_inv l cb s"
proof (induction rule: rtranclp_induct)
  case base
  show ?case by (simp add: EventLoopThread_new_def elt_inv_def)
qed (rule elt_step_inv)

text \<open>
  \<^verbatim>\<open>startLoop\<close> returns the new thread's loop, never null, and only after the
  initialisation callback has run on it (once); and as long as that loop runs a waiting
  caller can always return.
\<close>

theorem startLoop_returns_running_loop:
  assumes "(elt_step l cb)\<^sup>*\<^sup>* EventLoopThread_new s"
  shows "(elt_starter s = Returned l' \<longrightarrow> l' = l \<and> elt_called s = (if cb then [l] else [])) \<and>
    (elt_starter s = Waiting \<and> elt_thread s = Looping \<longrightarrow> elt_step l cb s (s\<lparr>elt_starter := Returned l\<rparr>))"
  using elt_reachable_inv [OF assms] elt_step.ready by (auto simp: elt_inv_def)

theorem startLoop_returns_running_loop_witness:
  "\<exists>s. (elt_step 3 True)\<^sup>*\<^sup>* EventLoopThread_new s \<and> elt_starter s = Returned 3 \<and> elt_called s = [3]"
proof -
  let ?a = "EventLoopThread_new\<lparr>elt_starter := Waiting, elt_thread := Constructed\<rparr>"
  let ?b = "?a\<lparr>elt_called := (if True then elt_called ?a @ [3] else elt_called ?a), elt_thread := Initialised\<rparr>"
  let ?c = "?b\<lparr>elt_loop := Some 3, elt_thread := Looping\<rparr>"
  let ?d = "?c\<lparr>elt_starter := Returned 3\<rparr>"
  have s1: "elt_step 3 True EventLoopThread_new ?a" by (rule elt_step.start) (simp add: EventLoopThread_new_def)
  have s2: "elt_step 3 True ?a ?b" by (rule elt_step.init) simp
  have s3: "elt_step 3 True ?b ?c" by (rule elt_step.publish) simp
  have s4: "elt_step 3 True ?c ?d" by (rule elt_step.ready) simp_all
  have "(elt_step 3 True)\<^sup>*\<^sup>* EventLoopThread_new ?d" by (rule four_steps [of "elt_step 3 True", OF s1 s2 s3 s4])
  with startLoop_returns_running_loop [OF this, of 3] show ?thesis by (intro exI [of _ ?d]) simp
qed

section \<open>EventLoopThreadPool\<close>

record elpool =
  pool_baseLoop :: nat
  pool_name :: string
  pool_started :: bool
  pool_numThreads :: int
  pool_next :: int
  pool_loops :: "nat list"

definition EventLoopThreadPool_new :: "nat \<Rightarrow> string \<Rightarrow> elpool" where
  "EventLoopThreadPool_new baseLoop nameArg = \<lparr>pool_baseLoop = baseLoop, pool_name = nameArg,
     pool_started = False, pool_numThreads = 0, pool_next = 0, pool_loops = []\<rparr>"

definition setThreadNum :: "int \<Rightarrow> elpool \<Rightarrow> elpool" where
  "setThreadNum numThreads s = s\<lparr>pool_numThreads := numThreads\<rparr>"

definition in_base_loop :: "bool \<Rightarrow> 'a res \<Rightarrow> 'a res" where
  "in_base_loop inl k = (if inl then k else Inl (Abort ''abortNotInLoopThread''))"

text \<open>
  \<open>startLoop\<close> gives the loop the thread of a name runs; the second result is the loops the
  callback was called on.
\<close>

definition pool_start :: "(string \<Rightarrow> nat) \<Rightarrow> bool \<Rightarrow> bool \<Rightarrow> elpool \<Rightarrow> (elpool \<times> nat list) res" where
  "pool_start startLoop cb inl s =
     ensure (\<not> pool_started s) ''!started_''
       (in_base_loop inl
         (let ls = map (\<lambda>i. startLoop (pool_name s @ show_nat i)) [0..<nat (pool_numThreads s)];
              s1 = s\<lparr>pool_started := True, pool_loops := pool_loops s @ ls\<rparr>
          in Inr (s1, if \<not> cb then [] else if pool_numThreads s = 0 then [pool_baseLoop s] else ls)))"

definition getNextLoop :: "bool \<Rightarrow> elpool \<Rightarrow> (nat \<times> elpool) res" where
  "getNextLoop inl s =
     in_base_loop inl
       (ensure (pool_started s) ''started_''
         (if pool_loops s \<noteq> []
          then if 0 \<le> pool_next s \<and> nat (pool_next s) < length (pool_loops s)
               then (let loop = pool_loops s ! nat (pool_next s);
                         next1 = pool_next s + 1;
                         next2 = (if int (length (pool_loops s)) \<le> next1 then 0 else next1)
                     in Inr (loop, s\<lparr>pool_next := next2\<rparr>))
               else Inl (Undefined ''loops_[next_]'')
          else Inr (pool_baseLoop s, s)))"

definition getLoopForHash :: "bool \<Rightarrow> nat \<Rightarrow> elpool \<Rightarrow> nat res" where
  "getLoopForHash inl hashCode s =
     in_base_loop inl
       (Inr (if pool_loops s \<noteq> [] then pool_loops s ! (hashCode mod length (pool_loops s)) else pool_baseLoop s))"

definition getAllLoops :: "bool \<Rightarrow> elpool \<Rightarrow> nat list res" where
  "getAllLoops inl s =
     in_base_loop inl
       (ensure (pool_started s) ''started_''
         (Inr (if pool_loops s = [] then [pool_baseLoop s] else pool_loops s)))"

text \<open>The next \<open>k\<close> loops the pool deals.\<close>

fun deal :: "nat \<Rightarrow> elpool \<Rightarrow> (nat list \<times> elpool) res" where
  "deal 0 s = Inr ([], s)"
| "deal (Suc k) s =
     bind_r (getNextLoop True s) (\<lambda>(l, s1). bind_r (deal k s1) (\<lambda>(ls, s2). Inr (l # ls, s2)))"

definition pool_ok :: "elpool \<Rightarrow> bool" where
  "pool_ok s \<longleftrightarrow> pool_started s \<and> pool_loops s \<noteq> [] \<and> 0 \<le> pool_next s \<and> nat (pool_next s) < length (pool_loops s)"

lemma getNextLoop_ok:
  assumes "pool_ok s"
  shows "\<exists>s'. getNextLoop True s = Inr (pool_loops s ! nat (pool_next s), s') \<and> pool_ok s' \<and>
    pool_loops s' = pool_loops s \<and> nat (pool_next s') = (nat (pool_next s) + 1) mod length (pool_loops s)"
proof (cases "nat (pool_next s) + 1 = length (pool_loops s)")
  case True
  with assms have "int (length (pool_loops s)) \<le> pool_next s + 1" by (auto simp: pool_ok_def)
  with assms True show ?thesis by (simp add: getNextLoop_def in_base_loop_def pool_ok_def)
next
  case False
  with assms have "\<not> int (length (pool_loops s)) \<le> pool_next s + 1" "nat (pool_next s + 1) = nat (pool_next s) + 1"
    by (auto simp: pool_ok_def)
  with assms False show ?thesis by (simp add: getNextLoop_def in_base_loop_def pool_ok_def)
qed

lemma deal_ok:
  "pool_ok s \<Longrightarrow> returns (deal k s) (\<lambda>(ls, s').
     ls = map (\<lambda>i. pool_loops s ! ((nat (pool_next s) + i) mod length (pool_loops s))) [0..<k] \<and> pool_ok s')"
proof (induction k arbitrary: s)
  case (Suc k)
  from getNextLoop_ok [OF Suc.prems] obtain s1 where s1:
    "getNextLoop True s = Inr (pool_loops s ! nat (pool_next s), s1)" "pool_ok s1" "pool_loops s1 = pool_loops s"
    "nat (pool_next s1) = (nat (pool_next s) + 1) mod length (pool_loops s)" by blast
  have "nat (pool_next s) mod length (pool_loops s) = nat (pool_next s)" using Suc.prems by (simp add: pool_ok_def)
  moreover have "[0..<Suc k] = 0 # map Suc [0..<k]" by (simp add: upt_conv_Cons map_Suc_upt)
  ultimately show ?case using Suc.IH [OF s1(2)] s1
    by (auto simp: mod_add_left_eq returns_bind elim!: returnsE)
qed simp

text \<open>
  A pool started with \<open>n > 0\<close> threads deals its loops strictly in turn, the first one
  first, for any number of calls and never out of range; a pool with no threads always
  answers with the base loop; \<^verbatim>\<open>getLoopForHash\<close> always answers with one of \<^verbatim>\<open>getAllLoops\<close>.
\<close>

theorem pool_round_robin:
  assumes "pool_start startLoop cb True (setThreadNum n (EventLoopThreadPool_new base name)) = Inr (s, called)"
  shows "returns (getAllLoops True s) (\<lambda>ls.
    returns (deal k s) (\<lambda>(dealt, _). dealt = map (\<lambda>i. ls ! (i mod length ls)) [0..<k]) \<and>
    returns (getLoopForHash True hash s) (\<lambda>l. l \<in> set ls) \<and>
    ls = (if n \<le> 0 then [base] else map (\<lambda>i. startLoop (name @ show_nat i)) [0..<nat n]))"
proof -
  let ?ls = "map (\<lambda>i. startLoop (name @ show_nat i)) [0..<nat n]"
  have s: "pool_loops s = ?ls" "pool_started s" "pool_next s = 0" "pool_baseLoop s = base"
    using assms by (auto simp: pool_start_def setThreadNum_def EventLoopThreadPool_new_def in_base_loop_def Let_def)
  show ?thesis
  proof (cases "n \<le> 0")
    case True
    have "getNextLoop True s = Inr (base, s)" using s True by (simp add: getNextLoop_def in_base_loop_def)
    then have "deal k s = Inr (replicate k base, s)" by (induction k) simp_all
    with s True show ?thesis
      by (simp add: getAllLoops_def getLoopForHash_def in_base_loop_def map_replicate_const)
  next
    case False
    with s have "pool_ok s" by (simp add: pool_ok_def)
    from deal_ok [OF this, of k] s False show ?thesis
      by (auto simp: getAllLoops_def getLoopForHash_def in_base_loop_def elim!: returnsE)
  qed
qed

theorem pool_round_robin_witness:
  "\<exists>s called. pool_start (\<lambda>nm. length nm) True True (setThreadNum 2 (EventLoopThreadPool_new 7 ''io'')) = Inr (s, called) \<and>
     returns (deal 3 s) (\<lambda>(dealt, _). dealt = [3, 3, 3])"
proof -
  obtain s called where s:
    "pool_start (\<lambda>nm. length nm) True True (setThreadNum 2 (EventLoopThreadPool_new 7 ''io'')) = Inr (s, called)"
    by (simp add: pool_start_def setThreadNum_def EventLoopThreadPool_new_def in_base_loop_def Let_def)
  have "pool_loops s = [3, 3]" "pool_started s"
    using s by (auto simp: pool_start_def setThreadNum_def EventLoopThreadPool_new_def in_base_loop_def Let_def
        numeral_2_eq_2 show_nat.simps)
  with pool_round_robin [OF s, of 3 0] s show ?thesis
    by (auto simp: getAllLoops_def in_base_loop_def numeral_3_eq_3 elim!: returnsE)
qed

end
