(* ===== verification/Servers.thy ===== *)
theory Servers
  imports Sockets Lifecycles EventLoops StdMap
begin

text \<open>
  The TCP server (\<^verbatim>\<open>netLayer/tcp/s/Acceptor.cpp\<close>, \<^verbatim>\<open>netLayer/tcp/s/server/TcpServer.cpp\<close>).

  The acceptor runs in the base loop; the server gives each accepted connection a name and
  one of the loops of its pool, keeps it in its map until the connection reports that it
  is closed, and then has it destroyed in its own loop. The connections are those of
  theory \<open>TcpConnections\<close>, the pool is that of theory \<open>EventLoops\<close>. What is queued on
  the loops is one list of pairs of a loop and a functor: each loop runs its own entries in order, the loops run
  in any interleaving. The properties: the acceptor loses no descriptor, no assertion
  fails, and a connection is in the map exactly until it is removed and destroyed once.
\<close>

section \<open>Acceptor\<close>

datatype fd_note = Opened int | ClosedFd int | HandedOn int

record acceptor =
  ac_listenning :: bool
  ac_reading :: bool             \<comment> \<open>\<^verbatim>\<open>acceptChannel_\<close> is registered for reading\<close>
  ac_idleFd :: int
  ac_trace :: "fd_note list"     \<comment> \<open>history: descriptors obtained, closed, handed on\<close>

text \<open>The answers of \<^verbatim>\<open>socket\<close>, \<^verbatim>\<open>open\<close> and \<^verbatim>\<open>bind\<close>.\<close>

definition Acceptor_new :: "int + int \<Rightarrow> int \<Rightarrow> int + unit \<Rightarrow> acceptor res" where
  "Acceptor_new sock idle bound =
     bind_r (createNonblockingOrDie sock) (\<lambda>_.
       ensure (0 \<le> idle) ''idleFd_ >= 0''
         (bind_r (bindOrDie bound) (\<lambda>_.
           Inr \<lparr>ac_listenning = False, ac_reading = False, ac_idleFd = idle, ac_trace = [Opened idle]\<rparr>)))"

definition Acceptor_delete :: "acceptor \<Rightarrow> acceptor" where
  "Acceptor_delete a = a\<lparr>ac_reading := False, ac_trace := ac_trace a @ [ClosedFd (ac_idleFd a)]\<rparr>"

definition Acceptor_listen :: "int + unit \<Rightarrow> acceptor \<Rightarrow> acceptor res" where
  "Acceptor_listen answer a =
     bind_r (listenOrDie answer) (\<lambda>_. Inr (a\<lparr>ac_listenning := True, ac_reading := True\<rparr>))"

text \<open>
  Arguments: whether the callback is set; the answers of \<^verbatim>\<open>accept4\<close>, of the second
  \<^verbatim>\<open>accept\<close> and of \<^verbatim>\<open>open\<close> (a negative number when they fail). The result has the
  connection the callback is called with.
\<close>

definition Acceptor_handleRead :: "bool \<Rightarrow> int + int \<times> sockaddr \<Rightarrow> int \<Rightarrow> int \<Rightarrow> acceptor \<Rightarrow>
    ((int \<times> sockaddr) option \<times> acceptor) res" where
  "Acceptor_handleRead callback answer answer2 opened a =
     bind_r (Socket_accept answer (InetAddress_port memZero6 0 False False)) (\<lambda>(r, peerAddr).
       case r of
         Inr connfd \<Rightarrow>
           Inr (if callback then (Some (connfd, peerAddr), a\<lparr>ac_trace := ac_trace a @ [Opened connfd, HandedOn connfd]\<rparr>)
                else (None, a\<lparr>ac_trace := ac_trace a @ [Opened connfd, ClosedFd connfd]\<rparr>))
       | Inl errno \<Rightarrow>
           Inr (None,
             if errno = EMFILE
             then a\<lparr>ac_idleFd := opened,
                    ac_trace := ac_trace a @ [ClosedFd (ac_idleFd a), Opened answer2, ClosedFd answer2, Opened opened]\<rparr>
             else a))"

text \<open>Every descriptor obtained is closed or handed on exactly once, but for the reserve.\<close>

definition fds_accounted :: "acceptor \<Rightarrow> bool" where
  "fds_accounted a \<longleftrightarrow> (\<forall>fd \<ge> 0. count_list (ac_trace a) (Opened fd) =
     count_list (ac_trace a) (ClosedFd fd) + count_list (ac_trace a) (HandedOn fd) + (if ac_idleFd a = fd then 1 else 0))"

lemma Acceptor_new_accounted: "Acceptor_new sock idle bound = Inr a \<Longrightarrow> fds_accounted a"
  by (auto simp: Acceptor_new_def bind_r_eq_Inr ensure_eq_Inr fds_accounted_def)

lemma handleRead_accounted:
  assumes "fds_accounted a" and "Acceptor_handleRead cb answer answer2 opened a = Inr (r, a')"
  shows "fds_accounted a'"
  using assms
  by (auto simp: Acceptor_handleRead_def fds_accounted_def bind_r_eq_Inr split: if_splits sum.splits)

section \<open>TcpServer\<close>

datatype sv_functor = Listen | ConnectEstablished nat | RemoveConnectionInLoop nat | ConnectDestroyed nat

text \<open>A connection object: its name, its loop and its state.\<close>

record 'c sv_obj =
  so_name :: string
  so_loop :: nat
  so_conn :: "'c tcpconn"

record 'c server =
  sv_name :: string
  sv_ipPort :: string
  sv_acceptor :: acceptor
  sv_pool :: elpool
  sv_started :: bool
  sv_nextConnId :: int
  sv_connections :: "(string, nat option) std_map"   \<comment> \<open>name, object; null only between operations\<close>
  sv_objs :: "'c sv_obj list"                        \<comment> \<open>all connections made, in order\<close>
  sv_queued :: "(nat \<times> sv_functor) list"             \<comment> \<open>loop, functor\<close>

text \<open>What is outside: the callbacks and system calls of connections, and what is set on them.\<close>

record 'c sv_env =
  se_conn :: "'c conn_env"
  se_context :: 'c
  se_writeComplete :: bool

abbreviation sv_base :: "'c server \<Rightarrow> nat" where
  "sv_base s \<equiv> pool_baseLoop (sv_pool s)"

definition TcpServer_new :: "inet_lib \<Rightarrow> nat \<Rightarrow> sockaddr \<Rightarrow> string \<Rightarrow> acceptor \<Rightarrow> 'c server res" where
  "TcpServer_new lib loop listenAddr nameArg a =
     bind_r (inet_toIpPort lib listenAddr) (\<lambda>ipPort.
       Inr \<lparr>sv_name = nameArg, sv_ipPort = ipPort, sv_acceptor = a, sv_pool = EventLoopThreadPool_new loop nameArg,
         sv_started = False, sv_nextConnId = 1, sv_connections = [], sv_objs = [], sv_queued = []\<rparr>)"

definition sv_setThreadNum :: "int \<Rightarrow> 'c server \<Rightarrow> 'c server res" where
  "sv_setThreadNum numThreads s =
     ensure (0 \<le> numThreads) ''0 <= numThreads'' (Inr (s\<lparr>sv_pool := setThreadNum numThreads (sv_pool s)\<rparr>))"

definition sv_queue :: "nat \<Rightarrow> sv_functor \<Rightarrow> 'c server \<Rightarrow> 'c server" where
  "sv_queue l f s = s\<lparr>sv_queued := sv_queued s @ [(l, f)]\<rparr>"

text \<open>\<^verbatim>\<open>start\<close>, in the thread of the base loop (\<open>inl\<close>) or not; \<open>answer\<close>: of \<^verbatim>\<open>listen\<close>.\<close>

definition sv_start :: "(string \<Rightarrow> nat) \<Rightarrow> int + unit \<Rightarrow> bool \<Rightarrow> bool \<Rightarrow> 'c server \<Rightarrow> 'c server res" where
  "sv_start startLoop answer cb inl s =
     (if \<not> sv_started s
      then bind_r (pool_start startLoop cb inl (sv_pool s)) (\<lambda>(p, _).
             let s1 = s\<lparr>sv_started := True, sv_pool := p\<rparr>
             in ensure (\<not> ac_listenning (sv_acceptor s1)) ''!acceptor_->listenning()''
                  (if inl then bind_r (Acceptor_listen answer (sv_acceptor s1)) (\<lambda>a. Inr (s1\<lparr>sv_acceptor := a\<rparr>))
                   else Inr (sv_queue (sv_base s1) Listen s1)))
      else Inr s)"

definition upd_conn :: "nat \<Rightarrow> 'c tcpconn \<Rightarrow> 'c server \<Rightarrow> 'c server" where
  "upd_conn i c s = s\<lparr>sv_objs := (sv_objs s)[i := (sv_objs s ! i)\<lparr>so_conn := c\<rparr>]\<rparr>"

definition conn_name :: "'c server \<Rightarrow> int \<Rightarrow> string" where
  "conn_name s connId = sv_name s @ snprintf 64 (''-'' @ sv_ipPort s @ ''#'' @ show_int connId)"

text \<open>\<^verbatim>\<open>ioLoop->runInLoop(connectEstablished)\<close>, from the thread of the base loop.\<close>

definition sv_establish :: "'c sv_env \<Rightarrow> nat \<Rightarrow> 'c server \<Rightarrow> 'c server res" where
  "sv_establish env i s = bind_r (connectEstablished (se_conn env) (so_conn (sv_objs s ! i))) (\<lambda>c. Inr (upd_conn i c s))"

definition sv_newConnection :: "'c sv_env \<Rightarrow> int \<Rightarrow> 'c server \<Rightarrow> 'c server res" where
  "sv_newConnection env sockfd s =
     bind_r (getNextLoop True (sv_pool s)) (\<lambda>(ioLoop, p).
       let connName = conn_name s (sv_nextConnId s)
       in if sv_nextConnId s = 2 ^ 31 - 1 then Inl (Undefined ''++nextConnId_'')
          else bind_r (Buffer_new kInitialSize) (\<lambda>b.
            let conn = TcpConnection_new sockfd b b (se_context env) (se_writeComplete env) False;
                i = length (sv_objs s);
                s1 = s\<lparr>sv_pool := p, sv_nextConnId := sv_nextConnId s + 1,
                       sv_connections := map_set connName (Some i) (sv_connections s),
                       sv_objs := sv_objs s @ [\<lparr>so_name = connName, so_loop = ioLoop, so_conn = conn\<rparr>]\<rparr>
            in if ioLoop = sv_base s1 then sv_establish env i s1
               else Inr (sv_queue ioLoop (ConnectEstablished i) s1)))"

definition sv_removeConnectionInLoop :: "nat \<Rightarrow> 'c server \<Rightarrow> 'c server res" where
  "sv_removeConnectionInLoop i s =
     (let obj = sv_objs s ! i;
          m1 = (case map_find (so_name obj) (sv_connections s) of
                  None \<Rightarrow> map_set (so_name obj) None (sv_connections s) | Some _ \<Rightarrow> sv_connections s);
          n = (case map_find (so_name obj) m1 of None \<Rightarrow> 0 | Some _ \<Rightarrow> (1::nat));
          m2 = map_erase (so_name obj) m1
      in ensure (n = 1) ''n == 1''
           (Inr (sv_queue (so_loop obj) (ConnectDestroyed i) (s\<lparr>sv_connections := m2\<rparr>))))"

text \<open>Called in the thread of the connection's loop.\<close>

definition sv_removeConnection :: "nat \<Rightarrow> 'c server \<Rightarrow> 'c server res" where
  "sv_removeConnection i s =
     (if so_loop (sv_objs s ! i) = sv_base s then sv_removeConnectionInLoop i s
      else Inr (sv_queue (sv_base s) (RemoveConnectionInLoop i) s))"

text \<open>\<^verbatim>\<open>~TcpServer\<close>, in the thread of the base loop.\<close>

definition sv_destroy_one :: "'c sv_env \<Rightarrow> string \<times> nat option \<Rightarrow> 'c server \<Rightarrow> 'c server res" where
  "sv_destroy_one env item s =
     (case snd item of
        None \<Rightarrow> Inl (Undefined ''null connection'')
      | Some i \<Rightarrow>
          let s1 = s\<lparr>sv_connections := map_set (fst item) None (sv_connections s)\<rparr>
          in if so_loop (sv_objs s1 ! i) = sv_base s1
             then bind_r (connectDestroyed (se_conn env) (so_conn (sv_objs s1 ! i))) (\<lambda>c. Inr (upd_conn i c s1))
             else Inr (sv_queue (so_loop (sv_objs s1 ! i)) (ConnectDestroyed i) s1))"

definition TcpServer_delete :: "'c sv_env \<Rightarrow> 'c server \<Rightarrow> 'c server res" where
  "TcpServer_delete env s = fold_r (sv_destroy_one env) (sv_connections s) s"

section \<open>Runs\<close>

fun run_sv_functor :: "'c sv_env \<Rightarrow> int + unit \<Rightarrow> sv_functor \<Rightarrow> 'c server \<Rightarrow> 'c server res" where
  "run_sv_functor env answer Listen s =
     bind_r (Acceptor_listen answer (sv_acceptor s)) (\<lambda>a. Inr (s\<lparr>sv_acceptor := a\<rparr>))"
| "run_sv_functor env answer (ConnectEstablished i) s = sv_establish env i s"
| "run_sv_functor env answer (RemoveConnectionInLoop i) s = sv_removeConnectionInLoop i s"
| "run_sv_functor env answer (ConnectDestroyed i) s =
     bind_r (connectDestroyed (se_conn env) (so_conn (sv_objs s ! i))) (\<lambda>c. Inr (upd_conn i c s))"

text \<open>The next functor of a loop.\<close>

definition next_of :: "nat \<Rightarrow> (nat \<times> sv_functor) list \<Rightarrow> (nat \<times> sv_functor) option" where
  "next_of l q = find (\<lambda>p. fst p = l) q"

text \<open>An event of a connection; when its close callback was called, the server removes it.\<close>

definition sv_conn_event :: "'c sv_env \<Rightarrow> nat \<Rightarrow> conn_event \<Rightarrow> 'c server \<Rightarrow> 'c server res" where
  "sv_conn_event env i e s =
     (let c = so_conn (sv_objs s ! i)
      in bind_r (conn_step (se_conn env) e c) (\<lambda>c'.
           if NoteClosed \<in> set (cn_log c') \<and> NoteClosed \<notin> set (cn_log c)
           then sv_removeConnection i (upd_conn i c' s) else Inr (upd_conn i c' s)))"

datatype sv_event =
    SvAccept "int + int \<times> sockaddr" int int     \<comment> \<open>the listening socket is readable\<close>
  | SvConn nat conn_event
  | SvRun nat "int + unit"                       \<comment> \<open>a loop runs its next functor\<close>

fun sv_step :: "'c sv_env \<Rightarrow> sv_event \<Rightarrow> 'c server \<Rightarrow> 'c server res" where
  "sv_step env (SvAccept answer answer2 opened) s =
     bind_r (Acceptor_handleRead True answer answer2 opened (sv_acceptor s)) (\<lambda>(r, a).
       let s1 = s\<lparr>sv_acceptor := a\<rparr>
       in case r of None \<Rightarrow> Inr s1 | Some (connfd, peerAddr) \<Rightarrow> sv_newConnection env connfd s1)"
| "sv_step env (SvConn i e) s = sv_conn_event env i e s"
| "sv_step env (SvRun l answer) s =
     (case next_of l (sv_queued s) of
        None \<Rightarrow> Inr s
      | Some p \<Rightarrow> run_sv_functor env answer (snd p) (s\<lparr>sv_queued := remove1 p (sv_queued s)\<rparr>))"

text \<open>
  What can happen: connections arrive while the server listens, fewer than
  \<^verbatim>\<open>INT_MAX - 1\<close> in all; \<^verbatim>\<open>accept\<close> reports expected errors only and \<^verbatim>\<open>listen\<close> succeeds; the
  events of a connection are those it handles, but for establishing and destroying, which
  the server does.
\<close>

fun sv_may :: "sv_event \<Rightarrow> 'c server \<Rightarrow> bool" where
  "sv_may (SvAccept answer answer2 opened) s \<longleftrightarrow> ac_reading (sv_acceptor s) \<and> int (length (sv_objs s)) < 2 ^ 31 - 2 \<and>
     (\<forall>e. answer = Inl e \<longrightarrow> e \<in> set accept_expected)"
| "sv_may (SvConn i e) s \<longleftrightarrow> i < length (sv_objs s) \<and> conn_may e (so_conn (sv_objs s ! i)) \<and> e \<noteq> Established \<and> e \<noteq> Destroyed"
| "sv_may (SvRun l answer) s \<longleftrightarrow> next_of l (sv_queued s) \<noteq> None \<and> answer = Inr ()"

section \<open>Invariant\<close>

definition in_map :: "'c server \<Rightarrow> nat \<Rightarrow> bool" where
  "in_map s i \<longleftrightarrow> map_find (so_name (sv_objs s ! i)) (sv_connections s) \<noteq> None"

definition placed_obj :: "'c server \<Rightarrow> nat \<Rightarrow> bool" where
  "placed_obj s i \<longleftrightarrow>
     obj_place (so_conn (sv_objs s ! i)) (in_map s i)
       (count_list (sv_queued s) (so_loop (sv_objs s ! i), ConnectEstablished i))
       (count_list (sv_queued s) (sv_base s, RemoveConnectionInLoop i))
       (count_list (sv_queued s) (so_loop (sv_objs s ! i), ConnectDestroyed i))"

text \<open>Functors are queued on the loop they belong to.\<close>

fun functor_placed :: "'c server \<Rightarrow> nat \<times> sv_functor \<Rightarrow> bool" where
  "functor_placed s (l, Listen) \<longleftrightarrow> l = sv_base s"
| "functor_placed s (l, ConnectEstablished i) \<longleftrightarrow> i < length (sv_objs s) \<and> l = so_loop (sv_objs s ! i)"
| "functor_placed s (l, RemoveConnectionInLoop i) \<longleftrightarrow> i < length (sv_objs s) \<and> l = sv_base s"
| "functor_placed s (l, ConnectDestroyed i) \<longleftrightarrow> i < length (sv_objs s) \<and> l = so_loop (sv_objs s ! i)"

definition pool_ready :: "elpool \<Rightarrow> bool" where
  "pool_ready p \<longleftrightarrow> pool_started p \<and> (pool_loops p = [] \<or> pool_ok p)"

definition sv_shape :: "'c server \<Rightarrow> bool" where
  "sv_shape s \<longleftrightarrow> pool_ready (sv_pool s) \<and> length (sv_ipPort s) \<le> 51 \<and> sv_nextConnId s = int (length (sv_objs s)) + 1 \<and>
     int (length (sv_objs s)) < 2 ^ 31 - 1 \<and> (\<forall>i < length (sv_objs s). so_name (sv_objs s ! i) = conn_name s (int i + 1)) \<and>
     map_ok (sv_connections s) \<and>
     (\<forall>k v. map_find k (sv_connections s) = Some v \<longrightarrow> (\<exists>i < length (sv_objs s). k = so_name (sv_objs s ! i) \<and> v = Some i)) \<and>
     (\<forall>p \<in> set (sv_queued s). functor_placed s p) \<and> fds_accounted (sv_acceptor s)"

text \<open>The names are distinct: they fit their buffer, and the numbers differ.\<close>

lemma conn_name_inj:
  assumes "length (sv_ipPort s) \<le> 51" and "i < 2 ^ 31" and "j < 2 ^ 31" and "conn_name s (int i) = conn_name s (int j)"
  shows "i = j"
proof -
  have fits: "snprintf 64 (''-'' @ sv_ipPort s @ ''#'' @ show_int (int k)) = ''-'' @ sv_ipPort s @ ''#'' @ show_nat k"
    if "k < 2 ^ 31" for k
  proof -
    have "length (show_nat k) \<le> 10" using that length_show_nat [of k 9] by simp
    with assms(1) have "length (''-'' @ sv_ipPort s @ ''#'' @ show_int (int k)) < 64" by (simp add: show_int_def)
    from snprintf_fits [OF this] show ?thesis by (simp add: show_int_def)
  qed
  have "show_nat i = show_nat j"
    using assms(4) unfolding conn_name_def fits [OF assms(2)] fits [OF assms(3)] by simp
  then show ?thesis by (rule show_nat_inj)
qed

lemma names_distinct:
  assumes "sv_shape s" and "i < length (sv_objs s)" and "j < length (sv_objs s)" and "so_name (sv_objs s ! i) = so_name (sv_objs s ! j)"
  shows "i = j"
proof -
  have "conn_name s (int (i + 1)) = conn_name s (int (j + 1))" using assms by (simp add: sv_shape_def add.commute)
  moreover have "i + 1 < 2 ^ 31" "j + 1 < 2 ^ 31" using assms by (auto simp: sv_shape_def)
  ultimately have "i + 1 = j + 1" using conn_name_inj [of s "i + 1" "j + 1"] assms(1) by (simp add: sv_shape_def)
  then show ?thesis by simp
qed

lemma count_list_remove1: "count_list (remove1 x xs) y = (if x = y then count_list xs y - 1 else count_list xs y)"
proof (induction xs)
  case (Cons a xs)
  have "0 < count_list xs x" if "x \<in> set xs" using that count_list_0_iff [of xs x] by simp
  with Cons show ?case by (auto simp: remove1_idem)
qed simp

lemma next_of_Some: "next_of l q = Some p \<Longrightarrow> p \<in> set q \<and> fst p = l"
  by (auto simp: next_of_def find_Some_iff)

text \<open>A step about one connection: everything else is as before.\<close>

definition only_obj :: "nat \<Rightarrow> 'c server \<Rightarrow> 'c server \<Rightarrow> bool" where
  "only_obj i s s' \<longleftrightarrow>
     sv_name s' = sv_name s \<and> sv_ipPort s' = sv_ipPort s \<and> sv_pool s' = sv_pool s \<and> sv_acceptor s' = sv_acceptor s \<and>
     sv_nextConnId s' = sv_nextConnId s \<and> length (sv_objs s') = length (sv_objs s) \<and>
     (\<forall>j. so_name (sv_objs s' ! j) = so_name (sv_objs s ! j) \<and> so_loop (sv_objs s' ! j) = so_loop (sv_objs s ! j)) \<and>
     (\<forall>j. j \<noteq> i \<longrightarrow> so_conn (sv_objs s' ! j) = so_conn (sv_objs s ! j)) \<and>
     (\<forall>l f. f \<notin> {ConnectEstablished i, RemoveConnectionInLoop i, ConnectDestroyed i, Listen} \<longrightarrow>
        count_list (sv_queued s') (l, f) = count_list (sv_queued s) (l, f)) \<and>
     (\<forall>p \<in> set (sv_queued s'). functor_placed s p) \<and>
     (sv_connections s' = sv_connections s \<or> sv_connections s' = map_erase (so_name (sv_objs s ! i)) (sv_connections s))"

lemma only_obj_placed:
  assumes shape: "sv_shape s" and only: "only_obj i s s'" and i: "i < length (sv_objs s)" and j: "j < length (sv_objs s)"
    and "j \<noteq> i" and "placed_obj s j"
  shows "placed_obj s' j"
proof -
  have "so_name (sv_objs s ! j) \<noteq> so_name (sv_objs s ! i)" using names_distinct [OF shape j i] \<open>j \<noteq> i\<close> by blast
  then have "in_map s' j = in_map s j"
    using only shape by (auto simp: in_map_def only_obj_def sv_shape_def map_find_map_erase)
  with only \<open>j \<noteq> i\<close> \<open>placed_obj s j\<close> show ?thesis by (simp add: placed_obj_def only_obj_def)
qed

lemma only_obj_shape:
  assumes shape: "sv_shape s" and only: "only_obj i s s'"
  shows "sv_shape s'"
proof -
  have "conn_name s' = conn_name s" using only by (auto simp: conn_name_def only_obj_def)
  moreover have "functor_placed s' p = functor_placed s p" for p
    using only by (cases "(s, p)" rule: functor_placed.cases) (auto simp: only_obj_def)
  moreover have "map_ok (sv_connections s')" using shape only by (auto simp: only_obj_def sv_shape_def map_erase_ok)
  moreover have "map_find k (sv_connections s') = Some v \<Longrightarrow> map_find k (sv_connections s) = Some v" for k v
    using shape only by (auto simp: only_obj_def sv_shape_def map_find_map_erase split: if_splits)
  ultimately show ?thesis using shape only by (auto simp: sv_shape_def only_obj_def)
qed

section \<open>Every step\<close>

context conn_callbacks
begin

definition sv_inv :: "'c server \<Rightarrow> bool" where
  "sv_inv s \<longleftrightarrow> sv_shape s \<and> (\<forall>i < length (sv_objs s). at_rest (so_conn (sv_objs s ! i)) \<and> placed_obj s i)"

lemma only_obj_inv:
  assumes inv: "sv_inv s" and i: "i < length (sv_objs s)" and only: "only_obj i s s'"
    and here: "at_rest (so_conn (sv_objs s' ! i))" "placed_obj s' i"
  shows "sv_inv s'"
  unfolding sv_inv_def
proof (intro conjI allI impI)
  show "sv_shape s'" using inv only_obj_shape [OF _ only] by (simp add: sv_inv_def)
  fix j assume "j < length (sv_objs s')"
  then have j: "j < length (sv_objs s)" using only by (simp add: only_obj_def)
  show "at_rest (so_conn (sv_objs s' ! j))" using here(1) inv j only by (cases "j = i") (simp_all add: sv_inv_def only_obj_def)
  show "placed_obj s' j"
    using here(2) only_obj_placed [OF _ only i j] inv j by (cases "j = i") (simp_all add: sv_inv_def)
qed

lemma upd_only:
  assumes "i < length (sv_objs s)" and "sv_inv s"
  shows "only_obj i s (upd_conn i c s)"
  using assms by (auto simp: only_obj_def upd_conn_def nth_list_update sv_inv_def sv_shape_def)

lemma upd_conn_simps [simp]:
  assumes "i < length (sv_objs s)"
  shows "so_conn (sv_objs (upd_conn i c s) ! i) = c" "so_loop (sv_objs (upd_conn i c s) ! j) = so_loop (sv_objs s ! j)"
    "so_name (sv_objs (upd_conn i c s) ! j) = so_name (sv_objs s ! j)" "sv_queued (upd_conn i c s) = sv_queued s"
    "sv_connections (upd_conn i c s) = sv_connections s" "sv_pool (upd_conn i c s) = sv_pool s"
  using assms by (auto simp: upd_conn_def nth_list_update)

lemma inv_obj:
  assumes "sv_inv s" and "i < length (sv_objs s)"
  shows "at_rest (so_conn (sv_objs s ! i))" "placed_obj s i"
  using assms by (simp_all add: sv_inv_def)

text \<open>The close callback: the connection leaves the map now or when the base loop runs the functor.\<close>

lemma removal_inv:
  assumes inv: "sv_inv s" and i: "i < length (sv_objs s)" and c: "at_rest c" "cn_state c = kDisconnected"
    "ch_addedToLoop (cn_channel c)" "cn_log c = [NoteUp, NoteDown, NoteClosed]"
    and up: "cn_state (so_conn (sv_objs s ! i)) = kConnected \<or> cn_state (so_conn (sv_objs s ! i)) = kDisconnecting"
  shows "returns (sv_removeConnection i (upd_conn i c s)) sv_inv"
proof -
  let ?u = "upd_conn i c s" and ?o = "sv_objs s ! i"
  have shape: "sv_shape s" and pl: "placed_obj s i" using inv i by (simp_all add: sv_inv_def)
  have inm: "in_map s i" and zero: "count_list (sv_queued s) (so_loop ?o, ConnectEstablished i) = 0"
    "count_list (sv_queued s) (sv_base s, RemoveConnectionInLoop i) = 0"
    "count_list (sv_queued s) (so_loop ?o, ConnectDestroyed i) = 0"
    using pl up by (auto simp: placed_obj_def obj_place_def)
  have only: "only_obj i s ?u" by (rule upd_only [OF i inv])
  show ?thesis
  proof (cases "so_loop ?o = sv_base s")
    case True
    let ?s' = "sv_queue (so_loop ?o) (ConnectDestroyed i) (?u\<lparr>sv_connections := map_erase (so_name ?o) (sv_connections s)\<rparr>)"
    have "only_obj i s ?s'" using only i shape by (auto simp: only_obj_def sv_queue_def sv_shape_def)
    moreover have "placed_obj ?s' i" using i c zero shape
      by (simp add: placed_obj_def obj_place_def in_map_def sv_queue_def sv_shape_def map_find_map_erase)
    moreover have "at_rest (so_conn (sv_objs ?s' ! i))" using i c(1) by (simp add: sv_queue_def)
    ultimately have "sv_inv ?s'" by (intro only_obj_inv [OF inv i])
    moreover have "sv_removeConnection i ?u = Inr ?s'"
      using True i inm by (auto simp: sv_removeConnection_def sv_removeConnectionInLoop_def in_map_def Let_def)
    ultimately show ?thesis by simp
  next
    case False
    let ?s' = "sv_queue (sv_base s) (RemoveConnectionInLoop i) ?u"
    have "only_obj i s ?s'" using only i by (auto simp: only_obj_def sv_queue_def)
    moreover have "placed_obj ?s' i" using i c zero inm
      by (simp add: placed_obj_def obj_place_def in_map_def sv_queue_def)
    moreover have "at_rest (so_conn (sv_objs ?s' ! i))" using i c(1) by (simp add: sv_queue_def)
    ultimately have "sv_inv ?s'" by (intro only_obj_inv [OF inv i])
    then show ?thesis using False i by (simp add: sv_removeConnection_def)
  qed
qed

lemma conn_event_inv:
  assumes E: "se_conn E = env" and inv: "sv_inv s" and may: "sv_may (SvConn i e) s"
  shows "returns (sv_conn_event E i e s) sv_inv"
proof -
  let ?c = "so_conn (sv_objs s ! i)"
  have i: "i < length (sv_objs s)" using may by simp
  note o = inv_obj [OF inv i]
  from conn_step_phase [OF o(1)] may obtain c' where c': "conn_step env e ?c = Inr c'" "rest_rel ?c c'" by (auto elim: returnsE)
  have rest': "at_rest c'" using c'(2) by (simp add: rest_rel_def)
  show ?thesis
  proof (cases "NoteClosed \<in> set (cn_log c') \<and> NoteClosed \<notin> set (cn_log ?c)")
    case True
    note new = newly_closed [OF o(1) c'(2)]
    have "returns (sv_removeConnection i (upd_conn i c' s)) sv_inv"
      by (rule removal_inv [OF inv i rest']) (use new True in simp_all)
    with True c' E show ?thesis by (simp add: sv_conn_event_def)
  next
    case False
    have "placed_obj (upd_conn i c' s) i"
      using o(2) place_kept [OF o(1) c'(2) False] i by (simp add: placed_obj_def in_map_def)
    then have "sv_inv (upd_conn i c' s)"
      using i rest' by (intro only_obj_inv [OF inv i upd_only [OF i inv]]) simp_all
    with False c' E show ?thesis by (auto simp: sv_conn_event_def)
  qed
qed

text \<open>A functor is taken from the queue.\<close>

lemma dequeue_only:
  assumes "sv_inv s" and "i < length (sv_objs s)"
    and "f \<in> {ConnectEstablished i, RemoveConnectionInLoop i, ConnectDestroyed i}"
  shows "only_obj i s (s\<lparr>sv_queued := remove1 (l, f) (sv_queued s)\<rparr>)"
  using assms set_remove1_subset [of "(l, f)" "sv_queued s"]
  by (auto simp: only_obj_def count_list_remove1 sv_inv_def sv_shape_def)

lemma only_obj_upd:
  assumes "only_obj i s s1" and "i < length (sv_objs s)"
  shows "only_obj i s (upd_conn i c s1)"
  using assms by (auto simp: only_obj_def upd_conn_def nth_list_update)

lemma functor_counts:
  assumes inv: "sv_inv s" and q: "(l, f) \<in> set (sv_queued s)"
  shows "functor_placed s (l, f)" "0 < count_list (sv_queued s) (l, f)"
  using assms count_list_0_iff [of "sv_queued s" "(l, f)"] by (auto simp: sv_inv_def sv_shape_def)

lemma established_inv:
  assumes E: "se_conn E = env" and inv: "sv_inv s" and q: "(l, ConnectEstablished i) \<in> set (sv_queued s)"
  shows "returns (sv_establish E i (s\<lparr>sv_queued := remove1 (l, ConnectEstablished i) (sv_queued s)\<rparr>)) sv_inv"
proof -
  let ?s = "s\<lparr>sv_queued := remove1 (l, ConnectEstablished i) (sv_queued s)\<rparr>"
  note f = functor_counts [OF inv q]
  have i: "i < length (sv_objs s)" and l: "l = so_loop (sv_objs s ! i)" using f(1) by simp_all
  note o = inv_obj [OF inv i]
  have st: "cn_state (so_conn (sv_objs s ! i)) = kConnecting"
    using o(2) f(2) l by (auto simp: placed_obj_def obj_place_def split: conn_state.splits if_splits)
  from established_spec [OF o(1) st] obtain c where c: "connectEstablished env (so_conn (sv_objs s ! i)) = Inr c" "at_rest c" "conn_alive c"
    by (auto elim: returnsE)
  have "placed_obj (upd_conn i c ?s) i"
    using o(2) st c(3) i l by (auto simp: placed_obj_def obj_place_def in_map_def count_list_remove1 conn_alive_def)
  moreover have "only_obj i s (upd_conn i c ?s)" by (rule only_obj_upd [OF dequeue_only [OF inv i] i]) simp
  ultimately have "sv_inv (upd_conn i c ?s)" using c(2) i by (intro only_obj_inv [OF inv i]) simp_all
  with c(1) E show ?thesis by (simp add: sv_establish_def)
qed

lemma destroyed_inv:
  assumes E: "se_conn E = env" and inv: "sv_inv s" and q: "(l, ConnectDestroyed i) \<in> set (sv_queued s)"
  shows "returns (run_sv_functor E a (ConnectDestroyed i) (s\<lparr>sv_queued := remove1 (l, ConnectDestroyed i) (sv_queued s)\<rparr>)) sv_inv"
proof -
  let ?s = "s\<lparr>sv_queued := remove1 (l, ConnectDestroyed i) (sv_queued s)\<rparr>"
  note f = functor_counts [OF inv q]
  have i: "i < length (sv_objs s)" and l: "l = so_loop (sv_objs s ! i)" using f(1) by simp_all
  note o = inv_obj [OF inv i]
  have st: "cn_state (so_conn (sv_objs s ! i)) = kDisconnected" "ch_addedToLoop (cn_channel (so_conn (sv_objs s ! i)))"
    using o(2) f(2) l by (auto simp: placed_obj_def obj_place_def split: conn_state.splits if_splits)
  from destroyed_spec [OF o(1)] st obtain c where c: "connectDestroyed env (so_conn (sv_objs s ! i)) = Inr c" "at_rest c"
    "cn_state c = kDisconnected" "\<not> ch_addedToLoop (cn_channel c)" by (auto elim: returnsE)
  have "placed_obj (upd_conn i c ?s) i"
    using o(2) st c(3,4) i l f(2) by (auto simp: placed_obj_def obj_place_def in_map_def count_list_remove1)
  moreover have "only_obj i s (upd_conn i c ?s)" by (rule only_obj_upd [OF dequeue_only [OF inv i] i]) simp
  ultimately have "sv_inv (upd_conn i c ?s)" using c(2) i by (intro only_obj_inv [OF inv i]) simp_all
  with c(1) E show ?thesis by simp
qed

lemma removed_inv:
  assumes inv: "sv_inv s" and q: "(l, RemoveConnectionInLoop i) \<in> set (sv_queued s)"
  shows "returns (sv_removeConnectionInLoop i (s\<lparr>sv_queued := remove1 (l, RemoveConnectionInLoop i) (sv_queued s)\<rparr>)) sv_inv"
proof -
  let ?s = "s\<lparr>sv_queued := remove1 (l, RemoveConnectionInLoop i) (sv_queued s)\<rparr>" and ?o = "sv_objs s ! i"
  let ?s' = "sv_queue (so_loop ?o) (ConnectDestroyed i) (?s\<lparr>sv_connections := map_erase (so_name ?o) (sv_connections s)\<rparr>)"
  note f = functor_counts [OF inv q]
  have i: "i < length (sv_objs s)" and l: "l = sv_base s" using f(1) by simp_all
  note o = inv_obj [OF inv i]
  have shape: "map_ok (sv_connections s)" using inv by (simp add: sv_inv_def sv_shape_def)
  have st: "cn_state (so_conn ?o) = kDisconnected" "ch_addedToLoop (cn_channel (so_conn ?o))" and inm: "in_map s i"
    using o(2) f(2) l by (auto simp: placed_obj_def obj_place_def split: conn_state.splits if_splits)
  have "placed_obj ?s' i" using o(2) st inm f(2) l shape
    by (auto simp: placed_obj_def obj_place_def in_map_def count_list_remove1 sv_queue_def map_find_map_erase)
  moreover have "only_obj i s ?s'"
    using dequeue_only [OF inv i, of "RemoveConnectionInLoop i" l] i by (auto simp: only_obj_def sv_queue_def)
  ultimately have "sv_inv ?s'" using o(1) by (intro only_obj_inv [OF inv i]) (simp_all add: sv_queue_def)
  then show ?thesis using inm by (auto simp: sv_removeConnectionInLoop_def in_map_def Let_def)
qed

lemma sv_inv_acceptor: "sv_inv s \<Longrightarrow> fds_accounted a \<Longrightarrow> sv_inv (s\<lparr>sv_acceptor := a\<rparr>)"
proof -
  assume inv: "sv_inv s" and a: "fds_accounted a"
  let ?s = "s\<lparr>sv_acceptor := a\<rparr>"
  have "functor_placed ?s p = functor_placed s p" for p by (cases "(s, p)" rule: functor_placed.cases) auto
  moreover have "conn_name ?s = conn_name s" by (simp add: conn_name_def fun_eq_iff)
  ultimately have "sv_shape ?s" using inv a by (simp add: sv_inv_def sv_shape_def)
  moreover have "placed_obj ?s i = placed_obj s i" for i by (simp add: placed_obj_def in_map_def)
  ultimately show ?thesis using inv by (simp add: sv_inv_def)
qed

lemma listen_inv:
  assumes inv: "sv_inv s" and q: "(l, Listen) \<in> set (sv_queued s)"
  shows "returns (run_sv_functor E (Inr ()) Listen (s\<lparr>sv_queued := remove1 (l, Listen) (sv_queued s)\<rparr>)) sv_inv"
proof -
  let ?s = "s\<lparr>sv_queued := remove1 (l, Listen) (sv_queued s)\<rparr>"
  have "functor_placed ?s p = functor_placed s p" for p by (cases "(s, p)" rule: functor_placed.cases) auto
  moreover have "conn_name ?s = conn_name s" by (simp add: conn_name_def fun_eq_iff)
  ultimately have "sv_shape ?s" using inv set_remove1_subset [of "(l, Listen)" "sv_queued s"]
    by (auto simp: sv_inv_def sv_shape_def)
  moreover have "placed_obj ?s i = placed_obj s i" for i by (simp add: placed_obj_def in_map_def count_list_remove1)
  ultimately have "sv_inv ?s" using inv by (simp add: sv_inv_def)
  moreover have "fds_accounted (sv_acceptor s)" using inv by (simp add: sv_inv_def sv_shape_def)
  ultimately show ?thesis
    using sv_inv_acceptor [of ?s] by (simp add: Acceptor_listen_def listenOrDie_def fds_accounted_def)
qed

text \<open>A new connection: one more object, in the map under its own name.\<close>

lemma getNextLoop_ready:
  assumes "pool_ready p"
  shows "returns (getNextLoop True p) (\<lambda>(l, p'). pool_ready p' \<and> pool_baseLoop p' = pool_baseLoop p)"
proof (cases "pool_loops p = []")
  case True
  with assms show ?thesis by (simp add: getNextLoop_def in_base_loop_def pool_ready_def)
next
  case False
  with assms show ?thesis
    by (auto simp: getNextLoop_def in_base_loop_def pool_ready_def pool_ok_def Let_def)
qed

lemma newConnection_inv:
  assumes E: "se_conn E = env" and inv: "sv_inv s" and room: "int (length (sv_objs s)) < 2 ^ 31 - 2"
  shows "returns (sv_newConnection E sockfd s) sv_inv"
proof -
  have shape: "sv_shape s" using inv by (simp add: sv_inv_def)
  then have "pool_ready (sv_pool s)" and next_id: "sv_nextConnId s = int (length (sv_objs s)) + 1" by (simp_all add: sv_shape_def)
  with getNextLoop_ready obtain ioLoop p where
    p: "getNextLoop True (sv_pool s) = Inr (ioLoop, p)" "pool_ready p" "pool_baseLoop p = sv_base s" by (fastforce elim: returnsE)
  obtain b where b: "Buffer_new kInitialSize = Inr b" using Buffer_new_spec [of kInitialSize] by (auto elim: returnsE)
  let ?n = "length (sv_objs s)" and ?name = "conn_name s (sv_nextConnId s)"
  let ?c = "TcpConnection_new sockfd b b (se_context E) (se_writeComplete E) False"
  let ?s1 = "s\<lparr>sv_pool := p, sv_nextConnId := sv_nextConnId s + 1, sv_connections := map_set ?name (Some ?n) (sv_connections s),
      sv_objs := sv_objs s @ [\<lparr>so_name = ?name, so_loop = ioLoop, so_conn = ?c\<rparr>]\<rparr>"
  let ?s2 = "sv_queue ioLoop (ConnectEstablished ?n) ?s1"
  have no_q: "(l, f ?n) \<notin> set (sv_queued s)" if "f \<in> {ConnectEstablished, RemoveConnectionInLoop, ConnectDestroyed}" for l f
    using shape that unfolding sv_shape_def by fastforce
  have fresh: "so_name (sv_objs s ! j) \<noteq> ?name" if "j < ?n" for j
    using conn_name_inj [of s "j + 1" "?n + 1"] shape that room next_id by (auto simp: sv_shape_def add.commute)
  have q2: "functor_placed ?s2 x" if "x \<in> set (sv_queued ?s2)" for x
    using shape that p(3) by (cases "(?s2, x)" rule: functor_placed.cases) (auto simp: sv_queue_def sv_shape_def nth_append)
  have names: "conn_name ?s2 = conn_name s" by (simp add: conn_name_def fun_eq_iff sv_queue_def)
  have dom2: "\<exists>i < length (sv_objs ?s2). k = so_name (sv_objs ?s2 ! i) \<and> v = Some i"
    if "map_find k (sv_connections ?s2) = Some v" for k v
  proof (cases "k = ?name")
    case True
    with that shape show ?thesis by (intro exI [of _ ?n]) (simp add: sv_queue_def sv_shape_def map_find_map_set)
  next
    case False
    with that shape have "map_find k (sv_connections s) = Some v" by (simp add: sv_queue_def sv_shape_def map_find_map_set)
    with shape obtain i where "i < ?n" "k = so_name (sv_objs s ! i)" "v = Some i" unfolding sv_shape_def by blast
    then show ?thesis by (intro exI [of _ i]) (simp add: sv_queue_def nth_append)
  qed
  have shape2: "sv_shape ?s2"
    using shape p(2) room q2 dom2 names next_id
    by (simp add: sv_shape_def) (auto simp: sv_queue_def nth_append map_set_ok less_Suc_eq add.commute)
  have rest2: "at_rest (so_conn (sv_objs ?s2 ! j))" if "j < length (sv_objs ?s2)" for j
    using that inv created_at_rest [OF b] by (auto simp: sv_queue_def nth_append sv_inv_def less_Suc_eq)
  have old: "placed_obj ?s2 j" if j: "j < ?n" for j
    using inv_obj(2) [OF inv j] fresh [OF j] shape j p(3)
    by (simp add: placed_obj_def in_map_def sv_queue_def nth_append map_find_map_set sv_shape_def)
  have zero: "count_list (sv_queued s) (l, f ?n) = 0" if "f \<in> {ConnectEstablished, RemoveConnectionInLoop, ConnectDestroyed}" for l f
    using no_q that by (simp add: count_list_0_iff)
  have "placed_obj ?s2 ?n"
    using shape by (simp add: placed_obj_def in_map_def sv_queue_def nth_append map_find_map_set sv_shape_def zero obj_place_def
        TcpConnection_new_def)
  with old have "placed_obj ?s2 j" if "j < length (sv_objs ?s2)" for j using that by (auto simp: sv_queue_def less_Suc_eq)
  with shape2 rest2 have inv2: "sv_inv ?s2" by (simp add: sv_inv_def)
  have "(ioLoop, ConnectEstablished ?n) \<in> set (sv_queued ?s2)" by (simp add: sv_queue_def)
  from established_inv [OF E inv2 this] have "returns (sv_establish E ?n ?s1) sv_inv"
    using no_q [of ConnectEstablished] by (simp add: sv_queue_def remove1_append)
  moreover have "sv_newConnection E sockfd s =
      (if ioLoop = sv_base s then sv_establish E ?n ?s1 else Inr ?s2)"
    using p b next_id room by (simp add: sv_newConnection_def Let_def)
  ultimately show ?thesis using inv2 by (simp only: returns_if returns_simps if_cancel)
qed

lemma accept_inv:
  assumes E: "se_conn E = env" and inv: "sv_inv s" and may: "sv_may (SvAccept answer answer2 opened) s"
  shows "returns (sv_step E (SvAccept answer answer2 opened) s) sv_inv"
proof -
  have acc: "fds_accounted (sv_acceptor s)" using inv by (simp add: sv_inv_def sv_shape_def)
  have "\<exists>r a. Acceptor_handleRead True answer answer2 opened (sv_acceptor s) = Inr (r, a)"
    using may by (auto simp: Acceptor_handleRead_def Socket_accept_def sock_accept_def split: sum.splits)
  then obtain r a where ra: "Acceptor_handleRead True answer answer2 opened (sv_acceptor s) = Inr (r, a)" by blast
  have i: "sv_inv (s\<lparr>sv_acceptor := a\<rparr>)" by (rule sv_inv_acceptor [OF inv handleRead_accounted [OF acc ra]])
  have "returns (sv_newConnection E fd (s\<lparr>sv_acceptor := a\<rparr>)) sv_inv" for fd
    by (rule newConnection_inv [OF E i]) (use may in simp)
  with i ra show ?thesis by (auto simp: Let_def split: option.splits)
qed

lemma run_inv:
  assumes E: "se_conn E = env" and inv: "sv_inv s" and may: "sv_may (SvRun l answer) s"
  shows "returns (sv_step E (SvRun l answer) s) sv_inv"
proof -
  from may obtain f where p: "next_of l (sv_queued s) = Some (l, f)" and a: "answer = Inr ()"
    using next_of_Some by fastforce
  then have q: "(l, f) \<in> set (sv_queued s)" using next_of_Some by fastforce
  show ?thesis
  proof (cases f)
    case Listen
    with p q listen_inv [OF inv, of l E] a show ?thesis by simp
  next
    case (ConnectEstablished i)
    with p q established_inv [OF E inv, of l i] show ?thesis by simp
  next
    case (RemoveConnectionInLoop i)
    with p q removed_inv [OF inv, of l i] show ?thesis by simp
  next
    case (ConnectDestroyed i)
    with p q destroyed_inv [OF E inv, of l i answer] show ?thesis by simp
  qed
qed

lemma sv_step_inv:
  assumes "se_conn E = env" and "sv_inv s" and "sv_may e s"
  shows "returns (sv_step E e s) sv_inv"
proof (cases e)
  case (SvConn i e')
  with assms conn_event_inv [of E s i e'] show ?thesis by simp
next
  case (SvAccept answer answer2 opened)
  with assms accept_inv show ?thesis by (simp del: sv_step.simps)
next
  case (SvRun l answer)
  with assms run_inv show ?thesis by (simp del: sv_step.simps)
qed

text \<open>A server that was just started.\<close>

lemma started_inv:
  assumes "sv_started s = False" and "sv_objs s = []" and "sv_connections s = []" and "sv_queued s = []" and "sv_nextConnId s = 1"
    and "length (sv_ipPort s) \<le> 51" and "fds_accounted (sv_acceptor s)" and "pool_loops (sv_pool s) = []" and "pool_next (sv_pool s) = 0"
    and "sv_start startLoop answer cb inl s = Inr s'"
  shows "sv_inv s'"
proof -
  from assms(1,10) obtain p called where p: "pool_start startLoop cb inl (sv_pool s) = Inr (p, called)"
    by (auto simp: sv_start_def bind_r_eq_Inr)
  then have ready: "pool_ready p" using assms(8,9)
    by (auto simp: pool_start_def pool_ready_def pool_ok_def ensure_eq_Inr in_base_loop_def Let_def split: if_splits)
  have base: "pool_baseLoop p = sv_base s" using p by (auto simp: pool_start_def ensure_eq_Inr in_base_loop_def Let_def split: if_splits)
  show ?thesis using assms p ready base
    by (auto simp: sv_start_def sv_inv_def sv_shape_def ensure_eq_Inr bind_r_eq_Inr Acceptor_listen_def sv_queue_def Let_def
        fds_accounted_def split: if_splits)
qed

end

section \<open>Properties\<close>

text \<open>Servers in use: made, given a number of threads, started, and then whatever can happen.\<close>

inductive sv_reachable :: "'c sv_env \<Rightarrow> 'c server \<Rightarrow> bool" for E where
  started: "Acceptor_new sock idle bound = Inr a \<Longrightarrow> inet_lib_ok lib \<Longrightarrow>
    sa_family addr = AF_INET \<or> sa_family addr = AF_INET6 \<Longrightarrow> TcpServer_new lib loop addr name a = Inr s0 \<Longrightarrow>
    sv_setThreadNum n s0 = Inr s1 \<Longrightarrow> sv_start startLoop answer cb inl s1 = Inr s \<Longrightarrow> sv_reachable E s"
| happens: "sv_reachable E s \<Longrightarrow> sv_may e s \<Longrightarrow> sv_step E e s = Inr s' \<Longrightarrow> sv_reachable E s'"

lemma sv_reachable_inv:
  assumes "conn_callbacks (se_conn E)"
  shows "sv_reachable E s \<Longrightarrow> conn_callbacks.sv_inv s"
proof (induction rule: sv_reachable.induct)
  case (started sock idle bound a lib addr loop name s0 n s1 startLoop answer cb inl s)
  have "fds_accounted a" by (rule Acceptor_new_accounted [OF started(1)])
  moreover have ip: "inet_toIpPort lib addr = Inr (ip_text lib addr @ '':'' @ show_nat (unat (toPort addr)))"
    by (rule toIpPort_text [OF started(2,3)])
  moreover have "length (ip_text lib addr @ '':'' @ show_nat (unat (toPort addr))) \<le> 51"
    using ip_text_short [OF started(2), of addr] length_show_port [of "toPort addr"] by simp
  ultimately show ?case using started(4,5)
    by (intro conn_callbacks.started_inv [OF assms _ _ _ _ _ _ _ _ _ started(6)])
      (auto simp: TcpServer_new_def sv_setThreadNum_def setThreadNum_def EventLoopThreadPool_new_def ensure_eq_Inr)
next
  case (happens s e s')
  then show ?case using conn_callbacks.sv_step_inv [OF assms refl happens.IH happens.hyps(2)] by simp
qed


text \<open>The loopback server on port 80 of the witnesses, with one accepted connection.\<close>

definition demo_env :: "unit sv_env" where
  "demo_env = \<lparr>se_conn = slow_socket, se_context = (), se_writeComplete = False\<rparr>"

definition demo_server :: "unit server" where
  "demo_server = \<lparr>sv_name = ''www'', sv_ipPort = ip_text decimal_lib loopback_80 @ '':'' @ show_nat (unat (toPort loopback_80)),
     sv_acceptor = \<lparr>ac_listenning = True, ac_reading = True, ac_idleFd = 4, ac_trace = [Opened 4]\<rparr>,
     sv_pool = (EventLoopThreadPool_new 0 ''www'')\<lparr>pool_started := True\<rparr>, sv_started = True, sv_nextConnId = 1,
     sv_connections = [], sv_objs = [], sv_queued = []\<rparr>"

lemma loopback_family: "sa_family loopback_80 = AF_INET"
  by (simp add: loopback_80_def InetAddress_port_def)

lemma demo_reachable: "sv_reachable demo_env demo_server"
proof (rule sv_reachable.started [of "Inr 3" 4 "Inr ()" _ decimal_lib loopback_80 0 "''www''" _ 0 _ "\<lambda>_. 0" "Inr ()" False True])
  let ?a = "\<lparr>ac_listenning = False, ac_reading = False, ac_idleFd = 4, ac_trace = [Opened 4]\<rparr>"
  let ?s0 = "demo_server\<lparr>sv_acceptor := ?a, sv_pool := EventLoopThreadPool_new 0 ''www'', sv_started := False\<rparr>"
  show "Acceptor_new (Inr 3) 4 (Inr ()) = Inr ?a"
    by (simp add: Acceptor_new_def createNonblockingOrDie_def bindOrDie_def)
  show "TcpServer_new decimal_lib 0 loopback_80 ''www'' ?a = Inr ?s0"
    using toIpPort_text [OF decimal_lib_ok, of loopback_80] loopback_family by (simp add: TcpServer_new_def demo_server_def)
  show "sv_setThreadNum 0 ?s0 = Inr ?s0"
    by (simp add: sv_setThreadNum_def setThreadNum_def EventLoopThreadPool_new_def)
  show "sv_start (\<lambda>_. 0) (Inr ()) False True ?s0 = Inr demo_server"
    by (simp add: sv_start_def pool_start_def Acceptor_listen_def listenOrDie_def demo_server_def in_base_loop_def
        EventLoopThreadPool_new_def)
qed (simp_all add: decimal_lib_ok loopback_family)

lemma demo_callbacks: "conn_callbacks (se_conn demo_env)"
  unfolding demo_env_def slow_socket_def by simp (rule dflt.conn_callbacks_axioms)


lemma placed_facts:
  assumes "placed_obj s i"
  shows "cn_state (so_conn (sv_objs s ! i)) \<noteq> kDisconnected \<Longrightarrow> in_map s i"
    "sv_queued s = [] \<Longrightarrow> in_map s i \<longleftrightarrow> conn_alive (so_conn (sv_objs s ! i))"
    "sv_queued s = [] \<Longrightarrow> \<not> in_map s i \<Longrightarrow> \<not> ch_addedToLoop (cn_channel (so_conn (sv_objs s ! i)))"
  using assms unfolding placed_obj_def obj_place_def conn_alive_def
  by (cases "cn_state (so_conn (sv_objs s ! i))"; auto split: if_splits)+

text \<open>C8. The map of a server is exact. The names of its connections are distinct (their numbers
  survive the 64 byte buffer). A connection that is not closed is in the map under its
  name, and whenever no functor is pending the map holds exactly the connections that
  are up, every other one having been destroyed: no connection leaks.\<close>

theorem server_map_exact:
  assumes "conn_callbacks (se_conn E)" and "sv_reachable E s"
  shows "distinct (map so_name (sv_objs s)) \<and>
    (\<forall>i < length (sv_objs s).
       let c = so_conn (sv_objs s ! i); entry = map_find (so_name (sv_objs s ! i)) (sv_connections s)
       in (entry = Some (Some i) \<or> entry = None) \<and> (cn_state c \<noteq> kDisconnected \<longrightarrow> entry = Some (Some i)) \<and>
          (sv_queued s = [] \<longrightarrow> (entry \<noteq> None \<longleftrightarrow> conn_alive c) \<and> (entry = None \<longrightarrow> \<not> ch_addedToLoop (cn_channel c))))"
proof -
  have inv: "sv_shape s" "\<And>i. i < length (sv_objs s) \<Longrightarrow> placed_obj s i"
    using sv_reachable_inv [OF assms] by (simp_all add: conn_callbacks.sv_inv_def [OF assms(1)])
  have entry: "map_find (so_name (sv_objs s ! i)) (sv_connections s) = (if in_map s i then Some (Some i) else None)"
    if "i < length (sv_objs s)" for i
  proof (cases "in_map s i")
    case True
    then obtain v where v: "map_find (so_name (sv_objs s ! i)) (sv_connections s) = Some v" by (auto simp: in_map_def)
    have "\<exists>j < length (sv_objs s). so_name (sv_objs s ! i) = so_name (sv_objs s ! j) \<and> v = Some j"
      using inv(1) v unfolding sv_shape_def by blast
    with names_distinct [OF inv(1) that] have "v = Some i" by blast
    with v True show ?thesis by simp
  qed (simp add: in_map_def)
  show ?thesis
  proof (intro conjI allI impI)
    show "distinct (map so_name (sv_objs s))" using names_distinct [OF inv(1)] by (auto simp: distinct_conv_nth)
    fix i assume i: "i < length (sv_objs s)"
    note f = placed_facts [OF inv(2) [OF i]]
    show "let c = so_conn (sv_objs s ! i); entry = map_find (so_name (sv_objs s ! i)) (sv_connections s)
       in (entry = Some (Some i) \<or> entry = None) \<and> (cn_state c \<noteq> kDisconnected \<longrightarrow> entry = Some (Some i)) \<and>
          (sv_queued s = [] \<longrightarrow> (entry \<noteq> None \<longleftrightarrow> conn_alive c) \<and> (entry = None \<longrightarrow> \<not> ch_addedToLoop (cn_channel c)))"
      unfolding Let_def entry [OF i] using f by (cases "in_map s i") auto
  qed
qed

definition demo_server1 :: "unit server" where
  "demo_server1 = demo_server\<lparr>sv_acceptor := \<lparr>ac_listenning = True, ac_reading = True, ac_idleFd = 4, ac_trace = [Opened 4, Opened 5, HandedOn 5]\<rparr>,
     sv_nextConnId := 2, sv_connections := [(conn_name demo_server 1, Some 0)],
     sv_objs := [\<lparr>so_name = conn_name demo_server 1, so_loop = 0, so_conn = up_conn\<rparr>]\<rparr>"

theorem server_map_exact_witness:
  "sv_reachable demo_env demo_server1 \<and> map_find (conn_name demo_server 1) (sv_connections demo_server1) = Some (Some 0)"
proof -
  have up: "connectEstablished slow_socket fresh_conn = Inr up_conn"
    by (simp add: connectEstablished_def in_loop_thread_def up_conn_def Let_def) (simp add: fresh_conn_def TcpConnection_new_def)
  have id: "conn_name (demo_server\<lparr>sv_acceptor := a\<rparr>) = conn_name demo_server" for a by (simp add: conn_name_def fun_eq_iff)
  have "sv_step demo_env (SvAccept (Inr (5, loopback_80)) 0 0) demo_server = Inr demo_server1"
    using up by (simp add: Acceptor_handleRead_def Socket_accept_def sock_accept_def sv_newConnection_def getNextLoop_def in_base_loop_def
        fresh_buffer_new sv_establish_def upd_conn_def demo_env_def id Let_def flip: fresh_conn_def)
      (simp add: demo_server1_def demo_server_def EventLoopThreadPool_new_def)
  moreover have "sv_may (SvAccept (Inr (5, loopback_80)) 0 0) demo_server" by (simp add: demo_server_def)
  ultimately have r: "sv_reachable demo_env demo_server1" by (intro sv_reachable.happens [OF demo_reachable])
  have "cn_state up_conn = kConnected" by (simp add: conn_evaluation)
  with server_map_exact [OF demo_callbacks r] r show ?thesis by (simp add: demo_server1_def Let_def)
qed

text \<open>Every descriptor the acceptor of a server obtains, also when descriptors run out and it
  spends and renews its reserve, is closed or handed to the server exactly once; only the
  reserve itself stays open.\<close>

theorem acceptor_descriptors_accounted:
  assumes "conn_callbacks (se_conn E)" and "sv_reachable E s"
  shows "\<forall>fd \<ge> 0. count_list (ac_trace (sv_acceptor s)) (Opened fd) =
     count_list (ac_trace (sv_acceptor s)) (ClosedFd fd) + count_list (ac_trace (sv_acceptor s)) (HandedOn fd) +
     (if ac_idleFd (sv_acceptor s) = fd then 1 else 0)"
  using sv_reachable_inv [OF assms]
  by (simp add: conn_callbacks.sv_inv_def [OF assms(1)] sv_shape_def fds_accounted_def)

theorem acceptor_descriptors_accounted_witness:
  "sv_reachable demo_env demo_server \<and> count_list (ac_trace (sv_acceptor demo_server)) (Opened 4) = 1"
  using acceptor_descriptors_accounted [OF demo_callbacks demo_reachable, THEN spec, of 4] demo_reachable
  by (simp add: demo_server_def)

text \<open>The assertion of \<^verbatim>\<open>removeConnectionInLoop\<close> that the connection was in the map holds in
  every state, also when it was not: \<^verbatim>\<open>operator[]\<close> has just put the name there.\<close>

lemma remove_assert_vacuous: "map_ok (sv_connections s) \<Longrightarrow> \<exists>s'. sv_removeConnectionInLoop i s = Inr s'"
  by (auto simp: sv_removeConnectionInLoop_def Let_def map_find_map_set split: option.splits)

end
