(* ===== verification/TimeZones.thy ===== *)
theory TimeZones
  imports Calendars Endian
begin

text \<open>
  Time zones (\<^verbatim>\<open>base/time/TimeZone.cpp\<close>).

  Reading a zone file, finding the kind of local time in force by binary search, and the
  conversions between seconds since the epoch, UTC and local time. A file is the list of
  its bytes, \<open>None\<close> when it cannot be opened; \<^verbatim>\<open>gmtime_r\<close> and \<^verbatim>\<open>timegm\<close> of the C library
  are parameters of the conversions that call them. The properties: UTC conversion round
  trips for every day the date formulas count, the search finds the transition in force,
  local time round trips also in the hour that daylight saving repeats, and a zone file is
  read back as it was written.
\<close>

section \<open>Data\<close>

record transition =
  tr_gmttime :: int
  tr_localtime :: int
  tr_localtimeIdx :: nat

record localtime =
  lt_gmtOffset :: int
  lt_isDst :: bool
  lt_arrbIdx :: nat

record tzdata =
  tz_transitions :: "transition list"
  tz_localtimes :: "localtime list"
  tz_abbreviation :: string

definition tz_empty :: tzdata where
  "tz_empty = \<lparr>tz_transitions = [], tz_localtimes = [], tz_abbreviation = []\<rparr>"

text \<open>\<^verbatim>\<open>Comp\<close>: \<open>gmt\<close> selects the column.\<close>

definition tr_key :: "bool \<Rightarrow> transition \<Rightarrow> int" where
  "tr_key gmt t = (if gmt then tr_gmttime t else tr_localtime t)"

definition tr_less :: "bool \<Rightarrow> transition \<Rightarrow> transition \<Rightarrow> bool" where
  "tr_less gmt l r \<longleftrightarrow> tr_key gmt l < tr_key gmt r"

definition tr_equal :: "bool \<Rightarrow> transition \<Rightarrow> transition \<Rightarrow> bool" where
  "tr_equal gmt l r \<longleftrightarrow> tr_key gmt l = tr_key gmt r"

definition kSecondsPerDay :: int where "kSecondsPerDay = 24 * 60 * 60"

definition fillHMS :: "int \<Rightarrow> tm \<Rightarrow> tm" where
  "fillHMS seconds utc =
     (let minutes = seconds div 60
      in utc\<lparr>tm_sec := seconds mod 60, tm_min := minutes mod 60, tm_hour := minutes div 60\<rparr>)"

section \<open>Reading a zone file\<close>

definition read_bytes :: "int \<Rightarrow> string \<Rightarrow> (string \<times> string) res" where
  "read_bytes n f =
     (if n < 0 then Inl (Undefined ''char buf[n]'')
      else if length f < nat n then Inl (Throws ''no enough data'')
      else Inr (take (nat n) f, drop (nat n) f))"

definition read_int32 :: "string \<Rightarrow> (int \<times> string) res" where
  "read_int32 f =
     (if length f < 4 then Inl (Throws ''bad int32_t data'')
      else Inr (sint (networkToHost32 (of_mem (take 4 f))), drop 4 f))"

definition read_uint8 :: "string \<Rightarrow> (nat \<times> string) res" where
  "read_uint8 f = (case f of [] \<Rightarrow> Inl (Throws ''bad uint8_t data'') | c # cs \<Rightarrow> Inr (of_char c, cs))"

text \<open>A loop that reads \<open>n\<close> items.\<close>

fun read_many :: "nat \<Rightarrow> (string \<Rightarrow> ('a \<times> string) res) \<Rightarrow> string \<Rightarrow> ('a list \<times> string) res" where
  "read_many 0 rd f = Inr ([], f)"
| "read_many (Suc n) rd f = bind_r (rd f) (\<lambda>(x, f1). bind_r (read_many n rd f1) (\<lambda>(xs, f2). Inr (x # xs, f2)))"

text \<open>The part before \<^verbatim>\<open>data\<close> is changed: the counts, the transition times and their types.\<close>

definition read_header :: "string \<Rightarrow> (int \<times> int \<times> int list \<times> nat list \<times> string) res" where
  "read_header f =
     bind_r (read_bytes 4 f) (\<lambda>(head, f1).
     if head \<noteq> ''TZif'' then Inl (Throws ''bad head'')
     else bind_r (read_bytes 1 f1) (\<lambda>(version, f2).
     bind_r (read_bytes 15 f2) (\<lambda>(_, f3).
     bind_r (read_int32 f3) (\<lambda>(isgmtcnt, f4).
     bind_r (read_int32 f4) (\<lambda>(isstdcnt, f5).
     bind_r (read_int32 f5) (\<lambda>(leapcnt, f6).
     bind_r (read_int32 f6) (\<lambda>(timecnt, f7).
     bind_r (read_int32 f7) (\<lambda>(typecnt, f8).
     bind_r (read_int32 f8) (\<lambda>(charcnt, f9).
     if timecnt < 0 then Inl (Throws ''vector::reserve'')
     else bind_r (read_many (nat timecnt) read_int32 f9) (\<lambda>(gmts, f10).
     bind_r (read_many (nat timecnt) read_uint8 f10) (\<lambda>(localtimes, f11).
     Inr (typecnt, charcnt, gmts, localtimes, f11))))))))))))"

definition read_type :: "string \<Rightarrow> (localtime \<times> string) res" where
  "read_type f =
     bind_r (read_int32 f) (\<lambda>(gmtoff, f1).
     bind_r (read_uint8 f1) (\<lambda>(isdst, f2).
     bind_r (read_uint8 f2) (\<lambda>(abbrind, f3).
     Inr (\<lparr>lt_gmtOffset = gmtoff, lt_isDst = (isdst \<noteq> 0), lt_arrbIdx = abbrind\<rparr>, f3))))"

text \<open>The loops that change \<^verbatim>\<open>data\<close>: what was stored before an exception stays.\<close>

fun push_types :: "nat \<Rightarrow> string \<Rightarrow> tzdata \<Rightarrow> fault option \<times> tzdata \<times> string" where
  "push_types 0 f d = (None, d, f)"
| "push_types (Suc n) f d =
     (case read_type f of
        Inl e \<Rightarrow> (Some e, d, f)
      | Inr (lt, f') \<Rightarrow> push_types n f' (d\<lparr>tz_localtimes := tz_localtimes d @ [lt]\<rparr>))"

fun push_transitions :: "(int \<times> nat) list \<Rightarrow> tzdata \<Rightarrow> fault option \<times> tzdata" where
  "push_transitions [] d = (None, d)"
| "push_transitions ((t, localIdx) # ts) d =
     (if localIdx < length (tz_localtimes d)
      then push_transitions ts (d\<lparr>tz_transitions := tz_transitions d @
             [\<lparr>tr_gmttime = t, tr_localtime = t + lt_gmtOffset (tz_localtimes d ! localIdx), tr_localtimeIdx = localIdx\<rparr>]\<rparr>)
      else (Some (Undefined ''data->localtimes[localIdx]''), d))"

definition read_body :: "string \<Rightarrow> tzdata \<Rightarrow> fault option \<times> tzdata" where
  "read_body f d =
     (case read_header f of
        Inl e \<Rightarrow> (Some e, d)
      | Inr (typecnt, charcnt, gmts, localtimes, f1) \<Rightarrow>
          (case push_types (nat typecnt) f1 d of
             (Some e, d1, _) \<Rightarrow> (Some e, d1)
           | (None, d1, f2) \<Rightarrow>
               (case push_transitions (zip gmts localtimes) d1 of
                  (Some e, d2) \<Rightarrow> (Some e, d2)
                | (None, d2) \<Rightarrow>
                    (case read_bytes charcnt f2 of
                       Inl e \<Rightarrow> (Some e, d2)
                     | Inr (abbr, _) \<Rightarrow> (None, d2\<lparr>tz_abbreviation := abbr\<rparr>)))))"

text \<open>Exceptions are caught and reported; the answer is always true.\<close>

definition readTimeZoneFile :: "string option \<Rightarrow> tzdata \<Rightarrow> (bool \<times> tzdata) res" where
  "readTimeZoneFile file d =
     (case file of
        None \<Rightarrow> Inr (True, d)
      | Some f \<Rightarrow>
          (case read_body f d of
             (None, d1) \<Rightarrow> Inr (True, d1)
           | (Some (Throws _), d1) \<Rightarrow> Inr (True, d1)
           | (Some e, d1) \<Rightarrow> Inl e))"

text \<open>The constructors; \<open>None\<close> is a zone that is not valid.\<close>

definition TimeZone_file :: "string option \<Rightarrow> tzdata option res" where
  "TimeZone_file file = bind_r (readTimeZoneFile file tz_empty) (\<lambda>(ok, d). Inr (if ok then Some d else None))"

definition TimeZone_fixed :: "int \<Rightarrow> string \<Rightarrow> tzdata option" where
  "TimeZone_fixed eastOfUtc nm =
     Some (tz_empty\<lparr>tz_localtimes := [\<lparr>lt_gmtOffset = eastOfUtc, lt_isDst = False, lt_arrbIdx = 0\<rparr>], tz_abbreviation := nm\<rparr>)"

section \<open>Finding the local time in force\<close>

text \<open>\<^verbatim>\<open>std::lower_bound\<close> as the library has it: a range is a first index and a length.\<close>

function lower_bound_loop :: "('a \<Rightarrow> bool) \<Rightarrow> 'a list \<Rightarrow> nat \<Rightarrow> nat \<Rightarrow> nat" where
  "lower_bound_loop before xs first len =
     (if len = 0 then first
      else let half = len div 2; mid = first + half
           in if before (xs ! mid) then lower_bound_loop before xs (mid + 1) (len - half - 1)
              else lower_bound_loop before xs first half)"
  by pat_completeness auto
termination by (relation "measure (\<lambda>(_, _, _, len). len)") auto

declare lower_bound_loop.simps [simp del]

definition lower_bound :: "('a \<Rightarrow> bool) \<Rightarrow> 'a list \<Rightarrow> nat" where
  "lower_bound before xs = lower_bound_loop before xs 0 (length xs)"

definition localtime_at :: "tzdata \<Rightarrow> nat \<Rightarrow> localtime res" where
  "localtime_at d i = (if i < length (tz_localtimes d) then Inr (tz_localtimes d ! i) else Inl (Undefined ''data.localtimes[i]''))"

definition findLocaltime :: "tzdata \<Rightarrow> transition \<Rightarrow> bool \<Rightarrow> localtime res" where
  "findLocaltime d sentry gmt =
     (if tz_transitions d = [] \<or> tr_less gmt sentry (hd (tz_transitions d)) then localtime_at d 0
      else let transI = lower_bound (\<lambda>t. tr_less gmt t sentry) (tz_transitions d)
           in if transI \<noteq> length (tz_transitions d)
              then if \<not> tr_equal gmt sentry (tz_transitions d ! transI)
                   then ensure (transI \<noteq> 0) ''transI != data.transitions.begin()''
                          (localtime_at d (tr_localtimeIdx (tz_transitions d ! (transI - 1))))
                   else localtime_at d (tr_localtimeIdx (tz_transitions d ! transI))
              else localtime_at d (tr_localtimeIdx (last (tz_transitions d))))"

section \<open>Conversions\<close>

text \<open>The zone's name: a pointer into the abbreviations.\<close>

definition zone_name :: "tzdata \<Rightarrow> nat \<Rightarrow> string res" where
  "zone_name d i = (if i \<le> length (tz_abbreviation d) then Inr (takeWhile (\<lambda>c. c \<noteq> CHR 0x00) (drop i (tz_abbreviation d)))
     else Inl (Undefined ''data.abbreviation[local->arrbIdx]''))"

definition toLocalTime :: "(int \<Rightarrow> tm) \<Rightarrow> tzdata option \<Rightarrow> int \<Rightarrow> tm res" where
  "toLocalTime gmtime data seconds =
     (case data of
        None \<Rightarrow> Inl (AssertFail ''data_ != NULL'')
      | Some d \<Rightarrow>
          bind_r (findLocaltime d \<lparr>tr_gmttime = seconds, tr_localtime = 0, tr_localtimeIdx = 0\<rparr> True) (\<lambda>lt.
          bind_r (zone_name d (lt_arrbIdx lt)) (\<lambda>nm.
            let localSeconds = seconds + lt_gmtOffset lt
            in Inr ((gmtime localSeconds)\<lparr>tm_isdst := (if lt_isDst lt then 1 else 0),
                      tm_gmtoff := lt_gmtOffset lt, tm_zone := nm\<rparr>))))"

definition fromLocalTime :: "(int \<Rightarrow> tm) \<Rightarrow> (tm \<Rightarrow> int) \<Rightarrow> tzdata option \<Rightarrow> tm \<Rightarrow> int res" where
  "fromLocalTime gmtime timegm data localTm =
     (case data of
        None \<Rightarrow> Inl (AssertFail ''data_ != NULL'')
      | Some d \<Rightarrow>
          let seconds = timegm localTm
          in bind_r (findLocaltime d \<lparr>tr_gmttime = 0, tr_localtime = seconds, tr_localtimeIdx = 0\<rparr> False) (\<lambda>lt.
               if tm_isdst localTm \<noteq> 0
               then bind_r (toLocalTime gmtime data (seconds - lt_gmtOffset lt)) (\<lambda>tryTm.
                      if tm_isdst tryTm = 0 \<and> tm_hour tryTm = tm_hour localTm \<and> tm_min tryTm = tm_min localTm
                      then Inr (seconds - 3600 - lt_gmtOffset lt)
                      else Inr (seconds - lt_gmtOffset lt))
               else Inr (seconds - lt_gmtOffset lt)))"

text \<open>\<^verbatim>\<open>memZero\<close> sets every byte to 0xFF.\<close>

definition memZero_tm :: tm where
  "memZero_tm = \<lparr>tm_sec = -1, tm_min = -1, tm_hour = -1, tm_mday = -1, tm_mon = -1, tm_year = -1, tm_wday = -1,
     tm_yday = -1, tm_isdst = -1, tm_gmtoff = -1, tm_zone = []\<rparr>"

definition toUtcTime :: "int \<Rightarrow> bool \<Rightarrow> tm" where
  "toUtcTime secs yday =
     (let utc = memZero_tm\<lparr>tm_zone := ''GMT''\<rparr>;
          seconds0 = secs smod kSecondsPerDay;
          days0 = wrap_s 32 (secs sdiv kSecondsPerDay);
          seconds = (if seconds0 < 0 then seconds0 + kSecondsPerDay else seconds0);
          days = (if seconds0 < 0 then days0 - 1 else days0);
          utc1 = fillHMS seconds utc;
          date = days + kJulianDayOf1970_01_01;
          ymd = getYearMonthDay date;
          utc2 = utc1\<lparr>tm_year := ymd_year ymd - 1900, tm_mon := ymd_month ymd - 1, tm_mday := ymd_day ymd,
                       tm_wday := weekDay date\<rparr>
      in if yday
         then let startOfYear = getJulianDayNumber (ymd_year ymd) 1 1
              in utc2\<lparr>tm_yday := date - startOfYear\<rparr>
         else utc2)"

definition fromUtcTime :: "int \<Rightarrow> int \<Rightarrow> int \<Rightarrow> int \<Rightarrow> int \<Rightarrow> int \<Rightarrow> int" where
  "fromUtcTime year month day hour minute seconds =
     (let date = getJulianDayNumber year month day;
          secondsInDay = hour * 3600 + minute * 60 + seconds;
          days = date - kJulianDayOf1970_01_01
      in days * kSecondsPerDay + secondsInDay)"

definition fromUtcTime_tm :: "tm \<Rightarrow> int" where
  "fromUtcTime_tm utc = fromUtcTime (tm_year utc + 1900) (tm_mon utc + 1) (tm_mday utc) (tm_hour utc) (tm_min utc) (tm_sec utc)"

section \<open>UTC\<close>

text \<open>The remainder is repaired: floor division.\<close>

lemma floor_repair:
  fixes s n :: int
  assumes "0 < n"
  shows "(if s smod n < 0 then s smod n + n else s smod n) = s mod n"
    and "(if s smod n < 0 then s sdiv n - 1 else s sdiv n) = s div n"
proof -
  have q: "s = n * (s sdiv n) + s smod n" using sdiv_mult_smod_eq [of s n] by (simp add: mult.commute)
  have b: "\<bar>s smod n\<bar> < n" using assms by (simp add: signed_modulo_int_def abs_mult sgn_if)
  show "(if s smod n < 0 then s smod n + n else s smod n) = s mod n"
    "(if s smod n < 0 then s sdiv n - 1 else s sdiv n) = s div n"
  proof -
    have "s = n * (s sdiv n - 1) + (s smod n + n)" using q by (simp add: algebra_simps)
    note neg = int_mod_pos_eq [OF this] int_div_pos_eq [OF this] and pos = int_mod_pos_eq [OF q] int_div_pos_eq [OF q]
    show "(if s smod n < 0 then s smod n + n else s smod n) = s mod n" using neg(1) pos(1) b by auto
    show "(if s smod n < 0 then s sdiv n - 1 else s sdiv n) = s div n" using neg(2) pos(2) b by auto
  qed
qed

lemma epoch_jdn: "kJulianDayOf1970_01_01 = 2440588"
  by (simp add: kJulianDayOf1970_01_01_def jdn_march year_days_def march_day_def)

text \<open>The seconds the date formulas cover: from day 0 to half a billion days after the epoch.\<close>

definition utc_range :: "int \<Rightarrow> bool" where
  "utc_range secs \<longleftrightarrow> - 2440588 * kSecondsPerDay \<le> secs \<and> secs < 500000000 * kSecondsPerDay"

lemma toUtcTime_eq:
  assumes "utc_range secs"
  defines "days \<equiv> secs div kSecondsPerDay" and "r \<equiv> secs mod kSecondsPerDay"
  defines "ymd \<equiv> getYearMonthDay (days + kJulianDayOf1970_01_01)"
  shows "toUtcTime secs yday = (memZero_tm\<lparr>tm_zone := ''GMT'', tm_sec := r mod 60, tm_min := (r div 60) mod 60, tm_hour := (r div 60) div 60,
    tm_year := ymd_year ymd - 1900, tm_mon := ymd_month ymd - 1, tm_mday := ymd_day ymd,
    tm_wday := (days + kJulianDayOf1970_01_01 + 1) mod 7,
    tm_yday := (if yday then days + kJulianDayOf1970_01_01 - getJulianDayNumber (ymd_year ymd) 1 1 else -1)\<rparr>)"
    and "0 \<le> days + kJulianDayOf1970_01_01"
proof -
  have k: "0 < kSecondsPerDay" by (simp add: kSecondsPerDay_def)
  have lo: "- 2440588 \<le> days" and hi: "days < 500000000"
    using assms(1) zdiv_mono1 [OF _ k, of "- 2440588 * kSecondsPerDay" secs] zdiv_mono1 [OF _ k, of secs "500000000 * kSecondsPerDay - 1"]
    unfolding days_def utc_range_def by (simp_all add: kSecondsPerDay_def)
  show pos: "0 \<le> days + kJulianDayOf1970_01_01" using lo by (simp add: epoch_jdn)
  have t: "- 2440588 \<le> secs sdiv kSecondsPerDay" "secs sdiv kSecondsPerDay \<le> 500000000"
    using lo hi floor_repair(2) [OF k, of secs] unfolding days_def by (auto split: if_splits)
  have w: "wrap_s 32 (secs sdiv kSecondsPerDay) = secs sdiv kSecondsPerDay" using t by (intro wrap_s_id) simp_all
  have wd: "weekDay (days + kJulianDayOf1970_01_01) = (days + kJulianDayOf1970_01_01 + 1) mod 7"
    using pos by (simp add: weekDay_def kDaysPerWeek_def smod_nonneg)
  show "toUtcTime secs yday = (memZero_tm\<lparr>tm_zone := ''GMT'', tm_sec := r mod 60, tm_min := (r div 60) mod 60, tm_hour := (r div 60) div 60,
    tm_year := ymd_year ymd - 1900, tm_mon := ymd_month ymd - 1, tm_mday := ymd_day ymd,
    tm_wday := (days + kJulianDayOf1970_01_01 + 1) mod 7,
    tm_yday := (if yday then days + kJulianDayOf1970_01_01 - getJulianDayNumber (ymd_year ymd) 1 1 else -1)\<rparr>)"
    unfolding toUtcTime_def w floor_repair [OF k] Let_def days_def [symmetric] r_def [symmetric] wd ymd_def [symmetric]
    by (simp add: fillHMS_def memZero_tm_def Let_def)
qed

lemma ymd_day_number:
  assumes "0 \<le> j"
  shows "calendar_date (getYearMonthDay j)" and "jdn_of (getYearMonthDay j) = j"
proof -
  have "getYearMonthDay j = (next_day ^^ nat j) day_zero"
    using ymd_of_jdn [of "(next_day ^^ nat j) day_zero"] day_n [of "nat j"] assms by simp
  with day_n [of "nat j"] assms show "calendar_date (getYearMonthDay j)" "jdn_of (getYearMonthDay j) = j" by simp_all
qed

lemma hms_sum: "x div 60 div 60 * 3600 + x div 60 mod 60 * 60 + x mod 60 = x" for x :: int
proof -
  have "m = h * 60 + r \<Longrightarrow> x = m * 60 + s \<Longrightarrow> h * 3600 + r * 60 + s = x" for m h r s :: int by simp
  from this [OF div_mult_mod_eq [symmetric] div_mult_mod_eq [symmetric]] show ?thesis .
qed

lemma utc_round:
  assumes "utc_range secs"
  shows "fromUtcTime_tm (toUtcTime secs yday) = secs"
proof -
  let ?j = "secs div kSecondsPerDay + kJulianDayOf1970_01_01" and ?r = "secs mod kSecondsPerDay"
  have j: "getJulianDayNumber (ymd_year (getYearMonthDay ?j)) (ymd_month (getYearMonthDay ?j)) (ymd_day (getYearMonthDay ?j)) = ?j"
    using ymd_day_number(2) [OF toUtcTime_eq(2) [OF assms]] by (simp add: jdn_of_def)
  have r: "?r div 60 div 60 * 3600 + ?r div 60 mod 60 * 60 + ?r mod 60 = ?r" by (rule hms_sum)
  show ?thesis
    unfolding toUtcTime_eq(1) [OF assms] fromUtcTime_tm_def fromUtcTime_def
    by (simp add: j r Let_def)
qed

section \<open>The search\<close>

text \<open>Binary search finds the first element that is not before, when those before come first.\<close>

lemma lower_bound_loop_spec:
  assumes mono: "\<And>i j. i < j \<Longrightarrow> j < length xs \<Longrightarrow> before (xs ! j) \<Longrightarrow> before (xs ! i)"
  shows "first + len \<le> length xs \<Longrightarrow> \<forall>i < first. before (xs ! i) \<Longrightarrow> \<forall>i. first + len \<le> i \<and> i < length xs \<longrightarrow> \<not> before (xs ! i) \<Longrightarrow>
    lower_bound_loop before xs first len \<le> length xs \<and> (\<forall>i < lower_bound_loop before xs first len. before (xs ! i)) \<and>
    (\<forall>i. lower_bound_loop before xs first len \<le> i \<and> i < length xs \<longrightarrow> \<not> before (xs ! i))"
proof (induction len arbitrary: first rule: less_induct)
  case (less len)
  let ?h = "len div 2" and ?mid = "first + len div 2"
  show ?case
  proof (cases "len = 0")
    case True
    with less.prems show ?thesis by (subst (1 2 3) lower_bound_loop.simps) simp
  next
    case False
    have mid: "?mid < length xs" "?mid + 1 + (len - ?h - 1) = first + len" using False less.prems(1) by auto
    show ?thesis
    proof (cases "before (xs ! ?mid)")
      case True
      have "\<forall>i < ?mid + 1. before (xs ! i)" using mono [OF _ mid(1) True] True by (auto simp: less_Suc_eq)
      from less.IH [of "len - ?h - 1" "?mid + 1", OF _ _ this] less.prems mid False True show ?thesis
        by (subst (1 2 3) lower_bound_loop.simps) (simp add: Let_def)
    next
      case n: False
      have "\<not> before (xs ! i)" if "first + ?h \<le> i" "i < length xs" for i
        using that n mono [of ?mid i] by (cases "i = ?mid") auto
      with less.IH [of ?h first] less.prems mid(1) False n show ?thesis
        by (subst (1 2 3) lower_bound_loop.simps) (simp add: Let_def)
    qed
  qed
qed

text \<open>The number of transitions at or before a time, and the kind of local time after so many.\<close>

definition in_force :: "bool \<Rightarrow> int \<Rightarrow> transition list \<Rightarrow> nat" where
  "in_force gmt v ts = length (filter (\<lambda>t. tr_key gmt t \<le> v) ts)"

definition kind_index :: "tzdata \<Rightarrow> nat \<Rightarrow> nat" where
  "kind_index d n = (if n = 0 then 0 else tr_localtimeIdx (tz_transitions d ! (n - 1)))"

lemma in_force_eq:
  assumes "n \<le> length ts" and "\<And>i. i < n \<Longrightarrow> tr_key gmt (ts ! i) \<le> v" and "\<And>i. n \<le> i \<Longrightarrow> i < length ts \<Longrightarrow> v < tr_key gmt (ts ! i)"
  shows "in_force gmt v ts = n"
proof -
  have "filter (\<lambda>t. tr_key gmt t \<le> v) (take n ts) = take n ts"
    using assms(1,2) by (auto simp: filter_id_conv in_set_conv_nth)
  moreover have "filter (\<lambda>t. tr_key gmt t \<le> v) (drop n ts) = []"
    using assms(3) [of "n + _"] by (auto simp: filter_empty_conv in_set_conv_nth not_le)
  ultimately show ?thesis using assms(1) filter_append [of _ "take n ts" "drop n ts"] by (simp add: in_force_def)
qed

definition keys_sorted :: "bool \<Rightarrow> transition list \<Rightarrow> bool" where
  "keys_sorted gmt ts \<longleftrightarrow> sorted_wrt (\<lambda>a b. tr_key gmt a < tr_key gmt b) ts"

lemma in_force_bounds:
  assumes "keys_sorted gmt ts"
  shows "in_force gmt v ts \<le> length ts" "i < in_force gmt v ts \<Longrightarrow> tr_key gmt (ts ! i) \<le> v"
    "in_force gmt v ts \<le> i \<Longrightarrow> i < length ts \<Longrightarrow> v < tr_key gmt (ts ! i)"
proof -
  let ?n = "length (takeWhile (\<lambda>t. tr_key gmt t \<le> v) ts)"
  have le: "tr_key gmt (ts ! i) \<le> v" if "i < ?n" for i
    using that by (metis nth_mem set_takeWhileD takeWhile_nth)
  have gt: "v < tr_key gmt (ts ! i)" if "?n \<le> i" "i < length ts" for i
  proof -
    have "\<not> tr_key gmt (ts ! ?n) \<le> v" using that by (intro nth_length_takeWhile) simp
    moreover have "tr_key gmt (ts ! ?n) \<le> tr_key gmt (ts ! i)"
      using assms that by (cases "?n = i") (auto simp: keys_sorted_def sorted_wrt_iff_nth_less less_imp_le)
    ultimately show ?thesis by simp
  qed
  have "in_force gmt v ts = ?n" by (rule in_force_eq) (use le gt in \<open>simp_all add: length_takeWhile_le\<close>)
  with le gt show "in_force gmt v ts \<le> length ts" "i < in_force gmt v ts \<Longrightarrow> tr_key gmt (ts ! i) \<le> v"
    "in_force gmt v ts \<le> i \<Longrightarrow> i < length ts \<Longrightarrow> v < tr_key gmt (ts ! i)" by (simp_all add: length_takeWhile_le)
qed

lemma findLocaltime_in_force:
  assumes sorted: "keys_sorted gmt (tz_transitions d)"
  shows "findLocaltime d sentry gmt = localtime_at d (kind_index d (in_force gmt (tr_key gmt sentry) (tz_transitions d)))"
proof -
  let ?ts = "tz_transitions d" and ?v = "tr_key gmt sentry"
  let ?n = "in_force gmt ?v ?ts" and ?k = "lower_bound (\<lambda>t. tr_less gmt t sentry) ?ts"
  note b = in_force_bounds [OF sorted, where v = ?v]
  have less: "tr_key gmt (?ts ! i) < tr_key gmt (?ts ! j)" if "i < j" "j < length ?ts" for i j
    using sorted that by (simp add: keys_sorted_def sorted_wrt_iff_nth_less)
  have "?k \<le> length ?ts \<and> (\<forall>i < ?k. tr_less gmt (?ts ! i) sentry) \<and> (\<forall>i. ?k \<le> i \<and> i < length ?ts \<longrightarrow> \<not> tr_less gmt (?ts ! i) sentry)"
    unfolding lower_bound_def by (rule lower_bound_loop_spec) (use less in \<open>fastforce simp: tr_less_def\<close>)+
  then have k: "?k \<le> length ?ts" "\<And>i. i < ?k \<Longrightarrow> tr_key gmt (?ts ! i) < ?v"
    "\<And>i. ?k \<le> i \<Longrightarrow> i < length ?ts \<Longrightarrow> ?v \<le> tr_key gmt (?ts ! i)" by (auto simp: tr_less_def not_less)
  have eq: "?n = (if ?k < length ?ts \<and> tr_key gmt (?ts ! ?k) = ?v then ?k + 1 else ?k)"
  proof (rule in_force_eq)
    fix i assume "(if ?k < length ?ts \<and> tr_key gmt (?ts ! ?k) = ?v then ?k + 1 else ?k) \<le> i" "i < length ?ts"
    then show "?v < tr_key gmt (?ts ! i)" using k(3) [of i] k(3) [of ?k] less [of ?k i] by (cases "i = ?k") (auto split: if_splits)
  qed (use k in \<open>auto simp: less_imp_le less_Suc_eq split: if_splits\<close>)
  have first: "tr_less gmt sentry (hd ?ts) \<longleftrightarrow> ?n = 0" if "?ts \<noteq> []"
    using that b(2) [of 0] b(3) [of 0] by (cases "?n = 0") (auto simp: tr_less_def hd_conv_nth)
  show ?thesis
  proof (cases "?ts = [] \<or> tr_less gmt sentry (hd ?ts)")
    case True
    with first have "?n = 0" by (cases "?ts = []") (auto simp: in_force_def)
    with True show ?thesis by (simp add: findLocaltime_def kind_index_def)
  next
    case False
    with first have "?n \<noteq> 0" "?ts \<noteq> []" by auto
    with False eq k(1) show ?thesis
      by (auto simp: findLocaltime_def kind_index_def tr_equal_def last_conv_nth Let_def)
  qed
qed

section \<open>Local time\<close>

abbreviation kind :: "tzdata \<Rightarrow> nat \<Rightarrow> localtime" where
  "kind d n \<equiv> tz_localtimes d ! kind_index d n"

text \<open>
  Zones as they are: the transitions ascend in both columns and are more than an hour
  apart, and a clock is only set back by the one hour at the end of daylight saving time.
\<close>

definition zone_ok :: "tzdata \<Rightarrow> bool" where
  "zone_ok d \<longleftrightarrow>
     keys_sorted True (tz_transitions d) \<and> keys_sorted False (tz_transitions d) \<and> tz_localtimes d \<noteq> [] \<and>
     (\<forall>t \<in> set (tz_transitions d). tr_localtimeIdx t < length (tz_localtimes d) \<and>
        tr_localtime t = tr_gmttime t + lt_gmtOffset (tz_localtimes d ! tr_localtimeIdx t)) \<and>
     (\<forall>l \<in> set (tz_localtimes d). lt_arrbIdx l \<le> length (tz_abbreviation d)) \<and>
     (\<forall>i < length (tz_transitions d). lt_gmtOffset (kind d i) \<le> lt_gmtOffset (kind d (Suc i)) \<or>
        lt_gmtOffset (kind d (Suc i)) = lt_gmtOffset (kind d i) - 3600 \<and> lt_isDst (kind d i) \<and> \<not> lt_isDst (kind d (Suc i))) \<and>
     (\<forall>i. Suc i < length (tz_transitions d) \<longrightarrow>
        tr_gmttime (tz_transitions d ! i) + 3600 < tr_gmttime (tz_transitions d ! Suc i))"

lemma kind_ok:
  assumes "zone_ok d" and "n \<le> length (tz_transitions d)"
  shows "localtime_at d (kind_index d n) = Inr (kind d n)" "\<exists>nm. zone_name d (lt_arrbIdx (kind d n)) = Inr nm"
proof -
  have i: "kind_index d n < length (tz_localtimes d)"
    using assms by (auto simp: kind_index_def zone_ok_def)
  then show "localtime_at d (kind_index d n) = Inr (kind d n)" by (simp add: localtime_at_def)
  show "\<exists>nm. zone_name d (lt_arrbIdx (kind d n)) = Inr nm"
    using assms(1) nth_mem [OF i] by (simp add: zone_name_def zone_ok_def)
qed

lemma toLocalTime_kind:
  assumes z: "zone_ok d" and n: "n = in_force True t (tz_transitions d)"
  shows "\<exists>nm. toLocalTime gmtime (Some d) t = Inr ((gmtime (t + lt_gmtOffset (kind d n)))
    \<lparr>tm_isdst := (if lt_isDst (kind d n) then 1 else 0), tm_gmtoff := lt_gmtOffset (kind d n), tm_zone := nm\<rparr>)"
proof -
  have sorted: "keys_sorted True (tz_transitions d)" using z by (simp add: zone_ok_def)
  have "n \<le> length (tz_transitions d)" using in_force_bounds(1) [OF sorted] n by simp
  note k = kind_ok [OF z this]
  have "findLocaltime d \<lparr>tr_gmttime = t, tr_localtime = 0, tr_localtimeIdx = 0\<rparr> True = Inr (kind d n)"
    using findLocaltime_in_force [OF sorted, of "\<lparr>tr_gmttime = t, tr_localtime = 0, tr_localtimeIdx = 0\<rparr>"] k(1) n by (simp add: tr_key_def)
  with k(2) show ?thesis by (auto simp: toLocalTime_def Let_def)
qed

text \<open>The transition in force is found again in local time, or the next one in the repeated hour.\<close>

lemma local_in_force:
  assumes z: "zone_ok d" and n: "n = in_force True t (tz_transitions d)"
  defines "m \<equiv> in_force False (t + lt_gmtOffset (kind d n)) (tz_transitions d)"
  shows "m = n \<or> m = Suc n \<and> n < length (tz_transitions d) \<and> lt_gmtOffset (kind d (Suc n)) = lt_gmtOffset (kind d n) - 3600 \<and>
    lt_isDst (kind d n) \<and> \<not> lt_isDst (kind d (Suc n)) \<and> in_force True (t + 3600) (tz_transitions d) = Suc n"
proof -
  let ?ts = "tz_transitions d" and ?o = "\<lambda>i. lt_gmtOffset (kind d i)"
  have st: "keys_sorted True ?ts" "keys_sorted False ?ts" using z by (simp_all add: zone_ok_def)
  have nlen: "n \<le> length ?ts" and gle: "\<And>i. i < n \<Longrightarrow> tr_gmttime (?ts ! i) \<le> t"
    and ggt: "\<And>i. n \<le> i \<Longrightarrow> i < length ?ts \<Longrightarrow> t < tr_gmttime (?ts ! i)"
    using in_force_bounds [OF st(1), where v = t] n by (simp_all add: tr_key_def)
  have loc: "tr_localtime (?ts ! i) = tr_gmttime (?ts ! i) + ?o (Suc i)" if "i < length ?ts" for i
    using z that by (simp add: zone_ok_def kind_index_def)
  have lsort: "tr_localtime (?ts ! i) \<le> tr_localtime (?ts ! j)" if "i \<le> j" "j < length ?ts" for i j
    using st(2) that by (cases "i = j") (auto simp: keys_sorted_def sorted_wrt_iff_nth_less tr_key_def less_imp_le)
  have gsort: "tr_gmttime (?ts ! i) \<le> tr_gmttime (?ts ! j)" if "i \<le> j" "j < length ?ts" for i j
    using st(1) that by (cases "i = j") (auto simp: keys_sorted_def sorted_wrt_iff_nth_less tr_key_def less_imp_le)
  have le: "tr_localtime (?ts ! i) \<le> t + ?o n" if i: "i < n" for i
  proof -
    have "tr_localtime (?ts ! i) \<le> tr_localtime (?ts ! (n - 1))" using i nlen by (intro lsort) auto
    also have "\<dots> = tr_gmttime (?ts ! (n - 1)) + ?o n" using loc [of "n - 1"] i nlen by simp
    also have "\<dots> \<le> t + ?o n" using gle [of "n - 1"] i by simp
    finally show ?thesis .
  qed
  have here: "m = n" if "n = length ?ts \<or> t + ?o n < tr_localtime (?ts ! n)"
    unfolding m_def by (rule in_force_eq [OF nlen]) (use le lsort [of n] that in \<open>fastforce simp: tr_key_def\<close>)+
  show ?thesis
  proof (cases "n = length ?ts \<or> t + ?o n < tr_localtime (?ts ! n)")
    case False
    then have n': "n < length ?ts" and behind: "tr_localtime (?ts ! n) \<le> t + ?o n" using nlen by auto
    have "\<not> ?o n \<le> ?o (Suc n)" using behind loc [OF n'] ggt [of n] n' by auto
    with z n' have fall: "?o (Suc n) = ?o n - 3600" "lt_isDst (kind d n)" "\<not> lt_isDst (kind d (Suc n))"
      by (auto simp: zone_ok_def)
    have later: "t + 3600 < tr_gmttime (?ts ! i)" "t + ?o n < tr_localtime (?ts ! i)" if i: "Suc n \<le> i" "i < length ?ts" for i
    proof -
      have n1: "Suc n < length ?ts" using i by simp
      have "t + 3600 < tr_gmttime (?ts ! Suc n)" using z n1 ggt [of n] n' by (force simp: zone_ok_def)
      moreover have "?o (Suc n) \<le> ?o (Suc (Suc n))" using z n1 fall(3) by (auto simp: zone_ok_def)
      ultimately have "t + ?o n < tr_localtime (?ts ! Suc n)" using loc [OF n1] fall(1) by simp
      with lsort [of "Suc n" i] gsort [of "Suc n" i] i \<open>t + 3600 < tr_gmttime (?ts ! Suc n)\<close>
      show "t + 3600 < tr_gmttime (?ts ! i)" "t + ?o n < tr_localtime (?ts ! i)" by auto
    qed
    have "m = Suc n" unfolding m_def
      by (rule in_force_eq) (use n' le behind later(2) in \<open>auto simp: tr_key_def less_Suc_eq\<close>)
    moreover have "tr_gmttime (?ts ! n) \<le> t + 3600" using behind loc [OF n'] fall(1) by simp
    then have "in_force True (t + 3600) ?ts = Suc n"
      by (intro in_force_eq) (use n' gle later(1) in \<open>fastforce simp: tr_key_def less_Suc_eq\<close>)+
    ultimately show ?thesis using n' fall by simp
  qed (simp add: here)
qed

section \<open>Zone files\<close>

definition int32_bytes :: "int \<Rightarrow> string" where
  "int32_bytes i = mem_of (hostToNetwork32 (word_of_int i))"

definition is_int32 :: "int \<Rightarrow> bool" where
  "is_int32 i \<longleftrightarrow> - (2 ^ 31) \<le> i \<and> i < 2 ^ 31"

text \<open>The first block of a zone file.\<close>

definition type_bytes :: "localtime \<Rightarrow> string" where
  "type_bytes l = int32_bytes (lt_gmtOffset l) @ [if lt_isDst l then CHR 0x01 else CHR 0x00, char_of (lt_arrbIdx l)]"

definition tz_bytes :: "char \<Rightarrow> tzdata \<Rightarrow> string" where
  "tz_bytes version d =
     ''TZif'' @ [version] @ replicate 15 (CHR 0x00) @
     concat (map int32_bytes [0, 0, 0, int (length (tz_transitions d)), int (length (tz_localtimes d)), int (length (tz_abbreviation d))]) @
     concat (map (int32_bytes \<circ> tr_gmttime) (tz_transitions d)) @ map (char_of \<circ> tr_localtimeIdx) (tz_transitions d) @
     concat (map type_bytes (tz_localtimes d)) @ tz_abbreviation d"

definition tz_storable :: "tzdata \<Rightarrow> bool" where
  "tz_storable d \<longleftrightarrow>
     (\<forall>t \<in> set (tz_transitions d). is_int32 (tr_gmttime t) \<and> tr_localtimeIdx t < length (tz_localtimes d) \<and>
        tr_localtime t = tr_gmttime t + lt_gmtOffset (tz_localtimes d ! tr_localtimeIdx t)) \<and>
     (\<forall>l \<in> set (tz_localtimes d). is_int32 (lt_gmtOffset l) \<and> lt_arrbIdx l < 256) \<and>
     length (tz_transitions d) < 2 ^ 31 \<and> length (tz_localtimes d) \<le> 256 \<and> length (tz_abbreviation d) < 2 ^ 31"

lemma read_int32_bytes: "is_int32 i \<Longrightarrow> read_int32 (int32_bytes i @ f) = Inr (i, f)"
proof -
  assume i: "is_int32 i"
  have "sint (word_of_int i :: 32 word) = signed_take_bit 31 i" by (simp add: signed_of_int)
  also have "\<dots> = i" using i by (intro signed_take_bit_int_eq_self) (simp_all add: is_int32_def)
  finally have "sint (word_of_int i :: 32 word) = i" .
  then show ?thesis by (simp add: read_int32_def int32_bytes_def of_mem_mem_of)
qed

lemma read_many_bytes:
  assumes "\<And>x f. x \<in> set xs \<Longrightarrow> rd (enc x @ f) = Inr (x, f)"
  shows "read_many (length xs) rd (concat (map enc xs) @ f) = Inr (xs, f)"
  using assms by (induction xs) simp_all

lemma push_types_bytes:
  assumes "\<forall>l \<in> set ls. is_int32 (lt_gmtOffset l) \<and> lt_arrbIdx l < 256"
  shows "push_types (length ls) (concat (map type_bytes ls) @ f) d = (None, d\<lparr>tz_localtimes := tz_localtimes d @ ls\<rparr>, f)"
  using assms
proof (induction ls arbitrary: d)
  case (Cons l ls)
  then have "read_type (type_bytes l @ g) = Inr (l, g)" for g
    by (simp add: read_type_def type_bytes_def read_int32_bytes read_uint8_def)
  with Cons show ?case by simp
qed simp

lemma push_transitions_all:
  assumes "\<forall>t \<in> set ts. tr_localtimeIdx t < length (tz_localtimes d) \<and>
    tr_localtime t = tr_gmttime t + lt_gmtOffset (tz_localtimes d ! tr_localtimeIdx t)"
  shows "push_transitions (map (\<lambda>t. (tr_gmttime t, tr_localtimeIdx t)) ts) d = (None, d\<lparr>tz_transitions := tz_transitions d @ ts\<rparr>)"
  using assms
proof (induction ts arbitrary: d)
  case (Cons t ts)
  then have "\<lparr>tr_gmttime = tr_gmttime t, tr_localtime = tr_gmttime t + lt_gmtOffset (tz_localtimes d ! tr_localtimeIdx t),
      tr_localtimeIdx = tr_localtimeIdx t\<rparr> = t" by simp
  with Cons show ?case by simp
qed simp

lemma read_header_bytes:
  assumes "tz_storable d"
  shows "read_header (tz_bytes version d) = Inr (int (length (tz_localtimes d)), int (length (tz_abbreviation d)),
    map tr_gmttime (tz_transitions d), map tr_localtimeIdx (tz_transitions d), concat (map type_bytes (tz_localtimes d)) @ tz_abbreviation d)"
proof -
  let ?n = "length (tz_transitions d)"
  have n: "is_int32 0" "is_int32 (int ?n)" "is_int32 (int (length (tz_localtimes d)))" "is_int32 (int (length (tz_abbreviation d)))"
    using assms by (auto simp: tz_storable_def is_int32_def)
  have ts: "read_many ?n read_int32 (concat (map (int32_bytes \<circ> tr_gmttime) (tz_transitions d)) @ f) = Inr (map tr_gmttime (tz_transitions d), f)" for f
    using read_many_bytes [of "map tr_gmttime (tz_transitions d)" read_int32 int32_bytes f] read_int32_bytes assms
    by (auto simp: tz_storable_def)
  have "x < 256" if "x \<in> set (map tr_localtimeIdx (tz_transitions d))" for x using assms that by (fastforce simp: tz_storable_def)
  then have ix: "read_many ?n read_uint8 (map (char_of \<circ> tr_localtimeIdx) (tz_transitions d) @ f) = Inr (map tr_localtimeIdx (tz_transitions d), f)" for f
    using read_many_bytes [of "map tr_localtimeIdx (tz_transitions d)" read_uint8 "\<lambda>x. [char_of x]" f]
    by (auto simp: read_uint8_def concat_map_singleton comp_def)
  have b: "read_bytes 4 (''TZif'' @ f) = Inr (''TZif'', f)" "read_bytes 1 ([version] @ f) = Inr ([version], f)"
    "read_bytes 15 (replicate 15 (CHR 0x00) @ f) = Inr (replicate 15 (CHR 0x00), f)" for f
    by (simp_all add: read_bytes_def)
  show ?thesis unfolding read_header_def tz_bytes_def
    by (simp add: b [simplified] n read_int32_bytes ts ix del: read_many.simps)
qed

lemma zone_read_back:
  assumes "tz_storable d"
  shows "readTimeZoneFile (Some (tz_bytes version d)) tz_empty = Inr (True, d)"
proof -
  have ty: "push_types (length (tz_localtimes d)) (concat (map type_bytes (tz_localtimes d)) @ tz_abbreviation d) tz_empty =
      (None, tz_empty\<lparr>tz_localtimes := tz_localtimes d\<rparr>, tz_abbreviation d)"
    using push_types_bytes [of "tz_localtimes d" "tz_abbreviation d" tz_empty] assms by (simp add: tz_storable_def tz_empty_def)
  have z: "zip (map tr_gmttime (tz_transitions d)) (map tr_localtimeIdx (tz_transitions d)) = map (\<lambda>t. (tr_gmttime t, tr_localtimeIdx t)) (tz_transitions d)"
    by (simp add: zip_map_map zip_same_conv_map)
  have tr: "push_transitions (map (\<lambda>t. (tr_gmttime t, tr_localtimeIdx t)) (tz_transitions d)) (tz_empty\<lparr>tz_localtimes := tz_localtimes d\<rparr>) =
      (None, tz_empty\<lparr>tz_transitions := tz_transitions d, tz_localtimes := tz_localtimes d\<rparr>)"
    using assms by (subst push_transitions_all) (simp_all add: tz_storable_def tz_empty_def)
  show ?thesis
    by (simp add: readTimeZoneFile_def read_body_def read_header_bytes [OF assms] ty z tr read_bytes_def)
qed

section \<open>Properties\<close>

text \<open>Every second from day 0 of the date formulas to half a billion days after the epoch is
  converted to UTC and back to itself, with the fields of the broken-down time in range.\<close>

theorem utc_round_trip:
  assumes "- 2440588 * kSecondsPerDay \<le> secs" and "secs < 500000000 * kSecondsPerDay"
  shows "let utc = toUtcTime secs yday
    in fromUtcTime_tm utc = secs \<and> 0 \<le> tm_sec utc \<and> tm_sec utc < 60 \<and> 0 \<le> tm_min utc \<and> tm_min utc < 60 \<and>
       0 \<le> tm_hour utc \<and> tm_hour utc < 24 \<and> 0 \<le> tm_mon utc \<and> tm_mon utc < 12 \<and> 1 \<le> tm_mday utc \<and> tm_mday utc \<le> 31 \<and>
       0 \<le> tm_wday utc \<and> tm_wday utc < 7"
proof -
  have r: "utc_range secs" using assms by (simp add: utc_range_def)
  have hour: "0 \<le> x div 60 div 60 \<and> x div 60 div 60 < 24" if "0 \<le> x" "x < 86400" for x :: int using that by auto
  have "0 \<le> secs mod kSecondsPerDay" "secs mod kSecondsPerDay < 86400" by (simp_all add: kSecondsPerDay_def)
  note h = hour [OF this]
  let ?d = "getYearMonthDay (secs div kSecondsPerDay + kJulianDayOf1970_01_01)"
  have cal: "calendar_date ?d" by (rule ymd_day_number(1) [OF toUtcTime_eq(2) [OF r]])
  have "days_in_month (ymd_year ?d) (ymd_month ?d) \<le> 31" by (simp add: days_in_month_def)
  with cal have "1 \<le> ymd_month ?d" "ymd_month ?d \<le> 12" "1 \<le> ymd_day ?d" "ymd_day ?d \<le> 31"
    unfolding calendar_date_def by linarith+
  note date = this
  let ?u = "toUtcTime secs yday" and ?r = "secs mod kSecondsPerDay"
  have f: "tm_sec ?u = ?r mod 60" "tm_min ?u = ?r div 60 mod 60" "tm_hour ?u = ?r div 60 div 60" "tm_mon ?u = ymd_month ?d - 1"
    "tm_mday ?u = ymd_day ?d" "tm_wday ?u = (secs div kSecondsPerDay + kJulianDayOf1970_01_01 + 1) mod 7"
    unfolding toUtcTime_eq(1) [OF r] by simp_all
  show ?thesis unfolding Let_def f using h date utc_round [OF r, of yday] by (intro conjI) simp_all
qed

theorem utc_round_trip_witness:
  "fromUtcTime_tm (toUtcTime (- 1) True) = - 1"
  using utc_round_trip [of "- 1" True] by (simp add: kSecondsPerDay_def Let_def)

text \<open>C31. In a zone whose clock is only set back by one hour at the end of daylight saving time,
  every moment is converted to local time and back to itself, also in the hour that occurs
  twice.\<close>

theorem local_time_round_trip:
  assumes z: "zone_ok d" and range: "\<And>l. l \<in> set (tz_localtimes d) \<Longrightarrow> utc_range (t + lt_gmtOffset l)"
    and law: "\<And>x dst off zone. utc_range x \<Longrightarrow> timegm ((gmtime x)\<lparr>tm_isdst := dst, tm_gmtoff := off, tm_zone := zone\<rparr>) = x"
  shows "\<exists>tm. toLocalTime gmtime (Some d) t = Inr tm \<and> fromLocalTime gmtime timegm (Some d) tm = Inr t"
proof -
  let ?ts = "tz_transitions d"
  define n where n: "n = in_force True t ?ts"
  let ?p = "kind d n" and ?o = "lt_gmtOffset (kind d n)"
  have sorted: "keys_sorted True ?ts" "keys_sorted False ?ts" using z by (simp_all add: zone_ok_def)
  have nlen: "n \<le> length ?ts" using in_force_bounds(1) [OF sorted(1)] n by simp
  obtain nm where to: "toLocalTime gmtime (Some d) t = Inr ((gmtime (t + ?o))
    \<lparr>tm_isdst := (if lt_isDst ?p then 1 else 0), tm_gmtoff := ?o, tm_zone := nm\<rparr>)" (is "_ = Inr ?tm")
    using toLocalTime_kind [OF z n] by blast
  have "?p \<in> set (tz_localtimes d)" using kind_ok(1) [OF z nlen] by (auto simp: localtime_at_def split: if_splits)
  then have secs: "timegm ?tm = t + ?o" by (rule law [OF range])
  define m where m: "m = in_force False (t + ?o) ?ts"
  have "m \<le> length ?ts" using in_force_bounds(1) [OF sorted(2)] m by simp
  then have found: "findLocaltime d \<lparr>tr_gmttime = 0, tr_localtime = t + ?o, tr_localtimeIdx = 0\<rparr> False = Inr (kind d m)"
    using findLocaltime_in_force [OF sorted(2), of "\<lparr>tr_gmttime = 0, tr_localtime = t + ?o, tr_localtimeIdx = 0\<rparr>"] kind_ok(1) [OF z] m
    by (simp add: tr_key_def)
  have "fromLocalTime gmtime timegm (Some d) ?tm = Inr t"
    using local_in_force [OF z n, folded m]
  proof
    assume "m = n"
    with found secs to show ?thesis by (simp add: fromLocalTime_def)
  next
    assume again: "m = Suc n \<and> n < length ?ts \<and> lt_gmtOffset (kind d (Suc n)) = ?o - 3600 \<and> lt_isDst ?p \<and>
      \<not> lt_isDst (kind d (Suc n)) \<and> in_force True (t + 3600) ?ts = Suc n"
    then obtain nm' where "toLocalTime gmtime (Some d) (t + 3600) = Inr ((gmtime (t + ?o))
        \<lparr>tm_isdst := 0, tm_gmtoff := ?o - 3600, tm_zone := nm'\<rparr>)"
      using toLocalTime_kind [OF z, of "Suc n" "t + 3600" gmtime] by (auto simp: add.commute)
    with again found secs show ?thesis by (simp add: fromLocalTime_def add.commute)
  qed
  with to show ?thesis by blast
qed

text \<open>A zone with one summer: an hour ahead between two transitions.\<close>

definition one_summer :: tzdata where
  "one_summer = \<lparr>tz_transitions = [\<lparr>tr_gmttime = 1000000, tr_localtime = 1000000 - 14400, tr_localtimeIdx = 1\<rparr>,
       \<lparr>tr_gmttime = 9000000, tr_localtime = 9000000 - 18000, tr_localtimeIdx = 0\<rparr>],
     tz_localtimes = [\<lparr>lt_gmtOffset = - 18000, lt_isDst = False, lt_arrbIdx = 0\<rparr>, \<lparr>lt_gmtOffset = - 14400, lt_isDst = True, lt_arrbIdx = 0\<rparr>],
     tz_abbreviation = ''EST''\<rparr>"

lemma one_summer_ok: "zone_ok one_summer"
  by (auto simp: zone_ok_def one_summer_def keys_sorted_def tr_key_def kind_index_def less_Suc_eq)

theorem local_time_round_trip_witness:
  "zone_ok one_summer \<and> (\<exists>tm. toLocalTime (\<lambda>x. toUtcTime x False) (Some one_summer) 8999000 = Inr tm \<and>
     fromLocalTime (\<lambda>x. toUtcTime x False) fromUtcTime_tm (Some one_summer) tm = Inr 8999000)"
proof -
  have "fromUtcTime_tm ((toUtcTime x False)\<lparr>tm_isdst := dst, tm_gmtoff := off, tm_zone := zone\<rparr>) = x" if "utc_range x" for x dst off zone
    using utc_round [OF that, of False] by (simp add: fromUtcTime_tm_def)
  moreover have "utc_range (8999000 + lt_gmtOffset l)" if "l \<in> set (tz_localtimes one_summer)" for l
    using that by (auto simp: one_summer_def utc_range_def kSecondsPerDay_def)
  ultimately show ?thesis using local_time_round_trip [OF one_summer_ok, of 8999000 fromUtcTime_tm "\<lambda>x. toUtcTime x False"] one_summer_ok by simp
qed

text \<open>Zone data written in the format of a zone file is read back exactly.\<close>

theorem zone_file_round_trip:
  assumes "tz_storable d"
  shows "TimeZone_file (Some (tz_bytes version d)) = Inr (Some d)"
  using zone_read_back [OF assms] by (simp add: TimeZone_file_def)

theorem zone_file_round_trip_witness:
  "tz_storable one_summer \<and> TimeZone_file (Some (tz_bytes (CHR ''2'') one_summer)) = Inr (Some one_summer)"
proof -
  have "tz_storable one_summer" by (simp add: tz_storable_def one_summer_def is_int32_def)
  with zone_file_round_trip [OF this] show ?thesis by simp
qed

text \<open>A zone file that cannot be opened, or is empty, still gives a zone that counts as
  valid; converting any time with it reads the first element of an empty vector.\<close>

theorem missing_zone_undefined:
  "TimeZone_file None = Inr (Some tz_empty) \<and> TimeZone_file (Some []) = Inr (Some tz_empty) \<and>
   toLocalTime gmtime (Some tz_empty) secs = Inl (Undefined ''data.localtimes[i]'')"
  by (simp add: TimeZone_file_def readTimeZoneFile_def read_body_def read_header_def read_bytes_def toLocalTime_def
      findLocaltime_def localtime_at_def tz_empty_def)

end
