(* ===== verification/Threads.thy ===== *)
theory Threads
  imports Prelude
begin

text \<open>
  Threads (\<^verbatim>\<open>base/thread/Mutex.h\<close>, \<^verbatim>\<open>Condition.cpp\<close>, \<^verbatim>\<open>CountDownLatch.cpp\<close>, \<^verbatim>\<open>ThreadPool.cpp\<close>).

  The mutex is modelled with its \<^verbatim>\<open>holder_\<close> field, written beside the lock. For the latch
  and the pool what runs under the mutex is one event; a thread in \<^verbatim>\<open>wait\<close> of a condition
  leaves it when it is notified or spuriously. A worker is a place in \<^verbatim>\<open>runInThread\<close>, a call of
  \<^verbatim>\<open>put\<close> is either about to take the mutex or waiting on \<^verbatim>\<open>notFull_\<close>; tasks may call \<^verbatim>\<open>put\<close>
  themselves, and end without an exception. The properties: tasks are started once and
  in order, no wake-up of a worker or of a producer is lost, after \<^verbatim>\<open>stop\<close> the workers
  come to an end, but a producer that waits then never returns.
\<close>

section \<open>MutexLock\<close>

text \<open>
  \<open>mx_owner\<close> is the thread that holds the mutex of the system, \<open>mx_holder\<close> the field \<^verbatim>\<open>holder_\<close>
  (0 for none; identifiers of threads are positive). A thread in a wait of a condition
  releases and acquires the mutex as \<^verbatim>\<open>unlock\<close> and \<^verbatim>\<open>lock\<close> do, with \<^verbatim>\<open>UnassignGuard\<close> for the field.
\<close>

record mutex =
  mx_owner :: "nat option"
  mx_holder :: nat

definition MutexLock_new :: mutex where
  "MutexLock_new = \<lparr>mx_owner = None, mx_holder = 0\<rparr>"

definition isLockedByThisThread :: "nat \<Rightarrow> mutex \<Rightarrow> bool" where
  "isLockedByThisThread tid m \<longleftrightarrow> mx_holder m = tid"

definition assignHolder :: "nat \<Rightarrow> mutex \<Rightarrow> mutex" where
  "assignHolder tid m = m\<lparr>mx_holder := tid\<rparr>"

definition unassignHolder :: "mutex \<Rightarrow> mutex" where
  "unassignHolder m = m\<lparr>mx_holder := 0\<rparr>"

text \<open>The places of a thread in \<^verbatim>\<open>lock\<close> and \<^verbatim>\<open>unlock\<close>.\<close>

datatype mutex_pc = Outside | Acquired | Locked | Unassigned

inductive mx_step :: "mutex \<times> (nat \<Rightarrow> mutex_pc) \<Rightarrow> mutex \<times> (nat \<Rightarrow> mutex_pc) \<Rightarrow> bool" where
  pthread_lock: "0 < t \<Longrightarrow> pc t = Outside \<Longrightarrow> mx_owner m = None \<Longrightarrow>
    mx_step (m, pc) (m\<lparr>mx_owner := Some t\<rparr>, pc(t := Acquired))"
| assign: "pc t = Acquired \<Longrightarrow> mx_step (m, pc) (assignHolder t m, pc(t := Locked))"
| unassign: "pc t = Locked \<Longrightarrow> mx_step (m, pc) (unassignHolder m, pc(t := Unassigned))"
| pthread_unlock: "pc t = Unassigned \<Longrightarrow> mx_step (m, pc) (m\<lparr>mx_owner := None\<rparr>, pc(t := Outside))"

definition mx_ok :: "mutex \<times> (nat \<Rightarrow> mutex_pc) \<Rightarrow> bool" where
  "mx_ok = (\<lambda>(m, pc). case mx_owner m of
       None \<Rightarrow> pc = (\<lambda>_. Outside) \<and> mx_holder m = 0
     | Some t \<Rightarrow> 0 < t \<and> pc t \<noteq> Outside \<and> pc = (\<lambda>_. Outside)(t := pc t) \<and>
         mx_holder m = (if pc t = Locked then t else 0))"

lemma mx_okI:
  assumes "0 < t" and "p \<noteq> Outside" and "mx_owner m = Some t" and "mx_holder m = (if p = Locked then t else 0)"
  shows "mx_ok (m, (\<lambda>_. Outside)(t := p))"
  using assms by (simp add: mx_ok_def)

lemma mx_okE:
  assumes "mx_ok (m, pc)" and "pc t \<noteq> Outside"
  obtains "0 < t" "mx_owner m = Some t" "pc = (\<lambda>_. Outside)(t := pc t)" "mx_holder m = (if pc t = Locked then t else 0)"
proof -
  from assms obtain u where u: "mx_owner m = Some u" "0 < u" "pc = (\<lambda>_. Outside)(u := pc u)"
      "mx_holder m = (if pc u = Locked then u else 0)"
    by (auto simp: mx_ok_def split: option.splits)
  have "u = t"
  proof (rule ccontr)
    assume "u \<noteq> t"
    then have "((\<lambda>_. Outside)(u := pc u)) t = Outside" by simp
    with u(3) assms(2) show False by simp
  qed
  with u show thesis using that by blast
qed

lemma mx_step_ok: "mx_step c c' \<Longrightarrow> mx_ok c \<Longrightarrow> mx_ok c'"
proof (induction rule: mx_step.induct)
  case (pthread_lock t pc m)
  then have "pc = (\<lambda>_. Outside)" "mx_holder m = 0" by (simp_all add: mx_ok_def)
  with pthread_lock(1) show ?case by (simp add: mx_okI)
next
  case (assign pc t m)
  then have "pc t \<noteq> Outside" by simp
  with assign(2) obtain "0 < t" "mx_owner m = Some t" "pc = (\<lambda>_. Outside)(t := pc t)" by (rule mx_okE)
  then have "pc(t := Locked) = (\<lambda>_. Outside)(t := Locked)" by (metis fun_upd_upd)
  with \<open>0 < t\<close> \<open>mx_owner m = Some t\<close> show ?case by (simp add: mx_okI assignHolder_def)
next
  case (unassign pc t m)
  then have "pc t \<noteq> Outside" by simp
  with unassign(2) obtain "0 < t" "mx_owner m = Some t" "pc = (\<lambda>_. Outside)(t := pc t)" by (rule mx_okE)
  then have "pc(t := Unassigned) = (\<lambda>_. Outside)(t := Unassigned)" by (metis fun_upd_upd)
  with \<open>0 < t\<close> \<open>mx_owner m = Some t\<close> show ?case by (simp add: mx_okI unassignHolder_def)
next
  case (pthread_unlock pc t m)
  then have "pc t \<noteq> Outside" by simp
  with pthread_unlock(2) obtain "pc = (\<lambda>_. Outside)(t := pc t)" and h: "mx_holder m = (if pc t = Locked then t else 0)"
    by (rule mx_okE)
  then have "pc(t := Outside) = (\<lambda>_. Outside)" by (metis fun_upd_triv fun_upd_upd)
  with h pthread_unlock(1) show ?case by (simp add: mx_ok_def)
qed

text \<open>
  \<^verbatim>\<open>isLockedByThisThread\<close> is exact: a thread that is not inside \<^verbatim>\<open>lock\<close> or \<^verbatim>\<open>unlock\<close> finds it true
  when and only when it holds the mutex, so \<^verbatim>\<open>assertLocked\<close> never fails under the lock.
\<close>

lemma locked_by_this_thread_exact:
  assumes "mx_step\<^sup>*\<^sup>* (MutexLock_new, \<lambda>_. Outside) (m, pc)" and "0 < t" and "pc t = Outside \<or> pc t = Locked"
  shows "isLockedByThisThread t m \<longleftrightarrow> mx_owner m = Some t"
proof -
  have "mx_ok (MutexLock_new, \<lambda>_. Outside)" by (simp add: mx_ok_def MutexLock_new_def)
  with assms(1) have "mx_ok (m, pc)" by (induction rule: rtranclp_induct) (auto intro: mx_step_ok)
  show ?thesis
  proof (cases "mx_owner m")
    case None
    with \<open>mx_ok (m, pc)\<close> assms(2) show ?thesis by (simp add: mx_ok_def isLockedByThisThread_def)
  next
    case (Some u)
    with \<open>mx_ok (m, pc)\<close> have u: "pc u \<noteq> Outside" "mx_holder m = (if pc u = Locked then u else 0)"
      by (simp_all add: mx_ok_def)
    show ?thesis using u Some assms(2,3) by (cases "u = t") (auto simp: isLockedByThisThread_def)
  qed
qed

section \<open>Condition::waitForSeconds\<close>

text \<open>
  The deadline: \<open>now\<close> is the answer of \<^verbatim>\<open>clock_gettime\<close>, \<open>nanoseconds\<close> the product of the seconds
  and a thousand million, truncated.
\<close>

definition kNanoSecondsPerSecond :: int where "kNanoSecondsPerSecond = 1000000000"

definition waitForSeconds_abstime :: "int \<times> int \<Rightarrow> int \<Rightarrow> int \<times> int" where
  "waitForSeconds_abstime now nanoseconds =
     (let tv_sec = fst now + (snd now + nanoseconds) sdiv kNanoSecondsPerSecond;
          tv_nsec = (snd now + nanoseconds) smod kNanoSecondsPerSecond
      in (tv_sec, tv_nsec))"

lemma waitForSeconds_abstime_exact:
  assumes "0 \<le> snd now" and "0 \<le> nanoseconds"
  shows "(case waitForSeconds_abstime now nanoseconds of (s, ns) \<Rightarrow>
     s * kNanoSecondsPerSecond + ns = fst now * kNanoSecondsPerSecond + snd now + nanoseconds \<and>
     0 \<le> ns \<and> ns < kNanoSecondsPerSecond)"
proof -
  have pos: "0 \<le> snd now + nanoseconds" using assms by simp
  have "(snd now + nanoseconds) sdiv kNanoSecondsPerSecond = (snd now + nanoseconds) div kNanoSecondsPerSecond"
    and "(snd now + nanoseconds) smod kNanoSecondsPerSecond = (snd now + nanoseconds) mod kNanoSecondsPerSecond"
    using pos by (simp_all add: kNanoSecondsPerSecond_def signed_divide_int_def signed_modulo_int_def sgn_if)
  then show ?thesis
    by (simp add: waitForSeconds_abstime_def Let_def kNanoSecondsPerSecond_def distrib_right div_mult_mod_eq)
qed

section \<open>CountDownLatch\<close>

text \<open>Threads in \<^verbatim>\<open>wait()\<close>: about to test the count, waiting, or returned.\<close>

datatype latch_pc = LTest | LWait | LReturned

record latch =
  l_count :: int
  l_threads :: "latch_pc list"

definition CountDownLatch_new :: "int \<Rightarrow> latch" where
  "CountDownLatch_new count = \<lparr>l_count = count, l_threads = []\<rparr>"

definition latch_notifyAll :: "latch \<Rightarrow> latch" where
  "latch_notifyAll l = l\<lparr>l_threads := map (\<lambda>p. if p = LWait then LTest else p) (l_threads l)\<rparr>"

definition latch_wait :: "nat \<Rightarrow> latch \<Rightarrow> latch" where
  "latch_wait i l = l\<lparr>l_threads := (l_threads l)[i := if 0 < l_count l then LWait else LReturned]\<rparr>"

definition countDown :: "latch \<Rightarrow> latch" where
  "countDown l = (let l' = l\<lparr>l_count := l_count l - 1\<rparr> in if l_count l' = 0 then latch_notifyAll l' else l')"

datatype latch_event = CallWait | TestCount nat | Spurious nat | CallCountDown

fun latch_enabled :: "latch_event \<Rightarrow> latch \<Rightarrow> bool" where
  "latch_enabled CallWait l \<longleftrightarrow> True"
| "latch_enabled (TestCount i) l \<longleftrightarrow> i < length (l_threads l) \<and> l_threads l ! i = LTest"
| "latch_enabled (Spurious i) l \<longleftrightarrow> i < length (l_threads l) \<and> l_threads l ! i = LWait"
| "latch_enabled CallCountDown l \<longleftrightarrow> True"

fun latch_do :: "latch_event \<Rightarrow> latch \<Rightarrow> latch" where
  "latch_do CallWait l = l\<lparr>l_threads := l_threads l @ [LTest]\<rparr>"
| "latch_do (TestCount i) l = latch_wait i l"
| "latch_do (Spurious i) l = l\<lparr>l_threads := (l_threads l)[i := LTest]\<rparr>"
| "latch_do CallCountDown l = countDown l"

inductive latch_reachable :: "int \<Rightarrow> latch \<Rightarrow> nat \<Rightarrow> bool" for count :: int where
  latch_init: "latch_reachable count (CountDownLatch_new count) 0"
| latch_step: "latch_reachable count l k \<Longrightarrow> latch_enabled e l \<Longrightarrow>
    latch_reachable count (latch_do e l) (if e = CallCountDown then k + 1 else k)"

text \<open>
  A thread returns from \<^verbatim>\<open>wait\<close> only when the latch was counted down as often as it was set up
  for, and then no thread is left waiting.
\<close>

lemma latch_exact:
  assumes "latch_reachable count l k"
  shows "l_count l = count - int k \<and> (LReturned \<in> set (l_threads l) \<longrightarrow> l_count l \<le> 0) \<and>
    (l_count l \<le> 0 \<longrightarrow> LWait \<notin> set (l_threads l))"
  using assms
proof induction
  case latch_init
  then show ?case by (simp add: CountDownLatch_new_def)
next
  case (latch_step l k e)
  note upd = set_update_subset_insert [of "l_threads l"]
  show ?case
  proof (cases e)
    case (TestCount i)
    with latch_step upd [of i] show ?thesis by (force simp: latch_wait_def)
  next
    case (Spurious i)
    with latch_step upd [of i] show ?thesis by force
  next
    case CallCountDown
    with latch_step show ?thesis by (force simp: countDown_def latch_notifyAll_def Let_def)
  qed (use latch_step in auto)
qed

section \<open>ThreadPool\<close>

text \<open>The places of a worker in \<^verbatim>\<open>runInThread\<close>.\<close>

datatype worker_pc =
    WStart              \<comment> \<open>before \<^verbatim>\<open>threadInitCallback_\<close>\<close>
  | WLoop               \<comment> \<open>at \<^verbatim>\<open>while (isRunning_)\<close>\<close>
  | WTake               \<comment> \<open>in \<^verbatim>\<open>take\<close>, about to hold the mutex\<close>
  | WWait               \<comment> \<open>in \<^verbatim>\<open>take\<close>, waiting on \<^verbatim>\<open>notEmpty_\<close>\<close>
  | WTask nat           \<comment> \<open>running a task\<close>
  | WDone               \<comment> \<open>returned\<close>

record thread_pool =
  tp_threads :: "worker_pc list"
  tp_queue :: "nat list"
  tp_maxQueueSize :: nat
  tp_isRunning :: bool
  tp_initCallback :: bool
  tp_entering :: "(nat \<times> nat) list"   \<comment> \<open>threads in \<^verbatim>\<open>put\<close> with their tasks, about to hold the mutex\<close>
  tp_waiting :: "(nat \<times> nat) list"    \<comment> \<open>threads in \<^verbatim>\<open>put\<close> waiting on \<^verbatim>\<open>notFull_\<close>\<close>
  tp_inits :: nat                     \<comment> \<open>history: runs of \<^verbatim>\<open>threadInitCallback_\<close>\<close>
  tp_submitted :: "nat list"          \<comment> \<open>history: tasks accepted by \<^verbatim>\<open>put\<close>\<close>
  tp_started :: "nat list"            \<comment> \<open>history: tasks called\<close>

definition ThreadPool_new :: "nat \<Rightarrow> bool \<Rightarrow> thread_pool" where
  "ThreadPool_new maxSize cb = \<lparr>tp_threads = [], tp_queue = [], tp_maxQueueSize = maxSize, tp_isRunning = False,
     tp_initCallback = cb, tp_entering = [], tp_waiting = [], tp_inits = 0, tp_submitted = [], tp_started = []\<rparr>"

definition tp_init_call :: "thread_pool \<Rightarrow> thread_pool" where
  "tp_init_call s = (if tp_initCallback s then s\<lparr>tp_inits := tp_inits s + 1\<rparr> else s)"

definition tp_start :: "nat \<Rightarrow> thread_pool \<Rightarrow> thread_pool res" where
  "tp_start numThreads s = ensure (tp_threads s = []) ''threads_.empty()''
     (let s1 = s\<lparr>tp_isRunning := True, tp_threads := replicate numThreads WStart\<rparr>
      in Inr (if numThreads = 0 then tp_init_call s1 else s1))"

definition tp_isFull :: "thread_pool \<Rightarrow> bool" where
  "tp_isFull s \<longleftrightarrow> 0 < tp_maxQueueSize s \<and> tp_maxQueueSize s \<le> length (tp_queue s)"

text \<open>\<^verbatim>\<open>notify\<close> wakes one of the threads that wait, if there is one; \<open>sel\<close> is the one it wakes.\<close>

definition notEmpty_notify :: "nat option \<Rightarrow> thread_pool \<Rightarrow> thread_pool" where
  "notEmpty_notify sel s = (case sel of None \<Rightarrow> s | Some i \<Rightarrow> s\<lparr>tp_threads := (tp_threads s)[i := WTake]\<rparr>)"

definition notEmpty_sel :: "nat option \<Rightarrow> thread_pool \<Rightarrow> bool" where
  "notEmpty_sel sel s = (case sel of None \<Rightarrow> WWait \<notin> set (tp_threads s)
     | Some i \<Rightarrow> i < length (tp_threads s) \<and> tp_threads s ! i = WWait)"

definition notEmpty_notifyAll :: "thread_pool \<Rightarrow> thread_pool" where
  "notEmpty_notifyAll s = s\<lparr>tp_threads := map (\<lambda>p. if p = WWait then WTake else p) (tp_threads s)\<rparr>"

definition notFull_notify :: "(nat \<times> nat) option \<Rightarrow> thread_pool \<Rightarrow> thread_pool" where
  "notFull_notify sel s = (case sel of None \<Rightarrow> s
     | Some x \<Rightarrow> s\<lparr>tp_waiting := remove1 x (tp_waiting s), tp_entering := tp_entering s @ [x]\<rparr>)"

definition notFull_sel :: "(nat \<times> nat) option \<Rightarrow> thread_pool \<Rightarrow> bool" where
  "notFull_sel sel s = (case sel of None \<Rightarrow> tp_waiting s = [] | Some x \<Rightarrow> x \<in> set (tp_waiting s))"

text \<open>\<^verbatim>\<open>take\<close> by worker \<open>i\<close>, from where it holds the mutex; with no task it goes back to its loop.\<close>

definition tp_take :: "nat \<Rightarrow> (nat \<times> nat) option \<Rightarrow> thread_pool \<Rightarrow> thread_pool" where
  "tp_take i sel s =
     (if tp_queue s = [] \<and> tp_isRunning s then s\<lparr>tp_threads := (tp_threads s)[i := WWait]\<rparr>
      else case tp_queue s of
          [] \<Rightarrow> s\<lparr>tp_threads := (tp_threads s)[i := WLoop]\<rparr>
        | task # q \<Rightarrow>
            (let s1 = s\<lparr>tp_queue := q, tp_threads := (tp_threads s)[i := WTask task], tp_started := tp_started s @ [task]\<rparr>
             in if 0 < tp_maxQueueSize s then notFull_notify sel s1 else s1))"

text \<open>\<^verbatim>\<open>put\<close> up to the mutex, and from there.\<close>

definition tp_put_call :: "nat \<Rightarrow> nat \<Rightarrow> thread_pool \<Rightarrow> thread_pool" where
  "tp_put_call t f s =
     (if tp_threads s = [] then s\<lparr>tp_submitted := tp_submitted s @ [f], tp_started := tp_started s @ [f]\<rparr>
      else s\<lparr>tp_entering := tp_entering s @ [(t, f)]\<rparr>)"

definition tp_put_locked :: "nat \<times> nat \<Rightarrow> nat option \<Rightarrow> thread_pool \<Rightarrow> thread_pool res" where
  "tp_put_locked x sel s =
     (if tp_isFull s then Inr (s\<lparr>tp_entering := remove1 x (tp_entering s), tp_waiting := tp_waiting s @ [x]\<rparr>)
      else ensure (\<not> tp_isFull s) ''!isFull()''
        (Inr (notEmpty_notify sel (s\<lparr>tp_entering := remove1 x (tp_entering s), tp_queue := tp_queue s @ [snd x],
           tp_submitted := tp_submitted s @ [snd x]\<rparr>))))"

text \<open>\<^verbatim>\<open>stop\<close>, before it joins the workers: it returns when all of them are done.\<close>

definition tp_stop :: "thread_pool \<Rightarrow> thread_pool" where
  "tp_stop s = notEmpty_notifyAll (s\<lparr>tp_isRunning := False\<rparr>)"

definition tp_joined :: "thread_pool \<Rightarrow> bool" where
  "tp_joined s \<longleftrightarrow> (\<forall>p \<in> set (tp_threads s). p = WDone)"

datatype pool_event =
    PoolStart nat
  | WorkerInit nat
  | WorkerTest nat
  | WorkerTake nat "(nat \<times> nat) option"
  | WorkerFinish nat
  | WorkerSpurious nat
  | PutCall nat nat
  | PutLocked "nat \<times> nat" "nat option"
  | PutSpurious "nat \<times> nat"
  | PoolStop

definition in_put :: "thread_pool \<Rightarrow> nat \<Rightarrow> bool" where
  "in_put s t \<longleftrightarrow> t \<in> fst ` set (tp_entering s) \<or> t \<in> fst ` set (tp_waiting s)"

definition worker_at :: "nat \<Rightarrow> worker_pc \<Rightarrow> thread_pool \<Rightarrow> bool" where
  "worker_at i p s \<longleftrightarrow> i < length (tp_threads s) \<and> tp_threads s ! i = p"

fun is_task :: "worker_pc \<Rightarrow> bool" where
  "is_task (WTask f) = True"
| "is_task _ = False"

text \<open>
  What can happen next. Worker \<open>i\<close> is thread \<open>i\<close>; it calls \<^verbatim>\<open>put\<close> only from a task, which ends when
  the call has returned. The pool is started once, as \<^verbatim>\<open>start\<close> asserts.
\<close>

fun pool_enabled :: "pool_event \<Rightarrow> thread_pool \<Rightarrow> bool" where
  "pool_enabled (PoolStart n) s \<longleftrightarrow> tp_threads s = []"
| "pool_enabled (WorkerInit i) s \<longleftrightarrow> worker_at i WStart s"
| "pool_enabled (WorkerTest i) s \<longleftrightarrow> worker_at i WLoop s"
| "pool_enabled (WorkerTake i sel) s \<longleftrightarrow> worker_at i WTake s \<and> notFull_sel sel s"
| "pool_enabled (WorkerFinish i) s \<longleftrightarrow> i < length (tp_threads s) \<and> is_task (tp_threads s ! i) \<and> \<not> in_put s i"
| "pool_enabled (WorkerSpurious i) s \<longleftrightarrow> worker_at i WWait s"
| "pool_enabled (PutCall t f) s \<longleftrightarrow> \<not> in_put s t \<and> (t < length (tp_threads s) \<longrightarrow> is_task (tp_threads s ! t))"
| "pool_enabled (PutLocked x sel) s \<longleftrightarrow> x \<in> set (tp_entering s) \<and> notEmpty_sel sel s"
| "pool_enabled (PutSpurious x) s \<longleftrightarrow> x \<in> set (tp_waiting s)"
| "pool_enabled PoolStop s \<longleftrightarrow> tp_isRunning s"

fun pool_do :: "pool_event \<Rightarrow> thread_pool \<Rightarrow> thread_pool res" where
  "pool_do (PoolStart n) s = tp_start n s"
| "pool_do (WorkerInit i) s = Inr (tp_init_call (s\<lparr>tp_threads := (tp_threads s)[i := WLoop]\<rparr>))"
| "pool_do (WorkerTest i) s = Inr (s\<lparr>tp_threads := (tp_threads s)[i := if tp_isRunning s then WTake else WDone]\<rparr>)"
| "pool_do (WorkerTake i sel) s = Inr (tp_take i sel s)"
| "pool_do (WorkerFinish i) s = Inr (s\<lparr>tp_threads := (tp_threads s)[i := WLoop]\<rparr>)"
| "pool_do (WorkerSpurious i) s = Inr (s\<lparr>tp_threads := (tp_threads s)[i := WTake]\<rparr>)"
| "pool_do (PutCall t f) s = Inr (tp_put_call t f s)"
| "pool_do (PutLocked x sel) s = tp_put_locked x sel s"
| "pool_do (PutSpurious x) s = Inr (s\<lparr>tp_waiting := remove1 x (tp_waiting s), tp_entering := tp_entering s @ [x]\<rparr>)"
| "pool_do PoolStop s = Inr (tp_stop s)"

inductive pool_step :: "thread_pool \<Rightarrow> thread_pool \<Rightarrow> bool" where
  pool_event: "pool_enabled e s \<Longrightarrow> pool_do e s = Inr s' \<Longrightarrow> pool_step s s'"

definition pool_reachable :: "nat \<Rightarrow> bool \<Rightarrow> thread_pool \<Rightarrow> bool" where
  "pool_reachable maxSize cb s \<longleftrightarrow> pool_step\<^sup>*\<^sup>* (ThreadPool_new maxSize cb) s"

fun pool_run :: "pool_event list \<Rightarrow> thread_pool \<Rightarrow> thread_pool option" where
  "pool_run [] s = Some s"
| "pool_run (e # es) s = (if pool_enabled e s then case pool_do e s of Inl _ \<Rightarrow> None | Inr s' \<Rightarrow> pool_run es s' else None)"

lemma pool_run_steps: "pool_run es s = Some s' \<Longrightarrow> pool_step\<^sup>*\<^sup>* s s'"
proof (induction es arbitrary: s)
  case (Cons e es)
  then obtain s1 where "pool_enabled e s" "pool_do e s = Inr s1" "pool_run es s1 = Some s'"
    by (auto split: if_splits sum.splits)
  with Cons.IH pool_event show ?case by (meson converse_rtranclp_into_rtranclp)
qed simp

section \<open>The invariant of the pool\<close>

lemma count_list_update:
  "i < length xs \<Longrightarrow> count_list (xs[i := y]) a + (if xs ! i = a then 1 else 0) = count_list xs a + (if y = a then 1 else 0)"
proof (induction xs arbitrary: i)
  case (Cons x xs)
  show ?case
  proof (cases i)
    case 0
    then show ?thesis by simp
  next
    case (Suc j)
    with Cons.prems Cons.IH [of j] show ?thesis by (auto split: if_splits)
  qed
qed simp

text \<open>
  A worker waits only while the workers that are awake in \<^verbatim>\<open>take\<close> suffice for the queue; a
  producer waits only while the producers that are awake in \<^verbatim>\<open>put\<close> suffice to fill it.
\<close>

definition pool_ok :: "thread_pool \<Rightarrow> bool" where
  "pool_ok s \<longleftrightarrow>
     tp_submitted s = tp_started s @ tp_queue s \<and>
     (0 < tp_maxQueueSize s \<longrightarrow> length (tp_queue s) \<le> tp_maxQueueSize s) \<and>
     (tp_threads s = [] \<longrightarrow> tp_queue s = [] \<and> tp_entering s = [] \<and> tp_waiting s = []) \<and>
     (WWait \<in> set (tp_threads s) \<longrightarrow> tp_isRunning s \<and> length (tp_queue s) \<le> count_list (tp_threads s) WTake) \<and>
     (tp_waiting s \<noteq> [] \<longrightarrow> 0 < tp_maxQueueSize s \<and> tp_maxQueueSize s \<le> length (tp_queue s) + length (tp_entering s))"

text \<open>Moving worker \<open>i\<close> to another place, without touching the rest.\<close>

lemma move_worker_ok:
  assumes "pool_ok s" and "i < length (tp_threads s)" and "tp_threads s ! i \<noteq> WTake" and "p \<noteq> WWait"
  shows "pool_ok (s\<lparr>tp_threads := (tp_threads s)[i := p]\<rparr>)"
proof -
  from count_list_update [OF assms(2), of p WTake] assms(3)
  have "count_list (tp_threads s) WTake \<le> count_list ((tp_threads s)[i := p]) WTake" by simp
  moreover have "WWait \<in> set ((tp_threads s)[i := p]) \<Longrightarrow> WWait \<in> set (tp_threads s)"
    using set_update_subset_insert [of "tp_threads s" i p] assms(4) by auto
  ultimately show ?thesis using assms(1,2) by (auto simp: pool_ok_def)
qed

lemma pool_ok_inits: "pool_ok s \<Longrightarrow> pool_ok (tp_init_call s)"
  by (simp add: pool_ok_def tp_init_call_def)

lemma worker_moves_ok:
  assumes "pool_ok s" and "pool_enabled e s"
    and "e = WorkerInit i \<or> e = WorkerTest i \<or> e = WorkerFinish i \<or> e = WorkerSpurious i" and "pool_do e s = Inr s'"
  shows "pool_ok s'"
proof -
  from assms(2,3) have i: "i < length (tp_threads s)" "tp_threads s ! i \<noteq> WTake" by (auto simp: worker_at_def)
  note moved = move_worker_ok [OF assms(1) i]
  from assms(3,4) show ?thesis by (auto simp: moved pool_ok_inits)
qed

lemma take_ok:
  assumes ok: "pool_ok s" and "pool_enabled (WorkerTake i sel) s"
  shows "pool_ok (tp_take i sel s)"
proof -
  from assms(2) have i: "i < length (tp_threads s)" "tp_threads s ! i = WTake" and sel: "notFull_sel sel s"
    by (simp_all add: worker_at_def)
  have ne: "tp_threads s \<noteq> []" using i by auto
  note counts = count_list_update [OF i(1), where a = WTake] 
  note subset = set_update_subset_insert [of "tp_threads s" i]
  show ?thesis
  proof (cases "tp_queue s")
    case Nil
    show ?thesis
    proof (cases "tp_isRunning s")
      case True
      with Nil ok ne show ?thesis by (simp add: pool_ok_def tp_take_def)
    next
      case False
      with ok have "WWait \<notin> set (tp_threads s)" by (auto simp: pool_ok_def)
      with subset [of WLoop] have "WWait \<notin> set ((tp_threads s)[i := WLoop])" by auto
      with False Nil ok ne show ?thesis by (simp add: pool_ok_def tp_take_def)
    qed
  next
    case (Cons f q)
    have wait: "WWait \<in> set ((tp_threads s)[i := WTask f]) \<Longrightarrow> WWait \<in> set (tp_threads s)"
      using subset [of "WTask f"] by auto
    from counts [of "WTask f"] i(2) have c: "Suc (count_list ((tp_threads s)[i := WTask f]) WTake) = count_list (tp_threads s) WTake"
      by simp
    show ?thesis
    proof (cases "0 < tp_maxQueueSize s \<and> sel \<noteq> None")
      case True
      then obtain x where x: "sel = Some x" by auto
      with sel have "x \<in> set (tp_waiting s)" by (simp add: notFull_sel_def)
      then have "tp_waiting s \<noteq> []" by auto
      with ok Cons True x ne wait c show ?thesis
        by (auto simp: pool_ok_def tp_take_def notFull_notify_def Let_def)
    next
      case False
      then have "0 < tp_maxQueueSize s \<longrightarrow> tp_waiting s = []" using sel by (cases sel) (simp_all add: notFull_sel_def)
      with ok have "tp_waiting s = []" by (auto simp: pool_ok_def)
      moreover have "tp_take i sel s =
          s\<lparr>tp_queue := q, tp_threads := (tp_threads s)[i := WTask f], tp_started := tp_started s @ [f]\<rparr>"
        using Cons False by (cases sel) (auto simp: tp_take_def Let_def notFull_notify_def)
      ultimately show ?thesis using ok Cons ne wait c by (auto simp: pool_ok_def)
    qed
  qed
qed

lemma length_remove1_Suc: "x \<in> set xs \<Longrightarrow> Suc (length (remove1 x xs)) = length xs"
  by (simp add: length_remove1) (metis Suc_pred length_pos_if_in_set)

lemma put_locked_ok:
  assumes ok: "pool_ok s" and en: "pool_enabled (PutLocked x sel) s" and put: "tp_put_locked x sel s = Inr s'"
  shows "pool_ok s'"
proof -
  from en have x: "x \<in> set (tp_entering s)" and sel: "notEmpty_sel sel s" by simp_all
  have len: "Suc (length (remove1 x (tp_entering s))) = length (tp_entering s)" using x by (rule length_remove1_Suc)
  from x ok have ne: "tp_threads s \<noteq> []" by (auto simp: pool_ok_def)
  show ?thesis
  proof (cases "tp_isFull s")
    case True
    with put ok ne show ?thesis by (auto simp: pool_ok_def tp_put_locked_def tp_isFull_def)
  next
    case False
    show ?thesis
    proof (cases sel)
      case None
      with sel have "WWait \<notin> set (tp_threads s)" by (simp add: notEmpty_sel_def)
      with None False put ok ne len show ?thesis
        by (auto simp: pool_ok_def tp_put_locked_def notEmpty_notify_def tp_isFull_def)
    next
      case (Some i)
      with sel have i: "i < length (tp_threads s)" "tp_threads s ! i = WWait" by (simp_all add: notEmpty_sel_def)
      then have "WWait \<in> set (tp_threads s)" by (metis nth_mem)
      moreover from count_list_update [OF i(1), of WTake WTake] i(2)
      have "count_list ((tp_threads s)[i := WTake]) WTake = Suc (count_list (tp_threads s) WTake)" by simp
      ultimately show ?thesis using Some False put ok ne len
        by (auto simp: pool_ok_def tp_put_locked_def notEmpty_notify_def tp_isFull_def)
    qed
  qed
qed

lemma pool_step_ok:
  assumes "pool_ok s" and "pool_step s s'"
  shows "pool_ok s'"
proof -
  from assms(2) obtain e where e: "pool_enabled e s" "pool_do e s = Inr s'" by (auto elim: pool_step.cases)
  show ?thesis
  proof (cases e)
    case (PoolStart n)
    with e assms(1) have "pool_ok (s\<lparr>tp_isRunning := True, tp_threads := replicate n WStart\<rparr>)"
      by (simp add: pool_ok_def)
    with PoolStart e show ?thesis by (auto simp: tp_start_def Let_def pool_ok_inits)
  next
    case (WorkerTake i sel)
    with e take_ok [OF assms(1)] show ?thesis by auto
  next
    case (PutCall t f)
    with e have "s' = tp_put_call t f s" by simp
    with assms(1) show ?thesis by (cases "tp_threads s = []") (auto simp: pool_ok_def tp_put_call_def)
  next
    case (PutLocked x sel)
    with e put_locked_ok [OF assms(1)] show ?thesis by auto
  next
    case (PutSpurious x)
    with e have "tp_waiting s \<noteq> []" by auto
    with PutSpurious e assms(1) show ?thesis by (auto simp: pool_ok_def)
  next
    case PoolStop
    with e assms(1) show ?thesis by (auto simp: pool_ok_def tp_stop_def notEmpty_notifyAll_def)
  qed (use e worker_moves_ok [OF assms(1)] in blast)+
qed

lemma pool_reachable_ok: "pool_reachable maxSize cb s \<Longrightarrow> pool_ok s"
proof (unfold pool_reachable_def, induction rule: rtranclp_induct)
  case base
  show ?case by (simp add: pool_ok_def ThreadPool_new_def)
qed (rule pool_step_ok)

lemma pool_max_const:
  assumes "pool_reachable maxSize cb s"
  shows "tp_maxQueueSize s = maxSize"
  using assms unfolding pool_reachable_def
proof (induction rule: rtranclp_induct)
  case base
  show ?case by (simp add: ThreadPool_new_def)
next
  case (step s s')
  then obtain e where "pool_do e s = Inr s'" by (auto elim: pool_step.cases)
  with step.IH show ?case
    by (cases e) (auto simp: tp_start_def tp_init_call_def tp_take_def tp_put_call_def tp_put_locked_def tp_stop_def
        notEmpty_notify_def notEmpty_notifyAll_def notFull_notify_def Let_def ensure_def
        split: if_splits list.splits option.splits)
qed

text \<open>
  C21. The pool starts every task that \<^verbatim>\<open>put\<close> accepted once and in the order of acceptance, never
  holds more than \<^verbatim>\<open>maxQueueSize_\<close> of them, and loses no wake-up: while a worker sleeps the
  pool is running and at least as many workers as there are queued tasks are awake on their
  way to take one; while a producer sleeps the producers that are awake in \<^verbatim>\<open>put\<close> are enough
  to fill the queue again.
\<close>

theorem pool_exact:
  assumes "pool_reachable maxSize cb s"
  shows "tp_submitted s = tp_started s @ tp_queue s \<and>
    (0 < maxSize \<longrightarrow> length (tp_queue s) \<le> maxSize) \<and>
    (WWait \<in> set (tp_threads s) \<longrightarrow> tp_isRunning s \<and> length (tp_queue s) \<le> count_list (tp_threads s) WTake) \<and>
    (tp_waiting s \<noteq> [] \<longrightarrow> maxSize \<le> length (tp_queue s) + length (tp_entering s))"
  using pool_reachable_ok [OF assms] pool_max_const [OF assms] by (simp add: pool_ok_def)

text \<open>
  A pool of one worker and one place. The worker has taken task 5, task 6 is queued and thread 9 waits
  to put task 7.
\<close>

definition example_pool_events :: "pool_event list" where
  "example_pool_events = [PoolStart 1, WorkerInit 0, WorkerTest 0, PutCall 9 5, PutLocked (9, 5) None,
     WorkerTake 0 None, PutCall 9 6, PutLocked (9, 6) None, PutCall 9 7, PutLocked (9, 7) None]"

definition example_pool :: thread_pool where
  "example_pool = \<lparr>tp_threads = [WTask 5], tp_queue = [6], tp_maxQueueSize = 1, tp_isRunning = True,
     tp_initCallback = True, tp_entering = [], tp_waiting = [(9, 7)], tp_inits = 1, tp_submitted = [5, 6], tp_started = [5]\<rparr>"

lemmas pool_eval = ThreadPool_new_def tp_start_def tp_init_call_def tp_isFull_def notEmpty_notify_def notEmpty_sel_def
  notFull_notify_def notFull_sel_def notEmpty_notifyAll_def tp_take_def tp_put_call_def tp_put_locked_def tp_stop_def
  worker_at_def in_put_def

lemma example_pool_run: "pool_run example_pool_events (ThreadPool_new 1 True) = Some example_pool"
  by (simp add: example_pool_events_def example_pool_def pool_eval)

lemma example_pool_reachable: "pool_reachable 1 True example_pool"
  unfolding pool_reachable_def by (rule pool_run_steps [OF example_pool_run])

theorem pool_exact_witness:
  "tp_submitted example_pool = tp_started example_pool @ tp_queue example_pool \<and> tp_queue example_pool = [6] \<and>
   1 \<le> length (tp_queue example_pool) + length (tp_entering example_pool)"
  using pool_exact [OF example_pool_reachable] by (simp add: example_pool_def)

section \<open>After stop\<close>

fun worker_rank :: "worker_pc \<Rightarrow> nat" where
  "worker_rank WDone = 0"
| "worker_rank WLoop = 1"
| "worker_rank WStart = 2"
| "worker_rank (WTask f) = 2"
| "worker_rank WTake = 3"
| "worker_rank WWait = 4"

definition pool_rank :: "thread_pool \<Rightarrow> nat" where
  "pool_rank s = sum_list (map worker_rank (tp_threads s))"

fun worker_event :: "pool_event \<Rightarrow> bool" where
  "worker_event (WorkerInit i) = True"
| "worker_event (WorkerTest i) = True"
| "worker_event (WorkerTake i sel) = True"
| "worker_event (WorkerFinish i) = True"
| "worker_event _ = False"

lemma rank_move:
  "i < length ws \<Longrightarrow> sum_list (map worker_rank (ws[i := p])) + worker_rank (ws ! i) = sum_list (map worker_rank ws) + worker_rank p"
proof (induction ws arbitrary: i)
  case (Cons w ws)
  show ?case
  proof (cases i)
    case (Suc j)
    with Cons.prems Cons.IH [of j] show ?thesis by simp
  qed simp
qed simp

lemma take_threads:
  "tp_threads (tp_take i sel s) = (tp_threads s)[i :=
     if tp_queue s = [] \<and> tp_isRunning s then WWait else case tp_queue s of [] \<Rightarrow> WLoop | f # q \<Rightarrow> WTask f]"
  by (auto simp: tp_take_def notFull_notify_def Let_def split: list.splits option.splits)

lemma worker_event_rank:
  assumes "\<not> tp_isRunning s" and "pool_enabled e s" and "pool_do e s = Inr s'" and "worker_event e"
  shows "pool_rank s' < pool_rank s"
proof -
  have moved: "pool_rank s' < pool_rank s" if "i < length (tp_threads s)" "worker_rank p < worker_rank (tp_threads s ! i)"
    "tp_threads s' = (tp_threads s)[i := p]" for i p
    using rank_move [OF that(1), of p] that(2,3) by (simp add: pool_rank_def)
  show ?thesis
  proof (cases e)
    case (WorkerInit i)
    with assms show ?thesis by (intro moved [of i WLoop]) (auto simp: worker_at_def tp_init_call_def)
  next
    case (WorkerTest i)
    with assms show ?thesis by (intro moved [of i WDone]) (auto simp: worker_at_def)
  next
    case (WorkerTake i sel)
    with assms show ?thesis
      by (intro moved [of i "case tp_queue s of [] \<Rightarrow> WLoop | f # q \<Rightarrow> WTask f"])
        (auto simp: worker_at_def take_threads split: list.splits)
  next
    case (WorkerFinish i)
    with assms show ?thesis
      by (intro moved [of i WLoop]) (auto elim: is_task.elims)
  qed (use assms(4) in simp_all)
qed

lemma other_event_rank:
  assumes "pool_ok s" and "\<not> tp_isRunning s" and "tp_threads s \<noteq> []" and "pool_enabled e s" and "pool_do e s = Inr s'"
    and "\<not> worker_event e"
  shows "pool_rank s' = pool_rank s"
proof -
  from assms(1,2) have none: "WWait \<notin> set (tp_threads s)" by (auto simp: pool_ok_def)
  then have "\<not> worker_at i WWait s" for i by (metis nth_mem worker_at_def)
  moreover have "tp_threads s' = tp_threads s" if "e = PutLocked x sel" for x sel
  proof -
    from that assms(4) have "notEmpty_sel sel s" by simp
    with none nth_mem have "sel = None" by (cases sel) (fastforce simp: notEmpty_sel_def)+
    with that assms(5) show ?thesis by (auto simp: tp_put_locked_def notEmpty_notify_def split: if_splits)
  qed
  ultimately show ?thesis using assms(2-)
    by (cases e) (auto simp: pool_rank_def tp_put_call_def)
qed

lemma worker_can_step:
  assumes "pool_ok s" and "\<not> tp_isRunning s" and "\<not> tp_joined s" and "\<forall>i < length (tp_threads s). \<not> in_put s i"
  obtains e s' where "worker_event e" "pool_enabled e s" "pool_do e s = Inr s'"
proof -
  from assms(3) obtain i where i: "i < length (tp_threads s)" "tp_threads s ! i \<noteq> WDone"
    by (auto simp: tp_joined_def in_set_conv_nth)
  from assms(1,2) have "WWait \<notin> set (tp_threads s)" by (auto simp: pool_ok_def)
  with i(1) have nw: "tp_threads s ! i \<noteq> WWait" by (metis nth_mem)
  show thesis
  proof (cases "tp_threads s ! i")
    case WStart
    with i show thesis by (intro that [of "WorkerInit i"]) (auto simp: worker_at_def)
  next
    case WLoop
    with i show thesis by (intro that [of "WorkerTest i"]) (auto simp: worker_at_def)
  next
    case WTake
    have "\<exists>sel. notFull_sel sel s"
      by (rule exI [of _ "if tp_waiting s = [] then None else Some (hd (tp_waiting s))"]) (simp add: notFull_sel_def)
    then obtain sel where "notFull_sel sel s" ..
    with WTake i show thesis by (intro that [of "WorkerTake i sel"]) (auto simp: worker_at_def)
  next
    case (WTask f)
    with i assms(4) show thesis by (intro that [of "WorkerFinish i"]) auto
  qed (use i nw in simp_all)
qed

lemma notify_in_put:
  assumes "notFull_sel sel s" and "in_put (notFull_notify sel s) t"
  shows "in_put s t"
  using assms
  by (cases sel) (auto simp: notFull_sel_def notFull_notify_def in_put_def dest: subsetD [OF set_remove1_subset] intro: rev_image_eqI)

lemma take_in_put:
  assumes "notFull_sel sel s" and "in_put (tp_take i sel s) t"
  shows "in_put s t"
proof (cases "tp_queue s")
  case Nil
  with assms(2) show ?thesis by (simp add: tp_take_def in_put_def split: if_splits)
next
  case (Cons f q)
  let ?s = "s\<lparr>tp_queue := q, tp_threads := (tp_threads s)[i := WTask f], tp_started := tp_started s @ [f]\<rparr>"
  have "notFull_sel sel ?s" using assms(1) by (cases sel) (simp_all add: notFull_sel_def)
  moreover have "in_put (notFull_notify sel ?s) t \<or> in_put ?s t"
    using assms(2) Cons by (simp add: tp_take_def Let_def split: if_splits)
  ultimately have "in_put ?s t" using notify_in_put by blast
  then show ?thesis by (simp add: in_put_def)
qed

lemma worker_event_frame:
  assumes "worker_event e" and "pool_enabled e s" and "pool_do e s = Inr s'"
  shows "length (tp_threads s') = length (tp_threads s)" and "in_put s' t \<Longrightarrow> in_put s t"
    and "tp_isRunning s' = tp_isRunning s"
proof -
  have "length (tp_threads s') = length (tp_threads s) \<and> tp_isRunning s' = tp_isRunning s \<and>
      (in_put s' t \<longrightarrow> in_put s t)"
  proof (cases e)
    case (WorkerTake i sel)
    with assms have s': "s' = tp_take i sel s" and sel: "notFull_sel sel s" by simp_all
    have "in_put (tp_take i sel s) t \<longrightarrow> in_put s t"
      using take_in_put [OF sel] by blast
    moreover have "tp_isRunning (tp_take i sel s) = tp_isRunning s"
      by (simp add: tp_take_def notFull_notify_def Let_def split: list.splits option.splits)
    ultimately show ?thesis by (simp add: s' take_threads)
  qed (use assms in \<open>auto simp: tp_init_call_def in_put_def split: if_splits\<close>)
  then show "length (tp_threads s') = length (tp_threads s)" and "in_put s' t \<Longrightarrow> in_put s t"
    and "tp_isRunning s' = tp_isRunning s" by simp_all
qed

lemma workers_come_to_end:
  "pool_ok s \<Longrightarrow> \<not> tp_isRunning s \<Longrightarrow> \<forall>i < length (tp_threads s). \<not> in_put s i \<Longrightarrow>
     \<exists>s'. pool_step\<^sup>*\<^sup>* s s' \<and> tp_joined s'"
proof (induction "pool_rank s" arbitrary: s rule: less_induct)
  case less
  show ?case
  proof (cases "tp_joined s")
    case False
    with less.prems obtain e s1 where e: "worker_event e" "pool_enabled e s" "pool_do e s = Inr s1"
      by (metis worker_can_step)
    have step: "pool_step s s1" using e(2,3) by (rule pool_event)
    have "pool_rank s1 < pool_rank s" using less.prems(2) e(2,3,1) by (rule worker_event_rank)
    moreover have "pool_ok s1" using less.prems(1) step by (rule pool_step_ok)
    moreover have "\<not> tp_isRunning s1" "\<forall>i < length (tp_threads s1). \<not> in_put s1 i"
      using worker_event_frame [OF e] less.prems(2,3) by auto
    ultimately obtain s' where "pool_step\<^sup>*\<^sup>* s1 s'" "tp_joined s'" using less.hyps by blast
    with step show ?thesis by (meson converse_rtranclp_into_rtranclp)
  qed auto
qed

lemma stays_stopped:
  assumes "\<not> tp_isRunning s" and "tp_threads s \<noteq> []" and "pool_enabled e s" and "pool_do e s = Inr s'"
  shows "\<not> tp_isRunning s'"
proof (cases "worker_event e")
  case True
  with worker_event_frame(3) [OF _ assms(3,4)] assms(1) show ?thesis by simp
next
  case False
  with assms show ?thesis
    by (cases e) (auto simp: tp_put_call_def tp_put_locked_def notEmpty_notify_def split: if_splits option.splits)
qed

text \<open>
  C25. After \<^verbatim>\<open>stop\<close> the workers come to an end: each step of a worker lowers a rank that nothing
  raises, so there are only so many of them; and unless a worker is itself inside \<^verbatim>\<open>put\<close>, the
  pool can reach the state in which all of them have returned and \<^verbatim>\<open>stop\<close> has joined them.
\<close>

theorem stop_ends_workers:
  assumes "pool_reachable maxSize cb s" and "\<not> tp_isRunning s" and "tp_threads s \<noteq> []"
  shows "(\<forall>e s'. pool_enabled e s \<and> pool_do e s = Inr s' \<longrightarrow> \<not> tp_isRunning s' \<and>
      (if worker_event e then pool_rank s' < pool_rank s else pool_rank s' = pool_rank s)) \<and>
    ((\<forall>i < length (tp_threads s). \<not> in_put s i) \<longrightarrow> (\<exists>s'. pool_step\<^sup>*\<^sup>* s s' \<and> tp_joined s'))"
proof (intro conjI allI impI)
  note ok = pool_reachable_ok [OF assms(1)]
  fix e s' assume e: "pool_enabled e s \<and> pool_do e s = Inr s'"
  then show "\<not> tp_isRunning s'" using stays_stopped [OF assms(2,3)] by blast
  show "if worker_event e then pool_rank s' < pool_rank s else pool_rank s' = pool_rank s"
    using e worker_event_rank [OF assms(2)] other_event_rank [OF ok assms(2,3)] by auto
qed (use workers_come_to_end [OF pool_reachable_ok [OF assms(1)] assms(2)] in blast)

definition stopped_pool :: thread_pool where
  "stopped_pool = example_pool\<lparr>tp_isRunning := False\<rparr>"

lemma stopped_pool_reachable: "pool_reachable 1 True stopped_pool"
proof -
  have "pool_step example_pool stopped_pool"
    by (rule pool_event [of PoolStop]) (simp_all add: example_pool_def stopped_pool_def pool_eval)
  with example_pool_reachable show ?thesis unfolding pool_reachable_def by (rule rtranclp.rtrancl_into_rtrancl)
qed

theorem stop_ends_workers_witness: "\<exists>s'. pool_step\<^sup>*\<^sup>* stopped_pool s' \<and> tp_joined s'"
  using stop_ends_workers [OF stopped_pool_reachable]
  by (simp add: stopped_pool_def example_pool_def in_put_def)

lemma stuck_step:
  assumes "pool_step s s'" and "\<not> tp_isRunning s" and "tp_threads s \<noteq> []" and "tp_joined s" and "tp_isFull s"
    and "x \<in> set (tp_entering s) \<union> set (tp_waiting s)"
  shows "\<not> tp_isRunning s' \<and> tp_threads s' = tp_threads s \<and> tp_isFull s' \<and> tp_submitted s' = tp_submitted s \<and>
    x \<in> set (tp_entering s') \<union> set (tp_waiting s')"
proof -
  from assms(1) obtain e where e: "pool_enabled e s" "pool_do e s = Inr s'" by (auto elim: pool_step.cases)
  have ended: "tp_threads s ! i = WDone" if "i < length (tp_threads s)" for i
    using assms(4) that by (simp add: tp_joined_def)
  show ?thesis
  proof (cases e)
    case (PutLocked y sel)
    with e assms show ?thesis by (cases "y = x") (auto simp: tp_put_locked_def tp_isFull_def in_set_remove1)
  next
    case (PutSpurious y)
    with e assms show ?thesis by (cases "y = x") (auto simp: tp_isFull_def in_set_remove1)
  next
    case (PutCall t f)
    with e assms show ?thesis by (auto simp: tp_put_call_def tp_isFull_def)
  qed (use e assms(2,3) ended in \<open>auto simp: worker_at_def\<close>)
qed

text \<open>
  A producer that waits for a full queue when the pool is stopped never returns from \<^verbatim>\<open>put\<close>: once
  the workers are gone it stays there forever, spurious wake-ups included, and its task is
  not accepted.
\<close>

theorem put_after_stop_never_returns:
  assumes "pool_reachable maxSize cb s" and "\<not> tp_isRunning s" and "tp_threads s \<noteq> []" and "tp_joined s" and "tp_isFull s"
    and "x \<in> set (tp_entering s) \<union> set (tp_waiting s)" and "pool_step\<^sup>*\<^sup>* s s'"
  shows "x \<in> set (tp_entering s') \<union> set (tp_waiting s') \<and> tp_submitted s' = tp_submitted s"
proof -
  have "\<not> tp_isRunning s' \<and> tp_threads s' = tp_threads s \<and> tp_isFull s' \<and> tp_submitted s' = tp_submitted s \<and>
      x \<in> set (tp_entering s') \<union> set (tp_waiting s')"
    using assms(7)
  proof (induction rule: rtranclp_induct)
    case base
    then show ?case using assms by simp
  next
    case (step s1 s2)
    then have "tp_joined s1" using assms(4) by (simp add: tp_joined_def)
    with step stuck_step [of s1 s2 x] assms(3) show ?case by simp
  qed
  then show ?thesis by simp
qed

definition abandoned_pool :: thread_pool where
  "abandoned_pool = stopped_pool\<lparr>tp_threads := [WDone]\<rparr>"

lemma abandoned_pool_reachable: "pool_reachable 1 True abandoned_pool"
proof -
  have "pool_run [WorkerFinish 0, WorkerTest 0] stopped_pool = Some abandoned_pool"
    by (simp add: abandoned_pool_def stopped_pool_def example_pool_def pool_eval)
  from pool_run_steps [OF this] stopped_pool_reachable show ?thesis
    unfolding pool_reachable_def by (simp add: rtranclp_trans)
qed

theorem put_after_stop_never_returns_witness:
  "let s' = abandoned_pool\<lparr>tp_waiting := [], tp_entering := [(9, 7)]\<rparr> in pool_step\<^sup>*\<^sup>* abandoned_pool s' \<and>
     (9, 7) \<in> set (tp_entering s') \<union> set (tp_waiting s') \<and> tp_submitted s' = tp_submitted abandoned_pool"
proof -
  let ?s = "abandoned_pool\<lparr>tp_waiting := [], tp_entering := [(9, 7)]\<rparr>"
  have "pool_run [PutSpurious (9, 7)] abandoned_pool = Some ?s"
    by (simp add: abandoned_pool_def stopped_pool_def example_pool_def)
  then have steps: "pool_step\<^sup>*\<^sup>* abandoned_pool ?s" by (rule pool_run_steps)
  moreover have "(9, 7) \<in> set (tp_entering ?s) \<union> set (tp_waiting ?s) \<and> tp_submitted ?s = tp_submitted abandoned_pool"
    by (rule put_after_stop_never_returns [OF abandoned_pool_reachable _ _ _ _ _ steps])
      (simp_all add: abandoned_pool_def stopped_pool_def example_pool_def tp_joined_def tp_isFull_def)
  ultimately show ?thesis by simp
qed

end
