(* ===== verification/LogStreams.thy ===== *)
theory LogStreams
  imports Prelude StringPieces
begin

text \<open>
  Formatting of log messages (\<^verbatim>\<open>base/log/LogStream.h\<close>, \<^verbatim>\<open>base/log/LogStream.cpp\<close>).

  A stream writes into a buffer of fixed size through a pointer into it. Writing outside the
  buffer is a fault of the model. The conversions of integers are the loops of the code
  over C's truncating division, with the digit table that is indexed from its middle. The
  text \<^verbatim>\<open>snprintf\<close> makes of a floating point number is a parameter. The properties: the
  integers are printed as decimal and hexadecimal numerals, the most negative one
  included; no sequence of insertions writes outside the buffer, and the content is the
  concatenation of the texts that fitted; the units of \<^verbatim>\<open>formatSI\<close> leave three digits.
\<close>

section \<open>FixedBuffer\<close>

definition kSmallBuffer :: nat where "kSmallBuffer = 4000"
definition kLargeBuffer :: nat where "kLargeBuffer = 4000 * 1000"

record fixed_buffer =
  fb_data :: "char list"     \<comment> \<open>\<^verbatim>\<open>SIZE\<close> characters\<close>
  fb_cur :: nat

definition FixedBuffer_new :: "char list \<Rightarrow> fixed_buffer" where
  "FixedBuffer_new mem = \<lparr>fb_data = mem, fb_cur = 0\<rparr>"

definition fb_avail :: "fixed_buffer \<Rightarrow> nat" where
  "fb_avail b = length (fb_data b) - fb_cur b"

text \<open>Writing at an index of the buffer.\<close>

definition fb_write :: "nat \<Rightarrow> char list \<Rightarrow> fixed_buffer \<Rightarrow> fixed_buffer res" where
  "fb_write i cs b =
     (if i + length cs \<le> length (fb_data b)
      then Inr (b\<lparr>fb_data := take i (fb_data b) @ cs @ drop (i + length cs) (fb_data b)\<rparr>)
      else Inl (Undefined ''write outside data_''))"

definition fb_add :: "nat \<Rightarrow> fixed_buffer \<Rightarrow> fixed_buffer" where
  "fb_add len b = b\<lparr>fb_cur := fb_cur b + len\<rparr>"

definition fb_append :: "char list \<Rightarrow> fixed_buffer \<Rightarrow> fixed_buffer res" where
  "fb_append buf b =
     (if fb_avail b > length buf
      then bind_r (fb_write (fb_cur b) buf b) (\<lambda>b1. Inr (fb_add (length buf) b1))
      else Inr b)"

definition fb_reset :: "fixed_buffer \<Rightarrow> fixed_buffer" where
  "fb_reset b = b\<lparr>fb_cur := 0\<rparr>"

definition fb_bzero :: "fixed_buffer \<Rightarrow> fixed_buffer" where
  "fb_bzero b = b\<lparr>fb_data := replicate (length (fb_data b)) (CHR 0xFF)\<rparr>"

definition fb_debugString :: "fixed_buffer \<Rightarrow> fixed_buffer res" where
  "fb_debugString b = fb_write (fb_cur b) [CHR 0x00] b"

definition fb_toString :: "fixed_buffer \<Rightarrow> string" where
  "fb_toString b = take (fb_cur b) (fb_data b)"

section \<open>Conversions\<close>

definition digits :: string where "digits = ''9876543210123456789''"
definition digitsHex :: string where "digitsHex = ''0123456789ABCDEF''"

text \<open>\<^verbatim>\<open>zero[lsd]\<close>, with \<^verbatim>\<open>zero = digits + 9\<close>.\<close>

definition zero_digit :: "int \<Rightarrow> char" where
  "zero_digit lsd = digits ! nat (9 + lsd)"

text \<open>The loop \<^verbatim>\<open>do ... while (i != 0)\<close>: the characters in the order they are stored.\<close>

function convert_loop :: "int \<Rightarrow> string" where
  "convert_loop i =
     (let lsd = i smod 10; i' = i sdiv 10
      in zero_digit lsd # (if i' \<noteq> 0 then convert_loop i' else []))"
  by pat_completeness auto
termination
  by (relation "measure (\<lambda>i. nat \<bar>i\<bar>)") (auto simp: signed_divide_int_def abs_mult sgn_if split: if_splits)

declare convert_loop.simps [simp del]

text \<open>What is left in the buffer, without the terminating zero.\<close>

definition convert :: "int \<Rightarrow> string" where
  "convert value = rev (convert_loop value @ (if value < 0 then ''-'' else []))"

function convertHex_loop :: "nat \<Rightarrow> string" where
  "convertHex_loop i =
     (let lsd = i mod 16; i' = i div 16
      in digitsHex ! lsd # (if i' \<noteq> 0 then convertHex_loop i' else []))"
  by pat_completeness auto
termination by (relation "measure id") auto

declare convertHex_loop.simps [simp del]

definition convertHex :: "nat \<Rightarrow> string" where
  "convertHex value = rev (convertHex_loop value)"

section \<open>LogStream\<close>

definition kMaxNumericSize :: nat where "kMaxNumericSize = 32"

text \<open>A conversion writes its text and a terminating zero, and the text is added.\<close>

definition store_text :: "string \<Rightarrow> fixed_buffer \<Rightarrow> fixed_buffer res" where
  "store_text cs b = bind_r (fb_write (fb_cur b) (cs @ [CHR 0x00]) b) (\<lambda>b1. Inr (fb_add (length cs) b1))"

definition formatInteger :: "int \<Rightarrow> fixed_buffer \<Rightarrow> fixed_buffer res" where
  "formatInteger v b = (if fb_avail b \<ge> kMaxNumericSize then store_text (convert v) b else Inr b)"

definition ls_pointer :: "64 word \<Rightarrow> fixed_buffer \<Rightarrow> fixed_buffer res" where
  "ls_pointer p b = (if fb_avail b \<ge> kMaxNumericSize then store_text (''0x'' @ convertHex (unat p)) b else Inr b)"

text \<open>\<open>text\<close>: what \<^verbatim>\<open>%.12g\<close> prints; \<^verbatim>\<open>snprintf\<close> stores at most 31 characters of it and returns its length.\<close>

definition ls_double :: "string \<Rightarrow> fixed_buffer \<Rightarrow> fixed_buffer res" where
  "ls_double str12 b =
     (if fb_avail b \<ge> kMaxNumericSize
      then bind_r (fb_write (fb_cur b) (take (kMaxNumericSize - 1) str12 @ [CHR 0x00]) b) (\<lambda>b1. Inr (fb_add (length str12) b1))
      else Inr b)"

definition ls_bool :: "bool \<Rightarrow> fixed_buffer \<Rightarrow> fixed_buffer res" where
  "ls_bool v b = fb_append (if v then ''1'' else ''0'') b"

definition ls_char :: "char \<Rightarrow> fixed_buffer \<Rightarrow> fixed_buffer res" where
  "ls_char v b = fb_append [v] b"

definition ls_cstring :: "string option \<Rightarrow> fixed_buffer \<Rightarrow> fixed_buffer res" where
  "ls_cstring str b = (case str of Some s \<Rightarrow> fb_append s b | None \<Rightarrow> fb_append ''(null)'' b)"

definition ls_string :: "string \<Rightarrow> fixed_buffer \<Rightarrow> fixed_buffer res" where
  "ls_string v b = fb_append v b"

definition ls_buffer :: "fixed_buffer \<Rightarrow> fixed_buffer \<Rightarrow> fixed_buffer res" where
  "ls_buffer v b = ls_string (fb_toString v) b"

text \<open>\<^verbatim>\<open>Fmt\<close>: the text \<^verbatim>\<open>snprintf\<close> makes must fit 32 characters.\<close>

definition Fmt_new :: "string \<Rightarrow> string res" where
  "Fmt_new str12 = ensure (length str12 < 32) ''length_ < sizeof buf_'' (Inr str12)"

definition ls_fmt :: "string \<Rightarrow> fixed_buffer \<Rightarrow> fixed_buffer res" where
  "ls_fmt str12 b = bind_r (Fmt_new str12) (\<lambda>t. fb_append t b)"

datatype log_item =
    LBool bool | LInt int | LPointer "64 word" | LDouble string | LChar char
  | LCString "string option" | LString string

fun ls_insert :: "log_item \<Rightarrow> fixed_buffer \<Rightarrow> fixed_buffer res" where
  "ls_insert (LBool v) b = ls_bool v b"
| "ls_insert (LInt v) b = formatInteger v b"
| "ls_insert (LPointer p) b = ls_pointer p b"
| "ls_insert (LDouble str12) b = ls_double str12 b"
| "ls_insert (LChar c) b = ls_char c b"
| "ls_insert (LCString str) b = ls_cstring str b"
| "ls_insert (LString v) b = ls_string v b"

section \<open>Units\<close>

text \<open>\<open>fixedp p s unit\<close>: what \<^verbatim>\<open>%.pf\<close> prints of the quotient.\<close>

definition formatSI :: "(nat \<Rightarrow> int \<Rightarrow> int \<Rightarrow> string) \<Rightarrow> int \<Rightarrow> string" where
  "formatSI fixedp s =
     take 63
      (if s < 1000 then show_int s
       else if s < 9995 then fixedp 2 s (10 ^ 3) @ ''k''
       else if s < 99950 then fixedp 1 s (10 ^ 3) @ ''k''
       else if s < 999500 then fixedp 0 s (10 ^ 3) @ ''k''
       else if s < 9995000 then fixedp 2 s (10 ^ 6) @ ''M''
       else if s < 99950000 then fixedp 1 s (10 ^ 6) @ ''M''
       else if s < 999500000 then fixedp 0 s (10 ^ 6) @ ''M''
       else if s < 9995000000 then fixedp 2 s (10 ^ 9) @ ''G''
       else if s < 99950000000 then fixedp 1 s (10 ^ 9) @ ''G''
       else if s < 999500000000 then fixedp 0 s (10 ^ 9) @ ''G''
       else if s < 9995000000000 then fixedp 2 s (10 ^ 12) @ ''T''
       else if s < 99950000000000 then fixedp 1 s (10 ^ 12) @ ''T''
       else if s < 999500000000000 then fixedp 0 s (10 ^ 12) @ ''T''
       else if s < 9995000000000000 then fixedp 2 s (10 ^ 15) @ ''P''
       else if s < 99950000000000000 then fixedp 1 s (10 ^ 15) @ ''P''
       else if s < 999500000000000000 then fixedp 0 s (10 ^ 15) @ ''P''
       else fixedp 2 s (10 ^ 18) @ ''E'')"

section \<open>Conversions are numerals\<close>

lemma digits_table:
  assumes "n < 10"
  shows "zero_digit (int n) = digit_char n" "zero_digit (- int n) = digit_char n"
  using less_10_cases [OF assms] by (elim disjE; simp add: zero_digit_def digits_def digit_char_def)+

lemma convert_loop_digits: "rev (convert_loop i) = show_nat (nat \<bar>i\<bar>)"
proof (induction i rule: convert_loop.induct)
  case (1 i)
  have d: "\<bar>i sdiv 10\<bar> = \<bar>i\<bar> div 10" by (simp add: signed_divide_int_def abs_mult sgn_if)
  have "i smod 10 = \<bar>i\<bar> mod 10 \<or> i smod 10 = - (\<bar>i\<bar> mod 10)" by (simp add: signed_modulo_int_def sgn_if)
  then have lsd: "zero_digit (i smod 10) = digit_char (nat (\<bar>i\<bar> mod 10))"
    using digits_table [of "nat (\<bar>i\<bar> mod 10)"] by auto
  have n: "nat (\<bar>i\<bar> div 10) = nat \<bar>i\<bar> div 10" "nat (\<bar>i\<bar> mod 10) = nat \<bar>i\<bar> mod 10" by (simp_all add: nat_div_distrib nat_mod_distrib)
  show ?case
  proof (cases "i sdiv 10 = 0")
    case True
    with d have "nat \<bar>i\<bar> < 10" by auto
    with True lsd n show ?thesis by (subst convert_loop.simps, subst show_nat.simps) (simp add: Let_def)
  next
    case False
    with d have "\<not> nat \<bar>i\<bar> < 10" by auto
    moreover have "rev (convert_loop (i sdiv 10)) = show_nat (nat \<bar>i\<bar> div 10)"
      using 1 [OF refl refl False] by (simp only: d n)
    ultimately show ?thesis
      using False lsd n(2) by (subst convert_loop.simps, subst show_nat.simps) (simp add: Let_def)
  qed
qed

lemma convert_show_int: "convert v = show_int v"
  by (simp add: convert_def convert_loop_digits show_int_def)

text \<open>The value of hexadecimal digits.\<close>

definition hex_val :: "char \<Rightarrow> nat" where
  "hex_val c = (if of_char c < (58::nat) then of_char c - 48 else of_char c - 55)"

definition hex_number :: "string \<Rightarrow> nat" where
  "hex_number cs = foldl (\<lambda>v c. 16 * v + hex_val c) 0 cs"

lemma hex_digit: "d < 16 \<Longrightarrow> hex_val (digitsHex ! d) = d"
proof -
  assume "d < 16"
  then have "d < 10 \<or> d = 10 \<or> d = 11 \<or> d = 12 \<or> d = 13 \<or> d = 14 \<or> d = 15" by arith
  then show ?thesis
  proof (elim disjE)
    assume "d < 10"
    from less_10_cases [OF this] show ?thesis by (elim disjE; simp add: hex_val_def digitsHex_def)
  qed (simp_all add: hex_val_def digitsHex_def)
qed

lemma convertHex_value: "hex_number (convertHex n) = n"
proof (induction n rule: convertHex_loop.induct)
  case (1 n)
  have eq: "convertHex n = (if n div 16 \<noteq> 0 then convertHex (n div 16) else []) @ [digitsHex ! (n mod 16)]"
    by (simp add: convertHex_def convertHex_loop.simps [of n] Let_def)
  have "hex_number (cs @ [c]) = 16 * hex_number cs + hex_val c" for cs c by (simp add: hex_number_def)
  moreover have "hex_number (if n div 16 \<noteq> 0 then convertHex (n div 16) else []) = n div 16"
    using 1 [OF refl refl] by (simp add: hex_number_def)
  ultimately show ?case unfolding eq by (simp add: hex_digit)
qed

lemma convertHex_length: "n < 16 ^ Suc k \<Longrightarrow> length (convertHex n) \<le> Suc k"
proof (induction k arbitrary: n)
  case 0
  then show ?case by (simp add: convertHex_def convertHex_loop.simps [of n] Let_def)
next
  case (Suc k)
  then have "length (convertHex (n div 16)) \<le> Suc k" by (simp add: less_mult_imp_div_less)
  then show ?case by (simp add: convertHex_def convertHex_loop.simps [of n] Let_def)
qed

section \<open>The buffer is never overrun\<close>

text \<open>The content has room for a terminating zero.\<close>

definition fb_ok :: "fixed_buffer \<Rightarrow> bool" where
  "fb_ok b \<longleftrightarrow> fb_cur b < length (fb_data b)"

text \<open>An item's text, and whether it is stored when \<open>room\<close> characters are left.\<close>

fun item_text :: "log_item \<Rightarrow> string" where
  "item_text (LBool v) = (if v then ''1'' else ''0'')"
| "item_text (LInt v) = show_int v"
| "item_text (LPointer p) = ''0x'' @ convertHex (unat p)"
| "item_text (LDouble str12) = str12"
| "item_text (LChar c) = [c]"
| "item_text (LCString str) = (case str of Some s \<Rightarrow> s | None \<Rightarrow> ''(null)'')"
| "item_text (LString v) = v"

fun item_fits :: "nat \<Rightarrow> log_item \<Rightarrow> bool" where
  "item_fits room (LInt v) \<longleftrightarrow> 32 \<le> room"
| "item_fits room (LPointer p) \<longleftrightarrow> 32 \<le> room"
| "item_fits room (LDouble str12) \<longleftrightarrow> 32 \<le> room"
| "item_fits room it \<longleftrightarrow> length (item_text it) < room"

text \<open>64 bit integers, signed or unsigned, and the short texts of floating point numbers.\<close>

fun item_ok :: "log_item \<Rightarrow> bool" where
  "item_ok (LInt v) \<longleftrightarrow> - (2 ^ 63) \<le> v \<and> v < 2 ^ 64"
| "item_ok (LDouble str12) \<longleftrightarrow> length str12 < 32"
| "item_ok _ = True"

fun log_text :: "nat \<Rightarrow> log_item list \<Rightarrow> string" where
  "log_text room [] = []"
| "log_text room (it # its) =
     (if item_fits room it then item_text it @ log_text (room - length (item_text it)) its else log_text room its)"

lemma store_spec:
  assumes "fb_ok b" and "length cs < fb_avail b"
  shows "returns (store_text cs b) (\<lambda>b'. fb_ok b' \<and> fb_toString b' = fb_toString b @ cs \<and> length (fb_data b') = length (fb_data b))"
  using assms by (auto simp: store_text_def fb_write_def fb_add_def fb_ok_def fb_avail_def fb_toString_def)

lemma append_spec:
  assumes "fb_ok b"
  shows "returns (fb_append cs b) (\<lambda>b'. fb_ok b' \<and> length (fb_data b') = length (fb_data b) \<and>
    fb_toString b' = fb_toString b @ (if length cs < fb_avail b then cs else []))"
  using assms by (auto simp: fb_append_def fb_write_def fb_add_def fb_ok_def fb_avail_def fb_toString_def)

lemma int_text_short: "- (2 ^ 63) \<le> v \<Longrightarrow> v < 2 ^ 64 \<Longrightarrow> length (show_int v) < 32"
proof -
  assume v: "- (2 ^ 63) \<le> v" "v < 2 ^ 64"
  have short: "length (show_nat n) \<le> 20" if "n < 10 ^ 20" for n using that length_show_nat [of n 19] by simp
  have "nat (- v) < 10 ^ 20" "nat v < 10 ^ 20" using v by auto
  with short [of "nat (- v)"] short [of "nat v"] show ?thesis by (simp add: show_int_def)
qed

lemma insert_spec:
  assumes b: "fb_ok b" and it: "item_ok it"
  shows "returns (ls_insert it b) (\<lambda>b'. fb_ok b' \<and> length (fb_data b') = length (fb_data b) \<and>
    fb_toString b' = fb_toString b @ (if item_fits (fb_avail b) it then item_text it else []))"
proof (cases it)
  case (LInt v)
  have "length (show_int v) < 32" using it LInt by (intro int_text_short) simp_all
  with store_spec [OF b, of "show_int v"] b LInt show ?thesis
    by (auto simp: formatInteger_def kMaxNumericSize_def convert_show_int elim!: returns_mono)
next
  case (LPointer p)
  have "unat p < 2 ^ LENGTH(64)" by (rule unsigned_less)
  then have "length (convertHex (unat p)) \<le> 16" using convertHex_length [of "unat p" 15] by simp
  with store_spec [OF b, of "''0x'' @ convertHex (unat p)"] b LPointer show ?thesis
    by (auto simp: ls_pointer_def kMaxNumericSize_def elim!: returns_mono)
next
  case (LDouble str12)
  have "ls_double str12 b = (if fb_avail b \<ge> 32 then store_text str12 b else Inr b)"
    using it LDouble by (simp add: ls_double_def store_text_def kMaxNumericSize_def)
  with store_spec [OF b, of str12] b it LDouble show ?thesis by (auto elim!: returns_mono)
qed (auto simp: ls_bool_def ls_char_def ls_cstring_def ls_string_def split: option.splits intro!: returns_mono [OF append_spec [OF b]])

lemma insert_all_spec:
  "fb_ok b \<Longrightarrow> \<forall>it \<in> set its. item_ok it \<Longrightarrow>
   returns (fold_r ls_insert its b) (\<lambda>b'. fb_ok b' \<and> length (fb_data b') = length (fb_data b) \<and>
     fb_toString b' = fb_toString b @ log_text (fb_avail b) its)"
proof (induction its arbitrary: b)
  case (Cons it its)
  from insert_spec [of b it] Cons.prems obtain b1 where
    b1: "ls_insert it b = Inr b1" "fb_ok b1" "length (fb_data b1) = length (fb_data b)"
      "fb_toString b1 = fb_toString b @ (if item_fits (fb_avail b) it then item_text it else [])" by (auto elim: returnsE)
  have "fb_cur c = length (fb_toString c)" if "fb_ok c" for c using that by (simp add: fb_ok_def fb_toString_def)
  then have "fb_avail b1 = (if item_fits (fb_avail b) it then fb_avail b - length (item_text it) else fb_avail b)"
    using b1 Cons.prems(1) by (simp add: fb_avail_def)
  with Cons.IH [OF b1(2)] Cons.prems(2) b1(1,3,4) show ?case by (auto elim!: returns_mono)
qed simp

section \<open>Properties\<close>

text \<open>Integers are logged as decimal numerals and pointers as hexadecimal ones: the conversion
  loop and its digit table agree with decimal printing on every integer, the most negative
  one included, and the hexadecimal digits denote the address.\<close>

theorem conversions_exact:
  "convert v = show_int v \<and> hex_number (convertHex n) = n"
  by (simp add: convert_show_int convertHex_value)

text \<open>C36. Whatever is inserted into a log stream, nothing is written outside its buffer, and its
  content is the concatenation of the texts of the items, in order, without those that no
  longer fitted: an item is stored whole or not at all.\<close>

theorem log_stream_content:
  assumes "length mem = kSmallBuffer" and "\<forall>it \<in> set its. item_ok it"
  shows "\<exists>b. fold_r ls_insert its (FixedBuffer_new mem) = Inr b \<and> fb_toString b = log_text kSmallBuffer its \<and>
    length (fb_toString b) < kSmallBuffer"
proof -
  have "fb_ok (FixedBuffer_new mem)" "fb_avail (FixedBuffer_new mem) = kSmallBuffer" "fb_toString (FixedBuffer_new mem) = []"
    using assms(1) by (simp_all add: fb_ok_def FixedBuffer_new_def fb_avail_def fb_toString_def kSmallBuffer_def)
  from insert_all_spec [OF this(1) assms(2)] this obtain b where
    b: "fold_r ls_insert its (FixedBuffer_new mem) = Inr b" "fb_ok b" "fb_toString b = log_text kSmallBuffer its"
      "length (fb_data b) = kSmallBuffer"
    using assms(1) by (auto simp: FixedBuffer_new_def elim: returnsE)
  have "length (fb_toString b) < kSmallBuffer" using b(2,4) by (simp add: fb_ok_def fb_toString_def)
  with b show ?thesis by blast
qed

theorem log_stream_content_witness:
  "\<exists>b. fold_r ls_insert [LString ''fd='', LInt (- 1), LPointer 255] (FixedBuffer_new (replicate kSmallBuffer (CHR 0x00))) = Inr b \<and>
     fb_toString b = ''fd=-10xFF''"
proof -
  have "convertHex 255 = ''FF''" by (simp add: convertHex_def convertHex_loop.simps Let_def digitsHex_def)
  moreover have "show_int (- 1) = ''-1''" by (simp add: show_int_def show_nat.simps digit_char_def)
  ultimately have "log_text kSmallBuffer [LString ''fd='', LInt (- 1), LPointer 255] = ''fd=-10xFF''"
    by (simp add: kSmallBuffer_def)
  with log_stream_content [of "replicate kSmallBuffer (CHR 0x00)" "[LString ''fd='', LInt (- 1), LPointer 255]"]
  show ?thesis by auto
qed

text \<open>Every quantity from a thousand to the largest 64 bit integer is shown with a unit and a
  precision at which it has exactly three significant digits: the quotient, rounded to the
  printed precision, is between 100 and 999 units in the last place.\<close>

theorem formatSI_three_digits:
  assumes "1000 \<le> s" and "s < 2 ^ 63"
  shows "\<exists>p unit suffix. formatSI fixedp s = take 63 (fixedp p s unit @ suffix) \<and> length suffix = 1 \<and> p \<le> 2 \<and>
    200 * unit - unit \<le> 2 * s * 10 ^ p \<and> 2 * s * 10 ^ p < 1998 * unit + unit"
proof -
  have pick: "\<exists>p unit suffix. take 63 (fixedp p0 s u @ [c]) = take 63 (fixedp p s unit @ suffix) \<and> length suffix = 1 \<and> p \<le> 2 \<and>
      200 * unit - unit \<le> 2 * s * 10 ^ p \<and> 2 * s * 10 ^ p < 1998 * unit + unit"
    if "p0 \<le> 2" "199 * u \<le> 2 * s * 10 ^ p0" "2 * s * 10 ^ p0 < 1999 * u" for p0 u c
    using that by (intro exI [of _ p0] exI [of _ u] exI [of _ "[c]"]) auto
  note cases = if_split [where P = "\<lambda>x. \<exists>p unit suffix. take 63 x = take 63 (fixedp p s unit @ suffix) \<and> length suffix = 1 \<and> p \<le> 2 \<and>
      200 * unit - unit \<le> 2 * s * 10 ^ p \<and> 2 * s * 10 ^ p < 1998 * unit + unit"]
  have "\<not> s < 1000" using assms(1) by simp
  then show ?thesis unfolding formatSI_def cases
    by (intro conjI impI) (use assms in \<open>simp_all only: not_less\<close>, (rule pick; simp)+)
qed

end
