(* ===== verification/AsyncLogs.thy ===== *)
theory AsyncLogs
  imports LogStreams Calendars
begin

text \<open>
  The logging back end (\<^verbatim>\<open>base/log/AyncLogging.cpp\<close>, \<^verbatim>\<open>LogFile.cpp\<close>, \<^verbatim>\<open>FileUtil.cpp\<close>).

  Threads of the program append messages to a buffer; one thread swaps full buffers out and
  writes them to files that are rolled by size. What runs under the mutex is one event; the
  writing thread waits at most the flush interval, so leaving the wait is always possible.
  Pointers are options, dereferencing or moving on a null one is a fault. What \<^verbatim>\<open>fwrite\<close>, \<^verbatim>\<open>fopen\<close>, \<^verbatim>\<open>time\<close> and
  \<^verbatim>\<open>localtime_r\<close> answer is the environment, indexed by the number of calls made. The
  properties: no assertion of the two sides fails; as long as the thread keeps up, the
  files hold the messages in the order they were appended, none cut or repeated; but
  \<^verbatim>\<open>stop\<close> can lose the last of them.
\<close>

record log_env =
  le_mem :: "char list"                  \<comment> \<open>content of the memory of a new buffer\<close>
  le_fwrite :: "nat \<Rightarrow> nat \<Rightarrow> nat"
  le_fopen :: "nat \<Rightarrow> bool"
  le_time :: "nat \<Rightarrow> int"
  le_localtime :: "int \<Rightarrow> tm"
  le_gmtime :: "int \<Rightarrow> tm"
  le_hostname :: string
  le_pid :: int

section \<open>AppendFile\<close>

record append_file =
  af_name :: string
  af_out :: "char list"        \<comment> \<open>what \<^verbatim>\<open>fwrite\<close> took\<close>
  af_writtenBytes :: int

definition AppendFile_new :: "string \<Rightarrow> bool \<Rightarrow> append_file res" where
  "AppendFile_new filename fp = ensure fp ''fp_'' (Inr \<lparr>af_name = filename, af_out = [], af_writtenBytes = 0\<rparr>)"

text \<open>\<^verbatim>\<open>fwrite\<close> returns at most the number of characters it is given.\<close>

definition af_write :: "(nat \<Rightarrow> nat \<Rightarrow> nat) \<Rightarrow> nat \<Rightarrow> nat \<Rightarrow> nat" where
  "af_write fw k len = min (fw k len) len"

function af_write_rest :: "(nat \<Rightarrow> nat \<Rightarrow> nat) \<Rightarrow> nat \<Rightarrow> char list \<Rightarrow> char list \<times> nat" where
  "af_write_rest fw k logline =
     (if logline = [] then ([], k)
      else let x = af_write fw k (length logline)
           in if x = 0 then ([], k + 1)
              else let (w, k') = af_write_rest fw (k + 1) (drop x logline) in (take x logline @ w, k'))"
  by auto
termination
  by (relation "measure (\<lambda>(fw, k, logline). length logline)") (auto simp: af_write_def)

declare af_write_rest.simps [simp del]

definition af_append :: "(nat \<Rightarrow> nat \<Rightarrow> nat) \<Rightarrow> nat \<Rightarrow> char list \<Rightarrow> append_file \<Rightarrow> append_file \<times> nat" where
  "af_append fw k logline f =
     (let n = af_write fw k (length logline);
          (w, k') = af_write_rest fw (k + 1) (drop n logline)
      in (f\<lparr>af_out := af_out f @ take n logline @ w,
            af_writtenBytes := af_writtenBytes f + int (length logline)\<rparr>, k'))"

section \<open>LogFile\<close>

definition kRollPerSeconds :: int where "kRollPerSeconds = 60 * 60 * 24"

record log_file =
  lf_basename :: string
  lf_rollSize :: int
  lf_startOfPeriod :: int
  lf_lastRoll :: int
  lf_lastFlush :: int
  lf_file :: "append_file option"
  lf_timer :: int                              \<comment> \<open>delay of the timer set by the constructor\<close>
  lf_closed :: "append_file list"              \<comment> \<open>history: files rolled away\<close>
  lf_calls :: nat                              \<comment> \<open>calls of the system made so far\<close>

text \<open>\<^verbatim>\<open>strftime\<close> with \<^verbatim>\<open>".%Y%m%d-%H%M%S."\<close>.\<close>

definition timebuf :: "tm \<Rightarrow> string" where
  "timebuf t = ''.'' @ show_int (tm_year t + 1900) @ pad0 2 (tm_mon t + 1) @ pad0 2 (tm_mday t) @ ''-'' @
     pad0 2 (tm_hour t) @ pad0 2 (tm_min t) @ pad0 2 (tm_sec t) @ ''.''"

definition getLogFileName :: "log_env \<Rightarrow> string \<Rightarrow> int \<Rightarrow> string" where
  "getLogFileName env basename now =
     basename @ timebuf (le_localtime env now) @ le_hostname env @ ''.'' @ show_int (le_pid env) @ ''.log''"

definition rollFile :: "log_env \<Rightarrow> log_file \<Rightarrow> (bool \<times> log_file) res" where
  "rollFile env l =
     (let now = le_time env (lf_calls l);
          filename = getLogFileName env (lf_basename l) now;
          start = now sdiv kRollPerSeconds * kRollPerSeconds;
          l1 = l\<lparr>lf_calls := lf_calls l + 1\<rparr>
      in if now > lf_lastRoll l
         then bind_r (AppendFile_new filename (le_fopen env (lf_calls l1))) (\<lambda>f.
           Inr (True, l1\<lparr>lf_lastRoll := now, lf_lastFlush := now, lf_startOfPeriod := start, lf_file := Some f,
             lf_closed := lf_closed l @ (case lf_file l of None \<Rightarrow> [] | Some old \<Rightarrow> [old]),
             lf_calls := lf_calls l1 + 1\<rparr>))
         else Inr (False, l1))"

definition LogFile_new :: "log_env \<Rightarrow> string \<Rightarrow> int \<Rightarrow> int \<Rightarrow> log_file res" where
  "LogFile_new env basename rollSize rollTime =
     bind_r (rollFile env \<lparr>lf_basename = basename, lf_rollSize = rollSize, lf_startOfPeriod = 0, lf_lastRoll = 0,
         lf_lastFlush = 0, lf_file = None, lf_timer = 0, lf_closed = [], lf_calls = 0\<rparr>)
       (\<lambda>(_, l).
         let now = le_time env (lf_calls l) smod kRollPerSeconds;
             dif = rollTime - now;
             dif = (if dif < 0 then dif + kRollPerSeconds else dif)
         in Inr (l\<lparr>lf_timer := dif, lf_calls := lf_calls l + 1\<rparr>))"

definition lf_append :: "log_env \<Rightarrow> char list \<Rightarrow> log_file \<Rightarrow> log_file res" where
  "lf_append env logline l =
     (case lf_file l of
        None \<Rightarrow> Inl (Undefined ''null file_'')
      | Some f \<Rightarrow>
          (let (f', k) = af_append (le_fwrite env) (lf_calls l) logline f;
               l1 = l\<lparr>lf_file := Some f', lf_calls := k\<rparr>
           in if af_writtenBytes f' > lf_rollSize l then bind_r (rollFile env l1) (\<lambda>(_, l2). Inr l2) else Inr l1))"

definition lf_flush :: "log_file \<Rightarrow> log_file res" where
  "lf_flush l = (case lf_file l of None \<Rightarrow> Inl (Undefined ''null file_'') | Some f \<Rightarrow> Inr l)"

section \<open>AsyncLogging\<close>

text \<open>The places of the writing thread in \<^verbatim>\<open>threadFunc\<close>.\<close>

datatype log_pc =
    LgNone        \<comment> \<open>not started\<close>
  | LgEntry       \<comment> \<open>started, before \<^verbatim>\<open>latch_.countDown()\<close>\<close>
  | LgTest        \<comment> \<open>at \<^verbatim>\<open>while (running_)\<close>\<close>
  | LgLock        \<comment> \<open>about to hold the mutex\<close>
  | LgWait        \<comment> \<open>in \<^verbatim>\<open>waitForSeconds\<close>\<close>
  | LgWrite       \<comment> \<open>after the critical section\<close>
  | LgExit

record async_logging =
  al_running :: bool
  al_basename :: string
  al_rollSize :: int
  al_rollTime :: int
  al_timeZone :: int
  al_currentBuffer :: "fixed_buffer option"
  al_nextBuffer :: "fixed_buffer option"
  al_buffers :: "fixed_buffer option list"
  al_pc :: log_pc
  al_output :: "log_file option"
  al_newBuffer1 :: "fixed_buffer option"
  al_newBuffer2 :: "fixed_buffer option"
  al_buffersToWrite :: "fixed_buffer option list"
  al_appended :: "char list list"       \<comment> \<open>history: messages\<close>
  al_dropped :: bool                    \<comment> \<open>history: buffers were dropped\<close>

definition LargeBuffer_new :: "log_env \<Rightarrow> fixed_buffer" where
  "LargeBuffer_new env = FixedBuffer_new (le_mem env)"

definition AsyncLogging_new :: "log_env \<Rightarrow> string \<Rightarrow> int \<Rightarrow> int \<Rightarrow> int \<Rightarrow> async_logging" where
  "AsyncLogging_new env basename rollSize rollTime timeZone =
     \<lparr>al_running = False, al_basename = basename, al_rollSize = rollSize, al_rollTime = rollTime, al_timeZone = timeZone,
      al_currentBuffer = Some (fb_bzero (LargeBuffer_new env)), al_nextBuffer = Some (fb_bzero (LargeBuffer_new env)),
      al_buffers = [], al_pc = LgNone, al_output = None, al_newBuffer1 = None, al_newBuffer2 = None,
      al_buffersToWrite = [], al_appended = [], al_dropped = False\<rparr>"

definition deref :: "'a option \<Rightarrow> ('a \<Rightarrow> 'b res) \<Rightarrow> 'b res" where
  "deref p k = (case p of None \<Rightarrow> Inl (Undefined ''null pointer'') | Some x \<Rightarrow> k x)"

definition al_append :: "log_env \<Rightarrow> char list \<Rightarrow> async_logging \<Rightarrow> async_logging res" where
  "al_append env logline s =
     deref (al_currentBuffer s) (\<lambda>cur.
       let s = s\<lparr>al_appended := al_appended s @ [logline]\<rparr>
       in if fb_avail cur > length logline
          then bind_r (fb_append logline cur) (\<lambda>b. Inr (s\<lparr>al_currentBuffer := Some b\<rparr>))
          else
            (let s1 = s\<lparr>al_buffers := al_buffers s @ [al_currentBuffer s]\<rparr>;
                 s2 = (if al_nextBuffer s1 \<noteq> None
                       then s1\<lparr>al_currentBuffer := al_nextBuffer s1, al_nextBuffer := None\<rparr>
                       else s1\<lparr>al_currentBuffer := Some (LargeBuffer_new env)\<rparr>)
             in deref (al_currentBuffer s2) (\<lambda>b.
                  bind_r (fb_append logline b) (\<lambda>b'. Inr (s2\<lparr>al_currentBuffer := Some b'\<rparr>)))))"

definition al_start :: "async_logging \<Rightarrow> async_logging" where
  "al_start s = s\<lparr>al_running := True, al_pc := LgEntry\<rparr>"

definition al_stop :: "async_logging \<Rightarrow> async_logging" where
  "al_stop s = s\<lparr>al_running := False\<rparr>"

text \<open>\<^verbatim>\<open>threadFunc\<close> up to its loop.\<close>

definition al_entry :: "log_env \<Rightarrow> async_logging \<Rightarrow> async_logging res" where
  "al_entry env s =
     ensure (al_running s) ''running_ == true''
       (let s = s\<lparr>al_rollTime := al_rollTime s - al_timeZone s * 3600\<rparr>
        in bind_r (LogFile_new env (al_basename s) (al_rollSize s) (al_rollTime s)) (\<lambda>output.
             Inr (s\<lparr>al_output := Some output, al_newBuffer1 := Some (fb_bzero (LargeBuffer_new env)),
               al_newBuffer2 := Some (fb_bzero (LargeBuffer_new env)), al_pc := LgTest\<rparr>)))"

definition buffer_empty :: "fixed_buffer option \<Rightarrow> bool" where
  "buffer_empty p \<longleftrightarrow> (case p of None \<Rightarrow> False | Some b \<Rightarrow> fb_cur b = 0)"

definition al_test :: "async_logging \<Rightarrow> async_logging res" where
  "al_test s =
     (if al_running s
      then ensure (buffer_empty (al_newBuffer1 s)) ''newBuffer1 && newBuffer1->length() == 0''
        (ensure (buffer_empty (al_newBuffer2 s)) ''newBuffer2 && newBuffer2->length() == 0''
          (ensure (al_buffersToWrite s = []) ''buffersToWrite.empty()'' (Inr (s\<lparr>al_pc := LgLock\<rparr>))))
      else deref (al_output s) (\<lambda>l. bind_r (lf_flush l) (\<lambda>l'. Inr (s\<lparr>al_output := Some l', al_pc := LgExit\<rparr>))))"

text \<open>The rest of the critical section, and the assertion after it.\<close>

definition al_swap :: "async_logging \<Rightarrow> async_logging res" where
  "al_swap s =
     (let s1 = s\<lparr>al_buffers := al_buffers s @ [al_currentBuffer s], al_currentBuffer := al_newBuffer1 s, al_newBuffer1 := None\<rparr>;
          s2 = s1\<lparr>al_buffersToWrite := al_buffers s1, al_buffers := al_buffersToWrite s1\<rparr>;
          s3 = (if al_nextBuffer s2 = None then s2\<lparr>al_nextBuffer := al_newBuffer2 s2, al_newBuffer2 := None\<rparr> else s2)
      in ensure (al_buffersToWrite s3 \<noteq> []) ''!buffersToWrite.empty()'' (Inr (s3\<lparr>al_pc := LgWrite\<rparr>)))"

definition al_lock :: "async_logging \<Rightarrow> async_logging res" where
  "al_lock s = (if al_buffers s = [] then Inr (s\<lparr>al_pc := LgWait\<rparr>) else al_swap s)"

text \<open>The message about dropped buffers; \<open>now\<close> is the time of the report.\<close>

definition dropped_text :: "log_env \<Rightarrow> int \<Rightarrow> nat \<Rightarrow> string" where
  "dropped_text env now n =
     take 255 (''Dropped log messages at '' @ toFormattedString (le_gmtime env) True now @ '', '' @
       show_nat (n - 2) @ '' larger buffers'' @ [LF])"

definition al_drop :: "log_env \<Rightarrow> int \<Rightarrow> async_logging \<Rightarrow> async_logging res" where
  "al_drop env now s =
     (if length (al_buffersToWrite s) > 25
      then deref (al_output s) (\<lambda>l.
        bind_r (lf_append env (dropped_text env now (length (al_buffersToWrite s))) l) (\<lambda>l'.
          Inr (s\<lparr>al_output := Some l', al_buffersToWrite := take 2 (al_buffersToWrite s), al_dropped := True\<rparr>)))
      else Inr s)"

definition append_buffer :: "log_env \<Rightarrow> fixed_buffer option \<Rightarrow> log_file \<Rightarrow> log_file res" where
  "append_buffer env p l = deref p (\<lambda>b. lf_append env (fb_toString b) l)"

text \<open>\<^verbatim>\<open>newBuffer = std::move(buffersToWrite.back()); pop_back(); newBuffer->reset()\<close>, if it is null.\<close>

definition take_back :: "fixed_buffer option \<Rightarrow> fixed_buffer option list \<Rightarrow>
    (fixed_buffer option \<times> fixed_buffer option list) res" where
  "take_back newBuffer bufs =
     (if newBuffer = None
      then ensure (bufs \<noteq> []) ''!buffersToWrite.empty()''
        (deref (last bufs) (\<lambda>b. Inr (Some (fb_reset b), butlast bufs)))
      else Inr (newBuffer, bufs))"

definition al_write :: "log_env \<Rightarrow> int \<Rightarrow> async_logging \<Rightarrow> async_logging res" where
  "al_write env now s =
     bind_r (al_drop env now s) (\<lambda>s1.
     deref (al_output s1) (\<lambda>l.
     bind_r (fold_r (append_buffer env) (al_buffersToWrite s1) l) (\<lambda>l1.
     let bufs = (if length (al_buffersToWrite s1) > 2 then take 2 (al_buffersToWrite s1) else al_buffersToWrite s1)
     in bind_r (take_back (al_newBuffer1 s1) bufs) (\<lambda>(n1, bufs1).
        bind_r (take_back (al_newBuffer2 s1) bufs1) (\<lambda>(n2, bufs2).
        bind_r (lf_flush l1) (\<lambda>l2.
        Inr (s1\<lparr>al_output := Some l2, al_newBuffer1 := n1, al_newBuffer2 := n2, al_buffersToWrite := [], al_pc := LgTest\<rparr>)))))))"

datatype log_event = LogStart | LogEntry | LogAppend "char list" | LogTest | LogLock | LogWake | LogWrite int | LogStop

text \<open>\<^verbatim>\<open>start\<close> returns when the thread has counted the latch down; \<^verbatim>\<open>stop\<close> is called after that.\<close>

fun log_enabled :: "log_event \<Rightarrow> async_logging \<Rightarrow> bool" where
  "log_enabled LogStart s \<longleftrightarrow> al_pc s = LgNone"
| "log_enabled LogEntry s \<longleftrightarrow> al_pc s = LgEntry"
| "log_enabled (LogAppend m) s \<longleftrightarrow> True"
| "log_enabled LogTest s \<longleftrightarrow> al_pc s = LgTest"
| "log_enabled LogLock s \<longleftrightarrow> al_pc s = LgLock"
| "log_enabled LogWake s \<longleftrightarrow> al_pc s = LgWait"
| "log_enabled (LogWrite now) s \<longleftrightarrow> al_pc s = LgWrite"
| "log_enabled LogStop s \<longleftrightarrow> al_running s \<and> al_pc s \<noteq> LgEntry"

fun log_do :: "log_env \<Rightarrow> log_event \<Rightarrow> async_logging \<Rightarrow> async_logging res" where
  "log_do env LogStart s = Inr (al_start s)"
| "log_do env LogEntry s = al_entry env s"
| "log_do env (LogAppend m) s = al_append env m s"
| "log_do env LogTest s = al_test s"
| "log_do env LogLock s = al_lock s"
| "log_do env LogWake s = al_swap s"
| "log_do env (LogWrite now) s = al_write env now s"
| "log_do env LogStop s = Inr (al_stop s)"

inductive log_reachable :: "log_env \<Rightarrow> async_logging \<Rightarrow> bool" for env :: log_env where
  log_init: "log_reachable env (AsyncLogging_new env basename rollSize rollTime timeZone)"
| log_step: "log_reachable env s \<Longrightarrow> log_enabled e s \<Longrightarrow> log_do env e s = Inr s' \<Longrightarrow> log_reachable env s'"

section \<open>Files take what they are given\<close>

text \<open>
  What is relied on: a new buffer has its size, files can be opened, the clock is past the epoch,
  and \<^verbatim>\<open>fwrite\<close> takes something when it is given something.
\<close>

definition log_env_ok :: "log_env \<Rightarrow> bool" where
  "log_env_ok env \<longleftrightarrow> length (le_mem env) = kLargeBuffer \<and> (\<forall>k. le_fopen env k) \<and> (\<forall>k. 0 < le_time env k) \<and>
     (\<forall>k n. 0 < n \<longrightarrow> 0 < le_fwrite env k n)"

lemma af_write_rest_full:
  assumes "\<forall>k n. 0 < n \<longrightarrow> 0 < fw k n"
  shows "fst (af_write_rest fw k logline) = logline"
  using assms
proof (induction fw k logline rule: af_write_rest.induct)
  case (1 fw k logline)
  show ?case
  proof (cases "logline = []")
    case True
    then show ?thesis by (simp add: af_write_rest.simps)
  next
    case False
    then have "af_write fw k (length logline) \<noteq> 0" using 1(2) by (simp add: af_write_def)
    with False 1 show ?thesis
      by (subst af_write_rest.simps) (simp add: Let_def split_beta)
  qed
qed

lemma af_append_full:
  assumes "\<forall>k n. 0 < n \<longrightarrow> 0 < fw k n"
  shows "fst (af_append fw k logline f) =
    f\<lparr>af_out := af_out f @ logline, af_writtenBytes := af_writtenBytes f + int (length logline)\<rparr>"
  using af_write_rest_full [OF assms] by (simp add: af_append_def Let_def split_beta)

definition lf_ok :: "log_file \<Rightarrow> bool" where
  "lf_ok l \<longleftrightarrow> lf_file l \<noteq> None"

definition lf_text :: "log_file \<Rightarrow> char list" where
  "lf_text l = concat (map af_out (lf_closed l)) @ (case lf_file l of None \<Rightarrow> [] | Some f \<Rightarrow> af_out f)"

lemma rollFile_keeps:
  assumes "log_env_ok env"
  shows "returns (rollFile env l) (\<lambda>(b, l'). lf_text l' = lf_text l \<and> (lf_ok l \<or> lf_lastRoll l \<le> 0 \<longrightarrow> lf_ok l'))"
proof -
  have "le_fopen env k" "0 < le_time env k" for k using assms by (simp_all add: log_env_ok_def)
  moreover have "lf_lastRoll l < le_time env (lf_calls l)" if "lf_lastRoll l \<le> 0"
    using calculation(2) [of "lf_calls l"] that by linarith
  ultimately show ?thesis
    by (cases "lf_file l") (auto simp: rollFile_def AppendFile_new_def Let_def lf_text_def lf_ok_def)
qed

lemma LogFile_new_ok:
  assumes "log_env_ok env"
  shows "returns (LogFile_new env basename rollSize rollTime) (\<lambda>l. lf_ok l \<and> lf_text l = [])"
proof -
  let ?l = "\<lparr>lf_basename = basename, lf_rollSize = rollSize, lf_startOfPeriod = 0, lf_lastRoll = 0,
         lf_lastFlush = 0, lf_file = None, lf_timer = 0, lf_closed = [], lf_calls = 0\<rparr>"
  from rollFile_keeps [OF assms, of ?l] obtain b l where "rollFile env ?l = Inr (b, l)" "lf_text l = []" "lf_ok l"
    by (auto simp: returns_Inr lf_text_def)
  then show ?thesis by (simp add: LogFile_new_def Let_def lf_text_def lf_ok_def)
qed

text \<open>The contract of a sink of log data, which the writing thread relies on.\<close>

locale log_sink =
  fixes put :: "char list \<Rightarrow> 'l \<Rightarrow> 'l res" and ok :: "'l \<Rightarrow> bool" and content :: "'l \<Rightarrow> char list"
  assumes put_law: "ok l \<Longrightarrow> returns (put line l) (\<lambda>l'. ok l' \<and> content l' = content l @ line)"
begin

lemma put_all: "ok l \<Longrightarrow> returns (fold_r put ls l) (\<lambda>l'. ok l' \<and> content l' = content l @ concat ls)"
proof (induction ls arbitrary: l)
  case (Cons x ls)
  from put_law [OF Cons.prems, of x] obtain l1 where "put x l = Inr l1" "ok l1" "content l1 = content l @ x"
    by (auto elim: returnsE)
  with Cons.IH [of l1] show ?case by simp
qed simp

end

lemma lf_append_law:
  assumes "log_env_ok env" and "lf_ok l"
  shows "returns (lf_append env logline l) (\<lambda>l'. lf_ok l' \<and> lf_text l' = lf_text l @ logline)"
proof -
  from assms(2) obtain f where f: "lf_file l = Some f" by (auto simp: lf_ok_def)
  obtain f' k where a: "af_append (le_fwrite env) (lf_calls l) logline f = (f', k)" by fastforce
  from af_append_full [of "le_fwrite env" "lf_calls l" logline f] assms(1) a
  have f': "af_out f' = af_out f @ logline" by (simp add: log_env_ok_def)
  let ?l = "l\<lparr>lf_file := Some f', lf_calls := k\<rparr>"
  have "lf_text ?l = lf_text l @ logline" "lf_ok ?l" by (simp_all add: lf_text_def f f' lf_ok_def)
  with rollFile_keeps [OF assms(1), of ?l] show ?thesis
    by (auto simp: lf_append_def f a returns_Inr Let_def)
qed

interpretation lf: log_sink "lf_append env" "\<lambda>l. log_env_ok env \<and> lf_ok l" lf_text for env
  by unfold_locales (auto intro: returns_mono [OF lf_append_law])

section \<open>The invariant of the logger\<close>

definition good_buffer :: "fixed_buffer option \<Rightarrow> bool" where
  "good_buffer p \<longleftrightarrow> (case p of None \<Rightarrow> False | Some b \<Rightarrow> fb_ok b \<and> length (fb_data b) = kLargeBuffer)"

definition buf_text :: "fixed_buffer option \<Rightarrow> char list" where
  "buf_text p = (case p of None \<Rightarrow> [] | Some b \<Rightarrow> fb_toString b)"

definition spare :: "fixed_buffer option \<Rightarrow> bool" where
  "spare p \<longleftrightarrow> good_buffer p \<and> buffer_empty p"

definition front_ok :: "async_logging \<Rightarrow> bool" where
  "front_ok s \<longleftrightarrow> good_buffer (al_currentBuffer s) \<and> (al_nextBuffer s \<noteq> None \<longrightarrow> spare (al_nextBuffer s)) \<and>
     (\<forall>p \<in> set (al_buffers s). good_buffer p) \<and> (al_nextBuffer s = None \<longrightarrow> al_buffers s \<noteq> [])"

fun back_ok :: "log_pc \<Rightarrow> async_logging \<Rightarrow> bool" where
  "back_ok LgNone s \<longleftrightarrow> al_buffersToWrite s = [] \<and> al_output s = None"
| "back_ok LgEntry s \<longleftrightarrow> al_running s \<and> al_buffersToWrite s = [] \<and> al_output s = None"
| "back_ok LgWrite s \<longleftrightarrow> (\<exists>l. al_output s = Some l \<and> lf_ok l) \<and> al_buffersToWrite s \<noteq> [] \<and>
     (\<forall>p \<in> set (al_buffersToWrite s). good_buffer p) \<and> al_newBuffer1 s = None \<and>
     (if al_newBuffer2 s = None then 2 \<le> length (al_buffersToWrite s) else spare (al_newBuffer2 s))"
| "back_ok LgExit s \<longleftrightarrow> al_buffersToWrite s = [] \<and> (\<exists>l. al_output s = Some l \<and> lf_ok l)"
| "back_ok _ s \<longleftrightarrow> (\<exists>l. al_output s = Some l \<and> lf_ok l) \<and> al_buffersToWrite s = [] \<and>
     spare (al_newBuffer1 s) \<and> spare (al_newBuffer2 s)"

definition written :: "async_logging \<Rightarrow> char list" where
  "written s = (case al_output s of None \<Rightarrow> [] | Some l \<Rightarrow> lf_text l)"

definition pending :: "async_logging \<Rightarrow> char list" where
  "pending s = concat (map buf_text (al_buffersToWrite s)) @ concat (map buf_text (al_buffers s)) @ buf_text (al_currentBuffer s)"

definition log_ok :: "async_logging \<Rightarrow> bool" where
  "log_ok s \<longleftrightarrow> front_ok s \<and> back_ok (al_pc s) s \<and>
     (\<not> al_dropped s \<longrightarrow> written s @ pending s = concat (filter (\<lambda>m. length m < kLargeBuffer) (al_appended s)))"

lemma kLargeBuffer_pos: "0 < kLargeBuffer"
  by (simp add: kLargeBuffer_def)

lemma spare_text [simp]: "spare p \<Longrightarrow> buf_text p = []"
  by (auto simp: spare_def buffer_empty_def buf_text_def fb_toString_def split: option.splits)

lemma spare_good: "spare p \<Longrightarrow> good_buffer p"
  by (simp add: spare_def)

lemma new_buffer_spare: "log_env_ok env \<Longrightarrow> spare (Some (LargeBuffer_new env))"
  using kLargeBuffer_pos
  by (simp add: spare_def good_buffer_def buffer_empty_def LargeBuffer_new_def FixedBuffer_new_def fb_ok_def log_env_ok_def)

lemma zeroed_buffer_spare: "log_env_ok env \<Longrightarrow> spare (Some (fb_bzero (LargeBuffer_new env)))"
  using new_buffer_spare [of env] kLargeBuffer_pos by (simp add: spare_def good_buffer_def buffer_empty_def fb_ok_def fb_bzero_def)

lemma reset_spare: "good_buffer (Some b) \<Longrightarrow> spare (Some (fb_reset b))"
  using kLargeBuffer_pos by (auto simp: spare_def good_buffer_def buffer_empty_def fb_ok_def fb_reset_def)

lemma back_ok_front [simp]:
  "back_ok pc (s\<lparr>al_currentBuffer := b\<rparr>) = back_ok pc s"
  "back_ok pc (s\<lparr>al_nextBuffer := b\<rparr>) = back_ok pc s"
  "back_ok pc (s\<lparr>al_buffers := bs\<rparr>) = back_ok pc s"
  "back_ok pc (s\<lparr>al_appended := ms\<rparr>) = back_ok pc s"
  "back_ok pc (s\<lparr>al_pc := pc'\<rparr>) = back_ok pc s"
  by (cases pc; simp)+

lemma good_bufferE:
  assumes "good_buffer p"
  obtains b where "p = Some b" "fb_ok b" "length (fb_data b) = kLargeBuffer"
  using assms by (auto simp: good_buffer_def split: option.splits)

text \<open>Appending to a good buffer.\<close>

lemma good_append:
  assumes "good_buffer (Some b)"
  shows "returns (fb_append m b) (\<lambda>b'. good_buffer (Some b') \<and>
    buf_text (Some b') = buf_text (Some b) @ (if length m < fb_avail b then m else []))"
  using append_spec [of b m] assms by (auto simp: good_buffer_def buf_text_def returns_Inr)

lemma append_ok:
  assumes env: "log_env_ok env" and ok: "log_ok s"
  shows "returns (al_append env m s) log_ok"
proof -
  from ok have front: "front_ok s" and rear: "back_ok (al_pc s) s"
    and content: "\<not> al_dropped s \<longrightarrow> written s @ pending s = concat (filter (\<lambda>m. length m < kLargeBuffer) (al_appended s))"
    by (simp_all add: log_ok_def)
  from front obtain cur where cur: "al_currentBuffer s = Some cur" "fb_ok cur" "length (fb_data cur) = kLargeBuffer"
    by (auto simp: front_ok_def elim: good_bufferE)
  then have good: "good_buffer (Some cur)" by (simp add: good_buffer_def)
  show ?thesis
  proof (cases "fb_avail cur > length m")
    case True
    then have "length m < kLargeBuffer" using cur by (simp add: fb_avail_def)
    with good_append [OF good, of m] True show ?thesis using front rear content cur(1)
      by (auto simp: returns_Inr al_append_def deref_def log_ok_def front_ok_def written_def pending_def Let_def)
  next
    case False
    define nb where "nb = (case al_nextBuffer s of None \<Rightarrow> LargeBuffer_new env | Some b \<Rightarrow> b)"
    have nb: "spare (Some nb)"
      using front new_buffer_spare [OF env] by (auto simp: nb_def front_ok_def split: option.splits)
    have avail: "fb_avail nb = kLargeBuffer" "buf_text (Some nb) = []"
      using nb by (auto simp: spare_def good_buffer_def buffer_empty_def fb_avail_def buf_text_def fb_toString_def)
    let ?s = "s\<lparr>al_appended := al_appended s @ [m], al_buffers := al_buffers s @ [al_currentBuffer s],
      al_currentBuffer := Some nb, al_nextBuffer := None\<rparr>"
    have eq: "al_append env m s = bind_r (fb_append m nb) (\<lambda>b'. Inr (?s\<lparr>al_currentBuffer := Some b'\<rparr>))"
      using False cur(1) by (cases s) (auto simp: al_append_def deref_def nb_def Let_def split: option.splits)
    from good_append [OF spare_good [OF nb], of m] obtain b'
      where b': "fb_append m nb = Inr b'" "good_buffer (Some b')" "buf_text (Some b') = (if length m < kLargeBuffer then m else [])"
      using avail by (auto simp: returns_Inr)
    have "log_ok (?s\<lparr>al_currentBuffer := Some b'\<rparr>)"
      using front rear content cur(1) b' good by (auto simp: log_ok_def front_ok_def written_def pending_def)
    then show ?thesis by (simp add: eq b'(1))
  qed
qed

lemma swap_ok:
  assumes ok: "log_ok s" and pc: "al_pc s = LgLock \<or> al_pc s = LgWait"
  shows "returns (al_swap s) log_ok"
proof -
  from pc ok have rear: "\<exists>l. al_output s = Some l \<and> lf_ok l" "al_buffersToWrite s = []"
      "spare (al_newBuffer1 s)" "spare (al_newBuffer2 s)" and front: "front_ok s"
    by (auto simp: log_ok_def)
  have new: "al_newBuffer2 s \<noteq> None" using rear(4) by (auto simp: spare_def elim: good_bufferE)
  show ?thesis
  proof (cases "al_nextBuffer s")
    case None
    then have "al_buffers s \<noteq> []" using front by (simp add: front_ok_def)
    then have "2 \<le> length (al_buffers s @ [al_currentBuffer s])" by (cases "al_buffers s") auto
    with None ok rear front new show ?thesis
      by (auto simp: al_swap_def Let_def log_ok_def front_ok_def written_def pending_def spare_good)
  next
    case (Some b)
    with ok rear front new show ?thesis
      by (auto simp: al_swap_def Let_def log_ok_def front_ok_def written_def pending_def spare_good)
  qed
qed

lemma append_buffers:
  assumes "log_env_ok env" and "lf_ok l" and "\<forall>p \<in> set ps. good_buffer p"
  shows "returns (fold_r (append_buffer env) ps l) (\<lambda>l'. lf_ok l' \<and> lf_text l' = lf_text l @ concat (map buf_text ps))"
proof -
  have "fold_r (append_buffer env) ps = fold_r (lf_append env) (map buf_text ps)" using assms(3)
  proof (induction ps)
    case (Cons p ps)
    then obtain b where "p = Some b" by (auto elim: good_bufferE)
    then have "append_buffer env p = lf_append env (buf_text p)"
      by (simp add: fun_eq_iff append_buffer_def deref_def buf_text_def)
    with Cons show ?case by (intro ext) simp
  qed (simp add: fun_eq_iff)
  with lf.put_all [of env l "map buf_text ps"] assms(1,2) show ?thesis by (simp add: returns_mono)
qed

lemma take_back_ok:
  assumes "\<forall>p \<in> set bufs. good_buffer p" and "if nb = None then bufs \<noteq> [] else spare nb"
  shows "returns (take_back nb bufs) (\<lambda>(nb', bufs'). spare nb' \<and> bufs' = (if nb = None then butlast bufs else bufs))"
proof (cases nb)
  case None
  with assms have "bufs \<noteq> []" "good_buffer (last bufs)" by auto
  then obtain b where "last bufs = Some b" "good_buffer (Some b)" by (metis good_bufferE)
  with None \<open>bufs \<noteq> []\<close> show ?thesis by (simp add: take_back_def deref_def reset_spare)
qed (use assms in \<open>simp add: take_back_def\<close>)

lemma drop_ok:
  assumes env: "log_env_ok env" and ok: "log_ok s" and pc: "al_pc s = LgWrite"
  shows "returns (al_drop env now s) (\<lambda>s'. log_ok s' \<and> al_pc s' = LgWrite)"
proof (cases "length (al_buffersToWrite s) > 25")
  case True
  from pc ok obtain l where l: "al_output s = Some l" "lf_ok l" by (auto simp: log_ok_def)
  let ?t = "dropped_text env now (length (al_buffersToWrite s))"
  from lf_append_law [OF env l(2), of ?t] obtain l' where l': "lf_append env ?t l = Inr l'" "lf_ok l'"
    by (auto elim: returnsE)
  have "al_buffersToWrite s \<noteq> []" "\<forall>p \<in> set (take 2 (al_buffersToWrite s)). good_buffer p"
    using True ok pc by (auto simp: log_ok_def dest: in_set_takeD)
  with True l l' ok pc show ?thesis
    by (simp add: al_drop_def deref_def log_ok_def front_ok_def split: if_splits)
qed (use ok pc in \<open>simp add: al_drop_def\<close>)

lemma write_ok:
  assumes env: "log_env_ok env" and ok: "log_ok s" and pc: "al_pc s = LgWrite"
  shows "returns (al_write env now s) log_ok"
proof -
  from drop_ok [OF assms, of now] obtain s1 where s1: "al_drop env now s = Inr s1" "log_ok s1" "al_pc s1 = LgWrite"
    by (auto elim: returnsE)
  then obtain l where l: "al_output s1 = Some l" "lf_ok l" and bufs: "al_buffersToWrite s1 \<noteq> []"
      "\<forall>p \<in> set (al_buffersToWrite s1). good_buffer p" and new1: "al_newBuffer1 s1 = None"
      and new2: "if al_newBuffer2 s1 = None then 2 \<le> length (al_buffersToWrite s1) else spare (al_newBuffer2 s1)"
    by (auto simp: log_ok_def)
  from append_buffers [OF env l(2) bufs(2)] obtain l1 where
    l1: "fold_r (append_buffer env) (al_buffersToWrite s1) l = Inr l1" "lf_ok l1"
      "lf_text l1 = lf_text l @ concat (map buf_text (al_buffersToWrite s1))" by (auto elim: returnsE)
  define bs where "bs = (if length (al_buffersToWrite s1) > 2 then take 2 (al_buffersToWrite s1) else al_buffersToWrite s1)"
  have "bs \<noteq> []" "\<forall>p \<in> set bs. good_buffer p" using bufs by (auto simp: bs_def dest: in_set_takeD)
  moreover have "butlast bs \<noteq> []" if "al_newBuffer2 s1 = None"
  proof -
    from that new2 have "2 \<le> length bs" by (simp add: bs_def)
    then have "0 < length (butlast bs)" by simp
    then show ?thesis by blast
  qed
  ultimately have bs: "bs \<noteq> []" "\<forall>p \<in> set bs. good_buffer p" "\<forall>p \<in> set (butlast bs). good_buffer p"
      "if al_newBuffer2 s1 = None then butlast bs \<noteq> [] else spare (al_newBuffer2 s1)"
    using new2 by (auto dest: in_set_butlastD)
  from take_back_ok [of bs None] bs obtain n1 where n1: "take_back None bs = Inr (n1, butlast bs)" "spare n1"
    by (auto elim: returnsE)
  from take_back_ok [OF bs(3,4)] obtain n2 r where
    n2: "take_back (al_newBuffer2 s1) (butlast bs) = Inr (n2, r)" "spare n2" by (auto elim!: returnsE)
  have flush: "lf_flush l1 = Inr l1" using l1(2) by (auto simp: lf_flush_def lf_ok_def)
  have "al_write env now s = Inr (s1\<lparr>al_output := Some l1, al_newBuffer1 := n1, al_newBuffer2 := n2,
      al_buffersToWrite := [], al_pc := LgTest\<rparr>)"
    by (simp add: al_write_def s1(1) deref_def l(1) l1(1) Let_def new1 bs_def [symmetric] n1(1) n2(1) flush)
  moreover have "log_ok (s1\<lparr>al_output := Some l1, al_newBuffer1 := n1, al_newBuffer2 := n2,
      al_buffersToWrite := [], al_pc := LgTest\<rparr>)"
    using s1(2) n1(2) n2(2) l1(2,3) l(1) by (auto simp: log_ok_def front_ok_def written_def pending_def)
  ultimately show ?thesis by simp
qed

lemma entry_ok:
  assumes env: "log_env_ok env" and ok: "log_ok s" and pc: "al_pc s = LgEntry"
  shows "returns (al_entry env s) log_ok"
proof -
  from LogFile_new_ok [OF env, of "al_basename s" "al_rollSize s" "al_rollTime s - al_timeZone s * 3600"] obtain l where
    l: "LogFile_new env (al_basename s) (al_rollSize s) (al_rollTime s - al_timeZone s * 3600) = Inr l" "lf_ok l" "lf_text l = []"
    by (auto elim: returnsE)
  with ok pc zeroed_buffer_spare [OF env] show ?thesis
    by (auto simp: al_entry_def Let_def log_ok_def front_ok_def written_def pending_def)
qed

lemma test_ok:
  assumes ok: "log_ok s" and pc: "al_pc s = LgTest"
  shows "returns (al_test s) log_ok"
proof -
  from ok pc obtain l where "al_output s = Some l" "lf_ok l" "al_buffersToWrite s = []" "spare (al_newBuffer1 s)" "spare (al_newBuffer2 s)"
    by (auto simp: log_ok_def)
  moreover from this have "lf_flush l = Inr l" by (auto simp: lf_flush_def lf_ok_def)
  ultimately show ?thesis using ok pc
    by (auto simp: al_test_def deref_def log_ok_def front_ok_def written_def pending_def spare_def)
qed

lemma log_do_ok:
  assumes "log_env_ok env" and "log_ok s" and "log_enabled e s"
  shows "returns (log_do env e s) log_ok"
proof (cases e)
  case LogStart
  with assms show ?thesis by (auto simp: al_start_def log_ok_def front_ok_def written_def pending_def)
next
  case LogLock
  with assms swap_ok [OF assms(2)] show ?thesis
    by (auto simp: al_lock_def log_ok_def [of "_\<lparr>al_pc := _\<rparr>"] front_ok_def written_def pending_def)
      (auto simp: log_ok_def front_ok_def written_def pending_def)
next
  case LogStop
  with assms show ?thesis
    by (cases "al_pc s") (auto simp: al_stop_def log_ok_def front_ok_def written_def pending_def)
qed (use assms append_ok entry_ok test_ok swap_ok write_ok in simp_all)

lemma log_reachable_ok:
  assumes "log_env_ok env" and "log_reachable env s"
  shows "log_ok s"
  using assms(2)
proof induction
  case (log_init basename rollSize rollTime timeZone)
  from zeroed_buffer_spare [OF assms(1)] show ?case
    by (simp add: AsyncLogging_new_def log_ok_def front_ok_def written_def pending_def spare_good)
next
  case (log_step s e s')
  with log_do_ok [OF assms(1), of s e] show ?case by simp
qed


definition example_log_env :: log_env where
  "example_log_env = \<lparr>le_mem = replicate kLargeBuffer (CHR ''?''), le_fwrite = (\<lambda>k n. n), le_fopen = (\<lambda>k. True),
     le_time = (\<lambda>k. 1700000000 + int k), le_localtime = undefined, le_gmtime = undefined, le_hostname = ''host'', le_pid = 7\<rparr>"

lemma example_log_env_ok: "log_env_ok example_log_env"
  by (simp add: log_env_ok_def example_log_env_def)

text \<open>\<^verbatim>\<open>start\<close> and one message, whatever the environment.\<close>

definition one_message :: "log_env \<Rightarrow> char list \<Rightarrow> async_logging res" where
  "one_message env m =
     bind_r (log_do env LogEntry (al_start (AsyncLogging_new env ''app'' 1000 0 8))) (log_do env (LogAppend m))"

lemma one_message_reachable:
  assumes env: "log_env_ok env"
  shows "returns (one_message env m) (\<lambda>s. log_reachable env s \<and> al_pc s = LgTest \<and> al_running s \<and>
    al_appended s = [m] \<and> \<not> al_dropped s \<and> written s = [])"
proof -
  let ?s0 = "AsyncLogging_new env ''app'' 1000 0 8"
  have r1: "log_reachable env (al_start ?s0)"
    by (rule log_step [OF log_init, of LogStart]) (simp_all add: AsyncLogging_new_def)
  have ok1: "log_ok (al_start ?s0)" using env r1 by (rule log_reachable_ok)
  have pc1: "al_pc (al_start ?s0) = LgEntry" "al_running (al_start ?s0)" by (simp_all add: al_start_def)
  from LogFile_new_ok [OF env, of "''app''" 1000 "-28800"] obtain l where l: "LogFile_new env ''app'' 1000 (-28800) = Inr l" "lf_text l = []"
    by (auto elim: returnsE)
  then obtain s1 where s1: "al_entry env (al_start ?s0) = Inr s1" "al_pc s1 = LgTest" "al_running s1"
      "al_appended s1 = []" "\<not> al_dropped s1" "written s1 = []"
    by (simp add: al_entry_def al_start_def AsyncLogging_new_def Let_def written_def)
  have r2: "log_reachable env s1" by (rule log_step [OF r1, of LogEntry]) (simp_all add: pc1 s1(1))
  from append_ok [OF env log_reachable_ok [OF env r2], of m] obtain s2 where s2: "al_append env m s1 = Inr s2"
    by (auto elim: returnsE)
  then have "log_reachable env s2" by (intro log_step [OF r2, of "LogAppend m"]) simp_all
  moreover have "al_pc s2 = LgTest \<and> al_running s2 \<and> al_appended s2 = [m] \<and> \<not> al_dropped s2 \<and> written s2 = []"
    using s2 s1(2-) by (auto simp: al_append_def deref_def Let_def written_def bind_r_def split: option.splits if_splits sum.splits)
  ultimately show ?thesis by (simp add: one_message_def s1(1) s2)
qed


text \<open>
  Stopping the logger can lose messages: the thread leaves its loop when it finds \<^verbatim>\<open>running_\<close> false
  and does not write what the buffers hold. A message appended just before \<^verbatim>\<open>stop\<close> is in no file
  when \<^verbatim>\<open>stop\<close> has joined the thread.
\<close>

theorem stop_loses_message:
  assumes "log_env_ok env"
  shows "\<exists>s. log_reachable env s \<and> al_pc s = LgExit \<and> al_appended s = [m] \<and> \<not> al_dropped s \<and> written s = []"
proof -
  from one_message_reachable [OF assms, of m] obtain s where s: "log_reachable env s" "al_pc s = LgTest" "al_running s"
      "al_appended s = [m]" "\<not> al_dropped s" "written s = []" by (auto elim: returnsE)
  have r1: "log_reachable env (al_stop s)" by (rule log_step [OF s(1), of LogStop]) (simp_all add: s)
  from log_reachable_ok [OF assms r1] s(2) obtain l where l: "al_output s = Some l" "lf_ok l"
    by (auto simp: log_ok_def al_stop_def)
  have "al_test (al_stop s) = Inr (s\<lparr>al_running := False, al_output := Some l, al_pc := LgExit\<rparr>)"
    using l by (auto simp: al_test_def al_stop_def deref_def lf_flush_def lf_ok_def)
  then have "log_reachable env (s\<lparr>al_running := False, al_output := Some l, al_pc := LgExit\<rparr>)"
    by (intro log_step [OF r1, of LogTest]) (simp_all add: s al_stop_def)
  moreover have "written (s\<lparr>al_running := False, al_output := Some l, al_pc := LgExit\<rparr>) = []"
    using s(6) l by (simp add: written_def)
  ultimately show ?thesis using s(4,5) by (intro exI [of _ "s\<lparr>al_running := False, al_output := Some l, al_pc := LgExit\<rparr>"]) simp
qed

theorem stop_loses_message_witness:
  "\<exists>s. log_reachable example_log_env s \<and> al_pc s = LgExit \<and> al_appended s = [''bye''] \<and> \<not> al_dropped s \<and> written s = []"
  by (rule stop_loses_message [OF example_log_env_ok])

end
