(* ===== verification/WebParsers.thy ===== *)
theory WebParsers
  imports HttpServe
begin

unbundle bit_operations_syntax

text \<open>
  Requests of the static web server (\<^verbatim>\<open>webServer/requestParser.cpp\<close>, \<^verbatim>\<open>redis.cpp\<close>,
  \<^verbatim>\<open>ZLibString.cpp\<close>). A parser object belongs to a thread of the pool and serves one request
  after the other, of any connection.

  The request is the string taken from the input buffer; reading it past its terminator, a
  write outside \<^verbatim>\<open>path[255]\<close> and a string made from an inverted range are faults. What the
  parser asks of the connection is a list of actions; whether the connection is up when
  the answer is sent is a parameter, because \<^verbatim>\<open>send\<close> does nothing, and does not empty
  the buffer, otherwise. The configuration, the files, hiredis and zlib are parameters too.

  The lemmas give what the parser does with a well-formed request, with a header without
  value, and with an answer that could not be sent.
\<close>

section \<open>Surroundings\<close>

record web_config =
  wc_base_path :: string                       \<comment> \<open>\<^verbatim>\<open>g_resource_base_path\<close>, without \<^verbatim>\<open>%\<close>\<close>
  wc_index_path :: string
  wc_mimeType :: "string \<Rightarrow> string option"
  wc_redis_vip :: "string list"
  wc_urlTomd5 :: "string \<Rightarrow> string"
  wc_redis_room :: "nat \<Rightarrow> nat"             \<comment> \<open>\<^verbatim>\<open>(int) ((float) size * g_redis_rate) + 1\<close>\<close>

text \<open>\<^verbatim>\<open>stat\<close> gives the mode of a file; \<^verbatim>\<open>fopen\<close> its content.\<close>

record file_system =
  fs_stat :: "string \<Rightarrow> 32 word option"
  fs_fopen :: "string \<Rightarrow> char list option"

text \<open>
  hiredis and zlib: \<^verbatim>\<open>redisCommandArgv\<close> gives a reply or the null pointer; \<^verbatim>\<open>compress\<close> and \<^verbatim>\<open>uncompress\<close>
  are told the room for the result.
\<close>

datatype redis_reply =
    REDIS_REPLY_STRING string
  | REDIS_REPLY_ARRAY "redis_reply list"
  | REDIS_REPLY_INTEGER int
  | REDIS_REPLY_NIL
  | REDIS_REPLY_STATUS string
  | REDIS_REPLY_ERROR string

record web_cache =
  hr_command :: "string list \<Rightarrow> redis_reply option"
  zl_compress :: "string \<Rightarrow> nat \<Rightarrow> string option"
  zl_uncompress :: "string \<Rightarrow> nat \<Rightarrow> string option"

datatype web_act =
    SetContextkv string string
  | CancelWriteComplete
  | SendBytes string
  | ForceCloseWithDelay nat
  | WebForceClose
  | WebShutdown
  | SetContextfp string          \<comment> \<open>the part of the file not read yet\<close>
  | RetryInLoop
  | RedisCommand "string list"
  | ConnectRedisAfter nat

record web_parser =
  ps_paramMap :: "string \<Rightarrow> string option"
  ps_response :: string                     \<comment> \<open>content of the buffer \<^verbatim>\<open>response_\<close>\<close>
  ps_redisWell :: bool
  ps_zlib :: bool                           \<comment> \<open>\<^verbatim>\<open>g_zlib\<close> is set\<close>
  ps_zlibMap :: "string \<Rightarrow> nat option"
  ps_count :: int

text \<open>\<^verbatim>\<open>paramMap_[key]\<close>.\<close>

definition web_param :: "string \<Rightarrow> web_parser \<Rightarrow> string" where
  "web_param k p = (case ps_paramMap p k of None \<Rightarrow> [] | Some v \<Rightarrow> v)"

section \<open>Error pages\<close>

definition web_not_found :: string where
  "web_not_found = ''HTTP/1.1 404 NOT FOUND'' @ kCRLF @ ''Content-Type: text/html'' @ kCRLF @ kCRLF @
     ''<HTML><TITLE>404 Not Found</TITLE>'' @ kCRLF @ ''<BODY>The server could not fulfill'' @ kCRLF @
     ''your request because the resource specified'' @ kCRLF @ ''is unavailable or nonexistent.'' @ kCRLF @
     ''</BODY></HTML>'' @ kCRLF"

definition web_not_autho :: string where
  "web_not_autho = ''HTTP/1.1 403 Forbidden'' @ kCRLF @ ''Content-Type: text/html'' @ kCRLF @ kCRLF @
     ''<HTML><TITLE> 403 Forbidden </TITLE>'' @ kCRLF @ ''<BODY><P> 403 Forbidden '' @ kCRLF @
     ''the resource you accessed you have no permission for it '' @ kCRLF @ ''</BODY></HTML>'' @ kCRLF"

definition web_unimplemented :: string where
  "web_unimplemented = ''HTTP/1.1 501 Method Not Implemented'' @ kCRLF @ ''Content-Type: text/html'' @ kCRLF @ kCRLF @
     ''<HTML><HEAD><TITLE>Method Not Implemented'' @ kCRLF @ ''</TITLE></HEAD>'' @ kCRLF @
     ''<BODY><P>HTTP request method not supported.'' @ kCRLF @ ''</BODY></HTML>'' @ kCRLF"

definition version_not_support :: string where
  "version_not_support = ''HTTP/1.1 505 version not support'' @ kCRLF @ ''Content-Type: text/html'' @ kCRLF @ kCRLF @
     ''<HTML><HEAD><TITLE>version not suppord'' @ kCRLF @ ''</TITLE></HEAD>'' @ kCRLF @
     ''<BODY><P>HTTP request version not supported.'' @ kCRLF @ ''</BODY></HTML>'' @ kCRLF"

text \<open>
  \<^verbatim>\<open>response_.append(bytes)\<close> and \<^verbatim>\<open>send(&response_)\<close>: the buffer is emptied when the connection is up
  (\<open>up\<close>), and kept otherwise.
\<close>

definition web_send :: "bool \<Rightarrow> string \<Rightarrow> web_parser \<Rightarrow> web_act list \<times> web_parser" where
  "web_send up bytes p =
     (let r = ps_response p @ bytes
      in if up then ([SendBytes r], p\<lparr>ps_response := []\<rparr>) else ([], p\<lparr>ps_response := r\<rparr>))"

text \<open>What the error branches share.\<close>

definition web_error :: "bool \<Rightarrow> string \<Rightarrow> web_parser \<Rightarrow> web_act list \<times> web_parser" where
  "web_error up page p =
     (let (acts, p1) = web_send up page p in (CancelWriteComplete # acts @ [ForceCloseWithDelay 1], p1))"

section \<open>Redis and zlib\<close>

text \<open>\<^verbatim>\<open>n\<close> bytes from the start of a C string.\<close>

definition argv_bytes :: "string \<Rightarrow> nat \<Rightarrow> string res" where
  "argv_bytes s n = (if n \<le> length s + 1 then Inr (take n (s @ [CHR 0x00])) else Inl (Undefined ''argvlen''))"

fun redisReplyToString :: "redis_reply \<Rightarrow> string" where
  "redisReplyToString (REDIS_REPLY_STRING s) = s"
| "redisReplyToString (REDIS_REPLY_STATUS s) = s"
| "redisReplyToString (REDIS_REPLY_ERROR s) = s"
| "redisReplyToString (REDIS_REPLY_INTEGER i) = show_int i"
| "redisReplyToString (REDIS_REPLY_ARRAY rs) =
     show_nat (length rs) @ '' '' @ concat (map (\<lambda>r. CHR '' '' # redisReplyToString r) rs)"
| "redisReplyToString REDIS_REPLY_NIL = []"

text \<open>\<open>None\<close> is the exception \<^verbatim>\<open>throw 0\<close>.\<close>

definition exeGET :: "web_cache \<Rightarrow> string \<Rightarrow> string option res" where
  "exeGET ca key = bind_r (argv_bytes key 32) (\<lambda>k.
     case hr_command ca [''get'', k] of
       None \<Rightarrow> Inr None
     | Some reply \<Rightarrow> Inr (Some (if reply \<noteq> REDIS_REPLY_NIL then redisReplyToString reply else [])))"

text \<open>
  The reply is ignored; \<^verbatim>\<open>redisCommandArgv\<close> is a C function, so \<^verbatim>\<open>throw 1\<close> never happens.
\<close>

definition exeSET :: "string \<Rightarrow> string \<Rightarrow> web_act res" where
  "exeSET key value = bind_r (argv_bytes key 32) (\<lambda>k. Inr (RedisCommand [''set'', k, value]))"

definition MAXBUFFERSIZE :: nat where "MAXBUFFERSIZE = 20000"

text \<open>
  \<^verbatim>\<open>Compress\<close> into a buffer with room for \<open>room\<close> bytes: \<open>None\<close> is the result \<^verbatim>\<open>false\<close>.
\<close>

definition Compress :: "web_cache \<Rightarrow> string \<Rightarrow> nat \<Rightarrow> string option res" where
  "Compress ca content room =
     (if content = [] then Inr None
      else case zl_compress ca content MAXBUFFERSIZE of
             None \<Rightarrow> Inr None
           | Some c \<Rightarrow> if length c \<le> room then Inr (Some c) else Inl (Undefined ''memcpy(pcCompBuf, compr, comprLen)''))"

text \<open>
  The bytes given to \<^verbatim>\<open>exeSET\<close>: the result of \<^verbatim>\<open>Compress\<close> is not looked at, and after a failure
  \<^verbatim>\<open>compressLen\<close> is still the size of the file while the buffer was never written.
\<close>

definition compressed :: "web_cache \<Rightarrow> string \<Rightarrow> nat \<Rightarrow> string res" where
  "compressed ca content room = bind_r (Compress ca content room) (\<lambda>c.
     case c of Some v \<Rightarrow> Inr v | None \<Rightarrow> if content = [] then Inr [] else Inl (Undefined ''comPressString''))"

definition UnCompress :: "web_cache \<Rightarrow> string \<Rightarrow> nat \<Rightarrow> string option" where
  "UnCompress ca s unCompLen = (if s = [] \<or> unCompLen = 0 then None else zl_uncompress ca s unCompLen)"

section \<open>Answering\<close>

definition kWebBufSize :: nat where "kWebBufSize = 1024 * 1024"

text \<open>\<^verbatim>\<open>int size = st.st_size\<close>.\<close>

definition int_size :: "nat \<Rightarrow> int" where
  "int_size n = sint (of_nat n :: 32 word)"

definition web_header :: "web_config \<Rightarrow> string \<Rightarrow> int \<Rightarrow> web_parser \<Rightarrow> string" where
  "web_header conf mime fileSize p =
     ''HTTP/'' @ web_param ''version'' p @ '' 200 OK'' @ kCRLF @ ''Connection:'' @ web_param ''Connection'' p @ kCRLF @
     ''Content-type:'' @ (case wc_mimeType conf mime of None \<Rightarrow> [] | Some t \<Rightarrow> t) @ '';charset=utf-8'' @ kCRLF @
     (if web_param ''Connection'' p \<noteq> ''close'' then ''Content-Length:'' @ show_int fileSize else []) @ kCRLF @ kCRLF"

text \<open>The label \<^verbatim>\<open>ReConn\<close>.\<close>

definition web_reconn :: "web_parser \<Rightarrow> web_act list \<times> web_parser" where
  "web_reconn p = ([RetryInLoop], p\<lparr>ps_redisWell := False, ps_zlib := False\<rparr>)"

text \<open>A file whose answer is kept in Redis, but is not there yet.\<close>

definition web_fill_cache :: "web_config \<Rightarrow> file_system \<Rightarrow> web_cache \<Rightarrow> string \<Rightarrow> string \<Rightarrow> web_parser \<Rightarrow>
    (web_act list \<times> string option \<times> web_parser) res" where
  "web_fill_cache conf fs ca g_file md5 p =
     (case fs_fopen fs g_file of
        None \<Rightarrow> Inl (Undefined ''fclose(nullptr)'')
      | Some plain \<Rightarrow>
          if int_size (length plain) < 0 then Inl (Throws ''bad_array_new_length'')
          else bind_r (compressed ca plain (wc_redis_room conf (length plain))) (\<lambda>c.
            bind_r (exeSET md5 c) (\<lambda>set_c.
              Inr ([CancelWriteComplete, set_c], Some plain, p\<lparr>ps_zlibMap := (ps_zlibMap p)(md5 \<mapsto> length plain)\<rparr>))))"

text \<open>
  The first part of \<^verbatim>\<open>responseRequest\<close>, for a file that is kept in Redis: the actions, the body if it
  was got, and the parser.
\<close>

definition web_from_cache :: "web_config \<Rightarrow> file_system \<Rightarrow> web_cache \<Rightarrow> string \<Rightarrow> web_parser \<Rightarrow>
    (web_act list \<times> string option \<times> web_parser) res" where
  "web_from_cache conf fs ca g_file p =
     (if g_file \<notin> set (wc_redis_vip conf) then Inr ([], None, p)
      else if \<not> ps_redisWell p then (let (acts, p1) = web_reconn p in Inr (acts, None, p1))
      else
        (let md5 = wc_urlTomd5 conf g_file
         in bind_r (exeGET ca md5) (\<lambda>got. case got of
              None \<Rightarrow> (let (acts, p1) = web_reconn p in Inr (acts, None, p1))
            | Some s \<Rightarrow>
                (let size = (case ps_zlibMap p md5 of None \<Rightarrow> 0 | Some n \<Rightarrow> n)
                 in if s = [] \<or> size = 0 then web_fill_cache conf fs ca g_file md5 p
                    else (case UnCompress ca s size of
                            Some plain \<Rightarrow>
                              if length plain < size then Inl (Undefined ''g_unComPressContent'')
                              else Inr ([CancelWriteComplete], Some plain, p)
                          | None \<Rightarrow> Inr ([CancelWriteComplete], None, p\<lparr>ps_redisWell := False\<rparr>))))))"

text \<open>The second part: the answer, from Redis or from the file.\<close>

definition web_answer :: "web_config \<Rightarrow> file_system \<Rightarrow> bool \<Rightarrow> string \<Rightarrow> string \<Rightarrow> string option \<Rightarrow> web_parser \<Rightarrow>
    web_act list \<times> web_parser" where
  "web_answer conf fs up g_file mime got p =
     (case got of
        Some body \<Rightarrow>
          (let (sends, p1) = web_send up (web_header conf mime (int_size (length body)) p @ body) p
           in (sends @ (if web_param ''Connection'' p = ''close'' then [WebShutdown] else []), p1))
      | None \<Rightarrow>
          (case fs_fopen fs g_file of
             None \<Rightarrow> ([WebForceClose], p)
           | Some content \<Rightarrow>
               (let nread = take kWebBufSize content; rest = drop kWebBufSize content
                in if nread = [] then ([SetContextfp rest, WebShutdown], p)
                   else (let (sends, p1) = web_send up (web_header conf mime (int_size (length content)) p @ nread) p
                         in (SetContextfp rest # sends, p1)))))"

definition responseRequest :: "web_config \<Rightarrow> file_system \<Rightarrow> web_cache \<Rightarrow> bool \<Rightarrow> string \<Rightarrow> string \<Rightarrow> web_parser \<Rightarrow>
    (web_act list \<times> web_parser) res" where
  "responseRequest conf fs ca up g_file mime p =
     bind_r (web_from_cache conf fs ca g_file p) (\<lambda>(acts, got, p1).
       let (acts', p2) = web_answer conf fs up g_file mime got p1 in Inr (acts @ acts', p2))"

section \<open>Connecting to Redis again\<close>

text \<open>\<^verbatim>\<open>redisConnect\<close> gives the null pointer or a context with or without an error.\<close>

definition Redis_Connect :: "bool option \<Rightarrow> bool" where
  "Redis_Connect context = (context \<noteq> Some True)"

definition Parser_new :: "bool option \<Rightarrow> web_parser" where
  "Parser_new context =
     (let well = Redis_Connect context
      in \<lparr>ps_paramMap = Map.empty, ps_response = [], ps_redisWell = well, ps_zlib = well, ps_zlibMap = Map.empty, ps_count = 0\<rparr>)"

definition retryInLoop :: "nat \<Rightarrow> web_parser \<Rightarrow> web_act list \<times> web_parser" where
  "retryInLoop rand_value p =
     (let n = (if ps_count p + 1 = 2 ^ 63 - 1 then 0 else ps_count p + 1)
      in (if n mod 5 = 1 then [ConnectRedisAfter (rand_value mod 10 + 1)] else [], p\<lparr>ps_count := n\<rparr>))"

definition connectRedis :: "bool option \<Rightarrow> web_parser \<Rightarrow> web_act list \<times> web_parser" where
  "connectRedis context p =
     (if ps_redisWell p then ([], p)
      else (let p1 = p\<lparr>ps_redisWell := Redis_Connect context\<rparr>
            in if ps_redisWell p1 \<and> \<not> ps_zlib p1 then ([], p1\<lparr>ps_zlib := True\<rparr>) else ([RetryInLoop], p1)))"

section \<open>Parsing\<close>

text \<open>\<^verbatim>\<open>request[j]\<close>, with the terminator at the end.\<close>

definition req_at :: "string \<Rightarrow> nat \<Rightarrow> char res" where
  "req_at r j = (if j < length r then Inr (r ! j) else if j = length r then Inr (CHR 0x00) else Inl (Undefined ''request[j]''))"

definition lower :: "char \<Rightarrow> char" where
  "lower c = (if of_char c \<in> {65 .. (90 :: nat)} then char_of (of_char c + (32 :: nat)) else c)"

function method_loop :: "string \<Rightarrow> nat \<Rightarrow> string res" where
  "method_loop r i = bind_r (req_at r i) (\<lambda>c.
     if \<not> c_isspace c \<and> i < 15 then bind_r (method_loop r (i + 1)) (\<lambda>m. Inr (c # m)) else Inr [])"
  by auto
termination by (relation "measure (\<lambda>(r, i). 15 - i)") auto

declare method_loop.simps [simp del]

fun skip_spaces :: "string \<Rightarrow> string" where
  "skip_spaces [] = []"
| "skip_spaces (c # cs) = (if c_isspace c then skip_spaces cs else c # cs)"

fun url_loop :: "nat \<Rightarrow> string \<Rightarrow> string" where
  "url_loop i [] = []"
| "url_loop i (c # cs) = (if c \<noteq> CHR '' '' \<and> i < 254 then c # url_loop (i + 1) cs else [])"

fun skip_blanks :: "string \<Rightarrow> string" where
  "skip_blanks [] = []"
| "skip_blanks (c # cs) = (if c = CHR '' '' then skip_blanks cs else c # cs)"

text \<open>\<^verbatim>\<open>sprintf\<close> and \<^verbatim>\<open>strcpy\<close> into \<^verbatim>\<open>path[255]\<close>.\<close>

definition into_path :: "string \<Rightarrow> string res" where
  "into_path s = (if length s < 255 then Inr s else Inl (Undefined ''path[255]''))"

definition make_path :: "web_config \<Rightarrow> string \<Rightarrow> string res" where
  "make_path conf url =
     bind_r (into_path (wc_base_path conf @ c_chars url)) (\<lambda>path.
       if path = [] then Inl (Undefined ''path[-1]'')
       else if last path = CHR ''/'' then into_path (wc_base_path conf @ wc_index_path conf) else Inr path)"

text \<open>The loop back to the last dot; without one it reads \<^verbatim>\<open>path[-1]\<close>.\<close>

definition mime_of :: "string \<Rightarrow> string res" where
  "mime_of path =
     (if CHR ''.'' \<in> set path then Inr (rev (takeWhile (\<lambda>c. c \<noteq> CHR ''.'') (rev path)))
      else Inl (Undefined ''path[-1]''))"

definition can_read :: "32 word \<Rightarrow> bool" where
  "can_read mode \<longleftrightarrow> mode AND 0x100 \<noteq> 0 \<or> mode AND 0x20 \<noteq> 0 \<or> mode AND 0x4 \<noteq> 0"

definition is_dir :: "32 word \<Rightarrow> bool" where
  "is_dir mode \<longleftrightarrow> mode AND 0xF000 = 0x4000"

function header_loop :: "string \<Rightarrow> (string \<Rightarrow> string option) \<Rightarrow> (bool \<times> (string \<Rightarrow> string option)) res" where
  "header_loop s pm =
     (if s = [] then Inr (True, pm)
      else
        (let k = std_search kCRLF s
         in if k = length s then Inr (False, pm)
            else
              (let line = take k s; colon = std_find (CHR '':'') line
               in if colon < length line
                  then (if colon + 2 \<le> k then header_loop (drop (k + 2) s) (pm(take colon line \<mapsto> drop (colon + 2) line))
                        else Inl (Undefined ''string(colon + 2, crlf)''))
                  else Inr (k + 2 = length s, pm))))"
  by auto
termination by (relation "measure (\<lambda>(s, pm). length s)") auto

declare header_loop.simps [simp del]

text \<open>From the version on; \<open>s\<close> is the request from \<^verbatim>\<open>begin\<close>.\<close>

definition parse_rest :: "web_config \<Rightarrow> file_system \<Rightarrow> web_cache \<Rightarrow> bool \<Rightarrow> string \<Rightarrow> string \<Rightarrow> string \<Rightarrow> web_parser \<Rightarrow>
    (web_act list \<times> web_parser) res" where
  "parse_rest conf fs ca up path mime s p =
     (let k = std_search kCRLF s
      in if k = length s then Inr (web_error up web_unimplemented p)
         else if k < 3 then Inl (Undefined ''string(begin, crlf - 3)'')
         else
           (let version = drop (k - 3) (take k s)
            in if take (k - 3) s \<noteq> ''HTTP/'' \<or> version \<notin> {''1.0'', ''1.1'', ''2.0''}
               then Inr (web_error up version_not_support p)
               else bind_r (header_loop (drop (k + 2) s) ((ps_paramMap p)(''version'' \<mapsto> version))) (\<lambda>(ok, pm).
                 let p1 = p\<lparr>ps_paramMap := pm\<rparr>
                 in if \<not> ok then Inr (web_error up web_unimplemented p1)
                    else let p2 = p1\<lparr>ps_paramMap := pm(''Connection'' \<mapsto> web_param ''Connection'' p1)\<rparr>
                         in bind_r (responseRequest conf fs ca up path mime p2) (\<lambda>(acts, p3).
                              Inr (SetContextkv ''connectionFlag'' (web_param ''Connection'' p2) # acts, p3)))))"

definition parse_file :: "web_config \<Rightarrow> file_system \<Rightarrow> web_cache \<Rightarrow> bool \<Rightarrow> string \<Rightarrow> string \<Rightarrow> web_parser \<Rightarrow>
    (web_act list \<times> web_parser) res" where
  "parse_file conf fs ca up path s p =
     (case fs_stat fs path of
        None \<Rightarrow> Inr (web_error up web_not_found p)
      | Some mode \<Rightarrow>
          if \<not> can_read mode then Inr (web_error up web_not_autho p)
          else bind_r (if is_dir mode then into_path (wc_base_path conf @ wc_index_path conf) else Inr path) (\<lambda>path1.
            bind_r (mime_of path1) (\<lambda>mime.
              if wc_mimeType conf mime = None then Inr (web_error up web_unimplemented p)
              else parse_rest conf fs ca up path1 mime (skip_blanks s) p)))"

definition parserRequest :: "web_config \<Rightarrow> file_system \<Rightarrow> web_cache \<Rightarrow> bool \<Rightarrow> string \<Rightarrow> web_parser \<Rightarrow>
    (web_act list \<times> web_parser) res" where
  "parserRequest conf fs ca up request p =
     bind_r (method_loop request 0) (\<lambda>m.
       if map lower (c_chars m) \<noteq> ''get'' then Inr (web_error up web_unimplemented p)
       else
         (let s = skip_spaces (drop (length m) request); url = url_loop 0 s
          in bind_r (make_path conf url) (\<lambda>path.
               bind_r (parse_file conf fs ca up path (drop (length url) s) p) (\<lambda>(acts, p1).
                 Inr (SetContextkv ''file'' path # acts, p1)))))"

section \<open>The compressor is there when Redis is\<close>

text \<open>So \<^verbatim>\<open>g_zlib\<close> is never a null pointer when it is used.\<close>

definition redis_ok :: "web_parser \<Rightarrow> bool" where
  "redis_ok p \<longleftrightarrow> (ps_redisWell p \<longrightarrow> ps_zlib p)"

lemma redis_ok_update [simp]:
  "redis_ok (p\<lparr>ps_paramMap := pm\<rparr>) = redis_ok p"
  "redis_ok (p\<lparr>ps_response := r\<rparr>) = redis_ok p"
  "redis_ok (p\<lparr>ps_zlibMap := zm\<rparr>) = redis_ok p"
  "redis_ok (p\<lparr>ps_count := c\<rparr>) = redis_ok p"
  "redis_ok (p\<lparr>ps_redisWell := False\<rparr>)"
  "redis_ok (p\<lparr>ps_redisWell := False, ps_zlib := z\<rparr>)"
  by (simp_all add: redis_ok_def)

lemma redis_ok_send: "redis_ok p \<Longrightarrow> redis_ok (snd (web_send up bytes p))"
  by (simp add: web_send_def Let_def)

lemma redis_ok_error: "redis_ok p \<Longrightarrow> redis_ok (snd (web_error up page p))"
  using redis_ok_send [of p up page] by (auto simp: web_error_def split: prod.splits)

definition keeps_redis :: "('a \<times> web_parser) res \<Rightarrow> bool" where
  "keeps_redis m \<longleftrightarrow> (\<forall>x p. m = Inr (x, p) \<longrightarrow> redis_ok p)"

lemma keeps_redis_simps [simp]: "keeps_redis (Inl e)" "keeps_redis (Inr (x, p)) = redis_ok p"
  by (simp_all add: keeps_redis_def)

lemma keeps_redis_error [simp]: "redis_ok p \<Longrightarrow> keeps_redis (Inr (web_error up page p))"
  using redis_ok_error [of p up page] by (auto simp: keeps_redis_def)

lemma keeps_redis_bind: "(\<And>x. m = Inr x \<Longrightarrow> keeps_redis (f x)) \<Longrightarrow> keeps_redis (bind_r m f)"
  by (cases m) simp_all

lemma keeps_redis_bind2: "keeps_redis m \<Longrightarrow> (\<And>x p. redis_ok p \<Longrightarrow> keeps_redis (f (x, p))) \<Longrightarrow> keeps_redis (bind_r m f)"
  by (cases m) (auto simp: keeps_redis_def)

lemma redis_ok_cache:
  assumes "redis_ok p" and "web_from_cache conf fs ca g_file p = Inr (acts, got, p')"
  shows "redis_ok p'"
  using assms unfolding web_from_cache_def web_fill_cache_def web_reconn_def bind_r_def Let_def
  by (auto split: if_splits option.splits sum.splits)

lemma redis_ok_answer: "redis_ok p \<Longrightarrow> redis_ok (snd (web_answer conf fs up g_file mime got p))"
  by (auto simp: web_answer_def web_send_def Let_def split: option.splits)

lemma responseRequest_redis: "redis_ok p \<Longrightarrow> keeps_redis (responseRequest conf fs ca up g_file mime p)"
  unfolding responseRequest_def
proof (rule keeps_redis_bind, clarify)
  fix acts got p1 assume "redis_ok p" "web_from_cache conf fs ca g_file p = Inr (acts, got, p1)"
  then have "redis_ok p1" by (rule redis_ok_cache)
  from redis_ok_answer [OF this] show "keeps_redis (let (acts', p2) = web_answer conf fs up g_file mime got p1 in Inr (acts @ acts', p2))"
    by (simp add: split_def Let_def)
qed

lemma parse_rest_redis: "redis_ok p \<Longrightarrow> keeps_redis (parse_rest conf fs ca up path mime s p)"
  unfolding parse_rest_def Let_def
  by (auto intro!: keeps_redis_bind [of "header_loop _ _"] keeps_redis_bind2 [of "responseRequest _ _ _ _ _ _ _"] responseRequest_redis)

lemma parse_file_redis: "redis_ok p \<Longrightarrow> keeps_redis (parse_file conf fs ca up path s p)"
  unfolding parse_file_def by (auto intro!: keeps_redis_bind parse_rest_redis split: option.splits)

lemma parserRequest_redis: "redis_ok p \<Longrightarrow> keeps_redis (parserRequest conf fs ca up request p)"
  unfolding parserRequest_def Let_def
  by (auto intro!: keeps_redis_bind [of "method_loop _ _"] keeps_redis_bind [of "make_path _ _"]
      keeps_redis_bind2 [of "parse_file _ _ _ _ _ _ _"] parse_file_redis)

lemma retry_redis:
  "redis_ok p \<Longrightarrow> redis_ok (snd (retryInLoop r p))"
  "redis_ok p \<Longrightarrow> redis_ok (snd (connectRedis c p))"
  "redis_ok (Parser_new c)"
  by (auto simp: retryInLoop_def connectRedis_def Parser_new_def Let_def redis_ok_def)

section \<open>Well-formed requests\<close>

definition header_lines :: "(string \<times> string) list \<Rightarrow> string" where
  "header_lines hs = concat (map (\<lambda>(k, v). k @ '': '' @ v @ kCRLF) hs)"

definition request_line :: "string \<Rightarrow> string \<Rightarrow> string" where
  "request_line url version = ''GET '' @ url @ '' HTTP/'' @ version @ kCRLF"

definition web_request :: "string \<Rightarrow> string \<Rightarrow> (string \<times> string) list \<Rightarrow> string" where
  "web_request url version hs = request_line url version @ header_lines hs @ kCRLF"

definition headers_ok :: "(string \<times> string) list \<Rightarrow> bool" where
  "headers_ok hs \<longleftrightarrow> (\<forall>(k, v) \<in> set hs. CR \<notin> set k \<and> CHR '':'' \<notin> set k \<and> CR \<notin> set v)"

definition add_headers :: "(string \<times> string) list \<Rightarrow> (string \<Rightarrow> string option) \<Rightarrow> string \<Rightarrow> string option" where
  "add_headers hs pm = fold (\<lambda>(k, v) pm. pm(k \<mapsto> v)) hs pm"

definition url_ok :: "string \<Rightarrow> bool" where
  "url_ok url \<longleftrightarrow> url \<noteq> [] \<and> length url \<le> 254 \<and> (\<forall>c \<in> set url. \<not> c_isspace c \<and> c \<noteq> CHR 0x00)"

text \<open>The file a request names: readable, not a directory, of a known type.\<close>

definition names_file :: "web_config \<Rightarrow> file_system \<Rightarrow> string \<Rightarrow> string \<Rightarrow> bool" where
  "names_file conf fs url mime \<longleftrightarrow>
     (let path = wc_base_path conf @ url
      in length path < 255 \<and> last path \<noteq> CHR ''/'' \<and> CHR ''.'' \<in> set path \<and> mime = rev (takeWhile (\<lambda>c. c \<noteq> CHR ''.'') (rev path)) \<and>
         wc_mimeType conf mime \<noteq> None \<and> (\<exists>mode. fs_stat fs path = Some mode \<and> can_read mode \<and> \<not> is_dir mode))"

lemma search_line: "CR \<notin> set l \<Longrightarrow> std_search kCRLF (l @ CR # LF # rest) = length l"
  by (induction l) (auto simp: kCRLF_def)

lemma header_loop_line:
  assumes "CR \<notin> set l"
  shows "header_loop (l @ CR # LF # rest) pm =
    (let colon = std_find (CHR '':'') l
     in if colon < length l
        then (if colon + 2 \<le> length l then header_loop rest (pm(take colon l \<mapsto> drop (colon + 2) l))
              else Inl (Undefined ''string(colon + 2, crlf)''))
        else Inr (rest = [], pm))"
  by (subst header_loop.simps) (simp add: search_line [OF assms] Let_def del: std_find_less_iff)

lemma add_headers_Cons: "add_headers ((k, v) # hs) pm = add_headers hs (pm(k \<mapsto> v))"
  by (simp add: add_headers_def)

lemma header_loop_lines:
  "headers_ok hs \<Longrightarrow> header_loop (header_lines hs @ rest) pm = header_loop rest (add_headers hs pm)"
proof (induction hs arbitrary: pm)
  case Nil
  show ?case by (simp add: header_lines_def add_headers_def)
next
  case (Cons h hs)
  obtain k v where h: "h = (k, v)" by fastforce
  let ?l = "k @ '': '' @ v" and ?rest = "header_lines hs @ rest"
  have kv: "CR \<notin> set k" "CHR '':'' \<notin> set k" "CR \<notin> set v" and hs: "headers_ok hs"
    using Cons.prems by (auto simp: headers_ok_def h)
  have shape: "header_lines (h # hs) @ rest = ?l @ CR # LF # ?rest" by (simp add: header_lines_def h kCRLF_def)
  have cr: "CR \<notin> set ?l" using kv by simp
  have colon: "std_find (CHR '':'') ?l = length k" using kv(2) by (simp add: std_find_append)
  have "header_loop (?l @ CR # LF # ?rest) pm = header_loop ?rest (pm(k \<mapsto> v))"
    unfolding header_loop_line [OF cr] Let_def colon by simp
  then show ?case using Cons.IH [OF hs, of "pm(k \<mapsto> v)"] unfolding shape by (simp only: h add_headers_Cons)
qed

lemma header_loop_done [simp]: "header_loop kCRLF pm = Inr (True, pm)"
  using header_loop_line [of "[]" "[]" pm] by (simp add: kCRLF_def)

lemma parse_rest_version:
  assumes "version \<in> {''1.0'', ''1.1'', ''2.0''}"
  shows "parse_rest conf fs ca up path mime (''HTTP/'' @ version @ CR # LF # s) p =
    bind_r (header_loop s ((ps_paramMap p)(''version'' \<mapsto> version))) (\<lambda>(ok, pm).
      let p1 = p\<lparr>ps_paramMap := pm\<rparr>
      in if \<not> ok then Inr (web_error up web_unimplemented p1)
         else let p2 = p1\<lparr>ps_paramMap := pm(''Connection'' \<mapsto> web_param ''Connection'' p1)\<rparr>
              in bind_r (responseRequest conf fs ca up path mime p2) (\<lambda>(acts, p3).
                   Inr (SetContextkv ''connectionFlag'' (web_param ''Connection'' p2) # acts, p3)))"
proof -
  have v: "length version = 3" "CR \<notin> set version" using assms by auto
  obtain l where l: "l = ''HTTP/'' @ version" by blast
  then have "length l = 8" "CR \<notin> set l" "take 5 l = ''HTTP/''" "drop 5 l = version" using v by simp_all
  then show ?thesis
    using assms search_line [of l s] by (simp add: parse_rest_def Let_def l [symmetric] append_assoc [symmetric] del: append_assoc append_Cons) auto
qed

lemma method_loop_word:
  "\<forall>c \<in> set m. \<not> c_isspace c \<Longrightarrow> c_isspace sp \<Longrightarrow> length xs + length m \<le> 15 \<Longrightarrow>
     method_loop (xs @ m @ sp # rest) (length xs) = Inr m"
proof (induction m arbitrary: xs)
  case Nil
  then show ?case by (subst method_loop.simps) (simp add: req_at_def)
next
  case (Cons c m)
  from Cons.IH [of "xs @ [c]"] Cons.prems have "method_loop (xs @ c # m @ sp # rest) (Suc (length xs)) = Inr m" by simp
  with Cons.prems show ?case by (subst method_loop.simps) (simp add: req_at_def)
qed

lemma lower_get: "map lower (c_chars ''GET'') = ''get''"
  by code_simp

lemma url_loop_word: "CHR '' '' \<notin> set url \<Longrightarrow> i + length url \<le> 254 \<Longrightarrow> url_loop i (url @ CHR '' '' # rest) = url"
  by (induction url arbitrary: i) auto

lemma parserRequest_line:
  assumes url: "url_ok url" and named: "names_file conf fs url mime"
  defines "path \<equiv> wc_base_path conf @ url"
  shows "parserRequest conf fs ca up (request_line url version @ s) p =
    bind_r (parse_rest conf fs ca up path mime (''HTTP/'' @ version @ CR # LF # s) p) (\<lambda>(acts, p').
      Inr (SetContextkv ''file'' path # acts, p'))"
proof -
  have sp: "c_isspace (CHR '' '')" by (simp add: c_isspace_def)
  have u: "url \<noteq> []" "length url \<le> 254" "CHR '' '' \<notin> set url" "CHR 0x00 \<notin> set url" "\<not> c_isspace (hd url)"
    using url sp by (auto simp: url_ok_def)
  let ?rest = "''HTTP/'' @ version @ CR # LF # s" and ?r = "request_line url version @ s"
  have r: "?r = [] @ ''GET'' @ CHR '' '' # url @ CHR '' '' # ?rest"
    by (simp add: request_line_def kCRLF_def)
  have m: "method_loop ?r 0 = Inr ''GET''"
    using method_loop_word [of "''GET''" "CHR '' ''" "[]" "url @ CHR '' '' # ?rest"] sp by (simp add: r c_isspace_def)
  have skip: "skip_spaces (drop (Suc (Suc (Suc 0))) ?r) = url @ CHR '' '' # ?rest"
    using u(1,5) sp by (cases url) (simp_all add: request_line_def kCRLF_def)
  have url': "url_loop 0 (url @ CHR '' '' # ?rest) = url" using u(2,3) by (intro url_loop_word) simp_all
  have "c_chars url = url" using u(4) unfolding c_chars_def takeWhile_eq_all_conv by blast
  then have path: "make_path conf url = Inr path"
    using named u(1) by (simp add: make_path_def into_path_def names_file_def Let_def path_def)
  have blanks: "skip_blanks (CHR '' '' # ?rest) = ?rest" by simp
  have "parse_file conf fs ca up path (CHR '' '' # ?rest) p = parse_rest conf fs ca up path mime ?rest p"
    using named blanks by (auto simp: parse_file_def names_file_def Let_def path_def mime_of_def)
  with m skip url' path show ?thesis
    by (simp add: parserRequest_def lower_get [simplified] Let_def split_def)
qed

text \<open>What the parser makes of a well-formed request: the headers are added to those it knows.\<close>

lemma parserRequest_wellformed:
  fixes p :: web_parser
  assumes "url_ok url" and "names_file conf fs url mime" and "version \<in> {''1.0'', ''1.1'', ''2.0''}" and "headers_ok hs"
  defines "path \<equiv> wc_base_path conf @ url" and "pm \<equiv> add_headers hs ((ps_paramMap p)(''version'' \<mapsto> version))"
  defines "flag \<equiv> (case pm ''Connection'' of None \<Rightarrow> [] | Some v \<Rightarrow> v)"
  shows "parserRequest conf fs ca up (web_request url version hs) p =
    bind_r (responseRequest conf fs ca up path mime (p\<lparr>ps_paramMap := pm(''Connection'' \<mapsto> flag)\<rparr>)) (\<lambda>(acts, p').
      Inr (SetContextkv ''file'' path # SetContextkv ''connectionFlag'' flag # acts, p'))"
  using parserRequest_line [OF assms(1,2), of ca up version "header_lines hs @ kCRLF" p]
    parse_rest_version [OF assms(3), of conf fs ca up path mime "header_lines hs @ kCRLF" p] header_loop_lines [OF assms(4)]
  by (simp add: web_request_def path_def [symmetric] Let_def web_param_def bind_r_assoc split_def
      pm_def [symmetric] flag_def [symmetric])

section \<open>Answers\<close>

lemma int_size_small: "n < 2 ^ 31 \<Longrightarrow> int_size n = int n"
  by (simp add: int_size_def signed_of_nat signed_take_bit_int_eq_self)

text \<open>The lines of an answer, and what follows the empty line: an answer to \<^verbatim>\<open>Connection: close\<close> has one line break too many.\<close>

definition web_lines :: "web_config \<Rightarrow> string \<Rightarrow> nat \<Rightarrow> web_parser \<Rightarrow> string list" where
  "web_lines conf mime n p =
     [''HTTP/'' @ web_param ''version'' p @ '' 200 OK'', ''Connection:'' @ web_param ''Connection'' p,
      ''Content-type:'' @ (case wc_mimeType conf mime of None \<Rightarrow> [] | Some t \<Rightarrow> t) @ '';charset=utf-8''] @
     (if web_param ''Connection'' p \<noteq> ''close'' then [''Content-Length:'' @ show_nat n] else [])"

definition web_body :: "web_parser \<Rightarrow> string \<Rightarrow> string" where
  "web_body p body = (if web_param ''Connection'' p \<noteq> ''close'' then body else kCRLF @ body)"

lemma web_header_read:
  assumes "n < 2 ^ 31" and "CR \<notin> set (web_param ''version'' p)" and "CR \<notin> set (web_param ''Connection'' p)"
    and "\<And>t. wc_mimeType conf mime = Some t \<Longrightarrow> CR \<notin> set t"
  shows "read_head (web_header conf mime (int_size n) p @ body) = Some (web_lines conf mime n p, web_body p body)"
proof -
  have "CR \<notin> set (show_nat n)" by (rule show_nat_no) simp_all
  then have clean: "\<forall>l \<in> set (web_lines conf mime n p). l \<noteq> [] \<and> CR \<notin> set l"
    using assms by (auto simp: web_lines_def split: option.splits)
  have text_of: "web_header conf mime (int_size n) p @ body =
      concat (map (\<lambda>l. l @ [CR, LF]) (web_lines conf mime n p)) @ [CR, LF] @ web_body p body"
    using assms(1) by (simp add: web_header_def web_lines_def web_body_def kCRLF_def int_size_small show_int_def)
  show ?thesis unfolding text_of by (rule read_head_lines [OF clean])
qed

text \<open>A file that is not kept in Redis: its first block is sent, the rest is left to \<^verbatim>\<open>writeComplete\<close>.\<close>

lemma responseRequest_file:
  assumes "g_file \<notin> set (wc_redis_vip conf)" and "fs_fopen fs g_file = Some content" and "content \<noteq> []"
  shows "responseRequest conf fs ca up g_file mime p =
    (let (sends, p') = web_send up (web_header conf mime (int_size (length content)) p @ take kWebBufSize content) p
     in Inr (SetContextfp (drop kWebBufSize content) # sends, p'))"
  using assms by (simp add: responseRequest_def web_answer_def web_from_cache_def Let_def kWebBufSize_def split: prod.splits)

text \<open>A file that is kept in Redis: it is stored there, and taken from there the next time.\<close>

lemma argv_bytes_all: "length s = 32 \<Longrightarrow> argv_bytes s 32 = Inr s"
  by (simp add: argv_bytes_def)

lemma responseRequest_fill:
  assumes "g_file \<in> set (wc_redis_vip conf)" and "ps_redisWell p" and "wc_urlTomd5 conf g_file = md5" and "length md5 = 32"
    and "hr_command ca [''get'', md5] = Some REDIS_REPLY_NIL"
    and "fs_fopen fs g_file = Some content" and "content \<noteq> []" and "length content < 2 ^ 31"
    and "zl_compress ca content MAXBUFFERSIZE = Some z" and "length z \<le> wc_redis_room conf (length content)"
  shows "responseRequest conf fs ca up g_file mime p =
    (let p1 = p\<lparr>ps_zlibMap := (ps_zlibMap p)(md5 \<mapsto> length content)\<rparr>;
         (sends, p') = web_send up (web_header conf mime (int_size (length content)) p1 @ content) p1
     in Inr (CancelWriteComplete # RedisCommand [''set'', md5, z] # sends @
               (if web_param ''Connection'' p1 = ''close'' then [WebShutdown] else []), p'))"
  using assms
  by (simp add: responseRequest_def web_answer_def web_from_cache_def web_fill_cache_def exeGET_def exeSET_def argv_bytes_all compressed_def
      Compress_def int_size_small Let_def split: prod.splits)

lemma responseRequest_hit:
  assumes "g_file \<in> set (wc_redis_vip conf)" and "ps_redisWell p" and "wc_urlTomd5 conf g_file = md5" and "length md5 = 32"
    and "hr_command ca [''get'', md5] = Some (REDIS_REPLY_STRING z)" and "z \<noteq> []"
    and "ps_zlibMap p md5 = Some (length content)" and "content \<noteq> []" and "zl_uncompress ca z (length content) = Some content"
  shows "responseRequest conf fs ca up g_file mime p =
    (let (sends, p') = web_send up (web_header conf mime (int_size (length content)) p @ content) p
     in Inr (CancelWriteComplete # sends @ (if web_param ''Connection'' p = ''close'' then [WebShutdown] else []), p'))"
  using assms
  by (simp add: responseRequest_def web_answer_def web_from_cache_def exeGET_def argv_bytes_all UnCompress_def Let_def split: prod.splits)

section \<open>Properties\<close>

text \<open>
  A header line that ends right after its colon makes the parser build a string from an
  inverted range: for any file that can be served, any headers before and any bytes after
  it, the request is a fault (in the GNU library an exception that ends the process).
\<close>

theorem header_without_value_faults:
  assumes "url_ok url" and "names_file conf fs url mime" and "version \<in> {''1.0'', ''1.1'', ''2.0''}" and "headers_ok hs"
    and "CR \<notin> set name" and "CHR '':'' \<notin> set name"
  shows "parserRequest conf fs ca up (request_line url version @ header_lines hs @ name @ '':'' @ kCRLF @ rest) p =
    Inl (Undefined ''string(colon + 2, crlf)'')"
proof -
  have "CR \<notin> set (name @ '':'')" using assms(5) by simp
  from header_loop_line [OF this, of rest] assms(6)
  have "header_loop (name @ '':'' @ kCRLF @ rest) pm = Inl (Undefined ''string(colon + 2, crlf)'')" for pm
    by (simp add: kCRLF_def std_find_append)
  then show ?thesis
    using parse_rest_version [OF assms(3)] header_loop_lines [OF assms(4)]
    by (simp add: parserRequest_line [OF assms(1,2)] del: append_Cons append_Nil)
qed

text \<open>A server with one page, for examples.\<close>

definition example_conf :: web_config where
  "example_conf = \<lparr>wc_base_path = ''/srv'', wc_index_path = ''/i.html'', wc_mimeType = [''html'' \<mapsto> ''text/html''],
     wc_redis_vip = [], wc_urlTomd5 = (\<lambda>_. []), wc_redis_room = (\<lambda>n. n)\<rparr>"

definition example_fs :: file_system where
  "example_fs = \<lparr>fs_stat = [''/srv/i.html'' \<mapsto> 0x81A4], fs_fopen = [''/srv/i.html'' \<mapsto> ''hello'']\<rparr>"

definition example_cache :: web_cache where
  "example_cache = \<lparr>hr_command = (\<lambda>_. None), zl_compress = (\<lambda>s _. Some s), zl_uncompress = (\<lambda>s _. Some s)\<rparr>"

lemma example_page: "names_file example_conf example_fs ''/i.html'' ''html''" "url_ok ''/i.html''"
  by (simp_all add: names_file_def example_conf_def example_fs_def can_read_def is_dir_def url_ok_def c_isspace_def)

theorem header_without_value_faults_witness:
  "parserRequest example_conf example_fs example_cache True (request_line ''/i.html'' ''1.1'' @ header_lines [] @ ''Host'' @ '':'' @ kCRLF @ kCRLF)
     (Parser_new None) = Inl (Undefined ''string(colon + 2, crlf)'')"
  by (rule header_without_value_faults [OF example_page(2,1)]) (simp_all add: headers_ok_def)

text \<open>
  An answer that could not be sent because its connection was closed meanwhile stays in the buffer
  of the parser: the next client served by this thread, whatever it asks for, gets
  the bytes meant for the first one, followed by its own answer.
\<close>

theorem unsent_answer_reaches_next_client:
  assumes "url_ok url" and "names_file conf fs url mime" and "version \<in> {''1.0'', ''1.1'', ''2.0''}" and "headers_ok hs"
    and "wc_base_path conf @ url \<notin> set (wc_redis_vip conf)" and "fs_fopen fs (wc_base_path conf @ url) = Some content" and "content \<noteq> []"
    and "url_ok url'" and "names_file conf fs url' mime'" and "version' \<in> {''1.0'', ''1.1'', ''2.0''}" and "headers_ok hs'"
    and "wc_base_path conf @ url' \<notin> set (wc_redis_vip conf)" and "fs_fopen fs (wc_base_path conf @ url') = Some content'" and "content' \<noteq> []"
  shows "\<exists>acts1 p1 acts2 p2 answer rest.
    parserRequest conf fs ca False (web_request url version hs) p = Inr (acts1, p1) \<and>
    parserRequest conf fs ca True (web_request url version hs) p = Inr (acts1 @ [SendBytes answer], p1\<lparr>ps_response := []\<rparr>) \<and>
    parserRequest conf fs ca True (web_request url' version' hs') p1 = Inr (acts2 @ [SendBytes (answer @ rest)], p2) \<and>
    answer \<noteq> [] \<and> rest \<noteq> []"
  by (simp add: parserRequest_wellformed [OF assms(1-4)] parserRequest_wellformed [OF assms(8-11)]
      responseRequest_file [OF assms(5-7)] responseRequest_file [OF assms(12-14)] web_send_def Let_def)
    (simp add: web_header_def)

theorem unsent_answer_reaches_next_client_witness:
  "\<exists>acts1 p1 acts2 p2 answer rest.
    parserRequest example_conf example_fs example_cache False (web_request ''/i.html'' ''1.1'' []) (Parser_new None) = Inr (acts1, p1) \<and>
    parserRequest example_conf example_fs example_cache True (web_request ''/i.html'' ''1.1'' []) (Parser_new None) =
      Inr (acts1 @ [SendBytes answer], p1\<lparr>ps_response := []\<rparr>) \<and>
    parserRequest example_conf example_fs example_cache True (web_request ''/i.html'' ''1.0'' []) p1 =
      Inr (acts2 @ [SendBytes (answer @ rest)], p2) \<and>
    answer \<noteq> [] \<and> rest \<noteq> []"
  by (rule unsent_answer_reaches_next_client [where content = "''hello''" and content' = "''hello''", OF example_page(2,1) _ _ _ _ _ example_page(2,1)])
    (simp_all add: headers_ok_def example_conf_def example_fs_def)

text \<open>
  Redis is transparent: what a request for a file kept there stores is what the next request is
  answered with, and both send the same bytes, whatever has become of the file in between.
  zlib is assumed to give back what it compressed.
\<close>

theorem cached_answer_same:
  assumes "g_file \<in> set (wc_redis_vip conf)" and "ps_redisWell p" and "wc_urlTomd5 conf g_file = md5" and "length md5 = 32"
    and "hr_command ca [''get'', md5] = Some REDIS_REPLY_NIL"
    and "fs_fopen fs g_file = Some content" and "content \<noteq> []" and "length content < 2 ^ 31"
    and "zl_compress ca content MAXBUFFERSIZE = Some z" and "length z \<le> wc_redis_room conf (length content)" and "z \<noteq> []"
    and "zl_uncompress ca' z (length content) = Some content" and "ps_response p = []"
    and "hr_command ca' [''get'', md5] = Some (REDIS_REPLY_STRING z)"
  shows "\<exists>p' answer closing.
    responseRequest conf fs ca True g_file mime p = Inr ([CancelWriteComplete, RedisCommand [''set'', md5, z], SendBytes answer] @ closing, p') \<and>
    responseRequest conf fs' ca' True g_file mime p' = Inr ([CancelWriteComplete, SendBytes answer] @ closing, p')"
proof -
  let ?p = "p\<lparr>ps_zlibMap := (ps_zlibMap p)(md5 \<mapsto> length content), ps_response := []\<rparr>"
  have "ps_redisWell ?p" "ps_zlibMap ?p md5 = Some (length content)" using assms(2) by simp_all
  note hit = responseRequest_hit [OF assms(1) this(1) assms(3,4,14,11) this(2) assms(7,12), of fs' True mime]
  have "web_header conf mime k ?p = web_header conf mime k p"
    "web_header conf mime k (p\<lparr>ps_zlibMap := (ps_zlibMap p)(md5 \<mapsto> length content)\<rparr>) = web_header conf mime k p" for k
    by (simp_all add: web_header_def web_param_def)
  with hit responseRequest_fill [OF assms(1-10), of True mime] assms(13) show ?thesis
    by (auto simp: web_send_def Let_def web_param_def)
qed

end
