(* ===== verification/StaticServers.thy ===== *)
theory StaticServers
  imports WebParsers
begin

text \<open>
  The static web server (\<^verbatim>\<open>webServer/staticServer.cpp\<close>): admission of connections, the wheel of
  buckets that closes idle ones, and the sending of a file block by block.

  An \<^verbatim>\<open>Entry\<close> is named by its connection; it lives as long as a bucket holds it, and its
  destructor closes the connection. A wheel is a full \<^verbatim>\<open>boost::circular_buffer\<close>, oldest bucket
  first, so \<^verbatim>\<open>push_back\<close> drops the first bucket. Each callback is one step; \<^verbatim>\<open>onTimer\<close> is called by the timer
  of each loop and advances the wheels of all loops.

  The properties: the wheels implement one idle counter per connection, whatever the order
  of arrivals, messages and ticks; a requested file reaches the client completely; what
  happens with several loops, and with none.
\<close>

section \<open>State\<close>

record static_conn =
  sc_loop :: nat
  sc_served :: bool      \<comment> \<open>the callbacks of the server are set and the context holds the entry\<close>
  sc_up :: bool          \<comment> \<open>the connection callback for its end has not come yet\<close>
  sc_connected :: bool   \<comment> \<open>\<^verbatim>\<open>connected()\<close>\<close>
  sc_forced :: bool      \<comment> \<open>\<^verbatim>\<open>forceClose\<close> was called\<close>

type_synonym bucket = "nat list"
type_synonym wheel = "bucket list"

record static_server =
  ss_wheels :: "wheel list"          \<comment> \<open>\<^verbatim>\<open>map_\<close>, by the number of the loop\<close>
  ss_numConnected :: int
  ss_conns :: "static_conn list"
  ss_tasks :: "nat list"             \<comment> \<open>the connections given to \<^verbatim>\<open>threadPool_.put\<close>\<close>

section \<open>Wheels\<close>

text \<open>\<^verbatim>\<open>back().insert(entry)\<close>.\<close>

definition wheel_insert :: "nat \<Rightarrow> wheel \<Rightarrow> wheel res" where
  "wheel_insert e w = (if w = [] then Inl (Undefined ''back()'') else Inr (butlast w @ [List.insert e (last w)]))"

text \<open>\<^verbatim>\<open>push_back(Bucket())\<close>, and the entries whose last reference it drops.\<close>

definition wheel_push :: "wheel \<Rightarrow> wheel" where
  "wheel_push w = (if w = [] then [] else tl w @ [[]])"

definition wheel_dropped :: "wheel \<Rightarrow> nat list" where
  "wheel_dropped w = (case w of [] \<Rightarrow> [] | b # bs \<Rightarrow> filter (\<lambda>e. e \<notin> set (concat bs)) b)"

section \<open>The server\<close>

definition StaticServer_start :: "nat \<Rightarrow> nat \<Rightarrow> static_server" where
  "StaticServer_start loopThreads idle =
     \<lparr>ss_wheels = replicate loopThreads (replicate idle []), ss_numConnected = 0, ss_conns = [], ss_tasks = []\<rparr>"

text \<open>\<^verbatim>\<open>map_[conn->getLoop()]->back().insert(entry)\<close>: a loop that is not in the map gets a null pointer.\<close>

definition ss_insert :: "nat \<Rightarrow> nat \<Rightarrow> static_server \<Rightarrow> static_server res" where
  "ss_insert l e s =
     (if l < length (ss_wheels s)
      then bind_r (wheel_insert e (ss_wheels s ! l)) (\<lambda>w. Inr (s\<lparr>ss_wheels := (ss_wheels s)[l := w]\<rparr>))
      else Inl (Undefined ''map_[conn->getLoop()]''))"

definition ss_onConnection_up :: "int \<Rightarrow> nat \<Rightarrow> static_server \<Rightarrow> static_server res" where
  "ss_onConnection_up kmaxConnections l s =
     (let s1 = s\<lparr>ss_numConnected := ss_numConnected s + 1\<rparr>;
          c = \<lparr>sc_loop = l, sc_served = False, sc_up = True, sc_connected = True, sc_forced = False\<rparr>
      in if ss_numConnected s1 \<ge> kmaxConnections
         then Inr (s1\<lparr>ss_conns := ss_conns s @ [c\<lparr>sc_connected := False, sc_forced := True\<rparr>]\<rparr>)
         else ss_insert l (length (ss_conns s)) (s1\<lparr>ss_conns := ss_conns s @ [c\<lparr>sc_served := True\<rparr>]\<rparr>))"

definition ss_onConnection_down :: "nat \<Rightarrow> static_server \<Rightarrow> static_server" where
  "ss_onConnection_down i s =
     s\<lparr>ss_numConnected := ss_numConnected s - 1,
       ss_conns := (ss_conns s)[i := (ss_conns s ! i)\<lparr>sc_up := False, sc_connected := False\<rparr>]\<rparr>"

text \<open>
  A message: the parsing is left to the pool. The entry is found through a weak pointer,
  so nothing is inserted when it is gone. The message callback of a connection that was
  turned away is still the default one.
\<close>

definition ss_onMessage :: "nat \<Rightarrow> static_server \<Rightarrow> static_server res" where
  "ss_onMessage i s =
     (let c = ss_conns s ! i; s1 = s\<lparr>ss_tasks := ss_tasks s @ [i]\<rparr>
      in if \<not> sc_served c then Inr s
         else if sc_loop c < length (ss_wheels s) \<and> i \<in> set (concat (ss_wheels s ! sc_loop c))
         then ss_insert (sc_loop c) i s1
         else Inr s1)"

text \<open>\<^verbatim>\<open>~Entry\<close>.\<close>

definition entry_delete :: "nat \<Rightarrow> static_conn list \<Rightarrow> static_conn list" where
  "entry_delete i cs =
     (if sc_connected (cs ! i) then cs[i := (cs ! i)\<lparr>sc_connected := False, sc_forced := True\<rparr>] else cs)"

definition ss_onTimer :: "static_server \<Rightarrow> static_server" where
  "ss_onTimer s =
     s\<lparr>ss_wheels := map wheel_push (ss_wheels s),
       ss_conns := fold entry_delete (concat (map wheel_dropped (ss_wheels s))) (ss_conns s)\<rparr>"

text \<open>What happens to the server; \<open>SsShutdown\<close> is a connection that stops being connected without being down.\<close>

datatype ss_event = SsUp nat | SsDown nat | SsMessage nat | SsShutdown nat | SsTick

fun ss_do :: "int \<Rightarrow> ss_event \<Rightarrow> static_server \<Rightarrow> static_server res" where
  "ss_do kmax (SsUp l) s = ss_onConnection_up kmax l s"
| "ss_do kmax (SsDown i) s = Inr (ss_onConnection_down i s)"
| "ss_do kmax (SsMessage i) s = ss_onMessage i s"
| "ss_do kmax (SsShutdown i) s = Inr (s\<lparr>ss_conns := (ss_conns s)[i := (ss_conns s ! i)\<lparr>sc_connected := False\<rparr>]\<rparr>)"
| "ss_do kmax SsTick s = Inr (ss_onTimer s)"

fun ss_run :: "int \<Rightarrow> ss_event list \<Rightarrow> static_server \<Rightarrow> static_server res" where
  "ss_run kmax [] s = Inr s"
| "ss_run kmax (e # es) s = bind_r (ss_do kmax e s) (ss_run kmax es)"

section \<open>Sending a file\<close>

text \<open>
  \<^verbatim>\<open>writeComplete\<close>: \<open>fp\<close> is the part of the open file not read yet, \<open>flag\<close> the header kept in the
  context. \<open>FClose\<close> and \<open>StopWrite\<close> are calls of \<^verbatim>\<open>fclose\<close> and \<^verbatim>\<open>stopWrite\<close>.
\<close>

datatype write_act = FileBlock string | FClose | StopWrite | FileShutdown

definition writeComplete :: "string \<Rightarrow> string option \<Rightarrow> write_act list \<times> string option" where
  "writeComplete flag fp =
     (case fp of
        None \<Rightarrow> ([StopWrite], None)
      | Some rest \<Rightarrow>
          (let nread = take kWebBufSize rest
           in if nread \<noteq> [] then ([FileBlock nread], Some (drop kWebBufSize rest))
              else ([FClose, StopWrite] @ (if flag = ''close'' then [FileShutdown] else []), None)))"

text \<open>The calls while each block is written completely.\<close>

function write_file :: "string \<Rightarrow> string \<Rightarrow> write_act list" where
  "write_file flag rest =
     (case writeComplete flag (Some rest) of
        (acts, None) \<Rightarrow> acts
      | (acts, Some rest') \<Rightarrow> acts @ write_file flag rest')"
  by auto
termination
  by (relation "measure (\<lambda>(flag, rest). length rest)")
    (auto simp: writeComplete_def Let_def kWebBufSize_def split: if_splits)

declare write_file.simps [simp del]

section \<open>Reference: one counter per connection\<close>

text \<open>
  Each connection counts the ticks since it arrived or sent something, up to the limit
  \<open>n\<close>; reaching the limit closes it, if it is still connected.
\<close>

record idle_conn =
  ic_loop :: nat
  ic_served :: bool
  ic_up :: bool
  ic_connected :: bool
  ic_forced :: bool
  ic_idle :: nat

definition idle_tick :: "nat \<Rightarrow> idle_conn \<Rightarrow> idle_conn" where
  "idle_tick n c =
     (if ic_served c \<and> ic_idle c < n
      then (if ic_idle c + 1 = n \<and> ic_connected c then c\<lparr>ic_idle := n, ic_connected := False, ic_forced := True\<rparr>
            else c\<lparr>ic_idle := ic_idle c + 1\<rparr>)
      else c)"

definition count_up :: "idle_conn list \<Rightarrow> nat" where
  "count_up cs = length (filter ic_up cs)"

fun idle_do :: "nat \<Rightarrow> int \<Rightarrow> ss_event \<Rightarrow> idle_conn list \<Rightarrow> idle_conn list" where
  "idle_do n kmax (SsUp l) cs =
     cs @ [if int (count_up cs) + 1 \<ge> kmax
           then \<lparr>ic_loop = l, ic_served = False, ic_up = True, ic_connected = False, ic_forced = True, ic_idle = 0\<rparr>
           else \<lparr>ic_loop = l, ic_served = True, ic_up = True, ic_connected = True, ic_forced = False, ic_idle = 0\<rparr>]"
| "idle_do n kmax (SsDown i) cs = cs[i := (cs ! i)\<lparr>ic_up := False, ic_connected := False\<rparr>]"
| "idle_do n kmax (SsMessage i) cs = 
     (if ic_served (cs ! i) \<and> ic_idle (cs ! i) < n then cs[i := (cs ! i)\<lparr>ic_idle := 0\<rparr>] else cs)"
| "idle_do n kmax (SsShutdown i) cs = cs[i := (cs ! i)\<lparr>ic_connected := False\<rparr>]"
| "idle_do n kmax SsTick cs = map (idle_tick n) cs"

text \<open>What can happen next: connections arrive at one of the loops, and end once.\<close>

fun idle_may :: "nat \<Rightarrow> ss_event \<Rightarrow> idle_conn list \<Rightarrow> bool" where
  "idle_may loops (SsUp l) cs = (l < loops)"
| "idle_may loops (SsDown i) cs = (i < length cs \<and> ic_up (cs ! i))"
| "idle_may loops (SsMessage i) cs = (i < length cs \<and> ic_up (cs ! i))"
| "idle_may loops (SsShutdown i) cs = (i < length cs \<and> ic_up (cs ! i))"
| "idle_may loops SsTick cs = True"

fun idle_run :: "nat \<Rightarrow> int \<Rightarrow> ss_event list \<Rightarrow> idle_conn list \<Rightarrow> idle_conn list" where
  "idle_run n kmax [] cs = cs"
| "idle_run n kmax (e # es) cs = idle_run n kmax es (idle_do n kmax e cs)"

fun idle_history :: "nat \<Rightarrow> nat \<Rightarrow> int \<Rightarrow> ss_event list \<Rightarrow> idle_conn list \<Rightarrow> bool" where
  "idle_history loops n kmax [] cs = True"
| "idle_history loops n kmax (e # es) cs \<longleftrightarrow> idle_may loops e cs \<and> idle_history loops n kmax es (idle_do n kmax e cs)"

text \<open>What a connection of the reference looks like to the server.\<close>

definition conn_view :: "idle_conn \<Rightarrow> static_conn" where
  "conn_view c = \<lparr>sc_loop = ic_loop c, sc_served = ic_served c, sc_up = ic_up c, sc_connected = ic_connected c,
     sc_forced = ic_forced c\<rparr>"

section \<open>The wheels follow the counters\<close>

definition wheel_ok :: "nat \<Rightarrow> nat \<Rightarrow> idle_conn list \<Rightarrow> wheel \<Rightarrow> bool" where
  "wheel_ok n l cs w \<longleftrightarrow>
     length w = n \<and>
     (\<forall>k < n. \<forall>i \<in> set (w ! k). i < length cs \<and> ic_loop (cs ! i) = l \<and> ic_served (cs ! i) \<and> k + ic_idle (cs ! i) < n) \<and>
     (\<forall>i < length cs. ic_loop (cs ! i) = l \<and> ic_served (cs ! i) \<and> ic_idle (cs ! i) < n \<longrightarrow>
        i \<in> set (w ! (n - 1 - ic_idle (cs ! i))))"

lemma wheel_okI:
  assumes "length w = n"
    and "\<And>k i. k < n \<Longrightarrow> i \<in> set (w ! k) \<Longrightarrow>
      i < length cs \<and> ic_loop (cs ! i) = l \<and> ic_served (cs ! i) \<and> k + ic_idle (cs ! i) < n"
    and "\<And>i. i < length cs \<Longrightarrow> ic_loop (cs ! i) = l \<Longrightarrow> ic_served (cs ! i) \<Longrightarrow> ic_idle (cs ! i) < n \<Longrightarrow>
      i \<in> set (w ! (n - 1 - ic_idle (cs ! i)))"
  shows "wheel_ok n l cs w"
  using assms by (auto simp: wheel_ok_def)

lemma wheel_okD:
  assumes "wheel_ok n l cs w"
  shows "length w = n"
    and "k < n \<Longrightarrow> i \<in> set (w ! k) \<Longrightarrow>
      i < length cs \<and> ic_loop (cs ! i) = l \<and> ic_served (cs ! i) \<and> k + ic_idle (cs ! i) < n"
    and "i < length cs \<Longrightarrow> ic_loop (cs ! i) = l \<Longrightarrow> ic_served (cs ! i) \<Longrightarrow> ic_idle (cs ! i) < n \<Longrightarrow>
      i \<in> set (w ! (n - 1 - ic_idle (cs ! i)))"
  using assms by (auto simp: wheel_ok_def)

text \<open>Connections of other loops, and what the wheels do not depend on, may change.\<close>

definition same_idle :: "idle_conn \<Rightarrow> idle_conn \<Rightarrow> bool" where
  "same_idle c d \<longleftrightarrow> ic_loop d = ic_loop c \<and> ic_served d = ic_served c \<and> ic_idle d = ic_idle c"

lemma wheel_frame:
  assumes w: "wheel_ok n l cs w" and len: "length cs \<le> length cs'"
    and same: "\<And>j. j < length cs' \<Longrightarrow> (j < length cs \<and> same_idle (cs ! j) (cs' ! j)) \<or>
      (\<not> (ic_loop (cs' ! j) = l \<and> ic_served (cs' ! j)) \<and> (j < length cs \<longrightarrow> ic_loop (cs ! j) \<noteq> l))"
  shows "wheel_ok n l cs' w"
proof (rule wheel_okI)
  show "length w = n" by (rule wheel_okD(1) [OF w])
next
  fix k i assume "k < n" "i \<in> set (w ! k)"
  from wheel_okD(2) [OF w this] show "i < length cs' \<and> ic_loop (cs' ! i) = l \<and> ic_served (cs' ! i) \<and> k + ic_idle (cs' ! i) < n"
    using len same [of i] by (auto simp: same_idle_def)
next
  fix i assume "i < length cs'" "ic_loop (cs' ! i) = l" "ic_served (cs' ! i)" "ic_idle (cs' ! i) < n"
  then show "i \<in> set (w ! (n - 1 - ic_idle (cs' ! i)))"
    using same [of i] wheel_okD(3) [OF w, of i] by (auto simp: same_idle_def)
qed

lemma butlast_update: "w \<noteq> [] \<Longrightarrow> butlast w @ [x] = w[length w - 1 := x]"
  by (induction w rule: rev_induct) auto

lemma wheel_insert_ok:
  assumes w: "wheel_ok n l cs w" and "0 < n" and i: "i < length cs'" and len: "length cs \<le> length cs'"
    and same: "\<And>j. j < length cs' \<Longrightarrow> j \<noteq> i \<Longrightarrow> j < length cs \<and> cs' ! j = cs ! j"
    and c: "ic_loop (cs' ! i) = l" "ic_served (cs' ! i)" "ic_idle (cs' ! i) = 0"
  obtains w' where "wheel_insert i w = Inr w'" and "wheel_ok n l cs' w'"
proof -
  let ?w = "w[n - 1 := List.insert i (w ! (n - 1))]"
  have ne: "w \<noteq> []" using \<open>0 < n\<close> wheel_okD(1) [OF w] by auto
  note [simp] = wheel_okD(1) [OF w]
  then have "wheel_insert i w = Inr ?w"
    using ne by (simp add: wheel_insert_def butlast_update last_conv_nth)
  moreover have "wheel_ok n l cs' ?w"
  proof (rule wheel_okI)
    show "length ?w = n" by simp
  next
    fix k j assume k: "k < n" and j: "j \<in> set (?w ! k)"
    show "j < length cs' \<and> ic_loop (cs' ! j) = l \<and> ic_served (cs' ! j) \<and> k + ic_idle (cs' ! j) < n"
    proof (cases "j = i")
      case False
      with j k have "j \<in> set (w ! k)" by (auto simp: nth_list_update split: if_splits)
      with wheel_okD(2) [OF w k this] same [of j] False len show ?thesis by auto
    qed (use i c k in simp)
  next
    fix j assume j: "j < length cs'" "ic_loop (cs' ! j) = l" "ic_served (cs' ! j)" "ic_idle (cs' ! j) < n"
    show "j \<in> set (?w ! (n - 1 - ic_idle (cs' ! j)))"
    proof (cases "j = i")
      case False
      with same [of j] j wheel_okD(3) [OF w, of j] show ?thesis by (auto simp: nth_list_update)
    qed (use c \<open>0 < n\<close> in simp)
  qed
  ultimately show thesis by (rule that)
qed

lemma idle_tick_simps [simp]:
  "ic_loop (idle_tick n c) = ic_loop c"
  "ic_served (idle_tick n c) = ic_served c"
  "ic_up (idle_tick n c) = ic_up c"
  "ic_idle (idle_tick n c) = (if ic_served c \<and> ic_idle c < n then ic_idle c + 1 else ic_idle c)"
  by (simp_all add: idle_tick_def)

lemma wheel_push_ok:
  assumes w: "wheel_ok n l cs w" and "0 < n"
  shows "wheel_ok n l (map (idle_tick n) cs) (wheel_push w)"
proof -
  have len: "length w = n" by (rule wheel_okD(1) [OF w])
  then have push: "wheel_push w ! k = (if Suc k < n then w ! Suc k else [])" if "k < n" for k
    using that by (cases w) (auto simp: wheel_push_def nth_append)
  show ?thesis
  proof (rule wheel_okI)
    show "length (wheel_push w) = n" using len \<open>0 < n\<close> by (cases w) (simp_all add: wheel_push_def)
  next
    fix k i assume k: "k < n" and i: "i \<in> set (wheel_push w ! k)"
    with push have "Suc k < n" "i \<in> set (w ! Suc k)" by (auto split: if_splits)
    from wheel_okD(2) [OF w this] show "i < length (map (idle_tick n) cs) \<and> ic_loop (map (idle_tick n) cs ! i) = l \<and>
      ic_served (map (idle_tick n) cs ! i) \<and> k + ic_idle (map (idle_tick n) cs ! i) < n" by auto
  next
    fix i assume i: "i < length (map (idle_tick n) cs)" and p: "ic_loop (map (idle_tick n) cs ! i) = l"
      "ic_served (map (idle_tick n) cs ! i)" "ic_idle (map (idle_tick n) cs ! i) < n"
    then have "Suc (ic_idle (cs ! i)) < n" "i \<in> set (w ! (n - 1 - ic_idle (cs ! i)))"
      using wheel_okD(3) [OF w, of i] by (auto split: if_splits)
    with i p push [of "n - 1 - Suc (ic_idle (cs ! i))"]
    show "i \<in> set (wheel_push w ! (n - 1 - ic_idle (map (idle_tick n) cs ! i)))"
      by (simp add: Suc_diff_Suc)
  qed
qed

lemma wheel_alive:
  assumes "wheel_ok n l cs w" and "i < length cs" and "ic_loop (cs ! i) = l" and "ic_served (cs ! i)"
  shows "i \<in> set (concat w) \<longleftrightarrow> ic_idle (cs ! i) < n"
proof
  assume "i \<in> set (concat w)"
  then obtain k where "k < length w" "i \<in> set (w ! k)" by (auto simp: in_set_conv_nth [of _ w])
  with wheel_okD(1,2) [OF assms(1)] show "ic_idle (cs ! i) < n" by fastforce
next
  assume idle: "ic_idle (cs ! i) < n"
  have len: "length w = n" by (rule wheel_okD(1) [OF assms(1)])
  from idle len have "w ! (n - 1 - ic_idle (cs ! i)) \<in> set w" by (intro nth_mem) simp
  moreover have "i \<in> set (w ! (n - 1 - ic_idle (cs ! i)))" by (rule wheel_okD(3) [OF assms idle])
  ultimately show "i \<in> set (concat w)" by auto
qed

lemma wheel_dropped_set:
  assumes w: "wheel_ok n l cs w" and "0 < n"
  shows "set (wheel_dropped w) = {i. i < length cs \<and> ic_loop (cs ! i) = l \<and> ic_served (cs ! i) \<and> ic_idle (cs ! i) + 1 = n}"
proof -
  obtain b bs where bs: "w = b # bs" using wheel_okD(1) [OF w] \<open>0 < n\<close> by (cases w) auto
  have n: "n = Suc (length bs)" using wheel_okD(1) [OF w] bs by simp
  have first: "i < length cs \<and> ic_loop (cs ! i) = l \<and> ic_served (cs ! i) \<and> ic_idle (cs ! i) < n" if "i \<in> set b" for i
    using wheel_okD(2) [OF w, of 0 i] that bs n by simp
  have later: "i \<in> set (concat bs) \<longleftrightarrow> ic_idle (cs ! i) + 1 < n"
    if "i < length cs" "ic_loop (cs ! i) = l" "ic_served (cs ! i)" for i
  proof
    assume "i \<in> set (concat bs)"
    then obtain k where "k < length bs" "i \<in> set (bs ! k)" by (auto simp: in_set_conv_nth [of _ bs])
    with wheel_okD(2) [OF w, of "Suc k" i] n bs show "ic_idle (cs ! i) + 1 < n" by simp
  next
    assume idle: "ic_idle (cs ! i) + 1 < n"
    with wheel_okD(3) [OF w, of i] that n bs have "i \<in> set (bs ! (n - 1 - Suc (ic_idle (cs ! i))))"
      by (simp add: nth_Cons' Suc_diff_Suc)
    moreover have "bs ! (n - 1 - Suc (ic_idle (cs ! i))) \<in> set bs" using idle n by (intro nth_mem) simp
    ultimately show "i \<in> set (concat bs)" by auto
  qed
  show ?thesis
  proof (intro equalityI subsetI; clarsimp)
    fix i assume "i \<in> set (wheel_dropped w)"
    then have "i \<in> set b" "i \<notin> set (concat bs)" by (simp_all add: wheel_dropped_def bs)
    with first later show "i < length cs \<and> ic_loop (cs ! i) = l \<and> ic_served (cs ! i) \<and> Suc (ic_idle (cs ! i)) = n"
      by (metis Suc_eq_plus1 Suc_lessI)
  next
    fix i assume i: "i < length cs" "ic_served (cs ! i)" "n = Suc (ic_idle (cs ! i))" "l = ic_loop (cs ! i)"
    with wheel_okD(3) [OF w, of i] have "i \<in> set b" by (simp add: bs)
    with later [of i] i show "i \<in> set (wheel_dropped w)" by (simp add: wheel_dropped_def bs)
  qed
qed

lemma entry_delete_length [simp]: "length (entry_delete i cs) = length cs"
  by (simp add: entry_delete_def)

lemma entry_delete_nth:
  "i < length cs \<Longrightarrow> entry_delete i cs ! j =
    (if j = i \<and> sc_connected (cs ! j) then (cs ! j)\<lparr>sc_connected := False, sc_forced := True\<rparr> else cs ! j)"
  by (auto simp: entry_delete_def nth_list_update)

lemma fold_entry_delete:
  "\<forall>i \<in> set is. i < length cs \<Longrightarrow> length (fold entry_delete is cs) = length cs \<and>
     fold entry_delete is cs ! j =
       (if j \<in> set is \<and> sc_connected (cs ! j) then (cs ! j)\<lparr>sc_connected := False, sc_forced := True\<rparr> else cs ! j)"
  by (induction "is" arbitrary: cs) (auto simp: entry_delete_nth)

text \<open>The relation between the server and the counters.\<close>

definition ss_sim :: "nat \<Rightarrow> nat \<Rightarrow> static_server \<Rightarrow> idle_conn list \<Rightarrow> bool" where
  "ss_sim loops n s cs \<longleftrightarrow>
     ss_conns s = map conn_view cs \<and> ss_numConnected s = int (count_up cs) \<and> length (ss_wheels s) = loops \<and>
     (\<forall>c \<in> set cs. ic_loop c < loops) \<and> (\<forall>l < loops. wheel_ok n l cs (ss_wheels s ! l))"

lemma conn_view_simps [simp]:
  "sc_loop (conn_view c) = ic_loop c" "sc_served (conn_view c) = ic_served c" "sc_up (conn_view c) = ic_up c"
  "sc_connected (conn_view c) = ic_connected c" "sc_forced (conn_view c) = ic_forced c"
  by (simp_all add: conn_view_def)

lemma ss_sim_start: "ss_sim loops n (StaticServer_start loops n) []"
  by (auto simp: ss_sim_def StaticServer_start_def count_up_def wheel_ok_def)

lemma count_up_append [simp]: "count_up (cs @ ds) = count_up cs + count_up ds"
  by (simp add: count_up_def)

lemma count_up_map_tick [simp]: "count_up (map (idle_tick n) cs) = count_up cs"
  by (simp add: count_up_def filter_map comp_def)

lemma count_up_update:
  "i < length cs \<Longrightarrow> ic_up (cs ! i) \<Longrightarrow>
     int (count_up (cs[i := c])) = int (count_up cs) - (if ic_up c then 0 else 1)"
proof -
  assume "i < length cs" "ic_up (cs ! i)"
  then show ?thesis
    by (subst (2) id_take_nth_drop [of i cs], simp, subst upd_conv_take_nth_drop)
      (simp_all add: count_up_def)
qed

text \<open>Updates that the wheels do not depend on.\<close>

lemma ss_sim_update:
  assumes "ss_sim loops n s cs" and "i < length cs" and "ic_up (cs ! i)" and "same_idle (cs ! i) c"
  shows "ss_sim loops n (s\<lparr>ss_numConnected := ss_numConnected s - (if ic_up c then 0 else 1),
    ss_conns := (ss_conns s)[i := conn_view c]\<rparr>) (cs[i := c])"
proof -
  have loop: "ic_loop c < loops" using assms(1,2,4) nth_mem [OF assms(2)] by (auto simp: ss_sim_def same_idle_def)
  have "wheel_ok n l (cs[i := c]) (ss_wheels s ! l)" if "l < loops" for l
    by (rule wheel_frame [of n l cs]) (use assms that in \<open>auto simp: ss_sim_def nth_list_update same_idle_def\<close>)
  with loop assms show ?thesis
    by (auto simp: ss_sim_def map_update count_up_update dest!: set_update_subset_insert [THEN subsetD])
qed

lemma ss_insert_sim:
  assumes sim: "ss_conns s = map conn_view cs'" "ss_numConnected s = int (count_up cs')" "length (ss_wheels s) = loops"
    and ok: "\<And>l. l < loops \<Longrightarrow> wheel_ok n l cs (ss_wheels s ! l)"
    and loops: "\<forall>c \<in> set cs'. ic_loop c < loops"
    and "0 < n" and i: "i < length cs'" and len: "length cs \<le> length cs'"
    and same: "\<And>j. j < length cs' \<Longrightarrow> j \<noteq> i \<Longrightarrow> j < length cs \<and> cs' ! j = cs ! j"
    and old: "i < length cs \<Longrightarrow> ic_loop (cs ! i) = ic_loop (cs' ! i)"
    and c: "ic_served (cs' ! i)" "ic_idle (cs' ! i) = 0"
  shows "returns (ss_insert (ic_loop (cs' ! i)) i s) (\<lambda>s'. ss_sim loops n s' cs')"
proof -
  let ?l = "ic_loop (cs' ! i)"
  have l: "?l < loops" using loops i by auto
  from wheel_insert_ok [OF ok [OF l] \<open>0 < n\<close> i len same refl c] obtain w'
    where w': "wheel_insert i (ss_wheels s ! ?l) = Inr w'" "wheel_ok n ?l cs' w'" by blast
  have "wheel_ok n l' cs' (ss_wheels s ! l')" if "l' < loops" "l' \<noteq> ?l" for l'
  proof (rule wheel_frame [OF ok [OF that(1)] len])
    fix j assume "j < length cs'"
    then show "(j < length cs \<and> same_idle (cs ! j) (cs' ! j)) \<or>
      (\<not> (ic_loop (cs' ! j) = l' \<and> ic_served (cs' ! j)) \<and> (j < length cs \<longrightarrow> ic_loop (cs ! j) \<noteq> l'))"
      using same [of j] that old by (cases "j = i") (auto simp: same_idle_def)
  qed
  with w' l sim loops show ?thesis
    by (auto simp: ss_insert_def returns_def ss_sim_def nth_list_update)
qed

text \<open>One lemma for each event.\<close>

lemma ss_up_sim:
  assumes sim: "ss_sim loops n s cs" and "0 < n" and l: "l < loops"
  shows "returns (ss_onConnection_up kmax l s) (\<lambda>s'. ss_sim loops n s' (idle_do n kmax (SsUp l) cs))"
proof (cases "int (count_up cs) + 1 \<ge> kmax")
  case True
  let ?c = "\<lparr>ic_loop = l, ic_served = False, ic_up = True, ic_connected = False, ic_forced = True, ic_idle = 0\<rparr>"
  have "wheel_ok n l' (cs @ [?c]) (ss_wheels s ! l')" if "l' < loops" for l'
    by (rule wheel_frame [of n l' cs]) (use sim that in \<open>auto simp: ss_sim_def same_idle_def nth_append\<close>)
  with True sim l show ?thesis
    by (auto simp: ss_onConnection_up_def Let_def returns_def ss_sim_def conn_view_def count_up_def)
next
  case False
  let ?c = "\<lparr>ic_loop = l, ic_served = True, ic_up = True, ic_connected = True, ic_forced = False, ic_idle = 0\<rparr>"
  let ?s = "s\<lparr>ss_numConnected := ss_numConnected s + 1, ss_conns := ss_conns s @ [conn_view ?c]\<rparr>"
  have "returns (ss_insert (ic_loop ((cs @ [?c]) ! length cs)) (length cs) ?s) (\<lambda>s'. ss_sim loops n s' (cs @ [?c]))"
    by (rule ss_insert_sim [of _ _ _ _ cs])
      (use sim l \<open>0 < n\<close> in \<open>auto simp: ss_sim_def nth_append count_up_def\<close>)
  with False sim show ?thesis
    by (simp add: ss_onConnection_up_def Let_def ss_sim_def conn_view_def)
qed

lemma ss_message_sim:
  assumes sim: "ss_sim loops n s cs" and "0 < n" and i: "i < length cs"
  shows "returns (ss_onMessage i s) (\<lambda>s'. ss_sim loops n s' (idle_do n kmax (SsMessage i) cs))"
proof -
  let ?c = "cs ! i"
  have loop: "ic_loop ?c < loops" using sim i by (auto simp: ss_sim_def)
  have alive: "i \<in> set (concat (ss_wheels s ! ic_loop ?c)) \<longleftrightarrow> ic_idle ?c < n" if "ic_served ?c"
    by (rule wheel_alive [OF _ i refl that]) (use sim loop in \<open>simp add: ss_sim_def\<close>)
  have keep: "ss_sim loops n (s\<lparr>ss_tasks := ts\<rparr>) cs" for ts using sim by (simp add: ss_sim_def)
  have up: "count_up (cs[i := ?c\<lparr>ic_idle := 0\<rparr>]) = count_up cs"
    by (subst (2) id_take_nth_drop [OF i], subst upd_conv_take_nth_drop [OF i]) (simp add: count_up_def)
  show ?thesis
  proof (cases "ic_served ?c \<and> ic_idle ?c < n")
    case True
    let ?cs = "cs[i := ?c\<lparr>ic_idle := 0\<rparr>]"
    have view: "map conn_view ?cs = map conn_view cs"
      using i by (intro nth_equalityI) (auto simp: nth_list_update conn_view_def)
    have "returns (ss_insert (ic_loop (?cs ! i)) i (s\<lparr>ss_tasks := ss_tasks s @ [i]\<rparr>)) (\<lambda>s'. ss_sim loops n s' ?cs)"
      by (rule ss_insert_sim [of _ _ _ _ cs])
        (use sim i up view True \<open>0 < n\<close> loop in \<open>auto simp: ss_sim_def dest!: set_update_subset_insert [THEN subsetD]\<close>)
    with True alive sim loop i show ?thesis by (simp add: ss_onMessage_def Let_def ss_sim_def)
  next
    case False
    with alive keep sim loop i show ?thesis by (auto simp: ss_onMessage_def Let_def ss_sim_def returns_def)
  qed
qed

lemma ss_tick_sim:
  assumes sim: "ss_sim loops n s cs" and "0 < n"
  shows "ss_sim loops n (ss_onTimer s) (map (idle_tick n) cs)"
proof -
  obtain ds where ds: "ds = concat (map wheel_dropped (ss_wheels s))" by blast
  have ok: "wheel_ok n l cs (ss_wheels s ! l)" if "l < loops" for l using sim that by (simp add: ss_sim_def)
  have len: "length (ss_wheels s) = loops" and conns: "ss_conns s = map conn_view cs"
    and loops: "\<forall>c \<in> set cs. ic_loop c < loops" using sim by (simp_all add: ss_sim_def)
  have "i \<in> set ds \<longleftrightarrow> (\<exists>l < loops. i \<in> set (wheel_dropped (ss_wheels s ! l)))" for i
    using len by (auto simp: ds set_conv_nth [of "ss_wheels s"])
  then have d: "i \<in> set ds \<longleftrightarrow> i < length cs \<and> ic_served (cs ! i) \<and> ic_idle (cs ! i) + 1 = n" for i
    using wheel_dropped_set [OF ok \<open>0 < n\<close>] loops by (auto simp: all_set_conv_all_nth)
  then have "\<forall>i \<in> set ds. i < length (ss_conns s)" by (simp add: conns)
  note fold = fold_entry_delete [OF this]
  have "fold entry_delete ds (ss_conns s) = map conn_view (map (idle_tick n) cs)"
    using fold d by (intro nth_equalityI) (auto simp: conns conn_view_def idle_tick_def)
  with sim wheel_push_ok [OF ok \<open>0 < n\<close>] len loops show ?thesis by (simp add: ss_sim_def ss_onTimer_def ds)
qed

lemma ss_do_sim:
  assumes sim: "ss_sim loops n s cs" and "0 < n" and may: "idle_may loops e cs"
  shows "returns (ss_do kmax e s) (\<lambda>s'. ss_sim loops n s' (idle_do n kmax e cs))"
proof (cases e)
  case (SsDown i)
  then have i: "i < length cs" "ic_up (cs ! i)" using may by simp_all
  have conn: "ss_conns s = map conn_view cs" using sim by (simp add: ss_sim_def)
  have "ss_sim loops n (ss_onConnection_down i s) (cs[i := (cs ! i)\<lparr>ic_up := False, ic_connected := False\<rparr>])"
    using ss_sim_update [OF sim i, of "(cs ! i)\<lparr>ic_up := False, ic_connected := False\<rparr>"] i conn
    by (simp add: same_idle_def ss_onConnection_down_def conn_view_def)
  with SsDown show ?thesis by (simp add: returns_def)
next
  case (SsShutdown i)
  then have i: "i < length cs" "ic_up (cs ! i)" using may by simp_all
  have conn: "ss_conns s = map conn_view cs" using sim by (simp add: ss_sim_def)
  show ?thesis
    using ss_sim_update [OF sim i, of "(cs ! i)\<lparr>ic_connected := False\<rparr>"] i conn SsShutdown
    by (simp add: same_idle_def conn_view_def returns_def)
qed (use ss_up_sim [OF sim \<open>0 < n\<close>] ss_message_sim [OF sim \<open>0 < n\<close>] ss_tick_sim [OF sim \<open>0 < n\<close>] may in \<open>simp_all add: returns_def\<close>)

lemma ss_run_sim:
  "ss_sim loops n s cs \<Longrightarrow> 0 < n \<Longrightarrow> idle_history loops n kmax es cs \<Longrightarrow>
     returns (ss_run kmax es s) (\<lambda>s'. ss_sim loops n s' (idle_run n kmax es cs))"
proof (induction es arbitrary: s cs)
  case Nil
  then show ?case by (simp add: returns_def)
next
  case (Cons e es)
  from Cons.prems have "returns (ss_do kmax e s) (\<lambda>s'. ss_sim loops n s' (idle_do n kmax e cs))"
    by (intro ss_do_sim) simp_all
  then obtain s' where "ss_do kmax e s = Inr s'" "ss_sim loops n s' (idle_do n kmax e cs)" by (elim returnsE)
  with Cons show ?case by simp
qed

section \<open>The bound on connections\<close>

definition served_up :: "idle_conn list \<Rightarrow> nat" where
  "served_up cs = length (filter (\<lambda>c. ic_up c \<and> ic_served c) cs)"

lemma served_up_le: "served_up cs \<le> count_up cs"
  unfolding served_up_def count_up_def by (induction cs) auto

lemma served_up_update:
  assumes "i < length cs" and "ic_up c \<and> ic_served c \<Longrightarrow> ic_up (cs ! i) \<and> ic_served (cs ! i)"
  shows "served_up (cs[i := c]) \<le> served_up cs"
  by (subst (2) id_take_nth_drop [OF assms(1)], subst upd_conv_take_nth_drop [OF assms(1)])
    (use assms(2) in \<open>auto simp: served_up_def\<close>)

lemma served_bound_do:
  assumes "idle_may loops e cs" and "int (served_up cs) \<le> max 0 (kmax - 1)"
  shows "int (served_up (idle_do n kmax e cs)) \<le> max 0 (kmax - 1)"
proof (cases e)
  case (SsUp l)
  with assms(2) served_up_le [of cs] show ?thesis by (auto simp: served_up_def)
next
  case (SsDown i)
  with assms served_up_update [of i cs "(cs ! i)\<lparr>ic_up := False, ic_connected := False\<rparr>"] show ?thesis by simp
next
  case (SsMessage i)
  with assms served_up_update [of i cs "(cs ! i)\<lparr>ic_idle := 0\<rparr>"] show ?thesis by simp
next
  case (SsShutdown i)
  with assms served_up_update [of i cs "(cs ! i)\<lparr>ic_connected := False\<rparr>"] show ?thesis by simp
next
  case SsTick
  with assms(2) show ?thesis by (simp add: served_up_def filter_map comp_def)
qed

lemma served_bound_run:
  "idle_history loops n kmax es cs \<Longrightarrow> int (served_up cs) \<le> max 0 (kmax - 1) \<Longrightarrow>
     int (served_up (idle_run n kmax es cs)) \<le> max 0 (kmax - 1)"
proof (induction es arbitrary: cs)
  case (Cons e es)
  from Cons.prems(1) have e: "idle_may loops e cs" and es: "idle_history loops n kmax es (idle_do n kmax e cs)" by simp_all
  show ?case using Cons.IH [OF es served_bound_do [OF e Cons.prems(2)]] by simp
qed simp

section \<open>Sending\<close>

lemma write_file_blocks:
  "\<exists>blocks. write_file flag rest = map FileBlock blocks @ [FClose, StopWrite] @ (if flag = ''close'' then [FileShutdown] else []) \<and>
     concat blocks = rest"
proof (induction "length rest" arbitrary: rest rule: less_induct)
  case less
  show ?case
  proof (cases "rest = []")
    case True
    then show ?thesis
      by (intro exI [of _ "[]"]) (subst write_file.simps, simp add: writeComplete_def)
  next
    case False
    have k: "0 < kWebBufSize" by (simp add: kWebBufSize_def)
    with False have "length (drop kWebBufSize rest) < length rest" by simp
    from less [OF this] obtain blocks where
      "write_file flag (drop kWebBufSize rest) =
         map FileBlock blocks @ [FClose, StopWrite] @ (if flag = ''close'' then [FileShutdown] else [])"
      and "concat blocks = drop kWebBufSize rest" by blast
    with False k show ?thesis
      by (intro exI [of _ "take kWebBufSize rest # blocks"]) (subst write_file.simps, simp add: writeComplete_def Let_def)
  qed
qed

section \<open>Properties\<close>

text \<open>
  C24. The wheels of buckets implement idle counters: for every history of arrivals, messages,
  ends and ticks, whatever the loops, the callbacks run without a fault, a connection is
  closed by force exactly when its own counter says so, that is at the tick that completes
  \<open>n\<close> ticks without a message, and only if it is connected then; the number of connections is
  counted right and never more than \<open>kmax - 1\<close> of those that are up are served.
\<close>

theorem wheel_refines_idle_counters:
  assumes "0 < n" and "idle_history loops n kmax es []"
  shows "returns (ss_run kmax es (StaticServer_start loops n)) (\<lambda>s.
    ss_conns s = map conn_view (idle_run n kmax es []) \<and>
    ss_numConnected s = int (length (filter sc_up (ss_conns s))) \<and>
    int (length (filter (\<lambda>c. sc_up c \<and> sc_served c) (ss_conns s))) \<le> max 0 (kmax - 1))"
proof (rule returns_mono [OF ss_run_sim [OF ss_sim_start assms]])
  fix s assume "ss_sim loops n s (idle_run n kmax es [])"
  then show "ss_conns s = map conn_view (idle_run n kmax es []) \<and>
    ss_numConnected s = int (length (filter sc_up (ss_conns s))) \<and>
    int (length (filter (\<lambda>c. sc_up c \<and> sc_served c) (ss_conns s))) \<le> max 0 (kmax - 1)"
    using served_bound_run [OF assms(2)] by (simp add: ss_sim_def count_up_def served_up_def filter_map comp_def)
qed

text \<open>A connection sends something at the first tick and is quiet then; another one ends.\<close>

definition example_history :: "ss_event list" where
  "example_history = [SsUp 0, SsUp 1, SsTick, SsMessage 0, SsTick, SsDown 1, SsTick]"

theorem wheel_refines_idle_counters_witness:
  "returns (ss_run 10 example_history (StaticServer_start 2 2)) (\<lambda>s.
    ss_conns s = map conn_view (idle_run 2 10 example_history []) \<and>
    ss_numConnected s = int (length (filter sc_up (ss_conns s))) \<and>
    int (length (filter (\<lambda>c. sc_up c \<and> sc_served c) (ss_conns s))) \<le> max 0 (10 - 1)) \<and>
   map (\<lambda>c. (ic_up c, ic_forced c)) (idle_run 2 10 example_history []) = [(True, True), (False, True)]"
proof (rule conjI)
  show "returns (ss_run 10 example_history (StaticServer_start 2 2)) (\<lambda>s.
    ss_conns s = map conn_view (idle_run 2 10 example_history []) \<and>
    ss_numConnected s = int (length (filter sc_up (ss_conns s))) \<and>
    int (length (filter (\<lambda>c. sc_up c \<and> sc_served c) (ss_conns s))) \<le> max 0 (10 - 1))"
    by (rule wheel_refines_idle_counters) (simp_all add: example_history_def idle_tick_def count_up_def)
  show "map (\<lambda>c. (ic_up c, ic_forced c)) (idle_run 2 10 example_history []) = [(True, True), (False, True)]"
    by (simp add: example_history_def idle_tick_def count_up_def)
qed



section \<open>What the server does not do\<close>

text \<open>
  The idle time is meant in seconds, but the timer of every loop advances the wheels of
  all loops once a second: with \<open>loops\<close> loops a quiet connection is closed after
  \<open>n / loops\<close> seconds.
\<close>

lemma idle_run_ticks:
  assumes "ic_served c" and "ic_connected c" and "ic_idle c < n"
  shows "idle_run n kmax (replicate k SsTick) [c] =
    [if ic_idle c + k < n then c\<lparr>ic_idle := ic_idle c + k\<rparr> else c\<lparr>ic_idle := n, ic_connected := False, ic_forced := True\<rparr>]"
proof -
  have quiet: "idle_run n kmax (replicate k SsTick) [d] = [d]" if "ic_idle d = n" for d k
    using that by (induction k) (simp_all add: idle_tick_def)
  from assms show ?thesis
  proof (induction k arbitrary: c)
    case (Suc k)
    show ?case
    proof (cases "ic_idle c + 1 = n")
      case True
      with Suc.prems have "idle_tick n c = c\<lparr>ic_idle := n, ic_connected := False, ic_forced := True\<rparr>"
        by (simp add: idle_tick_def)
      with True quiet show ?thesis by simp
    next
      case False
      with Suc.prems have "idle_tick n c = c\<lparr>ic_idle := ic_idle c + 1\<rparr>" by (simp add: idle_tick_def)
      with Suc.prems False Suc.IH [of "c\<lparr>ic_idle := ic_idle c + 1\<rparr>"] show ?thesis by simp
    qed
  qed simp
qed

lemma idle_history_ticks: "idle_history loops n kmax (replicate k SsTick) cs"
  by (induction k arbitrary: cs) simp_all

lemma concat_replicate_replicate: "concat (replicate t (replicate m x)) = replicate (t * m) x"
  by (induction t) (simp_all add: replicate_add)

theorem idle_time_divided_by_loops:
  assumes "0 < n" and "0 < loops" and "1 < kmax"
  shows "returns (ss_run kmax (SsUp 0 # concat (replicate t (replicate loops SsTick))) (StaticServer_start loops n)) (\<lambda>s.
    map sc_forced (ss_conns s) = [n \<le> t * loops])"
proof -
  have "idle_history loops n kmax (SsUp 0 # replicate (t * loops) SsTick) []"
    using assms by (simp add: idle_history_ticks)
  from ss_run_sim [OF ss_sim_start assms(1) this]
  show ?thesis unfolding concat_replicate_replicate
  proof (rule returns_mono)
    fix s assume "ss_sim loops n s (idle_run n kmax (SsUp 0 # replicate (t * loops) SsTick) [])"
    then have "ss_conns s = map conn_view (idle_run n kmax (SsUp 0 # replicate (t * loops) SsTick) [])"
      by (simp add: ss_sim_def)
    with assms show "map sc_forced (ss_conns s) = [n \<le> t * loops]"
      by (auto simp: count_up_def idle_run_ticks)
  qed
qed

text \<open>
  Without loops of its own in the pool (the default of the constructor) the server has no
  wheel for the base loop, and the first connection follows a null pointer.
\<close>

theorem first_connection_without_loops_faults:
  assumes "1 < kmax"
  shows "ss_run kmax [SsUp l] (StaticServer_start 0 n) = Inl (Undefined ''map_[conn->getLoop()]'')"
  using assms by (simp add: ss_onConnection_up_def StaticServer_start_def ss_insert_def Let_def)

end
