(* ===== verification/Loggers.thy ===== *)
theory Loggers
  imports LogStreams TimeZones
begin

text \<open>
  The front end of logging (\<^verbatim>\<open>base/log/Logging.cpp\<close>, \<^verbatim>\<open>base/log/Logging.h\<close>, and the identifier of a
  thread in \<^verbatim>\<open>base/thread/CurrentThread.h\<close>, \<^verbatim>\<open>base/thread/Thread.cpp\<close>).

  A log statement makes a \<^verbatim>\<open>Logger\<close>, inserts its message and destroys it. What a thread keeps
  between statements, the text of the last second and its own identifier, is an explicit
  state; \<^verbatim>\<open>gmtime_r\<close>, \<^verbatim>\<open>gettid\<close>, \<^verbatim>\<open>strerror_r\<close> and the clock are parameters. The properties: a statement
  gives the output function exactly one line, made of the time, the thread, the level, the message and
  the place, each item whole or left out; the text kept for a second is the one that would be
  computed; the process ends exactly at fatal messages; what goes wrong with \<^verbatim>\<open>timeZone_\<close>.
\<close>

section \<open>Levels\<close>

datatype log_level = TRACE | DEBUG | INFO | WARN | ERROR | FATAL

definition level_value :: "log_level \<Rightarrow> nat" where
  "level_value l = (case l of TRACE \<Rightarrow> 0 | DEBUG \<Rightarrow> 1 | INFO \<Rightarrow> 2 | WARN \<Rightarrow> 3 | ERROR \<Rightarrow> 4 | FATAL \<Rightarrow> 5)"

lemma level_value_inj: "level_value l = level_value l' \<Longrightarrow> l = l'"
  by (cases l; cases l') (simp_all add: level_value_def)

text \<open>The levels are compared as the numbers of the enumeration.\<close>

instantiation log_level :: linorder
begin

definition less_eq_log_level :: "log_level \<Rightarrow> log_level \<Rightarrow> bool" where
  "less_eq_log_level l l' = (level_value l \<le> level_value l')"

definition less_log_level :: "log_level \<Rightarrow> log_level \<Rightarrow> bool" where
  "less_log_level l l' = (level_value l < level_value l')"

instance
  by standard (auto simp: less_eq_log_level_def less_log_level_def dest: level_value_inj)

end

definition LogLevelName :: "log_level \<Rightarrow> string" where
  "LogLevelName l = (case l of TRACE \<Rightarrow> ''[TRACE] '' | DEBUG \<Rightarrow> ''[DEBUG] '' | INFO \<Rightarrow> ''[INFO]  '' | WARN \<Rightarrow> ''[WARN]  ''
     | ERROR \<Rightarrow> ''[ERROR] '' | FATAL \<Rightarrow> ''[FATAL] '')"

definition initLogLevel :: "(string \<Rightarrow> string option) \<Rightarrow> log_level" where
  "initLogLevel getenv =
     (if getenv ''MUDUO_LOG_TRACE'' \<noteq> None then TRACE
      else if getenv ''MUDUO_LOG_DEBUG'' \<noteq> None then DEBUG
      else INFO)"

section \<open>State\<close>

text \<open>The globals, and the functions of the system.\<close>

record log_config =
  lg_level :: log_level              \<comment> \<open>\<^verbatim>\<open>g_logLevel\<close>\<close>
  lg_zone :: "tzdata option"         \<comment> \<open>\<^verbatim>\<open>g_logTimeZone\<close>\<close>
  lg_hours :: int                    \<comment> \<open>\<^verbatim>\<open>timeZone_\<close>\<close>

record log_system =
  sy_gmtime :: "int \<Rightarrow> tm"
  sy_gettid :: int
  sy_strerror :: "int \<Rightarrow> string"

text \<open>What is local to a thread.\<close>

record log_thread =
  lt_time :: string                  \<comment> \<open>\<^verbatim>\<open>t_time\<close> up to its terminator\<close>
  lt_lastSecond :: int
  lt_cacheTid :: int
  lt_tidString :: string
  lt_tidStringLength :: int

definition log_thread_new :: log_thread where
  "log_thread_new = \<lparr>lt_time = [], lt_lastSecond = 0, lt_cacheTid = 0, lt_tidString = [], lt_tidStringLength = 6\<rparr>"

definition cacheTid :: "log_system \<Rightarrow> log_thread \<Rightarrow> log_thread" where
  "cacheTid sys lt =
     (if lt_cacheTid lt = 0
      then (let t = sy_gettid sys; s = pad 5 t
            in lt\<lparr>lt_cacheTid := t, lt_tidString := take 31 s, lt_tidStringLength := int (length s)\<rparr>)
      else lt)"

definition cur_tid :: "log_system \<Rightarrow> log_thread \<Rightarrow> log_thread" where
  "cur_tid sys lt = (if lt_cacheTid lt = 0 then cacheTid sys lt else lt)"

section \<open>Making a line\<close>

text \<open>The helper class \<^verbatim>\<open>T\<close>.\<close>

definition T_new :: "string \<Rightarrow> int \<Rightarrow> log_item res" where
  "T_new str len = ensure (int (length str) = len) ''strlen(str) == len_'' (Inr (LString str))"

text \<open>The part of a file name after the last slash.\<close>

definition SourceFile :: "string \<Rightarrow> string" where
  "SourceFile filename = rev (takeWhile (\<lambda>c. c \<noteq> CHR ''/'') (rev filename))"

definition time_text :: "log_config \<Rightarrow> tm \<Rightarrow> string" where
  "time_text conf t =
     pad 4 (tm_year t + 1900) @ pad0 2 (tm_mon t + 1) @ pad0 2 (tm_mday t) @ '' '' @
     pad0 2 (tm_hour t + lg_hours conf) @ '':'' @ pad0 2 (tm_min t) @ '':'' @ pad0 2 (tm_sec t)"

text \<open>The branch taken when the second has changed.\<close>

definition update_time :: "log_system \<Rightarrow> log_config \<Rightarrow> int \<Rightarrow> log_thread \<Rightarrow> log_thread res" where
  "update_time sys conf seconds lt =
     bind_r (if lg_zone conf \<noteq> None then toLocalTime (sy_gmtime sys) (lg_zone conf) seconds else Inr (sy_gmtime sys seconds))
       (\<lambda>tm_time. let str = time_text conf tm_time
          in ensure (length str = 17) ''len == 17'' (Inr (lt\<lparr>lt_lastSecond := seconds, lt_time := take 63 str\<rparr>)))"

definition micro_text :: "log_config \<Rightarrow> int \<Rightarrow> log_item res" where
  "micro_text conf microseconds =
     (if lg_zone conf \<noteq> None
      then bind_r (Fmt_new (''.'' @ pad0 6 microseconds @ '' '')) (\<lambda>us. ensure (length us = 8) ''us.length() == 8'' (T_new us 8))
      else bind_r (Fmt_new (''.'' @ pad0 6 microseconds @ ''Z '')) (\<lambda>us. ensure (length us = 9) ''us.length() == 9'' (T_new us 9)))"

definition formatTime :: "log_system \<Rightarrow> log_config \<Rightarrow> timestamp \<Rightarrow> log_thread \<times> fixed_buffer \<Rightarrow>
    (log_thread \<times> fixed_buffer) res" where
  "formatTime sys conf now = (\<lambda>(lt, b).
     let seconds = now sdiv kMicroSecondsPerSecond; microseconds = now smod kMicroSecondsPerSecond
     in bind_r (if seconds \<noteq> lt_lastSecond lt then update_time sys conf seconds lt else Inr lt) (\<lambda>lt1.
          bind_r (micro_text conf microseconds) (\<lambda>us.
            bind_r (T_new (lt_time lt1) 17) (\<lambda>t.
              bind_r (fold_r ls_insert [t, us] b) (\<lambda>b1. Inr (lt1, b1))))))"

record logger =
  lo_stream :: fixed_buffer
  lo_level :: log_level
  lo_line :: int
  lo_basename :: string

text \<open>\<^verbatim>\<open>Logger::Impl::Impl\<close>; \<open>mem\<close> is the uninitialised buffer of the stream.\<close>

definition Impl_new :: "log_system \<Rightarrow> log_config \<Rightarrow> char list \<Rightarrow> timestamp \<Rightarrow> log_level \<Rightarrow> int \<Rightarrow> string \<Rightarrow> int \<Rightarrow>
    log_thread \<Rightarrow> (log_thread \<times> logger) res" where
  "Impl_new sys conf mem now level savedErrno filename line lt =
     bind_r (formatTime sys conf now (lt, FixedBuffer_new mem)) (\<lambda>(lt1, b1).
       let lt2 = cur_tid sys lt1
       in bind_r (T_new (lt_tidString lt2) (lt_tidStringLength lt2)) (\<lambda>tid.
          bind_r (T_new (LogLevelName level) 8) (\<lambda>name.
          bind_r (fold_r ls_insert ([tid, name] @
              (if savedErrno \<noteq> 0
               then [LCString (Some (sy_strerror sys savedErrno)), LCString (Some '' (errno=''), LInt savedErrno, LCString (Some '') '')]
               else [])) b1) (\<lambda>b2.
          Inr (lt2, \<lparr>lo_stream = b2, lo_level = level, lo_line = line, lo_basename = SourceFile filename\<rparr>)))))"

definition Impl_finish :: "logger \<Rightarrow> logger res" where
  "Impl_finish lo =
     bind_r (fold_r ls_insert [LCString (Some '' - ''), LString (lo_basename lo), LChar (CHR '':''), LInt (lo_line lo), LChar (CHR 0x0A)]
       (lo_stream lo)) (\<lambda>b. Inr (lo\<lparr>lo_stream := b\<rparr>))"

text \<open>The constructors: \<^verbatim>\<open>LOG_INFO\<close>; \<^verbatim>\<open>LOG_TRACE\<close> and \<^verbatim>\<open>LOG_DEBUG\<close>; \<^verbatim>\<open>LOG_WARN\<close>, \<^verbatim>\<open>LOG_ERROR\<close>, \<^verbatim>\<open>LOG_FATAL\<close>; \<^verbatim>\<open>LOG_SYSERR\<close> and \<^verbatim>\<open>LOG_SYSFATAL\<close> with \<^verbatim>\<open>errno\<close>.\<close>

datatype log_call = LogInfo | LogFunc log_level string | LogLevel log_level | LogSys bool int

fun call_level :: "log_call \<Rightarrow> log_level" where
  "call_level LogInfo = INFO"
| "call_level (LogFunc level func) = level"
| "call_level (LogLevel level) = level"
| "call_level (LogSys toAbort err) = (if toAbort then FATAL else ERROR)"

fun Logger_new :: "log_system \<Rightarrow> log_config \<Rightarrow> char list \<Rightarrow> timestamp \<Rightarrow> log_call \<Rightarrow> string \<Rightarrow> int \<Rightarrow>
    log_thread \<Rightarrow> (log_thread \<times> logger) res" where
  "Logger_new sys conf mem now LogInfo filename line lt = Impl_new sys conf mem now INFO 0 filename line lt"
| "Logger_new sys conf mem now (LogFunc level func) filename line lt =
     bind_r (Impl_new sys conf mem now level 0 filename line lt) (\<lambda>(lt1, lo).
       bind_r (fold_r ls_insert [LCString (Some func), LChar (CHR '' '')] (lo_stream lo)) (\<lambda>b. Inr (lt1, lo\<lparr>lo_stream := b\<rparr>)))"
| "Logger_new sys conf mem now (LogLevel level) filename line lt = Impl_new sys conf mem now level 0 filename line lt"
| "Logger_new sys conf mem now (LogSys toAbort err) filename line lt =
     Impl_new sys conf mem now (if toAbort then FATAL else ERROR) err filename line lt"

text \<open>\<^verbatim>\<open>Logger::~Logger\<close>: what \<^verbatim>\<open>g_output\<close> gets, and whether the process is aborted then.\<close>

definition Logger_delete :: "logger \<Rightarrow> (string \<times> bool) res" where
  "Logger_delete lo = bind_r (Impl_finish lo) (\<lambda>lo1. Inr (fb_toString (lo_stream lo1), lo_level lo1 = FATAL))"

text \<open>The conditions of the macros.\<close>

fun log_enabled :: "log_config \<Rightarrow> log_call \<Rightarrow> bool" where
  "log_enabled conf LogInfo \<longleftrightarrow> lg_level conf \<le> INFO"
| "log_enabled conf (LogFunc level func) \<longleftrightarrow> lg_level conf \<le> level"
| "log_enabled conf _ \<longleftrightarrow> True"

text \<open>A log statement: the line and whether the process goes on, or nothing.\<close>

definition log_statement :: "log_system \<Rightarrow> log_config \<Rightarrow> char list \<Rightarrow> timestamp \<Rightarrow> log_call \<Rightarrow> string \<Rightarrow> int \<Rightarrow> log_item list \<Rightarrow>
    log_thread \<Rightarrow> (log_thread \<times> (string \<times> bool) option) res" where
  "log_statement sys conf mem now call filename line items lt =
     (if log_enabled conf call
      then bind_r (Logger_new sys conf mem now call filename line lt) (\<lambda>(lt1, lo).
             bind_r (fold_r ls_insert items (lo_stream lo)) (\<lambda>b.
               bind_r (Logger_delete (lo\<lparr>lo_stream := b\<rparr>)) (\<lambda>out. Inr (lt1, Some out))))
      else Inr (lt, None))"

section \<open>The text of a second\<close>

text \<open>The text of a second, computed without looking at what is kept.\<close>

definition second_text :: "log_system \<Rightarrow> log_config \<Rightarrow> int \<Rightarrow> string res" where
  "second_text sys conf seconds =
     bind_r (if lg_zone conf \<noteq> None then toLocalTime (sy_gmtime sys) (lg_zone conf) seconds else Inr (sy_gmtime sys seconds))
       (\<lambda>t. Inr (time_text conf t))"

text \<open>What a thread keeps is right for the second and the thread it is kept for.\<close>

definition thread_ok :: "log_system \<Rightarrow> log_config \<Rightarrow> log_thread \<Rightarrow> bool" where
  "thread_ok sys conf lt \<longleftrightarrow>
     (lt_lastSecond lt = 0 \<or> second_text sys conf (lt_lastSecond lt) = Inr (lt_time lt) \<and> length (lt_time lt) = 17) \<and>
     (lt_cacheTid lt = 0 \<or>
      lt_cacheTid lt = sy_gettid sys \<and> lt_tidString lt = pad 5 (sy_gettid sys) \<and> lt_tidStringLength lt = int (length (pad 5 (sy_gettid sys))))"

definition log_ready :: "log_system \<Rightarrow> log_config \<Rightarrow> timestamp \<Rightarrow> string \<Rightarrow> bool" where
  "log_ready sys conf now str \<longleftrightarrow>
     kMicroSecondsPerSecond \<le> now \<and> second_text sys conf (now sdiv kMicroSecondsPerSecond) = Inr str \<and> length str = 17 \<and>
     0 < sy_gettid sys \<and> sy_gettid sys < 2 ^ 31"

lemma length_pad0: "0 \<le> i \<Longrightarrow> nat i < 10 ^ Suc k \<Longrightarrow> length (pad0 (Suc k) i) = Suc k"
  using length_show_nat [of "nat i" k] by (simp add: pad0_def Let_def)

lemma length_pad_tid:
  assumes "0 < t" and "t < 2 ^ 31"
  shows "length (pad 5 t) < 32"
proof -
  have "length (show_nat (nat t)) \<le> 10" by (rule length_show_nat [of _ 9, simplified]) (use assms in simp)
  then show ?thesis using assms by (simp add: pad_def show_int_def)
qed

lemma now_parts:
  assumes "kMicroSecondsPerSecond \<le> now"
  shows "now sdiv kMicroSecondsPerSecond \<noteq> 0" and "0 \<le> now smod kMicroSecondsPerSecond"
    and "now smod kMicroSecondsPerSecond < 1000000"
proof -
  have eq: "now sdiv kMicroSecondsPerSecond = now div 1000000" "now smod kMicroSecondsPerSecond = now mod 1000000"
    using assms by (simp_all add: kMicroSecondsPerSecond_def signed_divide_int_def signed_modulo_int_def minus_div_mult_eq_mod sgn_if)
  show "now sdiv kMicroSecondsPerSecond \<noteq> 0" unfolding eq using assms pos_imp_zdiv_pos_iff [of 1000000 now] by (simp add: kMicroSecondsPerSecond_def)
  show "0 \<le> now smod kMicroSecondsPerSecond" "now smod kMicroSecondsPerSecond < 1000000" unfolding eq by simp_all
qed

definition micro_str :: "log_config \<Rightarrow> timestamp \<Rightarrow> string" where
  "micro_str conf now = ''.'' @ pad0 6 (now smod kMicroSecondsPerSecond) @ (if lg_zone conf \<noteq> None then '' '' else ''Z '')"

lemma micro_text_eq:
  assumes "kMicroSecondsPerSecond \<le> now"
  shows "micro_text conf (now smod kMicroSecondsPerSecond) = Inr (LString (micro_str conf now))"
proof -
  have "length (pad0 6 (now smod kMicroSecondsPerSecond)) = 6"
    using length_pad0 [of "now smod kMicroSecondsPerSecond" 5] now_parts [OF assms] by simp
  then show ?thesis by (simp add: micro_text_def micro_str_def Fmt_new_def T_new_def ensure_def)
qed

lemma update_time_eq:
  "second_text sys conf seconds = Inr str \<Longrightarrow> length str = 17 \<Longrightarrow>
     update_time sys conf seconds lt = Inr (lt\<lparr>lt_lastSecond := seconds, lt_time := str\<rparr>)"
  by (auto simp: update_time_def second_text_def bind_r_def ensure_def Let_def split: sum.splits if_splits)

text \<open>The kept text is the one that would be computed.\<close>

lemma formatTime_eq:
  assumes lt: "thread_ok sys conf lt" and now: "log_ready sys conf now str"
  shows "formatTime sys conf now (lt, b) =
    bind_r (fold_r ls_insert [LString str, LString (micro_str conf now)] b) (\<lambda>b1.
      Inr (lt\<lparr>lt_lastSecond := now sdiv kMicroSecondsPerSecond, lt_time := str\<rparr>, b1))"
proof -
  let ?s = "now sdiv kMicroSecondsPerSecond"
  have r: "kMicroSecondsPerSecond \<le> now" "second_text sys conf ?s = Inr str" "length str = 17"
    using now by (simp_all add: log_ready_def)
  have "(if ?s \<noteq> lt_lastSecond lt then update_time sys conf ?s lt else Inr lt) = Inr (lt\<lparr>lt_lastSecond := ?s, lt_time := str\<rparr>)"
  proof (cases "?s = lt_lastSecond lt")
    case True
    with lt r now_parts(1) [OF r(1)] have "lt_time lt = str" by (auto simp: thread_ok_def)
    with True show ?thesis by (cases lt) simp
  qed (simp add: update_time_eq [OF r(2,3)])
  then show ?thesis
    using r(3) by (simp add: formatTime_def Let_def micro_text_eq [OF r(1)] T_new_def ensure_def)
qed

section \<open>The items of a line\<close>

fun call_items :: "log_system \<Rightarrow> log_call \<Rightarrow> log_item list" where
  "call_items sys (LogFunc level func) = [LCString (Some func), LChar (CHR '' '')]"
| "call_items sys (LogSys toAbort err) =
     (if err \<noteq> 0
      then [LCString (Some (sy_strerror sys err)), LCString (Some '' (errno=''), LInt err, LCString (Some '') '')]
      else [])"
| "call_items sys _ = []"

definition head_items :: "log_system \<Rightarrow> log_config \<Rightarrow> timestamp \<Rightarrow> string \<Rightarrow> log_call \<Rightarrow> log_item list" where
  "head_items sys conf now str call =
     [LString str, LString (micro_str conf now), LString (pad 5 (sy_gettid sys)), LString (LogLevelName (call_level call))] @
     call_items sys call"

definition tail_items :: "string \<Rightarrow> int \<Rightarrow> log_item list" where
  "tail_items filename line =
     [LCString (Some '' - ''), LString (SourceFile filename), LChar (CHR '':''), LInt line, LChar (CHR 0x0A)]"

definition thread_after :: "log_system \<Rightarrow> timestamp \<Rightarrow> string \<Rightarrow> log_thread \<Rightarrow> log_thread" where
  "thread_after sys now str lt =
     cur_tid sys (lt\<lparr>lt_lastSecond := now sdiv kMicroSecondsPerSecond, lt_time := str\<rparr>)"

lemma thread_after_ok:
  assumes "thread_ok sys conf lt" and "log_ready sys conf now str"
  shows "thread_ok sys conf (thread_after sys now str lt)"
    and "lt_tidString (thread_after sys now str lt) = pad 5 (sy_gettid sys)"
    and "lt_tidStringLength (thread_after sys now str lt) = int (length (pad 5 (sy_gettid sys)))"
proof -
  have "take 31 (pad 5 (sy_gettid sys)) = pad 5 (sy_gettid sys)"
    using assms(2) length_pad_tid [of "sy_gettid sys"] by (simp add: log_ready_def)
  then show "thread_ok sys conf (thread_after sys now str lt)"
    and "lt_tidString (thread_after sys now str lt) = pad 5 (sy_gettid sys)"
    and "lt_tidStringLength (thread_after sys now str lt) = int (length (pad 5 (sy_gettid sys)))"
    using assms by (auto simp: thread_after_def thread_ok_def log_ready_def cur_tid_def cacheTid_def Let_def)
qed

lemma LogLevelName_length: "length (LogLevelName l) = 8"
  by (cases l) (simp_all add: LogLevelName_def)

lemma Impl_new_eq:
  assumes "thread_ok sys conf lt" and "log_ready sys conf now str"
  shows "Impl_new sys conf mem now level err filename line lt =
    bind_r (fold_r ls_insert ([LString str, LString (micro_str conf now), LString (pad 5 (sy_gettid sys)), LString (LogLevelName level)] @
        call_items sys (LogSys True err)) (FixedBuffer_new mem)) (\<lambda>b.
      Inr (thread_after sys now str lt, \<lparr>lo_stream = b, lo_level = level, lo_line = line, lo_basename = SourceFile filename\<rparr>))"
  using thread_after_ok(2,3) [OF assms] formatTime_eq [OF assms]
  by (simp add: Impl_new_def T_new_def ensure_def LogLevelName_length Let_def bind_r_assoc thread_after_def)

lemma Logger_new_eq:
  assumes "thread_ok sys conf lt" and "log_ready sys conf now str"
  shows "Logger_new sys conf mem now call filename line lt =
    bind_r (fold_r ls_insert (head_items sys conf now str call) (FixedBuffer_new mem)) (\<lambda>b.
      Inr (thread_after sys now str lt, \<lparr>lo_stream = b, lo_level = call_level call, lo_line = line, lo_basename = SourceFile filename\<rparr>))"
  by (cases call) (simp_all add: Impl_new_eq [OF assms] head_items_def bind_r_assoc)

lemma log_statement_items:
  assumes "thread_ok sys conf lt" and "log_ready sys conf now str" and "log_enabled conf call"
  shows "log_statement sys conf mem now call filename line items lt =
    bind_r (fold_r ls_insert (head_items sys conf now str call @ items @ tail_items filename line) (FixedBuffer_new mem)) (\<lambda>b.
      Inr (thread_after sys now str lt, Some (fb_toString b, call_level call = FATAL)))"
  using assms(3)
  by (simp add: log_statement_def Logger_new_eq [OF assms(1,2)] Logger_delete_def Impl_finish_def tail_items_def
      bind_r_assoc fold_r_append)

text \<open>Everything fits when the line and a number are shorter than the buffer.\<close>

lemma log_text_all:
  "\<forall>it \<in> set its. item_ok it \<Longrightarrow> length (concat (map item_text its)) + 32 \<le> room \<Longrightarrow> log_text room its = concat (map item_text its)"
proof (induction its arbitrary: room)
  case (Cons it its)
  have "item_fits room it" using Cons.prems(2) by (cases it) auto
  with Cons show ?case by simp
qed simp

lemma items_ok:
  assumes "\<bar>line\<bar> < 2 ^ 31" and "\<And>toAbort err. call = LogSys toAbort err \<Longrightarrow> \<bar>err\<bar> < 2 ^ 31"
  shows "\<forall>it \<in> set (head_items sys conf now str call). item_ok it" and "\<forall>it \<in> set (tail_items filename line). item_ok it"
  using assms by (cases call; auto simp: head_items_def tail_items_def)+

text \<open>An enabled statement, with what the thread keeps in order: its line.\<close>

lemma log_line:
  assumes "thread_ok sys conf lt" and "log_ready sys conf now str" and "log_enabled conf call"
    and "length mem = kSmallBuffer" and "\<forall>it \<in> set items. item_ok it"
    and "\<bar>line\<bar> < 2 ^ 31" and "\<And>toAbort err. call = LogSys toAbort err \<Longrightarrow> \<bar>err\<bar> < 2 ^ 31"
    and "length (concat (map item_text (head_items sys conf now str call @ items @ tail_items filename line))) + 32 \<le> kSmallBuffer"
  shows "\<exists>lt'. thread_ok sys conf lt' \<and> log_statement sys conf mem now call filename line items lt =
    Inr (lt', Some (str @ micro_str conf now @ pad 5 (sy_gettid sys) @ LogLevelName (call_level call) @
      concat (map item_text (call_items sys call)) @ concat (map item_text items) @
      '' - '' @ SourceFile filename @ '':'' @ show_int line @ [CHR 0x0A], call_level call = FATAL))"
proof -
  let ?its = "head_items sys conf now str call @ items @ tail_items filename line"
  have ok: "\<forall>it \<in> set ?its. item_ok it" using items_ok [OF assms(6,7)] assms(5) by auto
  have b0: "fb_ok (FixedBuffer_new mem)" "fb_avail (FixedBuffer_new mem) = kSmallBuffer" "fb_toString (FixedBuffer_new mem) = []"
    using assms(4) by (simp_all add: fb_ok_def FixedBuffer_new_def fb_avail_def fb_toString_def kSmallBuffer_def)
  from insert_all_spec [OF b0(1) ok] b0 log_text_all [OF ok assms(8)] obtain b where
    "fold_r ls_insert ?its (FixedBuffer_new mem) = Inr b" "fb_toString b = concat (map item_text ?its)" by (auto elim: returnsE)
  then show ?thesis
    using thread_after_ok(1) [OF assms(1,2)]
    by (intro exI [of _ "thread_after sys now str lt"])
      (simp add: log_statement_items [OF assms(1-3)] head_items_def tail_items_def)
qed

section \<open>Properties\<close>


text \<open>A clock that shows the start of the year 2020, for examples.\<close>

definition example_system :: log_system where
  "example_system = \<lparr>sy_gmtime = (\<lambda>_. memZero_tm\<lparr>tm_year := 120, tm_mon := 0, tm_mday := 1, tm_hour := 20, tm_min := 5, tm_sec := 9\<rparr>),
     sy_gettid = 4711, sy_strerror = (\<lambda>_. ''Bad file descriptor'')\<rparr>"

definition example_config :: log_config where
  "example_config = \<lparr>lg_level = INFO, lg_zone = None, lg_hours = 0\<rparr>"

lemmas example_text = pad_def pad0_def show_int_def show_nat.simps digit_char_def

lemma example_ready: "log_ready example_system example_config 1577909109000042 ''20200101 20:05:09''"
  by (simp add: log_ready_def second_text_def time_text_def example_system_def example_config_def kMicroSecondsPerSecond_def example_text)


text \<open>
  The hour of the time is the hour of UTC with \<^verbatim>\<open>timeZone_\<close> added, without carrying into the day: east of Greenwich the
  evening is logged at hours that do not exist.
\<close>

theorem eastern_evening_hour:
  "second_text example_system (example_config\<lparr>lg_hours := 8\<rparr>) 1577909109 = Inr ''20200101 28:05:09''"
  by (simp add: second_text_def time_text_def example_system_def example_config_def example_text)

text \<open>
  West of Greenwich, when the sum has two digits and a sign, the assertion on the length fails and
  the statement ends the process, whatever its level.
\<close>

lemma length_pad0_ge: "length (show_nat (nat \<bar>i\<bar>)) \<le> length (pad0 w i)" "w \<le> length (pad0 w i)"
  by (simp_all add: pad0_def Let_def)

theorem western_night_asserts:
  assumes "lg_zone conf = None" and "kMicroSecondsPerSecond \<le> now" and "lt_lastSecond lt \<noteq> now sdiv kMicroSecondsPerSecond"
    and "tm_hour (sy_gmtime sys (now sdiv kMicroSecondsPerSecond)) + lg_hours conf \<le> - 10"
    and "log_enabled conf call"
  shows "log_statement sys conf mem now call filename line items lt = Inl (AssertFail ''len == 17'')"
proof -
  let ?t = "sy_gmtime sys (now sdiv kMicroSecondsPerSecond)"
  let ?h = "tm_hour ?t + lg_hours conf"
  have "nat \<bar>?h\<bar> \<ge> 10" using assms(4) by simp
  then have two: "2 \<le> length (show_nat (nat \<bar>?h\<bar>))" by (subst show_nat.simps) (simp add: Suc_le_eq)
  then have hour: "3 \<le> length (pad0 2 ?h)" using assms(4) by (simp add: pad0_def Let_def)
  have "4 \<le> length (pad 4 (tm_year ?t + 1900))" by (simp add: pad_def)
  then have "18 \<le> length (time_text conf ?t)"
    using hour length_pad0_ge(2) [of 2 "tm_mon ?t + 1"] length_pad0_ge(2) [of 2 "tm_mday ?t"] length_pad0_ge(2) [of 2 "tm_min ?t"]
      length_pad0_ge(2) [of 2 "tm_sec ?t"]
    unfolding time_text_def length_append list.size by linarith
  then have "update_time sys conf (now sdiv kMicroSecondsPerSecond) lt = Inl (AssertFail ''len == 17'')"
    using assms(1) by (simp add: update_time_def ensure_def Let_def)
  then have "Impl_new sys conf mem now level err filename line lt = Inl (AssertFail ''len == 17'')" for level err
    using assms(3) by (simp add: Impl_new_def formatTime_def Let_def)
  then have "Logger_new sys conf mem now call filename line lt = Inl (AssertFail ''len == 17'')"
    by (cases call) simp_all
  with assms(5) show ?thesis by (simp add: log_statement_def)
qed

end
