(* ===== verification/Processes.thy ===== *)
theory Processes
  imports Calendars "HOL-Library.Multiset"
begin

text \<open>
  Reading of small files (\<^verbatim>\<open>base/log/FileUtil.cpp\<close>, \<^verbatim>\<open>base/log/FileUtil.h\<close>) and what a process finds out about
  itself (\<^verbatim>\<open>base/thread/ProcessInfo.cpp\<close>).

  The answers of the kernel are parameters: \<^verbatim>\<open>read\<close> by the offset and the room, \<^verbatim>\<open>fstat\<close>, \<^verbatim>\<open>readlink\<close>, the names
  \<^verbatim>\<open>scandir\<close> finds. The properties: a file is read completely, or up to the given size, in whatever
  pieces the kernel delivers it; the name of a program is found in its status line also when it contains
  parentheses; the threads are listed in order.
\<close>

section \<open>ReadSmallFile\<close>

definition kBufferSize :: nat where "kBufferSize = 64 * 1024"

record read_small_file =
  rf_open :: bool         \<comment> \<open>\<^verbatim>\<open>fd_ >= 0\<close>\<close>
  rf_err :: int
  rf_buf :: string        \<comment> \<open>\<^verbatim>\<open>buf_\<close> up to its terminator\<close>

text \<open>The answer of \<^verbatim>\<open>open\<close>: the error, or success.\<close>

definition ReadSmallFile_new :: "int option \<Rightarrow> read_small_file" where
  "ReadSmallFile_new open_err =
     (case open_err of None \<Rightarrow> \<lparr>rf_open = True, rf_err = 0, rf_buf = []\<rparr>
      | Some e \<Rightarrow> \<lparr>rf_open = False, rf_err = e, rf_buf = []\<rparr>)"

datatype file_kind = Regular | Directory | OtherFile

record file_stat =
  st_kind :: file_kind
  st_size :: int
  st_mtime :: int
  st_ctime :: int

definition EISDIR :: int where "EISDIR = 21"

text \<open>\<open>rd off n\<close>: the answer of \<^verbatim>\<open>read\<close> of at most \<open>n\<close> bytes at offset \<open>off\<close>, an error or the bytes.\<close>

function read_loop :: "(nat \<Rightarrow> nat \<Rightarrow> int + string) \<Rightarrow> nat \<Rightarrow> int \<Rightarrow> string \<Rightarrow> int \<times> string" where
  "read_loop rd maxSize err content =
     (if length content < maxSize
      then (let toRead = min (maxSize - length content) kBufferSize
            in case rd (length content) toRead of
                 Inl e \<Rightarrow> (e, content)
               | Inr bs \<Rightarrow> if bs = [] then (err, content) else read_loop rd maxSize err (content @ bs))
      else (err, content))"
  by auto
termination by (relation "measure (\<lambda>(rd, maxSize, err, content). maxSize - length content)") (auto simp: length_greater_0_conv [symmetric] simp del: length_greater_0_conv)

declare read_loop.simps [simp del]

text \<open>
  \<^verbatim>\<open>readToString\<close>: the error, the content and what is stored through the pointers \<^verbatim>\<open>fileSize\<close>, \<^verbatim>\<open>modifyTime\<close>, \<^verbatim>\<open>createTime\<close>;
  \<open>want\<close> says which of them are not null. The string given by the caller is not cleared if the file
  is not open.
\<close>

record file_info =
  fi_size :: "int option"
  fi_modify :: "int option"
  fi_create :: "int option"

definition no_info :: file_info where
  "no_info = \<lparr>fi_size = None, fi_modify = None, fi_create = None\<rparr>"

definition stat_info :: "bool \<times> bool \<times> bool \<Rightarrow> int + file_stat \<Rightarrow> int \<Rightarrow> int \<times> file_info" where
  "stat_info want st err = (case want of (fileSize, modifyTime, createTime) \<Rightarrow>
     if \<not> fileSize then (err, no_info)
     else case st of
            Inl e \<Rightarrow> (e, no_info)
          | Inr sb \<Rightarrow>
              (if st_kind sb = Directory then EISDIR else err,
               \<lparr>fi_size = (if st_kind sb = Regular then Some (st_size sb) else None),
                fi_modify = (if modifyTime then Some (st_mtime sb) else None),
                fi_create = (if createTime then Some (st_ctime sb) else None)\<rparr>))"

definition readToString :: "(nat \<Rightarrow> nat \<Rightarrow> int + string) \<Rightarrow> int + file_stat \<Rightarrow> bool \<times> bool \<times> bool \<Rightarrow> nat \<Rightarrow> string \<Rightarrow>
    read_small_file \<Rightarrow> int \<times> string \<times> file_info" where
  "readToString rd st want maxSize content rf =
     (if rf_open rf
      then (let (err, info) = stat_info want st (rf_err rf); (err', content') = read_loop rd maxSize err []
            in (err', content', info))
      else (rf_err rf, content, no_info))"

definition readFile :: "(nat \<Rightarrow> nat \<Rightarrow> int + string) \<Rightarrow> int + file_stat \<Rightarrow> int option \<Rightarrow> bool \<times> bool \<times> bool \<Rightarrow> nat \<Rightarrow> string \<Rightarrow>
    int \<times> string \<times> file_info" where
  "readFile rd st open_err want maxSize content = readToString rd st want maxSize content (ReadSmallFile_new open_err)"

text \<open>\<^verbatim>\<open>readToBuffer\<close>: the error, the size if a pointer is given, the object.\<close>

definition readToBuffer :: "(nat \<Rightarrow> nat \<Rightarrow> int + string) \<Rightarrow> bool \<Rightarrow> read_small_file \<Rightarrow> int \<times> int option \<times> read_small_file" where
  "readToBuffer rd want rf =
     (if rf_open rf
      then (case rd 0 (kBufferSize - 1) of
              Inl e \<Rightarrow> (e, None, rf)
            | Inr bs \<Rightarrow> (rf_err rf, if want then Some (int (length bs)) else None, rf\<lparr>rf_buf := bs\<rparr>))
      else (rf_err rf, None, rf))"

section \<open>ProcessInfo\<close>

text \<open>The files of \<^verbatim>\<open>/proc/self\<close> by name, as \<^verbatim>\<open>readFile\<close> gives them; other answers of the system.\<close>

record process_env =
  pe_file :: "string \<Rightarrow> nat \<Rightarrow> string"
  pe_names :: "string \<Rightarrow> string list"         \<comment> \<open>the names in a directory\<close>
  pe_link :: "string option"                  \<comment> \<open>\<^verbatim>\<open>readlink\<close> of \<^verbatim>\<open>/proc/self/exe\<close>\<close>
  pe_hostname :: "string option"
  pe_username :: "string option"
  pe_rlimit :: "int option"
  pe_pid :: int
  pe_tid :: int

definition pidString :: "process_env \<Rightarrow> string" where
  "pidString env = take 31 (show_int (pe_pid env))"

definition pi_username :: "process_env \<Rightarrow> string" where
  "pi_username env = (case pe_username env of Some n \<Rightarrow> n | None \<Rightarrow> ''unknownuser'')"

definition pi_hostname :: "process_env \<Rightarrow> string" where
  "pi_hostname env = (case pe_hostname env of Some n \<Rightarrow> take 255 n | None \<Rightarrow> ''unknownhost'')"

definition is_digit :: "char \<Rightarrow> bool" where
  "is_digit c \<longleftrightarrow> c \<in> set ''0123456789''"

text \<open>The filters count and collect, and select nothing.\<close>

definition fdDirFilter :: "string \<Rightarrow> nat \<Rightarrow> nat" where
  "fdDirFilter d_name t_numOpenedFiles = (case d_name of c # _ \<Rightarrow> if is_digit c then t_numOpenedFiles + 1 else t_numOpenedFiles | [] \<Rightarrow> t_numOpenedFiles)"

definition taskDirFilter :: "string \<Rightarrow> int list \<Rightarrow> int list" where
  "taskDirFilter d_name t_pids = (case d_name of c # _ \<Rightarrow> if is_digit c then t_pids @ [c_atoi d_name] else t_pids | [] \<Rightarrow> t_pids)"

definition scanDir :: "process_env \<Rightarrow> string \<Rightarrow> (string \<Rightarrow> 's \<Rightarrow> 's) \<Rightarrow> 's \<Rightarrow> 's" where
  "scanDir env dirpath filt s = fold filt (pe_names env dirpath) s"

definition openedFiles :: "process_env \<Rightarrow> nat" where
  "openedFiles env = scanDir env ''/proc/self/fd'' fdDirFilter 0"

definition maxOpenFiles :: "process_env \<Rightarrow> int" where
  "maxOpenFiles env = (case pe_rlimit env of None \<Rightarrow> int (openedFiles env) | Some cur \<Rightarrow> sint (word_of_int cur :: 32 word))"

text \<open>\<^verbatim>\<open>stat.find('(')\<close> and \<^verbatim>\<open>stat.rfind(')')\<close>; the result is a piece of the string, by its place and length.\<close>

definition std_rfind :: "'a \<Rightarrow> 'a list \<Rightarrow> nat option" where
  "std_rfind c xs = (if c \<in> set xs then Some (length xs - 1 - std_find c (rev xs)) else None)"

definition procname_piece :: "string \<Rightarrow> (nat \<times> nat) option" where
  "procname_piece stat =
     (let lp = std_find (CHR ''('') stat
      in if lp = length stat then None
         else case std_rfind (CHR '')'') stat of
                None \<Rightarrow> None
              | Some rp \<Rightarrow> if lp < rp then Some (lp + 1, rp - lp - 1) else None)"

definition procname_of :: "string \<Rightarrow> string" where
  "procname_of stat = (case procname_piece stat of None \<Rightarrow> [] | Some (i, n) \<Rightarrow> take n (drop i stat))"

definition procStatus :: "process_env \<Rightarrow> string" where
  "procStatus env = pe_file env ''/proc/self/status'' 65536"

definition procStat :: "process_env \<Rightarrow> string" where
  "procStat env = pe_file env ''/proc/self/stat'' 65536"

definition procname :: "process_env \<Rightarrow> string" where
  "procname env = procname_of (procStat env)"

definition threadStat :: "process_env \<Rightarrow> string" where
  "threadStat env = pe_file env (take 63 (''/proc/self/task/'' @ show_int (pe_tid env) @ ''/stat'')) 65536"

definition exePath :: "process_env \<Rightarrow> string" where
  "exePath env = (case pe_link env of Some s \<Rightarrow> take 1024 s | None \<Rightarrow> [])"

text \<open>The number after a word, or zero.\<close>

definition number_after :: "string \<Rightarrow> string \<Rightarrow> int" where
  "number_after key s =
     (let pos = std_search key s in if pos < length s then c_atoi (drop (pos + length key) s) else 0)"

definition numThreads :: "process_env \<Rightarrow> int" where
  "numThreads env = number_after ''Threads:'' (procStatus env)"

definition pi_threads :: "process_env \<Rightarrow> int list" where
  "pi_threads env = sort (scanDir env ''/proc/self/task'' taskDirFilter [])"

section \<open>Reading\<close>

text \<open>The kernel delivers a file: some of the bytes at the offset, none only at the end.\<close>

definition delivers :: "string \<Rightarrow> (nat \<Rightarrow> nat \<Rightarrow> int + string) \<Rightarrow> bool" where
  "delivers data rd \<longleftrightarrow>
     (\<forall>off n. off \<le> length data \<and> 0 < n \<longrightarrow>
        (\<exists>m. rd off n = Inr (take m (drop off data)) \<and> m \<le> n \<and> (off < length data \<longrightarrow> 0 < m)))"

lemma read_loop_delivers:
  assumes rd: "delivers data rd"
  shows "k \<le> length data \<Longrightarrow> k \<le> maxSize \<Longrightarrow> read_loop rd maxSize err (take k data) = (err, take maxSize data)"
proof (induction "maxSize - k" arbitrary: k rule: less_induct)
  case less
  show ?case
  proof (cases "k < maxSize")
    case True
    let ?n = "min (maxSize - k) kBufferSize"
    have n: "0 < ?n" using True by (simp add: kBufferSize_def)
    with rd less.prems(1) obtain m where m: "rd k ?n = Inr (take m (drop k data))" "m \<le> ?n" "k < length data \<longrightarrow> 0 < m"
      unfolding delivers_def by blast
    show ?thesis
    proof (cases "k = length data")
      case True
      then show ?thesis using m(1) less.prems by (subst read_loop.simps) (simp add: min_def Let_def)
    next
      case False
      let ?k = "min (k + m) (length data)"
      have "take k data @ take m (drop k data) = take ?k data" by (simp add: take_add min_def)
      moreover have "take m (drop k data) \<noteq> []" using False m(3) less.prems(1) by simp
      ultimately have "read_loop rd maxSize err (take k data) = read_loop rd maxSize err (take ?k data)"
        using m(1) True less.prems by (subst read_loop.simps) (simp add: min_absorb2 Let_def)
      also have "\<dots> = (err, take maxSize data)"
        by (rule less.hyps) (use False m True less.prems in auto)
      finally show ?thesis .
    qed
  qed (use less.prems in \<open>subst read_loop.simps; simp\<close>)
qed

text \<open>An error ends the reading; what was read before it is kept.\<close>

lemma read_loop_error:
  "length content < maxSize \<Longrightarrow> rd (length content) (min (maxSize - length content) kBufferSize) = Inl e \<Longrightarrow>
     read_loop rd maxSize err content = (e, content)"
  by (subst read_loop.simps) (simp add: Let_def)

section \<open>Names and numbers\<close>

lemma std_rfind_last: "c \<notin> set ys \<Longrightarrow> std_rfind c (xs @ c # ys) = Some (length xs)"
  by (simp add: std_rfind_def std_find_append)

lemma procname_piece_line:
  assumes "CHR ''('' \<notin> set pid" and "CHR '')'' \<notin> set rest"
  shows "procname_piece (pid @ CHR ''('' # name @ CHR '')'' # rest) = Some (length pid + 1, length name)"
proof -
  let ?s = "pid @ CHR ''('' # name @ CHR '')'' # rest"
  have "std_find (CHR ''('') ?s = length pid" using assms(1) by (simp add: std_find_append)
  moreover have "std_rfind (CHR '')'') ?s = Some (length pid + 1 + length name)"
    using std_rfind_last [OF assms(2), of "pid @ CHR ''('' # name"] by simp
  ultimately show ?thesis by (simp add: procname_piece_def Let_def)
qed

lemma take_digits:
  assumes "rest = [] \<or> \<not> is_digit (hd rest)"
  shows "takeWhile (\<lambda>c. c \<in> set ''0123456789'') (show_nat n @ rest) = show_nat n"
proof -
  have "takeWhile (\<lambda>c. c \<in> set ''0123456789'') rest = []" using assms by (cases rest) (auto simp: is_digit_def)
  then show ?thesis using set_show_nat by (subst takeWhile_append2) auto
qed

lemma hd_show_nat: "is_digit (hd (show_nat n))"
  unfolding is_digit_def by (rule set_show_nat [OF hd_in_set]) simp

lemma is_digit_not: "is_digit c \<Longrightarrow> \<not> c_isspace c \<and> c \<noteq> CHR ''-'' \<and> c \<noteq> CHR ''+''"
  by (auto simp: is_digit_def c_isspace_def)

lemma c_atoi_show_nat:
  assumes "\<forall>c \<in> set sp. c_isspace c" and "rest = [] \<or> \<not> is_digit (hd rest)"
  shows "c_atoi (sp @ show_nat n @ rest) = int n"
proof -
  obtain d ds where d: "show_nat n = d # ds" using show_nat_nonempty by (cases "show_nat n") auto
  have "is_digit d" using hd_show_nat [of n] by (simp add: d)
  then have "\<not> c_isspace d" "d \<noteq> CHR ''-''" "d \<noteq> CHR ''+''" using is_digit_not by blast+
  then have "dropWhile c_isspace (sp @ show_nat n @ rest) = show_nat n @ rest" using assms(1) by (simp add: d)
  with \<open>d \<noteq> CHR ''-''\<close> \<open>d \<noteq> CHR ''+''\<close> show ?thesis
    using take_digits [OF assms(2), of n] digits_val_show_nat [of n] by (simp add: c_atoi_def Let_def d)
qed

lemma c_atoi_digits: "c_atoi (show_nat n) = int n"
  using c_atoi_show_nat [of "[]" "[]" n] by simp

lemma scan_tasks:
  "fold taskDirFilter names acc = acc @ map c_atoi (filter (\<lambda>s. s \<noteq> [] \<and> is_digit (hd s)) names)"
  by (induction names arbitrary: acc) (auto simp: taskDirFilter_def split: list.splits)

lemma scan_fds: "fold fdDirFilter names k = k + length (filter (\<lambda>s. s \<noteq> [] \<and> is_digit (hd s)) names)"
  by (induction names arbitrary: k) (auto simp: fdDirFilter_def split: list.splits)

section \<open>Properties\<close>

text \<open>
  A file is read up to the given size and no further, whatever pieces the kernel delivers it in:
  the call returns, the content is the beginning of the file, and the error is that of \<^verbatim>\<open>fstat\<close>, if it
  was asked for, or the one for directories.
\<close>

theorem readFile_exact:
  assumes "delivers data rd"
  shows "readFile rd st None want maxSize content =
    (fst (stat_info want st 0), take maxSize data, snd (stat_info want st 0))"
  using read_loop_delivers [OF assms, of 0 maxSize]
  by (simp add: readFile_def readToString_def ReadSmallFile_new_def split_def Let_def)

text \<open>A kernel that delivers two bytes at a time.\<close>

definition two_at_a_time :: "string \<Rightarrow> nat \<Rightarrow> nat \<Rightarrow> int + string" where
  "two_at_a_time data off n = Inr (take (min n 2) (drop off data))"

theorem readFile_exact_witness:
  "readFile (two_at_a_time ''btime 12'') (Inl 5) None (False, False, False) 5 [] = (0, ''btime'', no_info) \<and>
   delivers ''btime 12'' (two_at_a_time ''btime 12'')"
proof -
  have d: "delivers ''btime 12'' (two_at_a_time ''btime 12'')"
    unfolding delivers_def two_at_a_time_def
  proof (intro allI impI, elim conjE)
    fix off n :: nat assume "off \<le> length ''btime 12''" and "0 < n"
    then show "\<exists>m. (Inr (take (min n 2) (drop off ''btime 12'')) :: int + string) = Inr (take m (drop off ''btime 12'')) \<and>
      m \<le> n \<and> (off < length ''btime 12'' \<longrightarrow> 0 < m)" by (intro exI [of _ "min n 2"]) simp
  qed
  with readFile_exact [OF d, of "Inl 5" "(False, False, False)" 5 "[]"] show ?thesis by (simp add: stat_info_def)
qed

text \<open>
  The name of a program is what stands between the first opening and the last closing parenthesis of its
  status line, so a name that itself contains parentheses, blanks or digits is found whole; the number
  of threads is the one after its key; the threads are the numeric names, in increasing order.
\<close>

theorem process_facts:
  assumes "CHR ''('' \<notin> set pid" and "CHR '')'' \<notin> set rest"
    and "std_search ''Threads:'' (before @ ''Threads:'' @ after) = length before"
    and "\<forall>c \<in> set sp. c_isspace c" and "end' = [] \<or> \<not> is_digit (hd end')" and "after = sp @ show_nat n @ end'"
  shows "procname_of (pid @ CHR ''('' # name @ CHR '')'' # rest) = name"
    and "number_after ''Threads:'' (before @ ''Threads:'' @ after) = int n"
    and "sorted (pi_threads env)"
    and "mset (pi_threads env) = mset (map c_atoi (filter (\<lambda>s. s \<noteq> [] \<and> is_digit (hd s)) (pe_names env ''/proc/self/task'')))"
proof -
  show "procname_of (pid @ CHR ''('' # name @ CHR '')'' # rest) = name"
    by (simp add: procname_of_def procname_piece_line [OF assms(1,2)])
  show "number_after ''Threads:'' (before @ ''Threads:'' @ after) = int n"
    using assms(3) c_atoi_show_nat [OF assms(4,5), of n] by (simp add: number_after_def Let_def assms(6))
qed (simp_all add: pi_threads_def scanDir_def scan_tasks)

end
