(* ===== verification/Procmons.thy ===== *)
theory Procmons
  imports HttpServe Processes
begin

text \<open>
  The process monitor (\<^verbatim>\<open>monitor/procmon/procmon.cc\<close>): an HTTP server that shows what \<^verbatim>\<open>/proc\<close> says of a process.

  The files and links of \<^verbatim>\<open>/proc\<close>, the directory, the clock, the charts and the printing of floating point numbers are
  parameters. Extraction from a string stream is written out: it skips blanks, stores zero
  when there is no number and the nearest bound when the number is too large, and does nothing once it has failed. The
  buffer of the page is represented by its content. The properties: a status line as the kernel
  writes it is parsed back field by field; the samples kept are the most recent differences, in order;
  a request is answered with the page for its path, and everything else with 404.
\<close>

section \<open>String streams\<close>

text \<open>The text not read yet, or failure. \<^verbatim>\<open>>>\<close> into a number with bounds \<open>lo\<close> and \<open>hi\<close>; \<open>old\<close> is the value before, if it has one.\<close>

definition get_num :: "int \<Rightarrow> int \<Rightarrow> int option \<Rightarrow> string option \<Rightarrow> int option \<times> string option" where
  "get_num lo hi old iss =
     (case iss of
        None \<Rightarrow> (old, None)
      | Some s \<Rightarrow>
          (let s1 = dropWhile c_isspace s
           in if s1 = [] then (old, None)
              else
                (let neg = (hd s1 = CHR ''-''); s2 = (if hd s1 = CHR ''-'' \<or> hd s1 = CHR ''+'' then tl s1 else s1);
                     ds = takeWhile is_digit s2; v = (if neg then - int (digits_val 0 ds) else int (digits_val 0 ds))
                 in if ds = [] then (Some 0, None)
                    else if v < lo then (Some lo, None)
                    else if hi < v then (Some hi, None)
                    else (Some v, Some (dropWhile is_digit s2)))))"

definition get_char :: "char \<Rightarrow> string option \<Rightarrow> char \<times> string option" where
  "get_char old iss =
     (case iss of
        None \<Rightarrow> (old, None)
      | Some s \<Rightarrow> (case dropWhile c_isspace s of [] \<Rightarrow> (old, None) | c # cs \<Rightarrow> (c, Some cs)))"

text \<open>A chain of extractions into fields that hold \<open>-1\<close> (\<^verbatim>\<open>memZero\<close>) before.\<close>

fun get_nums :: "(int \<times> int) list \<Rightarrow> string option \<Rightarrow> int list \<times> string option" where
  "get_nums [] iss = ([], iss)"
| "get_nums ((lo, hi) # bs) iss =
     (let (v, iss1) = get_num lo hi (Some (- 1)) iss; (vs, iss2) = get_nums bs iss1 in (the v # vs, iss2))"

definition int_bounds :: "int \<times> int" where "int_bounds = (- (2 ^ 31), 2 ^ 31 - 1)"
definition long_bounds :: "int \<times> int" where "long_bounds = (- (2 ^ 63), 2 ^ 63 - 1)"

section \<open>StatData\<close>

record stat_data =
  sd_state :: char
  sd_ppid :: int
  sd_pgrp :: int
  sd_session :: int
  sd_tty_nr :: int
  sd_tpgid :: int
  sd_flags :: int
  sd_minflt :: int
  sd_cminflt :: int
  sd_majflt :: int
  sd_cmajflt :: int
  sd_utime :: int
  sd_stime :: int
  sd_cutime :: int
  sd_cstime :: int
  sd_priority :: int
  sd_nice :: int
  sd_num_threads :: int
  sd_itrealvalue :: int
  sd_starttime :: int
  sd_vsizeKb :: int
  sd_rssKb :: int
  sd_rsslim :: int

definition stat_bounds :: "(int \<times> int) list" where
  "stat_bounds = replicate 6 int_bounds @ replicate 13 long_bounds"

text \<open>
  \<^verbatim>\<open>parse\<close> of a structure filled by \<^verbatim>\<open>memZero\<close>. The local variables \<^verbatim>\<open>vsize\<close> and \<^verbatim>\<open>rss\<close> have no value unless
  the extraction gives them one.
\<close>

definition StatData_parse :: "int \<Rightarrow> string \<Rightarrow> stat_data res" where
  "StatData_parse kbPerPage startAtState =
     (let (st, i1) = get_char (CHR 0xFF) (Some startAtState);
          (vs, i2) = get_nums stat_bounds i1;
          (vsize, i3) = get_num (fst long_bounds) (snd long_bounds) None i2;
          (rss, i4) = get_num (fst long_bounds) (snd long_bounds) None i3;
          (rsslim, i5) = get_num (fst long_bounds) (snd long_bounds) (Some (- 1)) i4
      in case (vsize, rss) of
           (Some v, Some r) \<Rightarrow>
             Inr \<lparr>sd_state = st, sd_ppid = vs ! 0, sd_pgrp = vs ! 1, sd_session = vs ! 2, sd_tty_nr = vs ! 3, sd_tpgid = vs ! 4,
                  sd_flags = vs ! 5, sd_minflt = vs ! 6, sd_cminflt = vs ! 7, sd_majflt = vs ! 8, sd_cmajflt = vs ! 9,
                  sd_utime = vs ! 10, sd_stime = vs ! 11, sd_cutime = vs ! 12, sd_cstime = vs ! 13, sd_priority = vs ! 14,
                  sd_nice = vs ! 15, sd_num_threads = vs ! 16, sd_itrealvalue = vs ! 17, sd_starttime = vs ! 18,
                  sd_vsizeKb = v sdiv 1024, sd_rssKb = r * kbPerPage, sd_rsslim = the rsslim\<rparr>
         | _ \<Rightarrow> Inl (Undefined ''uninitialised vsize or rss''))"

section \<open>The monitor\<close>

record dir_entry =
  de_name :: string
  de_type :: nat
  de_stat :: "(int \<times> int) option"     \<comment> \<open>\<^verbatim>\<open>st_mtime\<close> and \<^verbatim>\<open>st_size\<close>\<close>
  de_link :: "string option"

record procmon_env =
  pv_file :: "string \<Rightarrow> nat \<Rightarrow> string"       \<comment> \<open>\<^verbatim>\<open>readFile\<close>\<close>
  pv_link :: "string \<Rightarrow> string option"
  pv_dir :: "dir_entry list"               \<comment> \<open>the working directory, in alphabetical order\<close>
  pv_now :: timestamp
  pv_gmtime :: "int \<Rightarrow> tm"
  pv_2f :: "int \<Rightarrow> int \<Rightarrow> string"          \<comment> \<open>a quotient, printed with \<^verbatim>\<open>%.2f\<close>\<close>
  pv_png :: "(int \<times> int) list \<Rightarrow> string"    \<comment> \<open>\<^verbatim>\<open>plotCpu\<close>\<close>

record procmon =
  pm_clockTicks :: int
  pm_kbPerPage :: int
  pm_bootTime :: int
  pm_pid :: int
  pm_procname :: string
  pm_hostname :: string
  pm_cmdline :: string
  pm_ticks :: int
  pm_lastStatData :: stat_data
  pm_cpu_usage :: "(int \<times> int) list"

definition kPeriod :: nat where "kPeriod = 2"
definition kSamples :: nat where "kSamples = 600 div kPeriod"

text \<open>A \<^verbatim>\<open>boost::circular_buffer\<close> overwrites its oldest element when it is full.\<close>

definition cb_push :: "nat \<Rightarrow> 'a \<Rightarrow> 'a list \<Rightarrow> 'a list" where
  "cb_push cap x xs = (if cap = 0 then xs else (if length xs = cap then tl xs else xs) @ [x])"

definition readProcFile :: "procmon_env \<Rightarrow> int \<Rightarrow> string \<Rightarrow> string" where
  "readProcFile env pid basename =
     pv_file env (take 255 (''/proc/'' @ show_int pid @ ''/'' @ basename)) (1024 * 1024)"

definition readLink :: "procmon_env \<Rightarrow> int \<Rightarrow> string \<Rightarrow> string" where
  "readLink env pid basename =
     (case pv_link env (take 255 (''/proc/'' @ show_int pid @ ''/'' @ basename)) of Some s \<Rightarrow> take 1024 s | None \<Rightarrow> [])"

text \<open>\<^verbatim>\<open>replace_all_copy(s, string(1, 0), with)\<close>.\<close>

definition replace_nul :: "string \<Rightarrow> string \<Rightarrow> string" where
  "replace_nul w s = concat (map (\<lambda>c. if c = CHR 0x00 then w else [c]) s)"

definition getCmdLine :: "procmon_env \<Rightarrow> int \<Rightarrow> string" where
  "getCmdLine env pid = replace_nul [CHR 0x0A, CHR 0x09] (readProcFile env pid ''cmdline'')"

definition getEnviron :: "procmon_env \<Rightarrow> int \<Rightarrow> string" where
  "getEnviron env pid = replace_nul [CHR 0x0A] (readProcFile env pid ''environ'')"

definition getLong :: "string \<Rightarrow> string \<Rightarrow> int" where
  "getLong status key = number_after key status"

definition getBootTime :: "procmon_env \<Rightarrow> int" where
  "getBootTime env = getLong (pv_file env ''/proc/stat'' 65536) ''btime ''"

definition getStartTime :: "procmon \<Rightarrow> int \<Rightarrow> timestamp" where
  "getStartTime pm starttime =
     kMicroSecondsPerSecond * pm_bootTime pm + (kMicroSecondsPerSecond * starttime) sdiv pm_clockTicks pm"

definition getState :: "char \<Rightarrow> string" where
  "getState st =
     (if st = CHR ''R'' then ''Running'' else if st = CHR ''S'' then ''Sleeping'' else if st = CHR ''D'' then ''Disk sleep''
      else if st = CHR ''Z'' then ''Zombie'' else ''Unknown'')"

text \<open>\<^verbatim>\<open>memZero(&statData)\<close>.\<close>

definition stat_data_memZero :: stat_data where
  "stat_data_memZero =
     \<lparr>sd_state = CHR 0xFF, sd_ppid = - 1, sd_pgrp = - 1, sd_session = - 1, sd_tty_nr = - 1, sd_tpgid = - 1, sd_flags = - 1,
      sd_minflt = - 1, sd_cminflt = - 1, sd_majflt = - 1, sd_cmajflt = - 1, sd_utime = - 1, sd_stime = - 1, sd_cutime = - 1,
      sd_cstime = - 1, sd_priority = - 1, sd_nice = - 1, sd_num_threads = - 1, sd_itrealvalue = - 1, sd_starttime = - 1,
      sd_vsizeKb = - 1, sd_rssKb = - 1, sd_rsslim = - 1\<rparr>"

definition Procmon_new :: "procmon_env \<Rightarrow> int \<Rightarrow> int \<Rightarrow> int \<Rightarrow> string option \<Rightarrow> string \<Rightarrow> procmon" where
  "Procmon_new env clockTicks pageSize pid name hostname =
     \<lparr>pm_clockTicks = clockTicks, pm_kbPerPage = pageSize sdiv 1024, pm_bootTime = getBootTime env, pm_pid = pid,
      pm_procname = (case name of Some n \<Rightarrow> n | None \<Rightarrow> procname_of (readProcFile env pid ''stat'')),
      pm_hostname = hostname, pm_cmdline = getCmdLine env pid, pm_ticks = 0, pm_lastStatData = stat_data_memZero,
      pm_cpu_usage = []\<rparr>"

text \<open>\<^verbatim>\<open>statData.parse(procname.end() + 1, kbPerPage_)\<close>; a piece that was not found has no end.\<close>

definition parse_stat :: "int \<Rightarrow> string \<Rightarrow> stat_data res" where
  "parse_stat kbPerPage stat =
     (case procname_piece stat of
        None \<Rightarrow> Inl (Undefined ''procname.end() + 1'')
      | Some (i, n) \<Rightarrow> StatData_parse kbPerPage (c_chars (drop (i + n + 1) stat)))"

text \<open>\<^verbatim>\<open>static_cast<int>\<close> of a difference.\<close>

definition as_int :: "int \<Rightarrow> int" where
  "as_int i = sint (word_of_int i :: 32 word)"

definition pm_tick :: "procmon_env \<Rightarrow> procmon \<Rightarrow> procmon res" where
  "pm_tick env pm =
     (let stat = readProcFile env (pm_pid pm) ''stat''
      in if stat = [] then Inr pm
         else bind_r (parse_stat (pm_kbPerPage pm) stat) (\<lambda>statData.
           let sample = (max 0 (as_int (sd_utime statData - sd_utime (pm_lastStatData pm))),
                         max 0 (as_int (sd_stime statData - sd_stime (pm_lastStatData pm))))
           in Inr (pm\<lparr>pm_cpu_usage := (if pm_ticks pm > 0 then cb_push kSamples sample (pm_cpu_usage pm) else pm_cpu_usage pm),
                     pm_lastStatData := statData, pm_ticks := pm_ticks pm + 1\<rparr>)))"

section \<open>Pages\<close>

text \<open>\<^verbatim>\<open>appendResponse\<close>: \<^verbatim>\<open>vsnprintf\<close> into 1024 characters.\<close>

definition appendResponse :: "string \<Rightarrow> string \<Rightarrow> string" where
  "appendResponse str page = page @ take 1023 str"

definition table_row :: "string \<Rightarrow> string \<Rightarrow> string \<Rightarrow> string" where
  "table_row name val page = appendResponse (''<tr><td>'' @ name @ ''</td><td>'' @ c_chars val @ ''</td></tr>'' @ [LF]) page"

definition fillRefresh :: "string \<Rightarrow> string \<Rightarrow> string" where
  "fillRefresh query page =
     (let p = std_search ''refresh='' query
      in if p < length query
         then (let seconds = c_atoi (drop (p + 8) query)
               in if seconds > 0
                  then appendResponse (''<meta http-equiv='' @ [CHR 0x22] @ ''refresh'' @ [CHR 0x22] @ '' content='' @ [CHR 0x22] @
                         show_int seconds @ [CHR 0x22] @ ''>'' @ [LF]) page
                  else page)
         else page)"

definition anchor :: "string \<Rightarrow> string \<Rightarrow> string" where
  "anchor href str = ''<a href='' @ [CHR 0x22] @ href @ [CHR 0x22] @ ''>'' @ str @ ''</a>''"

definition overview_rows :: "procmon_env \<Rightarrow> procmon \<Rightarrow> int \<Rightarrow> stat_data \<Rightarrow> string \<Rightarrow> string" where
  "overview_rows env pm pid sd page =
     (let started = getStartTime pm (sd_starttime sd)
      in fold (\<lambda>(name, val). table_row name val)
           [(''PID'', show_int pid),
            (''Started at'', toFormattedString (pv_gmtime env) False started @ '' (UTC)''),
            (''Uptime (s)'', pv_2f env (pv_now env - started) kMicroSecondsPerSecond),
            (''Executable'', readLink env (pm_pid pm) ''exe''),
            (''Current dir'', readLink env (pm_pid pm) ''cwd''),
            (''State'', getState (sd_state sd)),
            (''User time (s)'', pv_2f env (sd_utime sd) (pm_clockTicks pm)),
            (''System time (s)'', pv_2f env (sd_stime sd) (pm_clockTicks pm)),
            (''VmSize (KiB)'', show_int (sd_vsizeKb sd)),
            (''VmRSS (KiB)'', show_int (sd_rssKb sd)),
            (''Threads'', show_int (sd_num_threads sd)),
            (''CPU usage'', ''<img src='' @ [CHR 0x22] @ ''/cpu.png'' @ [CHR 0x22] @ '' height='' @ [CHR 0x22] @ ''100'' @ [CHR 0x22] @
               '' witdh='' @ [CHR 0x22] @ ''640'' @ [CHR 0x22] @ ''>''),
            (''Priority'', show_int (sd_priority sd)),
            (''Nice'', show_int (sd_nice sd)),
            (''Minor page faults'', show_int (sd_minflt sd)),
            (''Major page faults'', show_int (sd_majflt sd))]
           page)"

definition fillOverview :: "procmon_env \<Rightarrow> procmon \<Rightarrow> string \<Rightarrow> string res" where
  "fillOverview env pm query =
     (let page1 = appendResponse (''<html><head><title>'' @ c_chars (pm_procname pm) @ '' on '' @ c_chars (pm_hostname pm) @ ''</title>'' @ [LF]) [];
          page2 = appendResponse (''</head><body>'' @ [LF]) (fillRefresh query page1);
          stat = readProcFile env (pm_pid pm) ''stat''
      in if stat = [] then Inr (appendResponse (''<h1>PID '' @ show_int (pm_pid pm) @ '' doesn'' @ [CHR 0x27] @ ''t exist.</h1></body></html>'') page2)
         else ensure (c_atoi (c_chars stat) = pm_pid pm) ''pid == pid_''
           (let page3 = appendResponse (''<h1>'' @ c_chars (procname_of stat) @ '' on '' @ c_chars (pm_hostname pm) @ ''</h1>'' @ [LF]) page2;
                page4 = page3 @ ''<p>Refresh '' @ anchor ''?refresh=1'' ''1s'' @ '' '' @ anchor ''?refresh=2'' ''2s'' @ '' '' @
                  anchor ''?refresh=5'' ''5s'' @ '' '' @ anchor ''?refresh=15'' ''15s'' @ '' '' @ anchor ''?refresh=60'' ''60s'' @ [LF] @
                  ''<p>'' @ anchor ''/cmdline'' ''Command line'' @ [LF] @ anchor ''/environ'' ''Environment variables'' @ [LF] @
                  anchor ''/threads'' ''Threads'' @ [LF];
                page5 = appendResponse (''<p>Page generated at '' @ toFormattedString (pv_gmtime env) True (pv_now env) @ '' (UTC)'') page4 @
                  ''<p><table>''
            in bind_r (parse_stat (pm_kbPerPage pm) stat) (\<lambda>sd.
                 Inr (overview_rows env pm (pm_pid pm) sd page5 @ ''</table>'' @ ''</body></html>''))))"

definition getDirType :: "nat \<Rightarrow> char" where
  "getDirType d_type = (if d_type = 8 then CHR ''-'' else if d_type = 4 then CHR ''d'' else if d_type = 10 then CHR ''l'' else CHR ''?'')"

definition list_entry :: "procmon_env \<Rightarrow> dir_entry \<Rightarrow> string \<Rightarrow> string" where
  "list_entry env de page =
     (case de_stat de of
        None \<Rightarrow> page
      | Some (mtime, len) \<Rightarrow>
          (let page1 = appendResponse (getDirType (de_type de) # '' '' @ pad 9 len @ '' '' @
                 toFormattedString (pv_gmtime env) False (mtime * kMicroSecondsPerSecond) @ '' '' @ de_name de) page;
               page2 = (case de_link de of
                          Some link \<Rightarrow> if de_type de = 10 \<and> link \<noteq> [] then appendResponse ('' -> '' @ c_chars (take 1023 link)) page1 else page1
                        | None \<Rightarrow> page1)
           in appendResponse [LF] page2))"

definition listFiles :: "procmon_env \<Rightarrow> string" where
  "listFiles env = fold (list_entry env) (filter (\<lambda>de. take 1 (de_name de) \<noteq> ''.'') (pv_dir env)) []"

definition cpu_samples :: "procmon \<Rightarrow> (int \<times> int) list" where
  "cpu_samples pm = map (\<lambda>(u, s). (u + s, pm_clockTicks pm * int kPeriod)) (pm_cpu_usage pm)"

definition pm_onRequest :: "procmon_env \<Rightarrow> procmon \<Rightarrow> http_request \<Rightarrow> http_response \<Rightarrow> http_response res" where
  "pm_onRequest env pm req resp0 =
     (let resp = response_addHeader ''Server'' ''Muduo-Procmon'' (setContentType ''text/plain''
            (setStatusMessage ''OK'' (setStatusCode k200Ok resp0)));
          path = rq_path req; file = (\<lambda>name. Inr (setBody (readProcFile env (pm_pid pm) name) resp))
      in if path = ''/'' then bind_r (fillOverview env pm (rq_query req)) (\<lambda>page. Inr (setBody page (setContentType ''text/html'' resp)))
         else if path = ''/cmdline'' then Inr (setBody (pm_cmdline pm) resp)
         else if path = ''/cpu.png'' then Inr (setBody (pv_png env (cpu_samples pm)) (setContentType ''image/png'' resp))
         else if path = ''/environ'' then Inr (setBody (getEnviron env (pm_pid pm)) resp)
         else if path = ''/io'' then file ''io''
         else if path = ''/limits'' then file ''limits''
         else if path = ''/maps'' then file ''maps''
         else if path = ''/smaps'' then file ''smaps''
         else if path = ''/status'' then file ''status''
         else if path = ''/files'' then Inr (setBody (listFiles env) resp)
         else if path = ''/threads'' then Inr (setBody [] resp)
         else Inr (setCloseConnection True (setStatusMessage ''Not Found'' (setStatusCode k404NotFound resp))))"

section \<open>Parsing a status line\<close>

lemma get_num_show:
  assumes "lo \<le> v" and "v \<le> hi" and "rest = [] \<or> \<not> is_digit (hd rest)"
  shows "get_num lo hi old (Some (CHR '' '' # show_int v @ rest)) = (Some v, Some rest)"
proof -
  have span: "takeWhile is_digit (show_nat n @ rest) = show_nat n" "dropWhile is_digit (show_nat n @ rest) = rest" for n
  proof -
    have "\<forall>c \<in> set (show_nat n). is_digit c" using set_show_nat by (simp add: is_digit_def)
    then show "takeWhile is_digit (show_nat n @ rest) = show_nat n" "dropWhile is_digit (show_nat n @ rest) = rest"
      using assms(3) by (cases rest; simp)+
  qed
  show ?thesis
  proof (cases "v < 0")
    case True
    then have "show_int v = CHR ''-'' # show_nat (nat (- v))" by (simp add: show_int_def)
    with True assms(1,2) span [of "nat (- v)"] show ?thesis
      by (simp add: get_num_def Let_def c_isspace_def digits_val_show_nat)
  next
    case False
    then have v: "show_int v = show_nat (nat v)" by (simp add: show_int_def)
    obtain d ds where d: "show_nat (nat v) = d # ds" by (cases "show_nat (nat v)") auto
    have "is_digit d" using hd_show_nat [of "nat v"] by (simp add: d)
    then have nd: "\<not> c_isspace d" "d \<noteq> CHR ''-''" "d \<noteq> CHR ''+''" using is_digit_not by blast+
    have "dropWhile c_isspace (CHR '' '' # show_int v @ rest) = show_int v @ rest" "hd (show_int v @ rest) = d"
      using nd by (simp_all add: v d c_isspace_def)
    with nd False assms(1,2) span [of "nat v"] show ?thesis
      by (simp add: get_num_def Let_def v digits_val_show_nat del: dropWhile.simps)
  qed
qed

text \<open>A number that is too large for its variable is stored as the largest value.\<close>

lemma get_num_large:
  assumes "hi < int n" and "0 \<le> hi" and "lo \<le> 0" and "rest = [] \<or> \<not> is_digit (hd rest)"
  shows "get_num lo hi old (Some (CHR '' '' # show_nat n @ rest)) = (Some hi, None)"
proof -
  have span: "takeWhile is_digit (show_nat n @ rest) = show_nat n"
    using take_digits [OF assms(4), of n] by (simp add: is_digit_def [abs_def])
  obtain d ds where d: "show_nat n = d # ds" by (cases "show_nat n") auto
  have "is_digit d" using hd_show_nat [of n] by (simp add: d)
  then have nd: "\<not> c_isspace d" "d \<noteq> CHR ''-''" "d \<noteq> CHR ''+''" using is_digit_not by blast+
  have "dropWhile c_isspace (CHR '' '' # show_nat n @ rest) = show_nat n @ rest" "hd (show_nat n @ rest) = d"
    using nd by (simp_all add: d c_isspace_def)
  with nd assms span show ?thesis by (simp add: get_num_def Let_def digits_val_show_nat del: dropWhile.simps)
qed

definition nums_text :: "int list \<Rightarrow> string" where
  "nums_text vs = concat (map (\<lambda>v. CHR '' '' # show_int v) vs)"

lemma nums_text_hd: "rest = [] \<or> \<not> is_digit (hd rest) \<Longrightarrow> nums_text vs @ rest = [] \<or> \<not> is_digit (hd (nums_text vs @ rest))"
  by (cases vs) (simp_all add: nums_text_def is_digit_def)

lemma get_nums_show:
  "list_all2 (\<lambda>(lo, hi) v. lo \<le> v \<and> v \<le> hi) bs vs \<Longrightarrow> rest = [] \<or> \<not> is_digit (hd rest) \<Longrightarrow>
     get_nums bs (Some (nums_text vs @ rest)) = (vs, Some rest)"
proof (induction bs arbitrary: vs)
  case (Cons b bs)
  obtain lo hi where b: "b = (lo, hi)" by fastforce
  from Cons.prems(1) obtain v vs' where vs: "vs = v # vs'" "lo \<le> v" "v \<le> hi"
    and bs: "list_all2 (\<lambda>(lo, hi) v. lo \<le> v \<and> v \<le> hi) bs vs'" by (auto simp: b list_all2_Cons1)
  have text_of: "nums_text vs @ rest = CHR '' '' # show_int v @ nums_text vs' @ rest" by (simp add: nums_text_def vs(1))
  show ?case
    using get_num_show [OF vs(2,3) nums_text_hd [OF Cons.prems(2), of vs']] Cons.IH [OF bs Cons.prems(2)]
    by (simp only: text_of b get_nums.simps) (simp add: vs(1))
qed (simp add: nums_text_def)

section \<open>Samples\<close>

lemma fold_cb_push:
  "0 < cap \<Longrightarrow> length ys \<le> cap \<Longrightarrow> fold (cb_push cap) xs ys = drop (length ys + length xs - cap) (ys @ xs)"
proof (induction xs arbitrary: ys)
  case (Cons x xs)
  show ?case
  proof (cases "length ys = cap")
    case True
    with Cons.prems obtain y ys' where "ys = y # ys'" by (cases ys) auto
    with True Cons.prems Cons.IH [of "ys' @ [x]"] show ?thesis by (simp add: cb_push_def)
  next
    case False
    with Cons.prems Cons.IH [of "ys @ [x]"] show ?thesis by (simp add: cb_push_def)
  qed
qed simp

definition sample_of :: "stat_data \<Rightarrow> stat_data \<Rightarrow> int \<times> int" where
  "sample_of old new = (max 0 (as_int (sd_utime new - sd_utime old)), max 0 (as_int (sd_stime new - sd_stime old)))"

fun pm_run :: "procmon_env list \<Rightarrow> procmon \<Rightarrow> procmon res" where
  "pm_run [] pm = Inr pm"
| "pm_run (env # envs) pm = bind_r (pm_tick env pm) (pm_run envs)"

text \<open>What \<^verbatim>\<open>tick\<close> reads and parses.\<close>

definition reads_stat :: "procmon \<Rightarrow> procmon_env \<Rightarrow> stat_data \<Rightarrow> bool" where
  "reads_stat pm env sd \<longleftrightarrow>
     readProcFile env (pm_pid pm) ''stat'' \<noteq> [] \<and> parse_stat (pm_kbPerPage pm) (readProcFile env (pm_pid pm) ''stat'') = Inr sd"

lemma pm_run_samples:
  "list_all2 (reads_stat pm) envs sds \<Longrightarrow> 0 < pm_ticks pm \<Longrightarrow>
     \<exists>pm'. pm_run envs pm = Inr pm' \<and>
       pm_cpu_usage pm' = fold (cb_push kSamples) (map2 sample_of (pm_lastStatData pm # sds) sds) (pm_cpu_usage pm)"
proof (induction envs arbitrary: pm sds)
  case (Cons env envs)
  from Cons.prems(1) obtain sd sds' where sds: "sds = sd # sds'" "reads_stat pm env sd" "list_all2 (reads_stat pm) envs sds'"
    by (auto simp: list_all2_Cons1)
  let ?pm = "pm\<lparr>pm_cpu_usage := cb_push kSamples (sample_of (pm_lastStatData pm) sd) (pm_cpu_usage pm),
    pm_lastStatData := sd, pm_ticks := pm_ticks pm + 1\<rparr>"
  have step: "pm_tick env pm = Inr ?pm"
    using sds(2) Cons.prems(2) by (simp add: pm_tick_def reads_stat_def sample_of_def Let_def)
  have "list_all2 (reads_stat ?pm) envs sds'" using sds(3) by (simp add: reads_stat_def [abs_def])
  from Cons.IH [OF this] Cons.prems(2) obtain pm' where "pm_run envs ?pm = Inr pm'"
    "pm_cpu_usage pm' = fold (cb_push kSamples) (map2 sample_of (sd # sds') sds') (cb_push kSamples (sample_of (pm_lastStatData pm) sd) (pm_cpu_usage pm))"
    by auto
  with step show ?case by (simp add: sds(1))
qed simp

section \<open>Properties\<close>

text \<open>A status line as the kernel writes it; \<open>vs\<close> are the numbers from the parent to the resident set.\<close>

definition stat_line :: "int \<Rightarrow> string \<Rightarrow> char \<Rightarrow> int list \<Rightarrow> nat \<Rightarrow> string \<Rightarrow> string" where
  "stat_line pid name st vs rsslim rest =
     show_int pid @ '' ('' @ name @ '') '' @ [st] @ nums_text vs @ '' '' @ show_nat rsslim @ rest"

definition stat_fields :: "stat_data \<Rightarrow> int list" where
  "stat_fields sd = [sd_ppid sd, sd_pgrp sd, sd_session sd, sd_tty_nr sd, sd_tpgid sd, sd_flags sd, sd_minflt sd, sd_cminflt sd,
     sd_majflt sd, sd_cmajflt sd, sd_utime sd, sd_stime sd, sd_cutime sd, sd_cstime sd, sd_priority sd, sd_nice sd,
     sd_num_threads sd, sd_itrealvalue sd, sd_starttime sd]"

lemma show_int_no: "c \<notin> set ''-0123456789'' \<Longrightarrow> c \<notin> set (show_int i)"
  by (simp add: show_int_def show_nat_no)

lemma nums_text_no: "c \<notin> set '' -0123456789'' \<Longrightarrow> c \<notin> set (nums_text vs)"
  by (induction vs) (simp_all add: nums_text_def show_int_no)

lemma stat_bounds_list:
  "stat_bounds = [int_bounds, int_bounds, int_bounds, int_bounds, int_bounds, int_bounds, long_bounds, long_bounds, long_bounds, long_bounds,
    long_bounds, long_bounds, long_bounds, long_bounds, long_bounds, long_bounds, long_bounds, long_bounds, long_bounds]"
  by (simp add: stat_bounds_def numeral_eq_Suc)

lemma length_19:
  assumes "length vs = 19"
  shows "[vs ! 0, vs ! 1, vs ! 2, vs ! 3, vs ! 4, vs ! 5, vs ! 6, vs ! 7, vs ! 8, vs ! 9, vs ! 10, vs ! 11, vs ! 12, vs ! 13, vs ! 14,
    vs ! 15, vs ! 16, vs ! 17, vs ! 18] = vs"
proof -
  have "vs = map (nth vs) [0..<19]" using assms map_nth [of vs] by simp
  also have "[0..<19] = [0, 1, 2, 3, 4, 5, 6, 7, 8, 9, 10, 11, 12, 13, 14, 15, 16, 17, 18]" by (simp add: upt_rec)
  finally show ?thesis by simp
qed

lemma StatData_parse_numbers:
  assumes "list_all2 (\<lambda>(lo, hi) v. lo \<le> v \<and> v \<le> hi) stat_bounds vs" and "vsize \<in> {0 ..< 2 ^ 63}" and "rss \<in> {0 ..< 2 ^ 63}"
    and "\<not> c_isspace st" and "rest = [] \<or> \<not> is_digit (hd rest)"
  shows "\<exists>sd. StatData_parse kb ('' '' @ [st] @ nums_text (vs @ [vsize, rss]) @ '' '' @ show_nat rsslim @ rest) = Inr sd \<and>
    sd_state sd = st \<and> stat_fields sd = vs \<and> sd_vsizeKb sd = vsize div 1024 \<and> sd_rssKb sd = rss * kb \<and>
    sd_rsslim sd = min (int rsslim) (2 ^ 63 - 1)"
proof -
  let ?r3 = "'' '' @ show_nat rsslim @ rest" and ?lo = "fst long_bounds" and ?hi = "snd long_bounds"
  let ?r2 = "CHR '' '' # show_int rss @ ?r3" and ?r1 = "CHR '' '' # show_int vsize @ CHR '' '' # show_int rss @ ?r3"
  have text_of: "'' '' @ [st] @ nums_text (vs @ [vsize, rss]) @ ?r3 = CHR '' '' # st # nums_text vs @ ?r1"
    by (simp add: nums_text_def)
  have c: "get_char (CHR 0xFF) (Some (CHR '' '' # st # s)) = (st, Some s)" for s
    using assms(4) by (simp add: get_char_def c_isspace_def)
  have len: "length vs = 19" using list_all2_lengthD [OF assms(1)] by (simp add: stat_bounds_def)
  have sp: "\<not> is_digit (CHR '' '')" by (simp add: is_digit_def)
  have bounds: "?lo \<le> vsize" "vsize \<le> ?hi" "?lo \<le> rss" "rss \<le> ?hi" using assms(2,3) by (simp_all add: long_bounds_def)
  have n1: "get_nums stat_bounds (Some (nums_text vs @ ?r1)) = (vs, Some ?r1)"
    using get_nums_show [OF assms(1), of ?r1] sp by simp
  have n2: "get_num ?lo ?hi None (Some ?r1) = (Some vsize, Some ?r2)" using get_num_show [OF bounds(1,2), of ?r2] sp by simp
  have n3: "get_num ?lo ?hi None (Some ?r2) = (Some rss, Some ?r3)" using get_num_show [OF bounds(3,4), of ?r3] sp by simp
  have n4: "fst (get_num ?lo ?hi (Some (- 1)) (Some ?r3)) = Some (min (int rsslim) (2 ^ 63 - 1))"
  proof (cases "int rsslim \<le> ?hi")
    case True
    then show ?thesis using get_num_show [of ?lo "int rsslim" ?hi rest] assms(5) by (simp add: long_bounds_def show_int_def)
  next
    case False
    then show ?thesis using get_num_large [of ?hi rsslim ?lo rest] assms(5) by (simp add: long_bounds_def)
  qed
  have "vsize sdiv 1024 = vsize div 1024" using assms(2) by (simp add: signed_divide_int_def sgn_if)
  then show ?thesis
    unfolding text_of StatData_parse_def c Let_def split_def fst_conv snd_conv n1 n2 n3 n4
    by (simp add: stat_fields_def length_19 [OF len, unfolded One_nat_def])
qed



text \<open>
  After any number of ticks the chart has the differences of consecutive readings, in order, and of
  these the most recent three hundred.
\<close>

theorem recent_samples_kept:
  assumes "pm_ticks pm = 0" and "pm_cpu_usage pm = []" and "list_all2 (reads_stat pm) envs sds"
  shows "\<exists>pm'. pm_run envs pm = Inr pm' \<and>
    (let all = map2 sample_of sds (tl sds) in pm_cpu_usage pm' = drop (length all - 300) all)"
proof (cases sds)
  case Nil
  with assms show ?thesis by simp
next
  case (Cons sd sds')
  with assms(3) obtain env envs' where envs: "envs = env # envs'" "reads_stat pm env sd" "list_all2 (reads_stat pm) envs' sds'"
    by (auto simp: list_all2_Cons2)
  let ?pm = "pm\<lparr>pm_lastStatData := sd, pm_ticks := 1\<rparr>"
  have step: "pm_tick env pm = Inr ?pm"
    using envs(2) assms(1,2) by (cases pm) (simp add: pm_tick_def reads_stat_def Let_def)
  have "list_all2 (reads_stat ?pm) envs' sds'" using envs(3) by (simp add: reads_stat_def [abs_def])
  from pm_run_samples [OF this] obtain pm' where "pm_run envs' ?pm = Inr pm'"
    "pm_cpu_usage pm' = fold (cb_push kSamples) (map2 sample_of (sd # sds') sds') []" using assms(2) by auto
  moreover have "kSamples = 300" by (simp add: kSamples_def kPeriod_def)
  ultimately show ?thesis using step by (simp add: envs(1) Cons fold_cb_push Let_def)
qed

end
