(* ===== verification/HeartBeats.thy ===== *)
theory HeartBeats
  imports Prelude
begin

text \<open>
  Heartbeats: the sending side (\<^verbatim>\<open>webServer/start_up.cpp\<close>, \<^verbatim>\<open>cgiServer/start_up.cpp\<close>) and the monitor that
  displays which servers are alive (\<^verbatim>\<open>monitor/heartBeatMonitor.cpp\<close>).

  A sender takes its loops in turn. The monitor keeps global tables, changed by the callbacks of its server; a message
  is whatever one read of the socket gave. The properties: the web server deals its loops
  evenly and the other one never leaves the first; the monitor shows a server as off exactly when its last
  message is twelve seconds old, as long as each connection sends one identity; what happens when
  messages are joined.
\<close>

section \<open>Senders\<close>

text \<open>\<^verbatim>\<open>loopSendHeartBeat\<close> of the web server: the loop that is used, and the counter after it.\<close>

definition web_loopSendHeartBeat :: "nat \<Rightarrow> nat \<Rightarrow> nat \<times> nat" where
  "web_loopSendHeartBeat n count = (count, (count + 1) mod n)"

text \<open>\<^verbatim>\<open>count = (count++) % N\<close>: the assignment comes after the increment.\<close>

definition cgi_loopSendHeartBeat :: "nat \<Rightarrow> nat \<Rightarrow> nat \<times> nat" where
  "cgi_loopSendHeartBeat n count = (let old = count; incremented = count + 1 in (count, old mod n))"

fun deal :: "(nat \<Rightarrow> nat \<times> nat) \<Rightarrow> nat \<Rightarrow> nat \<Rightarrow> nat list" where
  "deal f 0 count = []"
| "deal f (Suc k) count = fst (f count) # deal f k (snd (f count))"

text \<open>The text a sender identifies itself with.\<close>

definition heartBeat_identification :: "string \<Rightarrow> nat \<Rightarrow> nat \<Rightarrow> string" where
  "heartBeat_identification ipPort time pid = ipPort @ [CHR 0x27] @ show_nat time @ [CHR 0x27] @ show_nat pid"

section \<open>The monitor\<close>

record monitor =
  mo_map :: "string \<Rightarrow> string option"          \<comment> \<open>\<^verbatim>\<open>map\<close>: the status shown\<close>
  mo_vec :: "nat list"                         \<comment> \<open>\<^verbatim>\<open>vec\<close>: connections\<close>
  mo_identity :: "nat \<Rightarrow> string option"        \<comment> \<open>\<^verbatim>\<open>identityMap\<close>\<close>
  mo_time :: "string \<Rightarrow> int option"            \<comment> \<open>\<^verbatim>\<open>timeMap\<close>\<close>

definition monitor_new :: monitor where
  "monitor_new = \<lparr>mo_map = Map.empty, mo_vec = [], mo_identity = Map.empty, mo_time = Map.empty\<rparr>"

text \<open>Called when a connection comes up and again when it goes down.\<close>

definition mo_onConnection :: "nat \<Rightarrow> monitor \<Rightarrow> monitor" where
  "mo_onConnection conn m = m\<lparr>mo_vec := mo_vec m @ [conn]\<rparr>"

definition mo_onMessage :: "int \<Rightarrow> nat \<Rightarrow> string \<Rightarrow> monitor \<Rightarrow> monitor" where
  "mo_onMessage now conn identity m =
     m\<lparr>mo_map := (mo_map m)(identity \<mapsto> ''ON''), mo_identity := (mo_identity m)(conn \<mapsto> identity),
       mo_time := (mo_time m)(identity \<mapsto> now)\<rparr>"

text \<open>\<^verbatim>\<open>operator[]\<close> inserts what is missing: the empty identity, and time zero.\<close>

definition identity_at :: "nat \<Rightarrow> monitor \<Rightarrow> string \<times> monitor" where
  "identity_at conn m =
     (case mo_identity m conn of Some i \<Rightarrow> (i, m) | None \<Rightarrow> ([], m\<lparr>mo_identity := (mo_identity m)(conn \<mapsto> [])\<rparr>))"

definition time_at :: "string \<Rightarrow> monitor \<Rightarrow> int \<times> monitor" where
  "time_at i m = (case mo_time m i of Some t \<Rightarrow> (t, m) | None \<Rightarrow> (0, m\<lparr>mo_time := (mo_time m)(i \<mapsto> 0)\<rparr>))"

text \<open>The first loop of \<^verbatim>\<open>displayStatus\<close>; differences are those of an \<^verbatim>\<open>int\<close>.\<close>

definition check_conn :: "int \<Rightarrow> nat \<Rightarrow> monitor \<Rightarrow> monitor" where
  "check_conn now conn m =
     (let (i, m1) = identity_at conn m; (last_time, m2) = time_at i m1;
          diff = sint (word_of_int (now - last_time) :: 32 word)
      in if diff \<ge> 10 + 2 then m2\<lparr>mo_map := (mo_map m2)(i \<mapsto> ''OFF'')\<rparr> else m2)"

definition mo_check :: "int \<Rightarrow> monitor \<Rightarrow> monitor" where
  "mo_check now m = fold (check_conn now) (mo_vec m) m"

text \<open>The second loop: the lines, for the identities of the map in its order.\<close>

definition status_line :: "(int \<Rightarrow> string) \<Rightarrow> monitor \<Rightarrow> string \<Rightarrow> string list" where
  "status_line ctime m i =
     (case mo_map m i of
        None \<Rightarrow> []
      | Some st \<Rightarrow>
          (let esc = CHR 0x1B; time = (case mo_time m i of Some t \<Rightarrow> t | None \<Rightarrow> 0);
               line = (\<lambda>colour. c_chars i @ '' : '' @ [esc] @ colour @ st @ [esc] @ ''[0m'' @ [CHR 0x09] @ ''lastest HeartBeat : '' @ ctime time @ [LF])
           in if st = ''ON'' then [line ''[0;32m''] else if st = ''OFF'' \<and> i \<noteq> [] then [line ''[0;31m''] else []))"

definition displayStatus :: "(int \<Rightarrow> string) \<Rightarrow> int \<Rightarrow> string list \<Rightarrow> monitor \<Rightarrow> string list \<times> monitor" where
  "displayStatus ctime now order m = (let m1 = mo_check now m in (concat (map (status_line ctime m1) order), m1))"

datatype mo_event = MoConn nat | MoMessage int nat string | MoDisplay int

fun mo_do :: "mo_event \<Rightarrow> monitor \<Rightarrow> monitor" where
  "mo_do (MoConn conn) m = mo_onConnection conn m"
| "mo_do (MoMessage now conn identity) m = mo_onMessage now conn identity m"
| "mo_do (MoDisplay now) m = mo_check now m"

section \<open>Dealing\<close>

lemma web_loopSendHeartBeat_simps [simp]:
  "fst (web_loopSendHeartBeat n count) = count" "snd (web_loopSendHeartBeat n count) = (count + 1) mod n"
  by (simp_all add: web_loopSendHeartBeat_def)

lemma deal_web: "0 < n \<Longrightarrow> count < n \<Longrightarrow> deal (web_loopSendHeartBeat n) k count = map (\<lambda>j. (count + j) mod n) [0..<k]"
proof (induction k arbitrary: count)
  case (Suc k)
  have "deal (web_loopSendHeartBeat n) (Suc k) count = count # map (\<lambda>j. ((count + 1) mod n + j) mod n) [0..<k]"
    using Suc.IH [of "(count + 1) mod n"] Suc.prems by simp
  also have "\<dots> = map (\<lambda>j. (count + j) mod n) (0 # map Suc [0..<k])"
    using Suc.prems by (simp add: comp_def mod_add_left_eq)
  also have "0 # map Suc [0..<k] = [0..<Suc k]" by (simp add: map_Suc_upt upt_conv_Cons)
  finally show ?case .
qed simp

theorem web_heartbeats_in_turn:
  assumes "0 < n"
  shows "deal (web_loopSendHeartBeat n) k 0 = map (\<lambda>j. j mod n) [0..<k]"
  using deal_web [of n 0 k] assms by simp

text \<open>The counter of the FastCGI server never leaves zero, so only the first loop sends.\<close>

theorem cgi_heartbeats_stuck: "deal (cgi_loopSendHeartBeat n) k 0 = replicate k 0"
  by (induction k) (simp_all add: cgi_loopSendHeartBeat_def)

section \<open>The display\<close>

text \<open>What holds at time \<open>clk\<close> when each connection that sends keeps to one identity.\<close>

definition mo_ok :: "int \<Rightarrow> monitor \<Rightarrow> bool" where
  "mo_ok clk m \<longleftrightarrow>
     (\<forall>c i. mo_identity m c = Some i \<and> i \<noteq> [] \<longrightarrow> mo_time m i \<noteq> None) \<and>
     (\<forall>i t. i \<noteq> [] \<and> mo_time m i = Some t \<longrightarrow>
        0 \<le> t \<and> t \<le> clk \<and> (\<exists>c \<in> set (mo_vec m). mo_identity m c = Some i) \<and>
        (mo_map m i = Some ''ON'' \<or> mo_map m i = Some ''OFF'' \<and> t + 12 \<le> clk))"

fun mo_time_of :: "int \<Rightarrow> mo_event \<Rightarrow> int" where
  "mo_time_of clk (MoConn conn) = clk"
| "mo_time_of clk (MoMessage now conn identity) = now"
| "mo_time_of clk (MoDisplay now) = now"

text \<open>Time does not go back, and stays in the range of a 32 bit integer.\<close>

fun mo_may :: "int \<Rightarrow> mo_event \<Rightarrow> monitor \<Rightarrow> bool" where
  "mo_may clk (MoConn conn) m = True"
| "mo_may clk (MoMessage now conn identity) m \<longleftrightarrow>
     clk \<le> now \<and> identity \<noteq> [] \<and> conn \<in> set (mo_vec m) \<and> mo_identity m conn \<in> {None, Some [], Some identity}"
| "mo_may clk (MoDisplay now) m \<longleftrightarrow> clk \<le> now \<and> now < 2 ^ 31"

fun mo_run :: "mo_event list \<Rightarrow> monitor \<Rightarrow> monitor" where
  "mo_run [] m = m"
| "mo_run (e # es) m = mo_run es (mo_do e m)"

fun mo_history :: "int \<Rightarrow> mo_event list \<Rightarrow> monitor \<Rightarrow> bool" where
  "mo_history clk [] m = True"
| "mo_history clk (e # es) m \<longleftrightarrow> mo_may clk e m \<and> mo_history (mo_time_of clk e) es (mo_do e m)"

definition late :: "int \<Rightarrow> monitor \<Rightarrow> string \<Rightarrow> bool" where
  "late now m i \<longleftrightarrow> (\<exists>t. mo_time m i = Some t \<and> 12 \<le> sint (word_of_int (now - t) :: 32 word))"

definition identities_timed :: "monitor \<Rightarrow> bool" where
  "identities_timed m \<longleftrightarrow> (\<forall>c i. mo_identity m c = Some i \<and> i \<noteq> [] \<longrightarrow> mo_time m i \<noteq> None)"

lemma identities_timedD:
  "identities_timed m \<Longrightarrow> mo_identity m c = Some i \<Longrightarrow> i \<noteq> [] \<Longrightarrow> \<exists>t. mo_time m i = Some t"
  unfolding identities_timed_def by fastforce

lemma check_conn_effect:
  assumes "identities_timed m"
  shows "mo_vec (check_conn now c m) = mo_vec m"
    and "i \<noteq> [] \<Longrightarrow> mo_identity (check_conn now c m) c' = Some i \<longleftrightarrow> mo_identity m c' = Some i"
    and "i \<noteq> [] \<Longrightarrow> mo_time (check_conn now c m) i = mo_time m i"
    and "i \<noteq> [] \<Longrightarrow> mo_map (check_conn now c m) i = (if mo_identity m c = Some i \<and> late now m i then Some ''OFF'' else mo_map m i)"
  using assms
  by (auto simp: check_conn_def identity_at_def time_at_def Let_def split_def late_def dest: identities_timedD split: option.splits)

lemma check_conn_timed:
  assumes "identities_timed m"
  shows "identities_timed (check_conn now c m)"
  unfolding identities_timed_def
proof (intro allI impI)
  fix c' i assume i: "mo_identity (check_conn now c m) c' = Some i \<and> i \<noteq> []"
  note eff = check_conn_effect(2,3) [OF assms, where now = now and c = c]
  have "mo_identity m c' = Some i" "i \<noteq> []" using i eff(1) [of i c'] by simp_all
  with identities_timedD [OF assms] eff(2) show "mo_time (check_conn now c m) i \<noteq> None" by fastforce
qed

lemma check_all_effect:
  assumes "identities_timed m"
  shows "mo_vec (fold (check_conn now) cs m) = mo_vec m \<and> identities_timed (fold (check_conn now) cs m) \<and>
    (\<forall>i. i \<noteq> [] \<longrightarrow> (\<forall>c'. mo_identity (fold (check_conn now) cs m) c' = Some i \<longleftrightarrow> mo_identity m c' = Some i) \<and>
       mo_time (fold (check_conn now) cs m) i = mo_time m i \<and>
       mo_map (fold (check_conn now) cs m) i =
         (if (\<exists>c \<in> set cs. mo_identity m c = Some i) \<and> late now m i then Some ''OFF'' else mo_map m i))"
  using assms
proof (induction cs arbitrary: m)
  case (Cons c cs)
  note step = check_conn_effect [OF Cons.prems, where now = now and c = c]
  have "late now (check_conn now c m) i = late now m i" if "i \<noteq> []" for i using step(3) that by (simp add: late_def)
  with Cons.IH [OF check_conn_timed [OF Cons.prems], of now c] step show ?case by auto
qed simp

lemma late_iff:
  assumes "mo_time m i = Some t" and "0 \<le> t" and "t \<le> now" and "now < 2 ^ 31"
  shows "late now m i \<longleftrightarrow> t + 12 \<le> now"
proof -
  have "sint (word_of_int (now - t) :: 32 word) = now - t"
    unfolding signed_of_int using assms by (simp add: signed_take_bit_int_eq_self)
  then show ?thesis using assms(1) by (auto simp: late_def)
qed

lemma mo_ok_check:
  assumes ok: "mo_ok clk m" and "clk \<le> now" and "now < 2 ^ 31"
  shows "mo_ok now (mo_check now m)"
    and "i \<noteq> [] \<Longrightarrow> mo_time m i = Some t \<Longrightarrow> mo_time (mo_check now m) i = Some t \<and>
      mo_map (mo_check now m) i = Some (if t + 12 \<le> now then ''OFF'' else ''ON'')"
proof -
  have timed: "identities_timed m" using ok unfolding mo_ok_def identities_timed_def by blast
  note eff = check_all_effect [OF timed, of now "mo_vec m", folded mo_check_def]
  show shown: "mo_time (mo_check now m) i = Some t \<and> mo_map (mo_check now m) i = Some (if t + 12 \<le> now then ''OFF'' else ''ON'')"
    if i: "i \<noteq> []" "mo_time m i = Some t" for i t
  proof -
    have "0 \<le> t \<and> t \<le> clk \<and> (\<exists>c \<in> set (mo_vec m). mo_identity m c = Some i) \<and>
        (mo_map m i = Some ''ON'' \<or> mo_map m i = Some ''OFF'' \<and> t + 12 \<le> clk)"
      using ok i unfolding mo_ok_def by blast
    with eff late_iff [OF i(2), of now] i assms(2,3) show ?thesis by auto
  qed
  show "mo_ok now (mo_check now m)"
    unfolding mo_ok_def
  proof (intro conjI allI impI)
    fix c i assume "mo_identity (mo_check now m) c = Some i \<and> i \<noteq> []"
    then show "mo_time (mo_check now m) i \<noteq> None" using eff by (auto simp: identities_timed_def)
  next
    fix i t assume a: "i \<noteq> [] \<and> mo_time (mo_check now m) i = Some t"
    have "mo_time (mo_check now m) i = mo_time m i" using eff a by blast
    with a have t: "mo_time m i = Some t" by simp
    with ok a have old: "0 \<le> t" "t \<le> clk" "\<exists>c \<in> set (mo_vec m). mo_identity m c = Some i" unfolding mo_ok_def by blast+
    from old show "0 \<le> t" "t \<le> now" using assms(2) by simp_all
    from old(3) eff a show "\<exists>c \<in> set (mo_vec (mo_check now m)). mo_identity (mo_check now m) c = Some i" by simp
    from shown [OF _ t] a show "mo_map (mo_check now m) i = Some ''ON'' \<or> mo_map (mo_check now m) i = Some ''OFF'' \<and> t + 12 \<le> now"
      by (simp split: if_splits)
  qed
qed

lemma mo_ok_message:
  assumes ok: "mo_ok clk m" and "0 \<le> clk" and "mo_may clk (MoMessage now c i) m"
  shows "mo_ok now (mo_onMessage now c i m)"
proof -
  have may: "clk \<le> now" "i \<noteq> []" "c \<in> set (mo_vec m)" "mo_identity m c \<in> {None, Some [], Some i}" using assms(3) by simp_all
  show ?thesis
    unfolding mo_ok_def
  proof (intro conjI allI impI)
    fix c' j assume "mo_identity (mo_onMessage now c i m) c' = Some j \<and> j \<noteq> []"
    then show "mo_time (mo_onMessage now c i m) j \<noteq> None"
      using ok may by (auto simp: mo_onMessage_def mo_ok_def split: if_splits)
  next
    fix j t assume j: "j \<noteq> [] \<and> mo_time (mo_onMessage now c i m) j = Some t"
    have "0 \<le> t \<and> t \<le> now \<and> (\<exists>c' \<in> set (mo_vec m). mo_identity (mo_onMessage now c i m) c' = Some j) \<and>
      (mo_map (mo_onMessage now c i m) j = Some ''ON'' \<or> mo_map (mo_onMessage now c i m) j = Some ''OFF'' \<and> t + 12 \<le> now)"
    proof (cases "j = i")
      case True
      with j may assms(2) show ?thesis by (auto simp: mo_onMessage_def)
    next
      case False
      with j have "mo_time m j = Some t" by (simp add: mo_onMessage_def)
      with ok j have old: "0 \<le> t" "t \<le> clk" "\<exists>c' \<in> set (mo_vec m). mo_identity m c' = Some j"
        "mo_map m j = Some ''ON'' \<or> mo_map m j = Some ''OFF'' \<and> t + 12 \<le> clk" unfolding mo_ok_def by blast+
      from old(3) obtain c' where c': "c' \<in> set (mo_vec m)" "mo_identity m c' = Some j" by blast
      with may(4) False j have "c' \<noteq> c" by auto
      with c' old(1,2,4) False may(1) show ?thesis by (auto simp: mo_onMessage_def intro!: bexI [of _ c'])
    qed
    then show "0 \<le> t" "t \<le> now" "\<exists>c' \<in> set (mo_vec (mo_onMessage now c i m)). mo_identity (mo_onMessage now c i m) c' = Some j"
      "mo_map (mo_onMessage now c i m) j = Some ''ON'' \<or> mo_map (mo_onMessage now c i m) j = Some ''OFF'' \<and> t + 12 \<le> now"
      by (simp_all add: mo_onMessage_def)
  qed
qed

fun mo_clock :: "int \<Rightarrow> mo_event list \<Rightarrow> int" where
  "mo_clock clk [] = clk"
| "mo_clock clk (e # es) = mo_clock (mo_time_of clk e) es"

lemma mo_history_append:
  "mo_history clk (xs @ ys) m \<longleftrightarrow> mo_history clk xs m \<and> mo_history (mo_clock clk xs) ys (mo_run xs m)"
  by (induction xs arbitrary: clk m) auto

lemma mo_run_append: "mo_run (xs @ ys) m = mo_run ys (mo_run xs m)"
  by (induction xs arbitrary: m) simp_all

lemma mo_ok_do:
  assumes "mo_ok clk m" and "0 \<le> clk" and "mo_may clk e m"
  shows "mo_ok (mo_time_of clk e) (mo_do e m)" and "0 \<le> mo_time_of clk e"
proof -
  show "mo_ok (mo_time_of clk e) (mo_do e m)"
  proof (cases e)
    case (MoConn c)
    with assms(1) show ?thesis unfolding mo_ok_def by (simp add: mo_onConnection_def) blast
  next
    case (MoMessage now c i)
    with assms mo_ok_message [OF assms(1,2), of now c i] show ?thesis by simp
  next
    case (MoDisplay now)
    with assms mo_ok_check(1) [OF assms(1), of now] show ?thesis by simp
  qed
  show "0 \<le> mo_time_of clk e" using assms(2,3) by (cases e) simp_all
qed

lemma mo_ok_run: "mo_ok clk m \<Longrightarrow> 0 \<le> clk \<Longrightarrow> mo_history clk es m \<Longrightarrow> mo_ok (mo_clock clk es) (mo_run es m)"
proof (induction es arbitrary: clk m)
  case (Cons e es)
  then have "mo_may clk e m" by simp
  with Cons mo_ok_do [OF Cons.prems(1,2) this] show ?case by simp
qed simp

section \<open>Properties\<close>

text \<open>
  However connections come and go and messages arrive, as long as each connection sends one identity and time
  does not go back, the display shows a server as off if its last message is twelve seconds old or older,
  and as on otherwise.
\<close>

theorem display_exact:
  assumes "mo_history 0 (es @ [MoDisplay now]) monitor_new" and "i \<noteq> []" and "mo_time (mo_run es monitor_new) i = Some t"
  shows "mo_map (mo_run (es @ [MoDisplay now]) monitor_new) i = Some (if t + 12 \<le> now then ''OFF'' else ''ON'')"
proof -
  from assms(1) have es: "mo_history 0 es monitor_new" and now: "mo_clock 0 es \<le> now" "now < 2 ^ 31"
    by (simp_all add: mo_history_append)
  have "mo_ok 0 monitor_new" by (simp add: mo_ok_def monitor_new_def)
  from mo_ok_check(2) [OF mo_ok_run [OF this _ es] now assms(2,3)] show ?thesis by (simp add: mo_run_append)
qed

theorem display_exact_witness:
  "mo_map (mo_run ([MoConn 0, MoMessage 100 0 ''a'', MoConn 1, MoMessage 105 1 ''b''] @ [MoDisplay 112]) monitor_new) ''a'' =
     Some (if 100 + 12 \<le> (112 :: int) then ''OFF'' else ''ON'') \<and>
   mo_map (mo_run ([MoConn 0, MoMessage 100 0 ''a'', MoConn 1, MoMessage 105 1 ''b''] @ [MoDisplay 112]) monitor_new) ''b'' =
     Some (if 105 + 12 \<le> (112 :: int) then ''OFF'' else ''ON'')"
  by (intro conjI; rule display_exact) (simp_all add: monitor_new_def mo_onConnection_def mo_onMessage_def)

text \<open>
  Messages are not delimited: when two heartbeats of a server arrive in one read, they are taken for one of another
  server. From then on nothing updates the entry of the server, and nothing turns it off, so it is
  shown as on for ever.
\<close>

theorem joined_heartbeats_stay_on:
  assumes "i \<noteq> []"
  shows "mo_map (mo_run ([MoConn 0, MoMessage t 0 i, MoMessage t' 0 (i @ i)] @ map MoDisplay ts) monitor_new) i = Some ''ON''"
proof -
  define P where "P m \<longleftrightarrow> mo_map m i = Some ''ON'' \<and> mo_identity m 0 = Some (i @ i) \<and> mo_vec m = [0]" for m :: monitor
  have step: "P (mo_check now m)" if "P m" for now m
    using that assms by (auto simp: P_def mo_check_def check_conn_def identity_at_def time_at_def Let_def split: option.splits)
  have "P (mo_run (map MoDisplay ts) m)" if "P m" for m
    using that by (induction ts arbitrary: m) (simp_all add: step)
  with assms show ?thesis by (simp add: P_def monitor_new_def mo_onConnection_def mo_onMessage_def)
qed

end
