(* ===== verification/ThreadObjects.thy ===== *)
theory ThreadObjects
  imports Threads
begin

text \<open>
  Thread objects (\<^verbatim>\<open>base/thread/Thread.cpp\<close>, \<^verbatim>\<open>base/thread/Thread.h\<close>): creation of a thread, the handshake of \<^verbatim>\<open>start\<close> with
  the new thread through the latch, \<^verbatim>\<open>join\<close> and destruction.

  The object is used by one thread; the new thread runs \<^verbatim>\<open>ThreadData::runInThread\<close> interleaved with it. Whether
  \<^verbatim>\<open>pthread_create\<close> succeeds and how the function ends are choices of the environment; the latch is that of
  the theory of threads. The properties: used in order, no assertion fails and \<^verbatim>\<open>start\<close> returns only when the identifier of the thread is known; after
  \<^verbatim>\<open>start\<close> has returned the new thread does not touch the object any more; a thread that could not be created cannot be joined.
\<close>

section \<open>State\<close>

text \<open>The places of the thread that owns the object and of the new thread.\<close>

datatype owner_pc = OwnerIdle | OwnerWaits | OwnerStarted | OwnerJoins | OwnerDone

datatype child_pc = NoChild | ChildNew | ChildTid | ChildNamed | ChildFinished | ChildCrashed

record thread_object =
  th_started :: bool
  th_joined :: bool
  th_tid :: int
  th_name :: string
  th_latch :: latch
  th_owner :: owner_pc
  th_child :: child_pc
  th_threadName :: string      \<comment> \<open>\<^verbatim>\<open>t_threadName\<close> of the new thread\<close>
  th_detached :: bool

definition setDefaultName :: "int \<Rightarrow> string \<Rightarrow> string" where
  "setDefaultName num name = (if name = [] then take 31 (''Thread'' @ show_int num) else name)"

text \<open>\<open>num\<close>: what \<^verbatim>\<open>numCreated_.incrementAndGet()\<close> gives.\<close>

definition Thread_new :: "int \<Rightarrow> string \<Rightarrow> thread_object" where
  "Thread_new num name =
     \<lparr>th_started = False, th_joined = False, th_tid = 0, th_name = setDefaultName num name, th_latch = CountDownLatch_new 1,
      th_owner = OwnerIdle, th_child = NoChild, th_threadName = ''unknow'', th_detached = False\<rparr>"

section \<open>Operations\<close>

text \<open>\<^verbatim>\<open>start()\<close> up to the wait; \<open>created\<close>: \<^verbatim>\<open>pthread_create\<close> succeeds.\<close>

definition th_start :: "bool \<Rightarrow> thread_object \<Rightarrow> thread_object res" where
  "th_start created th =
     ensure (\<not> th_started th) ''!started_''
       (if created
        then Inr (th\<lparr>th_started := True, th_child := ChildNew, th_latch := latch_do CallWait (th_latch th), th_owner := OwnerWaits\<rparr>)
        else Inr (th\<lparr>th_started := False\<rparr>))"

text \<open>A test of the count in \<^verbatim>\<open>latch_.wait()\<close>, and the assertion behind it.\<close>

definition th_wait :: "thread_object \<Rightarrow> thread_object res" where
  "th_wait th =
     (let l = latch_wait 0 (th_latch th); th1 = th\<lparr>th_latch := l\<rparr>
      in if l_threads l ! 0 = LReturned then ensure (th_tid th > 0) ''tid_>0'' (Inr (th1\<lparr>th_owner := OwnerStarted\<rparr>)) else Inr th1)"

definition th_join :: "thread_object \<Rightarrow> thread_object res" where
  "th_join th = ensure (th_started th) ''started_'' (ensure (\<not> th_joined th) ''!joined_'' (Inr (th\<lparr>th_joined := True, th_owner := OwnerJoins\<rparr>)))"

definition Thread_delete :: "thread_object \<Rightarrow> thread_object" where
  "Thread_delete th = (if th_started th \<and> \<not> th_joined th then th\<lparr>th_detached := True, th_owner := OwnerDone\<rparr> else th\<lparr>th_owner := OwnerDone\<rparr>)"

text \<open>\<^verbatim>\<open>runInThread\<close>: the identifier, the latch and the name, then the function.\<close>

definition run_tid :: "int \<Rightarrow> thread_object \<Rightarrow> thread_object" where
  "run_tid gettid th = th\<lparr>th_tid := gettid, th_child := ChildTid\<rparr>"

definition run_latch :: "thread_object \<Rightarrow> thread_object" where
  "run_latch th = th\<lparr>th_latch := countDown (th_latch th), th_threadName := (if th_name th = [] then ''Thread'' else th_name th),
     th_child := ChildNamed\<rparr>"

text \<open>The ways \<^verbatim>\<open>func_\<close> can end.\<close>

datatype func_end = Returns | ThrowsException | ThrowsStd | ThrowsOther

fun run_end :: "func_end \<Rightarrow> thread_object \<Rightarrow> thread_object res" where
  "run_end Returns th = Inr (th\<lparr>th_threadName := ''finished'', th_child := ChildFinished\<rparr>)"
| "run_end ThrowsException th = Inl (Abort ''exception caught in Thread'')"
| "run_end ThrowsStd th = Inl (Abort ''exception caught in Thread'')"
| "run_end ThrowsOther th = Inl (Throws ''unknown exception caught in Thread'')"

section \<open>Interleavings\<close>

datatype th_event = ThStart bool | ThTest | ThSpurious | ThTid | ThLatch | ThEnd func_end | ThJoin | ThJoined | ThDelete

text \<open>
  What can happen: the owner starts the thread at first, or again after a failure, and joins it at most once;
  \<^verbatim>\<open>pthread_join\<close> returns when the thread has ended.
\<close>

fun th_may :: "th_event \<Rightarrow> thread_object \<Rightarrow> bool" where
  "th_may (ThStart created) th \<longleftrightarrow> th_owner th = OwnerIdle"
| "th_may ThTest th \<longleftrightarrow> th_owner th = OwnerWaits \<and> l_threads (th_latch th) ! 0 = LTest"
| "th_may ThSpurious th \<longleftrightarrow> th_owner th = OwnerWaits \<and> l_threads (th_latch th) ! 0 = LWait"
| "th_may ThTid th \<longleftrightarrow> th_child th = ChildNew"
| "th_may ThLatch th \<longleftrightarrow> th_child th = ChildTid"
| "th_may (ThEnd e) th \<longleftrightarrow> th_child th = ChildNamed \<and> e = Returns"
| "th_may ThJoin th \<longleftrightarrow> th_owner th = OwnerStarted \<and> \<not> th_joined th"
| "th_may ThJoined th \<longleftrightarrow> th_owner th = OwnerJoins \<and> th_child th = ChildFinished"
| "th_may ThDelete th \<longleftrightarrow> th_owner th \<in> {OwnerIdle, OwnerStarted}"

fun th_do :: "int \<Rightarrow> th_event \<Rightarrow> thread_object \<Rightarrow> thread_object res" where
  "th_do gettid (ThStart created) th = th_start created th"
| "th_do gettid ThTest th = th_wait th"
| "th_do gettid ThSpurious th = Inr (th\<lparr>th_latch := latch_do (Spurious 0) (th_latch th)\<rparr>)"
| "th_do gettid ThTid th = Inr (run_tid gettid th)"
| "th_do gettid ThLatch th = Inr (run_latch th)"
| "th_do gettid (ThEnd e) th = run_end e th"
| "th_do gettid ThJoin th = th_join th"
| "th_do gettid ThJoined th = Inr (th\<lparr>th_owner := OwnerStarted\<rparr>)"
| "th_do gettid ThDelete th = Inr (Thread_delete th)"

inductive th_reachable :: "int \<Rightarrow> thread_object \<Rightarrow> bool" for gettid :: int where
  th_init: "th_reachable gettid (Thread_new num name)"
| th_step: "th_reachable gettid th \<Longrightarrow> th_may e th \<Longrightarrow> th_do gettid e th = Inr th' \<Longrightarrow> th_reachable gettid th'"

inductive_cases th_reachableE: "th_reachable gettid th"

section \<open>The invariant\<close>

definition child_counted :: "child_pc \<Rightarrow> bool" where
  "child_counted c \<longleftrightarrow> c \<in> {ChildNamed, ChildFinished}"

definition th_ok :: "int \<Rightarrow> thread_object \<Rightarrow> bool" where
  "th_ok gettid th \<longleftrightarrow>
     (case th_owner th of
        OwnerIdle \<Rightarrow> \<not> th_started th \<and> \<not> th_joined th \<and> th_child th = NoChild \<and> th_latch th = CountDownLatch_new 1
      | OwnerWaits \<Rightarrow> th_started th \<and> \<not> th_joined th \<and> th_child th \<noteq> NoChild \<and>
          (\<exists>p. l_threads (th_latch th) = [p] \<and> p \<noteq> LReturned \<and> (p = LWait \<longrightarrow> \<not> child_counted (th_child th)))
      | OwnerStarted \<Rightarrow> th_started th \<and> child_counted (th_child th)
      | OwnerJoins \<Rightarrow> th_started th \<and> th_joined th \<and> child_counted (th_child th)
      | OwnerDone \<Rightarrow> th_child th \<in> {NoChild, ChildNamed, ChildFinished}) \<and>
     (th_child th \<noteq> NoChild \<longrightarrow> l_count (th_latch th) = (if child_counted (th_child th) then 0 else 1)) \<and>
     (th_child th \<in> {ChildTid, ChildNamed, ChildFinished} \<longrightarrow> th_tid th = gettid) \<and> th_child th \<noteq> ChildCrashed \<and> th_name th \<noteq> []"

lemma th_ok_new: "th_ok gettid (Thread_new num name)"
  by (simp add: th_ok_def Thread_new_def setDefaultName_def)

lemma th_ok_step:
  assumes "th_ok gettid th" and "0 < gettid" and "th_may e th"
  shows "returns (th_do gettid e th) (th_ok gettid)"
proof (cases e)
  case (ThStart created)
  with assms show ?thesis
    by (auto simp: th_start_def th_ok_def returns_def ensure_def child_counted_def CountDownLatch_new_def)
next
  case ThTest
  with assms(3) have o: "th_owner th = OwnerWaits" and t: "l_threads (th_latch th) ! 0 = LTest" by simp_all
  with assms(1) have "l_threads (th_latch th) = [LTest]" "th_started th" "\<not> th_joined th" "th_child th \<noteq> NoChild"
    by (auto simp: th_ok_def)
  with assms ThTest o show ?thesis
    by (cases "child_counted (th_child th)")
      (auto simp: th_wait_def latch_wait_def Let_def th_ok_def returns_def ensure_def child_counted_def)
next
  case ThSpurious
  with assms show ?thesis by (auto simp: th_ok_def returns_def)
next
  case ThTid
  with assms show ?thesis by (auto simp: th_ok_def returns_def run_tid_def child_counted_def split: owner_pc.splits)
next
  case ThLatch
  with assms show ?thesis
    by (auto simp: th_ok_def returns_def run_latch_def child_counted_def countDown_def latch_notifyAll_def Let_def split: owner_pc.splits)
next
  case (ThEnd f)
  with assms show ?thesis by (auto simp: th_ok_def returns_def child_counted_def split: owner_pc.splits)
qed (use assms in \<open>auto simp: th_ok_def returns_def th_join_def Thread_delete_def ensure_def child_counted_def\<close>)

lemma th_reachable_ok: "th_reachable gettid th \<Longrightarrow> 0 < gettid \<Longrightarrow> th_ok gettid th"
proof (induction rule: th_reachable.induct)
  case (th_step th e th')
  from th_ok_step [OF th_step.IH [OF th_step.prems] th_step.prems th_step.hyps(2)] th_step.hyps(3) show ?case
    by (simp add: returns_def)
qed (simp add: th_ok_new)

section \<open>Properties\<close>

text \<open>
  A thread object that is started once, or again after a failure, and joined at most once, never fails an
  assertion, however the two threads interleave and however often the wait is woken for nothing; once \<^verbatim>\<open>start\<close> has returned, the identifier of
  the thread is the one the kernel gave it, and the new thread has left the part of
  \<^verbatim>\<open>runInThread\<close> that uses the object.
\<close>

theorem thread_object_safe:
  assumes "th_reachable gettid th" and "0 < gettid"
  shows "(\<forall>e. th_may e th \<longrightarrow> (\<exists>th'. th_do gettid e th = Inr th')) \<and>
    (th_owner th \<in> {OwnerStarted, OwnerJoins} \<longrightarrow> th_tid th = gettid \<and> th_child th \<in> {ChildNamed, ChildFinished})"
proof -
  note ok = th_reachable_ok [OF assms]
  have "\<exists>th'. th_do gettid e th = Inr th'" if "th_may e th" for e
    using th_ok_step [OF ok assms(2) that] by (auto elim: returnsE)
  moreover have "th_tid th = gettid \<and> th_child th \<in> {ChildNamed, ChildFinished}" if "th_owner th \<in> {OwnerStarted, OwnerJoins}"
    using ok that by (auto simp: th_ok_def child_counted_def)
  ultimately show ?thesis by blast
qed

text \<open>
  \<^verbatim>\<open>start\<close> does not report that the thread could not be created; joining the object then fails an
  assertion.
\<close>

theorem join_after_failed_start_asserts:
  "bind_r (th_start False (Thread_new num name)) th_join = Inl (AssertFail ''started_'')"
  by (simp add: th_start_def th_join_def Thread_new_def ensure_def)

end
