(* ===== verification/StartUps.thy ===== *)
theory StartUps
  imports Clients HeartBeats Loggers
begin

text \<open>
  The start-up programs of the two servers (\<^verbatim>\<open>webServer/start_up.cpp\<close>, \<^verbatim>\<open>cgiServer/start_up.cpp\<close>): the level and the name of
  the log, and the client that sends heartbeats to the monitor.

  The client is that of theory \<open>Clients\<close>; the callback of its connection connects again when the
  connection is lost, inside the handler that closes it, and \<^verbatim>\<open>stop\<close> deletes the client. The properties: in
  whatever order this happens no assertion fails; until it is stopped the sender always has a connection
  or an attempt to get one; and how the test of the weak pointer in another thread goes wrong.
\<close>

section \<open>Settings of the log\<close>

text \<open>\<^verbatim>\<open>boost::algorithm::to_lower\<close>, for the characters of ASCII.\<close>

definition to_lower :: "string \<Rightarrow> string" where
  "to_lower s = map (\<lambda>c. if 65 \<le> (of_char c :: nat) \<and> (of_char c :: nat) \<le> 90 then char_of (of_char c + 32 :: nat) else c) s"

text \<open>The chain of comparisons; \<open>None\<close>: the program ends with \<^verbatim>\<open>log_level error\<close>.\<close>

definition parse_log_level :: "string \<Rightarrow> log_level option" where
  "parse_log_level s =
     (let l = to_lower s
      in if l = ''trace'' then Some TRACE else if l = ''debug'' then Some DEBUG else if l = ''info'' then Some INFO
         else if l = ''warn'' then Some WARN else if l = ''error'' then Some ERROR else if l = ''fatal'' then Some FATAL else None)"

text \<open>
  The loop that collects the characters of the program's path from its end: \<open>name\<close> is what was collected, the
  second argument the characters at index \<^verbatim>\<open>i\<close> and below, the last one first.
\<close>

fun base_name_loop :: "string \<Rightarrow> string \<Rightarrow> string res" where
  "base_name_loop name [] = Inl (Undefined ''exe_path[-1]'')"
| "base_name_loop name (c # cs) = (if c \<noteq> CHR ''/'' then base_name_loop (name @ [c]) cs else Inr name)"

definition logBaseName :: "string \<Rightarrow> string res" where
  "logBaseName exe_path = bind_r (base_name_loop [] (rev exe_path)) (\<lambda>name. Inr (rev name))"

section \<open>The sender of heartbeats\<close>

record 'c heartbeat =
  hb_client :: "'c client"
  hb_conn :: "nat option"           \<comment> \<open>\<^verbatim>\<open>g_conn\<close>, a weak pointer: an index of the connections\<close>
  hb_identification :: string
  hb_close :: bool                  \<comment> \<open>\<^verbatim>\<open>closeHeartBeat\<close>\<close>

text \<open>The local address of the socket, the time and the process, as seen when connection \<open>i\<close> comes up.\<close>

record hb_env =
  he_ipPort :: "nat \<Rightarrow> string"
  he_time :: "nat \<Rightarrow> nat"
  he_pid :: nat

definition heartbeat_new :: "'c heartbeat" where
  "heartbeat_new = \<lparr>hb_client = TcpClient_new ''HeartBeatChecker'', hb_conn = None, hb_identification = [], hb_close = False\<rparr>"

text \<open>\<^verbatim>\<open>onConnectionHeartBeat\<close> for a connection that is up, and for one that went down.\<close>

definition hb_up :: "hb_env \<Rightarrow> nat \<Rightarrow> 'c heartbeat \<Rightarrow> 'c heartbeat" where
  "hb_up H i s = s\<lparr>hb_conn := Some i, hb_identification := heartBeat_identification (he_ipPort H i) (he_time H i) (he_pid H)\<rparr>"

definition hb_down :: "'c cl_env \<Rightarrow> 'c heartbeat \<Rightarrow> 'c heartbeat res" where
  "hb_down E s =
     (if \<not> hb_close s
      then if cl_deleted (hb_client s) then Inl (Undefined ''null g_client'')
           else bind_r (cl_connect_call E True (hb_client s)) (\<lambda>c. Inr (s\<lparr>hb_client := c\<rparr>))
      else Inr s)"

text \<open>The callback of the FastCGI server, where \<^verbatim>\<open>g_conn\<close> is a shared pointer.\<close>

definition cgi_hb_down :: "'c cl_env \<Rightarrow> 'c heartbeat \<Rightarrow> 'c heartbeat res" where
  "cgi_hb_down E s =
     bind_r (cl_connect_call E True (hb_client s)) (\<lambda>c. Inr (s\<lparr>hb_conn := None, hb_client := c\<rparr>))"

text \<open>
  An event of a connection. When it closes, \<^verbatim>\<open>handleClose\<close> calls the connection callback and then the close
  callback, which is \<^verbatim>\<open>TcpClient::removeConnection\<close>.
\<close>

definition hb_conn_event :: "'c cl_env \<Rightarrow> nat \<Rightarrow> conn_event \<Rightarrow> 'c heartbeat \<Rightarrow> 'c heartbeat res" where
  "hb_conn_event E i e s =
     (let c0 = cl_conn (hb_client s) i
      in bind_r (conn_step (li_conn E) e c0) (\<lambda>c.
         let s1 = s\<lparr>hb_client := cl_set_conn i c (hb_client s)\<rparr>
         in bind_r (if NoteDown \<in> set (cn_log c) \<and> NoteDown \<notin> set (cn_log c0) then hb_down E s1 else Inr s1) (\<lambda>s2.
            if NoteClosed \<in> set (cn_log c) \<and> NoteClosed \<notin> set (cn_log c0)
            then bind_r (cl_removeConnection E i (hb_client s2)) (\<lambda>k. Inr (s2\<lparr>hb_client := k\<rparr>)) else Inr s2)))"

text \<open>An event of the connector; it may bring a connection up.\<close>

definition hb_connector_event :: "'c cl_env \<Rightarrow> hb_env \<Rightarrow> connector_event \<Rightarrow> 'c heartbeat \<Rightarrow> 'c heartbeat res" where
  "hb_connector_event E H e s =
     bind_r (cl_connector_event E e (hb_client s)) (\<lambda>k.
       let s1 = s\<lparr>hb_client := k\<rparr>; n = length (cl_objs (hb_client s))
       in Inr (if n < length (cl_objs k) then hb_up H n s1 else s1))"

text \<open>
  A connection object lives as long as its channel is in the loop or functors of it are queued. Sending is a
  test of the weak pointer and then a use of it, which other threads can come between.
\<close>

definition hb_expired :: "'c heartbeat \<Rightarrow> bool" where
  "hb_expired s =
     (case hb_conn s of
        None \<Rightarrow> True
      | Some i \<Rightarrow> (let c = cl_conn (hb_client s) i in \<not> ch_addedToLoop (cn_channel c) \<and> cn_queued c = []))"

definition hb_send_locked :: "'c cl_env \<Rightarrow> bool \<Rightarrow> 'c heartbeat \<Rightarrow> 'c heartbeat res" where
  "hb_send_locked E inl s =
     (case hb_conn s of
        Some i \<Rightarrow> if hb_expired s then Inl (Undefined ''null g_conn.lock()'')
                  else hb_conn_event E i (UserCall inl (OpSend (hb_identification s))) s
      | None \<Rightarrow> Inl (Undefined ''null g_conn.lock()''))"

definition SendHeartBeat :: "'c cl_env \<Rightarrow> bool \<Rightarrow> 'c heartbeat \<Rightarrow> 'c heartbeat res" where
  "SendHeartBeat E inl s = (if \<not> hb_expired s then hb_send_locked E inl s else Inr s)"

text \<open>\<^verbatim>\<open>stop\<close>, run by the loop.\<close>

definition hb_stop :: "'c cl_env \<Rightarrow> bool \<Rightarrow> 'c heartbeat \<Rightarrow> 'c heartbeat res" where
  "hb_stop E unique s =
     (let s1 = s\<lparr>hb_close := True\<rparr>
      in if \<not> cl_deleted (hb_client s1)
         then bind_r (TcpClient_delete E unique (hb_client s1)) (\<lambda>c. Inr (s1\<lparr>hb_client := c\<rparr>))
         else Inr s1)"

datatype hb_event =
    HbConnector connector_event
  | HbConn nat conn_event
  | HbSend bool
  | HbStop bool
  | HbDestroy

fun hb_step :: "'c cl_env \<Rightarrow> hb_env \<Rightarrow> hb_event \<Rightarrow> 'c heartbeat \<Rightarrow> 'c heartbeat res" where
  "hb_step E H (HbConnector e) s = hb_connector_event E H e s"
| "hb_step E H (HbConn i e) s = hb_conn_event E i e s"
| "hb_step E H (HbSend inl) s = SendHeartBeat E inl s"
| "hb_step E H (HbStop unique) s = hb_stop E unique s"
| "hb_step E H HbDestroy s = bind_r (cl_destroy E (hb_client s)) (\<lambda>c. Inr (s\<lparr>hb_client := c\<rparr>))"

text \<open>What can happen; as for clients, the loop drops the old channel of the connector before it handles a new connection.\<close>

fun hb_may :: "hb_event \<Rightarrow> 'c heartbeat \<Rightarrow> bool" where
  "hb_may (HbConnector e) s \<longleftrightarrow> cl_may (ClConnector e) (hb_client s)"
| "hb_may (HbConn i e) s \<longleftrightarrow> cl_may (ClConn i e) (hb_client s)"
| "hb_may (HbSend inl) s \<longleftrightarrow> True"
| "hb_may (HbStop unique) s \<longleftrightarrow> True"
| "hb_may HbDestroy s \<longleftrightarrow> cl_may ClDestroy (hb_client s)"

text \<open>\<^verbatim>\<open>main\<close> connects once.\<close>

inductive hb_reachable :: "'c cl_env \<Rightarrow> hb_env \<Rightarrow> 'c heartbeat \<Rightarrow> bool" for E H where
  hb_started: "cl_connect_call E True (hb_client heartbeat_new) = Inr c \<Longrightarrow> hb_reachable E H (heartbeat_new\<lparr>hb_client := c\<rparr>)"
| hb_happened: "hb_reachable E H s \<Longrightarrow> hb_may e s \<Longrightarrow> hb_step E H e s = Inr s' \<Longrightarrow> hb_reachable E H s'"

section \<open>The log\<close>

lemma base_name_loop_eq:
  "base_name_loop name cs =
     (if CHR ''/'' \<in> set cs then Inr (name @ takeWhile (\<lambda>c. c \<noteq> CHR ''/'') cs) else Inl (Undefined ''exe_path[-1]''))"
  by (induction cs arbitrary: name) auto

text \<open>
  The log is named after the file of the program, which is what follows the last slash of its path; without
  a slash, as for a program found through \<^verbatim>\<open>PATH\<close>, the loop leaves the string.
\<close>

theorem logBaseName_exact:
  "logBaseName exe_path =
     (if CHR ''/'' \<in> set exe_path then Inr (SourceFile exe_path) else Inl (Undefined ''exe_path[-1]''))"
  by (simp add: logBaseName_def base_name_loop_eq SourceFile_def)

text \<open>Until it is stopped the sender of the web server does what that of the FastCGI server does, but for its pointer.\<close>

lemma cgi_hb_down_eq:
  "\<not> hb_close s \<Longrightarrow> \<not> cl_deleted (hb_client s) \<Longrightarrow> cgi_hb_down E s = bind_r (hb_down E s) (\<lambda>s'. Inr (s'\<lparr>hb_conn := None\<rparr>))"
  by (cases "cl_connect_call E True (hb_client s)") (simp_all add: cgi_hb_down_def hb_down_def)

section \<open>Invariant of the sender\<close>

text \<open>What operations of the client leave alone.\<close>

lemma connector_event_frame:
  assumes "cl_connector_event E e s = Inr s'"
  shows "cl_retry s' = cl_retry s" "cl_deleted s' = cl_deleted s" "length (cl_objs s) \<le> length (cl_objs s')"
  using assms
  by (auto simp: cl_connector_event_def cl_newConnection_def bind_r_eq_Inr cl_set_conn_def Let_def split: if_splits)

lemma newConnection_result:
  "cl_newConnection E fd s = Inr s' \<Longrightarrow> cl_connection s' = Some (length (cl_objs s)) \<and> cl_connector s' = cl_connector s"
  by (auto simp: cl_newConnection_def bind_r_eq_Inr cl_set_conn_def Let_def split: if_splits)

lemma connector_event_result:
  assumes "cl_connector_event E e s = Inr s'"
  obtains k where "cr_step (li_sock_ok E) (li_errno_of E) e (cl_connector s) = Inr k" and "cl_connector s' = k"
    and "cl_connection s' =
      (if length (cr_handed (cl_connector s)) < length (cr_handed k) then Some (length (cl_objs s)) else cl_connection s)"
proof -
  from assms obtain k where "cr_step (li_sock_ok E) (li_errno_of E) e (cl_connector s) = Inr k"
    "(if length (cr_handed (cl_connector s)) < length (cr_handed k)
      then cl_newConnection E (last (cr_handed k)) (s\<lparr>cl_connector := k\<rparr>) else Inr (s\<lparr>cl_connector := k\<rparr>)) = Inr s'"
    by (auto simp: cl_connector_event_def bind_r_eq_Inr Let_def)
  with that [of k] newConnection_result [of E "last (cr_handed k)" "s\<lparr>cl_connector := k\<rparr>" s'] show ?thesis by (auto split: if_splits)
qed

lemma removeConnection_frame:
  assumes "cl_removeConnection E i s = Inr s'" and "\<not> cl_retry s"
  shows "cl_retry s' = cl_retry s" "cl_deleted s' = cl_deleted s" "cl_objs s' = cl_objs s"
  using assms by (auto simp: cl_removeConnection_def ensure_eq_Inr Let_def split: if_splits)

lemma set_conn_frame [simp]:
  "length (cl_objs (cl_set_conn i c s)) = length (cl_objs s)"
  by (simp add: cl_set_conn_def)

context conn_callbacks
begin

definition hb_inv :: "'c heartbeat \<Rightarrow> bool" where
  "hb_inv s \<longleftrightarrow> cl_inv (hb_client s) \<and> \<not> cl_retry (hb_client s) \<and> (\<not> hb_close s \<longrightarrow> \<not> cl_deleted (hb_client s)) \<and>
     (\<forall>i. hb_conn s = Some i \<longrightarrow> i < length (cl_objs (hb_client s)))"

text \<open>What an event of a connection does to the connector: nothing, or it starts the next attempt.\<close>

definition hb_moved :: "'c cl_env \<Rightarrow> 'c heartbeat \<Rightarrow> 'c heartbeat \<Rightarrow> bool" where
  "hb_moved E s s' \<longleftrightarrow> hb_close s' = hb_close s \<and>
     (hb_close s \<or>
      cl_connector (hb_client s') = cl_connector (hb_client s) \<and> cl_connection (hb_client s') = cl_connection (hb_client s) \<or>
      cl_connection (hb_client s) \<noteq> None \<and> ResetChannel \<notin> set (cr_queued (cl_connector (hb_client s))) \<and>
      startInLoop (li_sock_ok E) (li_errno_of E) (cl_connector (hb_client s)\<lparr>cr_connect := True\<rparr>) = Inr (cl_connector (hb_client s')))"

text \<open>The two callbacks of a connection that closes come together.\<close>

lemma down_iff_closed:
  assumes rest: "at_rest c" and rel: "rest_rel c c'"
  shows "NoteDown \<in> set (cn_log c') \<and> NoteDown \<notin> set (cn_log c) \<longleftrightarrow> NoteClosed \<in> set (cn_log c') \<and> NoteClosed \<notin> set (cn_log c)"
proof -
  have inv: "conn_inv c" "conn_inv c'" using rest rel by (simp_all add: rest_rel_def at_rest_def)
  have up: "cn_log x = (if cn_state x = kConnecting then [] else [NoteUp])" if "conn_inv x" "cn_state x \<noteq> kDisconnected" for x :: "'c tcpconn"
    using that by (cases "cn_state x") (auto simp: conn_inv_def conn_shape_def)
  show ?thesis
  proof (cases "cn_state c = kDisconnected")
    case True
    with rel show ?thesis by (simp add: rest_rel_def phase_rel_def)
  next
    case False
    with rel up [OF inv(1)] up [OF inv(2)] show ?thesis
      by (cases "cn_state c' = kDisconnected") (simp_all add: rest_rel_def phase_rel_def)
  qed
qed

text \<open>Connecting again inside the callback: the connection is still remembered, the connector has nothing to do.\<close>

lemma connect_in_callback:
  assumes sock: "\<And>n. li_sock_ok E n" and shape: "cl_shape s" and conn: "cl_connection s \<noteq> None"
    and gone: "ResetChannel \<notin> set (cr_queued (cl_connector s))"
  obtains k where "cl_connect_call E True s = Inr (s\<lparr>cl_connect := True, cl_connector := k\<rparr>)" and "cr_single k"
    and "startInLoop (li_sock_ok E) (li_errno_of E) (cl_connector s\<lparr>cr_connect := True\<rparr>) = Inr k"
proof -
  let ?k = "cl_connector s"
  have k: "cr_single ?k" "cr_attempts ?k = 0" "cr_state ?k = CkConnected" using shape conn by (simp_all add: cl_shape_def)
  then have "\<not> cr_watched ?k" "cr_timers ?k = []" "StartInLoop \<notin> set (cr_queued ?k)"
    by (auto simp: cr_attempts_def count_list_0_iff split: if_splits)
  moreover have "cr_channel ?k = None"
    using k(1) gone \<open>\<not> cr_watched ?k\<close> by (auto simp: cr_single_def cr_ok_def count_list_0_iff split: if_splits)
  ultimately have "cr_idle ?k" using k(3) by (simp add: cr_idle_def)
  then obtain k' where k': "cr_start (li_sock_ok E) (li_errno_of E) True ?k = Inr k'" "cr_single k'"
    using disciplined_step [OF k(1), of "CStart True" "li_sock_ok E" "li_errno_of E"] sock by (auto elim: returnsE)
  then have st: "startInLoop (li_sock_ok E) (li_errno_of E) (?k\<lparr>cr_connect := True\<rparr>) = Inr k'" by (simp add: cr_start_def)
  from startInLoop_handed [OF st] have "cr_handed k' = cr_handed ?k" by simp
  with k' have "cl_connect_call E True s = Inr (s\<lparr>cl_connect := True, cl_connector := k'\<rparr>)"
    by (simp add: cl_connect_call_def cl_connector_event_def Let_def)
  with k'(2) st that show ?thesis by blast
qed

text \<open>Calls of the user make no callbacks at once.\<close>

lemma user_makes_no_callback:
  assumes "at_rest c" and "op_may p c"
  shows "returns (conn_step env (UserCall inl p) c) (\<lambda>c'. cn_log c' = cn_log c)"
proof -
  have "conn_inv (c\<lparr>cn_inLoop := inl\<rparr>)" using assms(1) by (simp add: at_rest_def conn_defs)
  moreover have "op_may p (c\<lparr>cn_inLoop := inl\<rparr>)" using assms(2) by (cases p) (simp_all add: conn_alive_def)
  ultimately show ?thesis using do_conn_op_user [of "c\<lparr>cn_inLoop := inl\<rparr>" p] by (auto simp: user_rel_def returns_Inr)
qed

lemma hb_conn_event_inv:
  assumes E: "li_conn E = env" "\<And>n. li_sock_ok E n" and inv: "hb_inv s" and i: "i < length (cl_objs (hb_client s))"
    and e: "conn_may e (cl_conn (hb_client s) i)" "e \<noteq> Established" "e \<noteq> Destroyed"
    and gone: "\<not> hb_close s \<Longrightarrow> (\<And>inl p. e \<noteq> UserCall inl p) \<Longrightarrow> ResetChannel \<notin> set (cr_queued (cl_connector (hb_client s)))"
  shows "returns (hb_conn_event E i e s) (\<lambda>s'. hb_inv s' \<and> hb_moved E s s')"
proof -
  let ?c = "hb_client s"
  have cl: "cl_inv ?c" "\<not> cl_retry ?c" using inv by (simp_all add: hb_inv_def)
  have rest: "at_rest (cl_conn ?c i)" and place: "cl_place ?c i" and shape: "cl_shape ?c" using cl(1) i by (simp_all add: cl_inv_def)
  from conn_step_phase [OF rest e] obtain c where c: "conn_step env e (cl_conn ?c i) = Inr c" "rest_rel (cl_conn ?c i) c"
    by (auto elim: returnsE)
  let ?s1 = "cl_set_conn i c ?c"
  show ?thesis
  proof (cases "NoteClosed \<in> set (cn_log c) \<and> NoteClosed \<notin> set (cn_log (cl_conn ?c i))")
    case True
    note new = newly_closed [OF rest c(2)]
    have "returns (cl_removeConnection E i ?s1) cl_inv"
      by (rule closed_cl_inv [OF E(2) cl(1) i]) (use new True cl(2) c(2) in \<open>simp_all add: rest_rel_def\<close>)
    moreover have conn: "cl_connection ?c = Some i" using place new(4) True by (auto simp: cl_place_def obj_place_def)
    ultimately have inv1: "cl_inv (?s1\<lparr>cl_connection := None, cl_destroys := cl_destroys ?c @ [i]\<rparr>)"
      using cl(2) by (simp add: cl_removeConnection_def Let_def split: if_splits)
    show ?thesis
    proof (cases "hb_close s")
      case True
      with inv inv1 conn cl(2) \<open>NoteClosed \<in> _ \<and> _\<close> c(1) E(1) down_iff_closed [OF rest c(2)] show ?thesis
        by (simp add: hb_conn_event_def hb_down_def cl_removeConnection_def hb_inv_def hb_moved_def Let_def)
    next
      case False
      have not_user: "e \<noteq> UserCall inl p" for inl p
        using user_makes_no_callback [OF rest, of p inl] e(1) c(1) \<open>NoteClosed \<in> _ \<and> _\<close> by (auto simp del: conn_step.simps)
      have "cl_shape ?s1" using shape conn i by (auto simp: cl_shape_def)
      then obtain k where k: "cl_connect_call E True ?s1 = Inr (?s1\<lparr>cl_connect := True, cl_connector := k\<rparr>)" "cr_single k"
          "startInLoop (li_sock_ok E) (li_errno_of E) (cl_connector ?c\<lparr>cr_connect := True\<rparr>) = Inr k"
        using connect_in_callback [OF E(2), of ?s1] conn gone [OF False not_user] by auto
      let ?s2 = "?s1\<lparr>cl_connection := None, cl_destroys := cl_destroys ?c @ [i]\<rparr>"
      have nd: "\<not> cl_deleted ?c" using inv False by (simp add: hb_inv_def)
      then have "cl_inv (?s2\<lparr>cl_connector := k\<rparr>)" by (intro cl_inv_connector [OF inv1 k(2)]) simp_all
      then have "cl_inv ((?s2\<lparr>cl_connector := k\<rparr>)\<lparr>cl_connect := True\<rparr>)" by simp
      moreover have "(?s2\<lparr>cl_connector := k\<rparr>)\<lparr>cl_connect := True\<rparr> =
          ?s1\<lparr>cl_connect := True, cl_connector := k, cl_connection := None, cl_destroys := cl_destroys ?c @ [i]\<rparr>" by simp
      ultimately have fin: "cl_inv (?s1\<lparr>cl_connect := True, cl_connector := k, cl_connection := None, cl_destroys := cl_destroys ?c @ [i]\<rparr>)"
        by simp
      show ?thesis
        using fin k(1,3) nd conn cl(2) \<open>NoteClosed \<in> _ \<and> _\<close> c(1) E(1) down_iff_closed [OF rest c(2)] False inv gone [OF False not_user]
        by (simp add: hb_conn_event_def hb_down_def cl_removeConnection_def hb_inv_def hb_moved_def Let_def)
    qed
  next
    case False
    have "returns (cl_conn_event E i e ?c) cl_inv" using cl(2) by (intro conn_event_cl_inv E cl(1) i e) simp
    then have "cl_inv ?s1" using False c(1) E(1) by (auto simp: cl_conn_event_def)
    with False c(1) E(1) down_iff_closed [OF rest c(2)] inv show ?thesis
      by (auto simp: hb_conn_event_def hb_inv_def hb_moved_def Let_def)
  qed
qed

text \<open>The sender is deleted: nothing of its client is used any more.\<close>

lemma delete_frame:
  assumes "TcpClient_delete E unique s = Inr s'" and "\<not> cl_retry s"
  shows "cl_retry s' = cl_retry s" "length (cl_objs s') = length (cl_objs s)"
  using assms
  by (auto simp: TcpClient_delete_def cl_conn_event_def cl_removeConnection_def bind_r_eq_Inr Let_def split: option.splits if_splits)

lemma hb_step_inv:
  assumes E: "li_conn E = env" "inet_lib_ok (li_lib E)"
      "\<And>fd. sa_family (li_peer E fd) = AF_INET \<or> sa_family (li_peer E fd) = AF_INET6" "\<And>n. li_sock_ok E n"
    and inv: "hb_inv s" and may: "hb_may e s"
  shows "returns (hb_step E H e s) hb_inv"
proof -
  let ?c = "hb_client s"
  have cl: "cl_inv ?c" "\<not> cl_retry ?c" using inv by (simp_all add: hb_inv_def)
  show ?thesis
  proof (cases e)
    case (HbConnector e')
    with may have "cl_may (ClConnector e') ?c" by simp
    from connector_event_cl_inv [OF E cl(1) this] obtain k where k: "cl_connector_event E e' ?c = Inr k" "cl_inv k"
      by (auto elim: returnsE)
    with HbConnector connector_event_frame [OF k(1)] inv show ?thesis
      by (force simp: hb_connector_event_def hb_inv_def hb_up_def Let_def)
  next
    case (HbConn i e')
    with may have "returns (hb_conn_event E i e' s) (\<lambda>s'. hb_inv s' \<and> hb_moved E s s')" by (intro hb_conn_event_inv E(1,4) inv) simp_all
    with HbConn show ?thesis by (auto simp: returns_Inr)
  next
    case (HbSend inl)
    have "returns (hb_conn_event E i (UserCall inl (OpSend m)) s) (\<lambda>s'. hb_inv s' \<and> hb_moved E s s')" if "hb_conn s = Some i" for i m
      using that inv by (intro hb_conn_event_inv E(1,4) inv) (auto simp: hb_inv_def)
    then have "returns (hb_conn_event E i (UserCall inl (OpSend m)) s) hb_inv" if "hb_conn s = Some i" for i m
      using that by (fastforce simp: returns_Inr)
    with HbSend inv show ?thesis by (simp add: SendHeartBeat_def hb_send_locked_def hb_expired_def split: option.splits)
  next
    case (HbStop unique)
    show ?thesis
    proof (cases "cl_deleted ?c")
      case False
      then have "cl_may (ClDelete unique) ?c" by simp
      from cl_step_inv [OF E cl(1) this] obtain k where k: "TcpClient_delete E unique ?c = Inr k" "cl_inv k" by (auto elim: returnsE)
      with HbStop False delete_frame [OF k(1) cl(2)] inv show ?thesis by (simp add: hb_stop_def hb_inv_def)
    qed (use HbStop inv in \<open>simp add: hb_stop_def hb_inv_def\<close>)
  next
    case HbDestroy
    with may obtain i "is" where "cl_destroys ?c = i # is" by (cases "cl_destroys ?c") auto
    from destroy_cl_inv [OF E(1) cl(1) this] obtain k where k: "cl_destroy E ?c = Inr k" "cl_inv k" by (auto elim: returnsE)
    moreover from k(1) have "cl_retry k = cl_retry ?c" "cl_deleted k = cl_deleted ?c" "length (cl_objs k) = length (cl_objs ?c)"
      by (auto simp: cl_destroy_def bind_r_eq_Inr cl_set_conn_def split: list.splits)
    ultimately show ?thesis using HbDestroy inv by (simp add: hb_inv_def)
  qed
qed

end

section \<open>The connector keeps trying\<close>

text \<open>Errors of \<^verbatim>\<open>connect\<close> after which the connector goes on.\<close>

definition errors_pass :: "(nat \<Rightarrow> int) \<Rightarrow> bool" where
  "errors_pass errno_of \<longleftrightarrow> (\<forall>n. errno_of n \<in> set progress_errnos \<or> errno_of n \<in> set retry_errnos)"

lemma startInLoop_tries:
  assumes "startInLoop sock_ok errno_of k = Inr k'" and "errors_pass errno_of" and "cr_connect k" and "cr_attempts k = 0"
  shows "cr_attempts k' = 1" "cr_queued k' = cr_queued k" "cr_connect k'" "cr_handed k' = cr_handed k"
proof -
  have "errno_of (cr_sockets k) \<in> set progress_errnos \<or> errno_of (cr_sockets k) \<in> set retry_errnos"
    using assms(2) by (simp add: errors_pass_def)
  then show "cr_attempts k' = 1" "cr_queued k' = cr_queued k" "cr_connect k'" "cr_handed k' = cr_handed k"
    using assms(1,3,4)
    by (auto simp: startInLoop_def cr_connect_call_def connecting_def retry_def close_socket_def cr_attempts_def ensure_eq_Inr Let_def
        split: if_splits)
qed

lemma keeps_trying:
  assumes single: "cr_single k" and one: "cr_attempts k = 1" and on: "cr_connect k" "StopInLoop \<notin> set (cr_queued k)"
    and e: "loop_event e" "cr_may e k" and step: "cr_step sock_ok errno_of e k = Inr k'" and pass: "errors_pass errno_of"
  shows "(cr_attempts k' = 1 \<or> cr_handed k' \<noteq> cr_handed k) \<and> StopInLoop \<notin> set (cr_queued k')"
proof (cases e)
  case CFunctor
  with e(2) obtain f fs where f: "cr_queued k = f # fs" by (cases "cr_queued k") auto
  let ?k = "k\<lparr>cr_queued := fs\<rparr>"
  show ?thesis
  proof (cases f)
    case StartInLoop
    with one f have "cr_attempts ?k = 0" by (simp add: cr_attempts_def)
    with step CFunctor f StartInLoop on startInLoop_tries [of sock_ok errno_of ?k k'] pass show ?thesis by simp
  next
    case StopInLoop
    with on f show ?thesis by simp
  next
    case ResetChannel
    with step CFunctor f on one show ?thesis by (auto simp: resetChannel_def cr_attempts_def)
  qed
next
  case (CTimer i)
  let ?k = "k\<lparr>cr_timers := drop_nth i (cr_timers k)\<rparr>"
  have "length (cr_timers k) = 1" using one e(2) CTimer by (simp add: cr_attempts_def split: if_splits)
  then have "cr_attempts ?k = 0" using one e(2) CTimer by (simp add: cr_attempts_def drop_nth_def)
  with step CTimer on startInLoop_tries [of sock_ok errno_of ?k k'] pass show ?thesis by simp
next
  case (CWritable err self)
  with e(2) have w: "cr_watched k" by simp
  from release_single [OF single w] obtain fd k1 where r: "removeAndResetChannel k = Inr (fd, k1)" "cr_attempts k1 = 0"
    "cr_timers k1 = []" .
  moreover have "k1 = queue_cr ResetChannel (k\<lparr>cr_watched := False\<rparr>)" using r(1) by (auto simp: removeAndResetChannel_def split: option.splits)
  ultimately show ?thesis using step CWritable on single w
    by (auto simp: cr_handleWrite_def cr_single_def retry_def close_socket_def cr_attempts_def queue_cr_def Let_def split: if_splits)
next
  case CError
  with e(2) have w: "cr_watched k" by simp
  from release_single [OF single w] obtain fd k1 where r: "removeAndResetChannel k = Inr (fd, k1)" "cr_attempts k1 = 0"
    "cr_timers k1 = []" .
  moreover have "k1 = queue_cr ResetChannel (k\<lparr>cr_watched := False\<rparr>)" using r(1) by (auto simp: removeAndResetChannel_def split: option.splits)
  ultimately show ?thesis using step CError on single w
    by (auto simp: cr_handleError_def cr_single_def retry_def close_socket_def cr_attempts_def queue_cr_def Let_def split: if_splits)
qed (use e in simp_all)

lemma quiet_queue:
  assumes "cr_single k" and "cr_attempts k = 0" and "loop_event e" and "cr_may e k"
    and "cr_step sock_ok errno_of e k = Inr k'" and "StopInLoop \<notin> set (cr_queued k)"
  shows "StopInLoop \<notin> set (cr_queued k')"
proof -
  have q: "cr_timers k = []" "StartInLoop \<notin> set (cr_queued k)" "\<not> cr_watched k"
    using assms(2) by (auto simp: cr_attempts_def count_list_0_iff split: if_splits)
  show ?thesis
  proof (cases e)
    case CFunctor
    with assms(4) obtain f fs where f: "cr_queued k = f # fs" by (cases "cr_queued k") auto
    with CFunctor assms(5,6) q show ?thesis by (cases f) (auto simp: resetChannel_def)
  qed (use assms q in auto)
qed

text \<open>Until it is stopped the sender has a connection or an attempt to get one.\<close>

definition hb_trying :: "'c heartbeat \<Rightarrow> bool" where
  "hb_trying s \<longleftrightarrow> (let k = cl_connector (hb_client s)
     in \<not> hb_close s \<longrightarrow> cr_connect k \<and> StopInLoop \<notin> set (cr_queued k) \<and> (cl_connection (hb_client s) = None \<longrightarrow> cr_attempts k = 1))"

context conn_callbacks
begin

lemma moved_trying:
  assumes "hb_inv s" and "hb_trying s" and "hb_moved E s s'" and "errors_pass (li_errno_of E)"
  shows "hb_trying s'"
proof -
  let ?k = "cl_connector (hb_client s)"
  have "cl_shape (hb_client s)" using assms(1) by (simp add: hb_inv_def cl_inv_def)
  then have zero: "cl_connection (hb_client s) \<noteq> None \<Longrightarrow> cr_attempts (?k\<lparr>cr_connect := True\<rparr>) = 0"
    by (simp add: cl_shape_def cr_attempts_def)
  show ?thesis
    using assms(2,3) zero startInLoop_tries [OF _ assms(4), of _ "?k\<lparr>cr_connect := True\<rparr>" "cl_connector (hb_client s')"]
    by (auto simp: hb_moved_def hb_trying_def Let_def)
qed

lemma connector_event_trying:
  assumes inv: "hb_inv s" and trying: "hb_trying s" and open_: "\<not> hb_close s"
    and may: "hb_may (HbConnector e) s" and step: "hb_connector_event E H e s = Inr s'" and pass: "errors_pass (li_errno_of E)"
  shows "hb_trying s'"
proof -
  let ?c = "hb_client s"
  let ?k = "cl_connector ?c"
  have shape: "cl_shape ?c" using inv by (simp add: hb_inv_def cl_inv_def)
  then have single: "cr_single ?k" by (simp add: cl_shape_def)
  have e: "loop_event e" "cr_may e ?k" using may by simp_all
  have on: "cr_connect ?k" "StopInLoop \<notin> set (cr_queued ?k)" "cl_connection ?c = None \<Longrightarrow> cr_attempts ?k = 1"
    using trying open_ by (simp_all add: hb_trying_def Let_def)
  from step obtain c' where c': "cl_connector_event E e ?c = Inr c'" "hb_client s' = c'" "hb_close s' = hb_close s"
    by (auto simp: hb_connector_event_def bind_r_eq_Inr hb_up_def Let_def split: if_splits)
  from c'(1) obtain k where k: "cr_step (li_sock_ok E) (li_errno_of E) e ?k = Inr k" "cl_connector c' = k"
    "cl_connection c' = (if length (cr_handed ?k) < length (cr_handed k) then Some (length (cl_objs ?c)) else cl_connection ?c)"
    by (rule connector_event_result)
  have conn: "cr_connect k" using loop_event_connect [OF e(1) k(1)] on(1) by simp
  show ?thesis
  proof (cases "cl_connection ?c")
    case None
    have "cr_handed k \<noteq> cr_handed ?k \<Longrightarrow> cl_connection c' \<noteq> None" using handing_step [OF single e k(1)] k(3) by simp
    with keeps_trying [OF single on(3) [OF None] on(1,2) e k(1) pass] conn c' k(2) show ?thesis by (auto simp: hb_trying_def Let_def)
  next
    case (Some i)
    then have zero: "cr_attempts ?k = 0" using shape by (simp add: cl_shape_def)
    from quiet_queue [OF single zero e k(1) on(2)] Some conn c' k(2,3) show ?thesis by (auto simp: hb_trying_def Let_def)
  qed
qed

lemma hb_step_trying:
  assumes E: "li_conn E = env" "inet_lib_ok (li_lib E)"
      "\<And>fd. sa_family (li_peer E fd) = AF_INET \<or> sa_family (li_peer E fd) = AF_INET6" "\<And>n. li_sock_ok E n"
    and inv: "hb_inv s" and trying: "hb_trying s" and may: "hb_may e s" and step: "hb_step E H e s = Inr s'"
    and pass: "errors_pass (li_errno_of E)"
  shows "hb_trying s'"
proof (cases "hb_close s")
  case True
  have "hb_close s'"
    using step True
    by (cases e) (auto simp: hb_connector_event_def hb_conn_event_def hb_down_def hb_up_def SendHeartBeat_def hb_send_locked_def hb_stop_def
        bind_r_eq_Inr Let_def split: if_splits option.splits)
  then show ?thesis by (simp add: hb_trying_def)
next
  case False
  have event: "hb_trying s'" if "hb_conn_event E i e' s = Inr s'" "i < length (cl_objs (hb_client s))" "conn_may e' (cl_conn (hb_client s) i)"
    "e' \<noteq> Established" "e' \<noteq> Destroyed" "(\<And>inl p. e' \<noteq> UserCall inl p) \<Longrightarrow> ResetChannel \<notin> set (cr_queued (cl_connector (hb_client s)))" for i e'
    using hb_conn_event_inv [OF E(1,4) inv that(2-5)] that(1,6) moved_trying [OF inv trying _ pass] by auto
  show ?thesis
  proof (cases e)
    case (HbConnector e')
    with may step connector_event_trying [OF inv trying False, of e' E H s'] pass show ?thesis by simp
  next
    case (HbConn i e')
    with may step event [of i e'] show ?thesis by simp
  next
    case (HbSend inl)
    with step event [of _ "UserCall inl (OpSend (hb_identification s))"] inv trying show ?thesis
      by (auto simp: SendHeartBeat_def hb_send_locked_def hb_inv_def split: if_splits option.splits)
  next
    case (HbStop unique)
    with step have "hb_close s'" by (auto simp: hb_stop_def bind_r_eq_Inr Let_def split: if_splits)
    then show ?thesis by (simp add: hb_trying_def)
  next
    case HbDestroy
    with step trying show ?thesis
      by (auto simp: cl_destroy_def hb_trying_def bind_r_eq_Inr Let_def split: list.splits)
  qed
qed

lemma hb_reachable_inv:
  assumes E: "li_conn E = env" and ok: "cl_env_ok E"
  shows "hb_reachable E H s \<Longrightarrow> hb_inv s \<and> (errors_pass (li_errno_of E) \<longrightarrow> hb_trying s)"
proof (induction rule: hb_reachable.induct)
  case (hb_started c)
  have new: "cl_inv (TcpClient_new name)" for name
    by (simp add: cl_inv_def cl_shape_def TcpClient_new_def Connector_new_single)
  have "returns (cl_step E (ClConnect True) (TcpClient_new ''HeartBeatChecker'')) cl_inv"
    by (rule cl_step_inv [OF E _ _ _ new]) (use ok in \<open>simp_all add: cl_env_ok_def TcpClient_new_def cr_idle_def Connector_new_def\<close>)
  with hb_started have inv: "cl_inv c" by (simp add: heartbeat_new_def)
  have ev: "cl_connector_event E (CStart True) (TcpClient_new ''HeartBeatChecker''\<lparr>cl_connect := True\<rparr>) = Inr c"
    using hb_started by (simp add: heartbeat_new_def cl_connect_call_def)
  from connector_event_result [OF ev] have k:
    "startInLoop (li_sock_ok E) (li_errno_of E) (Connector_new\<lparr>cr_connect := True\<rparr>) = Inr (cl_connector c)"
    by (auto simp: cr_start_def TcpClient_new_def)
  have "cr_attempts (Connector_new\<lparr>cr_connect := True\<rparr>) = 0" by (simp add: cr_attempts_def Connector_new_def)
  note tries = startInLoop_tries [OF k _ _ this]
  from inv connector_event_frame [OF ev] tries show ?case
    by (simp add: hb_inv_def hb_trying_def heartbeat_new_def TcpClient_new_def Connector_new_def)
next
  case (hb_happened s e s')
  have E': "inet_lib_ok (li_lib E)" "\<And>fd. sa_family (li_peer E fd) = AF_INET \<or> sa_family (li_peer E fd) = AF_INET6" "\<And>n. li_sock_ok E n"
    using ok by (simp_all add: cl_env_ok_def)
  have inv: "hb_inv s" using hb_happened.IH by simp
  from hb_step_inv [OF E E' inv hb_happened.hyps(2), of H] hb_happened.hyps(3) have "hb_inv s'" by simp
  with hb_step_trying [OF E E' inv _ hb_happened.hyps(2,3)] hb_happened.IH show ?case by blast
qed

end

section \<open>Properties\<close>


text \<open>An established connection of the sender, for examples.\<close>

definition demo_hb_env :: hb_env where
  "demo_hb_env = \<lparr>he_ipPort = (\<lambda>_. ''127.0.0.1:40000''), he_time = (\<lambda>_. 100), he_pid = 7\<rparr>"

definition hb_connecting :: "unit heartbeat" where
  "hb_connecting = heartbeat_new\<lparr>hb_client := connecting_client\<lparr>cl_name := ''HeartBeatChecker''\<rparr>\<rparr>"

definition hb_connected :: "unit heartbeat" where
  "hb_connected = hb_up demo_hb_env 0 (hb_connecting\<lparr>hb_client := connected_client\<lparr>cl_name := ''HeartBeatChecker'',
     cl_objs := [\<lparr>co_name = ''HeartBeatChecker'' @ snprintf 32 ('':'' @ (ip_text decimal_lib loopback_80 @ '':'' @
        show_nat (unat (toPort loopback_80))) @ ''#'' @ show_int 1), co_conn = open_conn 0\<rparr>]\<rparr>\<rparr>)"

lemma hb_connecting_reachable: "hb_reachable demo_client_env demo_hb_env hb_connecting"
proof -
  have "cl_connect_call demo_client_env True (hb_client heartbeat_new) = Inr (connecting_client\<lparr>cl_name := ''HeartBeatChecker''\<rparr>)"
    by (simp add: heartbeat_new_def cl_connect_call_def cl_connector_event_def connecting_client_def demo_client_env_def TcpClient_new_def
        connector_eval)
  from hb_started [OF this] show ?thesis by (simp add: hb_connecting_def)
qed

lemma hb_connected_reachable: "hb_reachable demo_client_env demo_hb_env hb_connected"
proof (rule hb_happened [OF hb_connecting_reachable])
  show "hb_may (HbConnector (CWritable 0 False)) hb_connecting"
    by (simp add: hb_connecting_def connecting_client_def TcpClient_new_def)
  show "hb_step demo_client_env demo_hb_env (HbConnector (CWritable 0 False)) hb_connecting = Inr hb_connected"
    using open_conn_established [of 0]
    by (simp add: hb_connector_event_def hb_connecting_def hb_connected_def cl_connector_event_def cl_newConnection_def connecting_client_def
        connected_client_def demo_client_env_def demo_peer TcpClient_new_def connector_eval fresh_buffer_new cl_set_conn_def)
qed


text \<open>
  In another thread than that of the loop, testing the weak pointer and using it are not one step. When the peer closes
  in between, the connection is destroyed and the use is of a null pointer.
\<close>

lemma open_conn_eof_destroyed:
  "\<exists>c c'. conn_step slow_socket (ChannelEvent POLLIN 0) (open_conn fd) = Inr c \<and> cn_log c = [NoteUp, NoteDown, NoteClosed] \<and>
     connectDestroyed slow_socket c = Inr c' \<and> \<not> ch_addedToLoop (cn_channel c') \<and> cn_queued c' = []"
  by (simp add: open_conn_def eof_evaluation conn_evaluation conn_shutdown.simps shutdownInLoop.simps handleClose.simps
      shutdownWrite_def disableAll_def connectDestroyed_def isNoneEvent_def Let_def)

theorem weak_pointer_race:
  "\<exists>s s1 s2. hb_reachable demo_client_env demo_hb_env s \<and> \<not> hb_expired s \<and>
     hb_may (HbConn 0 (ChannelEvent POLLIN 0)) s \<and> hb_step demo_client_env demo_hb_env (HbConn 0 (ChannelEvent POLLIN 0)) s = Inr s1 \<and>
     hb_may HbDestroy s1 \<and> hb_step demo_client_env demo_hb_env HbDestroy s1 = Inr s2 \<and>
     hb_send_locked demo_client_env False s2 = Inl (Undefined ''null g_conn.lock()'')"
proof -
  let ?s = "hb_connected\<lparr>hb_client := hb_client hb_connected\<lparr>cl_connector := Connector_new\<lparr>cr_connect := True, cr_state := CkConnected,
      cr_sockets := 1, cr_handed := [0]\<rparr>\<rparr>\<rparr>"
  have obj: "cl_conn (hb_client ?s) 0 = open_conn 0" by (simp add: hb_connected_def hb_up_def cl_conn_def)
  have r: "hb_reachable demo_client_env demo_hb_env ?s"
  proof (rule hb_happened [OF hb_connected_reachable])
    show "hb_may (HbConnector CFunctor) hb_connected" by (simp add: hb_connected_def hb_up_def connected_client_def)
    show "hb_step demo_client_env demo_hb_env (HbConnector CFunctor) hb_connected = Inr ?s"
      by (simp add: hb_connector_event_def cl_connector_event_def hb_connected_def hb_up_def connected_client_def demo_client_env_def
          connecting_client_def TcpClient_new_def connector_eval)
  qed
  have live: "\<not> hb_expired ?s" using obj by (simp add: hb_expired_def hb_connected_def hb_up_def open_conn_def conn_evaluation)
  have "kReadEvent \<noteq> 0" by (simp add: kReadEvent_def poll_bits)
  then have may: "hb_may (HbConn 0 (ChannelEvent POLLIN 0)) ?s"
    using obj by (simp add: open_conn_def conn_evaluation mask_ok_def poll_bits reading_on_def hb_connected_def hb_up_def Connector_new_def)
  obtain c c' where c: "conn_step slow_socket (ChannelEvent POLLIN 0) (open_conn 0) = Inr c" "cn_log c = [NoteUp, NoteDown, NoteClosed]"
    "connectDestroyed slow_socket c = Inr c'" "\<not> ch_addedToLoop (cn_channel c')" "cn_queued c' = []"
    using open_conn_eof_destroyed [of 0] by blast
  have up: "cn_log (open_conn 0) = [NoteUp]" by (simp add: open_conn_def conn_evaluation)
  obtain s1 where s1: "hb_conn_event demo_client_env 0 (ChannelEvent POLLIN 0) ?s = Inr s1" "cl_destroys (hb_client s1) = [0]"
    "cl_conn (hb_client s1) 0 = c" "hb_conn s1 = Some 0" "cl_objs (hb_client s1) \<noteq> []"
    using obj c(1,2) up
    by (simp add: hb_conn_event_def hb_down_def cl_connect_call_def cl_connector_event_def cl_removeConnection_def hb_connected_def hb_up_def
        hb_connecting_def heartbeat_new_def connected_client_def connecting_client_def demo_client_env_def TcpClient_new_def connector_eval
        cl_set_conn_def cl_conn_def del: conn_step.simps)
  let ?s2 = "s1\<lparr>hb_client := cl_set_conn 0 c' (hb_client s1\<lparr>cl_destroys := []\<rparr>)\<rparr>"
  have "hb_step demo_client_env demo_hb_env HbDestroy s1 = Inr ?s2"
    using s1(2,3) c(3) by (simp add: cl_destroy_def demo_client_env_def)
  moreover have "hb_send_locked demo_client_env False ?s2 = Inl (Undefined ''null g_conn.lock()'')"
    using s1(4,5) c(4,5) by (simp add: hb_send_locked_def hb_expired_def cl_set_conn_def cl_conn_def)
  ultimately show ?thesis using r live may s1(1,2) by (intro exI [of _ ?s] exI [of _ s1] exI [of _ ?s2]) simp
qed

end
