(* ===== verification/LogUnits.thy ===== *)
theory LogUnits
  imports LogStreams Calendars
begin

text \<open>
  Sizes in binary units (\<^verbatim>\<open>formatIEC\<close> of \<^verbatim>\<open>base/log/LogStream.cpp\<close>).

  The function computes in \<^verbatim>\<open>double\<close>, but only in ways that can be written out exactly: a 64 bit integer is
  rounded to 53 binary digits, the units are powers of two, so that dividing by them and scaling the
  constants by them loses nothing, and \<^verbatim>\<open>printf\<close> rounds the binary value to the nearest decimal, halves to
  the even one. The constants 9.995, 99.95 and 1023.5 are the nearest numbers of type \<^verbatim>\<open>double\<close>. The property: three digits and the
  ranges the comment of the function promises.
\<close>

section \<open>Numbers of type double\<close>

definition round_half_even :: "int \<Rightarrow> int \<Rightarrow> int" where
  "round_half_even a d = (let q = a div d; r = a mod d in if d < 2 * r \<or> 2 * r = d \<and> odd q then q + 1 else q)"

fun bit_length :: "nat \<Rightarrow> nat" where
  "bit_length n = (if n = 0 then 0 else Suc (bit_length (n div 2)))"

declare bit_length.simps [simp del]

text \<open>\<^verbatim>\<open>static_cast<double>\<close> of an integer.\<close>

definition to_double :: "int \<Rightarrow> int" where
  "to_double s = (let u = 2 ^ (bit_length (nat \<bar>s\<bar>) - 53) in sgn s * (round_half_even \<bar>s\<bar> u * u))"

text \<open>\<open>m\<close> units of the \<open>p\<close>-th place after the point.\<close>

definition fixed_text :: "nat \<Rightarrow> int \<Rightarrow> string" where
  "fixed_text p m = (if p = 0 then show_int m else show_int (m div 10 ^ p) @ ''.'' @ pad0 p (m mod 10 ^ p))"

text \<open>\<^verbatim>\<open>%.pf\<close> of the quotient \<open>n / unit\<close>.\<close>

definition printf_fixed :: "nat \<Rightarrow> int \<Rightarrow> int \<Rightarrow> string" where
  "printf_fixed p n unit = fixed_text p (round_half_even (n * 10 ^ p) unit)"

section \<open>The function\<close>

text \<open>The comparisons with \<^verbatim>\<open>unit * 9.995\<close>, \<^verbatim>\<open>unit * 99.95\<close> and \<^verbatim>\<open>unit * 1023.5\<close>.\<close>

definition below_9_995 :: "int \<Rightarrow> int \<Rightarrow> bool" where
  "below_9_995 n unit \<longleftrightarrow> n * 2 ^ 49 < unit * 5626684784446013"

definition below_99_95 :: "int \<Rightarrow> int \<Rightarrow> bool" where
  "below_99_95 n unit \<longleftrightarrow> n * 2 ^ 46 < unit * 7033355980557517"

definition below_1023_5 :: "int \<Rightarrow> int \<Rightarrow> bool" where
  "below_1023_5 n unit \<longleftrightarrow> n * 2 < unit * 2047"

definition formatIEC :: "int \<Rightarrow> string" where
  "formatIEC s =
     (let n = to_double s; Ki = 2 ^ 10; Mi = 2 ^ 20; Gi = 2 ^ 30; Ti = 2 ^ 40; Pe = 2 ^ 50; Ei = 2 ^ 60
      in take 63
       (if n < Ki then show_int s
        else if below_9_995 n Ki then printf_fixed 2 n Ki @ ''Ki''
        else if below_99_95 n Ki then printf_fixed 1 n Ki @ ''Ki''
        else if below_1023_5 n Ki then printf_fixed 0 n Ki @ ''Ki''
        else if below_9_995 n Mi then printf_fixed 2 n Mi @ ''Mi''
        else if below_99_95 n Mi then printf_fixed 1 n Mi @ ''Mi''
        else if below_1023_5 n Mi then printf_fixed 0 n Mi @ ''Mi''
        else if below_9_995 n Gi then printf_fixed 2 n Gi @ ''Gi''
        else if below_99_95 n Gi then printf_fixed 1 n Gi @ ''Gi''
        else if below_1023_5 n Gi then printf_fixed 0 n Gi @ ''Gi''
        else if below_9_995 n Ti then printf_fixed 2 n Ti @ ''Ti''
        else if below_99_95 n Ti then printf_fixed 1 n Ti @ ''Ti''
        else if below_1023_5 n Ti then printf_fixed 0 n Ti @ ''Ti''
        else if below_9_995 n Pe then printf_fixed 2 n Pe @ ''Pi''
        else if below_99_95 n Pe then printf_fixed 1 n Pe @ ''Pi''
        else if below_1023_5 n Pe then printf_fixed 0 n Pe @ ''Pi''
        else if below_9_995 n Ei then printf_fixed 2 n Ei @ ''Ei''
        else printf_fixed 1 n Ei @ ''Ei''))"

section \<open>Rounding\<close>

lemma round_half_even_near:
  assumes "0 < d"
  shows "\<bar>2 * (round_half_even a d * d) - 2 * a\<bar> \<le> d"
proof -
  define q r where "q = a div d" and "r = a mod d"
  have "a = q * d + r" "0 \<le> r" "r < d" using assms by (simp_all add: q_def r_def)
  moreover have "round_half_even a d = (if d < 2 * r \<or> 2 * r = d \<and> odd q then q + 1 else q)"
    by (simp add: round_half_even_def q_def r_def Let_def)
  ultimately show ?thesis by (auto simp: distrib_right abs_le_iff)
qed

lemma round_half_even_bounds:
  assumes "0 < d" and "(2 * lo - 1) * d < 2 * a" and "2 * a < (2 * hi + 1) * d"
  shows "lo \<le> round_half_even a d" "round_half_even a d \<le> hi"
proof -
  let ?m = "round_half_even a d"
  have near: "2 * ?m * d \<le> 2 * a + d" "2 * a \<le> 2 * ?m * d + d" using round_half_even_near [OF assms(1), of a] by auto
  have "(2 * lo - 2) * d < (2 * ?m) * d" using near(2) assms(2) by (simp add: algebra_simps)
  then show "lo \<le> ?m" using assms(1) by (simp add: mult_less_cancel_right)
  have "(2 * ?m) * d < (2 * hi + 2) * d" using near(1) assms(3) by (simp add: algebra_simps)
  then show "?m \<le> hi" using assms(1) by (simp add: mult_less_cancel_right)
qed

lemma bit_length_bound: "n < 2 ^ bit_length n" "0 < n \<Longrightarrow> 2 ^ (bit_length n - 1) \<le> n"
proof (induction n rule: bit_length.induct)
  case (1 n)
  { case 1
    show ?case
    proof (cases "n = 0")
      case False
      then have "n div 2 < 2 ^ bit_length (n div 2)" by (rule "1.IH"(1))
      then have "n < 2 * 2 ^ bit_length (n div 2)" by linarith
      with False show ?thesis by (simp add: bit_length.simps [of n])
    qed simp }
  { case 2
    show ?case
    proof (cases "n div 2 = 0")
      case True
      with 2 have "n = 1" by simp
      then show ?thesis by (simp add: bit_length.simps)
    next
      case False
      then have "2 ^ (bit_length (n div 2) - 1) \<le> n div 2" "0 < bit_length (n div 2)" using "1.IH"(2) 2
        by (simp_all add: bit_length.simps [of "n div 2"])
      then show ?thesis using 2 by (cases "bit_length (n div 2)") (simp_all add: bit_length.simps [of n])
    qed }
qed

lemma bit_length_le: "n < 2 ^ k \<Longrightarrow> bit_length n \<le> k"
proof (rule ccontr)
  assume n: "n < 2 ^ k" and "\<not> bit_length n \<le> k"
  then have "2 ^ k \<le> (2 :: nat) ^ (bit_length n - 1)" by (intro power_increasing) auto
  moreover have "0 < n" using \<open>\<not> bit_length n \<le> k\<close> by (cases n) (simp_all add: bit_length.simps)
  ultimately show False using bit_length_bound(2) [of n] n by linarith
qed

lemma to_double_nonneg:
  assumes "0 \<le> s"
  shows "to_double s = round_half_even s (2 ^ (bit_length (nat s) - 53)) * 2 ^ (bit_length (nat s) - 53)"
  using assms by (cases "s = 0") (simp_all add: to_double_def round_half_even_def Let_def bit_length.simps [of 0])

text \<open>A 64 bit integer is exact below \<open>2 ^ 53\<close> and off by at most 512 otherwise.\<close>

lemma to_double_near:
  assumes "0 \<le> s" and "s < 2 ^ 63"
  shows "\<bar>to_double s - s\<bar> \<le> 512" "s < 2 ^ 53 \<Longrightarrow> to_double s = s" "0 \<le> to_double s"
proof -
  let ?k = "bit_length (nat s) - 53"
  have eq: "to_double s = round_half_even s (2 ^ ?k) * 2 ^ ?k" using assms(1) by (rule to_double_nonneg)
  have "nat s < 2 ^ 63" using assms by (simp add: nat_less_iff)
  from bit_length_le [OF this] have "(2 :: int) ^ ?k \<le> 2 ^ 10" by (intro power_increasing) simp_all
  moreover have "\<bar>2 * to_double s - 2 * s\<bar> \<le> 2 ^ ?k" using round_half_even_near [of "2 ^ ?k" s] by (simp add: eq)
  ultimately show "\<bar>to_double s - s\<bar> \<le> 512" by auto
  show "to_double s = s" if "s < 2 ^ 53"
  proof -
    have "nat s < 2 ^ 53" using that assms(1) by (simp add: nat_less_iff)
    from bit_length_le [OF this] show ?thesis by (simp add: eq round_half_even_def)
  qed
  have "0 \<le> s div 2 ^ ?k" using assms(1) by (simp add: pos_imp_zdiv_nonneg_iff)
  then show "0 \<le> to_double s" by (simp add: eq round_half_even_def Let_def)
qed

lemma round_power_le:
  assumes "0 \<le> s" and "s < 2 ^ e" and "k \<le> e"
  shows "round_half_even s (2 ^ k) * 2 ^ k \<le> 2 ^ e"
proof -
  have split: "(2 :: int) ^ e = 2 ^ (e - k) * 2 ^ k" using assms(3) by (simp flip: power_add)
  have "round_half_even s (2 ^ k) \<le> 2 ^ (e - k)"
  proof (rule round_half_even_bounds(2) [where lo = "- 1"])
    show "(2 * - 1 - 1) * 2 ^ k < 2 * s" by (rule less_le_trans [of _ 0]) (use assms(1) in simp_all)
    have "0 < (2 :: int) ^ k" by simp
    then show "2 * s < (2 * 2 ^ (e - k) + 1) * 2 ^ k"
      using assms(2) unfolding split by (simp only: distrib_right mult.assoc)
  qed simp
  then show ?thesis unfolding split by (rule mult_right_mono) simp
qed

text \<open>Large ones are multiples of 16.\<close>

lemma to_double_16:
  assumes "0 \<le> s" and "s < 2 ^ 63" and "2 ^ 56 \<le> to_double s"
  shows "16 dvd to_double s"
proof -
  let ?k = "bit_length (nat s) - 53"
  have eq: "to_double s = round_half_even s (2 ^ ?k) * 2 ^ ?k" using assms(1) by (rule to_double_nonneg)
  show ?thesis
  proof (cases "4 \<le> ?k")
    case True
    then have "(2 :: int) ^ 4 dvd 2 ^ ?k" by (rule le_imp_power_dvd)
    then show ?thesis by (simp add: eq)
  next
    case False
    then have k: "?k \<le> 3" "bit_length (nat s) \<le> 56" by simp_all
    have "s < 2 ^ 56"
    proof -
      have "nat s < 2 ^ bit_length (nat s)" by (rule bit_length_bound)
      also have "\<dots> \<le> 2 ^ 56" by (rule power_increasing) (use k in simp_all)
      finally show ?thesis using assms(1) by (simp add: nat_less_iff)
    qed
    have "to_double s \<le> 2 ^ 56" unfolding eq by (rule round_power_le) (use assms(1) \<open>s < 2 ^ 56\<close> k in simp_all)
    with assms(3) have "to_double s = 16 * 2 ^ 52" by simp
    then show ?thesis by simp
  qed
qed

section \<open>Property\<close>

text \<open>What is printed of a quotient: digits \<open>m\<close> with the point before the last \<open>p\<close>, in the range for that precision, and as near as can be.\<close>

definition iec_digits :: "nat \<Rightarrow> int \<Rightarrow> bool" where
  "iec_digits p m \<longleftrightarrow> 100 \<le> m \<and> m \<le> (if p = 0 then 1023 else 999)"

definition iec_printed :: "int \<Rightarrow> string \<Rightarrow> bool" where
  "iec_printed n str \<longleftrightarrow> (\<exists>p \<le> 2. \<exists>j \<in> {1..6}. \<exists>m. iec_digits p m \<and> str = fixed_text p m @ [''KMGTPE'' ! (j - 1), CHR ''i''] \<and>
     \<bar>2 * (m * 2 ^ (10 * j)) - 2 * (n * 10 ^ p)\<bar> \<le> 2 ^ (10 * j))"

lemma iec_printedI:
  assumes "p \<le> 2" and "j \<in> {1..6}" and "unit = 2 ^ (10 * j)" and "u = [''KMGTPE'' ! (j - 1), CHR ''i'']"
    and "199 * unit < 2 * (n * 10 ^ p)" and "2 * (n * 10 ^ p) < (2 * (if p = 0 then 1023 else 999) + 1) * unit"
  shows "iec_printed n (printf_fixed p n unit @ u)"
proof -
  have pos: "0 < unit" by (simp add: assms(3))
  have "iec_digits p (round_half_even (n * 10 ^ p) unit)"
    using round_half_even_bounds [OF pos _ assms(6), of 100] assms(5) by (simp add: iec_digits_def)
  with round_half_even_near [OF pos, of "n * 10 ^ p"] assms(1-4) show ?thesis unfolding iec_printed_def printf_fixed_def by blast
qed

lemma iec_step:
  fixes n unit :: int
  assumes "unit = 2 ^ (10 * j)" and "0 < unit"
  shows "below_9_995 n unit \<Longrightarrow> 2 * n * 100 < 1999 * unit"
    and "\<not> below_9_995 n unit \<Longrightarrow> 199 * unit < 2 * n * 10"
    and "\<not> below_99_95 n unit \<Longrightarrow> 199 * unit < 2 * n"
    and "below_1023_5 n unit \<Longrightarrow> 2 * n < 2047 * unit"
    and "\<not> below_1023_5 n unit \<Longrightarrow> 199 * (unit * 1024) < 2 * n * 100"
  using assms(2) unfolding below_9_995_def below_99_95_def below_1023_5_def by simp_all

text \<open>The constant 99.95 is a little too large, but no number lies in between.\<close>

lemma below_99_95_exact:
  assumes "below_99_95 n unit" and "unit \<in> {2 ^ 10, 2 ^ 20, 2 ^ 30, 2 ^ 40} \<or> unit = 2 ^ 50 \<and> (2 ^ 56 \<le> n \<longrightarrow> 16 dvd n)"
  shows "2 * n * 10 < 1999 * unit"
proof -
  have small: "2 * n * 10 < 1999 * unit" if "unit \<in> {2 ^ 10, 2 ^ 20, 2 ^ 30, 2 ^ 40}"
    using that assms(1) unfolding below_99_95_def by (elim insertE emptyE; simp; presburger)
  show ?thesis
  proof (cases "unit = 2 ^ 50 \<and> 2 ^ 56 \<le> n")
    case True
    with assms(2) obtain t where "n = 16 * t" by (auto elim: dvdE)
    with True assms(1) show ?thesis unfolding below_99_95_def by (simp; presburger)
  next
    case False
    with assms(2) small show ?thesis by auto
  qed
qed

lemma iec_unit:
  assumes "unit = 2 ^ (10 * j)" and "j \<in> {1..5}" and "u = [''KMGTPE'' ! (j - 1), CHR ''i'']"
    and "2 ^ 56 \<le> n \<longrightarrow> 16 dvd n" and "199 * unit < 2 * n * 100"
    and "199 * (unit * 1024) < 2 * n * 100 \<Longrightarrow> iec_printed n rest"
  shows "iec_printed n (if below_9_995 n unit then printf_fixed 2 n unit @ u
    else if below_99_95 n unit then printf_fixed 1 n unit @ u
    else if below_1023_5 n unit then printf_fixed 0 n unit @ u else rest)"
proof -
  have pos: "0 < unit" by (simp add: assms(1))
  have "j = 1 \<or> j = 2 \<or> j = 3 \<or> j = 4 \<or> j = 5" using assms(2) by auto
  then have units: "unit \<in> {2 ^ 10, 2 ^ 20, 2 ^ 30, 2 ^ 40} \<or> unit = 2 ^ 50 \<and> (2 ^ 56 \<le> n \<longrightarrow> 16 dvd n)"
    using assms(1,4) by auto
  note steps = iec_step [OF assms(1) pos, of n]
  have j: "j \<in> {1..6}" using assms(2) by simp
  show ?thesis
    using steps below_99_95_exact [OF _ units] assms(5,6)
    by (auto intro!: iec_printedI [OF _ j assms(1,3)])
qed

lemma formatIEC_printed:
  assumes "1024 \<le> n" and "n \<le> 2 ^ 63" and "2 ^ 56 \<le> n \<longrightarrow> 16 dvd n" and "to_double s = n"
  shows "\<exists>str. formatIEC s = take 63 str \<and> iec_printed n str"
proof -
  let ?r6 = "if below_9_995 n (2 ^ 60) then printf_fixed 2 n (2 ^ 60) @ ''Ei'' else printf_fixed 1 n (2 ^ 60) @ ''Ei''"
  let ?r5 = "if below_9_995 n (2 ^ 50) then printf_fixed 2 n (2 ^ 50) @ ''Pi'' else if below_99_95 n (2 ^ 50) then printf_fixed 1 n (2 ^ 50) @ ''Pi''
    else if below_1023_5 n (2 ^ 50) then printf_fixed 0 n (2 ^ 50) @ ''Pi'' else ?r6"
  let ?r4 = "if below_9_995 n (2 ^ 40) then printf_fixed 2 n (2 ^ 40) @ ''Ti'' else if below_99_95 n (2 ^ 40) then printf_fixed 1 n (2 ^ 40) @ ''Ti''
    else if below_1023_5 n (2 ^ 40) then printf_fixed 0 n (2 ^ 40) @ ''Ti'' else ?r5"
  let ?r3 = "if below_9_995 n (2 ^ 30) then printf_fixed 2 n (2 ^ 30) @ ''Gi'' else if below_99_95 n (2 ^ 30) then printf_fixed 1 n (2 ^ 30) @ ''Gi''
    else if below_1023_5 n (2 ^ 30) then printf_fixed 0 n (2 ^ 30) @ ''Gi'' else ?r4"
  let ?r2 = "if below_9_995 n (2 ^ 20) then printf_fixed 2 n (2 ^ 20) @ ''Mi'' else if below_99_95 n (2 ^ 20) then printf_fixed 1 n (2 ^ 20) @ ''Mi''
    else if below_1023_5 n (2 ^ 20) then printf_fixed 0 n (2 ^ 20) @ ''Mi'' else ?r3"
  let ?r1 = "if below_9_995 n (2 ^ 10) then printf_fixed 2 n (2 ^ 10) @ ''Ki'' else if below_99_95 n (2 ^ 10) then printf_fixed 1 n (2 ^ 10) @ ''Ki''
    else if below_1023_5 n (2 ^ 10) then printf_fixed 0 n (2 ^ 10) @ ''Ki'' else ?r2"
  have r6: "iec_printed n ?r6" if "199 * (2 ^ 50 * 1024) < 2 * n * 100"
  proof -
    have "below_9_995 n (2 ^ 60)" using assms(2) by (simp add: below_9_995_def)
    then show ?thesis using that assms(2) by (simp add: iec_printedI [of 2 6])
  qed
  have r5: "iec_printed n ?r5" if "199 * (2 ^ 40 * 1024) < 2 * n * 100"
    by (rule iec_unit [of _ 5 _ n, OF _ _ _ assms(3)], simp, simp, simp, (use that in simp), erule r6)
  have r4: "iec_printed n ?r4" if "199 * (2 ^ 30 * 1024) < 2 * n * 100"
    by (rule iec_unit [of _ 4 _ n, OF _ _ _ assms(3)], simp, simp, simp, (use that in simp), erule r5)
  have r3: "iec_printed n ?r3" if "199 * (2 ^ 20 * 1024) < 2 * n * 100"
    by (rule iec_unit [of _ 3 _ n, OF _ _ _ assms(3)], simp, simp, simp, (use that in simp), erule r4)
  have r2: "iec_printed n ?r2" if "199 * (2 ^ 10 * 1024) < 2 * n * 100"
    by (rule iec_unit [of _ 2 _ n, OF _ _ _ assms(3)], simp, simp, simp, (use that in simp), erule r3)
  have r1: "iec_printed n ?r1"
    by (rule iec_unit [of _ 1 _ n, OF _ _ _ assms(3)], simp, simp, simp, (use assms(1) in simp), erule r2)
  have "\<not> n < 2 ^ 10" using assms(1) by simp
  then have "formatIEC s = take 63 ?r1" unfolding formatIEC_def Let_def assms(4) by (subst if_not_P) (assumption, rule refl)
  with r1 show ?thesis by blast
qed

lemma show_nat_length: "n < 10 ^ k \<Longrightarrow> 0 < k \<Longrightarrow> length (show_nat n) \<le> k"
proof (induction k arbitrary: n)
  case (Suc k)
  show ?case
  proof (cases "n < 10")
    case True
    then show ?thesis by (simp add: show_nat.simps [of n])
  next
    case False
    with Suc have "n div 10 < 10 ^ k" "0 < k" by (auto simp: div_less_iff_less_mult mult.commute intro: gr0I)
    with Suc.IH False show ?thesis by (simp add: show_nat.simps [of n])
  qed
qed simp

lemma fixed_text_length:
  assumes "iec_digits p m" and "p \<le> 2"
  shows "length (fixed_text p m) \<le> 4"
proof -
  have m: "100 \<le> m" "m \<le> (if p = 0 then 1023 else 999)" using assms(1) by (simp_all add: iec_digits_def)
  have mod_nn: "\<not> m mod 10 ^ p < 0" by (simp add: not_less)
  have len: "length (fixed_text p m) = length (show_nat (nat (m div 10 ^ p))) + (if p = 0 then 0 else Suc (max p (length (show_nat (nat (m mod 10 ^ p))))))"
    using m(1) by (auto simp: fixed_text_def show_int_def pad0_def Let_def pos_imp_zdiv_neg_iff mod_nn)
  have "p = 0 \<or> p = 1 \<or> p = 2" using assms(2) by auto
  then show ?thesis
  proof (elim disjE)
    assume p: "p = 0"
    with m have "nat m < 10 ^ 4" by simp
    from show_nat_length [OF this] len p show ?thesis by simp
  next
    assume p: "p = 1"
    with m have "nat (m div 10) < 10 ^ 2" "nat (m mod 10) < 10 ^ 1" by simp_all
    from this [THEN show_nat_length] len p show ?thesis by simp
  next
    assume p: "p = 2"
    with m have "nat (m div 100) < 10 ^ 1" "nat (m mod 100) < 10 ^ 2" by simp_all
    from this [THEN show_nat_length] len p show ?thesis by simp
  qed
qed

lemma iec_printed_length: "iec_printed n str \<Longrightarrow> length str \<le> 6"
  using fixed_text_length by (fastforce simp: iec_printed_def)

text \<open>
  Every size from 1024 bytes to the largest 64 bit integer is printed with three digits, or four below the next unit, at most six
  characters with the unit: the number before the unit is 1.00 to 9.99, 10.0 to 99.9 or 100 to 1023. It is the size
  as a \<^verbatim>\<open>double\<close>, which is off by at most 512 bytes and exact below eight pebibytes, rounded to the nearest at that precision.
\<close>

theorem formatIEC_exact:
  assumes "1024 \<le> s" and "s < 2 ^ 63"
  shows "iec_printed (to_double s) (formatIEC s) \<and> length (formatIEC s) \<le> 6 \<and> \<bar>to_double s - s\<bar> \<le> 512 \<and>
    (s < 2 ^ 53 \<longrightarrow> to_double s = s)"
proof -
  have s: "0 \<le> s" using assms(1) by simp
  note near = to_double_near [OF s assms(2)]
  have "1024 \<le> to_double s"
  proof (cases "s < 2 ^ 53")
    case True
    with near(2) assms(1) show ?thesis by simp
  next
    case False
    with near(1) show ?thesis by simp
  qed
  moreover have "to_double s \<le> 2 ^ 63"
  proof -
    let ?k = "bit_length (nat s) - 53"
    have "nat s < 2 ^ 63" using assms(2) s by (simp add: nat_less_iff)
    then have k: "?k \<le> 10" using bit_length_le [of "nat s" 63] by simp
    show ?thesis unfolding to_double_nonneg [OF s] by (rule round_power_le) (use s assms(2) k in simp_all)
  qed
  ultimately obtain str where str: "formatIEC s = take 63 str" "iec_printed (to_double s) str"
    using formatIEC_printed [OF _ _ _ refl, of s] to_double_16 [OF s assms(2)] by blast
  then have "formatIEC s = str" using iec_printed_length [OF str(2)] by simp
  with str(2) iec_printed_length [OF str(2)] near show ?thesis by simp
qed

end
