(* ===== verification/ParserPools.thy ===== *)
theory ParserPools
  imports Threads WebParsers "HOL-Library.Multiset"
begin

text \<open>
  The thread pool of the web server (\<^verbatim>\<open>base/thread/threadPool.h\<close>) and the object each of its threads has
  (\<^verbatim>\<open>base/thread/ThreadLocalSingleton.h\<close>), used for the parsers of requests.

  \<^verbatim>\<open>ThreadPl<T>\<close> has the code of \<^verbatim>\<open>ThreadPool\<close>, and each worker makes its instance of \<^verbatim>\<open>T\<close> before it takes
  tasks. Its operations are those of theory \<open>Threads\<close> on a state that also has the thread local pointers and the
  objects. What a task does with its object is a parameter. The properties: seen without the
  objects it is that pool, so what holds of one holds of the other; each thread has an object of its own, made once and
  deleted when the thread ends; the state of an object is what the tasks of its thread made of it, in their order.
\<close>

section \<open>State\<close>

record ('p, 'a) thread_pl =
  pl_pool :: thread_pool
  pl_value :: "nat \<Rightarrow> nat option"     \<comment> \<open>\<^verbatim>\<open>t_value_\<close> of a thread; objects are numbered as they are made\<close>
  pl_key :: "nat \<Rightarrow> nat option"       \<comment> \<open>\<^verbatim>\<open>pthread_getspecific(pkey_)\<close> of a thread\<close>
  pl_heap :: "nat \<Rightarrow> 'p option"
  pl_next :: nat
  pl_ran :: "(nat \<times> nat) list"        \<comment> \<open>history: threads and the tasks they ran\<close>
  pl_out :: "(nat \<times> 'a) list"         \<comment> \<open>history: tasks and what they put out\<close>

definition ThreadPl_new :: "nat \<Rightarrow> bool \<Rightarrow> ('p, 'a) thread_pl" where
  "ThreadPl_new maxSize cb = \<lparr>pl_pool = ThreadPool_new maxSize cb, pl_value = Map.empty, pl_key = Map.empty, pl_heap = Map.empty,
     pl_next = 0, pl_ran = [], pl_out = []\<rparr>"

section \<open>ThreadLocalSingleton\<close>

text \<open>\<^verbatim>\<open>deleter_.set(t_value_)\<close>.\<close>

definition deleter_set :: "nat \<Rightarrow> nat \<Rightarrow> ('p, 'a) thread_pl \<Rightarrow> ('p, 'a) thread_pl res" where
  "deleter_set t obj s = ensure (pl_key s t = None) ''pthread_getspecific(pkey_) == NULL'' (Inr (s\<lparr>pl_key := (pl_key s)(t \<mapsto> obj)\<rparr>))"

text \<open>\<^verbatim>\<open>instance()\<close> in thread \<open>t\<close>; \<open>fresh\<close> is what the constructor makes.\<close>

definition pl_instance :: "'p \<Rightarrow> nat \<Rightarrow> ('p, 'a) thread_pl \<Rightarrow> (nat \<times> ('p, 'a) thread_pl) res" where
  "pl_instance fresh t s =
     (case pl_value s t of
        Some obj \<Rightarrow> Inr (obj, s)
      | None \<Rightarrow>
          (let obj = pl_next s;
               s1 = s\<lparr>pl_value := (pl_value s)(t \<mapsto> obj), pl_heap := (pl_heap s)(obj \<mapsto> fresh), pl_next := Suc obj\<rparr>
           in bind_r (deleter_set t obj s1) (\<lambda>s2. Inr (obj, s2))))"

text \<open>\<^verbatim>\<open>destructor\<close>, called when the thread ends with the value of its key, which was reset before.\<close>

definition pl_destructor :: "nat \<Rightarrow> ('p, 'a) thread_pl \<Rightarrow> ('p, 'a) thread_pl res" where
  "pl_destructor t s =
     (case pl_key s t of
        None \<Rightarrow> Inr s
      | Some obj \<Rightarrow>
          (let s1 = s\<lparr>pl_key := (pl_key s)(t := None)\<rparr>
           in ensure (pl_value s1 t = Some obj) ''obj == t_value_''
                (Inr (s1\<lparr>pl_heap := (pl_heap s1)(obj := None), pl_value := (pl_value s1)(t := None)\<rparr>))))"

section \<open>ThreadPl\<close>

text \<open>A call of a task in thread \<open>t\<close>: it gets the object of the thread and works on it.\<close>

definition pl_task :: "'p \<Rightarrow> (nat \<Rightarrow> 'p \<Rightarrow> ('a \<times> 'p) res) \<Rightarrow> nat \<Rightarrow> nat \<Rightarrow> ('p, 'a) thread_pl \<Rightarrow> ('p, 'a) thread_pl res" where
  "pl_task fresh run t f s =
     bind_r (pl_instance fresh t s) (\<lambda>(obj, s1).
       case pl_heap s1 obj of
         None \<Rightarrow> Inl (Undefined ''dangling t_value_'')
       | Some p \<Rightarrow> bind_r (run f p) (\<lambda>(out, p').
           Inr (s1\<lparr>pl_heap := (pl_heap s1)(obj \<mapsto> p'), pl_ran := pl_ran s1 @ [(t, f)], pl_out := pl_out s1 @ [(f, out)]\<rparr>)))"

text \<open>The operations of the pool, on its part of the state.\<close>

definition pl_start :: "nat \<Rightarrow> ('p, 'a) thread_pl \<Rightarrow> ('p, 'a) thread_pl res" where
  "pl_start numThreads s = bind_r (tp_start numThreads (pl_pool s)) (\<lambda>q. Inr (s\<lparr>pl_pool := q\<rparr>))"

definition pl_stop :: "('p, 'a) thread_pl \<Rightarrow> ('p, 'a) thread_pl" where
  "pl_stop s = s\<lparr>pl_pool := tp_stop (pl_pool s)\<rparr>"

definition pl_isFull :: "('p, 'a) thread_pl \<Rightarrow> bool" where
  "pl_isFull s = tp_isFull (pl_pool s)"

definition pl_take :: "nat \<Rightarrow> (nat \<times> nat) option \<Rightarrow> ('p, 'a) thread_pl \<Rightarrow> ('p, 'a) thread_pl" where
  "pl_take i sel s = s\<lparr>pl_pool := tp_take i sel (pl_pool s)\<rparr>"

text \<open>\<^verbatim>\<open>put\<close>: without workers the task is called at once by the caller.\<close>

definition pl_put_call :: "'p \<Rightarrow> (nat \<Rightarrow> 'p \<Rightarrow> ('a \<times> 'p) res) \<Rightarrow> nat \<Rightarrow> nat \<Rightarrow> ('p, 'a) thread_pl \<Rightarrow> ('p, 'a) thread_pl res" where
  "pl_put_call fresh run t f s =
     (let s1 = s\<lparr>pl_pool := tp_put_call t f (pl_pool s)\<rparr>
      in if tp_threads (pl_pool s) = [] then pl_task fresh run t f s1 else Inr s1)"

definition pl_put_locked :: "nat \<times> nat \<Rightarrow> nat option \<Rightarrow> ('p, 'a) thread_pl \<Rightarrow> ('p, 'a) thread_pl res" where
  "pl_put_locked x sel s = bind_r (tp_put_locked x sel (pl_pool s)) (\<lambda>q. Inr (s\<lparr>pl_pool := q\<rparr>))"

text \<open>
  \<^verbatim>\<open>runInThread\<close> of worker \<open>i\<close>: the callback and the instance; the test of the loop; the call of a task, which it has
  taken; and the end of the thread, which deletes its object.
\<close>

definition pl_worker_init :: "'p \<Rightarrow> nat \<Rightarrow> ('p, 'a) thread_pl \<Rightarrow> ('p, 'a) thread_pl res" where
  "pl_worker_init fresh i s =
     bind_r (pool_do (WorkerInit i) (pl_pool s)) (\<lambda>q. bind_r (pl_instance fresh i (s\<lparr>pl_pool := q\<rparr>)) (\<lambda>(_, s1). Inr s1))"

definition pl_worker_task :: "'p \<Rightarrow> (nat \<Rightarrow> 'p \<Rightarrow> ('a \<times> 'p) res) \<Rightarrow> nat \<Rightarrow> ('p, 'a) thread_pl \<Rightarrow> ('p, 'a) thread_pl res" where
  "pl_worker_task fresh run i s =
     (case tp_threads (pl_pool s) ! i of
        WTask f \<Rightarrow> bind_r (pl_task fresh run i f s) (\<lambda>s1. bind_r (pool_do (WorkerFinish i) (pl_pool s1)) (\<lambda>q. Inr (s1\<lparr>pl_pool := q\<rparr>)))
      | _ \<Rightarrow> Inr s)"

text \<open>The task of the web server: \<open>req\<close> gives whether the connection of a task is up, and the bytes that were received.\<close>

definition onParser :: "web_config \<Rightarrow> file_system \<Rightarrow> web_cache \<Rightarrow> (nat \<Rightarrow> bool \<times> string) \<Rightarrow> nat \<Rightarrow> web_parser \<Rightarrow>
    (web_act list \<times> web_parser) res" where
  "onParser conf fs ca req f p = (case req f of (up, request) \<Rightarrow> parserRequest conf fs ca up request p)"

section \<open>Interleavings\<close>

datatype pl_event = PlPool pool_event | PlExit nat

text \<open>The workers are new threads: none of them has an object when the pool is started.\<close>

fun pl_enabled :: "pl_event \<Rightarrow> ('p, 'a) thread_pl \<Rightarrow> bool" where
  "pl_enabled (PlPool e) s \<longleftrightarrow> pool_enabled e (pl_pool s) \<and> (\<forall>n. e = PoolStart n \<longrightarrow> (\<forall>t < n. pl_value s t = None))"
| "pl_enabled (PlExit i) s \<longleftrightarrow> worker_at i WDone (pl_pool s) \<and> pl_key s i \<noteq> None"

fun pl_do :: "'p \<Rightarrow> (nat \<Rightarrow> 'p \<Rightarrow> ('a \<times> 'p) res) \<Rightarrow> pl_event \<Rightarrow> ('p, 'a) thread_pl \<Rightarrow> ('p, 'a) thread_pl res" where
  "pl_do fresh run (PlPool (PoolStart n)) s = pl_start n s"
| "pl_do fresh run (PlPool (WorkerInit i)) s = pl_worker_init fresh i s"
| "pl_do fresh run (PlPool (WorkerTake i sel)) s = Inr (pl_take i sel s)"
| "pl_do fresh run (PlPool (WorkerFinish i)) s = pl_worker_task fresh run i s"
| "pl_do fresh run (PlPool (PutCall t f)) s = pl_put_call fresh run t f s"
| "pl_do fresh run (PlPool (PutLocked x sel)) s = pl_put_locked x sel s"
| "pl_do fresh run (PlPool PoolStop) s = Inr (pl_stop s)"
| "pl_do fresh run (PlPool e) s = bind_r (pool_do e (pl_pool s)) (\<lambda>q. Inr (s\<lparr>pl_pool := q\<rparr>))"
| "pl_do fresh run (PlExit i) s = pl_destructor i s"

inductive pl_reachable :: "'p \<Rightarrow> (nat \<Rightarrow> 'p \<Rightarrow> ('a \<times> 'p) res) \<Rightarrow> nat \<Rightarrow> bool \<Rightarrow> ('p, 'a) thread_pl \<Rightarrow> bool"
  for fresh run maxSize cb where
  pl_made: "pl_reachable fresh run maxSize cb (ThreadPl_new maxSize cb)"
| pl_happened: "pl_reachable fresh run maxSize cb s \<Longrightarrow> pl_enabled e s \<Longrightarrow> pl_do fresh run e s = Inr s' \<Longrightarrow>
    pl_reachable fresh run maxSize cb s'"

section \<open>The pool without the objects\<close>

lemma pl_instance_frame:
  assumes "pl_instance fresh t s = Inr (obj, s')"
  shows "pl_pool s' = pl_pool s" "pl_ran s' = pl_ran s" "pl_out s' = pl_out s"
  using assms by (auto simp: pl_instance_def deleter_set_def ensure_eq_Inr bind_r_eq_Inr Let_def split: option.splits)

lemma pl_task_frame:
  assumes "pl_task fresh run t f s = Inr s'"
  shows "pl_pool s' = pl_pool s"
  using assms by (auto simp: pl_task_def bind_r_eq_Inr pl_instance_frame split: option.splits)

text \<open>Every step of the one pool is a step of the other.\<close>

lemma pl_do_pool:
  assumes "pl_enabled (PlPool e) s" and "pl_do fresh run (PlPool e) s = Inr s'"
  shows "pool_do e (pl_pool s) = Inr (pl_pool s')"
proof (cases e)
  case (WorkerInit i)
  with assms(2) show ?thesis
    by (auto simp: pl_worker_init_def bind_r_eq_Inr pl_instance_frame)
next
  case (WorkerFinish i)
  with assms obtain f where "tp_threads (pl_pool s) ! i = WTask f" by (auto elim: is_task.elims)
  with WorkerFinish assms(2) show ?thesis by (auto simp: pl_worker_task_def bind_r_eq_Inr pl_task_frame)
next
  case (PutCall t f)
  with assms(2) show ?thesis by (auto simp: pl_put_call_def pl_task_frame Let_def split: if_splits)
qed (use assms(2) in \<open>auto simp: pl_start_def pl_take_def pl_put_locked_def pl_stop_def bind_r_eq_Inr\<close>)

lemma pl_exit_pool: "pl_destructor i s = Inr s' \<Longrightarrow> pl_pool s' = pl_pool s"
  by (auto simp: pl_destructor_def ensure_eq_Inr Let_def split: option.splits)

lemma pl_reachable_pool: "pl_reachable fresh run maxSize cb s \<Longrightarrow> pool_reachable maxSize cb (pl_pool s)"
proof (induction rule: pl_reachable.induct)
  case pl_made
  show ?case by (simp add: pool_reachable_def ThreadPl_new_def)
next
  case (pl_happened s e s')
  show ?case
  proof (cases e)
    case (PlPool e')
    then have "pool_step (pl_pool s) (pl_pool s')"
      using pl_happened pl_do_pool [of e' s fresh run s'] by (auto intro: pool_event)
    with pl_happened.IH show ?thesis by (auto simp: pool_reachable_def)
  next
    case (PlExit i)
    with pl_happened pl_exit_pool [of i s s'] show ?thesis by simp
  qed
qed

section \<open>One object per thread\<close>

definition tasks_of :: "nat \<Rightarrow> ('p, 'a) thread_pl \<Rightarrow> nat list" where
  "tasks_of t s = map snd (filter (\<lambda>(t', f). t' = t) (pl_ran s))"

definition run_all :: "(nat \<Rightarrow> 'p \<Rightarrow> ('a \<times> 'p) res) \<Rightarrow> nat list \<Rightarrow> 'p \<Rightarrow> 'p res" where
  "run_all run fs p = fold_r (\<lambda>f p. bind_r (run f p) (\<lambda>(_, p'). Inr p')) fs p"

lemma run_all_snoc: "run_all run (fs @ [f]) p = bind_r (run_all run fs p) (\<lambda>p1. bind_r (run f p1) (\<lambda>(_, p'). Inr p'))"
  by (cases "run_all run fs p") (simp_all add: run_all_def fold_r_append)

text \<open>The object of a thread is its own, and what the tasks of the thread made of it.\<close>

definition obj_ok :: "'p \<Rightarrow> (nat \<Rightarrow> 'p \<Rightarrow> ('a \<times> 'p) res) \<Rightarrow> ('p, 'a) thread_pl \<Rightarrow> bool" where
  "obj_ok fresh run s \<longleftrightarrow> pl_key s = pl_value s \<and>
     (\<forall>t t' obj. pl_value s t = Some obj \<longrightarrow> pl_value s t' = Some obj \<longrightarrow> t = t') \<and>
     (\<forall>t obj. pl_value s t = Some obj \<longrightarrow> obj < pl_next s \<and> (\<exists>p. pl_heap s obj = Some p \<and> run_all run (tasks_of t s) fresh = Inr p))"

text \<open>Which threads have one: workers between their start and their end; a thread without one has not run anything or has ended.\<close>

definition worker_ok :: "('p, 'a) thread_pl \<Rightarrow> bool" where
  "worker_ok s \<longleftrightarrow>
     (\<forall>i < length (tp_threads (pl_pool s)). tp_threads (pl_pool s) ! i = WStart \<longrightarrow> pl_value s i = None) \<and>
     (\<forall>i < length (tp_threads (pl_pool s)). tp_threads (pl_pool s) ! i \<noteq> WStart \<longrightarrow> tp_threads (pl_pool s) ! i \<noteq> WDone \<longrightarrow> pl_value s i \<noteq> None) \<and>
     (\<forall>t. pl_value s t = None \<longrightarrow> tasks_of t s = [] \<or> worker_at t WDone (pl_pool s))"

lemma obj_ok_frame:
  assumes "pl_value s' = pl_value s" "pl_key s' = pl_key s" "pl_heap s' = pl_heap s" "pl_next s' = pl_next s" "pl_ran s' = pl_ran s"
  shows "obj_ok fresh run s' = obj_ok fresh run s"
  by (simp add: obj_ok_def assms tasks_of_def)

lemma instance_spec:
  assumes "obj_ok fresh run s" and "pl_value s t = None \<Longrightarrow> tasks_of t s = []"
  obtains obj s' p where "pl_instance fresh t s = Inr (obj, s')" and "obj_ok fresh run s'" and "pl_value s' t = Some obj"
    and "pl_value s' = (pl_value s)(t \<mapsto> obj)" and "pl_heap s' obj = Some p" and "pl_pool s' = pl_pool s" and "pl_ran s' = pl_ran s"
proof (cases "pl_value s t")
  case None
  let ?s = "s\<lparr>pl_value := (pl_value s)(t \<mapsto> pl_next s), pl_heap := (pl_heap s)(pl_next s \<mapsto> fresh), pl_next := Suc (pl_next s),
    pl_key := (pl_key s)(t \<mapsto> pl_next s)\<rparr>"
  have eq: "pl_instance fresh t s = Inr (pl_next s, ?s)"
    using None assms(1) by (simp add: pl_instance_def deleter_set_def obj_ok_def Let_def)
  have "run_all run (tasks_of t ?s) fresh = Inr fresh" using assms(2) [OF None] by (simp add: tasks_of_def run_all_def)
  moreover have "tasks_of t' ?s = tasks_of t' s" for t' by (simp add: tasks_of_def)
  ultimately have "obj_ok fresh run ?s" using assms(1) unfolding obj_ok_def by (auto simp: less_Suc_eq)
  with that [of "pl_next s" ?s fresh] eq show ?thesis by simp
next
  case (Some obj)
  then obtain p where "pl_heap s obj = Some p" using assms(1) unfolding obj_ok_def by blast
  moreover have "pl_value s = (pl_value s)(t \<mapsto> obj)" using Some by (simp add: fun_upd_idem)
  ultimately show ?thesis using that [of obj s p] Some assms(1) by (simp add: pl_instance_def)
qed

lemma task_spec:
  assumes "obj_ok fresh run s" and "pl_value s t = None \<Longrightarrow> tasks_of t s = []"
  shows "(\<exists>p err. run f p = Inl err \<and> pl_task fresh run t f s = Inl err) \<or>
    (\<exists>s' obj. pl_task fresh run t f s = Inr s' \<and> obj_ok fresh run s' \<and> pl_value s' = (pl_value s)(t \<mapsto> obj) \<and> pl_ran s' = pl_ran s @ [(t, f)])"
proof -
  from instance_spec [OF assms] obtain obj s1 p where
    i: "pl_instance fresh t s = Inr (obj, s1)" "obj_ok fresh run s1" "pl_value s1 t = Some obj" "pl_value s1 = (pl_value s)(t \<mapsto> obj)"
      "pl_heap s1 obj = Some p" "pl_pool s1 = pl_pool s" "pl_ran s1 = pl_ran s" .
  show ?thesis
  proof (cases "run f p")
    case (Inl err)
    with i show ?thesis by (auto simp: pl_task_def)
  next
    case (Inr r)
    obtain out p' where r: "r = (out, p')" by (cases r)
    let ?s = "s1\<lparr>pl_heap := (pl_heap s1)(obj \<mapsto> p'), pl_ran := pl_ran s1 @ [(t, f)], pl_out := pl_out s1 @ [(f, out)]\<rparr>"
    have eq: "pl_task fresh run t f s = Inr ?s" using i Inr r by (simp add: pl_task_def)
    have tasks: "tasks_of t' ?s = (if t' = t then tasks_of t s1 @ [f] else tasks_of t' s1)" for t' by (simp add: tasks_of_def)
    have "run_all run (tasks_of t s1) fresh = Inr p" using i(2,3,5) unfolding obj_ok_def by fastforce
    then have "run_all run (tasks_of t ?s) fresh = Inr p'" using Inr r by (simp add: tasks run_all_snoc)
    then have "obj_ok fresh run ?s" using i(2,3) unfolding obj_ok_def tasks by (auto; metis option.inject)
    with eq i show ?thesis by auto
  qed
qed

text \<open>Workers move between their start and their end.\<close>

definition keeps :: "worker_pc list \<Rightarrow> worker_pc list \<Rightarrow> bool" where
  "keeps ws ws' \<longleftrightarrow> length ws' = length ws \<and>
     (\<forall>i < length ws. (ws' ! i = WStart \<longleftrightarrow> ws ! i = WStart) \<and> (ws ! i = WDone \<longrightarrow> ws' ! i = WDone))"

lemma keeps_others_refl: "keeps ws ws"
  by (simp add: keeps_def)

lemma keeps_update: "w \<noteq> WStart \<Longrightarrow> (i < length ws \<Longrightarrow> ws ! i \<noteq> WStart \<and> ws ! i \<noteq> WDone) \<Longrightarrow> keeps ws (ws[i := w])"
  by (cases "i < length ws") (auto simp: keeps_def nth_list_update)

lemma pool_keeps:
  assumes "pool_enabled e q" and "pool_do e q = Inr q'" and "\<forall>n. e \<noteq> PoolStart n" and "\<forall>i. e \<noteq> WorkerInit i"
  shows "keeps (tp_threads q) (tp_threads q')"
proof (cases e)
  case (WorkerTake i sel)
  have "tp_threads (notFull_notify sel x) = tp_threads x" for x by (simp add: notFull_notify_def split: option.splits)
  with WorkerTake assms show ?thesis
    by (auto simp: tp_take_def worker_at_def Let_def intro!: keeps_update split: list.splits)
next
  case (PutLocked x sel)
  with assms show ?thesis
    by (auto simp: tp_put_locked_def notEmpty_notify_def notEmpty_sel_def keeps_others_refl intro!: keeps_update split: if_splits option.splits)
next
  case PoolStop
  with assms show ?thesis by (auto simp: tp_stop_def notEmpty_notifyAll_def keeps_def split: if_splits)
next
  case (PutCall t f)
  with assms show ?thesis by (auto simp: tp_put_call_def keeps_others_refl)
qed (use assms in \<open>auto simp: worker_at_def keeps_others_refl intro!: keeps_update\<close>)

lemma worker_ok_move:
  assumes "worker_ok s" and "keeps (tp_threads (pl_pool s)) (tp_threads (pl_pool s'))"
    and "pl_value s' = pl_value s" and "pl_ran s' = pl_ran s"
  shows "worker_ok s'"
proof -
  have "tasks_of t s' = tasks_of t s" for t by (simp add: tasks_of_def assms(4))
  with assms show ?thesis unfolding worker_ok_def keeps_def worker_at_def by metis
qed

lemma worker_ok_task:
  assumes "worker_ok s" and "pl_value s' = (pl_value s)(t \<mapsto> obj)" and "pl_ran s' = pl_ran s @ [(t, f)]" and "pl_pool s' = pl_pool s"
    and "t < length (tp_threads (pl_pool s)) \<Longrightarrow> tp_threads (pl_pool s) ! t \<noteq> WStart"
  shows "worker_ok s'"
proof -
  have "tasks_of t' s' = tasks_of t' s" if "t' \<noteq> t" for t' using that by (auto simp: tasks_of_def assms(3))
  with assms(1,2,4,5) show ?thesis unfolding worker_ok_def by auto
qed

lemma pl_step_ok:
  assumes ok: "obj_ok fresh run s" "worker_ok s" and en: "pl_enabled e s"
  shows "(\<exists>f p err. run f p = Inl err \<and> pl_do fresh run e s = Inl err) \<or>
    (\<exists>s'. pl_do fresh run e s = Inr s' \<and> obj_ok fresh run s' \<and> worker_ok s')"
proof (cases e)
  case (PlExit i)
  with en ok(1) obtain obj where obj: "pl_key s i = Some obj" "pl_value s i = Some obj" and at: "worker_at i WDone (pl_pool s)"
    by (auto simp: obj_ok_def)
  let ?s = "s\<lparr>pl_key := (pl_key s)(i := None), pl_heap := (pl_heap s)(obj := None), pl_value := (pl_value s)(i := None)\<rparr>"
  have tasks: "tasks_of t ?s = tasks_of t s" for t by (simp add: tasks_of_def)
  have "obj_ok fresh run ?s" using ok(1) obj unfolding obj_ok_def tasks by auto
  moreover have "worker_ok ?s" using ok(2) at unfolding worker_ok_def tasks by (auto simp: worker_at_def)
  ultimately show ?thesis using PlExit obj by (simp add: pl_destructor_def Let_def)
next
  case (PlPool e')
  let ?q = "pl_pool s"
  have en': "pool_enabled e' ?q" using en PlPool by simp
  have other: ?thesis if "pl_do fresh run e s = Inr (s\<lparr>pl_pool := q\<rparr>)" "pool_do e' ?q = Inr q" "\<forall>n. e' \<noteq> PoolStart n" "\<forall>i. e' \<noteq> WorkerInit i" for q
  proof -
    have "obj_ok fresh run (s\<lparr>pl_pool := q\<rparr>)" using ok(1) obj_ok_frame [of "s\<lparr>pl_pool := q\<rparr>" s fresh run] by simp
    moreover have "worker_ok (s\<lparr>pl_pool := q\<rparr>)" by (rule worker_ok_move [OF ok(2)]) (use pool_keeps [OF en' that(2-4)] in simp_all)
    ultimately show ?thesis using that(1) by blast
  qed
  show ?thesis
  proof (cases e')
    case (PoolStart n)
    let ?s = "s\<lparr>pl_pool := q\<rparr>"
    obtain q where q: "tp_start n ?q = Inr q" "tp_threads q = replicate n WStart"
      using en' PoolStart by (auto simp: tp_start_def tp_init_call_def Let_def)
    have "worker_ok (s\<lparr>pl_pool := q\<rparr>)"
      using ok(2) en PlPool PoolStart q(2) by (auto simp: worker_ok_def tasks_of_def worker_at_def)
    moreover have "obj_ok fresh run (s\<lparr>pl_pool := q\<rparr>)" using ok(1) obj_ok_frame [of "s\<lparr>pl_pool := q\<rparr>" s fresh run] by simp
    ultimately show ?thesis using PlPool PoolStart q(1) by (simp add: pl_start_def)
  next
    case (WorkerInit i)
    define q where "q = tp_init_call (?q\<lparr>tp_threads := (tp_threads ?q)[i := WLoop]\<rparr>)"
    have th: "tp_threads q = (tp_threads ?q)[i := WLoop]" by (simp add: q_def tp_init_call_def)
    have i: "i < length (tp_threads ?q)" "tp_threads ?q ! i = WStart" using en' WorkerInit by (simp_all add: worker_at_def)
    then have value_none: "pl_value s i = None" using ok(2) by (simp add: worker_ok_def)
    with ok(2) have "tasks_of i s = [] \<or> worker_at i WDone ?q" by (simp add: worker_ok_def)
    with value_none i have none: "pl_value s i = None" "tasks_of i s = []" by (auto simp: worker_at_def)
    have "obj_ok fresh run (s\<lparr>pl_pool := q\<rparr>)" using ok(1) obj_ok_frame [of "s\<lparr>pl_pool := q\<rparr>" s fresh run] by simp
    moreover have "tasks_of i (s\<lparr>pl_pool := q\<rparr>) = []" using none by (simp add: tasks_of_def)
    ultimately obtain obj s1 p where "pl_instance fresh i (s\<lparr>pl_pool := q\<rparr>) = Inr (obj, s1)" "obj_ok fresh run s1" "pl_value s1 i = Some obj"
        "pl_value s1 = (pl_value (s\<lparr>pl_pool := q\<rparr>))(i \<mapsto> obj)" "pl_heap s1 obj = Some p" "pl_pool s1 = pl_pool (s\<lparr>pl_pool := q\<rparr>)"
        "pl_ran s1 = pl_ran (s\<lparr>pl_pool := q\<rparr>)" by (rule instance_spec)
    then have s1: "pl_instance fresh i (s\<lparr>pl_pool := q\<rparr>) = Inr (obj, s1)" "obj_ok fresh run s1" "pl_value s1 = (pl_value s)(i \<mapsto> obj)"
        "pl_pool s1 = q" "pl_ran s1 = pl_ran s" by simp_all
    have "tasks_of t s1 = tasks_of t s" for t by (simp add: tasks_of_def s1(5))
    then have "worker_ok s1"
      using ok(2) i unfolding worker_ok_def worker_at_def s1(3,4) th by (auto simp: nth_list_update)
    with s1 show ?thesis using PlPool WorkerInit by (simp add: pl_worker_init_def q_def)
  next
    case (WorkerFinish i)
    with en' obtain f where f: "i < length (tp_threads ?q)" "tp_threads ?q ! i = WTask f" by (auto elim: is_task.elims)
    then have "pl_value s i \<noteq> None" using ok(2) by (simp add: worker_ok_def)
    with task_spec [OF ok(1), of i f] consider
      (fails) p err where "run f p = Inl err" "pl_task fresh run i f s = Inl err"
      | (done_) s1 obj where "pl_task fresh run i f s = Inr s1" "obj_ok fresh run s1" "pl_value s1 = (pl_value s)(i \<mapsto> obj)" "pl_ran s1 = pl_ran s @ [(i, f)]"
      by auto
    then show ?thesis
    proof cases
      case fails
      with f PlPool WorkerFinish show ?thesis by (auto simp: pl_worker_task_def)
    next
      case done_
      note pool = pl_task_frame [OF done_(1)]
      let ?q' = "?q\<lparr>tp_threads := (tp_threads ?q)[i := WLoop]\<rparr>"
      have w1: "worker_ok s1" by (rule worker_ok_task [OF ok(2) done_(3,4) pool]) (simp add: f)
      have "worker_ok (s1\<lparr>pl_pool := ?q'\<rparr>)" by (rule worker_ok_move [OF w1]) (use f pool in \<open>auto intro!: keeps_update\<close>)
      moreover have "obj_ok fresh run (s1\<lparr>pl_pool := ?q'\<rparr>)"
        using done_(2) obj_ok_frame [of "s1\<lparr>pl_pool := ?q'\<rparr>" s1 fresh run] by simp
      ultimately show ?thesis using f done_(1) pool PlPool WorkerFinish by (simp add: pl_worker_task_def)
    qed
  next
    case (PutCall t f)
    show ?thesis
    proof (cases "tp_threads ?q = []")
      case False
      then show ?thesis by (intro other [of "tp_put_call t f ?q"]) (use PlPool PutCall in \<open>simp_all add: pl_put_call_def Let_def\<close>)
    next
      case True
      let ?s = "s\<lparr>pl_pool := tp_put_call t f ?q\<rparr>"
      have o1: "obj_ok fresh run ?s" using ok(1) obj_ok_frame [of ?s s fresh run] by simp
      have th: "tp_threads (tp_put_call t f ?q) = []" using True by (simp add: tp_put_call_def)
      have w1: "worker_ok ?s" by (rule worker_ok_move [OF ok(2)]) (simp_all add: True th keeps_others_refl)
      then have "pl_value ?s t = None \<Longrightarrow> tasks_of t ?s = []" using th by (auto simp: worker_ok_def worker_at_def)
      with task_spec [OF o1, of t f] consider
        (fails) p err where "run f p = Inl err" "pl_task fresh run t f ?s = Inl err"
        | (done_) s1 obj where "pl_task fresh run t f ?s = Inr s1" "obj_ok fresh run s1" "pl_value s1 = (pl_value ?s)(t \<mapsto> obj)" "pl_ran s1 = pl_ran ?s @ [(t, f)]"
        by blast
      then show ?thesis
      proof cases
        case fails
        with True PlPool PutCall show ?thesis by (auto simp: pl_put_call_def Let_def)
      next
        case done_
        have "worker_ok s1" by (rule worker_ok_task [OF w1 done_(3,4) pl_task_frame [OF done_(1)]]) (simp add: th)
        with done_ True PlPool PutCall show ?thesis by (simp add: pl_put_call_def Let_def)
      qed
    qed
  next
    case (PutLocked x sel)
    obtain q where "tp_put_locked x sel ?q = Inr q" by (cases "tp_isFull ?q") (simp_all add: tp_put_locked_def)
    then show ?thesis by (intro other [of q]) (use PlPool PutLocked in \<open>simp_all add: pl_put_locked_def\<close>)
  qed (use PlPool other in \<open>simp_all add: pl_take_def pl_stop_def\<close>)
qed

lemma pl_reachable_ok: "pl_reachable fresh run maxSize cb s \<Longrightarrow> obj_ok fresh run s \<and> worker_ok s"
proof (induction rule: pl_reachable.induct)
  case pl_made
  show ?case by (simp add: obj_ok_def worker_ok_def ThreadPl_new_def ThreadPool_new_def tasks_of_def)
next
  case (pl_happened s e s')
  with pl_step_ok [of fresh run s e] show ?case by auto
qed

section \<open>Every task once\<close>

fun task_of :: "worker_pc \<Rightarrow> nat list" where
  "task_of (WTask f) = [f]"
| "task_of _ = []"

text \<open>The tasks that workers are at.\<close>

definition current :: "worker_pc list \<Rightarrow> nat multiset" where
  "current ws = mset (concat (map task_of ws))"

lemma current_update: "i < length ws \<Longrightarrow> current (ws[i := w]) + mset (task_of (ws ! i)) = current ws + mset (task_of w)"
proof (induction ws arbitrary: i)
  case (Cons x ws)
  then show ?case by (cases i) (auto simp: current_def ac_simps)
qed simp

definition once_ok :: "('p, 'a) thread_pl \<Rightarrow> bool" where
  "once_ok s \<longleftrightarrow> mset (map snd (pl_ran s)) + current (tp_threads (pl_pool s)) = mset (tp_started (pl_pool s)) \<and>
     map fst (pl_out s) = map snd (pl_ran s)"

text \<open>The tasks an event ends.\<close>

fun ended :: "pool_event \<Rightarrow> thread_pool \<Rightarrow> nat list" where
  "ended (WorkerFinish i) q = task_of (tp_threads q ! i)"
| "ended (PutCall t f) q = (if tp_threads q = [] then [f] else [])"
| "ended _ q = []"

lemma current_same: "task_of w = [] \<Longrightarrow> (i < length ws \<Longrightarrow> task_of (ws ! i) = []) \<Longrightarrow> current (ws[i := w]) = current ws"
  using current_update [of i ws w] by (cases "i < length ws") (auto simp: not_less list_update_beyond)

lemma pool_current:
  assumes "pool_enabled e q" and "pool_do e q = Inr q'"
  shows "current (tp_threads q') + mset (tp_started q) + mset (ended e q) = current (tp_threads q) + mset (tp_started q')"
proof (cases e)
  case (PoolStart n)
  have "current (replicate n WStart) = {#}" by (induction n) (simp_all add: current_def)
  with PoolStart assms show ?thesis
    by (auto simp: tp_start_def tp_init_call_def ensure_eq_Inr current_def Let_def split: if_splits)
next
  case (WorkerTake i sel)
  then have i: "i < length (tp_threads q)" "tp_threads q ! i = WTake" using assms(1) by (simp_all add: worker_at_def)
  have frame: "tp_threads (notFull_notify sel x) = tp_threads x" "tp_started (notFull_notify sel x) = tp_started x" for x
    by (simp_all add: notFull_notify_def split: option.splits)
  have move: "current ((tp_threads q)[i := w]) = current (tp_threads q) + mset (task_of w)" for w
    using current_update [OF i(1), of w] i(2) by simp
  show ?thesis using WorkerTake assms(2) by (auto simp: tp_take_def frame move Let_def split: list.splits)
next
  case (WorkerFinish i)
  with assms(1) obtain f where "i < length (tp_threads q)" "tp_threads q ! i = WTask f" by (auto elim: is_task.elims)
  with WorkerFinish assms(2) current_update [of i "tp_threads q" WLoop] show ?thesis by (auto simp: ac_simps)
next
  case (PutCall t f)
  with assms(2) show ?thesis by (auto simp: tp_put_call_def)
next
  case (PutLocked x sel)
  with assms show ?thesis
    by (auto simp: tp_put_locked_def notEmpty_notify_def notEmpty_sel_def intro!: current_same split: if_splits option.splits)
next
  case PoolStop
  have stop: "task_of \<circ> (\<lambda>p. if p = WWait then WTake else p) = task_of" by (rule ext) simp
  from PoolStop assms show ?thesis by (auto simp: tp_stop_def notEmpty_notifyAll_def current_def stop)
qed (use assms in \<open>auto simp: worker_at_def tp_init_call_def intro!: current_same split: if_splits\<close>)

lemma pl_do_ran:
  assumes "pl_enabled (PlPool e) s" and "pl_do fresh run (PlPool e) s = Inr s'"
  shows "map snd (pl_ran s') = map snd (pl_ran s) @ ended e (pl_pool s)"
    and "map fst (pl_out s) = map snd (pl_ran s) \<Longrightarrow> map fst (pl_out s') = map snd (pl_ran s')"
proof -
  have task: "map snd (pl_ran y) = map snd (pl_ran x) @ [f]" "map fst (pl_out y) = map fst (pl_out x) @ [f]"
    if "pl_task fresh run t f x = Inr y" for t f x y
    using that by (auto simp: pl_task_def bind_r_eq_Inr pl_instance_frame split: option.splits)
  have "map snd (pl_ran s') = map snd (pl_ran s) @ ended e (pl_pool s) \<and> map fst (pl_out s') = map fst (pl_out s) @ ended e (pl_pool s)"
  proof (cases e)
    case (WorkerFinish i)
    with assms(1) obtain f where "tp_threads (pl_pool s) ! i = WTask f" by (auto elim: is_task.elims)
    with WorkerFinish assms(2) show ?thesis by (auto simp: pl_worker_task_def bind_r_eq_Inr task)
  next
    case (PutCall t f)
    show ?thesis
    proof (cases "tp_threads (pl_pool s) = []")
      case True
      with PutCall assms(2) have "pl_task fresh run t f (s\<lparr>pl_pool := tp_put_call t f (pl_pool s)\<rparr>) = Inr s'"
        by (simp add: pl_put_call_def)
      from task [OF this] True PutCall show ?thesis by simp
    qed (use PutCall assms(2) in \<open>auto simp: pl_put_call_def Let_def\<close>)
  next
    case (WorkerInit i)
    with assms(2) show ?thesis by (auto simp: pl_worker_init_def bind_r_eq_Inr pl_instance_frame)
  qed (use assms(2) in \<open>auto simp: pl_start_def pl_take_def pl_put_locked_def pl_stop_def bind_r_eq_Inr\<close>)
  then show "map snd (pl_ran s') = map snd (pl_ran s) @ ended e (pl_pool s)"
    "map fst (pl_out s) = map snd (pl_ran s) \<Longrightarrow> map fst (pl_out s') = map snd (pl_ran s')" by simp_all
qed

lemma pl_reachable_once: "pl_reachable fresh run maxSize cb s \<Longrightarrow> once_ok s"
proof (induction rule: pl_reachable.induct)
  case pl_made
  show ?case by (simp add: once_ok_def ThreadPl_new_def ThreadPool_new_def current_def)
next
  case (pl_happened s e s')
  show ?case
  proof (cases e)
    case (PlPool e')
    with pl_happened have en: "pl_enabled (PlPool e') s" and step: "pl_do fresh run (PlPool e') s = Inr s'" by simp_all
    from pl_do_pool [OF en step] en have cur: "current (tp_threads (pl_pool s')) + mset (tp_started (pl_pool s)) + mset (ended e' (pl_pool s)) =
        current (tp_threads (pl_pool s)) + mset (tp_started (pl_pool s'))" by (intro pool_current) simp_all
    have ran: "mset (map snd (pl_ran s')) = mset (map snd (pl_ran s)) + mset (ended e' (pl_pool s))"
      using pl_do_ran(1) [OF en step] by simp
    have "mset (map snd (pl_ran s')) + current (tp_threads (pl_pool s')) + mset (tp_started (pl_pool s)) =
        mset (tp_started (pl_pool s')) + mset (tp_started (pl_pool s))"
    proof -
      have "mset (map snd (pl_ran s')) + current (tp_threads (pl_pool s')) + mset (tp_started (pl_pool s)) =
          mset (map snd (pl_ran s)) + (current (tp_threads (pl_pool s')) + mset (tp_started (pl_pool s)) + mset (ended e' (pl_pool s)))"
        by (simp only: ran ac_simps)
      also have "\<dots> = (mset (map snd (pl_ran s)) + current (tp_threads (pl_pool s))) + mset (tp_started (pl_pool s'))"
        unfolding cur by (simp only: ac_simps)
      finally show ?thesis using pl_happened.IH by (simp add: once_ok_def ac_simps)
    qed
    then show ?thesis using pl_do_ran(2) [OF en step] pl_happened.IH by (simp add: once_ok_def)
  next
    case (PlExit i)
    with pl_happened show ?thesis by (auto simp: once_ok_def pl_destructor_def ensure_eq_Inr Let_def split: option.splits)
  qed
qed

section \<open>Properties\<close>


text \<open>A pool of one worker whose parser has answered a request with a method it does not know.\<close>

fun pl_run :: "'p \<Rightarrow> (nat \<Rightarrow> 'p \<Rightarrow> ('a \<times> 'p) res) \<Rightarrow> pool_event list \<Rightarrow> ('p, 'a) thread_pl \<Rightarrow> ('p, 'a) thread_pl option" where
  "pl_run fresh run [] s = Some s"
| "pl_run fresh run (e # es) s =
     (if pl_enabled (PlPool e) s then case pl_do fresh run (PlPool e) s of Inl _ \<Rightarrow> None | Inr s' \<Rightarrow> pl_run fresh run es s' else None)"

lemma pl_run_reachable: "pl_run fresh run es s = Some s' \<Longrightarrow> pl_reachable fresh run maxSize cb s \<Longrightarrow> pl_reachable fresh run maxSize cb s'"
proof (induction es arbitrary: s)
  case (Cons e es)
  then obtain s1 where s1: "pl_enabled (PlPool e) s" "pl_do fresh run (PlPool e) s = Inr s1" "pl_run fresh run es s1 = Some s'"
    by (auto split: if_splits sum.splits)
  from Cons.IH [OF s1(3) pl_happened [OF Cons.prems(2) s1(1,2)]] show ?case .
qed simp

definition head_request :: "nat \<Rightarrow> bool \<times> string" where
  "head_request _ = (True, ''HEAD / '')"

lemma head_request_run:
  "onParser example_conf example_fs example_cache head_request f p = Inr (web_error True web_unimplemented p)"
  by (simp add: onParser_def head_request_def parserRequest_def method_loop.simps req_at_def c_isspace_def c_chars_def lower_def)

definition head_events :: "pool_event list" where
  "head_events = [PoolStart 1, WorkerInit 0, WorkerTest 0, PutCall 9 5, PutLocked (9, 5) None, WorkerTake 0 None, WorkerFinish 0]"


end
