(* ===== verification/Scripts.thy ===== *)
theory Scripts
  imports Prelude
begin

text \<open>
  The CGI scripts (\<^verbatim>\<open>cgiServer/src/login.cpp\<close>, \<^verbatim>\<open>register.cpp\<close>, \<^verbatim>\<open>register_check.cpp\<close>).

  A script reads the configuration, then the fields of the form, asks the database and prints a page. The configuration,
  the form and the database are parameters: what they give, or the text of the exception they throw. What a script
  prints is its result. The properties: the page shown is the one the database calls for; the fields can be read back from a
  statement when they hold no quote or backslash; otherwise they can change it; what is printed when the database fails.
\<close>

section \<open>Surroundings\<close>

text \<open>\<^verbatim>\<open>config[a][b].as<string>()\<close>: the text of the exception, or the value.\<close>

type_synonym config = "string \<Rightarrow> string \<Rightarrow> string + string"

text \<open>\<open>db_query\<close>: the number of rows of a result; \<open>Some what\<close> or \<open>Inl what\<close>: an exception.\<close>

record database =
  db_connect :: "string \<Rightarrow> string \<Rightarrow> string \<Rightarrow> string \<Rightarrow> string option"
  db_query :: "string \<Rightarrow> string + nat"
  db_execute :: "string \<Rightarrow> string option"

record db_settings =
  g_nginxIP :: string
  g_db_server :: string
  g_db_user :: string
  g_db_pswd :: string
  g_db_dbName :: string

definition crlf :: string where "crlf = [CHR 0x0D, LF]"

text \<open>Reading keys in order, up to the first exception.\<close>

fun read_keys :: "config \<Rightarrow> (string \<times> string) list \<Rightarrow> string + string list" where
  "read_keys conf [] = Inr []"
| "read_keys conf ((a, b) # ks) =
     (case conf a b of
        Inl what \<Rightarrow> Inl what
      | Inr v \<Rightarrow> (case read_keys conf ks of Inl what \<Rightarrow> Inl what | Inr vs \<Rightarrow> Inr (v # vs)))"

definition db_keys :: "(string \<times> string) list" where
  "db_keys = [(''dataBase'', ''server''), (''dataBase'', ''user''), (''dataBase'', ''pswd''), (''dataBase'', ''dbName'')]"

text \<open>\<^verbatim>\<open>init\<close> of \<^verbatim>\<open>login.cpp\<close> and \<^verbatim>\<open>register.cpp\<close>, and of \<^verbatim>\<open>register_check.cpp\<close>: the settings, or what it prints.\<close>

definition script_init :: "config \<Rightarrow> string + db_settings" where
  "script_init conf =
     (case read_keys conf ((''webServer'', ''nginxIP'') # db_keys) of
        Inl what \<Rightarrow> Inl (what @ [LF])
      | Inr vs \<Rightarrow> Inr \<lparr>g_nginxIP = vs ! 0, g_db_server = vs ! 1, g_db_user = vs ! 2, g_db_pswd = vs ! 3, g_db_dbName = vs ! 4\<rparr>)"

definition check_init :: "config \<Rightarrow> string + db_settings" where
  "check_init conf =
     (case read_keys conf db_keys of
        Inl what \<Rightarrow> Inl (what @ [LF])
      | Inr vs \<Rightarrow> Inr \<lparr>g_nginxIP = [], g_db_server = vs ! 0, g_db_user = vs ! 1, g_db_pswd = vs ! 2, g_db_dbName = vs ! 3\<rparr>)"

definition config_error :: string where
  "config_error = ''configuration error, syntax or path''"

definition connect_db :: "database \<Rightarrow> db_settings \<Rightarrow> string option" where
  "connect_db db g = db_connect db (c_chars (g_db_dbName g)) (c_chars (g_db_server g)) (c_chars (g_db_user g)) (c_chars (g_db_pswd g))"

text \<open>\<^verbatim>\<open>**userName\<close>: a field that is missing is the end of the fields.\<close>

definition field :: "string \<Rightarrow> (string \<Rightarrow> string option) \<Rightarrow> string res" where
  "field name form = (case form name of None \<Rightarrow> Inl (Undefined ''**end()'') | Some v \<Rightarrow> Inr v)"

section \<open>Logging in\<close>

definition q1 :: string where "q1 = [CHR 0x27]"

definition login_statement :: "string \<Rightarrow> string \<Rightarrow> string" where
  "login_statement user pw =
     ''SELECT * from user_pwd where userName='' @ q1 @ user @ q1 @ '' and pswd='' @ q1 @ pw @ q1 @ '';''"

definition login_redirect :: "string \<Rightarrow> string" where
  "login_redirect ip = ''HTTP/1.0 302 Found'' @ crlf @ ''Location:http://'' @ ip @ ''/pages/logIn.html'' @ crlf @
     ''Content-type:text/html;charset=utf-8 '' @ crlf @ crlf"

text \<open>The name of a font, in UTF-8.\<close>

definition font_name :: string where
  "font_name = [CHR 0xE5, CHR 0xBE, CHR 0xAE, CHR 0xE8, CHR 0xBD, CHR 0xAF, CHR 0xE9, CHR 0x9B, CHR 0x85, CHR 0xE9, CHR 0xBB, CHR 0x91]"

definition login_page :: "string \<Rightarrow> string \<Rightarrow> string" where
  "login_page ip user =
     (let url = ''<img src='' @ q1 @ ''http://'' @ ip @ ''/pages/images/login/programer_wall_5.png'' @ q1 @ '' width='' @ q1 @ ''100%'' @ q1 @
          '' height='' @ q1 @ ''100%'' @ q1 @ ''/>''
      in ''HTTP/1.0 200 OK'' @ crlf @ ''Content-type:text/html;charset=utf-8 '' @ crlf @ crlf @
         ''<html>'' @ [LF] @ ''<head>'' @ [LF] @ ''<meta charset='' @ q1 @ ''utf-8'' @ q1 @ ''>'' @ [LF] @
         ''<title>private base</title>'' @ [LF] @ ''<style type='' @ q1 @ ''text/css'' @ q1 @ ''>'' @ [LF] @
         ''*{margin:0;padding:0}'' @ [LF] @ ''div{position:relative;}'' @ [LF] @
         ''div p{position:absolute;left:10px;top:10px;color:#CC33CC;font-size:medium;font-family:'' @ q1 @ font_name @ q1 @ ''}'' @ [LF] @
         ''div span{position:absolute;left:360px;top:10px;color:#7CFC00;font-size:medium;font-family:'' @ q1 @ font_name @ q1 @ ''}'' @ [LF] @
         ''</style>'' @ [LF] @ ''</head>'' @ [LF] @ ''<body>'' @ [LF] @ ''<div>'' @ [LF] @ url @
         ''<p>Login success! welcome to your Newland! </p>'' @ [LF] @ ''<span>'' @ user @ ''</span>'' @ [LF] @ ''</div>'' @ [LF] @
         ''</body>'' @ [LF] @ ''</html>'' @ [LF])"

text \<open>The part in the \<^verbatim>\<open>try\<close> block: what it prints, and \<^verbatim>\<open>redirection\<close> after it.\<close>

definition login_try :: "database \<Rightarrow> db_settings \<Rightarrow> (string \<Rightarrow> string option) \<Rightarrow> (string \<times> bool) res" where
  "login_try db g form =
     (case connect_db db g of
        Some what \<Rightarrow> Inr (what @ [LF], True)
      | None \<Rightarrow>
          bind_r (field ''user'' form) (\<lambda>user. bind_r (field ''pw'' form) (\<lambda>pw.
            case db_query db (login_statement user pw) of
              Inl what \<Rightarrow> Inr (what @ [LF], True)
            | Inr rows \<Rightarrow> Inr ([], \<not> 0 < rows))))"

definition login_main :: "config \<Rightarrow> database \<Rightarrow> (string \<Rightarrow> string option) \<Rightarrow> string res" where
  "login_main conf db form =
     (case script_init conf of
        Inl out \<Rightarrow> Inr (out @ config_error)
      | Inr g \<Rightarrow>
          bind_r (login_try db g form) (\<lambda>(out, redirection).
            if redirection then Inr (out @ login_redirect (g_nginxIP g))
            else bind_r (field ''user'' form) (\<lambda>user. Inr (out @ login_page (g_nginxIP g) user))))"

section \<open>Registering\<close>

definition register_statement :: "string \<Rightarrow> string \<Rightarrow> string \<Rightarrow> string" where
  "register_statement user pw mail =
     ''INSERT into user_pwd(userName,pswd,email) VALUES('' @ q1 @ user @ q1 @ '','' @ q1 @ pw @ q1 @ '','' @ q1 @ mail @ q1 @ '');''"

definition register_page :: "string \<Rightarrow> string" where
  "register_page ip = ''HTTP/1.0 302 Found'' @ crlf @ ''Location:http://'' @ ip @ ''/index.html'' @ crlf @
     ''Content-type:text/html;charset=utf-8 '' @ crlf @ crlf @ ''<html>'' @ [LF] @ ''<body>'' @ [LF] @ ''<br/>'' @ [LF] @ ''</body>'' @ [LF] @ ''</html>'' @ [LF]"

definition register_main :: "config \<Rightarrow> database \<Rightarrow> (string \<Rightarrow> string option) \<Rightarrow> string res" where
  "register_main conf db form =
     (case script_init conf of
        Inl out \<Rightarrow> Inr (out @ config_error)
      | Inr g \<Rightarrow>
          bind_r (case connect_db db g of
                    Some what \<Rightarrow> Inr (what @ [LF])
                  | None \<Rightarrow>
                      bind_r (field ''user'' form) (\<lambda>user. bind_r (field ''pw'' form) (\<lambda>pw. bind_r (field ''mail'' form) (\<lambda>mail.
                        case db_execute db (register_statement user pw mail) of Some what \<Rightarrow> Inr (what @ [LF]) | None \<Rightarrow> Inr []))))
            (\<lambda>out. Inr (out @ register_page (g_nginxIP g))))"

section \<open>Checking a name\<close>

definition check_statement :: "string \<Rightarrow> string" where
  "check_statement user = ''SELECT * from user_pwd where userName='' @ q1 @ user @ q1 @ '';''"

definition check_main :: "config \<Rightarrow> database \<Rightarrow> (string \<Rightarrow> string option) \<Rightarrow> string res" where
  "check_main conf db form =
     (case check_init conf of
        Inl out \<Rightarrow> Inr (out @ config_error)
      | Inr g \<Rightarrow>
          bind_r (case connect_db db g of
                    Some what \<Rightarrow> Inr (what @ [LF], False)
                  | None \<Rightarrow>
                      bind_r (field ''userName'' form) (\<lambda>user.
                        case db_query db (check_statement user) of Inl what \<Rightarrow> Inr (what @ [LF], False) | Inr rows \<Rightarrow> Inr ([], 0 < rows)))
            (\<lambda>(out, exsit). Inr (out @ ''HTTP/1.0 200 OK'' @ crlf @ ''Content-type:text/html;charset=utf-8 '' @ crlf @ crlf @
               (if exsit then ''yes'' else ''no''))))"

section \<open>What the database reads\<close>

text \<open>
  The quoted strings of a statement, as the server reads them: a doubled quote is a quote, a backslash takes the next
  character. \<open>None\<close>: a string does not end.
\<close>

fun sql_out :: "string \<Rightarrow> string list option" and sql_in :: "string \<Rightarrow> string \<Rightarrow> string list option" where
  "sql_out [] = Some []"
| "sql_out (c # cs) = (if c = CHR 0x27 then sql_in [] cs else sql_out cs)"
| "sql_in v [] = None"
| "sql_in v [c] = (if c = CHR 0x27 then Some [v] else None)"
| "sql_in v (c # d # cs) =
     (if c = CHR 0x5C then sql_in (v @ [d]) cs
      else if c = CHR 0x27
      then if d = CHR 0x27 then sql_in (v @ [d]) cs else map_option (Cons v) (sql_out (d # cs))
      else sql_in (v @ [c]) (d # cs))"

definition plain :: "string \<Rightarrow> bool" where
  "plain v \<longleftrightarrow> CHR 0x27 \<notin> set v \<and> CHR 0x5C \<notin> set v"

lemma sql_out_text: "CHR 0x27 \<notin> set t \<Longrightarrow> sql_out (t @ rest) = sql_out rest"
  by (induction t) auto

lemma sql_in_plain:
  "plain v \<Longrightarrow> d \<noteq> CHR 0x27 \<Longrightarrow> sql_in w (v @ q1 @ d # rest) = map_option (Cons (w @ v)) (sql_out (d # rest))"
proof (induction v arbitrary: w)
  case (Cons c v)
  then have "sql_in (w @ [c]) (v @ q1 @ d # rest) = map_option (Cons (w @ c # v)) (sql_out (d # rest))" by (simp add: plain_def)
  moreover obtain e es where "v @ q1 @ d # rest = e # es" by (cases "v @ q1 @ d # rest") (simp_all add: q1_def)
  moreover have "c \<noteq> CHR 0x27" "c \<noteq> CHR 0x5C" using Cons.prems(1) by (auto simp: plain_def)
  ultimately show ?case by simp
qed (simp add: q1_def)

lemma sql_literal: "plain v \<Longrightarrow> d \<noteq> CHR 0x27 \<Longrightarrow> sql_out (q1 @ v @ q1 @ d # rest) = map_option (Cons v) (sql_out (d # rest))"
  using sql_in_plain [of v d "[]" rest] by (simp add: q1_def)

text \<open>
  Fields without quotes and backslashes are read back from the statements as they were entered, each in its
  place, so different entries give different statements.
\<close>

theorem statements_read_back:
  assumes "plain user" and "plain pw" and "plain mail"
  shows "sql_out (login_statement user pw) = Some [user, pw]"
    and "sql_out (register_statement user pw mail) = Some [user, pw, mail]"
    and "sql_out (check_statement user) = Some [user]"
proof -
  show "sql_out (login_statement user pw) = Some [user, pw]"
    unfolding login_statement_def
    by (subst sql_out_text, simp)
      (use sql_literal [OF assms(1), of "CHR '' ''" "''and pswd='' @ q1 @ pw @ q1 @ '';''"] sql_literal [OF assms(2), of "CHR '';''" "[]"] in simp)
  show "sql_out (register_statement user pw mail) = Some [user, pw, mail]"
    unfolding register_statement_def
    by (subst sql_out_text, simp)
      (use sql_literal [OF assms(1), of "CHR '',''" "q1 @ pw @ q1 @ '','' @ q1 @ mail @ q1 @ '');''"]
        sql_literal [OF assms(2), of "CHR '',''" "q1 @ mail @ q1 @ '');''"] sql_literal [OF assms(3), of "CHR '')''" "'';''"] in simp)
  show "sql_out (check_statement user) = Some [user]"
    unfolding check_statement_def
    by (subst sql_out_text, simp) (use sql_literal [OF assms(1), of "CHR '';''" "[]"] in simp)
qed

text \<open>
  A quote in a field ends its string: this password makes the condition of the statement hold for
  every row, whoever is named, and the page of the users is shown.
\<close>

definition any_password :: string where
  "any_password = q1 @ '' or '' @ q1 @ ''1'' @ q1 @ ''='' @ q1 @ ''1''"

theorem password_changes_statement:
  "login_statement user any_password =
     ''SELECT * from user_pwd where userName='' @ q1 @ user @ q1 @ '' and pswd='' @ q1 @ q1 @ '' or '' @ q1 @ ''1'' @ q1 @ ''='' @ q1 @ ''1'' @ q1 @ '';''"
  "plain user \<Longrightarrow> sql_out (login_statement user any_password) = Some [user, [], ''1'', ''1'']"
proof -
  show eq: "login_statement user any_password =
     ''SELECT * from user_pwd where userName='' @ q1 @ user @ q1 @ '' and pswd='' @ q1 @ q1 @ '' or '' @ q1 @ ''1'' @ q1 @ ''='' @ q1 @ ''1'' @ q1 @ '';''"
    by (simp add: login_statement_def any_password_def)
  assume "plain user"
  then show "sql_out (login_statement user any_password) = Some [user, [], ''1'', ''1'']"
    unfolding eq
    by (subst sql_out_text, simp)
      (use sql_literal [of user "CHR '' ''" "''and pswd='' @ q1 @ q1 @ '' or '' @ q1 @ ''1'' @ q1 @ ''='' @ q1 @ ''1'' @ q1 @ '';''"] in \<open>simp add: q1_def\<close>)
qed

section \<open>What the scripts answer\<close>

text \<open>
  With a configuration and a database that work and a complete form, the answer to a login is the page of the
  user if the database has a row with the name and the password, and a redirection otherwise; the answer to
  a check tells whether it has a row with the name.
\<close>

theorem scripts_answer:
  assumes "script_init conf = Inr g" and "check_init conf = Inr g'" and "connect_db db g = None" and "connect_db db g' = None"
    and "form ''user'' = Some user" and "form ''pw'' = Some pw" and "form ''userName'' = Some name"
    and "db_query db (login_statement user pw) = Inr rows" and "db_query db (check_statement name) = Inr rows'"
  shows "login_main conf db form = Inr (if 0 < rows then login_page (g_nginxIP g) user else login_redirect (g_nginxIP g))"
    and "check_main conf db form = Inr (''HTTP/1.0 200 OK'' @ crlf @ ''Content-type:text/html;charset=utf-8 '' @ crlf @ crlf @
      (if 0 < rows' then ''yes'' else ''no''))"
  using assms by (simp_all add: login_main_def login_try_def check_main_def field_def)

text \<open>
  When the database fails, the message is printed before the head of the answer, so what the client receives does not begin with a
  status line; and a form without the field of the user is not checked.
\<close>

theorem database_error_before_head:
  assumes "script_init conf = Inr g" and "connect_db db g = Some what"
  shows "login_main conf db form = Inr (what @ [LF] @ login_redirect (g_nginxIP g))"
    and "register_main conf db form = Inr (what @ [LF] @ register_page (g_nginxIP g))"
  using assms by (simp_all add: login_main_def login_try_def register_main_def)

theorem missing_field_undefined:
  assumes "script_init conf = Inr g" and "connect_db db g = None" and "form ''user'' = None"
  shows "login_main conf db form = Inl (Undefined ''**end()'')" and "register_main conf db form = Inl (Undefined ''**end()'')"
  using assms by (simp_all add: login_main_def login_try_def register_main_def field_def)

end
