(* ===== verification/Configs.thy ===== *)
theory Configs
  imports Prelude
begin

text \<open>
  Loading the configurations (\<^verbatim>\<open>webServer/configLoad.cpp\<close>, \<^verbatim>\<open>cgiServer/configLoad.cpp\<close>).

  The document is a parameter: what \<^verbatim>\<open>config[a][b].as<T>()\<close> gives, or the exception of the library. Exceptions end the
  reading, are printed and make \<^verbatim>\<open>init\<close> return false. Arithmetic on \<^verbatim>\<open>int\<close> and \<^verbatim>\<open>long long\<close> is undefined when it leaves
  their range; floating point settings are kept as they are written. MD5 is a parameter. The properties: sizes and times are what their
  parts say; the digest of a name is written in 32 hexadecimal digits, from which it can be read
  back; every file to be kept in Redis has such a key.
\<close>

section \<open>The document\<close>

record yaml =
  y_string :: "string list \<Rightarrow> string + string"
  y_int :: "string list \<Rightarrow> string + int"
  y_longlong :: "string list \<Rightarrow> string + int"
  y_number :: "string list \<Rightarrow> string + string"                \<comment> \<open>\<^verbatim>\<open>double\<close> and \<^verbatim>\<open>float\<close>\<close>
  y_pairs :: "string list \<Rightarrow> string + (string \<times> string) list"  \<comment> \<open>an iteration with \<^verbatim>\<open>as<string>()\<close>\<close>
  y_counts :: "string list \<Rightarrow> string + (string \<times> int) list"    \<comment> \<open>an iteration with \<^verbatim>\<open>as<int>()\<close>\<close>
  y_defined :: "string list \<Rightarrow> bool"

definition get :: "string + 'a \<Rightarrow> 'a res" where
  "get r = (case r of Inl what \<Rightarrow> Inl (Throws what) | Inr v \<Rightarrow> Inr v)"

definition fits :: "nat \<Rightarrow> int \<Rightarrow> int res" where
  "fits w i = (if - (2 ^ (w - 1)) \<le> i \<and> i < 2 ^ (w - 1) then Inr i else Inl (Undefined ''overflow''))"

section \<open>Settings of the log\<close>

record log_settings =
  ls_level :: string
  ls_path :: string
  ls_maxSize :: int
  ls_rollZoneTime :: int
  ls_rollDaySeconds :: int
  ls_IOFrequency :: int

text \<open>\<^verbatim>\<open>G * 1024 * 1024 * 1024 + M * 1024 * 1024 + K * 1024 + B\<close>, the last two of type \<^verbatim>\<open>int\<close>.\<close>

definition log_maxSize :: "int \<Rightarrow> int \<Rightarrow> int \<Rightarrow> int \<Rightarrow> int res" where
  "log_maxSize G M K B =
     bind_r (fits 64 (G * 1024 * 1024 * 1024)) (\<lambda>g. bind_r (fits 64 (M * 1024 * 1024)) (\<lambda>m.
       bind_r (fits 64 (g + m)) (\<lambda>gm. bind_r (fits 32 (K * 1024)) (\<lambda>k. bind_r (fits 64 (gm + k)) (\<lambda>gmk. fits 64 (gmk + B))))))"

definition log_rollDaySeconds :: "int \<Rightarrow> int \<Rightarrow> int \<Rightarrow> int res" where
  "log_rollDaySeconds h m s =
     bind_r (fits 32 (h * 3600)) (\<lambda>h'. bind_r (fits 32 (m * 60)) (\<lambda>m'. bind_r (fits 32 (h' + m')) (\<lambda>hm. fits 32 (hm + s))))"

definition read_log :: "yaml \<Rightarrow> log_settings res" where
  "read_log c =
     bind_r (get (y_string c [''log'', ''level''])) (\<lambda>level. bind_r (get (y_string c [''log'', ''path''])) (\<lambda>path.
     bind_r (get (y_longlong c [''log'', ''maxSize'', ''G''])) (\<lambda>G. bind_r (get (y_longlong c [''log'', ''maxSize'', ''M''])) (\<lambda>M.
     bind_r (get (y_int c [''log'', ''maxSize'', ''K''])) (\<lambda>K. bind_r (get (y_int c [''log'', ''maxSize'', ''B''])) (\<lambda>B.
     bind_r (log_maxSize G M K B) (\<lambda>maxSize. bind_r (get (y_int c [''log'', ''rollTime'', ''zoneTime''])) (\<lambda>zone.
     bind_r (get (y_int c [''log'', ''rollTime'', ''hour''])) (\<lambda>h. bind_r (get (y_int c [''log'', ''rollTime'', ''minute''])) (\<lambda>m.
     bind_r (get (y_int c [''log'', ''rollTime'', ''second''])) (\<lambda>s. bind_r (log_rollDaySeconds h m s) (\<lambda>roll.
     bind_r (get (y_int c [''log'', ''IOFrequency''])) (\<lambda>freq.
     Inr \<lparr>ls_level = level, ls_path = path, ls_maxSize = maxSize, ls_rollZoneTime = zone, ls_rollDaySeconds = roll, ls_IOFrequency = freq\<rparr>)))))))))))))"

section \<open>The web server\<close>

text \<open>\<^verbatim>\<open>strToHex\<close>, of the sixteen bytes of a digest.\<close>

definition hexits :: string where "hexits = ''0123456789ABCDEF''"

definition strToHex :: "nat list \<Rightarrow> string \<Rightarrow> string" where
  "strToHex str separator = concat (map (\<lambda>i. [hexits ! (str ! i div 16), hexits ! (str ! i mod 16)] @ separator) [0..<16])"

record web_settings =
  wb_nginx_ip :: string
  wb_port :: int
  wb_poolThreads :: int
  wb_loopThreads :: int
  wb_stop_after :: string
  wb_conn_expire :: string
  wb_maxConnections :: int
  wb_log :: log_settings
  wb_heartBeat :: "string \<times> string \<times> int \<times> int"      \<comment> \<open>switch, address, port, frequency\<close>
  wb_base_path :: string
  wb_index_path :: string
  wb_mimeType :: "string \<Rightarrow> string option"
  wb_redis :: "string \<times> int \<times> string"               \<comment> \<open>address, port, rate\<close>
  wb_redis_vip :: "string list"
  wb_urlTomd5 :: "string \<Rightarrow> string option"
  wb_zlibMap :: "string \<Rightarrow> int option"

text \<open>The loop over the files kept in Redis.\<close>

definition read_vip :: "(string \<Rightarrow> nat list) \<Rightarrow> (string \<times> string) list \<Rightarrow> string list \<times> (string \<Rightarrow> string option)" where
  "read_vip md5 entries =
     fold (\<lambda>(_, url) (vip, m). (vip @ [url], m(url \<mapsto> strToHex (md5 url) []))) entries ([], Map.empty)"

definition read_web :: "(string \<Rightarrow> nat list) \<Rightarrow> yaml \<Rightarrow> web_settings res" where
  "read_web md5 c =
     bind_r (get (y_string c [''webServer'', ''ip''])) (\<lambda>_. bind_r (get (y_int c [''webServer'', ''port''])) (\<lambda>port.
     bind_r (get (y_int c [''webServer'', ''poolThreads''])) (\<lambda>pool. bind_r (get (y_int c [''webServer'', ''loopThreads''])) (\<lambda>loops.
     bind_r (get (y_string c [''webServer'', ''nginxIP''])) (\<lambda>nginx. bind_r (get (y_number c [''webServer'', ''aliveTime''])) (\<lambda>alive.
     bind_r (get (y_number c [''webServer'', ''connIdleTime''])) (\<lambda>idle. bind_r (get (y_int c [''webServer'', ''maxConnections''])) (\<lambda>maxc.
     bind_r (read_log c) (\<lambda>lg. bind_r (get (y_string c [''heartBeat'', ''switch''])) (\<lambda>switch.
     bind_r (get (y_string c [''heartBeat'', ''server'', ''ip''])) (\<lambda>hip. bind_r (get (y_int c [''heartBeat'', ''server'', ''port''])) (\<lambda>hport.
     bind_r (get (y_int c [''heartBeat'', ''frequency''])) (\<lambda>hfreq. bind_r (get (y_string c [''resource'', ''basePath''])) (\<lambda>base.
     bind_r (get (y_string c [''resource'', ''indexPath''])) (\<lambda>index. bind_r (get (y_pairs c [''mime''])) (\<lambda>mime.
     bind_r (get (y_string c [''redis'', ''server'', ''ip''])) (\<lambda>rip. bind_r (get (y_int c [''redis'', ''server'', ''port''])) (\<lambda>rport.
     bind_r (get (y_number c [''redis'', ''rate''])) (\<lambda>rate. bind_r (get (y_pairs c [''redis'', ''vip''])) (\<lambda>vip.
     bind_r (if y_defined c [''zlibMap''] then get (y_counts c [''zlibMap'']) else Inr []) (\<lambda>zl.
     Inr \<lparr>wb_nginx_ip = nginx, wb_port = port, wb_poolThreads = pool, wb_loopThreads = loops, wb_stop_after = alive, wb_conn_expire = idle,
          wb_maxConnections = maxc, wb_log = lg, wb_heartBeat = (switch, hip, hport, hfreq), wb_base_path = base, wb_index_path = index,
          wb_mimeType = fold (\<lambda>(k, v) m. m(k \<mapsto> v)) mime Map.empty, wb_redis = (rip, rport, rate),
          wb_redis_vip = fst (read_vip md5 vip), wb_urlTomd5 = snd (read_vip md5 vip),
          wb_zlibMap = fold (\<lambda>(k, v) m. m(k \<mapsto> v)) zl Map.empty\<rparr>)))))))))))))))))))))"

text \<open>\<^verbatim>\<open>init\<close>: \<open>doc\<close> is what \<^verbatim>\<open>YAML::LoadFile\<close> gives; the result is what was printed, and the settings when it returns true.\<close>

definition config_init :: "(yaml \<Rightarrow> 's res) \<Rightarrow> string + yaml \<Rightarrow> (string \<times> 's option) res" where
  "config_init body doc =
     (case bind_r (get doc) body of
        Inl (Throws what) \<Rightarrow> Inr (what @ [LF], None)
      | Inl e \<Rightarrow> Inl e
      | Inr s \<Rightarrow> Inr ([], Some s))"

definition web_init :: "(string \<Rightarrow> nat list) \<Rightarrow> string + yaml \<Rightarrow> (string \<times> web_settings option) res" where
  "web_init md5 doc = config_init (read_web md5) doc"

section \<open>The FastCGI server\<close>

record cgi_settings =
  cs_ip :: string
  cs_port :: int
  cs_poolThreads :: int
  cs_loopThreads :: int
  cs_nginxIP :: string
  cs_log :: log_settings
  cs_heartBeat :: "string \<times> int \<times> int"
  cs_base_path :: string
  cs_db :: "string list"

definition read_cgi :: "yaml \<Rightarrow> cgi_settings res" where
  "read_cgi c =
     bind_r (get (y_string c [''cgiServer'', ''ip''])) (\<lambda>ip. bind_r (get (y_int c [''cgiServer'', ''port''])) (\<lambda>port.
     bind_r (get (y_int c [''cgiServer'', ''poolThreads''])) (\<lambda>pool. bind_r (get (y_int c [''cgiServer'', ''loopThreads''])) (\<lambda>loops.
     bind_r (get (y_string c [''webServer'', ''nginxIP''])) (\<lambda>nginx. bind_r (read_log c) (\<lambda>lg.
     bind_r (get (y_string c [''heartBeat'', ''server'', ''ip''])) (\<lambda>hip. bind_r (get (y_int c [''heartBeat'', ''server'', ''port''])) (\<lambda>hport.
     bind_r (get (y_int c [''heartBeat'', ''frequency''])) (\<lambda>hfreq. bind_r (get (y_string c [''resource'', ''basePath''])) (\<lambda>base.
     bind_r (get (y_string c [''dataBase'', ''server''])) (\<lambda>d1. bind_r (get (y_string c [''dataBase'', ''user''])) (\<lambda>d2.
     bind_r (get (y_string c [''dataBase'', ''pswd''])) (\<lambda>d3. bind_r (get (y_string c [''dataBase'', ''dbName''])) (\<lambda>d4.
     Inr \<lparr>cs_ip = ip, cs_port = port, cs_poolThreads = pool, cs_loopThreads = loops, cs_nginxIP = nginx, cs_log = lg,
          cs_heartBeat = (hip, hport, hfreq), cs_base_path = base, cs_db = [d1, d2, d3, d4]\<rparr>))))))))))))))"

definition cgi_init :: "string + yaml \<Rightarrow> (string \<times> cgi_settings option) res" where
  "cgi_init doc = config_init read_cgi doc"

section \<open>Properties\<close>

text \<open>
  A size is what its parts say, as long as there are less than two gibibytes of them in kibibytes and the sum fits; beyond that
  the multiplication is done in \<^verbatim>\<open>int\<close> and overflows. A time of day is what its parts say.
\<close>

theorem sizes_and_times:
  assumes "0 \<le> G" and "0 \<le> M" and "0 \<le> K" and "0 \<le> B" and "G * 2 ^ 30 + M * 2 ^ 20 + K * 2 ^ 10 + B < 2 ^ 63"
  shows "log_maxSize G M K B = (if K < 2 ^ 21 then Inr (G * 2 ^ 30 + M * 2 ^ 20 + K * 2 ^ 10 + B) else Inl (Undefined ''overflow''))"
    and "\<lbrakk>0 \<le> h; h < 24; 0 \<le> m; m < 60; 0 \<le> s; s < 60\<rbrakk> \<Longrightarrow> log_rollDaySeconds h m s = Inr (h * 3600 + m * 60 + s)"
  using assms by (auto simp: log_maxSize_def log_rollDaySeconds_def fits_def)

text \<open>Reading a digest back.\<close>

definition unhexit :: "char \<Rightarrow> nat" where
  "unhexit c = length (takeWhile (\<lambda>d. d \<noteq> c) hexits)"

fun unhex :: "string \<Rightarrow> nat list" where
  "unhex (a # b # cs) = (unhexit a * 16 + unhexit b) # unhex cs"
| "unhex _ = []"

lemma unhexit_hexit: "n < 16 \<Longrightarrow> unhexit (hexits ! n) = n"
proof -
  assume "n < 16"
  moreover have "\<forall>n \<in> set [0..<16]. unhexit (hexits ! n) = n" by (simp add: unhexit_def hexits_def upt_rec)
  ultimately show ?thesis by simp
qed

lemma unhex_concat: "\<forall>b \<in> set bs. b < 256 \<Longrightarrow> unhex (concat (map (\<lambda>b. [hexits ! (b div 16), hexits ! (b mod 16)]) bs)) = bs"
  by (induction bs) (auto simp: unhexit_hexit)

lemma strToHex_bytes: "length bs = 16 \<Longrightarrow> strToHex bs [] = concat (map (\<lambda>b. [hexits ! (b div 16), hexits ! (b mod 16)]) bs)"
  unfolding strToHex_def by (subst (2) map_nth [symmetric]) (simp only: append_Nil2 map_map comp_def)

lemma strToHex_length: "length bs = 16 \<Longrightarrow> length (strToHex bs []) = 32"
  by (simp add: strToHex_bytes length_concat comp_def sum_list_triv)

text \<open>
  The hexadecimal text of a digest has 32 characters and the digest can be read back from it, so different
  digests have different texts.
\<close>

theorem strToHex_read_back:
  assumes "length bs = 16" and "\<forall>b \<in> set bs. b < 256"
  shows "length (strToHex bs []) = 32 \<and> unhex (strToHex bs []) = bs"
  using strToHex_length [OF assms(1)] unhex_concat [OF assms(2)] by (simp add: strToHex_bytes [OF assms(1)])

lemma read_vip_keys:
  assumes "\<And>url. length (md5 url) = 16"
  shows "fst (read_vip md5 es) = map snd es" and "snd (read_vip md5 es) url = (if url \<in> snd ` set es then Some (strToHex (md5 url) []) else None)"
proof -
  have "fold (\<lambda>(_, url) (vip, m). (vip @ [url], m(url \<mapsto> strToHex (md5 url) []))) es (v0, m0) =
      (v0 @ map snd es, \<lambda>u. if u \<in> snd ` set es then Some (strToHex (md5 u) []) else m0 u)" for v0 and m0 :: "string \<Rightarrow> string option"
    by (induction es arbitrary: v0 m0) (auto simp: fun_eq_iff)
  then show "fst (read_vip md5 es) = map snd es" "snd (read_vip md5 es) url = (if url \<in> snd ` set es then Some (strToHex (md5 url) []) else None)"
    by (simp_all add: read_vip_def)
qed

text \<open>
  When the web server starts, nothing was printed and each file to be kept in Redis has a key of
  32 characters, which is that of its name alone.
\<close>

theorem vip_files_have_keys:
  assumes "web_init md5 doc = Inr (out, Some s)" and "\<And>url. length (md5 url) = 16"
  shows "out = [] \<and> (\<forall>url \<in> set (wb_redis_vip s). wb_urlTomd5 s url = Some (strToHex (md5 url) []) \<and> length (strToHex (md5 url) []) = 32)"
proof -
  from assms(1) obtain c where "read_web md5 c = Inr s" "out = []"
    by (auto simp: web_init_def config_init_def bind_r_def get_def split: sum.splits fault.splits)
  moreover from this(1) obtain es where "wb_redis_vip s = fst (read_vip md5 es)" "wb_urlTomd5 s = snd (read_vip md5 es)"
    by (auto simp: read_web_def bind_r_eq_Inr)
  ultimately show ?thesis using read_vip_keys [OF assms(2)] strToHex_length [OF assms(2)] by auto
qed

end
