(* ===== verification/Plots.thy ===== *)
theory Plots
  imports Complex_Main Procmons
begin

text \<open>
  The chart of the process monitor (\<^verbatim>\<open>monitor/procmon/plot.cc\<close>, \<^verbatim>\<open>plot.h\<close>).

  The gd library is what the calls are handed to: an image is the list of the calls made on it, and \<^verbatim>\<open>toPng\<close> and the
  size of the font are parameters. Numbers of type \<^verbatim>\<open>double\<close> are exact here, as rational numbers; a conversion to \<^verbatim>\<open>int\<close> cuts
  the fraction off. How \<^verbatim>\<open>printf\<close> writes a number is a parameter. The properties: nothing is drawn outside the frame
  of the chart, time runs to the right, larger values are higher; and the samples of the monitor always fit.
\<close>

section \<open>State\<close>

datatype gd_color = Gd_background | Gd_black | Gd_gray | Gd_blue   \<comment> \<open>in the order of \<^verbatim>\<open>gdImageColorAllocate\<close>\<close>

datatype gd_call =
    GdFilledRectangle int int int int gd_color
  | GdSetThickness int
  | GdLine int int int int gd_color
  | GdString int int string gd_color

record gd_env =
  gd_fontWidth :: int
  gd_fontHeight :: int
  gd_png :: "gd_call list \<Rightarrow> string"
  gd_fixed :: "nat \<Rightarrow> rat \<Rightarrow> string"      \<comment> \<open>\<^verbatim>\<open>%.0f\<close>, \<^verbatim>\<open>%.1f\<close>\<close>

record plot =
  pt_width :: int
  pt_height :: int
  pt_totalSeconds :: int
  pt_samplingPeriod :: int
  pt_image :: "gd_call list"
  pt_fontHeight :: int
  pt_rightMargin :: int
  pt_ratioX :: rat

definition kLeftMargin :: int where "kLeftMargin = 5"
definition kMarginY :: int where "kMarginY = 5"

definition Plot_new :: "gd_env \<Rightarrow> int \<Rightarrow> int \<Rightarrow> int \<Rightarrow> int \<Rightarrow> plot" where
  "Plot_new gd width height totalSeconds samplingPeriod =
     (let right = 3 * gd_fontWidth gd + 5
      in \<lparr>pt_width = width, pt_height = height, pt_totalSeconds = totalSeconds, pt_samplingPeriod = samplingPeriod, pt_image = [],
          pt_fontHeight = gd_fontHeight gd, pt_rightMargin = right,
          pt_ratioX = of_int (samplingPeriod * (width - kLeftMargin - right)) / of_int totalSeconds\<rparr>)"

section \<open>Operations\<close>

text \<open>\<^verbatim>\<open>static_cast<int>\<close> of a number of type \<^verbatim>\<open>double\<close>.\<close>

definition to_int :: "rat \<Rightarrow> int" where
  "to_int x = (if 0 \<le> x then \<lfloor>x\<rfloor> else \<lceil>x\<rceil>)"

definition getX :: "plot \<Rightarrow> int \<Rightarrow> int \<Rightarrow> int" where
  "getX pt i total0 =
     to_int (of_int (pt_width pt - kLeftMargin - pt_rightMargin pt) + of_int (i - total0) * pt_ratioX pt + 1 / 2) + kLeftMargin"

definition getY :: "plot \<Rightarrow> rat \<Rightarrow> int" where
  "getY pt value = to_int ((1 - value) * of_int (pt_height pt - 2 * kMarginY) + 1 / 2) + kMarginY"

definition plot_label :: "gd_env \<Rightarrow> plot \<Rightarrow> rat \<Rightarrow> gd_call list" where
  "plot_label gd pt maxValue =
     (let buf = take 63 (gd_fixed gd (if 10 \<le> maxValue then 0 else 1) maxValue);
          x = pt_width pt - pt_rightMargin pt + 3
      in [GdString x (kMarginY - 3) buf Gd_black,
          GdString x (pt_height pt - kMarginY - 3 - pt_fontHeight pt div 2) ''0'' Gd_gray,
          GdString kLeftMargin (pt_height pt - kMarginY - pt_fontHeight pt) (''-'' @ show_int (pt_totalSeconds pt) @ ''s'') Gd_blue])"

text \<open>The upper end of the scale.\<close>

definition scale_max :: "rat list \<Rightarrow> rat" where
  "scale_max data =
     (let m = foldr max data (hd data)
      in if 10 \<le> m then of_int \<lceil>m\<rceil> else max (1 / 10) (of_int \<lceil>m * 10\<rceil> / 10))"

text \<open>The curve, when there are at least two samples.\<close>

definition plot_curve :: "gd_env \<Rightarrow> plot \<Rightarrow> rat list \<Rightarrow> gd_call list" where
  "plot_curve gd pt data =
     (if length data \<le> 1 then []
      else let m = scale_max data; n = int (length data)
           in [GdSetThickness 2] @ plot_label gd pt m @
              map (\<lambda>i. GdLine (getX pt (int i) n) (getY pt (data ! i / m)) (getX pt (int i + 1) n) (getY pt (data ! (i + 1) / m)) Gd_black)
                [0..<length data - 1])"

definition plotCpu :: "gd_env \<Rightarrow> rat list \<Rightarrow> plot \<Rightarrow> string \<times> plot" where
  "plotCpu gd data pt =
     (let total0 = pt_totalSeconds pt sdiv pt_samplingPeriod pt;
          image = pt_image pt @ [GdFilledRectangle 0 0 (pt_width pt) (pt_height pt) Gd_background] @ plot_curve gd pt data @
            [GdSetThickness 1,
             GdLine (getX pt 0 total0) (getY pt 0 + 2) (getX pt total0 total0) (getY pt 0 + 2) Gd_gray,
             GdLine (getX pt total0 total0) (getY pt 0 + 2) (getX pt total0 total0) (getY pt 1 + 2) Gd_gray]
      in (gd_png gd image, pt\<lparr>pt_image := image\<rparr>))"

section \<open>Properties\<close>

text \<open>The frame of a chart with room for \<open>n\<close> samples.\<close>

definition plot_room :: "plot \<Rightarrow> int \<Rightarrow> bool" where
  "plot_room pt n \<longleftrightarrow> 0 < pt_totalSeconds pt \<and> 0 < pt_samplingPeriod pt \<and> n * pt_samplingPeriod pt \<le> pt_totalSeconds pt \<and>
     0 \<le> pt_width pt - kLeftMargin - pt_rightMargin pt \<and> 2 * kMarginY \<le> pt_height pt \<and>
     pt_ratioX pt = of_int (pt_samplingPeriod pt * (pt_width pt - kLeftMargin - pt_rightMargin pt)) / of_int (pt_totalSeconds pt)"

fun in_frame :: "plot \<Rightarrow> gd_call \<Rightarrow> bool" where
  "in_frame pt (GdLine x y x' y' c) \<longleftrightarrow>
     kLeftMargin \<le> x \<and> x \<le> x' \<and> x' \<le> pt_width pt - pt_rightMargin pt \<and>
     y \<in> {kMarginY .. pt_height pt - kMarginY + 2} \<and> y' \<in> {kMarginY .. pt_height pt - kMarginY + 2}"
| "in_frame pt _ \<longleftrightarrow> True"

lemma to_int_mono: "0 \<le> x \<Longrightarrow> x \<le> y \<Longrightarrow> to_int x \<le> to_int y"
  by (auto simp: to_int_def floor_mono)

lemma to_int_half:
  assumes "0 \<le> x" and "x \<le> of_int w"
  shows "0 \<le> to_int (x + 1 / 2)" and "to_int (x + 1 / 2) \<le> w"
  using assms by (auto simp: to_int_def floor_le_iff)

lemma column_range:
  assumes "plot_room pt n" and "0 \<le> i" and "i \<le> n"
  defines "w \<equiv> pt_width pt - kLeftMargin - pt_rightMargin pt"
  shows "0 \<le> of_int w + of_int (i - n) * pt_ratioX pt" and "of_int w + of_int (i - n) * pt_ratioX pt \<le> of_int w"
proof -
  let ?T = "pt_totalSeconds pt" and ?p = "pt_samplingPeriod pt"
  have pos: "0 < ?T" "0 < ?p" "0 \<le> w" using assms(1) by (simp_all add: plot_room_def w_def)
  have r: "pt_ratioX pt = of_int (?p * w) / of_int ?T" using assms(1) by (simp add: plot_room_def w_def)
  have "(n - i) * ?p \<le> n * ?p" using assms(2) pos(2) by (intro mult_right_mono) auto
  also have "\<dots> \<le> ?T" using assms(1) by (simp add: plot_room_def)
  finally have "(n - i) * ?p * w \<le> ?T * w" using pos(3) by (rule mult_right_mono)
  then have "(of_int ((n - i) * ?p * w) :: rat) \<le> of_int (?T * w)" by (rule of_int_le_iff [THEN iffD2])
  then have "(of_int ((n - i) * ?p * w) :: rat) / of_int ?T \<le> of_int w" using pos(1) by (simp add: divide_le_eq mult.commute)
  moreover have "(of_int (i - n) :: rat) * pt_ratioX pt = - (of_int ((n - i) * ?p * w) / of_int ?T)"
    by (simp add: r left_diff_distrib minus_divide_left)
  moreover have "0 \<le> (of_int ((n - i) * ?p * w) :: rat) / of_int ?T"
    using pos assms(3) by (intro divide_nonneg_pos) (simp_all add: zero_le_mult_iff)
  ultimately show "0 \<le> of_int w + of_int (i - n) * pt_ratioX pt" "of_int w + of_int (i - n) * pt_ratioX pt \<le> of_int w"
    by linarith+
qed

lemma getX_range:
  assumes "plot_room pt n" and "0 \<le> i" and "i \<le> n"
  shows "kLeftMargin \<le> getX pt i n" and "getX pt i n \<le> pt_width pt - pt_rightMargin pt"
  using to_int_half [OF column_range [OF assms]] by (simp_all add: getX_def)

lemma getX_mono:
  assumes "plot_room pt n" and "0 \<le> i" and "i \<le> j" and "j \<le> n"
  shows "getX pt i n \<le> getX pt j n"
proof -
  have "0 \<le> pt_ratioX pt" using assms(1) by (simp add: plot_room_def)
  then have "of_int (i - n) * pt_ratioX pt \<le> of_int (j - n) * pt_ratioX pt"
    using assms(3) by (intro mult_right_mono) simp_all
  moreover have "i \<le> n" using assms(3,4) by simp
  ultimately show ?thesis
    unfolding getX_def using column_range(1) [OF assms(1,2)] by (intro add_right_mono to_int_mono) simp_all
qed

lemma getY_range:
  assumes "plot_room pt n" and "0 \<le> v" and "v \<le> 1"
  shows "kMarginY \<le> getY pt v" and "getY pt v \<le> pt_height pt - kMarginY"
proof -
  have h: "(0::rat) \<le> of_int (pt_height pt - 2 * kMarginY)" using assms(1) by (simp add: plot_room_def)
  have "(0::rat) \<le> (1 - v) * of_int (pt_height pt - 2 * kMarginY)" using h assms(3) by simp
  moreover have "(1 - v) * of_int (pt_height pt - 2 * kMarginY) \<le> 1 * of_int (pt_height pt - 2 * kMarginY)"
    using h assms(2) by (intro mult_right_mono) simp_all
  ultimately show "kMarginY \<le> getY pt v" "getY pt v \<le> pt_height pt - kMarginY"
    using to_int_half [of "(1 - v) * of_int (pt_height pt - 2 * kMarginY)" "pt_height pt - 2 * kMarginY"]
    by (simp_all add: getY_def kMarginY_def)
qed

lemma foldr_max_bound: "x \<in> set data \<Longrightarrow> x \<le> foldr max data (d :: rat)"
  by (induction data) (auto simp: le_max_iff_disj)

lemma scale_max_bound: "x \<in> set data \<Longrightarrow> x \<le> scale_max data" and scale_max_pos: "0 < scale_max data"
proof -
  let ?m = "foldr max data (hd data)"
  have "?m \<le> of_int \<lceil>?m * 10\<rceil> / 10" using le_of_int_ceiling [of "?m * 10"] by simp
  with le_of_int_ceiling [of ?m] have "?m \<le> scale_max data"
    unfolding scale_max_def Let_def by (auto simp: le_max_iff_disj)
  then show "x \<in> set data \<Longrightarrow> x \<le> scale_max data" using foldr_max_bound [of x data "hd data"] by (auto intro: order_trans)
  have "10 \<le> ?m \<Longrightarrow> 0 < (of_int \<lceil>?m\<rceil> :: rat)" using le_of_int_ceiling [of ?m] by linarith
  then show "0 < scale_max data" by (auto simp: scale_max_def Let_def less_max_iff_disj)
qed

lemma curve_in_frame:
  assumes "plot_room pt (int (length data))" and "\<forall>x \<in> set data. 0 \<le> x"
  shows "\<forall>c \<in> set (plot_curve gd pt data). in_frame pt c"
proof -
  have "0 \<le> data ! i / scale_max data \<and> data ! i / scale_max data \<le> 1" if "i < length data" for i
    using assms(2) scale_max_pos [of data] scale_max_bound [of "data ! i" data] that by simp
  note rows = getY_range [OF assms(1) this [THEN conjunct1] this [THEN conjunct2]]
  note cols = getX_range [OF assms(1)] getX_mono [OF assms(1)]
  show ?thesis
    using rows cols by (auto simp: plot_curve_def plot_label_def Let_def intro: order_trans [OF rows(2)])
qed

text \<open>
  Of a chart whose samples are not more than its time has room for, and not negative, every line lies in the frame, and
  lines that are drawn of samples go from left to right.
\<close>

theorem chart_in_frame:
  assumes "plot_room pt (int (length data))" and "\<forall>x \<in> set data. 0 \<le> x" and "\<forall>c \<in> set (pt_image pt). in_frame pt c"
  shows "\<forall>c \<in> set (pt_image (snd (plotCpu gd data pt))). in_frame (snd (plotCpu gd data pt)) c"
proof -
  let ?total0 = "pt_totalSeconds pt sdiv pt_samplingPeriod pt"
  have pos: "0 < pt_totalSeconds pt" "0 < pt_samplingPeriod pt" using assms(1) by (simp_all add: plot_room_def)
  then have "?total0 = pt_totalSeconds pt div pt_samplingPeriod pt" by (simp add: signed_divide_int_def)
  then have room: "plot_room pt ?total0" and total0: "0 \<le> ?total0"
    using assms(1) pos by (simp_all add: plot_room_def minus_mod_eq_div_mult [symmetric] pos_imp_zdiv_nonneg_iff)
  have "in_frame (pt\<lparr>pt_image := image\<rparr>) c = in_frame pt c" for image c by (cases c) simp_all
  moreover note getX_range [OF room order_refl total0] getX_range [OF room total0 order_refl] getX_mono [OF room order_refl total0 order_refl]
    getY_range [OF room, of 0] getY_range [OF room, of 1]
  ultimately show ?thesis
    using curve_in_frame [OF assms(1,2), of gd] assms(3) by (auto simp: plotCpu_def Let_def)
qed

text \<open>The page of the monitor: the samples it keeps always have room in its chart.\<close>

definition cpu_chart :: "gd_env \<Rightarrow> plot" where
  "cpu_chart gd = Plot_new gd 640 100 600 (int kPeriod)"

definition cpu_page :: "gd_env \<Rightarrow> procmon \<Rightarrow> plot \<Rightarrow> string \<times> plot" where
  "cpu_page gd pm pt = plotCpu gd (map (\<lambda>(a, b). of_int a / of_int b) (cpu_samples pm)) pt"

lemma pm_run_clockTicks: "pm_run envs pm = Inr pm' \<Longrightarrow> pm_clockTicks pm' = pm_clockTicks pm"
proof (induction envs arbitrary: pm)
  case (Cons env envs)
  then obtain pm1 where pm1: "pm_tick env pm = Inr pm1" "pm_run envs pm1 = Inr pm'" by (auto simp: bind_r_eq_Inr)
  from pm1(1) have "pm_clockTicks pm1 = pm_clockTicks pm" by (auto simp: pm_tick_def bind_r_eq_Inr Let_def split: if_splits)
  with Cons.IH [OF pm1(2)] show ?case by simp
qed simp

theorem monitor_chart_in_frame:
  assumes "pm_ticks pm = 0" and "pm_cpu_usage pm = []" and "list_all2 (reads_stat pm) envs sds"
    and "0 < pm_clockTicks pm" and "0 \<le> gd_fontWidth gd" and "gd_fontWidth gd \<le> 200"
  shows "\<exists>pm'. pm_run envs pm = Inr pm' \<and> (\<forall>c \<in> set (pt_image (snd (cpu_page gd pm' (cpu_chart gd)))). in_frame (cpu_chart gd) c)"
proof -
  from recent_samples_kept [OF assms(1-3)] obtain pm' where pm': "pm_run envs pm = Inr pm'"
    "pm_cpu_usage pm' = drop (length (map2 sample_of sds (tl sds)) - 300) (map2 sample_of sds (tl sds))" by (auto simp: Let_def)
  let ?data = "map (\<lambda>(a, b). of_int a / of_int b) (cpu_samples pm') :: rat list"
  have "length ?data \<le> 300" using pm'(2) by (simp add: cpu_samples_def)
  then have room: "plot_room (cpu_chart gd) (int (length ?data))"
    using assms(5,6) by (simp add: plot_room_def cpu_chart_def Plot_new_def kPeriod_def kLeftMargin_def kMarginY_def Let_def)
  have "\<forall>x \<in> set (pm_cpu_usage pm'). 0 \<le> fst x + snd x"
    unfolding pm'(2) by (auto simp: sample_of_def set_zip dest!: in_set_dropD)
  then have "\<forall>x \<in> set ?data. 0 \<le> x"
    using pm_run_clockTicks [OF pm'(1)] assms(4) by (auto simp: cpu_samples_def kPeriod_def intro!: divide_nonneg_pos)
  moreover have "in_frame (snd (cpu_page gd pm' (cpu_chart gd))) c = in_frame (cpu_chart gd) c" for c
    by (cases c) (simp_all add: cpu_page_def plotCpu_def Let_def)
  moreover have "pt_image (cpu_chart gd) = []" by (simp add: cpu_chart_def Plot_new_def Let_def)
  ultimately show ?thesis
    using pm'(1) chart_in_frame [OF room, of gd] by (auto simp: cpu_page_def)
qed

end
