(* ===== verification/Traces.thy ===== *)
theory Traces
  imports Sockets
begin

text \<open>
  Texts for diagnosis and the options of a socket: \<^verbatim>\<open>stackTrace\<close> (\<^verbatim>\<open>base/thread/CurrentThread.cpp\<close>), the text
  of \<^verbatim>\<open>TCP_INFO\<close> and the options (\<^verbatim>\<open>netLayer/socket/Socket.cpp\<close>, \<^verbatim>\<open>netLayer/tcp/TcpConnection.cpp\<close>).

  What \<^verbatim>\<open>backtrace_symbols\<close> gives, \<^verbatim>\<open>__cxa_demangle\<close>, \<^verbatim>\<open>getsockopt\<close> and \<^verbatim>\<open>setsockopt\<close> are parameters. The properties: every frame but
  the first gives one line, in which exactly the name of the function is replaced when it can be demangled; the
  text of \<^verbatim>\<open>TCP_INFO\<close> is never cut off.
\<close>

section \<open>Stack traces\<close>

text \<open>The loop over the characters of a frame: the last parenthesis and the last plus sign.\<close>

fun scan_frame :: "nat \<Rightarrow> string \<Rightarrow> nat option \<times> nat option \<Rightarrow> nat option \<times> nat option" where
  "scan_frame p [] lp = lp"
| "scan_frame p (c # cs) (left_par, plus_sign) =
     scan_frame (Suc p) cs (if c = CHR ''('' then (Some p, plus_sign) else if c = CHR ''+'' then (left_par, Some p) else (left_par, plus_sign))"

text \<open>
  The mangled name starts after the parenthesis and is ended by the zero that replaces the plus sign meanwhile, when this
  comes later.
\<close>

definition frame_line :: "(string \<Rightarrow> string option) \<Rightarrow> string \<Rightarrow> string" where
  "frame_line cxa_demangle s =
     (case scan_frame 0 s (None, None) of
        (Some left_par, Some plus_sign) \<Rightarrow>
          (let name = (if left_par < plus_sign then range_of s (left_par + 1) plus_sign else drop (left_par + 1) s)
           in case cxa_demangle name of
                Some demangled \<Rightarrow> take (left_par + 1) s @ demangled @ drop plus_sign s
              | None \<Rightarrow> s)
      | _ \<Rightarrow> s)"

definition stackTrace :: "(string \<Rightarrow> string option) \<Rightarrow> string list option \<Rightarrow> bool \<Rightarrow> string" where
  "stackTrace cxa_demangle symbols demangle =
     (case symbols of
        None \<Rightarrow> []
      | Some strings \<Rightarrow>
          concat (map (\<lambda>s. (if demangle then frame_line cxa_demangle s else s) @ [LF]) (tl (take 200 strings))))"

section \<open>TCP_INFO\<close>

record tcp_info =
  tcpi_retransmits :: "8 word"
  tcpi_rto :: "32 word"
  tcpi_ato :: "32 word"
  tcpi_snd_mss :: "32 word"
  tcpi_rcv_mss :: "32 word"
  tcpi_lost :: "32 word"
  tcpi_retrans :: "32 word"
  tcpi_rtt :: "32 word"
  tcpi_rttvar :: "32 word"
  tcpi_snd_ssthresh :: "32 word"
  tcpi_snd_cwnd :: "32 word"
  tcpi_total_retrans :: "32 word"

text \<open>\<^verbatim>\<open>getTcpInfo\<close>: \<open>answer\<close> is what \<^verbatim>\<open>getsockopt\<close> gives; when it fails the structure has what \<^verbatim>\<open>memZero\<close> left there.\<close>

definition getTcpInfo :: "tcp_info option \<Rightarrow> bool \<times> tcp_info" where
  "getTcpInfo answer =
     (case answer of
        Some tcpi \<Rightarrow> (True, tcpi)
      | None \<Rightarrow> (False, \<lparr>tcpi_retransmits = - 1, tcpi_rto = - 1, tcpi_ato = - 1, tcpi_snd_mss = - 1, tcpi_rcv_mss = - 1, tcpi_lost = - 1,
          tcpi_retrans = - 1, tcpi_rtt = - 1, tcpi_rttvar = - 1, tcpi_snd_ssthresh = - 1, tcpi_snd_cwnd = - 1, tcpi_total_retrans = - 1\<rparr>))"

definition tcp_info_fields :: "tcp_info \<Rightarrow> (string \<times> nat) list" where
  "tcp_info_fields t =
     [(''unrecovered='', unat (tcpi_retransmits t)), ('' rto='', unat (tcpi_rto t)), ('' ato='', unat (tcpi_ato t)),
      ('' snd_mss='', unat (tcpi_snd_mss t)), ('' rcv_mss='', unat (tcpi_rcv_mss t)), ('' lost='', unat (tcpi_lost t)),
      ('' retrans='', unat (tcpi_retrans t)), ('' rtt='', unat (tcpi_rtt t)), ('' rttvar='', unat (tcpi_rttvar t)),
      ('' sshthresh='', unat (tcpi_snd_ssthresh t)), ('' cwnd='', unat (tcpi_snd_cwnd t)), ('' total_retrans='', unat (tcpi_total_retrans t))]"

text \<open>\<^verbatim>\<open>Socket::getTcpInfoString\<close> into a buffer that has the text \<open>buf\<close>, and \<^verbatim>\<open>TcpConnection::getTcpInfoString\<close>.\<close>

definition getTcpInfoString :: "tcp_info option \<Rightarrow> string \<Rightarrow> nat \<Rightarrow> bool \<times> string" where
  "getTcpInfoString answer buf len =
     (case getTcpInfo answer of (ok, tcpi) \<Rightarrow>
        (ok, if ok then snprintf len (concat (map (\<lambda>(label, n). label @ show_nat n) (tcp_info_fields tcpi))) else buf))"

definition conn_getTcpInfoString :: "tcp_info option \<Rightarrow> string" where
  "conn_getTcpInfoString answer = snd (getTcpInfoString answer [] 1024)"

section \<open>Options\<close>

datatype sock_option = TCP_NODELAY | SO_REUSEADDR | SO_REUSEPORT | SO_KEEPALIVE

text \<open>\<open>ok\<close> is whether \<^verbatim>\<open>setsockopt\<close> takes the option. The results: the options of the descriptor and what is logged.\<close>

definition set_option :: "bool \<Rightarrow> sock_option \<Rightarrow> bool \<Rightarrow> (sock_option \<Rightarrow> int) \<Rightarrow> (sock_option \<Rightarrow> int)" where
  "set_option ok opt on opts = (let optval = (if on then 1 else 0) in if ok then opts(opt := optval) else opts)"

definition setTcpNoDelay :: "bool \<Rightarrow> bool \<Rightarrow> (sock_option \<Rightarrow> int) \<Rightarrow> (sock_option \<Rightarrow> int)" where
  "setTcpNoDelay ok on opts = set_option ok TCP_NODELAY on opts"

definition setReuseAddr :: "bool \<Rightarrow> bool \<Rightarrow> (sock_option \<Rightarrow> int) \<Rightarrow> (sock_option \<Rightarrow> int)" where
  "setReuseAddr ok on opts = set_option ok SO_REUSEADDR on opts"

definition setReusePort :: "bool \<Rightarrow> bool \<Rightarrow> (sock_option \<Rightarrow> int) \<Rightarrow> (sock_option \<Rightarrow> int) \<times> string list" where
  "setReusePort ok on opts = (set_option ok SO_REUSEPORT on opts, if \<not> ok \<and> on then [''SO_REUSEPORT failed.''] else [])"

definition setKeepAlive :: "bool \<Rightarrow> bool \<Rightarrow> (sock_option \<Rightarrow> int) \<Rightarrow> (sock_option \<Rightarrow> int)" where
  "setKeepAlive ok on opts = set_option ok SO_KEEPALIVE on opts"

section \<open>Properties\<close>

lemma scan_frame_append: "scan_frame p (s @ t) lp = scan_frame (p + length s) t (scan_frame p s lp)"
  by (induction s arbitrary: p lp) auto

lemma scan_frame_plain: "CHR ''('' \<notin> set s \<Longrightarrow> CHR ''+'' \<notin> set s \<Longrightarrow> scan_frame p s lp = lp"
  by (induction s arbitrary: p lp) auto

text \<open>A frame as the library writes it: the file, the mangled name, the offset and the address.\<close>

lemma frame_line_exact:
  assumes "CHR ''('' \<notin> set name" "CHR ''+'' \<notin> set name" "CHR ''('' \<notin> set rest" "CHR ''+'' \<notin> set rest"
  shows "frame_line dem (obj @ ''('' @ name @ ''+'' @ rest) =
    obj @ ''('' @ (case dem name of Some d \<Rightarrow> d | None \<Rightarrow> name) @ ''+'' @ rest"
proof -
  let ?s = "obj @ ''('' @ name @ ''+'' @ rest"
  have scan: "scan_frame 0 ?s (None, None) = (Some (length obj), Some (Suc (length obj + length name)))"
    using assms by (cases "scan_frame 0 obj (None, None)") (simp add: scan_frame_append scan_frame_plain)
  have "range_of ?s (length obj + 1) (Suc (length obj + length name)) = name"
    by (simp add: range_of_def)
  moreover have "take (length obj + 1) ?s = obj @ ''(''" by simp
  moreover have "drop (Suc (length obj + length name)) ?s = ''+'' @ rest" by simp
  ultimately show ?thesis
    unfolding frame_line_def scan Let_def by (simp only: prod.case option.case if_True less_Suc_eq_le le_add1) (simp split: option.split)
qed

text \<open>
  A trace has one line for each frame but the first; in a line the name of the function is replaced by the demangled one,
  when there is one, and everything else is kept.
\<close>

theorem stackTrace_exact:
  assumes "length frames < 200"
    and "\<And>obj name rest. (obj, name, rest) \<in> set frames \<Longrightarrow>
      CHR ''('' \<notin> set name \<and> CHR ''+'' \<notin> set name \<and> CHR ''('' \<notin> set rest \<and> CHR ''+'' \<notin> set rest"
  shows "stackTrace dem (Some (first # map (\<lambda>(obj, name, rest). obj @ ''('' @ name @ ''+'' @ rest) frames)) demangle =
    concat (map (\<lambda>(obj, name, rest).
      obj @ ''('' @ (case dem name of Some d \<Rightarrow> if demangle then d else name | None \<Rightarrow> name) @ ''+'' @ rest @ [LF]) frames)"
proof -
  have "(if demangle then frame_line dem (obj @ ''('' @ name @ ''+'' @ rest) else obj @ ''('' @ name @ ''+'' @ rest) @ [LF] =
      obj @ ''('' @ (case dem name of Some d \<Rightarrow> if demangle then d else name | None \<Rightarrow> name) @ ''+'' @ rest @ [LF]"
    if "(obj, name, rest) \<in> set frames" for obj name rest
    using frame_line_exact [of name rest dem obj] assms(2) [OF that] by (auto split: option.split)
  then have "map ((\<lambda>s. (if demangle then frame_line dem s else s) @ [LF]) \<circ> (\<lambda>(obj, name, rest). obj @ ''('' @ name @ ''+'' @ rest)) frames =
      map (\<lambda>(obj, name, rest).
        obj @ ''('' @ (case dem name of Some d \<Rightarrow> if demangle then d else name | None \<Rightarrow> name) @ ''+'' @ rest @ [LF]) frames"
    by (intro map_cong refl) auto
  moreover have "tl (take 200 (first # map (\<lambda>(obj, name, rest). obj @ ''('' @ name @ ''+'' @ rest) frames)) =
      map (\<lambda>(obj, name, rest). obj @ ''('' @ name @ ''+'' @ rest) frames"
    using assms(1) by (simp add: take_Cons')
  ultimately show ?thesis by (simp only: stackTrace_def option.case map_map)
qed

text \<open>The text of \<^verbatim>\<open>TCP_INFO\<close> is complete: the buffer of the connection is large enough for all values.\<close>

lemma word_text_short: "length (show_nat (unat (w :: 32 word))) \<le> 10"
  by (rule length_show_nat [of _ 9, simplified]) (use unsigned_less [of w, where ?'a = nat] in simp)

lemma byte_text_short: "length (show_nat (unat (w :: 8 word))) \<le> 10"
  by (rule length_show_nat [of _ 9, simplified]) (use unsigned_less [of w, where ?'a = nat] in simp)

theorem tcp_info_complete:
  "conn_getTcpInfoString (Some t) = concat (map (\<lambda>(label, n). label @ show_nat n) (tcp_info_fields t))"
proof -
  have "length (concat (map (\<lambda>(label, n). label @ show_nat n) (tcp_info_fields t))) < 1024"
    using byte_text_short [of "tcpi_retransmits t"] word_text_short [of "tcpi_rto t"] word_text_short [of "tcpi_ato t"]
      word_text_short [of "tcpi_snd_mss t"] word_text_short [of "tcpi_rcv_mss t"] word_text_short [of "tcpi_lost t"]
      word_text_short [of "tcpi_retrans t"] word_text_short [of "tcpi_rtt t"] word_text_short [of "tcpi_rttvar t"]
      word_text_short [of "tcpi_snd_ssthresh t"] word_text_short [of "tcpi_snd_cwnd t"] word_text_short [of "tcpi_total_retrans t"]
    by (simp add: tcp_info_fields_def)
  then show ?thesis by (simp add: conn_getTcpInfoString_def getTcpInfoString_def getTcpInfo_def snprintf_fits)
qed

end
