(* ===== verification/LoopRounds.thy ===== *)
theory LoopRounds
  imports EventLoops
begin

text \<open>
  The life of an event loop with its channels (\<^verbatim>\<open>netLayer/event/eventloop/EventLoop.cpp\<close>, the constructor and destructor of
  \<^verbatim>\<open>netLayer/timer/TimerQueue.cpp\<close>): the loop of theory \<open>EventLoops\<close>, the channels and the poller of theory \<open>Pollers\<close>, composed.

  The loop is constructed, with the channels of its event descriptor and of its timer descriptor; it polls, handles the active
  channels one after the other, calls functors; callbacks and functors make, change, remove and delete other channels; in the end
  it is destroyed. The locale \<open>loop_poller\<close> is what the loop needs of a poller beyond \<open>demux\<close>; both pollers
  are interpretations. The properties: used by the rules the assertions state, no assertion fails and no
  channel is used after it was deleted, the steps of the loop are those of \<open>EventLoops\<close>, and destruction takes exactly
  its own two channels off the poller.
\<close>

section \<open>Operations\<close>

text \<open>
  The poller as the loop sees it, where \<open>'k\<close> is what the kernel answers to a poll, with the allocator of timers and what
  their callbacks do to the queue.
\<close>

record ('k, 'w) loop_env =
  le_update :: "nat \<Rightarrow> 'w \<Rightarrow> 'w res"
  le_remove :: "nat \<Rightarrow> 'w \<Rightarrow> 'w res"
  le_channels :: "'w \<Rightarrow> (int, nat) std_map"
  le_poll :: "'k \<Rightarrow> 'w \<Rightarrow> (nat list \<times> 'w) res"
  le_alloc :: allocator
  le_body :: "nat \<Rightarrow> timer_op list"

definition epoll_env :: "ctl_oracle \<Rightarrow> allocator \<Rightarrow> (nat \<Rightarrow> timer_op list) \<Rightarrow> (nat \<Rightarrow> int + (32 word \<times> nat) list, epoll) loop_env" where
  "epoll_env epoll_ctl alloc body = \<lparr>le_update = epoll_updateChannel epoll_ctl, le_remove = epoll_removeChannel epoll_ctl,
     le_channels = ep_channels, le_poll = epoll_poll, le_alloc = alloc, le_body = body\<rparr>"

definition poll_env :: "allocator \<Rightarrow> (nat \<Rightarrow> timer_op list) \<Rightarrow> (pollfd list \<Rightarrow> int + (nat \<times> 16 word list), pollp) loop_env" where
  "poll_env alloc body = \<lparr>le_update = poll_updateChannel, le_remove = poll_removeChannel, le_channels = pp_channels,
     le_poll = poll_poll, le_alloc = alloc, le_body = body\<rparr>"

text \<open>
  The channels of the heap were made for this loop, \<open>self\<close>. \<^verbatim>\<open>wakeupChannel_\<close> is at address 0, as in \<open>EventLoops\<close>, and
  \<^verbatim>\<open>timerfdChannel_\<close> at address 1.
\<close>

record 'w loop_obj =
  lo_world :: 'w                    \<comment> \<open>the poller and the channels\<close>
  lo_loop :: evloop
  lo_running :: "nat option"        \<comment> \<open>the channel whose \<^verbatim>\<open>handleEvent\<close> is running\<close>
  lo_wakeupFd :: int
  lo_timerfd :: int
  lo_timers :: tqueue
  lo_ticks :: nat                   \<comment> \<open>expirations of the timer descriptor not yet read\<close>

definition loop_update :: "('k, 'a chan_world_scheme) loop_env \<Rightarrow> nat \<Rightarrow> (32 word \<Rightarrow> 32 word) \<Rightarrow> nat \<Rightarrow>
    'a chan_world_scheme \<Rightarrow> 'a chan_world_scheme res" where
  "loop_update P self f p w = channel_set (el_updateChannel (\<lambda>_. self) (le_update P) self) f p w"

definition loop_remove :: "('k, 'a chan_world_scheme) loop_env \<Rightarrow> nat \<Rightarrow> evloop \<Rightarrow> nat \<Rightarrow>
    'a chan_world_scheme \<Rightarrow> 'a chan_world_scheme res" where
  "loop_remove P self e p w = channel_remove (el_removeChannel (\<lambda>_. self) (le_remove P) e self) p w"

text \<open>\<^verbatim>\<open>delete\<close> of a channel in the thread of the loop.\<close>

definition loop_delete :: "('k, 'a chan_world_scheme) loop_env \<Rightarrow> nat \<Rightarrow> nat \<Rightarrow> 'a chan_world_scheme \<Rightarrow> 'a chan_world_scheme res" where
  "loop_delete P self p w =
     deref w p (\<lambda>c.
       bind_r (if in_loop w then el_hasChannel (\<lambda>_. self) (le_channels P w) self p w else Inr False) (\<lambda>has.
         bind_r (Channel_delete (in_loop w) has c) (\<lambda>_. Inr (w\<lparr>heap := (heap w)(p := None)\<rparr>))))"

definition createTimerfd :: "int \<Rightarrow> int res" where
  "createTimerfd timerfd = (if timerfd < 0 then Inl (Abort ''Failed in timerfd_create'') else Inr timerfd)"

definition createEventfd :: "int \<Rightarrow> int res" where
  "createEventfd evtfd = (if evtfd < 0 then Inl (Abort ''Failed in eventfd'') else Inr evtfd)"

definition TimerQueue_create :: "('k, 'a chan_world_scheme) loop_env \<Rightarrow> nat \<Rightarrow> int \<Rightarrow> 'a chan_world_scheme \<Rightarrow>
    (int \<times> 'a chan_world_scheme) res" where
  "TimerQueue_create P self timerfd w =
     bind_r (createTimerfd timerfd) (\<lambda>fd.
       bind_r (loop_update P self reading_on 1 (put_chan 1 (setReadCallback (Channel_new fd)) w)) (\<lambda>w1. Inr (fd, w1)))"

text \<open>
  The constructor, on the poller it makes: \<open>here\<close> is \<^verbatim>\<open>t_loopInThisThread\<close>, which the result sets; \<open>evtfd\<close> and \<open>timerfd\<close> are the
  answers of \<^verbatim>\<open>eventfd\<close> and \<^verbatim>\<open>timerfd_create\<close>.
\<close>

definition EventLoop_create :: "('k, 'a chan_world_scheme) loop_env \<Rightarrow> nat \<Rightarrow> int \<Rightarrow> int \<Rightarrow> nat option \<Rightarrow> 'a chan_world_scheme \<Rightarrow>
    (nat option \<times> 'a chan_world_scheme loop_obj) res" where
  "EventLoop_create P self evtfd timerfd here w =
     bind_r (TimerQueue_create P self timerfd w) (\<lambda>(tfd, w1).
       bind_r (createEventfd evtfd) (\<lambda>wfd.
         if here \<noteq> None then Inl (Abort ''Another EventLoop exists in this thread'')
         else bind_r (loop_update P self reading_on 0 (put_chan 0 (setReadCallback (Channel_new wfd)) w1)) (\<lambda>w2.
           Inr (Some self, \<lparr>lo_world = w2, lo_loop = EventLoop_new, lo_running = None, lo_wakeupFd = wfd, lo_timerfd = tfd,
                            lo_timers = TimerQueue_new, lo_ticks = 0\<rparr>))))"

text \<open>\<^verbatim>\<open>disableAll\<close> and \<^verbatim>\<open>remove\<close> of a channel.\<close>

definition loop_detach :: "('k, 'a chan_world_scheme) loop_env \<Rightarrow> nat \<Rightarrow> evloop \<Rightarrow> nat \<Rightarrow> 'a chan_world_scheme \<Rightarrow>
    'a chan_world_scheme res" where
  "loop_detach P self e p w = bind_r (loop_update P self (\<lambda>_. kNoneEvent) p w) (loop_remove P self e p)"

definition TimerQueue_delete :: "('k, 'a chan_world_scheme) loop_env \<Rightarrow> nat \<Rightarrow> evloop \<Rightarrow> tqueue \<Rightarrow> 'a chan_world_scheme \<Rightarrow>
    (tqueue \<times> 'a chan_world_scheme) res" where
  "TimerQueue_delete P self e q w =
     bind_r (loop_detach P self e 1 w) (\<lambda>w1.
       let q1 = TimerQueue_destroy q
       in bind_r (loop_delete P self 1 w1) (\<lambda>w2. Inr (q1, w2)))"

text \<open>
  The destructor: its body, then the members in the reverse of their order, \<^verbatim>\<open>wakeupChannel_\<close> before \<^verbatim>\<open>timerQueue_\<close>
  before \<^verbatim>\<open>poller_\<close>. The result is \<^verbatim>\<open>t_loopInThisThread\<close>, the descriptors closed, the timers and the poller at its end.
\<close>

definition EventLoop_delete :: "('k, 'a chan_world_scheme) loop_env \<Rightarrow> nat \<Rightarrow> 'a chan_world_scheme loop_obj \<Rightarrow>
    (nat option \<times> int list \<times> tqueue \<times> 'a chan_world_scheme) res" where
  "EventLoop_delete P self s =
     bind_r (loop_detach P self (lo_loop s) 0 (lo_world s)) (\<lambda>w1.
       bind_r (loop_delete P self 0 w1) (\<lambda>w2.
         bind_r (TimerQueue_delete P self (lo_loop s) (lo_timers s) w2) (\<lambda>(q, w3).
           Inr (None, [lo_wakeupFd s, lo_timerfd s], q, w3))))"

section \<open>Rounds\<close>

text \<open>What callbacks, functors and the code around \<^verbatim>\<open>loop()\<close> do with channels of their own.\<close>

datatype chan_op =
    OpNew int nat                              \<comment> \<open>a channel for a descriptor, at a free address\<close>
  | OpCallback "channel \<Rightarrow> channel" nat        \<comment> \<open>a setter\<close>
  | OpEvents "32 word \<Rightarrow> 32 word" nat          \<comment> \<open>\<^verbatim>\<open>enableReading\<close> and its siblings\<close>
  | OpRemove nat
  | OpDelete nat

fun chan_do :: "('k, 'a chan_world_scheme) loop_env \<Rightarrow> nat \<Rightarrow> evloop \<Rightarrow> chan_op \<Rightarrow> 'a chan_world_scheme \<Rightarrow> 'a chan_world_scheme res" where
  "chan_do P self e (OpNew fd p) w = Inr (put_chan p (Channel_new fd) w)"
| "chan_do P self e (OpCallback g p) w = deref w p (\<lambda>c. Inr (put_chan p (g c) w))"
| "chan_do P self e (OpEvents f p) w = loop_update P self f p w"
| "chan_do P self e (OpRemove p) w = loop_remove P self e p w"
| "chan_do P self e (OpDelete p) w = loop_delete P self p w"

text \<open>
  The rules of use, which the assertions state: a channel is registered once, with events and a descriptor no other channel has; it is
  removed when it wants no events and, while events are handled, only if it is the one being handled or not active; it is
  deleted when it is removed and not being handled. The loop's own channels are private.
\<close>

definition is_setter :: "(channel \<Rightarrow> channel) \<Rightarrow> bool" where
  "is_setter g \<longleftrightarrow> g = setReadCallback \<or> g = setWriteCallback \<or> g = setCloseCallback \<or> g = setErrorCallback \<or> g = doNotLogHup \<or> (\<exists>obj. g = tie obj)"

definition at_chan :: "'a chan_world_scheme \<Rightarrow> nat \<Rightarrow> (channel \<Rightarrow> bool) \<Rightarrow> bool" where
  "at_chan w p Q = (case heap w p of None \<Rightarrow> False | Some c \<Rightarrow> Q c)"

fun chan_may :: "('k, 'a chan_world_scheme) loop_env \<Rightarrow> evloop \<Rightarrow> 'a chan_world_scheme \<Rightarrow> chan_op \<Rightarrow> bool" where
  "chan_may P e w (OpNew fd p) \<longleftrightarrow> heap w p = None \<and> 0 \<le> fd"
| "chan_may P e w (OpCallback g p) \<longleftrightarrow> 1 < p \<and> heap w p \<noteq> None \<and> is_setter g"
| "chan_may P e w (OpEvents f p) \<longleftrightarrow> 1 < p \<and> at_chan w p (\<lambda>c. io_mask (f (ch_events c)) \<and>
     (ch_addedToLoop c \<or> ch_index c = -1 \<and> f (ch_events c) \<noteq> 0 \<and> map_find (ch_fd c) (le_channels P w) = None))"
| "chan_may P e w (OpRemove p) \<longleftrightarrow> 1 < p \<and> at_chan w p (\<lambda>c. ch_addedToLoop c \<and> ch_events c = 0) \<and>
     (el_eventHandling e \<longrightarrow> el_currentActiveChannel e = Some p \<or> p \<notin> set (el_activeChannels e))"
| "chan_may P e w (OpDelete p) \<longleftrightarrow> 1 < p \<and> at_chan w p (\<lambda>c. \<not> ch_addedToLoop c \<and> \<not> ch_eventHandling c)"

text \<open>
  The steps: those of the loop and of other threads that do not concern channels, the return of \<^verbatim>\<open>poll\<close>, the beginning and the end of
  \<^verbatim>\<open>handleEvent\<close> of the next active channel, the end of the round, and uses of channels and timers. \<open>locked\<close>: \<^verbatim>\<open>tie_.lock()\<close> yields the object;
  \<open>code\<close> is what the handler does with the loop.
\<close>

datatype 'k loop_act =
    LaLoop evloop
  | LaPoll 'k
  | LaEnter bool "loop_op list"
  | LaLeave
  | LaFinish
  | LaChan chan_op
  | LaTimers timer_event
  | LaTick                     \<comment> \<open>the timer descriptor expires\<close>

definition loop_enter :: "bool \<Rightarrow> loop_op list \<Rightarrow> 'a chan_world_scheme loop_obj \<Rightarrow> 'a chan_world_scheme loop_obj res" where
  "loop_enter locked code s =
     (case el_todo (lo_loop s) of
        [] \<Rightarrow> Inr s
      | p # ps \<Rightarrow> deref (lo_world s) p (\<lambda>c.
          let e = (lo_loop s)\<lparr>el_currentActiveChannel := Some p, el_todo := ps\<rparr>
          in if ch_tied c \<and> \<not> locked then Inr (s\<lparr>lo_loop := e\<rparr>)
             else Inr (s\<lparr>lo_world := put_chan p (c\<lparr>ch_eventHandling := True\<rparr>) (lo_world s), lo_running := Some p,
                         lo_loop := (if p = 0 then el_handleRead e else e\<lparr>el_code := code\<rparr>)\<rparr>)))"

definition loop_leave :: "'a chan_world_scheme loop_obj \<Rightarrow> 'a chan_world_scheme loop_obj res" where
  "loop_leave s =
     (case lo_running s of
        None \<Rightarrow> Inr s
      | Some p \<Rightarrow> deref (lo_world s) p (\<lambda>c.
          Inr (s\<lparr>lo_world := put_chan p (c\<lparr>ch_eventHandling := False\<rparr>) (lo_world s), lo_running := None\<rparr>)))"

text \<open>The read resets the number of expirations; \<^verbatim>\<open>handleRead\<close> begins with it.\<close>

definition readTimerfd :: "'w loop_obj \<Rightarrow> 'w loop_obj" where
  "readTimerfd s = s\<lparr>lo_ticks := 0\<rparr>"

fun loop_do :: "('k, 'a chan_world_scheme) loop_env \<Rightarrow> nat \<Rightarrow> 'k loop_act \<Rightarrow> 'a chan_world_scheme loop_obj \<Rightarrow>
    'a chan_world_scheme loop_obj res" where
  "loop_do P self (LaLoop e) s = Inr (s\<lparr>lo_loop := e\<rparr>)"
| "loop_do P self (LaPoll k) s =
     bind_r (le_poll P k (lo_world s)) (\<lambda>(act, w).
       Inr (s\<lparr>lo_world := w, lo_loop := (lo_loop s)\<lparr>el_activeChannels := act, el_iteration := el_iteration (lo_loop s) + 1,
              el_eventHandling := True, el_todo := act, el_pc := Handling\<rparr>\<rparr>))"
| "loop_do P self (LaEnter locked code) s = loop_enter locked code s"
| "loop_do P self LaLeave s = loop_leave s"
| "loop_do P self LaFinish s =
     Inr (s\<lparr>lo_loop := (lo_loop s)\<lparr>el_currentActiveChannel := None, el_eventHandling := False,
            el_callingPendingFunctors := True, el_pc := Swap\<rparr>\<rparr>)"
| "loop_do P self (LaChan ch) s = bind_r (chan_do P self (lo_loop s) ch (lo_world s)) (\<lambda>w. Inr (s\<lparr>lo_world := w\<rparr>))"
| "loop_do P self (LaTimers t) s =
     (let s1 = (case t of UserOp _ _ \<Rightarrow> s | timer_event.Wakeup _ _ \<Rightarrow> readTimerfd s)
      in bind_r (timer_step (le_alloc P) (le_body P) t (lo_timers s1)) (\<lambda>q. Inr (s1\<lparr>lo_timers := q\<rparr>)))"
| "loop_do P self LaTick s = Inr (s\<lparr>lo_ticks := lo_ticks s + 1\<rparr>)"

text \<open>A step of \<open>EventLoops\<close> that does not concern channels.\<close>

definition loop_quiet :: "evloop \<Rightarrow> evloop \<Rightarrow> bool" where
  "loop_quiet e e' \<longleftrightarrow> (if el_pc e = Handling then el_pc e' = Handling \<and> el_todo e' = el_todo e else el_pc e' \<noteq> Handling)"

text \<open>
  When a step may happen; \<open>fair\<close> is what the kernel promises of its answer. The loop's descriptors are readable when their channels are active.
\<close>

fun loop_may :: "('k, 'a chan_world_scheme) loop_env \<Rightarrow> ('k \<Rightarrow> 'a chan_world_scheme \<Rightarrow> bool) \<Rightarrow> 'k loop_act \<Rightarrow>
    'a chan_world_scheme loop_obj \<Rightarrow> bool" where
  "loop_may P fair (LaLoop e) s \<longleftrightarrow> el_step (lo_loop s) e \<and> loop_quiet (lo_loop s) e"
| "loop_may P fair (LaPoll k) s \<longleftrightarrow> el_pc (lo_loop s) = Poll \<and> fair k (lo_world s) \<and>
     (\<forall>act w. le_poll P k (lo_world s) = Inr (act, w) \<longrightarrow> 
        (0 \<in> set act \<longrightarrow> 0 < el_wakeupFd (lo_loop s)) \<and> (1 \<in> set act \<longrightarrow> 0 < lo_ticks s))"
| "loop_may P fair (LaEnter locked code) s \<longleftrightarrow> el_pc (lo_loop s) = Handling \<and> el_code (lo_loop s) = [] \<and> lo_running s = None \<and>
     el_todo (lo_loop s) \<noteq> []"
| "loop_may P fair LaLeave s \<longleftrightarrow> lo_running s \<noteq> None \<and> el_code (lo_loop s) = []"
| "loop_may P fair LaFinish s \<longleftrightarrow> el_pc (lo_loop s) = Handling \<and> el_code (lo_loop s) = [] \<and> lo_running s = None \<and> el_todo (lo_loop s) = []"
| "loop_may P fair (LaChan ch) s \<longleftrightarrow> (el_pc (lo_loop s) \<in> {NotLooping, Functors} \<or> lo_running s \<noteq> None) \<and>
     chan_may P (lo_loop s) (lo_world s) ch"
| "loop_may P fair (LaTimers t) s \<longleftrightarrow>
     (case t of UserOp _ _ \<Rightarrow> el_pc (lo_loop s) \<in> {NotLooping, Functors} \<or> lo_running s \<noteq> None
      | timer_event.Wakeup _ now \<Rightarrow> lo_running s = Some 1 \<and> 0 < now)"
| "loop_may P fair LaTick s \<longleftrightarrow> True"

inductive loop_reach :: "('k, 'a chan_world_scheme) loop_env \<Rightarrow> ('k \<Rightarrow> 'a chan_world_scheme \<Rightarrow> bool) \<Rightarrow> nat \<Rightarrow> 'a chan_world_scheme \<Rightarrow>
    'a chan_world_scheme loop_obj \<Rightarrow> bool" for P fair self w0 where
  constructed: "EventLoop_create P self evtfd timerfd None w0 = Inr (here, s) \<Longrightarrow> evtfd \<noteq> timerfd \<Longrightarrow> loop_reach P fair self w0 s"
| happens: "loop_reach P fair self w0 s \<Longrightarrow> loop_may P fair a s \<Longrightarrow> loop_do P self a s = Inr s' \<Longrightarrow> loop_reach P fair self w0 s'"

section \<open>No timer is leaked\<close>

text \<open>Every live timer is pending, or among the expired ones \<open>X\<close> that are being handled.\<close>

definition held :: "nat set \<Rightarrow> tqueue \<Rightarrow> bool" where
  "held X q \<longleftrightarrow> (\<forall>p. t_heap q p \<noteq> None \<longrightarrow> p \<in> X \<or> p \<in> snd ` t_keys (timers q))"

lemma heldE:
  assumes "held X q" and "t_heap q p \<noteq> None" and "p \<notin> X"
  obtains e where "(e, p) \<in> t_keys (timers q)"
  using assms unfolding held_def by force

lemma heldI: "(\<And>p. t_heap q p \<noteq> None \<Longrightarrow> p \<notin> X \<Longrightarrow> \<exists>e. (e, p) \<in> t_keys (timers q)) \<Longrightarrow> held X q"
  unfolding held_def by force

lemma do_timer_op_held:
  assumes "tq_ok X q" and "held X q" and "do_timer_op alloc clk a q = Inr q'"
  shows "held X q'"
proof (cases a)
  case (AddTimer cb due interval rpt)
  with assms(3) obtain p t where heap: "t_heap q' = (t_heap q)(p := Some t)"
    and keys: "t_keys (timers q') = insert (t_expiration t, p) (t_keys (timers q))"
    by (auto simp: addTimer_def addTimerInLoop_def tq_insert_def t_deref_def resetTimerfd_def bind_r_eq_Inr ensure_eq_Inr Let_def
        split: option.splits if_splits)
  show ?thesis
    by (rule heldI) (use assms(2) in \<open>auto simp: heap keys split: if_splits elim: heldE\<close>)
next
  case (CancelTimer i)
  have m: "map_ok (timers q)" using assms(1) by (simp add: tq_ok_def tq_inv_def)
  from CancelTimer assms(3) have "t_heap q' = t_heap q \<and> timers q' = timers q \<or>
      (\<exists>e. t_heap q' = (t_heap q)(fst i := None) \<and> timers q' = map_erase (e, fst i) (timers q))"
    by (auto simp: cancelInLoop_def t_deref_def bind_r_eq_Inr ensure_eq_Inr split: option.splits if_splits)
  then show ?thesis
  proof (elim disjE exE conjE)
    fix e assume q': "t_heap q' = (t_heap q)(fst i := None)" "timers q' = map_erase (e, fst i) (timers q)"
    show ?thesis by (rule heldI) (use assms(2) m in \<open>auto simp: q' split: if_splits elim!: heldE\<close>)
  qed (use assms(2) in \<open>simp add: held_def\<close>)
qed

lemma do_timer_ops_held:
  assumes "alloc_ok alloc"
  shows "tq_ok X q \<Longrightarrow> held X q \<Longrightarrow> fold_r (do_timer_op alloc clk) as q = Inr q' \<Longrightarrow> held X q'"
proof (induction as arbitrary: q)
  case (Cons a as)
  from Cons.prems(3) obtain q1 where q1: "do_timer_op alloc clk a q = Inr q1" "fold_r (do_timer_op alloc clk) as q1 = Inr q'"
    by (auto simp: bind_r_eq_Inr)
  have "tq_ok X q1" using unless_oom_Inr [OF do_timer_op_spec [OF Cons.prems(1) assms] q1(1)] by simp
  then show ?case using Cons.IH q1 do_timer_op_held [OF Cons.prems(1,2) q1(1)] by blast
qed simp

lemma run_timers_held:
  assumes "alloc_ok alloc"
  shows "tq_ok X q \<Longrightarrow> held X q \<Longrightarrow> fold_r (run_timer alloc body clk) es (q, hist) = Inr (q', hist') \<Longrightarrow> held X q'"
proof (induction es arbitrary: q hist)
  case (Cons e es)
  from Cons.prems(3) obtain as q1 where q1: "fold_r (do_timer_op alloc clk) as q = Inr q1"
    "fold_r (run_timer alloc body clk) es (q1, hist @ [snd e]) = Inr (q', hist')"
    by (auto simp: run_timer_def [of alloc body clk e] t_deref_def bind_r_eq_Inr split: option.splits)
  have "tq_ok X q1" using unless_oom_Inr [OF do_timer_ops_spec [OF Cons.prems(1) assms] q1(1)] by simp
  then show ?case using Cons.IH q1(2) do_timer_ops_held [OF assms Cons.prems(1,2) q1(1)] by blast
qed simp

lemma handleRead_held:
  assumes ok: "tq_ok {} q" and "alloc_ok alloc" and "0 < now" and held: "held {} q"
    and run: "tq_handleRead alloc body clk now q = Inr (hist, q')"
  shows "held {} q'"
proof -
  let ?X = "expired_part now q" and ?E = "snd ` set (expired_part now q)"
  from getExpired_spec [OF ok, of now] obtain q1 where
    q1: "getExpired now q = Inr (?X, q1)" "tq_ok ?E q1" "distinct (map snd ?X)" "t_heap q1 = t_heap q"
      "t_keys (timers q1) = {k \<in> t_keys (timers q). now < fst k}" by blast
  let ?q1 = "q1\<lparr>callingExpiredTimers := True, cancelingTimers := []\<rparr>"
  have X: "set ?X = {k \<in> t_keys (timers q). fst k \<le> now}" by (auto simp: expired_part_def t_keys_def image_iff)
  have ok1: "tq_ok ?E ?q1" using q1(2) by (simp add: tq_ok_def tq_inv_def armed_early_def armed_by_def)
  have "held ?E q1"
  proof (rule heldI)
    fix p assume p: "t_heap q1 p \<noteq> None" "p \<notin> ?E"
    from held p(1) obtain e where e: "(e, p) \<in> t_keys (timers q)" by (auto simp: q1(4) elim: heldE)
    with p(2) have "now < e" unfolding X by force
    with e show "\<exists>e. (e, p) \<in> t_keys (timers q1)" by (auto simp: q1(5))
  qed
  then have held1: "held ?E ?q1" by (simp add: held_def)
  from run q1(1) obtain q2 where q2: "fold_r (run_timer alloc body clk) ?X (?q1, []) = Inr (q2, hist)"
    "tq_reset clk now ?X (q2\<lparr>callingExpiredTimers := False\<rparr>) = Inr q'" by (auto simp: tq_handleRead_def bind_r_eq_Inr)
  let ?q2 = "q2\<lparr>callingExpiredTimers := False\<rparr>"
  have held2: "held ?E q2" by (rule run_timers_held [OF assms(2) ok1 held1 q2(1)])
  have ok2: "tq_ok ?E q2" using unless_oom_Inr [OF run_timers_spec [OF ok1 assms(2) subset_refl] q2(1)] by simp
  then have inv2: "tq_inv ?E ?q2" "armed_early ?q2" by (simp_all add: tq_ok_def tq_inv_def armed_early_def armed_by_def)
  from tq_reset_spec [OF inv2(1) q1(3) inv2(2) assms(3), of clk] q2(2) have
    heap: "t_heap q' p = (if p \<in> ?E then reset_part now (cancelingTimers q2) (t_heap q2) p else t_heap q2 p)" and
    keys: "t_keys (timers q') = t_keys (timers q2) \<union>
      {(t_expiration t, p) | t p. p \<in> ?E \<and> reset_part now (cancelingTimers q2) (t_heap q2) p = Some t}" for p by auto
  show ?thesis
  proof (rule heldI)
    fix p assume p: "t_heap q' p \<noteq> None"
    show "\<exists>e. (e, p) \<in> t_keys (timers q')"
    proof (cases "p \<in> ?E")
      case True
      with p heap [of p] show ?thesis unfolding keys by auto
    next
      case False
      with p heap [of p] held2 obtain e where "(e, p) \<in> t_keys (timers q2)" by (auto elim: heldE)
      then show ?thesis unfolding keys by blast
    qed
  qed
qed

lemma timer_step_held:
  assumes "tq_ok {} q" and "alloc_ok alloc" and "wakeup_valid t" and "held {} q" and "timer_step alloc body t q = Inr q'"
  shows "held {} q'"
proof (cases t)
  case (UserOp clk a)
  with do_timer_op_held [OF assms(1,4)] assms(5) show ?thesis by simp
next
  case (Wakeup clk now)
  with assms(3,5) handleRead_held [OF assms(1,2) _ assms(4)] show ?thesis by (auto simp: bind_r_eq_Inr)
qed

lemma destroyed_heap: "t_heap (TimerQueue_destroy q) p = (if p \<in> snd ` t_keys (timers q) then None else t_heap q p)"
proof -
  have "fold (\<lambda>((_, p), _) h. h(p := None)) ts h p = (if p \<in> snd ` t_keys ts then None else h p)"
    for ts :: "(timestamp \<times> nat) std_set" and h :: "nat \<Rightarrow> timer option"
    by (induction ts arbitrary: h) (auto simp: t_keys_def)
  then show ?thesis by (simp add: TimerQueue_destroy_def)
qed

lemma destroy_frees_all: "held {} q \<Longrightarrow> t_heap (TimerQueue_destroy q) p = None"
  by (auto simp: destroyed_heap held_def)

section \<open>What the loop needs of a poller\<close>

text \<open>A channel without what only the poller writes, and what the poller relies on of a channel.\<close>

definition ch_still :: "channel \<Rightarrow> channel" where
  "ch_still c = c\<lparr>ch_index := 0, ch_revents := 0\<rparr>"

definition still :: "'a chan_world_scheme \<Rightarrow> nat \<Rightarrow> channel option" where
  "still w p = map_option ch_still (heap w p)"

definition ch_known :: "channel \<Rightarrow> int \<times> 32 word \<times> int" where
  "ch_known c = (ch_fd c, ch_events c, ch_index c)"

lemma ch_still_simps [simp]:
  "ch_fd (ch_still c) = ch_fd c" "ch_events (ch_still c) = ch_events c" "ch_addedToLoop (ch_still c) = ch_addedToLoop c"
  "ch_eventHandling (ch_still c) = ch_eventHandling c" "ch_tied (ch_still c) = ch_tied c"
  "ch_still (c\<lparr>ch_index := i\<rparr>) = ch_still c" "ch_still (c\<lparr>ch_revents := r\<rparr>) = ch_still c"
  "ch_still (set_index i c) = ch_still c" "ch_still (set_revents r c) = ch_still c"
  by (simp_all add: ch_still_def set_index_def set_revents_def)

lemma still_put [simp]: "still (put_chan p c w) = (still w)(p := Some (ch_still c))"
  by (auto simp: still_def)

lemma still_heap: "heap w p = Some c \<Longrightarrow> still w p = Some (ch_still c)"
  by (simp add: still_def)

lemma still_SomeE:
  assumes "still w p = Some d"
  obtains c where "heap w p = Some c" and "d = ch_still c"
  using assms by (auto simp: still_def)

locale loop_poller = demux ok heap reg fresh watched "channel_set (le_update P)" "channel_remove (le_remove P)"
  for P :: "('k, 'a chan_world_scheme) loop_env" and ok and reg and fresh and watched +
  fixes fair :: "'k \<Rightarrow> 'a chan_world_scheme \<Rightarrow> bool"
  assumes in_loop: "ok w \<Longrightarrow> in_loop w"
    and reg_alive: "ok w \<Longrightarrow> p \<in> reg w \<Longrightarrow> heap w p \<noteq> None"
    and has: "ok w \<Longrightarrow> heap w p = Some c \<Longrightarrow> map_find (ch_fd c) (le_channels P w) = Some p \<longleftrightarrow> p \<in> reg w"
    and fresh_new: "ch_index c = -1 \<Longrightarrow> fresh c"
    and frame: "ok w \<Longrightarrow> (\<And>q. q \<in> reg w \<Longrightarrow> map_option ch_known (h q) = map_option ch_known (heap w q)) \<Longrightarrow>
      ok (w\<lparr>heap := h\<rparr>) \<and> reg (w\<lparr>heap := h\<rparr>) = reg w"
    and set_still: "channel_set (le_update P) f p w = Inr w' \<Longrightarrow> heap w p = Some c \<Longrightarrow>
      still w' = (still w)(p := Some (ch_still (c\<lparr>ch_events := f (ch_events c), ch_addedToLoop := True\<rparr>)))"
    and remove_still: "channel_remove (le_remove P) p w = Inr w' \<Longrightarrow> heap w p = Some c \<Longrightarrow>
      still w' = (still w)(p := Some (ch_still (c\<lparr>ch_addedToLoop := False\<rparr>)))"
    and poll_law: "ok w \<Longrightarrow> fair k w \<Longrightarrow> returns (le_poll P k w) (\<lambda>(act, w').
      ok w' \<and> reg w' = reg w \<and> still w' = still w \<and> distinct act \<and> set act \<subseteq> reg w)"
begin

text \<open>What holds of the channels while \<open>run\<close> is being handled.\<close>

definition world_ok :: "'a chan_world_scheme \<Rightarrow> nat option \<Rightarrow> bool" where
  "world_ok w run \<longleftrightarrow> ok w \<and>
     (\<forall>p c. still w p = Some c \<longrightarrow> 0 \<le> ch_fd c \<and> (ch_addedToLoop c \<longleftrightarrow> p \<in> reg w) \<and> (ch_eventHandling c \<longleftrightarrow> run = Some p))"

text \<open>A channel of the loop itself.\<close>

definition own :: "'a chan_world_scheme \<Rightarrow> nat \<Rightarrow> int \<Rightarrow> bool" where
  "own w p fd \<longleftrightarrow> (\<exists>c. still w p = Some c \<and> ch_fd c = fd \<and> ch_events c = kReadEvent \<and> ch_addedToLoop c \<and> \<not> ch_tied c)"

lemma world_cell: "world_ok w run \<Longrightarrow> still w p = Some c \<Longrightarrow>
    0 \<le> ch_fd c \<and> (ch_addedToLoop c \<longleftrightarrow> p \<in> reg w) \<and> (ch_eventHandling c \<longleftrightarrow> run = Some p)"
  unfolding world_ok_def by blast

lemma worldD:
  assumes "world_ok w run" and "heap w p = Some c"
  shows "0 \<le> ch_fd c" and "ch_addedToLoop c \<longleftrightarrow> p \<in> reg w" and "ch_eventHandling c \<longleftrightarrow> run = Some p"
  using world_cell [OF assms(1) still_heap [OF assms(2)]] by simp_all

lemma worldI:
  assumes "ok w" and "\<And>p c. still w p = Some c \<Longrightarrow> 0 \<le> ch_fd c \<and> (ch_addedToLoop c \<longleftrightarrow> p \<in> reg w) \<and> (ch_eventHandling c \<longleftrightarrow> run = Some p)"
  shows "world_ok w run"
  using assms unfolding world_ok_def by blast

lemma set_world:
  assumes w: "world_ok w run" and c: "heap w p = Some c" and "io_mask (f (ch_events c))"
    and cond: "p \<in> reg w \<or> fresh c \<and> f (ch_events c) \<noteq> 0 \<and> (\<forall>q d. q \<in> reg w \<longrightarrow> heap w q = Some d \<longrightarrow> ch_fd d \<noteq> ch_fd c)"
  shows "returns (loop_update P self f p w) (\<lambda>w'. world_ok w' run \<and> reg w' = insert p (reg w) \<and>
    still w' = (still w)(p := Some (ch_still (c\<lparr>ch_events := f (ch_events c), ch_addedToLoop := True\<rparr>))))"
proof -
  have ok: "ok w" using w by (simp add: world_ok_def)
  have eq: "loop_update P self f p w = channel_set (le_update P) f p w"
    using in_loop [OF ok] c by (simp add: loop_update_def channel_set_def el_updateChannel_def assertInLoopThread_def)
  from set_law [of w p c f, OF ok c worldD(1) [OF w c] assms(3) cond] obtain w' where
    w': "channel_set (le_update P) f p w = Inr w'" "ok w'" "reg w' = insert p (reg w)" by (rule returnsE) blast
  note st = set_still [OF w'(1) c]
  have "world_ok w' run"
    by (rule worldI [OF w'(2)]) (use worldD [OF w c] world_cell [OF w] in \<open>auto simp: st w'(3) split: if_splits\<close>)
  with w' st eq show ?thesis by simp
qed

lemma remove_world:
  assumes w: "world_ok w run" and c: "heap w p = Some c" and "p \<in> reg w" and "ch_events c = 0"
    and "el_eventHandling e \<longrightarrow> el_currentActiveChannel e = Some p \<or> p \<notin> set (el_activeChannels e)"
  shows "returns (loop_remove P self e p w) (\<lambda>w'. world_ok w' run \<and> reg w' = reg w - {p} \<and>
    still w' = (still w)(p := Some (ch_still (c\<lparr>ch_addedToLoop := False\<rparr>))))"
proof -
  have ok: "ok w" using w by (simp add: world_ok_def)
  have eq: "loop_remove P self e p w = channel_remove (le_remove P) p w"
    using in_loop [OF ok] c assms(5) by (simp add: loop_remove_def channel_remove_def el_removeChannel_def assertInLoopThread_def)
  from remove_law [OF ok assms(3) c assms(4)] obtain w' where
    w': "channel_remove (le_remove P) p w = Inr w'" "ok w'" "reg w' = reg w - {p}" by (rule returnsE) blast
  note st = remove_still [OF w'(1) c]
  have "world_ok w' run"
    by (rule worldI [OF w'(2)]) (use worldD [OF w c] world_cell [OF w] in \<open>auto simp: st w'(3) split: if_splits\<close>)
  with w' st eq show ?thesis by simp
qed

lemma delete_world:
  assumes w: "world_ok w run" and c: "heap w p = Some c" and "p \<notin> reg w" and "run \<noteq> Some p"
  shows "returns (loop_delete P self p w) (\<lambda>w'. world_ok w' run \<and> reg w' = reg w \<and> still w' = (still w)(p := None))"
proof -
  have ok: "ok w" using w by (simp add: world_ok_def)
  let ?w = "w\<lparr>heap := (heap w)(p := None)\<rparr>"
  have run: "loop_delete P self p w = Inr ?w"
    using in_loop [OF ok] c has [OF ok c] worldD [OF w c] assms(3,4)
    by (simp add: loop_delete_def el_hasChannel_def hasChannel_def assertInLoopThread_def Channel_delete_def)
  have fr: "ok ?w \<and> reg ?w = reg w" by (rule frame [OF ok]) (use assms(3) in auto)
  have st: "still ?w = (still w)(p := None)" by (auto simp: still_def)
  have "world_ok ?w run"
    by (rule worldI) (use fr world_cell [OF w] in \<open>auto simp: st split: if_splits\<close>)
  with run fr st show ?thesis by simp
qed

text \<open>A change of a channel that the poller does not see.\<close>

lemma touch_world:
  assumes w: "world_ok w run" and c: "heap w p = Some c" and "ch_known c' = ch_known c"
    and "ch_addedToLoop c' = ch_addedToLoop c" and "ch_eventHandling c' \<longleftrightarrow> run' = Some p" and "\<And>q. q \<noteq> p \<Longrightarrow> run' = Some q \<longleftrightarrow> run = Some q"
  shows "world_ok (put_chan p c' w) run' \<and> reg (put_chan p c' w) = reg w"
proof -
  have ok: "ok w" using w by (simp add: world_ok_def)
  have fr: "ok (put_chan p c' w) \<and> reg (put_chan p c' w) = reg w"
    unfolding put_chan_def by (rule frame [OF ok]) (use c assms(3) in auto)
  have "ch_fd c' = ch_fd c" using assms(3) by (simp add: ch_known_def)
  then have "world_ok (put_chan p c' w) run'"
    by (intro worldI) (use fr worldD [OF w c] world_cell [OF w] assms(4-6) in \<open>auto split: if_splits\<close>)
  with fr show ?thesis by simp
qed

lemma new_world:
  assumes w: "world_ok w run" and free: "heap w p = None" and "0 \<le> fd" and "run \<noteq> Some p"
    and "ch_fd c = fd" "\<not> ch_addedToLoop c" "\<not> ch_eventHandling c"
  shows "world_ok (put_chan p c w) run \<and> reg (put_chan p c w) = reg w"
proof -
  have ok: "ok w" using w by (simp add: world_ok_def)
  have nreg: "p \<notin> reg w" using reg_alive [OF ok] free by blast
  have fr: "ok (put_chan p c w) \<and> reg (put_chan p c w) = reg w"
    unfolding put_chan_def by (rule frame [OF ok]) (use nreg in auto)
  have "world_ok (put_chan p c w) run"
    by (rule worldI) (use fr nreg world_cell [OF w] assms(3-7) in \<open>auto split: if_splits\<close>)
  with fr show ?thesis by simp
qed


text \<open>Channels the program uses by the rules; those of the loop stay as they are.\<close>

lemma chan_world:
  assumes w: "world_ok w run" and may: "chan_may P e w ch" and own: "still w 0 \<noteq> None" "still w 1 \<noteq> None"
    and run: "\<And>p. run = Some p \<Longrightarrow> still w p \<noteq> None"
  shows "returns (chan_do P self e ch w) (\<lambda>w'. world_ok w' run \<and> still w' 0 = still w 0 \<and> still w' 1 = still w 1 \<and>
    (\<forall>p \<in> reg w. p \<in> reg w' \<or> ch = OpRemove p) \<and> (\<forall>p. run = Some p \<longrightarrow> still w' p \<noteq> None))"
proof -
  have ok: "ok w" using w by (simp add: world_ok_def)
  show ?thesis
  proof (cases ch)
    case (OpNew fd p)
    with may have p: "heap w p = None" "0 \<le> fd" by simp_all
    then have new: "still w p = None" by (simp add: still_def)
    with run have "run \<noteq> Some p" by blast
    moreover have "p \<noteq> 0" "p \<noteq> 1" using new own by (metis)+
    ultimately show ?thesis using OpNew new_world [OF w p, of "Channel_new fd"] run by (auto simp: Channel_new_def)
  next
    case (OpCallback g p)
    with may obtain c where c: "heap w p = Some c" "1 < p" "is_setter g" by auto
    from c(3) have "ch_known (g c) = ch_known c" "ch_addedToLoop (g c) = ch_addedToLoop c" "ch_eventHandling (g c) = ch_eventHandling c"
      by (auto simp: is_setter_def ch_known_def setReadCallback_def setWriteCallback_def setCloseCallback_def setErrorCallback_def
          doNotLogHup_def tie_def)
    from touch_world [OF w c(1) this(1,2), of run] worldD(3) [OF w c(1)] this(3) OpCallback c run show ?thesis by auto
  next
    case (OpEvents f p)
    with may obtain c where c: "heap w p = Some c" "1 < p" "io_mask (f (ch_events c))" and
      cond: "ch_addedToLoop c \<or> ch_index c = -1 \<and> f (ch_events c) \<noteq> 0 \<and> map_find (ch_fd c) (le_channels P w) = None"
      by (auto simp: at_chan_def split: option.splits)
    from cond have "p \<in> reg w \<or> fresh c \<and> f (ch_events c) \<noteq> 0 \<and> (\<forall>q d. q \<in> reg w \<longrightarrow> heap w q = Some d \<longrightarrow> ch_fd d \<noteq> ch_fd c)"
      using worldD(2) [OF w c(1)] fresh_new has [OF ok] by (metis option.distinct(1))
    from set_world [of w run p c f, OF w c(1,3) this, of self] OpEvents c run show ?thesis by (auto elim!: returns_mono)
  next
    case (OpRemove p)
    with may obtain c where c: "heap w p = Some c" "1 < p" "ch_addedToLoop c" "ch_events c = 0" and
      act: "el_eventHandling e \<longrightarrow> el_currentActiveChannel e = Some p \<or> p \<notin> set (el_activeChannels e)"
      by (auto simp: at_chan_def split: option.splits)
    have "p \<in> reg w" using worldD(2) [OF w c(1)] c(3) by simp
    from remove_world [OF w c(1) this c(4) act, of self] OpRemove c run show ?thesis by (auto elim!: returns_mono)
  next
    case (OpDelete p)
    with may obtain c where c: "heap w p = Some c" "1 < p" "\<not> ch_addedToLoop c" "\<not> ch_eventHandling c"
      by (auto simp: at_chan_def split: option.splits)
    have "p \<notin> reg w" "run \<noteq> Some p" using worldD [OF w c(1)] c(3,4) by simp_all
    from delete_world [OF w c(1) this, of self] OpDelete c run \<open>run \<noteq> Some p\<close> show ?thesis by (auto elim!: returns_mono split: if_splits)
  qed
qed

text \<open>The channels of the loop come and go.\<close>

lemma attach_world:
  assumes w: "world_ok w None" and "heap w p = None" and "0 \<le> fd" and "\<forall>q d. q \<in> reg w \<longrightarrow> heap w q = Some d \<longrightarrow> ch_fd d \<noteq> fd"
  shows "returns (loop_update P self reading_on p (put_chan p (setReadCallback (Channel_new fd)) w))
    (\<lambda>w'. world_ok w' None \<and> reg w' = insert p (reg w) \<and> own w' p fd \<and> (\<forall>q. q \<noteq> p \<longrightarrow> still w' q = still w q))"
proof -
  let ?c = "setReadCallback (Channel_new fd)"
  let ?w = "put_chan p ?c w"
  have c: "ch_fd ?c = fd" "ch_events ?c = 0" "ch_index ?c = -1" "\<not> ch_addedToLoop ?c" "\<not> ch_eventHandling ?c" "\<not> ch_tied ?c"
    by (simp_all add: setReadCallback_def Channel_new_def)
  from new_world [OF w assms(2,3), of ?c] c have w1: "world_ok ?w None" "reg ?w = reg w" by auto
  have kr: "kReadEvent \<noteq> 0" by (simp add: kReadEvent_def poll_bits)
  have alive: "p \<notin> reg w" using reg_alive [of w p] w assms(2) by (auto simp: world_ok_def)
  have fresh: "fresh ?c" by (rule fresh_new) (rule c(3))
  have "returns (loop_update P self reading_on p ?w) (\<lambda>w'. world_ok w' None \<and> reg w' = insert p (reg ?w) \<and>
      still w' = (still ?w)(p := Some (ch_still (?c\<lparr>ch_events := reading_on (ch_events ?c), ch_addedToLoop := True\<rparr>))))"
  proof (rule set_world [OF w1(1)])
    show "heap ?w p = Some ?c" by simp
    show "io_mask (reading_on (ch_events ?c))" by (simp add: c)
    show "p \<in> reg ?w \<or> fresh ?c \<and> reading_on (ch_events ?c) \<noteq> 0 \<and>
        (\<forall>q d. q \<in> reg ?w \<longrightarrow> heap ?w q = Some d \<longrightarrow> ch_fd d \<noteq> ch_fd ?c)"
      using fresh assms(4) alive kr w1(2) by (auto simp: c)
  qed
  then show ?thesis by (rule returns_mono) (auto simp: w1 own_def c)
qed

lemma detach_world:
  assumes w: "world_ok w None" and own: "own w p fd" and "\<not> el_eventHandling e"
  shows "returns (bind_r (loop_detach P self e p w) (loop_delete P self p))
    (\<lambda>w'. world_ok w' None \<and> reg w' = reg w - {p} \<and> still w' = (still w)(p := None))"
proof -
  from own obtain c where c: "heap w p = Some c" "ch_addedToLoop c" by (auto simp: own_def elim: still_SomeE)
  then have reg: "p \<in> reg w" using worldD(2) [OF w] by simp
  from set_world [OF w c(1), of "\<lambda>_. kNoneEvent" self] reg obtain w1 where
    w1: "loop_update P self (\<lambda>_. kNoneEvent) p w = Inr w1" "world_ok w1 None" "reg w1 = reg w"
      "still w1 = (still w)(p := Some (ch_still (c\<lparr>ch_events := kNoneEvent, ch_addedToLoop := True\<rparr>)))"
    by (auto simp: kNoneEvent_def insert_absorb elim!: returnsE)
  from w1(4) obtain c1 where c1: "heap w1 p = Some c1" "ch_still c1 = ch_still (c\<lparr>ch_events := kNoneEvent, ch_addedToLoop := True\<rparr>)"
    by (metis still_SomeE fun_upd_same)
  from c1(2) have ev: "ch_events c1 = 0" by (metis ch_still_simps(2) kNoneEvent_def channel.simps(2) channel.surjective channel.update_convs(2,9))
  from remove_world [OF w1(2) c1(1) _ ev, of e self] reg w1(3) assms(3) obtain w2 where
    w2: "loop_remove P self e p w1 = Inr w2" "world_ok w2 None" "reg w2 = reg w - {p}"
      "still w2 = (still w1)(p := Some (ch_still (c1\<lparr>ch_addedToLoop := False\<rparr>)))"
    by (auto elim!: returnsE)
  from w2(4) obtain c2 where c2: "heap w2 p = Some c2" by (metis still_SomeE fun_upd_same)
  from delete_world [OF w2(2) c2, of self] w2(3) obtain w3 where
    w3: "loop_delete P self p w2 = Inr w3" "world_ok w3 None" "reg w3 = reg w - {p}" "still w3 = (still w2)(p := None)"
    by (auto elim!: returnsE)
  have "still w3 = (still w)(p := None)" unfolding w3(4) w2(4) w1(4) by simp
  with w1(1) w2(1) w3 show ?thesis by (simp add: loop_detach_def)
qed


text \<open>The invariant: the active channels that are still to be handled are registered, so they are alive.\<close>

definition life :: "'a chan_world_scheme loop_obj \<Rightarrow> bool" where
  "life s \<longleftrightarrow> (let w = lo_world s; e = lo_loop s; run = lo_running s in
     world_ok w run \<and> el_reachable e \<and> own w 0 (lo_wakeupFd s) \<and> own w 1 (lo_timerfd s) \<and>
     (\<forall>p. run = Some p \<longrightarrow> el_pc e = Handling \<and> el_currentActiveChannel e = Some p \<and> still w p \<noteq> None) \<and>
     (el_pc e = Handling \<longrightarrow> set (el_todo e) \<subseteq> reg w \<and> distinct (el_todo e) \<and>
        (\<forall>p. el_currentActiveChannel e = Some p \<longrightarrow> p \<notin> set (el_todo e))) \<and>
     tq_ok {} (lo_timers s) \<and> held {} (lo_timers s))"

lemmas life_simps = life_def Let_def

lemma own_alive: "own w p fd \<Longrightarrow> still w p \<noteq> None"
  by (auto simp: own_def)

lemma own_still: "still w' p = still w p \<Longrightarrow> own w' p fd = own w p fd"
  by (simp add: own_def)

lemma lifeD:
  assumes "life s"
  shows "world_ok (lo_world s) (lo_running s)" "el_reachable (lo_loop s)" "own (lo_world s) 0 (lo_wakeupFd s)" "own (lo_world s) 1 (lo_timerfd s)"
    "tq_ok {} (lo_timers s)" "held {} (lo_timers s)" "el_flags (lo_loop s)"
  using assms reachable_invariants [of "lo_loop s"] by (simp_all add: life_simps)

lemma quiet_current: "el_step e e' \<Longrightarrow> loop_quiet e e' \<Longrightarrow> el_pc e = Handling \<Longrightarrow> el_currentActiveChannel e' = el_currentActiveChannel e"
proof (induction rule: el_step.induct)
  case (operation e a code body)
  show ?case by (cases a) (simp_all add: el_push_def el_wakeup_def Let_def)
qed (auto simp: loop_quiet_def el_push_def el_wakeup_def el_handleRead_def)

lemma reach_step: "el_reachable e \<Longrightarrow> el_step e e' \<Longrightarrow> el_reachable e'"
  by (rule rtranclp.rtrancl_into_rtrancl)

lemma life_loop:
  assumes life: "life s" and st: "el_step (lo_loop s) e" and quiet_: "loop_quiet (lo_loop s) e"
  shows "life (s\<lparr>lo_loop := e\<rparr>)"
proof -
  have "el_reachable e" by (rule reach_step [OF lifeD(2) [OF life] st])
  with life quiet_current [OF st quiet_] quiet_ show ?thesis
    by (cases "el_pc (lo_loop s) = Handling") (auto simp: life_simps loop_quiet_def)
qed

lemma life_poll:
  assumes life: "life s" and may: "loop_may P fair (LaPoll k) s"
  shows "returns (loop_do P self (LaPoll k) s) life"
proof -
  note w = lifeD(1) [OF life] and fl = lifeD(7) [OF life]
  have pc: "el_pc (lo_loop s) = Poll" and fair: "fair k (lo_world s)" using may by simp_all
  have run: "lo_running s = None" using life pc by (auto simp: life_simps)
  have ok: "ok (lo_world s)" using w by (simp add: world_ok_def)
  from poll_law [OF ok fair] obtain act w' where
    w': "le_poll P k (lo_world s) = Inr (act, w')" "ok w'" "reg w' = reg (lo_world s)" "still w' = still (lo_world s)" "distinct act"
      "set act \<subseteq> reg (lo_world s)" by (auto elim!: returnsE)
  let ?e = "(lo_loop s)\<lparr>el_activeChannels := act, el_iteration := el_iteration (lo_loop s) + 1, el_eventHandling := True,
      el_todo := act, el_pc := Handling\<rparr>"
  have "el_step (lo_loop s) ?e" by (rule polled [OF pc]) (use may w'(1) in auto)
  then have e: "el_reachable ?e" by (rule reach_step [OF lifeD(2) [OF life]])
  have cur: "el_currentActiveChannel (lo_loop s) = None" using fl pc by (auto simp: el_flags_def)
  have "world_ok w' (lo_running s)" using w w' by (simp add: world_ok_def)
  with life e w' run cur show ?thesis by (simp add: life_simps own_def)
qed

lemma life_enter:
  assumes life: "life s" and may: "loop_may P fair (LaEnter locked code) s"
  shows "returns (loop_enter locked code s) life"
proof -
  note w = lifeD(1) [OF life]
  have pc: "el_pc (lo_loop s) = Handling" "el_code (lo_loop s) = []" and run: "lo_running s = None" using may by simp_all
  from may obtain p ps where todo: "el_todo (lo_loop s) = p # ps" by (auto simp: neq_Nil_conv)
  have reg: "p \<in> reg (lo_world s)" "set ps \<subseteq> reg (lo_world s)" "p \<notin> set ps" "distinct ps" using life pc todo by (auto simp: life_simps)
  have ok: "ok (lo_world s)" using w by (simp add: world_ok_def)
  from reg_alive [OF ok reg(1)] obtain c where c: "heap (lo_world s) p = Some c" by blast
  let ?e = "(lo_loop s)\<lparr>el_currentActiveChannel := Some p, el_todo := ps\<rparr>"
  have other: "el_reachable (?e\<lparr>el_code := code'\<rparr>)" if "p \<noteq> 0" for code'
    by (rule reach_step [OF lifeD(2) [OF life]]) (rule handle_other [OF pc todo that])
  show ?thesis
  proof (cases "ch_tied c \<and> \<not> locked")
    case True
    have "p \<noteq> 0"
    proof
      assume "p = 0"
      with still_heap [OF c] lifeD(3) [OF life] True show False by (auto simp: own_def)
    qed
    moreover have "?e\<lparr>el_code := []\<rparr> = ?e" using pc(2) by (cases "lo_loop s") simp
    ultimately have "el_reachable ?e" using other [of "[]"] by simp
    with True c todo life reg run show ?thesis by (simp add: loop_enter_def life_simps)
  next
    case False
    let ?w = "put_chan p (c\<lparr>ch_eventHandling := True\<rparr>) (lo_world s)"
    have w': "world_ok ?w (Some p) \<and> reg ?w = reg (lo_world s)"
      by (rule touch_world [OF w c]) (simp_all add: ch_known_def run)
    have own: "own ?w q fd" if "own (lo_world s) q fd" for q fd
      using that still_heap [OF c] by (auto simp: own_def)
    let ?e' = "if p = 0 then el_handleRead ?e else ?e\<lparr>el_code := code\<rparr>"
    have "el_reachable ?e'"
    proof (cases "p = 0")
      case True
      with handle_wakeup [OF pc] todo have "el_step (lo_loop s) (el_handleRead ?e)" by simp
      with True show ?thesis using reach_step [OF lifeD(2) [OF life]] by simp
    qed (simp add: other)
    moreover have "loop_enter locked code s = Inr (s\<lparr>lo_world := ?w, lo_running := Some p, lo_loop := ?e'\<rparr>)"
      using False c todo by (auto simp: loop_enter_def Let_def)
    ultimately show ?thesis using w' own life pc reg by (auto simp: life_simps el_handleRead_def)
  qed
qed

lemma life_leave:
  assumes life: "life s" and may: "loop_may P fair LaLeave s"
  shows "returns (loop_leave s) life"
proof -
  note w = lifeD(1) [OF life]
  from may obtain p where run: "lo_running s = Some p" by auto
  with life obtain c where c: "heap (lo_world s) p = Some c" by (auto simp: life_simps still_def)
  let ?w = "put_chan p (c\<lparr>ch_eventHandling := False\<rparr>) (lo_world s)"
  have w': "world_ok ?w None \<and> reg ?w = reg (lo_world s)"
    by (rule touch_world [OF w c]) (simp_all add: ch_known_def run)
  have "own ?w q fd" if "own (lo_world s) q fd" for q fd
    using that still_heap [OF c] by (auto simp: own_def)
  with w' life run c show ?thesis by (auto simp: life_simps loop_leave_def)
qed

lemma life_finish:
  assumes life: "life s" and may: "loop_may P fair LaFinish s"
  shows "returns (loop_do P self LaFinish s) life"
proof -
  let ?e = "(lo_loop s)\<lparr>el_currentActiveChannel := None, el_eventHandling := False, el_callingPendingFunctors := True, el_pc := Swap\<rparr>"
  have "el_step (lo_loop s) ?e" by (rule handled) (use may in simp_all)
  then have "el_reachable ?e" by (rule reach_step [OF lifeD(2) [OF life]])
  with life may show ?thesis by (simp add: life_simps)
qed

lemma life_chan:
  assumes life: "life s" and may: "loop_may P fair (LaChan ch) s"
  shows "returns (loop_do P self (LaChan ch) s) life"
proof -
  let ?w = "lo_world s" and ?e = "lo_loop s"
  note w = lifeD(1) [OF life] and fl = lifeD(7) [OF life]
  have m: "chan_may P ?e ?w ch" using may by simp
  have run: "still ?w p \<noteq> None" if "lo_running s = Some p" for p using life that by (simp add: life_simps)
  from chan_world [OF w m own_alive [OF lifeD(3) [OF life]] own_alive [OF lifeD(4) [OF life]] run, of self]
  obtain w' where w': "chan_do P self ?e ch ?w = Inr w'" "world_ok w' (lo_running s)" "still w' 0 = still ?w 0" "still w' 1 = still ?w 1"
    "\<forall>p \<in> reg ?w. p \<in> reg w' \<or> ch = OpRemove p" "\<forall>p. lo_running s = Some p \<longrightarrow> still w' p \<noteq> None"
    by (auto elim!: returnsE)
  have "set (el_todo ?e) \<subseteq> reg w'" if pc: "el_pc ?e = Handling"
  proof
    fix p assume p: "p \<in> set (el_todo ?e)"
    then have reg: "p \<in> reg ?w" and cur: "el_currentActiveChannel ?e \<noteq> Some p" using life pc by (auto simp: life_simps)
    have act: "p \<in> set (el_activeChannels ?e)" "el_eventHandling ?e" using fl pc p by (auto simp: el_flags_def)
    have "ch \<noteq> OpRemove p" using m cur act by auto
    with w'(5) reg show "p \<in> reg w'" by blast
  qed
  with w' life own_still [OF w'(3)] own_still [OF w'(4)] show ?thesis by (auto simp: life_simps)
qed

lemma life_step:
  assumes life: "life s" and alloc: "alloc_ok (le_alloc P)" and may: "loop_may P fair a s"
  shows "unless_oom (loop_do P self a s) life"
proof (cases a)
  case (LaTimers t)
  have valid: "wakeup_valid t" using may LaTimers by (cases t) auto
  note tq = lifeD(5,6) [OF life]
  show ?thesis
  proof (cases "timer_step (le_alloc P) (le_body P) t (lo_timers s)")
    case (Inl e)
    with timer_step_ok [OF tq(1) alloc valid, of "le_body P"] LaTimers show ?thesis by (cases t) (simp_all add: readTimerfd_def)
  next
    case (Inr q)
    have "tq_ok {} q" "held {} q"
      using timer_step_ok [OF tq(1) alloc valid, of "le_body P"] timer_step_held [OF tq(1) alloc valid tq(2) Inr] Inr by simp_all
    moreover have "lo_timers (case t of UserOp _ _ \<Rightarrow> s | timer_event.Wakeup _ _ \<Rightarrow> readTimerfd s) = lo_timers s"
      by (cases t) (simp_all add: readTimerfd_def)
    ultimately show ?thesis using Inr LaTimers life by (cases t) (simp_all add: life_simps readTimerfd_def)
  qed
next
  case LaTick
  with life show ?thesis by (simp add: life_simps)
qed (use may life_loop [OF life] life_poll [OF life] life_enter [OF life] life_leave [OF life] life_finish [OF life] life_chan [OF life]
    in \<open>auto intro: returns_unless_oom simp del: loop_may.simps(2-6) loop_do.simps(2,5,6)\<close>)


text \<open>A poller that has just been made.\<close>

definition new_poller :: "'a chan_world_scheme \<Rightarrow> bool" where
  "new_poller w \<longleftrightarrow> ok w \<and> reg w = {} \<and> (\<forall>p. heap w p = None)"

lemma create_life:
  assumes new: "new_poller w" and fds: "0 \<le> evtfd" "0 \<le> timerfd" "evtfd \<noteq> timerfd"
  shows "returns (EventLoop_create P self evtfd timerfd None w) (\<lambda>(here, s). here = Some self \<and> life s \<and>
    lo_wakeupFd s = evtfd \<and> lo_timerfd s = timerfd \<and>
    watched (lo_world s) = {(evtfd, 0, kReadEvent), (timerfd, 1, kReadEvent)} \<and> (\<forall>q > 1. heap (lo_world s) q = None))"
proof -
  have w: "world_ok w None" using new by (auto simp: new_poller_def world_ok_def still_def)
  have none: "heap w 1 = None" "reg w = {}" using new by (auto simp: new_poller_def)
  from attach_world [OF w none(1) fds(2), of self] none(2) obtain w1 where
    w1: "loop_update P self reading_on 1 (put_chan 1 (setReadCallback (Channel_new timerfd)) w) = Inr w1" "world_ok w1 None"
      "reg w1 = {1}" "own w1 1 timerfd" "\<forall>q. q \<noteq> 1 \<longrightarrow> still w1 q = still w q" by (auto elim!: returnsE)
  have free: "heap w1 0 = None"
  proof -
    have "still w1 0 = still w 0" using w1(5) by simp
    then show ?thesis using new by (simp add: still_def new_poller_def)
  qed
  have other: "\<forall>q d. q \<in> reg w1 \<longrightarrow> heap w1 q = Some d \<longrightarrow> ch_fd d \<noteq> evtfd"
    using w1(3,4) fds(3) still_heap [of w1 1] by (auto simp: own_def)
  from attach_world [OF w1(2) free fds(1) other, of self] obtain w2 where
    w2: "loop_update P self reading_on 0 (put_chan 0 (setReadCallback (Channel_new evtfd)) w1) = Inr w2" "world_ok w2 None"
      "reg w2 = {0, 1}" "own w2 0 evtfd" "\<forall>q. q \<noteq> 0 \<longrightarrow> still w2 q = still w1 q" by (auto simp: w1(3) elim!: returnsE)
  have own1: "own w2 1 timerfd" using w1(4) w2(5) by (simp add: own_def)
  let ?s = "\<lparr>lo_world = w2, lo_loop = EventLoop_new, lo_running = None, lo_wakeupFd = evtfd, lo_timerfd = timerfd, lo_timers = TimerQueue_new, lo_ticks = 0\<rparr>"
  have "held {} TimerQueue_new" by (simp add: held_def TimerQueue_new_def)
  then have life: "life ?s" using w2(2,4) own1 TimerQueue_new_ok by (simp add: life_simps EventLoop_new_def)
  from w2(4) own1 obtain a b where ab: "heap w2 0 = Some a" "ch_fd a = evtfd" "ch_events a = kReadEvent"
    "heap w2 1 = Some b" "ch_fd b = timerfd" "ch_events b = kReadEvent" by (auto simp: own_def elim!: still_SomeE)
  have "kReadEvent \<noteq> 0" by (simp add: kReadEvent_def poll_bits)
  then have "watched w2 = {(evtfd, 0, kReadEvent), (timerfd, 1, kReadEvent)}"
    using watched_law [of w2] w2(2,3) ab by (auto simp: world_ok_def)
  moreover have "heap w2 q = None" if "1 < q" for q
  proof -
    have "still w2 q = still w q" using that w1(5) w2(5) by simp
    then show ?thesis using new by (simp add: still_def new_poller_def)
  qed
  ultimately show ?thesis using life w1(1) w2(1) fds by (simp add: EventLoop_create_def TimerQueue_create_def createTimerfd_def createEventfd_def)
qed

lemma create_bad_fd:
  assumes "EventLoop_create P self evtfd timerfd here w = Inr r"
  shows "0 \<le> evtfd" and "0 \<le> timerfd" and "here = None"
  using assms by (auto simp: EventLoop_create_def TimerQueue_create_def createTimerfd_def createEventfd_def bind_r_eq_Inr split: if_splits)

lemma reach_life:
  assumes "new_poller w0" and "alloc_ok (le_alloc P)"
  shows "loop_reach P fair self w0 s \<Longrightarrow> life s"
proof (induction rule: loop_reach.induct)
  case (constructed evtfd timerfd here s)
  from create_life [OF assms(1) create_bad_fd(1,2) [OF constructed(1)] constructed(2), of self] constructed(1) show ?case by simp
next
  case (happens s a s')
  from unless_oom_Inr [OF life_step [OF happens.IH assms(2) happens.hyps(2)] happens.hyps(3)] show ?case .
qed

lemma still_view: "still w' q = still w q \<Longrightarrow>
    (\<exists>c. heap w' q = Some c \<and> ch_fd c = fd \<and> ch_events c = ev) \<longleftrightarrow> (\<exists>c. heap w q = Some c \<and> ch_fd c = fd \<and> ch_events c = ev)"
  by (cases "heap w' q"; cases "heap w q") (auto simp: still_def dest: arg_cong [of _ _ ch_fd] arg_cong [of _ _ ch_events])

lemma delete_life:
  assumes life: "life s" and pc: "el_pc (lo_loop s) = NotLooping"
  shows "returns (EventLoop_delete P self s) (\<lambda>(here, fds, q, w). here = None \<and> fds = [lo_wakeupFd s, lo_timerfd s] \<and>
    (\<forall>p. t_heap q p = None) \<and> heap w 0 = None \<and> heap w 1 = None \<and> watched w = {x \<in> watched (lo_world s). 1 < fst (snd x)})"
proof -
  let ?w = "lo_world s"
  have run: "lo_running s = None" using life pc by (auto simp: life_simps)
  then have w: "world_ok ?w None" using lifeD(1) [OF life] by simp
  have nh: "\<not> el_eventHandling (lo_loop s)" using lifeD(7) [OF life] pc by (simp add: el_flags_def)
  note d = detach_world [OF _ _ nh]
  from d [OF w lifeD(3) [OF life], of self] obtain w1 w1' where
    w1: "loop_detach P self (lo_loop s) 0 ?w = Inr w1'" "loop_delete P self 0 w1' = Inr w1" "world_ok w1 None" "reg w1 = reg ?w - {0}"
      "still w1 = (still ?w)(0 := None)" by (auto simp: returns_Inr bind_r_eq_Inr)
  have "own w1 1 (lo_timerfd s)" using lifeD(4) [OF life] w1(5) by (simp add: own_def)
  from d [OF w1(3) this, of self] obtain w2 w2' where
    w2: "loop_detach P self (lo_loop s) 1 w1 = Inr w2'" "loop_delete P self 1 w2' = Inr w2" "world_ok w2 None" "reg w2 = reg w1 - {1}"
      "still w2 = (still w1)(1 := None)" by (auto simp: returns_Inr bind_r_eq_Inr)
  have gone: "heap w2 0 = None" "heap w2 1 = None"
  proof -
    have "still w2 0 = None" "still w2 1 = None" by (simp_all add: w2(5) w1(5))
    then show "heap w2 0 = None" "heap w2 1 = None" by (simp_all add: still_def)
  qed
  have "(fd, q, ev) \<in> watched w2 \<longleftrightarrow> (fd, q, ev) \<in> watched ?w \<and> 1 < q" for fd q ev
  proof (cases "1 < q")
    case True
    then have "still w2 q = still ?w q" by (simp add: w2(5) w1(5))
    from still_view [OF this, of fd ev] True show ?thesis
      using watched_law [of w2] watched_law [of ?w] w w2(3) by (auto simp: world_ok_def w2(4) w1(4))
  next
    case False
    then have "q = 0 \<or> q = 1" by auto
    then have "q \<notin> reg w2" by (auto simp: w2(4) w1(4))
    with False watched_law [of w2] w2(3) show ?thesis by (auto simp: world_ok_def)
  qed
  then have "watched w2 = {x \<in> watched ?w. 1 < fst (snd x)}" by auto
  with w1(1,2) w2(1,2) gone destroy_frees_all [OF lifeD(6) [OF life]] show ?thesis
    by (simp add: EventLoop_delete_def TimerQueue_delete_def)
qed

end


section \<open>The epoll poller\<close>

text \<open>What \<^verbatim>\<open>epoll_wait\<close> promises: registered pointers, each once, and no more of them than there is room for.\<close>

definition epoll_fair :: "(nat \<Rightarrow> int + (32 word \<times> nat) list) \<Rightarrow> epoll \<Rightarrow> bool" where
  "epoll_fair wait w =
     (case wait (ep_list_size w) of
        Inl _ \<Rightarrow> True
      | Inr es \<Rightarrow> length es \<le> ep_list_size w \<and> distinct (map snd es) \<and>
          (\<forall>(ev, p) \<in> set es. \<exists>fd m. interest (ep_ctl w) fd = Some (p, m)))"

lemma still_same: "heap w p = Some c \<Longrightarrow> ch_still c' = ch_still c \<Longrightarrow> (still w)(p := Some (ch_still c')) = still w"
  by (auto simp: still_def)

lemma still_extra:
  "still (w\<lparr>ep_channels := m\<rparr>) = still w" "still (w\<lparr>ep_list_size := n\<rparr>) = still w" "still (w\<lparr>ep_ctl := l\<rparr>) = still w"
  by (auto simp: still_def)

lemma epoll_fill_still: "epoll_fillActiveChannels es w = Inr (act, w') \<Longrightarrow> still w' = still w"
proof (induction es w arbitrary: act rule: epoll_fillActiveChannels.induct)
  case (2 evs p es s)
  then obtain c act' where c: "heap s p = Some c" "epoll_fillActiveChannels es (put_chan p (set_revents evs c) s) = Inr (act', w')"
    and find: "map_find (ch_fd c) (ep_channels s) \<noteq> None" "map_find (ch_fd c) (ep_channels s) = Some p"
    by (auto simp: deref_def ensure_eq_Inr bind_r_eq_Inr split: option.splits)
  from 2(1) [OF c(2)] c(1) show ?case by (simp add: still_same)
qed simp

lemma epoll_update_still: "epoll_update ctl oper p w = Inr w' \<Longrightarrow> still w' = still w"
  by (auto simp: epoll_update_def deref_def Let_def still_extra split: option.splits if_splits)

lemma epoll_set_still:
  assumes "channel_set (epoll_updateChannel ctl) f p w = Inr w'" and "heap w p = Some c"
  shows "still w' = (still w)(p := Some (ch_still (c\<lparr>ch_events := f (ch_events c), ch_addedToLoop := True\<rparr>)))"
  using assms
  by (auto simp: channel_set_def epoll_updateChannel_def assertInLoopThread_def Let_def bind_r_eq_Inr ensure_eq_Inr still_extra
      dest!: epoll_update_still split: if_splits)

lemma epoll_remove_still:
  assumes "channel_remove (epoll_removeChannel ctl) p w = Inr w'" and "heap w p = Some c"
  shows "still w' = (still w)(p := Some (ch_still (c\<lparr>ch_addedToLoop := False\<rparr>)))"
  using assms
  by (auto simp: channel_remove_def epoll_removeChannel_def assertInLoopThread_def Let_def bind_r_eq_Inr ensure_eq_Inr still_extra
      dest!: epoll_update_still split: if_splits)

lemma ep_frame:
  assumes ok: "ep_ok w" and "\<And>q. q \<in> ep_reg w \<Longrightarrow> map_option ch_known (h q) = map_option ch_known (heap w q)"
  shows "ep_ok (w\<lparr>heap := h\<rparr>) \<and> ep_reg (w\<lparr>heap := h\<rparr>) = ep_reg w"
proof -
  have "ep_entry_ok (w\<lparr>heap := h\<rparr>) fd p" if find: "map_find fd (ep_channels w) = Some p" for fd p
  proof -
    have "p \<in> ep_reg w" unfolding ep_reg_def using find by (rule registeredI)
    from assms(2) [OF this] have "map_option ch_known (h p) = map_option ch_known (heap w p)" .
    moreover have "ep_entry_ok w fd p" using ok find by (simp add: ep_ok_def)
    ultimately show ?thesis by (auto simp: ep_entry_ok_def ch_known_def)
  qed
  with ok show ?thesis by (simp add: ep_ok_def ep_reg_def)
qed

lemma epoll_poll_law:
  assumes ok: "ep_ok w" and fair: "epoll_fair k w"
  shows "returns (epoll_poll k w) (\<lambda>(act, w'). ep_ok w' \<and> ep_reg w' = ep_reg w \<and> still w' = still w \<and> distinct act \<and> set act \<subseteq> ep_reg w)"
proof (cases "k (ep_list_size w)")
  case (Inl e)
  with ok show ?thesis by (simp add: epoll_poll_def)
next
  case (Inr es)
  have reg: "p \<in> ep_reg w" if "(ev, p) \<in> set es" for ev p
  proof -
    from fair Inr that obtain fd m where "interest (ep_ctl w) fd = Some (p, m)" by (auto simp: epoll_fair_def)
    then have "map_find fd (ep_channels w) = Some p"
      using ok ep_okD [OF ok, of fd] by (cases "map_find fd (ep_channels w)") (fastforce simp: ep_ok_def)+
    then show ?thesis unfolding ep_reg_def by (rule registeredI)
  qed
  have size: "ep_ok (v\<lparr>ep_list_size := n\<rparr>) = ep_ok v" "ep_reg (v\<lparr>ep_list_size := n\<rparr>) = ep_reg v" for v n
    by (simp_all add: ep_ok_def ep_entry_ok_def ep_reg_def)
  from fill_active [OF ok, of es] reg obtain w1 where
    w1: "epoll_fillActiveChannels es w = Inr (map snd es, w1)" "ep_ok w1" "ep_reg w1 = ep_reg w" by (auto elim!: returnsE)
  have "set (map snd es) \<subseteq> ep_reg w" using reg by auto
  with w1 epoll_fill_still [OF w1(1)] fair Inr ok show ?thesis
    by (auto simp: epoll_poll_def epoll_fair_def size still_extra)
qed

lemma epoll_loop:
  assumes "epoll_kernel ctl"
  shows "loop_poller (epoll_env ctl alloc body) ep_ok ep_reg ep_fresh ep_watched epoll_fair"
proof -
  have env: "le_update (epoll_env ctl alloc body) = epoll_updateChannel ctl" "le_remove (epoll_env ctl alloc body) = epoll_removeChannel ctl"
    "le_channels (epoll_env ctl alloc body) = ep_channels" "le_poll (epoll_env ctl alloc body) = epoll_poll"
    by (simp_all add: epoll_env_def)
  show ?thesis
  proof (intro loop_poller.intro loop_poller_axioms.intro)
    show "demux ep_ok heap ep_reg ep_fresh ep_watched (channel_set (le_update (epoll_env ctl alloc body)))
        (channel_remove (le_remove (epoll_env ctl alloc body)))"
      unfolding env by unfold_locales
        (rule ep_watched_char epoll_kernel.ep_set_law [OF assms] epoll_kernel.ep_remove_law [OF assms]; assumption)+
    show "in_loop w" if "ep_ok w" for w using that by (simp add: ep_ok_def)
    show "heap w p \<noteq> None" if "ep_ok w" "p \<in> ep_reg w" for w p using that by (auto simp: ep_reg_def elim!: registeredE ep_okD)
    show "map_find (ch_fd c) (le_channels (epoll_env ctl alloc body) w) = Some p \<longleftrightarrow> p \<in> ep_reg w" if "ep_ok w" "heap w p = Some c" for w p c
      unfolding env using ep_reg_unique [OF that(1) _ that(2)] by (auto simp: ep_reg_def intro: registeredI)
    show "ep_fresh c" if "ch_index c = -1" for c using that by (simp add: ep_fresh_def kNew_def)
    show "ep_ok (w\<lparr>heap := h\<rparr>) \<and> ep_reg (w\<lparr>heap := h\<rparr>) = ep_reg w"
      if "ep_ok w" "\<And>q. q \<in> ep_reg w \<Longrightarrow> map_option ch_known (h q) = map_option ch_known (heap w q)" for w h
      by (rule ep_frame [OF that])
  qed (unfold env, (erule (1) epoll_set_still epoll_remove_still epoll_poll_law)+)
qed

interpretation linux_loop: loop_poller "epoll_env ctl_wellformed alloc body" ep_ok ep_reg ep_fresh ep_watched epoll_fair for alloc body
  by (rule epoll_loop) unfold_locales


section \<open>The poll poller\<close>

text \<open>What \<^verbatim>\<open>poll\<close> promises: a mask for each element, none for a negative descriptor; no flag is the sign bit.\<close>

definition poll_fair :: "(pollfd list \<Rightarrow> int + (nat \<times> 16 word list)) \<Rightarrow> pollp \<Rightarrow> bool" where
  "poll_fair wait w =
     (case wait (pollfds w) of
        Inl _ \<Rightarrow> True
      | Inr (n, revs) \<Rightarrow> length revs = length (pollfds w) \<and>
          list_all2 (\<lambda>pfd r. 0 < sint r \<longrightarrow> 0 \<le> pfd_fd pfd) (pollfds w) revs)"

lemma still_pp: "still (w\<lparr>pp_channels := m\<rparr>) = still w" "still (w\<lparr>pollfds := fs\<rparr>) = still w"
  by (auto simp: still_def)

lemma poll_set_still:
  assumes "channel_set poll_updateChannel f p w = Inr w'" and "heap w p = Some c"
  shows "still w' = (still w)(p := Some (ch_still (c\<lparr>ch_events := f (ch_events c), ch_addedToLoop := True\<rparr>)))"
  using assms
  by (auto simp: channel_set_def poll_updateChannel_def assertInLoopThread_def Let_def ensure_eq_Inr still_pp split: if_splits)

lemma poll_remove_still:
  assumes "channel_remove poll_removeChannel p w = Inr w'" and "heap w p = Some c"
  shows "still w' = (still w)(p := Some (ch_still (c\<lparr>ch_addedToLoop := False\<rparr>)))"
  using assms
  by (auto simp: channel_remove_def poll_removeChannel_def assertInLoopThread_def Let_def ensure_eq_Inr deref_def still_pp still_def fun_eq_iff
      split: if_splits option.splits)

lemma pp_frame:
  assumes ok: "pp_ok w" and known: "\<And>q. q \<in> pp_reg w \<Longrightarrow> map_option ch_known (h q) = map_option ch_known (heap w q)"
  shows "pp_ok (w\<lparr>heap := h\<rparr>) \<and> pp_reg (w\<lparr>heap := h\<rparr>) = pp_reg w"
proof -
  have cell: "\<exists>c'. h p = Some c' \<and> ch_known c' = ch_known c" if "map_find fd (pp_channels w) = Some p" "heap w p = Some c" for fd p c
    using known [of p] that registeredI [OF that(1)] by (auto simp: pp_reg_def)
  have "pp_entry_ok (w\<lparr>heap := h\<rparr>) fd p" if find: "map_find fd (pp_channels w) = Some p" for fd p
  proof -
    from pp_okD [OF ok find] obtain c i where c: "heap w p = Some c" "ch_fd c = fd" "0 \<le> fd" "io_mask (ch_events c)"
      "i < length (pollfds w)" "ch_index c = int i" "pfd_matches (pollfds w ! i) c" .
    from cell [OF find c(1)] obtain c' where c': "h p = Some c'" "ch_known c' = ch_known c" by blast
    with c have "pfd_matches (pollfds w ! i) c'" by (simp add: pfd_matches_def ch_known_def)
    with c c' show ?thesis by (auto simp: pp_entry_ok_def ch_known_def)
  qed
  moreover have "\<exists>fd p c. map_find fd (pp_channels w) = Some p \<and> h p = Some c \<and> ch_index c = int i" if i: "i < length (pollfds w)" for i
  proof -
    from ok i obtain fd p c where "map_find fd (pp_channels w) = Some p" "heap w p = Some c" "ch_index c = int i" by (auto simp: pp_ok_def)
    with cell [of fd p c] show ?thesis by (auto simp: ch_known_def)
  qed
  ultimately show ?thesis using ok by (simp add: pp_ok_def pp_reg_def)
qed

text \<open>The descriptors of the array are different.\<close>

lemma pp_fds_differ:
  assumes ok: "pp_ok w"
  shows "sorted_wrt (\<lambda>a b. 0 \<le> pfd_fd a \<longrightarrow> pfd_fd a \<noteq> pfd_fd b) (pollfds w)"
  unfolding sorted_wrt_iff_nth_less
proof (intro allI impI notI)
  fix i j assume ij: "i < j" "j < length (pollfds w)" "0 \<le> pfd_fd (pollfds w ! i)" "pfd_fd (pollfds w ! i) = pfd_fd (pollfds w ! j)"
  from ij(1,2) have "i < length (pollfds w)" by simp
  from pp_slotE [OF ok this] obtain fd p c where p: "map_find fd (pp_channels w) = Some p" "heap w p = Some c" "ch_fd c = fd" "0 \<le> fd"
    "ch_index c = int i" "pfd_matches (pollfds w ! i) c" by metis
  from pp_slotE [OF ok ij(2)] obtain g q d where q: "map_find g (pp_channels w) = Some q" "heap w q = Some d" "ch_fd d = g" "0 \<le> g"
    "ch_index d = int j" "pfd_matches (pollfds w ! j) d" by metis
  have "fd = g" using p q ij(3,4) by (auto simp: pfd_matches_def split: if_splits)
  with p q have "int i = int j" by auto
  with ij(1) show False by simp
qed

lemma poll_fill_law:
  assumes "pp_ok w" and "\<forall>q \<in> set pfds. 0 < sint (pfd_revents q) \<longrightarrow> 0 \<le> pfd_fd q \<and> (\<exists>p. map_find (pfd_fd q) (pp_channels w) = Some p)"
    and "sorted_wrt (\<lambda>a b. 0 \<le> pfd_fd a \<longrightarrow> pfd_fd a \<noteq> pfd_fd b) pfds"
  shows "returns (poll_fillActiveChannels pfds n w) (\<lambda>(act, w'). pp_ok w' \<and> pp_reg w' = pp_reg w \<and> still w' = still w \<and> distinct act \<and>
    set act \<subseteq> {p. \<exists>q \<in> set pfds. map_find (pfd_fd q) (pp_channels w) = Some p})"
  using assms
proof (induction pfds n w rule: poll_fillActiveChannels.induct)
  case (2 pfd pfds n w)
  show ?case
  proof (cases "0 < n \<and> 0 < sint (pfd_revents pfd)")
    case False
    show ?thesis
    proof (cases "0 < n")
      case True
      with False have "\<not> 0 < sint (pfd_revents pfd)" by simp
      from 2(2) [OF True this 2(3)] True this 2(4,5) show ?thesis by (auto elim!: returns_mono)
    qed (use 2(3) in simp)
  next
    case True
    with 2(4) obtain p where fd: "0 \<le> pfd_fd pfd" and p: "map_find (pfd_fd pfd) (pp_channels w) = Some p" by auto
    from pp_okD [OF 2(3) p] obtain c where c: "heap w p = Some c" "ch_fd c = pfd_fd pfd" by metis
    let ?w = "put_chan p (set_revents (scast (pfd_revents pfd)) c) w"
    have w1: "pp_ok ?w \<and> pp_reg ?w = pp_reg w"
      unfolding put_chan_def by (rule pp_frame [OF 2(3)]) (use c in \<open>auto simp: ch_known_def set_revents_def\<close>)
    have st: "still ?w = still w" using c(1) by (simp add: still_same)
    have ch: "pp_channels ?w = pp_channels w" by simp
    have rest: "returns (poll_fillActiveChannels pfds (n - 1) ?w) (\<lambda>(act, w'). pp_ok w' \<and> pp_reg w' = pp_reg ?w \<and> still w' = still ?w \<and>
        distinct act \<and> set act \<subseteq> {p. \<exists>q \<in> set pfds. map_find (pfd_fd q) (pp_channels ?w) = Some p})"
      using True p 2(4,5) w1 by (intro 2(1)) auto
    have other: "p \<notin> {p. \<exists>q \<in> set pfds. map_find (pfd_fd q) (pp_channels w) = Some p}"
    proof
      assume "p \<in> {p. \<exists>q \<in> set pfds. map_find (pfd_fd q) (pp_channels w) = Some p}"
      then obtain q where q: "q \<in> set pfds" "map_find (pfd_fd q) (pp_channels w) = Some p" by blast
      have "pfd_fd q = pfd_fd pfd" using pp_fd_of [OF 2(3) q(2) c(1)] c(2) by simp
      with q(1) fd 2(5) show False by auto
    qed
    from rest obtain act w' where w': "poll_fillActiveChannels pfds (n - 1) ?w = Inr (act, w')" "pp_ok w'" "pp_reg w' = pp_reg w" "still w' = still w"
      "distinct act" "set act \<subseteq> {p. \<exists>q \<in> set pfds. map_find (pfd_fd q) (pp_channels w) = Some p}"
      unfolding st ch using w1 by (auto elim!: returnsE)
    have "p \<notin> set act" using w'(6) other by blast
    with True p c w' show ?thesis by auto
  qed
qed simp

lemma poll_poll_law:
  assumes ok: "pp_ok w" and fair: "poll_fair k w"
  shows "returns (poll_poll k w) (\<lambda>(act, w'). pp_ok w' \<and> pp_reg w' = pp_reg w \<and> still w' = still w \<and> distinct act \<and> set act \<subseteq> pp_reg w)"
proof (cases "k (pollfds w)")
  case (Inl e)
  with ok show ?thesis by (simp add: poll_poll_def)
next
  case (Inr nr)
  obtain n revs where nr: "nr = (n, revs)" by (cases nr)
  let ?fs = "map2 (\<lambda>pfd r. pfd\<lparr>pfd_revents := r\<rparr>) (pollfds w) revs"
  let ?w = "w\<lparr>pollfds := ?fs\<rparr>"
  have len: "length revs = length (pollfds w)" and pos: "list_all2 (\<lambda>pfd r. 0 < sint r \<longrightarrow> 0 \<le> pfd_fd pfd) (pollfds w) revs"
    using fair Inr nr by (simp_all add: poll_fair_def)
  have nth: "?fs ! i = (pollfds w ! i)\<lparr>pfd_revents := revs ! i\<rparr>" if "i < length (pollfds w)" for i using that len by simp
  have m: "pfd_matches (?fs ! i) c = pfd_matches (pollfds w ! i) c" if "i < length (pollfds w)" for i c
    using that by (simp add: nth pfd_matches_def)
  have ok': "pp_ok ?w"
  proof -
    have "pp_entry_ok ?w fd p" if find: "map_find fd (pp_channels w) = Some p" for fd p
    proof -
      from pp_okD [OF ok find] obtain c i where c: "heap w p = Some c" "ch_fd c = fd" "0 \<le> fd" "io_mask (ch_events c)"
        "i < length (pollfds w)" "ch_index c = int i" "pfd_matches (pollfds w ! i) c" .
      with m [OF c(5), of c] len show ?thesis unfolding pp_entry_ok_def by (intro exI [of _ c] exI [of _ i]) simp
    qed
    with ok len show ?thesis by (simp add: pp_ok_def)
  qed
  have known: "\<exists>p. map_find (pfd_fd q) (pp_channels w) = Some p" if q: "q \<in> set ?fs" "0 \<le> pfd_fd q" for q
  proof -
    from q(1) obtain i where i: "i < length (pollfds w)" "q = ?fs ! i" using len by (auto simp: in_set_conv_nth)
    from pp_slotE [OF ok i(1)] obtain fd p c where f: "map_find fd (pp_channels w) = Some p" "heap w p = Some c" "ch_fd c = fd" "0 \<le> fd"
      "pfd_matches (pollfds w ! i) c" by metis
    have "pfd_fd q = fd" using f q(2) i nth by (auto simp: pfd_matches_def split: if_splits)
    with f(1) show ?thesis by blast
  qed
  have "\<forall>q \<in> set ?fs. 0 < sint (pfd_revents q) \<longrightarrow> 0 \<le> pfd_fd q \<and> (\<exists>p. map_find (pfd_fd q) (pp_channels ?w) = Some p)"
  proof (intro ballI impI)
    fix q assume q: "q \<in> set ?fs" "0 < sint (pfd_revents q)"
    from q(1) obtain i where i: "i < length (pollfds w)" "q = ?fs ! i" using len by (auto simp: in_set_conv_nth)
    have "0 \<le> pfd_fd q" using list_all2_nthD [OF pos i(1)] q(2) i nth by simp
    with known [OF q(1)] show "0 \<le> pfd_fd q \<and> (\<exists>p. map_find (pfd_fd q) (pp_channels ?w) = Some p)" by simp
  qed
  from poll_fill_law [OF ok' this pp_fds_differ [OF ok', simplified], of n]
  have fill: "returns (poll_fillActiveChannels ?fs n ?w) (\<lambda>(act, w'). pp_ok w' \<and> pp_reg w' = pp_reg w \<and> still w' = still w \<and> distinct act \<and>
      set act \<subseteq> pp_reg w)"
    by (elim returns_mono) (auto simp: pp_reg_def registered_def still_pp)
  show ?thesis
  proof (cases "0 < n")
    case True
    with fill Inr nr show ?thesis by (simp add: poll_poll_def)
  next
    case False
    with ok' Inr nr show ?thesis by (simp add: poll_poll_def still_pp pp_reg_def)
  qed
qed

interpretation poll_loop: loop_poller "poll_env alloc body" pp_ok pp_reg pp_fresh pp_watched poll_fair for alloc body
proof -
  have env: "le_update (poll_env alloc body) = poll_updateChannel" "le_remove (poll_env alloc body) = poll_removeChannel"
    "le_channels (poll_env alloc body) = pp_channels" "le_poll (poll_env alloc body) = poll_poll"
    by (simp_all add: poll_env_def)
  show "loop_poller (poll_env alloc body) pp_ok pp_reg pp_fresh pp_watched poll_fair"
  proof (intro loop_poller.intro loop_poller_axioms.intro)
    show "demux pp_ok heap pp_reg pp_fresh pp_watched (channel_set (le_update (poll_env alloc body))) (channel_remove (le_remove (poll_env alloc body)))"
      unfolding env by (rule pollp.demux_axioms)
    show "in_loop w" if "pp_ok w" for w using that by (simp add: pp_ok_def)
    show "heap w p \<noteq> None" if "pp_ok w" "p \<in> pp_reg w" for w p using that by (auto simp: pp_reg_def elim!: registeredE pp_okD)
    show "map_find (ch_fd c) (le_channels (poll_env alloc body) w) = Some p \<longleftrightarrow> p \<in> pp_reg w" if "pp_ok w" "heap w p = Some c" for w p c
      unfolding env using pp_reg_unique [OF that(1) _ that(2)] by (auto simp: pp_reg_def intro: registeredI)
    show "pp_fresh c" if "ch_index c = -1" for c using that by (simp add: pp_fresh_def)
    show "pp_ok (w\<lparr>heap := h\<rparr>) \<and> pp_reg (w\<lparr>heap := h\<rparr>) = pp_reg w"
      if "pp_ok w" "\<And>q. q \<in> pp_reg w \<Longrightarrow> map_option ch_known (h q) = map_option ch_known (heap w q)" for w h
      by (rule pp_frame [OF that])
  qed (unfold env, (erule (1) poll_set_still poll_remove_still poll_poll_law)+)
qed


section \<open>Properties\<close>

abbreviation no_channels :: "nat \<Rightarrow> channel option" where
  "no_channels \<equiv> \<lambda>_. None"

lemma new_epoll:
  assumes "epoll_kernel ctl" and "EPollPoller_new created no_channels True = Inr w"
  shows "loop_poller.new_poller ep_ok ep_reg w"
  using assms(2)
  by (auto simp: loop_poller.new_poller_def [OF epoll_loop [OF assms(1)]] EPollPoller_new_def ep_ok_def ep_reg_def registered_def split: if_splits)

lemma new_poll: "poll_loop.new_poller (PollPoller_new no_channels True)"
  by (simp add: poll_loop.new_poller_def PollPoller_new_def pp_ok_def pp_reg_def registered_def)

text \<open>
  A loop is constructed with exactly two descriptors in the interest list of its poller, its event descriptor and its timer descriptor, both
  for reading. A thread has one loop: the construction of a second one ends the process.
\<close>

theorem loop_constructed:
  assumes "EPollPoller_new True no_channels True = Inr w0" and "0 \<le> evtfd" and "0 \<le> timerfd" and "evtfd \<noteq> timerfd"
  shows "returns (EventLoop_create (epoll_env ctl_wellformed alloc body) self evtfd timerfd None w0) (\<lambda>(here, s).
      here = Some self \<and> lo_loop s = EventLoop_new \<and> ep_watched (lo_world s) = {(evtfd, 0, kReadEvent), (timerfd, 1, kReadEvent)} \<and>
      (\<forall>q > 1. heap (lo_world s) q = None))"
    and "\<exists>e. EventLoop_create (epoll_env ctl_wellformed alloc body) self evtfd timerfd (Some other) w0 = Inl e"
proof -
  note new = new_epoll [OF linux.epoll_kernel_axioms assms(1)]
  have "lo_loop s = EventLoop_new" if "EventLoop_create (epoll_env ctl_wellformed alloc body) self evtfd timerfd None w0 = Inr (here, s)" for here s
    using that by (auto simp: EventLoop_create_def bind_r_eq_Inr)
  with linux_loop.create_life [OF new assms(2-4), of alloc body self]
  show "returns (EventLoop_create (epoll_env ctl_wellformed alloc body) self evtfd timerfd None w0) (\<lambda>(here, s).
      here = Some self \<and> lo_loop s = EventLoop_new \<and> ep_watched (lo_world s) = {(evtfd, 0, kReadEvent), (timerfd, 1, kReadEvent)} \<and>
      (\<forall>q > 1. heap (lo_world s) q = None))"
    by (auto elim!: returnsE)
  show "\<exists>e. EventLoop_create (epoll_env ctl_wellformed alloc body) self evtfd timerfd (Some other) w0 = Inl e"
    using linux_loop.create_bad_fd(3) [of alloc body self evtfd timerfd "Some other" w0]
    by (cases "EventLoop_create (epoll_env ctl_wellformed alloc body) self evtfd timerfd (Some other) w0") auto
qed

text \<open>
  C6. A loop and its channels, from construction to destruction: under a kernel on which well-formed \<^verbatim>\<open>epoll_ctl\<close> calls succeed, whatever
  descriptors become ready, whatever callbacks, functors and other threads do, as long as channels are used by the rules
  (registered once, removed when they want nothing and not while they wait for their turn, deleted after that), no assertion of the loop,
  the poller, the channels or the timer queue fails and no deleted channel is used: only memory can run out. The channels that
  wait for their turn in a round are alive and registered. The steps of the loop are those of the loop alone. When the loop is not
  running, its destruction succeeds, closes its two descriptors, deletes every timer, and takes its own channels
  off the poller and nothing else.
\<close>

theorem loop_channels_safe:
  fixes a and s
  assumes "\<And>log call. ctl_wellformed log call \<Longrightarrow> epoll_ctl log call" and "alloc_ok alloc"
    and "EPollPoller_new True no_channels True = Inr w0" and "loop_reach (epoll_env epoll_ctl alloc body) epoll_fair self w0 s"
  shows "(loop_may (epoll_env epoll_ctl alloc body) epoll_fair a s \<longrightarrow>
      unless_oom (loop_do (epoll_env epoll_ctl alloc body) self a s) (\<lambda>_. True)) \<and>
    (el_pc (lo_loop s) = Handling \<longrightarrow> (\<forall>p \<in> set (el_todo (lo_loop s)).
       \<exists>c. heap (lo_world s) p = Some c \<and> map_find (ch_fd c) (ep_channels (lo_world s)) = Some p)) \<and>
    el_reachable (lo_loop s) \<and>
    (el_pc (lo_loop s) = NotLooping \<longrightarrow> returns (EventLoop_delete (epoll_env epoll_ctl alloc body) self s) (\<lambda>(here, fds, q, w).
       here = None \<and> fds = [lo_wakeupFd s, lo_timerfd s] \<and> (\<forall>p. t_heap q p = None) \<and> heap w 0 = None \<and> heap w 1 = None \<and>
       ep_watched w = {x \<in> ep_watched (lo_world s). 1 < fst (snd x)}))"
proof -
  have kernel: "epoll_kernel epoll_ctl" by unfold_locales (rule assms(1))
  note loop = epoll_loop [OF kernel, of alloc body]
  have alloc: "alloc_ok (le_alloc (epoll_env epoll_ctl alloc body))" using assms(2) by (simp add: epoll_env_def)
  note life = loop_poller.reach_life [OF loop new_epoll [OF kernel assms(3)] alloc assms(4)]
  note lifeD = loop_poller.lifeD [OF loop life]
  have ok: "ep_ok (lo_world s)" using lifeD(1) by (simp add: loop_poller.world_ok_def [OF loop])
  have turn: "\<exists>c. heap (lo_world s) p = Some c \<and> map_find (ch_fd c) (ep_channels (lo_world s)) = Some p"
    if pc: "el_pc (lo_loop s) = Handling" and p: "p \<in> set (el_todo (lo_loop s))" for p
  proof -
    have reg: "p \<in> ep_reg (lo_world s)" using life pc p by (auto simp: loop_poller.life_def [OF loop] Let_def)
    then obtain c where c: "heap (lo_world s) p = Some c" using loop_poller.reg_alive [OF loop ok] by blast
    with ep_reg_unique [OF ok reg c] show ?thesis by blast
  qed
  have step: "unless_oom (loop_do (epoll_env epoll_ctl alloc body) self a s) (\<lambda>_. True)"
    if "loop_may (epoll_env epoll_ctl alloc body) epoll_fair a s"
    using loop_poller.life_step [OF loop life alloc that] by (rule unless_oom_mono) simp
  show ?thesis by (intro conjI impI ballI step turn lifeD(2) loop_poller.delete_life [OF loop life])
qed

theorem loop_channels_safe_witness:
  "\<exists>w0 s. EPollPoller_new True no_channels True = Inr w0 \<and>
     EventLoop_create (epoll_env ctl_wellformed two_cells (\<lambda>_. [])) 9 5 6 None w0 = Inr (Some 9, s) \<and>
     unless_oom (loop_do (epoll_env ctl_wellformed two_cells (\<lambda>_. [])) 9 (LaChan (OpNew 7 2)) s) (\<lambda>_. True) \<and>
     returns (EventLoop_delete (epoll_env ctl_wellformed two_cells (\<lambda>_. [])) 9 s) (\<lambda>(here, fds, q, w). here = None \<and> ep_watched w = {})"
proof -
  let ?P = "epoll_env ctl_wellformed two_cells (\<lambda>_. [])"
  obtain w0 where w0: "EPollPoller_new True no_channels True = Inr w0" by (simp add: EPollPoller_new_def)
  from loop_constructed(1) [OF w0, of 5 6 two_cells "\<lambda>_. []" 9] obtain s where
    s: "EventLoop_create ?P 9 5 6 None w0 = Inr (Some 9, s)" "lo_loop s = EventLoop_new"
      "ep_watched (lo_world s) = {(5, 0, kReadEvent), (6, 1, kReadEvent)}" "heap (lo_world s) 2 = None" by (auto elim!: returnsE)
  have reach: "loop_reach ?P epoll_fair 9 w0 s" by (rule constructed [OF s(1)]) simp
  note safe = loop_channels_safe [of ctl_wellformed two_cells w0 "\<lambda>_. []" 9 s, OF _ two_cells_ok w0 reach]
  have pc: "el_pc (lo_loop s) = NotLooping" by (simp add: s(2) EventLoop_new_def)
  have "loop_may ?P epoll_fair (LaChan (OpNew 7 2)) s" using pc s(4) by simp
  with safe [of "LaChan (OpNew 7 2)"] pc w0 s show ?thesis by (auto elim!: returns_mono)
qed

text \<open>
  C34. The same with the poll poller, where every registered channel has an element of the array, with its descriptor, or with the
  complement of it while it wants nothing, and with its events; the index the channel keeps is that of its element, and no element is left over,
  whatever was registered, changed and removed in whatever order.
\<close>

theorem poll_array_in_step:
  assumes "alloc_ok alloc" and "loop_reach (poll_env alloc body) poll_fair self (PollPoller_new no_channels True) s"
  shows "(loop_may (poll_env alloc body) poll_fair a s \<longrightarrow> unless_oom (loop_do (poll_env alloc body) self a s) (\<lambda>_. True)) \<and>
    (\<forall>p c. heap (lo_world s) p = Some c \<longrightarrow> ch_addedToLoop c \<longrightarrow>
       (\<exists>i < length (pollfds (lo_world s)). ch_index c = int i \<and>
          pfd_fd (pollfds (lo_world s) ! i) = (if ch_events c = 0 then - ch_fd c - 1 else ch_fd c) \<and>
          pfd_events (pollfds (lo_world s) ! i) = ucast (ch_events c))) \<and>
    (\<forall>i < length (pollfds (lo_world s)). \<exists>p c. heap (lo_world s) p = Some c \<and> ch_addedToLoop c \<and> ch_index c = int i)"
proof -
  let ?w = "lo_world s"
  have alloc: "alloc_ok (le_alloc (poll_env alloc body))" using assms(1) by (simp add: poll_env_def)
  note life = poll_loop.reach_life [OF new_poll alloc assms(2)]
  note w = poll_loop.lifeD(1) [OF life]
  have ok: "pp_ok ?w" using w by (simp add: poll_loop.world_ok_def)
  have "unless_oom (loop_do (poll_env alloc body) self a s) (\<lambda>_. True)" if "loop_may (poll_env alloc body) poll_fair a s"
    using poll_loop.life_step [OF life alloc that] by (rule unless_oom_mono) simp
  moreover have "\<exists>i < length (pollfds ?w). ch_index c = int i \<and> pfd_fd (pollfds ?w ! i) = (if ch_events c = 0 then - ch_fd c - 1 else ch_fd c) \<and>
      pfd_events (pollfds ?w ! i) = ucast (ch_events c)" if c: "heap ?w p = Some c" "ch_addedToLoop c" for p c
  proof -
    have "p \<in> pp_reg ?w" using poll_loop.worldD(2) [OF w c(1)] c(2) by simp
    from pp_okD [OF ok pp_reg_unique [OF ok this c(1)]] c(1) obtain i where "i < length (pollfds ?w)" "ch_index c = int i" "pfd_matches (pollfds ?w ! i) c"
      by (metis option.inject)
    then show ?thesis by (auto simp: pfd_matches_def)
  qed
  moreover have "\<exists>p c. heap ?w p = Some c \<and> ch_addedToLoop c \<and> ch_index c = int i" if i: "i < length (pollfds ?w)" for i
  proof -
    from pp_slotE [OF ok i] obtain fd p c where p: "map_find fd (pp_channels ?w) = Some p" "heap ?w p = Some c" "ch_index c = int i" by metis
    then have "p \<in> pp_reg ?w" by (auto simp: pp_reg_def intro: registeredI)
    with p poll_loop.worldD(2) [OF w p(2)] show ?thesis by blast
  qed
  ultimately show ?thesis by blast
qed

theorem poll_array_in_step_witness:
  "\<exists>s. loop_reach (poll_env two_cells (\<lambda>_. [])) poll_fair 9 (PollPoller_new no_channels True) s \<and>
     (\<exists>p c. heap (lo_world s) p = Some c \<and> ch_addedToLoop c \<and> pollfds (lo_world s) \<noteq> [])"
proof -
  let ?P = "poll_env two_cells (\<lambda>_. [])"
  from poll_loop.create_life [OF new_poll, of 5 6 two_cells "\<lambda>_. []" 9] obtain s where
    s: "EventLoop_create ?P 9 5 6 None (PollPoller_new no_channels True) = Inr (Some 9, s)" "poll_loop.life s" by (auto elim!: returnsE)
  have reach: "loop_reach ?P poll_fair 9 (PollPoller_new no_channels True) s" by (rule constructed [OF s(1)]) simp
  from poll_loop.lifeD(3) [OF s(2)] obtain c where c: "heap (lo_world s) 0 = Some c" "ch_addedToLoop c"
    by (auto simp: poll_loop.own_def elim!: still_SomeE)
  from poll_array_in_step [OF two_cells_ok reach, of LaFinish] c have "pollfds (lo_world s) \<noteq> []" by fastforce
  with reach c show ?thesis by blast
qed

end
