(* ===== verification/LoopThreads.thy ===== *)
theory LoopThreads
  imports EventLoops
begin

text \<open>
  The end of a loop thread (\<^verbatim>\<open>netLayer/event/eventloop/EventLoopThread.cpp\<close>): the owner, which starts the thread and destroys the
  object, the thread in \<^verbatim>\<open>threadFunc\<close>, and the loop on its stack, which is that of theory \<open>EventLoops\<close>, interleaved. Only the owner
  asks the loop to quit.

  The destructor asks the loop to quit and joins the thread. The properties: when the thread was already in \<^verbatim>\<open>loop()\<close>, the request is never
  lost, the loop does not sleep and the destructor can return; when the thread had published the loop but not yet
  called \<^verbatim>\<open>loop()\<close>, which forgets requests, the destructor never returns; and the owner can touch the loop after it was destroyed.
\<close>

section \<open>Owner and thread\<close>

text \<open>The owner: in \<^verbatim>\<open>startLoop\<close>, after it, and in the destructor.\<close>

datatype owner_pc =
    OwnNew
  | OwnWait        \<comment> \<open>in \<^verbatim>\<open>startLoop\<close>, waiting for \<^verbatim>\<open>loop_\<close>\<close>
  | OwnHas         \<comment> \<open>has the loop\<close>
  | OwnTested      \<comment> \<open>in the destructor, \<^verbatim>\<open>loop_ != NULL\<close> was seen\<close>
  | OwnStored      \<comment> \<open>in \<^verbatim>\<open>quit()\<close>, after \<^verbatim>\<open>quit_ = true\<close>\<close>
  | OwnJoin        \<comment> \<open>in \<^verbatim>\<open>thread_.join()\<close>\<close>
  | OwnDone

datatype func_pc =
    ThUnborn
  | ThInit         \<comment> \<open>the loop is constructed, \<^verbatim>\<open>callback_\<close> runs\<close>
  | ThBefore       \<comment> \<open>\<^verbatim>\<open>loop_\<close> is set, \<^verbatim>\<open>loop()\<close> not yet called\<close>
  | ThLoop         \<comment> \<open>in \<^verbatim>\<open>loop()\<close>\<close>
  | ThAfter        \<comment> \<open>\<^verbatim>\<open>loop()\<close> has returned\<close>
  | ThExited       \<comment> \<open>\<^verbatim>\<open>loop_\<close> is null and the loop is destroyed\<close>

record loop_thread =
  lt_owner :: owner_pc
  lt_func :: func_pc
  lt_ptr :: bool          \<comment> \<open>\<^verbatim>\<open>loop_ != NULL\<close>\<close>
  lt_exiting :: bool
  lt_loop :: evloop

definition loop_thread_new :: loop_thread where
  "loop_thread_new = \<lparr>lt_owner = OwnNew, lt_func = ThUnborn, lt_ptr = False, lt_exiting = False, lt_loop = EventLoop_new\<rparr>"

text \<open>
  The steps. \<open>t\<close> is the thread of the owner as the loop sees it. Beside the steps of the life of the thread the loop and the other
  threads that queue functors go on as in \<open>EventLoops\<close>; they neither begin nor end \<^verbatim>\<open>loop()\<close> and do not change \<^verbatim>\<open>quit_\<close>.
\<close>

inductive lt_step :: "nat \<Rightarrow> loop_thread \<Rightarrow> loop_thread \<Rightarrow> bool" for t where
  lt_start: "lt_owner s = OwnNew \<Longrightarrow> lt_step t s (s\<lparr>lt_owner := OwnWait, lt_func := ThInit\<rparr>)"
| lt_ready: "lt_owner s = OwnWait \<Longrightarrow> lt_ptr s \<Longrightarrow> lt_step t s (s\<lparr>lt_owner := OwnHas\<rparr>)"
| lt_publish: "lt_func s = ThInit \<Longrightarrow> el_code (lt_loop s) = [] \<Longrightarrow> lt_step t s (s\<lparr>lt_func := ThBefore, lt_ptr := True\<rparr>)"
| lt_enter: "lt_func s = ThBefore \<Longrightarrow> el_code (lt_loop s) = [] \<Longrightarrow>
    lt_step t s (s\<lparr>lt_func := ThLoop, lt_loop := (lt_loop s)\<lparr>el_looping := True, el_quit := False, el_pc := Test\<rparr>\<rparr>)"
| lt_exit: "lt_func s = ThLoop \<Longrightarrow> el_pc (lt_loop s) = Test \<Longrightarrow> el_quit (lt_loop s) \<Longrightarrow>
    lt_step t s (s\<lparr>lt_func := ThAfter, lt_loop := (lt_loop s)\<lparr>el_looping := False, el_pc := NotLooping\<rparr>\<rparr>)"
| lt_clear: "lt_func s = ThAfter \<Longrightarrow> lt_step t s (s\<lparr>lt_func := ThExited, lt_ptr := False\<rparr>)"
| lt_inside: "lt_func s \<in> {ThInit, ThLoop} \<Longrightarrow> el_step (lt_loop s) e \<Longrightarrow> el_looping e = el_looping (lt_loop s) \<Longrightarrow>
    el_quit e = el_quit (lt_loop s) \<Longrightarrow> el_waking e t = el_waking (lt_loop s) t \<Longrightarrow> lt_step t s (s\<lparr>lt_loop := e\<rparr>)"
| lt_other: "lt_func s \<in> {ThBefore, ThAfter} \<Longrightarrow> el_step (lt_loop s) e \<Longrightarrow> el_pc e = el_pc (lt_loop s) \<Longrightarrow> el_code e = el_code (lt_loop s) \<Longrightarrow>
    el_looping e = el_looping (lt_loop s) \<Longrightarrow> el_quit e = el_quit (lt_loop s) \<Longrightarrow> el_waking e t = el_waking (lt_loop s) t \<Longrightarrow>
    lt_step t s (s\<lparr>lt_loop := e\<rparr>)"
| lt_test_null: "lt_owner s = OwnHas \<Longrightarrow> \<not> lt_ptr s \<Longrightarrow> lt_step t s (s\<lparr>lt_exiting := True, lt_owner := OwnDone\<rparr>)"
| lt_test: "lt_owner s = OwnHas \<Longrightarrow> lt_ptr s \<Longrightarrow> lt_step t s (s\<lparr>lt_exiting := True, lt_owner := OwnTested\<rparr>)"
| lt_quit: "lt_owner s = OwnTested \<Longrightarrow> lt_func s \<noteq> ThExited \<Longrightarrow>
    lt_step t s (s\<lparr>lt_owner := OwnStored, lt_loop := (lt_loop s)\<lparr>el_quit := True, el_waking := (el_waking (lt_loop s))(t := True)\<rparr>\<rparr>)"
| lt_wakeup: "lt_owner s = OwnStored \<Longrightarrow> lt_func s \<noteq> ThExited \<Longrightarrow>
    lt_step t s (s\<lparr>lt_owner := OwnJoin, lt_loop := (el_wakeup (lt_loop s))\<lparr>el_waking := (el_waking (lt_loop s))(t := False)\<rparr>\<rparr>)"
| lt_join: "lt_owner s = OwnJoin \<Longrightarrow> lt_func s = ThExited \<Longrightarrow> lt_step t s (s\<lparr>lt_owner := OwnDone\<rparr>)"

abbreviation lt_reachable :: "nat \<Rightarrow> loop_thread \<Rightarrow> bool" where
  "lt_reachable t \<equiv> (lt_step t)\<^sup>*\<^sup>* loop_thread_new"

text \<open>In \<^verbatim>\<open>quit()\<close> on a loop that was destroyed.\<close>

definition lt_dangling :: "loop_thread \<Rightarrow> bool" where
  "lt_dangling s \<longleftrightarrow> lt_owner s \<in> {OwnTested, OwnStored} \<and> lt_func s = ThExited"

section \<open>Invariant\<close>

definition lt_inv :: "nat \<Rightarrow> loop_thread \<Rightarrow> bool" where
  "lt_inv t s \<longleftrightarrow> (let e = lt_loop s in el_reachable e \<and>
     (lt_func s = ThLoop \<longleftrightarrow> el_pc e \<noteq> NotLooping) \<and>
     (lt_ptr s \<longleftrightarrow> lt_func s \<in> {ThBefore, ThLoop, ThAfter}) \<and>
     (lt_owner s = OwnNew \<longleftrightarrow> lt_func s = ThUnborn) \<and>
     (lt_owner s \<in> {OwnNew, OwnWait, OwnHas, OwnTested} \<longrightarrow> \<not> el_quit e) \<and>
     (lt_func s \<in> {ThAfter, ThExited} \<longrightarrow> lt_owner s \<in> {OwnStored, OwnJoin, OwnDone}) \<and>
     (lt_owner s \<in> {OwnHas, OwnTested} \<longrightarrow> lt_func s \<in> {ThBefore, ThLoop}) \<and>
     (lt_owner s = OwnDone \<longrightarrow> lt_func s = ThExited) \<and>
     (lt_owner s = OwnStored \<longleftrightarrow> el_waking e t) \<and>
     (lt_func s \<in> {ThUnborn, ThBefore, ThAfter} \<longrightarrow> el_code e = []))"

lemmas lt_inv_simps = lt_inv_def Let_def

lemma lt_reach: "lt_inv t s \<Longrightarrow> el_step (lt_loop s) e \<Longrightarrow> el_reachable e"
  unfolding lt_inv_simps by (blast intro: rtranclp.rtrancl_into_rtrancl)

lemma lt_flags: "lt_inv t s \<Longrightarrow> el_flags (lt_loop s)"
  using reachable_invariants by (simp add: lt_inv_simps)

lemma lt_loop_step:
  assumes inv: "lt_inv t s" and st: "el_step (lt_loop s) e" and "el_looping e = el_looping (lt_loop s)"
    and "el_quit e = el_quit (lt_loop s)" and "el_waking e t = el_waking (lt_loop s) t"
    and "lt_func s \<in> {ThUnborn, ThBefore, ThAfter} \<longrightarrow> el_code e = []"
  shows "lt_inv t (s\<lparr>lt_loop := e\<rparr>)"
proof -
  have "el_flags e" using reachable_invariants [OF lt_reach [OF inv st]] by simp
  then have "el_pc e = NotLooping \<longleftrightarrow> el_pc (lt_loop s) = NotLooping" using lt_flags [OF inv] assms(3) by (auto simp: el_flags_def)
  with inv lt_reach [OF inv st] assms(4-6) show ?thesis by (cases "lt_func s"; cases "lt_owner s") (simp_all add: lt_inv_simps)
qed

lemma lt_step_inv: "lt_step t s s' \<Longrightarrow> lt_inv t s \<Longrightarrow> lt_inv t s'"
proof (induction rule: lt_step.induct)
  case (lt_enter s)
  let ?e = "(lt_loop s)\<lparr>el_looping := True, el_quit := False, el_pc := Test\<rparr>"
  have pc: "el_pc (lt_loop s) = NotLooping" using lt_enter by (auto simp: lt_inv_simps)
  then have "\<not> el_looping (lt_loop s)" using lt_flags [OF lt_enter.prems] by (simp add: el_flags_def)
  from lt_reach [OF lt_enter.prems loop_start [OF pc lt_enter.hyps(2) this]] lt_enter show ?case by (auto simp: lt_inv_simps)
next
  case (lt_exit s)
  from lt_reach [OF lt_exit.prems loop_exit [OF lt_exit.hyps(2,3)]] lt_exit lt_flags [OF lt_exit.prems] show ?case
    by (cases "lt_owner s") (simp_all add: lt_inv_simps el_flags_def)
next
  case (lt_inside s e)
  from lt_loop_step [OF lt_inside.prems lt_inside.hyps(2-5)] lt_inside.hyps(1) show ?case by auto
next
  case (lt_other s e)
  from lt_loop_step [OF lt_other.prems lt_other.hyps(2,5-7)] lt_other show ?case by (auto simp: lt_inv_simps)
next
  case (lt_quit s)
  have "\<not> el_waking (lt_loop s) t" using lt_quit by (auto simp: lt_inv_simps)
  from lt_reach [OF lt_quit.prems other_quit [OF this]] lt_quit show ?case by (auto simp: lt_inv_simps)
next
  case (lt_wakeup s)
  have w: "el_waking (lt_loop s) t" using lt_wakeup by (auto simp: lt_inv_simps)
  from lt_reach [OF lt_wakeup.prems other_wakeup [OF w]] lt_wakeup show ?case by (auto simp: lt_inv_simps el_wakeup_def)
qed (auto simp: lt_inv_simps)

lemma lt_reachable_inv: "lt_reachable t s \<Longrightarrow> lt_inv t s"
proof (induction rule: rtranclp_induct)
  case base
  show ?case by (simp add: loop_thread_new_def lt_inv_simps EventLoop_new_def)
qed (rule lt_step_inv)

section \<open>The request is not lost\<close>

text \<open>The thread was in \<^verbatim>\<open>loop()\<close> when the owner asked it to quit.\<close>

definition lt_asked :: "loop_thread \<Rightarrow> bool" where
  "lt_asked s \<longleftrightarrow> lt_owner s \<in> {OwnStored, OwnJoin, OwnDone} \<and> lt_func s \<in> {ThLoop, ThAfter, ThExited} \<and>
     (lt_func s = ThLoop \<longrightarrow> el_quit (lt_loop s))"

lemma lt_step_asked: "lt_step t s s' \<Longrightarrow> lt_asked s \<Longrightarrow> lt_asked s'"
  by (induction rule: lt_step.induct) (auto simp: lt_asked_def el_wakeup_def)

lemma lt_steps_asked: "(lt_step t)\<^sup>*\<^sup>* s s' \<Longrightarrow> lt_asked s \<Longrightarrow> lt_asked s'"
  by (induction rule: rtranclp_induct) (auto dest: lt_step_asked)

text \<open>What is left to do in a round of the loop, when callbacks do nothing more.\<close>

fun op_weight :: "loop_op \<Rightarrow> nat" where
  "op_weight (QueueInLoop f) = 3"
| "op_weight _ = 1"

definition round_rank :: "evloop \<Rightarrow> nat" where
  "round_rank e =
     (case el_pc e of
        NotLooping \<Rightarrow> 0 | Test \<Rightarrow> 0
      | Functors \<Rightarrow> 1 + length (el_functors e) + sum_list (map op_weight (el_code e))
      | Swap \<Rightarrow> 2 + length (el_pendingFunctors e)
      | Handling \<Rightarrow> 3 + length (el_pendingFunctors e) + length (el_todo e) + sum_list (map op_weight (el_code e))
      | Poll \<Rightarrow> 4 + length (el_pendingFunctors e))"

text \<open>A step of the thread towards the test of \<^verbatim>\<open>quit_\<close>.\<close>

lemma round_goes_on:
  assumes fl: "el_flags e" and pc: "el_pc e \<notin> {NotLooping, Test}" and quit: "el_quit e"
  obtains e' where "el_step e e'" and "round_rank e' < round_rank e" and "el_looping e' = el_looping e" and "el_quit e'"
    and "el_waking e' = el_waking e"
proof (cases "el_code e")
  case (Cons a code)
  have pc': "el_pc e \<in> {Handling, Functors}" using fl pc Cons by (auto simp: el_flags_def)
  let ?e = "el_op [] a (e\<lparr>el_code := code\<rparr>)"
  have "el_step e ?e" by (rule operation [OF Cons])
  moreover have "round_rank ?e < round_rank e" "el_looping ?e = el_looping e" "el_quit ?e" "el_waking ?e = el_waking e"
    using pc' Cons quit fl by (cases a; auto simp: round_rank_def el_push_def el_wakeup_def el_flags_def Let_def)+
  ultimately show thesis by (rule that)
next
  case Nil
  from pc consider "el_pc e = Poll" | "el_pc e = Handling" | "el_pc e = Swap" | "el_pc e = Functors" by (cases "el_pc e") auto
  then show thesis
  proof cases
    case 1
    show thesis by (rule that [OF polled [OF 1, of "[]"]]) (use 1 Nil quit in \<open>simp_all add: round_rank_def\<close>)
  next
    case 2
    show thesis
    proof (cases "el_todo e")
      case Nil': Nil
      show thesis by (rule that [OF handled [OF 2 Nil Nil']]) (use 2 quit in \<open>simp_all add: round_rank_def\<close>)
    next
      case (Cons c cs)
      show thesis
      proof (cases "c = 0")
        case True
        with Cons have "el_todo e = 0 # cs" by simp
        from handle_wakeup [OF 2 Nil this] show thesis
          by (rule that) (use 2 Nil Cons quit in \<open>simp_all add: round_rank_def el_handleRead_def\<close>)
      next
        case False
        show thesis by (rule that [OF handle_other [OF 2 Nil Cons False, of "[]"]]) (use 2 Nil Cons quit in \<open>simp_all add: round_rank_def\<close>)
      qed
    qed
  next
    case 3
    show thesis by (rule that [OF swap [OF 3]]) (use 3 Nil quit in \<open>simp_all add: round_rank_def\<close>)
  next
    case 4
    show thesis
    proof (cases "el_functors e")
      case Nil': Nil
      show thesis by (rule that [OF functors_done [OF 4 Nil Nil']]) (use 4 Nil quit in \<open>simp_all add: round_rank_def\<close>)
    next
      case (Cons f fs)
      show thesis by (rule that [OF call_functor [OF 4 Nil Cons, of "[]"]]) (use 4 Nil Cons quit in \<open>simp_all add: round_rank_def\<close>)
    qed
  qed
qed

lemma lt_next: "lt_step t s s1 \<Longrightarrow> \<exists>s'. (lt_step t)\<^sup>*\<^sup>* s1 s' \<and> Q s' \<Longrightarrow> \<exists>s'. (lt_step t)\<^sup>*\<^sup>* s s' \<and> Q s'"
  by (meson converse_rtranclp_into_rtranclp)

lemma joined_can_end:
  assumes "lt_inv t s" and "lt_asked s" and "lt_owner s = OwnJoin"
  shows "\<exists>s'. (lt_step t)\<^sup>*\<^sup>* s s' \<and> lt_owner s' = OwnDone"
  using assms
proof (induction "round_rank (lt_loop s) + (case lt_func s of ThLoop \<Rightarrow> 2 | ThAfter \<Rightarrow> 1 | _ \<Rightarrow> 0)" arbitrary: s rule: less_induct)
  case less
  have inv: "lt_inv t s" by fact
  from less.prems(2) consider "lt_func s = ThExited" | "lt_func s = ThAfter" | "lt_func s = ThLoop" "el_quit (lt_loop s)" by (auto simp: lt_asked_def)
  then show ?case
  proof cases
    case 1
    from lt_join [OF less.prems(3) 1, of t] show ?thesis by (rule lt_next) auto
  next
    case 2
    have st: "lt_step t s (s\<lparr>lt_func := ThExited, lt_ptr := False\<rparr>)" by (rule lt_clear [OF 2])
    show ?thesis by (rule lt_next [OF st less.hyps]) (use 2 less.prems lt_step_inv [OF st] lt_step_asked [OF st] in auto)
  next
    case 3
    show ?thesis
    proof (cases "el_pc (lt_loop s) = Test")
      case True
      let ?s = "s\<lparr>lt_func := ThAfter, lt_loop := (lt_loop s)\<lparr>el_looping := False, el_pc := NotLooping\<rparr>\<rparr>"
      have st: "lt_step t s ?s" by (rule lt_exit [OF 3(1) True 3(2)])
      show ?thesis by (rule lt_next [OF st less.hyps]) (use 3 True less.prems lt_step_inv [OF st] lt_step_asked [OF st] in \<open>auto simp: round_rank_def\<close>)
    next
      case False
      with 3(1) inv have "el_pc (lt_loop s) \<notin> {NotLooping, Test}" by (auto simp: lt_inv_simps)
      from round_goes_on [OF lt_flags [OF inv] this 3(2)] obtain e where
        e: "el_step (lt_loop s) e" "round_rank e < round_rank (lt_loop s)" "el_looping e = el_looping (lt_loop s)" "el_quit e"
          "el_waking e = el_waking (lt_loop s)" .
      have st: "lt_step t s (s\<lparr>lt_loop := e\<rparr>)" by (rule lt_inside) (use 3 e in simp_all)
      show ?thesis by (rule lt_next [OF st less.hyps]) (use 3 e less.prems lt_step_inv [OF st] lt_step_asked [OF st] in auto)
    qed
  qed
qed

lemma lt_tested:
  assumes "lt_inv t s" and "lt_owner s = OwnTested" and "lt_func s = ThLoop" and "lt_step t s s'"
  shows "lt_owner s' = OwnTested \<and> lt_func s' = ThLoop \<or> lt_asked s'"
  using assms(4,1-3) by (induction rule: lt_step.induct) (auto simp: lt_asked_def lt_inv_simps)

section \<open>Properties\<close>

text \<open>
  C39. The destructor of \<^verbatim>\<open>EventLoopThread\<close>, called while the thread is in \<^verbatim>\<open>loop()\<close>: from the moment the loop is asked to quit, whatever callbacks,
  functors and other threads do meanwhile, the request stays until \<^verbatim>\<open>loop()\<close> returns, the loop does not sleep on it, and when
  the owner waits in \<^verbatim>\<open>join\<close> the rest of the round, which is finite, and the end of the thread let it return.
\<close>

theorem destructor_can_return:
  assumes "lt_reachable t s0" and "lt_owner s0 = OwnTested" and "lt_func s0 = ThLoop" and "(lt_step t)\<^sup>*\<^sup>* s0 s"
    and "lt_owner s \<noteq> OwnTested"
  shows "(lt_func s = ThLoop \<longrightarrow> el_quit (lt_loop s) \<and>
       (el_pc (lt_loop s) = Poll \<longrightarrow> 0 < el_wakeupFd (lt_loop s) \<or> (\<exists>t. el_waking (lt_loop s) t))) \<and>
    (lt_owner s = OwnJoin \<longrightarrow> (\<exists>s'. (lt_step t)\<^sup>*\<^sup>* s s' \<and> lt_owner s' = OwnDone))"
proof -
  have "lt_reachable t s" using assms(1,4) by (rule rtranclp_trans)
  then have inv: "lt_inv t s" by (rule lt_reachable_inv)
  from assms(4) have "lt_inv t s \<and> (lt_owner s = OwnTested \<and> lt_func s = ThLoop \<or> lt_asked s)"
  proof (induction rule: rtranclp_induct)
    case base
    from lt_reachable_inv [OF assms(1)] assms(2,3) show ?case by simp
  next
    case (step s1 s2)
    from lt_step_inv [OF step.hyps(2)] lt_tested [OF _ _ _ step.hyps(2)] lt_step_asked [OF step.hyps(2)] step.IH show ?case by blast
  qed
  with assms(5) have asked: "lt_asked s" by simp
  have "no_sleep (lt_loop s)" using inv reachable_invariants by (simp add: lt_inv_simps)
  with asked have "lt_func s = ThLoop \<longrightarrow> el_quit (lt_loop s) \<and>
       (el_pc (lt_loop s) = Poll \<longrightarrow> 0 < el_wakeupFd (lt_loop s) \<or> (\<exists>t. el_waking (lt_loop s) t))"
    by (auto simp: lt_asked_def no_sleep_def waking_up_def)
  with joined_can_end [OF inv asked] show ?thesis by blast
qed

text \<open>Executions, step by step.\<close>

definition lt_published :: loop_thread where
  "lt_published = loop_thread_new\<lparr>lt_owner := OwnHas, lt_func := ThBefore, lt_ptr := True\<rparr>"

lemma lt_published_reachable: "lt_reachable t lt_published"
proof -
  let ?a = "loop_thread_new\<lparr>lt_owner := OwnWait, lt_func := ThInit\<rparr>"
  let ?b = "?a\<lparr>lt_func := ThBefore, lt_ptr := True\<rparr>"
  have "lt_step t loop_thread_new ?a" by (rule lt_start) (simp add: loop_thread_new_def)
  moreover have "lt_step t ?a ?b" by (rule lt_publish) (simp_all add: loop_thread_new_def EventLoop_new_def)
  moreover have "lt_step t ?b (?b\<lparr>lt_owner := OwnHas\<rparr>)" by (rule lt_ready) simp_all
  moreover have "?b\<lparr>lt_owner := OwnHas\<rparr> = lt_published" by (simp add: lt_published_def loop_thread_new_def)
  ultimately show ?thesis by (metis converse_rtranclp_into_rtranclp rtranclp.rtrancl_refl)
qed

definition lt_running :: loop_thread where
  "lt_running = lt_published\<lparr>lt_func := ThLoop, lt_loop := EventLoop_new\<lparr>el_looping := True, el_quit := False, el_pc := Test\<rparr>,
     lt_exiting := True, lt_owner := OwnTested\<rparr>"

lemma lt_running_reachable: "lt_reachable t lt_running"
proof -
  let ?a = "lt_published\<lparr>lt_func := ThLoop, lt_loop := (lt_loop lt_published)\<lparr>el_looping := True, el_quit := False, el_pc := Test\<rparr>\<rparr>"
  have "lt_step t lt_published ?a" by (rule lt_enter) (simp_all add: lt_published_def loop_thread_new_def EventLoop_new_def)
  moreover have "lt_step t ?a (?a\<lparr>lt_exiting := True, lt_owner := OwnTested\<rparr>)" by (rule lt_test) (simp_all add: lt_published_def loop_thread_new_def)
  moreover have "?a\<lparr>lt_exiting := True, lt_owner := OwnTested\<rparr> = lt_running" by (simp add: lt_running_def lt_published_def loop_thread_new_def)
  ultimately show ?thesis using lt_published_reachable [of t] by (metis rtranclp.rtrancl_into_rtrancl)
qed

lemma lt_running_fields [simp]: "lt_owner lt_running = OwnTested" "lt_func lt_running = ThLoop" "lt_ptr lt_running"
  "el_pc (lt_loop lt_running) = Test" "el_code (lt_loop lt_running) = []"
  by (simp_all add: lt_running_def lt_published_def loop_thread_new_def EventLoop_new_def)

theorem destructor_can_return_witness:
  "\<exists>s s'. lt_reachable 3 s \<and> lt_owner s = OwnJoin \<and> (lt_step 3)\<^sup>*\<^sup>* s s' \<and> lt_owner s' = OwnDone"
proof -
  let ?a = "lt_running\<lparr>lt_owner := OwnStored, lt_loop := (lt_loop lt_running)\<lparr>el_quit := True, el_waking := (el_waking (lt_loop lt_running))(3 := True)\<rparr>\<rparr>"
  let ?b = "?a\<lparr>lt_owner := OwnJoin, lt_loop := (el_wakeup (lt_loop ?a))\<lparr>el_waking := (el_waking (lt_loop ?a))(3 := False)\<rparr>\<rparr>"
  have s1: "lt_step 3 lt_running ?a" by (rule lt_quit) simp_all
  have s2: "lt_step 3 ?a ?b" by (rule lt_wakeup) simp_all
  have b: "(lt_step 3)\<^sup>*\<^sup>* lt_running ?b" using s1 s2 by (metis (no_types, lifting) converse_rtranclp_into_rtranclp rtranclp.rtrancl_refl)
  from destructor_can_return [OF lt_running_reachable [of 3] _ _ b] have "\<exists>s'. (lt_step 3)\<^sup>*\<^sup>* ?b s' \<and> lt_owner s' = OwnDone" by simp
  moreover have "lt_reachable 3 ?b" using lt_running_reachable b by (rule rtranclp_trans)
  moreover have "lt_owner ?b = OwnJoin" by simp
  ultimately show ?thesis by blast
qed

text \<open>
  When the owner destroys the object after the thread has published the loop and before it calls \<^verbatim>\<open>loop()\<close>, the first statement of \<^verbatim>\<open>loop()\<close>
  forgets the request, and the destructor never returns.
\<close>

theorem quit_before_loop_hangs:
  "\<exists>s. lt_reachable t s \<and> lt_owner s = OwnJoin \<and> (\<forall>s'. (lt_step t)\<^sup>*\<^sup>* s s' \<longrightarrow> lt_owner s' = OwnJoin \<and> lt_func s' = ThLoop)"
proof -
  let ?a = "lt_published\<lparr>lt_exiting := True, lt_owner := OwnTested\<rparr>"
  let ?b = "?a\<lparr>lt_owner := OwnStored, lt_loop := (lt_loop ?a)\<lparr>el_quit := True, el_waking := (el_waking (lt_loop ?a))(t := True)\<rparr>\<rparr>"
  let ?c = "?b\<lparr>lt_owner := OwnJoin, lt_loop := (el_wakeup (lt_loop ?b))\<lparr>el_waking := (el_waking (lt_loop ?b))(t := False)\<rparr>\<rparr>"
  let ?d = "?c\<lparr>lt_func := ThLoop, lt_loop := (lt_loop ?c)\<lparr>el_looping := True, el_quit := False, el_pc := Test\<rparr>\<rparr>"
  have s: "lt_step t lt_published ?a" by (rule lt_test) (simp_all add: lt_published_def)
  have s1: "lt_step t ?a ?b" by (rule lt_quit) (simp_all add: lt_published_def)
  have s2: "lt_step t ?b ?c" by (rule lt_wakeup) (simp_all add: lt_published_def)
  have s3: "lt_step t ?c ?d" by (rule lt_enter) (simp_all add: lt_published_def loop_thread_new_def EventLoop_new_def)
  have "lt_reachable t ?d"
    by (rule rtranclp_trans [OF lt_published_reachable]) (rule converse_rtranclp_into_rtranclp [OF s converse_rtranclp_into_rtranclp
      [OF s1 converse_rtranclp_into_rtranclp [OF s2 r_into_rtranclp [of "lt_step t", OF s3]]]])
  moreover have "lt_owner s' = OwnJoin \<and> lt_func s' = ThLoop \<and> \<not> el_quit (lt_loop s')" if "(lt_step t)\<^sup>*\<^sup>* ?d s'" for s'
    using that
  proof (induction rule: rtranclp_induct)
    case (step s1 s2)
    from step.hyps(2) step.IH show ?case by (induction rule: lt_step.induct) auto
  qed simp
  moreover have "lt_owner ?d = OwnJoin" by simp
  ultimately show ?thesis by blast
qed

text \<open>
  The loop can see the request, return and be destroyed before the owner has left \<^verbatim>\<open>quit()\<close>, which then writes to the
  descriptor of a loop that does not exist any more.
\<close>

theorem quit_on_destroyed_loop: "\<exists>s. lt_reachable t s \<and> lt_dangling s"
proof -
  let ?a = "lt_running\<lparr>lt_owner := OwnStored, lt_loop := (lt_loop lt_running)\<lparr>el_quit := True, el_waking := (el_waking (lt_loop lt_running))(t := True)\<rparr>\<rparr>"
  let ?b = "?a\<lparr>lt_func := ThAfter, lt_loop := (lt_loop ?a)\<lparr>el_looping := False, el_pc := NotLooping\<rparr>\<rparr>"
  let ?c = "?b\<lparr>lt_func := ThExited, lt_ptr := False\<rparr>"
  have s1: "lt_step t lt_running ?a" by (rule lt_quit) simp_all
  have s2: "lt_step t ?a ?b" by (rule lt_exit) simp_all
  have s3: "lt_step t ?b ?c" by (rule lt_clear) simp
  have "lt_reachable t ?c"
    by (rule rtranclp_trans [OF lt_running_reachable]) (rule converse_rtranclp_into_rtranclp [OF s1 converse_rtranclp_into_rtranclp
      [OF s2 r_into_rtranclp [of "lt_step t", OF s3]]])
  moreover have "lt_dangling ?c" by (simp add: lt_dangling_def)
  ultimately show ?thesis by blast
qed

end
