(* ===== verification/Mains.thy ===== *)
theory Mains
  imports StartUps Configs AsyncLogs EventLoops StaticServers Complex_Main
begin

text \<open>
  The main functions of the two servers (\<^verbatim>\<open>webServer/start_up.cpp\<close>, \<^verbatim>\<open>cgiServer/start_up.cpp\<close>), which put the parts together:
  configuration, log, server with its pool of loops, sender of heartbeats, timers, up to the call of \<^verbatim>\<open>loop()\<close>.

  The result is what was printed, when the program ends before it serves, or the state it starts to loop with, made of the states of
  the parts. The file of the configuration, the loops of new threads, the clock and the values of floating point settings
  are parameters. The properties: in which cases a program starts and what it starts with; every loop has its wheel of idle
  connections and its turn in sending heartbeats; on time, heartbeats are sent once per period, alternately by a loop and
  by a thread of the pool.
\<close>

section \<open>The log\<close>

record log_setup =
  lu_timeZone :: int               \<comment> \<open>\<^verbatim>\<open>tank::timeZone_\<close>\<close>
  lu_level :: log_level            \<comment> \<open>\<^verbatim>\<open>Logger::setLogLevel\<close>\<close>
  lu_logging :: async_logging      \<comment> \<open>what \<^verbatim>\<open>Logger::setOutput\<close> appends to\<close>
  lu_flush :: int

definition start_log :: "log_env \<Rightarrow> log_settings \<Rightarrow> string \<Rightarrow> log_setup option res" where
  "start_log env ls exe_path =
     (case parse_log_level (ls_level ls) of
        None \<Rightarrow> Inr None
      | Some level \<Rightarrow>
          bind_r (logBaseName exe_path) (\<lambda>base.
            Inr (Some \<lparr>lu_timeZone = ls_rollZoneTime ls, lu_level = level,
              lu_logging = al_start (AsyncLogging_new env (ls_path ls @ base) (ls_maxSize ls) (ls_rollDaySeconds ls) (ls_rollZoneTime ls)),
              lu_flush = ls_IOFrequency ls\<rparr>)))"

section \<open>Heartbeats\<close>

text \<open>
  Callbacks of the timers of the base loop: 0 is \<^verbatim>\<open>workerThreadSendHeartBeat\<close> (\<^verbatim>\<open>threadSendHeartBeat\<close> of the other server), which starts 2, the
  one that gives a task to the pool; 1 is \<^verbatim>\<open>loopSendHeartBeat\<close>; 3 is \<^verbatim>\<open>stop\<close>. The clock is read for each timer.
\<close>

definition seconds :: "int \<Rightarrow> int" where
  "seconds n = n * kMicroSecondsPerSecond"

definition run_every :: "allocator \<Rightarrow> timestamp \<Rightarrow> int \<Rightarrow> nat \<Rightarrow> tqueue \<Rightarrow> tqueue res" where
  "run_every alloc clk delay cb q =
     bind_r (addTimer alloc clk cb (addTime clk delay) (nat delay) (0 < delay) q) (\<lambda>(_, q'). Inr q')"

definition beat_timers :: "allocator \<Rightarrow> timestamp \<Rightarrow> timestamp \<Rightarrow> int \<Rightarrow> tqueue \<Rightarrow> tqueue res" where
  "beat_timers alloc clk clk' frequency q =
     bind_r (runAfter alloc clk (seconds frequency) 0 q) (\<lambda>(_, q1).
       bind_r (fits 32 (frequency * 2)) (\<lambda>f. run_every alloc clk' (seconds f) 1 q1))"

text \<open>What the callbacks do to the queue, when the clock is \<open>now\<close>.\<close>

definition beat_body :: "int \<Rightarrow> timestamp \<Rightarrow> nat \<Rightarrow> timer_op list" where
  "beat_body frequency now cb =
     (if cb = 0 then [AddTimer 2 (addTime now (seconds (frequency * 2))) (nat (seconds (frequency * 2))) (0 < frequency * 2)] else [])"

text \<open>The sender and the loops it uses in turn: the base loop, and as many loops of the pool as it has threads.\<close>

record 'c beats =
  be_sender :: "'c heartbeat"
  be_address :: "string \<times> 16 word"
  be_loops :: "nat list"

definition start_beats :: "'c cl_env \<Rightarrow> string \<Rightarrow> string \<Rightarrow> int \<Rightarrow> int \<Rightarrow> elpool \<Rightarrow> ('c beats \<times> elpool) res" where
  "start_beats E client ip port loopThreads pool =
     bind_r (cl_connect_call E True (TcpClient_new client)) (\<lambda>c.
       bind_r (EventLoops.deal (nat loopThreads) pool) (\<lambda>(ls, pool').
         Inr (\<lparr>be_sender = heartbeat_new\<lparr>hb_client := c\<rparr>, be_address = (ip, word_of_int port), be_loops = pool_baseLoop pool # ls\<rparr>, pool')))"

section \<open>The programs\<close>

datatype 'p main_end =
    MainPrints string      \<comment> \<open>ended before it served\<close>
  | MainLoops 'p

definition main_until_log :: "string \<Rightarrow> (string \<Rightarrow> (string \<times> 's option) res) \<Rightarrow> ('s \<Rightarrow> log_settings) \<Rightarrow> log_env \<Rightarrow>
    (log_setup \<Rightarrow> 's \<Rightarrow> 'p res) \<Rightarrow> string list \<Rightarrow> 'p main_end res" where
  "main_until_log usage init log_of env run argv =
     (if length argv < 2 then Inr (MainPrints usage)
      else bind_r (init (argv ! 1)) (\<lambda>(out, conf).
        case conf of
          None \<Rightarrow> Inr (MainPrints (out @ ''configuration error, syntax or path''))
        | Some s \<Rightarrow> bind_r (start_log env (log_of s) (argv ! 0)) (\<lambda>lg.
            case lg of
              None \<Rightarrow> Inr (MainPrints (out @ ''log_level error'' @ [LF]))
            | Some l \<Rightarrow> bind_r (run l s) (\<lambda>p. Inr (MainLoops p)))))"

text \<open>\<^verbatim>\<open>threadPool_.start\<close> with a negative number asks for too much memory.\<close>

definition pool_threads :: "int \<Rightarrow> nat res" where
  "pool_threads n = (if n < 0 then Inl (Throws ''length_error'') else Inr (nat n))"

definition server_loops :: "(string \<Rightarrow> nat) \<Rightarrow> nat \<Rightarrow> string \<Rightarrow> int \<Rightarrow> elpool res" where
  "server_loops startLoop base name loopThreads =
     ensure (0 \<le> loopThreads) ''0 <= numThreads''
       (bind_r (pool_start startLoop False True (setThreadNum loopThreads (EventLoopThreadPool_new base name))) (\<lambda>(pool, _). Inr pool))"

record 'c web_process =
  wp_log :: log_setup
  wp_port :: "16 word"
  wp_workers :: nat
  wp_loops :: elpool
  wp_server :: static_server
  wp_wheel_loops :: "nat list"             \<comment> \<open>the loops of \<^verbatim>\<open>map_\<close>, each with \<^verbatim>\<open>onTimer\<close> every second\<close>
  wp_maxConnections :: int
  wp_beats :: "'c beats option"
  wp_timers :: tqueue

text \<open>The value of a floating point number, cut off.\<close>

definition cut_off :: "rat \<Rightarrow> int" where
  "cut_off r = (if 0 \<le> r then \<lfloor>r\<rfloor> else \<lceil>r\<rceil>)"

text \<open>\<^verbatim>\<open>StaticServer::start\<close>; the number of seconds a connection may be idle becomes the number of lists of a wheel.\<close>

definition wheel_lists :: "rat \<Rightarrow> nat res" where
  "wheel_lists idle = (if cut_off idle < 0 then Inl (Undefined ''size_t of a negative double'') else Inr (nat (cut_off idle)))"

definition web_start :: "(string \<Rightarrow> nat) \<Rightarrow> (string \<Rightarrow> rat) \<Rightarrow> nat \<Rightarrow> web_settings \<Rightarrow> (nat \<times> static_server \<times> nat list \<times> elpool) res" where
  "web_start startLoop num base s =
     bind_r (pool_threads (wb_poolThreads s)) (\<lambda>workers.
       bind_r (server_loops startLoop base ''StaticServer'' (wb_loopThreads s)) (\<lambda>pool.
         bind_r (EventLoops.deal (nat (wb_loopThreads s)) pool) (\<lambda>(ls, pool').
           bind_r (if ls = [] then Inr 0 else wheel_lists (num (wb_conn_expire s))) (\<lambda>idle.
             Inr (workers, StaticServer_start (nat (wb_loopThreads s)) idle, ls, pool')))))"

definition web_run :: "'c cl_env \<Rightarrow> (string \<Rightarrow> nat) \<Rightarrow> (string \<Rightarrow> rat) \<Rightarrow> allocator \<Rightarrow> (nat \<Rightarrow> timestamp) \<Rightarrow> nat \<Rightarrow>
    log_setup \<Rightarrow> web_settings \<Rightarrow> 'c web_process res" where
  "web_run E startLoop num alloc now base l s =
     bind_r (web_start startLoop num base s) (\<lambda>(workers, server, wheel_loops, pool).
       bind_r
         (case wb_heartBeat s of (switch, ip, port, frequency) \<Rightarrow>
            if to_lower switch = ''on''
            then bind_r (start_beats E ''HeartBeatChecker'' ip port (wb_loopThreads s) pool) (\<lambda>(b, pool').
                   bind_r (beat_timers alloc (now 0) (now 1) frequency TimerQueue_new) (\<lambda>q. Inr (Some b, pool', q)))
            else Inr (None, pool, TimerQueue_new)) (\<lambda>(b, pool', q).
         bind_r
           (if num (wb_stop_after s) < 1000000
            then bind_r (runAfter alloc (now 2) (cut_off (num (wb_stop_after s) * 1000000)) 3 q) (\<lambda>(_, q'). Inr q')
            else Inr q) (\<lambda>q'.
           Inr \<lparr>wp_log = l, wp_port = word_of_int (wb_port s), wp_workers = workers, wp_loops = pool', wp_server = server,
                wp_wheel_loops = wheel_loops, wp_maxConnections = wb_maxConnections s, wp_beats = b, wp_timers = q'\<rparr>)))"

definition web_usage :: string where
  "web_usage = ''usuage: -configuration_path'' @ [LF] @ ''like: /root/web/CLionProject/tank/staticPage/config.yaml'' @ [LF]"

definition web_main :: "'c cl_env \<Rightarrow> (string \<Rightarrow> nat) \<Rightarrow> (string \<Rightarrow> rat) \<Rightarrow> allocator \<Rightarrow> (nat \<Rightarrow> timestamp) \<Rightarrow> nat \<Rightarrow>
    log_env \<Rightarrow> (string \<Rightarrow> nat list) \<Rightarrow> (string \<Rightarrow> string + yaml) \<Rightarrow> string list \<Rightarrow> 'c web_process main_end res" where
  "web_main E startLoop num alloc now base env md5 load argv =
     main_until_log web_usage (\<lambda>path. web_init md5 (load path)) wb_log env (web_run E startLoop num alloc now base) argv"

text \<open>The FastCGI server always sends heartbeats.\<close>

record 'c cgi_process =
  cp_log :: log_setup
  cp_port :: "16 word"
  cp_workers :: nat
  cp_loops :: elpool
  cp_beats :: "'c beats"
  cp_timers :: tqueue

definition cgi_run :: "'c cl_env \<Rightarrow> (string \<Rightarrow> nat) \<Rightarrow> allocator \<Rightarrow> (nat \<Rightarrow> timestamp) \<Rightarrow> nat \<Rightarrow>
    log_setup \<Rightarrow> cgi_settings \<Rightarrow> 'c cgi_process res" where
  "cgi_run E startLoop alloc now base l s =
     bind_r (pool_threads (cs_poolThreads s)) (\<lambda>workers.
       bind_r (server_loops startLoop base ''CGIServer'' (cs_loopThreads s)) (\<lambda>pool.
         case cs_heartBeat s of (ip, port, frequency) \<Rightarrow>
           bind_r (start_beats E ''HeartBeatBeatCHecker'' ip port (cs_loopThreads s) pool) (\<lambda>(b, pool').
             bind_r (beat_timers alloc (now 0) (now 1) frequency TimerQueue_new) (\<lambda>q.
               Inr \<lparr>cp_log = l, cp_port = word_of_int (cs_port s), cp_workers = workers, cp_loops = pool', cp_beats = b, cp_timers = q\<rparr>))))"

definition cgi_usage :: string where
  "cgi_usage = ''usuage: -configuration_path'' @ [LF] @ ''like: /root/web/CLionProject/tank/fastcgi/config.yaml'' @ [LF]"

definition cgi_main :: "'c cl_env \<Rightarrow> (string \<Rightarrow> nat) \<Rightarrow> allocator \<Rightarrow> (nat \<Rightarrow> timestamp) \<Rightarrow> nat \<Rightarrow>
    log_env \<Rightarrow> (string \<Rightarrow> string + yaml) \<Rightarrow> string list \<Rightarrow> 'c cgi_process main_end res" where
  "cgi_main E startLoop alloc now base env load argv =
     main_until_log cgi_usage (\<lambda>path. cgi_init (load path)) cs_log env (cgi_run E startLoop alloc now base) argv"

text \<open>A wake-up of the timer descriptor of the base loop at \<open>now\<close>: the callbacks that ran.\<close>

definition beat_wakeup :: "allocator \<Rightarrow> int \<Rightarrow> timestamp \<Rightarrow> tqueue \<Rightarrow> (nat list \<times> tqueue) res" where
  "beat_wakeup alloc frequency now q =
     bind_r (tq_handleRead alloc (beat_body frequency now) now now q) (\<lambda>(hist, q').
       Inr (map (\<lambda>p. case t_heap q p of Some t \<Rightarrow> t_callback t | None \<Rightarrow> 0) hist, q'))"

text \<open>Wake-ups once per period after the start at \<open>t0\<close>.\<close>

fun beat_wakeups :: "allocator \<Rightarrow> int \<Rightarrow> timestamp \<Rightarrow> nat \<Rightarrow> tqueue \<Rightarrow> (nat list list \<times> tqueue) res" where
  "beat_wakeups alloc frequency t0 0 q = Inr ([], q)"
| "beat_wakeups alloc frequency t0 (Suc n) q =
     bind_r (beat_wakeups alloc frequency t0 n q) (\<lambda>(rs, q1).
       bind_r (beat_wakeup alloc frequency (t0 + int (Suc n) * seconds frequency) q1) (\<lambda>(r, q2). Inr (rs @ [r], q2)))"

section \<open>Loops in turn\<close>

lemma getNextLoop_exact:
  assumes "pool_ok s"
  shows "getNextLoop True s = Inr (pool_loops s ! nat (pool_next s), s\<lparr>pool_next := int ((nat (pool_next s) + 1) mod length (pool_loops s))\<rparr>)"
proof -
  obtain m where m: "pool_next s = int m" "m < length (pool_loops s)" "pool_started s" "pool_loops s \<noteq> []"
    using assms by (auto simp: pool_ok_def intro: that [of "nat (pool_next s)"])
  then show ?thesis by (cases "m + 1 = length (pool_loops s)") (auto simp: getNextLoop_def in_base_loop_def Let_def)
qed

lemma deal_exact:
  "pool_ok s \<Longrightarrow> EventLoops.deal k s = Inr (map (\<lambda>i. pool_loops s ! ((nat (pool_next s) + i) mod length (pool_loops s))) [0..<k],
     s\<lparr>pool_next := int ((nat (pool_next s) + k) mod length (pool_loops s))\<rparr>)"
proof (induction k arbitrary: s)
  case 0
  then show ?case by (simp add: pool_ok_def)
next
  case (Suc k)
  let ?n = "length (pool_loops s)"
  let ?s = "s\<lparr>pool_next := int ((nat (pool_next s) + 1) mod ?n)\<rparr>"
  have "0 < ?n" using Suc.prems by (auto simp: pool_ok_def)
  then have ok: "pool_ok ?s" using Suc.prems by (simp add: pool_ok_def)
  have upt: "[0..<Suc k] = 0 # map Suc [0..<k]" by (simp add: upt_conv_Cons map_Suc_upt)
  have "nat (pool_next s) mod ?n = nat (pool_next s)" using Suc.prems by (simp add: pool_ok_def)
  then show ?case unfolding upt using Suc.IH [OF ok] by (simp add: getNextLoop_exact [OF Suc.prems] mod_add_left_eq)
qed

text \<open>A pool deals as many loops as it has threads: each of them once, and it is where it was.\<close>

lemma deal_round:
  assumes "server_loops startLoop base name n = Inr pool"
  shows "EventLoops.deal (nat n) pool = Inr (pool_loops pool, pool)" and "pool_baseLoop pool = base" and "pool_next pool = 0"
    and "length (pool_loops pool) = nat n"
proof -
  let ?ls = "map (\<lambda>i. startLoop (name @ show_nat i)) [0..<nat n]"
  have n: "0 \<le> n" and pool: "pool_loops pool = ?ls" "pool_started pool" "pool_next pool = 0" "pool_baseLoop pool = base"
    using assms by (auto simp: server_loops_def pool_start_def setThreadNum_def EventLoopThreadPool_new_def in_base_loop_def Let_def ensure_eq_Inr)
  from pool show "pool_baseLoop pool = base" "pool_next pool = 0" "length (pool_loops pool) = nat n" by simp_all
  show "EventLoops.deal (nat n) pool = Inr (pool_loops pool, pool)"
  proof (cases "n = 0")
    case True
    with pool show ?thesis by simp
  next
    case False
    with n pool have ok: "pool_ok pool" by (simp add: pool_ok_def)
    have len: "length (pool_loops pool) = nat n" using pool by simp
    have "map (\<lambda>i. pool_loops pool ! ((nat (pool_next pool) + i) mod nat n)) [0..<nat n] = pool_loops pool"
      using pool(3) by (intro nth_equalityI) (simp_all add: len)
    then show ?thesis using deal_exact [OF ok, of "nat n"] pool(3) by (simp add: len)
  qed
qed

lemma server_loops_start: "0 \<le> n \<Longrightarrow> \<exists>pool. server_loops startLoop base name n = Inr pool"
  by (simp add: server_loops_def pool_start_def setThreadNum_def EventLoopThreadPool_new_def in_base_loop_def Let_def)

section \<open>Timers of the start\<close>

lemma run_every_ok: "tq_ok {} q \<Longrightarrow> alloc_ok alloc \<Longrightarrow> unless_oom (run_every alloc clk delay cb q) (tq_ok {})"
  unfolding run_every_def by (rule unless_oom_bindI [OF addTimer_spec]) auto

lemma runAfter_ok: "tq_ok {} q \<Longrightarrow> alloc_ok alloc \<Longrightarrow> unless_oom (runAfter alloc clk delay cb q) (\<lambda>(_, q'). tq_ok {} q')"
  unfolding runAfter_def runAt_def by (rule unless_oom_mono [OF addTimer_spec]) auto

lemma beat_timers_ok:
  assumes "tq_ok {} q" and "alloc_ok alloc" and "- (2 ^ 30) \<le> frequency" and "frequency < 2 ^ 30"
  shows "unless_oom (beat_timers alloc clk clk' frequency q) (tq_ok {})"
  unfolding beat_timers_def
  by (rule unless_oom_bindI [OF runAfter_ok [OF assms(1,2)]])
    (use assms in \<open>auto simp: fits_def intro: run_every_ok\<close>)

section \<open>Properties\<close>

text \<open>The cases in which a program ends before it serves, with what it prints.\<close>

theorem main_ends_early:
  "length argv < 2 \<Longrightarrow> main_until_log usage init log_of env run argv = Inr (MainPrints usage)"
  "2 \<le> length argv \<Longrightarrow> init (argv ! 1) = Inr (out, None) \<Longrightarrow>
     main_until_log usage init log_of env run argv = Inr (MainPrints (out @ ''configuration error, syntax or path''))"
  "2 \<le> length argv \<Longrightarrow> init (argv ! 1) = Inr (out, Some s) \<Longrightarrow> parse_log_level (ls_level (log_of s)) = None \<Longrightarrow>
     main_until_log usage init log_of env run argv = Inr (MainPrints (out @ ''log_level error'' @ [LF]))"
  by (simp_all add: main_until_log_def start_log_def)

text \<open>
  The web server starts when its configuration can be read, the level of the log is one of the six names in any case, its path has a slash and
  the numbers of threads and of idle seconds are not negative. It then looks for connections in its loops with: the log under the name of the
  program, at the level asked for; a wheel of idle connections for each loop, once; when heartbeats are on, a client that is connecting, and the base
  loop and every loop of the pool, once, to send in turn; the pool deals connections from its first loop; the timers are in order.
\<close>

theorem web_main_starts:
  assumes "2 \<le> length argv" and "web_init md5 (load (argv ! 1)) = Inr (out, Some s)"
    and "parse_log_level (ls_level (wb_log s)) = Some level" and "CHR ''/'' \<in> set (argv ! 0)"
    and "0 \<le> wb_poolThreads s" and "0 \<le> wb_loopThreads s" and "alloc_ok alloc"
    and "wb_heartBeat s = (switch, ip, port, frequency)" and "- (2 ^ 30) \<le> frequency" and "frequency < 2 ^ 30"
    and "cl_connect_call E True (TcpClient_new ''HeartBeatChecker'') = Inr c" and "0 \<le> num (wb_conn_expire s)"
  shows "unless_oom (web_main E startLoop num alloc now base env md5 load argv) (\<lambda>r. \<exists>p. r = MainLoops p \<and>
    lu_level (wp_log p) = level \<and> al_running (lu_logging (wp_log p)) \<and>
    al_basename (lu_logging (wp_log p)) = ls_path (wb_log s) @ SourceFile (argv ! 0) \<and>
    wp_wheel_loops p = pool_loops (wp_loops p) \<and> length (ss_wheels (wp_server p)) = length (pool_loops (wp_loops p)) \<and>
    length (pool_loops (wp_loops p)) = nat (wb_loopThreads s) \<and> pool_next (wp_loops p) = 0 \<and> tq_ok {} (wp_timers p) \<and>
    (case wp_beats p of
       None \<Rightarrow> to_lower switch \<noteq> ''on''
     | Some b \<Rightarrow> to_lower switch = ''on'' \<and> be_loops b = base # pool_loops (wp_loops p) \<and> hb_client (be_sender b) = c))"
proof -
  obtain pool where pool: "server_loops startLoop base ''StaticServer'' (wb_loopThreads s) = Inr pool"
    using server_loops_start [OF assms(6)] by blast
  note round = deal_round [OF pool]
  let ?server = "StaticServer_start (nat (wb_loopThreads s)) (if pool_loops pool = [] then 0 else nat (cut_off (num (wb_conn_expire s))))"
  have "0 \<le> cut_off (num (wb_conn_expire s))" using assms(12) by (simp add: cut_off_def)
  let ?log = "\<lparr>lu_timeZone = ls_rollZoneTime (wb_log s), lu_level = level,
      lu_logging = al_start (AsyncLogging_new env (ls_path (wb_log s) @ SourceFile (argv ! 0)) (ls_maxSize (wb_log s))
        (ls_rollDaySeconds (wb_log s)) (ls_rollZoneTime (wb_log s))), lu_flush = ls_IOFrequency (wb_log s)\<rparr>"
  have log: "start_log env (wb_log s) (argv ! 0) = Inr (Some ?log)"
    using assms(3,4) by (simp add: start_log_def logBaseName_exact)
  have server: "web_start startLoop num base s = Inr (nat (wb_poolThreads s), ?server, pool_loops pool, pool)"
    using \<open>0 \<le> cut_off _\<close> assms(5) pool round(1) by (simp add: web_start_def pool_threads_def wheel_lists_def)
  have stop: "unless_oom (if num (wb_stop_after s) < 1000000
      then bind_r (runAfter alloc (now 2) (cut_off (num (wb_stop_after s) * 1000000)) 3 q) (\<lambda>(_, q'). Inr q') else Inr q) (tq_ok {})"
    if "tq_ok {} q" for q
    using that by (auto intro!: unless_oom_bindI [OF runAfter_ok [OF that assms(7)]])
  have beats: "unless_oom (case wb_heartBeat s of (switch, ip, port, frequency) \<Rightarrow>
      if to_lower switch = ''on''
      then bind_r (start_beats E ''HeartBeatChecker'' ip port (wb_loopThreads s) pool) (\<lambda>(b, pool').
             bind_r (beat_timers alloc (now 0) (now 1) frequency TimerQueue_new) (\<lambda>q. Inr (Some b, pool', q)))
      else Inr (None, pool, TimerQueue_new)) (\<lambda>(b, pool', q). pool' = pool \<and> tq_ok {} q \<and>
        (case b of None \<Rightarrow> to_lower switch \<noteq> ''on''
         | Some b \<Rightarrow> to_lower switch = ''on'' \<and> be_loops b = base # pool_loops pool \<and> hb_client (be_sender b) = c))"
    using assms(8,11) round(1,2) TimerQueue_new_ok
    by (auto simp: start_beats_def intro!: unless_oom_bindI [OF beat_timers_ok [OF TimerQueue_new_ok assms(7,9,10)]])
  have "unless_oom (web_run E startLoop num alloc now base ?log s) (\<lambda>p. wp_log p = ?log \<and> wp_loops p = pool \<and> wp_server p = ?server \<and>
      wp_wheel_loops p = pool_loops pool \<and> tq_ok {} (wp_timers p) \<and>
      (case wp_beats p of None \<Rightarrow> to_lower switch \<noteq> ''on''
       | Some b \<Rightarrow> to_lower switch = ''on'' \<and> be_loops b = base # pool_loops pool \<and> hb_client (be_sender b) = c))"
    unfolding web_run_def server bind_r_simps split_conv
    by (rule unless_oom_bindI [OF beats]) (auto intro!: unless_oom_bindI [OF stop])
  then show ?thesis
    using assms(1,2) log round(3,4)
    by (auto simp: web_main_def main_until_log_def StaticServer_start_def al_start_def AsyncLogging_new_def elim!: unless_oom_bindI)
qed

section \<open>Heartbeats in time\<close>

lemma run_quiet:
  "\<forall>e \<in> set es. \<exists>t. t_heap q (snd e) = Some t \<and> body (t_callback t) = [] \<Longrightarrow>
     fold_r (run_timer alloc body clk) es (q, hist) = Inr (q, hist @ map snd es)"
  by (induction es arbitrary: hist) (auto simp: run_timer_def t_deref_def)

lemma expired_keys: "set (expired_part now q) = {k \<in> t_keys (timers q). fst k \<le> now}"
  by (auto simp: expired_part_def t_keys_def image_iff)

lemma pending_timer:
  assumes "tq_ok {} q" and "(e, p) \<in> t_keys (timers q)"
  obtains t where "t_heap q p = Some t" and "t_expiration t = e"
  using assms tq_timers_iff [of "{}" q e p] by (auto simp: tq_ok_def)

text \<open>A wake-up at which the callbacks leave the queue alone, and none is cancelled.\<close>

lemma handleRead_quiet:
  assumes ok: "tq_ok {} q" and now: "0 < now"
    and quiet: "\<forall>k \<in> t_keys (timers q). fst k \<le> now \<longrightarrow> (\<forall>t. t_heap q (snd k) = Some t \<longrightarrow> body (t_callback t) = [])"
  shows "\<exists>q'. tq_handleRead alloc body clk now q = Inr (map snd (expired_part now q), q') \<and> tq_ok {} q' \<and>
    (\<forall>p. t_heap q' p = (if p \<in> snd ` set (expired_part now q) then reset_part now [] (t_heap q) p else t_heap q p)) \<and>
    t_keys (timers q') = {k \<in> t_keys (timers q). now < fst k} \<union>
      {(t_expiration t, p) | t p. p \<in> snd ` set (expired_part now q) \<and> reset_part now [] (t_heap q) p = Some t}"
proof -
  let ?X = "expired_part now q" and ?E = "snd ` set (expired_part now q)"
  from getExpired_spec [OF ok, of now] obtain q1 where
    q1: "getExpired now q = Inr (?X, q1)" "tq_ok ?E q1" "distinct (map snd ?X)" "t_heap q1 = t_heap q"
      "t_keys (timers q1) = {k \<in> t_keys (timers q). now < fst k}" by blast
  let ?q1 = "q1\<lparr>callingExpiredTimers := True, cancelingTimers := []\<rparr>"
  have run: "fold_r (run_timer alloc body clk) ?X (?q1, []) = Inr (?q1, map snd ?X)"
  proof (subst run_quiet)
    show "\<forall>e \<in> set ?X. \<exists>t. t_heap ?q1 (snd e) = Some t \<and> body (t_callback t) = []"
    proof
      fix k assume "k \<in> set ?X"
      then have k: "(fst k, snd k) \<in> t_keys (timers q)" "fst k \<le> now" by (simp_all add: expired_keys)
      from pending_timer [OF ok k(1)] obtain t where t: "t_heap q (snd k) = Some t" by blast
      with quiet k show "\<exists>t. t_heap ?q1 (snd k) = Some t \<and> body (t_callback t) = []" by (simp add: q1(4))
    qed
  qed simp
  let ?q2 = "?q1\<lparr>callingExpiredTimers := False\<rparr>"
  have inv: "tq_inv ?E ?q2" "armed_early ?q2" using q1(2) by (simp_all add: tq_ok_def tq_inv_def armed_early_def armed_by_def)
  from tq_reset_spec [OF inv(1) q1(3) inv(2) now, of clk] obtain q3 where
    q3: "tq_reset clk now ?X ?q2 = Inr q3" "tq_ok {} q3"
      "\<forall>p. t_heap q3 p = (if p \<in> ?E then reset_part now [] (t_heap q) p else t_heap q p)"
      "t_keys (timers q3) = t_keys (timers q1) \<union> {(t_expiration t, p) | t p. p \<in> ?E \<and> reset_part now [] (t_heap q) p = Some t}"
    by (auto simp: q1(4))
  with q1(1,5) run show ?thesis by (auto simp: tq_handleRead_def)
qed

text \<open>
  After \<open>k\<close> periods: the timer of the next period and that of the one after it are pending, the loop's for even
  and the pool's for odd numbers.
\<close>

definition sender_of :: "nat \<Rightarrow> nat" where
  "sender_of j = (if even j then 1 else 2)"

definition beat_timer :: "int \<Rightarrow> timestamp \<Rightarrow> nat \<Rightarrow> timer \<Rightarrow> bool" where
  "beat_timer frequency t0 j t \<longleftrightarrow> t_callback t = sender_of j \<and> t_repeat t \<and> t_interval t = nat (2 * seconds frequency) \<and>
     t_expiration t = t0 + int j * seconds frequency"

definition beat_state :: "int \<Rightarrow> timestamp \<Rightarrow> nat \<Rightarrow> tqueue \<Rightarrow> bool" where
  "beat_state frequency t0 k q \<longleftrightarrow> tq_ok {} q \<and> (\<exists>p p' t t'. p \<noteq> p' \<and> t_heap q p = Some t \<and> t_heap q p' = Some t' \<and>
     beat_timer frequency t0 (k + 1) t \<and> beat_timer frequency t0 (k + 2) t' \<and>
     t_keys (timers q) = {(t_expiration t, p), (t_expiration t', p')})"

lemma distinct_singleton: "distinct xs \<Longrightarrow> set xs = {x} \<Longrightarrow> xs = [x]"
  by (cases xs; cases "tl xs") (auto simp: insert_eq_iff)

lemma expired_distinct: "tq_ok {} q \<Longrightarrow> distinct (expired_part now q)"
  using getExpired_spec [of q now] by (auto simp: distinct_map)

lemma seconds_pos: "0 < f \<Longrightarrow> 0 < seconds f"
  by (simp add: seconds_def kMicroSecondsPerSecond_def)

lemma seconds_double: "seconds (f * 2) = 2 * seconds f"
  by (simp add: seconds_def)

lemma beat_step:
  assumes st: "beat_state f t0 k q" and f: "0 < f" and t0: "0 < t0"
  shows "\<exists>q'. beat_wakeup alloc f (t0 + int (Suc k) * seconds f) q = Inr ([sender_of (Suc k)], q') \<and> beat_state f t0 (Suc k) q'"
proof -
  define now where "now = t0 + int (Suc k) * seconds f"
  let ?F = "seconds f" and ?now = now
  note F = seconds_pos [OF f]
  from st obtain p p' t t' where ok: "tq_ok {} q" and p: "p \<noteq> p'" "t_heap q p = Some t" "t_heap q p' = Some t'"
    and t: "beat_timer f t0 (k + 1) t" and t': "beat_timer f t0 (k + 2) t'" and keys: "t_keys (timers q) = {(t_expiration t, p), (t_expiration t', p')}"
    unfolding beat_state_def by blast
  have e: "t_expiration t = ?now" using t by (simp add: beat_timer_def now_def)
  have e': "?now < t_expiration t'" using t' F by (simp add: beat_timer_def now_def algebra_simps)
  have X: "expired_part ?now q = [(?now, p)]"
  proof (rule distinct_singleton [OF expired_distinct [OF ok]])
    show "set (expired_part ?now q) = {(?now, p)}" unfolding expired_keys keys e using e' by auto
  qed
  have now: "0 < ?now" using t0 F by (simp add: now_def add_pos_nonneg)
  have "t_callback t \<noteq> 0" using t by (simp add: beat_timer_def sender_of_def)
  then have quiet: "\<forall>k \<in> t_keys (timers q). fst k \<le> ?now \<longrightarrow> (\<forall>u. t_heap q (snd k) = Some u \<longrightarrow> beat_body f ?now (t_callback u) = [])"
    using p(2) e' by (auto simp: keys e beat_body_def)
  from handleRead_quiet [OF ok now quiet, of alloc ?now] obtain q' where
    q': "tq_handleRead alloc (beat_body f ?now) ?now ?now q = Inr ([p], q')" "tq_ok {} q'"
      "\<And>r. t_heap q' r = (if r = p then reset_part ?now [] (t_heap q) p else t_heap q r)"
      "t_keys (timers q') = {x \<in> t_keys (timers q). ?now < fst x} \<union> {(t_expiration u, p) | u. reset_part ?now [] (t_heap q) p = Some u}"
    by (auto simp: X)
  have part: "reset_part ?now [] (t_heap q) p = Some (restart ?now t)" using p(2) t by (simp add: reset_part_def beat_timer_def t_keys_def)
  have int: "int (nat (2 * ?F)) = 2 * ?F" using F by simp
  have next_: "beat_timer f t0 (Suc k + 2) (restart ?now t)"
    using t int by (simp add: beat_timer_def restart_def addTime_def sender_of_def now_def algebra_simps)
  have "t_keys (timers q') = {(t_expiration t', p'), (t_expiration (restart ?now t), p)}"
    unfolding q'(4) keys part e using e' by auto
  moreover have "beat_timer f t0 (Suc k + 1) t'" using t' by simp
  ultimately have "beat_state f t0 (Suc k) q'"
    unfolding beat_state_def using q'(2,3) p part next_ by (intro conjI exI [of _ p'] exI [of _ p] exI [of _ t'] exI [of _ "restart ?now t"]) simp_all
  moreover have "t_callback t = sender_of (Suc k)" using t by (simp add: beat_timer_def)
  ultimately show ?thesis unfolding now_def [symmetric] using q'(1) p(2) by (simp add: beat_wakeup_def)
qed

text \<open>A timer that was added.\<close>

lemma addTimer_result:
  assumes "addTimer alloc clk cb due interval rpt q = Inr (r, q')"
  shows "\<exists>p t. alloc (t_heap q) = Some p \<and> t_callback t = cb \<and> t_expiration t = due \<and> t_interval t = interval \<and> t_repeat t = rpt \<and>
    t_heap q' = (t_heap q)(p := Some t) \<and> t_keys (timers q') = insert (due, p) (t_keys (timers q)) \<and> cancelingTimers q' = cancelingTimers q"
proof (cases "alloc (t_heap q)")
  case None
  with assms show ?thesis by (simp add: addTimer_def)
next
  case (Some p)
  let ?t = "\<lparr>t_callback = cb, t_expiration = due, t_interval = interval, t_repeat = rpt, t_sequence = numCreated q + 1\<rparr>"
  have "t_heap q' = (t_heap q)(p := Some ?t) \<and> t_keys (timers q') = insert (due, p) (t_keys (timers q)) \<and> cancelingTimers q' = cancelingTimers q"
    using assms Some
    by (auto simp: addTimer_def addTimerInLoop_def tq_insert_def t_deref_def resetTimerfd_def bind_r_eq_Inr ensure_eq_Inr Let_def split: if_splits)
  with Some show ?thesis by (intro exI [of _ p] exI [of _ ?t]) simp
qed

lemma beat_start:
  assumes alloc: "alloc_ok alloc" and f: "0 < f" "f < 2 ^ 30" and q: "beat_timers alloc t0 t0 f TimerQueue_new = Inr q"
  shows "\<exists>p p' t t'. p \<noteq> p' \<and> t_heap q p = Some t \<and> t_heap q p' = Some t' \<and> t_callback t = 0 \<and> \<not> t_repeat t \<and>
    t_expiration t = t0 + seconds f \<and> beat_timer f t0 2 t' \<and> t_keys (timers q) = {(t0 + seconds f, p), (t_expiration t', p')}"
proof -
  have "fits 32 (f * 2) = Inr (f * 2)" using f by (simp add: fits_def)
  with q obtain r q1 r2 where a: "addTimer alloc t0 0 (t0 + seconds f) 0 False TimerQueue_new = Inr (r, q1)"
    and b: "addTimer alloc t0 1 (t0 + 2 * seconds f) (nat (2 * seconds f)) True q1 = Inr (r2, q)"
    using seconds_pos [OF f(1)]
    by (auto simp: beat_timers_def runAfter_def runAt_def run_every_def addTime_def bind_r_eq_Inr seconds_double)
  from addTimer_result [OF a] obtain p t where p: "t_callback t = 0" "t_expiration t = t0 + seconds f" "\<not> t_repeat t"
    "t_heap q1 = [p \<mapsto> t]" "t_keys (timers q1) = {(t0 + seconds f, p)}" by (auto simp: TimerQueue_new_def t_keys_def)
  from addTimer_result [OF b] obtain p' t' where p': "alloc (t_heap q1) = Some p'" "t_callback t' = 1" "t_expiration t' = t0 + 2 * seconds f"
    "t_interval t' = nat (2 * seconds f)" "t_repeat t'" "t_heap q = (t_heap q1)(p' := Some t')"
    "t_keys (timers q) = insert (t0 + 2 * seconds f, p') (t_keys (timers q1))" by auto
  have "t_heap q1 p' = None" using alloc p'(1) by (simp add: alloc_ok_def)
  then have diff: "p \<noteq> p'" using p(4) by auto
  then have heap: "t_heap q p = Some t" "t_heap q p' = Some t'" using p(4) p'(6) by simp_all
  have keys: "t_keys (timers q) = {(t0 + seconds f, p), (t_expiration t', p')}" unfolding p'(3,7) p(5) by (rule insert_commute)
  have "beat_timer f t0 2 t'" using p'(2-5) by (simp add: beat_timer_def sender_of_def)
  with diff heap p(1-3) keys show ?thesis by blast
qed

text \<open>The first wake-up starts the timer of the pool.\<close>

lemma beat_first:
  assumes alloc: "alloc_ok alloc" and f: "0 < f" "f < 2 ^ 30" and t0: "0 < t0" and ok: "tq_ok {} q"
    and q: "beat_timers alloc t0 t0 f TimerQueue_new = Inr q"
  shows "unless_oom (beat_wakeup alloc f (t0 + seconds f) q) (\<lambda>(r, q'). r = [0] \<and> beat_state f t0 1 q')"
proof -
  let ?F = "seconds f" and ?now = "t0 + seconds f"
  note F = seconds_pos [OF f(1)]
  from beat_start [OF alloc f q] obtain p p' t t' where p: "p \<noteq> p'" "t_heap q p = Some t" "t_heap q p' = Some t'" "t_callback t = 0" "\<not> t_repeat t"
    "t_expiration t = ?now" "beat_timer f t0 2 t'" "t_keys (timers q) = {(?now, p), (t_expiration t', p')}" by blast
  have e': "?now < t_expiration t'" using p(7) F by (simp add: beat_timer_def)
  have X: "expired_part ?now q = [(?now, p)]"
    by (rule distinct_singleton [OF expired_distinct [OF ok]]) (use e' in \<open>auto simp: expired_keys p(8)\<close>)
  from getExpired_spec [OF ok, of ?now] obtain q1 where
    q1: "getExpired ?now q = Inr ([(?now, p)], q1)" "tq_ok {p} q1" "t_heap q1 = t_heap q"
      "t_keys (timers q1) = {k \<in> t_keys (timers q). ?now < fst k}" by (auto simp: X)
  let ?q1 = "q1\<lparr>callingExpiredTimers := True, cancelingTimers := []\<rparr>"
  have ok1: "tq_ok {p} ?q1" using q1(2) by (simp add: tq_ok_def tq_inv_def armed_early_def armed_by_def)
  let ?due = "?now + 2 * ?F" and ?iv = "nat (2 * ?F)"
  have ops: "beat_body f ?now 0 = [AddTimer 2 ?due ?iv True]" using F by (simp add: beat_body_def addTime_def seconds_double f)
  have run: "fold_r (run_timer alloc (beat_body f ?now) ?now) [(?now, p)] (?q1, []) =
      bind_r (addTimer alloc ?now 2 ?due ?iv True ?q1) (\<lambda>(_, q2). Inr (q2, [p]))"
    using p(2,4) by (cases "addTimer alloc ?now 2 ?due ?iv True ?q1") (auto simp: run_timer_def t_deref_def q1(3) ops)
  show ?thesis
  proof (cases "addTimer alloc ?now 2 ?due ?iv True ?q1")
    case (Inl e)
    with addTimer_spec [OF ok1 alloc, of ?now 2 ?due ?iv True] q1(1) run show ?thesis by (simp add: beat_wakeup_def tq_handleRead_def)
  next
    case (Inr rq)
    obtain r2 q2 where rq: "rq = (r2, q2)" by (cases rq)
    have ok2: "tq_ok {p} q2" using addTimer_spec [OF ok1 alloc, of ?now 2 ?due ?iv True] Inr rq by simp
    from addTimer_result [OF Inr [unfolded rq]] obtain r u where r: "alloc (t_heap q) = Some r" "t_callback u = 2" "t_expiration u = ?due"
      "t_interval u = ?iv" "t_repeat u" "t_heap q2 = (t_heap q)(r := Some u)" "t_keys (timers q2) = insert (?due, r) (t_keys (timers q1))"
      "cancelingTimers q2 = []" by (auto simp: q1(3))
    have "t_heap q r = None" using alloc r(1) by (simp add: alloc_ok_def)
    then have diff: "r \<noteq> p" "r \<noteq> p'" using p(2,3) by auto
    let ?q2 = "q2\<lparr>callingExpiredTimers := False\<rparr>"
    have inv: "tq_inv (snd ` set [(?now, p)]) ?q2" "armed_early ?q2" using ok2 by (simp_all add: tq_ok_def tq_inv_def armed_early_def armed_by_def)
    have now: "0 < ?now" using t0 F by simp
    have gone: "reset_part ?now [] (t_heap q2) p = None" using diff p(2,5) by (simp add: reset_part_def r(6))
    from tq_reset_spec [OF inv(1) _ inv(2) now, of ?now] obtain q3 where
      q3: "tq_reset ?now ?now [(?now, p)] ?q2 = Inr q3" "tq_ok {} q3" "\<And>x. t_heap q3 x = (if x = p then None else t_heap q2 x)"
        "t_keys (timers q3) = t_keys (timers q2)" by (auto simp: r(8) gone)
    have keys: "t_keys (timers q3) = {(t_expiration t', p'), (t_expiration u, r)}"
      unfolding q3(4) r(7) q1(4) p(8) using e' r(3) by auto
    have "beat_timer f t0 3 u" using r F by (simp add: beat_timer_def sender_of_def)
    then have "beat_state f t0 1 q3"
      unfolding beat_state_def using q3(2,3) r(6) diff p keys
      by (intro conjI exI [of _ p'] exI [of _ r] exI [of _ t'] exI [of _ u]) (simp_all add: eval_nat_numeral)
    with q1(1) run Inr rq q3(1) p(2,4) show ?thesis by (simp add: beat_wakeup_def tq_handleRead_def)
  qed
qed

lemma beats_go_on:
  assumes f: "0 < f" and t0: "0 < t0" and first: "unless_oom (beat_wakeups alloc f t0 1 q) (\<lambda>(rs, q'). rs = [[0]] \<and> beat_state f t0 1 q')"
  shows "unless_oom (beat_wakeups alloc f t0 (Suc n) q) (\<lambda>(rs, q'). rs = [0] # map (\<lambda>j. [sender_of j]) [2..<Suc (Suc n)] \<and> beat_state f t0 (Suc n) q')"
proof (induction n)
  case 0
  from first [unfolded One_nat_def] show ?case by (rule unless_oom_mono) auto
next
  case (Suc n)
  show ?case
    unfolding beat_wakeups.simps(2) [of _ _ _ "Suc n"]
  proof (rule unless_oom_bindI [OF Suc.IH])
    fix x assume "case x of (rs, q') \<Rightarrow> rs = [0] # map (\<lambda>j. [sender_of j]) [2..<Suc (Suc n)] \<and> beat_state f t0 (Suc n) q'"
    then obtain q1 where x: "x = ([0] # map (\<lambda>j. [sender_of j]) [2..<Suc (Suc n)], q1)" "beat_state f t0 (Suc n) q1" by (cases x) auto
    from beat_step [OF x(2) f t0, of alloc] x(1)
    show "unless_oom (case x of (rs, q1) \<Rightarrow> bind_r (beat_wakeup alloc f (t0 + int (Suc (Suc n)) * seconds f) q1) (\<lambda>(r, q2). Inr (rs @ [r], q2)))
        (\<lambda>(rs, q'). rs = [0] # map (\<lambda>j. [sender_of j]) [2..<Suc (Suc (Suc n))] \<and> beat_state f t0 (Suc (Suc n)) q')"
      by auto
  qed
qed

text \<open>
  Heartbeats: with the timers as \<^verbatim>\<open>main\<close> sets them at \<open>t0\<close> and wake-ups on time, nothing is sent in the first period, and from the second on one
  heartbeat per period, alternately by a loop and by a thread of the pool, which the first wake-up had arranged.
\<close>

theorem heartbeats_alternate:
  assumes "alloc_ok alloc" and "0 < f" and "f < 2 ^ 30" and "0 < t0"
  shows "unless_oom (bind_r (beat_timers alloc t0 t0 f TimerQueue_new) (beat_wakeups alloc f t0 (Suc n)))
    (\<lambda>(rs, _). rs = [0] # map (\<lambda>j. if even j then [1] else [2]) [2..<Suc (Suc n)])"
proof (cases "beat_timers alloc t0 t0 f TimerQueue_new")
  case (Inl e)
  with beat_timers_ok [OF TimerQueue_new_ok assms(1) _ assms(3), of t0 t0] assms(2) show ?thesis by simp
next
  case (Inr q)
  have ok: "tq_ok {} q" using beat_timers_ok [OF TimerQueue_new_ok assms(1) _ assms(3), of t0 t0] assms(2) Inr by simp
  have "unless_oom (beat_wakeups alloc f t0 1 q) (\<lambda>(rs, q'). rs = [[0]] \<and> beat_state f t0 1 q')"
    using beat_first [OF assms ok Inr] by (auto intro: unless_oom_bindI)
  from beats_go_on [OF assms(2,4) this, of n] Inr show ?thesis
    by (auto simp: sender_of_def if_distrib cong: if_cong elim!: unless_oom_mono)
qed

end
