(* ===== verification/MonitorMains.thy ===== *)
theory MonitorMains
  imports Mains Procmons
begin

text \<open>
  The programs of the monitors and the stop of the web server: \<^verbatim>\<open>main\<close> of \<^verbatim>\<open>monitor/procmon/procmon.cc\<close> and of \<^verbatim>\<open>monitor/heartBeatMonitor.cpp\<close>,
  \<^verbatim>\<open>StaticServer::stop\<close> and \<^verbatim>\<open>StaticServer::highWaterMark\<close> of \<^verbatim>\<open>webServer/staticServer.cpp\<close>.

  Both monitors do their work in one repeating timer of the loop; the state of the program and the timer queue are composed. The properties: when the
  program starts and what it prints otherwise; a wake-up of the timer descriptor once per period does the work once per
  period, for ever; \<^verbatim>\<open>stop\<close> asks every loop of the pool to quit, once.
\<close>

section \<open>Work once per period\<close>

text \<open>
  \<^verbatim>\<open>runEvery(period, work)\<close> as the only timer: at each wake-up the callbacks that are due do their \<open>work\<close>. What the work sees of its surroundings is a list, one entry per wake-up.
\<close>

definition start_every :: "allocator \<Rightarrow> timestamp \<Rightarrow> int \<Rightarrow> tqueue res" where
  "start_every alloc clk period = run_every alloc clk period 0 TimerQueue_new"

definition work_wakeup :: "allocator \<Rightarrow> ('e \<Rightarrow> 's \<Rightarrow> 's res) \<Rightarrow> timestamp \<Rightarrow> 'e \<Rightarrow> 's \<times> tqueue \<Rightarrow> ('s \<times> tqueue) res" where
  "work_wakeup alloc work now env = (\<lambda>(s, q).
     bind_r (tq_handleRead alloc (\<lambda>_. []) now now q) (\<lambda>(hist, q').
       bind_r (fold_r (\<lambda>_. work env) hist s) (\<lambda>s'. Inr (s', q'))))"

fun work_wakeups :: "allocator \<Rightarrow> ('e \<Rightarrow> 's \<Rightarrow> 's res) \<Rightarrow> int \<Rightarrow> timestamp \<Rightarrow> 'e list \<Rightarrow> 's \<times> tqueue \<Rightarrow> ('s \<times> tqueue) res" where
  "work_wakeups alloc work period t [] sq = Inr sq"
| "work_wakeups alloc work period t (env # envs) sq =
     bind_r (work_wakeup alloc work (t + period) env sq) (work_wakeups alloc work period (t + period) envs)"

section \<open>The programs\<close>

text \<open>\<open>acc\<close>: \<^verbatim>\<open>access(filename, R_OK) == 0\<close>.\<close>

definition processExists :: "(string \<Rightarrow> bool) \<Rightarrow> int \<Rightarrow> bool" where
  "processExists acc pid = acc (take 255 (''/proc/'' @ show_int pid @ ''/stat''))"

definition procmon_name :: "int \<Rightarrow> string" where
  "procmon_name pid = take 255 (''procmon-'' @ show_int pid)"

record procmon_process =
  pp_name :: string                  \<comment> \<open>of the HTTP server\<close>
  pp_port :: "16 word"
  pp_monitor :: procmon
  pp_timers :: tqueue

definition Procmon_start :: "allocator \<Rightarrow> timestamp \<Rightarrow> procmon_env \<Rightarrow> procmon \<Rightarrow> (procmon \<times> tqueue) res" where
  "Procmon_start alloc clk env pm =
     bind_r (pm_tick env pm) (\<lambda>pm1. bind_r (start_every alloc clk (seconds (int kPeriod))) (\<lambda>q. Inr (pm1, q)))"

definition procmon_main :: "allocator \<Rightarrow> timestamp \<Rightarrow> (string \<Rightarrow> bool) \<Rightarrow> procmon_env \<Rightarrow> int \<Rightarrow> int \<Rightarrow> string \<Rightarrow> string list \<Rightarrow>
    (int \<times> procmon_process main_end) res" where
  "procmon_main alloc clk acc env clockTicks pageSize hostname argv =
     (if length argv < 3 then Inr (0, MainPrints (''Usage: '' @ argv ! 0 @ '' pid port [name]'' @ [LF]))
      else
        (let pid = c_atoi (argv ! 1)
         in if \<not> processExists acc pid then Inr (1, MainPrints (''Process '' @ show_int pid @ [CHR '' ''] @ ''doesn'' @ [CHR 0x27] @ ''t exist.'' @ [LF]))
            else bind_r (Procmon_start alloc clk env (Procmon_new env clockTicks pageSize pid (if 3 < length argv then Some (argv ! 3) else None) hostname))
              (\<lambda>(pm, q). Inr (0, MainLoops \<lparr>pp_name = procmon_name pid, pp_port = word_of_int (c_atoi (argv ! 2)), pp_monitor = pm, pp_timers = q\<rparr>))))"

record heart_process =
  hp_name :: string
  hp_port :: "16 word"
  hp_level :: log_level
  hp_monitor :: monitor
  hp_timers :: tqueue

definition heart_main :: "allocator \<Rightarrow> timestamp \<Rightarrow> heart_process res" where
  "heart_main alloc clk =
     bind_r (start_every alloc clk (seconds 5)) (\<lambda>q.
       Inr \<lparr>hp_name = ''HeartBeatChecker'', hp_port = 8088, hp_level = INFO, hp_monitor = monitor_new, hp_timers = q\<rparr>)"

text \<open>What happens in five seconds: messages, connections that come up or go down, and at the end the display.\<close>

datatype heart_event = HeartMessage int nat string | HeartConnection nat

fun heart_do :: "heart_event \<Rightarrow> monitor \<Rightarrow> monitor" where
  "heart_do (HeartMessage now conn identity) m = mo_onMessage now conn identity m"
| "heart_do (HeartConnection conn) m = mo_onConnection conn m"

definition heart_period :: "(int \<Rightarrow> string) \<Rightarrow> heart_event list \<times> int \<times> string list \<Rightarrow> monitor \<Rightarrow> monitor" where
  "heart_period ctime = (\<lambda>(evs, now, order) m. snd (displayStatus ctime now order (fold heart_do evs m)))"

text \<open>\<^verbatim>\<open>StaticServer::stop\<close>: the loops that are asked to quit.\<close>

definition web_stop :: "int \<Rightarrow> elpool \<Rightarrow> (nat list \<times> elpool) res" where
  "web_stop loopThreads pool = EventLoops.deal (nat loopThreads) pool"

text \<open>
  \<^verbatim>\<open>StaticServer::highWaterMark\<close>, which nothing registers (the calls are commented out), on a connection; the first part of the result is \<^verbatim>\<open>isHighWaterClose_\<close>, when it is set.
\<close>

definition kWebHighWater :: nat where "kWebHighWater = 10 * 1024 * 1024"

definition web_highWaterMark :: "nat \<Rightarrow> 'c tcpconn \<Rightarrow> bool option \<times> 'c tcpconn" where
  "web_highWaterMark tosend s =
     (if tosend < kWebHighWater
      then (None, s\<lparr>cn_highWaterMarkCallback := True, cn_highWaterMark := kWebHighWater, cn_writeCompleteCallback := True\<rparr>)
      else (Some True, TcpConnections.set_events writing_off s))"

section \<open>One repeating timer\<close>

definition one_timer :: "int \<Rightarrow> timestamp \<Rightarrow> tqueue \<Rightarrow> bool" where
  "one_timer period due q \<longleftrightarrow> tq_ok {} q \<and> (\<exists>p u. t_heap q p = Some u \<and> t_repeat u \<and> t_interval u = nat period \<and> t_expiration u = due \<and>
     t_keys (timers q) = {(due, p)})"

lemma start_every_one:
  assumes "alloc_ok alloc" and "0 < period"
  shows "unless_oom (start_every alloc clk period) (one_timer period (clk + period))"
proof (cases "addTimer alloc clk 0 (addTime clk period) (nat period) (0 < period) TimerQueue_new")
  case (Inl e)
  with addTimer_spec [OF TimerQueue_new_ok assms(1), of clk 0 "addTime clk period" "nat period" "0 < period"] show ?thesis
    by (simp add: start_every_def run_every_def)
next
  case (Inr rq)
  obtain r q where rq: "rq = (r, q)" by (cases rq)
  have "tq_ok {} q" using addTimer_spec [OF TimerQueue_new_ok assms(1), of clk 0 "addTime clk period" "nat period" "0 < period"] Inr rq by simp
  moreover from addTimer_result [OF Inr [unfolded rq]] obtain p u where
    "t_expiration u = clk + period" "t_interval u = nat period" "t_repeat u" "t_heap q p = Some u" "t_keys (timers q) = {(clk + period, p)}"
    using assms(2) by (auto simp: TimerQueue_new_def t_keys_def addTime_def)
  ultimately show ?thesis using Inr rq by (auto simp: start_every_def run_every_def one_timer_def)
qed

lemma one_timer_wakeup:
  assumes "one_timer period now q" and "0 < period" and "0 < now"
  shows "\<exists>p q'. tq_handleRead alloc (\<lambda>_. []) now now q = Inr ([p], q') \<and> one_timer period (now + period) q'"
proof -
  from assms(1) obtain p u where ok: "tq_ok {} q" and u: "t_heap q p = Some u" "t_repeat u" "t_interval u = nat period" "t_expiration u = now"
    and keys: "t_keys (timers q) = {(now, p)}" unfolding one_timer_def by blast
  have X: "expired_part now q = [(now, p)]"
    by (rule distinct_singleton [OF expired_distinct [OF ok]]) (auto simp: expired_keys keys)
  from handleRead_quiet [OF ok assms(3), of "\<lambda>_. []" alloc now] obtain q' where
    q': "tq_handleRead alloc (\<lambda>_. []) now now q = Inr ([p], q')" "tq_ok {} q'" "t_heap q' p = reset_part now [] (t_heap q) p"
      "t_keys (timers q') = {x \<in> t_keys (timers q). now < fst x} \<union> {(t_expiration v, p) | v. reset_part now [] (t_heap q) p = Some v}"
    by (auto simp: X)
  have part: "reset_part now [] (t_heap q) p = Some (restart now u)" using u by (simp add: reset_part_def t_keys_def)
  have v: "t_repeat (restart now u)" "t_interval (restart now u) = nat period" "t_expiration (restart now u) = now + period"
    using u assms(2) by (simp_all add: restart_def addTime_def)
  have "t_keys (timers q') = {(now + period, p)}" unfolding q'(4) keys part using v(3) by auto
  with q'(2,3) part v have "one_timer period (now + period) q'" unfolding one_timer_def by auto
  with q'(1) show ?thesis by blast
qed

text \<open>Wake-ups on time do the work once each, until it faults.\<close>

lemma work_once_per_period:
  assumes "0 < period"
  shows "0 < t \<Longrightarrow> one_timer period (t + period) q \<Longrightarrow>
    (case fold_r work envs s of
       Inl e \<Rightarrow> work_wakeups alloc work period t envs (s, q) = Inl e
     | Inr s' \<Rightarrow> \<exists>q'. work_wakeups alloc work period t envs (s, q) = Inr (s', q') \<and>
         one_timer period (t + (int (length envs) + 1) * period) q')"
proof (induction envs arbitrary: t s q)
  case Nil
  then show ?case by auto
next
  case (Cons env envs)
  have pos: "0 < t + period" using Cons.prems(1) assms by simp
  from one_timer_wakeup [OF Cons.prems(2) assms pos, of alloc] obtain p q1 where
    q1: "tq_handleRead alloc (\<lambda>_. []) (t + period) (t + period) q = Inr ([p], q1)" "one_timer period (t + period + period) q1" by blast
  show ?case
  proof (cases "work env s")
    case (Inl e)
    with q1(1) show ?thesis by (simp add: work_wakeup_def)
  next
    case (Inr s1)
    have "work_wakeup alloc work (t + period) env (s, q) = Inr (s1, q1)" using q1(1) Inr by (simp add: work_wakeup_def)
    moreover have "t + period + (int (length envs) + 1) * period = t + (int (length (env # envs)) + 1) * period" by (simp add: algebra_simps)
    note Cons.IH [OF pos q1(2), of s1, unfolded this]
    ultimately show ?thesis using Inr by (simp split: sum.splits)
  qed
qed

lemma pm_run_fold: "pm_run envs pm = fold_r pm_tick envs pm"
proof (induction envs arbitrary: pm)
  case (Cons env envs)
  then have "pm_run envs = fold_r pm_tick envs" by blast
  then show ?case by simp
qed simp

section \<open>Properties\<close>

text \<open>The monitor of a process: what it prints, and with which code it ends, when it does not serve.\<close>

theorem procmon_main_ends:
  "length argv < 3 \<Longrightarrow> procmon_main alloc clk rd env ticks page host argv = Inr (0, MainPrints (''Usage: '' @ argv ! 0 @ '' pid port [name]'' @ [LF]))"
  "3 \<le> length argv \<Longrightarrow> \<not> processExists rd (c_atoi (argv ! 1)) \<Longrightarrow>
     \<exists>out. procmon_main alloc clk rd env ticks page host argv = Inr (1, MainPrints out)"
  by (simp_all add: procmon_main_def Let_def)

text \<open>
  The monitor of a process takes a sample at once and then one every two seconds: after \<open>n\<close> wake-ups on time its state is that of
  \<open>n + 1\<close> ticks, and the samples are the differences between what was read, the last three hundred of them.
\<close>

theorem procmon_samples_periodically:
  assumes "alloc_ok alloc" and "0 < clk" and "reads_stat pm env0 sd0" and "list_all2 (reads_stat pm) envs sds" and "pm_ticks pm = 0" and "pm_cpu_usage pm = []"
  shows "unless_oom (bind_r (Procmon_start alloc clk env0 pm) (work_wakeups alloc pm_tick (seconds (int kPeriod)) clk envs))
    (\<lambda>(pm', q). pm_run (env0 # envs) pm = Inr pm' \<and>
       pm_cpu_usage pm' = fold (cb_push kSamples) (map2 sample_of (sd0 # sds) sds) [] \<and>
       one_timer (seconds (int kPeriod)) (clk + (int (length envs) + 1) * seconds (int kPeriod)) q)"
proof -
  let ?P = "seconds (int kPeriod)"
  have P: "0 < ?P" by (rule seconds_pos) (simp add: kPeriod_def)
  let ?pm = "pm\<lparr>pm_lastStatData := sd0, pm_ticks := 1\<rparr>"
  have tick: "pm_tick env0 pm = Inr ?pm" using assms(3,5) by (simp add: pm_tick_def reads_stat_def Let_def)
  have "list_all2 (reads_stat ?pm) envs sds" using assms(4) by (simp add: reads_stat_def [abs_def])
  from pm_run_samples [OF this] assms(6) obtain pm' where
    pm': "pm_run envs ?pm = Inr pm'" "pm_cpu_usage pm' = fold (cb_push kSamples) (map2 sample_of (sd0 # sds) sds) []" by auto
  show ?thesis
  proof (cases "start_every alloc clk ?P")
    case (Inl e)
    with start_every_one [OF assms(1) P, of clk] tick show ?thesis by (simp add: Procmon_start_def)
  next
    case (Inr q)
    with start_every_one [OF assms(1) P, of clk] have q: "one_timer ?P (clk + ?P) q" by simp
    from work_once_per_period [OF P assms(2) q, where work = pm_tick and envs = envs and s = ?pm and alloc = alloc] pm' tick Inr show ?thesis
      by (auto simp: Procmon_start_def pm_run_fold)
  qed
qed

text \<open>The monitor of heartbeats displays its table once every five seconds, whatever connections and messages there are between.\<close>

theorem heart_displays_periodically:
  assumes "alloc_ok alloc" and "0 < clk"
  shows "unless_oom (bind_r (heart_main alloc clk) (\<lambda>p.
      work_wakeups alloc (\<lambda>env m. Inr (heart_period ctime env m)) (seconds 5) clk envs (hp_monitor p, hp_timers p)))
    (\<lambda>(m, q). m = fold (heart_period ctime) envs monitor_new \<and> one_timer (seconds 5) (clk + (int (length envs) + 1) * seconds 5) q)"
proof -
  have P: "0 < seconds 5" by (simp add: seconds_pos)
  have run: "fold_r (\<lambda>env m. Inr (heart_period ctime env m)) envs m = Inr (fold (heart_period ctime) envs m)" for m
    by (induction envs arbitrary: m) simp_all
  show ?thesis
  proof (cases "start_every alloc clk (seconds 5)")
    case (Inl e)
    with start_every_one [OF assms(1) P, of clk] show ?thesis by (simp add: heart_main_def)
  next
    case (Inr q)
    with start_every_one [OF assms(1) P, of clk] have q: "one_timer (seconds 5) (clk + seconds 5) q" by simp
    from work_once_per_period [OF P assms(2) q, where work = "\<lambda>env m. Inr (heart_period ctime env m)" and envs = envs and s = monitor_new and alloc = alloc] Inr show ?thesis
      by (auto simp: heart_main_def run)
  qed
qed

lemma mset_rotate: "mset (rotate k xs) = mset xs"
  by (metis rotate_drop_take append_take_drop_id mset_append union_commute)

text \<open>\<^verbatim>\<open>stop\<close> asks every loop of the pool to quit, each once, wherever the pool is in dealing them.\<close>

theorem web_stop_quits_all:
  assumes "server_loops startLoop base name n = Inr pool" and "0 \<le> k" and "k < max 1 n"
  shows "returns (web_stop n (pool\<lparr>pool_next := k\<rparr>)) (\<lambda>(ls, pool'). mset ls = mset (pool_loops pool) \<and> pool' = pool\<lparr>pool_next := k\<rparr>)"
proof (cases "n = 0")
  case True
  with deal_round(4) [OF assms(1)] assms(2,3) show ?thesis by (simp add: web_stop_def)
next
  case False
  let ?s = "pool\<lparr>pool_next := k\<rparr>" and ?L = "pool_loops pool"
  have len: "length ?L = nat n" by (rule deal_round(4) [OF assms(1)])
  have n: "0 < n" and started: "pool_started pool"
    using assms(1) False by (auto simp: server_loops_def pool_start_def in_base_loop_def setThreadNum_def EventLoopThreadPool_new_def Let_def ensure_eq_Inr)
  have ok: "pool_ok ?s" using n len started assms(2,3) by (auto simp: pool_ok_def)
  have kn: "nat k < nat n" using assms(2,3) n by auto
  have rot: "map (\<lambda>i. ?L ! ((nat k + i) mod length ?L)) [0..<nat n] = rotate (nat k) ?L"
    by (rule nth_equalityI) (simp_all add: len nth_rotate)
  have "int ((nat k + nat n) mod length ?L) = k" using kn assms(2) by (simp add: len)
  then show ?thesis using deal_exact [OF ok, of "nat n"] rot by (simp add: web_stop_def mset_rotate)
qed

text \<open>
  If \<^verbatim>\<open>highWaterMark\<close> were registered: from ten mebibytes on it turns off the interest in writing and keeps the bytes that wait, and nothing turns it on again: a
  write event does nothing any more, until something else is sent.
\<close>

theorem high_water_stalls:
  assumes "kWebHighWater \<le> tosend" and "cn_inLoop s"
  shows "case web_highWaterMark tosend s of (flag, s') \<Rightarrow> cn_output s' = cn_output s \<and> \<not> isWriting (cn_channel s') \<and> handleWrite env s' = Inr s'"
proof -
  have "\<not> isWriting (cn_channel (TcpConnections.set_events writing_off s))"
    by (simp add: TcpConnections.set_events_def isWriting_bit writing_off_def kWriteEvent_def POLLOUT_def bit_and_iff bit_not_iff bit_numeral_rec)
  with assms show ?thesis
    by (simp add: web_highWaterMark_def handleWrite_def in_loop_thread_def TcpConnections.set_events_def)
qed

end
