(* ===== verification/Conditions.thy ===== *)
theory Conditions
  imports Threads
begin

text \<open>
  Critical sections at the level of the system's mutex and condition: \<^verbatim>\<open>MutexLock\<close>, \<^verbatim>\<open>UnassignGuard\<close> and \<^verbatim>\<open>MutexLockGuard\<close> of \<^verbatim>\<open>base/thread/Mutex.h\<close>,
  \<^verbatim>\<open>Condition\<close> of \<^verbatim>\<open>base/thread/Condition.h\<close>.

  Here every access to the mutex, to \<^verbatim>\<open>holder_\<close> and to the data it protects is a step of its own, and threads are interleaved between any two of them; threads in a wait are
  woken by a notification or spuriously and have to get the mutex again. The main result is the reduction that the other theories on threads start from: what a thread does
  from getting the mutex to releasing it, by leaving the section or by waiting, can be taken for one step. It is a simulation of the
  fine steps by coarse ones. With it the field \<^verbatim>\<open>holder_\<close> is shown to be right, and the latch is verified at the fine level.
\<close>

section \<open>Sections\<close>

text \<open>
  The code of a section: one access of a thread at a point of the code, to the data; what it notifies; and how it goes on: at another
  point, with a wait of the condition, or with the end of the section.
\<close>

datatype notification = Quiet | Notify | NotifyAll

datatype 'l outcome = Go 'l | WaitThen 'l | Leave

type_synonym ('l, 'd) section_code = "nat \<Rightarrow> 'l \<Rightarrow> 'd \<Rightarrow> 'd \<times> notification \<times> 'l outcome"

text \<open>
  The places of a thread: outside; in \<^verbatim>\<open>lock()\<close> or at the end of a wait, with the mutex and before \<^verbatim>\<open>assignHolder\<close>; in the section; before and after \<^verbatim>\<open>unassignHolder\<close> of
  \<^verbatim>\<open>unlock()\<close> or of the guard in \<^verbatim>\<open>wait()\<close>; asleep; woken and without the mutex.
\<close>

datatype 'l place = Away | Got 'l | In 'l | Closing "'l option" | Unassigned "'l option" | Asleep 'l | Awake 'l

definition sleepers :: "(nat \<Rightarrow> 'l place) \<Rightarrow> nat set" where
  "sleepers at = {u. \<exists>l. at u = Asleep l}"

text \<open>Which threads a notification may wake: \<^verbatim>\<open>pthread_cond_signal\<close> wakes at least one.\<close>

definition wakes :: "notification \<Rightarrow> (nat \<Rightarrow> 'l place) \<Rightarrow> nat set \<Rightarrow> bool" where
  "wakes n at W \<longleftrightarrow> W \<subseteq> sleepers at \<and>
     (case n of Quiet \<Rightarrow> W = {} | Notify \<Rightarrow> sleepers at \<noteq> {} \<longrightarrow> W \<noteq> {} | NotifyAll \<Rightarrow> W = sleepers at)"

definition wake_up :: "nat set \<Rightarrow> (nat \<Rightarrow> 'l place) \<Rightarrow> nat \<Rightarrow> 'l place" where
  "wake_up W at = (\<lambda>u. case at u of Asleep l \<Rightarrow> if u \<in> W then Awake l else Asleep l | p \<Rightarrow> p)"

fun after :: "'l outcome \<Rightarrow> 'l place" where
  "after (Go l) = In l"
| "after (WaitThen l) = Closing (Some l)"
| "after Leave = Closing None"

fun released :: "'l option \<Rightarrow> 'l place" where
  "released None = Away"
| "released (Some l) = Asleep l"

section \<open>Fine steps\<close>

record ('l, 'd) fine =
  fi_mutex :: mutex
  fi_data :: 'd
  fi_at :: "nat \<Rightarrow> 'l place"

definition fine_new :: "'d \<Rightarrow> ('l, 'd) fine" where
  "fine_new d = \<lparr>fi_mutex = MutexLock_new, fi_data = d, fi_at = (\<lambda>_. Away)\<rparr>"

text \<open>\<open>starts t l\<close>: thread \<open>t\<close> may enter a section at \<open>l\<close>.\<close>

inductive fi_step :: "('l, 'd) section_code \<Rightarrow> (nat \<Rightarrow> 'l \<Rightarrow> bool) \<Rightarrow> ('l, 'd) fine \<Rightarrow> ('l, 'd) fine \<Rightarrow> bool" for code starts where
  fi_lock: "0 < t \<Longrightarrow> fi_at s t = Away \<Longrightarrow> starts t l \<Longrightarrow> mx_owner (fi_mutex s) = None \<Longrightarrow>
    fi_step code starts s (s\<lparr>fi_mutex := (fi_mutex s)\<lparr>mx_owner := Some t\<rparr>, fi_at := (fi_at s)(t := Got l)\<rparr>)"
| fi_relock: "fi_at s t = Awake l \<Longrightarrow> mx_owner (fi_mutex s) = None \<Longrightarrow>
    fi_step code starts s (s\<lparr>fi_mutex := (fi_mutex s)\<lparr>mx_owner := Some t\<rparr>, fi_at := (fi_at s)(t := Got l)\<rparr>)"
| fi_assign: "fi_at s t = Got l \<Longrightarrow>
    fi_step code starts s (s\<lparr>fi_mutex := assignHolder t (fi_mutex s), fi_at := (fi_at s)(t := In l)\<rparr>)"
| fi_act: "fi_at s t = In l \<Longrightarrow> code t l (fi_data s) = (d, n, r) \<Longrightarrow> wakes n (fi_at s) W \<Longrightarrow>
    fi_step code starts s (s\<lparr>fi_data := d, fi_at := (wake_up W (fi_at s))(t := after r)\<rparr>)"
| fi_unassign: "fi_at s t = Closing k \<Longrightarrow>
    fi_step code starts s (s\<lparr>fi_mutex := unassignHolder (fi_mutex s), fi_at := (fi_at s)(t := Unassigned k)\<rparr>)"
| fi_release: "fi_at s t = Unassigned k \<Longrightarrow>
    fi_step code starts s (s\<lparr>fi_mutex := (fi_mutex s)\<lparr>mx_owner := None\<rparr>, fi_at := (fi_at s)(t := released k)\<rparr>)"
| fi_spurious: "fi_at s t = Asleep l \<Longrightarrow> fi_step code starts s (s\<lparr>fi_at := (fi_at s)(t := Awake l)\<rparr>)"

section \<open>Coarse steps\<close>

text \<open>What a thread has done since it got the mutex: where it is, the data and who was woken.\<close>

inductive mid :: "('l, 'd) section_code \<Rightarrow> nat \<Rightarrow> 'l \<Rightarrow> 'd \<Rightarrow> (nat \<Rightarrow> 'l place) \<Rightarrow> 'l place \<Rightarrow> 'd \<Rightarrow> (nat \<Rightarrow> 'l place) \<Rightarrow> bool"
  for code t l0 d0 at0 where
  mid_start: "mid code t l0 d0 at0 (In l0) d0 at0"
| mid_act: "mid code t l0 d0 at0 (In l) d at \<Longrightarrow> code t l d = (d', n, r) \<Longrightarrow> wakes n at W \<Longrightarrow>
    mid code t l0 d0 at0 (after r) d' (wake_up W at)"

type_synonym ('l, 'd) coarse = "'d \<times> (nat \<Rightarrow> 'l place)"

text \<open>A thread that can get the mutex, and where its section goes on.\<close>

definition ready :: "(nat \<Rightarrow> 'l \<Rightarrow> bool) \<Rightarrow> nat \<Rightarrow> 'l \<Rightarrow> (nat \<Rightarrow> 'l place) \<Rightarrow> bool" where
  "ready starts t l at \<longleftrightarrow> 0 < t \<and> (at t = Away \<and> starts t l \<or> at t = Awake l)"

inductive co_step :: "('l, 'd) section_code \<Rightarrow> (nat \<Rightarrow> 'l \<Rightarrow> bool) \<Rightarrow> ('l, 'd) coarse \<Rightarrow> ('l, 'd) coarse \<Rightarrow> bool" for code starts where
  co_section: "ready starts t l at \<Longrightarrow> mid code t l d at (Closing k) d' at' \<Longrightarrow> co_step code starts (d, at) (d', at'(t := released k))"
| co_wake: "at t = Asleep l \<Longrightarrow> co_step code starts (d, at) (d, at(t := Awake l))"

section \<open>Waking\<close>

definition quiet :: "'l place \<Rightarrow> bool" where
  "quiet p \<longleftrightarrow> (case p of Away \<Rightarrow> True | Asleep _ \<Rightarrow> True | Awake _ \<Rightarrow> True | _ \<Rightarrow> False)"

lemma quiet_simps [simp]:
  "quiet Away" "quiet (Asleep l)" "quiet (Awake l)" "\<not> quiet (Got l)" "\<not> quiet (In l)" "\<not> quiet (Closing k)" "\<not> quiet (Unassigned k)"
  by (simp_all add: quiet_def)

lemma quiet_released [simp]: "quiet (released k)"
  by (cases k) simp_all

lemma quiet_after [simp]: "\<not> quiet (after r)"
  by (cases r) simp_all

lemma wake_up_quiet [simp]: "quiet (wake_up W at u) = quiet (at u)"
  by (simp add: wake_up_def split: place.split)

lemma wake_up_other: "at u = p \<Longrightarrow> (\<And>l. p \<noteq> Asleep l) \<Longrightarrow> wake_up W at u = p"
  by (auto simp: wake_up_def split: place.splits)

lemma wake_up_Asleep: "wake_up W at u = Asleep l \<longleftrightarrow> at u = Asleep l \<and> u \<notin> W"
  by (auto simp: wake_up_def split: place.splits)

text \<open>A thread with the mutex is not asleep, so what its place is does not matter.\<close>

lemma sleepers_upd: "(\<And>l. p \<noteq> Asleep l) \<Longrightarrow> (\<And>l. at t \<noteq> Asleep l) \<Longrightarrow> sleepers (at(t := p)) = sleepers at"
  by (auto simp: sleepers_def)

lemma wakes_upd: "(\<And>l. p \<noteq> Asleep l) \<Longrightarrow> (\<And>l. at t \<noteq> Asleep l) \<Longrightarrow> wakes n (at(t := p)) W \<longleftrightarrow> wakes n at W"
  unfolding wakes_def by (subst (1 2 3) sleepers_upd) auto

lemma wake_up_upd: "(wake_up W (at(t := p)))(t := q) = (wake_up W at)(t := q)"
  by (auto simp: wake_up_def fun_eq_iff)

text \<open>A spurious wake-up in the middle of a section can be moved to its beginning.\<close>

lemma wakes_spurious: "wakes n at W \<Longrightarrow> at u = Asleep l \<Longrightarrow> u \<notin> W \<Longrightarrow> wakes n (at(u := Awake l)) W"
  by (auto simp: wakes_def sleepers_def split: notification.splits)

lemma mid_keeps:
  assumes "mid code t l0 d0 at0 p d at"
  shows "(\<And>l. at0 u \<noteq> Asleep l) \<Longrightarrow> at u = at0 u" and "at u = Asleep l \<Longrightarrow> at0 u = Asleep l" and "quiet (at u) = quiet (at0 u)"
proof -
  show "(\<And>l. at0 u \<noteq> Asleep l) \<Longrightarrow> at u = at0 u"
    using assms by (induction rule: mid.induct) (auto simp: wake_up_other)
  show "at u = Asleep l \<Longrightarrow> at0 u = Asleep l"
    using assms by (induction rule: mid.induct) (auto simp: wake_up_Asleep)
  show "quiet (at u) = quiet (at0 u)"
    using assms by (induction rule: mid.induct) auto
qed

lemma mid_spurious:
  assumes "mid code t l0 d0 at0 p d at" and "at u = Asleep l"
  shows "mid code t l0 d0 (at0(u := Awake l)) p d (at(u := Awake l))"
  using assms
proof (induction rule: mid.induct)
  case mid_start
  show ?case by (rule mid.mid_start)
next
  case (mid_act k d at d' n r W)
  from mid_act.prems have u: "at u = Asleep l" "u \<notin> W" by (simp_all add: wake_up_Asleep)
  from mid.mid_act [OF mid_act.IH [OF u(1)] mid_act.hyps(2) wakes_spurious [OF mid_act.hyps(3) u]]
  have "mid code t l0 d0 (at0(u := Awake l)) (after r) d' (wake_up W (at(u := Awake l)))" .
  moreover have "wake_up W (at(u := Awake l)) = (wake_up W at)(u := Awake l)" by (auto simp: wake_up_def fun_eq_iff)
  ultimately show ?case by (simp only:)
qed

section \<open>The simulation\<close>

text \<open>The thread that has the mutex: what it has done since, which of its places it is at and what \<^verbatim>\<open>holder_\<close> is there.\<close>

definition holds :: "('l, 'd) section_code \<Rightarrow> (nat \<Rightarrow> 'l \<Rightarrow> bool) \<Rightarrow> nat \<Rightarrow> ('l, 'd) fine \<Rightarrow> ('l, 'd) coarse \<Rightarrow> bool" where
  "holds code starts t s c \<longleftrightarrow> (\<exists>l0 p at. ready starts t l0 (snd c) \<and> (\<forall>u. quiet (snd c u)) \<and>
     mid code t l0 (fst c) (snd c) p (fi_data s) at \<and> fi_at s = at(t := fi_at s t) \<and>
     (fi_at s t = Got l0 \<and> p = In l0 \<and> mx_holder (fi_mutex s) = 0 \<or>
      fi_at s t = p \<and> mx_holder (fi_mutex s) = t \<or>
      (\<exists>k. p = Closing k \<and> fi_at s t = Unassigned k) \<and> mx_holder (fi_mutex s) = 0))"

definition simulates :: "('l, 'd) section_code \<Rightarrow> (nat \<Rightarrow> 'l \<Rightarrow> bool) \<Rightarrow> ('l, 'd) fine \<Rightarrow> ('l, 'd) coarse \<Rightarrow> bool" where
  "simulates code starts s c \<longleftrightarrow>
     (case mx_owner (fi_mutex s) of
        None \<Rightarrow> c = (fi_data s, fi_at s) \<and> (\<forall>u. quiet (fi_at s u)) \<and> (\<forall>u. fi_at s u \<noteq> Away \<longrightarrow> 0 < u) \<and> mx_holder (fi_mutex s) = 0
      | Some t \<Rightarrow> holds code starts t s c \<and> (\<forall>u. snd c u \<noteq> Away \<longrightarrow> 0 < u))"


lemma simulates_None:
  "mx_owner (fi_mutex s) = None \<Longrightarrow> simulates code starts s c \<longleftrightarrow>
     c = (fi_data s, fi_at s) \<and> (\<forall>u. quiet (fi_at s u)) \<and> (\<forall>u. fi_at s u \<noteq> Away \<longrightarrow> 0 < u) \<and> mx_holder (fi_mutex s) = 0"
  by (simp add: simulates_def)

lemma simulates_Some:
  "mx_owner (fi_mutex s) = Some t \<Longrightarrow> simulates code starts s c \<longleftrightarrow> holds code starts t s c \<and> (\<forall>u. snd c u \<noteq> Away \<longrightarrow> 0 < u)"
  by (simp add: simulates_def)

text \<open>Only the thread with the mutex is at a place that is not quiet.\<close>

lemma holder_unique:
  assumes "simulates code starts s c" and "\<not> quiet (fi_at s t)"
  shows "mx_owner (fi_mutex s) = Some t"
proof (cases "mx_owner (fi_mutex s)")
  case None
  with assms show ?thesis by (simp add: simulates_None)
next
  case (Some u)
  with assms(1) obtain l0 p at where h: "\<forall>v. quiet (snd c v)" "mid code u l0 (fst c) (snd c) p (fi_data s) at" "fi_at s = at(u := fi_at s u)"
    by (auto simp: simulates_Some holds_def)
  have "quiet (at t)" using mid_keeps(3) [OF h(2)] h(1) by blast
  then have "t = u" using assms(2) h(3) by (metis fun_upd_other)
  with Some show ?thesis by simp
qed

lemma simulate_lock:
  assumes "simulates code starts s c" and "mx_owner (fi_mutex s) = None" and "ready starts t l (fi_at s)"
  shows "simulates code starts (s\<lparr>fi_mutex := (fi_mutex s)\<lparr>mx_owner := Some t\<rparr>, fi_at := (fi_at s)(t := Got l)\<rparr>) c"
  using assms by (auto simp: simulates_None simulates_Some holds_def intro!: exI [of _ l] exI [of _ "In l"] exI [of _ "fi_at s"] mid_start)

text \<open>The steps of the thread with the mutex.\<close>

lemma mid_place: "mid code t l0 d0 at0 p d at \<Longrightarrow> (\<exists>l. p = In l) \<or> (\<exists>k. p = Closing k)"
  by (induction rule: mid.induct) (auto, metis after.elims)

lemma holdsE:
  assumes "simulates code starts s c" and "\<not> quiet (fi_at s t)"
  obtains l0 p at where "mx_owner (fi_mutex s) = Some t" "ready starts t l0 (snd c)" "\<forall>u. quiet (snd c u)" "\<forall>u. snd c u \<noteq> Away \<longrightarrow> 0 < u"
    "mid code t l0 (fst c) (snd c) p (fi_data s) at" "fi_at s = at(t := fi_at s t)" "\<forall>l. at t \<noteq> Asleep l"
    "\<forall>l. fi_at s t = Got l \<longrightarrow> p = In l" "\<forall>l. fi_at s t = In l \<longrightarrow> p = In l \<and> mx_holder (fi_mutex s) = t"
    "\<forall>k. fi_at s t = Closing k \<longrightarrow> p = Closing k \<and> mx_holder (fi_mutex s) = t"
    "\<forall>k. fi_at s t = Unassigned k \<longrightarrow> p = Closing k \<and> mx_holder (fi_mutex s) = 0"
proof -
  have own: "mx_owner (fi_mutex s) = Some t" by (rule holder_unique [OF assms])
  from assms(1) own obtain l0 p at where h: "ready starts t l0 (snd c)" "\<forall>u. quiet (snd c u)" "\<forall>u. snd c u \<noteq> Away \<longrightarrow> 0 < u"
    "mid code t l0 (fst c) (snd c) p (fi_data s) at" "fi_at s = at(t := fi_at s t)"
    "fi_at s t = Got l0 \<and> p = In l0 \<and> mx_holder (fi_mutex s) = 0 \<or> fi_at s t = p \<and> mx_holder (fi_mutex s) = t \<or>
     (\<exists>k. p = Closing k \<and> fi_at s t = Unassigned k) \<and> mx_holder (fi_mutex s) = 0"
    by (auto simp: simulates_Some holds_def)
  have "\<And>l. snd c t \<noteq> Asleep l" using h(1) by (auto simp: ready_def)
  then have sl: "\<And>l. at t \<noteq> Asleep l" using mid_keeps(2) [OF h(4)] by blast
  note place = mid_place [OF h(4)]
  show thesis
    by (rule that [OF own h(1-5)]) (use h(6) place sl in auto)
qed

lemma holdsI:
  assumes "mx_owner (fi_mutex s) = Some t" and "ready starts t l0 (snd c)" and "\<forall>u. quiet (snd c u)" and "\<forall>u. snd c u \<noteq> Away \<longrightarrow> 0 < u"
    and "mid code t l0 (fst c) (snd c) p (fi_data s) at" and "fi_at s = at(t := q)"
    and "q = Got l0 \<and> p = In l0 \<and> mx_holder (fi_mutex s) = 0 \<or> q = p \<and> mx_holder (fi_mutex s) = t \<or> (\<exists>k. p = Closing k \<and> q = Unassigned k) \<and> mx_holder (fi_mutex s) = 0"
  shows "simulates code starts s c"
proof -
  have q: "fi_at s t = q" using assms(6) by simp
  have "holds code starts t s c"
    unfolding holds_def q using assms(2,3,5,6,7) by blast
  then show ?thesis using assms(1,4) by (simp add: simulates_Some)
qed

lemma simulate_spurious:
  assumes sim: "simulates code starts s c" and u: "fi_at s u = Asleep l"
  shows "\<exists>c'. co_step code starts c c' \<and> simulates code starts (s\<lparr>fi_at := (fi_at s)(u := Awake l)\<rparr>) c'"
proof (cases "mx_owner (fi_mutex s)")
  case None
  then have c: "c = (fi_data s, fi_at s)" using sim by (simp add: simulates_None)
  have "simulates code starts (s\<lparr>fi_at := (fi_at s)(u := Awake l)\<rparr>) (fi_data s, (fi_at s)(u := Awake l))"
    using sim None u by (auto simp: simulates_None)
  moreover have "co_step code starts (fi_data s, fi_at s) (fi_data s, (fi_at s)(u := Awake l))" using u by (rule co_wake)
  ultimately show ?thesis unfolding c by blast
next
  case (Some t)
  then obtain l0 p at where h: "ready starts t l0 (snd c)" "\<forall>u. quiet (snd c u)" "\<forall>u. snd c u \<noteq> Away \<longrightarrow> 0 < u"
    "mid code t l0 (fst c) (snd c) p (fi_data s) at" "fi_at s = at(t := fi_at s t)"
    "fi_at s t = Got l0 \<and> p = In l0 \<and> mx_holder (fi_mutex s) = 0 \<or> fi_at s t = p \<and> mx_holder (fi_mutex s) = t \<or>
     (\<exists>k. p = Closing k \<and> fi_at s t = Unassigned k) \<and> mx_holder (fi_mutex s) = 0"
    using sim by (auto simp: simulates_Some holds_def)
  have p: "\<And>k. p \<noteq> Asleep k"
    using mid_place [OF h(4)] by auto
  have ut: "u \<noteq> t" using u h(6) p by auto
  then have at: "at u = Asleep l" using u h(5) by (metis fun_upd_other)
  have c: "snd c u = Asleep l" by (rule mid_keeps(2) [OF h(4) at])
  let ?c = "(fst c, (snd c)(u := Awake l))"
  have "co_step code starts c ?c" using co_wake [where at = "snd c" and t = u and d = "fst c", OF c] by simp
  moreover have "simulates code starts (s\<lparr>fi_at := (fi_at s)(u := Awake l)\<rparr>) ?c"
  proof (rule holdsI [where t = t and ?l0.0 = l0 and p = p and at = "at(u := Awake l)" and q = "fi_at s t"])
    show "ready starts t l0 (snd ?c)" using h(1) ut by (simp add: ready_def)
    show "mid code t l0 (fst ?c) (snd ?c) p (fi_data (s\<lparr>fi_at := (fi_at s)(u := Awake l)\<rparr>)) (at(u := Awake l))"
      using mid_spurious [OF h(4) at] by simp
    have "(fi_at s)(u := Awake l) = (at(t := fi_at s t))(u := Awake l)" using h(5) by (rule arg_cong)
    then show "fi_at (s\<lparr>fi_at := (fi_at s)(u := Awake l)\<rparr>) = (at(u := Awake l))(t := fi_at s t)" using ut by (simp add: fun_upd_twist)
  qed (use Some h(2,3,6) c in auto)
  ultimately show ?thesis by blast
qed

text \<open>Every fine step is one coarse step or none.\<close>

lemma fi_step_simulated:
  assumes "fi_step code starts s s'" and sim: "simulates code starts s c"
  shows "simulates code starts s' c \<or> (\<exists>c'. co_step code starts c c' \<and> simulates code starts s' c')"
  using assms(1)
proof cases
  case (fi_lock t l)
  then show ?thesis using simulate_lock [OF sim fi_lock(5)] by (simp add: ready_def)
next
  case (fi_relock t l)
  have "0 < t" using sim fi_relock(2,3) by (auto simp: simulates_None)
  then show ?thesis using simulate_lock [OF sim fi_relock(3)] fi_relock by (simp add: ready_def)
next
  case (fi_assign t l)
  then have "\<not> quiet (fi_at s t)" by simp
  with sim obtain l0 p at where h: "mx_owner (fi_mutex s) = Some t" "ready starts t l0 (snd c)" "\<forall>u. quiet (snd c u)" "\<forall>u. snd c u \<noteq> Away \<longrightarrow> 0 < u"
    "mid code t l0 (fst c) (snd c) p (fi_data s) at" "fi_at s = at(t := fi_at s t)" "\<forall>l. at t \<noteq> Asleep l"
    "\<forall>l. fi_at s t = Got l \<longrightarrow> p = In l" "\<forall>l. fi_at s t = In l \<longrightarrow> p = In l \<and> mx_holder (fi_mutex s) = t"
    "\<forall>k. fi_at s t = Closing k \<longrightarrow> p = Closing k \<and> mx_holder (fi_mutex s) = t"
    "\<forall>k. fi_at s t = Unassigned k \<longrightarrow> p = Closing k \<and> mx_holder (fi_mutex s) = 0" by (rule holdsE)
  have up: "(fi_at s)(t := In l) = at(t := In l)" by (subst h(6)) simp
  show ?thesis unfolding fi_assign(1)
    by (rule disjI1, rule holdsI [where t = t and ?l0.0 = l0 and p = p and at = at and q = "In l"])
      (use h(1-5) h(8) fi_assign(2) up in \<open>auto simp: assignHolder_def\<close>)
next
  case (fi_act t l d n r W)
  then have "\<not> quiet (fi_at s t)" by simp
  with sim obtain l0 p at where h: "mx_owner (fi_mutex s) = Some t" "ready starts t l0 (snd c)" "\<forall>u. quiet (snd c u)" "\<forall>u. snd c u \<noteq> Away \<longrightarrow> 0 < u"
    "mid code t l0 (fst c) (snd c) p (fi_data s) at" "fi_at s = at(t := fi_at s t)" "\<forall>l. at t \<noteq> Asleep l"
    "\<forall>l. fi_at s t = Got l \<longrightarrow> p = In l" "\<forall>l. fi_at s t = In l \<longrightarrow> p = In l \<and> mx_holder (fi_mutex s) = t"
    "\<forall>k. fi_at s t = Closing k \<longrightarrow> p = Closing k \<and> mx_holder (fi_mutex s) = t"
    "\<forall>k. fi_at s t = Unassigned k \<longrightarrow> p = Closing k \<and> mx_holder (fi_mutex s) = 0" by (rule holdsE)
  have p: "p = In l" "mx_holder (fi_mutex s) = t" using h(9) fi_act(2) by simp_all
  have at: "fi_at s = at(t := In l)" using h(6) fi_act(2) by simp
  have W: "wakes n at W" using fi_act(4) h(7) unfolding at by (simp add: wakes_upd)
  have m: "mid code t l0 (fst c) (snd c) (after r) d (wake_up W at)" by (rule mid_act [OF h(5) [unfolded p(1)] fi_act(3) W])
  have up: "(wake_up W (fi_at s))(t := after r) = (wake_up W at)(t := after r)" unfolding at by (rule wake_up_upd)
  show ?thesis unfolding fi_act(1)
    by (rule disjI1, rule holdsI [where t = t and ?l0.0 = l0 and p = "after r" and at = "wake_up W at" and q = "after r"])
      (use h(1-4) m up p(2) in auto)
next
  case (fi_unassign t k)
  then have "\<not> quiet (fi_at s t)" by simp
  with sim obtain l0 p at where h: "mx_owner (fi_mutex s) = Some t" "ready starts t l0 (snd c)" "\<forall>u. quiet (snd c u)" "\<forall>u. snd c u \<noteq> Away \<longrightarrow> 0 < u"
    "mid code t l0 (fst c) (snd c) p (fi_data s) at" "fi_at s = at(t := fi_at s t)" "\<forall>l. at t \<noteq> Asleep l"
    "\<forall>l. fi_at s t = Got l \<longrightarrow> p = In l" "\<forall>l. fi_at s t = In l \<longrightarrow> p = In l \<and> mx_holder (fi_mutex s) = t"
    "\<forall>k. fi_at s t = Closing k \<longrightarrow> p = Closing k \<and> mx_holder (fi_mutex s) = t"
    "\<forall>k. fi_at s t = Unassigned k \<longrightarrow> p = Closing k \<and> mx_holder (fi_mutex s) = 0" by (rule holdsE)
  have up: "(fi_at s)(t := Unassigned k) = at(t := Unassigned k)" by (subst h(6)) simp
  show ?thesis unfolding fi_unassign(1)
    by (rule disjI1, rule holdsI [where t = t and ?l0.0 = l0 and p = p and at = at and q = "Unassigned k"])
      (use h(1-5) h(10) fi_unassign(2) up in \<open>auto simp: unassignHolder_def\<close>)
next
  case (fi_release t k)
  then have "\<not> quiet (fi_at s t)" by simp
  with sim obtain l0 p at where h: "mx_owner (fi_mutex s) = Some t" "ready starts t l0 (snd c)" "\<forall>u. quiet (snd c u)" "\<forall>u. snd c u \<noteq> Away \<longrightarrow> 0 < u"
    "mid code t l0 (fst c) (snd c) p (fi_data s) at" "fi_at s = at(t := fi_at s t)" "\<forall>l. at t \<noteq> Asleep l"
    "\<forall>l. fi_at s t = Got l \<longrightarrow> p = In l" "\<forall>l. fi_at s t = In l \<longrightarrow> p = In l \<and> mx_holder (fi_mutex s) = t"
    "\<forall>k. fi_at s t = Closing k \<longrightarrow> p = Closing k \<and> mx_holder (fi_mutex s) = t"
    "\<forall>k. fi_at s t = Unassigned k \<longrightarrow> p = Closing k \<and> mx_holder (fi_mutex s) = 0" by (rule holdsE)
  have p: "p = Closing k" "mx_holder (fi_mutex s) = 0" using h(11) fi_release(2) by simp_all
  have up: "(fi_at s)(t := released k) = at(t := released k)" by (subst h(6)) simp
  have t: "0 < t" using h(2) by (simp add: ready_def)
  have quiet: "quiet ((at(t := released k)) u)" for u using mid_keeps(3) [OF h(5)] h(3) by simp
  have away: "at u \<noteq> Away \<Longrightarrow> 0 < u" for u
    using h(4) mid_keeps(1) [OF h(5), of u] by (cases "snd c u") auto
  have "co_step code starts (fst c, snd c) (fi_data s, at(t := released k))"
    by (rule co_section [OF h(2) h(5) [unfolded p(1)]])
  moreover have "simulates code starts s' (fi_data s, at(t := released k))"
    unfolding fi_release(1) using quiet away t p(2) by (auto simp: simulates_None up)
  ultimately show ?thesis by auto
next
  case (fi_spurious t l)
  then show ?thesis using simulate_spurious [OF sim fi_spurious(2)] by simp
qed

lemma fine_new_simulates: "simulates code starts (fine_new d) (d, \<lambda>_. Away)"
  by (simp add: simulates_None fine_new_def MutexLock_new_def)

lemma fine_simulated:
  assumes "(fi_step code starts)\<^sup>*\<^sup>* (fine_new d) s"
  shows "\<exists>c. (co_step code starts)\<^sup>*\<^sup>* (d, \<lambda>_. Away) c \<and> simulates code starts s c"
  using assms
proof (induction rule: rtranclp_induct)
  case base
  show ?case by (intro exI conjI) (rule rtranclp.rtrancl_refl, rule fine_new_simulates)
next
  case (step s s')
  from step.IH obtain c where c: "(co_step code starts)\<^sup>*\<^sup>* (d, \<lambda>_. Away) c" "simulates code starts s c" by blast
  from fi_step_simulated [OF step.hyps(2) c(2)] consider "simulates code starts s' c" | c' where "co_step code starts c c'" "simulates code starts s' c'"
    by blast
  then show ?case
  proof cases
    case 1
    with c(1) show ?thesis by blast
  next
    case 2
    have "(co_step code starts)\<^sup>*\<^sup>* (d, \<lambda>_. Away) c'" using c(1) 2(1) by (rule rtranclp.rtrancl_into_rtrancl)
    with 2(2) show ?thesis by blast
  qed
qed

section \<open>Properties\<close>

text \<open>
  C20. Critical sections are atomic. Whatever threads do under the mutex, with \<^verbatim>\<open>MutexLockGuard\<close>, waits of the condition, notifications and spurious
  wake-ups, interleaved at every access: whenever the mutex is free, the data and the places of the threads are
  those of a history in which every stretch from getting the mutex to releasing it is one step. At most one thread is inside; the
  assertion of \<^verbatim>\<open>assertLocked\<close> is true for the thread in a section and for no thread outside; and when all threads have left, the assertion
  of the destructor holds.
\<close>

theorem sections_atomic:
  assumes "(fi_step code starts)\<^sup>*\<^sup>* (fine_new d) s"
  shows "(mx_owner (fi_mutex s) = None \<longrightarrow> (co_step code starts)\<^sup>*\<^sup>* (d, \<lambda>_. Away) (fi_data s, fi_at s)) \<and>
    (\<forall>t u. \<not> quiet (fi_at s t) \<and> \<not> quiet (fi_at s u) \<longrightarrow> t = u) \<and>
    (\<forall>t l. fi_at s t = In l \<longrightarrow> isLockedByThisThread t (fi_mutex s)) \<and>
    (\<forall>t. 0 < t \<and> quiet (fi_at s t) \<longrightarrow> \<not> isLockedByThisThread t (fi_mutex s)) \<and>
    ((\<forall>t. fi_at s t = Away) \<longrightarrow> mx_holder (fi_mutex s) = 0)"
proof -
  from fine_simulated [OF assms] obtain c where c: "(co_step code starts)\<^sup>*\<^sup>* (d, \<lambda>_. Away) c" "simulates code starts s c" by blast
  have inside: "isLockedByThisThread t (fi_mutex s)" if "fi_at s t = In l" for t l
  proof -
    have "\<not> quiet (fi_at s t)" using that by simp
    with c(2) show ?thesis by (rule holdsE) (use that in \<open>auto simp: isLockedByThisThread_def\<close>)
  qed
  have outside: "\<not> isLockedByThisThread t (fi_mutex s)" if "0 < t" "quiet (fi_at s t)" for t
  proof (cases "mx_owner (fi_mutex s)")
    case None
    with c(2) that(1) show ?thesis by (simp add: simulates_None isLockedByThisThread_def)
  next
    case (Some u)
    with c(2) obtain l0 p at where "mid code u l0 (fst c) (snd c) p (fi_data s) at"
      "fi_at s u = Got l0 \<and> p = In l0 \<and> mx_holder (fi_mutex s) = 0 \<or> fi_at s u = p \<and> mx_holder (fi_mutex s) = u \<or>
       (\<exists>k. p = Closing k \<and> fi_at s u = Unassigned k) \<and> mx_holder (fi_mutex s) = 0" by (auto simp: simulates_Some holds_def)
    then show ?thesis using mid_place that by (fastforce simp: isLockedByThisThread_def)
  qed
  have free: "mx_holder (fi_mutex s) = 0" if "\<forall>t. fi_at s t = Away"
  proof (rule ccontr)
    assume "mx_holder (fi_mutex s) \<noteq> 0"
    then show False using outside [of "mx_holder (fi_mutex s)"] that by (simp add: isLockedByThisThread_def)
  qed
  have unique: "t = u" if "\<not> quiet (fi_at s t)" "\<not> quiet (fi_at s u)" for t u
    using holder_unique [OF c(2) that(1)] holder_unique [OF c(2) that(2)] by simp
  have "(co_step code starts)\<^sup>*\<^sup>* (d, \<lambda>_. Away) (fi_data s, fi_at s)" if "mx_owner (fi_mutex s) = None"
    using c that by (simp add: simulates_None)
  with inside outside free unique show ?thesis by blast
qed

section \<open>CountDownLatch\<close>

text \<open>Its methods access by access, with a history of how often it was counted down and who has returned from \<^verbatim>\<open>wait()\<close>.\<close>

datatype latch_at = LatchTest | LatchDown | LatchZero | LatchGet

record latch_data =
  ld_count :: int
  ld_downs :: nat
  ld_returned :: "nat set"

fun latch_code :: "(latch_at, latch_data) section_code" where
  "latch_code t LatchTest d =
     (if 0 < ld_count d then (d, Quiet, WaitThen LatchTest) else (d\<lparr>ld_returned := insert t (ld_returned d)\<rparr>, Quiet, Leave))"
| "latch_code t LatchDown d = (d\<lparr>ld_count := ld_count d - 1, ld_downs := ld_downs d + 1\<rparr>, Quiet, Go LatchZero)"
| "latch_code t LatchZero d = (d, if ld_count d = 0 then NotifyAll else Quiet, Leave)"
| "latch_code t LatchGet d = (d, Quiet, Leave)"

definition latch_starts :: "nat \<Rightarrow> latch_at \<Rightarrow> bool" where
  "latch_starts t l \<longleftrightarrow> l \<noteq> LatchZero"

lemma wakes_Quiet: "wakes Quiet at W \<longleftrightarrow> W = {}"
  by (auto simp: wakes_def)

lemma wake_up_none [simp]: "wake_up {} at = at"
  by (auto simp: wake_up_def fun_eq_iff split: place.split)

text \<open>Each method from the mutex to its release.\<close>

definition latch_mid :: "nat \<Rightarrow> latch_at \<Rightarrow> latch_data \<Rightarrow> (nat \<Rightarrow> latch_at place) \<Rightarrow> latch_at place \<Rightarrow> latch_data \<Rightarrow> (nat \<Rightarrow> latch_at place) \<Rightarrow> bool" where
  "latch_mid t l0 d0 at0 p d at \<longleftrightarrow>
     (let d1 = d0\<lparr>ld_count := ld_count d0 - 1, ld_downs := ld_downs d0 + 1\<rparr>
      in p = In l0 \<and> d = d0 \<and> at = at0 \<or>
         l0 = LatchTest \<and> at = at0 \<and> (p = Closing (Some LatchTest) \<and> 0 < ld_count d0 \<and> d = d0 \<or>
           p = Closing None \<and> ld_count d0 \<le> 0 \<and> d = d0\<lparr>ld_returned := insert t (ld_returned d0)\<rparr>) \<or>
         l0 = LatchDown \<and> d = d1 \<and> (p = In LatchZero \<and> at = at0 \<or>
           p = Closing None \<and> at = (if ld_count d1 = 0 then wake_up (sleepers at0) at0 else at0)) \<or>
         l0 = LatchGet \<and> p = Closing None \<and> d = d0 \<and> at = at0)"

lemma latch_mid: "mid latch_code t l0 d0 at0 p d at \<Longrightarrow> l0 \<noteq> LatchZero \<Longrightarrow> latch_mid t l0 d0 at0 p d at"
proof (induction rule: mid.induct)
  case mid_start
  show ?case by (simp add: latch_mid_def Let_def)
next
  case (mid_act l d at d' n r W)
  note IH = mid_act.IH [OF mid_act.prems]
  show ?case
  proof (cases l)
    case LatchTest
    with IH mid_act.hyps(2,3) show ?thesis by (auto simp: latch_mid_def Let_def wakes_Quiet split: if_splits)
  next
    case LatchDown
    with IH mid_act.hyps(2,3) show ?thesis by (auto simp: latch_mid_def Let_def wakes_Quiet)
  next
    case LatchZero
    with IH mid_act.hyps(2,3) mid_act.prems show ?thesis by (auto simp: latch_mid_def Let_def wakes_Quiet wakes_def split: if_splits)
  next
    case LatchGet
    with IH mid_act.hyps(2,3) show ?thesis by (auto simp: latch_mid_def Let_def wakes_Quiet)
  qed
qed

definition latch_inv :: "int \<Rightarrow> (latch_at, latch_data) coarse \<Rightarrow> bool" where
  "latch_inv count = (\<lambda>(d, at). ld_count d = count - int (ld_downs d) \<and> (ld_returned d \<noteq> {} \<longrightarrow> ld_count d \<le> 0) \<and>
     (\<forall>u l. at u = Asleep l \<longrightarrow> l = LatchTest \<and> 0 < ld_count d) \<and> (\<forall>u l. at u = Awake l \<longrightarrow> l = LatchTest))"

lemma latch_co_step: "co_step latch_code latch_starts c c' \<Longrightarrow> latch_inv count c \<Longrightarrow> latch_inv count c'"
proof (induction rule: co_step.induct)
  case (co_section t l at d k d' at')
  have l: "l \<noteq> LatchZero" using co_section.hyps(1) co_section.prems by (auto simp: ready_def latch_starts_def latch_inv_def)
  from latch_mid [OF co_section.hyps(2) l]
  consider "l = LatchTest" "at' = at" "k = Some LatchTest" "0 < ld_count d" "d' = d"
    | "l = LatchTest" "at' = at" "k = None" "ld_count d \<le> 0" "d' = d\<lparr>ld_returned := insert t (ld_returned d)\<rparr>"
    | "l = LatchDown" "k = None" "d' = d\<lparr>ld_count := ld_count d - 1, ld_downs := ld_downs d + 1\<rparr>"
        "at' = (if ld_count d - 1 = 0 then wake_up (sleepers at) at else at)"
    | "l = LatchGet" "k = None" "d' = d" "at' = at"
    by (auto simp: latch_mid_def Let_def)
  then show ?case
  proof cases
    case 3
    have "wake_up (sleepers at) at u \<noteq> Asleep m" for u m by (auto simp: wake_up_Asleep sleepers_def)
    moreover have "wake_up (sleepers at) at u = Awake m \<Longrightarrow> m = LatchTest" for u m
      using co_section.prems by (auto simp: wake_up_def latch_inv_def split: place.splits if_splits)
    ultimately show ?thesis using co_section.prems 3 by (fastforce simp: latch_inv_def split: if_splits)
  qed (use co_section.prems in \<open>auto simp: latch_inv_def\<close>)
next
  case (co_wake at t l d)
  then show ?case by (auto simp: latch_inv_def)
qed

text \<open>
  The latch, access by access: whenever its mutex is free, the count is what was left by the calls of \<^verbatim>\<open>countDown()\<close>; a thread
  has returned from \<^verbatim>\<open>wait()\<close> only if the count was used up; and if it was used up no thread is asleep.
\<close>

theorem latch_sections_exact:
  assumes "(fi_step latch_code latch_starts)\<^sup>*\<^sup>* (fine_new \<lparr>ld_count = count, ld_downs = 0, ld_returned = {}\<rparr>) s"
    and "mx_owner (fi_mutex s) = None"
  shows "ld_count (fi_data s) = count - int (ld_downs (fi_data s)) \<and> (ld_returned (fi_data s) \<noteq> {} \<longrightarrow> count \<le> int (ld_downs (fi_data s))) \<and>
    (count \<le> int (ld_downs (fi_data s)) \<longrightarrow> (\<forall>t l. fi_at s t \<noteq> Asleep l))"
proof -
  let ?d = "\<lparr>ld_count = count, ld_downs = 0, ld_returned = {}\<rparr>"
  from fine_simulated [OF assms(1)] assms(2) have "(co_step latch_code latch_starts)\<^sup>*\<^sup>* (?d, \<lambda>_. Away) (fi_data s, fi_at s)"
    by (auto simp: simulates_None)
  then have "latch_inv count (fi_data s, fi_at s)"
    by (induction rule: rtranclp_induct) (simp add: latch_inv_def, blast intro: latch_co_step)
  then show ?thesis by (force simp: latch_inv_def)
qed

text \<open>The atomicity of sections, on the first steps of a thread that calls \<^verbatim>\<open>wait()\<close> of a latch.\<close>

theorem sections_atomic_witness:
  "\<exists>s :: (latch_at, latch_data) fine. fi_at s 1 = In LatchTest \<and> fi_at s 2 = Away \<and>
     isLockedByThisThread 1 (fi_mutex s) \<and> \<not> isLockedByThisThread 2 (fi_mutex s)"
proof -
  let ?s0 = "fine_new \<lparr>ld_count = 1, ld_downs = 0, ld_returned = {}\<rparr> :: (latch_at, latch_data) fine"
  let ?s1 = "?s0\<lparr>fi_mutex := (fi_mutex ?s0)\<lparr>mx_owner := Some 1\<rparr>, fi_at := (fi_at ?s0)(1 := Got LatchTest)\<rparr>"
  let ?s2 = "?s1\<lparr>fi_mutex := assignHolder 1 (fi_mutex ?s1), fi_at := (fi_at ?s1)(1 := In LatchTest)\<rparr>"
  have "fi_step latch_code latch_starts ?s0 ?s1"
    by (rule fi_lock) (simp_all add: fine_new_def MutexLock_new_def latch_starts_def)
  moreover have "fi_step latch_code latch_starts ?s1 ?s2" by (rule fi_assign) simp
  ultimately have r: "(fi_step latch_code latch_starts)\<^sup>*\<^sup>* ?s0 ?s2"
    by (rule converse_rtranclp_into_rtranclp [OF _ r_into_rtranclp])
  have at: "fi_at ?s2 1 = In LatchTest" "fi_at ?s2 2 = Away" "0 < (2::nat)" by (simp_all add: fine_new_def)
  with sections_atomic [OF r] show ?thesis by (metis quiet_simps(1))
qed

end
