(* ===== verification/Atomics.thy ===== *)
theory Atomics
  imports Prelude "HOL-Library.Word"
begin

text \<open>
  Shared counters and callbacks that do not keep their object alive: \<^verbatim>\<open>base/Atomic.h\<close>, \<^verbatim>\<open>base/WeakCallback.h\<close>.

  The value of an \<^verbatim>\<open>AtomicIntegerT\<close> is a word; the built-in operations on it are indivisible and wrap around, the sums the methods compute from
  their results are signed C++ arithmetic, which must not overflow. Threads are interleaved at the built-in operations, so a
  history is a list of calls. The properties: a history agrees with an integer counter as long as that stays in range; numbers
  drawn by \<^verbatim>\<open>incrementAndGet\<close> (of timers, of threads) are all different, whichever threads draw them; of the threads that call
  \<^verbatim>\<open>getAndSet(1)\<close> (\<^verbatim>\<open>TcpServer::start\<close>) exactly one sees 0; a weak callback uses its object only while it exists.
\<close>

section \<open>The integer\<close>

definition atomic_new :: "'w::len word" where
  "atomic_new = 0"

definition atomic_get :: "'w::len word \<Rightarrow> 'w word" where
  "atomic_get v = v"

definition getAndAdd :: "'w::len word \<Rightarrow> 'w word \<Rightarrow> 'w word \<times> 'w word" where
  "getAndAdd x v = (v, v + x)"

text \<open>The sum of two signed numbers.\<close>

definition in_signed :: "'w::len itself \<Rightarrow> int \<Rightarrow> bool" where
  "in_signed w i \<longleftrightarrow> - (2 ^ (LENGTH('w) - 1)) \<le> i \<and> i < 2 ^ (LENGTH('w) - 1)"

definition signed_add :: "'w::len word \<Rightarrow> 'w word \<Rightarrow> 'w word res" where
  "signed_add a b = (if in_signed TYPE('w) (sint a + sint b) then Inr (a + b) else Inl (Undefined ''signed overflow''))"

definition addAndGet :: "'w::len word \<Rightarrow> 'w word \<Rightarrow> ('w word \<times> 'w word) res" where
  "addAndGet x v = (let (old, v') = getAndAdd x v in bind_r (signed_add old x) (\<lambda>r. Inr (r, v')))"

definition incrementAndGet :: "'w::len word \<Rightarrow> ('w word \<times> 'w word) res" where
  "incrementAndGet = addAndGet 1"

definition decrementAndGet :: "'w::len word \<Rightarrow> ('w word \<times> 'w word) res" where
  "decrementAndGet = addAndGet (- 1)"

definition atomic_add :: "'w::len word \<Rightarrow> 'w word \<Rightarrow> 'w word" where
  "atomic_add x v = snd (getAndAdd x v)"

definition increment :: "'w::len word \<Rightarrow> 'w word res" where
  "increment v = bind_r (incrementAndGet v) (\<lambda>(_, v'). Inr v')"

definition decrement :: "'w::len word \<Rightarrow> 'w word res" where
  "decrement v = bind_r (decrementAndGet v) (\<lambda>(_, v'). Inr v')"

definition getAndSet :: "'w::len word \<Rightarrow> 'w word \<Rightarrow> 'w word \<times> 'w word" where
  "getAndSet newValue v = (v, newValue)"

section \<open>Histories\<close>

text \<open>Calls of any threads, in the order in which their built-in operations take effect; the results are paired with the caller.\<close>

datatype 'v atomic_call =
    Get | GetAndAdd 'v | AddAndGet 'v | IncrementAndGet | DecrementAndGet | Add 'v
  | Increment | Decrement | GetAndSet 'v

definition void_result :: "'v res \<Rightarrow> ('v option \<times> 'v) res" where
  "void_result r = bind_r r (\<lambda>v. Inr (None, v))"

definition some_result :: "('v \<times> 'v) res \<Rightarrow> ('v option \<times> 'v) res" where
  "some_result r = bind_r r (\<lambda>(x, v). Inr (Some x, v))"

fun atomic_do :: "'w::len word atomic_call \<Rightarrow> 'w word \<Rightarrow> ('w word option \<times> 'w word) res" where
  "atomic_do Get v = Inr (Some (atomic_get v), v)"
| "atomic_do (GetAndAdd x) v = some_result (Inr (getAndAdd x v))"
| "atomic_do (AddAndGet x) v = some_result (addAndGet x v)"
| "atomic_do IncrementAndGet v = some_result (incrementAndGet v)"
| "atomic_do DecrementAndGet v = some_result (decrementAndGet v)"
| "atomic_do (Add x) v = void_result (Inr (atomic_add x v))"
| "atomic_do Increment v = void_result (increment v)"
| "atomic_do Decrement v = void_result (decrement v)"
| "atomic_do (GetAndSet x) v = some_result (Inr (getAndSet x v))"

fun atomic_run :: "('t \<times> 'w::len word atomic_call) list \<Rightarrow> 'w word \<Rightarrow> (('t \<times> 'w word option) list \<times> 'w word) res" where
  "atomic_run [] v = Inr ([], v)"
| "atomic_run ((t, c) # cs) v =
     bind_r (atomic_do c v) (\<lambda>(r, v1). bind_r (atomic_run cs v1) (\<lambda>(rs, v2). Inr ((t, r) # rs, v2)))"

text \<open>The same calls on an integer: the new value and what is returned.\<close>

fun count_value :: "'w::len word atomic_call \<Rightarrow> int \<Rightarrow> int" where
  "count_value Get n = n"
| "count_value (GetAndAdd x) n = n + sint x"
| "count_value (AddAndGet x) n = n + sint x"
| "count_value IncrementAndGet n = n + 1"
| "count_value DecrementAndGet n = n - 1"
| "count_value (Add x) n = n + sint x"
| "count_value Increment n = n + 1"
| "count_value Decrement n = n - 1"
| "count_value (GetAndSet x) n = sint x"

fun count_result :: "'w::len word atomic_call \<Rightarrow> int \<Rightarrow> int option" where
  "count_result Get n = Some n"
| "count_result (GetAndAdd x) n = Some n"
| "count_result (GetAndSet x) n = Some n"
| "count_result (Add x) n = None"
| "count_result Increment n = None"
| "count_result Decrement n = None"
| "count_result c n = Some (count_value c n)"

fun count_run :: "('t \<times> 'w::len word atomic_call) list \<Rightarrow> int \<Rightarrow> ('t \<times> int option) list \<times> int" where
  "count_run [] n = ([], n)"
| "count_run ((t, c) # cs) n = (let (rs, n') = count_run cs (count_value c n) in ((t, count_result c n) # rs, n'))"

fun count_in_range :: "('t \<times> 'w::len word atomic_call) list \<Rightarrow> int \<Rightarrow> bool" where
  "count_in_range [] n \<longleftrightarrow> True"
| "count_in_range ((t, c) # cs) n \<longleftrightarrow> in_signed TYPE('w) (count_value c n) \<and> count_in_range cs (count_value c n)"

section \<open>Lemmas on words\<close>

lemma sint_in_signed [simp]: "in_signed TYPE('w) (sint (v :: 'w::len word))"
  using sint_greater_eq [of v] sint_less [of v] by (simp add: in_signed_def)

lemma sint_of_int: "in_signed TYPE('w) i \<Longrightarrow> sint (word_of_int i :: 'w::len word) = i"
  by (simp add: in_signed_def sint_sbintrunc' signed_take_bit_int_eq_self)

lemma sint_add: "in_signed TYPE('w) (sint a + sint b) \<Longrightarrow> sint (a + b) = sint (a :: 'w::len word) + sint b"
proof -
  assume i: "in_signed TYPE('w) (sint a + sint b)"
  have "a + b = word_of_int (sint a + sint b)" by simp
  then show ?thesis using sint_of_int [OF i] by simp
qed

lemma sint_down: "in_signed TYPE('w) (sint v - 1) \<Longrightarrow> sint (v - 1) = sint (v :: 'w::len word) - 1"
  using sint_add [of v "- 1"] by simp

section \<open>A counter of words is a counter of integers\<close>

lemma addAndGet_eq:
  "addAndGet x v = (if in_signed TYPE('w) (sint v + sint x) then Inr (v + x, v + x) else Inl (Undefined ''signed overflow''))"
  for x v :: "'w::len word"
  by (simp add: addAndGet_def getAndAdd_def signed_add_def)

lemmas atomic_defs = addAndGet_eq incrementAndGet_def decrementAndGet_def increment_def decrement_def atomic_add_def getAndAdd_def
  getAndSet_def atomic_get_def some_result_def void_result_def

lemma atomic_do_counts:
  assumes "1 < LENGTH('w)" and "in_signed TYPE('w) (count_value c (sint v))"
  shows "\<exists>r v'. atomic_do c (v :: 'w::len word) = Inr (r, v') \<and> sint v' = count_value c (sint v) \<and> map_option sint r = count_result c (sint v)"
  using assms by (cases c) (auto simp: atomic_defs sint_add sint_down)

text \<open>
  Any history of any threads on an atomic integer agrees, in what is returned and in what is left, with the history on an
  integer, if that stays in the range of the type.
\<close>

theorem atomic_refines_counter:
  assumes "1 < LENGTH('w)" and "count_in_range cs (sint v)"
  shows "returns (atomic_run cs (v :: 'w::len word)) (\<lambda>(rs, v'). (map (\<lambda>(t, r). (t, map_option sint r)) rs, sint v') = count_run cs (sint v))"
  using assms(2)
proof (induction cs arbitrary: v)
  case Nil
  show ?case by simp
next
  case (Cons tc cs)
  obtain t c where tc: "tc = (t, c)" by (cases tc)
  from Cons.prems tc have "in_signed TYPE('w) (count_value c (sint v))" by simp
  from atomic_do_counts [OF assms(1) this] obtain r v' where
    d: "atomic_do c v = Inr (r, v')" "sint v' = count_value c (sint v)" "map_option sint r = count_result c (sint v)" by blast
  have "count_in_range cs (sint v')" using Cons.prems tc d(2) by simp
  from Cons.IH [OF this] d tc show ?case by (cases "atomic_run cs v'") (auto split: prod.splits)
qed

text \<open>The built-in operation wraps around, and still the method must not be called at the end of the range.\<close>

theorem increment_at_the_end:
  assumes "1 < LENGTH('w)" and "sint (v :: 'w::len word) = 2 ^ (LENGTH('w) - 1) - 1"
  shows "incrementAndGet v = Inl (Undefined ''signed overflow'')" and "snd (getAndAdd 1 v) = word_of_int (- (2 ^ (LENGTH('w) - 1)))"
proof -
  show "incrementAndGet v = Inl (Undefined ''signed overflow'')"
    using assms by (simp add: incrementAndGet_def addAndGet_eq in_signed_def)
  let ?h = "2 ^ (LENGTH('w) - 1) :: 'w word"
  have "v = word_of_int (sint v)" by simp
  then have "v + 1 = ?h" unfolding assms(2) by simp
  also have "?h + ?h = 0"
    using assms(1) by (cases "LENGTH('w)") (simp_all flip: mult_2 power_Suc)
  then have "?h = word_of_int (- (2 ^ (LENGTH('w) - 1)))" by (simp add: eq_neg_iff_add_eq_0)
  finally show "snd (getAndAdd 1 v) = word_of_int (- (2 ^ (LENGTH('w) - 1)))" by (simp add: getAndAdd_def)
qed

section \<open>Numbers drawn from a counter\<close>

text \<open>What the users of \<^verbatim>\<open>incrementAndGet\<close> rely on: below a bound every number drawn is one more than the last.\<close>

locale number_source =
  fixes draw :: "'s \<Rightarrow> ('n \<times> 's) res" and drawn :: "'s \<Rightarrow> nat" and num :: "nat \<Rightarrow> 'n" and bound :: nat
  assumes draw_next: "drawn s < bound \<Longrightarrow> \<exists>s'. draw s = Inr (num (Suc (drawn s)), s') \<and> drawn s' = Suc (drawn s)"
    and num_inj: "m \<le> bound \<Longrightarrow> n \<le> bound \<Longrightarrow> num m = num n \<Longrightarrow> m = n"
begin

fun draws :: "nat \<Rightarrow> 's \<Rightarrow> ('n list \<times> 's) res" where
  "draws 0 s = Inr ([], s)"
| "draws (Suc k) s = bind_r (draw s) (\<lambda>(x, s1). bind_r (draws k s1) (\<lambda>(xs, s2). Inr (x # xs, s2)))"

lemma draws_count:
  "drawn s + k \<le> bound \<Longrightarrow> \<exists>s'. draws k s = Inr (map num [Suc (drawn s)..<Suc (drawn s + k)], s') \<and> drawn s' = drawn s + k"
proof (induction k arbitrary: s)
  case 0
  then show ?case by simp
next
  case (Suc k)
  from draw_next [of s] Suc.prems obtain s1 where s1: "draw s = Inr (num (Suc (drawn s)), s1)" "drawn s1 = Suc (drawn s)" by auto
  from Suc.IH [of s1] Suc.prems s1(2) obtain s2 where
    s2: "draws k s1 = Inr (map num [Suc (Suc (drawn s))..<Suc (Suc (drawn s) + k)], s2)" "drawn s2 = Suc (drawn s) + k" by auto
  have "[Suc (drawn s)..<Suc (drawn s + Suc k)] = Suc (drawn s) # [Suc (Suc (drawn s))..<Suc (Suc (drawn s) + k)]"
    by (simp add: upt_conv_Cons del: upt_Suc)
  with s1 s2 show ?case by (simp del: upt_Suc)
qed

lemma draws_distinct:
  assumes "drawn s + k \<le> bound"
  shows "returns (draws k s) (\<lambda>(xs, _). distinct xs \<and> length xs = k)"
proof -
  have "inj_on num {Suc (drawn s)..<Suc (drawn s + k)}" using assms by (auto intro!: inj_onI dest!: num_inj [rotated 2])
  then show ?thesis using draws_count [OF assms] by (auto simp: distinct_map simp del: upt_Suc)
qed

end

definition count_up_to :: "'w::len word \<Rightarrow> nat" where
  "count_up_to v = (if 0 \<le> sint v then nat (sint v) else 2 ^ (LENGTH('w) - 1))"

lemma atomic_number_source:
  assumes "1 < LENGTH('w)"
  shows "number_source (incrementAndGet :: 'w::len word \<Rightarrow> _) count_up_to of_nat (2 ^ (LENGTH('w) - 1) - 1)"
proof
  fix s :: "'w word"
  let ?M = "2 ^ (LENGTH('w) - 1) :: nat"
  assume b: "count_up_to s < ?M - 1"
  then have s: "0 \<le> sint s" and n: "count_up_to s = nat (sint s)" by (auto simp: count_up_to_def split: if_splits)
  have lt: "sint s < 2 ^ (LENGTH('w) - 1) - 1" using b n s by (simp add: nat_less_iff of_nat_diff)
  then have i: "in_signed TYPE('w) (sint s + sint (1 :: 'w word))" using s assms by (simp add: in_signed_def)
  have one: "sint (s + 1) = sint s + 1" using sint_add [OF i] assms by simp
  have "of_nat (Suc (count_up_to s)) = s + 1" using s by (simp add: n of_nat_nat)
  moreover have "count_up_to (s + 1) = Suc (count_up_to s)" using s by (simp add: n count_up_to_def one nat_add_distrib)
  ultimately show "\<exists>s'. incrementAndGet s = Inr (of_nat (Suc (count_up_to s)), s') \<and> count_up_to s' = Suc (count_up_to s)"
    using i by (simp add: incrementAndGet_def addAndGet_eq)
next
  fix m n :: nat
  assume "m \<le> 2 ^ (LENGTH('w) - 1) - 1" "n \<le> 2 ^ (LENGTH('w) - 1) - 1" "(of_nat m :: 'w word) = of_nat n"
  moreover have "(2::nat) ^ (LENGTH('w) - 1) - 1 < 2 ^ LENGTH('w)"
    using power_increasing [of "LENGTH('w) - 1" "LENGTH('w)" "2::nat"] by (simp add: less_imp_diff_less le_imp_less_Suc Suc_diff_1 flip: less_Suc_eq_le)
  ultimately show "m = n" by (metis le_less_trans of_nat_inverse)
qed

text \<open>The numbers of timers (\<^verbatim>\<open>AtomicInt64\<close>) and of threads (\<^verbatim>\<open>AtomicInt32\<close>).\<close>

interpretation timer_numbers: number_source "incrementAndGet :: 64 word \<Rightarrow> _" count_up_to of_nat "2 ^ 63 - 1"
  using atomic_number_source [where 'w = 64] by simp

interpretation thread_numbers: number_source "incrementAndGet :: 32 word \<Rightarrow> _" count_up_to of_nat "2 ^ 31 - 1"
  using atomic_number_source [where 'w = 32] by simp

lemma distinct_map_some: "distinct (map Some xs) \<longleftrightarrow> distinct xs"
  by (simp add: distinct_map)

lemma atomic_run_draws:
  "atomic_run (map (\<lambda>t. (t, IncrementAndGet)) ts) (v :: 64 word) =
     bind_r (timer_numbers.draws (length ts) v) (\<lambda>(xs, v'). Inr (zip ts (map Some xs), v'))"
proof (induction ts arbitrary: v)
  case Nil
  show ?case by simp
next
  case (Cons t ts)
  show ?case
  proof (cases "incrementAndGet v")
    case (Inl e)
    then show ?thesis by (simp add: some_result_def)
  next
    case (Inr r)
    then show ?thesis by (cases r; cases "timer_numbers.draws (length ts) (snd r)") (auto simp: some_result_def Cons.IH)
  qed
qed

text \<open>
  Timers are numbered without repetition: whichever threads make them, in whatever order, each timer gets a number of its own,
  as long as there are fewer than \<open>2\<^sup>6\<^sup>3\<close> of them.
\<close>

theorem timer_numbers_distinct:
  assumes "length ts < 2 ^ 63"
  shows "returns (atomic_run (map (\<lambda>t. (t, IncrementAndGet)) ts) (atomic_new :: 64 word))
    (\<lambda>(rs, _). distinct (map snd rs) \<and> map fst rs = ts)"
proof -
  have "count_up_to (atomic_new :: 64 word) = 0" by (simp add: count_up_to_def atomic_new_def)
  with assms timer_numbers.draws_distinct [of atomic_new "length ts"]
  have "returns (timer_numbers.draws (length ts) atomic_new) (\<lambda>(xs, _). distinct xs \<and> length xs = length ts)" by simp
  then show ?thesis
    by (cases "timer_numbers.draws (length ts) atomic_new") (auto simp: atomic_run_draws map_snd_zip distinct_map_some)
qed

text \<open>
  A server is started once: of all threads that call \<^verbatim>\<open>start()\<close> exactly the first sees that it was not started.
\<close>

theorem started_once:
  "atomic_run (map (\<lambda>t. (t, GetAndSet 1)) (t # ts)) (atomic_new :: 32 word) = Inr ((t, Some 0) # map (\<lambda>t. (t, Some 1)) ts, 1)"
proof -
  have "atomic_run (map (\<lambda>t. (t, GetAndSet 1)) ts) (1 :: 32 word) = Inr (map (\<lambda>t. (t, Some 1)) ts, 1)"
    by (induction ts) (simp_all add: some_result_def getAndSet_def)
  then show ?thesis by (simp add: some_result_def getAndSet_def atomic_new_def)
qed

section \<open>Weak callbacks\<close>

text \<open>
  Objects held by shared pointers, with the number of pointers that own each. Destroying the last owner destroys the object. What an object's
  method does, here a function of the state, may add owners and take away those of others (a map it is removed from).
\<close>

record 'o shared =
  sh_object :: "nat \<rightharpoonup> 'o"
  sh_owners :: "nat \<Rightarrow> nat"

definition sh_acquire :: "nat \<Rightarrow> 'o shared \<Rightarrow> 'o shared" where
  "sh_acquire p s = s\<lparr>sh_owners := (sh_owners s)(p := Suc (sh_owners s p))\<rparr>"

definition sh_release :: "nat \<Rightarrow> 'o shared \<Rightarrow> 'o shared" where
  "sh_release p s =
     (let n = sh_owners s p - 1
      in s\<lparr>sh_owners := (sh_owners s)(p := n), sh_object := (if n = 0 then (sh_object s)(p := None) else sh_object s)\<rparr>)"

text \<open>A call of a method needs the object.\<close>

definition sh_call :: "(nat \<Rightarrow> 'o shared \<Rightarrow> 'o shared) \<Rightarrow> nat \<Rightarrow> 'o shared \<Rightarrow> 'o shared res" where
  "sh_call method p s = (case sh_object s p of None \<Rightarrow> Inl (Undefined ''destroyed object'') | Some _ \<Rightarrow> Inr (method p s))"

definition weak_lock :: "nat \<Rightarrow> 'o shared \<Rightarrow> 'o shared option" where
  "weak_lock p s = (if sh_owners s p = 0 then None else Some (sh_acquire p s))"

definition weak_callback :: "(nat \<Rightarrow> 'o shared \<Rightarrow> 'o shared) \<Rightarrow> nat \<Rightarrow> 'o shared \<Rightarrow> 'o shared res" where
  "weak_callback method p s =
     (case weak_lock p s of
        None \<Rightarrow> Inr s
      | Some s1 \<Rightarrow> bind_r (sh_call method p s1) (\<lambda>s2. Inr (sh_release p s2)))"

definition sh_ok :: "'o shared \<Rightarrow> bool" where
  "sh_ok s \<longleftrightarrow> (\<forall>p. sh_object s p = None \<longleftrightarrow> sh_owners s p = 0)"

text \<open>What a method may do to pointers: not take away the one it is called through.\<close>

definition keeps_caller :: "(nat \<Rightarrow> 'o shared \<Rightarrow> 'o shared) \<Rightarrow> bool" where
  "keeps_caller method \<longleftrightarrow> (\<forall>p s. sh_ok s \<and> 0 < sh_owners s p \<longrightarrow> sh_ok (method p s) \<and> 0 < sh_owners (method p s) p)"

lemma sh_acquire_ok: "sh_ok s \<Longrightarrow> 0 < sh_owners s p \<Longrightarrow> sh_ok (sh_acquire p s)"
  by (simp add: sh_ok_def sh_acquire_def)

lemma sh_release_ok: "sh_ok s \<Longrightarrow> sh_ok (sh_release p s)"
  by (auto simp: sh_ok_def sh_release_def Let_def)

text \<open>
  A weak callback, as \<^verbatim>\<open>forceCloseWithDelay\<close> gives one to a timer: when the object is gone it does nothing; otherwise the method runs on the
  existing object. Objects exist exactly as long as they have owners, also when the method takes away all others: then the object is destroyed
  when the method has returned.
\<close>

theorem weak_callback_safe:
  assumes "sh_ok s" and "keeps_caller method"
  shows "returns (weak_callback method p s) (\<lambda>s'. sh_ok s' \<and>
    (sh_object s p = None \<longrightarrow> s' = s) \<and>
    (sh_object s p \<noteq> None \<longrightarrow> (\<exists>s2. s2 = method p (sh_acquire p s) \<and> sh_object s2 p \<noteq> None \<and> s' = sh_release p s2 \<and>
       (sh_object s' p = None \<longleftrightarrow> sh_owners s2 p = 1))))"
proof (cases "sh_object s p")
  case None
  then show ?thesis using assms(1) by (simp add: weak_callback_def weak_lock_def sh_ok_def)
next
  case (Some obj)
  let ?s1 = "sh_acquire p s" and ?s2 = "method p (sh_acquire p s)"
  have n: "0 < sh_owners s p" using assms(1) Some unfolding sh_ok_def by (metis option.distinct(1) gr0I)
  have ok: "sh_ok ?s2" "0 < sh_owners ?s2 p"
    using assms(2) sh_acquire_ok [OF assms(1) n] by (simp_all add: keeps_caller_def sh_acquire_def)
  then obtain o' where o': "sh_object ?s2 p = Some o'" unfolding sh_ok_def by (metis less_irrefl option.exhaust)
  have "sh_object (sh_release p ?s2) p = None \<longleftrightarrow> sh_owners ?s2 p = 1" using ok(2) o' by (auto simp: sh_release_def Let_def)
  then show ?thesis
    using n Some o' sh_release_ok [OF ok(1)] by (simp add: weak_callback_def weak_lock_def sh_call_def sh_acquire_def)
qed

end
