(* ===== verification/LogSettings.thy ===== *)
theory LogSettings
  imports Loggers
begin

text \<open>
  The settings of the log while it is used (the setters of \<^verbatim>\<open>base/log/Logging.cpp\<close>) and what a process keeps across \<^verbatim>\<open>fork\<close>
  (\<^verbatim>\<open>afterFork\<close>, \<^verbatim>\<open>ThreadNameInitializer\<close>, \<^verbatim>\<open>isMainThread\<close> and \<^verbatim>\<open>sleepUsec\<close> of \<^verbatim>\<open>base/thread/Thread.cpp\<close>).

  A history of one thread is a list of operations: settings, log statements, and \<^verbatim>\<open>fork\<close>, followed into the child. Lines are
  recorded with the output function they were given to. The properties: a statement obeys the settings made before it, except that the
  text of the time is kept for the rest of its second; a child logs under its own identifier; how long \<^verbatim>\<open>sleepUsec\<close> sleeps.
\<close>

section \<open>State\<close>

record 'o log_globals =
  gl_conf :: log_config
  gl_output :: 'o                    \<comment> \<open>\<^verbatim>\<open>g_output\<close>\<close>
  gl_flush :: 'o                     \<comment> \<open>\<^verbatim>\<open>g_flush\<close>\<close>
  gl_thread :: log_thread
  gl_threadName :: string            \<comment> \<open>\<^verbatim>\<open>t_threadName\<close>\<close>
  gl_tid :: int                      \<comment> \<open>what \<^verbatim>\<open>gettid\<close> gives\<close>
  gl_lines :: "('o \<times> string) list"
  gl_flushed :: "'o list"
  gl_aborted :: bool

definition gl_sys :: "log_system \<Rightarrow> 'o log_globals \<Rightarrow> log_system" where
  "gl_sys sys g = sys\<lparr>sy_gettid := gl_tid g\<rparr>"

text \<open>\<^verbatim>\<open>ThreadNameInitializer\<close>: what the main thread starts with; \<open>out\<close> stands for the standard output.\<close>

definition log_start :: "log_system \<Rightarrow> (string \<Rightarrow> string option) \<Rightarrow> 'o \<Rightarrow> int \<Rightarrow> 'o log_globals" where
  "log_start sys getenv out tid =
     \<lparr>gl_conf = \<lparr>lg_level = initLogLevel getenv, lg_zone = None, lg_hours = 0\<rparr>, gl_output = out, gl_flush = out,
      gl_thread = cur_tid (sys\<lparr>sy_gettid := tid\<rparr>) log_thread_new, gl_threadName = ''main'', gl_tid = tid, gl_lines = [], gl_flushed = [],
      gl_aborted = False\<rparr>"

section \<open>Operations\<close>

definition setLogLevel :: "log_level \<Rightarrow> 'o log_globals \<Rightarrow> 'o log_globals" where
  "setLogLevel level g = g\<lparr>gl_conf := (gl_conf g)\<lparr>lg_level := level\<rparr>\<rparr>"

definition setOutput :: "'o \<Rightarrow> 'o log_globals \<Rightarrow> 'o log_globals" where
  "setOutput out g = g\<lparr>gl_output := out\<rparr>"

definition setFlush :: "'o \<Rightarrow> 'o log_globals \<Rightarrow> 'o log_globals" where
  "setFlush flush g = g\<lparr>gl_flush := flush\<rparr>"

definition setTimeZone :: "tzdata option \<Rightarrow> 'o log_globals \<Rightarrow> 'o log_globals" where
  "setTimeZone tz g = g\<lparr>gl_conf := (gl_conf g)\<lparr>lg_zone := tz\<rparr>\<rparr>"

definition setTimeZone_hours :: "int \<Rightarrow> 'o log_globals \<Rightarrow> 'o log_globals" where
  "setTimeZone_hours tz g = g\<lparr>gl_conf := (gl_conf g)\<lparr>lg_hours := tz\<rparr>\<rparr>"

definition afterFork :: "log_system \<Rightarrow> 'o log_globals \<Rightarrow> 'o log_globals" where
  "afterFork sys g = g\<lparr>gl_thread := cur_tid (gl_sys sys g) ((gl_thread g)\<lparr>lt_cacheTid := 0\<rparr>), gl_threadName := ''main''\<rparr>"

definition isMainThread :: "log_system \<Rightarrow> int \<Rightarrow> 'o log_globals \<Rightarrow> bool \<times> 'o log_globals" where
  "isMainThread sys pid g = (let lt = cur_tid (gl_sys sys g) (gl_thread g) in (lt_cacheTid lt = pid, g\<lparr>gl_thread := lt\<rparr>))"

text \<open>The seconds and nanoseconds \<^verbatim>\<open>nanosleep\<close> is asked for.\<close>

definition sleepUsec :: "int \<Rightarrow> int \<times> int" where
  "sleepUsec usec = (usec sdiv kMicroSecondsPerSecond, usec smod kMicroSecondsPerSecond * 1000)"

text \<open>A statement, with the destructor's call of the output function and, at the end of the process, the flush function.\<close>

definition gl_statement :: "log_system \<Rightarrow> char list \<Rightarrow> timestamp \<Rightarrow> log_call \<Rightarrow> string \<Rightarrow> int \<Rightarrow> log_item list \<Rightarrow> 'o log_globals \<Rightarrow> 'o log_globals res" where
  "gl_statement sys mem now call filename line items g =
     bind_r (log_statement (gl_sys sys g) (gl_conf g) mem now call filename line items (gl_thread g)) (\<lambda>(lt, out).
       Inr (case out of
              None \<Rightarrow> g\<lparr>gl_thread := lt\<rparr>
            | Some (text, aborts) \<Rightarrow> g\<lparr>gl_thread := lt, gl_lines := gl_lines g @ [(gl_output g, text)],
                gl_flushed := gl_flushed g @ (if aborts then [gl_flush g] else []), gl_aborted := aborts\<rparr>))"

datatype 'o log_op =
    SetLogLevel log_level
  | SetOutput 'o
  | SetFlush 'o
  | SetTimeZone "tzdata option"
  | SetHours int
  | LogStatement "char list" timestamp log_call string int "log_item list"
  | IntoChild int                    \<comment> \<open>\<^verbatim>\<open>fork\<close>, in the child, with its identifier\<close>

fun log_do :: "log_system \<Rightarrow> 'o log_op \<Rightarrow> 'o log_globals \<Rightarrow> 'o log_globals res" where
  "log_do sys (SetLogLevel level) g = Inr (setLogLevel level g)"
| "log_do sys (SetOutput out) g = Inr (setOutput out g)"
| "log_do sys (SetFlush flush) g = Inr (setFlush flush g)"
| "log_do sys (SetTimeZone tz) g = Inr (setTimeZone tz g)"
| "log_do sys (SetHours tz) g = Inr (setTimeZone_hours tz g)"
| "log_do sys (LogStatement mem now call filename line items) g = gl_statement sys mem now call filename line items g"
| "log_do sys (IntoChild tid) g = Inr (afterFork sys (g\<lparr>gl_tid := tid\<rparr>))"

definition log_history :: "log_system \<Rightarrow> 'o log_op list \<Rightarrow> 'o log_globals \<Rightarrow> 'o log_globals res" where
  "log_history sys ops g = fold_r (log_do sys) ops g"

section \<open>The identifier that is kept\<close>

definition tid_ok :: "int \<Rightarrow> bool" where
  "tid_ok t \<longleftrightarrow> 0 < t \<and> t < 2 ^ 31"

text \<open>The identifier of the thread and its text are cached and are those of the thread that runs.\<close>

definition gl_ok :: "'o log_globals \<Rightarrow> bool" where
  "gl_ok g \<longleftrightarrow> tid_ok (gl_tid g) \<and> lt_cacheTid (gl_thread g) = gl_tid g \<and> lt_tidString (gl_thread g) = pad 5 (gl_tid g) \<and>
     lt_tidStringLength (gl_thread g) = int (length (pad 5 (gl_tid g)))"

definition op_ok :: "'o log_op \<Rightarrow> bool" where
  "op_ok ev = (case ev of IntoChild tid \<Rightarrow> tid_ok tid | _ \<Rightarrow> True)"

lemma pad_tid_short: "tid_ok t \<Longrightarrow> take 31 (pad 5 t) = pad 5 t"
  using length_pad_tid [of t] by (simp add: tid_ok_def)

lemma cur_tid_cold:
  "lt_cacheTid lt = 0 \<Longrightarrow> tid_ok (sy_gettid sys) \<Longrightarrow> cur_tid sys lt =
     lt\<lparr>lt_cacheTid := sy_gettid sys, lt_tidString := pad 5 (sy_gettid sys), lt_tidStringLength := int (length (pad 5 (sy_gettid sys)))\<rparr>"
  by (simp add: cur_tid_def cacheTid_def Let_def pad_tid_short)

lemma cur_tid_warm: "lt_cacheTid lt \<noteq> 0 \<Longrightarrow> cur_tid sys lt = lt"
  by (simp add: cur_tid_def)

lemma log_start_ok: "tid_ok tid \<Longrightarrow> gl_ok (log_start sys getenv out tid)"
  by (simp add: gl_ok_def log_start_def log_thread_new_def cur_tid_cold)

text \<open>A statement does not change a cached identifier.\<close>

definition same_tid :: "log_thread \<Rightarrow> log_thread \<Rightarrow> bool" where
  "same_tid lt lt' \<longleftrightarrow> lt_cacheTid lt' = lt_cacheTid lt \<and> lt_tidString lt' = lt_tidString lt \<and> lt_tidStringLength lt' = lt_tidStringLength lt"

lemma formatTime_tid: "formatTime sys conf now (lt, b) = Inr (lt', b') \<Longrightarrow> same_tid lt lt'"
  by (auto simp: formatTime_def update_time_def same_tid_def bind_r_eq_Inr ensure_eq_Inr Let_def split: if_splits)

lemma Impl_new_tid:
  assumes "lt_cacheTid lt \<noteq> 0" and "Impl_new sys conf mem now level err filename line lt = Inr (lt', lo)"
  shows "same_tid lt lt'"
proof -
  from assms(2) obtain lt1 b1 where f: "formatTime sys conf now (lt, FixedBuffer_new mem) = Inr (lt1, b1)" and lt': "lt' = cur_tid sys lt1"
    by (auto simp: Impl_new_def bind_r_eq_Inr Let_def)
  from formatTime_tid [OF f] assms(1) lt' show ?thesis by (simp add: same_tid_def cur_tid_warm)
qed

lemma log_statement_tid:
  assumes "lt_cacheTid lt \<noteq> 0" and "log_statement sys conf mem now call filename line items lt = Inr (lt', out)"
  shows "same_tid lt lt'"
proof (cases "log_enabled conf call")
  case True
  with assms(2) obtain lo where "Logger_new sys conf mem now call filename line lt = Inr (lt', lo)"
    by (auto simp: log_statement_def bind_r_eq_Inr)
  then show ?thesis using Impl_new_tid [OF assms(1)] by (cases call) (auto simp: bind_r_eq_Inr)
qed (use assms(2) in \<open>simp add: log_statement_def same_tid_def\<close>)

lemma gl_statement_ok:
  assumes "gl_ok g" and "gl_statement sys mem now call filename line items g = Inr g'"
  shows "gl_ok g'"
proof -
  from assms(2) obtain lt out where
    st: "log_statement (gl_sys sys g) (gl_conf g) mem now call filename line items (gl_thread g) = Inr (lt, out)"
    and g': "gl_thread g' = lt" "gl_tid g' = gl_tid g"
    by (auto simp: gl_statement_def bind_r_eq_Inr split: option.splits prod.splits)
  have "lt_cacheTid (gl_thread g) \<noteq> 0" using assms(1) by (auto simp: gl_ok_def tid_ok_def)
  from log_statement_tid [OF this st] assms(1) g' show ?thesis by (simp add: gl_ok_def same_tid_def)
qed

lemma log_op_keeps: "gl_ok g \<Longrightarrow> op_ok ev \<Longrightarrow> log_do sys ev g = Inr g' \<Longrightarrow> gl_ok g'"
proof (cases ev)
  case (LogStatement mem now call filename line items)
  then show "gl_ok g \<Longrightarrow> op_ok ev \<Longrightarrow> log_do sys ev g = Inr g' \<Longrightarrow> gl_ok g'" by (simp add: gl_statement_ok)
qed (auto simp: gl_ok_def op_ok_def setLogLevel_def setOutput_def setFlush_def setTimeZone_def setTimeZone_hours_def afterFork_def gl_sys_def cur_tid_cold)

lemma log_history_ok: "gl_ok g \<Longrightarrow> \<forall>ev \<in> set ops. op_ok ev \<Longrightarrow> log_history sys ops g = Inr g' \<Longrightarrow> gl_ok g'"
  unfolding log_history_def by (induction ops arbitrary: g) (auto simp: bind_r_eq_Inr intro: log_op_keeps)

section \<open>Statements after settings\<close>

text \<open>In a new second it does not matter what text was kept.\<close>

lemma formatTime_cold:
  assumes "now sdiv kMicroSecondsPerSecond \<noteq> lt_lastSecond lt" and "now sdiv kMicroSecondsPerSecond \<noteq> 0"
  shows "formatTime sys conf now (lt\<lparr>lt_lastSecond := 0\<rparr>, b) = formatTime sys conf now (lt, b)"
  using assms by (auto simp: formatTime_def update_time_def Let_def bind_r_assoc ensure_def intro!: bind_r_cong split: if_splits)

lemma log_statement_cold:
  assumes "now sdiv kMicroSecondsPerSecond \<noteq> lt_lastSecond lt" and "now sdiv kMicroSecondsPerSecond \<noteq> 0" and "log_enabled conf call"
  shows "log_statement sys conf mem now call filename line items (lt\<lparr>lt_lastSecond := 0\<rparr>) =
    log_statement sys conf mem now call filename line items lt"
  using assms by (cases call) (simp_all add: log_statement_def Impl_new_def formatTime_cold)

text \<open>
  Settings and statements in any order, in a process or in its children: when a statement is made in a second in which none was made
  before, the output function set last gets its complete line, with the time of the zone set last and the identifier of the thread
  that makes it; a statement below the level set last gives nothing. Flushing happens exactly when the process ends with a fatal message.
\<close>

theorem settings_obeyed:
  assumes "tid_ok tid" and "\<forall>ev \<in> set ops. op_ok ev" and "log_history sys ops (log_start sys getenv out tid) = Inr g"
    and "log_ready (gl_sys sys g) (gl_conf g) now str" and "now sdiv kMicroSecondsPerSecond \<noteq> lt_lastSecond (gl_thread g)"
    and "length mem = kSmallBuffer" and "\<forall>it \<in> set items. item_ok it"
    and "\<bar>line\<bar> < 2 ^ 31" and "\<And>toAbort err. call = LogSys toAbort err \<Longrightarrow> \<bar>err\<bar> < 2 ^ 31"
    and "length (concat (map item_text (head_items (gl_sys sys g) (gl_conf g) now str call @ items @ tail_items filename line))) + 32 \<le> kSmallBuffer"
  shows "returns (gl_statement sys mem now call filename line items g) (\<lambda>g'. gl_ok g' \<and> gl_lines g' = gl_lines g @
     (if log_enabled (gl_conf g) call
      then [(gl_output g, str @ micro_str (gl_conf g) now @ pad 5 (gl_tid g) @ LogLevelName (call_level call) @
              concat (map item_text (call_items sys call)) @ concat (map item_text items) @
              '' - '' @ SourceFile filename @ '':'' @ show_int line @ [CHR 0x0A])]
      else []) \<and>
     gl_flushed g' = gl_flushed g @ (if log_enabled (gl_conf g) call \<and> call_level call = FATAL then [gl_flush g] else []))"
proof -
  have ok: "gl_ok g" by (rule log_history_ok [OF log_start_ok [OF assms(1)] assms(2,3)])
  show ?thesis
  proof (cases "log_enabled (gl_conf g) call")
    case False
    then show ?thesis using ok by (simp add: gl_statement_def log_statement_def gl_ok_def)
  next
    case True
    let ?sys = "gl_sys sys g" and ?lt = "(gl_thread g)\<lparr>lt_lastSecond := 0\<rparr>"
    have sec: "now sdiv kMicroSecondsPerSecond \<noteq> 0" using assms(4) now_parts(1) by (simp add: log_ready_def)
    have lt: "thread_ok ?sys (gl_conf g) ?lt" using ok by (simp add: thread_ok_def gl_ok_def gl_sys_def)
    have calls: "call_items ?sys call = call_items sys call" by (cases call) (simp_all add: gl_sys_def)
    have tid: "sy_gettid ?sys = gl_tid g" by (simp add: gl_sys_def)
    from log_line [OF lt assms(4) True assms(6-10)] obtain lt' where
      st: "log_statement ?sys (gl_conf g) mem now call filename line items (gl_thread g) =
        Inr (lt', Some (str @ micro_str (gl_conf g) now @ pad 5 (gl_tid g) @ LogLevelName (call_level call) @
          concat (map item_text (call_items sys call)) @ concat (map item_text items) @
          '' - '' @ SourceFile filename @ '':'' @ show_int line @ [CHR 0x0A], call_level call = FATAL))"
      unfolding log_statement_cold [OF assms(5) sec True] calls tid by blast
    then obtain g' where g': "gl_statement sys mem now call filename line items g = Inr g'" by (simp add: gl_statement_def)
    with st True gl_statement_ok [OF ok g'] show ?thesis by (auto simp: gl_statement_def)
  qed
qed

text \<open>Within the second of an earlier statement the text of the time is the old one, whatever \<^verbatim>\<open>timeZone_\<close> was set to in between.\<close>

theorem zone_set_within_second:
  assumes "now sdiv kMicroSecondsPerSecond = lt_lastSecond (gl_thread g)"
  shows "formatTime (gl_sys sys (setTimeZone_hours tz g)) (gl_conf (setTimeZone_hours tz g)) now (gl_thread (setTimeZone_hours tz g), b) =
    formatTime (gl_sys sys g) (gl_conf g) now (gl_thread g, b)"
  using assms by (simp add: setTimeZone_hours_def gl_sys_def formatTime_def micro_text_def Let_def)

text \<open>
  A child of any process logs under its own identifier and is its main thread, although it starts with what its parent kept.
\<close>

theorem child_identity:
  assumes "tid_ok tid"
  shows "returns (log_do sys (IntoChild tid) g) (\<lambda>g'. gl_ok g' \<and> gl_tid g' = tid \<and> gl_threadName g' = ''main'' \<and>
    isMainThread sys tid g' = (True, g'))"
  using assms by (simp add: afterFork_def gl_ok_def gl_sys_def cur_tid_cold isMainThread_def cur_tid_warm tid_ok_def)

text \<open>
  \<^verbatim>\<open>sleepUsec\<close> asks for exactly its argument, in the normal form \<^verbatim>\<open>nanosleep\<close> wants; a negative argument is refused.
\<close>

theorem sleepUsec_exact:
  "case sleepUsec usec of (sec, nsec) \<Rightarrow> sec * 1000000000 + nsec = usec * 1000 \<and>
     (0 \<le> sec \<and> 0 \<le> nsec \<and> nsec < 1000000000 \<longleftrightarrow> 0 \<le> usec)"
proof -
  have eq: "usec sdiv 1000000 * 1000000 + usec smod 1000000 = usec" by (rule signed_division_class.sdiv_mult_smod_eq)
  show ?thesis
  proof (cases "0 \<le> usec")
    case True
    then have "usec sdiv 1000000 = usec div 1000000" "usec smod 1000000 = usec mod 1000000"
      by (simp_all add: signed_divide_int_def signed_modulo_int_def minus_div_mult_eq_mod sgn_if)
    moreover have "usec div 1000000 * 1000000000 + usec mod 1000000 * 1000 = usec * 1000" using div_mult_mod_eq [of usec 1000000] by linarith
    ultimately show ?thesis using True by (simp add: sleepUsec_def kMicroSecondsPerSecond_def pos_imp_zdiv_nonneg_iff)
  next
    case False
    with eq show ?thesis by (simp add: sleepUsec_def kMicroSecondsPerSecond_def)
  qed
qed

end
