(* ===== verification/RedisSessions.thy ===== *)
theory RedisSessions
  imports WebParsers
begin

text \<open>
  What a parser of the web server owns while it lives: the context of hiredis behind \<^verbatim>\<open>Redis\<close> (\<^verbatim>\<open>webServer/redis.cpp\<close>), the replies, and the
  compressor (\<^verbatim>\<open>Parser::Parser\<close>, \<^verbatim>\<open>Parser::~Parser\<close>, \<^verbatim>\<open>ReConn\<close> and \<^verbatim>\<open>connectRedis\<close> of \<^verbatim>\<open>webServer/requestParser.cpp\<close>).

  Contexts are numbered in the order \<^verbatim>\<open>redisConnect\<close> makes them; the state has those that were not freed, so that freeing twice and using after
  freeing are faults. What the server answers is a choice of the environment. The properties: every step agrees with the
  parser of the theory of requests; nothing is freed twice or used after it was freed; how many contexts and replies are never
  freed; what a null context does.
\<close>

section \<open>State\<close>

record hiredis =
  hr_contexts :: "nat set"           \<comment> \<open>made and not freed\<close>
  hr_made :: nat
  hr_replies :: nat                  \<comment> \<open>replies not freed\<close>

text \<open>What \<^verbatim>\<open>redisConnect\<close> can give: no memory, a context with an error, a good context.\<close>

datatype connect_result = ConnectNull | ConnectError | ConnectGood

record redis =
  rd_context :: "nat option"         \<comment> \<open>\<^verbatim>\<open>_context\<close>\<close>
  rd_reply :: bool                   \<comment> \<open>\<^verbatim>\<open>_reply\<close> is not null\<close>
  rd_well :: bool                    \<comment> \<open>\<^verbatim>\<open>isRedisConnectWell_\<close>\<close>
  rd_lib :: hiredis

definition hiredis_new :: hiredis where
  "hiredis_new = \<lparr>hr_contexts = {}, hr_made = 0, hr_replies = 0\<rparr>"

definition Redis_new :: "hiredis \<Rightarrow> redis" where
  "Redis_new lib = \<lparr>rd_context = None, rd_reply = False, rd_well = False, rd_lib = lib\<rparr>"

section \<open>The wrapper\<close>

definition redisConnect :: "connect_result \<Rightarrow> hiredis \<Rightarrow> nat option \<times> hiredis" where
  "redisConnect c lib =
     (if c = ConnectNull then (None, lib)
      else (Some (hr_made lib), lib\<lparr>hr_contexts := insert (hr_made lib) (hr_contexts lib), hr_made := Suc (hr_made lib)\<rparr>))"

definition redisFree :: "nat option \<Rightarrow> hiredis \<Rightarrow> hiredis res" where
  "redisFree p lib =
     (case p of
        None \<Rightarrow> Inr lib
      | Some c \<Rightarrow> if c \<in> hr_contexts lib then Inr (lib\<lparr>hr_contexts := hr_contexts lib - {c}\<rparr>) else Inl (Undefined ''redisFree''))"

definition rd_Connect :: "connect_result \<Rightarrow> redis \<Rightarrow> (bool \<times> redis) res" where
  "rd_Connect c r =
     (let (p, lib) = redisConnect c (rd_lib r)
      in if c = ConnectError
         then bind_r (redisFree p lib) (\<lambda>lib'. Inr (False, r\<lparr>rd_context := None, rd_well := False, rd_lib := lib'\<rparr>))
         else Inr (True, r\<lparr>rd_context := p, rd_well := True, rd_lib := lib\<rparr>))"

definition rd_disConnect :: "redis \<Rightarrow> redis res" where
  "rd_disConnect r = bind_r (redisFree (rd_context r) (rd_lib r)) (\<lambda>lib. Inr (r\<lparr>rd_lib := lib\<rparr>))"

text \<open>A command needs a context; \<open>replied\<close>: there is a reply, which the caller has to free.\<close>

definition redisCommand :: "bool \<Rightarrow> redis \<Rightarrow> (bool \<times> redis) res" where
  "redisCommand replied r =
     (case rd_context r of
        None \<Rightarrow> Inl (Undefined ''null context'')
      | Some c \<Rightarrow> if c \<in> hr_contexts (rd_lib r)
                  then Inr (replied, r\<lparr>rd_lib := (rd_lib r)\<lparr>hr_replies := hr_replies (rd_lib r) + (if replied then 1 else 0)\<rparr>\<rparr>)
                  else Inl (Undefined ''freed context''))"

definition free_reply :: "redis \<Rightarrow> redis res" where
  "free_reply r = (if hr_replies (rd_lib r) = 0 then Inl (Undefined ''freeReplyObject'')
     else Inr (r\<lparr>rd_lib := (rd_lib r)\<lparr>hr_replies := hr_replies (rd_lib r) - 1\<rparr>\<rparr>))"

text \<open>\<^verbatim>\<open>exeGET\<close>: without a reply it throws, which the caller catches.\<close>

definition rd_exeGET :: "bool \<Rightarrow> redis \<Rightarrow> (bool \<times> redis) res" where
  "rd_exeGET replied r =
     bind_r (redisCommand replied r) (\<lambda>(got, r1). if got then bind_r (free_reply r1) (\<lambda>r2. Inr (True, r2)) else Inr (False, r1))"

definition rd_exeSET :: "bool \<Rightarrow> redis \<Rightarrow> redis res" where
  "rd_exeSET replied r = bind_r (redisCommand replied r) (\<lambda>(_, r1). Inr r1)"

definition rd_freeReply :: "redis \<Rightarrow> redis res" where
  "rd_freeReply r = (if rd_reply r then bind_r (free_reply r) (\<lambda>r1. Inr (r1\<lparr>rd_reply := False\<rparr>)) else Inr r)"

definition rd_isError :: "connect_result \<Rightarrow> redis \<Rightarrow> (bool \<times> redis) res" where
  "rd_isError c r =
     (if \<not> rd_reply r
      then bind_r (rd_freeReply r) (\<lambda>r1. bind_r (rd_disConnect r1) (\<lambda>r2. bind_r (rd_Connect c r2) (\<lambda>(_, r3). Inr (True, r3))))
      else Inr (False, r))"

section \<open>The parser\<close>

record session =
  se_redis :: redis
  se_zlib :: bool                    \<comment> \<open>\<^verbatim>\<open>g_zlib\<close> is set\<close>
  se_zlibs :: nat                    \<comment> \<open>compressors made and not deleted\<close>

definition rsession_new :: "connect_result \<Rightarrow> session res" where
  "rsession_new c =
     bind_r (rd_Connect c (Redis_new hiredis_new)) (\<lambda>(well, r).
       Inr \<lparr>se_redis = r\<lparr>rd_well := well\<rparr>, se_zlib = well, se_zlibs = (if well then 1 else 0)\<rparr>)"

definition delete_zlib :: "session \<Rightarrow> session res" where
  "delete_zlib s =
     (if se_zlib s then (if se_zlibs s = 0 then Inl (Undefined ''delete'') else Inr (s\<lparr>se_zlib := False, se_zlibs := se_zlibs s - 1\<rparr>)) else Inr s)"

definition session_delete :: "session \<Rightarrow> session res" where
  "session_delete s =
     bind_r (if rd_well (se_redis s) then bind_r (rd_disConnect (se_redis s)) (\<lambda>r. Inr (s\<lparr>se_redis := r\<rparr>)) else Inr s) delete_zlib"

text \<open>The label \<^verbatim>\<open>ReConn\<close>.\<close>

definition session_reconn :: "session \<Rightarrow> session res" where
  "session_reconn s = delete_zlib (s\<lparr>se_redis := (se_redis s)\<lparr>rd_well := False\<rparr>\<rparr>)"

text \<open>
  The part of \<^verbatim>\<open>responseRequest\<close> that uses Redis, for a file that can be opened: \<open>replied\<close>, whether \<^verbatim>\<open>GET\<close> got a reply; then the file is stored (and \<^verbatim>\<open>SET\<close> gets a reply or
  not), or its content is unpacked, which can fail.
\<close>

datatype cache_use = Store bool | Unpack bool

definition session_request :: "bool \<Rightarrow> cache_use \<Rightarrow> session \<Rightarrow> session res" where
  "session_request replied u s =
     (if rd_well (se_redis s)
      then bind_r (rd_exeGET replied (se_redis s)) (\<lambda>(got, r).
             if \<not> got then session_reconn (s\<lparr>se_redis := r\<rparr>)
             else (case u of
                     Store set_replied \<Rightarrow> bind_r (rd_exeSET set_replied r) (\<lambda>r1. Inr (s\<lparr>se_redis := r1\<rparr>))
                   | Unpack good \<Rightarrow> Inr (s\<lparr>se_redis := (if good then r else r\<lparr>rd_well := False\<rparr>)\<rparr>)))
      else session_reconn s)"

definition session_connect :: "connect_result \<Rightarrow> session \<Rightarrow> session res" where
  "session_connect c s =
     (if rd_well (se_redis s) then Inr s
      else bind_r (rd_Connect c (se_redis s)) (\<lambda>(well, r).
        let s1 = s\<lparr>se_redis := r\<lparr>rd_well := well\<rparr>\<rparr>
        in Inr (if well \<and> \<not> se_zlib s1 then s1\<lparr>se_zlib := True, se_zlibs := se_zlibs s1 + 1\<rparr> else s1)))"

datatype session_event = Request bool cache_use | ConnectTimer connect_result

fun session_do :: "session_event \<Rightarrow> session \<Rightarrow> session res" where
  "session_do (Request replied u) s = session_request replied u s"
| "session_do (ConnectTimer c) s = session_connect c s"

section \<open>Accounting\<close>

text \<open>
  The requests that lose a context: the connection is taken for good and turns out not to be. The context stays, and the next one is stored in its place.
\<close>

fun loses :: "session_event \<Rightarrow> bool" where
  "loses (Request replied u) \<longleftrightarrow> \<not> replied \<or> u = Unpack False"
| "loses (ConnectTimer c) \<longleftrightarrow> False"

fun leaks_reply :: "session_event \<Rightarrow> bool" where
  "leaks_reply (Request replied u) \<longleftrightarrow> replied \<and> u = Store True"
| "leaks_reply (ConnectTimer c) \<longleftrightarrow> False"

fun lost_contexts :: "session_event list \<Rightarrow> session \<Rightarrow> nat" where
  "lost_contexts [] s = 0"
| "lost_contexts (e # es) s =
     (if rd_well (se_redis s) \<and> loses e then 1 else 0) + (case session_do e s of Inl _ \<Rightarrow> 0 | Inr s' \<Rightarrow> lost_contexts es s')"

fun lost_replies :: "session_event list \<Rightarrow> session \<Rightarrow> nat" where
  "lost_replies [] s = 0"
| "lost_replies (e # es) s =
     (if rd_well (se_redis s) \<and> leaks_reply e then 1 else 0) + (case session_do e s of Inl _ \<Rightarrow> 0 | Inr s' \<Rightarrow> lost_replies es s')"

fun never_null :: "session_event \<Rightarrow> bool" where
  "never_null (Request replied u) \<longleftrightarrow> True"
| "never_null (ConnectTimer c) \<longleftrightarrow> c \<noteq> ConnectNull"

definition session_inv :: "nat \<Rightarrow> nat \<Rightarrow> session \<Rightarrow> bool" where
  "session_inv lost replies s \<longleftrightarrow>
     (let r = se_redis s; lib = rd_lib r
      in hr_contexts lib \<subseteq> {..<hr_made lib} \<and> \<not> rd_reply r \<and> hr_replies lib = replies \<and>
         (rd_well r \<longrightarrow> (\<exists>c. rd_context r = Some c \<and> c \<in> hr_contexts lib)) \<and>
         card (hr_contexts lib) = lost + (if rd_well r then 1 else 0) \<and>
         (rd_well r \<longrightarrow> se_zlib s) \<and> se_zlibs s = (if se_zlib s then 1 else 0))"

lemma finite_contexts: "session_inv k m s \<Longrightarrow> finite (hr_contexts (rd_lib (se_redis s)))"
  by (auto simp: session_inv_def Let_def intro: finite_subset)

lemmas session_defs = session_request_def session_connect_def session_reconn_def session_delete_def delete_zlib_def rd_Connect_def
  redisConnect_def redisFree_def rd_disConnect_def redisCommand_def rd_exeGET_def rd_exeSET_def free_reply_def Let_def

lemma card_fresh: "finite A \<Longrightarrow> A \<subseteq> {..<n} \<Longrightarrow> card (insert n A) = Suc (card A)" for n :: nat
  by (subst card_insert_disjoint) auto

lemma session_request_inv:
  assumes "session_inv k m s"
  shows "returns (session_request replied u s) (session_inv (k + (if rd_well (se_redis s) \<and> loses (Request replied u) then 1 else 0))
    (m + (if rd_well (se_redis s) \<and> leaks_reply (Request replied u) then 1 else 0)))"
  using assms by (cases u) (auto simp: session_inv_def session_defs split: if_splits)

lemma session_connect_inv:
  assumes "session_inv k m s" and "c \<noteq> ConnectNull"
  shows "returns (session_connect c s) (session_inv k m)"
proof (cases "rd_well (se_redis s)")
  case True
  then show ?thesis using assms(1) by (simp add: session_connect_def)
next
  case False
  let ?A = "hr_contexts (rd_lib (se_redis s))" and ?n = "hr_made (rd_lib (se_redis s))"
  have A: "?A \<subseteq> {..<?n}" using assms(1) by (simp add: session_inv_def Let_def)
  have same: "insert ?n ?A - {?n} = ?A" using A by auto
  have sub: "insert ?n ?A \<subseteq> {..<Suc ?n}" using A by auto
  note fresh = card_fresh [OF finite_contexts [OF assms(1)] A]
  show ?thesis
  proof (cases c)
    case ConnectError
    with False A assms(1) show ?thesis by (simp add: session_inv_def session_defs same less_Suc_eq subset_iff)
  next
    case ConnectGood
    with False sub assms(1) fresh show ?thesis by (simp add: session_inv_def session_defs)
  qed (use assms(2) in simp)
qed

lemma session_do_inv:
  assumes "session_inv k m s" and "never_null e"
  shows "returns (session_do e s) (session_inv (k + (if rd_well (se_redis s) \<and> loses e then 1 else 0))
    (m + (if rd_well (se_redis s) \<and> leaks_reply e then 1 else 0)))"
  using session_request_inv [OF assms(1)] session_connect_inv [OF assms(1)] assms(2) by (cases e) simp_all

lemma session_run_inv:
  assumes "session_inv k m s" and "\<forall>e \<in> set es. never_null e"
  shows "returns (fold_r session_do es s) (session_inv (k + lost_contexts es s) (m + lost_replies es s))"
  using assms
proof (induction es arbitrary: k m s)
  case Nil
  then show ?case by simp
next
  case (Cons e es)
  let ?k = "k + (if rd_well (se_redis s) \<and> loses e then 1 else 0)" and ?m = "m + (if rd_well (se_redis s) \<and> leaks_reply e then 1 else 0)"
  from session_do_inv [OF Cons.prems(1), of e] Cons.prems(2) obtain s1 where
    s1: "session_do e s = Inr s1" "session_inv ?k ?m s1" by (auto elim: returnsE)
  from Cons.IH [OF s1(2)] Cons.prems(2) s1(1) show ?case by (simp add: add.assoc)
qed

lemma session_new_inv: "c \<noteq> ConnectNull \<Longrightarrow> returns (rsession_new c) (session_inv 0 0)"
  by (cases c) (auto simp: rsession_new_def Redis_new_def hiredis_new_def session_inv_def session_defs)

lemma session_delete_inv:
  "session_inv k m s \<Longrightarrow> returns (session_delete s) (\<lambda>s'. card (hr_contexts (rd_lib (se_redis s'))) = k \<and>
     hr_replies (rd_lib (se_redis s')) = m \<and> se_zlibs s' = 0)"
  using finite_contexts [of k m s] by (auto simp: session_inv_def session_defs card_Diff_singleton)

section \<open>Properties\<close>

text \<open>
  The life of a parser, as long as hiredis does not run out of memory: whatever requests and connection timers come and
  however Redis answers, no context is freed twice or used after it was freed, and the compressor is deleted once. At the end exactly
  the contexts of connections that were found bad are left, one each (and with each a descriptor), and one reply of every \<^verbatim>\<open>SET\<close> that had one.
\<close>

theorem parser_resources:
  assumes "c \<noteq> ConnectNull" and "\<forall>e \<in> set es. never_null e"
  shows "returns (bind_r (rsession_new c) (\<lambda>s0. bind_r (fold_r session_do es s0) (\<lambda>s. bind_r (session_delete s) (\<lambda>s'. Inr (s0, s')))))
    (\<lambda>(s0, s'). card (hr_contexts (rd_lib (se_redis s'))) = lost_contexts es s0 \<and>
       hr_replies (rd_lib (se_redis s')) = lost_replies es s0 \<and> se_zlibs s' = 0)"
proof -
  from session_new_inv [OF assms(1)] obtain s0 where s0: "rsession_new c = Inr s0" "session_inv 0 0 s0" by (auto elim: returnsE)
  from session_run_inv [OF s0(2) assms(2)] obtain s where
    s: "fold_r session_do es s0 = Inr s" "session_inv (lost_contexts es s0) (lost_replies es s0) s" by (auto elim: returnsE)
  from session_delete_inv [OF s(2)] s0(1) s(1) show ?thesis by (auto elim!: returnsE)
qed

text \<open>Redis going away \<open>n\<close> times costs \<open>n\<close> contexts.\<close>

theorem contexts_pile_up:
  assumes "session_inv k m s" and "rd_well (se_redis s)"
  shows "returns (fold_r session_do (concat (replicate n [Request False (Store False), ConnectTimer ConnectGood])) s)
    (\<lambda>s'. card (hr_contexts (rd_lib (se_redis s'))) = Suc (k + n))"
proof -
  have "returns (fold_r session_do (concat (replicate n [Request False (Store False), ConnectTimer ConnectGood])) s)
    (\<lambda>s'. session_inv (k + n) m s' \<and> rd_well (se_redis s'))"
    using assms
  proof (induction n arbitrary: k s)
    case 0
    then show ?case by simp
  next
    case (Suc n)
    from session_do_inv [OF Suc.prems(1), of "Request False (Store False)"] Suc.prems(2) obtain s1 where
      s1: "session_do (Request False (Store False)) s = Inr s1" "session_inv (k + 1) m s1" by (auto elim: returnsE)
    have w1: "\<not> rd_well (se_redis s1)" using s1(1) Suc.prems by (auto simp: session_inv_def session_defs split: if_splits)
    from session_do_inv [OF s1(2), of "ConnectTimer ConnectGood"] obtain s2 where
      s2: "session_do (ConnectTimer ConnectGood) s1 = Inr s2" "session_inv (k + 1) m s2" by (auto elim: returnsE)
    have "rd_well (se_redis s2)" using s2(1) w1 by (auto simp: session_defs split: if_splits)
    from Suc.IH [OF s2(2) this] s1(1) s2(1) show ?case by (simp del: session_do.simps)
  qed
  then show ?thesis by (auto simp: session_inv_def Let_def elim!: returnsE)
qed

text \<open>A null context is taken for a good one and used by the first request.\<close>

theorem null_context_used:
  "bind_r (rsession_new ConnectNull) (session_request replied u) = Inl (Undefined ''null context'')"
  by (simp add: rsession_new_def Redis_new_def session_defs)

text \<open>
  \<^verbatim>\<open>isError\<close>, which nothing calls, would be the way to connect again without losing a context, once: since \<^verbatim>\<open>_reply\<close> is never set it always
  disconnects and connects.
\<close>

theorem isError_keeps_one:
  assumes "session_inv k m s" and "rd_well (se_redis s)" and "c \<noteq> ConnectNull"
  shows "returns (rd_isError c (se_redis s)) (\<lambda>(b, r). b \<and> card (hr_contexts (rd_lib r)) = k + (if c = ConnectGood then 1 else 0))"
proof -
  let ?r = "se_redis s"
  let ?A = "hr_contexts (rd_lib ?r)" and ?n = "hr_made (rd_lib ?r)"
  from assms obtain x where x: "rd_context ?r = Some x" "x \<in> ?A" "?A \<subseteq> {..<?n}" "\<not> rd_reply ?r" "card ?A = Suc k"
    by (auto simp: session_inv_def Let_def)
  have sub: "?A - {x} \<subseteq> {..<?n}" and fin: "finite (?A - {x})" using x(3) finite_contexts [OF assms(1)] by auto
  have card: "card (?A - {x}) = k" using x finite_contexts [OF assms(1)] by simp
  have "?n \<notin> ?A - {x}" using sub by auto
  then have same: "insert ?n (?A - {x}) - {?n} = ?A - {x}" by auto
  show ?thesis
    using assms(3) x card card_fresh [OF fin sub] same
    by (cases c) (simp_all add: rd_isError_def rd_freeReply_def session_defs)
qed

section \<open>The parser of requests\<close>

text \<open>The two flags of the theory of requests are those of the session.\<close>

definition session_flags :: "session \<Rightarrow> bool \<times> bool" where
  "session_flags s = (rd_well (se_redis s), se_zlib s)"

definition parser_flags :: "web_parser \<Rightarrow> bool \<times> bool" where
  "parser_flags p = (ps_redisWell p, ps_zlib p)"

definition context_of :: "connect_result \<Rightarrow> bool option" where
  "context_of c = (case c of ConnectNull \<Rightarrow> None | ConnectError \<Rightarrow> Some True | ConnectGood \<Rightarrow> Some False)"

text \<open>Construction, connecting again and \<^verbatim>\<open>ReConn\<close> do to the flags what they do in the theory of requests.\<close>

theorem session_simulates_parser:
  "rsession_new c = Inr s0 \<Longrightarrow> session_flags s0 = parser_flags (Parser_new (context_of c))"
  "session_flags s = parser_flags p \<Longrightarrow> session_connect c s = Inr s' \<Longrightarrow> session_flags s' = parser_flags (snd (connectRedis (context_of c) p))"
  "session_flags s = parser_flags p \<Longrightarrow> session_reconn s = Inr s' \<Longrightarrow> session_flags s' = parser_flags (snd (web_reconn p))"
proof -
  show "rsession_new c = Inr s0 \<Longrightarrow> session_flags s0 = parser_flags (Parser_new (context_of c))"
    by (cases c) (auto simp: rsession_new_def Redis_new_def hiredis_new_def session_flags_def parser_flags_def Parser_new_def context_of_def
      Redis_Connect_def session_defs)
  show "session_flags s = parser_flags p \<Longrightarrow> session_connect c s = Inr s' \<Longrightarrow> session_flags s' = parser_flags (snd (connectRedis (context_of c) p))"
    by (cases c) (auto simp: session_flags_def parser_flags_def connectRedis_def context_of_def Redis_Connect_def session_defs split: if_splits)
  show "session_flags s = parser_flags p \<Longrightarrow> session_reconn s = Inr s' \<Longrightarrow> session_flags s' = parser_flags (snd (web_reconn p))"
    by (auto simp: session_flags_def parser_flags_def web_reconn_def session_defs split: if_splits)
qed

end
