(* ===== verification/ZlibStreams.thy ===== *)
theory ZlibStreams
  imports Buffer
begin

text \<open>
  Compression into a buffer (\<^verbatim>\<open>netLayer/ZlibStream.h\<close>): \<^verbatim>\<open>ZlibOutputStream\<close>. Its other class, \<^verbatim>\<open>ZlibInputStream\<close>, is declared only.

  \<^verbatim>\<open>deflate\<close> of zlib is a parameter: given the flush value, the bytes at \<^verbatim>\<open>next_in\<close> and the space at \<^verbatim>\<open>next_out\<close> it returns a code, the
  number of bytes it took, the bytes it wrote and its new state. What its manual promises is the predicate \<open>deflate_ok\<close>: it takes and writes no more than
  there is, each call makes progress towards an end, and at the end what was written is the compressed form of what was taken. Loops are partial
  functions, whose value is \<open>None\<close> when they do not end. The properties: pieces that are written and then finished end as compressed
  data in the buffer, behind what it held; the constructor and mixing the two ways of writing do not work.
\<close>

section \<open>State\<close>

definition Z_OK :: int where "Z_OK = 0"
definition Z_STREAM_END :: int where "Z_STREAM_END = 1"
definition Z_NO_FLUSH :: int where "Z_NO_FLUSH = 0"
definition Z_FINISH :: int where "Z_FINISH = 4"

type_synonym 'z deflater = "int \<Rightarrow> char list \<Rightarrow> nat \<Rightarrow> 'z \<Rightarrow> int \<times> nat \<times> char list \<times> 'z"

record 'z zstream =
  zs_next_in :: "nat option"         \<comment> \<open>null, or a position in the range that was handed over\<close>
  zs_avail_in :: nat
  zs_state :: 'z

record 'z zlib_out =
  zo_output :: buffer
  zo_stream :: "'z zstream"
  zo_zerror :: int
  zo_bufferSize :: nat

text \<open>
  The constructor. \<^verbatim>\<open>memZero\<close> sets every byte of the structure to \<open>fill\<close> (255 in \<^verbatim>\<open>base/Types.h\<close>); \<^verbatim>\<open>deflateInit\<close> calls the allocation function it finds there
  unless it is null, and gives the state \<open>z0\<close>.
\<close>

definition memZero_fill :: int where "memZero_fill = 255"

definition ZlibOutputStream_new :: "int \<Rightarrow> 'z \<Rightarrow> buffer \<Rightarrow> 'z zlib_out res" where
  "ZlibOutputStream_new fill z0 output =
     (if fill \<noteq> 0 then Inl (Undefined ''zalloc'')
      else Inr \<lparr>zo_output = output, zo_stream = \<lparr>zs_next_in = None, zs_avail_in = 0, zs_state = z0\<rparr>, zo_zerror = Z_OK, zo_bufferSize = 1024\<rparr>)"

section \<open>Operations\<close>

text \<open>The space is counted in an unsigned integer of 32 bits; \<open>rng\<close> is the range \<^verbatim>\<open>next_in\<close> points into.\<close>

definition zo_compress :: "'z deflater \<Rightarrow> int \<Rightarrow> char list \<Rightarrow> 'z zlib_out \<Rightarrow> (int \<times> 'z zlib_out) res" where
  "zo_compress df flush rng s =
     bind_r (ensureWritableBytes (zo_bufferSize s) (zo_output s)) (\<lambda>b.
       let zs = zo_stream s;
           pos = (case zs_next_in zs of None \<Rightarrow> 0 | Some p \<Rightarrow> p);
           avail_out = writableBytes b mod 2 ^ 32
       in case df flush (take (zs_avail_in zs) (drop pos rng)) avail_out (zs_state zs) of (error, n, bytes, z) \<Rightarrow>
            bind_r (hasWritten (writableBytes b - (avail_out - length bytes)) (b\<lparr>storage := overwrite (storage b) (beginWrite b) bytes\<rparr>)) (\<lambda>b'.
              Inr (error, s\<lparr>zo_output := b',
                zo_stream := \<lparr>zs_next_in = map_option (\<lambda>p. p + n) (zs_next_in zs), zs_avail_in = zs_avail_in zs - n, zs_state = z\<rparr>,
                zo_bufferSize := (if writableBytes b' = 0 \<and> zo_bufferSize s < 65536 then zo_bufferSize s * 2 else zo_bufferSize s)\<rparr>)))"

partial_function (option) zo_write_loop :: "'z deflater \<Rightarrow> char list \<Rightarrow> 'z zlib_out \<Rightarrow> 'z zlib_out res option" where
  "zo_write_loop df buf s =
     (if 0 < zs_avail_in (zo_stream s) \<and> zo_zerror s = Z_OK
      then (case zo_compress df Z_NO_FLUSH buf s of Inl e \<Rightarrow> Some (Inl e) | Inr r \<Rightarrow> zo_write_loop df buf ((snd r)\<lparr>zo_zerror := fst r\<rparr>))
      else Some (Inr s))"

definition zo_write :: "'z deflater \<Rightarrow> char list \<Rightarrow> 'z zlib_out \<Rightarrow> (bool \<times> 'z zlib_out) res option" where
  "zo_write df buf s =
     (if zo_zerror s \<noteq> Z_OK then Some (Inr (False, s))
      else if zs_next_in (zo_stream s) \<noteq> None \<or> zs_avail_in (zo_stream s) \<noteq> 0
      then Some (Inl (AssertFail ''zstream_.next_in == NULL && zstream_.avail_in == 0''))
      else map_option (\<lambda>r. bind_r r (\<lambda>s1.
             bind_r (if zs_avail_in (zo_stream s1) = 0
                     then ensure (zs_next_in (zo_stream s1) = Some (length buf)) ''zstream_.next_in == buf.end()''
                            (Inr (s1\<lparr>zo_stream := (zo_stream s1)\<lparr>zs_next_in := None\<rparr>\<rparr>))
                     else Inr s1) (\<lambda>s2. Inr (zo_zerror s2 = Z_OK, s2))))
           (zo_write_loop df buf (s\<lparr>zo_stream := (zo_stream s)\<lparr>zs_next_in := Some 0, zs_avail_in := length buf\<rparr>\<rparr>)))"

definition zo_write_buffer :: "'z deflater \<Rightarrow> buffer \<Rightarrow> 'z zlib_out \<Rightarrow> (bool \<times> buffer \<times> 'z zlib_out) res" where
  "zo_write_buffer df input s =
     (if zo_zerror s \<noteq> Z_OK then Inr (False, input, s)
      else
        (let s1 = s\<lparr>zo_stream := (zo_stream s)\<lparr>zs_next_in := Some 0, zs_avail_in := readableBytes input mod 2 ^ 32\<rparr>\<rparr>
         in bind_r (if 0 < zs_avail_in (zo_stream s1)
                    then bind_r (zo_compress df Z_NO_FLUSH (readable input) s1) (\<lambda>(error, s2). Inr (s2\<lparr>zo_zerror := error\<rparr>))
                    else Inr s1) (\<lambda>s2.
              bind_r (retrieve (readableBytes input - zs_avail_in (zo_stream s2)) input) (\<lambda>input'.
                Inr (zo_zerror s2 = Z_OK, input', s2)))))"

partial_function (option) zo_finish_loop :: "'z deflater \<Rightarrow> char list \<Rightarrow> 'z zlib_out \<Rightarrow> 'z zlib_out res option" where
  "zo_finish_loop df rng s =
     (if zo_zerror s = Z_OK
      then (case zo_compress df Z_FINISH rng s of Inl e \<Rightarrow> Some (Inl e) | Inr r \<Rightarrow> zo_finish_loop df rng ((snd r)\<lparr>zo_zerror := fst r\<rparr>))
      else Some (Inr s))"

text \<open>\<open>rng\<close>: what is at \<^verbatim>\<open>next_in\<close>, when an earlier \<^verbatim>\<open>write(Buffer*)\<close> left a part.\<close>

definition zo_finish :: "'z deflater \<Rightarrow> ('z \<Rightarrow> int) \<Rightarrow> char list \<Rightarrow> 'z zlib_out \<Rightarrow> (bool \<times> 'z zlib_out) res option" where
  "zo_finish df deflateEnd rng s =
     (if zo_zerror s \<noteq> Z_OK then Some (Inr (False, s))
      else map_option (\<lambda>r. bind_r r (\<lambda>s1.
             Inr (deflateEnd (zs_state (zo_stream s1)) = Z_OK, s1\<lparr>zo_zerror := Z_STREAM_END\<rparr>)))
           (zo_finish_loop df rng s))"

text \<open>Pieces written one after the other, as long as \<^verbatim>\<open>write\<close> reports success.\<close>

fun zo_writes :: "'z deflater \<Rightarrow> char list list \<Rightarrow> 'z zlib_out \<Rightarrow> (bool \<times> 'z zlib_out) res option" where
  "zo_writes df [] s = Some (Inr (True, s))"
| "zo_writes df (buf # bufs) s =
     (case zo_write df buf s of
        Some (Inr (ok, s1)) \<Rightarrow> if ok then zo_writes df bufs s1 else Some (Inr (False, s1))
      | r \<Rightarrow> r)"

definition zo_compress_all :: "'z deflater \<Rightarrow> ('z \<Rightarrow> int) \<Rightarrow> char list list \<Rightarrow> 'z zlib_out \<Rightarrow> (bool \<times> 'z zlib_out) res option" where
  "zo_compress_all df deflateEnd bufs s =
     (case zo_writes df bufs s of
        Some (Inr (ok, s1)) \<Rightarrow> if ok then zo_finish df deflateEnd [] s1 else Some (Inr (False, s1))
      | r \<Rightarrow> r)"

section \<open>What zlib promises\<close>

text \<open>
  \<open>active\<close>: the stream has not ended, and whether it was asked to, after which it must not be given more input; \<open>hist\<close>: what it took and wrote so far; \<open>rank\<close> bounds the calls that are left; \<open>inflate\<close>
  is decompression of a complete stream.
\<close>

definition deflate_step :: "(char list \<Rightarrow> char list option) \<Rightarrow> (bool \<Rightarrow> 'z \<Rightarrow> bool) \<Rightarrow> ('z \<Rightarrow> char list \<times> char list) \<Rightarrow>
    ('z \<Rightarrow> char list \<Rightarrow> nat) \<Rightarrow> ('z \<Rightarrow> int) \<Rightarrow> int \<Rightarrow> char list \<Rightarrow> nat \<Rightarrow> 'z \<Rightarrow> int \<times> nat \<times> char list \<times> 'z \<Rightarrow> bool" where
  "deflate_step inflate active hist rank deflateEnd flush inp avail z = (\<lambda>(error, n, bytes, z').
     n \<le> length inp \<and> length bytes \<le> avail \<and> hist z' = (fst (hist z) @ take n inp, snd (hist z) @ bytes) \<and>
     (error = Z_OK \<and> active (flush = Z_FINISH) z' \<and> rank z' (drop n inp) < rank z inp \<or>
      error = Z_STREAM_END \<and> flush = Z_FINISH \<and> n = length inp \<and> inflate (snd (hist z')) = Some (fst (hist z')) \<and> deflateEnd z' = Z_OK))"

definition flush_allowed :: "bool \<Rightarrow> int \<Rightarrow> char list \<Rightarrow> bool" where
  "flush_allowed fin flush inp \<longleftrightarrow> (if fin then flush = Z_FINISH \<and> inp = [] else flush = Z_FINISH \<or> flush = Z_NO_FLUSH \<and> inp \<noteq> [])"

definition deflate_ok :: "'z deflater \<Rightarrow> ('z \<Rightarrow> int) \<Rightarrow> (char list \<Rightarrow> char list option) \<Rightarrow> (bool \<Rightarrow> 'z \<Rightarrow> bool) \<Rightarrow> ('z \<Rightarrow> char list \<times> char list) \<Rightarrow>
    ('z \<Rightarrow> char list \<Rightarrow> nat) \<Rightarrow> bool" where
  "deflate_ok df deflateEnd inflate active hist rank \<longleftrightarrow>
     (\<forall>fin flush inp avail z. active fin z \<and> 0 < avail \<and> flush_allowed fin flush inp \<longrightarrow>
        deflate_step inflate active hist rank deflateEnd flush inp avail z (df flush inp avail z))"

section \<open>One call\<close>

text \<open>The output buffer: nobody reads from it meanwhile, so it only grows, by no more than the size asked for.\<close>

definition out_ok :: "buffer \<Rightarrow> bool" where
  "out_ok b \<longleftrightarrow> buffer_ok b \<and> readerIndex b = kCheapPrepend \<and> writableBytes b < 2 ^ 32"

definition size_ok :: "nat \<Rightarrow> bool" where
  "size_ok n \<longleftrightarrow> (\<exists>k \<le> 6. n = 1024 * 2 ^ k)"

lemma size_ok_bounds: "size_ok n \<Longrightarrow> 0 < n \<and> n \<le> 65536"
  by (auto simp: size_ok_def intro: order_trans [OF mult_le_mono2 [OF power_increasing [of _ 6]]])

lemma size_ok_double: "size_ok n \<Longrightarrow> n < 65536 \<Longrightarrow> size_ok (n * 2)"
  unfolding size_ok_def
proof (elim exE conjE)
  fix k :: nat assume k: "k \<le> 6" "n = 1024 * 2 ^ k" "n < 65536"
  then have "k \<noteq> 6" by auto
  with k show "\<exists>k \<le> 6. n * 2 = 1024 * 2 ^ k" by (intro exI [of _ "Suc k"]) simp
qed

lemma ensure_grows:
  assumes "out_ok b" and "size_ok n"
  shows "returns (ensureWritableBytes n b) (\<lambda>b'. out_ok b' \<and> readable b' = readable b \<and> 0 < writableBytes b')"
proof -
  have n: "0 < n" "n \<le> 65536" using size_ok_bounds [OF assms(2)] by simp_all
  have ok: "buffer_ok b" using assms(1) by (simp add: out_ok_def)
  from ensureWritableBytes_spec [OF ok, of n] obtain b' where
    b': "ensureWritableBytes n b = Inr b'" "buffer_ok b'" "readable b' = readable b" "n \<le> writableBytes b'" by (auto elim: returnsE)
  have "readerIndex b' = kCheapPrepend \<and> writableBytes b' < 2 ^ 32"
  proof (cases "writableBytes b < n")
    case True
    then have "b' = b\<lparr>storage := std_resize (writerIndex b + n) (storage b)\<rparr>"
      using b'(1) assms(1) by (auto simp: ensureWritableBytes_def makeSpace_def prependableBytes_def out_ok_def ensure_eq_Inr)
    with assms(1) n show ?thesis by (simp add: out_ok_def writableBytes_def)
  next
    case False
    then have "b' = b" using b'(1) by (simp add: ensureWritableBytes_def)
    with assms(1) show ?thesis by (simp add: out_ok_def)
  qed
  with b' n show ?thesis by (simp add: out_ok_def)
qed

definition zo_inv :: "('z \<Rightarrow> char list \<times> char list) \<Rightarrow> char list \<Rightarrow> 'z zlib_out \<Rightarrow> bool" where
  "zo_inv hist base s \<longleftrightarrow> out_ok (zo_output s) \<and> size_ok (zo_bufferSize s) \<and>
     readable (zo_output s) = base @ snd (hist (zs_state (zo_stream s)))"

text \<open>The bytes \<^verbatim>\<open>deflate\<close> is given.\<close>

definition zo_input :: "char list \<Rightarrow> 'z zlib_out \<Rightarrow> char list" where
  "zo_input rng s = take (zs_avail_in (zo_stream s)) (drop (case zs_next_in (zo_stream s) of None \<Rightarrow> 0 | Some p \<Rightarrow> p) rng)"

lemma zo_compress_spec:
  assumes df: "deflate_ok df dend inflate active hist rank" and inv: "zo_inv hist base s" and act: "active fin (zs_state (zo_stream s))"
    and fl: "flush_allowed fin flush (zo_input rng s)"
  shows "\<exists>error n bytes z s'. zo_compress df flush rng s = Inr (error, s') \<and> zo_inv hist base s' \<and>
    zo_stream s' = \<lparr>zs_next_in = map_option (\<lambda>p. p + n) (zs_next_in (zo_stream s)), zs_avail_in = zs_avail_in (zo_stream s) - n, zs_state = z\<rparr> \<and>
    zo_zerror s' = zo_zerror s \<and>
    deflate_step inflate active hist rank dend flush (zo_input rng s) (length bytes) (zs_state (zo_stream s)) (error, n, bytes, z)"
proof -
  let ?z = "zs_state (zo_stream s)" and ?inp = "zo_input rng s"
  from ensure_grows [of "zo_output s" "zo_bufferSize s"] inv obtain b where
    b: "ensureWritableBytes (zo_bufferSize s) (zo_output s) = Inr b" "out_ok b" "readable b = readable (zo_output s)" "0 < writableBytes b"
    by (auto simp: zo_inv_def elim: returnsE)
  have avail: "writableBytes b mod 2 ^ 32 = writableBytes b" using b(2) by (simp add: out_ok_def)
  obtain error n bytes z where d: "df flush ?inp (writableBytes b) ?z = (error, n, bytes, z)" by (metis prod_cases4)
  have step: "deflate_step inflate active hist rank dend flush ?inp (writableBytes b) ?z (error, n, bytes, z)"
    using df act b(4) fl unfolding deflate_ok_def by (metis d)
  then have len: "length bytes \<le> writableBytes b" and h: "snd (hist z) = snd (hist ?z) @ bytes" by (simp_all add: deflate_step_def)
  let ?b = "b\<lparr>storage := overwrite (storage b) (writerIndex b) bytes, writerIndex := writerIndex b + length bytes\<rparr>"
  have ok: "buffer_ok b" using b(2) by (simp add: out_ok_def)
  note wr = overwrite_written [OF ok len]
  have room: "writerIndex b + length bytes \<le> length (storage b)" using ok len by (auto simp: buffer_ok_def writableBytes_def)
  have hw: "hasWritten (writableBytes b - (writableBytes b - length bytes)) (b\<lparr>storage := overwrite (storage b) (beginWrite b) bytes\<rparr>) = Inr ?b"
    using len room by (simp add: hasWritten_def writableBytes_def beginWrite_def ensure_def)
  have out: "out_ok ?b" using b(2) wr(1) room by (auto simp: out_ok_def writableBytes_def)
  let ?s = "s\<lparr>zo_output := ?b,
    zo_stream := \<lparr>zs_next_in = map_option (\<lambda>p. p + n) (zs_next_in (zo_stream s)), zs_avail_in = zs_avail_in (zo_stream s) - n, zs_state = z\<rparr>,
    zo_bufferSize := (if writableBytes ?b = 0 \<and> zo_bufferSize s < 65536 then zo_bufferSize s * 2 else zo_bufferSize s)\<rparr>"
  have "zo_compress df flush rng s = Inr (error, ?s)"
    unfolding zo_compress_def b(1) bind_r_simps Let_def avail by (simp add: zo_input_def [symmetric] d hw)
  moreover have "zo_inv hist base ?s" using out wr(2) b(3) inv h size_ok_double by (simp add: zo_inv_def)
  moreover have "deflate_step inflate active hist rank dend flush ?inp (length bytes) ?z (error, n, bytes, z)"
    using step unfolding deflate_step_def by blast
  ultimately show ?thesis by (intro exI conjI) (assumption | simp)+
qed

section \<open>The loops end\<close>

lemma write_loop_ends:
  assumes df: "deflate_ok df dend inflate active hist rank"
  shows "zo_inv hist base s \<Longrightarrow> active False (zs_state (zo_stream s)) \<Longrightarrow> zo_zerror s = Z_OK \<Longrightarrow> zs_next_in (zo_stream s) = Some p \<Longrightarrow>
    p \<le> length buf \<Longrightarrow> zs_avail_in (zo_stream s) = length buf - p \<Longrightarrow>
    \<exists>s'. zo_write_loop df buf s = Some (Inr s') \<and> zo_inv hist base s' \<and> active False (zs_state (zo_stream s')) \<and> zo_zerror s' = Z_OK \<and>
      zs_next_in (zo_stream s') = Some (length buf) \<and> zs_avail_in (zo_stream s') = 0 \<and>
      fst (hist (zs_state (zo_stream s'))) = fst (hist (zs_state (zo_stream s))) @ drop p buf"
proof (induction "rank (zs_state (zo_stream s)) (drop p buf)" arbitrary: s p rule: less_induct)
  case less
  let ?z = "zs_state (zo_stream s)"
  have inp: "zo_input buf s = drop p buf" using less.prems by (simp add: zo_input_def)
  show ?case
  proof (cases "p = length buf")
    case True
    with less.prems show ?thesis by (subst zo_write_loop.simps) simp
  next
    case False
    then have "flush_allowed False Z_NO_FLUSH (zo_input buf s)" using inp less.prems(5) by (simp add: flush_allowed_def)
    from zo_compress_spec [OF df less.prems(1,2) this] obtain error n bytes z s' where
      c: "zo_compress df Z_NO_FLUSH buf s = Inr (error, s')" "zo_inv hist base s'"
        "zo_stream s' = \<lparr>zs_next_in = Some (p + n), zs_avail_in = length buf - (p + n), zs_state = z\<rparr>"
        "deflate_step inflate active hist rank dend Z_NO_FLUSH (drop p buf) (length bytes) ?z (error, n, bytes, z)"
      using less.prems(4,6) inp by auto
    from c(4) have d: "error = Z_OK" "active False z" "rank z (drop (p + n) buf) < rank ?z (drop p buf)" "p + n \<le> length buf"
      "fst (hist z) = fst (hist ?z) @ take n (drop p buf)"
      using less.prems(5) by (auto simp: deflate_step_def Z_NO_FLUSH_def Z_FINISH_def add.commute)
    let ?s = "s'\<lparr>zo_zerror := error\<rparr>"
    have "\<exists>t. zo_write_loop df buf ?s = Some (Inr t) \<and> zo_inv hist base t \<and> active False (zs_state (zo_stream t)) \<and> zo_zerror t = Z_OK \<and>
        zs_next_in (zo_stream t) = Some (length buf) \<and> zs_avail_in (zo_stream t) = 0 \<and>
        fst (hist (zs_state (zo_stream t))) = fst (hist (zs_state (zo_stream ?s))) @ drop (p + n) buf"
      using less.hyps [of ?s "p + n"] c(2,3) d by (simp add: zo_inv_def)
    moreover have "zo_write_loop df buf s = zo_write_loop df buf ?s"
      using False less.prems c(1) by (subst zo_write_loop.simps) simp
    moreover have "take n (drop p buf) @ drop (p + n) buf = drop p buf" by (metis append_take_drop_id drop_drop add.commute)
    ultimately show ?thesis using c(3) d(5) by simp
  qed
qed

lemma finish_loop_ends:
  assumes df: "deflate_ok df dend inflate active hist rank"
  shows "zo_inv hist base s \<Longrightarrow> active fin (zs_state (zo_stream s)) \<Longrightarrow> zo_zerror s = Z_OK \<Longrightarrow> zs_next_in (zo_stream s) = None \<Longrightarrow>
    zs_avail_in (zo_stream s) = 0 \<Longrightarrow>
    \<exists>s'. zo_finish_loop df rng s = Some (Inr s') \<and> zo_inv hist base s' \<and>
      dend (zs_state (zo_stream s')) = Z_OK \<and>
      inflate (snd (hist (zs_state (zo_stream s')))) = Some (fst (hist (zs_state (zo_stream s))))"
proof (induction "rank (zs_state (zo_stream s)) []" arbitrary: s fin rule: less_induct)
  case less
  let ?z = "zs_state (zo_stream s)"
  have inp: "zo_input rng s = []" using less.prems by (simp add: zo_input_def)
  have "flush_allowed fin Z_FINISH (zo_input rng s)" using inp by (simp add: flush_allowed_def)
  from zo_compress_spec [OF df less.prems(1,2) this] obtain error n bytes z s' where
    c: "zo_compress df Z_FINISH rng s = Inr (error, s')" "zo_inv hist base s'"
      "zo_stream s' = \<lparr>zs_next_in = None, zs_avail_in = 0, zs_state = z\<rparr>"
      "deflate_step inflate active hist rank dend Z_FINISH [] (length bytes) ?z (error, n, bytes, z)"
    using less.prems(4,5) inp by auto
  let ?s = "s'\<lparr>zo_zerror := error\<rparr>"
  have inv: "zo_inv hist base ?s" using c(2) by (simp add: zo_inv_def)
  have unfold: "zo_finish_loop df rng s = zo_finish_loop df rng ?s"
    using less.prems(3) c(1) by (subst zo_finish_loop.simps) simp
  have same: "fst (hist z) = fst (hist ?z)" using c(4) by (simp add: deflate_step_def)
  show ?case
  proof (cases "error = Z_OK")
    case True
    then have "active True z" "rank z [] < rank ?z []" using c(4) by (auto simp: deflate_step_def Z_OK_def Z_STREAM_END_def)
    then show ?thesis unfolding unfold using less.hyps [of ?s True] inv c(3) True same by simp
  next
    case False
    then have "inflate (snd (hist z)) = Some (fst (hist z))" "dend z = Z_OK" using c(4) by (auto simp: deflate_step_def)
    then show ?thesis unfolding unfold using False inv c(3) same by (subst zo_finish_loop.simps) simp
  qed
qed

text \<open>The state between two writes.\<close>

definition zo_idle :: "(bool \<Rightarrow> 'z \<Rightarrow> bool) \<Rightarrow> 'z zlib_out \<Rightarrow> bool" where
  "zo_idle active s \<longleftrightarrow> active False (zs_state (zo_stream s)) \<and> zo_zerror s = Z_OK \<and> zs_next_in (zo_stream s) = None \<and> zs_avail_in (zo_stream s) = 0"

lemma zo_write_spec:
  assumes "deflate_ok df dend inflate active hist rank" and "zo_inv hist base s" and "zo_idle active s"
  shows "\<exists>s'. zo_write df buf s = Some (Inr (True, s')) \<and> zo_inv hist base s' \<and> zo_idle active s' \<and>
    fst (hist (zs_state (zo_stream s'))) = fst (hist (zs_state (zo_stream s))) @ buf"
proof -
  let ?s = "s\<lparr>zo_stream := (zo_stream s)\<lparr>zs_next_in := Some 0, zs_avail_in := length buf\<rparr>\<rparr>"
  have "zo_inv hist base ?s" using assms(2) by (simp add: zo_inv_def)
  from write_loop_ends [OF assms(1) this, of 0 buf] assms(3) obtain t where
    t: "zo_write_loop df buf ?s = Some (Inr t)" "zo_inv hist base t" "active False (zs_state (zo_stream t))" "zo_zerror t = Z_OK"
      "zs_next_in (zo_stream t) = Some (length buf)" "zs_avail_in (zo_stream t) = 0"
      "fst (hist (zs_state (zo_stream t))) = fst (hist (zs_state (zo_stream s))) @ buf" by (auto simp: zo_idle_def)
  then show ?thesis using assms(3)
    by (intro exI [of _ "t\<lparr>zo_stream := (zo_stream t)\<lparr>zs_next_in := None\<rparr>\<rparr>"]) (simp add: zo_write_def zo_idle_def zo_inv_def)
qed

lemma zo_writes_spec:
  assumes "deflate_ok df dend inflate active hist rank"
  shows "zo_inv hist base s \<Longrightarrow> zo_idle active s \<Longrightarrow>
    \<exists>s'. zo_writes df bufs s = Some (Inr (True, s')) \<and> zo_inv hist base s' \<and> zo_idle active s' \<and>
      fst (hist (zs_state (zo_stream s'))) = fst (hist (zs_state (zo_stream s))) @ concat bufs"
proof (induction bufs arbitrary: s)
  case Nil
  then show ?case by simp
next
  case (Cons buf bufs)
  from zo_write_spec [OF assms Cons.prems, of buf] obtain s1 where
    s1: "zo_write df buf s = Some (Inr (True, s1))" "zo_inv hist base s1" "zo_idle active s1"
      "fst (hist (zs_state (zo_stream s1))) = fst (hist (zs_state (zo_stream s))) @ buf" by blast
  from Cons.IH [OF s1(2,3)] s1(1,4) show ?case by auto
qed

section \<open>Properties\<close>

text \<open>
  A stream over a buffer that nobody reads from meanwhile: when its pieces were written and it was finished, every call has returned and
  reported success, no assertion has failed, and behind what the buffer held before there are bytes that decompress to
  the pieces, one after the other.
\<close>

theorem compressed_round_trip:
  assumes "deflate_ok df dend inflate active hist rank" and "active False z0" and "hist z0 = ([], [])"
    and "buffer_ok out" and "readerIndex out = kCheapPrepend" and "writableBytes out < 2 ^ 32"
    and "ZlibOutputStream_new 0 z0 out = Inr s"
  shows "\<exists>s' bytes. zo_compress_all df dend bufs s = Some (Inr (True, s')) \<and> buffer_ok (zo_output s') \<and>
    readable (zo_output s') = readable out @ bytes \<and> inflate bytes = Some (concat bufs)"
proof -
  have "size_ok 1024" unfolding size_ok_def by (rule exI [of _ 0]) simp
  then have inv: "zo_inv hist (readable out) s" and idle: "zo_idle active s" and z: "zs_state (zo_stream s) = z0"
    using assms by (auto simp: ZlibOutputStream_new_def zo_inv_def zo_idle_def out_ok_def)
  from zo_writes_spec [OF assms(1) inv idle, of bufs] obtain s1 where
    s1: "zo_writes df bufs s = Some (Inr (True, s1))" "zo_inv hist (readable out) s1" "zo_idle active s1"
      "fst (hist (zs_state (zo_stream s1))) = concat bufs" by (auto simp: z assms(3))
  from finish_loop_ends [OF assms(1) s1(2), of False "[]"] s1(3,4) obtain s2 where
    s2: "zo_finish_loop df [] s1 = Some (Inr s2)" "zo_inv hist (readable out) s2" "dend (zs_state (zo_stream s2)) = Z_OK"
      "inflate (snd (hist (zs_state (zo_stream s2)))) = Some (concat bufs)" by (auto simp: zo_idle_def)
  have "zo_compress_all df dend bufs s = Some (Inr (True, s2\<lparr>zo_zerror := Z_STREAM_END\<rparr>))"
    using s1(1,3) s2(1,3) by (simp add: zo_compress_all_def zo_finish_def zo_idle_def)
  then show ?thesis using s2(2,4)
    by (intro exI [of _ "s2\<lparr>zo_zerror := Z_STREAM_END\<rparr>"] exI [of _ "snd (hist (zs_state (zo_stream s2)))"]) (simp add: zo_inv_def out_ok_def)
qed

text \<open>After \<^verbatim>\<open>finish()\<close>, the destructor's second call and later writes do nothing.\<close>

theorem finished_stays_finished:
  assumes "zo_finish df dend rng s = Some (Inr (ok, s'))" and "zo_zerror s = Z_OK"
  shows "zo_finish df dend rng' s' = Some (Inr (False, s'))" and "zo_write df buf s' = Some (Inr (False, s'))"
  using assms by (auto simp: zo_finish_def zo_write_def bind_r_eq_Inr Z_OK_def Z_STREAM_END_def)

text \<open>\<^verbatim>\<open>write(Buffer*)\<close> does not reset \<^verbatim>\<open>next_in\<close>, so a piece written after it fails the assertion of \<^verbatim>\<open>write(StringPiece)\<close>.\<close>

theorem piece_after_buffer_asserts:
  assumes "deflate_ok df dend inflate active hist rank" and "zo_inv hist base s" and "zo_idle active s" and "buffer_ok input"
    and "readableBytes input < 2 ^ 32"
  shows "returns (zo_write_buffer df input s) (\<lambda>(ok, _, s'). ok \<and>
    zo_write df buf s' = Some (Inl (AssertFail ''zstream_.next_in == NULL && zstream_.avail_in == 0'')))"
proof -
  let ?s = "s\<lparr>zo_stream := (zo_stream s)\<lparr>zs_next_in := Some 0, zs_avail_in := readableBytes input\<rparr>\<rparr>"
  have inv: "zo_inv hist base ?s" and act: "active False (zs_state (zo_stream ?s))" using assms(2,3) by (simp_all add: zo_inv_def zo_idle_def)
  show ?thesis
  proof (cases "readableBytes input = 0")
    case True
    from retrieve_spec [OF assms(4), of 0] obtain b where "retrieve 0 input = Inr b" by (auto elim: returnsE)
    with True assms(3) show ?thesis by (simp add: zo_write_buffer_def zo_write_def zo_idle_def Let_def)
  next
    case False
    have inp: "zo_input (readable input) ?s = readable input" using assms(4) by (simp add: zo_input_def)
    have "readable input \<noteq> []" using False assms(4) by (metis length_readable list.size(3))
    then have "flush_allowed False Z_NO_FLUSH (zo_input (readable input) ?s)" by (simp add: inp flush_allowed_def)
    from zo_compress_spec [OF assms(1) inv act this] obtain error n bytes z s' where
      c: "zo_compress df Z_NO_FLUSH (readable input) ?s = Inr (error, s')"
        "zo_stream s' = \<lparr>zs_next_in = Some n, zs_avail_in = readableBytes input - n, zs_state = z\<rparr>"
        "deflate_step inflate active hist rank dend Z_NO_FLUSH (readable input) (length bytes) (zs_state (zo_stream ?s)) (error, n, bytes, z)"
      unfolding inp by auto
    have e: "error = Z_OK" using c(3) by (auto simp: deflate_step_def Z_NO_FLUSH_def Z_FINISH_def)
    from retrieve_spec [OF assms(4), of "readableBytes input - (readableBytes input - n)"] obtain b where
      "retrieve (readableBytes input - (readableBytes input - n)) input = Inr b" by (auto elim: returnsE)
    with False assms(3,5) c(1,2) e show ?thesis by (simp add: zo_write_buffer_def zo_write_def zo_idle_def Let_def)
  qed
qed

text \<open>As the class is, it cannot be used: \<^verbatim>\<open>memZero\<close> leaves a pointer that is not null and no function.\<close>

theorem constructor_undefined: "ZlibOutputStream_new memZero_fill z0 out = Inl (Undefined ''zalloc'')"
  by (simp add: ZlibOutputStream_new_def memZero_fill_def)

section \<open>An example of a compressor\<close>

text \<open>
  A stream that keeps what it takes and marks every byte with \<open>d\<close> and the end with \<open>e\<close>; it takes its input first and writes when it is
  asked to finish. It shows that what is promised can be kept.
\<close>

record marker =
  mk_taken :: "char list"
  mk_written :: "char list"
  mk_pending :: "char list"
  mk_ending :: bool

definition mark :: "char list \<Rightarrow> char list" where
  "mark xs = concat (map (\<lambda>c. [CHR ''d'', c]) xs)"

fun unmark :: "char list \<Rightarrow> char list option" where
  "unmark (m # rest) =
     (if m = CHR ''e'' then (if rest = [] then Some [] else None)
      else (case rest of [] \<Rightarrow> None | c # cs \<Rightarrow> map_option ((#) c) (unmark cs)))"
| "unmark [] = None"

definition marker_deflate :: "marker deflater" where
  "marker_deflate flush inp avail z =
     (let taken = mk_taken z @ inp;
          pending = mk_pending z @ mark inp @ (if flush = Z_FINISH \<and> \<not> mk_ending z then ''e'' else []);
          out = take avail pending
      in (if flush = Z_FINISH \<and> length pending \<le> avail then Z_STREAM_END else Z_OK, length inp, out,
          \<lparr>mk_taken = taken, mk_written = mk_written z @ out, mk_pending = drop avail pending, mk_ending = mk_ending z \<or> flush = Z_FINISH\<rparr>))"

definition marker_active :: "bool \<Rightarrow> marker \<Rightarrow> bool" where
  "marker_active fin z \<longleftrightarrow> mk_ending z = fin \<and> mk_written z @ mk_pending z = mark (mk_taken z) @ (if fin then ''e'' else [])"

definition marker_rank :: "marker \<Rightarrow> char list \<Rightarrow> nat" where
  "marker_rank z inp = length (mk_pending z) + 3 * length inp + (if mk_ending z then 0 else 2)"

definition marker_new :: marker where
  "marker_new = \<lparr>mk_taken = [], mk_written = [], mk_pending = [], mk_ending = False\<rparr>"

lemma mark_simps [simp]: "mark [] = []" "mark (c # cs) = CHR ''d'' # c # mark cs" "mark (xs @ ys) = mark xs @ mark ys"
  by (simp_all add: mark_def)

lemma length_mark [simp]: "length (mark xs) = 2 * length xs"
  by (induction xs) simp_all

lemma unmark_mark: "unmark (mark xs @ ''e'') = Some xs"
  by (induction xs) simp_all

lemma marker_ok: "deflate_ok marker_deflate (\<lambda>_. Z_OK) unmark marker_active (\<lambda>z. (mk_taken z, mk_written z)) marker_rank"
  unfolding deflate_ok_def
proof (intro allI impI, elim conjE)
  fix fin flush inp z and avail :: nat
  assume act: "marker_active fin z" and avail: "0 < avail" and fl: "flush_allowed fin flush inp"
  define pending where "pending = mk_pending z @ mark inp @ (if flush = Z_FINISH \<and> \<not> mk_ending z then ''e'' else [])"
  have whole: "mk_written z @ pending = mark (mk_taken z @ inp) @ (if flush = Z_FINISH then ''e'' else [])"
    using act fl by (cases fin) (auto simp: marker_active_def flush_allowed_def pending_def)
  let ?z = "\<lparr>mk_taken = mk_taken z @ inp, mk_written = mk_written z @ take avail pending, mk_pending = drop avail pending,
    mk_ending = mk_ending z \<or> flush = Z_FINISH\<rparr>"
  have r: "marker_deflate flush inp avail z =
      (if flush = Z_FINISH \<and> length pending \<le> avail then Z_STREAM_END else Z_OK, length inp, take avail pending, ?z)"
    by (simp add: marker_deflate_def pending_def Let_def)
  show "deflate_step unmark marker_active (\<lambda>z. (mk_taken z, mk_written z)) marker_rank (\<lambda>_. Z_OK) flush inp avail z (marker_deflate flush inp avail z)"
  proof (cases "flush = Z_FINISH \<and> length pending \<le> avail")
    case True
    then have "mk_written z @ take avail pending = mark (mk_taken z @ inp) @ ''e''" using whole by simp
    with True unmark_mark [of "mk_taken z @ inp"] show ?thesis unfolding r by (simp add: deflate_step_def)
  next
    case False
    have "mk_written ?z @ mk_pending ?z = mk_written z @ pending" by simp
    then have "marker_active (flush = Z_FINISH) ?z"
      using whole act fl by (auto simp: marker_active_def flush_allowed_def simp del: append_assoc)
    moreover have "marker_rank ?z [] < marker_rank z inp"
    proof (cases "flush = Z_FINISH")
      case True
      then have "avail < length pending" using False by simp
      then show ?thesis using True avail by (cases "mk_ending z") (auto simp: marker_rank_def pending_def)
    next
      case False
      then have "inp \<noteq> []" "\<not> mk_ending z" using fl act by (auto simp: flush_allowed_def marker_active_def Z_FINISH_def split: if_splits)
      then show ?thesis using False by (cases inp) (auto simp: marker_rank_def pending_def)
    qed
    ultimately show ?thesis using False unfolding r by (auto simp: deflate_step_def)
  qed
qed

text \<open>Two pieces through this compressor into a new buffer.\<close>

theorem compressed_round_trip_example:
  "\<exists>s s' bytes. ZlibOutputStream_new 0 marker_new small_buffer = Inr s \<and>
    zo_compress_all marker_deflate (\<lambda>_. Z_OK) [''ab'', ''c''] s = Some (Inr (True, s')) \<and>
    readable (zo_output s') = readable small_buffer @ bytes \<and> unmark bytes = Some ''abc''"
proof -
  let ?s = "\<lparr>zo_output = small_buffer, zo_stream = \<lparr>zs_next_in = None, zs_avail_in = 0, zs_state = marker_new\<rparr>, zo_zerror = Z_OK, zo_bufferSize = 1024\<rparr>"
  have new: "ZlibOutputStream_new 0 marker_new small_buffer = Inr ?s" by (simp add: ZlibOutputStream_new_def)
  from compressed_round_trip [OF marker_ok _ _ _ _ _ new, of "[''ab'', ''c'']"] new show ?thesis
    by (auto simp: marker_active_def marker_new_def small_buffer_def kCheapPrepend_def buffer_ok_def writableBytes_def)
qed

end
